(* ===== verification/Prelude.thy ===== *)
theory Prelude imports Main "HOL-Library.Monad_Syntax" "HOL-Library.AList" begin

text \<open>
  What every other theory shares: the types of the model, the reading of Rust's
  panics and checked arithmetic, and generic facts about lists, options and
  association lists.

  A Rust \<open>char\<close> is a Unicode scalar value and a \<open>String\<close>, a \<open>&str\<close> and a rope are
  sequences of them. The model keeps the scalar values as natural numbers, so
  a text is a list of numbers and a char offset is an index into it.

  A Rust \<open>usize\<close> is a natural number. Where the code checks for overflow the bound
  \<open>usize_max\<close> of a 64-bit target is written out.

  A function that may panic returns an option: \<open>None\<close> is the panic. A Rust
  \<open>Result<T, E>\<close> is the sum \<open>E + T\<close>, with \<open>Inl\<close> for \<open>Err\<close>.
\<close>

type_synonym uchar = nat
type_synonym ustring = "uchar list"

abbreviation NL :: uchar where "NL \<equiv> 10"
abbreviation CR :: uchar where "CR \<equiv> 13"
abbreviation TAB :: uchar where "TAB \<equiv> 9"
abbreviation SPC :: uchar where "SPC \<equiv> 32"

text \<open>Facts that rewrite the model's executions, and facts about the code's invariants.\<close>

named_theorems model_simps
named_theorems inv_intros

text \<open>An assertion of the code: panics unless the condition holds.\<close>

definition ensure :: "bool \<Rightarrow> unit option" where
  "ensure b = (if b then Some () else None)"

lemma ensure_simps [simp]:
  "ensure True = Some ()" "ensure False = None"
  by (simp_all add: ensure_def)

lemma ensure_bind [simp]: "(ensure b \<bind> f) = (if b then f () else None)"
  by (simp add: ensure_def)

lemma ensure_eq_Some [simp]: "(ensure b = Some u) = b"
  by (simp add: ensure_def)

text \<open>The largest \<open>usize\<close> and \<open>checked_add\<close> on it.\<close>

definition usize_max :: nat where
  "usize_max = 2 ^ 64 - 1"

definition checked_add :: "nat \<Rightarrow> nat \<Rightarrow> nat option" where
  "checked_add a b = (if a + b \<le> usize_max then Some (a + b) else None)"

lemma checked_add_Some: "(checked_add a b = Some c) = (c = a + b \<and> a + b \<le> usize_max)"
  by (auto simp: checked_add_def)

text \<open>\<open>usize::checked_add_signed\<close>, for a result that stays in range above.\<close>

definition checked_add_signed :: "nat \<Rightarrow> int \<Rightarrow> nat option" where
  "checked_add_signed a d = (if 0 \<le> int a + d then Some (nat (int a + d)) else None)"

lemma checked_add_signed_Some:
  "(checked_add_signed a d = Some b) = (int b = int a + d)"
  by (auto simp: checked_add_signed_def)

text \<open>\<open>usize::checked_sub\<close> and \<open>slice::get\<close>.\<close>

definition checked_sub :: "nat \<Rightarrow> nat \<Rightarrow> nat option" where
  "checked_sub a b = (if b \<le> a then Some (a - b) else None)"

definition nth_opt :: "'a list \<Rightarrow> nat \<Rightarrow> 'a option" where
  "nth_opt xs i = (if i < length xs then Some (xs ! i) else None)"

lemma nth_opt_Some: "(nth_opt xs i = Some x) = (i < length xs \<and> xs ! i = x)"
  by (auto simp: nth_opt_def)

lemma nth_opt_None: "(nth_opt xs i = None) = (length xs \<le> i)"
  by (auto simp: nth_opt_def)

text \<open>The next item of an iterator whose remaining items are the list.\<close>

fun position_of :: "('a \<Rightarrow> bool) \<Rightarrow> 'a list \<Rightarrow> nat option" where
  "position_of P [] = None"
| "position_of P (x # xs) = (if P x then Some 0 else map_option Suc (position_of P xs))"

lemma position_of_Some:
  "position_of P xs = Some i \<Longrightarrow> i < length xs \<and> P (xs ! i) \<and> (\<forall>x \<in> set (take i xs). \<not> P x)"
  by (induction xs arbitrary: i) (auto split: if_splits)

lemma position_of_None: "position_of P xs = None \<longleftrightarrow> (\<forall>x \<in> set xs. \<not> P x)"
  by (induction xs) auto

lemma position_of_append:
  "position_of P (xs @ ys) = (case position_of P xs of Some i \<Rightarrow> Some i | None \<Rightarrow> map_option ((+) (length xs)) (position_of P ys))"
proof (induction xs)
  case Nil
  then show ?case by (cases "position_of P ys") auto
next
  case (Cons x xs)
  then show ?case by (cases "position_of P xs"; cases "position_of P ys") auto
qed

fun next_item :: "'a list \<Rightarrow> 'a option" where
  "next_item [] = None"
| "next_item (x # xs) = Some x"

lemma next_item_eq: "next_item xs = (if xs = [] then None else Some (hd xs))"
  by (cases xs) auto

text \<open>The chars \<open>a..b\<close> of a text; slicing panics when the range is not inside it.\<close>

definition slice :: "'a list \<Rightarrow> nat \<Rightarrow> nat \<Rightarrow> 'a list" where
  "slice t a b = take (b - a) (drop a t)"

definition slice_opt :: "'a list \<Rightarrow> nat \<Rightarrow> nat \<Rightarrow> 'a list option" where
  "slice_opt t a b = (if a \<le> b \<and> b \<le> length t then Some (slice t a b) else None)"

lemma length_slice [simp]: "length (slice t a b) = min (b - a) (length t - a)"
  by (simp add: slice_def)

lemma slice_opt_Some:
  "(slice_opt t a b = Some s) = (a \<le> b \<and> b \<le> length t \<and> s = slice t a b)"
  by (auto simp: slice_opt_def)

lemma set_slice_subset: "set (slice t a b) \<subseteq> set t"
  unfolding slice_def by (rule subset_trans [OF set_take_subset set_drop_subset])

text \<open>\<open>char::is_whitespace\<close>, the Unicode property \<open>White_Space\<close>.\<close>

definition is_whitespace :: "uchar \<Rightarrow> bool" where
  "is_whitespace c \<longleftrightarrow> 9 \<le> c \<and> c \<le> 13 \<or> c = 32 \<or> c = 0x85 \<or> c = 0xA0 \<or> c = 0x1680 \<or> 0x2000 \<le> c \<and> c \<le> 0x200A \<or>
     c = 0x2028 \<or> c = 0x2029 \<or> c = 0x202F \<or> c = 0x205F \<or> c = 0x3000"

text \<open>Association lists with distinct keys, the model's hash maps.\<close>

definition keys :: "('k \<times> 'v) list \<Rightarrow> 'k list" where
  "keys m = map fst m"

lemma keys_simps [simp]: "keys [] = []" "keys (p # m) = fst p # keys m"
  by (simp_all add: keys_def)

lemma set_keys: "set (keys m) = dom (map_of m)"
  by (simp add: keys_def dom_map_of_conv_image_fst)

lemma distinct_keys_update [simp]:
  "distinct (keys m) \<Longrightarrow> distinct (keys (AList.update k v m))"
  by (simp add: keys_def distinct_update)

lemma distinct_keys_delete [simp]:
  "distinct (keys m) \<Longrightarrow> distinct (keys (AList.delete k m))"
  by (simp add: keys_def distinct_delete)

lemma map_of_update [simp]: "map_of (AList.update k v m) = (map_of m)(k \<mapsto> v)"
  by (rule ext) (simp add: update_conv)

lemma map_of_delete [simp]: "map_of (AList.delete k m) = (map_of m)(k := None)"
  by (rule ext) (simp add: delete_conv)

lemma delete_key_absent: "k \<notin> set (keys m) \<Longrightarrow> AList.delete k m = m"
  by (induction m) (auto simp: AList.delete_eq)

lemma length_delete_key:
  "distinct (keys m) \<Longrightarrow> k \<in> set (keys m) \<Longrightarrow> Suc (length (AList.delete k m)) = length m"
proof (induction m)
  case (Cons p m)
  show ?case
  proof (cases "fst p = k")
    case True
    then have "AList.delete k m = m" using Cons.prems by (intro delete_key_absent) auto
    with True show ?thesis by (cases p) simp
  next
    case False
    with Cons show ?thesis by (cases p) simp
  qed
qed simp

lemma length_update_key:
  "length (AList.update k v m) = (if k \<in> set (keys m) then length m else Suc (length m))"
  by (induction m) auto

lemma distinct_keys_length: "distinct (keys m) \<Longrightarrow> card (dom (map_of m)) = length m"
  by (simp add: set_keys [symmetric] distinct_card) (simp add: keys_def)

text \<open>The first and the last index of a range with a property.\<close>

lemma find_upt_Some:
  "find P [a..<b] = Some j \<longleftrightarrow> a \<le> j \<and> j < b \<and> P j \<and> (\<forall>k. a \<le> k \<and> k < j \<longrightarrow> \<not> P k)"
proof
  assume "find P [a..<b] = Some j"
  then obtain i where i: "i < b - a" "P (a + i)" "j = a + i" "\<forall>k<i. \<not> P (a + k)"
    by (auto simp: find_Some_iff)
  have "\<not> P k" if "a \<le> k" "k < j" for k
    using i(4) [rule_format, of "k - a"] that i(3) by simp
  with i show "a \<le> j \<and> j < b \<and> P j \<and> (\<forall>k. a \<le> k \<and> k < j \<longrightarrow> \<not> P k)" by auto
next
  assume "a \<le> j \<and> j < b \<and> P j \<and> (\<forall>k. a \<le> k \<and> k < j \<longrightarrow> \<not> P k)"
  then show "find P [a..<b] = Some j" by (auto simp: find_Some_iff intro!: exI [of _ "j - a"])
qed

lemma find_rev_upt_Some:
  "find P (rev [0..<b]) = Some j \<longleftrightarrow> j < b \<and> P j \<and> (\<forall>k. j < k \<and> k < b \<longrightarrow> \<not> P k)"
proof (induction b)
  case (Suc b)
  show ?case
  proof (cases "P b")
    case True
    then show ?thesis by (auto simp: not_less_eq less_Suc_eq)
  next
    case False
    have "(j < b \<and> P j \<and> (\<forall>k. j < k \<and> k < b \<longrightarrow> \<not> P k)) \<longleftrightarrow>
        (j < Suc b \<and> P j \<and> (\<forall>k. j < k \<and> k < Suc b \<longrightarrow> \<not> P k))"
      using False by (auto simp: less_Suc_eq)
    with Suc.IH False show ?thesis by simp
  qed
qed simp

lemma sort_key_sorted: "sorted (map f xs) \<Longrightarrow> sort_key f xs = xs"
  by (induction xs) (auto simp: insort_is_Cons)

end
