(* ===== verification/Rope.thy ===== *)
theory Rope imports Prelude begin

text \<open>
  The line queries of \<open>hume-rope\<close> (\<open>lines.rs\<close>, \<open>line.rs\<close>, \<open>offset.rs\<close>). A rope is the
  sequence of scalar values it holds: \<open>ropey\<close> documents every operation the code
  calls by its effect on that sequence, lines split on LF alone, and the last
  line is what follows the last LF (the phantom line of a text that ends with
  one). The first section states those operations of \<open>ropey\<close>, with their panics;
  the rest is the code's own.
\<close>

section \<open>Char sequences\<close>

abbreviation nl_count :: "ustring \<Rightarrow> nat" where
  "nl_count t \<equiv> count_list t NL"

text \<open>Offset of the first char of line \<open>l\<close>: what follows the \<open>l\<close>-th LF.\<close>

fun line_offset :: "ustring \<Rightarrow> nat \<Rightarrow> nat" where
  "line_offset t 0 = 0"
| "line_offset [] (Suc l) = 0"
| "line_offset (c # t) (Suc l) = Suc (line_offset t (if c = NL then l else Suc l))"

definition rope_len_lines :: "ustring \<Rightarrow> nat" where
  "rope_len_lines t = Suc (nl_count t)"

definition rope_line_to_char :: "ustring \<Rightarrow> nat \<Rightarrow> nat option" where
  "rope_line_to_char t l = (if l \<le> rope_len_lines t then Some (line_offset t l) else None)"

definition rope_char_to_line :: "ustring \<Rightarrow> nat \<Rightarrow> nat option" where
  "rope_char_to_line t i = (if i \<le> length t then Some (nl_count (take i t)) else None)"

definition rope_remove :: "ustring \<Rightarrow> nat \<Rightarrow> nat \<Rightarrow> ustring option" where
  "rope_remove t a b = (if a \<le> b \<and> b \<le> length t then Some (take a t @ drop b t) else None)"

definition rope_insert :: "ustring \<Rightarrow> nat \<Rightarrow> ustring \<Rightarrow> ustring option" where
  "rope_insert t p s = (if p \<le> length t then Some (take p t @ s @ drop p t) else None)"

lemma count_list_take_le: "count_list (take i t) c \<le> count_list t c"
  by (metis append_take_drop_id count_list_append le_add1)

lemma count_list_take_mono: "i \<le> j \<Longrightarrow> count_list (take i t) c \<le> count_list (take j t) c"
  by (metis count_list_take_le min.absorb1 take_take)

lemma line_offset_le [simp]: "line_offset t l \<le> length t"
  by (induction t l rule: line_offset.induct) auto

lemma line_offset_past: "nl_count t < l \<Longrightarrow> line_offset t l = length t"
  by (induction t l rule: line_offset.induct) (auto split: if_splits)

lemma nl_count_before_line: "l \<le> nl_count t \<Longrightarrow> nl_count (take (line_offset t l) t) = l"
  by (induction t l rule: line_offset.induct) (auto split: if_splits)

text \<open>A line starts at or before an offset iff that many LFs lie before it.\<close>

lemma line_offset_le_iff:
  "l \<le> nl_count t \<Longrightarrow> i \<le> length t \<Longrightarrow> line_offset t l \<le> i \<longleftrightarrow> l \<le> nl_count (take i t)"
proof (induction t l arbitrary: i rule: line_offset.induct)
  case (3 c t l)
  show ?case
  proof (cases i)
    case (Suc j)
    with "3.IH" [of j] "3.prems" show ?thesis by (auto split: if_splits)
  qed simp
qed auto

lemma line_offset_mono: "k \<le> l \<Longrightarrow> l \<le> nl_count t \<Longrightarrow> line_offset t k \<le> line_offset t l"
  by (subst line_offset_le_iff) (auto simp: nl_count_before_line)

lemma line_offset_prev_nl: "0 < l \<Longrightarrow> l \<le> nl_count t \<Longrightarrow>
   0 < line_offset t l \<and> t ! (line_offset t l - 1) = NL"
proof (induction t l rule: line_offset.induct)
  case (3 c t l)
  show ?case
  proof (cases "c = NL")
    case True
    with 3 show ?thesis by (cases l) (auto simp: nth_Cons')
  next
    case False
    with 3 show ?thesis by (auto simp: nth_Cons')
  qed
qed auto

lemma line_offset_strict:
  "k < l \<Longrightarrow> l \<le> nl_count t \<Longrightarrow> line_offset t k < line_offset t l"
proof -
  assume a: "k < l" "l \<le> nl_count t"
  have "line_offset t k \<le> line_offset t l" by (rule line_offset_mono) (use a in auto)
  moreover have "line_offset t k \<noteq> line_offset t l"
    using nl_count_before_line [of k t] nl_count_before_line [of l t] a by auto
  ultimately show ?thesis by simp
qed

text \<open>Offset of the LF that ends line \<open>l\<close>.\<close>

lemma line_lf:
  assumes "l < nl_count t"
  shows "line_offset t l \<le> line_offset t (Suc l) - 1"
    and "line_offset t (Suc l) - 1 < length t"
    and "t ! (line_offset t (Suc l) - 1) = NL"
    and "nl_count (take (line_offset t (Suc l) - 1) t) = l"
proof -
  let ?e = "line_offset t (Suc l)"
  have e: "0 < ?e" "t ! (?e - 1) = NL"
    using line_offset_prev_nl [of "Suc l" t] assms by auto
  have lt: "line_offset t l < ?e" by (rule line_offset_strict) (use assms in auto)
  then show "line_offset t l \<le> ?e - 1" by simp
  show len: "?e - 1 < length t" using e(1) line_offset_le [of t "Suc l"] by linarith
  show "t ! (?e - 1) = NL" by (rule e(2))
  have "nl_count (take ?e t) = Suc l" using assms by (simp add: nl_count_before_line)
  moreover have "take ?e t = take (?e - 1) t @ [t ! (?e - 1)]"
    using take_Suc_conv_app_nth [OF len] e(1) by simp
  ultimately show "nl_count (take (?e - 1) t) = l" using e(2) by simp
qed

section \<open>Line domains (\<open>line.rs\<close>) and line counts\<close>

text \<open>A \<open>RopeyLine\<close> and a \<open>ContentLine\<close> are indices; the phantom last line is a
  \<open>RopeyLine\<close> only.\<close>

definition ends_with_newline :: "ustring \<Rightarrow> bool" where
  "ends_with_newline rope = (let len = length rope in len = 0 \<or> rope ! (len - 1) = NL)"

definition ropey_line_count :: "ustring \<Rightarrow> nat" where
  "ropey_line_count rope = rope_len_lines rope"

definition line_start_char :: "ustring \<Rightarrow> nat \<Rightarrow> nat option" where
  "line_start_char rope line = rope_line_to_char rope line"

definition char_to_ropey_line :: "ustring \<Rightarrow> nat \<Rightarrow> nat option" where
  "char_to_ropey_line rope pos = rope_char_to_line rope pos"

definition last_ropey_line :: "ustring \<Rightarrow> nat" where
  "last_ropey_line rope = ropey_line_count rope - 1"

definition content_line_count :: "ustring \<Rightarrow> nat" where
  "content_line_count rope = ropey_line_count rope - 1"

definition last_content_line :: "ustring \<Rightarrow> nat" where
  "last_content_line rope = content_line_count rope - 1"

definition ropey_line_clamped :: "ustring \<Rightarrow> nat \<Rightarrow> nat" where
  "ropey_line_clamped rope idx = min idx (last_ropey_line rope)"

definition to_content :: "ustring \<Rightarrow> nat \<Rightarrow> nat option" where
  "to_content rope line = (if line < content_line_count rope then Some line else None)"

definition content_line_checked :: "ustring \<Rightarrow> nat \<Rightarrow> nat option" where
  "content_line_checked rope idx = (if idx < content_line_count rope then Some idx else None)"

definition content_line_clamped :: "ustring \<Rightarrow> nat \<Rightarrow> nat" where
  "content_line_clamped rope idx = min idx (last_content_line rope)"

definition content_line_from_number :: "nat \<Rightarrow> nat option" where
  "content_line_from_number n = checked_sub n 1"

lemmas line_count_defs =
  ropey_line_count_def rope_len_lines_def last_ropey_line_def content_line_count_def
  last_content_line_def

lemma content_line_count_eq [simp]: "content_line_count rope = nl_count rope"
  by (simp add: line_count_defs)

lemma last_ropey_line_eq [simp]: "last_ropey_line rope = nl_count rope"
  by (simp add: line_count_defs)

lemma nl_count_pos: "ends_with_newline rope \<Longrightarrow> rope \<noteq> [] \<Longrightarrow> 0 < nl_count rope"
proof -
  assume a: "ends_with_newline rope" "rope \<noteq> []"
  then have "last rope = NL" by (simp add: ends_with_newline_def Let_def last_conv_nth)
  then have "NL \<in> set rope" using last_in_set [OF a(2)] by simp
  then show ?thesis using count_list_0_iff by fastforce
qed

section \<open>Line starts and terminators\<close>

definition next_line_start :: "ustring \<Rightarrow> nat \<Rightarrow> nat option" where
  "next_line_start rope line =
     (let next = line + 1 in
      if next < ropey_line_count rope then rope_line_to_char rope next
      else Some (length rope))"

definition line_terminator_start :: "ustring \<Rightarrow> nat \<Rightarrow> nat option" where
  "line_terminator_start rope line = do {
     end_excl \<leftarrow> next_line_start rope line;
     if line + 1 < ropey_line_count rope then checked_sub end_excl 1 else Some end_excl }"

definition line_start :: "ustring \<Rightarrow> nat \<Rightarrow> nat option" where
  "line_start rope line = do {
     ensure (line < content_line_count rope);
     line_start_char rope line }"

definition line_break :: "ustring \<Rightarrow> nat \<Rightarrow> nat option" where
  "line_break rope line = do {
     ensure (line < content_line_count rope);
     line_terminator_start rope line }"

definition ropey_line_start :: "ustring \<Rightarrow> nat \<Rightarrow> nat option" where
  "ropey_line_start rope line = line_start_char rope line"

definition is_empty_line_token :: "ustring \<Rightarrow> bool" where
  "is_empty_line_token token =
     (if length token = 0 then True
      else if length token = 1 then token ! 0 = NL
      else False)"

definition char_col_in_line :: "ustring \<Rightarrow> nat \<Rightarrow> nat \<Rightarrow> nat option" where
  "char_col_in_line rope line pos = do {
     start \<leftarrow> rope_line_to_char rope line;
     Some (pos - start) }"

lemma line_start_content:
  "line < nl_count rope \<Longrightarrow> line_start rope line = Some (line_offset rope line)"
  by (simp add: line_start_def line_start_char_def rope_line_to_char_def rope_len_lines_def)

lemma next_line_start_content:
  "line < nl_count rope \<Longrightarrow> next_line_start rope line = Some (line_offset rope (Suc line))"
  by (simp add: next_line_start_def Let_def line_count_defs rope_line_to_char_def)

lemma line_break_content:
  "line < nl_count rope \<Longrightarrow> line_break rope line = Some (line_offset rope (Suc line) - 1)"
  using line_offset_strict [of line "Suc line" rope]
  by (auto simp: line_break_def line_terminator_start_def next_line_start_content line_count_defs
      checked_sub_def)

lemma char_to_line_between:
  assumes "line < nl_count rope" "line_offset rope line \<le> pos" "pos < line_offset rope (Suc line)"
  shows "char_to_ropey_line rope pos = Some line"
proof -
  have pos: "pos \<le> length rope" using assms(3) line_offset_le [of rope "Suc line"] by linarith
  have "line \<le> nl_count (take pos rope)"
    using line_offset_le_iff [of line rope pos] assms pos by simp
  moreover have "\<not> Suc line \<le> nl_count (take pos rope)"
    using line_offset_le_iff [of "Suc line" rope pos] assms pos by simp
  ultimately show ?thesis
    using pos by (simp add: char_to_ropey_line_def rope_char_to_line_def)
qed

end
