(* ===== verification/Grapheme.thy ===== *)
theory Grapheme imports Rope begin

text \<open>
  Grapheme clusters: \<open>hume-rope/src/grapheme.rs\<close> and \<open>cluster.rs\<close>, and the cluster-valued line
  queries of \<open>lines.rs\<close>. Where a cluster may break is \<open>unicode-segmentation\<close>'s
  \<open>GraphemeCursor\<close>, a parameter: \<open>B t i\<close> says that offset \<open>i\<close> of the text \<open>t\<close> is a boundary.
  What the code relies on is \<open>seg_ok\<close>, rules GB1 to GB5 of UAX 29 and the fact, stated in
  \<open>snap_on_cursor\<close>, that only a non-ASCII char joins a cluster to its neighbour.
\<close>

type_synonym segmentation = "ustring \<Rightarrow> nat \<Rightarrow> bool"

text \<open>Whether a boundary between two chars follows from the chars alone.\<close>

definition is_ascii :: "uchar \<Rightarrow> bool" where
  "is_ascii c = (c < 128)"

definition breaks_between :: "uchar \<Rightarrow> uchar \<Rightarrow> bool" where
  "breaks_between c d = (is_ascii c \<and> is_ascii d \<and> \<not> (c = CR \<and> d = NL))"

definition seg_ok :: "segmentation \<Rightarrow> bool" where
  "seg_ok B = (\<forall>t. B t 0 \<and> B t (length t) \<and>
     (\<forall>i. 0 < i \<and> i < length t \<longrightarrow>
        (breaks_between (t ! (i - 1)) (t ! i) \<longrightarrow> B t i) \<and>
        (t ! (i - 1) = NL \<longrightarrow> B t i) \<and>
        (t ! i = NL \<and> t ! (i - 1) \<noteq> CR \<longrightarrow> B t i)))"

text \<open>The hypothesis is satisfiable: a segmentation that joins U+0301 to the char before it and
  keeps CR LF together.\<close>

definition demo_seg :: segmentation where
  "demo_seg t i = (i = 0 \<or> length t \<le> i \<or>
     (t ! i \<noteq> 0x301 \<or> t ! (i - 1) = NL) \<and> \<not> (t ! (i - 1) = CR \<and> t ! i = NL))"

lemma demo_seg_ok: "seg_ok demo_seg"
  by (auto simp: seg_ok_def demo_seg_def breaks_between_def is_ascii_def)

section \<open>Stepping over clusters\<close>

text \<open>\<open>GraphemeCursor\<close>'s steps from an offset: the nearest boundary after it and before it.\<close>

definition next_boundary :: "segmentation \<Rightarrow> ustring \<Rightarrow> nat \<Rightarrow> nat" where
  "next_boundary B t i = (case find (B t) [Suc i..<Suc (length t)] of Some j \<Rightarrow> j | None \<Rightarrow> length t)"

definition prev_boundary :: "segmentation \<Rightarrow> ustring \<Rightarrow> nat \<Rightarrow> nat" where
  "prev_boundary B t i = (case find (B t) (rev [0..<i]) of Some j \<Rightarrow> j | None \<Rightarrow> 0)"

lemma next_boundary_props:
  assumes "B t (length t)" "i < length t"
  shows "i < next_boundary B t i" "next_boundary B t i \<le> length t" "B t (next_boundary B t i)"
    "\<And>j. i < j \<Longrightarrow> j < next_boundary B t i \<Longrightarrow> \<not> B t j"
proof -
  have "find (B t) [Suc i..<Suc (length t)] \<noteq> None" using assms by (auto simp: find_None_iff)
  then obtain j where j: "find (B t) [Suc i..<Suc (length t)] = Some j" by blast
  then have "next_boundary B t i = j" by (simp add: next_boundary_def)
  with j show "i < next_boundary B t i" "next_boundary B t i \<le> length t" "B t (next_boundary B t i)"
    "\<And>j. i < j \<Longrightarrow> j < next_boundary B t i \<Longrightarrow> \<not> B t j"
    unfolding find_upt_Some by auto
qed

lemma prev_boundary_props:
  assumes "B t 0" "0 < i"
  shows "prev_boundary B t i < i" "B t (prev_boundary B t i)"
    "\<And>j. prev_boundary B t i < j \<Longrightarrow> j < i \<Longrightarrow> \<not> B t j"
proof -
  have "find (B t) (rev [0..<i]) \<noteq> None" using assms by (auto simp: find_None_iff)
  then obtain j where j: "find (B t) (rev [0..<i]) = Some j" by blast
  then have "prev_boundary B t i = j" by (simp add: prev_boundary_def)
  with j show "prev_boundary B t i < i" "B t (prev_boundary B t i)"
    "\<And>j. prev_boundary B t i < j \<Longrightarrow> j < i \<Longrightarrow> \<not> B t j"
    unfolding find_rev_upt_Some by auto
qed

lemma seg_okD:
  assumes "seg_ok B"
  shows "B t 0" "B t (length t)"
    "0 < i \<Longrightarrow> i < length t \<Longrightarrow> breaks_between (t ! (i - 1)) (t ! i) \<Longrightarrow> B t i"
    "0 < i \<Longrightarrow> i < length t \<Longrightarrow> t ! (i - 1) = NL \<Longrightarrow> B t i"
    "0 < i \<Longrightarrow> i < length t \<Longrightarrow> t ! i = NL \<Longrightarrow> t ! (i - 1) \<noteq> CR \<Longrightarrow> B t i"
  using assms unfolding seg_ok_def by blast+

text \<open>A nearest boundary is the only one with nothing between.\<close>

lemma next_boundary_eqI:
  "i < j \<Longrightarrow> j \<le> length t \<Longrightarrow> B t j \<Longrightarrow> \<forall>k. i < k \<and> k < j \<longrightarrow> \<not> B t k \<Longrightarrow> next_boundary B t i = j"
proof -
  assume "i < j" "j \<le> length t" "B t j" "\<forall>k. i < k \<and> k < j \<longrightarrow> \<not> B t k"
  then have "find (B t) [Suc i..<Suc (length t)] = Some j" unfolding find_upt_Some by auto
  then show ?thesis by (simp add: next_boundary_def)
qed

lemma prev_boundary_eqI:
  "j < i \<Longrightarrow> B t j \<Longrightarrow> \<forall>k. j < k \<and> k < i \<longrightarrow> \<not> B t k \<Longrightarrow> prev_boundary B t i = j"
proof -
  assume "j < i" "B t j" "\<forall>k. j < k \<and> k < i \<longrightarrow> \<not> B t k"
  then have "find (B t) (rev [0..<i]) = Some j" unfolding find_rev_upt_Some by auto
  then show ?thesis by (simp add: prev_boundary_def)
qed

record cluster =
  cl_start :: nat
  cl_end :: nat
  cl_first :: uchar

text \<open>\<open>Graphemes::step\<close> and the clusters the iterator yields from an offset on.\<close>

definition grapheme_step :: "segmentation \<Rightarrow> ustring \<Rightarrow> nat \<Rightarrow> cluster option" where
  "grapheme_step B t i =
     (if length t \<le> i then None
      else Some \<lparr>cl_start = i, cl_end = next_boundary B t i, cl_first = t ! i\<rparr>)"

function graphemes_at :: "segmentation \<Rightarrow> ustring \<Rightarrow> nat \<Rightarrow> cluster list" where
  "graphemes_at B t i =
     (case grapheme_step B t i of
        None \<Rightarrow> []
      | Some c \<Rightarrow> c # (if i < cl_end c then graphemes_at B t (cl_end c) else []))"
  by pat_completeness auto

termination
  by (relation "measure (\<lambda>(B, t, i). length t - i)")
     (auto simp: grapheme_step_def split: if_splits)

declare graphemes_at.simps [simp del]

definition next_grapheme_boundary :: "segmentation \<Rightarrow> ustring \<Rightarrow> nat \<Rightarrow> nat option" where
  "next_grapheme_boundary B t i = do {
     ensure (i \<le> length t);
     Some (case grapheme_step B t i of Some c \<Rightarrow> cl_end c | None \<Rightarrow> length t) }"

definition prev_grapheme_boundary :: "segmentation \<Rightarrow> ustring \<Rightarrow> nat \<Rightarrow> nat option" where
  "prev_grapheme_boundary B t i = do {
     ensure (i \<le> length t);
     Some (if i = 0 then 0 else prev_boundary B t i) }"

definition floor_with_prev_start ::
  "segmentation \<Rightarrow> ustring \<Rightarrow> nat \<Rightarrow> (nat \<times> nat option) option"
where
  "floor_with_prev_start B t offset = do {
     ensure (offset \<le> length t);
     let e = next_boundary B t offset;
     let floor = prev_boundary B t e;
     Some (floor, if floor > 0 then Some (prev_boundary B t floor) else None) }"

definition cluster_end :: "segmentation \<Rightarrow> ustring \<Rightarrow> nat \<Rightarrow> nat option" where
  "cluster_end B t start = next_grapheme_boundary B t start"

definition next_cluster :: "segmentation \<Rightarrow> ustring \<Rightarrow> nat \<Rightarrow> nat option option" where
  "next_cluster B t start = do {
     e \<leftarrow> cluster_end B t start;
     Some (if e < length t then Some e else None) }"

definition prev_cluster :: "segmentation \<Rightarrow> ustring \<Rightarrow> nat \<Rightarrow> nat option option" where
  "prev_cluster B t bound =
     (if bound > 0 then map_option Some (prev_grapheme_boundary B t bound) else Some None)"

definition first_cluster :: "ustring \<Rightarrow> nat option" where
  "first_cluster t = (if length t > 0 then Some 0 else None)"

definition text_end :: "ustring \<Rightarrow> nat" where
  "text_end t = length t"

definition last_cluster :: "segmentation \<Rightarrow> ustring \<Rightarrow> nat option option" where
  "last_cluster B t = prev_cluster B t (text_end t)"

section \<open>Snapping\<close>

text \<open>\<open>snap_on_cursor\<close>, with its ASCII shortcuts.\<close>

definition snap_on_cursor :: "segmentation \<Rightarrow> ustring \<Rightarrow> nat \<Rightarrow> cluster" where
  "snap_on_cursor B t at =
     (let here = t ! at;
          after = at + 1;
          cend = (if after < length t \<and> \<not> breaks_between here (t ! after)
                  then next_boundary B t at else after)
      in if at = 0 \<or> breaks_between (t ! (at - 1)) here
         then \<lparr>cl_start = at, cl_end = cend, cl_first = here\<rparr>
         else (let start = prev_boundary B t cend
               in \<lparr>cl_start = start, cl_end = cend, cl_first = t ! start\<rparr>))"

definition snap_to_cluster :: "segmentation \<Rightarrow> ustring \<Rightarrow> nat \<Rightarrow> cluster option" where
  "snap_to_cluster B t offset = do {
     last \<leftarrow> checked_sub (length t) 1;
     let at = min offset last;
     Some (snap_on_cursor B t at) }"

definition ceil_boundary :: "segmentation \<Rightarrow> ustring \<Rightarrow> nat \<Rightarrow> nat" where
  "ceil_boundary B t offset =
     (case snap_to_cluster B t offset of
        Some c \<Rightarrow>
          if offset < length t then (if cl_start c = offset then cl_start c else cl_end c)
          else text_end t
      | None \<Rightarrow> text_end t)"

text \<open>A cluster of the text: whole, between two neighbouring boundaries.\<close>

definition is_cluster :: "segmentation \<Rightarrow> ustring \<Rightarrow> cluster \<Rightarrow> bool" where
  "is_cluster B t c = (cl_start c < cl_end c \<and> cl_end c \<le> length t \<and>
     B t (cl_start c) \<and> B t (cl_end c) \<and> cl_first c = t ! cl_start c \<and>
     (\<forall>k. cl_start c < k \<and> k < cl_end c \<longrightarrow> \<not> B t k))"

text \<open>A cluster start, the one thing a cursor may sit on.\<close>

definition is_start :: "segmentation \<Rightarrow> ustring \<Rightarrow> nat \<Rightarrow> bool" where
  "is_start B t i = (i < length t \<and> B t i)"

lemma snap_on_cursor_cluster:
  assumes "seg_ok B" "at < length t"
  shows "is_cluster B t (snap_on_cursor B t at)"
    "cl_start (snap_on_cursor B t at) \<le> at" "at < cl_end (snap_on_cursor B t at)"
proof -
  note ok = seg_okD [OF assms(1)]
  let ?nb = "next_boundary B t at"
  note nb = next_boundary_props [of B t at, OF ok(2) assms(2)]
  let ?cend = "if at + 1 < length t \<and> \<not> breaks_between (t ! at) (t ! (at + 1)) then ?nb else at + 1"
  have cend: "?cend = ?nb"
  proof (cases "at + 1 < length t \<and> \<not> breaks_between (t ! at) (t ! (at + 1))")
    case False
    then have "B t (at + 1)" using ok(2) [of t] ok(3) [of "at + 1" t] assms(2)
      by (cases "at + 1 = length t") auto
    then have "?nb = at + 1" using assms(2) by (intro next_boundary_eqI) auto
    with False show ?thesis by simp
  qed simp
  have start: "at = 0 \<or> breaks_between (t ! (at - 1)) (t ! at) \<Longrightarrow> B t at"
    using ok(1) [of t] ok(3) [of at t] assms(2) by (cases "at = 0") auto
  let ?c = "snap_on_cursor B t at"
  have "is_cluster B t ?c \<and> cl_start ?c \<le> at \<and> at < cl_end ?c"
  proof (cases "at = 0 \<or> breaks_between (t ! (at - 1)) (t ! at)")
    case True
    then have "?c = \<lparr>cl_start = at, cl_end = ?nb, cl_first = t ! at\<rparr>"
      by (simp only: snap_on_cursor_def Let_def cend if_True)
    then show ?thesis using start [OF True] nb by (simp add: is_cluster_def)
  next
    case False
    then have c: "?c = \<lparr>cl_start = prev_boundary B t ?nb, cl_end = ?nb,
        cl_first = t ! prev_boundary B t ?nb\<rparr>"
      by (simp only: snap_on_cursor_def Let_def cend if_False)
    have "0 < ?nb" using nb(1) by simp
    note pb = prev_boundary_props [of B t ?nb, OF ok(1) this]
    have "prev_boundary B t ?nb \<le> at"
    proof (rule ccontr)
      assume "\<not> prev_boundary B t ?nb \<le> at"
      then show False using nb(4) [of "prev_boundary B t ?nb"] pb(1,2) by simp
    qed
    then show ?thesis using pb nb c by (simp add: is_cluster_def)
  qed
  then show "is_cluster B t ?c" "cl_start ?c \<le> at" "at < cl_end ?c" by blast+
qed

text \<open>The cluster holding a char is unique.\<close>

lemma cluster_unique:
  assumes "is_cluster B t c" "is_cluster B t d"
    "cl_start c \<le> at" "at < cl_end c" "cl_start d \<le> at" "at < cl_end d"
  shows "c = d"
proof -
  have "cl_start c = cl_start d"
  proof (rule ccontr)
    assume "cl_start c \<noteq> cl_start d"
    then consider "cl_start c < cl_start d" | "cl_start d < cl_start c" by linarith
    then show False
    proof cases
      case 1
      then have "cl_start d < cl_end c" using assms by linarith
      with 1 assms(1,2) show False unfolding is_cluster_def by blast
    next
      case 2
      then have "cl_start c < cl_end d" using assms by linarith
      with 2 assms(1,2) show False unfolding is_cluster_def by blast
    qed
  qed
  moreover have "cl_end c = cl_end d"
  proof (rule ccontr)
    assume "cl_end c \<noteq> cl_end d"
    then consider "cl_end c < cl_end d" | "cl_end d < cl_end c" by linarith
    then show False
    proof cases
      case 1
      moreover have "cl_start d < cl_end c" using assms by linarith
      ultimately show False using assms(1,2) unfolding is_cluster_def by blast
    next
      case 2
      moreover have "cl_start c < cl_end d" using assms by linarith
      ultimately show False using assms(1,2) unfolding is_cluster_def by blast
    qed
  qed
  ultimately show ?thesis using assms(1,2) by (cases c; cases d) (auto simp: is_cluster_def)
qed

lemma snap_to_cluster_Some:
  assumes "seg_ok B" "t \<noteq> []"
  obtains c where "snap_to_cluster B t offset = Some c" "is_cluster B t c"
    "cl_start c \<le> min offset (length t - 1)" "min offset (length t - 1) < cl_end c"
proof -
  let ?at = "min offset (length t - 1)"
  have "?at < length t" using assms(2) by (simp add: min_less_iff_disj)
  from snap_on_cursor_cluster [OF assms(1) this] show thesis
    by (intro that [of "snap_on_cursor B t ?at"])
       (use assms(2) in \<open>simp_all add: snap_to_cluster_def checked_sub_def Let_def Suc_le_eq\<close>)
qed

lemma snap_start:
  assumes "seg_ok B" "is_start B t i"
  obtains c where "snap_to_cluster B t i = Some c" "cl_start c = i" "is_cluster B t c"
proof -
  have "t \<noteq> []" "min i (length t - 1) = i" using assms(2) by (auto simp: is_start_def)
  with snap_to_cluster_Some [OF assms(1), of t i] obtain c where
    c: "snap_to_cluster B t i = Some c" "is_cluster B t c" "cl_start c \<le> i" "i < cl_end c" by metis
  then have "cl_start c = i"
    using assms(2) unfolding is_cluster_def is_start_def by (meson order_le_less)
  with c that show thesis by blast
qed

lemma is_cluster_start: "is_cluster B t c \<Longrightarrow> is_start B t (cl_start c)"
  by (auto simp: is_cluster_def is_start_def)

lemma ceil_boundary_props:
  assumes "seg_ok B" "offset \<le> length t"
  shows "offset \<le> ceil_boundary B t offset" "ceil_boundary B t offset \<le> length t"
    "B t (ceil_boundary B t offset)"
    "\<And>k. offset \<le> k \<Longrightarrow> k < ceil_boundary B t offset \<Longrightarrow> \<not> B t k"
proof -
  have "offset \<le> ceil_boundary B t offset \<and> ceil_boundary B t offset \<le> length t \<and>
    B t (ceil_boundary B t offset) \<and> (\<forall>k. offset \<le> k \<and> k < ceil_boundary B t offset \<longrightarrow> \<not> B t k)"
  proof (cases "offset < length t")
    case True
    then have "t \<noteq> []" "min offset (length t - 1) = offset" by auto
    with snap_to_cluster_Some [OF assms(1), of t offset] obtain c where
      c: "snap_to_cluster B t offset = Some c" "is_cluster B t c" "cl_start c \<le> offset" "offset < cl_end c"
      by metis
    with True show ?thesis by (auto simp: ceil_boundary_def is_cluster_def)
  next
    case False
    with assms seg_okD(2) [OF assms(1)] show ?thesis
      by (auto simp: ceil_boundary_def text_end_def split: option.splits)
  qed
  then show "offset \<le> ceil_boundary B t offset" "ceil_boundary B t offset \<le> length t"
    "B t (ceil_boundary B t offset)"
    "\<And>k. offset \<le> k \<Longrightarrow> k < ceil_boundary B t offset \<Longrightarrow> \<not> B t k" by blast+
qed

section \<open>Runs of whole clusters (\<open>cluster.rs\<close>)\<close>

record cluster_range =
  cr_start :: nat
  cr_last :: nat
  cr_end :: nat

definition range_of :: "segmentation \<Rightarrow> ustring \<Rightarrow> nat \<Rightarrow> cluster_range option" where
  "range_of B t c = do {
     e \<leftarrow> cluster_end B t c;
     Some \<lparr>cr_start = c, cr_last = c, cr_end = e\<rparr> }"

definition range_through ::
  "segmentation \<Rightarrow> ustring \<Rightarrow> nat \<Rightarrow> nat \<Rightarrow> cluster_range option option"
where
  "range_through B t first last_at =
     (if first \<le> last_at
      then do {
        e \<leftarrow> cluster_end B t last_at;
        Some (Some \<lparr>cr_start = first, cr_last = last_at, cr_end = e\<rparr>) }
      else Some None)"

definition range_between ::
  "segmentation \<Rightarrow> ustring \<Rightarrow> nat \<Rightarrow> nat \<Rightarrow> cluster_range option option"
where
  "range_between B t start end =
     (if end \<le> start then Some None
      else do {
        last_at \<leftarrow> prev_cluster B t end;
        Some (case last_at of
            None \<Rightarrow> None
          | Some last_at \<Rightarrow> Some \<lparr>cr_start = start, cr_last = last_at, cr_end = end\<rparr>) })"

definition covering :: "segmentation \<Rightarrow> ustring \<Rightarrow> nat \<Rightarrow> nat \<Rightarrow> cluster_range option" where
  "covering B t a b =
     (let end = min b (length t) in
      if end \<le> a then None
      else do {
        first \<leftarrow> snap_to_cluster B t a;
        last_at \<leftarrow> snap_to_cluster B t (end - 1);
        Some \<lparr>cr_start = cl_start first, cr_last = cl_start last_at, cr_end = cl_end last_at\<rparr> })"

definition within_range ::
  "segmentation \<Rightarrow> ustring \<Rightarrow> nat \<Rightarrow> nat \<Rightarrow> cluster_range option option"
where
  "within_range B t a b =
     (let end = min b (length t) in
      if end \<le> a then Some None
      else do {
        let start = ceil_boundary B t a;
        (end, last_at) \<leftarrow> (if end < length t
           then floor_with_prev_start B t end
           else do { last_at \<leftarrow> prev_cluster B t (text_end t); Some (text_end t, last_at) });
        if end \<le> start then Some None
        else do { last_at \<leftarrow> last_at; Some (Some \<lparr>cr_start = start, cr_last = last_at, cr_end = end\<rparr>) } })"

definition range_contains :: "cluster_range \<Rightarrow> nat \<Rightarrow> bool" where
  "range_contains r pos = (cr_start r \<le> pos \<and> pos \<le> cr_last r)"

definition range_hull :: "cluster_range \<Rightarrow> cluster_range \<Rightarrow> cluster_range" where
  "range_hull r s =
     (let (last_at, end) = (if cr_last r < cr_last s then (cr_last s, cr_end s) else (cr_last r, cr_end r))
      in \<lparr>cr_start = min (cr_start r) (cr_start s), cr_last = last_at, cr_end = end\<rparr>)"

text \<open>What the private fields of a \<open>ClusterRange\<close> promise.\<close>

definition range_ok :: "segmentation \<Rightarrow> ustring \<Rightarrow> cluster_range \<Rightarrow> bool" where
  "range_ok B t r = (is_start B t (cr_start r) \<and> is_start B t (cr_last r) \<and>
     cr_start r \<le> cr_last r \<and> cr_end r = next_boundary B t (cr_last r))"

lemma is_cluster_end: "is_cluster B t c \<Longrightarrow> cl_end c = next_boundary B t (cl_start c)"
  by (auto simp: is_cluster_def intro!: next_boundary_eqI [symmetric])

lemma cluster_end_start: "is_start B t i \<Longrightarrow> cluster_end B t i = Some (next_boundary B t i)"
  by (auto simp: is_start_def cluster_end_def next_grapheme_boundary_def grapheme_step_def)

lemma next_boundary_mono:
  assumes "seg_ok B" "i \<le> j" "j < length t"
  shows "next_boundary B t i \<le> next_boundary B t j"
proof (rule ccontr)
  assume a: "\<not> ?thesis"
  note ok = seg_okD(2) [OF assms(1), of t]
  have "i < length t" using assms by simp
  note ni = next_boundary_props [of B t i, OF ok this]
  note nj = next_boundary_props [of B t j, OF ok assms(3)]
  from a ni(4) [of "next_boundary B t j"] nj(1,3) assms(2) show False by simp
qed

lemma range_ok_end:
  assumes "seg_ok B" "range_ok B t r"
  shows "cr_last r < cr_end r" "cr_end r \<le> length t" "B t (cr_end r)" "cr_start r < cr_end r"
  using next_boundary_props [of B t "cr_last r"] seg_okD(2) [OF assms(1), of t] assms(2)
  by (auto simp: range_ok_def is_start_def)

lemma prev_of_next:
  assumes "seg_ok B" "is_start B t i"
  shows "prev_boundary B t (next_boundary B t i) = i"
  using next_boundary_props [of B t i] seg_okD(2) [OF assms(1), of t] assms(2)
  by (auto simp: is_start_def intro!: prev_boundary_eqI)

lemma next_of_prev:
  assumes "seg_ok B" "B t i" "0 < i" "i \<le> length t"
  shows "next_boundary B t (prev_boundary B t i) = i"
  using prev_boundary_props [of B t i] seg_okD(1) [OF assms(1), of t] assms
  by (auto intro!: next_boundary_eqI)

lemma prev_boundary_start:
  assumes "seg_ok B" "0 < i" "i \<le> length t"
  shows "is_start B t (prev_boundary B t i)"
  using prev_boundary_props [of B t i] seg_okD(1) [OF assms(1), of t] assms
  by (auto simp: is_start_def)

lemma covering_Some:
  assumes "seg_ok B" "a < min b (length t)"
  obtains r where "covering B t a b = Some r" "range_ok B t r" "cr_start r \<le> a"
    "min b (length t) \<le> cr_end r" "\<And>x. x \<le> a \<Longrightarrow> B t x \<Longrightarrow> x \<le> cr_start r"
    "\<And>y. min b (length t) \<le> y \<Longrightarrow> B t y \<Longrightarrow> cr_end r \<le> y"
proof -
  let ?e = "min b (length t)"
  have t: "t \<noteq> []" "min a (length t - 1) = a" "min (?e - 1) (length t - 1) = ?e - 1"
    using assms(2) by auto
  obtain c where c: "snap_to_cluster B t a = Some c" "is_cluster B t c" "cl_start c \<le> a" "a < cl_end c"
    using snap_to_cluster_Some [OF assms(1) t(1), of a] unfolding t(2) .
  obtain d where d: "snap_to_cluster B t (?e - 1) = Some d" "is_cluster B t d"
    "cl_start d \<le> ?e - 1" "?e - 1 < cl_end d"
    using snap_to_cluster_Some [OF assms(1) t(1), of "?e - 1"] unfolding t(3) .
  have order: "cl_start c \<le> cl_start d"
  proof (rule ccontr)
    assume a': "\<not> cl_start c \<le> cl_start d"
    then have "cl_start c < cl_end d" using c(3) d(4) assms(2) by linarith
    with a' c(2) d(2) show False unfolding is_cluster_def by (meson not_le_imp_less)
  qed
  have lo: "x \<le> cl_start c" if "x \<le> a" "B t x" for x
    using that c unfolding is_cluster_def by (meson leI le_less_trans)
  have hi: "cl_end d \<le> y" if "?e \<le> y" "B t y" for y
  proof (rule ccontr)
    assume "\<not> cl_end d \<le> y"
    moreover have "cl_start d < y" using d(3) that(1) assms(2) by linarith
    ultimately show False using d(2) that(2) unfolding is_cluster_def by (meson not_le_imp_less)
  qed
  have "?e \<le> cl_end d" using d(4) assms(2) by linarith
  with c d order lo hi show thesis
    by (intro that [of "\<lparr>cr_start = cl_start c, cr_last = cl_start d, cr_end = cl_end d\<rparr>"])
       (use assms(2) in \<open>auto simp: covering_def Let_def range_ok_def is_cluster_start is_cluster_end\<close>)
qed

text \<open>Where \<open>within\<close> narrows its end to, and the cluster before it.\<close>

lemma floor_props:
  assumes "seg_ok B" "e < length t"
  obtains f where "floor_with_prev_start B t e =
      Some (f, if f > 0 then Some (prev_boundary B t f) else None)"
    "f \<le> e" "is_start B t f" "\<And>k. f < k \<Longrightarrow> k \<le> e \<Longrightarrow> \<not> B t k"
proof -
  note ok = seg_okD [OF assms(1)]
  note nb = next_boundary_props [of B t e, OF ok(2) assms(2)]
  have pos: "0 < next_boundary B t e" using nb(1) by simp
  note pb = prev_boundary_props [of B t "next_boundary B t e", OF ok(1) pos]
  let ?f = "prev_boundary B t (next_boundary B t e)"
  have "?f \<le> e" using nb(4) pb(1,2) by (meson leI)
  moreover have "is_start B t ?f" using pb(1,2) nb(2) by (simp add: is_start_def)
  moreover have "\<not> B t k" if "?f < k" "k \<le> e" for k using pb(3) [of k] that nb(1) by simp
  ultimately show thesis
    using that [of ?f] assms(2) by (simp add: floor_with_prev_start_def Let_def)
qed

lemma within_range_cases:
  assumes "seg_ok B"
  shows "\<exists>r. within_range B t a b = Some r \<and>
    (case r of
       None \<Rightarrow> \<not> (\<exists>c. is_cluster B t c \<and> a \<le> cl_start c \<and> cl_end c \<le> b)
     | Some r \<Rightarrow> range_ok B t r \<and> a \<le> cr_start r \<and> cr_end r \<le> b \<and>
         (\<forall>c. is_cluster B t c \<and> a \<le> cl_start c \<and> cl_end c \<le> b \<longrightarrow>
            cr_start r \<le> cl_start c \<and> cl_end c \<le> cr_end r))"
proof -
  note ok = seg_okD [OF assms]
  let ?e = "min b (length t)"
  show ?thesis
  proof (cases "?e \<le> a")
    case True
    then have "\<not> (\<exists>c. is_cluster B t c \<and> a \<le> cl_start c \<and> cl_end c \<le> b)"
      by (auto simp: is_cluster_def)
    with True show ?thesis by (simp add: within_range_def)
  next
    case False
    then have a: "a < ?e" by linarith
    let ?s = "ceil_boundary B t a"
    have "a \<le> length t" using a by simp
    note s = ceil_boundary_props [OF assms this]
    obtain f where f: "f \<le> ?e" "B t f" "\<And>k. f < k \<Longrightarrow> k \<le> ?e \<Longrightarrow> \<not> B t k"
      "within_range B t a b = (if f \<le> ?s then Some None
         else Some (Some \<lparr>cr_start = ?s, cr_last = prev_boundary B t f, cr_end = f\<rparr>))"
    proof (cases "?e < length t")
      case True
      obtain f where
        "floor_with_prev_start B t ?e = Some (f, if f > 0 then Some (prev_boundary B t f) else None)"
        "f \<le> ?e" "is_start B t f" "\<And>k. f < k \<Longrightarrow> k \<le> ?e \<Longrightarrow> \<not> B t k"
        by (rule floor_props [OF assms True]) blast
      moreover have "b < length t" "?e = b" using True by auto
      ultimately show ?thesis using False
        by (intro that [of f]) (auto simp: within_range_def Let_def is_start_def)
    next
      case e: False
      then have "?e = length t" by simp
      with False e that [of "length t"] ok(2) show ?thesis
        by (auto simp: within_range_def Let_def prev_cluster_def text_end_def
            prev_grapheme_boundary_def)
    qed
    have inside: "?s \<le> cl_start c \<and> cl_end c \<le> f"
      if c: "is_cluster B t c" "a \<le> cl_start c" "cl_end c \<le> b" for c
    proof -
      have "B t (cl_start c)" "B t (cl_end c)" "cl_end c \<le> ?e" "cl_start c < length t"
        using c by (auto simp: is_cluster_def)
      with s(4) c(2) f(3) show ?thesis by (meson not_le_imp_less)
    qed
    show ?thesis
    proof (cases "f \<le> ?s")
      case True
      have "\<not> (\<exists>c. is_cluster B t c \<and> a \<le> cl_start c \<and> cl_end c \<le> b)"
      proof
        assume "\<exists>c. is_cluster B t c \<and> a \<le> cl_start c \<and> cl_end c \<le> b"
        then obtain c where c: "is_cluster B t c" "a \<le> cl_start c" "cl_end c \<le> b" by blast
        from inside [OF c] True c(1) show False by (simp add: is_cluster_def)
      qed
      with True f(4) show ?thesis by simp
    next
      case False
      let ?r = "\<lparr>cr_start = ?s, cr_last = prev_boundary B t f, cr_end = f\<rparr>"
      have fl: "0 < f" "f \<le> length t" using False f(1) by auto
      note p = prev_boundary_props [of B t f, OF ok(1) fl(1)]
      have "?s \<le> prev_boundary B t f" using p(3) [of ?s] s(3) False by (meson not_le_imp_less)
      then have "range_ok B t ?r"
        using prev_boundary_start [OF assms fl] next_of_prev [OF assms f(2) fl] s(3) False fl(2)
        by (simp add: range_ok_def is_start_def)
      with False f(1,4) s(1) inside show ?thesis by auto
    qed
  qed
qed

section \<open>Lines as clusters (\<open>lines.rs\<close>)\<close>

definition lines_range :: "ustring \<Rightarrow> nat \<Rightarrow> nat \<Rightarrow> cluster_range option" where
  "lines_range rope first_line last_line = do {
     let (first_line, last_line) = (min first_line last_line, max first_line last_line);
     ensure (last_line < content_line_count rope);
     end \<leftarrow> ropey_line_start rope (last_line + 1);
     start \<leftarrow> line_start rope first_line;
     last_break \<leftarrow> line_break rope last_line;
     Some \<lparr>cr_start = start, cr_last = last_break, cr_end = end\<rparr> }"

definition line_range :: "ustring \<Rightarrow> nat \<Rightarrow> cluster_range option" where
  "line_range rope line = lines_range rope line line"

definition line_content_range ::
  "segmentation \<Rightarrow> ustring \<Rightarrow> nat \<Rightarrow> cluster_range option option"
where
  "line_content_range B rope line = do {
     start \<leftarrow> line_start rope line;
     end \<leftarrow> line_break rope line;
     range_between B rope start end }"

definition line_content_end_at :: "segmentation \<Rightarrow> ustring \<Rightarrow> nat \<Rightarrow> nat \<Rightarrow> nat option" where
  "line_content_end_at B rope line start = do {
     break_pos \<leftarrow> line_break rope line;
     if break_pos = start then Some break_pos
     else do { p \<leftarrow> prev_cluster B rope break_pos; p } }"

definition line_content_end :: "segmentation \<Rightarrow> ustring \<Rightarrow> nat \<Rightarrow> nat option" where
  "line_content_end B rope line = do {
     start \<leftarrow> line_start rope line;
     line_content_end_at B rope line start }"

definition place_char_column :: "segmentation \<Rightarrow> ustring \<Rightarrow> nat \<Rightarrow> nat \<Rightarrow> nat option" where
  "place_char_column B rope line char_col =
     (case to_content rope line of
        None \<Rightarrow> line_break rope (last_content_line rope)
      | Some content_line \<Rightarrow> do {
          start \<leftarrow> line_start rope content_line;
          content_end \<leftarrow> line_content_end_at B rope content_line start;
          let target = start + char_col;
          if content_end \<le> target then Some content_end
          else map_option cl_start (snap_to_cluster B rope target) })"

text \<open>The loop of \<open>place_grapheme_column\<close> over the clusters taken.\<close>

fun place_grapheme_loop :: "cluster list \<Rightarrow> nat \<Rightarrow> nat \<Rightarrow> nat" where
  "place_grapheme_loop [] content_end pos = pos"
| "place_grapheme_loop (c # cs) content_end pos =
     (if content_end < cl_end c then pos else place_grapheme_loop cs content_end (cl_end c))"

definition place_grapheme_column :: "segmentation \<Rightarrow> ustring \<Rightarrow> nat \<Rightarrow> nat \<Rightarrow> nat option" where
  "place_grapheme_column B rope line grapheme_col =
     (case to_content rope line of
        None \<Rightarrow> line_break rope (last_content_line rope)
      | Some content_line \<Rightarrow> do {
          content_end \<leftarrow> line_content_end B rope content_line;
          pos \<leftarrow> line_start rope content_line;
          Some (place_grapheme_loop (take grapheme_col (graphemes_at B rope pos)) content_end pos) })"

definition grapheme_count :: "segmentation \<Rightarrow> ustring \<Rightarrow> nat \<Rightarrow> nat \<Rightarrow> nat option" where
  "grapheme_count B t from_char to_char = do {
     ensure (from_char \<le> length t);
     Some (length (takeWhile (\<lambda>c. cl_end c \<le> to_char) (graphemes_at B t from_char))) }"

definition grapheme_col_in_line :: "segmentation \<Rightarrow> ustring \<Rightarrow> nat \<Rightarrow> nat \<Rightarrow> nat option" where
  "grapheme_col_in_line B t line char_pos = do {
     start \<leftarrow> line_start_char t line;
     grapheme_count B t start char_pos }"

text \<open>A line's start and its break are cluster starts, because segmentation breaks around LF.\<close>

lemma line_facts:
  assumes "line < nl_count rope"
  shows "line_start rope line = Some (line_offset rope line)"
    "line_break rope line = Some (line_offset rope (Suc line) - 1)"
    "line_offset rope line \<le> line_offset rope (Suc line) - 1"
    "line_offset rope (Suc line) - 1 < length rope"
    "rope ! (line_offset rope (Suc line) - 1) = NL"
    "line_offset rope (Suc line) = Suc (line_offset rope (Suc line) - 1)"
  using assms line_start_content line_break_content line_lf [OF assms]
    line_offset_prev_nl [of "Suc line" rope] by auto

lemma line_start_is_start:
  assumes "seg_ok B" "line < nl_count rope"
  shows "is_start B rope (line_offset rope line)"
proof -
  have "line_offset rope line < length rope"
    using line_facts(3,4) [OF assms(2)] by linarith
  moreover have "B rope (line_offset rope line)"
  proof (cases "line_offset rope line = 0")
    case False
    then have "0 < line" by (cases line) auto
    with line_offset_prev_nl [of line rope] assms(2) have "rope ! (line_offset rope line - 1) = NL"
      by simp
    with seg_okD(4) [OF assms(1)] False calculation show ?thesis by blast
  qed (use seg_okD(1) [OF assms(1)] in simp)
  ultimately show ?thesis by (simp add: is_start_def)
qed

lemma line_break_is_start:
  assumes "seg_ok B" "line < nl_count rope" "CR \<notin> set rope"
  shows "is_start B rope (line_offset rope (Suc line) - 1)"
proof -
  let ?b = "line_offset rope (Suc line) - 1"
  note f = line_facts [OF assms(2)]
  have "B rope ?b"
  proof (cases "?b = 0")
    case False
    have "rope ! (?b - 1) \<in> set rope" using f(4) by (intro nth_mem) linarith
    then have "rope ! (?b - 1) \<noteq> CR" using assms(3) by auto
    with seg_okD(5) [OF assms(1)] f(4,5) False show ?thesis by blast
  qed (use seg_okD(1) [OF assms(1)] in simp)
  with f(4) show ?thesis by (simp add: is_start_def)
qed

lemma line_break_next:
  assumes "seg_ok B" "line < nl_count rope"
  shows "next_boundary B rope (line_offset rope (Suc line) - 1) = line_offset rope (Suc line)"
proof -
  note f = line_facts [OF assms(2)]
  have "B rope (line_offset rope (Suc line))"
  proof (cases "line_offset rope (Suc line) = length rope")
    case False
    then have "line_offset rope (Suc line) < length rope" using line_offset_le [of rope "Suc line"] by linarith
    with seg_okD(4) [OF assms(1)] f(5,6) show ?thesis by fastforce
  qed (use seg_okD(2) [OF assms(1)] in simp)
  then show ?thesis using f(6) by (intro next_boundary_eqI) (auto simp: line_offset_le)
qed

lemma lines_range_ok:
  assumes "seg_ok B" "CR \<notin> set rope" "first_line < nl_count rope" "last_line < nl_count rope"
  obtains r where "lines_range rope first_line last_line = Some r" "range_ok B rope r"
    "cr_start r = line_offset rope (min first_line last_line)"
    "cr_end r = line_offset rope (Suc (max first_line last_line))"
proof -
  let ?a = "min first_line last_line" and ?b = "max first_line last_line"
  have ab: "?a < nl_count rope" "?b < nl_count rope" using assms by auto
  note a = line_facts [OF ab(1)] and b = line_facts [OF ab(2)]
  let ?r = "\<lparr>cr_start = line_offset rope ?a, cr_last = line_offset rope (Suc ?b) - 1,
     cr_end = line_offset rope (Suc ?b)\<rparr>"
  have "line_offset rope ?a \<le> line_offset rope ?b"
    by (rule line_offset_mono) (use ab in auto)
  then have "line_offset rope ?a \<le> line_offset rope (Suc ?b) - 1" using b(3) by linarith
  then have "range_ok B rope ?r"
    using line_start_is_start [OF assms(1) ab(1)] line_break_is_start [OF assms(1) ab(2) assms(2)]
      line_break_next [OF assms(1) ab(2)] by (simp add: range_ok_def)
  moreover have "lines_range rope first_line last_line = Some ?r"
    using ab a(1) b(2)
    by (simp add: lines_range_def ropey_line_start_def line_start_char_def rope_line_to_char_def
        rope_len_lines_def)
  ultimately show thesis using that [of ?r] by simp
qed

text \<open>Where a cursor may land on a line: its break when the line is empty, else the last cluster
  before the break.\<close>

lemma line_content_end_ok:
  assumes "seg_ok B" "CR \<notin> set rope" "line < nl_count rope"
  obtains e where "line_content_end B rope line = Some e"
    "line_content_end_at B rope line (line_offset rope line) = Some e" "is_start B rope e"
    "line_offset rope line \<le> e" "e \<le> line_offset rope (Suc line) - 1"
    "line_offset rope line < line_offset rope (Suc line) - 1 \<Longrightarrow>
       next_boundary B rope e = line_offset rope (Suc line) - 1"
proof -
  note f = line_facts [OF assms(3)]
  let ?s = "line_offset rope line" and ?b = "line_offset rope (Suc line) - 1"
  have bs: "is_start B rope ?b" by (rule line_break_is_start [OF assms(1,3,2)])
  show thesis
  proof (cases "?b = ?s")
    case True
    with f bs that [of ?b] show ?thesis
      by (simp add: line_content_end_def line_content_end_at_def)
  next
    case False
    then have b: "0 < ?b" "?s < ?b" "?b \<le> length rope" using f(3,4) by linarith+
    note p = prev_boundary_props [of B rope ?b, OF seg_okD(1) [OF assms(1)] b(1)]
    have "B rope ?s" using line_start_is_start [OF assms(1,3)] by (simp add: is_start_def)
    then have "?s \<le> prev_boundary B rope ?b" using p(3) [OF _ b(2)] by (rule contrapos_pp) simp
    moreover have "line_content_end_at B rope line ?s = Some (prev_boundary B rope ?b)"
      using f False b
      by (simp add: line_content_end_at_def prev_cluster_def prev_grapheme_boundary_def)
    moreover have "next_boundary B rope (prev_boundary B rope ?b) = ?b"
      using next_of_prev [OF assms(1) _ b(1,3)] bs by (simp add: is_start_def)
    ultimately show ?thesis
      using that [of "prev_boundary B rope ?b"] f(1) p(1) prev_boundary_start [OF assms(1) b(1,3)]
      by (simp add: line_content_end_def)
  qed
qed

section \<open>Walking clusters\<close>

text \<open>Whole clusters, one after the other from an offset on.\<close>

fun chained :: "segmentation \<Rightarrow> ustring \<Rightarrow> nat \<Rightarrow> cluster list \<Rightarrow> bool" where
  "chained B t i [] = True"
| "chained B t i (c # cs) = (cl_start c = i \<and> is_cluster B t c \<and> chained B t (cl_end c) cs)"

lemma chained_take: "chained B t i cs \<Longrightarrow> chained B t i (take n cs)"
  by (induction cs arbitrary: i n) (auto simp: take_Cons split: nat.splits)

lemma graphemes_at_chained:
  assumes "seg_ok B"
  shows "i \<le> length t \<Longrightarrow> B t i \<Longrightarrow> chained B t i (graphemes_at B t i) \<and>
    (i < length t \<longrightarrow> graphemes_at B t i \<noteq> [] \<and> cl_end (List.last (graphemes_at B t i)) = length t)"
proof (induction "length t - i" arbitrary: i rule: less_induct)
  case less
  show ?case
  proof (cases "i = length t")
    case True
    then show ?thesis by (subst graphemes_at.simps) (simp add: grapheme_step_def)
  next
    case False
    then have i: "i < length t" using less(2) by linarith
    let ?e = "next_boundary B t i"
    note nb = next_boundary_props [of B t i, OF seg_okD(2) [OF assms] i]
    have "length t - ?e < length t - i" using nb(1) i by simp
    note IH = less(1) [OF this nb(2,3)]
    let ?c = "\<lparr>cl_start = i, cl_end = ?e, cl_first = t ! i\<rparr>"
    have c: "is_cluster B t ?c" using nb less(3) by (simp add: is_cluster_def)
    have g: "graphemes_at B t i = ?c # graphemes_at B t ?e"
      using i nb(1) by (subst graphemes_at.simps) (simp add: grapheme_step_def)
    show ?thesis
    proof (cases "?e < length t")
      case True
      with IH c g show ?thesis by simp
    next
      case f: False
      then have "graphemes_at B t ?e = []"
        by (subst graphemes_at.simps) (simp add: grapheme_step_def)
      with f IH c g nb(2) show ?thesis by simp
    qed
  qed
qed

lemma place_grapheme_loop_bounds:
  "chained B t pos cs \<Longrightarrow> is_start B t pos \<Longrightarrow> pos \<le> e \<Longrightarrow> e < length t \<Longrightarrow>
   is_start B t (place_grapheme_loop cs e pos) \<and> pos \<le> place_grapheme_loop cs e pos \<and>
    place_grapheme_loop cs e pos \<le> e"
proof (induction cs arbitrary: pos)
  case (Cons c cs)
  show ?case
  proof (cases "e < cl_end c")
    case False
    have "is_start B t (cl_end c)" using Cons.prems False by (auto simp: is_cluster_def is_start_def)
    moreover have "pos \<le> cl_end c" using Cons.prems(1) by (auto simp: is_cluster_def)
    ultimately show ?thesis using Cons.IH [of "cl_end c"] Cons.prems False by auto
  qed (use Cons in auto)
qed simp

section \<open>Properties\<close>

lemma place_char_column_cases:
  assumes "seg_ok B" "CR \<notin> set rope" "line < nl_count rope"
  obtains e where "line_content_end B rope line = Some e" "is_start B rope e"
    "line_offset rope line \<le> e" "e \<le> line_offset rope (Suc line) - 1"
    "\<And>col. e \<le> line_offset rope line + col \<Longrightarrow> place_char_column B rope line col = Some e"
    "\<And>col. line_offset rope line + col < e \<Longrightarrow> \<exists>c. is_cluster B rope c \<and>
       place_char_column B rope line col = Some (cl_start c) \<and>
       cl_start c \<le> line_offset rope line + col \<and> line_offset rope line + col < cl_end c \<and>
       line_offset rope line \<le> cl_start c"
proof -
  let ?s = "line_offset rope line"
  note f = line_facts [OF assms(3)]
  obtain e where e: "line_content_end B rope line = Some e"
    "line_content_end_at B rope line ?s = Some e" "is_start B rope e" "?s \<le> e"
    "e \<le> line_offset rope (Suc line) - 1"
    by (rule line_content_end_ok [OF assms]) blast
  have c: "to_content rope line = Some line" using assms(3) by (simp add: to_content_def)
  have "place_char_column B rope line col = Some e" if "e \<le> ?s + col" for col
    using c e(2) f(1) that by (simp add: place_char_column_def)
  moreover have "\<exists>c. is_cluster B rope c \<and> place_char_column B rope line col = Some (cl_start c) \<and>
       cl_start c \<le> ?s + col \<and> ?s + col < cl_end c \<and> ?s \<le> cl_start c" if col: "?s + col < e" for col
  proof -
    have e_len: "e < length rope" using e(3) by (simp add: is_start_def)
    with col have t: "rope \<noteq> []" "min (?s + col) (length rope - 1) = ?s + col" by auto
    obtain c1 where c1: "snap_to_cluster B rope (?s + col) = Some c1" "is_cluster B rope c1"
      "cl_start c1 \<le> ?s + col" "?s + col < cl_end c1"
      using snap_to_cluster_Some [OF assms(1) t(1), of "?s + col"] unfolding t(2) .
    have "B rope ?s" using line_start_is_start [OF assms(1,3)] by (simp add: is_start_def)
    then have "?s \<le> cl_start c1" using c1(2,4) unfolding is_cluster_def by (meson leI le_add1 le_less_trans)
    moreover have "place_char_column B rope line col = Some (cl_start c1)"
      using c e(2) f(1) col c1(1) by (simp add: place_char_column_def)
    ultimately show ?thesis using c1 by blast
  qed
  ultimately show thesis using that e by blast
qed

text \<open>Snapping an offset of a non-empty text gives the one grapheme cluster that holds the char
  there, or the last cluster past the end; the ASCII shortcuts never change the answer, and a
  cluster start snaps to itself.\<close>

theorem snap_is_the_cluster:
  assumes "seg_ok B" "t \<noteq> []"
  shows "\<exists>c. snap_to_cluster B t offset = Some c \<and> is_cluster B t c \<and>
     cl_start c \<le> min offset (length t - 1) \<and> min offset (length t - 1) < cl_end c \<and>
     (\<forall>d. is_cluster B t d \<and> cl_start d \<le> min offset (length t - 1) \<and>
        min offset (length t - 1) < cl_end d \<longrightarrow> d = c) \<and>
     (is_start B t offset \<longrightarrow> cl_start c = offset)"
proof -
  obtain c where c: "snap_to_cluster B t offset = Some c" "is_cluster B t c"
    "cl_start c \<le> min offset (length t - 1)" "min offset (length t - 1) < cl_end c"
    by (rule snap_to_cluster_Some [OF assms, of offset])
  have "cl_start c = offset" if s: "is_start B t offset"
  proof -
    obtain d where "snap_to_cluster B t offset = Some d" "cl_start d = offset"
      by (rule snap_start [OF assms(1) s])
    with c(1) show ?thesis by simp
  qed
  moreover have "d = c" if "is_cluster B t d" "cl_start d \<le> min offset (length t - 1)"
     "min offset (length t - 1) < cl_end d" for d
    using cluster_unique [OF that(1) c(2) that(2,3) c(3,4)] .
  ultimately show ?thesis using c by blast
qed

text \<open>Covering a range of chars gives the smallest run of whole clusters that holds them, and
  none exactly when no char is in range.\<close>

theorem covering_is_smallest:
  assumes "seg_ok B"
  shows "(covering B t a b = None \<longleftrightarrow> min b (length t) \<le> a) \<and>
     (\<forall>r. covering B t a b = Some r \<longrightarrow> range_ok B t r \<and> cr_start r \<le> a \<and> min b (length t) \<le> cr_end r \<and>
        (\<forall>x. x \<le> a \<and> B t x \<longrightarrow> x \<le> cr_start r) \<and>
        (\<forall>y. min b (length t) \<le> y \<and> B t y \<longrightarrow> cr_end r \<le> y))"
proof (cases "a < min b (length t)")
  case True
  then obtain r where "covering B t a b = Some r" "range_ok B t r" "cr_start r \<le> a"
    "min b (length t) \<le> cr_end r" "\<And>x. x \<le> a \<Longrightarrow> B t x \<Longrightarrow> x \<le> cr_start r"
    "\<And>y. min b (length t) \<le> y \<Longrightarrow> B t y \<Longrightarrow> cr_end r \<le> y"
    by (rule covering_Some [OF assms]) blast
  with True show ?thesis by (auto simp del: min_less_iff_conj)
next
  case False
  then have "min b (length t) \<le> a" by linarith
  then show ?thesis by (simp add: covering_def del: min.bounded_iff)
qed

text \<open>Narrowing a range of chars never panics and gives the largest run of whole clusters lying
  inside it, and none exactly when no whole cluster does.\<close>

theorem within_is_largest:
  assumes "seg_ok B"
  shows "\<exists>r. within_range B t a b = Some r \<and>
    (case r of
       None \<Rightarrow> \<not> (\<exists>c. is_cluster B t c \<and> a \<le> cl_start c \<and> cl_end c \<le> b)
     | Some r \<Rightarrow> range_ok B t r \<and> a \<le> cr_start r \<and> cr_end r \<le> b \<and>
         (\<forall>c. is_cluster B t c \<and> a \<le> cl_start c \<and> cl_end c \<le> b \<longrightarrow>
            cr_start r \<le> cl_start c \<and> cl_end c \<le> cr_end r))"
  by (rule within_range_cases [OF assms])

text \<open>Placing a cursor by char column never panics on a buffer's text: it lands on a cluster
  start, of the line asked for and never past its content end, or on the final line break for the
  phantom line; and a cluster's own column places back on it.\<close>

theorem place_char_column_lands:
  assumes "seg_ok B" "CR \<notin> set rope" "0 < nl_count rope"
  shows "\<exists>p. place_char_column B rope line col = Some p \<and> is_start B rope p \<and>
    (line < nl_count rope \<longrightarrow> line_offset rope line \<le> p \<and> p < line_offset rope (Suc line) \<and>
       p \<le> line_offset rope line + col) \<and>
    (nl_count rope \<le> line \<longrightarrow> rope ! p = NL \<and> p < length rope) \<and>
    (\<forall>q. line < nl_count rope \<and> is_start B rope q \<and> line_content_end B rope line = Some e \<and>
       line_offset rope line \<le> q \<and> q \<le> e \<longrightarrow>
       char_col_in_line rope line q = Some (q - line_offset rope line) \<and>
       place_char_column B rope line (q - line_offset rope line) = Some q)"
proof (cases "line < nl_count rope")
  case True
  let ?s = "line_offset rope line"
  from place_char_column_cases [OF assms(1,2) True] obtain f where
    f: "line_content_end B rope line = Some f" "is_start B rope f" "?s \<le> f"
      "f \<le> line_offset rope (Suc line) - 1"
      "\<And>col. f \<le> ?s + col \<Longrightarrow> place_char_column B rope line col = Some f"
      "\<And>col. ?s + col < f \<Longrightarrow> \<exists>c. is_cluster B rope c \<and>
         place_char_column B rope line col = Some (cl_start c) \<and>
         cl_start c \<le> ?s + col \<and> ?s + col < cl_end c \<and> ?s \<le> cl_start c" by metis
  have lt: "line_offset rope (Suc line) - 1 < line_offset rope (Suc line)"
    using line_facts(6) [OF True] by linarith
  have p: "\<exists>p. place_char_column B rope line col = Some p \<and> is_start B rope p \<and>
      ?s \<le> p \<and> p < line_offset rope (Suc line) \<and> p \<le> ?s + col"
  proof (cases "f \<le> ?s + col")
    case True
    with f(2-5) lt show ?thesis by (metis le_less_trans)
  next
    case False
    then have "?s + col < f" by simp
    from f(6) [OF this] obtain c where "is_cluster B rope c"
      "place_char_column B rope line col = Some (cl_start c)" "cl_start c \<le> ?s + col" "?s \<le> cl_start c"
      by blast
    moreover from this have "cl_start c < line_offset rope (Suc line)" using \<open>?s + col < f\<close> f(4) lt by linarith
    ultimately show ?thesis using is_cluster_start by blast
  qed
  moreover have "place_char_column B rope line (q - ?s) = Some q"
    if q: "is_start B rope q" "?s \<le> q" "q \<le> f" for q
  proof (cases "q = f")
    case True
    then show ?thesis using f(5) [of "q - ?s"] q(2) by simp
  next
    case False
    then have "?s + (q - ?s) < f" using q by simp
    from f(6) [OF this] q(2) obtain c where "is_cluster B rope c"
      "place_char_column B rope line (q - ?s) = Some (cl_start c)" "cl_start c \<le> q" "q < cl_end c" by auto
    then show ?thesis using q(1) unfolding is_cluster_def is_start_def by (metis le_less)
  qed
  moreover have "char_col_in_line rope line q = Some (q - ?s)" for q
    using True by (simp add: char_col_in_line_def rope_line_to_char_def rope_len_lines_def)
  ultimately show ?thesis using True f(1) by fastforce
next
  case False
  let ?l = "nl_count rope - 1"
  have l: "?l < nl_count rope" using assms(3) by simp
  have "place_char_column B rope line col = Some (line_offset rope (Suc ?l) - 1)"
    using False line_facts(2) [OF l] by (simp add: place_char_column_def to_content_def last_content_line_def)
  with line_facts(4,5) [OF l] line_break_is_start [OF assms(1) l assms(2)] False show ?thesis by simp
qed

text \<open>Placing a cursor by grapheme column never panics on a buffer's text and lands on a cluster
  start between the line's start and its content end.\<close>

theorem place_grapheme_column_lands:
  assumes "seg_ok B" "CR \<notin> set rope" "line < nl_count rope"
  shows "\<exists>p e. place_grapheme_column B rope line col = Some p \<and>
    line_content_end B rope line = Some e \<and> is_start B rope p \<and> line_offset rope line \<le> p \<and> p \<le> e"
proof -
  let ?s = "line_offset rope line"
  obtain e where e: "line_content_end B rope line = Some e" "is_start B rope e" "?s \<le> e"
    by (rule line_content_end_ok [OF assms]) blast
  have s: "is_start B rope ?s" by (rule line_start_is_start [OF assms(1,3)])
  then have "chained B rope ?s (graphemes_at B rope ?s)"
    using graphemes_at_chained [OF assms(1), of ?s rope] by (simp add: is_start_def)
  from place_grapheme_loop_bounds [OF chained_take [OF this, of col] s e(3)] e(2)
  have "is_start B rope (place_grapheme_loop (take col (graphemes_at B rope ?s)) e ?s) \<and>
    ?s \<le> place_grapheme_loop (take col (graphemes_at B rope ?s)) e ?s \<and>
    place_grapheme_loop (take col (graphemes_at B rope ?s)) e ?s \<le> e" by (simp add: is_start_def)
  moreover have "place_grapheme_column B rope line col =
      Some (place_grapheme_loop (take col (graphemes_at B rope ?s)) e ?s)"
    using assms(3) e(1) line_facts(1) [OF assms(3)]
    by (simp add: place_grapheme_column_def to_content_def)
  ultimately show ?thesis using e(1) by blast
qed

text \<open>The witnesses' text: \<open>e\<close> with a combining acute, \<open>x\<close>, a line break.\<close>

definition demo_accent :: ustring where
  "demo_accent = [101, 0x301, 120, NL]"

lemma demo_accent_facts:
  "length demo_accent = 4" "demo_accent \<noteq> []" "\<not> demo_seg demo_accent 1"
  "is_cluster demo_seg demo_accent \<lparr>cl_start = 0, cl_end = 2, cl_first = 101\<rparr>"
proof -
  show l: "length demo_accent = 4" "demo_accent \<noteq> []" by (simp_all add: demo_accent_def)
  show n: "\<not> demo_seg demo_accent 1" by (simp add: demo_seg_def demo_accent_def)
  have "demo_seg demo_accent 0" "demo_seg demo_accent 2"
    by (simp_all add: demo_seg_def demo_accent_def)
  moreover have "\<not> demo_seg demo_accent k" if "0 < k" "k < 2" for k
  proof -
    from that have "k = 1" by linarith
    with n show ?thesis by simp
  qed
  moreover have "demo_accent ! 0 = 101" by (simp add: demo_accent_def)
  ultimately show "is_cluster demo_seg demo_accent \<lparr>cl_start = 0, cl_end = 2, cl_first = 101\<rparr>"
    using l by (simp add: is_cluster_def)
qed

theorem snap_is_the_cluster_witness:
  "\<exists>c. snap_to_cluster demo_seg demo_accent 1 = Some c \<and> cl_start c = 0 \<and> cl_end c = 2"
proof -
  have m: "min 1 (length demo_accent - 1) = 1" by (simp add: demo_accent_facts(1))
  let ?d = "\<lparr>cl_start = 0, cl_end = 2, cl_first = 101\<rparr> :: cluster"
  from snap_is_the_cluster [OF demo_seg_ok demo_accent_facts(2), of 1, unfolded m] obtain c where
    c: "snap_to_cluster demo_seg demo_accent 1 = Some c"
      "\<forall>d. is_cluster demo_seg demo_accent d \<and> cl_start d \<le> 1 \<and> 1 < cl_end d \<longrightarrow> d = c" by blast
  have "?d = c" by (rule c(2) [rule_format]) (use demo_accent_facts(4) in simp)
  with c(1) show ?thesis by auto
qed

theorem covering_is_smallest_witness:
  "\<exists>r. covering demo_seg demo_accent 1 2 = Some r \<and> cr_start r = 0"
proof -
  have "\<not> min 2 (length demo_accent) \<le> 1" by (simp add: demo_accent_facts(1))
  with covering_is_smallest [OF demo_seg_ok, of demo_accent 1 2] obtain r where
    r: "covering demo_seg demo_accent 1 2 = Some r" "range_ok demo_seg demo_accent r" "cr_start r \<le> 1"
    by blast
  have "cr_start r \<noteq> 1"
    using r(2) demo_accent_facts(3) by (auto simp: range_ok_def is_start_def)
  with r(1,3) show ?thesis by auto
qed

theorem within_is_largest_witness:
  "\<exists>r. within_range demo_seg demo_accent 0 1 = Some r"
  using within_is_largest [OF demo_seg_ok, of demo_accent 0 1] by blast

theorem place_char_column_lands_witness:
  "\<exists>p. place_char_column demo_seg demo_accent 0 1 = Some p \<and> p \<le> 1"
  using place_char_column_lands [OF demo_seg_ok, of demo_accent 0 1] by (auto simp: demo_accent_def)

theorem place_grapheme_column_lands_witness:
  "\<exists>p. place_grapheme_column demo_seg demo_accent 0 1 = Some p"
  using place_grapheme_column_lands [OF demo_seg_ok, of demo_accent 0 1] by (auto simp: demo_accent_def)

end
