(* ===== verification/Text.thy ===== *)
theory Text imports Rope begin

text \<open>
  \<open>hume-editing/src/text.rs\<close>: line-ending normalization, the buffer text with its
  version and generation, and the lineage counters shared by the texts derived
  from one original. The counters live in a store: \<open>NEXT_LINEAGE\<close> and, per
  \<open>Arc<AtomicU64>\<close>, the last number issued.
\<close>

section \<open>Line endings\<close>

datatype line_ending = Lf | CrLf

text \<open>\<open>str::find\<close> of one char.\<close>

fun find_char :: "uchar \<Rightarrow> ustring \<Rightarrow> nat option" where
  "find_char c [] = None"
| "find_char c (x # xs) = (if x = c then Some 0 else map_option Suc (find_char c xs))"

lemma find_char_Some:
  "find_char c t = Some i \<Longrightarrow> i < length t \<and> t ! i = c \<and> c \<notin> set (take i t)"
  by (induction t arbitrary: i) (auto split: if_splits)

lemma find_char_None: "find_char c t = None \<longleftrightarrow> c \<notin> set t"
  by (induction t) auto

lemma find_char_split:
  "find_char c t = Some i \<Longrightarrow> t = take i t @ c # drop (Suc i) t"
  using find_char_Some [of c t i] id_take_nth_drop [of i t] by simp

text \<open>\<open>str::strip_prefix('\\n')\<close>.\<close>

fun strip_lf :: "ustring \<Rightarrow> ustring option" where
  "strip_lf [] = None"
| "strip_lf (x # xs) = (if x = NL then Some xs else None)"

lemma strip_lf_Some: "strip_lf t = Some s \<longleftrightarrow> t = NL # s"
  by (cases t) auto

lemma find_char_shrinks:
  "find_char c t = Some i \<Longrightarrow> length (drop (Suc i) t) < length t"
  "find_char c t = Some i \<Longrightarrow> drop (Suc i) t = y # s \<Longrightarrow> length s < length t"
proof -
  assume i: "find_char c t = Some i"
  show *: "length (drop (Suc i) t) < length t" using find_char_Some [OF i] by auto
  show "drop (Suc i) t = y # s \<Longrightarrow> length s < length t" using * by simp
qed

text \<open>The loop of \<open>normalize_line_endings_detecting\<close>: the text written so far, the
  rest of the input, and whether a CRLF was seen.\<close>

function normalize_loop :: "ustring \<Rightarrow> ustring \<Rightarrow> bool \<Rightarrow> ustring \<times> bool" where
  "normalize_loop out rest found_crlf =
     (case find_char CR rest of
        None \<Rightarrow> (out @ rest, found_crlf)
      | Some i \<Rightarrow>
          (let out' = out @ take i rest @ [NL]; rest' = drop (i + 1) rest in
           case strip_lf rest' of
             Some after_lf \<Rightarrow> normalize_loop out' after_lf True
           | None \<Rightarrow> normalize_loop out' rest' found_crlf))"
  by pat_completeness auto
termination
  by (relation "measure (\<lambda>(out, rest, found). length rest)")
     (use find_char_shrinks in \<open>auto simp: strip_lf_Some\<close>)

declare normalize_loop.simps [simp del]

definition normalize_line_endings_detecting :: "ustring \<Rightarrow> ustring \<times> line_ending" where
  "normalize_line_endings_detecting text =
     (case find_char CR text of
        None \<Rightarrow> (text, Lf)
      | Some first \<Rightarrow>
          (let (out, found_crlf) = normalize_loop (take first text) (drop first text) False in
           (out, if found_crlf then CrLf else Lf)))"

definition normalize_line_endings :: "ustring \<Rightarrow> ustring" where
  "normalize_line_endings text = fst (normalize_line_endings_detecting text)"

definition ends_with_lf :: "ustring \<Rightarrow> bool" where
  "ends_with_lf t = (t \<noteq> [] \<and> last t = NL)"

definition content_and_line_ending :: "ustring \<Rightarrow> ustring \<times> line_ending" where
  "content_and_line_ending text =
     (let (content, line_ending) = normalize_line_endings_detecting text in
      (if ends_with_lf content then content else content @ [NL], line_ending))"

definition buffer_content :: "ustring \<Rightarrow> ustring" where
  "buffer_content text = fst (content_and_line_ending text)"

text \<open>The reference: every CRLF pair and every other CR becomes one LF.\<close>

fun lf_text :: "ustring \<Rightarrow> ustring" where
  "lf_text [] = []"
| "lf_text (x # xs) =
     (if x = CR then NL # (case xs of y # ys \<Rightarrow> if y = NL then lf_text ys else lf_text xs | [] \<Rightarrow> [])
      else x # lf_text xs)"

fun has_crlf :: "ustring \<Rightarrow> bool" where
  "has_crlf (x # y # t) = (x = CR \<and> y = NL \<or> has_crlf (y # t))"
| "has_crlf t = False"

lemma lf_text_clean_prefix: "CR \<notin> set a \<Longrightarrow> lf_text (a @ b) = a @ lf_text b"
  by (induction a) auto

lemma lf_text_id: "CR \<notin> set a \<Longrightarrow> lf_text a = a"
  using lf_text_clean_prefix [of a "[]"] by simp

lemma lf_text_no_cr: "CR \<notin> set (lf_text t)"
  by (induction t rule: lf_text.induct) (auto split: list.splits)

lemma has_crlf_clean_prefix: "CR \<notin> set a \<Longrightarrow> has_crlf (a @ b) = has_crlf b"
proof (induction a)
  case (Cons x a)
  then show ?case by (cases "a @ b") auto
qed simp

lemma has_crlf_clean: "CR \<notin> set a \<Longrightarrow> \<not> has_crlf a"
  using has_crlf_clean_prefix [of a "[]"] by simp

lemma has_crlf_cr: "has_crlf (CR # t) = ((\<exists>s. t = NL # s) \<or> has_crlf t)"
  by (cases t) auto

lemma has_crlf_lf: "has_crlf (NL # t) = has_crlf t"
  by (cases t) auto

lemma normalize_loop_eq:
  "normalize_loop out rest f = (out @ lf_text rest, f \<or> has_crlf rest)"
proof (induction out rest f rule: normalize_loop.induct)
  case (1 out rest f)
  show ?case
  proof (cases "find_char CR rest")
    case None
    then have "CR \<notin> set rest" by (simp add: find_char_None)
    then show ?thesis
      by (simp add: normalize_loop.simps [of out rest] None lf_text_id has_crlf_clean)
  next
    case (Some i)
    let ?a = "take i rest" and ?b = "drop (Suc i) rest"
    have split: "rest = ?a @ CR # ?b" by (rule find_char_split [OF Some])
    have clean: "CR \<notin> set ?a" using find_char_Some [OF Some] by simp
    have lf: "lf_text rest = ?a @ lf_text (CR # ?b)"
      by (subst split) (rule lf_text_clean_prefix [OF clean])
    have crlf: "has_crlf rest = has_crlf (CR # ?b)"
      by (subst split) (rule has_crlf_clean_prefix [OF clean])
    show ?thesis
    proof (cases "strip_lf ?b")
      case None
      then have b: "lf_text (CR # ?b) = NL # lf_text ?b" "has_crlf (CR # ?b) = has_crlf ?b"
        by (cases ?b; auto simp: has_crlf_cr)+
      have "normalize_loop (out @ ?a @ [NL]) ?b f = ((out @ ?a @ [NL]) @ lf_text ?b, f \<or> has_crlf ?b)"
        using "1.IH"(1) [OF Some refl refl] None by simp
      then show ?thesis
        by (subst normalize_loop.simps) (simp add: Some None Let_def lf crlf b del: lf_text.simps has_crlf.simps)
    next
      case (Some s)
      then have bs: "?b = NL # s" by (simp add: strip_lf_Some)
      then have b: "lf_text (CR # ?b) = NL # lf_text s" "has_crlf (CR # ?b)"
        by (simp_all add: has_crlf_cr)
      have "normalize_loop (out @ ?a @ [NL]) s True = ((out @ ?a @ [NL]) @ lf_text s, True)"
        using "1.IH"(2) [OF \<open>find_char CR rest = Some i\<close> refl refl] Some by simp
      then show ?thesis
        by (subst normalize_loop.simps)
           (simp add: \<open>find_char CR rest = Some i\<close> Some Let_def lf crlf b del: lf_text.simps has_crlf.simps)
    qed
  qed
qed

lemma normalize_detecting_eq:
  "normalize_line_endings_detecting t = (lf_text t, if has_crlf t then CrLf else Lf)"
proof (cases "find_char CR t")
  case None
  then have "CR \<notin> set t" by (simp add: find_char_None)
  then show ?thesis
    by (simp add: normalize_line_endings_detecting_def None lf_text_id has_crlf_clean)
next
  case (Some i)
  let ?a = "take i t" and ?b = "drop i t"
  have clean: "CR \<notin> set ?a" using find_char_Some [OF Some] by simp
  have "lf_text t = ?a @ lf_text ?b" "has_crlf t = has_crlf ?b"
    using lf_text_clean_prefix [OF clean, of ?b] has_crlf_clean_prefix [OF clean, of ?b] by simp_all
  then show ?thesis
    by (simp add: normalize_line_endings_detecting_def Some normalize_loop_eq)
qed

lemma normalize_eq [simp]: "normalize_line_endings t = lf_text t"
  by (simp add: normalize_line_endings_def normalize_detecting_eq)

text \<open>What every live rope satisfies (\<open>is_valid_buffer_rope\<close>, \<open>is_cr_free\<close>).\<close>

definition is_valid_buffer_rope :: "ustring \<Rightarrow> bool" where
  "is_valid_buffer_rope rope = (length rope > 0 \<and> ends_with_newline rope)"

definition is_cr_free :: "ustring \<Rightarrow> bool" where
  "is_cr_free rope = (\<not> list_ex (\<lambda>c. c = CR) rope)"

lemma is_cr_free_set [simp]: "is_cr_free t \<longleftrightarrow> CR \<notin> set t"
  by (auto simp: is_cr_free_def list_ex_iff)

lemma valid_rope_last: "is_valid_buffer_rope t \<longleftrightarrow> t \<noteq> [] \<and> last t = NL"
  by (auto simp: is_valid_buffer_rope_def ends_with_newline_def Let_def last_conv_nth)

lemma valid_rope_nl_count: "is_valid_buffer_rope t \<Longrightarrow> 0 < nl_count t"
  by (rule nl_count_pos) (auto simp: is_valid_buffer_rope_def)

lemma buffer_content_eq:
  "buffer_content t = (if ends_with_lf (lf_text t) then lf_text t else lf_text t @ [NL])"
  by (simp add: buffer_content_def content_and_line_ending_def normalize_detecting_eq)

lemma buffer_content_ok: "is_valid_buffer_rope (buffer_content t) \<and> is_cr_free (buffer_content t)"
  using lf_text_no_cr [of t] by (auto simp: buffer_content_eq valid_rope_last ends_with_lf_def)

section \<open>Buffer texts, versions and generations\<close>

record text_version =
  lineage :: nat
  version_id :: nat

text \<open>A \<open>BufferText\<close>. \<open>generations\<close> is the address of the counter its lineage shares.\<close>

record buffer_text =
  rope :: ustring
  line_ending :: line_ending
  version :: text_version
  generation :: nat
  generations :: nat

text \<open>\<open>NEXT_LINEAGE\<close> and the \<open>Arc<AtomicU64>\<close> counters by address.\<close>

record store =
  next_lineage :: nat
  counters :: "nat \<Rightarrow> nat"

text \<open>\<open>AtomicU64::fetch_add(1)\<close>, which wraps, as the value after the addition.\<close>

definition bump_u64 :: "nat \<Rightarrow> nat" where
  "bump_u64 n = (n + 1) mod 2 ^ 64"

definition new_lineage :: "store \<Rightarrow> store \<times> text_version \<times> nat \<times> nat" where
  "new_lineage st =
     (let l = next_lineage st in
      (st\<lparr>next_lineage := bump_u64 l, counters := (counters st)(l := 0)\<rparr>,
       \<lparr>lineage = l, version_id = 0\<rparr>, 0, l))"

definition next_version :: "store \<Rightarrow> buffer_text \<Rightarrow> store \<times> text_version \<times> nat" where
  "next_version st self =
     (let n = bump_u64 (counters st (generations self)) in
      (st\<lparr>counters := (counters st)(generations self := n)\<rparr>,
       \<lparr>lineage = lineage (version self), version_id = n\<rparr>, n))"

definition successor :: "store \<Rightarrow> buffer_text \<Rightarrow> ustring \<Rightarrow> store \<times> buffer_text" where
  "successor st self r =
     (let (st', version, generation) = next_version st self in
      (st', \<lparr>rope = r, line_ending = line_ending self, version = version,
             generation = generation, generations = generations self\<rparr>))"

definition restored ::
  "store \<Rightarrow> buffer_text \<Rightarrow> ustring \<Rightarrow> text_version \<Rightarrow> store \<times> buffer_text" where
  "restored st self r v =
     (let (st', _, generation) = next_version st self in
      (st', \<lparr>rope = r, line_ending = line_ending self, version = v,
             generation = generation, generations = generations self\<rparr>))"

definition relabeled :: "buffer_text \<Rightarrow> text_version \<Rightarrow> buffer_text" where
  "relabeled self v = self\<lparr>version := v\<rparr>"

definition text_from_str :: "store \<Rightarrow> ustring \<Rightarrow> store \<times> buffer_text" where
  "text_from_str st text =
     (let (content, ending) = content_and_line_ending text;
          (st', version, generation, addr) = new_lineage st in
      (st', \<lparr>rope = content, line_ending = ending, version = version,
             generation = generation, generations = addr\<rparr>))"

definition text_empty :: "store \<Rightarrow> store \<times> buffer_text" where
  "text_empty st =
     (let (st', version, generation, addr) = new_lineage st in
      (st', \<lparr>rope = [NL], line_ending = Lf, version = version,
             generation = generation, generations = addr\<rparr>))"

definition replaced_with :: "store \<Rightarrow> buffer_text \<Rightarrow> ustring \<Rightarrow> store \<times> buffer_text" where
  "replaced_with st self content =
     (let (st1, fresh) = text_from_str st content;
          (st2, version, generation) = next_version st1 self in
      (st2, fresh\<lparr>version := version, generation := generation,
                  generations := generations self\<rparr>))"

definition with_line_ending :: "buffer_text \<Rightarrow> line_ending \<Rightarrow> buffer_text" where
  "with_line_ending self ending = self\<lparr>line_ending := ending\<rparr>"

section \<open>Reads of a buffer text\<close>

definition len_chars :: "buffer_text \<Rightarrow> nat" where
  "len_chars text = length (rope text)"

definition last_char :: "buffer_text \<Rightarrow> nat" where
  "last_char text = len_chars text - 1"

definition char_at :: "buffer_text \<Rightarrow> nat \<Rightarrow> uchar option" where
  "char_at text i = (if len_chars text \<le> i then None else Some (rope text ! i))"

definition ropey_char_to_line :: "buffer_text \<Rightarrow> nat \<Rightarrow> nat option" where
  "ropey_char_to_line text i = char_to_ropey_line (rope text) i"

definition line_to_char :: "buffer_text \<Rightarrow> nat \<Rightarrow> nat option" where
  "line_to_char text l = line_start_char (rope text) l"

text \<open>\<open>char_to_line\<close> clamps a position past the end and maps the phantom line back to
  the last content line.\<close>

definition char_to_line :: "buffer_text \<Rightarrow> nat \<Rightarrow> nat option" where
  "char_to_line text i = do {
     let clamped = min i (len_chars text);
     l \<leftarrow> char_to_ropey_line (rope text) clamped;
     Some (case to_content (rope text) l of Some c \<Rightarrow> c | None \<Rightarrow> last_content_line (rope text)) }"

text \<open>The invariant every live buffer text keeps.\<close>

definition buffer_ok :: "buffer_text \<Rightarrow> bool" where
  "buffer_ok text = (is_valid_buffer_rope (rope text) \<and> is_cr_free (rope text))"

lemma buffer_ok_len [simp]: "buffer_ok text \<Longrightarrow> 0 < len_chars text"
  by (simp add: buffer_ok_def is_valid_buffer_rope_def len_chars_def)

lemma char_to_line_total:
  assumes "buffer_ok text"
  shows "\<exists>l. char_to_line text i = Some l \<and> l < content_line_count (rope text)
     \<and> (i < len_chars text \<longrightarrow> line_offset (rope text) l \<le> i \<and> i < line_offset (rope text) (Suc l))"
proof -
  let ?r = "rope text"
  have pos: "0 < nl_count ?r" using assms valid_rope_nl_count by (simp add: buffer_ok_def)
  let ?i = "min i (length ?r)" and ?l = "nl_count (take i ?r)"
  have l: "char_to_ropey_line ?r ?i = Some ?l"
    by (cases "i \<le> length ?r") (simp_all add: char_to_ropey_line_def rope_char_to_line_def)
  show ?thesis
  proof (cases "?l < nl_count ?r")
    case True
    moreover have "line_offset ?r ?l \<le> i \<and> i < line_offset ?r (Suc ?l)" if "i < length ?r"
      using line_offset_le_iff [of ?l ?r i] line_offset_le_iff [of "Suc ?l" ?r i] True that by auto
    ultimately show ?thesis
      using l by (auto simp: char_to_line_def to_content_def len_chars_def)
  next
    case False
    have "length ?r \<le> i"
    proof (rule ccontr)
      assume "\<not> length ?r \<le> i"
      then have i: "i < length ?r" by simp
      have "last ?r = NL" "?r \<noteq> []" using assms by (auto simp: buffer_ok_def valid_rope_last)
      then have "drop i ?r \<noteq> []" "last (drop i ?r) = NL" using i by (auto simp: last_drop)
      then have "NL \<in> set (drop i ?r)" using last_in_set by metis
      then have "0 < nl_count (drop i ?r)" using count_list_0_iff by fastforce
      moreover have "nl_count ?r = ?l + nl_count (drop i ?r)"
        by (metis append_take_drop_id count_list_append)
      ultimately show False using False by simp
    qed
    then show ?thesis
      using l False pos
      by (auto simp: char_to_line_def to_content_def len_chars_def last_content_line_def)
  qed
qed

section \<open>The texts of a run\<close>

text \<open>Every store and set of texts the constructors can produce, as long as no counter
  wraps. \<open>restored\<close> and \<open>relabeled\<close> are called with a version of the same lineage whose
  content the new text reproduces: their documented condition.\<close>

inductive texts_reach :: "store \<Rightarrow> buffer_text set \<Rightarrow> bool" where
  start: "texts_reach \<lparr>next_lineage = 0, counters = (\<lambda>_. 0)\<rparr> {}"
| from_str: "texts_reach st T \<Longrightarrow> next_lineage st < 2 ^ 64 - 1 \<Longrightarrow>
    text_from_str st s = (st', t) \<Longrightarrow> texts_reach st' (insert t T)"
| empty: "texts_reach st T \<Longrightarrow> next_lineage st < 2 ^ 64 - 1 \<Longrightarrow>
    text_empty st = (st', t) \<Longrightarrow> texts_reach st' (insert t T)"
| successor: "texts_reach st T \<Longrightarrow> t \<in> T \<Longrightarrow> counters st (generations t) < 2 ^ 64 - 1 \<Longrightarrow>
    successor st t r = (st', t') \<Longrightarrow> texts_reach st' (insert t' T)"
| restored: "texts_reach st T \<Longrightarrow> t \<in> T \<Longrightarrow> u \<in> T \<Longrightarrow>
    lineage (version u) = lineage (version t) \<Longrightarrow> rope u = r \<Longrightarrow>
    counters st (generations t) < 2 ^ 64 - 1 \<Longrightarrow>
    restored st t r (version u) = (st', t') \<Longrightarrow> texts_reach st' (insert t' T)"
| relabeled: "texts_reach st T \<Longrightarrow> t \<in> T \<Longrightarrow> u \<in> T \<Longrightarrow>
    lineage (version u) = lineage (version t) \<Longrightarrow> rope u = rope t \<Longrightarrow>
    texts_reach st (insert (relabeled t (version u)) T)"
| replaced_with: "texts_reach st T \<Longrightarrow> t \<in> T \<Longrightarrow> next_lineage st < 2 ^ 64 - 1 \<Longrightarrow>
    counters st (generations t) < 2 ^ 64 - 1 \<Longrightarrow>
    replaced_with st t s = (st', t') \<Longrightarrow> texts_reach st' (insert t' T)"

text \<open>Each text's counter is its lineage's, no number it carries was issued after the
  counter's last, and a version stands for one content.\<close>

definition text_numbers_ok :: "store \<Rightarrow> buffer_text \<Rightarrow> bool" where
  "text_numbers_ok st t =
     (generations t = lineage (version t) \<and> lineage (version t) < next_lineage st \<and>
      version_id (version t) \<le> counters st (generations t) \<and>
      generation t \<le> counters st (generations t))"

definition texts_inv :: "store \<Rightarrow> buffer_text set \<Rightarrow> bool" where
  "texts_inv st T =
     ((\<forall>t \<in> T. text_numbers_ok st t) \<and>
      (\<forall>t \<in> T. \<forall>u \<in> T. version t = version u \<longrightarrow> rope t = rope u))"

lemma bump_u64_eq: "n < 2 ^ 64 - 1 \<Longrightarrow> bump_u64 n = Suc n"
  by (simp add: bump_u64_def)

lemma texts_inv_insert:
  assumes "texts_inv st T" "text_numbers_ok st' t'"
    and "\<And>t. t \<in> T \<Longrightarrow> text_numbers_ok st t \<Longrightarrow> text_numbers_ok st' t"
    and "\<And>t. t \<in> T \<Longrightarrow> text_numbers_ok st t \<Longrightarrow> version t = version t' \<Longrightarrow> rope t = rope t'"
  shows "texts_inv st' (insert t' T)"
  unfolding texts_inv_def
proof (intro conjI ballI impI)
  fix x assume "x \<in> insert t' T"
  then show "text_numbers_ok st' x" using assms(1,2,3) by (auto simp: texts_inv_def)
next
  fix x y assume xy: "x \<in> insert t' T" "y \<in> insert t' T" and eq: "version x = version y"
  have old: "rope t = rope u" if "t \<in> T" "u \<in> T" "version t = version u" for t u
    using assms(1) that unfolding texts_inv_def by blast
  have new: "rope t = rope t'" if "t \<in> T" "version t = version t'" for t
    using assms(1) that assms(4) [OF that(1) _ that(2)] unfolding texts_inv_def by blast
  consider "x = t'" "y = t'" | "x = t'" "y \<in> T" | "x \<in> T" "y = t'" | "x \<in> T" "y \<in> T"
    using xy by blast
  then show "rope x = rope y"
  proof cases
    case 2
    then show ?thesis using new [of y] eq by simp
  next
    case 3
    then show ?thesis using new [of x] eq by simp
  next
    case 4
    then show ?thesis using old eq by blast
  qed simp
qed

lemma text_numbers_mono:
  assumes "text_numbers_ok st t" "next_lineage st \<le> next_lineage st'"
    "counters st (generations t) \<le> counters st' (generations t)"
  shows "text_numbers_ok st' t"
  using assms by (auto simp: text_numbers_ok_def)

lemmas text_makers =
  new_lineage_def next_version_def successor_def restored_def relabeled_def text_from_str_def
  text_empty_def replaced_with_def

lemma texts_reach_inv: "texts_reach st T \<Longrightarrow> texts_inv st T"
proof (induction rule: texts_reach.induct)
  case start
  show ?case by (simp add: texts_inv_def)
next
  case (from_str st T s st' t)
  show ?case
  proof (rule texts_inv_insert [OF from_str.IH])
    show "text_numbers_ok st' t" using from_str.hyps(2,3)
      by (auto simp: text_makers bump_u64_eq Let_def text_numbers_ok_def split: prod.splits)
    fix u assume u: "u \<in> T" and ok: "text_numbers_ok st u"
    show "text_numbers_ok st' u" using from_str.hyps(2,3) ok
      by (auto simp: text_makers bump_u64_eq Let_def text_numbers_ok_def split: prod.splits)
    assume "version u = version t"
    then have "lineage (version u) = next_lineage st"
      using from_str.hyps(3) by (auto simp: text_makers Let_def split: prod.splits)
    then show "rope u = rope t" using ok by (simp add: text_numbers_ok_def)
  qed
next
  case (empty st T st' t)
  show ?case
  proof (rule texts_inv_insert [OF empty.IH])
    show "text_numbers_ok st' t" using empty.hyps(2,3)
      by (auto simp: text_makers bump_u64_eq Let_def text_numbers_ok_def)
    fix u assume u: "u \<in> T" and ok: "text_numbers_ok st u"
    show "text_numbers_ok st' u" using empty.hyps(2,3) ok
      by (auto simp: text_makers bump_u64_eq Let_def text_numbers_ok_def)
    assume "version u = version t"
    then have "lineage (version u) = next_lineage st"
      using empty.hyps(3) by (auto simp: text_makers Let_def)
    then show "rope u = rope t" using ok by (simp add: text_numbers_ok_def)
  qed
next
  case (successor st T t r st' t')
  have t: "text_numbers_ok st t" using successor.IH successor.hyps(2) by (simp add: texts_inv_def)
  show ?case
  proof (rule texts_inv_insert [OF successor.IH])
    show "text_numbers_ok st' t'" using successor.hyps(3,4) t
      by (auto simp: text_makers bump_u64_eq Let_def text_numbers_ok_def)
    fix u assume u: "u \<in> T" and ok: "text_numbers_ok st u"
    show "text_numbers_ok st' u" using successor.hyps(3,4) ok
      by (auto simp: text_makers bump_u64_eq Let_def text_numbers_ok_def)
    assume "version u = version t'"
    then have "version_id (version u) = Suc (counters st (generations t))"
        "lineage (version u) = lineage (version t)"
      using successor.hyps(3,4) by (auto simp: text_makers bump_u64_eq Let_def)
    then show "rope u = rope t'" using ok t by (auto simp: text_numbers_ok_def)
  qed
next
  case (restored st T t u r st' t')
  have t: "text_numbers_ok st t" "text_numbers_ok st u"
    using restored.IH restored.hyps(2,3) by (simp_all add: texts_inv_def)
  show ?case
  proof (rule texts_inv_insert [OF restored.IH])
    show "text_numbers_ok st' t'" using restored.hyps(4,6,7) t
      by (auto simp: text_makers bump_u64_eq Let_def text_numbers_ok_def)
    fix w assume w: "w \<in> T" and ok: "text_numbers_ok st w"
    show "text_numbers_ok st' w" using restored.hyps(6,7) ok
      by (auto simp: text_makers bump_u64_eq Let_def text_numbers_ok_def)
    assume "version w = version t'"
    then have "version w = version u" "rope t' = rope u"
      using restored.hyps(5,7) by (auto simp: text_makers Let_def)
    moreover from this have "rope w = rope u" using restored.IH restored.hyps(3) w
      unfolding texts_inv_def by blast
    ultimately show "rope w = rope t'" by simp
  qed
next
  case (relabeled st T t u)
  have t: "text_numbers_ok st t" "text_numbers_ok st u"
    using relabeled.IH relabeled.hyps(2,3) by (simp_all add: texts_inv_def)
  show ?case
  proof (rule texts_inv_insert [OF relabeled.IH])
    show "text_numbers_ok st (relabeled t (version u))" using relabeled.hyps t
      by (auto simp: relabeled_def text_numbers_ok_def)
    fix w assume w: "w \<in> T" and ok: "text_numbers_ok st w"
    then show "text_numbers_ok st w" by simp
    assume "version w = version (relabeled t (version u))"
    then have "version w = version u" by (simp add: relabeled_def)
    then have "rope w = rope u" using relabeled.IH relabeled.hyps(3) w
      unfolding texts_inv_def by blast
    then show "rope w = rope (relabeled t (version u))"
      using relabeled.hyps(5) by (simp add: relabeled_def)
  qed
next
  case (replaced_with st T t s st' t')
  have t: "text_numbers_ok st t" using replaced_with.IH replaced_with.hyps(2) by (simp add: texts_inv_def)
  have old: "generations t \<noteq> next_lineage st" using t by (simp add: text_numbers_ok_def)
  show ?case
  proof (rule texts_inv_insert [OF replaced_with.IH])
    show "text_numbers_ok st' t'" using replaced_with.hyps(3,4,5) t old
      by (auto simp: text_makers bump_u64_eq Let_def text_numbers_ok_def split: prod.splits)
    fix u assume u: "u \<in> T" and ok: "text_numbers_ok st u"
    show "text_numbers_ok st' u" using replaced_with.hyps(3,4,5) ok old
      by (auto simp: text_makers bump_u64_eq Let_def text_numbers_ok_def split: prod.splits)
    assume "version u = version t'"
    then have "version_id (version u) = Suc (counters st (generations t))"
        "lineage (version u) = lineage (version t)"
      using replaced_with.hyps(3,4,5) old
      by (auto simp: text_makers bump_u64_eq Let_def split: prod.splits)
    then show "rope u = rope t'" using ok t by (auto simp: text_numbers_ok_def)
  qed
qed

lemma texts_reach_numbers: "texts_reach st T \<Longrightarrow> t \<in> T \<Longrightarrow> text_numbers_ok st t"
  using texts_reach_inv unfolding texts_inv_def by blast

section \<open>Properties\<close>

text \<open>C14: Normalizing line endings gives the text with every CRLF pair and every lone CR
  replaced by one LF, whatever the clean runs the loop copies, reports CRLF exactly when the
  input holds a CRLF pair, and changes nothing when run again.\<close>

theorem normalize_line_endings_spec:
  "normalize_line_endings_detecting t = (lf_text t, if has_crlf t then CrLf else Lf)
   \<and> CR \<notin> set (normalize_line_endings t)
   \<and> normalize_line_endings (normalize_line_endings t) = normalize_line_endings t"
  by (simp add: normalize_detecting_eq lf_text_no_cr lf_text_id)

text \<open>In every run, two texts that carry the same version hold the same content,
  however they were made: from a string, by an edit, by undo or by relabeling.\<close>

theorem equal_versions_equal_content:
  assumes "texts_reach st T" "t \<in> T" "u \<in> T" "version t = version u"
  shows "rope t = rope u"
  using texts_reach_inv [OF assms(1)] assms(2-4) unfolding texts_inv_def by blast

text \<open>A run: a text from a string, an edit of it, and the edit undone.\<close>

definition demo_store :: store where
  "demo_store = \<lparr>next_lineage = 1, counters = (\<lambda>_. 0)\<rparr>"

definition demo_text :: buffer_text where
  "demo_text = \<lparr>rope = [97, NL], line_ending = Lf, version = \<lparr>lineage = 0, version_id = 0\<rparr>,
     generation = 0, generations = 0\<rparr>"

lemma demo_reach: "texts_reach demo_store {demo_text}"
proof -
  have "text_from_str \<lparr>next_lineage = 0, counters = (\<lambda>_. 0)\<rparr> [97] = (demo_store, demo_text)"
    by (auto simp: text_from_str_def content_and_line_ending_def normalize_detecting_eq
        ends_with_lf_def new_lineage_def bump_u64_def demo_store_def demo_text_def)
  then show ?thesis
    using texts_reach.from_str [OF texts_reach.start] by simp
qed

theorem equal_versions_equal_content_witness:
  "\<exists>st T t u. texts_reach st T \<and> t \<in> T \<and> u \<in> T \<and> t \<noteq> u \<and> version t = version u
     \<and> rope t = rope u"
proof -
  obtain st1 t1 where s1: "successor demo_store demo_text [98, NL] = (st1, t1)" by fastforce
  obtain st2 t2 where s2: "restored st1 t1 (rope demo_text) (version demo_text) = (st2, t2)"
    by fastforce
  have r1: "texts_reach st1 {t1, demo_text}"
    using texts_reach.successor [OF demo_reach _ _ s1] by (simp add: demo_store_def)
  have r2: "texts_reach st2 {t2, t1, demo_text}"
    using texts_reach.restored [OF r1, of t1 demo_text "rope demo_text" st2 t2] s1 s2
    by (auto simp: successor_def next_version_def demo_store_def demo_text_def bump_u64_def Let_def)
  have "generation t2 = 2"
    using s1 s2 by (auto simp: successor_def restored_def next_version_def demo_store_def
        demo_text_def bump_u64_eq Let_def)
  moreover have "version t2 = version demo_text"
    using s2 by (auto simp: restored_def Let_def split: prod.splits)
  ultimately have v: "version t2 = version demo_text" "t2 \<noteq> demo_text"
    by (auto simp: demo_text_def)
  have "rope t2 = rope demo_text"
    using equal_versions_equal_content [OF r2, of t2 demo_text] v by simp
  with r2 v show ?thesis by blast
qed

text \<open>A text made by an edit, by undo or by replacing the content is newer than every
  text of its lineage made before it, and an edit's version is one no earlier text carries.\<close>

theorem made_texts_are_newer:
  assumes "texts_reach st T" "t \<in> T" "u \<in> T" "generations u = generations t"
    and "counters st (generations t) < 2 ^ 64 - 1"
  shows "generation u < generation (snd (successor st t r))
     \<and> version (snd (successor st t r)) \<noteq> version u
     \<and> generation u < generation (snd (restored st t r v))
     \<and> generation u < generation (snd (replaced_with st t s))"
proof -
  have ok: "text_numbers_ok st t" "text_numbers_ok st u"
    using assms(1-3) by (simp_all add: texts_reach_numbers)
  then have old: "generations t \<noteq> next_lineage st" by (simp add: text_numbers_ok_def)
  note * = text_makers bump_u64_eq Let_def text_numbers_ok_def
  have "version_id (version u) < version_id (version (snd (successor st t r)))"
    using ok assms(4,5) by (auto simp: *)
  then have "version (snd (successor st t r)) \<noteq> version u" by auto
  moreover have "generation u < generation (snd (successor st t r))"
      "generation u < generation (snd (restored st t r v))"
    using ok assms(4,5) by (auto simp: *)
  moreover have "generation u < generation (snd (replaced_with st t s))"
    using ok assms(4,5) old by (auto simp: * split: prod.splits)
  ultimately show ?thesis by blast
qed

theorem made_texts_are_newer_witness:
  "generation demo_text < generation (snd (successor demo_store demo_text [98, NL]))"
  using made_texts_are_newer [OF demo_reach, of demo_text demo_text "[98, NL]"]
  by (simp add: demo_store_def)

text \<open>A buffer text built from any string, and the empty one, is non-empty, ends with LF
  and holds no CR.\<close>

theorem text_from_str_ok:
  "buffer_ok (snd (text_from_str st s)) \<and> buffer_ok (snd (text_empty st))
   \<and> buffer_ok (snd (replaced_with st t s))"
  using buffer_content_ok [of s]
  by (auto simp: buffer_ok_def text_makers buffer_content_def Let_def valid_rope_last
      split: prod.splits)

end
