(* ===== verification/Selection.thy ===== *)
theory Selection imports Grapheme Text begin

text \<open>
  \<open>hume-editing/src/selection/single.rs\<close> and the set of \<open>selection/mod.rs\<close>: selections, and
  selection sets normalized by sorting and an in-place merge. The reference of the merge is
  \<open>merge_ref\<close>, which folds overlapping neighbours of a list together.
\<close>

section \<open>One selection\<close>

datatype sticky_display_col = DisplayLine nat "nat option" | BufferLine nat

datatype facing = Forward | Backward

definition facing_from_forward :: "bool \<Rightarrow> facing" where
  "facing_from_forward forward = (if forward then Forward else Backward)"

record selection =
  anchor :: nat
  head :: nat
  sticky :: "sticky_display_col option"

definition sel_new :: "nat \<Rightarrow> nat \<Rightarrow> selection" where
  "sel_new a h = \<lparr>anchor = a, head = h, sticky = None\<rparr>"

definition sel_cursor :: "nat \<Rightarrow> selection" where
  "sel_cursor at = sel_new at at"

definition sel_covering :: "cluster_range \<Rightarrow> facing \<Rightarrow> selection" where
  "sel_covering r f = (case f of
       Forward \<Rightarrow> sel_new (cr_start r) (cr_last r)
     | Backward \<Rightarrow> sel_new (cr_last r) (cr_start r))"

definition sel_facing :: "selection \<Rightarrow> facing" where
  "sel_facing s = (if anchor s \<le> head s then Forward else Backward)"

definition is_cursor :: "selection \<Rightarrow> bool" where
  "is_cursor s = (anchor s = head s)"

definition sel_flip :: "selection \<Rightarrow> selection" where
  "sel_flip s = sel_new (head s) (anchor s)"

definition with_head :: "selection \<Rightarrow> nat \<Rightarrow> selection" where
  "with_head s h = sel_new (anchor s) h"

definition to_head :: "selection \<Rightarrow> selection" where
  "to_head s = sel_cursor (head s)"

definition to_anchor :: "selection \<Rightarrow> selection" where
  "to_anchor s = sel_cursor (anchor s)"

definition with_sticky :: "selection \<Rightarrow> sticky_display_col \<Rightarrow> selection" where
  "with_sticky s col = s\<lparr>sticky := Some col\<rparr>"

definition sel_start :: "selection \<Rightarrow> nat" where
  "sel_start s = min (anchor s) (head s)"

definition sel_last :: "selection \<Rightarrow> nat" where
  "sel_last s = max (anchor s) (head s)"

definition with_ends :: "selection \<Rightarrow> nat \<Rightarrow> nat \<Rightarrow> selection" where
  "with_ends s start end =
     (let (a, h) = (case sel_facing s of Forward \<Rightarrow> (start, end) | Backward \<Rightarrow> (end, start))
      in s\<lparr>anchor := a, head := h\<rparr>)"

definition without_sticky :: "selection \<Rightarrow> selection" where
  "without_sticky s = s\<lparr>sticky := None\<rparr>"

lemma sel_start_le_last [simp]: "sel_start s \<le> sel_last s"
  by (simp add: sel_start_def sel_last_def)

lemma with_ends_simps [simp]:
  "a \<le> b \<Longrightarrow> sel_start (with_ends s a b) = a"
  "a \<le> b \<Longrightarrow> sel_last (with_ends s a b) = b"
  "sticky (with_ends s a b) = sticky s"
  by (auto simp: with_ends_def sel_start_def sel_last_def Let_def split: facing.splits)

lemma without_sticky_simps [simp]:
  "sel_start (without_sticky s) = sel_start s" "sel_last (without_sticky s) = sel_last s"
  "anchor (without_sticky s) = anchor s" "head (without_sticky s) = head s"
  "sticky (without_sticky s) = None"
  by (simp_all add: without_sticky_def sel_start_def sel_last_def)

lemma with_ends_facing:
  "a < b \<Longrightarrow> sel_facing (with_ends s a b) = sel_facing s"
  by (auto simp: with_ends_def sel_facing_def Let_def split: facing.splits if_splits)

section \<open>Selection sets\<close>

record selection_set =
  sels :: "selection list"
  primary :: nat
  set_version :: text_version

definition holds :: "selection \<Rightarrow> selection \<Rightarrow> bool" where
  "holds p s = (sel_start s \<le> sel_start p \<and> sel_last p \<le> sel_last s)"

text \<open>One turn of the loop of \<open>merge_sorted\<close>, on the vector, the write index and the primary.\<close>

definition merge_step ::
  "selection \<Rightarrow> selection list \<times> nat \<times> nat \<Rightarrow> nat \<Rightarrow> selection list \<times> nat \<times> nat"
where
  "merge_step before st read =
     (let (ss, write, new_primary) = st;
          sel = ss ! read;
          kept = ss ! write
      in if sel_start sel \<le> sel_last kept
         then (let ss = (if sel_last kept < sel_last sel
                   then ss[write := without_sticky (with_ends sel (sel_start kept) (sel_last sel))]
                   else ss)
               in (ss, write, if holds before (ss ! write) then write else new_primary))
         else (let new_primary = (if holds before kept then write else new_primary);
                   write = write + 1
               in (ss[write := sel], write, new_primary)))"

definition merge_sorted :: "selection_set \<Rightarrow> selection \<Rightarrow> selection_set" where
  "merge_sorted self before =
     (if length (sels self) \<le> 1 then self\<lparr>primary := 0\<rparr>
      else (let (ss, write, new_primary) =
                  foldl (merge_step before) (sels self, 0, 0) [1..<length (sels self)];
                new_primary = (if holds before (ss ! write) then write else new_primary)
            in self\<lparr>sels := take (write + 1) ss, primary := new_primary\<rparr>))"

definition merge_overlapping :: "selection_set \<Rightarrow> selection_set option" where
  "merge_overlapping self = do {
     before \<leftarrow> nth_opt (sels self) (primary self);
     Some (merge_sorted (self\<lparr>sels := sort_key sel_start (sels self)\<rparr>) before) }"

definition from_parts :: "selection list \<Rightarrow> nat \<Rightarrow> text_version \<Rightarrow> selection_set option" where
  "from_parts ss p v = do {
     ensure (ss \<noteq> []);
     ensure (p < length ss);
     merge_overlapping \<lparr>sels = ss, primary = p, set_version = v\<rparr> }"

definition primary_selection :: "selection_set \<Rightarrow> selection option" where
  "primary_selection self = nth_opt (sels self) (primary self)"

definition eq_ignoring_sticky :: "selection_set \<Rightarrow> selection_set \<Rightarrow> bool" where
  "eq_ignoring_sticky self other =
     (set_version self = set_version other \<and> primary self = primary other \<and>
      length (sels self) = length (sels other) \<and>
      map without_sticky (sels self) = map without_sticky (sels other))"

definition is_single_cursor :: "selection_set \<Rightarrow> bool" where
  "is_single_cursor self = (case sels self of [only] \<Rightarrow> is_cursor only | _ \<Rightarrow> False)"

section \<open>The merge\<close>

definition join_sel :: "selection \<Rightarrow> selection \<Rightarrow> selection" where
  "join_sel kept sel = (if sel_last kept < sel_last sel
     then without_sticky (with_ends sel (sel_start kept) (sel_last sel)) else kept)"

fun merge_ref :: "selection \<Rightarrow> selection list \<Rightarrow> selection list" where
  "merge_ref kept [] = [kept]"
| "merge_ref kept (s # ss) =
     (if sel_start s \<le> sel_last kept then merge_ref (join_sel kept s) ss
      else kept # merge_ref s ss)"

lemma join_sel_ends:
  "sel_start (join_sel kept s) = sel_start kept"
  "sel_last (join_sel kept s) = max (sel_last kept) (sel_last s)"
proof -
  have "sel_last kept < sel_last s \<Longrightarrow> sel_start kept \<le> sel_last s"
    using sel_start_le_last [of kept] by linarith
  then show "sel_start (join_sel kept s) = sel_start kept"
    "sel_last (join_sel kept s) = max (sel_last kept) (sel_last s)"
    by (auto simp: join_sel_def)
qed

text \<open>Where the loop stands after reading \<open>k\<close> selections of \<open>ss\<close>.\<close>

definition merge_inv :: "selection list \<Rightarrow> selection \<Rightarrow> nat \<Rightarrow> selection list \<times> nat \<times> nat \<Rightarrow> bool" where
  "merge_inv ss before k st = (case st of (cur, write, np) \<Rightarrow>
     write < k \<and> k \<le> length ss \<and> length cur = length ss \<and> drop k cur = drop k ss \<and>
     take write cur @ merge_ref (cur ! write) (drop k ss) = merge_ref (ss ! 0) (drop 1 ss) \<and>
     sel_start (cur ! write) \<le> sel_start (ss ! (k - 1)) \<and>
     np \<le> write \<and>
     (before \<in> set (take k ss) \<longrightarrow> np < write \<and> holds before (cur ! np) \<or> holds before (cur ! write)))"

lemma merge_step_inv:
  assumes "merge_inv ss before k st" "k < length ss" "sorted (map sel_start ss)"
  shows "merge_inv ss before (Suc k) (merge_step before st k)"
proof -
  obtain cur w np where st: "st = (cur, w, np)" by (cases st) auto
  from assms(1) have i: "w < k" "length cur = length ss" "drop k cur = drop k ss"
    "take w cur @ merge_ref (cur ! w) (drop k ss) = merge_ref (ss ! 0) (drop 1 ss)"
    "sel_start (cur ! w) \<le> sel_start (ss ! (k - 1))" "np \<le> w"
    "before \<in> set (take k ss) \<Longrightarrow> np < w \<and> holds before (cur ! np) \<or> holds before (cur ! w)"
    by (auto simp: merge_inv_def st)
  have sk: "cur ! k = ss ! k"
    using arg_cong [OF i(3), of hd] assms(2) i(2) by (simp add: hd_drop_conv_nth)
  have dk: "drop k ss = ss ! k # drop (Suc k) ss" using assms(2) by (simp add: Cons_nth_drop_Suc)
  have tk: "take (Suc k) ss = take k ss @ [ss ! k]" using assms(2) by (simp add: take_Suc_conv_app_nth)
  have ds: "drop (Suc k) cur = drop (Suc k) ss" using arg_cong [OF i(3), of tl] by (simp add: tl_drop drop_Suc)
  have mono: "sel_start (ss ! (k - 1)) \<le> sel_start (ss ! k)"
    using sorted_nth_mono [OF assms(3), of "k - 1" k] assms(2) by simp
  then have le: "sel_start (cur ! w) \<le> sel_start (ss ! k)" using i(5) by simp
  have wl: "w < length cur" using i(1,2) assms(2) by simp
  show ?thesis
  proof (cases "sel_start (ss ! k) \<le> sel_last (cur ! w)")
    case True
    let ?j = "join_sel (cur ! w) (ss ! k)"
    let ?cur = "cur[w := ?j]"
    have step: "merge_step before st k = (?cur, w, if holds before ?j then w else np)"
      using True sk wl by (auto simp: merge_step_def st Let_def join_sel_def)
    have "np < w \<and> holds before (?cur ! np) \<or> holds before ?j" if "before \<in> set (take (Suc k) ss)"
    proof (cases "before = ss ! k")
      case True
      then show ?thesis using join_sel_ends [of "cur ! w" "ss ! k"] le by (simp add: holds_def)
    next
      case False
      with that tk have "before \<in> set (take k ss)" by auto
      from i(7) [OF this] show ?thesis
        using join_sel_ends [of "cur ! w" "ss ! k"] le by (auto simp: holds_def)
    qed
    moreover have "sel_start ?j \<le> sel_start (ss ! k)" using join_sel_ends(1) le by simp
    moreover have "take w ?cur @ merge_ref ?j (drop (Suc k) ss) = merge_ref (ss ! 0) (drop 1 ss)"
      using i(4) True dk by simp
    ultimately show ?thesis
      using i(1,2,6) ds wl assms(2) by (auto simp: merge_inv_def step)
  next
    case False
    let ?cur = "cur[Suc w := ss ! k]"
    have step: "merge_step before st k = (?cur, Suc w, if holds before (cur ! w) then w else np)"
      using False sk by (auto simp: merge_step_def st Let_def)
    have sw: "Suc w < length cur" using i(1,2) assms(2) by simp
    have "take (Suc w) ?cur @ merge_ref (?cur ! Suc w) (drop (Suc k) ss) = merge_ref (ss ! 0) (drop 1 ss)"
      using i(4) False dk sw by (simp add: take_Suc_conv_app_nth)
    moreover have "(if holds before (cur ! w) then w else np) < Suc w \<and>
        holds before (?cur ! (if holds before (cur ! w) then w else np)) \<or> holds before (?cur ! Suc w)"
      if "before \<in> set (take (Suc k) ss)"
    proof (cases "before = ss ! k")
      case True
      then show ?thesis using sw by (simp add: holds_def)
    next
      case False
      with that tk have "before \<in> set (take k ss)" by auto
      from i(7) [OF this] i(6) show ?thesis by auto
    qed
    ultimately show ?thesis
      using i(1,2,6) ds sw assms(2) by (auto simp: merge_inv_def step)
  qed
qed

lemma merge_loop_inv:
  assumes "merge_inv ss before k st" "sorted (map sel_start ss)"
  shows "k + n \<le> length ss \<Longrightarrow> merge_inv ss before (k + n) (foldl (merge_step before) st [k..<k + n])"
proof (induction n)
  case (Suc n)
  then show ?case using merge_step_inv [OF _ _ assms(2), of before "k + n"] by simp
qed (use assms in simp)

text \<open>The in-place merge is the reference, and its primary is a selection that holds the old one.\<close>

lemma merge_sorted_ref:
  assumes "sels self \<noteq> []" "sorted (map sel_start (sels self))"
  shows "sels (merge_sorted self before) = merge_ref (hd (sels self)) (tl (sels self))"
    and "primary (merge_sorted self before) < length (sels (merge_sorted self before))"
    and "before \<in> set (sels self) \<Longrightarrow>
      holds before (sels (merge_sorted self before) ! primary (merge_sorted self before))"
    and "set_version (merge_sorted self before) = set_version self"
proof -
  let ?ss = "sels self" and ?m = "merge_sorted self before"
  have "sels ?m = merge_ref (hd ?ss) (tl ?ss) \<and> primary ?m < length (sels ?m) \<and>
    (before \<in> set ?ss \<longrightarrow> holds before (sels ?m ! primary ?m)) \<and> set_version ?m = set_version self"
  proof (cases "length ?ss \<le> 1")
    case True
    with assms(1) obtain s where "?ss = [s]" by (cases ?ss) (auto simp: Suc_le_eq)
    then show ?thesis by (auto simp: merge_sorted_def holds_def)
  next
    case False
    let ?n = "length ?ss"
    have "merge_inv ?ss before 1 (?ss, 0, 0)"
      using assms(1) by (cases ?ss) (auto simp: merge_inv_def holds_def)
    moreover have "1 + (?n - 1) = ?n" "1 + (?n - 1) \<le> ?n" using False by simp_all
    ultimately have "merge_inv ?ss before ?n (foldl (merge_step before) (?ss, 0, 0) [1..<?n])"
      using merge_loop_inv [of ?ss before 1 "(?ss, 0, 0)" "?n - 1"] assms(2) by metis
    then obtain cur w np where
      f: "foldl (merge_step before) (?ss, 0, 0) [1..<?n] = (cur, w, np)" and
      i: "w < ?n" "length cur = ?n" "take w cur @ [cur ! w] = merge_ref (?ss ! 0) (drop 1 ?ss)" "np \<le> w"
        "before \<in> set ?ss \<Longrightarrow> np < w \<and> holds before (cur ! np) \<or> holds before (cur ! w)"
      by (cases "foldl (merge_step before) (?ss, 0, 0) [1..<?n]") (auto simp: merge_inv_def)
    have t: "take (Suc w) cur = merge_ref (hd ?ss) (tl ?ss)"
      using i(1-3) assms(1) by (simp add: take_Suc_conv_app_nth hd_conv_nth drop_Suc)
    have m: "?m = self\<lparr>sels := take (Suc w) cur, primary := if holds before (cur ! w) then w else np\<rparr>"
      using False by (simp add: merge_sorted_def f [unfolded One_nat_def])
    show ?thesis unfolding m using i(1,2,4,5) by (auto simp: t [symmetric])
  qed
  then show "sels ?m = merge_ref (hd ?ss) (tl ?ss)" "primary ?m < length (sels ?m)"
    "before \<in> set ?ss \<Longrightarrow> holds before (sels ?m ! primary ?m)" "set_version ?m = set_version self"
    by blast+
qed

section \<open>What a merged set is\<close>

text \<open>In order, and no two sharing an offset.\<close>

fun sels_apart :: "selection list \<Rightarrow> bool" where
  "sels_apart [] = True"
| "sels_apart [s] = True"
| "sels_apart (s # s' # ss) = (sel_last s < sel_start s' \<and> sels_apart (s' # ss))"

text \<open>The offsets a list of selections spans, first through last cluster start.\<close>

definition spans :: "selection list \<Rightarrow> nat set" where
  "spans ss = (\<Union>s \<in> set ss. {sel_start s..sel_last s})"

definition sel_ends :: "selection list \<Rightarrow> nat set" where
  "sel_ends ss = sel_start ` set ss \<union> sel_last ` set ss"

lemma merge_ref_nonempty [simp]: "merge_ref kept ss \<noteq> []"
  by (induction kept ss rule: merge_ref.induct) auto

lemma merge_ref_hd: "sel_start (hd (merge_ref kept ss)) = sel_start kept"
  by (induction kept ss rule: merge_ref.induct) (auto simp: join_sel_ends)

lemma sels_apart_Cons:
  "sels_apart (s # ss) = (sels_apart ss \<and> (ss \<noteq> [] \<longrightarrow> sel_last s < sel_start (hd ss)))"
  by (cases ss) auto

lemma merge_ref_apart: "sels_apart (merge_ref kept ss)"
  by (induction kept ss rule: merge_ref.induct) (auto simp: sels_apart_Cons merge_ref_hd)

lemma merge_ref_id: "sels_apart (kept # ss) \<Longrightarrow> merge_ref kept ss = kept # ss"
  by (induction kept ss rule: merge_ref.induct) auto

lemma spans_simps [simp]:
  "spans [] = {}" "spans (s # ss) = {sel_start s..sel_last s} \<union> spans ss"
  by (auto simp: spans_def)

lemma merge_ref_spans:
  "sorted (map sel_start (kept # ss)) \<Longrightarrow> spans (merge_ref kept ss) = spans (kept # ss)"
proof (induction kept ss rule: merge_ref.induct)
  case (2 kept s ss)
  show ?case
  proof (cases "sel_start s \<le> sel_last kept")
    case True
    have "sorted (map sel_start (join_sel kept s # ss))"
      using 2(3) by (auto simp: join_sel_ends)
    with 2(1) True have "spans (merge_ref kept (s # ss)) = spans (join_sel kept s # ss)" by simp
    also have "{sel_start (join_sel kept s)..sel_last (join_sel kept s)} =
        {sel_start kept..sel_last kept} \<union> {sel_start s..sel_last s}"
      using True 2(3) sel_start_le_last [of kept] sel_start_le_last [of s]
      by (auto simp: join_sel_ends)
    ultimately show ?thesis by (simp add: Un_assoc)
  next
    case False
    with 2(2,3) show ?thesis by auto
  qed
qed simp

lemma sel_ends_simps [simp]:
  "sel_ends [] = {}" "sel_ends (s # ss) = {sel_start s, sel_last s} \<union> sel_ends ss"
  by (auto simp: sel_ends_def)

lemma merge_ref_ends: "sel_ends (merge_ref kept ss) \<subseteq> sel_ends (kept # ss)"
proof (induction kept ss rule: merge_ref.induct)
  case (2 kept s ss)
  have "sel_ends (join_sel kept s # ss) \<subseteq> sel_ends (kept # s # ss)"
    by (auto simp: join_sel_ends max_def)
  with 2 show ?case by (auto split: if_splits)
qed simp

lemma sel_ends_anchor_head: "sel_ends ss = anchor ` set ss \<union> head ` set ss"
proof -
  have "{sel_start s, sel_last s} = {anchor s, head s}" for s
    by (auto simp: sel_start_def sel_last_def)
  then show ?thesis unfolding sel_ends_def by blast
qed

lemma sels_apart_sorted: "sels_apart ss \<Longrightarrow> sorted (map sel_start ss)"
proof (induction ss rule: sels_apart.induct)
  case (3 s s' ss)
  then have "sel_last s < sel_start s'" by simp
  then have "sel_start s \<le> sel_start s'" using sel_start_le_last [of s] by linarith
  with 3 show ?case by (auto intro: order_trans)
qed auto

lemma sels_apart_distinct:
  "sels_apart ss \<Longrightarrow> i < j \<Longrightarrow> j < length ss \<Longrightarrow> sel_last (ss ! i) < sel_start (ss ! j)"
proof (induction ss arbitrary: i j rule: sels_apart.induct)
  case (3 s s' ss)
  show ?case
  proof (cases i)
    case 0
    have "sel_start s' \<le> sel_start ((s' # ss) ! (j - 1))"
      using sels_apart_sorted [of "s' # ss"] 3 by (cases "j - 1") auto
    with 3 0 show ?thesis by (cases j) auto
  next
    case (Suc i')
    with 3 show ?thesis by (cases j) auto
  qed
qed auto

text \<open>What every set keeps: non-empty, apart, and the primary one of its selections.\<close>

definition set_ok :: "selection_set \<Rightarrow> bool" where
  "set_ok self = (sels self \<noteq> [] \<and> sels_apart (sels self) \<and> primary self < length (sels self))"

lemma merge_sorted_ok:
  assumes "sels self \<noteq> []" "sorted (map sel_start (sels self))"
  shows "set_ok (merge_sorted self before)"
    and "spans (sels (merge_sorted self before)) = spans (sels self)"
    and "sel_ends (sels (merge_sorted self before)) \<subseteq> sel_ends (sels self)"
proof -
  note m = merge_sorted_ref [OF assms, of before]
  have s: "sels self = hd (sels self) # tl (sels self)" using assms(1) by simp
  show "set_ok (merge_sorted self before)"
    using m(1,2) by (simp add: set_ok_def merge_ref_apart)
  show "spans (sels (merge_sorted self before)) = spans (sels self)"
    using merge_ref_spans [of "hd (sels self)" "tl (sels self)"] m(1) s assms(2) by simp
  show "sel_ends (sels (merge_sorted self before)) \<subseteq> sel_ends (sels self)"
    using merge_ref_ends [of "hd (sels self)" "tl (sels self)"] m(1) s by simp
qed

lemma from_parts_ok:
  assumes "ss \<noteq> []" "p < length ss"
  obtains S where "from_parts ss p v = Some S" "set_ok S" "spans (sels S) = spans ss"
    "sel_ends (sels S) \<subseteq> sel_ends ss" "set_version S = v" "holds (ss ! p) (sels S ! primary S)"
    "sels_apart ss \<Longrightarrow> sels S = ss \<and> primary S = p"
proof -
  let ?self = "\<lparr>sels = sort_key sel_start ss, primary = p, set_version = v\<rparr>"
  let ?S = "merge_sorted ?self (ss ! p)"
  have ne: "sels ?self \<noteq> []" using assms(1) by (simp flip: set_empty)
  have sorted: "sorted (map sel_start (sels ?self))" by simp
  have set: "set (sels ?self) = set ss" by simp
  have "from_parts ss p v = Some ?S"
    using assms by (simp add: from_parts_def merge_overlapping_def nth_opt_def)
  moreover note ok = merge_sorted_ok [OF ne sorted, of "ss ! p"]
  moreover have "spans (sels ?self) = spans ss" "sel_ends (sels ?self) = sel_ends ss"
    by (simp_all add: spans_def sel_ends_def)
  moreover note ref = merge_sorted_ref [OF ne sorted, of "ss ! p"]
  moreover have "holds (ss ! p) (sels ?S ! primary ?S)"
    using ref(3) set assms(2) by simp
  moreover have "sels ?S = ss \<and> primary ?S = p" if a: "sels_apart ss"
  proof -
    have "sels ?self = ss" using sels_apart_sorted [OF a] by (simp add: sort_key_sorted)
    then have e: "sels ?S = ss" using ref(1) merge_ref_id [of "hd ss" "tl ss"] a assms(1) by simp
    have h: "holds (ss ! p) (ss ! primary ?S)" "primary ?S < length ss"
      using ref(3) set assms(2) ref(2) unfolding e by simp_all
    have "primary ?S = p"
    proof (rule ccontr)
      assume "primary ?S \<noteq> p"
      then consider "primary ?S < p" | "p < primary ?S" by linarith
      then show False
        using sels_apart_distinct [OF a, of "primary ?S" p] sels_apart_distinct [OF a, of p "primary ?S"]
          h assms(2) sel_start_le_last [of "ss ! p"]
        by cases (simp_all add: holds_def)
    qed
    with e show ?thesis by simp
  qed
  ultimately show thesis using that [of ?S] by simp
qed

section \<open>Properties\<close>

text \<open>C7: Building a selection set panics exactly on no selections or a primary out of range; the set
  it builds is in order with no two selections sharing a cluster, spans exactly what the given
  selections span, with ends among theirs, its primary holds the given primary, and selections
  already in order and apart are kept as they are.\<close>

theorem from_parts_normalizes:
  "(from_parts ss p v = None \<longleftrightarrow> ss = [] \<or> length ss \<le> p) \<and>
   (\<forall>S. from_parts ss p v = Some S \<longrightarrow> set_ok S \<and> set_version S = v \<and>
      spans (sels S) = spans ss \<and> sel_ends (sels S) \<subseteq> sel_ends ss \<and>
      (\<forall>i j. i < j \<and> j < length (sels S) \<longrightarrow> sel_last (sels S ! i) < sel_start (sels S ! j)) \<and>
      sel_start (sels S ! primary S) \<le> sel_start (ss ! p) \<and>
      sel_last (ss ! p) \<le> sel_last (sels S ! primary S) \<and>
      (sels_apart ss \<longrightarrow> sels S = ss \<and> primary S = p))"
proof (cases "ss = [] \<or> length ss \<le> p")
  case True
  then have "from_parts ss p v = None" by (auto simp: from_parts_def)
  with True show ?thesis by simp
next
  case False
  then have "ss \<noteq> []" "p < length ss" by auto
  from from_parts_ok [OF this, of v] obtain S where
    S: "from_parts ss p v = Some S" "set_ok S" "spans (sels S) = spans ss"
    "sel_ends (sels S) \<subseteq> sel_ends ss" "set_version S = v" "holds (ss ! p) (sels S ! primary S)"
    "sels_apart ss \<longrightarrow> sels S = ss \<and> primary S = p" by metis
  moreover have "\<forall>i j. i < j \<and> j < length (sels S) \<longrightarrow> sel_last (sels S ! i) < sel_start (sels S ! j)"
    using sels_apart_distinct S(2) by (auto simp: set_ok_def)
  ultimately show ?thesis using False by (auto simp: holds_def)
qed

text \<open>A merge with a backward selection, and its primary.\<close>

theorem from_parts_normalizes_witness:
  "\<exists>S. from_parts [sel_new 9 7, sel_new 1 4, sel_new 6 3] 2 \<lparr>lineage = 0, version_id = 0\<rparr> = Some S \<and>
     sels S = [sel_new 6 1, sel_new 9 7] \<and> set_ok S"
proof -
  let ?v = "\<lparr>lineage = 0, version_id = 0\<rparr>"
  let ?ss = "[sel_new 9 7, sel_new 1 4, sel_new 6 3]"
  have "from_parts ?ss 2 ?v \<noteq> None" using from_parts_normalizes [of ?ss 2 ?v] by simp
  then obtain S where S: "from_parts ?ss 2 ?v = Some S" by blast
  moreover have "set_ok S" using from_parts_normalizes [of ?ss 2 ?v] S by blast
  moreover have "sels S = [sel_new 6 1, sel_new 9 7]"
    using S by (auto simp: from_parts_def merge_overlapping_def nth_opt_def merge_sorted_def
        merge_step_def sel_new_def sel_start_def sel_last_def without_sticky_def with_ends_def
        sel_facing_def upt_rec Let_def numeral_2_eq_2)
  ultimately show ?thesis by blast
qed

end
