(* ===== verification/ChangeSet.thy ===== *)
theory ChangeSet imports Text begin

text \<open>
  \<open>hume-editing/src/changeset/mod.rs\<close> and \<open>builder.rs\<close>: edits as sequences of Retain,
  Delete and Insert, their normal form, their construction and their application to a
  text. The reference semantics is \<open>emit\<close>, what the operations produce from a text
  read front to back.
\<close>

section \<open>Operations\<close>

datatype operation = Retain nat | Delete nat | Insert ustring

datatype assoc = Before | After

record changeset =
  ops :: "operation list"
  len_before :: nat
  len_after :: nat

text \<open>\<open>push_merge\<close>: the one place a vector of operations grows.\<close>

definition push_merge :: "operation list \<Rightarrow> operation \<Rightarrow> operation list" where
  "push_merge os op =
     (case op of
        Retain 0 \<Rightarrow> os
      | Delete 0 \<Rightarrow> os
      | Insert [] \<Rightarrow> os
      | _ \<Rightarrow>
         (if os = [] then os @ [op]
          else (case (last os, op) of
             (Retain existing, Retain n) \<Rightarrow> butlast os @ [Retain (existing + n)]
           | (Delete existing, Delete n) \<Rightarrow> butlast os @ [Delete (existing + n)]
           | (Insert existing, Insert s) \<Rightarrow> butlast os @ [Insert (existing @ s)]
           | _ \<Rightarrow> os @ [op])))"

fun op_consuming_len :: "operation \<Rightarrow> nat" where
  "op_consuming_len (Retain n) = n"
| "op_consuming_len (Delete n) = n"
| "op_consuming_len (Insert s) = length s"

section \<open>Reference semantics\<close>

fun consumed :: "operation list \<Rightarrow> nat" where
  "consumed [] = 0"
| "consumed (Retain n # os) = n + consumed os"
| "consumed (Delete n # os) = n + consumed os"
| "consumed (Insert s # os) = consumed os"

fun produced :: "operation list \<Rightarrow> nat" where
  "produced [] = 0"
| "produced (Retain n # os) = n + produced os"
| "produced (Delete n # os) = produced os"
| "produced (Insert s # os) = length s + produced os"

fun emit :: "operation list \<Rightarrow> ustring \<Rightarrow> ustring" where
  "emit [] t = []"
| "emit (Retain n # os) t = take n t @ emit os (drop n t)"
| "emit (Delete n # os) t = emit os (drop n t)"
| "emit (Insert s # os) t = s @ emit os t"

lemma consumed_append [simp]: "consumed (xs @ ys) = consumed xs + consumed ys"
  by (induction xs rule: consumed.induct) auto

lemma produced_append [simp]: "produced (xs @ ys) = produced xs + produced ys"
  by (induction xs rule: produced.induct) auto

lemma emit_append: "emit (xs @ ys) t = emit xs t @ emit ys (drop (consumed xs) t)"
  by (induction xs t rule: emit.induct) (auto simp: add.commute)

lemma length_emit: "consumed os \<le> length t \<Longrightarrow> length (emit os t) = produced os"
  by (induction os t rule: emit.induct) auto

text \<open>Only the consumed prefix matters.\<close>

lemma emit_take: "consumed os \<le> n \<Longrightarrow> emit os (take n t) = emit os t"
  by (induction os t arbitrary: n rule: emit.induct)
     (auto simp: drop_take min_def split: if_splits)

section \<open>Normal form\<close>

fun same_kind :: "operation \<Rightarrow> operation \<Rightarrow> bool" where
  "same_kind (Retain _) (Retain _) = True"
| "same_kind (Delete _) (Delete _) = True"
| "same_kind (Insert _) (Insert _) = True"
| "same_kind _ _ = False"

fun nonzero :: "operation \<Rightarrow> bool" where
  "nonzero (Retain n) = (n > 0)"
| "nonzero (Delete n) = (n > 0)"
| "nonzero (Insert s) = (s \<noteq> [])"

fun normalized :: "operation list \<Rightarrow> bool" where
  "normalized [] = True"
| "normalized [x] = nonzero x"
| "normalized (x # y # os) = (nonzero x \<and> \<not> same_kind x y \<and> normalized (y # os))"

lemma normalized_snoc:
  "normalized (xs @ [x]) \<longleftrightarrow>
     nonzero x \<and> normalized xs \<and> (xs \<noteq> [] \<longrightarrow> \<not> same_kind (last xs) x)"
proof (induction xs rule: normalized.induct)
  case (3 x y os)
  then show ?case by auto
qed auto

lemma normalized_nonzero: "normalized os \<Longrightarrow> \<forall>op \<in> set os. nonzero op"
  by (induction os rule: normalized.induct) auto

lemma same_kind_sym: "same_kind x y = same_kind y x"
  by (cases x; cases y) auto

text \<open>The cases of \<open>push_merge\<close>: the operation is dropped, merged or appended.\<close>

lemma push_merge_cases:
  obtains (zero) "\<not> nonzero op" "push_merge os op = os"
  | (merge) xs x y where "nonzero op" "os = xs @ [x]" "same_kind x op" "push_merge os op = xs @ [y]"
      "same_kind x y" "nonzero y"
      "consumed [y] = consumed [x, op]" "produced [y] = produced [x, op]"
      "\<And>t. emit [y] t = emit [x, op] t"
  | (push) "nonzero op" "push_merge os op = os @ [op]"
      "os = [] \<or> \<not> same_kind (last os) op"
proof (cases "nonzero op")
  case False
  then have "push_merge os op = os"
    by (cases op) (auto simp: push_merge_def split: nat.splits list.splits)
  with False zero show ?thesis by blast
next
  case nz: True
  show ?thesis
  proof (cases "os = [] \<or> \<not> same_kind (last os) op")
    case True
    then have "push_merge os op = os @ [op]"
      using nz by (cases op; cases "last os")
        (auto simp: push_merge_def split: nat.splits list.splits)
    with nz True push show ?thesis by blast
  next
    case False
    then obtain xs x where os: "os = xs @ [x]" by (cases os rule: rev_cases) auto
    with False have k: "same_kind x op" by simp
    then consider (r) a b where "x = Retain a" "op = Retain b"
      | (d) a b where "x = Delete a" "op = Delete b"
      | (i) a b where "x = Insert a" "op = Insert b"
      by (cases x; cases op) auto
    then show ?thesis
    proof cases
      case r
      then show ?thesis using nz os k
        by (intro merge [of xs x "Retain (a + b)"])
           (auto simp: push_merge_def take_add split: nat.splits)
    next
      case d
      then show ?thesis using nz os k
        by (intro merge [of xs x "Delete (a + b)"])
           (auto simp: push_merge_def split: nat.splits)
    next
      case i
      then show ?thesis using nz os k
        by (intro merge [of xs x "Insert (a @ b)"])
           (auto simp: push_merge_def split: list.splits)
    qed
  qed
qed

lemma consumed_zero: "\<not> nonzero op \<Longrightarrow> consumed [op] = 0"
  by (cases op) auto

lemma produced_zero: "\<not> nonzero op \<Longrightarrow> produced [op] = 0"
  by (cases op) auto

lemma emit_zero: "\<not> nonzero op \<Longrightarrow> emit [op] t = []"
  by (cases op) auto

lemma consumed_push_merge [simp]: "consumed (push_merge os op) = consumed os + consumed [op]"
proof (cases rule: push_merge_cases [of op os])
  case (merge xs x y)
  then show ?thesis using consumed_append [of "[x]" "[op]"] by simp
qed (simp_all add: consumed_zero)

lemma produced_push_merge [simp]: "produced (push_merge os op) = produced os + produced [op]"
proof (cases rule: push_merge_cases [of op os])
  case (merge xs x y)
  then show ?thesis using produced_append [of "[x]" "[op]"] by simp
qed (simp_all add: produced_zero)

lemma emit_push_merge: "emit (push_merge os op) t = emit os t @ emit [op] (drop (consumed os) t)"
proof (cases rule: push_merge_cases [of op os])
  case zero
  then show ?thesis by (simp add: emit_zero)
next
  case (merge xs x y)
  then show ?thesis using emit_append [of "[x]" "[op]"]
    by (simp add: emit_append add.commute)
qed (simp add: emit_append)

lemma normalized_push_merge: "normalized os \<Longrightarrow> normalized (push_merge os op)"
proof (cases rule: push_merge_cases [of op os])
  case (merge xs x y)
  assume "normalized os"
  with merge have "normalized (xs @ [x])" by simp
  moreover have "same_kind z x \<longleftrightarrow> same_kind z y" for z
    using merge(5) by (cases x; cases y; cases z) auto
  ultimately show ?thesis using merge by (simp add: normalized_snoc)
qed (auto simp: normalized_snoc)

lemma set_push_merge_cr_free:
  assumes "\<forall>s. Insert s \<in> set os \<longrightarrow> CR \<notin> set s" "\<forall>s. op = Insert s \<longrightarrow> CR \<notin> set s"
  shows "Insert s \<in> set (push_merge os op) \<Longrightarrow> CR \<notin> set s"
proof (cases rule: push_merge_cases [of op os])
  case (merge xs x y)
  assume s: "Insert s \<in> set (push_merge os op)"
  show ?thesis
  proof (cases "y = Insert s")
    case True
    with merge obtain a b where ab: "x = Insert a" "op = Insert b"
      by (cases x; cases op) auto
    with merge(9) [of "[]"] True have "s = a @ b" by simp
    with ab merge(2) assms show ?thesis by auto
  next
    case False
    with s merge assms show ?thesis by auto
  qed
qed (use assms in auto)

section \<open>Changesets\<close>

text \<open>The invariant of a \<open>ChangeSet\<close>: normalized operations whose lengths are the recorded ones
  and whose insertions hold no CR.\<close>

definition wf_cs :: "changeset \<Rightarrow> bool" where
  "wf_cs cs = (normalized (ops cs) \<and> consumed (ops cs) = len_before cs \<and>
     produced (ops cs) = len_after cs)"

definition inserts_cr_free :: "changeset \<Rightarrow> bool" where
  "inserts_cr_free cs = (\<forall>s. Insert s \<in> set (ops cs) \<longrightarrow> CR \<notin> set s)"

lemma emit_cr_free:
  "\<forall>s. Insert s \<in> set os \<longrightarrow> CR \<notin> set s \<Longrightarrow> CR \<notin> set t \<Longrightarrow> CR \<notin> set (emit os t)"
  by (induction os t rule: emit.induct) (auto dest: in_set_takeD in_set_dropD)

definition identity_cs :: "nat \<Rightarrow> changeset" where
  "identity_cs len = \<lparr>ops = push_merge [] (Retain len), len_before = len, len_after = len\<rparr>"

fun is_retain :: "operation \<Rightarrow> bool" where
  "is_retain (Retain _) = True"
| "is_retain _ = False"

definition is_identity :: "changeset \<Rightarrow> bool" where
  "is_identity cs = list_all is_retain (ops cs)"

text \<open>\<open>ChangeSet::from_ops\<close>: the loop over the operations with the lengths so far and the
  previous operation's discriminant.\<close>

datatype op_kind = KRetain | KDelete | KInsert

fun discriminant :: "operation \<Rightarrow> op_kind" where
  "discriminant (Retain _) = KRetain"
| "discriminant (Delete _) = KDelete"
| "discriminant (Insert _) = KInsert"

fun from_ops_loop :: "operation list \<Rightarrow> op_kind option \<Rightarrow> nat \<Rightarrow> nat \<Rightarrow> (nat \<times> nat) option" where
  "from_ops_loop [] previous taken made = Some (taken, made)"
| "from_ops_loop (op # os) previous taken made =
     (let kind = discriminant op in
      if previous = Some kind then None
      else (case op of
          Retain n \<Rightarrow>
            if n > 0 then do {
              taken' \<leftarrow> checked_add taken n;
              made' \<leftarrow> checked_add made n;
              from_ops_loop os (Some kind) taken' made' }
            else None
        | Delete n \<Rightarrow>
            if n > 0 then do {
              taken' \<leftarrow> checked_add taken n;
              from_ops_loop os (Some kind) taken' made }
            else None
        | Insert s \<Rightarrow>
            if s \<noteq> [] \<and> CR \<notin> set s then do {
              made' \<leftarrow> checked_add made (length s);
              from_ops_loop os (Some kind) taken made' }
            else None))"

definition from_ops :: "operation list \<Rightarrow> nat \<Rightarrow> changeset option" where
  "from_ops os n = do {
     (c, l) \<leftarrow> from_ops_loop os None 0 0;
     if c = n then Some \<lparr>ops = os, len_before = n, len_after = l\<rparr> else None }"

lemma same_kind_discriminant: "same_kind x y \<longleftrightarrow> discriminant x = discriminant y"
  by (cases x; cases y) auto

lemma normalized_Cons:
  "normalized (x # os) \<longleftrightarrow>
     nonzero x \<and> normalized os \<and> (os \<noteq> [] \<longrightarrow> \<not> same_kind x (hd os))"
  by (cases os) auto

lemma from_ops_loop_Some:
  "from_ops_loop os prev c l = Some (c', l') \<longleftrightarrow>
     normalized os \<and> (os \<noteq> [] \<longrightarrow> prev \<noteq> Some (discriminant (hd os))) \<and>
     (\<forall>s. Insert s \<in> set os \<longrightarrow> CR \<notin> set s) \<and>
     c' = c + consumed os \<and> l' = l + produced os \<and>
     c' \<le> usize_max \<and> l' \<le> usize_max"
  if "c \<le> usize_max" "l \<le> usize_max"
  using that
proof (induction os arbitrary: prev c l)
  case (Cons op os)
  show ?case
  proof (cases op)
    case (Retain n)
    then show ?thesis using Cons.prems
      by (cases "c + n \<le> usize_max \<and> l + n \<le> usize_max")
         (auto simp: Let_def bind_eq_Some_conv checked_add_Some Cons.IH normalized_Cons
          same_kind_discriminant)
  next
    case (Delete n)
    then show ?thesis using Cons.prems
      by (cases "c + n \<le> usize_max")
         (auto simp: Let_def bind_eq_Some_conv checked_add_Some Cons.IH normalized_Cons
          same_kind_discriminant)
  next
    case (Insert s)
    then show ?thesis using Cons.prems
      by (cases "l + length s \<le> usize_max")
         (auto simp: Let_def bind_eq_Some_conv checked_add_Some Cons.IH normalized_Cons
          same_kind_discriminant)
  qed
qed auto

lemma from_ops_Some:
  "from_ops os n = Some cs \<longleftrightarrow>
     ops cs = os \<and> len_before cs = n \<and> wf_cs cs \<and> inserts_cr_free cs \<and>
     len_before cs \<le> usize_max \<and> len_after cs \<le> usize_max"
  by (cases cs)
     (auto simp: from_ops_def bind_eq_Some_conv from_ops_loop_Some wf_cs_def inserts_cr_free_def)

section \<open>Application\<close>

datatype apply_error = LengthMismatch nat nat | TrailingNewlineMissing

text \<open>One operation applied to the rope, with the running \<open>delta\<close> and the old position.\<close>

fun apply_op :: "operation \<Rightarrow> ustring \<times> int \<times> nat \<Rightarrow> (ustring \<times> int \<times> nat) option" where
  "apply_op (Retain n) (r, delta, old_pos) = Some (r, delta, old_pos + n)"
| "apply_op (Delete n) (r, delta, old_pos) = do {
     start \<leftarrow> checked_add_signed old_pos delta;
     rope' \<leftarrow> rope_remove r start (start + n);
     Some (rope', delta - int n, old_pos + n) }"
| "apply_op (Insert s) (r, delta, old_pos) = do {
     pos \<leftarrow> checked_add_signed old_pos delta;
     let before = length r;
     rope' \<leftarrow> rope_insert r pos s;
     Some (rope', delta + (int (length rope') - int before), old_pos) }"

fun apply_loop :: "operation list \<Rightarrow> ustring \<times> int \<times> nat \<Rightarrow> (ustring \<times> int \<times> nat) option" where
  "apply_loop [] s = Some s"
| "apply_loop (op # os) s = do { s' \<leftarrow> apply_op op s; apply_loop os s' }"

definition applied_rope :: "changeset \<Rightarrow> buffer_text \<Rightarrow> (apply_error + ustring option) option" where
  "applied_rope cs text =
     (if len_chars text \<noteq> len_before cs
      then Some (Inl (LengthMismatch (len_chars text) (len_before cs)))
      else if is_identity cs then Some (Inr None)
      else do {
        (rope', _, _) \<leftarrow> apply_loop (ops cs) (rope text, 0, 0);
        Some (if is_valid_buffer_rope rope' then Inr (Some rope') else Inl TrailingNewlineMissing) })"

definition apply_cs ::
  "changeset \<Rightarrow> store \<Rightarrow> buffer_text \<Rightarrow> (apply_error + store \<times> buffer_text) option" where
  "apply_cs cs st text = do {
     r \<leftarrow> applied_rope cs text;
     Some (case r of
         Inl e \<Rightarrow> Inl e
       | Inr (Some rope') \<Rightarrow> Inr (successor st text rope')
       | Inr None \<Rightarrow> Inr (st, text)) }"

definition apply_as ::
  "changeset \<Rightarrow> store \<Rightarrow> buffer_text \<Rightarrow> text_version \<Rightarrow> (apply_error + store \<times> buffer_text) option"
where
  "apply_as cs st text v = do {
     r \<leftarrow> applied_rope cs text;
     Some (case r of
         Inl e \<Rightarrow> Inl e
       | Inr (Some rope') \<Rightarrow> Inr (restored st text rope' v)
       | Inr None \<Rightarrow> Inr (st, relabeled text v)) }"

lemma apply_op_emit:
  assumes "consumed pre + consumed [op] \<le> length t"
  shows "apply_op op (emit pre t @ drop (consumed pre) t,
            int (produced pre) - int (consumed pre), consumed pre) =
         Some (emit (pre @ [op]) t @ drop (consumed (pre @ [op])) t,
            int (produced (pre @ [op])) - int (consumed (pre @ [op])), consumed (pre @ [op]))"
proof -
  have len: "length (emit pre t) = produced pre"
    by (rule length_emit) (use assms in simp)
  have start: "checked_add_signed (consumed pre) (int (produced pre) - int (consumed pre))
      = Some (produced pre)"
    by (simp add: checked_add_signed_def)
  show ?thesis
  proof (cases op)
    case (Retain n)
    have "drop (consumed pre) t = take n (drop (consumed pre) t) @ drop (n + consumed pre) t"
      by (metis add.commute append_take_drop_id drop_drop)
    with Retain show ?thesis by (simp add: emit_append add.commute)
  next
    case (Delete n)
    with assms len start show ?thesis
      by (simp add: rope_remove_def emit_append add.commute)
  next
    case (Insert s)
    with assms len start show ?thesis
      by (simp add: rope_insert_def emit_append Let_def)
  qed
qed

lemma apply_loop_emit:
  "consumed pre + consumed os \<le> length t \<Longrightarrow>
   apply_loop os (emit pre t @ drop (consumed pre) t,
      int (produced pre) - int (consumed pre), consumed pre) =
   Some (emit (pre @ os) t @ drop (consumed (pre @ os)) t,
      int (produced (pre @ os)) - int (consumed (pre @ os)), consumed (pre @ os))"
proof (induction os arbitrary: pre)
  case (Cons op os)
  have c: "consumed (op # os) = consumed [op] + consumed os"
    using consumed_append [of "[op]" os] by simp
  then have "consumed pre + consumed [op] \<le> length t"
      "consumed (pre @ [op]) + consumed os \<le> length t"
    using Cons.prems by simp_all
  then show ?case
    using apply_op_emit [of pre op t] Cons.IH [of "pre @ [op]"] by simp
qed simp

lemma apply_loop_all:
  "consumed os = length t \<Longrightarrow> \<exists>d p. apply_loop os (t, 0, 0) = Some (emit os t, d, p)"
  using apply_loop_emit [of "[]" os t] by auto

lemma identity_emit: "list_all is_retain os \<Longrightarrow> consumed os = length t \<Longrightarrow> emit os t = t"
proof (induction os arbitrary: t)
  case (Cons op os)
  then obtain n where op: "op = Retain n" by (cases op) auto
  with Cons have "emit os (drop n t) = drop n t" by simp
  with op show ?case by simp
qed simp

text \<open>The outcome of an application, in every case.\<close>

lemma applied_rope_eq:
  assumes "wf_cs cs"
  shows "applied_rope cs text = Some (
     if len_chars text \<noteq> len_before cs then Inl (LengthMismatch (len_chars text) (len_before cs))
     else if is_identity cs then Inr None
     else if is_valid_buffer_rope (emit (ops cs) (rope text))
       then Inr (Some (emit (ops cs) (rope text)))
     else Inl TrailingNewlineMissing)"
proof (cases "len_chars text = len_before cs")
  case True
  with assms have "consumed (ops cs) = length (rope text)" by (simp add: wf_cs_def len_chars_def)
  from apply_loop_all [OF this] show ?thesis by (auto simp: applied_rope_def)
qed (simp add: applied_rope_def)

lemma successor_rope [simp]:
  "rope (snd (successor st t r)) = r" "line_ending (snd (successor st t r)) = line_ending t"
  "rope (snd (restored st t r v)) = r" "line_ending (snd (restored st t r v)) = line_ending t"
  "version (snd (restored st t r v)) = v"
  "rope (relabeled t v) = rope t" "line_ending (relabeled t v) = line_ending t"
  "version (relabeled t v) = v"
  by (simp_all add: successor_def restored_def relabeled_def Let_def split: prod.splits)

lemma emit_buffer_ok:
  assumes "buffer_ok text" "inserts_cr_free cs" "is_valid_buffer_rope (emit (ops cs) (rope text))"
  shows "is_cr_free (emit (ops cs) (rope text))"
  using assms emit_cr_free [of "ops cs" "rope text"]
  by (simp add: buffer_ok_def is_cr_free_def inserts_cr_free_def)

text \<open>The text an application makes, when it succeeds.\<close>

lemma apply_cs_Some:
  assumes "wf_cs cs" "apply_cs cs st text = Some (Inr (st', text'))"
  shows "len_chars text = len_before cs"
    and "rope text' = emit (ops cs) (rope text)"
    and "line_ending text' = line_ending text"
    and "len_chars text' = len_after cs"
    and "buffer_ok text \<Longrightarrow> inserts_cr_free cs \<Longrightarrow> buffer_ok text'"
proof -
  let ?e = "emit (ops cs) (rope text)"
  from assms have "len_chars text = len_before cs \<and> rope text' = ?e \<and>
      line_ending text' = line_ending text \<and> (is_identity cs \<or> is_valid_buffer_rope ?e)"
  proof (cases "len_chars text = len_before cs")
    case True
    then have len: "consumed (ops cs) = length (rope text)"
      using assms(1) by (simp add: wf_cs_def len_chars_def)
    show ?thesis
    proof (cases "is_identity cs")
      case id: True
      then have "?e = rope text" using identity_emit len by (simp add: is_identity_def)
      with assms True id show ?thesis by (simp add: apply_cs_def applied_rope_eq)
    next
      case False
      then show ?thesis
        using assms True successor_rope(1,2) [of st "text" ?e]
        by (auto simp: apply_cs_def applied_rope_eq simp del: successor_rope split: if_splits)
    qed
  qed (use assms in \<open>simp add: apply_cs_def applied_rope_eq\<close>)
  note * = this
  show "len_chars text = len_before cs" "rope text' = ?e" "line_ending text' = line_ending text"
    using * by blast+
  show "len_chars text' = len_after cs"
    using * assms(1) length_emit [of "ops cs" "rope text"]
    by (simp add: wf_cs_def len_chars_def)
  show "buffer_ok text'" if "buffer_ok text" "inserts_cr_free cs"
  proof (cases "is_identity cs")
    case True
    then have "?e = rope text"
      using identity_emit * assms(1) by (simp add: is_identity_def wf_cs_def len_chars_def)
    with * that show ?thesis by (simp add: buffer_ok_def)
  next
    case False
    with * emit_buffer_ok [OF that] show ?thesis by (simp add: buffer_ok_def)
  qed
qed

lemma apply_cs_ok:
  assumes "wf_cs cs" "len_chars text = len_before cs"
    "is_valid_buffer_rope (emit (ops cs) (rope text))"
  obtains st' text' where "apply_cs cs st text = Some (Inr (st', text'))"
    "rope text' = emit (ops cs) (rope text)"
proof -
  obtain st' text' where "apply_cs cs st text = Some (Inr (st', text'))"
    using assms by (cases "is_identity cs"; cases "successor st text (emit (ops cs) (rope text))")
      (simp_all add: apply_cs_def applied_rope_eq)
  with apply_cs_Some(2) [OF assms(1) this] that show thesis by blast
qed

lemma apply_as_ok:
  assumes "wf_cs cs" "len_chars text = len_before cs"
    "is_valid_buffer_rope (emit (ops cs) (rope text))"
  obtains st' text' where "apply_as cs st text v = Some (Inr (st', text'))"
    "rope text' = emit (ops cs) (rope text)" "line_ending text' = line_ending text" "version text' = v"
proof (cases "is_identity cs")
  case True
  then have "emit (ops cs) (rope text) = rope text"
    using identity_emit assms by (simp add: is_identity_def wf_cs_def len_chars_def)
  with True assms that show ?thesis by (simp add: apply_as_def applied_rope_eq)
next
  case False
  obtain st' text' where r: "restored st text (emit (ops cs) (rope text)) v = (st', text')"
    by fastforce
  have "rope text' = emit (ops cs) (rope text)" "line_ending text' = line_ending text" "version text' = v"
    using successor_rope(3,4,5) [of st "text" "emit (ops cs) (rope text)" v] r by simp_all
  with False assms r that show ?thesis by (simp add: apply_as_def applied_rope_eq)
qed

text \<open>C1: Applying a well-formed changeset never panics; on a text of the length it expects
  whose result ends with a line break it yields exactly the text its operations describe, with a
  valid CR-free content and the recorded length; on a text of another length it reports the
  mismatch; and when the edit would lose the final line break it reports that.\<close>

theorem apply_outcome:
  assumes "wf_cs cs" "inserts_cr_free cs" "buffer_ok text"
  shows "\<exists>r. apply_cs cs st text = Some r \<and>
     (case r of
        Inl (LengthMismatch n m) \<Rightarrow> n = len_chars text \<and> m = len_before cs \<and> n \<noteq> m
      | Inl TrailingNewlineMissing \<Rightarrow> len_chars text = len_before cs \<and>
          \<not> is_valid_buffer_rope (emit (ops cs) (rope text))
      | Inr (st', text') \<Rightarrow> rope text' = emit (ops cs) (rope text) \<and> buffer_ok text' \<and>
          len_chars text = len_before cs \<and> len_chars text' = len_after cs \<and>
          line_ending text' = line_ending text)"
proof -
  obtain r where r: "apply_cs cs st text = Some r"
    using assms by (auto simp: apply_cs_def applied_rope_eq)
  show ?thesis
  proof (cases r)
    case (Inr p)
    then obtain st' text' where "r = Inr (st', text')" by (cases p) auto
    with r apply_cs_Some [OF assms(1), of st "text" st' "text'"] assms(2,3) show ?thesis by auto
  next
    case (Inl e)
    with r have "(len_chars text \<noteq> len_before cs \<and> e = LengthMismatch (len_chars text) (len_before cs)) \<or>
        (len_chars text = len_before cs \<and> e = TrailingNewlineMissing \<and>
          \<not> is_valid_buffer_rope (emit (ops cs) (rope text)))"
      by (auto simp: apply_cs_def applied_rope_eq [OF assms(1)] split: if_splits)
    with r Inl show ?thesis by auto
  qed
qed

text \<open>A small changeset for the witnesses: from \<open>ab\<close>, break, to \<open>axc\<close>, break.\<close>

definition demo_cs :: changeset where
  "demo_cs = \<lparr>ops = [Retain 1, Delete 1, Insert [120, 99], Retain 1], len_before = 3, len_after = 4\<rparr>"

definition demo_ab :: buffer_text where
  "demo_ab = \<lparr>rope = [97, 98, NL], line_ending = Lf, version = \<lparr>lineage = 0, version_id = 0\<rparr>,
     generation = 0, generations = 0\<rparr>"

lemma demo_cs_wf: "wf_cs demo_cs" "inserts_cr_free demo_cs" "buffer_ok demo_ab"
  by (simp_all add: wf_cs_def demo_cs_def inserts_cr_free_def buffer_ok_def demo_ab_def
      is_valid_buffer_rope_def is_cr_free_def ends_with_newline_def)

theorem apply_outcome_witness:
  "\<exists>st' text'. apply_cs demo_cs demo_store demo_ab = Some (Inr (st', text')) \<and>
     rope text' = [97, 120, 99, NL]"
proof -
  have d: "len_chars demo_ab = len_before demo_cs"
    "emit (ops demo_cs) (rope demo_ab) = [97, 120, 99, NL]"
    by (simp_all add: demo_cs_def demo_ab_def len_chars_def)
  have v: "is_valid_buffer_rope [97, 120, 99, NL]"
    by (simp add: is_valid_buffer_rope_def ends_with_newline_def)
  from apply_outcome [OF demo_cs_wf, of demo_store] obtain r
    where r: "apply_cs demo_cs demo_store demo_ab = Some r"
      "case r of
        Inl (LengthMismatch n m) \<Rightarrow> n = len_chars demo_ab \<and> m = len_before demo_cs \<and> n \<noteq> m
      | Inl TrailingNewlineMissing \<Rightarrow> len_chars demo_ab = len_before demo_cs \<and>
          \<not> is_valid_buffer_rope (emit (ops demo_cs) (rope demo_ab))
      | Inr (st', text') \<Rightarrow> rope text' = emit (ops demo_cs) (rope demo_ab) \<and> buffer_ok text' \<and>
          len_chars demo_ab = len_before demo_cs \<and> len_chars text' = len_after demo_cs \<and>
          line_ending text' = line_ending demo_ab" by blast
  show ?thesis
  proof (cases r)
    case (Inl e)
    with r d v show ?thesis by (cases e) auto
  next
    case (Inr p)
    with r d show ?thesis by (cases p) auto
  qed
qed

end
