(* ===== verification/Compose.thy ===== *)
theory Compose imports ChangeSet begin

text \<open>
  \<open>hume-editing/src/changeset/mod.rs\<close>: \<open>invert\<close>, \<open>compose\<close> and \<open>compose_all\<close>. The
  two-cursor walk of \<open>compose\<close> is a recursive function on the two half-consumed operation
  sequences, and its lemmas relate the composite to the reference semantics \<open>emit\<close>.
\<close>

section \<open>Inversion\<close>

fun invert_loop :: "operation list \<Rightarrow> ustring \<Rightarrow> nat \<Rightarrow> operation list \<Rightarrow> operation list option" where
  "invert_loop [] text old_pos done_ops = Some done_ops"
| "invert_loop (Retain n # os) text old_pos done_ops =
     invert_loop os text (old_pos + n) (push_merge done_ops (Retain n))"
| "invert_loop (Delete n # os) text old_pos done_ops = do {
     let new_pos = old_pos + n;
     removed \<leftarrow> slice_opt text old_pos new_pos;
     invert_loop os text new_pos (push_merge done_ops (Insert removed)) }"
| "invert_loop (Insert s # os) text old_pos done_ops =
     invert_loop os text old_pos (push_merge done_ops (Delete (length s)))"

definition invert_cs :: "changeset \<Rightarrow> buffer_text \<Rightarrow> changeset option" where
  "invert_cs cs text = do {
     ensure (len_chars text = len_before cs);
     done_ops \<leftarrow> invert_loop (ops cs) (rope text) 0 [];
     Some \<lparr>ops = done_ops, len_before = len_after cs, len_after = len_before cs\<rparr> }"

text \<open>What the loop builds: each operation's inverse, in order.\<close>

fun inv_ops :: "operation list \<Rightarrow> ustring \<Rightarrow> operation list" where
  "inv_ops [] t = []"
| "inv_ops (Retain n # os) t = Retain n # inv_ops os (drop n t)"
| "inv_ops (Delete n # os) t = Insert (take n t) # inv_ops os (drop n t)"
| "inv_ops (Insert s # os) t = Delete (length s) # inv_ops os t"

lemma normalized_append:
  "normalized (xs @ ys) \<longleftrightarrow> normalized xs \<and> normalized ys \<and>
     (xs \<noteq> [] \<and> ys \<noteq> [] \<longrightarrow> \<not> same_kind (last xs) (hd ys))"
proof (induction xs)
  case (Cons x xs)
  then show ?case by (cases xs) (auto simp: normalized_Cons)
qed simp

lemma push_merge_normalized: "normalized (xs @ [x]) \<Longrightarrow> push_merge xs x = xs @ [x]"
  by (cases rule: push_merge_cases [of x xs])
     (auto simp: normalized_snoc normalized_append split: if_splits)

lemma foldl_push_merge: "normalized (xs @ ys) \<Longrightarrow> foldl push_merge xs ys = xs @ ys"
proof (induction ys arbitrary: xs)
  case (Cons y ys)
  then have "normalized (xs @ [y])"
    using normalized_append [of "xs @ [y]" ys] by simp
  with Cons show ?case by (simp add: push_merge_normalized)
qed simp

lemma invert_loop_fold:
  "old_pos + consumed os \<le> length t \<Longrightarrow>
   invert_loop os t old_pos done_ops = Some (foldl push_merge done_ops (inv_ops os (drop old_pos t)))"
  by (induction os t old_pos done_ops rule: invert_loop.induct)
     (auto simp: slice_opt_def slice_def add.commute Let_def)

lemma hd_inv_ops: "os \<noteq> [] \<Longrightarrow> same_kind x (hd (inv_ops os t)) \<Longrightarrow>
    (case x of Retain n \<Rightarrow> discriminant (hd os) = KRetain | Delete n \<Rightarrow> discriminant (hd os) = KInsert
     | Insert s \<Rightarrow> discriminant (hd os) = KDelete)"
  by (cases "(os, t)" rule: inv_ops.cases) (auto split: operation.splits)

lemma inv_ops_eq_Nil [simp]: "inv_ops os t = [] \<longleftrightarrow> os = []"
  by (cases "(os, t)" rule: inv_ops.cases) auto

lemma normalized_inv_ops:
  "normalized os \<Longrightarrow> consumed os \<le> length t \<Longrightarrow> normalized (inv_ops os t)"
proof (induction os t rule: inv_ops.induct)
  case (2 n os t)
  then show ?case using hd_inv_ops [of os "Retain n" "drop n t"]
    by (auto simp: normalized_Cons same_kind_discriminant)
next
  case (3 n os t)
  then show ?case using hd_inv_ops [of os "Insert (take n t)" "drop n t"]
    by (auto simp: normalized_Cons same_kind_discriminant)
next
  case (4 s os t)
  then show ?case using hd_inv_ops [of os "Delete (length s)" t]
    by (auto simp: normalized_Cons same_kind_discriminant)
qed simp

lemma consumed_inv_ops [simp]: "consumed (inv_ops os t) = produced os"
  by (induction os t rule: inv_ops.induct) auto

lemma produced_inv_ops: "consumed os \<le> length t \<Longrightarrow> produced (inv_ops os t) = consumed os"
  by (induction os t rule: inv_ops.induct) auto

lemma emit_inv_ops:
  "consumed os \<le> length t \<Longrightarrow> emit (inv_ops os t) (emit os t) = take (consumed os) t"
proof (induction os t rule: inv_ops.induct)
  case (2 n os t)
  then show ?case by (simp add: take_add)
next
  case (3 n os t)
  then show ?case by (simp add: take_add)
qed simp_all

lemma inv_ops_inv_ops:
  "consumed os \<le> length t \<Longrightarrow> inv_ops (inv_ops os t) (emit os t) = os"
proof (induction os t rule: inv_ops.induct)
  case (2 n os t)
  then show ?case by simp
qed simp_all

lemma invert_cs_eq:
  assumes "wf_cs cs" "len_chars text = len_before cs"
  shows "invert_cs cs text = Some \<lparr>ops = inv_ops (ops cs) (rope text),
     len_before = len_after cs, len_after = len_before cs\<rparr>"
proof -
  have len: "consumed (ops cs) = length (rope text)"
    using assms by (simp add: wf_cs_def len_chars_def)
  then have "normalized (inv_ops (ops cs) (rope text))"
    using assms by (simp add: normalized_inv_ops wf_cs_def)
  then show ?thesis
    using assms len by (simp add: invert_cs_def invert_loop_fold foldl_push_merge)
qed

lemma wf_cs_inv_ops:
  assumes "wf_cs cs" "length t = len_before cs"
  shows "wf_cs \<lparr>ops = inv_ops (ops cs) t, len_before = len_after cs, len_after = len_before cs\<rparr>"
  using assms by (simp add: wf_cs_def normalized_inv_ops produced_inv_ops)

section \<open>Composition\<close>

text \<open>Consume \<open>n\<close> chars of an operation; its remainder, or the iterator's next item.\<close>

definition advance_op ::
  "operation \<Rightarrow> nat \<Rightarrow> operation list \<Rightarrow> operation option \<times> operation list"
where
  "advance_op op n iter =
     (let remainder = (case op of
          Retain k \<Rightarrow> if k > n then Some (Retain (k - n)) else None
        | Delete k \<Rightarrow> if k > n then Some (Delete (k - n)) else None
        | Insert s \<Rightarrow> if n < length s then Some (Insert (drop n s)) else None)
      in case remainder of
           Some r \<Rightarrow> (Some r, iter)
         | None \<Rightarrow> (next_item iter, tl iter))"

text \<open>The operations a cursor still holds, and how many they are.\<close>

fun cursor :: "operation option \<Rightarrow> operation list \<Rightarrow> operation list" where
  "cursor None iter = iter"
| "cursor (Some op) iter = op # iter"

definition cursor_size :: "operation option \<Rightarrow> operation list \<Rightarrow> nat" where
  "cursor_size cur iter = (case cur of None \<Rightarrow> 0 | Some _ \<Rightarrow> Suc (length iter))"

lemma cursor_next [simp]: "cursor (next_item iter) (tl iter) = iter"
  by (cases iter) auto

lemma cursor_size_Some [simp]: "cursor_size (Some op) iter = Suc (length iter)"
  by (simp add: cursor_size_def)

lemma cursor_size_next [simp]: "cursor_size (next_item iter) (tl iter) = length iter"
  by (cases iter) (auto simp: cursor_size_def)

lemma advance_op_size:
  "advance_op op n iter = (cur, rest) \<Longrightarrow>
   cursor_size cur rest = (if n < op_consuming_len op then Suc (length iter) else length iter)"
  by (cases op) (auto simp: advance_op_def Let_def split: if_splits)

text \<open>The variables of the loop, and what one iteration does: \<open>break\<close>, panic, or go round again.\<close>

record compose_vars =
  result :: "operation list"
  a_cur :: "operation option"
  a_iter :: "operation list"
  b_cur :: "operation option"
  b_iter :: "operation list"

datatype compose_step = Break "operation list" | Panic | Continue compose_vars

text \<open>The lockstep arm: both sides consume the same amount of the intermediate document.\<close>

definition compose_lockstep :: "operation \<Rightarrow> operation \<Rightarrow> compose_vars \<Rightarrow> compose_step" where
  "compose_lockstep a b v =
     (let a_len = op_consuming_len a;
          b_len = op_consuming_len b;
          n = min a_len b_len;
          (b_cur', b_iter') = advance_op b n (b_iter v)
      in case (a, b) of
           (Insert s, Retain _) \<Rightarrow>
             Continue (if n = a_len
               then \<lparr>result = push_merge (result v) (Insert s),
                  a_cur = next_item (a_iter v), a_iter = tl (a_iter v),
                  b_cur = b_cur', b_iter = b_iter'\<rparr>
               else \<lparr>result = push_merge (result v) (Insert (take n s)),
                  a_cur = Some (Insert (drop n s)), a_iter = a_iter v,
                  b_cur = b_cur', b_iter = b_iter'\<rparr>)
         | _ \<Rightarrow>
             (let (a_cur', a_iter') = advance_op a n (a_iter v);
                  go = (\<lambda>out. Continue \<lparr>result = out, a_cur = a_cur', a_iter = a_iter',
                     b_cur = b_cur', b_iter = b_iter'\<rparr>)
              in case (a, b) of
                   (Retain _, Retain _) \<Rightarrow> go (push_merge (result v) (Retain n))
                 | (Retain _, Delete _) \<Rightarrow> go (push_merge (result v) (Delete n))
                 | (Insert _, Delete _) \<Rightarrow> go (result v)
                 | _ \<Rightarrow> Panic))"

definition compose_iteration :: "compose_vars \<Rightarrow> compose_step" where
  "compose_iteration v =
     (case (a_cur v, b_cur v) of
        (None, None) \<Rightarrow> Break (result v)
      | (Some (Delete n), b) \<Rightarrow>
          Continue (v\<lparr>result := push_merge (result v) (Delete n),
             a_cur := next_item (a_iter v), a_iter := tl (a_iter v)\<rparr>)
      | (a, Some (Insert s)) \<Rightarrow>
          Continue (v\<lparr>result := push_merge (result v) (Insert s),
             b_cur := next_item (b_iter v), b_iter := tl (b_iter v)\<rparr>)
      | (Some a, Some b) \<Rightarrow> compose_lockstep a b v
      | _ \<Rightarrow> Panic)"

definition a_rest :: "compose_vars \<Rightarrow> operation list" where
  "a_rest v = cursor (a_cur v) (a_iter v)"

definition b_rest :: "compose_vars \<Rightarrow> operation list" where
  "b_rest v = cursor (b_cur v) (b_iter v)"

definition vars_size :: "compose_vars \<Rightarrow> nat" where
  "vars_size v = cursor_size (a_cur v) (a_iter v) + cursor_size (b_cur v) (b_iter v)"

lemma compose_iteration_size: "compose_iteration v = Continue v' \<Longrightarrow> vars_size v' < vars_size v"
  by (auto simp: compose_iteration_def compose_lockstep_def vars_size_def min_def Let_def
      dest!: advance_op_size
      split: option.splits operation.splits prod.splits if_splits)

function compose_loop :: "compose_vars \<Rightarrow> operation list option" where
  "compose_loop v =
     (case compose_iteration v of
        Break out \<Rightarrow> Some out
      | Panic \<Rightarrow> None
      | Continue v' \<Rightarrow> compose_loop v')"
  by pat_completeness auto

termination
  by (relation "measure vars_size") (auto intro: compose_iteration_size)

declare compose_loop.simps [simp del]

definition compose_cs :: "changeset \<Rightarrow> changeset \<Rightarrow> changeset option" where
  "compose_cs a b = do {
     ensure (len_after a = len_before b);
     out \<leftarrow> compose_loop \<lparr>result = [], a_cur = next_item (ops a), a_iter = tl (ops a),
        b_cur = next_item (ops b), b_iter = tl (ops b)\<rparr>;
     Some \<lparr>ops = out, len_before = len_before a, len_after = len_after b\<rparr> }"

subsection \<open>What one iteration keeps\<close>

text \<open>The part of an operation left after its first \<open>n\<close> chars.\<close>

definition op_tail :: "operation \<Rightarrow> nat \<Rightarrow> operation list" where
  "op_tail op n = (case op of
       Retain k \<Rightarrow> if n < k then [Retain (k - n)] else []
     | Delete k \<Rightarrow> if n < k then [Delete (k - n)] else []
     | Insert s \<Rightarrow> if n < length s then [Insert (drop n s)] else [])"

lemma advance_op_cursor: "advance_op op n iter = (cur, rest) \<Longrightarrow> cursor cur rest = op_tail op n @ iter"
  by (auto simp: advance_op_def op_tail_def Let_def split: operation.splits if_splits)

lemma op_tail_measures:
  assumes "n \<le> op_consuming_len op"
  shows "consumed (op_tail op n) = (case op of Insert s \<Rightarrow> 0 | _ \<Rightarrow> op_consuming_len op - n)"
    and "produced (op_tail op n) = (case op of Delete k \<Rightarrow> 0 | _ \<Rightarrow> op_consuming_len op - n)"
    and "\<forall>x \<in> set (op_tail op n). nonzero x"
  using assms by (auto simp: op_tail_def split: operation.splits)

lemma emit_op_tail:
  "emit (op_tail (Retain k) n @ os) t = take (k - n) t @ emit os (drop (k - n) t)"
  "emit (op_tail (Delete k) n @ os) t = emit os (drop (k - n) t)"
  "emit (op_tail (Insert s) n @ os) t = drop n s @ emit os t"
  by (auto simp: op_tail_def)

text \<open>What the loop still owes: the result so far, then the rest of \<open>b\<close> run on what the rest of
  \<open>a\<close> makes of the unread text.\<close>

definition owed :: "compose_vars \<Rightarrow> ustring \<Rightarrow> ustring" where
  "owed v t = emit (result v) t @
     emit (b_rest v) (emit (a_rest v) (drop (consumed (result v)) t))"

definition compose_inv :: "compose_vars \<Rightarrow> bool" where
  "compose_inv v = (produced (a_rest v) = consumed (b_rest v) \<and>
     (\<forall>op \<in> set (a_rest v) \<union> set (b_rest v). nonzero op) \<and> normalized (result v))"

text \<open>One iteration, as an abstract step between the operations the cursors hold: \<open>out\<close> is
  what it adds to the result.\<close>

inductive compose_moves ::
  "operation list \<Rightarrow> operation list \<Rightarrow> operation list \<Rightarrow> operation list \<Rightarrow> operation list \<Rightarrow> bool"
where
  a_delete: "compose_moves (Delete n # as) bs [Delete n] as bs"
| b_insert: "compose_moves as (Insert s # bs) [Insert s] as bs"
| keep: "n = min i j \<Longrightarrow> compose_moves (Retain i # as) (Retain j # bs) [Retain n]
     (op_tail (Retain i) n @ as) (op_tail (Retain j) n @ bs)"
| drop_old: "n = min i j \<Longrightarrow> compose_moves (Retain i # as) (Delete j # bs) [Delete n]
     (op_tail (Retain i) n @ as) (op_tail (Delete j) n @ bs)"
| keep_new: "n = min (length s) j \<Longrightarrow> compose_moves (Insert s # as) (Retain j # bs) [Insert (take n s)]
     (op_tail (Insert s) n @ as) (op_tail (Retain j) n @ bs)"
| cancel: "n = min (length s) j \<Longrightarrow> compose_moves (Insert s # as) (Delete j # bs) []
     (op_tail (Insert s) n @ as) (op_tail (Delete j) n @ bs)"

lemma compose_iteration_moves:
  assumes "compose_iteration v = Continue v'"
  obtains out where "compose_moves (a_rest v) (b_rest v) out (a_rest v') (b_rest v')"
    "result v' = foldl push_merge (result v) out"
proof -
  obtain r ac ai bc bi where v: "v = \<lparr>result = r, a_cur = ac, a_iter = ai, b_cur = bc, b_iter = bi\<rparr>"
    by (cases v)
  note defs = compose_iteration_def compose_lockstep_def a_rest_def b_rest_def Let_def v
  consider (del) n where "ac = Some (Delete n)"
    | (ins) s where "\<forall>n. ac \<noteq> Some (Delete n)" "bc = Some (Insert s)"
    | (rr) i j where "ac = Some (Retain i)" "bc = Some (Retain j)"
    | (rd) i j where "ac = Some (Retain i)" "bc = Some (Delete j)"
    | (ir) s j where "ac = Some (Insert s)" "bc = Some (Retain j)"
    | (id) s j where "ac = Some (Insert s)" "bc = Some (Delete j)"
    using assms by (auto simp: defs split: option.splits operation.splits)
  then show thesis
  proof cases
    case del
    then show thesis using assms
      by (intro that [of "[Delete n]"]) (auto simp: defs intro: a_delete)
  next
    case ins
    then show thesis using assms
      by (intro that [of "[Insert s]"])
         (auto simp: defs intro: b_insert split: option.splits operation.splits)
  next
    case rr
    then show thesis using assms
      by (intro that [of "[Retain (min i j)]"])
         (auto simp: defs advance_op_cursor intro: keep split: prod.splits)
  next
    case rd
    then show thesis using assms
      by (intro that [of "[Delete (min i j)]"])
         (auto simp: defs advance_op_cursor intro: drop_old split: prod.splits)
  next
    case ir
    then have "min (length s) j = length s \<Longrightarrow> op_tail (Insert s) (min (length s) j) = []"
      "min (length s) j \<noteq> length s \<Longrightarrow>
         op_tail (Insert s) (min (length s) j) = [Insert (drop (min (length s) j) s)]"
      by (auto simp: op_tail_def)
    then show thesis using assms ir keep_new [of "min (length s) j" s j ai bi]
      by (intro that [of "[Insert (take (min (length s) j) s)]"])
         (auto simp: defs advance_op_cursor split: prod.splits if_splits)
  next
    case id
    then show thesis using assms
      by (intro that [of "[]"])
         (auto simp: defs advance_op_cursor intro: cancel split: prod.splits)
  qed
qed

lemma compose_moves_keep:
  assumes "compose_moves as bs out as' bs'" "produced as = consumed bs"
    "\<forall>op \<in> set as \<union> set bs. nonzero op"
  shows "produced as' = consumed bs' \<and> (\<forall>op \<in> set as' \<union> set bs'. nonzero op) \<and>
     consumed out + consumed as' = consumed as \<and> produced out + produced bs' = produced bs"
  using assms(1)
proof cases
  case (keep n i j as bs)
  with assms(2,3) show ?thesis by (cases "i \<le> j") (auto simp: op_tail_def)
next
  case (drop_old n i j as bs)
  with assms(2,3) show ?thesis by (cases "i \<le> j") (auto simp: op_tail_def)
next
  case (keep_new n s j as bs)
  with assms(2,3) show ?thesis by (cases "length s \<le> j") (auto simp: op_tail_def)
next
  case (cancel n s j as bs)
  with assms(2,3) show ?thesis by (cases "length s \<le> j") (auto simp: op_tail_def)
qed (use assms(2,3) in auto)

lemma compose_moves_emit:
  assumes "compose_moves as bs out as' bs'" "produced as = consumed bs" "consumed as \<le> length t"
  shows "emit out t @ emit bs' (emit as' (drop (consumed out) t)) = emit bs (emit as t)"
  using assms(1)
proof cases
  case (keep n i j as bs)
  then have "i \<le> length t" using assms(3) by simp
  with keep show ?thesis by (cases "i \<le> j") (simp_all add: emit_op_tail drop_take)
next
  case (drop_old n i j as bs)
  then have "i \<le> length t" using assms(3) by simp
  with drop_old show ?thesis by (cases "i \<le> j") (simp_all add: emit_op_tail drop_take)
next
  case (keep_new n s j as bs)
  then show ?thesis by (cases "length s \<le> j") (simp_all add: emit_op_tail)
next
  case (cancel n s j as bs)
  then show ?thesis by (cases "length s \<le> j") (simp_all add: emit_op_tail)
qed simp_all

definition ops_cr_free :: "operation list \<Rightarrow> bool" where
  "ops_cr_free os = (\<forall>s. Insert s \<in> set os \<longrightarrow> CR \<notin> set s)"

lemma inserts_cr_free_ops: "inserts_cr_free cs = ops_cr_free (ops cs)"
  by (simp add: inserts_cr_free_def ops_cr_free_def)

lemma ops_cr_free_simps [simp]:
  "ops_cr_free []"
  "ops_cr_free (op # os) = ((\<forall>s. op = Insert s \<longrightarrow> CR \<notin> set s) \<and> ops_cr_free os)"
  "ops_cr_free (xs @ ys) = (ops_cr_free xs \<and> ops_cr_free ys)"
  by (auto simp: ops_cr_free_def)

lemma ops_cr_free_op_tail: "(\<forall>s. op = Insert s \<longrightarrow> CR \<notin> set s) \<Longrightarrow> ops_cr_free (op_tail op n)"
  by (auto simp: op_tail_def dest: in_set_dropD split: operation.splits)

lemma compose_moves_cr_free:
  assumes "compose_moves as bs out as' bs'" "ops_cr_free as" "ops_cr_free bs"
  shows "ops_cr_free out \<and> ops_cr_free as' \<and> ops_cr_free bs'"
  using assms by cases (auto simp: ops_cr_free_op_tail dest: in_set_takeD)

lemma ops_cr_free_push_merge:
  assumes "ops_cr_free r" "ops_cr_free [op]"
  shows "ops_cr_free (push_merge r op)"
  unfolding ops_cr_free_def
proof (intro allI impI)
  fix s
  assume s: "Insert s \<in> set (push_merge r op)"
  show "CR \<notin> set s"
    by (rule set_push_merge_cr_free [OF _ _ s]) (use assms in \<open>auto simp: ops_cr_free_def\<close>)
qed

lemma ops_cr_free_fold:
  "ops_cr_free r \<Longrightarrow> ops_cr_free out \<Longrightarrow> ops_cr_free (foldl push_merge r out)"
proof (induction out arbitrary: r)
  case (Cons op out)
  then show ?case using ops_cr_free_push_merge [of r op] by simp
qed simp

lemma consumed_foldl [simp]: "consumed (foldl push_merge r out) = consumed r + consumed out"
proof (induction out arbitrary: r)
  case (Cons op out)
  then show ?case by (cases op) simp_all
qed simp

lemma produced_foldl [simp]: "produced (foldl push_merge r out) = produced r + produced out"
proof (induction out arbitrary: r)
  case (Cons op out)
  then show ?case by (cases op) simp_all
qed simp

lemma normalized_foldl: "normalized r \<Longrightarrow> normalized (foldl push_merge r out)"
  by (induction out arbitrary: r) (simp_all add: normalized_push_merge)

lemma emit_foldl: "emit (foldl push_merge r out) t = emit r t @ emit out (drop (consumed r) t)"
proof (induction out arbitrary: r)
  case (Cons op out)
  then show ?case by (cases op) (simp_all add: emit_push_merge add.commute)
qed simp

subsection \<open>The loop as a whole\<close>

text \<open>A cursor is exhausted once its current slot is empty.\<close>

definition settled :: "compose_vars \<Rightarrow> bool" where
  "settled v = ((a_cur v = None \<longrightarrow> a_iter v = []) \<and> (b_cur v = None \<longrightarrow> b_iter v = []))"

lemma next_item_None: "next_item iter = None \<Longrightarrow> tl iter = []"
  by (cases iter) auto

lemma advance_op_settled: "advance_op op n iter = (None, rest) \<Longrightarrow> rest = []"
  by (auto simp: advance_op_def Let_def next_item_None split: option.splits)

lemma compose_iteration_settled: "settled v \<Longrightarrow> compose_iteration v = Continue v' \<Longrightarrow> settled v'"
  by (auto simp: compose_iteration_def compose_lockstep_def settled_def Let_def next_item_None
      dest: advance_op_settled
      split: option.splits operation.splits prod.splits if_splits)

lemma produced_pos: "nonzero x \<Longrightarrow> \<forall>n. x \<noteq> Delete n \<Longrightarrow> 0 < produced (x # xs)"
  by (cases x) auto

lemma consumed_pos: "nonzero x \<Longrightarrow> \<forall>s. x \<noteq> Insert s \<Longrightarrow> 0 < consumed (x # xs)"
  by (cases x) auto

lemma compose_iteration_no_panic:
  assumes "compose_inv v" "settled v"
  shows "compose_iteration v \<noteq> Panic"
proof
  assume "compose_iteration v = Panic"
  then consider (a) x where "a_cur v = Some x" "\<forall>n. x \<noteq> Delete n" "b_cur v = None"
    | (b) x where "b_cur v = Some x" "\<forall>s. x \<noteq> Insert s" "a_cur v = None"
    by (auto simp: compose_iteration_def compose_lockstep_def Let_def
        split: option.splits operation.splits prod.splits if_splits)
  then show False
  proof cases
    case a
    with assms show False using produced_pos [of x "a_iter v"]
      by (simp add: compose_inv_def settled_def a_rest_def b_rest_def)
  next
    case b
    with assms show False using consumed_pos [of x "b_iter v"]
      by (simp add: compose_inv_def settled_def a_rest_def b_rest_def)
  qed
qed

lemma compose_iteration_break:
  "compose_iteration v = Break out \<Longrightarrow> settled v \<Longrightarrow>
     out = result v \<and> a_rest v = [] \<and> b_rest v = []"
  by (auto simp: compose_iteration_def compose_lockstep_def settled_def a_rest_def b_rest_def Let_def
      split: option.splits operation.splits prod.splits if_splits)

lemma compose_iteration_keeps:
  assumes "compose_iteration v = Continue v'" "compose_inv v"
  shows "compose_inv v'"
    and "consumed (result v') + consumed (a_rest v') = consumed (result v) + consumed (a_rest v)"
    and "produced (result v') + produced (b_rest v') = produced (result v) + produced (b_rest v)"
    and "consumed (result v) + consumed (a_rest v) \<le> length t \<Longrightarrow> owed v' t = owed v t"
    and "ops_cr_free (result v) \<and> ops_cr_free (a_rest v) \<and> ops_cr_free (b_rest v) \<Longrightarrow>
      ops_cr_free (result v') \<and> ops_cr_free (a_rest v') \<and> ops_cr_free (b_rest v')"
proof -
  from compose_iteration_moves [OF assms(1)] obtain out where
    m: "compose_moves (a_rest v) (b_rest v) out (a_rest v') (b_rest v')"
    and r: "result v' = foldl push_merge (result v) out" by blast
  from assms(2) have i: "produced (a_rest v) = consumed (b_rest v)"
    "\<forall>op \<in> set (a_rest v) \<union> set (b_rest v). nonzero op" "normalized (result v)"
    unfolding compose_inv_def by auto
  note k = compose_moves_keep [OF m i(1,2)]
  show "compose_inv v'"
    using k i(3) by (simp add: compose_inv_def r normalized_foldl)
  show "consumed (result v') + consumed (a_rest v') = consumed (result v) + consumed (a_rest v)"
    "produced (result v') + produced (b_rest v') = produced (result v) + produced (b_rest v)"
    using k by (simp_all add: r)
  show "owed v' t = owed v t" if "consumed (result v) + consumed (a_rest v) \<le> length t"
    using compose_moves_emit [OF m i(1), of "drop (consumed (result v)) t"] that
    by (simp add: owed_def r emit_foldl add.commute)
  show "ops_cr_free (result v') \<and> ops_cr_free (a_rest v') \<and> ops_cr_free (b_rest v')"
    if "ops_cr_free (result v) \<and> ops_cr_free (a_rest v) \<and> ops_cr_free (b_rest v)"
    using compose_moves_cr_free [OF m] that by (simp add: r ops_cr_free_fold)
qed

lemma compose_loop_correct:
  assumes "compose_inv v" "settled v"
  obtains out where "compose_loop v = Some out" "normalized out"
    "consumed out = consumed (result v) + consumed (a_rest v)"
    "produced out = produced (result v) + produced (b_rest v)"
    "\<And>t. consumed (result v) + consumed (a_rest v) \<le> length t \<Longrightarrow> emit out t = owed v t"
    "ops_cr_free (result v) \<and> ops_cr_free (a_rest v) \<and> ops_cr_free (b_rest v) \<Longrightarrow> ops_cr_free out"
  using assms
proof (induction v arbitrary: thesis rule: compose_loop.induct)
  case (1 v)
  show ?case
  proof (cases "compose_iteration v")
    case (Break out)
    with compose_iteration_break [OF Break] 1(3,4) show ?thesis
      by (intro 1(2) [of out]) (auto simp: compose_loop.simps compose_inv_def owed_def)
  next
    case Panic
    with compose_iteration_no_panic 1(3,4) show ?thesis by blast
  next
    case (Continue v')
    note k = compose_iteration_keeps [OF Continue 1(3)]
    from 1(1) [OF Continue _ k(1) compose_iteration_settled [OF 1(4) Continue]] obtain out
      where o: "compose_loop v' = Some out" "normalized out"
        "consumed out = consumed (result v') + consumed (a_rest v')"
        "produced out = produced (result v') + produced (b_rest v')"
        "\<And>t. consumed (result v') + consumed (a_rest v') \<le> length t \<Longrightarrow> emit out t = owed v' t"
        "ops_cr_free (result v') \<and> ops_cr_free (a_rest v') \<and> ops_cr_free (b_rest v') \<Longrightarrow> ops_cr_free out"
      by blast
    have "compose_loop v = Some out" using Continue o(1) by (simp add: compose_loop.simps [of v])
    then show ?thesis
      by (rule 1(2)) (use o k in auto)
  qed
qed

lemma compose_cs_correct:
  assumes "wf_cs a" "wf_cs b" "len_after a = len_before b"
  obtains c where "compose_cs a b = Some c" "wf_cs c"
    "len_before c = len_before a" "len_after c = len_after b"
    "\<And>t. length t = len_before a \<Longrightarrow> emit (ops c) t = emit (ops b) (emit (ops a) t)"
    "inserts_cr_free a \<Longrightarrow> inserts_cr_free b \<Longrightarrow> inserts_cr_free c"
proof -
  let ?v = "\<lparr>result = [], a_cur = next_item (ops a), a_iter = tl (ops a),
     b_cur = next_item (ops b), b_iter = tl (ops b)\<rparr>"
  have rest: "a_rest ?v = ops a" "b_rest ?v = ops b" by (simp_all add: a_rest_def b_rest_def)
  have "compose_inv ?v"
    using assms normalized_nonzero [of "ops a"] normalized_nonzero [of "ops b"]
    by (auto simp: compose_inv_def wf_cs_def rest)
  moreover have "settled ?v" by (simp add: settled_def next_item_None)
  ultimately obtain out where o: "compose_loop ?v = Some out" "normalized out"
    "consumed out = consumed (ops a)" "produced out = produced (ops b)"
    "\<And>t. consumed (ops a) \<le> length t \<Longrightarrow> emit out t = emit (ops b) (emit (ops a) t)"
    "ops_cr_free (ops a) \<and> ops_cr_free (ops b) \<Longrightarrow> ops_cr_free out"
    by (rule compose_loop_correct) (simp_all add: rest owed_def)
  show thesis
    by (rule that [of "\<lparr>ops = out, len_before = len_before a, len_after = len_after b\<rparr>"])
       (use o assms in \<open>auto simp: compose_cs_def wf_cs_def inserts_cr_free_ops\<close>)
qed

section \<open>Folding many changesets\<close>

text \<open>One round of the balanced fold: neighbours composed in pairs, a last odd one kept.\<close>

fun compose_pairs :: "changeset list \<Rightarrow> changeset list option" where
  "compose_pairs [] = Some []"
| "compose_pairs [a] = Some [a]"
| "compose_pairs (a # b # pairs) = do {
     c \<leftarrow> compose_cs a b;
     folded \<leftarrow> compose_pairs pairs;
     Some (c # folded) }"

lemma compose_pairs_length:
  "compose_pairs css = Some folded \<Longrightarrow> length folded = (length css + 1) div 2"
  by (induction css arbitrary: folded rule: compose_pairs.induct)
     (auto simp: bind_eq_Some_conv)

function compose_all :: "changeset list \<Rightarrow> changeset option option" where
  "compose_all css =
     (if length css > 1 then do { folded \<leftarrow> compose_pairs css; compose_all folded }
      else Some (if css = [] then None else Some (last css)))"
  by pat_completeness auto

termination
  by (relation "measure length") (auto dest!: compose_pairs_length)

declare compose_all.simps [simp del]

text \<open>Sequential changesets: each applies to what the one before makes.\<close>

fun linked :: "changeset list \<Rightarrow> bool" where
  "linked [] = True"
| "linked [a] = True"
| "linked (a # b # css) = (len_after a = len_before b \<and> linked (b # css))"

definition run_all :: "changeset list \<Rightarrow> ustring \<Rightarrow> ustring" where
  "run_all css t = foldl (\<lambda>t cs. emit (ops cs) t) t css"

lemma run_all_simps [simp]:
  "run_all [] t = t" "run_all (a # css) t = run_all css (emit (ops a) t)"
  by (simp_all add: run_all_def)

lemma emit_len: "wf_cs cs \<Longrightarrow> length t = len_before cs \<Longrightarrow> length (emit (ops cs) t) = len_after cs"
  by (simp add: wf_cs_def length_emit)

text \<open>What the fold makes of a list agrees with the list: same ends, same effect.\<close>

definition same_effect :: "changeset list \<Rightarrow> changeset list \<Rightarrow> bool" where
  "same_effect css folded = ((css = []) = (folded = []) \<and>
     (css \<noteq> [] \<longrightarrow> len_before (hd folded) = len_before (hd css) \<and>
        len_after (last folded) = len_after (last css) \<and>
        (\<forall>t. length t = len_before (hd css) \<longrightarrow> run_all folded t = run_all css t)))"

lemma compose_pairs_correct:
  assumes "linked css" "\<forall>cs \<in> set css. wf_cs cs \<and> inserts_cr_free cs"
  shows "\<exists>folded. compose_pairs css = Some folded \<and> linked folded \<and>
     (\<forall>cs \<in> set folded. wf_cs cs \<and> inserts_cr_free cs) \<and> same_effect css folded"
  using assms
proof (induction css rule: compose_pairs.induct)
  case (3 a b pairs)
  then have ab: "len_after a = len_before b" "wf_cs a" "wf_cs b"
    "inserts_cr_free a" "inserts_cr_free b" "linked (b # pairs)" by auto
  from compose_cs_correct [OF ab(2,3,1)] ab(4,5) obtain c where
    c: "compose_cs a b = Some c" "wf_cs c" "len_before c = len_before a" "len_after c = len_after b"
      "\<And>t. length t = len_before a \<Longrightarrow> emit (ops c) t = emit (ops b) (emit (ops a) t)"
      "inserts_cr_free c" by blast
  have "linked pairs" using ab(6) by (cases pairs) auto
  with 3(1) [OF c(1)] 3(3) obtain folded where
    f: "compose_pairs pairs = Some folded" "linked folded"
      "\<forall>cs \<in> set folded. wf_cs cs \<and> inserts_cr_free cs" "same_effect pairs folded" by auto
  have lc: "linked (c # folded)"
    using f(2,4) c(4) ab(6) by (cases folded; cases pairs) (auto simp: same_effect_def)
  have "run_all (c # folded) t = run_all (a # b # pairs) t" if "length t = len_before a" for t
  proof (cases "pairs = []")
    case True
    then show ?thesis using f(4) c(5) [OF that] by (simp add: same_effect_def)
  next
    case False
    have "length (emit (ops b) (emit (ops a) t)) = len_after b"
      using emit_len ab that by simp
    moreover have "len_after b = len_before (hd pairs)" using ab(6) False by (cases pairs) auto
    ultimately show ?thesis using f(4) c(5) [OF that] False by (simp add: same_effect_def)
  qed
  then have "same_effect (a # b # pairs) (c # folded)"
    using f(4) c(3,4) by (auto simp: same_effect_def)
  with c f lc show ?case by auto
qed (auto simp: same_effect_def)

lemma compose_all_correct:
  assumes "linked css" "\<forall>cs \<in> set css. wf_cs cs \<and> inserts_cr_free cs" "css \<noteq> []"
  shows "\<exists>c. compose_all css = Some (Some c) \<and> wf_cs c \<and> inserts_cr_free c \<and> same_effect css [c]"
  using assms
proof (induction css rule: compose_all.induct)
  case (1 css)
  show ?case
  proof (cases "length css > 1")
    case True
    from compose_pairs_correct [OF 1(2,3)] obtain folded where
      f: "compose_pairs css = Some folded" "linked folded"
        "\<forall>cs \<in> set folded. wf_cs cs \<and> inserts_cr_free cs" "same_effect css folded" by blast
    moreover from f(4) 1(4) have "folded \<noteq> []" by (simp add: same_effect_def)
    ultimately obtain c where
      c: "compose_all folded = Some (Some c)" "wf_cs c" "inserts_cr_free c" "same_effect folded [c]"
      using 1(1) [OF True f(1)] by blast
    have "compose_all css = Some (Some c)"
      using True f(1) c(1) by (simp add: compose_all.simps [of css])
    moreover have "same_effect css [c]"
      using f(4) c(4) 1(4) by (auto simp: same_effect_def)
    ultimately show ?thesis using c by blast
  next
    case False
    with 1(4) obtain a where "css = [a]" by (cases css) (auto simp: Suc_le_eq)
    with 1(3) show ?thesis by (simp add: compose_all.simps same_effect_def)
  qed
qed

section \<open>Properties\<close>

text \<open>C5: Composing two changesets panics exactly when their lengths do not meet; otherwise the
  composite is well-formed, spans from the first one's input to the second one's output, inserts
  no CR the two do not insert, and turns every text of its length into what running one after
  the other makes of it.\<close>

theorem compose_correct:
  assumes "wf_cs a" "wf_cs b"
  shows "(compose_cs a b = None \<longleftrightarrow> len_after a \<noteq> len_before b) \<and>
     (len_after a = len_before b \<longrightarrow> (\<exists>c. compose_cs a b = Some c \<and> wf_cs c \<and>
        len_before c = len_before a \<and> len_after c = len_after b \<and>
        (inserts_cr_free a \<and> inserts_cr_free b \<longrightarrow> inserts_cr_free c) \<and>
        (\<forall>t. length t = len_before a \<longrightarrow> emit (ops c) t = emit (ops b) (emit (ops a) t))))"
proof (cases "len_after a = len_before b")
  case True
  from compose_cs_correct [OF assms True] show ?thesis using True by (metis option.distinct(1))
qed (simp add: compose_cs_def)

text \<open>A text edited by one changeset and then by another is the text their composite makes
  of it in one application, which succeeds whenever the two applications do.\<close>

theorem compose_applies:
  assumes "wf_cs a" "wf_cs b"
    and "apply_cs a st text = Some (Inr (st1, text1))" "apply_cs b st1 text1 = Some (Inr (st2, text2))"
    and "buffer_ok text2"
  shows "\<exists>c st' text'. compose_cs a b = Some c \<and> apply_cs c st text = Some (Inr (st', text')) \<and>
     rope text' = rope text2"
proof -
  note a = apply_cs_Some [OF assms(1,3)] and b = apply_cs_Some [OF assms(2,4)]
  from a b have "len_after a = len_before b" by simp
  from compose_cs_correct [OF assms(1,2) this] obtain c where
    c: "compose_cs a b = Some c" "wf_cs c" "len_before c = len_before a"
      "\<And>t. length t = len_before a \<Longrightarrow> emit (ops c) t = emit (ops b) (emit (ops a) t)" by metis
  have e: "emit (ops c) (rope text) = rope text2"
    using c(4) [of "rope text"] a(1,2) b(2) by (simp add: len_chars_def)
  from apply_cs_ok [OF c(2), of "text" st] e assms(5) a(1) c(3) show ?thesis
    using c(1) by (metis buffer_ok_def)
qed

text \<open>C12: Undoing: the inverse taken on the original text exists, applies to the edited text and
  gives the original content and line ending back under the version asked for; and inverting the
  inverse on the edited text is the original changeset again.\<close>

theorem invert_roundtrip:
  assumes "wf_cs cs" "buffer_ok text" "apply_cs cs st text = Some (Inr (st1, text1))"
  shows "\<exists>i st2 text2. invert_cs cs text = Some i \<and> wf_cs i \<and>
     apply_as i st1 text1 (version text) = Some (Inr (st2, text2)) \<and>
     rope text2 = rope text \<and> line_ending text2 = line_ending text \<and> version text2 = version text \<and>
     invert_cs i text1 = Some cs"
proof -
  note a = apply_cs_Some [OF assms(1,3)]
  let ?i = "\<lparr>ops = inv_ops (ops cs) (rope text), len_before = len_after cs, len_after = len_before cs\<rparr>"
  have i: "invert_cs cs text = Some ?i" using invert_cs_eq [OF assms(1) a(1)] .
  have wf: "wf_cs ?i" using wf_cs_inv_ops [OF assms(1)] a(1) by (simp add: len_chars_def)
  have c: "consumed (ops cs) = length (rope text)"
    using assms(1) a(1) by (simp add: wf_cs_def len_chars_def)
  have e: "emit (ops ?i) (rope text1) = rope text"
    using emit_inv_ops [of "ops cs" "rope text"] c a(2) by simp
  obtain st2 text2 where t2: "apply_as ?i st1 text1 (version text) = Some (Inr (st2, text2))"
    "rope text2 = rope text" "line_ending text2 = line_ending text1" "version text2 = version text"
    by (rule apply_as_ok [OF wf, of text1 st1 "version text"])
       (use a(4) e assms(2) in \<open>simp_all add: buffer_ok_def\<close>)
  have "invert_cs ?i text1 = Some cs"
    using invert_cs_eq [OF wf, of text1] inv_ops_inv_ops [of "ops cs" "rope text"] c a(2,4)
    by (cases cs) simp
  with i wf t2 a(3) show ?thesis by simp
qed

text \<open>C13: The balanced fold of sequential changesets never panics and returns one changeset with
  the effect of running them all in order, from the first one's input to the last one's output;
  it returns none exactly for no changesets.\<close>

theorem compose_all_folds:
  assumes "linked css" "\<forall>cs \<in> set css. wf_cs cs \<and> inserts_cr_free cs"
  shows "\<exists>folded. compose_all css = Some folded \<and> (folded = None \<longleftrightarrow> css = []) \<and>
     (\<forall>c. folded = Some c \<longrightarrow> wf_cs c \<and> inserts_cr_free c \<and>
        len_before c = len_before (hd css) \<and> len_after c = len_after (last css) \<and>
        (\<forall>t. length t = len_before c \<longrightarrow> emit (ops c) t = run_all css t))"
proof (cases "css = []")
  case True
  then show ?thesis by (simp add: compose_all.simps)
next
  case False
  from compose_all_correct [OF assms False] show ?thesis
    using False by (auto simp: same_effect_def)
qed

text \<open>Concrete edits for the witnesses: \<open>demo_cs\<close>, then one that deletes and inserts inside what
  \<open>demo_cs\<close> inserted.\<close>

definition demo_next :: changeset where
  "demo_next = \<lparr>ops = [Retain 2, Delete 1, Insert [121], Retain 1], len_before = 4, len_after = 4\<rparr>"

lemma demo_next_wf: "wf_cs demo_next" "inserts_cr_free demo_next"
  by (simp_all add: wf_cs_def demo_next_def inserts_cr_free_def)

theorem compose_correct_witness:
  "compose_cs demo_cs demo_next \<noteq> None"
  using compose_correct [OF demo_cs_wf(1) demo_next_wf(1)] by (simp add: demo_cs_def demo_next_def)

lemma demo_applied:
  obtains st1 text1 st2 text2 where "apply_cs demo_cs demo_store demo_ab = Some (Inr (st1, text1))"
    "apply_cs demo_next st1 text1 = Some (Inr (st2, text2))" "buffer_ok text2"
    "rope text2 = [97, 120, 121, NL]"
proof -
  have v: "is_valid_buffer_rope [97, 120, 99, NL]" "is_valid_buffer_rope [97, 120, 121, NL]"
    by (simp_all add: is_valid_buffer_rope_def ends_with_newline_def)
  obtain st1 text1 where 1: "apply_cs demo_cs demo_store demo_ab = Some (Inr (st1, text1))"
    by (rule apply_cs_ok [OF demo_cs_wf(1), of demo_ab demo_store])
       (use v in \<open>simp_all add: demo_cs_def demo_ab_def len_chars_def\<close>)
  then have r1: "rope text1 = [97, 120, 99, NL]"
    using apply_cs_Some(2) [OF demo_cs_wf(1) 1] by (simp add: demo_cs_def demo_ab_def)
  obtain st2 text2 where 2: "apply_cs demo_next st1 text1 = Some (Inr (st2, text2))"
    by (rule apply_cs_ok [OF demo_next_wf(1), of text1 st1])
       (use v r1 in \<open>simp_all add: demo_next_def len_chars_def\<close>)
  then have "rope text2 = [97, 120, 121, NL]"
    using apply_cs_Some(2) [OF demo_next_wf(1) 2] r1 by (simp add: demo_next_def)
  moreover from this have "buffer_ok text2" using v by (simp add: buffer_ok_def is_cr_free_def)
  ultimately show thesis using that 1 2 by blast
qed

theorem compose_applies_witness:
  "\<exists>c st' text'. compose_cs demo_cs demo_next = Some c \<and>
     apply_cs c demo_store demo_ab = Some (Inr (st', text')) \<and> rope text' = [97, 120, 121, NL]"
proof -
  from demo_applied obtain st1 text1 st2 text2 where
    d: "apply_cs demo_cs demo_store demo_ab = Some (Inr (st1, text1))"
    "apply_cs demo_next st1 text1 = Some (Inr (st2, text2))" "buffer_ok text2"
    "rope text2 = [97, 120, 121, NL]" by blast
  from compose_applies [OF demo_cs_wf(1) demo_next_wf(1) d(1-3)] d(4) show ?thesis by simp
qed

theorem invert_roundtrip_witness:
  "\<exists>i. invert_cs demo_cs demo_ab = Some i \<and> ops i = [Retain 1, Insert [98], Delete 2, Retain 1]"
proof -
  from demo_applied obtain st1 text1 where
    "apply_cs demo_cs demo_store demo_ab = Some (Inr (st1, text1))" by blast
  from invert_roundtrip [OF demo_cs_wf(1,3) this] obtain i where "invert_cs demo_cs demo_ab = Some i"
    by blast
  then show ?thesis
    by (auto simp: invert_cs_def invert_loop.simps demo_cs_def demo_ab_def len_chars_def slice_opt_def
        slice_def push_merge_def)
qed

theorem compose_all_folds_witness:
  "\<exists>c. compose_all [demo_cs, demo_next, demo_next] = Some (Some c) \<and> len_before c = 3"
  using compose_all_folds [of "[demo_cs, demo_next, demo_next]"] demo_cs_wf demo_next_wf
  by (auto simp: demo_cs_def demo_next_def)

end
