(* ===== verification/PosMap.thy ===== *)
theory PosMap imports Compose begin

text \<open>
  \<open>hume-editing/src/changeset/mod.rs\<close>: mapping positions and lines through a changeset. Both
  resumable cursors walk the operations with \<open>seek\<close>, which asks a probe; the interface of a
  probe is the locale \<open>op_probe\<close>, whose one client is \<open>seek\<close>, and the char and line probes
  interpret it. The reference is \<open>map_ref\<close>, the answer of a walk that starts afresh.
\<close>

section \<open>The operation walk\<close>

record op_walk =
  walk_ops :: "operation list"
  walk_idx :: nat
  walk_old :: nat

definition op_walk_new :: "operation list \<Rightarrow> op_walk" where
  "op_walk_new os = \<lparr>walk_ops = os, walk_idx = 0, walk_old = 0\<rparr>"

datatype hit = Retained | Deleted | InsertPoint ustring

text \<open>\<open>OpWalk::seek\<close>, over a probe given by its two methods; the probe is threaded through.\<close>

function seek ::
  "('p \<Rightarrow> nat \<Rightarrow> (bool \<times> 'p) option) \<Rightarrow> ('p \<Rightarrow> operation \<Rightarrow> nat \<Rightarrow> 'p option) \<Rightarrow>
   op_walk \<Rightarrow> 'p \<Rightarrow> (hit \<times> op_walk \<times> 'p) option"
where
  "seek lies_before passed w p =
     (case nth_opt (walk_ops w) (walk_idx w) of
        None \<Rightarrow> Some (Retained, w, p)
      | Some op \<Rightarrow>
         (case op of
            Retain n \<Rightarrow> do {
              (stop, p) \<leftarrow> lies_before p (walk_old w + n);
              if stop then Some (Retained, w, p)
              else do {
                p \<leftarrow> passed p op (walk_old w);
                seek lies_before passed
                  (w\<lparr>walk_old := walk_old w + n, walk_idx := walk_idx w + 1\<rparr>) p } }
          | Delete n \<Rightarrow> do {
              (stop, p) \<leftarrow> lies_before p (walk_old w + n);
              if stop then Some (Deleted, w, p)
              else do {
                p \<leftarrow> passed p op (walk_old w);
                seek lies_before passed
                  (w\<lparr>walk_old := walk_old w + n, walk_idx := walk_idx w + 1\<rparr>) p } }
          | Insert s \<Rightarrow> do {
              (stop, p) \<leftarrow> lies_before p (walk_old w + 1);
              if stop then Some (InsertPoint s, w, p)
              else do {
                p \<leftarrow> passed p op (walk_old w);
                seek lies_before passed (w\<lparr>walk_idx := walk_idx w + 1\<rparr>) p } }))"
  by pat_completeness auto

termination
  by (relation "measure (\<lambda>(_, _, w, _). length (walk_ops w) - walk_idx w)")
     (auto simp: nth_opt_Some)

declare seek.simps [simp del]

section \<open>The reference\<close>

text \<open>How many operations a fresh walk passes on its way to old offset \<open>q\<close>, and where it lands.\<close>

fun skips :: "operation list \<Rightarrow> nat \<Rightarrow> nat" where
  "skips [] q = 0"
| "skips (Retain n # os) q = (if q < n then 0 else Suc (skips os (q - n)))"
| "skips (Delete n # os) q = (if q < n then 0 else Suc (skips os (q - n)))"
| "skips (Insert s # os) q = (if q = 0 then 0 else Suc (skips os q))"

fun hit_of :: "operation list \<Rightarrow> hit" where
  "hit_of (Delete n # os) = Deleted"
| "hit_of (Insert s # os) = InsertPoint s"
| "hit_of os = Retained"

text \<open>Where old offset \<open>q\<close> goes, and whether its char was deleted as a cursor sees it.\<close>

fun map_ref :: "operation list \<Rightarrow> nat \<Rightarrow> assoc \<Rightarrow> nat \<times> bool" where
  "map_ref [] q a = (q, False)"
| "map_ref (Retain n # os) q a =
     (if q < n then (q, False) else apfst ((+) n) (map_ref os (q - n) a))"
| "map_ref (Delete n # os) q a = (if q < n then (0, True) else map_ref os (q - n) a)"
| "map_ref (Insert s # os) q a =
     (if q = 0 then (if a = Before then 0 else length s, False)
      else apfst ((+) (length s)) (map_ref os q a))"

lemma skips_le: "skips os q \<le> length os"
  by (induction os q rule: skips.induct) auto

lemma skips_consumed: "consumed (take (skips os q) os) \<le> q"
  by (induction os q rule: skips.induct) auto

lemma skips_mono: "q \<le> q' \<Longrightarrow> skips os q \<le> skips os q'"
  by (induction os q arbitrary: q' rule: skips.induct) (auto simp: diff_le_mono)

lemma skips_split:
  "k \<le> skips os q \<Longrightarrow> skips os q = k + skips (drop k os) (q - consumed (take k os))"
proof (induction os q arbitrary: k rule: skips.induct)
  case (2 n os q)
  then show ?case by (cases k) (auto split: if_splits)
next
  case (3 n os q)
  then show ?case by (cases k) (auto split: if_splits)
next
  case (4 s os q)
  then show ?case by (cases k) (auto split: if_splits)
qed simp

definition landed :: "operation list \<Rightarrow> nat \<Rightarrow> nat \<Rightarrow> assoc \<Rightarrow> nat \<times> bool" where
  "landed os k q a =
     (case hit_of (drop k os) of
        Retained \<Rightarrow> (produced (take k os) + (q - consumed (take k os)), False)
      | Deleted \<Rightarrow> (produced (take k os), True)
      | InsertPoint s \<Rightarrow> (produced (take k os) + (if a = Before then 0 else length s), False))"

lemma map_ref_landed: "map_ref os q a = landed os (skips os q) q a"
  by (induction os q a rule: map_ref.induct) (auto simp: landed_def split: hit.splits)

section \<open>Probes\<close>

text \<open>What \<open>seek\<close> relies on: a probe asks about one fixed old offset, \<open>lies_before\<close> answers for
  it, and \<open>passed\<close> keeps the probe in step with the operations it was shown. A probe need answer
  only inside the old text and right after its target.\<close>

locale op_probe =
  fixes lies_before :: "'p \<Rightarrow> nat \<Rightarrow> (bool \<times> 'p) option"
    and passed :: "'p \<Rightarrow> operation \<Rightarrow> nat \<Rightarrow> 'p option"
    and target :: "'p \<Rightarrow> nat"
    and told :: "'p \<Rightarrow> operation list \<Rightarrow> bool"
    and within :: "'p \<Rightarrow> nat \<Rightarrow> bool"
  assumes within_mono: "within p n \<Longrightarrow> m \<le> n \<Longrightarrow> within p m"
  and lies_before_ok:
    "told p pre \<Longrightarrow> within p old \<or> old \<le> Suc (target p) \<Longrightarrow>
     \<exists>p'. lies_before p old = Some (target p < old, p') \<and> told p' pre \<and>
       target p' = target p \<and> within p' = within p"
  and passed_ok:
    "told p pre \<Longrightarrow> within p (consumed pre + consumed [op]) \<Longrightarrow>
     \<exists>p'. passed p op (consumed pre) = Some p' \<and> told p' (pre @ [op]) \<and>
       target p' = target p \<and> within p' = within p"
begin

lemma seek_lands:
  assumes "idx \<le> length os" "told p (take idx os)" "within p (consumed os)"
    "consumed (take idx os) \<le> target p"
  defines "k \<equiv> idx + skips (drop idx os) (target p - consumed (take idx os))"
  shows "\<exists>p'. seek lies_before passed
       \<lparr>walk_ops = os, walk_idx = idx, walk_old = consumed (take idx os)\<rparr> p =
     Some (hit_of (drop k os),
       \<lparr>walk_ops = os, walk_idx = k, walk_old = consumed (take k os)\<rparr>, p') \<and>
     told p' (take k os) \<and> target p' = target p \<and> within p' = within p"
  using assms(1-4) unfolding k_def
proof (induction "length os - idx" arbitrary: idx p)
  case 0
  then show ?case by (subst seek.simps) (simp add: nth_opt_def)
next
  case (Suc m)
  let ?old = "consumed (take idx os)"
  let ?op = "os ! idx"
  have idx: "idx < length os" using Suc(2) by simp
  have drop: "drop idx os = ?op # drop (Suc idx) os" using idx by (simp add: Cons_nth_drop_Suc)
  have take: "take (Suc idx) os = take idx os @ [?op]" by (simp add: take_Suc_conv_app_nth idx)
  have total: "?old + consumed [?op] \<le> consumed os"
    by (metis append_take_drop_id consumed_append le_add1 take)
  let ?ask = "?old + (case ?op of Insert s \<Rightarrow> 1 | _ \<Rightarrow> op_consuming_len ?op)"
  have inside: "within p (?old + consumed [?op])" by (rule within_mono [OF Suc(5) total])
  then have "within p ?ask \<or> ?ask \<le> Suc (target p)"
    using Suc(6) by (cases ?op) auto
  from lies_before_ok [OF Suc(4) this] obtain p1 where
    p1: "lies_before p ?ask = Some (target p < ?ask, p1)" "told p1 (take idx os)"
      "target p1 = target p" "within p1 = within p" by blast
  show ?case
  proof (cases "target p < ?ask")
    case True
    then have "skips (drop idx os) (target p - ?old) = 0" "hit_of (drop idx os) =
        (case ?op of Retain _ \<Rightarrow> Retained | Delete _ \<Rightarrow> Deleted | Insert s \<Rightarrow> InsertPoint s)"
      using Suc(6) by (auto simp: drop split: operation.splits)
    with True p1 idx show ?thesis
      by (subst seek.simps) (auto simp: nth_opt_def split: operation.splits)
  next
    case False
    have "within p1 (consumed (take idx os) + consumed [?op])" using inside p1(4) by simp
    from passed_ok [OF p1(2) this] obtain p2 where
      p2: "passed p1 ?op ?old = Some p2" "told p2 (take (Suc idx) os)"
        "target p2 = target p" "within p2 = within p" using p1 take by auto
    have rest: "consumed (take (Suc idx) os) \<le> target p2"
      using False p2(3) by (cases ?op) (auto simp: take)
    have k: "idx + skips (drop idx os) (target p - ?old) =
        Suc idx + skips (drop (Suc idx) os) (target p2 - consumed (take (Suc idx) os))"
      using False p2(3) Suc(6) by (cases ?op) (auto simp: drop take)
    have "m = length os - Suc idx" using Suc(2) by simp
    from Suc(1) [OF this _ p2(2) _ rest] obtain p3 where
      p3: "seek lies_before passed \<lparr>walk_ops = os, walk_idx = Suc idx,
           walk_old = consumed (take (Suc idx) os)\<rparr> p2 =
         Some (hit_of (drop (idx + skips (drop idx os) (target p - ?old)) os),
           \<lparr>walk_ops = os, walk_idx = idx + skips (drop idx os) (target p - ?old),
            walk_old = consumed (take (idx + skips (drop idx os) (target p - ?old)) os)\<rparr>, p3)"
       "told p3 (take (idx + skips (drop idx os) (target p - ?old)) os)"
       "target p3 = target p" "within p3 = within p"
      using idx Suc(5) p2(3,4) unfolding k by auto
    have "seek lies_before passed \<lparr>walk_ops = os, walk_idx = idx, walk_old = ?old\<rparr> p =
        seek lies_before passed \<lparr>walk_ops = os, walk_idx = Suc idx,
           walk_old = consumed (take (Suc idx) os)\<rparr> p2"
      using False p1(1) p2(1) idx
      by (subst seek.simps) (auto simp: nth_opt_def take split: operation.splits)
    with p3 show ?thesis by auto
  qed
qed

text \<open>A walk resumed before the answer of a fresh one lands where the fresh one does.\<close>

lemma seek_resumes:
  assumes "told p (take idx os)" "within p (consumed os)" "idx \<le> skips os (target p)"
  defines "k \<equiv> skips os (target p)"
  obtains p' where "seek lies_before passed
       \<lparr>walk_ops = os, walk_idx = idx, walk_old = consumed (take idx os)\<rparr> p =
     Some (hit_of (drop k os),
       \<lparr>walk_ops = os, walk_idx = k, walk_old = consumed (take k os)\<rparr>, p')"
     "told p' (take k os)" "target p' = target p" "within p' = within p"
proof -
  have "idx \<le> length os" using assms(3) skips_le by (rule order_trans)
  moreover have "consumed (take idx os) \<le> target p"
  proof -
    have "take idx os = take idx (take k os)" using assms(3) by (simp add: k_def min_absorb1)
    then have "consumed (take idx os) \<le> consumed (take k os)"
      by (metis append_take_drop_id consumed_append le_add1)
    also have "\<dots> \<le> target p" unfolding k_def by (rule skips_consumed)
    finally show ?thesis .
  qed
  ultimately show ?thesis
    using seek_lands [OF _ assms(1,2)] skips_split [OF assms(3)] that unfolding k_def by auto
qed

end

section \<open>Mapping char offsets\<close>

record char_probe =
  cp_pos :: nat
  cp_new :: nat

definition char_lies_before :: "char_probe \<Rightarrow> nat \<Rightarrow> (bool \<times> char_probe) option" where
  "char_lies_before p old = Some (cp_pos p < old, p)"

definition char_passed :: "char_probe \<Rightarrow> operation \<Rightarrow> nat \<Rightarrow> char_probe option" where
  "char_passed p op old = Some (case op of
       Retain n \<Rightarrow> p\<lparr>cp_new := cp_new p + n\<rparr>
     | Delete _ \<Rightarrow> p
     | Insert s \<Rightarrow> p\<lparr>cp_new := cp_new p + length s\<rparr>)"

record pos_map_cursor =
  pc_walk :: op_walk
  pc_new :: nat

record mapped_pos =
  mapped_at :: nat
  anchor_deleted :: bool

definition pos_cursor_new :: "operation list \<Rightarrow> pos_map_cursor" where
  "pos_cursor_new os = \<lparr>pc_walk = op_walk_new os, pc_new = 0\<rparr>"

definition map_anchor ::
  "pos_map_cursor \<Rightarrow> nat \<Rightarrow> assoc \<Rightarrow> (mapped_pos \<times> pos_map_cursor) option"
where
  "map_anchor c pos a = do {
     ensure (walk_old (pc_walk c) \<le> pos);
     (hit, w, p) \<leftarrow> seek char_lies_before char_passed (pc_walk c) \<lparr>cp_pos = pos, cp_new = pc_new c\<rparr>;
     let (mapped, deleted) = (case hit of
           Retained \<Rightarrow> (cp_new p + (pos - walk_old w), False)
         | Deleted \<Rightarrow> (cp_new p, True)
         | InsertPoint s \<Rightarrow>
             if a = Before then (cp_new p, False) else (cp_new p + length s, False));
     Some (\<lparr>mapped_at = mapped, anchor_deleted = deleted\<rparr>,
           \<lparr>pc_walk = w, pc_new = cp_new p\<rparr>) }"

definition map_cursor :: "pos_map_cursor \<Rightarrow> nat \<Rightarrow> assoc \<Rightarrow> (nat \<times> pos_map_cursor) option" where
  "map_cursor c pos a = do { (m, c') \<leftarrow> map_anchor c pos a; Some (mapped_at m, c') }"

text \<open>The loop of \<open>map_positions\<close>, over the positions from left to right.\<close>

fun map_positions_loop ::
  "pos_map_cursor \<Rightarrow> nat \<Rightarrow> nat list \<Rightarrow> assoc \<Rightarrow> nat list option"
where
  "map_positions_loop c n [] a = Some []"
| "map_positions_loop c n (pos # ps) a = do {
     ensure (pos \<le> n);
     (m, c') \<leftarrow> map_cursor c pos a;
     ms \<leftarrow> map_positions_loop c' n ps a;
     Some (m # ms) }"

definition map_positions :: "changeset \<Rightarrow> nat list \<Rightarrow> assoc \<Rightarrow> nat list option" where
  "map_positions cs ps a = do {
     ensure (sorted ps);
     map_positions_loop (pos_cursor_new (ops cs)) (len_before cs) ps a }"

text \<open>\<open>map_ranges\<close>: the starts in input order, the ends through an index permutation sorted by
  end, then the final clamp. A range is a pair of offsets.\<close>

fun map_starts_loop ::
  "pos_map_cursor \<Rightarrow> (nat \<times> nat) list \<Rightarrow> (nat \<times> nat) list option"
where
  "map_starts_loop c [] = Some []"
| "map_starts_loop c ((s, e) # rs) = do {
     (m, c') \<leftarrow> map_cursor c s After;
     rs' \<leftarrow> map_starts_loop c' rs;
     Some ((m, e) # rs') }"

fun map_ends_loop ::
  "pos_map_cursor \<Rightarrow> nat list \<Rightarrow> (nat \<times> nat) list \<Rightarrow> (nat \<times> nat) list option"
where
  "map_ends_loop c [] rs = Some rs"
| "map_ends_loop c (i # is) rs = do {
     (s, e) \<leftarrow> nth_opt rs i;
     (m, c') \<leftarrow> map_cursor c e Before;
     map_ends_loop c' is (rs[i := (s, m)]) }"

definition end_order :: "(nat \<times> nat) list \<Rightarrow> nat list" where
  "end_order rs = sort_key (\<lambda>i. snd (rs ! i)) [0..<length rs]"

definition map_ranges :: "changeset \<Rightarrow> (nat \<times> nat) list \<Rightarrow> (nat \<times> nat) list option" where
  "map_ranges cs rs = do {
     ensure (sorted (map fst rs));
     ensure (list_all (\<lambda>(s, e). s \<le> e) rs);
     rs \<leftarrow> map_starts_loop (pos_cursor_new (ops cs)) rs;
     rs \<leftarrow> map_ends_loop (pos_cursor_new (ops cs)) (end_order rs) rs;
     Some (map (\<lambda>(s, e). (s, max e s)) rs) }"

text \<open>The char probe keeps its contract: it carries what the passed operations left in the new text.\<close>

interpretation char_probe: op_probe char_lies_before char_passed cp_pos
  "\<lambda>p pre. cp_new p = produced pre" "\<lambda>_ _. True"
  by unfold_locales (auto simp: char_lies_before_def char_passed_def split: operation.splits)

text \<open>A cursor that has answered for \<open>q\<close>: it stands where a fresh walk to some offset up to
  \<open>q\<close> stops.\<close>

definition cursor_at :: "operation list \<Rightarrow> pos_map_cursor \<Rightarrow> nat \<Rightarrow> bool" where
  "cursor_at os c q = (\<exists>k \<le> skips os q.
     c = \<lparr>pc_walk = \<lparr>walk_ops = os, walk_idx = k, walk_old = consumed (take k os)\<rparr>,
          pc_new = produced (take k os)\<rparr>)"

lemma cursor_at_new: "cursor_at os (pos_cursor_new os) q"
  by (auto simp: cursor_at_def pos_cursor_new_def op_walk_new_def)

lemma cursor_at_mono: "cursor_at os c q \<Longrightarrow> q \<le> q' \<Longrightarrow> cursor_at os c q'"
  unfolding cursor_at_def using skips_mono [of q q' os] by (elim exE conjE) (blast intro: order_trans)

lemma map_anchor_at:
  assumes "cursor_at os c q"
  obtains c' where "map_anchor c q a =
      Some (\<lparr>mapped_at = fst (map_ref os q a), anchor_deleted = snd (map_ref os q a)\<rparr>, c')"
    "cursor_at os c' q"
proof -
  from assms obtain k where k: "k \<le> skips os q" and
    c: "c = \<lparr>pc_walk = \<lparr>walk_ops = os, walk_idx = k, walk_old = consumed (take k os)\<rparr>,
          pc_new = produced (take k os)\<rparr>" unfolding cursor_at_def by blast
  let ?k = "skips os q"
  obtain p' where p': "seek char_lies_before char_passed
       \<lparr>walk_ops = os, walk_idx = k, walk_old = consumed (take k os)\<rparr>
       \<lparr>cp_pos = q, cp_new = produced (take k os)\<rparr> =
     Some (hit_of (drop ?k os),
       \<lparr>walk_ops = os, walk_idx = ?k, walk_old = consumed (take ?k os)\<rparr>, p')"
     "cp_new p' = produced (take ?k os)"
    by (rule char_probe.seek_resumes [of "\<lparr>cp_pos = q, cp_new = produced (take k os)\<rparr>" k os])
       (use k in simp_all)
  have "take k os = take k (take ?k os)" using k by (simp add: min_absorb1)
  then have "consumed (take k os) \<le> consumed (take ?k os)"
    by (metis append_take_drop_id consumed_append le_add1)
  then have "consumed (take k os) \<le> q" using skips_consumed [of os q] by linarith
  with p' have "map_anchor c q a =
      Some (\<lparr>mapped_at = fst (map_ref os q a), anchor_deleted = snd (map_ref os q a)\<rparr>,
        \<lparr>pc_walk = \<lparr>walk_ops = os, walk_idx = ?k, walk_old = consumed (take ?k os)\<rparr>,
         pc_new = produced (take ?k os)\<rparr>)"
    by (auto simp: map_anchor_def c map_ref_landed landed_def split: hit.splits)
  then show thesis by (rule that) (auto simp: cursor_at_def)
qed

lemma map_cursor_at:
  assumes "cursor_at os c q"
  obtains c' where "map_cursor c q a = Some (fst (map_ref os q a), c')" "cursor_at os c' q"
  by (rule map_anchor_at [OF assms, of a]) (auto simp: map_cursor_def that)

section \<open>What a mapped offset is\<close>

lemma map_ref_le: "q \<le> consumed os \<Longrightarrow> fst (map_ref os q a) \<le> produced os"
  by (induction os q a rule: map_ref.induct) auto

lemma map_ref_mono: "q \<le> q' \<Longrightarrow> fst (map_ref os q a) \<le> fst (map_ref os q' a)"
proof (induction os q a arbitrary: q' rule: map_ref.induct)
  case (2 n os q a)
  then show ?case by (auto simp: trans_le_add1)
qed auto

lemma map_ref_assoc: "fst (map_ref os q Before) \<le> fst (map_ref os q After)"
  by (induction os q Before rule: map_ref.induct) auto

lemma map_ref_strict:
  "q < q' \<Longrightarrow> fst (map_ref os q After) \<le> fst (map_ref os q' Before)" if "normalized os"
  using that
proof (induction os q After arbitrary: q' rule: map_ref.induct)
  case (4 s os q)
  then show ?case by (auto simp: normalized_Cons)
next
  case (2 n os q)
  then show ?case by (auto simp: normalized_Cons trans_le_add1)
qed (auto simp: normalized_Cons)

text \<open>A char the operations keep: the walk reports it kept and it stands at its mapped offset.\<close>

lemma map_ref_kept:
  "\<not> snd (map_ref os q a) \<Longrightarrow> q < consumed os \<Longrightarrow> consumed os \<le> length t \<Longrightarrow>
   hit_of (drop (skips os q) os) = Retained \<Longrightarrow> emit os t ! fst (map_ref os q a) = t ! q"
proof (induction os q a arbitrary: t rule: map_ref.induct)
  case (2 n os q a)
  then show ?case by (auto simp: nth_append split: if_splits)
next
  case (3 n os q a)
  then show ?case by (auto split: if_splits)
next
  case (4 s os q a)
  then show ?case by (auto split: if_splits)
qed simp

section \<open>Batches\<close>

lemma map_positions_loop_fresh:
  "sorted ps \<Longrightarrow> (\<forall>q \<in> set ps. cursor_at os c q) \<Longrightarrow>
   map_positions_loop c n ps a =
     (if \<forall>q \<in> set ps. q \<le> n then Some (map (\<lambda>q. fst (map_ref os q a)) ps) else None)"
proof (induction ps arbitrary: c)
  case (Cons q ps)
  then have "cursor_at os c q" by simp
  then obtain c' where c': "map_cursor c q a = Some (fst (map_ref os q a), c')" "cursor_at os c' q"
    by (rule map_cursor_at)
  then have "\<forall>q' \<in> set ps. cursor_at os c' q'" using Cons.prems(1) cursor_at_mono by auto
  with Cons c'(1) show ?case by simp
qed simp

lemma map_positions_fresh:
  "map_positions cs ps a =
     (if sorted ps \<and> (\<forall>q \<in> set ps. q \<le> len_before cs)
      then Some (map (\<lambda>q. fst (map_ref (ops cs) q a)) ps) else None)"
  by (cases "sorted ps") (auto simp: map_positions_def map_positions_loop_fresh cursor_at_new)

lemma map_starts_fresh:
  "sorted (map fst rs) \<Longrightarrow> (\<forall>r \<in> set rs. cursor_at os c (fst r)) \<Longrightarrow>
   map_starts_loop c rs = Some (map (\<lambda>(s, e). (fst (map_ref os s After), e)) rs)"
proof (induction rs arbitrary: c)
  case (Cons r rs)
  obtain s e where r: "r = (s, e)" by (cases r)
  then have "cursor_at os c s" using Cons by simp
  then obtain c' where c': "map_cursor c s After = Some (fst (map_ref os s After), c')" "cursor_at os c' s"
    by (rule map_cursor_at)
  then have "\<forall>r \<in> set rs. cursor_at os c' (fst r)"
    using Cons.prems(1) r cursor_at_mono [OF c'(2)] by simp
  with Cons c'(1) r show ?case by simp
qed simp

text \<open>The ends, mapped through the permutation, each land in their own slot.\<close>

lemma map_ends_fresh:
  "distinct is \<Longrightarrow> (\<forall>i \<in> set is. i < length rs) \<Longrightarrow> sorted (map (\<lambda>i. snd (rs ! i)) is) \<Longrightarrow>
   (\<forall>i \<in> set is. cursor_at os c (snd (rs ! i))) \<Longrightarrow>
   \<exists>rs'. map_ends_loop c is rs = Some rs' \<and> length rs' = length rs \<and>
     (\<forall>i < length rs. rs' ! i =
        (if i \<in> set is then (fst (rs ! i), fst (map_ref os (snd (rs ! i)) Before)) else rs ! i))"
proof (induction "is" arbitrary: c rs)
  case (Cons i "is")
  obtain s e where r: "rs ! i = (s, e)" by (cases "rs ! i")
  have i: "i < length rs" "cursor_at os c e" using Cons.prems r by auto
  from i(2) obtain c' where
    c': "map_cursor c e Before = Some (fst (map_ref os e Before), c')" "cursor_at os c' e"
    by (rule map_cursor_at)
  let ?rs = "rs[i := (s, fst (map_ref os e Before))]"
  have same: "?rs ! j = rs ! j" if "j \<in> set is" for j using that Cons.prems(1) by (cases "j = i") auto
  have later: "e \<le> snd (rs ! j)" if "j \<in> set is" for j using that Cons.prems(3) r by simp
  have s: "map (\<lambda>i. snd (?rs ! i)) is = map (\<lambda>i. snd (rs ! i)) is" using same by simp
  have "\<forall>j \<in> set is. j < length ?rs" using Cons.prems(2) by simp
  moreover have "sorted (map (\<lambda>i. snd (?rs ! i)) is)" unfolding s using Cons.prems(3) by simp
  moreover have "\<forall>j \<in> set is. cursor_at os c' (snd (?rs ! j))"
    using same later cursor_at_mono [OF c'(2)] by simp
  ultimately obtain rs' where rs': "map_ends_loop c' is ?rs = Some rs'" "length rs' = length ?rs"
     "\<forall>j < length ?rs. rs' ! j = (if j \<in> set is
        then (fst (?rs ! j), fst (map_ref os (snd (?rs ! j)) Before)) else ?rs ! j)"
    using Cons.IH [of ?rs c'] Cons.prems(1) by auto
  have "rs' ! j = (if j \<in> set (i # is)
        then (fst (rs ! j), fst (map_ref os (snd (rs ! j)) Before)) else rs ! j)"
    if "j < length rs" for j
    using rs'(3) that same [of j] r i(1) Cons.prems(1) by (cases "j = i") auto
  with rs'(1,2) c'(1) i(1) r show ?case by (auto simp: nth_opt_def)
qed simp

definition map_range_ref :: "operation list \<Rightarrow> nat \<times> nat \<Rightarrow> nat \<times> nat" where
  "map_range_ref os r =
     (let s = fst (map_ref os (fst r) After) in (s, max (fst (map_ref os (snd r) Before)) s))"

lemma map_ranges_fresh:
  assumes "sorted (map fst rs)" "\<forall>(s, e) \<in> set rs. s \<le> e"
  shows "map_ranges cs rs = Some (map (map_range_ref (ops cs)) rs)"
proof -
  let ?os = "ops cs" and ?f = "\<lambda>(s, e). (fst (map_ref (ops cs) s After), e)"
  let ?rs = "map ?f rs"
  have 1: "map_starts_loop (pos_cursor_new ?os) rs = Some ?rs"
    by (rule map_starts_fresh) (use assms(1) cursor_at_new in auto)
  have o: "distinct (end_order ?rs)" "set (end_order ?rs) = {..<length rs}"
    "sorted (map (\<lambda>i. snd (?rs ! i)) (end_order ?rs))"
    by (auto simp: end_order_def)
  then obtain rs' where rs': "map_ends_loop (pos_cursor_new ?os) (end_order ?rs) ?rs = Some rs'"
    "length rs' = length rs"
    "\<forall>i < length rs. rs' ! i = (fst (?rs ! i), fst (map_ref ?os (snd (?rs ! i)) Before))"
    using map_ends_fresh [of "end_order ?rs" ?rs ?os "pos_cursor_new ?os"] cursor_at_new by auto
  have "map (\<lambda>(s, e). (s, max e s)) rs' = map (map_range_ref ?os) rs"
    by (rule nth_equalityI)
       (use rs'(2,3) in \<open>auto simp: map_range_ref_def Let_def split: prod.splits\<close>)
  moreover have "list_all (\<lambda>(s, e). s \<le> e) rs" using assms(2) by (simp add: list_all_iff)
  ultimately show ?thesis using assms(1) 1 rs'(1) by (simp add: map_ranges_def)
qed

section \<open>Mapping lines\<close>

record line_probe =
  lp_text :: buffer_text
  lp_line :: nat
  memo :: "nat \<times> nat"
  breaks_before_old :: nat
  breaks_before_new :: nat

definition breaks_before :: "line_probe \<Rightarrow> nat \<Rightarrow> (nat \<times> line_probe) option" where
  "breaks_before p old =
     (if fst (memo p) \<noteq> old
      then do {
        breaks \<leftarrow> ropey_char_to_line (lp_text p) old;
        Some (breaks, p\<lparr>memo := (old, breaks)\<rparr>) }
      else Some (snd (memo p), p))"

definition line_lies_before :: "line_probe \<Rightarrow> nat \<Rightarrow> (bool \<times> line_probe) option" where
  "line_lies_before p old = do {
     (breaks, p) \<leftarrow> breaks_before p old;
     Some (lp_line p < breaks, p) }"

definition line_passed :: "line_probe \<Rightarrow> operation \<Rightarrow> nat \<Rightarrow> line_probe option" where
  "line_passed p op old = (case op of
       Retain n \<Rightarrow> do {
         (end, p) \<leftarrow> breaks_before p (old + n);
         grown \<leftarrow> checked_sub end (breaks_before_old p);
         Some (p\<lparr>breaks_before_new := breaks_before_new p + grown, breaks_before_old := end\<rparr>) }
     | Delete n \<Rightarrow> do {
         (end, p) \<leftarrow> breaks_before p (old + n);
         Some (p\<lparr>breaks_before_old := end\<rparr>) }
     | Insert s \<Rightarrow> Some (p\<lparr>breaks_before_new := breaks_before_new p + nl_count s\<rparr>))"

record line_map_cursor =
  lc_walk :: op_walk
  lc_probe :: line_probe

definition line_cursor_new :: "buffer_text \<Rightarrow> changeset \<Rightarrow> line_map_cursor" where
  "line_cursor_new text changes =
     \<lparr>lc_walk = op_walk_new (ops changes),
      lc_probe = \<lparr>lp_text = text, lp_line = 0, memo = (0, 0), breaks_before_old = 0,
        breaks_before_new = 0\<rparr>\<rparr>"

definition map_line :: "line_map_cursor \<Rightarrow> nat \<Rightarrow> (nat option \<times> line_map_cursor) option" where
  "map_line c line = do {
     ensure (line < content_line_count (rope (lp_text (lc_probe c))));
     ensure (lp_line (lc_probe c) \<le> line);
     (hit, w, p) \<leftarrow> seek line_lies_before line_passed (lc_walk c) (lc_probe c\<lparr>lp_line := line\<rparr>);
     r \<leftarrow> (case hit of
          Deleted \<Rightarrow> Some None
        | _ \<Rightarrow> do {
            past \<leftarrow> checked_sub (lp_line p) (breaks_before_old p);
            Some (Some (breaks_before_new p + past)) });
     Some (r, \<lparr>lc_walk = w, lc_probe = p\<rparr>) }"

text \<open>The LF of a content line.\<close>

definition lf_of :: "ustring \<Rightarrow> nat \<Rightarrow> nat" where
  "lf_of t line = line_offset t (Suc line) - 1"

lemma lf_of_facts:
  assumes "line < nl_count t"
  shows "lf_of t line < length t" "t ! lf_of t line = NL" "nl_count (take (lf_of t line) t) = line"
  using line_lf [OF assms] by (simp_all add: lf_of_def)

lemma lf_of_before: "line < nl_count t \<Longrightarrow> old \<le> length t \<Longrightarrow>
    (line < nl_count (take old t)) = (lf_of t line < old)"
  using line_offset_le_iff [of "Suc line" t old] line_offset_prev_nl [of "Suc line" t]
  by (auto simp: lf_of_def)

lemma lf_of_mono:
  assumes "line \<le> line'" "line' < nl_count t"
  shows "lf_of t line \<le> lf_of t line'"
  using line_offset_mono [of "Suc line" "Suc line'" t] assms by (simp add: lf_of_def diff_le_mono)

text \<open>A probe in step with the operations it has passed.\<close>

definition line_told :: "line_probe \<Rightarrow> operation list \<Rightarrow> bool" where
  "line_told p pre = (let t = rope (lp_text p) in
     lp_line p < nl_count t \<and> fst (memo p) \<le> length t \<and>
     snd (memo p) = nl_count (take (fst (memo p)) t) \<and>
     consumed pre \<le> length t \<and>
     breaks_before_old p = nl_count (take (consumed pre) t) \<and>
     breaks_before_new p = nl_count (emit pre t))"

abbreviation probe_lf :: "line_probe \<Rightarrow> nat" where
  "probe_lf p \<equiv> lf_of (rope (lp_text p)) (lp_line p)"

lemma breaks_before_told:
  assumes "line_told p pre" "old \<le> length (rope (lp_text p))"
  obtains m where "breaks_before p old = Some (nl_count (take old (rope (lp_text p))), p\<lparr>memo := m\<rparr>)"
    "line_told (p\<lparr>memo := m\<rparr>) pre"
proof (cases "fst (memo p) = old")
  case True
  with assms show ?thesis by (intro that [of "memo p"]) (auto simp: breaks_before_def line_told_def Let_def)
next
  case False
  with assms show ?thesis
    by (intro that [of "(old, nl_count (take old (rope (lp_text p))))"])
       (auto simp: breaks_before_def line_told_def Let_def ropey_char_to_line_def
         char_to_ropey_line_def rope_char_to_line_def)
qed

lemma nl_count_take_add:
  "nl_count (take (i + n) t) = nl_count (take i t) + nl_count (take n (drop i t))"
  by (simp add: take_add)

lemma line_lies_before_told:
  assumes "line_told p pre" "old \<le> length (rope (lp_text p)) \<or> old \<le> Suc (probe_lf p)"
  obtains m where "line_lies_before p old = Some (probe_lf p < old, p\<lparr>memo := m\<rparr>)"
    "line_told (p\<lparr>memo := m\<rparr>) pre"
proof -
  have l: "lp_line p < nl_count (rope (lp_text p))"
    using assms(1) by (simp add: line_told_def Let_def)
  then have old: "old \<le> length (rope (lp_text p))"
    using assms(2) lf_of_facts(1) [OF l] by linarith
  from breaks_before_told [OF assms(1) old] obtain m where
    m: "breaks_before p old = Some (nl_count (take old (rope (lp_text p))), p\<lparr>memo := m\<rparr>)"
      "line_told (p\<lparr>memo := m\<rparr>) pre" .
  with lf_of_before [OF l old] show thesis by (intro that [of m]) (simp_all add: line_lies_before_def)
qed

lemma line_passed_told:
  assumes "line_told p pre" "consumed pre + consumed [op] \<le> length (rope (lp_text p))"
  obtains p' where "line_passed p op (consumed pre) = Some p'" "line_told p' (pre @ [op])"
    "lp_text p' = lp_text p" "lp_line p' = lp_line p"
proof (cases op)
  case (Insert s)
  with assms show ?thesis
    by (intro that [of "p\<lparr>breaks_before_new := breaks_before_new p + nl_count s\<rparr>"])
       (auto simp: line_passed_def line_told_def Let_def emit_append)
next
  case (Retain n)
  let ?t = "rope (lp_text p)"
  from assms(2) Retain have "consumed pre + n \<le> length ?t" by simp
  from breaks_before_told [OF assms(1) this] obtain m where
    m: "breaks_before p (consumed pre + n) = Some (nl_count (take (consumed pre + n) ?t), p\<lparr>memo := m\<rparr>)"
      "line_told (p\<lparr>memo := m\<rparr>) pre" .
  obtain p' where p': "line_passed p op (consumed pre) = Some p'"
    using m Retain by (auto simp: line_passed_def line_told_def Let_def checked_sub_def nl_count_take_add)
  with m Retain assms(2) that [of p'] show ?thesis
    by (auto simp: line_passed_def line_told_def Let_def emit_append checked_sub_def nl_count_take_add)
next
  case (Delete n)
  let ?t = "rope (lp_text p)"
  from assms(2) Delete have "consumed pre + n \<le> length ?t" by simp
  from breaks_before_told [OF assms(1) this] obtain m where
    m: "breaks_before p (consumed pre + n) = Some (nl_count (take (consumed pre + n) ?t), p\<lparr>memo := m\<rparr>)"
      "line_told (p\<lparr>memo := m\<rparr>) pre" .
  obtain p' where p': "line_passed p op (consumed pre) = Some p'"
    using m Delete by (auto simp: line_passed_def)
  with m Delete assms(2) that [of p'] show ?thesis
    by (auto simp: line_passed_def line_told_def Let_def emit_append)
qed

interpretation line_probe: op_probe line_lies_before line_passed "\<lambda>_. lf_of (rope text) line"
  "\<lambda>p pre. line_told p pre \<and> lp_text p = text \<and> lp_line p = line"
  "\<lambda>_ n. n \<le> length (rope text)" for "text" line
proof unfold_locales
  fix p pre old
  assume told: "line_told p pre \<and> lp_text p = text \<and> lp_line p = line"
    and old: "old \<le> length (rope text) \<or> old \<le> Suc (lf_of (rope text) line)"
  from told have t: "line_told p pre" "lp_text p = text" "lp_line p = line" by blast+
  obtain m where m: "line_lies_before p old = Some (probe_lf p < old, p\<lparr>memo := m\<rparr>)"
    "line_told (p\<lparr>memo := m\<rparr>) pre"
    by (rule line_lies_before_told [OF t(1), of old]) (use t(2,3) old in simp_all)
  show "\<exists>p'. line_lies_before p old = Some (lf_of (rope text) line < old, p') \<and>
      (line_told p' pre \<and> lp_text p' = text \<and> lp_line p' = line) \<and>
      lf_of (rope text) line = lf_of (rope text) line \<and>
      (\<lambda>n. n \<le> length (rope text)) = (\<lambda>n. n \<le> length (rope text))"
    by (rule exI [of _ "p\<lparr>memo := m\<rparr>"]) (use m t(2,3) in simp)
next
  fix p pre op
  assume told: "line_told p pre \<and> lp_text p = text \<and> lp_line p = line"
    and c: "consumed pre + consumed [op] \<le> length (rope text)"
  from told have t: "line_told p pre" "lp_text p = text" "lp_line p = line" by blast+
  obtain p' where m: "line_passed p op (consumed pre) = Some p'" "line_told p' (pre @ [op])"
    "lp_text p' = lp_text p" "lp_line p' = lp_line p"
    by (rule line_passed_told [OF t(1), of op]) (use t(2) c in simp_all)
  show "\<exists>p'. line_passed p op (consumed pre) = Some p' \<and>
      (line_told p' (pre @ [op]) \<and> lp_text p' = text \<and> lp_line p' = line) \<and>
      lf_of (rope text) line = lf_of (rope text) line \<and>
      (\<lambda>n. n \<le> length (rope text)) = (\<lambda>n. n \<le> length (rope text))"
    by (rule exI [of _ p']) (use m t(2,3) in simp)
qed auto

text \<open>Where the line's LF lands, read as a line of the new text.\<close>

definition map_line_ref :: "operation list \<Rightarrow> ustring \<Rightarrow> nat \<Rightarrow> nat option" where
  "map_line_ref os t line =
     (let (m, gone) = map_ref os (lf_of t line) Before in
      if gone then None else Some (nl_count (take m (emit os t))))"

lemma emit_take_landed:
  assumes "consumed os \<le> length t" "k \<le> length os"
  shows "emit os t = emit (take k os) t @ emit (drop k os) (drop (consumed (take k os)) t)"
  using emit_append [of "take k os" "drop k os" t] by simp

lemma skips_hit:
  "skips os q = 0 \<Longrightarrow> os = [] \<or> (\<exists>n os'. os = Retain n # os' \<and> q < n) \<or>
     (\<exists>n os'. os = Delete n # os' \<and> q < n) \<or> (\<exists>s os'. os = Insert s # os' \<and> q = 0)"
  by (cases "(os, q)" rule: skips.cases) (auto split: if_splits)

lemma landed_breaks:
  assumes "consumed os = length t" "q < length t"
  defines "k \<equiv> skips os q"
  assumes "\<not> snd (landed os k q Before)"
  shows "nl_count (take (fst (landed os k q Before)) (emit os t)) =
     nl_count (emit (take k os) t) + (nl_count (take q t) - nl_count (take (consumed (take k os)) t))"
proof -
  let ?c = "consumed (take k os)" and ?pre = "emit (take k os) t"
  have c: "?c \<le> q" unfolding k_def by (rule skips_consumed)
  have "k \<le> length os" unfolding k_def by (rule skips_le)
  then have e: "emit os t = ?pre @ emit (drop k os) (drop ?c t)"
    using emit_take_landed assms(1) by simp
  have len: "length ?pre = produced (take k os)"
    by (rule length_emit) (use c assms(2) in simp)
  have z: "skips (drop k os) (q - ?c) = 0"
    using skips_split [of k os q] by (simp add: k_def)
  have nl: "nl_count (take q t) = nl_count (take ?c t) + nl_count (take (q - ?c) (drop ?c t))"
    using nl_count_take_add [of ?c "q - ?c" t] c by simp
  from skips_hit [OF z] consider (e) "drop k os = []"
    | (r) n os' where "drop k os = Retain n # os'" "q - ?c < n"
    | (d) n os' where "drop k os = Delete n # os'"
    | (i) s os' where "drop k os = Insert s # os'" "q - ?c = 0" by auto
  then show ?thesis
  proof cases
    case e
    then have "?c = length t" using assms(1) by (metis append_Nil2 append_take_drop_id)
    with c assms(2) show ?thesis by simp
  next
    case r
    then have "take (q - ?c) (emit (drop k os) (drop ?c t)) = take (q - ?c) (drop ?c t)"
      using c assms(2) by (simp add: min_absorb1)
    moreover have "hit_of (drop k os) = Retained" using r by simp
    ultimately show ?thesis using nl len by (simp add: landed_def e)
  next
    case d
    with assms(4) show ?thesis by (simp add: landed_def)
  next
    case i
    then show ?thesis using nl len c by (simp add: landed_def e)
  qed
qed

text \<open>A cursor over a text that has answered for a line.\<close>

definition line_cursor_at :: "changeset \<Rightarrow> buffer_text \<Rightarrow> line_map_cursor \<Rightarrow> nat \<Rightarrow> bool" where
  "line_cursor_at cs text c line = (\<exists>k \<le> skips (ops cs) (lf_of (rope text) line).
     lc_walk c = \<lparr>walk_ops = ops cs, walk_idx = k, walk_old = consumed (take k (ops cs))\<rparr> \<and>
     lp_text (lc_probe c) = text \<and> lp_line (lc_probe c) \<le> line \<and>
     line_told (lc_probe c) (take k (ops cs)))"

lemma line_cursor_at_new:
  "0 < nl_count (rope text) \<Longrightarrow> line_cursor_at cs text (line_cursor_new text cs) line"
  by (auto simp: line_cursor_at_def line_cursor_new_def op_walk_new_def line_told_def Let_def)

lemma line_cursor_at_mono:
  assumes "line_cursor_at cs text c line" "line \<le> line'" "line' < nl_count (rope text)"
  shows "line_cursor_at cs text c line'"
proof -
  have "skips (ops cs) (lf_of (rope text) line) \<le> skips (ops cs) (lf_of (rope text) line')"
    by (rule skips_mono) (rule lf_of_mono [OF assms(2,3)])
  with assms(1,2) show ?thesis unfolding line_cursor_at_def by (meson order_trans)
qed

lemma map_line_at:
  assumes "line_cursor_at cs text c line" "line < nl_count (rope text)"
    "consumed (ops cs) = length (rope text)"
  obtains c' where "map_line c line = Some (map_line_ref (ops cs) (rope text) line, c')"
    "line_cursor_at cs text c' line"
proof -
  let ?t = "rope text" and ?os = "ops cs"
  let ?q = "lf_of ?t line"
  let ?k = "skips ?os ?q"
  from assms(1) obtain k where k: "k \<le> ?k"
    "lc_walk c = \<lparr>walk_ops = ?os, walk_idx = k, walk_old = consumed (take k ?os)\<rparr>"
    "lp_text (lc_probe c) = text" "lp_line (lc_probe c) \<le> line"
    "line_told (lc_probe c) (take k ?os)" unfolding line_cursor_at_def by blast
  let ?p = "lc_probe c\<lparr>lp_line := line\<rparr>"
  have told: "line_told ?p (take k ?os)" using k(3,5) assms(2) by (simp add: line_told_def Let_def)
  have told': "line_told ?p (take k ?os) \<and> lp_text ?p = text \<and> lp_line ?p = line"
    using told k(3) by simp
  obtain p' where p': "seek line_lies_before line_passed (lc_walk c) ?p = Some (hit_of (drop ?k ?os),
      \<lparr>walk_ops = ?os, walk_idx = ?k, walk_old = consumed (take ?k ?os)\<rparr>, p')"
    "line_told p' (take ?k ?os)" "lp_text p' = text" "lp_line p' = line"
    by (rule line_probe.seek_resumes [OF told'])
       (use k(1,2) assms(3) in simp_all)
  have past: "breaks_before_old p' \<le> line"
    "breaks_before_old p' = nl_count (take (consumed (take ?k ?os)) ?t)"
    "breaks_before_new p' = nl_count (emit (take ?k ?os) ?t)"
  proof -
    show "breaks_before_old p' = nl_count (take (consumed (take ?k ?os)) ?t)"
      "breaks_before_new p' = nl_count (emit (take ?k ?os) ?t)"
      using p'(2,3) by (simp_all add: line_told_def Let_def)
    then show "breaks_before_old p' \<le> line"
      using count_list_take_mono [OF skips_consumed [of ?os ?q], of ?t NL] lf_of_facts(3) [OF assms(2)]
      by simp
  qed
  have r: "map_line_ref ?os ?t line = (case hit_of (drop ?k ?os) of Deleted \<Rightarrow> None
      | _ \<Rightarrow> Some (breaks_before_new p' + (line - breaks_before_old p')))"
    using landed_breaks [OF assms(3) lf_of_facts(1) [OF assms(2)]] lf_of_facts(3) [OF assms(2)] past
    by (auto simp: map_line_ref_def map_ref_landed Let_def landed_def split: hit.splits)
  have "map_line c line = Some (map_line_ref ?os ?t line,
     \<lparr>lc_walk = \<lparr>walk_ops = ?os, walk_idx = ?k, walk_old = consumed (take ?k ?os)\<rparr>, lc_probe = p'\<rparr>)"
    using assms(2) k(3,4) p' past(1)
    by (simp add: map_line_def r checked_sub_def split: hit.splits)
  then show thesis
    by (rule that) (use p' in \<open>simp add: line_cursor_at_def\<close>)
qed

text \<open>A client's queries through one cursor, from the first to the last.\<close>

fun map_lines :: "line_map_cursor \<Rightarrow> nat list \<Rightarrow> nat option list option" where
  "map_lines c [] = Some []"
| "map_lines c (line # lines) = do {
     (m, c') \<leftarrow> map_line c line;
     ms \<leftarrow> map_lines c' lines;
     Some (m # ms) }"

lemma map_lines_fresh:
  assumes "consumed (ops cs) = length (rope text)"
  shows "sorted lines \<Longrightarrow> \<forall>line \<in> set lines. line < nl_count (rope text) \<and> line_cursor_at cs text c line \<Longrightarrow>
    map_lines c lines = Some (map (map_line_ref (ops cs) (rope text)) lines)"
proof (induction lines arbitrary: c)
  case (Cons line lines)
  then have "line_cursor_at cs text c line" "line < nl_count (rope text)" by auto
  from map_line_at [OF this assms] obtain c' where
    c': "map_line c line = Some (map_line_ref (ops cs) (rope text) line, c')"
      "line_cursor_at cs text c' line" .
  then have "\<forall>l \<in> set lines. l < nl_count (rope text) \<and> line_cursor_at cs text c' l"
    using Cons.prems line_cursor_at_mono [OF c'(2)] by simp
  with Cons c'(1) show ?case by simp
qed simp

section \<open>Edited regions\<close>

record edited_region =
  er_start :: nat
  er_end :: nat
  er_inserted :: ustring

text \<open>One operation of the loop of \<open>edited_regions\<close>, on the regions so far and the old offset.\<close>

fun region_step :: "edited_region list \<times> nat \<Rightarrow> operation \<Rightarrow> edited_region list \<times> nat" where
  "region_step (rs, old) (Retain n) = (rs, old + n)"
| "region_step (rs, old) (Delete n) =
     (if rs \<noteq> [] \<and> old \<le> er_end (last rs)
      then butlast rs @ [last rs\<lparr>er_end := max (er_end (last rs)) (old + n)\<rparr>]
      else rs @ [\<lparr>er_start = old, er_end = old + n, er_inserted = []\<rparr>], old + n)"
| "region_step (rs, old) (Insert s) =
     (if rs \<noteq> [] \<and> old \<le> er_end (last rs)
      then butlast rs @ [last rs\<lparr>er_end := max (er_end (last rs)) old,
             er_inserted := er_inserted (last rs) @ s\<rparr>]
      else rs @ [\<lparr>er_start = old, er_end = old, er_inserted = s\<rparr>], old)"

definition edited_regions :: "changeset \<Rightarrow> edited_region list" where
  "edited_regions cs = fst (foldl region_step ([], 0) (ops cs))"

definition edited_old_ranges :: "changeset \<Rightarrow> (nat \<times> nat) list" where
  "edited_old_ranges cs = map (\<lambda>r. (er_start r, er_end r)) (edited_regions cs)"

text \<open>The text with each region replaced, up to old offset \<open>n\<close>.\<close>

fun patch :: "edited_region list \<Rightarrow> nat \<Rightarrow> nat \<Rightarrow> ustring \<Rightarrow> ustring" where
  "patch [] p n t = slice t p n"
| "patch (r # rs) p n t = slice t p (er_start r) @ er_inserted r @ patch rs (er_end r) n t"

text \<open>Regions in order, apart from one another, from offset \<open>p\<close> on.\<close>

fun apart :: "edited_region list \<Rightarrow> bool" where
  "apart [] = True"
| "apart [r] = (er_start r \<le> er_end r)"
| "apart (r # r' # rs) = (er_start r \<le> er_end r \<and> er_end r < er_start r' \<and> apart (r' # rs))"

lemma patch_snoc:
  "patch (rs @ [r]) p n t = patch rs p (er_start r) t @ er_inserted r @ slice t (er_end r) n"
  by (induction rs arbitrary: p) auto

lemma patch_to_last: "patch rs p n t = (if rs = [] then slice t p n
    else patch (butlast rs) p (er_start (last rs)) t @ er_inserted (last rs) @ slice t (er_end (last rs)) n)"
  by (cases rs rule: rev_cases) (auto simp: patch_snoc)

lemma apart_snoc:
  "apart (rs @ [r]) = (apart rs \<and> er_start r \<le> er_end r \<and> (rs \<noteq> [] \<longrightarrow> er_end (last rs) < er_start r))"
  by (induction rs rule: apart.induct) auto

lemma slice_add:
  assumes "a \<le> b"
  shows "slice t a (b + n) = slice t a b @ slice t b (b + n)"
proof -
  have "b + n - a = (b - a) + n" "drop (b - a) (drop a t) = drop b t" using assms by simp_all
  then show ?thesis by (simp add: slice_def take_add)
qed

lemma slice_same [simp]: "slice t a a = []"
  by (simp add: slice_def)

definition regions_inv :: "edited_region list \<times> nat \<Rightarrow> operation list \<Rightarrow> bool" where
  "regions_inv st pre = (case st of (rs, old) \<Rightarrow> apart rs \<and> old = consumed pre \<and>
     (\<forall>r \<in> set rs. er_end r \<le> old) \<and> (\<forall>t. patch rs 0 old t = emit pre t))"

lemma region_step_inv:
  assumes "regions_inv st pre"
  shows "regions_inv (region_step st op) (pre @ [op])"
proof -
  obtain rs old where st: "st = (rs, old)" by (cases st)
  then have i: "apart rs" "old = consumed pre" "\<forall>r \<in> set rs. er_end r \<le> old"
    "\<And>t. patch rs 0 old t = emit pre t"
    using assms by (auto simp: regions_inv_def)
  show ?thesis
  proof (cases op)
    case (Retain n)
    have "patch rs 0 (old + n) t = patch rs 0 old t @ slice t old (old + n)" for t
      using i(3) slice_add [of "er_end (last rs)" old t n] slice_add [of 0 old t n]
      by (cases rs rule: rev_cases) (simp_all add: patch_snoc)
    then have "patch rs 0 (old + n) t = emit (pre @ [Retain n]) t" for t
      unfolding i(4) emit_append i(2) [symmetric] by (simp add: slice_def)
    moreover have "\<forall>r \<in> set rs. er_end r \<le> old + n" using i(3) by auto
    ultimately show ?thesis using i(1,2) unfolding Retain st by (simp add: regions_inv_def)
  next
    case (Delete n)
    show ?thesis
    proof (cases "rs \<noteq> [] \<and> old \<le> er_end (last rs)")
      case True
      then obtain rs0 r where rs: "rs = rs0 @ [r]" by (cases rs rule: rev_cases) auto
      with True i(3) have "er_end r = old" by auto
      with i rs st True Delete show ?thesis
        by (auto simp: regions_inv_def emit_append patch_snoc apart_snoc trans_le_add1)
    next
      case False
      then have "rs \<noteq> [] \<Longrightarrow> er_end (last rs) < old" by auto
      with i st False Delete show ?thesis
        by (auto simp: regions_inv_def emit_append patch_snoc apart_snoc trans_le_add1)
    qed
  next
    case (Insert s)
    show ?thesis
    proof (cases "rs \<noteq> [] \<and> old \<le> er_end (last rs)")
      case True
      then obtain rs0 r where rs: "rs = rs0 @ [r]" by (cases rs rule: rev_cases) auto
      with True i(3) have "er_end r = old" by auto
      moreover have "patch rs0 0 (er_start r) t @ er_inserted r = emit pre t" for t
        using i(4) [of t] rs \<open>er_end r = old\<close> by (simp add: patch_snoc)
      then have "patch rs0 0 (er_start r) t @ er_inserted r @ s = emit pre t @ s" for t
        by (metis append_assoc)
      ultimately show ?thesis using i rs st True Insert
        by (auto simp: regions_inv_def emit_append patch_snoc apart_snoc)
    next
      case False
      then have "rs \<noteq> [] \<Longrightarrow> er_end (last rs) < old" by auto
      with i st False Insert show ?thesis
        by (auto simp: regions_inv_def emit_append patch_snoc apart_snoc)
    qed
  qed
qed

lemma regions_inv_fold:
  "regions_inv st pre \<Longrightarrow> regions_inv (foldl region_step st os) (pre @ os)"
proof (induction os arbitrary: st pre)
  case (Cons op os)
  from region_step_inv [OF Cons.prems, of op] Cons.IH show ?case by fastforce
qed simp

lemma edited_regions_inv:
  "\<exists>old. regions_inv (edited_regions cs, old) (ops cs)"
proof -
  have "regions_inv ([], 0) []" by (simp add: regions_inv_def)
  from regions_inv_fold [OF this, of "ops cs"] show ?thesis
    by (cases "foldl region_step ([], 0) (ops cs)") (auto simp: edited_regions_def)
qed

section \<open>Chars that survive\<close>

text \<open>Whether the operations keep the char at old offset \<open>q\<close>.\<close>

fun survives :: "operation list \<Rightarrow> nat \<Rightarrow> bool" where
  "survives [] q = False"
| "survives (Retain n # os) q = (q < n \<or> survives os (q - n))"
| "survives (Delete n # os) q = (n \<le> q \<and> survives os (q - n))"
| "survives (Insert s # os) q = survives os q"

lemma survives_not_deleted: "survives os q \<Longrightarrow> \<not> snd (map_ref os q a)"
  by (induction os q a rule: map_ref.induct) (auto split: if_splits)

lemma not_survives:
  "\<not> survives os q \<Longrightarrow> q < consumed os \<Longrightarrow>
   snd (map_ref os q a) \<or> (\<exists>s. hit_of (drop (skips os q) os) = InsertPoint s)"
  by (induction os q a rule: map_ref.induct) (auto split: if_splits)

lemma emit_first:
  "survives os 0 \<Longrightarrow> normalized (Insert s # os) \<Longrightarrow> consumed os \<le> length t \<Longrightarrow> emit os t ! 0 = t ! 0"
  by (cases os; cases "hd os") (auto simp: normalized_Cons nth_append)

lemma survives_kept:
  "survives os q \<Longrightarrow> normalized os \<Longrightarrow> q < consumed os \<Longrightarrow> consumed os \<le> length t \<Longrightarrow>
   emit os t ! fst (map_ref os q After) = t ! q"
proof (induction os q After arbitrary: t rule: map_ref.induct)
  case (2 n os q)
  then show ?case by (auto simp: nth_append normalized_Cons split: if_splits)
next
  case (3 n os q)
  then show ?case by (auto simp: normalized_Cons split: if_splits)
next
  case (4 s os q)
  show ?case
  proof (cases "q = 0")
    case True
    with 4 emit_first [of os s t] show ?thesis by (simp add: nth_append)
  next
    case False
    with 4 show ?thesis by (simp add: normalized_Cons)
  qed
qed simp

section \<open>Properties\<close>

text \<open>C9: A batch of offsets goes through one resumed cursor as each would through a fresh one,
  keeping its order and staying inside the new text; the batch panics exactly when it is not
  sorted or reaches past the old text.\<close>

theorem map_positions_batch:
  assumes "wf_cs cs"
  shows "(map_positions cs ps a = None \<longleftrightarrow> \<not> (sorted ps \<and> (\<forall>q \<in> set ps. q \<le> len_before cs))) \<and>
     (\<forall>ms. map_positions cs ps a = Some ms \<longrightarrow>
        ms = map (\<lambda>q. fst (map_ref (ops cs) q a)) ps \<and> sorted ms \<and>
        (\<forall>m \<in> set ms. m \<le> len_after cs))"
proof -
  have "sorted (map (\<lambda>q. fst (map_ref (ops cs) q a)) ps)" if "sorted ps"
    using that map_ref_mono by (auto simp: sorted_wrt_map intro: sorted_wrt_mono_rel [of ps "(\<le>)"])
  moreover have "\<forall>q \<in> set ps. fst (map_ref (ops cs) q a) \<le> len_after cs"
    if "\<forall>q \<in> set ps. q \<le> len_before cs"
    using that assms map_ref_le [of _ "ops cs" a] by (simp add: wf_cs_def)
  ultimately show ?thesis by (auto simp: map_positions_fresh)
qed

text \<open>Ranges sorted by start, nested ones included, each map on their own: the start past
  text inserted at it, the end before text inserted at it, clamped to the start; the results are
  again sorted by start and never end before they start.\<close>

theorem map_ranges_batch:
  assumes "sorted (map fst rs)" "\<forall>(s, e) \<in> set rs. s \<le> e"
  shows "\<exists>rs'. map_ranges cs rs = Some rs' \<and> length rs' = length rs \<and>
     (\<forall>i < length rs. fst (rs' ! i) = fst (map_ref (ops cs) (fst (rs ! i)) After) \<and>
        snd (rs' ! i) = max (fst (map_ref (ops cs) (snd (rs ! i)) Before)) (fst (rs' ! i))) \<and>
     sorted (map fst rs') \<and> (\<forall>(s, e) \<in> set rs'. s \<le> e)"
proof -
  have "sorted (map (\<lambda>r. fst (map_range_ref (ops cs) r)) rs)"
    using assms(1) map_ref_mono
    by (auto simp: sorted_wrt_map map_range_ref_def Let_def elim: sorted_wrt_mono_rel [rotated])
  then show ?thesis
    by (intro exI [of _ "map (map_range_ref (ops cs)) rs"])
       (auto simp: map_ranges_fresh [OF assms] map_range_ref_def Let_def comp_def)
qed

text \<open>A char a changeset keeps is never reported deleted, and mapped past insertions it is the
  char at its mapped offset of the edited text; a char reported deleted is not kept, and maps to
  the offset the text before it produced; a char that is not kept is reported deleted unless the
  walk stops at text inserted right before it.\<close>

theorem map_anchor_kept:
  assumes "wf_cs cs" "length t = len_before cs" "q < len_before cs"
  shows "\<exists>m c. map_anchor (pos_cursor_new (ops cs)) q a = Some (m, c) \<and>
     (survives (ops cs) q \<longrightarrow> \<not> anchor_deleted m \<and>
        (a = After \<longrightarrow> emit (ops cs) t ! mapped_at m = t ! q)) \<and>
     (anchor_deleted m \<longrightarrow> mapped_at m = produced (take (skips (ops cs) q) (ops cs))) \<and>
     (\<not> survives (ops cs) q \<longrightarrow> anchor_deleted m \<or>
        (\<exists>s. hit_of (drop (skips (ops cs) q) (ops cs)) = InsertPoint s))"
proof -
  obtain c where c: "map_anchor (pos_cursor_new (ops cs)) q a =
      Some (\<lparr>mapped_at = fst (map_ref (ops cs) q a), anchor_deleted = snd (map_ref (ops cs) q a)\<rparr>, c)"
    by (rule map_anchor_at [OF cursor_at_new, of "ops cs" q a])
  have n: "normalized (ops cs)" "q < consumed (ops cs)" "consumed (ops cs) \<le> length t"
    using assms by (simp_all add: wf_cs_def)
  have "fst (map_ref (ops cs) q a) = produced (take (skips (ops cs) q) (ops cs))"
    if "snd (map_ref (ops cs) q a)"
    using that by (auto simp: map_ref_landed landed_def split: hit.splits)
  with c survives_kept [OF _ n] survives_not_deleted [of "ops cs" q a] not_survives [OF _ n(2), of a]
  show ?thesis by auto
qed

text \<open>A batch of lines goes through one line cursor as the LF of each goes through a char
  cursor: to no line where that LF is reported deleted, and otherwise to the line of the edited
  text its LF lands on.\<close>

theorem map_lines_batch:
  assumes "wf_cs cs" "len_chars text = len_before cs"
    and "sorted lines" "\<forall>line \<in> set lines. line < content_line_count (rope text)"
  shows "map_lines (line_cursor_new text cs) lines =
     Some (map (\<lambda>line. let (m, gone) = map_ref (ops cs) (lf_of (rope text) line) Before in
        if gone then None else Some (nl_count (take m (emit (ops cs) (rope text))))) lines)"
proof (cases "lines = []")
  case False
  have len: "consumed (ops cs) = length (rope text)"
    using assms(1,2) by (simp add: wf_cs_def len_chars_def)
  have "0 < nl_count (rope text)" using assms(4) False by (cases lines) auto
  then have "\<forall>line \<in> set lines. line < nl_count (rope text) \<and>
      line_cursor_at cs text (line_cursor_new text cs) line"
    using assms(4) line_cursor_at_new by simp
  from map_lines_fresh [OF len assms(3) this] show ?thesis
    by (simp add: map_line_ref_def [abs_def])
qed simp

text \<open>C15: The edited regions are in order and apart, lie inside the old text, and replacing each
  by its inserted text gives the edited text.\<close>

theorem edited_regions_rebuild:
  "apart (edited_regions cs) \<and> (\<forall>r \<in> set (edited_regions cs). er_end r \<le> consumed (ops cs)) \<and>
   patch (edited_regions cs) 0 (consumed (ops cs)) t = emit (ops cs) t"
  using edited_regions_inv [of cs] by (auto simp: regions_inv_def)

text \<open>A char that a deletion right after an insertion at its offset consumes is reported as
  not deleted, and the line it ends as surviving: the walk stops at the insertion.\<close>

theorem insert_hides_deletion:
  "map_anchor (pos_cursor_new [Retain i, Insert s, Delete n]) i a =
     Some (\<lparr>mapped_at = i + (if a = Before then 0 else length s), anchor_deleted = False\<rparr>,
       \<lparr>pc_walk = \<lparr>walk_ops = [Retain i, Insert s, Delete n], walk_idx = 1, walk_old = i\<rparr>,
        pc_new = i\<rparr>)"
  by (simp add: map_anchor_def pos_cursor_new_def op_walk_new_def seek.simps nth_opt_def
      char_lies_before_def char_passed_def)

theorem map_positions_batch_witness:
  "map_positions demo_cs [0, 1, 2, 3] After = Some [0, 1, 3, 4]"
  using map_positions_batch [OF demo_cs_wf(1), of "[0, 1, 2, 3]" After]
  by (cases "map_positions demo_cs [0, 1, 2, 3] After") (auto simp: demo_cs_def)

theorem map_ranges_batch_witness:
  "\<exists>rs'. map_ranges demo_cs [(0, 3), (0, 2), (1, 2)] = Some rs' \<and> rs' ! 2 = (1, 1)"
  using map_ranges_batch [of "[(0, 3), (0, 2), (1, 2)]" demo_cs]
  by (force simp: demo_cs_def nth_Cons' prod_eq_iff)

theorem map_anchor_kept_witness:
  "\<exists>m c. map_anchor (pos_cursor_new (ops demo_cs)) 2 After = Some (m, c) \<and>
     emit (ops demo_cs) [97, 98, NL] ! mapped_at m = NL \<and> \<not> anchor_deleted m"
proof -
  have "survives (ops demo_cs) 2" "length [97, 98, NL] = len_before demo_cs" "2 < len_before demo_cs"
    "[97, 98, NL] ! 2 = NL" by (simp_all add: demo_cs_def)
  with map_anchor_kept [OF demo_cs_wf(1), of "[97, 98, NL]" 2 After] show ?thesis by metis
qed

theorem map_lines_batch_witness:
  "map_lines (line_cursor_new demo_ab demo_cs) [0, 0] = Some [Some 0, Some 0]"
  using map_lines_batch [OF demo_cs_wf(1), of demo_ab "[0, 0]"]
  by (simp add: demo_cs_def demo_ab_def len_chars_def lf_of_def)

theorem edited_regions_rebuild_witness:
  "patch (edited_regions demo_cs) 0 3 [97, 98, NL] = [97, 120, 99, NL] \<and> apart (edited_regions demo_cs)"
proof -
  have "consumed (ops demo_cs) = 3" "emit (ops demo_cs) [97, 98, NL] = [97, 120, 99, NL]"
    by (simp_all add: demo_cs_def)
  with edited_regions_rebuild [of demo_cs "[97, 98, NL]"] show ?thesis by simp
qed

end
