(* ===== verification/EditState.thy ===== *)
theory EditState imports Selection PosMap begin

text \<open>
  Selections against their text: \<open>selection/fit.rs\<close>, \<open>selection/snapshot.rs\<close>,
  \<open>selection/resolver.rs\<close>, \<open>SelectionSet::translate\<close> with \<open>LineEdits\<close> of
  \<open>selection/mod.rs\<close>, and the paired state of \<open>state.rs\<close>.
\<close>

section \<open>Fit\<close>

definition snap :: "segmentation \<Rightarrow> buffer_text \<Rightarrow> nat \<Rightarrow> nat option" where
  "snap B text offset = map_option cl_start (snap_to_cluster B (rope text) offset)"

datatype invariant_violation =
    VersionMismatch | OutOfBounds nat | SplitsCluster nat | Overlapping nat

type_synonym check_result = "invariant_violation + unit"

definition check_end :: "segmentation \<Rightarrow> buffer_text \<Rightarrow> nat \<Rightarrow> nat \<Rightarrow> check_result option" where
  "check_end B text end index =
     (if len_chars text \<le> end then Some (Inl (OutOfBounds index))
      else do {
        at \<leftarrow> snap B text end;
        Some (if at \<noteq> end then Inl (SplitsCluster index) else Inr ()) })"

definition check_selection ::
  "segmentation \<Rightarrow> buffer_text \<Rightarrow> selection \<Rightarrow> nat \<Rightarrow> check_result option"
where
  "check_selection B text s index = do {
     r \<leftarrow> check_end B text (anchor s) index;
     case r of
       Inl e \<Rightarrow> Some (Inl e)
     | Inr _ \<Rightarrow> check_end B text (head s) index }"

text \<open>The loop of \<open>check_positions\<close>, with the selection before the current one.\<close>

fun check_loop ::
  "segmentation \<Rightarrow> buffer_text \<Rightarrow> selection option \<Rightarrow> nat \<Rightarrow> selection list \<Rightarrow> check_result option"
where
  "check_loop B text prior index [] = Some (Inr ())"
| "check_loop B text prior index (s # ss) = do {
     r \<leftarrow> check_selection B text s index;
     case r of
       Inl e \<Rightarrow> Some (Inl e)
     | Inr _ \<Rightarrow>
         if (case prior of Some p \<Rightarrow> sel_start s \<le> sel_last p | None \<Rightarrow> False)
         then Some (Inl (Overlapping index))
         else check_loop B text (Some s) (index + 1) ss }"

definition check_positions :: "segmentation \<Rightarrow> buffer_text \<Rightarrow> selection_set \<Rightarrow> check_result option" where
  "check_positions B text S = check_loop B text None 0 (sels S)"

definition check_fit :: "segmentation \<Rightarrow> buffer_text \<Rightarrow> selection_set \<Rightarrow> check_result option" where
  "check_fit B text S =
     (if set_version S \<noteq> version text then Some (Inl VersionMismatch)
      else check_positions B text S)"

definition assert_positions :: "segmentation \<Rightarrow> buffer_text \<Rightarrow> selection_set \<Rightarrow> unit option" where
  "assert_positions B text S = do {
     ensure (list_all (\<lambda>s. sel_last s < len_chars text) (sels S));
     r \<leftarrow> check_positions B text S;
     ensure (r = Inr ()) }"

definition assert_fits :: "segmentation \<Rightarrow> buffer_text \<Rightarrow> selection_set \<Rightarrow> unit option" where
  "assert_fits B text S = do {
     ensure (set_version S = version text);
     assert_positions B text S }"

text \<open>What the checks decide.\<close>

definition sel_fits :: "segmentation \<Rightarrow> buffer_text \<Rightarrow> selection \<Rightarrow> bool" where
  "sel_fits B text s = (is_start B (rope text) (anchor s) \<and> is_start B (rope text) (head s))"

definition positions_fit :: "segmentation \<Rightarrow> buffer_text \<Rightarrow> selection list \<Rightarrow> bool" where
  "positions_fit B text ss = ((\<forall>s \<in> set ss. sel_fits B text s) \<and> sels_apart ss)"

lemma snap_total:
  assumes "seg_ok B" "0 < len_chars text"
  obtains i where "snap B text offset = Some i" "is_start B (rope text) i"
    "is_start B (rope text) offset \<Longrightarrow> i = offset" "i \<le> offset"
proof -
  have t: "rope text \<noteq> []" using assms(2) by (auto simp: len_chars_def)
  obtain c where c: "snap_to_cluster B (rope text) offset = Some c" "is_cluster B (rope text) c"
    "cl_start c \<le> min offset (length (rope text) - 1)"
    by (rule snap_to_cluster_Some [OF assms(1) t, of offset])
  have "cl_start c = offset" if s: "is_start B (rope text) offset"
  proof -
    obtain d where "snap_to_cluster B (rope text) offset = Some d" "cl_start d = offset"
      by (rule snap_start [OF assms(1) s])
    with c(1) show ?thesis by simp
  qed
  with c show thesis
    by (intro that [of "cl_start c"]) (auto simp: snap_def is_cluster_start)
qed

lemma check_end_eq:
  assumes "seg_ok B" "0 < len_chars text"
  shows "check_end B text e index =
     Some (if len_chars text \<le> e then Inl (OutOfBounds index)
           else if is_start B (rope text) e then Inr () else Inl (SplitsCluster index))"
proof -
  obtain i where i: "snap B text e = Some i" "is_start B (rope text) i"
    "is_start B (rope text) e \<Longrightarrow> i = e" by (rule snap_total [OF assms, of e]) blast
  show ?thesis using i by (auto simp: check_end_def)
qed

text \<open>The first selection that does not fit, with what is wrong.\<close>

definition sel_violation :: "segmentation \<Rightarrow> buffer_text \<Rightarrow> nat \<Rightarrow> selection \<Rightarrow> invariant_violation option"
where
  "sel_violation B text index s =
     (if len_chars text \<le> anchor s then Some (OutOfBounds index)
      else if \<not> is_start B (rope text) (anchor s) then Some (SplitsCluster index)
      else if len_chars text \<le> head s then Some (OutOfBounds index)
      else if \<not> is_start B (rope text) (head s) then Some (SplitsCluster index)
      else None)"

lemma check_selection_eq:
  assumes "seg_ok B" "0 < len_chars text"
  shows "check_selection B text s index =
     Some (case sel_violation B text index s of Some e \<Rightarrow> Inl e | None \<Rightarrow> Inr ())"
  by (simp add: check_selection_def check_end_eq [OF assms] sel_violation_def)

lemma sel_violation_None: "sel_violation B text index s = None \<longleftrightarrow> sel_fits B text s"
  by (auto simp: sel_violation_def sel_fits_def is_start_def len_chars_def)

lemma check_loop_ok:
  assumes "seg_ok B" "0 < len_chars text"
  shows "\<exists>r. check_loop B text p index ss = Some r \<and>
    (r = Inr () \<longleftrightarrow> (\<forall>s \<in> set ss. sel_fits B text s) \<and>
       sels_apart (case p of None \<Rightarrow> ss | Some s \<Rightarrow> s # ss))"
proof (induction ss arbitrary: p index)
  case (Cons s ss)
  show ?case
  proof (cases "sel_violation B text index s")
    case None
    then have f: "sel_fits B text s" by (simp add: sel_violation_None)
    show ?thesis
      using Cons [of "Some s" "Suc index"] f None
      by (cases p) (auto simp: check_selection_eq [OF assms])
  next
    case (Some e)
    then have "\<not> sel_fits B text s" using sel_violation_None [of B "text" index s] by simp
    with Some show ?thesis by (auto simp: check_selection_eq [OF assms])
  qed
qed (auto split: option.splits)

lemma check_positions_iff:
  assumes "seg_ok B" "0 < len_chars text"
  obtains r where "check_positions B text S = Some r" "r = Inr () \<longleftrightarrow> positions_fit B text (sels S)"
  using check_loop_ok [OF assms, of None 0 "sels S"] that
  by (auto simp: check_positions_def positions_fit_def)

lemma assert_positions_iff:
  assumes "seg_ok B" "0 < len_chars text"
  shows "assert_positions B text S = Some () \<longleftrightarrow> positions_fit B text (sels S)"
proof -
  obtain r where r: "check_positions B text S = Some r" "r = Inr () \<longleftrightarrow> positions_fit B text (sels S)"
    by (rule check_positions_iff [OF assms])
  have "sel_last s < len_chars text" if "positions_fit B text (sels S)" "s \<in> set (sels S)" for s
    using that by (auto simp: positions_fit_def sel_fits_def is_start_def len_chars_def sel_last_def)
  with r show ?thesis by (auto simp: assert_positions_def list_all_iff)
qed

lemma assert_fits_iff:
  assumes "seg_ok B" "0 < len_chars text"
  shows "assert_fits B text S = Some () \<longleftrightarrow>
    set_version S = version text \<and> positions_fit B text (sels S)"
  using assert_positions_iff [OF assms, of S] by (auto simp: assert_fits_def)

section \<open>A change, and positions carried through it\<close>

record text_change =
  tc_before :: buffer_text
  tc_after :: buffer_text
  tc_changes :: changeset

definition text_change_new :: "buffer_text \<Rightarrow> buffer_text \<Rightarrow> changeset \<Rightarrow> text_change option" where
  "text_change_new old new changes = do {
     ensure (len_before changes = len_chars old);
     ensure (len_after changes = len_chars new);
     Some \<lparr>tc_before = old, tc_after = new, tc_changes = changes\<rparr> }"

record resolver =
  rs_cursor :: pos_map_cursor
  rs_last :: nat

definition resolver_new :: "text_change \<Rightarrow> resolver" where
  "resolver_new ch = \<lparr>rs_cursor = pos_cursor_new (ops (tc_changes ch)), rs_last = 0\<rparr>"

definition map_old :: "text_change \<Rightarrow> resolver \<Rightarrow> nat \<Rightarrow> assoc \<Rightarrow> (nat \<times> resolver) option" where
  "map_old ch r pos a = do {
     let cursor = (if pos < rs_last r then pos_cursor_new (ops (tc_changes ch)) else rs_cursor r);
     (m, cursor) \<leftarrow> map_cursor cursor pos a;
     Some (m, \<lparr>rs_cursor = cursor, rs_last = pos\<rparr>) }"

definition carry ::
  "segmentation \<Rightarrow> text_change \<Rightarrow> resolver \<Rightarrow> selection \<Rightarrow> assoc \<Rightarrow> (selection \<times> resolver) option"
where
  "carry B ch r s a = do {
     (start, r) \<leftarrow> map_old ch r (sel_start s) a;
     (end, r) \<leftarrow> map_old ch r (sel_last s) a;
     start \<leftarrow> snap B (tc_after ch) start;
     end \<leftarrow> snap B (tc_after ch) end;
     Some (with_ends s start end, r) }"

text \<open>\<open>LineEdits::leave_line_alone\<close>: the edits not yet passed, and whether none touches the line.\<close>

fun drop_passed :: "nat \<Rightarrow> (nat \<times> nat) list \<Rightarrow> (nat \<times> nat) list" where
  "drop_passed at [] = []"
| "drop_passed at ((s, e) # edits) =
     (if (if s = e then e < at else e \<le> at) then drop_passed at edits
      else (s, e) # edits)"

definition leave_line_alone ::
  "buffer_text \<Rightarrow> (nat \<times> nat) list \<Rightarrow> nat \<Rightarrow> (bool \<times> (nat \<times> nat) list) option"
where
  "leave_line_alone old edits h = do {
     line \<leftarrow> char_to_line old h;
     r \<leftarrow> line_range (rope old) line;
     let rest = drop_passed (cr_start r) edits;
     Some ((case next_item rest of None \<Rightarrow> True | Some (s, _) \<Rightarrow> cr_end r \<le> s), rest) }"

text \<open>The loop of \<open>SelectionSet::translate\<close>.\<close>

fun translate_loop ::
  "segmentation \<Rightarrow> text_change \<Rightarrow> (nat \<times> nat) list \<Rightarrow> resolver \<Rightarrow> selection list \<Rightarrow> selection list option"
where
  "translate_loop B ch edits r [] = Some []"
| "translate_loop B ch edits r (s # ss) = do {
     (alone, edits) \<leftarrow> leave_line_alone (tc_before ch) edits (head s);
     let prior = (if alone then s else without_sticky s);
     (s', r) \<leftarrow> carry B ch r prior After;
     ss' \<leftarrow> translate_loop B ch edits r ss;
     Some (s' # ss') }"

definition translate ::
  "segmentation \<Rightarrow> selection_set \<Rightarrow> text_change \<Rightarrow> (nat \<times> selection_set) option"
where
  "translate B self ch = do {
     assert_fits B (tc_before ch) self;
     ss \<leftarrow> translate_loop B ch (edited_old_ranges (tc_changes ch)) (resolver_new ch) (sels self);
     let self = self\<lparr>sels := ss, set_version := version (tc_after ch)\<rparr>;
     prior \<leftarrow> nth_opt (sels self) (primary self);
     let self = merge_sorted self prior;
     p \<leftarrow> nth_opt (sels self) (primary self);
     Some (head p, self) }"

lemma map_old_fresh:
  assumes "cursor_at (ops (tc_changes ch)) (rs_cursor r) (rs_last r)"
  obtains r' where "map_old ch r pos a = Some (fst (map_ref (ops (tc_changes ch)) pos a), r')"
    "cursor_at (ops (tc_changes ch)) (rs_cursor r') (rs_last r')"
proof -
  let ?os = "ops (tc_changes ch)"
  let ?c = "if pos < rs_last r then pos_cursor_new ?os else rs_cursor r"
  have "cursor_at ?os ?c pos" using assms cursor_at_new cursor_at_mono by auto
  then obtain c' where c': "map_cursor ?c pos a = Some (fst (map_ref ?os pos a), c')" "cursor_at ?os c' pos"
    by (rule map_cursor_at)
  then have "map_old ch r pos a = Some (fst (map_ref ?os pos a), \<lparr>rs_cursor = c', rs_last = pos\<rparr>)"
    by (simp add: map_old_def Let_def)
  with c'(2) that show thesis by simp
qed

definition resolver_ok :: "text_change \<Rightarrow> resolver \<Rightarrow> bool" where
  "resolver_ok ch r = cursor_at (ops (tc_changes ch)) (rs_cursor r) (rs_last r)"

lemma resolver_new_ok: "resolver_ok ch (resolver_new ch)"
  by (simp add: resolver_ok_def resolver_new_def cursor_at_new)

text \<open>Where an old offset ends up: mapped, then snapped to the cluster of the new text.\<close>

definition carried :: "segmentation \<Rightarrow> text_change \<Rightarrow> assoc \<Rightarrow> nat \<Rightarrow> nat" where
  "carried B ch a i = the (snap B (tc_after ch) (fst (map_ref (ops (tc_changes ch)) i a)))"

lemma snap_mono:
  assumes "seg_ok B" "0 < len_chars text" "i \<le> j" "snap B text i = Some x" "snap B text j = Some y"
  shows "x \<le> y"
proof -
  have t: "rope text \<noteq> []" using assms(2) by (auto simp: len_chars_def)
  let ?n = "length (rope text) - 1"
  obtain c where c: "snap_to_cluster B (rope text) i = Some c" "is_cluster B (rope text) c"
    "cl_start c \<le> min i ?n" "min i ?n < cl_end c"
    by (rule snap_to_cluster_Some [OF assms(1) t, of i])
  obtain d where d: "snap_to_cluster B (rope text) j = Some d" "is_cluster B (rope text) d"
    "cl_start d \<le> min j ?n" "min j ?n < cl_end d"
    by (rule snap_to_cluster_Some [OF assms(1) t, of j])
  have "min i ?n \<le> min j ?n" using assms(3) by simp
  then have "cl_start c < cl_end d" using c(3) d(4) by linarith
  then have "cl_start c \<le> cl_start d"
    using c(2) d(2) unfolding is_cluster_def by (metis leI)
  with assms(4,5) c(1) d(1) show ?thesis by (simp add: snap_def)
qed

lemma carried_props:
  assumes "seg_ok B" "0 < len_chars (tc_after ch)"
  shows "snap B (tc_after ch) (fst (map_ref (ops (tc_changes ch)) i a)) = Some (carried B ch a i)"
    and "is_start B (rope (tc_after ch)) (carried B ch a i)"
    and "i \<le> j \<Longrightarrow> carried B ch a i \<le> carried B ch a j"
proof -
  have s: "\<And>i. snap B (tc_after ch) (fst (map_ref (ops (tc_changes ch)) i a)) = Some (carried B ch a i) \<and>
      is_start B (rope (tc_after ch)) (carried B ch a i)"
  proof -
    fix i
    obtain x where "snap B (tc_after ch) (fst (map_ref (ops (tc_changes ch)) i a)) = Some x"
      "is_start B (rope (tc_after ch)) x"
      by (rule snap_total [OF assms, of "fst (map_ref (ops (tc_changes ch)) i a)"]) blast
    then show "snap B (tc_after ch) (fst (map_ref (ops (tc_changes ch)) i a)) = Some (carried B ch a i) \<and>
      is_start B (rope (tc_after ch)) (carried B ch a i)" by (simp add: carried_def)
  qed
  then show "snap B (tc_after ch) (fst (map_ref (ops (tc_changes ch)) i a)) = Some (carried B ch a i)"
    "is_start B (rope (tc_after ch)) (carried B ch a i)" by blast+
  show "i \<le> j \<Longrightarrow> carried B ch a i \<le> carried B ch a j"
    using snap_mono [OF assms map_ref_mono] s by blast
qed

lemma carry_eq:
  assumes "seg_ok B" "0 < len_chars (tc_after ch)" "resolver_ok ch r"
  obtains r' where "carry B ch r s a =
      Some (with_ends s (carried B ch a (sel_start s)) (carried B ch a (sel_last s)), r')"
    "resolver_ok ch r'"
proof -
  obtain r1 where r1: "map_old ch r (sel_start s) a =
      Some (fst (map_ref (ops (tc_changes ch)) (sel_start s) a), r1)" "resolver_ok ch r1"
    using map_old_fresh [OF assms(3) [unfolded resolver_ok_def], of "sel_start s" a]
    by (auto simp: resolver_ok_def)
  obtain r2 where r2: "map_old ch r1 (sel_last s) a =
      Some (fst (map_ref (ops (tc_changes ch)) (sel_last s) a), r2)" "resolver_ok ch r2"
    using map_old_fresh [OF r1(2) [unfolded resolver_ok_def], of "sel_last s" a]
    by (auto simp: resolver_ok_def)
  note c = carried_props(1) [OF assms(1,2)]
  have "carry B ch r s a =
      Some (with_ends s (carried B ch a (sel_start s)) (carried B ch a (sel_last s)), r2)"
    by (simp add: carry_def r1(1) r2(1) c)
  with r2(2) that show thesis by blast
qed

section \<open>Lines an edit touches\<close>

text \<open>Whether a replaced range touches the line from \<open>a\<close> up to \<open>b\<close>: it overlaps the line, or it is an
  insertion at its start or inside it.\<close>

definition touches_line :: "nat \<Rightarrow> nat \<Rightarrow> nat \<times> nat \<Rightarrow> bool" where
  "touches_line a b r = (fst r < b \<and> (if fst r = snd r then a \<le> snd r else a < snd r))"

fun ranges_apart :: "(nat \<times> nat) list \<Rightarrow> bool" where
  "ranges_apart [] = True"
| "ranges_apart [r] = (fst r \<le> snd r)"
| "ranges_apart (r # r' # rs) = (fst r \<le> snd r \<and> snd r < fst r' \<and> ranges_apart (r' # rs))"

lemma ranges_apart_Cons:
  "ranges_apart (r # rs) = (fst r \<le> snd r \<and> ranges_apart rs \<and> (rs \<noteq> [] \<longrightarrow> snd r < fst (hd rs)))"
  by (cases rs) auto

lemma ranges_apart_tail: "ranges_apart (r # rs) \<Longrightarrow> \<forall>q \<in> set rs. snd r < fst q"
proof (induction rs arbitrary: r)
  case (Cons q rs)
  then have q: "snd r < fst q" "fst q \<le> snd q" "ranges_apart (q # rs)" by (auto simp: ranges_apart_Cons)
  have "\<forall>p \<in> set rs. snd q < fst p" by (rule Cons.IH [OF q(3)])
  with q show ?case by auto
qed simp

lemma edited_old_ranges_apart: "ranges_apart (edited_old_ranges cs)"
proof -
  have "ranges_apart (map (\<lambda>r. (er_start r, er_end r)) rs) = apart rs" for rs
    by (induction rs rule: apart.induct) auto
  then show ?thesis
    using edited_regions_inv [of cs] by (auto simp: edited_old_ranges_def regions_inv_def)
qed

lemma drop_passed_suffix:
  assumes "ranges_apart edits"
  shows "ranges_apart (drop_passed a edits)" "\<forall>r \<in> set edits. r \<notin> set (drop_passed a edits) \<longrightarrow>
    (if fst r = snd r then snd r < a else snd r \<le> a)" "set (drop_passed a edits) \<subseteq> set edits"
proof -
  show "ranges_apart (drop_passed a edits)"
    using assms by (induction a edits rule: drop_passed.induct) (auto simp: ranges_apart_Cons)
  show "set (drop_passed a edits) \<subseteq> set edits"
    by (induction a edits rule: drop_passed.induct) auto
  show "\<forall>r \<in> set edits. r \<notin> set (drop_passed a edits) \<longrightarrow> (if fst r = snd r then snd r < a else snd r \<le> a)"
    by (induction a edits rule: drop_passed.induct) auto
qed

lemma drop_passed_first:
  assumes "ranges_apart edits" "a < b"
  shows "(case next_item (drop_passed a edits) of None \<Rightarrow> True | Some (s, _) \<Rightarrow> b \<le> s) \<longleftrightarrow>
    (\<forall>r \<in> set edits. \<not> touches_line a b r)"
  using assms
proof (induction a edits rule: drop_passed.induct)
  case (2 a s e edits)
  have ap: "ranges_apart edits" "s \<le> e" using 2(2) by (auto simp: ranges_apart_Cons)
  show ?case
  proof (cases "if s = e then e < a else e \<le> a")
    case True
    then have "\<not> touches_line a b (s, e)" by (auto simp: touches_line_def split: if_splits)
    with 2(1) [OF True ap(1) 2(3)] True show ?thesis by auto
  next
    case False
    then have t: "touches_line a b (s, e) \<longleftrightarrow> s < b" by (auto simp: touches_line_def split: if_splits)
    have "\<not> touches_line a b q" if "b \<le> s" "q \<in> set edits" for q
      using ranges_apart_tail [OF 2(2)] that ap(2) by (fastforce simp: touches_line_def)
    with False t show ?thesis by (auto simp: not_less)
  qed
qed simp


text \<open>The line holding an offset.\<close>

definition line_of :: "buffer_text \<Rightarrow> nat \<Rightarrow> nat" where
  "line_of text i = nl_count (take i (rope text))"

lemma line_of_facts:
  assumes "buffer_ok text" "i < len_chars text"
  shows "char_to_line text i = Some (line_of text i)" "line_of text i < nl_count (rope text)"
    "line_offset (rope text) (line_of text i) \<le> i" "i < line_offset (rope text) (Suc (line_of text i))"
proof -
  obtain l where l: "char_to_line text i = Some l" "l < nl_count (rope text)"
    "line_offset (rope text) l \<le> i" "i < line_offset (rope text) (Suc l)"
    using char_to_line_total [OF assms(1), of i] assms(2) by auto
  have "l = line_of text i"
    using char_to_line_between [OF l(2-4)] assms(2)
    by (simp add: char_to_ropey_line_def rope_char_to_line_def line_of_def len_chars_def)
  with l show "char_to_line text i = Some (line_of text i)" "line_of text i < nl_count (rope text)"
    "line_offset (rope text) (line_of text i) \<le> i" "i < line_offset (rope text) (Suc (line_of text i))"
    by simp_all
qed

lemma line_of_mono: "i \<le> j \<Longrightarrow> line_of text i \<le> line_of text j"
  by (simp add: line_of_def count_list_take_mono)

text \<open>No edit of a list touches the line holding an offset.\<close>

definition line_untouched :: "buffer_text \<Rightarrow> (nat \<times> nat) list \<Rightarrow> nat \<Rightarrow> bool" where
  "line_untouched text edits i = (\<forall>r \<in> set edits. \<not> touches_line
     (line_offset (rope text) (line_of text i)) (line_offset (rope text) (Suc (line_of text i))) r)"

definition edits_inv :: "(nat \<times> nat) list \<Rightarrow> nat \<Rightarrow> (nat \<times> nat) list \<Rightarrow> bool" where
  "edits_inv all a rest = (ranges_apart rest \<and> set rest \<subseteq> set all \<and>
     (\<forall>r \<in> set all. r \<notin> set rest \<longrightarrow> (if fst r = snd r then snd r < a else snd r \<le> a)))"

lemma leave_line_alone_ok:
  assumes "buffer_ok old" "h < len_chars old" "edits_inv all a rest"
    "a \<le> line_offset (rope old) (line_of old h)"
  obtains rest' where "leave_line_alone old rest h = Some (line_untouched old all h, rest')"
    "edits_inv all (line_offset (rope old) (line_of old h)) rest'"
proof -
  let ?l = "line_of old h"
  let ?s = "line_offset (rope old) ?l" and ?e = "line_offset (rope old) (Suc ?l)"
  let ?rest = "drop_passed ?s rest"
  note l = line_of_facts [OF assms(1,2)]
  have "?s < ?e" using l(3,4) by linarith
  note f = line_facts [OF l(2)]
  have r: "line_range (rope old) ?l = Some \<lparr>cr_start = ?s, cr_last = ?e - 1, cr_end = ?e\<rparr>"
    using l(2) f(1,2) by (simp add: line_range_def lines_range_def ropey_line_start_def
        line_start_char_def rope_line_to_char_def rope_len_lines_def)
  have ap: "ranges_apart rest" using assms(3) by (simp add: edits_inv_def)
  note d = drop_passed_suffix [OF ap, of ?s]
  have before: "if fst r = snd r then snd r < ?s else snd r \<le> ?s" if "r \<in> set all" "r \<notin> set rest" for r
    using assms(3,4) that by (auto simp: edits_inv_def split: if_splits)
  then have "\<not> touches_line ?s ?e r" if "r \<in> set all" "r \<notin> set rest" for r
    using that by (fastforce simp: touches_line_def split: if_splits)
  then have "(\<forall>r \<in> set rest. \<not> touches_line ?s ?e r) \<longleftrightarrow> line_untouched old all h"
    using assms(3) unfolding line_untouched_def edits_inv_def by blast
  with drop_passed_first [OF ap \<open>?s < ?e\<close>]
  have "leave_line_alone old rest h = Some (line_untouched old all h, ?rest)"
    by (simp add: leave_line_alone_def l(1) r Let_def cong: option.case_cong prod.case_cong)
  moreover have "edits_inv all ?s ?rest"
    using d before assms(3) unfolding edits_inv_def by (metis subsetD subset_trans)
  ultimately show thesis using that by blast
qed

section \<open>Translation\<close>

definition translated_sel :: "segmentation \<Rightarrow> text_change \<Rightarrow> selection \<Rightarrow> selection" where
  "translated_sel B ch s =
     with_ends (if line_untouched (tc_before ch) (edited_old_ranges (tc_changes ch)) (head s)
                then s else without_sticky s)
       (carried B ch After (sel_start s)) (carried B ch After (sel_last s))"

lemma translate_loop_eq:
  assumes "seg_ok B" "buffer_ok (tc_before ch)" "buffer_ok (tc_after ch)"
  shows "resolver_ok ch r \<Longrightarrow> sorted (map head ss) \<Longrightarrow> \<forall>s \<in> set ss. head s < len_chars (tc_before ch) \<Longrightarrow>
    edits_inv (edited_old_ranges (tc_changes ch)) a edits \<Longrightarrow>
    \<forall>s \<in> set ss. a \<le> line_offset (rope (tc_before ch)) (line_of (tc_before ch) (head s)) \<Longrightarrow>
    translate_loop B ch edits r ss = Some (map (translated_sel B ch) ss)"
proof (induction ss arbitrary: r a edits)
  case (Cons s ss)
  let ?old = "tc_before ch" and ?all = "edited_old_ranges (tc_changes ch)"
  have h: "head s < len_chars ?old" "a \<le> line_offset (rope ?old) (line_of ?old (head s))"
    using Cons.prems by auto
  obtain rest where rest: "leave_line_alone ?old edits (head s) = Some (line_untouched ?old ?all (head s), rest)"
    "edits_inv ?all (line_offset (rope ?old) (line_of ?old (head s))) rest"
    by (rule leave_line_alone_ok [OF assms(2) h(1) Cons.prems(4) h(2)])
  let ?s = "if line_untouched ?old ?all (head s) then s else without_sticky s"
  have pos: "0 < len_chars (tc_after ch)" using assms(3) by simp
  obtain r' where r': "carry B ch r ?s After = Some (translated_sel B ch s, r')" "resolver_ok ch r'"
    by (rule carry_eq [OF assms(1) pos Cons.prems(1), of ?s After]) (auto simp: translated_sel_def)
  have "line_offset (rope ?old) (line_of ?old (head s)) \<le> line_offset (rope ?old) (line_of ?old (head q))"
    if q: "q \<in> set ss" for q
  proof (rule line_offset_mono)
    show "line_of ?old (head s) \<le> line_of ?old (head q)"
      using Cons.prems(2) q by (auto intro: line_of_mono)
    have "head q < len_chars ?old" using Cons.prems(3) q by simp
    from line_of_facts(2) [OF assms(2) this] show "line_of ?old (head q) \<le> nl_count (rope ?old)" by simp
  qed
  then have "translate_loop B ch rest r' ss = Some (map (translated_sel B ch) ss)"
    using Cons.IH [OF r'(2) _ _ rest(2)] Cons.prems(2,3) by simp
  with rest(1) r'(1) show ?case by simp
qed simp

lemma merge_ref_sticky: "s \<in> set (merge_ref kept ss) \<Longrightarrow> sticky s = None \<or> s \<in> set (kept # ss)"
proof (induction kept ss rule: merge_ref.induct)
  case (2 kept s' ss)
  then show ?case by (fastforce simp: join_sel_def split: if_splits)
qed simp

lemma sels_apart_heads: "sels_apart ss \<Longrightarrow> sorted (map head ss)"
proof (induction ss rule: sels_apart.induct)
  case (3 s s' ss)
  then have "sel_last s < sel_start s'" by simp
  then have "head s \<le> head s'" by (auto simp: sel_last_def sel_start_def)
  with 3 show ?case by (auto intro: order_trans)
qed auto

lemma with_ends_anchor_head:
  "{anchor (with_ends s a b), head (with_ends s a b)} = {a, b}"
  by (auto simp: with_ends_def Let_def split: facing.splits)

lemma positions_fit_ends:
  "positions_fit B text ss \<longleftrightarrow> sels_apart ss \<and> (\<forall>i \<in> sel_ends ss. is_start B (rope text) i)"
  unfolding positions_fit_def sel_fits_def sel_ends_anchor_head by blast

lemma translate_ok:
  assumes "seg_ok B" "buffer_ok (tc_before ch)" "buffer_ok (tc_after ch)"
    and "set_ok self" "set_version self = version (tc_before ch)"
    and "positions_fit B (tc_before ch) (sels self)"
  obtains S where "translate B self ch = Some (head (sels S ! primary S), S)"
    "set_version S = version (tc_after ch)" "set_ok S" "positions_fit B (tc_after ch) (sels S)"
    "spans (sels S) = spans (map (translated_sel B ch) (sels self))"
    "holds (translated_sel B ch (sels self ! primary self)) (sels S ! primary S)"
    "\<And>s. s \<in> set (sels S) \<Longrightarrow> sticky s = None \<or> s \<in> translated_sel B ch ` set (sels self)"
proof -
  let ?ss = "map (translated_sel B ch) (sels self)"
  let ?self = "self\<lparr>sels := ?ss, set_version := version (tc_after ch)\<rparr>"
  let ?p = "?ss ! primary self"
  let ?S = "merge_sorted ?self ?p"
  have ok: "sels self \<noteq> []" "sels_apart (sels self)" "primary self < length (sels self)"
    using assms(4) by (simp_all add: set_ok_def)
  have pos: "0 < len_chars (tc_before ch)" "0 < len_chars (tc_after ch)" using assms(2,3) by simp_all
  have fits: "assert_fits B (tc_before ch) self = Some ()"
    using assert_fits_iff [OF assms(1) pos(1)] assms(5,6) by simp
  have loop: "translate_loop B ch (edited_old_ranges (tc_changes ch)) (resolver_new ch) (sels self) = Some ?ss"
  proof (rule translate_loop_eq [OF assms(1-3) resolver_new_ok])
    show "sorted (map head (sels self))" by (rule sels_apart_heads [OF ok(2)])
    show "\<forall>s \<in> set (sels self). head s < len_chars (tc_before ch)"
      using assms(6) by (auto simp: positions_fit_def sel_fits_def is_start_def len_chars_def)
    show "edits_inv (edited_old_ranges (tc_changes ch)) 0 (edited_old_ranges (tc_changes ch))"
      by (simp add: edits_inv_def edited_old_ranges_apart)
  qed simp
  have ends: "sel_start (translated_sel B ch s) = carried B ch After (sel_start s)"
    "sel_last (translated_sel B ch s) = carried B ch After (sel_last s)" for s
    using carried_props(3) [OF assms(1) pos(2) sel_start_le_last [of s]] by (simp_all add: translated_sel_def)
  have "sorted (map sel_start ?ss)"
  proof -
    have "sorted_wrt (\<lambda>x y. sel_start x \<le> sel_start y) (sels self)"
      using sels_apart_sorted [OF ok(2)] by (simp add: sorted_wrt_map)
    then have "sorted_wrt (\<lambda>x y. carried B ch After (sel_start x) \<le> carried B ch After (sel_start y)) (sels self)"
      by (rule sorted_wrt_mono_rel [rotated]) (rule carried_props(3) [OF assms(1) pos(2)])
    then show ?thesis by (simp add: sorted_wrt_map ends comp_def)
  qed
  then have s: "sels ?self \<noteq> []" "sorted (map sel_start (sels ?self))" using ok(1) by simp_all
  note m = merge_sorted_ok [OF s, of ?p] and ref = merge_sorted_ref [OF s, of ?p]
  have "sel_ends ?ss \<subseteq> carried B ch After ` UNIV" by (auto simp: sel_ends_def ends)
  then have "\<forall>i \<in> sel_ends (sels ?S). is_start B (rope (tc_after ch)) i"
    using m(3) carried_props(2) [OF assms(1) pos(2)] by auto
  then have fit: "positions_fit B (tc_after ch) (sels ?S)"
    using m(1) by (simp add: positions_fit_ends set_ok_def)
  have "translate B self ch = Some (head (sels ?S ! primary ?S), ?S)"
    using fits loop ok(3) ref(2) by (simp add: translate_def Let_def nth_opt_def)
  moreover have "holds (translated_sel B ch (sels self ! primary self)) (sels ?S ! primary ?S)"
    using ref(3) ok(3) by simp
  moreover have "sticky x = None \<or> x \<in> translated_sel B ch ` set (sels self)" if "x \<in> set (sels ?S)" for x
    using merge_ref_sticky [of x "hd ?ss" "tl ?ss"] that ref(1) ok(1) by auto
  ultimately show thesis using that [of ?S] m(1,2) ref(4) fit by simp
qed

section \<open>Sets for a text, and snapshots\<close>

definition selection_set_new ::
  "segmentation \<Rightarrow> buffer_text \<Rightarrow> selection list \<Rightarrow> nat \<Rightarrow> selection_set option"
where
  "selection_set_new B text ss p = do {
     S \<leftarrow> from_parts ss p (version text);
     assert_positions B text S;
     Some S }"

definition set_cursor :: "segmentation \<Rightarrow> buffer_text \<Rightarrow> nat \<Rightarrow> selection_set option" where
  "set_cursor B text at = selection_set_new B text [sel_cursor at] 0"

definition at_text_start :: "segmentation \<Rightarrow> buffer_text \<Rightarrow> selection_set option" where
  "at_text_start B text = do {
     first \<leftarrow> first_cluster (rope text);
     set_cursor B text first }"

record sels_snapshot =
  snap_ranges :: "(nat \<times> nat) list"
  snap_primary :: nat

definition snapshot_of :: "selection_set \<Rightarrow> sels_snapshot" where
  "snapshot_of S = \<lparr>snap_ranges = map (\<lambda>s. (anchor s, head s)) (sels S), snap_primary = primary S\<rparr>"

text \<open>The closure \<open>at\<close> of \<open>SelectionsSnapshot::on\<close>: a saved offset as a cluster start.\<close>

definition snapshot_at :: "segmentation \<Rightarrow> buffer_text \<Rightarrow> nat \<Rightarrow> nat option option" where
  "snapshot_at B text offset =
     (if offset < len_chars text
      then do {
        at \<leftarrow> snap B text offset;
        Some (if at = offset then Some at else None) }
      else Some None)"

fun snapshot_collect ::
  "segmentation \<Rightarrow> buffer_text \<Rightarrow> (nat \<times> nat) list \<Rightarrow> selection list option option"
where
  "snapshot_collect B text [] = Some (Some [])"
| "snapshot_collect B text ((a, h) # rs) = do {
     a' \<leftarrow> snapshot_at B text a;
     case a' of None \<Rightarrow> Some None
     | Some a' \<Rightarrow> do {
         h' \<leftarrow> snapshot_at B text h;
         case h' of None \<Rightarrow> Some None
         | Some h' \<Rightarrow> do {
             ss \<leftarrow> snapshot_collect B text rs;
             Some (map_option (\<lambda>ss. sel_new a' h' # ss) ss) } } }"

definition snapshot_on ::
  "segmentation \<Rightarrow> sels_snapshot \<Rightarrow> buffer_text \<Rightarrow> selection_set option option"
where
  "snapshot_on B snapshot text =
     (if length (snap_ranges snapshot) \<le> snap_primary snapshot then Some None
      else do {
        ss \<leftarrow> snapshot_collect B text (snap_ranges snapshot);
        case ss of None \<Rightarrow> Some None
        | Some ss \<Rightarrow> map_option Some (selection_set_new B text ss (snap_primary snapshot)) })"

lemma selection_set_new_ok:
  assumes "seg_ok B" "0 < len_chars text" "ss \<noteq> []" "p < length ss"
    "\<forall>s \<in> set ss. sel_fits B text s"
  obtains S where "selection_set_new B text ss p = Some S" "set_ok S" "set_version S = version text"
    "positions_fit B text (sels S)" "spans (sels S) = spans ss"
    "holds (ss ! p) (sels S ! primary S)" "sels_apart ss \<Longrightarrow> sels S = ss \<and> primary S = p"
proof -
  obtain S where S: "from_parts ss p (version text) = Some S" "set_ok S" "spans (sels S) = spans ss"
    "sel_ends (sels S) \<subseteq> sel_ends ss" "set_version S = version text"
    "holds (ss ! p) (sels S ! primary S)" "sels_apart ss \<Longrightarrow> sels S = ss \<and> primary S = p"
    by (rule from_parts_ok [OF assms(3,4), of "version text"]) blast
  have "\<forall>i \<in> sel_ends ss. is_start B (rope text) i"
    using assms(5) unfolding sel_fits_def sel_ends_anchor_head by blast
  then have fit: "positions_fit B text (sels S)"
    using S(2,4) by (auto simp: positions_fit_ends set_ok_def)
  with assert_positions_iff [OF assms(1,2), of S] S show thesis
    by (intro that [of S]) (simp_all add: selection_set_new_def)
qed

lemma snapshot_at_eq:
  assumes "seg_ok B" "0 < len_chars text"
  shows "snapshot_at B text i = Some (if is_start B (rope text) i then Some i else None)"
proof -
  obtain j where j: "snap B text i = Some j" "is_start B (rope text) j"
    "is_start B (rope text) i \<Longrightarrow> j = i" by (rule snap_total [OF assms, of i]) blast
  then show ?thesis by (auto simp: snapshot_at_def is_start_def len_chars_def)
qed

lemma snapshot_collect_eq:
  assumes "seg_ok B" "0 < len_chars text"
  shows "snapshot_collect B text rs = Some
     (if \<forall>(a, h) \<in> set rs. is_start B (rope text) a \<and> is_start B (rope text) h
      then Some (map (\<lambda>(a, h). sel_new a h) rs) else None)"
proof (induction rs)
  case (Cons r rs)
  obtain a h where r: "r = (a, h)" by (cases r)
  show ?case using Cons
    by (cases "is_start B (rope text) a"; cases "is_start B (rope text) h")
       (simp_all add: r snapshot_at_eq [OF assms])
qed simp

text \<open>What a snapshot needs of a text, and what it then gives.\<close>

definition snap_fits :: "segmentation \<Rightarrow> sels_snapshot \<Rightarrow> ustring \<Rightarrow> bool" where
  "snap_fits B sn t \<longleftrightarrow> snap_primary sn < length (snap_ranges sn) \<and>
     (\<forall>(a, h) \<in> set (snap_ranges sn). is_start B t a \<and> is_start B t h)"

definition snap_selections :: "sels_snapshot \<Rightarrow> selection list" where
  "snap_selections sn = map (\<lambda>(a, h). sel_new a h) (snap_ranges sn)"

lemma snapshot_on_cases:
  assumes "seg_ok B" "buffer_ok text"
  obtains "snapshot_on B sn text = Some None" "\<not> snap_fits B sn (rope text)"
    | S where "snapshot_on B sn text = Some (Some S)" "snap_fits B sn (rope text)" "set_ok S"
        "set_version S = version text" "positions_fit B text (sels S)"
        "sels_apart (snap_selections sn) \<Longrightarrow> sels S = snap_selections sn \<and> primary S = snap_primary sn"
proof -
  have pos: "0 < len_chars text" using assms(2) by simp
  note collect = snapshot_collect_eq [OF assms(1) pos]
  show thesis
  proof (cases "snap_fits B sn (rope text)")
    case False
    then show thesis by (intro that(1)) (auto simp: snapshot_on_def collect snap_fits_def)
  next
    case True
    then have ss: "snap_selections sn \<noteq> []" "snap_primary sn < length (snap_selections sn)"
      "\<forall>s \<in> set (snap_selections sn). sel_fits B text s"
      by (auto simp: sel_fits_def sel_new_def snap_fits_def snap_selections_def)
    obtain S where S: "selection_set_new B text (snap_selections sn) (snap_primary sn) = Some S" "set_ok S"
      "set_version S = version text" "positions_fit B text (sels S)"
      "sels_apart (snap_selections sn) \<Longrightarrow> sels S = snap_selections sn \<and> primary S = snap_primary sn"
      by (rule selection_set_new_ok [OF assms(1) pos ss]) blast
    moreover have "snapshot_on B sn text = Some (Some S)"
      using True S(1) by (simp add: snapshot_on_def collect snap_fits_def not_le snap_selections_def)
    ultimately show thesis using that(2) [OF _ True] by blast
  qed
qed

lemma sels_apart_without_sticky: "sels_apart (map without_sticky ss) = sels_apart ss"
  by (induction ss rule: sels_apart.induct) auto

text \<open>The snapshot of a fitting set, on any text with the same chars.\<close>

lemma snap_fits_of:
  assumes "set_ok S" "positions_fit B text (sels S)"
  shows "snap_fits B (snapshot_of S) (rope text)"
proof -
  have "snap_primary (snapshot_of S) < length (snap_ranges (snapshot_of S))"
    using assms(1) by (simp add: snapshot_of_def set_ok_def)
  moreover have "\<forall>(a, h) \<in> set (snap_ranges (snapshot_of S)). is_start B (rope text) a \<and> is_start B (rope text) h"
    using assms(2) by (auto simp: snapshot_of_def positions_fit_def sel_fits_def)
  ultimately show ?thesis by (simp add: snap_fits_def)
qed

lemma snap_selections_of:
  assumes "set_ok S"
  shows "snap_selections (snapshot_of S) = map without_sticky (sels S)" "sels_apart (snap_selections (snapshot_of S))"
proof -
  show m: "snap_selections (snapshot_of S) = map without_sticky (sels S)"
    by (simp add: snapshot_of_def sel_new_def without_sticky_def snap_selections_def)
  show "sels_apart (snap_selections (snapshot_of S))"
    unfolding m using assms by (simp add: set_ok_def sels_apart_without_sticky)
qed

lemma snapshot_of_on:
  assumes "seg_ok B" "buffer_ok text" "set_ok S" "positions_fit B text' (sels S)" "rope text' = rope text"
  obtains S' where "snapshot_on B (snapshot_of S) text = Some (Some S')" "set_version S' = version text" "set_ok S'"
    "positions_fit B text (sels S')" "sels S' = map without_sticky (sels S)" "primary S' = primary S"
proof -
  have f: "snap_fits B (snapshot_of S) (rope text)" using snap_fits_of [OF assms(3,4)] assms(5) by simp
  show thesis
    by (rule snapshot_on_cases [OF assms(1,2), of "snapshot_of S"])
      (use f snap_selections_of [OF assms(3)] that in \<open>auto simp: snapshot_of_def\<close>)
qed

section \<open>The edit state\<close>

record edit_state =
  es_text :: buffer_text
  es_sels :: selection_set

definition state_bind :: "segmentation \<Rightarrow> buffer_text \<Rightarrow> selection_set \<Rightarrow> edit_state option" where
  "state_bind B text S = do { assert_fits B text S; Some \<lparr>es_text = text, es_sels = S\<rparr> }"

definition from_set :: "segmentation \<Rightarrow> buffer_text \<Rightarrow> selection_set \<Rightarrow> edit_state option" where
  "from_set B text S = do { assert_positions B text S; Some \<lparr>es_text = text, es_sels = S\<rparr> }"

definition from_text ::
  "segmentation \<Rightarrow> buffer_text \<Rightarrow> selection list \<Rightarrow> nat \<Rightarrow> edit_state option"
where
  "from_text B text ss p = do {
     S \<leftarrow> selection_set_new B text ss p;
     Some \<lparr>es_text = text, es_sels = S\<rparr> }"

definition with_selections ::
  "segmentation \<Rightarrow> edit_state \<Rightarrow> selection list \<Rightarrow> nat \<Rightarrow> edit_state option"
where
  "with_selections B st ss p = from_text B (es_text st) ss p"

text \<open>One selection as a command sees it.\<close>

record selection_view =
  sv_text :: buffer_text
  sv_sel :: selection
  sv_index :: nat
  sv_primary :: bool

definition state_views :: "edit_state \<Rightarrow> selection_view list" where
  "state_views st = map (\<lambda>i. \<lparr>sv_text = es_text st, sv_sel = sels (es_sels st) ! i, sv_index = i,
     sv_primary = (i = primary (es_sels st))\<rparr>) [0..<length (sels (es_sels st))]"

definition state_map ::
  "segmentation \<Rightarrow> edit_state \<Rightarrow> (selection_view \<Rightarrow> selection option) \<Rightarrow> edit_state option"
where
  "state_map B st f = do {
     ss \<leftarrow> those (map f (state_views st));
     with_selections B st ss (primary (es_sels st)) }"

text \<open>The loop of \<open>flat_map\<close>: the selections so far and the primary, once it is known.\<close>

fun flat_map_loop ::
  "(selection_view \<Rightarrow> selection list option) \<Rightarrow> selection_view list \<Rightarrow> selection list \<Rightarrow> nat option \<Rightarrow>
   (selection list \<times> nat option) option"
where
  "flat_map_loop f [] acc p = Some (acc, p)"
| "flat_map_loop f (v # vs) acc p = do {
     new \<leftarrow> f v;
     flat_map_loop f vs (acc @ new)
       (if sv_primary v \<and> length acc < length (acc @ new) then Some (length acc) else p) }"

definition flat_map ::
  "segmentation \<Rightarrow> edit_state \<Rightarrow> (selection_view \<Rightarrow> selection list option) \<Rightarrow> edit_state option"
where
  "flat_map B st f = do {
     (ss, p) \<leftarrow> flat_map_loop f (state_views st) [] None;
     with_selections B st ss (case p of Some p \<Rightarrow> p | None \<Rightarrow> 0) }"

definition edit_parts ::
  "segmentation \<Rightarrow> edit_state \<Rightarrow> (selection list \<Rightarrow> nat \<Rightarrow> (selection list \<times> nat) option) \<Rightarrow> edit_state option"
where
  "edit_parts B st f = do {
     (ss, p) \<leftarrow> f (sels (es_sels st)) (primary (es_sels st));
     from_text B (es_text st) ss p }"

definition replace_primary :: "segmentation \<Rightarrow> edit_state \<Rightarrow> selection \<Rightarrow> edit_state option" where
  "replace_primary B st s =
     edit_parts B st (\<lambda>ss p. if p < length ss then Some (ss[p := s], p) else None)"

definition keep_primary :: "segmentation \<Rightarrow> edit_state \<Rightarrow> edit_state option" where
  "keep_primary B st = do {
     s \<leftarrow> primary_selection (es_sels st);
     with_selections B st [s] 0 }"

definition state_remove :: "segmentation \<Rightarrow> edit_state \<Rightarrow> nat \<Rightarrow> edit_state option" where
  "state_remove B st idx = do {
     let len = length (sels (es_sels st));
     ensure (idx < len);
     if len = 1 then Some st
     else edit_parts B st (\<lambda>ss p.
       let ss = take idx ss @ drop (idx + 1) ss
       in Some (ss, if idx < p then p - 1 else if idx = p then idx mod length ss else p)) }"

definition cycle_primary :: "segmentation \<Rightarrow> edit_state \<Rightarrow> int \<Rightarrow> edit_state option" where
  "cycle_primary B st delta =
     edit_parts B st (\<lambda>ss p. Some (ss, nat ((int p + delta) mod int (length ss))))"

text \<open>The invariant of the pair.\<close>

definition state_ok :: "segmentation \<Rightarrow> edit_state \<Rightarrow> bool" where
  "state_ok B st = (buffer_ok (es_text st) \<and> set_ok (es_sels st) \<and>
     set_version (es_sels st) = version (es_text st) \<and>
     positions_fit B (es_text st) (sels (es_sels st)))"

lemma from_text_ok:
  assumes "seg_ok B" "buffer_ok text" "ss \<noteq> []" "p < length ss" "\<forall>s \<in> set ss. sel_fits B text s"
  obtains st where "from_text B text ss p = Some st" "state_ok B st" "es_text st = text"
    "spans (sels (es_sels st)) = spans ss"
    "holds (ss ! p) (sels (es_sels st) ! primary (es_sels st))"
    "sels_apart ss \<Longrightarrow> sels (es_sels st) = ss \<and> primary (es_sels st) = p"
proof -
  have "0 < len_chars text" using assms(2) by simp
  from selection_set_new_ok [OF assms(1) this assms(3-5)] obtain S where
    "selection_set_new B text ss p = Some S" "set_ok S" "set_version S = version text"
    "positions_fit B text (sels S)" "spans (sels S) = spans ss"
    "holds (ss ! p) (sels S ! primary S)" "sels_apart ss \<longrightarrow> sels S = ss \<and> primary S = p" by metis
  then show thesis
    by (intro that [of "\<lparr>es_text = text, es_sels = S\<rparr>"])
       (use assms(2) in \<open>simp_all add: from_text_def state_ok_def\<close>)
qed

lemma state_okD:
  assumes "state_ok B st"
  shows "buffer_ok (es_text st)" "sels (es_sels st) \<noteq> []" "sels_apart (sels (es_sels st))"
    "primary (es_sels st) < length (sels (es_sels st))"
    "\<forall>s \<in> set (sels (es_sels st)). sel_fits B (es_text st) s"
    "set_version (es_sels st) = version (es_text st)"
  using assms by (auto simp: state_ok_def set_ok_def positions_fit_def)

lemma sels_apart_remove:
  "sels_apart ss \<Longrightarrow> sels_apart (take i ss @ drop (Suc i) ss)"
proof (induction ss arbitrary: i)
  case (Cons s ss)
  show ?case
  proof (cases i)
    case 0
    with Cons show ?thesis by (simp add: sels_apart_Cons)
  next
    case (Suc j)
    have "sel_last s < sel_start (hd (take j ss @ drop (Suc j) ss))" if "take j ss @ drop (Suc j) ss \<noteq> []"
    proof -
      have "hd (take j ss @ drop (Suc j) ss) \<in> set (take j ss @ drop (Suc j) ss)" using that by (rule hd_in_set)
      then have "hd (take j ss @ drop (Suc j) ss) \<in> set ss" by (auto dest: in_set_takeD in_set_dropD)
      then obtain k where "k < length ss" "ss ! k = hd (take j ss @ drop (Suc j) ss)"
        by (auto simp: in_set_conv_nth)
      with sels_apart_distinct [OF Cons.prems, of 0 "Suc k"] show ?thesis by simp
    qed
    with Suc Cons show ?thesis by (auto simp: sels_apart_Cons)
  qed
qed simp

lemma flat_map_loop_Some:
  assumes "flat_map_loop f vs acc p = Some (ss, q)"
    "\<forall>v \<in> set vs. \<forall>new. f v = Some new \<longrightarrow> (\<forall>s \<in> set new. P s)" "\<forall>s \<in> set acc. P s"
    "\<forall>i. p = Some i \<longrightarrow> i < length acc"
  shows "(\<forall>s \<in> set ss. P s) \<and> (\<forall>i. q = Some i \<longrightarrow> i < length ss)"
  using assms
proof (induction vs arbitrary: acc p)
  case (Cons v vs)
  then obtain new where n: "f v = Some new" by (auto simp: bind_eq_Some_conv)
  show ?case
    by (rule Cons.IH [of "acc @ new"
          "if sv_primary v \<and> length acc < length (acc @ new) then Some (length acc) else p"])
       (use Cons.prems n in \<open>auto split: if_splits simp: trans_less_add1\<close>)
qed simp

lemma edit_parts_same:
  assumes "seg_ok B" "state_ok B st" "f (sels (es_sels st)) (primary (es_sels st)) = Some (ss, p)"
    "ss \<noteq> []" "p < length ss" "sels_apart ss" "set ss \<subseteq> set (sels (es_sels st))"
  obtains st' where "edit_parts B st f = Some st'" "state_ok B st'" "es_text st' = es_text st"
    "sels (es_sels st') = ss" "primary (es_sels st') = p"
proof -
  note ok = state_okD [OF assms(2)]
  have fits: "\<forall>s \<in> set ss. sel_fits B (es_text st) s" using ok(5) assms(7) by blast
  obtain st' where "from_text B (es_text st) ss p = Some st'" "state_ok B st'" "es_text st' = es_text st"
    "sels_apart ss \<Longrightarrow> sels (es_sels st') = ss \<and> primary (es_sels st') = p"
    by (rule from_text_ok [OF assms(1) ok(1) assms(4,5) fits]) blast
  with assms(3,6) that show thesis by (simp add: edit_parts_def)
qed

lemma state_views_props:
  "v \<in> set (state_views st) \<Longrightarrow> sv_sel v \<in> set (sels (es_sels st)) \<and> sv_text v = es_text st"
  "length (state_views st) = length (sels (es_sels st))"
  "map sv_sel (state_views st) = sels (es_sels st)"
proof -
  show "length (state_views st) = length (sels (es_sels st))" by (simp add: state_views_def)
  show "map sv_sel (state_views st) = sels (es_sels st)"
    by (rule nth_equalityI) (simp_all add: state_views_def)
qed (auto simp: state_views_def)

lemma those_Some: "those xs = Some ys \<longleftrightarrow> xs = map Some ys"
proof (induction xs arbitrary: ys)
  case (Cons x xs)
  show ?case by (cases x; cases ys) (auto simp: Cons.IH)
qed auto

section \<open>Properties\<close>

text \<open>Checking a selection set against its text never panics, and accepts it exactly when the
  versions match, every anchor and head is the start of a cluster of the text, and the selections
  are in order without sharing a cluster.\<close>

theorem check_fit_decides:
  assumes "seg_ok B" "buffer_ok text"
  shows "\<exists>r. check_fit B text S = Some r \<and>
    (r = Inr () \<longleftrightarrow> set_version S = version text \<and>
       (\<forall>s \<in> set (sels S). is_start B (rope text) (anchor s) \<and> is_start B (rope text) (head s)) \<and>
       sels_apart (sels S)) \<and>
    (r = Inl VersionMismatch \<longleftrightarrow> set_version S \<noteq> version text)"
proof -
  have "check_loop B text p i ss \<noteq> Some (Inl VersionMismatch)" for p i ss
  proof (induction ss arbitrary: p i)
    case (Cons s ss)
    have "sel_violation B text i s \<noteq> Some VersionMismatch" by (simp add: sel_violation_def)
    then show ?case using Cons assms(2)
      by (auto simp: check_selection_eq [OF assms(1)] split: option.splits)
  qed simp
  then have "check_positions B text S \<noteq> Some (Inl VersionMismatch)" by (simp add: check_positions_def)
  moreover obtain r where "check_positions B text S = Some r" "r = Inr () \<longleftrightarrow> positions_fit B text (sels S)"
    by (rule check_positions_iff [OF assms(1), of "text" S]) (use assms(2) in simp)
  ultimately show ?thesis by (auto simp: check_fit_def positions_fit_def sel_fits_def)
qed

text \<open>C10: Carrying a fitting selection set through a change of its text never panics: the result fits
  the new text, spans where the old selections' ends map and snap to, its primary holds the old
  primary's image and its head is returned; and a selection keeps a sticky column only when no
  edited region touches the line of the head it had.\<close>

theorem translate_fits:
  assumes "seg_ok B" "buffer_ok old" "buffer_ok new" "text_change_new old new cs = Some ch"
    and "set_ok S" "assert_fits B old S = Some ()"
  shows "\<exists>S'. translate B S ch = Some (head (sels S' ! primary S'), S') \<and> set_ok S' \<and>
     assert_fits B new S' = Some () \<and>
     spans (sels S') = (\<Union>s \<in> set (sels S).
        {carried B ch After (sel_start s)..carried B ch After (sel_last s)}) \<and>
     sel_start (sels S' ! primary S') \<le> carried B ch After (sel_start (sels S ! primary S)) \<and>
     carried B ch After (sel_last (sels S ! primary S)) \<le> sel_last (sels S' ! primary S') \<and>
     (\<forall>s' \<in> set (sels S'). sticky s' = None \<or> (\<exists>s \<in> set (sels S). sticky s' = sticky s \<and>
        line_untouched old (edited_old_ranges cs) (head s) \<and>
        sel_start s' = carried B ch After (sel_start s) \<and> sel_last s' = carried B ch After (sel_last s)))"
proof -
  have ch: "tc_before ch = old" "tc_after ch = new" "tc_changes ch = cs"
    using assms(4) by (auto simp: text_change_new_def split: if_splits)
  have pos: "0 < len_chars old" "0 < len_chars new" using assms(2,3) by simp_all
  have fit: "set_version S = version (tc_before ch)" "positions_fit B (tc_before ch) (sels S)"
    using assms(6) assert_fits_iff [OF assms(1) pos(1)] ch by simp_all
  have ok: "buffer_ok (tc_before ch)" "buffer_ok (tc_after ch)" using assms(2,3) ch by simp_all
  obtain S' where
    S': "translate B S ch = Some (head (sels S' ! primary S'), S')"
    "set_version S' = version (tc_after ch)" "set_ok S'" "positions_fit B (tc_after ch) (sels S')"
    "spans (sels S') = spans (map (translated_sel B ch) (sels S))"
    "holds (translated_sel B ch (sels S ! primary S)) (sels S' ! primary S')"
    "\<And>s. s \<in> set (sels S') \<Longrightarrow> sticky s = None \<or> s \<in> translated_sel B ch ` set (sels S)"
    by (rule translate_ok [OF assms(1) ok assms(5) fit]) blast
  have ends: "sel_start (translated_sel B ch s) = carried B ch After (sel_start s)"
    "sel_last (translated_sel B ch s) = carried B ch After (sel_last s)" for s
    using carried_props(3) [OF assms(1), of ch "sel_start s" "sel_last s"] pos(2) ch
    by (simp_all add: translated_sel_def)
  have st: "sticky (translated_sel B ch s) = None \<or> sticky (translated_sel B ch s) = sticky s \<and>
      line_untouched old (edited_old_ranges cs) (head s)" for s
    by (simp add: translated_sel_def ch)
  have "spans (sels S') = (\<Union>s \<in> set (sels S).
      {carried B ch After (sel_start s)..carried B ch After (sel_last s)})"
    using S'(5) by (simp add: spans_def ends)
  moreover have "assert_fits B new S' = Some ()"
    using assert_fits_iff [OF assms(1) pos(2)] S'(2,4) ch by simp
  moreover have "\<forall>s' \<in> set (sels S'). sticky s' = None \<or> (\<exists>s \<in> set (sels S). sticky s' = sticky s \<and>
        line_untouched old (edited_old_ranges cs) (head s) \<and>
        sel_start s' = carried B ch After (sel_start s) \<and> sel_last s' = carried B ch After (sel_last s))"
  proof
    fix s' assume s': "s' \<in> set (sels S')"
    show "sticky s' = None \<or> (\<exists>s \<in> set (sels S). sticky s' = sticky s \<and>
        line_untouched old (edited_old_ranges cs) (head s) \<and>
        sel_start s' = carried B ch After (sel_start s) \<and> sel_last s' = carried B ch After (sel_last s))"
    proof (cases "sticky s' = None")
      case False
      with S'(7) [OF s'] obtain s where s: "s \<in> set (sels S)" "s' = translated_sel B ch s" by auto
      with st [of s] ends [of s] False show ?thesis by auto
    qed simp
  qed
  moreover have "sel_start (sels S' ! primary S') \<le> carried B ch After (sel_start (sels S ! primary S))"
    "carried B ch After (sel_last (sels S ! primary S)) \<le> sel_last (sels S' ! primary S')"
    using S'(6) ends by (simp_all add: holds_def)
  ultimately show ?thesis using S'(1,3) by blast
qed

text \<open>A snapshot taken of a set that fits a text rebuilds that set on it, sticky columns aside; on
  any text, a snapshot is refused exactly when its primary is out of range or an end starts no
  cluster, and otherwise gives a set that fits.\<close>

theorem snapshot_roundtrip:
  assumes "seg_ok B" "buffer_ok text"
  shows "(set_ok S \<and> assert_fits B text S = Some () \<longrightarrow>
       (\<exists>S'. snapshot_on B (snapshot_of S) text = Some (Some S') \<and> eq_ignoring_sticky S S')) \<and>
     (\<exists>r. snapshot_on B sn text = Some r \<and>
       (r = None \<longleftrightarrow> length (snap_ranges sn) \<le> snap_primary sn \<or>
          \<not> (\<forall>(a, h) \<in> set (snap_ranges sn). is_start B (rope text) a \<and> is_start B (rope text) h)) \<and>
       (\<forall>S'. r = Some S' \<longrightarrow> set_ok S' \<and> assert_fits B text S' = Some ()))"
proof -
  have pos: "0 < len_chars text" using assms(2) by simp
  have "\<exists>S'. snapshot_on B (snapshot_of S) text = Some (Some S') \<and> eq_ignoring_sticky S S'"
    if s: "set_ok S" "assert_fits B text S = Some ()"
  proof -
    have fit: "positions_fit B text (sels S)" "set_version S = version text"
      using s(2) assert_fits_iff [OF assms(1) pos] by simp_all
    obtain S' where S': "snapshot_on B (snapshot_of S) text = Some (Some S')" "set_version S' = version text"
      "sels S' = map without_sticky (sels S)" "primary S' = primary S"
      by (rule snapshot_of_on [OF assms s(1) fit(1) refl])
    have "map without_sticky (map without_sticky (sels S)) = map without_sticky (sels S)"
      by (simp add: without_sticky_def)
    with S' fit(2) show ?thesis by (simp add: eq_ignoring_sticky_def)
  qed
  moreover have "\<exists>r. snapshot_on B sn text = Some r \<and>
       (r = None \<longleftrightarrow> length (snap_ranges sn) \<le> snap_primary sn \<or>
          \<not> (\<forall>(a, h) \<in> set (snap_ranges sn). is_start B (rope text) a \<and> is_start B (rope text) h)) \<and>
       (\<forall>S'. r = Some S' \<longrightarrow> set_ok S' \<and> assert_fits B text S' = Some ())"
  proof (cases rule: snapshot_on_cases [OF assms, of sn])
    case 1
    then show ?thesis by (intro exI [of _ None]) (auto simp: snap_fits_def)
  next
    case (2 S)
    then show ?thesis using assert_fits_iff [OF assms(1) pos, of S]
      by (intro exI [of _ "Some S"]) (auto simp: snap_fits_def)
  qed
  ultimately show ?thesis by blast
qed

text \<open>A motion that answers every selection with one that fits leaves a state that fits, one
  answer for each when the answers are in order and apart; and a command that answers with lists
  of fitting selections, not all empty, leaves a state that fits too.\<close>

theorem state_map_fits:
  assumes "seg_ok B" "state_ok B st"
    and "\<forall>v \<in> set (state_views st). \<exists>s. f v = Some s \<and> sel_fits B (es_text st) s"
    and "flat_map_loop g (state_views st) [] None = Some (ss, p)" "ss \<noteq> []"
    and "\<forall>v \<in> set (state_views st). \<forall>new. g v = Some new \<longrightarrow> (\<forall>s \<in> set new. sel_fits B (es_text st) s)"
  shows "(\<exists>st'. state_map B st f = Some st' \<and> state_ok B st' \<and> es_text st' = es_text st \<and>
       spans (sels (es_sels st')) = spans (map (the \<circ> f) (state_views st)) \<and>
       (sels_apart (map (the \<circ> f) (state_views st)) \<longrightarrow>
          sels (es_sels st') = map (the \<circ> f) (state_views st) \<and>
          primary (es_sels st') = primary (es_sels st))) \<and>
     (\<exists>st'. flat_map B st g = Some st' \<and> state_ok B st' \<and> es_text st' = es_text st \<and>
       spans (sels (es_sels st')) = spans ss)"
proof -
  note ok = state_okD [OF assms(2)]
  let ?fs = "map (the \<circ> f) (state_views st)"
  have those: "those (map f (state_views st)) = Some ?fs"
    using assms(3) by (auto simp: those_Some)
  have fs: "?fs \<noteq> []" "primary (es_sels st) < length ?fs" "\<forall>s \<in> set ?fs. sel_fits B (es_text st) s"
    using ok(2,4) state_views_props(2) [of st] assms(3) by fastforce+
  obtain st' where "from_text B (es_text st) ?fs (primary (es_sels st)) = Some st'" "state_ok B st'"
    "es_text st' = es_text st" "spans (sels (es_sels st')) = spans ?fs"
    "sels_apart ?fs \<Longrightarrow> sels (es_sels st') = ?fs \<and> primary (es_sels st') = primary (es_sels st)"
    by (rule from_text_ok [OF assms(1) ok(1) fs]) blast
  then have 1: "\<exists>st'. state_map B st f = Some st' \<and> state_ok B st' \<and> es_text st' = es_text st \<and>
       spans (sels (es_sels st')) = spans ?fs \<and>
       (sels_apart ?fs \<longrightarrow> sels (es_sels st') = ?fs \<and> primary (es_sels st') = primary (es_sels st))"
    by (simp add: state_map_def those with_selections_def)
  from flat_map_loop_Some [OF assms(4,6)] have
    ss: "\<forall>s \<in> set ss. sel_fits B (es_text st) s" "\<forall>i. p = Some i \<longrightarrow> i < length ss" by auto
  have "(case p of Some p \<Rightarrow> p | None \<Rightarrow> 0) < length ss"
    using ss(2) assms(5) by (cases p) auto
  from from_text_ok [OF assms(1) ok(1) assms(5) this ss(1)] obtain st'' where
    "from_text B (es_text st) ss (case p of Some p \<Rightarrow> p | None \<Rightarrow> 0) = Some st''" "state_ok B st''"
    "es_text st'' = es_text st" "spans (sels (es_sels st'')) = spans ss" by metis
  then have "\<exists>st'. flat_map B st g = Some st' \<and> state_ok B st' \<and> es_text st' = es_text st \<and>
       spans (sels (es_sels st')) = spans ss"
    by (simp add: flat_map_def assms(4) with_selections_def)
  with 1 show ?thesis by blast
qed

text \<open>Removing a selection, keeping only the primary and cycling the primary never panic on a
  fitting state and keep it fitting: removal leaves the others, moves the primary to the next one
  when it was the one removed and leaves a lone selection alone; cycling forward and back is no
  change.\<close>

theorem state_edits:
  assumes "seg_ok B" "state_ok B st" "idx < length (sels (es_sels st))"
  defines "ss \<equiv> sels (es_sels st)" and "p \<equiv> primary (es_sels st)"
  shows "(\<exists>st'. state_remove B st idx = Some st' \<and> state_ok B st' \<and> es_text st' = es_text st \<and>
       sels (es_sels st') = (if length ss = 1 then ss else take idx ss @ drop (Suc idx) ss) \<and>
       (idx \<noteq> p \<longrightarrow> sels (es_sels st') ! primary (es_sels st') = ss ! p) \<and>
       (idx = p \<and> 1 < length ss \<longrightarrow>
          sels (es_sels st') ! primary (es_sels st') = ss ! (Suc p mod length ss))) \<and>
     (\<exists>st'. keep_primary B st = Some st' \<and> state_ok B st' \<and> sels (es_sels st') = [ss ! p]) \<and>
     (\<exists>st' st''. cycle_primary B st delta = Some st' \<and> state_ok B st' \<and>
       sels (es_sels st') = ss \<and> int (primary (es_sels st')) = (int p + delta) mod int (length ss) \<and>
       cycle_primary B st' (- delta) = Some st'' \<and> sels (es_sels st'') = ss \<and>
       primary (es_sels st'') = p)"
proof -
  note ok = state_okD [OF assms(2), folded ss_def p_def]
  have idx: "idx < length ss" using assms(3) by (simp add: ss_def)
  have remove: "\<exists>st'. state_remove B st idx = Some st' \<and> state_ok B st' \<and> es_text st' = es_text st \<and>
       sels (es_sels st') = (if length ss = 1 then ss else take idx ss @ drop (Suc idx) ss) \<and>
       (idx \<noteq> p \<longrightarrow> sels (es_sels st') ! primary (es_sels st') = ss ! p) \<and>
       (idx = p \<and> 1 < length ss \<longrightarrow>
          sels (es_sels st') ! primary (es_sels st') = ss ! (Suc p mod length ss))"
  proof (cases "length ss = 1")
    case True
    with idx ok(4) assms(2) show ?thesis
      by (intro exI [of _ st]) (auto simp: state_remove_def ss_def p_def)
  next
    case False
    let ?ss = "take idx ss @ drop (Suc idx) ss"
    let ?p = "if idx < p then p - 1 else if idx = p then idx mod length ?ss else p"
    let ?f = "\<lambda>ss p. let ss = take idx ss @ drop (idx + 1) ss
       in Some (ss, if idx < p then p - 1 else if idx = p then idx mod length ss else p)"
    have len: "length ?ss = length ss - 1" "0 < length ?ss" using idx False by auto
    have p: "?p < length ?ss" using ok(4) idx len by (auto split: if_splits)
    have nth: "?ss ! j = ss ! (if j < idx then j else Suc j)" if "j < length ?ss" for j
      using that idx by (auto simp: nth_append min_def)
    have ne: "?ss \<noteq> []" using len(2) by (metis length_greater_0_conv)
    have sub: "set ?ss \<subseteq> set (sels (es_sels st))"
      unfolding ss_def by (auto dest: in_set_takeD in_set_dropD)
    have f: "?f (sels (es_sels st)) (primary (es_sels st)) = Some (?ss, ?p)"
      by (simp add: Let_def ss_def p_def)
    obtain st' where st': "edit_parts B st ?f = Some st'" "state_ok B st'"
      "es_text st' = es_text st" "sels (es_sels st') = ?ss" "primary (es_sels st') = ?p"
      by (rule edit_parts_same [of B st ?f ?ss ?p, OF assms(1,2) f ne p sels_apart_remove [OF ok(3), of idx] sub]) blast
    have "idx \<noteq> p \<Longrightarrow> ?ss ! ?p = ss ! p" using nth [OF p] ok(4) idx by (auto split: if_splits)
    moreover have "?ss ! ?p = ss ! (Suc p mod length ss)" if "idx = p"
    proof (cases "Suc p < length ss")
      case True
      then have "p mod length ?ss = p" using len(1) by simp
      with nth [OF p] that True show ?thesis by simp
    next
      case f: False
      then have "Suc p = length ss" using ok(4) by simp
      moreover from this have "p = length ?ss" using len(1) by linarith
      ultimately have "p mod length ?ss = 0" "Suc p mod length ss = 0" by (metis mod_self)+
      with nth [OF p] that len(2) f False show ?thesis by (auto split: if_splits)
    qed
    ultimately show ?thesis using st' False idx by (simp add: state_remove_def ss_def)
  qed
  have "\<exists>st'. keep_primary B st = Some st' \<and> state_ok B st' \<and> sels (es_sels st') = [ss ! p]"
  proof -
    have f: "\<forall>s \<in> set [ss ! p]. sel_fits B (es_text st) s" using ok(4,5) by simp
    obtain st' where "from_text B (es_text st) [ss ! p] 0 = Some st'" "state_ok B st'"
      "sels_apart [ss ! p] \<Longrightarrow> sels (es_sels st') = [ss ! p] \<and> primary (es_sels st') = 0"
      by (rule from_text_ok [OF assms(1) ok(1) _ _ f, of 0]) auto
    then show ?thesis using ok(4)
      by (simp add: keep_primary_def primary_selection_def nth_opt_def with_selections_def ss_def p_def)
  qed
  moreover have "\<exists>st' st''. cycle_primary B st delta = Some st' \<and> state_ok B st' \<and>
       sels (es_sels st') = ss \<and> int (primary (es_sels st')) = (int p + delta) mod int (length ss) \<and>
       cycle_primary B st' (- delta) = Some st'' \<and> sels (es_sels st'') = ss \<and>
       primary (es_sels st'') = p"
  proof -
    let ?n = "int (length ss)"
    let ?p1 = "(int p + delta) mod ?n"
    have n: "0 < ?n" using idx by linarith
    then have b: "0 \<le> ?p1" "?p1 < ?n" by simp_all
    obtain st' where st': "cycle_primary B st delta = Some st'" "state_ok B st'"
      "sels (es_sels st') = ss" "primary (es_sels st') = nat ?p1"
      unfolding cycle_primary_def
    proof (rule edit_parts_same [OF assms(1,2), of _ ss "nat ?p1"])
      show "nat ?p1 < length ss" using b by linarith
    qed (use ok(2,3) in \<open>simp_all add: ss_def p_def\<close>)
    have bk: "nat ((int (nat ?p1) + - delta) mod ?n) = p"
    proof -
      have "(?p1 - delta) mod ?n = int p mod ?n" by (simp add: mod_simps)
      with b(1) ok(4) show ?thesis by simp
    qed
    obtain st'' where "cycle_primary B st' (- delta) = Some st''"
      "sels (es_sels st'') = ss" "primary (es_sels st'') = p"
      unfolding cycle_primary_def
    proof (rule edit_parts_same [of B st' "\<lambda>ss p. Some (ss, nat ((int p + - delta) mod int (length ss)))" ss p,
          OF assms(1) st'(2)])
    qed (use ok(2-4) st'(3,4) bk in \<open>simp_all\<close>)
    with st' b show ?thesis by auto
  qed
  ultimately show ?thesis using remove by blast
qed

section \<open>Witnesses\<close>

definition demo_set :: selection_set where
  "demo_set = \<lparr>sels = [\<lparr>anchor = 0, head = 0, sticky = None\<rparr>, \<lparr>anchor = 2, head = 2, sticky = None\<rparr>],
     primary = 1, set_version = version demo_ab\<rparr>"

definition demo_state :: edit_state where
  "demo_state = \<lparr>es_text = demo_ab, es_sels = demo_set\<rparr>"

lemma demo_positions_fit: "positions_fit demo_seg demo_ab (sels demo_set)"
  by (simp add: positions_fit_def demo_set_def sel_fits_def demo_ab_def is_start_def demo_seg_def
      sel_start_def sel_last_def)

lemma demo_set_fits: "set_ok demo_set" "assert_fits demo_seg demo_ab demo_set = Some ()"
  "state_ok demo_seg demo_state"
proof -
  show s: "set_ok demo_set" by (simp add: set_ok_def demo_set_def sel_start_def sel_last_def)
  show "assert_fits demo_seg demo_ab demo_set = Some ()"
    using demo_positions_fit assert_fits_iff [OF demo_seg_ok, of demo_ab demo_set]
    by (simp add: len_chars_def demo_ab_def demo_set_def)
  show "state_ok demo_seg demo_state"
    using demo_positions_fit demo_cs_wf(3) s by (simp add: state_ok_def demo_state_def demo_set_def)
qed

theorem check_fit_decides_witness: "check_fit demo_seg demo_ab demo_set = Some (Inr ())"
  using check_fit_decides [OF demo_seg_ok demo_cs_wf(3), of demo_set] demo_positions_fit
  by (auto simp: positions_fit_def sel_fits_def) (simp add: demo_set_def)

definition demo_after :: buffer_text where
  "demo_after = demo_ab\<lparr>rope := [97, 120, 99, NL], version := \<lparr>lineage = 0, version_id = 1\<rparr>\<rparr>"

theorem translate_fits_witness:
  "\<exists>ch S'. text_change_new demo_ab demo_after demo_cs = Some ch \<and>
     translate demo_seg demo_set ch = Some (head (sels S' ! primary S'), S') \<and> set_ok S'"
proof -
  have b: "buffer_ok demo_after"
    by (simp add: buffer_ok_def demo_after_def demo_ab_def is_valid_buffer_rope_def is_cr_free_def
        ends_with_newline_def)
  have "text_change_new demo_ab demo_after demo_cs \<noteq> None"
    by (simp add: text_change_new_def demo_cs_def demo_ab_def demo_after_def len_chars_def ensure_def)
  then obtain ch where ch: "text_change_new demo_ab demo_after demo_cs = Some ch" by blast
  show ?thesis
    using translate_fits [OF demo_seg_ok demo_cs_wf(3) b ch demo_set_fits(1,2)] ch by blast
qed

theorem snapshot_roundtrip_witness:
  "\<exists>S'. snapshot_on demo_seg (snapshot_of demo_set) demo_ab = Some (Some S') \<and>
     eq_ignoring_sticky demo_set S'"
  using snapshot_roundtrip [OF demo_seg_ok demo_cs_wf(3), of demo_set] demo_set_fits by blast

theorem state_map_fits_witness:
  "\<exists>st'. state_map demo_seg demo_state (\<lambda>_. Some (sel_new 0 1)) = Some st' \<and> state_ok demo_seg st'"
proof -
  let ?s = "sel_new 0 1"
  have f: "sel_fits demo_seg (es_text demo_state) ?s"
    by (simp add: sel_fits_def sel_new_def demo_state_def demo_ab_def is_start_def demo_seg_def)
  obtain ss p where l: "flat_map_loop (\<lambda>_. Some [?s]) (state_views demo_state) [] None = Some (ss, p)" "ss \<noteq> []"
    by (simp add: state_views_def demo_state_def demo_set_def)
  show ?thesis
    using state_map_fits [OF demo_seg_ok demo_set_fits(3) _ l, of "\<lambda>_. Some ?s"] f by auto
qed

theorem state_edits_witness:
  "\<exists>st'. state_remove demo_seg demo_state 1 = Some st' \<and>
     sels (es_sels st') = [\<lparr>anchor = 0, head = 0, sticky = None\<rparr>]"
  using state_edits [OF demo_seg_ok demo_set_fits(3), of 1]
  by (auto simp: demo_state_def demo_set_def)

end
