(* ===== verification/Edited.thy ===== *)
theory Edited imports EditState begin

text \<open>
  Finished edits: \<open>hume-editing/src/edit.rs\<close>, \<open>transaction.rs\<close> and \<open>tracked.rs\<close>. An
  edit pairs the state it leaves with the changeset that leads there and the version it started from;
  a transaction pairs a changeset with the selections it lands on.
\<close>

section \<open>Transactions\<close>

record transaction =
  tx_changes :: changeset
  tx_selection :: selection_set

definition tx_compose_all :: "transaction list \<Rightarrow> transaction option option" where
  "tx_compose_all txns =
     (if txns = [] then Some None
      else do {
        let final = last txns;
        cs \<leftarrow> compose_all (map tx_changes (butlast txns) @ [tx_changes final]);
        Some (case cs of None \<Rightarrow> None
              | Some cs \<Rightarrow> Some \<lparr>tx_changes = cs, tx_selection = tx_selection final\<rparr>) })"

definition tx_apply :: "segmentation \<Rightarrow> store \<Rightarrow> transaction \<Rightarrow> buffer_text \<Rightarrow>
    (apply_error + store \<times> edit_state \<times> changeset) option" where
  "tx_apply B st tx text = do {
     r \<leftarrow> apply_as (tx_changes tx) st text (set_version (tx_selection tx));
     case r of
       Inl e \<Rightarrow> Some (Inl e)
     | Inr (st, new) \<Rightarrow> do {
         state \<leftarrow> state_bind B new (tx_selection tx);
         Some (Inr (st, state, tx_changes tx)) } }"

section \<open>Edits\<close>

record edited =
  ed_state :: edit_state
  ed_changes :: changeset
  ed_base :: text_version

definition edited_unchanged :: "edit_state \<Rightarrow> edited" where
  "edited_unchanged state =
     \<lparr>ed_state = state, ed_changes = identity_cs (len_chars (es_text state)),
      ed_base = version (es_text state)\<rparr>"

definition from_changes :: "segmentation \<Rightarrow> store \<Rightarrow> edit_state \<Rightarrow> changeset \<Rightarrow>
    (apply_error + store \<times> edited) option" where
  "from_changes B st state changes = do {
     let old = es_text state;
     r \<leftarrow> apply_cs changes st old;
     case r of
       Inl e \<Rightarrow> Some (Inl e)
     | Inr (st, text) \<Rightarrow> do {
         change \<leftarrow> text_change_new old text changes;
         (_, selections) \<leftarrow> translate B (es_sels state) change;
         state \<leftarrow> from_set B text selections;
         Some (Inr (st, \<lparr>ed_state = state, ed_changes = changes, ed_base = version old\<rparr>)) } }"

definition edited_then ::
  "store \<Rightarrow> edited \<Rightarrow> (store \<Rightarrow> edit_state \<Rightarrow> (store \<times> edited) option) \<Rightarrow> (store \<times> edited) option"
where
  "edited_then st self f = do {
     let produced_version = version (es_text (ed_state self));
     (st, next) \<leftarrow> f st (ed_state self);
     ensure (ed_base next = produced_version);
     changes \<leftarrow> compose_cs (ed_changes self) (ed_changes next);
     Some (st, \<lparr>ed_state = ed_state next, ed_changes = changes, ed_base = ed_base self\<rparr>) }"

definition edited_rebase :: "segmentation \<Rightarrow> store \<Rightarrow> edit_state \<Rightarrow> buffer_text \<Rightarrow> changeset \<Rightarrow>
    (apply_error + store \<times> edited) option" where
  "edited_rebase B st outcome live live_to_result = do {
     r \<leftarrow> tx_apply B st \<lparr>tx_changes = live_to_result, tx_selection = es_sels outcome\<rparr> live;
     case r of
       Inl e \<Rightarrow> Some (Inl e)
     | Inr (st, state, changes) \<Rightarrow> do {
         ensure (rope (es_text state) = rope (es_text outcome));
         Some (Inr (st, \<lparr>ed_state = state, ed_changes = changes, ed_base = version live\<rparr>)) } }"

text \<open>\<open>apply_keeping_final_break\<close>, with a driver that keeps a state of its own between its calls.\<close>

definition apply_keeping_final_break ::
  "store \<Rightarrow> buffer_text \<Rightarrow> ('s \<Rightarrow> nat option \<Rightarrow> ((changeset \<times> 'a) \<times> 's) option) \<Rightarrow> 's \<Rightarrow>
   (store \<times> buffer_text \<times> changeset \<times> 'a) option"
where
  "apply_keeping_final_break st text drive s = do {
     ((changes, out), s) \<leftarrow> drive s None;
     r \<leftarrow> apply_cs changes st text;
     case r of
       Inr (st, new) \<Rightarrow> Some (st, new, changes, out)
     | Inl TrailingNewlineMissing \<Rightarrow> do {
         ((changes, out), s) \<leftarrow> drive s (Some (last_char text));
         r \<leftarrow> apply_cs changes st text;
         case r of
           Inr (st, new) \<Rightarrow> Some (st, new, changes, out)
         | Inl e \<Rightarrow> None }
     | Inl e \<Rightarrow> None }"

section \<open>Values read against their text\<close>

record 'a tracked =
  tr_value :: 'a
  tr_version :: text_version

definition tracked_new :: "'a \<Rightarrow> buffer_text \<Rightarrow> 'a tracked" where
  "tracked_new v text = \<lparr>tr_value = v, tr_version = version text\<rparr>"

definition tracked_get :: "'a tracked \<Rightarrow> buffer_text \<Rightarrow> 'a option" where
  "tracked_get self text = (if tr_version self = version text then Some (tr_value self) else None)"

definition tracked_translate :: "'a tracked \<Rightarrow> text_change \<Rightarrow> ('a \<Rightarrow> 'a) \<Rightarrow> 'a tracked" where
  "tracked_translate self change f =
     (if tr_version self = version (tc_before change)
      then \<lparr>tr_value = f (tr_value self), tr_version = version (tc_after change)\<rparr>
      else self)"

section \<open>What an edit keeps\<close>

definition edited_ok :: "segmentation \<Rightarrow> buffer_text \<Rightarrow> edited \<Rightarrow> bool" where
  "edited_ok B before e \<longleftrightarrow>
     wf_cs (ed_changes e) \<and> inserts_cr_free (ed_changes e) \<and>
     len_before (ed_changes e) = len_chars before \<and>
     rope (es_text (ed_state e)) = emit (ops (ed_changes e)) (rope before) \<and>
     state_ok B (ed_state e) \<and> ed_base e = version before"

lemma identity_cs_ok: "wf_cs (identity_cs n)" "inserts_cr_free (identity_cs n)"
  "len_before (identity_cs n) = n" "length t = n \<Longrightarrow> emit (ops (identity_cs n)) t = t"
  using emit_push_merge [of "[]" "Retain n" t] normalized_push_merge [of "[]" "Retain n"]
    set_push_merge_cr_free [of "[]" "Retain n"]
  by (auto simp: identity_cs_def wf_cs_def inserts_cr_free_def)

lemma edited_unchanged_ok:
  assumes "state_ok B s"
  shows "edited_ok B (es_text s) (edited_unchanged s)"
  using assms identity_cs_ok
  by (simp add: edited_ok_def edited_unchanged_def len_chars_def)

lemma edited_len:
  assumes "edited_ok B before e"
  shows "len_after (ed_changes e) = len_chars (es_text (ed_state e))"
  using assms emit_len [of "ed_changes e" "rope before"] by (simp add: edited_ok_def len_chars_def)

lemma from_set_ok:
  assumes "seg_ok B" "buffer_ok text" "set_ok S" "assert_fits B text S = Some ()"
  shows "from_set B text S = Some \<lparr>es_text = text, es_sels = S\<rparr> \<and>
    state_ok B \<lparr>es_text = text, es_sels = S\<rparr>"
proof -
  have pos: "0 < len_chars text" using assms(2) by simp
  have "set_version S = version text" "positions_fit B text (sels S)"
    using assms(4) assert_fits_iff [OF assms(1) pos] by simp_all
  then show ?thesis using assms(2,3) assert_positions_iff [OF assms(1) pos, of S]
    by (simp add: from_set_def state_ok_def)
qed

lemma state_bind_ok:
  assumes "seg_ok B" "buffer_ok text" "set_ok S"
  shows "state_bind B text S \<noteq> None \<longleftrightarrow>
      set_version S = version text \<and> positions_fit B text (sels S)"
    and "state_bind B text S = Some s \<Longrightarrow>
      s = \<lparr>es_text = text, es_sels = S\<rparr> \<and> state_ok B s"
proof -
  have pos: "0 < len_chars text" using assms(2) by simp
  note f = assert_fits_iff [OF assms(1) pos, of S]
  show "state_bind B text S \<noteq> None \<longleftrightarrow>
      set_version S = version text \<and> positions_fit B text (sels S)"
    using f by (cases "assert_fits B text S") (auto simp: state_bind_def)
  show "s = \<lparr>es_text = text, es_sels = S\<rparr> \<and> state_ok B s" if "state_bind B text S = Some s"
    using f that assms(2,3) by (cases "assert_fits B text S") (auto simp: state_bind_def state_ok_def)
qed

lemma apply_cs_outcome:
  assumes "wf_cs cs" "inserts_cr_free cs" "buffer_ok text"
  obtains (mismatch) "apply_cs cs st text = Some (Inl (LengthMismatch (len_chars text) (len_before cs)))"
      "len_chars text \<noteq> len_before cs"
  | (unended) "apply_cs cs st text = Some (Inl TrailingNewlineMissing)" "len_chars text = len_before cs"
      "\<not> is_valid_buffer_rope (emit (ops cs) (rope text))"
  | (applied) st' text' where "apply_cs cs st text = Some (Inr (st', text'))"
      "len_chars text = len_before cs" "rope text' = emit (ops cs) (rope text)"
      "len_chars text' = len_after cs" "line_ending text' = line_ending text" "buffer_ok text'"
proof (cases "len_chars text = len_before cs")
  case False
  then show ?thesis by (intro mismatch) (simp_all add: apply_cs_def applied_rope_eq [OF assms(1)])
next
  case True
  show ?thesis
  proof (cases "is_identity cs \<or> is_valid_buffer_rope (emit (ops cs) (rope text))")
    case False
    with True show ?thesis by (intro unended) (simp_all add: apply_cs_def applied_rope_eq [OF assms(1)])
  next
    case ok: True
    obtain st' text' where a: "apply_cs cs st text = Some (Inr (st', text'))"
      using ok True
      by (cases "is_identity cs"; cases "successor st text (emit (ops cs) (rope text))")
        (auto simp: apply_cs_def applied_rope_eq [OF assms(1)])
    from apply_cs_Some [OF assms(1) a] assms(2,3) a show ?thesis by (intro applied) auto
  qed
qed

lemma tx_applied:
  assumes "seg_ok B" "wf_cs (tx_changes tx)" "inserts_cr_free (tx_changes tx)" "set_ok (tx_selection tx)"
    and "buffer_ok text" "tx_apply B st tx text = Some (Inr (st', s, cs))"
  shows "cs = tx_changes tx" "len_before cs = len_chars text"
    "rope (es_text s) = emit (ops cs) (rope text)" "len_after cs = len_chars (es_text s)"
    "line_ending (es_text s) = line_ending text" "version (es_text s) = set_version (tx_selection tx)"
    "es_sels s = tx_selection tx" "state_ok B s"
proof -
  let ?cs = "tx_changes tx" and ?v = "set_version (tx_selection tx)"
  let ?e = "emit (ops ?cs) (rope text)"
  obtain r where r: "apply_as ?cs st text ?v = Some r"
    using assms(6) by (auto simp: tx_apply_def bind_eq_Some_conv)
  obtain new where "r = Inr (st', new)" and new: "apply_as ?cs st text ?v = Some (Inr (st', new))"
    "state_bind B new (tx_selection tx) = Some s" "cs = ?cs"
    using assms(6) r by (cases r) (auto simp: tx_apply_def bind_eq_Some_conv)
  then have len: "len_chars text = len_before ?cs"
    and e: "is_identity ?cs \<or> is_valid_buffer_rope ?e"
    by (auto simp: apply_as_def applied_rope_eq [OF assms(2)] split: if_splits)
  have "?e = rope text" if "is_identity ?cs"
    using that identity_emit len assms(2) by (simp add: is_identity_def wf_cs_def len_chars_def)
  then have v: "is_valid_buffer_rope ?e" using e assms(5) by (auto simp: buffer_ok_def)
  obtain st2 new2 where n: "apply_as ?cs st text ?v = Some (Inr (st2, new2))"
    "rope new2 = ?e" "line_ending new2 = line_ending text" "version new2 = ?v"
    by (rule apply_as_ok [OF assms(2) len v]) blast
  then have n: "rope new = ?e" "line_ending new = line_ending text" "version new = ?v"
    using new(1) by simp_all
  have b: "buffer_ok new"
    using emit_buffer_ok [OF assms(5,3) v] v n(1) by (simp add: buffer_ok_def)
  have s: "s = \<lparr>es_text = new, es_sels = tx_selection tx\<rparr>" "state_ok B s"
    using state_bind_ok(2) [OF assms(1) b assms(4) new(2)] by blast+
  show "cs = ?cs" "len_before cs = len_chars text" "rope (es_text s) = emit (ops cs) (rope text)"
    "line_ending (es_text s) = line_ending text" "version (es_text s) = ?v"
    "es_sels s = tx_selection tx" "state_ok B s"
    using new(3) len s n by simp_all
  show "len_after cs = len_chars (es_text s)"
    using emit_len [OF assms(2), of "rope text"] len s(1) n(1) new(3) by (simp add: len_chars_def)
qed

text \<open>A transaction that makes a valid text its selections fit is applied.\<close>

lemma tx_apply_ok:
  assumes "seg_ok B" "wf_cs (tx_changes tx)" "inserts_cr_free (tx_changes tx)" "set_ok (tx_selection tx)"
    and "buffer_ok text" "len_chars text = len_before (tx_changes tx)"
    and "state_ok B s" "rope (es_text s) = emit (ops (tx_changes tx)) (rope text)" "es_sels s = tx_selection tx"
  obtains st' s' where "tx_apply B st tx text = Some (Inr (st', s', tx_changes tx))"
    "rope (es_text s') = rope (es_text s)" "es_sels s' = es_sels s"
    "version (es_text s') = set_version (es_sels s)" "state_ok B s'"
proof -
  let ?v = "set_version (tx_selection tx)"
  have valid: "is_valid_buffer_rope (emit (ops (tx_changes tx)) (rope text))"
    using assms(7,8) by (simp add: state_ok_def buffer_ok_def)
  obtain st' new where n: "apply_as (tx_changes tx) st text ?v = Some (Inr (st', new))"
    "rope new = emit (ops (tx_changes tx)) (rope text)" "version new = ?v"
    by (rule apply_as_ok [OF assms(2,6) valid]) blast
  have b: "buffer_ok new" using n(2) assms(7,8) by (simp add: buffer_ok_def state_ok_def)
  have "positions_fit B new (sels (tx_selection tx))"
    using assms(7,8,9) n(2) by (simp add: state_ok_def positions_fit_def sel_fits_def)
  then obtain s' where s': "state_bind B new (tx_selection tx) = Some s'"
    using state_bind_ok(1) [OF assms(1) b assms(4)] n(3) by auto
  then have e: "s' = \<lparr>es_text = new, es_sels = tx_selection tx\<rparr>" "state_ok B s'"
    using state_bind_ok(2) [OF assms(1) b assms(4) s'] by blast+
  show thesis
    by (rule that [of st' s']) (use n s' e assms(8,9) in \<open>simp_all add: tx_apply_def\<close>)
qed

text \<open>Transactions applied one after the other.\<close>

fun run_txns ::
  "segmentation \<Rightarrow> store \<Rightarrow> transaction list \<Rightarrow> edit_state \<Rightarrow> (store \<times> edit_state) option"
where
  "run_txns B st [] s = Some (st, s)"
| "run_txns B st (tx # txns) s =
     (case tx_apply B st tx (es_text s) of
        Some (Inr (st', s', _)) \<Rightarrow> run_txns B st' txns s'
      | _ \<Rightarrow> None)"

definition txns_ok :: "transaction list \<Rightarrow> bool" where
  "txns_ok txns = (\<forall>tx \<in> set txns. wf_cs (tx_changes tx) \<and> inserts_cr_free (tx_changes tx) \<and>
     set_ok (tx_selection tx))"

lemma run_txns_effect:
  assumes "seg_ok B" "txns_ok txns" "txns \<noteq> []" "buffer_ok (es_text s)"
    and "run_txns B st txns s = Some (st', s')"
  shows "linked (map tx_changes txns) \<and> len_before (tx_changes (hd txns)) = len_chars (es_text s) \<and>
    rope (es_text s') = run_all (map tx_changes txns) (rope (es_text s)) \<and>
    es_sels s' = tx_selection (last txns) \<and> version (es_text s') = set_version (es_sels s') \<and>
    line_ending (es_text s') = line_ending (es_text s) \<and> state_ok B s'"
  using assms
proof (induction txns arbitrary: st s)
  case (Cons tx txns)
  then obtain st1 s1 cs where a: "tx_apply B st tx (es_text s) = Some (Inr (st1, s1, cs))"
    "run_txns B st1 txns s1 = Some (st', s')"
    by (auto split: option.splits sum.splits)
  have ok: "wf_cs (tx_changes tx)" "inserts_cr_free (tx_changes tx)" "set_ok (tx_selection tx)"
    "txns_ok txns" using Cons.prems(2) by (simp_all add: txns_ok_def)
  note t = tx_applied [OF Cons.prems(1) ok(1-3) Cons.prems(4) a(1)]
  have b: "buffer_ok (es_text s1)" using t(8) by (simp add: state_ok_def)
  show ?case
  proof (cases "txns = []")
    case True
    with a(2) t show ?thesis by simp
  next
    case False
    from Cons.IH [OF Cons.prems(1) ok(4) False b a(2)] have
      ih: "linked (map tx_changes txns)" "len_before (tx_changes (hd txns)) = len_chars (es_text s1)"
        "rope (es_text s') = run_all (map tx_changes txns) (rope (es_text s1))"
        "es_sels s' = tx_selection (last txns)" "version (es_text s') = set_version (es_sels s')"
        "line_ending (es_text s') = line_ending (es_text s1)" "state_ok B s'" by blast+
    have "linked (map tx_changes (tx # txns))"
      using ih(1,2) t(1,4) False by (cases txns) simp_all
    moreover have "rope (es_text s') = run_all (map tx_changes (tx # txns)) (rope (es_text s))"
      using ih(3) t(1,3) by simp
    ultimately show ?thesis using ih(4-7) t(1,2,5) False by simp
  qed
qed simp

section \<open>Properties\<close>

text \<open>An edit made from a changeset never panics on a state whose selections fit: it reports the
  error the changeset's application reports, and otherwise leaves a fitting state whose text is the
  one the changeset makes, with the selections carried through.\<close>

theorem from_changes_outcome:
  assumes "seg_ok B" "state_ok B s" "wf_cs cs" "inserts_cr_free cs"
  shows "\<exists>r. from_changes B st s cs = Some r \<and>
     (case r of
        Inl e \<Rightarrow> apply_cs cs st (es_text s) = Some (Inl e)
      | Inr (st', e) \<Rightarrow> edited_ok B (es_text s) e \<and> ed_changes e = cs \<and>
          (\<exists>ch. text_change_new (es_text s) (es_text (ed_state e)) cs = Some ch \<and>
            spans (sels (es_sels (ed_state e))) = (\<Union>x \<in> set (sels (es_sels s)).
              {carried B ch After (sel_start x)..carried B ch After (sel_last x)})))"
proof -
  have b: "buffer_ok (es_text s)" "set_ok (es_sels s)" "set_version (es_sels s) = version (es_text s)"
    "positions_fit B (es_text s) (sels (es_sels s))"
    using assms(2) by (simp_all add: state_ok_def)
  consider (err) e where "apply_cs cs st (es_text s) = Some (Inl e)"
    | (applied) st' text' where "apply_cs cs st (es_text s) = Some (Inr (st', text'))"
      "len_chars (es_text s) = len_before cs" "rope text' = emit (ops cs) (rope (es_text s))"
      "len_chars text' = len_after cs" "line_ending text' = line_ending (es_text s)" "buffer_ok text'"
    by (rule apply_cs_outcome [OF assms(3,4) b(1), of st]) blast+
  then show ?thesis
  proof cases
    case (applied st' text')
    let ?ch = "\<lparr>tc_before = es_text s, tc_after = text', tc_changes = cs\<rparr>"
    have ch: "text_change_new (es_text s) text' cs = Some ?ch"
      using applied by (simp add: text_change_new_def)
    obtain S where S: "translate B (es_sels s) ?ch = Some (head (sels S ! primary S), S)"
      "set_version S = version (tc_after ?ch)" "set_ok S" "positions_fit B (tc_after ?ch) (sels S)"
      "spans (sels S) = spans (map (translated_sel B ?ch) (sels (es_sels s)))"
      by (rule translate_ok [OF assms(1), of ?ch "es_sels s"]) (use b applied in simp_all)
    have pos: "0 < len_chars text'" using applied(6) by simp
    have "assert_fits B text' S = Some ()" using assert_fits_iff [OF assms(1) pos] S(2,4) by simp
    from from_set_ok [OF assms(1) applied(6) S(3) this] have
      fs: "from_set B text' S = Some \<lparr>es_text = text', es_sels = S\<rparr>"
        "state_ok B \<lparr>es_text = text', es_sels = S\<rparr>" by simp_all
    have ends: "sel_start (translated_sel B ?ch x) = carried B ?ch After (sel_start x)"
      "sel_last (translated_sel B ?ch x) = carried B ?ch After (sel_last x)" for x
      using carried_props(3) [OF assms(1), of ?ch "sel_start x" "sel_last x"] pos
      by (simp_all add: translated_sel_def)
    have "spans (sels S) = (\<Union>x \<in> set (sels (es_sels s)).
        {carried B ?ch After (sel_start x)..carried B ?ch After (sel_last x)})"
      using S(5) by (simp add: spans_def ends)
    then show ?thesis
      using applied ch S(1) fs assms(3,4)
      by (auto simp: from_changes_def edited_ok_def intro!: exI [of _ ?ch])
  qed (auto simp: from_changes_def)
qed


text \<open>Transactions that apply one after the other compose into one transaction that applies to
  the first one's text and leaves the state the sequence leaves, with the last one's selections.\<close>

theorem tx_compose_all_applies:
  assumes "seg_ok B" "state_ok B s" "txns_ok txns" "txns \<noteq> []" "run_txns B st txns s = Some (st', s')"
  shows "\<exists>tx st'' s''. tx_compose_all txns = Some (Some tx) \<and>
     tx_apply B st tx (es_text s) = Some (Inr (st'', s'', tx_changes tx)) \<and>
     rope (es_text s'') = rope (es_text s') \<and> version (es_text s'') = version (es_text s') \<and>
     es_sels s'' = es_sels s' \<and> state_ok B s''"
proof -
  have b: "buffer_ok (es_text s)" using assms(2) by (simp add: state_ok_def)
  let ?css = "map tx_changes txns"
  from run_txns_effect [OF assms(1,3,4) b assms(5)] have
    r: "linked ?css" "len_before (tx_changes (hd txns)) = len_chars (es_text s)"
      "rope (es_text s') = run_all ?css (rope (es_text s))" "es_sels s' = tx_selection (last txns)"
      "version (es_text s') = set_version (es_sels s')" "state_ok B s'" by blast+
  have ne: "?css \<noteq> []" "\<forall>cs \<in> set ?css. wf_cs cs \<and> inserts_cr_free cs"
    using assms(3,4) by (auto simp: txns_ok_def)
  from compose_all_correct [OF r(1) ne(2,1)] obtain c where
    c: "compose_all ?css = Some (Some c)" "wf_cs c" "inserts_cr_free c" "same_effect ?css [c]" by blast
  have eff: "len_before c = len_chars (es_text s)" "emit (ops c) (rope (es_text s)) = rope (es_text s')"
    using c(4) r(2,3) assms(4) by (simp_all add: same_effect_def hd_map len_chars_def)
  let ?tx = "\<lparr>tx_changes = c, tx_selection = tx_selection (last txns)\<rparr>"
  have "map tx_changes (butlast txns) @ [tx_changes (last txns)] = ?css"
    using assms(4) append_butlast_last_id [of txns] by (metis list.simps(8,9) map_append)
  then have "tx_compose_all txns = Some (Some ?tx)"
    using assms(4) c(1) by (simp add: tx_compose_all_def Let_def)
  moreover have "set_ok (tx_selection (last txns))" using assms(3,4) by (simp add: txns_ok_def)
  then obtain st'' s'' where "tx_apply B st ?tx (es_text s) = Some (Inr (st'', s'', tx_changes ?tx))"
    "rope (es_text s'') = rope (es_text s')" "es_sels s'' = es_sels s'"
    "version (es_text s'') = set_version (es_sels s')" "state_ok B s''"
    by (rule_tac tx_apply_ok [OF assms(1), of ?tx "es_text s" s' st])
       (use c(2,3) b eff r(4,6) in simp_all)
  ultimately show ?thesis using r(5) by auto
qed

text \<open>Witnesses: the demonstration state, edited twice.\<close>

lemma demo_state_simps [simp]: "es_text demo_state = demo_ab" "es_sels demo_state = demo_set"
  by (simp_all add: demo_state_def)

theorem from_changes_outcome_witness:
  "\<exists>st' e. from_changes demo_seg demo_store demo_state demo_cs = Some (Inr (st', e)) \<and>
     edited_ok demo_seg demo_ab e"
proof -
  from from_changes_outcome [OF demo_seg_ok demo_set_fits(3) demo_cs_wf(1,2), of demo_store] obtain r where
    r: "from_changes demo_seg demo_store demo_state demo_cs = Some r"
      "case r of
        Inl e \<Rightarrow> apply_cs demo_cs demo_store demo_ab = Some (Inl e)
      | Inr (st', e) \<Rightarrow> edited_ok demo_seg demo_ab e" by (fastforce split: sum.splits)
  have "is_valid_buffer_rope (emit (ops demo_cs) (rope demo_ab))" "len_chars demo_ab = len_before demo_cs"
    by (simp_all add: demo_cs_def demo_ab_def is_valid_buffer_rope_def ends_with_newline_def len_chars_def)
  then obtain st' t' where "apply_cs demo_cs demo_store demo_ab = Some (Inr (st', t'))"
    using apply_cs_ok [OF demo_cs_wf(1)] by metis
  with r show ?thesis by (cases r) auto
qed

lemma demo_chain:
  "edited_ok demo_seg demo_ab (edited_unchanged demo_state)" "ed_state (edited_unchanged demo_state) = demo_state"
  using edited_unchanged_ok [OF demo_set_fits(3)] by (simp_all add: edited_unchanged_def)


definition demo_tx :: transaction where
  "demo_tx = \<lparr>tx_changes = identity_cs 3, tx_selection = demo_set\<rparr>"

theorem tx_compose_all_applies_witness:
  "\<exists>tx. tx_compose_all [demo_tx, demo_tx] = Some (Some tx)"
proof -
  have tx: "txns_ok [demo_tx, demo_tx]"
    by (simp add: txns_ok_def demo_tx_def identity_cs_ok demo_set_fits(1))
  have id: "rope demo_ab = emit (ops (tx_changes demo_tx)) (rope demo_ab)" "len_chars demo_ab = len_before (tx_changes demo_tx)"
    using identity_cs_ok(3) [of 3] identity_cs_ok(4) [of "rope demo_ab" 3]
    by (simp_all add: demo_tx_def demo_ab_def len_chars_def)
  have step: "\<exists>st' s'. tx_apply demo_seg st demo_tx (es_text s) = Some (Inr (st', s', tx_changes demo_tx)) \<and>
      rope (es_text s') = rope demo_ab \<and> state_ok demo_seg s'"
    if s: "state_ok demo_seg s" "rope (es_text s) = rope demo_ab" for st s
  proof -
    have "tx_selection demo_tx = demo_set" by (simp add: demo_tx_def)
    then obtain st' s' where "tx_apply demo_seg st demo_tx (es_text s) = Some (Inr (st', s', tx_changes demo_tx))"
      "rope (es_text s') = rope (es_text demo_state)" "state_ok demo_seg s'"
      by (rule_tac tx_apply_ok [OF demo_seg_ok, of demo_tx "es_text s" demo_state st])
         (use tx s id demo_set_fits in \<open>simp_all add: txns_ok_def state_ok_def len_chars_def\<close>)
    then show ?thesis by auto
  qed
  obtain st1 s1 where 1: "tx_apply demo_seg demo_store demo_tx demo_ab = Some (Inr (st1, s1, tx_changes demo_tx))"
    "rope (es_text s1) = rope demo_ab" "state_ok demo_seg s1"
    using step [OF demo_set_fits(3), of demo_store] by auto
  obtain st2 s2 where 2: "tx_apply demo_seg st1 demo_tx (es_text s1) = Some (Inr (st2, s2, tx_changes demo_tx))"
    using step [OF 1(3,2), of st1] by auto
  have "run_txns demo_seg demo_store [demo_tx, demo_tx] demo_state = Some (st2, s2)" using 1 2 by simp
  from tx_compose_all_applies [OF demo_seg_ok demo_set_fits(3) tx _ this] show ?thesis by auto
qed

end
