(* ===== verification/Builder.thy ===== *)
theory Builder imports Compose begin

text \<open>
  \<open>hume-editing/src/changeset/builder.rs\<close>: changesets built front to back. The assertions of
  a debug build are part of the model, so a step outside the document is a panic.
\<close>

section \<open>The builder\<close>

record builder =
  bd_ops :: "operation list"
  doc_len :: nat
  bd_old :: nat
  bd_new :: nat

definition builder_new :: "nat \<Rightarrow> builder" where
  "builder_new n = \<lparr>bd_ops = [], doc_len = n, bd_old = 0, bd_new = 0\<rparr>"

text \<open>\<open>CharOffset::chars_since\<close>.\<close>

definition chars_since :: "nat \<Rightarrow> nat \<Rightarrow> nat option" where
  "chars_since self earlier = do { ensure (earlier \<le> self); Some (self - earlier) }"

definition builder_retain :: "builder \<Rightarrow> nat \<Rightarrow> builder option" where
  "builder_retain b n = do {
     ensure (bd_old b + n \<le> doc_len b);
     Some (b\<lparr>bd_ops := push_merge (bd_ops b) (Retain n), bd_old := bd_old b + n,
             bd_new := bd_new b + n\<rparr>) }"

definition builder_delete :: "builder \<Rightarrow> nat \<Rightarrow> builder option" where
  "builder_delete b n = do {
     ensure (bd_old b + n \<le> doc_len b);
     Some (b\<lparr>bd_ops := push_merge (bd_ops b) (Delete n), bd_old := bd_old b + n\<rparr>) }"

definition insert_normalized :: "builder \<Rightarrow> ustring \<Rightarrow> builder" where
  "insert_normalized b text =
     b\<lparr>bd_ops := push_merge (bd_ops b) (Insert text), bd_new := bd_new b + length text\<rparr>"

definition builder_insert :: "builder \<Rightarrow> ustring \<Rightarrow> builder" where
  "builder_insert b text = insert_normalized b (normalize_line_endings text)"

definition insert_char :: "builder \<Rightarrow> uchar \<Rightarrow> builder" where
  "insert_char b ch = builder_insert b [ch]"

definition retain_to :: "builder \<Rightarrow> nat \<Rightarrow> builder option" where
  "retain_to b pos = do { n \<leftarrow> chars_since pos (bd_old b); builder_retain b n }"

definition delete_to :: "builder \<Rightarrow> nat \<Rightarrow> builder option" where
  "delete_to b pos = do { n \<leftarrow> chars_since pos (bd_old b); builder_delete b n }"

definition retain_rest :: "builder \<Rightarrow> builder option" where
  "retain_rest b = do {
     remaining \<leftarrow> chars_since (doc_len b) (bd_old b);
     if remaining > 0 then builder_retain b remaining else Some b }"

definition builder_finish :: "builder \<Rightarrow> changeset option" where
  "builder_finish b = do {
     b \<leftarrow> retain_rest b;
     ensure (bd_old b = doc_len b);
     Some \<lparr>ops = bd_ops b, len_before = doc_len b, len_after = bd_new b\<rparr> }"

section \<open>The invariant and what each step adds\<close>

definition builder_ok :: "builder \<Rightarrow> bool" where
  "builder_ok b = (normalized (bd_ops b) \<and> ops_cr_free (bd_ops b) \<and>
     consumed (bd_ops b) = bd_old b \<and> produced (bd_ops b) = bd_new b \<and> bd_old b \<le> doc_len b)"

text \<open>What the builder so far makes of the part of a text it has passed.\<close>

definition built :: "builder \<Rightarrow> ustring \<Rightarrow> ustring" where
  "built b t = emit (bd_ops b) t"

lemma builder_new_ok [inv_intros]: "builder_ok (builder_new n)" "built (builder_new n) t = []"
  by (simp_all add: builder_ok_def builder_new_def built_def)

lemma builder_retain_Some:
  "builder_retain b n = Some b' \<Longrightarrow> builder_ok b \<Longrightarrow>
     builder_ok b' \<and> bd_old b' = bd_old b + n \<and> doc_len b' = doc_len b \<and>
     built b' t = built b t @ slice t (bd_old b) (bd_old b + n)"
  by (auto simp: builder_retain_def builder_ok_def built_def slice_def emit_push_merge
      normalized_push_merge ops_cr_free_push_merge split: if_splits)

lemma builder_delete_Some:
  "builder_delete b n = Some b' \<Longrightarrow> builder_ok b \<Longrightarrow>
     builder_ok b' \<and> bd_old b' = bd_old b + n \<and> doc_len b' = doc_len b \<and> built b' t = built b t"
  by (auto simp: builder_delete_def builder_ok_def built_def emit_push_merge
      normalized_push_merge ops_cr_free_push_merge split: if_splits)

lemma insert_normalized_ok:
  "builder_ok b \<Longrightarrow> CR \<notin> set s \<Longrightarrow>
     builder_ok (insert_normalized b s) \<and> bd_old (insert_normalized b s) = bd_old b \<and>
     doc_len (insert_normalized b s) = doc_len b \<and>
     built (insert_normalized b s) t = built b t @ s"
  by (simp add: insert_normalized_def builder_ok_def built_def emit_push_merge
      normalized_push_merge ops_cr_free_push_merge)

lemma builder_insert_ok:
  "builder_ok b \<Longrightarrow>
     builder_ok (builder_insert b s) \<and> bd_old (builder_insert b s) = bd_old b \<and>
     doc_len (builder_insert b s) = doc_len b \<and>
     built (builder_insert b s) t = built b t @ lf_text s"
  using insert_normalized_ok [of b "lf_text s" t] lf_text_no_cr [of s]
  by (simp add: builder_insert_def)

lemma retain_to_Some:
  assumes "retain_to b pos = Some b'" "builder_ok b"
  shows "builder_ok b' \<and> bd_old b' = pos \<and> doc_len b' = doc_len b \<and> bd_old b \<le> pos \<and>
    pos \<le> doc_len b \<and> built b' t = built b t @ slice t (bd_old b) pos"
proof -
  from assms(1) have pos: "bd_old b \<le> pos" and r: "builder_retain b (pos - bd_old b) = Some b'"
    by (auto simp: retain_to_def chars_since_def split: if_splits)
  from builder_retain_Some [OF r assms(2), of t] pos r show ?thesis
    by (auto simp: builder_retain_def split: if_splits)
qed

lemma delete_to_Some:
  assumes "delete_to b pos = Some b'" "builder_ok b"
  shows "builder_ok b' \<and> bd_old b' = pos \<and> doc_len b' = doc_len b \<and> bd_old b \<le> pos \<and>
    pos \<le> doc_len b \<and> built b' t = built b t"
proof -
  from assms(1) have pos: "bd_old b \<le> pos" and r: "builder_delete b (pos - bd_old b) = Some b'"
    by (auto simp: delete_to_def chars_since_def split: if_splits)
  from builder_delete_Some [OF r assms(2), of t] pos r show ?thesis
    by (auto simp: builder_delete_def split: if_splits)
qed

text \<open>Steps succeed exactly inside the document.\<close>

lemma builder_steps_total:
  "(builder_retain b n \<noteq> None) = (bd_old b + n \<le> doc_len b)"
  "(builder_delete b n \<noteq> None) = (bd_old b + n \<le> doc_len b)"
  "bd_old b \<le> doc_len b \<Longrightarrow> (retain_to b pos \<noteq> None) = (bd_old b \<le> pos \<and> pos \<le> doc_len b)"
  "bd_old b \<le> doc_len b \<Longrightarrow> (delete_to b pos \<noteq> None) = (bd_old b \<le> pos \<and> pos \<le> doc_len b)"
  by (auto simp: builder_retain_def builder_delete_def retain_to_def delete_to_def chars_since_def
      split: if_splits)

lemma slice_all: "n \<le> length t \<Longrightarrow> slice t n (length t) = drop n t"
  by (simp add: slice_def)

text \<open>Finishing never panics; the changeset covers the document and keeps what follows the last
  step.\<close>

lemma builder_finish_ok:
  assumes "builder_ok b"
  obtains cs where "builder_finish b = Some cs" "wf_cs cs" "inserts_cr_free cs"
    "len_before cs = doc_len b"
    "\<And>t. length t = doc_len b \<Longrightarrow> emit (ops cs) t = built b t @ drop (bd_old b) t"
proof -
  have le: "bd_old b \<le> doc_len b" using assms by (simp add: builder_ok_def)
  let ?n = "doc_len b - bd_old b"
  obtain b' where b': "retain_rest b = Some b'" "builder_ok b'" "bd_old b' = doc_len b"
    "doc_len b' = doc_len b" "\<And>t. built b' t = built b t @ slice t (bd_old b) (doc_len b)"
  proof (cases "?n > 0")
    case True
    obtain b' where r: "builder_retain b ?n = Some b'"
      using builder_steps_total(1) [of b ?n] le by auto
    show ?thesis
      by (rule that [of b']) (use builder_retain_Some [OF r assms] r True le in
          \<open>simp_all add: retain_rest_def chars_since_def\<close>)
  next
    case False
    with le assms show ?thesis
      by (intro that [of b]) (simp_all add: retain_rest_def chars_since_def slice_def)
  qed
  let ?cs = "\<lparr>ops = bd_ops b', len_before = doc_len b', len_after = bd_new b'\<rparr>"
  show thesis
  proof (rule that [of ?cs])
    show "builder_finish b = Some ?cs" using b' by (simp add: builder_finish_def)
    show "wf_cs ?cs" "inserts_cr_free ?cs" "len_before ?cs = doc_len b"
      using b' by (simp_all add: builder_ok_def wf_cs_def inserts_cr_free_ops)
    show "emit (ops ?cs) t = built b t @ drop (bd_old b) t" if "length t = doc_len b" for t
      using b'(5) [of t] that slice_all [of "bd_old b" t] le by (simp add: built_def)
  qed
qed

end
