(* ===== verification/EditBuilder.thy ===== *)
theory EditBuilder imports Edited Builder "HOL-Library.Product_Lexorder" begin

text \<open>
  \<open>hume-editing/src/edit/builder.rs\<close>: an edit recorded as operations at positions of the old
  text, driven into one changeset in position order, and the selections it leaves, described by
  the positions it handed out. The brand that ties a handle to its builder has no run-time content
  and is not modelled; a handle of another builder is a position that is out of range or wrong.
\<close>

section \<open>Recording operations\<close>

record new_pos =
  np_index :: nat
  np_after :: bool

record mark =
  mk_start :: new_pos
  mk_end :: new_pos

datatype item_kind = DeleteTo nat | InsertText ustring | ReplaceTo nat ustring bool | AnchorHere

record item =
  it_key :: nat
  it_kind :: item_kind

record edit_builder =
  eb_text :: buffer_text
  eb_items :: "item list"

definition eb_new :: "buffer_text \<Rightarrow> edit_builder" where
  "eb_new text = \<lparr>eb_text = text, eb_items = []\<rparr>"

definition eb_push ::
  "segmentation \<Rightarrow> edit_builder \<Rightarrow> nat \<Rightarrow> item_kind \<Rightarrow> (nat \<times> edit_builder) option"
where
  "eb_push B b key kind = do {
     let text_end = len_chars (eb_text b);
     let end = (case kind of DeleteTo end \<Rightarrow> end | ReplaceTo end _ _ \<Rightarrow> end
                | InsertText _ \<Rightarrow> key | AnchorHere \<Rightarrow> key);
     ensure (end \<le> text_end);
     key_at \<leftarrow> (if key = text_end then Some text_end else snap B (eb_text b) key);
     end_at \<leftarrow> (if end = text_end then Some text_end else snap B (eb_text b) end);
     ensure (key_at = key \<and> end_at = end);
     Some (length (eb_items b), b\<lparr>eb_items := eb_items b @ [\<lparr>it_key = key, it_kind = kind\<rparr>]\<rparr>) }"

definition new_pos_at :: "nat \<Rightarrow> bool \<Rightarrow> new_pos" where
  "new_pos_at index after = \<lparr>np_index = index, np_after = after\<rparr>"

definition eb_insert ::
  "segmentation \<Rightarrow> edit_builder \<Rightarrow> nat \<Rightarrow> ustring \<Rightarrow> (mark \<times> edit_builder) option"
where
  "eb_insert B b at text = do {
     let end = len_chars (eb_text b);
     ensure (at \<le> end);
     let text = normalize_line_endings text;
     let key = (if at < end then at else if ends_with_lf text then end else last_char (eb_text b));
     let kind = (if text = [] then AnchorHere else InsertText text);
     (index, b) \<leftarrow> eb_push B b key kind;
     Some (\<lparr>mk_start = new_pos_at index False, mk_end = new_pos_at index True\<rparr>, b) }"

definition eb_delete ::
  "segmentation \<Rightarrow> edit_builder \<Rightarrow> cluster_range \<Rightarrow> (new_pos \<times> edit_builder) option"
where
  "eb_delete B b rng = do {
     (index, b) \<leftarrow> eb_push B b (cr_start rng) (DeleteTo (cr_end rng));
     Some (new_pos_at index False, b) }"

definition eb_at :: "segmentation \<Rightarrow> edit_builder \<Rightarrow> nat \<Rightarrow> (new_pos \<times> edit_builder) option" where
  "eb_at B b pos = do {
     (index, b) \<leftarrow> eb_push B b pos AnchorHere;
     Some (new_pos_at index False, b) }"

definition eb_replace ::
  "segmentation \<Rightarrow> edit_builder \<Rightarrow> cluster_range \<Rightarrow> ustring \<Rightarrow> (mark \<times> edit_builder) option"
where
  "eb_replace B b rng text = do {
     let text = normalize_line_endings text;
     old \<leftarrow> slice_opt (rope (eb_text b)) (cr_start rng) (cr_end rng);
     (index, b) \<leftarrow> eb_push B b (cr_start rng) (ReplaceTo (cr_end rng) text (old = text));
     Some (\<lparr>mk_start = new_pos_at index False, mk_end = new_pos_at index True\<rparr>, b) }"

definition eb_keep ::
  "segmentation \<Rightarrow> edit_builder \<Rightarrow> cluster_range \<Rightarrow> (mark \<times> edit_builder) option"
where
  "eb_keep B b rng = do {
     (start, b) \<leftarrow> eb_push B b (cr_start rng) AnchorHere;
     (end, b) \<leftarrow> eb_push B b (cr_end rng) AnchorHere;
     Some (\<lparr>mk_start = new_pos_at start False, mk_end = new_pos_at end False\<rparr>, b) }"

section \<open>Driving them into a changeset\<close>

text \<open>The variables of \<open>drive\<close>; \<open>dv_items\<close> is the builder's own vector, whose texts a
  call that none can follow moves out.\<close>

record drive_vars =
  dv_items :: "item list"
  dv_changes :: builder
  dv_placed :: "(nat \<times> nat) list"
  dv_deletion :: "(nat \<times> nat) option"

fun taken_text :: "item_kind \<Rightarrow> item_kind" where
  "taken_text (InsertText _) = InsertText []"
| "taken_text (ReplaceTo end _ unchanged) = ReplaceTo end [] unchanged"
| "taken_text k = k"

definition leave_unchanged :: "item \<Rightarrow> nat \<Rightarrow> item list \<Rightarrow> nat option" where
  "leave_unchanged item old later =
     (case it_kind item of
        ReplaceTo end _ True \<Rightarrow>
          if old = it_key item \<and>
             list_all (\<lambda>l. it_kind l = AnchorHere) (takeWhile (\<lambda>l. it_key l < end) later)
          then Some end else None
      | _ \<Rightarrow> None)"

definition drive_remove :: "nat option \<Rightarrow> item \<Rightarrow> drive_vars \<Rightarrow> drive_vars option" where
  "drive_remove ceiling item v =
     (case (case it_kind item of ReplaceTo end _ _ \<Rightarrow> Some end | DeleteTo end \<Rightarrow> Some end | _ \<Rightarrow> None) of
        None \<Rightarrow> Some v
      | Some end \<Rightarrow>
          let end = (case ceiling of None \<Rightarrow> end | Some c \<Rightarrow> min end c) in
          if end > bd_old (dv_changes v) then do {
            let deletion = (case dv_deletion v of Some d \<Rightarrow> Some d
                            | None \<Rightarrow> Some (it_key item, bd_new (dv_changes v)));
            changes \<leftarrow> delete_to (dv_changes v) end;
            Some (v\<lparr>dv_deletion := deletion, dv_changes := changes\<rparr>) }
          else Some v)"

definition drive_insert :: "item \<Rightarrow> drive_vars \<Rightarrow> drive_vars" where
  "drive_insert item v =
     (case it_kind item of
        ReplaceTo _ text _ \<Rightarrow> v\<lparr>dv_changes := insert_normalized (dv_changes v) text\<rparr>
      | InsertText text \<Rightarrow> v\<lparr>dv_changes := insert_normalized (dv_changes v) text\<rparr>
      | _ \<Rightarrow> v)"

definition drive_step ::
  "bool \<Rightarrow> nat option \<Rightarrow> nat \<Rightarrow> nat list \<Rightarrow> drive_vars \<Rightarrow> drive_vars option"
where
  "drive_step rerun_possible ceiling index later v = do {
     item \<leftarrow> nth_opt (dv_items v) index;
     v \<leftarrow> (if it_key item > bd_old (dv_changes v) then do {
            changes \<leftarrow> retain_to (dv_changes v) (it_key item);
            Some (v\<lparr>dv_changes := changes, dv_deletion := None\<rparr>) }
          else Some v);
     let new_at = bd_new (dv_changes v);
     case leave_unchanged item (bd_old (dv_changes v)) (map ((!) (dv_items v)) later) of
       Some end \<Rightarrow> do {
         len \<leftarrow> chars_since end (it_key item);
         Some (v\<lparr>dv_placed := (dv_placed v)[index := (new_at, new_at + len)]\<rparr>) }
     | None \<Rightarrow> do {
         let v = v\<lparr>dv_items := (if rerun_possible then dv_items v
                    else (dv_items v)[index := item\<lparr>it_kind := taken_text (it_kind item)\<rparr>])\<rparr>;
         v \<leftarrow> drive_remove ceiling item v;
         let v = drive_insert item v;
         let placed = (case (it_kind item, dv_deletion v) of
             (AnchorHere, Some (start, at)) \<Rightarrow>
               if it_key item > start \<and> it_key item < bd_old (dv_changes v) then (at, at)
               else (new_at, bd_new (dv_changes v))
           | _ \<Rightarrow> (new_at, bd_new (dv_changes v)));
         Some (v\<lparr>dv_placed := (dv_placed v)[index := placed]\<rparr>) } }"

fun drive_loop :: "bool \<Rightarrow> nat option \<Rightarrow> nat list \<Rightarrow> drive_vars \<Rightarrow> drive_vars option" where
  "drive_loop rerun_possible ceiling [] v = Some v"
| "drive_loop rerun_possible ceiling (index # later) v = do {
     v \<leftarrow> drive_step rerun_possible ceiling index later v;
     drive_loop rerun_possible ceiling later v }"

definition drive_order :: "item list \<Rightarrow> nat list" where
  "drive_order items = sort_key (\<lambda>index. (it_key (items ! index), index)) [0..<length items]"

definition reaches :: "nat \<Rightarrow> item \<Rightarrow> bool" where
  "reaches n item = (case it_kind item of DeleteTo end \<Rightarrow> end = n | ReplaceTo end _ _ \<Rightarrow> end = n | _ \<Rightarrow> False)"

definition drive ::
  "edit_builder \<Rightarrow> nat option \<Rightarrow> ((changeset \<times> (nat \<times> nat) list) \<times> edit_builder) option"
where
  "drive b ceiling = do {
     let text_end = len_chars (eb_text b);
     let rerun_possible = (ceiling = None \<and> list_ex (reaches text_end) (eb_items b));
     v \<leftarrow> drive_loop rerun_possible ceiling (drive_order (eb_items b))
       \<lparr>dv_items = eb_items b, dv_changes = builder_new text_end,
        dv_placed = replicate (length (eb_items b)) (0, 0), dv_deletion = None\<rparr>;
     changes \<leftarrow> builder_finish (dv_changes v);
     Some ((changes, dv_placed v), b\<lparr>eb_items := dv_items v\<rparr>) }"

section \<open>Selections an edit leaves\<close>

datatype line_place = AtBreak | AtCol nat

record line_end =
  le_line :: nat
  le_place :: line_place

definition line_end_of :: "buffer_text \<Rightarrow> nat \<Rightarrow> nat \<Rightarrow> line_end option" where
  "line_end_of text end line = do {
     old \<leftarrow> char_to_line text end;
     newline \<leftarrow> line_break (rope text) old;
     place \<leftarrow> (if end = newline then Some AtBreak
               else map_option AtCol (char_col_in_line (rope text) old end));
     Some \<lparr>le_line = line, le_place = place\<rparr> }"

definition line_end_resolve :: "segmentation \<Rightarrow> line_end \<Rightarrow> buffer_text \<Rightarrow> nat option" where
  "line_end_resolve B self text = do {
     ensure (le_line self \<le> last_content_line (rope text));
     case le_place self of
       AtBreak \<Rightarrow> line_break (rope text) (le_line self)
     | AtCol col \<Rightarrow> place_char_column B (rope text) (le_line self) col }"

datatype landing =
    CursorAt new_pos
  | CursorEndingAt new_pos
  | Covering mark facing
  | LineStartOf new_pos
  | Kept selection assoc
  | AtLines selection line_end line_end

definition landing_kept_with :: "selection \<Rightarrow> assoc \<Rightarrow> landing" where
  "landing_kept_with sel a = Kept (without_sticky sel) a"

definition landing_at_lines ::
  "buffer_text \<Rightarrow> selection \<Rightarrow> nat \<Rightarrow> nat \<Rightarrow> landing option"
where
  "landing_at_lines text sel first final = do {
     ensure (first \<le> final);
     f \<leftarrow> line_end_of text (sel_start sel) first;
     l \<leftarrow> line_end_of text (sel_last sel) final;
     Some (AtLines (without_sticky sel) f l) }"

definition place :: "(nat \<times> nat) list \<Rightarrow> new_pos \<Rightarrow> nat option" where
  "place placed pos = do {
     (start, end) \<leftarrow> nth_opt placed (np_index pos);
     Some (if np_after pos then end else start) }"

definition landing_resolve :: "segmentation \<Rightarrow> text_change \<Rightarrow> (nat \<times> nat) list \<Rightarrow>
    landing \<Rightarrow> resolver \<Rightarrow> (selection \<times> resolver) option" where
  "landing_resolve B ch placed self r = do {
     let text = tc_after ch;
     case self of
       CursorAt at \<Rightarrow> do {
         at \<leftarrow> place placed at;
         ensure (at \<le> len_chars text);
         at \<leftarrow> snap B text at;
         Some (sel_cursor at, r) }
     | CursorEndingAt end \<Rightarrow> do {
         end \<leftarrow> place placed end;
         starts_line \<leftarrow> (if end < len_chars text then do {
             line \<leftarrow> char_to_line text end;
             start \<leftarrow> line_start (rope text) line;
             Some (start = end) }
           else Some False);
         at \<leftarrow> (if starts_line then snap B text end
               else do { prior \<leftarrow> checked_sub end 1; snap B text prior });
         Some (sel_cursor at, r) }
     | Covering mark facing \<Rightarrow> do {
         start \<leftarrow> place placed (mk_start mark);
         end \<leftarrow> place placed (mk_end mark);
         ensure (start \<le> end);
         case covering B (rope text) start end of
           Some rng \<Rightarrow> Some (sel_covering rng facing, r)
         | None \<Rightarrow> do { at \<leftarrow> snap B text start; Some (sel_cursor at, r) } }
     | LineStartOf at \<Rightarrow> do {
         at \<leftarrow> place placed at;
         line \<leftarrow> char_to_line text at;
         start \<leftarrow> line_start (rope text) line;
         Some (sel_cursor start, r) }
     | Kept sel a \<Rightarrow> carry B ch r sel a
     | AtLines sel first final \<Rightarrow> do {
         first \<leftarrow> line_end_resolve B first text;
         final \<leftarrow> line_end_resolve B final text;
         Some (with_ends sel first final, r) } }"

fun landings_resolve :: "segmentation \<Rightarrow> text_change \<Rightarrow> (nat \<times> nat) list \<Rightarrow>
    landing list \<Rightarrow> resolver \<Rightarrow> selection list option" where
  "landings_resolve B ch placed [] r = Some []"
| "landings_resolve B ch placed (l # ls) r = do {
     (s, r) \<leftarrow> landing_resolve B ch placed l r;
     ss \<leftarrow> landings_resolve B ch placed ls r;
     Some (s # ss) }"

record landings =
  ls_items :: "landing list"
  ls_primary :: nat

definition landings_new :: "landing list \<Rightarrow> nat \<Rightarrow> landings option" where
  "landings_new items p = do {
     ensure (items \<noteq> []);
     ensure (p < length items);
     Some \<lparr>ls_items = items, ls_primary = p\<rparr> }"

definition eb_finish ::
  "segmentation \<Rightarrow> store \<Rightarrow> edit_builder \<Rightarrow> landings \<Rightarrow> (store \<times> edited) option"
where
  "eb_finish B st b results = do {
     (st, text, changes, placed) \<leftarrow> apply_keeping_final_break st (eb_text b) drive b;
     change \<leftarrow> text_change_new (eb_text b) text changes;
     ss \<leftarrow> landings_resolve B change placed (ls_items results) (resolver_new change);
     selections \<leftarrow> from_parts ss (ls_primary results) (version text);
     state \<leftarrow> from_set B text selections;
     Some (st, \<lparr>ed_state = state, ed_changes = changes, ed_base = version (eb_text b)\<rparr>) }"

text \<open>\<open>edit\<close>: build, then finish.\<close>

definition edit :: "segmentation \<Rightarrow> store \<Rightarrow> edit_state \<Rightarrow>
    (edit_builder \<Rightarrow> (landings \<times> edit_builder) option) \<Rightarrow> (store \<times> edited) option" where
  "edit B st state build = do {
     (results, b) \<leftarrow> build (eb_new (es_text state));
     eb_finish B st b results }"

section \<open>What the operations ask for\<close>

text \<open>The text an edit describes, position by position: what is inserted there, in recorded order,
  then the old char, unless a deletion covers it.\<close>

definition itext :: "item \<Rightarrow> ustring" where
  "itext x = (case it_kind x of InsertText s \<Rightarrow> s | ReplaceTo _ s _ \<Rightarrow> s | _ \<Rightarrow> [])"

definition iend :: "item \<Rightarrow> nat option" where
  "iend x = (case it_kind x of ReplaceTo e _ _ \<Rightarrow> Some e | DeleteTo e \<Rightarrow> Some e | _ \<Rightarrow> None)"

definition clip :: "nat option \<Rightarrow> nat \<Rightarrow> nat" where
  "clip c e = (case c of None \<Rightarrow> e | Some m \<Rightarrow> min e m)"

definition ins_at :: "item list \<Rightarrow> nat \<Rightarrow> ustring" where
  "ins_at xs i = concat (map itext (filter (\<lambda>x. it_key x = i) xs))"

definition gone :: "nat option \<Rightarrow> item list \<Rightarrow> nat \<Rightarrow> bool" where
  "gone c xs i = (\<exists>x \<in> set xs. it_key x \<le> i \<and>
     (case iend x of Some e \<Rightarrow> i < clip c e | None \<Rightarrow> False))"

definition part :: "nat option \<Rightarrow> item list \<Rightarrow> ustring \<Rightarrow> nat \<Rightarrow> ustring" where
  "part c xs t i = ins_at xs i @ (if i < length t \<and> \<not> gone c xs i then [t ! i] else [])"

definition merged :: "nat option \<Rightarrow> item list \<Rightarrow> ustring \<Rightarrow> ustring" where
  "merged c xs t = concat (map (part c xs t) [0..<Suc (length t)])"

text \<open>A replacement is a deletion and an insertion.\<close>

definition del_item :: "nat \<Rightarrow> nat \<Rightarrow> item" where
  "del_item k e = \<lparr>it_key = k, it_kind = DeleteTo e\<rparr>"

definition ins_item :: "nat \<Rightarrow> ustring \<Rightarrow> item" where
  "ins_item k s = \<lparr>it_key = k, it_kind = InsertText s\<rparr>"

definition split_item :: "item \<Rightarrow> item list" where
  "split_item x = (case it_kind x of
     ReplaceTo e s _ \<Rightarrow> [del_item (it_key x) e, ins_item (it_key x) s]
   | AnchorHere \<Rightarrow> [] | _ \<Rightarrow> [x])"

lemma item_simps [simp]:
  "itext (del_item k e) = []" "itext (ins_item k s) = s" "iend (del_item k e) = Some e"
  "iend (ins_item k s) = None" "it_key (del_item k e) = k" "it_key (ins_item k s) = k"
  by (simp_all add: itext_def iend_def del_item_def ins_item_def)

lemma ins_at_simps [simp]:
  "ins_at [] i = []" "ins_at (x # xs) i = (if it_key x = i then itext x else []) @ ins_at xs i"
  "ins_at (xs @ ys) i = ins_at xs i @ ins_at ys i"
  by (simp_all add: ins_at_def)

lemma gone_simps [simp]:
  "gone c [] i = False"
  "gone c (x # xs) i = ((it_key x \<le> i \<and> (case iend x of Some e \<Rightarrow> i < clip c e | None \<Rightarrow> False)) \<or> gone c xs i)"
  "gone c (xs @ ys) i = (gone c xs i \<or> gone c ys i)"
  by (auto simp: gone_def)

lemma ins_at_none: "\<forall>x \<in> set xs. it_key x \<noteq> i \<or> itext x = [] \<Longrightarrow> ins_at xs i = []"
  by (induction xs) auto

lemma split_same:
  "ins_at (split_item x) i = ins_at [x] i" "gone c (split_item x) i = gone c [x] i"
  by (cases "it_kind x"; auto simp: split_item_def itext_def iend_def del_item_def ins_item_def)+

lemma split_all_same:
  "ins_at (concat (map split_item xs)) i = ins_at xs i"
  "gone c (concat (map split_item xs)) i = gone c xs i"
  by (induction xs) (use split_same in auto)

lemma merged_split: "merged c (concat (map split_item xs)) t = merged c xs t"
proof -
  have "part c (concat (map split_item xs)) t = part c xs t"
    by (rule ext) (simp add: part_def split_all_same)
  then show ?thesis by (simp add: merged_def)
qed

text \<open>The order a builder drives in keeps the items of one position in recorded order.\<close>

lemma drive_order_props:
  "distinct (drive_order items)" "set (drive_order items) = {..<length items}"
  "sorted (map (\<lambda>j. it_key (items ! j)) (drive_order items))"
  "map ((!) items) (filter (\<lambda>j. it_key (items ! j) = k) (drive_order items)) =
     filter (\<lambda>x. it_key x = k) items"
proof -
  show "distinct (drive_order items)" "set (drive_order items) = {..<length items}"
    by (auto simp: drive_order_def)
  have "sorted (map (\<lambda>j. (it_key (items ! j), j)) (drive_order items))"
    unfolding drive_order_def by (rule sorted_sort_key)
  then show "sorted (map (\<lambda>j. it_key (items ! j)) (drive_order items))"
    by (auto simp: sorted_map intro: sorted_wrt_mono_rel [rotated])
  have "filter (\<lambda>j. it_key (items ! j) = k) (drive_order items) =
      sort_key (\<lambda>j. (it_key (items ! j), j)) (filter (\<lambda>j. it_key (items ! j) = k) [0..<length items])"
    by (simp add: drive_order_def filter_sort)
  also have "\<dots> = filter (\<lambda>j. it_key (items ! j) = k) [0..<length items]"
  proof (rule sort_key_sorted)
    let ?js = "filter (\<lambda>j. it_key (items ! j) = k) [0..<length items]"
    have "map (\<lambda>j. (it_key (items ! j), j)) ?js = map (Pair k) ?js" by (rule map_cong) auto
    moreover have "sorted ?js" by (rule sorted_wrt_filter) simp
    then have "sorted (map (Pair k) ?js)" by (simp add: sorted_map)
    ultimately show "sorted (map (\<lambda>j. (it_key (items ! j), j)) ?js)" by (simp only:)
  qed
  finally show "map ((!) items) (filter (\<lambda>j. it_key (items ! j) = k) (drive_order items)) =
      filter (\<lambda>x. it_key x = k) items"
    using filter_map [of "\<lambda>x. it_key x = k" "(!) items" "[0..<length items]"] map_nth [of items]
    by (simp add: comp_def)
qed

definition driven :: "item list \<Rightarrow> item list" where
  "driven items = map ((!) items) (drive_order items)"

lemma merged_driven: "merged c (driven items) t = merged c items t"
proof -
  have "filter (\<lambda>x. it_key x = k) (driven items) = filter (\<lambda>x. it_key x = k) items" for k
    using drive_order_props(4) [of items k] by (simp add: driven_def filter_map comp_def)
  then have "ins_at (driven items) = ins_at items" by (simp add: ins_at_def fun_eq_iff)
  moreover have "set (driven items) = set items"
    using nth_image [of "length items" items]
    by (simp add: driven_def drive_order_props(2) lessThan_atLeast0)
  then have "gone c (driven items) = gone c items" by (simp add: gone_def fun_eq_iff)
  ultimately have "part c (driven items) t = part c items t" by (intro ext) (simp add: part_def)
  then show ?thesis by (simp add: merged_def)
qed

section \<open>Driving makes that text\<close>

text \<open>What holds between two steps: \<open>P\<close> are the operations so far, \<open>K\<close> the last position.\<close>

definition drive_inv :: "nat option \<Rightarrow> ustring \<Rightarrow> item list \<Rightarrow> builder \<Rightarrow> nat \<Rightarrow> bool" where
  "drive_inv c t P b K \<longleftrightarrow> builder_ok b \<and> doc_len b = length t \<and> K \<le> bd_old b \<and>
     (\<forall>x \<in> set P. it_key x \<le> K \<and> (\<forall>e. iend x = Some e \<longrightarrow> clip c e \<le> bd_old b)) \<and>
     (\<forall>i. K \<le> i \<and> i < bd_old b \<longrightarrow> gone c P i) \<and>
     built b t = concat (map (part c P t) [0..<bd_old b]) @ ins_at P (bd_old b)"

lemma drive_inv_start: "drive_inv c t [] (builder_new (length t)) 0"
  using builder_new_ok(1) [of "length t"] builder_new_ok(2) [of "length t" t]
  by (simp add: drive_inv_def) (simp add: builder_new_def)

lemma concat_parts_split:
  assumes "a \<le> b"
  shows "concat (map f [0..<b]) = concat (map f [0..<a]) @ concat (map f [a..<b])"
  using assms upt_add_eq_append [of 0 a "b - a"] by simp

lemma parts_kept:
  assumes "b \<le> length t" "\<forall>i. a \<le> i \<and> i < b \<longrightarrow> ins_at P i = [] \<and> \<not> gone c P i"
  shows "concat (map (part c P t) [a..<b]) = slice t a b"
  using assms
proof (induction b)
  case (Suc b)
  show ?case
  proof (cases "a \<le> b")
    case True
    then have "part c P t b = [t ! b]" using Suc.prems by (simp add: part_def)
    moreover have "slice t a (Suc b) = slice t a b @ [t ! b]"
    proof -
      have "Suc b - a = Suc (b - a)" "b - a < length (drop a t)" using True Suc.prems(1) by auto
      then show ?thesis using True Suc.prems(1) by (simp add: slice_def take_Suc_conv_app_nth)
    qed
    ultimately show ?thesis using Suc True by simp
  next
    case False
    then show ?thesis by (simp add: slice_def)
  qed
qed (simp add: slice_def)

lemma parts_gone:
  assumes "\<forall>i. a \<le> i \<and> i < b \<longrightarrow> ins_at P i = [] \<and> gone c P i"
  shows "concat (map (part c P t) [a..<b]) = []"
  using assms by (simp add: part_def)

text \<open>Retaining up to a position past the operations so far.\<close>

lemma drive_inv_retain:
  assumes "drive_inv c t P b K" "K \<le> k" "bd_old b < k" "k \<le> length t"
  obtains b' where "retain_to b k = Some b'" "bd_old b' = k" "drive_inv c t P b' k" "bd_new b' = bd_new b + (k - bd_old b)"
proof -
  have ok: "builder_ok b" "doc_len b = length t" using assms(1) by (simp_all add: drive_inv_def)
  have "bd_old b \<le> doc_len b" using ok(1) by (simp add: builder_ok_def)
  then obtain b' where b': "retain_to b k = Some b'"
    using builder_steps_total(3) [of b k] assms(3,4) ok(2) by auto
  note r = retain_to_Some [OF b' ok(1), of t]
  let ?o = "bd_old b"
  have none: "\<forall>x \<in> set P. it_key x \<le> K \<and> (\<forall>e. iend x = Some e \<longrightarrow> clip c e \<le> ?o)" "K \<le> ?o"
    using assms(1) by (simp_all add: drive_inv_def)
  have ins: "ins_at P i = []" if "?o < i" for i
    by (rule ins_at_none) (use none that in fastforce)
  have ng: "\<not> gone c P i" if "?o \<le> i" for i
    using none(1) that by (fastforce simp: gone_def split: option.splits)
  have o: "part c P t ?o = ins_at P ?o @ [t ! ?o]" using ng [of ?o] assms(3,4) by (simp add: part_def)
  have "concat (map (part c P t) [?o..<k]) = part c P t ?o @ concat (map (part c P t) [Suc ?o..<k])"
    using assms(3) by (simp add: upt_conv_Cons)
  also have "\<dots> = ins_at P ?o @ [t ! ?o] @ slice t (Suc ?o) k"
    using parts_kept [of k t "Suc ?o" P c] assms(4) ins ng o by simp
  also have "\<dots> = ins_at P ?o @ slice t ?o k"
  proof -
    have "k - ?o = Suc (k - Suc ?o)" using assms(3) by simp
    then show ?thesis using assms(3,4) Cons_nth_drop_Suc [of ?o t] by (simp add: slice_def take_Suc_Cons [symmetric])
  qed
  finally have "built b' t = concat (map (part c P t) [0..<k])"
    using r assms(1,3) concat_parts_split [of ?o k "part c P t"] by (simp add: drive_inv_def)
  then have "drive_inv c t P b' k"
    using r none assms(2,3) ins [of k] ok(2) by (fastforce simp: drive_inv_def)
  moreover have "bd_new b' = bd_new b + (k - ?o)"
    using b' by (auto simp: retain_to_def chars_since_def builder_retain_def split: if_splits)
  ultimately show thesis using that [OF b'] r by blast
qed

lemma drive_inv_later: "drive_inv c t P b K \<Longrightarrow> K \<le> k \<Longrightarrow> k \<le> bd_old b \<Longrightarrow> drive_inv c t P b k"
  unfolding drive_inv_def by (meson le_trans)

text \<open>A deletion, and an insertion, at the last position.\<close>

lemma drive_inv_delete:
  assumes "drive_inv c t P b k" "e \<le> length t"
  shows "clip c e \<le> bd_old b \<Longrightarrow> drive_inv c t (P @ [del_item k e]) b k"
    and "bd_old b < clip c e \<Longrightarrow> \<exists>b'. delete_to b (clip c e) = Some b' \<and>
      bd_old b' = clip c e \<and> bd_new b' = bd_new b \<and> drive_inv c t (P @ [del_item k e]) b' k"
proof -
  let ?o = "bd_old b" and ?P = "P @ [del_item k e]"
  have inv: "builder_ok b" "doc_len b = length t" "k \<le> ?o"
    "\<forall>x \<in> set P. it_key x \<le> k \<and> (\<forall>e. iend x = Some e \<longrightarrow> clip c e \<le> ?o)"
    "\<forall>i. k \<le> i \<and> i < ?o \<longrightarrow> gone c P i"
    "built b t = concat (map (part c P t) [0..<?o]) @ ins_at P ?o"
    using assms(1) by (auto simp: drive_inv_def)
  have same: "part c ?P t i = part c P t i" if "i < ?o" for i
    using inv(5) that by (cases "k \<le> i") (simp_all add: part_def)
  then have parts: "concat (map (part c ?P t) [0..<?o]) = concat (map (part c P t) [0..<?o])"
    by (intro arg_cong [where f = concat] map_cong) simp_all
  show "drive_inv c t ?P b k" if "clip c e \<le> ?o"
    unfolding drive_inv_def using inv parts that by simp
  show "\<exists>b'. delete_to b (clip c e) = Some b' \<and> bd_old b' = clip c e \<and> bd_new b' = bd_new b \<and>
      drive_inv c t ?P b' k" if lt: "?o < clip c e"
  proof -
    let ?e = "clip c e"
    have "?e \<le> length t" using assms(2) by (auto simp: clip_def split: option.splits)
    moreover have "?o \<le> doc_len b" using inv(1) by (simp add: builder_ok_def)
    ultimately obtain b' where b': "delete_to b ?e = Some b'"
      using builder_steps_total(4) [of b ?e] lt inv(2) by auto
    note r = delete_to_Some [OF b' inv(1), of t]
    have ins: "ins_at ?P i = []" if "?o < i" for i
      by (rule ins_at_none) (use inv(3,4) that in \<open>fastforce simp: del_item_def itext_def\<close>)
    have g: "gone c ?P i" if "k \<le> i" "i < ?e" for i using that by simp
    have "part c ?P t ?o = ins_at P ?o" using g [of ?o] inv(3) lt by (simp add: part_def)
    then have "concat (map (part c ?P t) [?o..<?e]) = ins_at P ?o"
      using lt ins g inv(3) parts_gone [of "Suc ?o" ?e ?P c t] by (simp add: upt_conv_Cons)
    then have "built b' t = concat (map (part c ?P t) [0..<?e]) @ ins_at ?P ?e"
      using r inv(6) parts concat_parts_split [of ?o ?e "part c ?P t"] lt ins [of ?e] by simp
    then have "drive_inv c t ?P b' k"
      unfolding drive_inv_def using r inv(2,3,4) lt g by (auto intro: order_trans less_imp_le)
    moreover have "bd_new b' = bd_new b"
      using b' by (auto simp: delete_to_def chars_since_def builder_delete_def split: if_splits)
    ultimately show ?thesis using b' r by blast
  qed
qed

lemma drive_inv_insert:
  assumes "drive_inv c t P b k" "CR \<notin> set s"
  shows "drive_inv c t (P @ [ins_item k s]) (insert_normalized b s) k"
proof -
  let ?o = "bd_old b" and ?P = "P @ [ins_item k s]"
  have inv: "builder_ok b" "doc_len b = length t" "k \<le> ?o"
    "\<forall>x \<in> set P. it_key x \<le> k \<and> (\<forall>e. iend x = Some e \<longrightarrow> clip c e \<le> ?o)"
    "\<forall>i. k \<le> i \<and> i < ?o \<longrightarrow> gone c P i"
    "built b t = concat (map (part c P t) [0..<?o]) @ ins_at P ?o"
    using assms(1) by (auto simp: drive_inv_def)
  have ins: "ins_at P i = []" if "k < i" for i
    by (rule ins_at_none) (use inv(4) that in fastforce)
  have below: "concat (map (part c ?P t) [0..<k]) = concat (map (part c P t) [0..<k])"
    by (intro arg_cong [where f = concat] map_cong) (simp_all add: part_def)
  have "concat (map (part c ?P t) [0..<?o]) @ ins_at ?P ?o =
      concat (map (part c P t) [0..<?o]) @ ins_at P ?o @ s"
  proof (cases "k = ?o")
    case True
    then show ?thesis using below by simp
  next
    case False
    then have k: "k < ?o" using inv(3) by simp
    have "part c P t k = ins_at P k" "part c ?P t k = ins_at P k @ s"
      using inv(5) k by (simp_all add: part_def)
    moreover have "concat (map (part c P t) [Suc k..<?o]) = []"
      by (rule parts_gone) (use inv(5) ins in simp)
    moreover have "concat (map (part c ?P t) [Suc k..<?o]) = []"
      by (rule parts_gone) (use inv(5) ins in simp)
    moreover have "concat (map f [0..<?o]) = concat (map f [0..<k]) @ f k @ concat (map f [Suc k..<?o])"
      for f :: "nat \<Rightarrow> ustring"
      using concat_parts_split [of k ?o f] k by (simp add: upt_conv_Cons)
    ultimately show ?thesis using below ins [of ?o] k by (simp only: append_Nil2 append.assoc) simp
  qed
  then show ?thesis
    unfolding drive_inv_def using insert_normalized_ok [OF inv(1) assms(2), of t] inv by auto
qed

section \<open>One step, and the loop\<close>

definition item_ok :: "ustring \<Rightarrow> item \<Rightarrow> bool" where
  "item_ok t x = (it_key x \<le> length t \<and>
     (case it_kind x of
        DeleteTo e \<Rightarrow> it_key x < e \<and> e \<le> length t
      | InsertText s \<Rightarrow> s \<noteq> [] \<and> CR \<notin> set s \<and> (it_key x = length t \<longrightarrow> ends_with_lf s)
      | ReplaceTo e s u \<Rightarrow> it_key x < e \<and> e \<le> length t \<and> CR \<notin> set s \<and> (u \<longrightarrow> s = slice t (it_key x) e)
      | AnchorHere \<Rightarrow> True))"

text \<open>The positions handed out are in order and inside the new text, counting what is sure to be
  retained up to \<open>E\<close>.\<close>

definition placed_ok :: "drive_vars \<Rightarrow> nat \<Rightarrow> bool" where
  "placed_ok v E = (E \<le> doc_len (dv_changes v) \<and>
     (\<forall>p \<in> set (dv_placed v). fst p \<le> snd p \<and>
        snd p \<le> bd_new (dv_changes v) + (E - bd_old (dv_changes v))) \<and>
     (\<forall>d. dv_deletion v = Some d \<longrightarrow> snd d \<le> bd_new (dv_changes v)))"

definition skips_item :: "item \<Rightarrow> item list \<Rightarrow> bool" where
  "skips_item x later = (\<exists>e s. it_kind x = ReplaceTo e s True \<and>
     list_all (\<lambda>l. it_kind l = AnchorHere) (takeWhile (\<lambda>l. it_key l < e) later))"

lemma leave_unchanged_eq:
  "leave_unchanged x old later = (if old = it_key x \<and> skips_item x later then iend x else None)"
  by (auto simp: leave_unchanged_def skips_item_def iend_def split: item_kind.splits bool.splits)

text \<open>Moving to the item's position.\<close>

definition drive_seek :: "item \<Rightarrow> drive_vars \<Rightarrow> drive_vars option" where
  "drive_seek x v =
     (if it_key x > bd_old (dv_changes v) then do {
        changes \<leftarrow> retain_to (dv_changes v) (it_key x);
        Some (v\<lparr>dv_changes := changes, dv_deletion := None\<rparr>) }
      else Some v)"

lemma drive_seek_ok:
  assumes "drive_inv c t P (dv_changes v) K" "K \<le> it_key x" "item_ok t x" "placed_ok v E"
  obtains v' where "drive_seek x v = Some v'" "drive_inv c t P (dv_changes v') (it_key x)"
    "placed_ok v' E" "dv_items v' = dv_items v" "dv_placed v' = dv_placed v"
    "bd_old (dv_changes v) \<le> bd_old (dv_changes v')"
proof (cases "it_key x > bd_old (dv_changes v)")
  case True
  have k: "it_key x \<le> length t" using assms(3) by (simp add: item_ok_def)
  obtain b' where b': "retain_to (dv_changes v) (it_key x) = Some b'" "bd_old b' = it_key x"
    "drive_inv c t P b' (it_key x)" "bd_new b' = bd_new (dv_changes v) + (it_key x - bd_old (dv_changes v))"
    by (rule drive_inv_retain [OF assms(1,2) True k])
  have "doc_len b' = doc_len (dv_changes v)" using assms(1) b'(3) by (simp add: drive_inv_def)
  then have "placed_ok (v\<lparr>dv_changes := b', dv_deletion := None\<rparr>) E"
    using assms(4) b'(2,4) True by (fastforce simp: placed_ok_def)
  with b' True show ?thesis
    by (intro that [of "v\<lparr>dv_changes := b', dv_deletion := None\<rparr>"]) (simp_all add: drive_seek_def)
next
  case False
  with assms show ?thesis
    by (intro that [of v]) (simp_all add: drive_seek_def drive_inv_later)
qed

lemma drive_remove_ok:
  assumes "drive_inv c t P (dv_changes v) (it_key x)" "item_ok t x" "placed_ok v E"
    "iend x \<noteq> None \<longrightarrow> E \<le> it_key x"
  obtains v' where "drive_remove c x v = Some v'"
    "drive_inv c t (P @ (case iend x of Some e \<Rightarrow> [del_item (it_key x) e] | None \<Rightarrow> [])) (dv_changes v') (it_key x)"
    "placed_ok v' E" "dv_items v' = dv_items v" "dv_placed v' = dv_placed v"
    "bd_new (dv_changes v') = bd_new (dv_changes v)"
proof (cases "iend x")
  case None
  then show ?thesis using assms
    by (intro that [of v]) (auto simp: drive_remove_def iend_def split: item_kind.splits)
next
  case (Some e)
  have e: "e \<le> length t" using Some assms(2)
    by (auto simp: item_ok_def iend_def split: item_kind.splits)
  have clip: "(case c of None \<Rightarrow> e | Some m \<Rightarrow> min e m) = clip c e" by (simp add: clip_def)
  have E: "E \<le> it_key x" "it_key x \<le> bd_old (dv_changes v)"
    using assms(1,4) Some by (auto simp: drive_inv_def)
  have kind: "drive_remove c x v = (if clip c e > bd_old (dv_changes v) then do {
            changes \<leftarrow> delete_to (dv_changes v) (clip c e);
            Some (v\<lparr>dv_deletion := (case dv_deletion v of Some d \<Rightarrow> Some d
                            | None \<Rightarrow> Some (it_key x, bd_new (dv_changes v))), dv_changes := changes\<rparr>) }
          else Some v)"
    using Some by (auto simp: drive_remove_def iend_def Let_def clip split: item_kind.splits)
  show ?thesis
  proof (cases "clip c e > bd_old (dv_changes v)")
    case False
    then show ?thesis
      using drive_inv_delete(1) [OF assms(1) e] kind assms(3) Some by (intro that [of v]) simp_all
  next
    case True
    obtain b' where b': "delete_to (dv_changes v) (clip c e) = Some b'" "bd_old b' = clip c e"
      "bd_new b' = bd_new (dv_changes v)" "drive_inv c t (P @ [del_item (it_key x) e]) b' (it_key x)"
      using drive_inv_delete(2) [OF assms(1) e True] by blast
    let ?v = "v\<lparr>dv_deletion := (case dv_deletion v of Some d \<Rightarrow> Some d
                            | None \<Rightarrow> Some (it_key x, bd_new (dv_changes v))), dv_changes := b'\<rparr>"
    have "doc_len b' = doc_len (dv_changes v)" using assms(1) b'(4) by (simp add: drive_inv_def)
    then have "placed_ok ?v E"
      using assms(3) b'(2,3) E True by (auto simp: placed_ok_def split: option.splits)
    with b' True kind Some show ?thesis by (intro that [of ?v]) simp_all
  qed
qed

lemma drive_insert_ok:
  assumes "drive_inv c t P (dv_changes v) (it_key x)" "item_ok t x" "placed_ok v E"
  shows "drive_inv c t (P @ (case it_kind x of ReplaceTo _ s _ \<Rightarrow> [ins_item (it_key x) s]
        | InsertText s \<Rightarrow> [ins_item (it_key x) s] | _ \<Rightarrow> [])) (dv_changes (drive_insert x v)) (it_key x)"
    "placed_ok (drive_insert x v) E" "dv_items (drive_insert x v) = dv_items v"
    "dv_placed (drive_insert x v) = dv_placed v"
    "bd_new (dv_changes v) \<le> bd_new (dv_changes (drive_insert x v))"
proof -
  show "drive_inv c t (P @ (case it_kind x of ReplaceTo _ s _ \<Rightarrow> [ins_item (it_key x) s]
        | InsertText s \<Rightarrow> [ins_item (it_key x) s] | _ \<Rightarrow> [])) (dv_changes (drive_insert x v)) (it_key x)"
    using assms(1,2) drive_inv_insert [OF assms(1)]
    by (cases "it_kind x") (simp_all add: drive_insert_def item_ok_def)
  show "placed_ok (drive_insert x v) E" "dv_items (drive_insert x v) = dv_items v"
    "dv_placed (drive_insert x v) = dv_placed v"
    "bd_new (dv_changes v) \<le> bd_new (dv_changes (drive_insert x v))"
    using assms(3)
    by (cases "it_kind x"; fastforce simp: drive_insert_def placed_ok_def insert_normalized_def)+
qed

lemma split_item_parts:
  "split_item x = (case iend x of Some e \<Rightarrow> [del_item (it_key x) e] | None \<Rightarrow> []) @
     (case it_kind x of ReplaceTo _ s _ \<Rightarrow> [ins_item (it_key x) s]
        | InsertText s \<Rightarrow> [ins_item (it_key x) s] | _ \<Rightarrow> [])"
  by (cases x) (auto simp: split_item_def iend_def del_item_def ins_item_def split: item_kind.splits)

lemma placed_ok_update:
  assumes "placed_ok v E" "a \<le> b" "b \<le> bd_new (dv_changes v) + (E - bd_old (dv_changes v))"
  shows "placed_ok (v\<lparr>dv_placed := (dv_placed v)[i := (a, b)]\<rparr>) E"
  using assms by (auto simp: placed_ok_def dest!: set_update_subset_insert [THEN subsetD])

lemma placed_ok_mono:
  "placed_ok v E \<Longrightarrow> E \<le> E' \<Longrightarrow> E' \<le> doc_len (dv_changes v) \<Longrightarrow> placed_ok v E'"
  unfolding placed_ok_def by (meson add_left_mono diff_le_mono le_trans)

lemma placed_ok_items [simp]: "placed_ok (v\<lparr>dv_items := is\<rparr>) E = placed_ok v E"
  by (simp add: placed_ok_def)

lemma drive_step_unfold:
  assumes "index < length (dv_items v)" "dv_items v ! index = x" "drive_seek x v = Some w"
  shows "drive_step rr c index later v =
     (case leave_unchanged x (bd_old (dv_changes w)) (map ((!) (dv_items w)) later) of
       Some e \<Rightarrow> do {
         len \<leftarrow> chars_since e (it_key x);
         Some (w\<lparr>dv_placed := (dv_placed w)[index := (bd_new (dv_changes w), bd_new (dv_changes w) + len)]\<rparr>) }
     | None \<Rightarrow> do {
         let w' = w\<lparr>dv_items := (if rr then dv_items w
                    else (dv_items w)[index := x\<lparr>it_kind := taken_text (it_kind x)\<rparr>])\<rparr>;
         w' \<leftarrow> drive_remove c x w';
         let w' = drive_insert x w';
         let placed = (case (it_kind x, dv_deletion w') of
             (AnchorHere, Some (start, at)) \<Rightarrow>
               if it_key x > start \<and> it_key x < bd_old (dv_changes w') then (at, at)
               else (bd_new (dv_changes w), bd_new (dv_changes w'))
           | _ \<Rightarrow> (bd_new (dv_changes w), bd_new (dv_changes w')));
         Some (w'\<lparr>dv_placed := (dv_placed w')[index := placed]\<rparr>) })"
  using assms unfolding drive_step_def drive_seek_def nth_opt_def Let_def
  by (cases "it_key x > bd_old (dv_changes v)"; cases "retain_to (dv_changes v) (it_key x)") simp_all

lemma drive_step_ok:
  assumes "drive_inv c t P (dv_changes v) K" "K \<le> it_key x" "item_ok t x" "placed_ok v E"
    "index < length (dv_items v)" "dv_items v ! index = x" "it_key x < E \<longrightarrow> it_kind x = AnchorHere"
  obtains (applied) v' where "drive_step rr c index later v = Some v'"
      "drive_inv c t (P @ split_item x) (dv_changes v') (it_key x)" "placed_ok v' E"
      "length (dv_items v') = length (dv_items v)" "length (dv_placed v') = length (dv_placed v)"
      "\<And>j. j \<noteq> index \<Longrightarrow> dv_items v' ! j = dv_items v ! j" "rr \<Longrightarrow> dv_items v' = dv_items v"
  | (skipped) v' e where "drive_step rr c index later v = Some v'" "iend x = Some e"
      "skips_item x (map ((!) (dv_items v)) later)" "bd_old (dv_changes v') = it_key x"
      "drive_inv c t P (dv_changes v') (it_key x)" "placed_ok v' e"
      "dv_items v' = dv_items v" "length (dv_placed v') = length (dv_placed v)"
proof -
  obtain w where w: "drive_seek x v = Some w" "drive_inv c t P (dv_changes w) (it_key x)"
    "placed_ok w E" "dv_items w = dv_items v" "dv_placed w = dv_placed v"
    by (rule drive_seek_ok [OF assms(1-4)]) blast
  note unf = drive_step_unfold [OF assms(5,6) w(1), of rr c later]
  show thesis
  proof (cases "leave_unchanged x (bd_old (dv_changes w)) (map ((!) (dv_items w)) later)")
    case (Some e)
    then have e: "bd_old (dv_changes w) = it_key x" "skips_item x (map ((!) (dv_items v)) later)"
      "iend x = Some e" using w(4) by (simp_all add: leave_unchanged_eq split: if_splits)
    then have kind: "it_kind x \<noteq> AnchorHere" "it_key x < e" "e \<le> length t"
      using assms(3) by (auto simp: skips_item_def iend_def item_ok_def)
    let ?n = "bd_new (dv_changes w)"
    have "E \<le> it_key x" using assms(7) kind(1) by (simp add: not_less)
    then have pe: "placed_ok w e"
      using placed_ok_mono [OF w(3)] kind(2,3) w(2) by (simp add: drive_inv_def)
    have "drive_step rr c index later v =
        Some (w\<lparr>dv_placed := (dv_placed w)[index := (?n, ?n + (e - it_key x))]\<rparr>)"
      using unf Some kind(2) by (simp add: chars_since_def)
    moreover have "placed_ok (w\<lparr>dv_placed := (dv_placed w)[index := (?n, ?n + (e - it_key x))]\<rparr>) e"
      by (rule placed_ok_update [OF pe]) (simp_all add: e(1))
    ultimately show thesis using e w
      by (intro skipped [of "w\<lparr>dv_placed := (dv_placed w)[index := (?n, ?n + (e - it_key x))]\<rparr>" e]) simp_all
  next
    case None
    let ?w1 = "w\<lparr>dv_items := (if rr then dv_items w
                    else (dv_items w)[index := x\<lparr>it_kind := taken_text (it_kind x)\<rparr>])\<rparr>"
    have Ex: "iend x \<noteq> None \<longrightarrow> E \<le> it_key x"
      using assms(7) by (auto simp: iend_def not_less split: item_kind.splits)
    obtain w2 where w2: "drive_remove c x ?w1 = Some w2"
      "drive_inv c t (P @ (case iend x of Some e \<Rightarrow> [del_item (it_key x) e] | None \<Rightarrow> [])) (dv_changes w2) (it_key x)"
      "placed_ok w2 E" "dv_items w2 = dv_items ?w1" "dv_placed w2 = dv_placed ?w1"
      "bd_new (dv_changes w2) = bd_new (dv_changes w)"
      using drive_remove_ok [of c t P ?w1 x E] w(2,3) assms(3) Ex by auto
    let ?w3 = "drive_insert x w2"
    note w3 = drive_insert_ok [OF w2(2) assms(3) w2(3)]
    define pl where "pl = (case (it_kind x, dv_deletion ?w3) of
             (AnchorHere, Some (start, at)) \<Rightarrow>
               if it_key x > start \<and> it_key x < bd_old (dv_changes ?w3) then (at, at)
               else (bd_new (dv_changes w), bd_new (dv_changes ?w3))
           | _ \<Rightarrow> (bd_new (dv_changes w), bd_new (dv_changes ?w3)))"
    have pl: "fst pl \<le> snd pl" "snd pl \<le> bd_new (dv_changes ?w3)"
      using w3(2,5) w2(6) by (auto simp: pl_def placed_ok_def split: item_kind.splits option.splits)
    have "drive_step rr c index later v = Some (?w3\<lparr>dv_placed := (dv_placed ?w3)[index := pl]\<rparr>)"
      using unf None w2(1) by (simp add: pl_def Let_def)
    moreover have "placed_ok (?w3\<lparr>dv_placed := (dv_placed ?w3)[index := pl]\<rparr>) E"
      using placed_ok_update [OF w3(2) pl(1), of index] pl(2) by simp
    moreover have "drive_inv c t (P @ split_item x) (dv_changes ?w3) (it_key x)"
      using w3(1) by (simp add: split_item_parts)
    ultimately show thesis using w(4,5) w2(4,5) w3(3,4) 
      by (intro applied [of "?w3\<lparr>dv_placed := (dv_placed ?w3)[index := pl]\<rparr>"]) simp_all
  qed
qed

text \<open>A replacement left unchanged has the effect of the one carried out.\<close>

lemma merged_skip:
  assumes "\<forall>y \<in> set P. it_key y \<le> it_key x \<and> (\<forall>e. iend y = Some e \<longrightarrow> clip c e \<le> it_key x)"
    and "item_ok t x" "it_kind x = ReplaceTo e s True" "clip c e = e"
    and "\<forall>y \<in> set rs. it_key x \<le> it_key y \<and> (it_key y < e \<longrightarrow> it_kind y = AnchorHere)"
  shows "merged c (P @ concat (map split_item rs)) t = merged c (P @ split_item x @ concat (map split_item rs)) t"
proof -
  let ?k = "it_key x" and ?n = "Suc (length t)"
  let ?Q = "concat (map split_item rs)"
  let ?L = "P @ ?Q" and ?R = "P @ split_item x @ ?Q"
  have x: "?k < e" "e \<le> length t" "s = slice t ?k e" using assms(2,3) by (simp_all add: item_ok_def)
  have sx: "split_item x = [del_item ?k e, ins_item ?k s]" using assms(3) by (simp add: split_item_def)
  have insP: "ins_at P i = []" if "?k < i" for i
    by (rule ins_at_none) (use assms(1) that in fastforce)
  have ngP: "\<not> gone c P i" if "?k \<le> i" for i
    using assms(1) that by (fastforce simp: gone_def split: option.splits)
  have insQ: "ins_at ?Q i = []" if "i < e" for i
    unfolding split_all_same by (rule ins_at_none) (use assms(5) that in \<open>auto simp: itext_def\<close>)
  have ngQ: "\<not> gone c ?Q i" if "i < e" for i
    unfolding split_all_same using assms(5) that
    by (fastforce simp: gone_def iend_def split: option.splits)
  have out: "part c ?L t i = part c ?R t i" if "i < ?k \<or> e \<le> i" for i
    using that x(1) assms(4) by (auto simp: part_def sx)
  have f: "concat (map f [0..<?n]) = concat (map f [0..<?k]) @ concat (map f [?k..<e]) @ concat (map f [e..<?n])"
    for f :: "nat \<Rightarrow> ustring"
    using concat_parts_split [of e ?n f] concat_parts_split [of ?k e f] x(1,2) by simp
  have l0: "part c ?L t ?k = ins_at P ?k @ [t ! ?k]"
    using insQ [of ?k] ngP [of ?k] ngQ [of ?k] x(1,2) by (simp add: part_def)
  have "concat (map (part c ?L t) [Suc ?k..<e]) = slice t (Suc ?k) e"
    by (rule parts_kept) (use x insP insQ ngP ngQ in auto)
  moreover have "slice t ?k e = t ! ?k # slice t (Suc ?k) e"
  proof -
    have "e - ?k = Suc (e - Suc ?k)" using x(1) by simp
    then show ?thesis using x Cons_nth_drop_Suc [of ?k t] by (simp add: slice_def take_Suc_Cons [symmetric])
  qed
  ultimately have L: "concat (map (part c ?L t) [?k..<e]) = ins_at P ?k @ s"
    using l0 x(1,3) by (simp add: upt_conv_Cons)
  have "part c ?R t ?k = ins_at P ?k @ s"
    using insQ [of ?k] x(1) assms(4) by (simp add: part_def sx)
  moreover have "concat (map (part c ?R t) [Suc ?k..<e]) = []"
    by (rule parts_gone) (use x insP insQ assms(4) in \<open>auto simp: sx\<close>)
  ultimately have R: "concat (map (part c ?R t) [?k..<e]) = ins_at P ?k @ s"
    using x(1) by (simp add: upt_conv_Cons)
  have "concat (map (part c ?L t) [0..<?k]) = concat (map (part c ?R t) [0..<?k])"
    by (rule arg_cong [where f = concat], rule map_cong [OF refl], rule out) auto
  moreover have "concat (map (part c ?L t) [e..<?n]) = concat (map (part c ?R t) [e..<?n])"
    by (rule arg_cong [where f = concat], rule map_cong [OF refl], rule out) auto
  ultimately show ?thesis unfolding merged_def f using L R by simp
qed

text \<open>Whatever follows the operations is retained.\<close>

lemma merged_rest:
  assumes "drive_inv c t P b K"
  shows "built b t @ drop (bd_old b) t = merged c P t"
proof -
  let ?o = "bd_old b" and ?n = "length t"
  have inv: "builder_ok b" "doc_len b = ?n" "K \<le> ?o"
    "\<forall>x \<in> set P. it_key x \<le> K \<and> (\<forall>e. iend x = Some e \<longrightarrow> clip c e \<le> ?o)"
    "built b t = concat (map (part c P t) [0..<?o]) @ ins_at P ?o"
    using assms by (auto simp: drive_inv_def)
  have o: "?o \<le> ?n" using inv(1,2) by (simp add: builder_ok_def)
  have ins: "ins_at P i = []" if "?o < i" for i
    by (rule ins_at_none) (use inv(3,4) that in fastforce)
  have ng: "\<not> gone c P i" if "?o \<le> i" for i
    using inv(4) that by (fastforce simp: gone_def split: option.splits)
  have "concat (map (part c P t) [?o..<Suc ?n]) = ins_at P ?o @ drop ?o t"
  proof (cases "?o = ?n")
    case True
    then show ?thesis by (simp add: part_def)
  next
    case False
    then have lt: "?o < ?n" using o by simp
    have "concat (map (part c P t) [Suc ?o..<?n]) = slice t (Suc ?o) ?n"
      by (rule parts_kept) (use ins ng in auto)
    moreover have "part c P t ?n = []" using ins [OF lt] by (simp add: part_def)
    moreover have "part c P t ?o = ins_at P ?o @ [t ! ?o]" using ng [of ?o] lt by (simp add: part_def)
    ultimately show ?thesis
      using lt Cons_nth_drop_Suc [OF lt] by (simp add: upt_conv_Cons slice_def)
  qed
  then show ?thesis
    using inv(5) concat_parts_split [of ?o "Suc ?n" "part c P t"] o by (simp add: merged_def)
qed

text \<open>Under a ceiling, no item is left unchanged that reaches past it.\<close>

definition skips_fit :: "nat option \<Rightarrow> item list \<Rightarrow> bool" where
  "skips_fit c rs = (\<forall>xs x ys e. rs = xs @ x # ys \<and> skips_item x ys \<and> iend x = Some e \<longrightarrow> clip c e = e)"

lemma skips_fit_Cons: "skips_fit c (x # rs) \<Longrightarrow> skips_fit c rs"
  unfolding skips_fit_def by (metis append_Cons)

lemma takeWhile_sorted:
  "sorted (map f xs) \<Longrightarrow> x \<in> set xs \<Longrightarrow> f x < e \<Longrightarrow> x \<in> set (takeWhile (\<lambda>l. f l < e) xs)"
  by (induction xs) auto

lemma drive_loop_ok:
  assumes "drive_inv c t P (dv_changes v) K" "placed_ok v E" "distinct js"
    and "\<forall>j \<in> set js. j < length (dv_items v)" "rs = map ((!) (dv_items v)) js"
    and "sorted (map it_key rs)" "\<forall>x \<in> set rs. K \<le> it_key x \<and> item_ok t x"
    and "\<forall>x \<in> set rs. it_key x < E \<longrightarrow> it_kind x = AnchorHere" "skips_fit c rs"
  shows "\<exists>v'. drive_loop rr c js v = Some v' \<and> builder_ok (dv_changes v') \<and>
     doc_len (dv_changes v') = length t \<and>
     built (dv_changes v') t @ drop (bd_old (dv_changes v')) t = merged c (P @ concat (map split_item rs)) t \<and>
     length (dv_placed v') = length (dv_placed v) \<and> (\<exists>E. placed_ok v' E) \<and>
     (rr \<longrightarrow> dv_items v' = dv_items v)"
  using assms
proof (induction js arbitrary: v P K E rs)
  case Nil
  then show ?case using merged_rest [OF Nil.prems(1)] by (auto simp: drive_inv_def)
next
  case (Cons j js)
  let ?x = "dv_items v ! j" and ?ys = "map ((!) (dv_items v)) js"
  have rs: "rs = ?x # ?ys" and j: "j < length (dv_items v)" using Cons.prems(4,5) by simp_all
  have x: "K \<le> it_key ?x" "item_ok t ?x" "it_key ?x < E \<longrightarrow> it_kind ?x = AnchorHere"
    using Cons.prems(7,8) rs by simp_all
  have sorted: "sorted (map it_key ?ys)" "\<forall>y \<in> set ?ys. it_key ?x \<le> it_key y"
    using Cons.prems(6) unfolding rs by (simp_all only: list.map sorted_simps(2)) auto
  have oky: "\<forall>y \<in> set ?ys. it_key ?x \<le> it_key y \<and> item_ok t y" using sorted(2) Cons.prems(7) rs by simp
  have ef: "skips_fit c ?ys" using skips_fit_Cons Cons.prems(9) rs by simp
  consider (applied) v1 where "drive_step rr c j js v = Some v1"
      "drive_inv c t (P @ split_item ?x) (dv_changes v1) (it_key ?x)" "placed_ok v1 E"
      "length (dv_items v1) = length (dv_items v)" "length (dv_placed v1) = length (dv_placed v)"
      "\<forall>i. i \<noteq> j \<longrightarrow> dv_items v1 ! i = dv_items v ! i" "rr \<longrightarrow> dv_items v1 = dv_items v"
    | (skipped) v1 e where "drive_step rr c j js v = Some v1" "iend ?x = Some e"
      "skips_item ?x ?ys" "bd_old (dv_changes v1) = it_key ?x"
      "drive_inv c t P (dv_changes v1) (it_key ?x)" "placed_ok v1 e"
      "dv_items v1 = dv_items v" "length (dv_placed v1) = length (dv_placed v)"
    by (rule drive_step_ok [OF Cons.prems(1) x(1,2) Cons.prems(2) j refl x(3), of rr js]) blast+
  then show ?case
  proof cases
    case applied
    have ys: "map ((!) (dv_items v1)) js = ?ys"
      using applied(6) Cons.prems(3) by (auto intro!: map_cong)
    have "\<exists>v'. drive_loop rr c js v1 = Some v' \<and> builder_ok (dv_changes v') \<and>
       doc_len (dv_changes v') = length t \<and>
       built (dv_changes v') t @ drop (bd_old (dv_changes v')) t =
         merged c ((P @ split_item ?x) @ concat (map split_item ?ys)) t \<and>
       length (dv_placed v') = length (dv_placed v1) \<and> (\<exists>E. placed_ok v' E) \<and>
       (rr \<longrightarrow> dv_items v' = dv_items v1)"
      by (rule Cons.IH [OF applied(2,3)])
         (use Cons.prems(3,4,8) applied(4) ys sorted oky ef rs in simp_all)
    then show ?thesis using applied(1,5,7) rs by auto
  next
    case skipped
    obtain s where s: "it_kind ?x = ReplaceTo e s True" "list_all (\<lambda>l. it_kind l = AnchorHere) (takeWhile (\<lambda>l. it_key l < e) ?ys)"
      using skipped(2,3) by (auto simp: skips_item_def iend_def)
    have anch: "\<forall>y \<in> set ?ys. it_key y < e \<longrightarrow> it_kind y = AnchorHere"
      using s(2) takeWhile_sorted [OF sorted(1)] by (simp only: list_all_iff) blast
    have ce: "clip c e = e"
      using Cons.prems(9) skipped(2,3) unfolding skips_fit_def rs by (metis append_Nil)
    have eq: "merged c (P @ concat (map split_item ?ys)) t =
        merged c (P @ split_item ?x @ concat (map split_item ?ys)) t"
      by (rule merged_skip [OF _ x(2) s(1) ce])
         (use skipped(4,5) anch sorted(2) in \<open>auto simp: drive_inv_def\<close>)
    have "\<exists>v'. drive_loop rr c js v1 = Some v' \<and> builder_ok (dv_changes v') \<and>
       doc_len (dv_changes v') = length t \<and>
       built (dv_changes v') t @ drop (bd_old (dv_changes v')) t =
         merged c (P @ concat (map split_item ?ys)) t \<and>
       length (dv_placed v') = length (dv_placed v1) \<and> (\<exists>E. placed_ok v' E) \<and>
       (rr \<longrightarrow> dv_items v' = dv_items v1)"
      by (rule Cons.IH [OF skipped(5,6)])
         (use Cons.prems(3,4) skipped(7) anch sorted oky ef in simp_all)
    then show ?thesis using skipped(1,7,8) rs eq by auto
  qed
qed

section \<open>The changeset of the recorded operations\<close>

definition eb_ok :: "edit_builder \<Rightarrow> bool" where
  "eb_ok b = (buffer_ok (eb_text b) \<and> (\<forall>x \<in> set (eb_items b). item_ok (rope (eb_text b)) x))"

lemma driven_props:
  "set (driven xs) = set xs" "sorted (map it_key (driven xs))"
  using nth_image [of "length xs" xs] drive_order_props(3) [of xs]
  by (simp_all add: driven_def drive_order_props(2) lessThan_atLeast0 comp_def)

lemma drive_ok:
  assumes "eb_ok b" "skips_fit c (driven (eb_items b))"
  obtains cs placed b' where "drive b c = Some ((cs, placed), b')" "wf_cs cs" "inserts_cr_free cs"
    "len_before cs = len_chars (eb_text b)" "emit (ops cs) (rope (eb_text b)) = merged c (eb_items b) (rope (eb_text b))"
    "length placed = length (eb_items b)" "\<forall>p \<in> set placed. fst p \<le> snd p \<and> snd p \<le> len_after cs"
    "c = None \<and> list_ex (reaches (len_chars (eb_text b))) (eb_items b) \<longrightarrow> b' = b"
proof -
  let ?t = "rope (eb_text b)" and ?xs = "eb_items b"
  let ?rr = "c = None \<and> list_ex (reaches (length ?t)) ?xs"
  let ?v = "\<lparr>dv_items = ?xs, dv_changes = builder_new (length ?t),
        dv_placed = replicate (length ?xs) (0, 0), dv_deletion = None\<rparr>"
  have start: "drive_inv c ?t [] (dv_changes ?v) 0" by (simp add: drive_inv_start)
  have pl: "placed_ok ?v 0" by (simp add: placed_ok_def)
  obtain v' E where v': "drive_loop ?rr c (drive_order ?xs) ?v = Some v'" "builder_ok (dv_changes v')"
    "doc_len (dv_changes v') = length ?t"
    "built (dv_changes v') ?t @ drop (bd_old (dv_changes v')) ?t =
       merged c ([] @ concat (map split_item (driven ?xs))) ?t"
    "length (dv_placed v') = length ?xs" "placed_ok v' E" "?rr \<longrightarrow> dv_items v' = ?xs"
    using drive_loop_ok [OF start pl, of "drive_order ?xs" "driven ?xs" ?rr]
      drive_order_props(1,2) [of ?xs] driven_props [of ?xs] assms
    by (auto simp: driven_def eb_ok_def)
  obtain cs where cs: "builder_finish (dv_changes v') = Some cs" "wf_cs cs" "inserts_cr_free cs"
    "len_before cs = doc_len (dv_changes v')"
    "\<And>t. length t = doc_len (dv_changes v') \<Longrightarrow>
       emit (ops cs) t = built (dv_changes v') t @ drop (bd_old (dv_changes v')) t"
    by (rule builder_finish_ok [OF v'(2)]) blast
  have m: "emit (ops cs) ?t = merged c ?xs ?t"
    using cs(5) [of ?t] v'(3,4) by (simp add: merged_split merged_driven)
  let ?b = "dv_changes v'"
  have old: "bd_old ?b \<le> length ?t" using v'(2,3) by (simp add: builder_ok_def)
  have "length (built ?b ?t) = bd_new ?b"
    using length_emit [of "bd_ops ?b" ?t] v'(2) old by (simp add: built_def builder_ok_def)
  then have len: "len_after cs = bd_new ?b + (length ?t - bd_old ?b)"
    using emit_len [OF cs(2), of ?t] cs(4,5) v'(3) by simp
  have "snd p \<le> len_after cs" if "p \<in> set (dv_placed v')" for p
  proof -
    have "snd p \<le> bd_new ?b + (E - bd_old ?b)" "E \<le> length ?t"
      using v'(3,6) that by (auto simp: placed_ok_def)
    then show ?thesis using len by linarith
  qed
  then have p: "\<forall>p \<in> set (dv_placed v'). fst p \<le> snd p \<and> snd p \<le> len_after cs"
    using v'(6) by (auto simp: placed_ok_def)
  have d: "drive b c = Some ((cs, dv_placed v'), b\<lparr>eb_items := dv_items v'\<rparr>)"
    using v'(1) cs(1) by (simp add: drive_def Let_def len_chars_def)
  show thesis
    by (rule that [OF d cs(2,3)]) (use cs(4) v'(3,5,7) m p in \<open>simp_all add: len_chars_def\<close>)
qed

lemma ends_with_lf_append: "ends_with_lf b \<Longrightarrow> ends_with_lf (a @ b)"
  by (simp add: ends_with_lf_def)

lemma ends_with_lf_valid: "ends_with_lf t = is_valid_buffer_rope t"
  by (auto simp: ends_with_lf_def valid_rope_last)

lemma ins_at_end:
  assumes "\<forall>x \<in> set xs. item_ok t x"
  shows "ins_at xs (length t) = [] \<or> ends_with_lf (ins_at xs (length t))"
  using assms
proof (induction xs)
  case (Cons x xs)
  have "itext x = [] \<or> ends_with_lf (itext x)" if "it_key x = length t"
    using Cons.prems that by (auto simp: item_ok_def itext_def split: item_kind.splits)
  with Cons show ?case by (auto simp: ends_with_lf_append)
qed simp

text \<open>The final line break survives unless a deletion covers it.\<close>

lemma merged_valid:
  assumes "\<forall>x \<in> set xs. item_ok t x" "ends_with_lf t" "\<not> gone c xs (length t - 1)"
  shows "ends_with_lf (merged c xs t)"
proof -
  obtain n where n: "length t = Suc n" using assms(2) by (cases t) (auto simp: ends_with_lf_def)
  have "t ! n = NL" using assms(2) n by (auto simp: ends_with_lf_def last_conv_nth)
  then have "part c xs t n = ins_at xs n @ [NL]" using assms(3) n by (simp add: part_def)
  moreover have "part c xs t (Suc n) = ins_at xs (length t)" using n by (simp add: part_def)
  ultimately have "merged c xs t =
      concat (map (part c xs t) [0..<n]) @ ins_at xs n @ [NL] @ ins_at xs (length t)"
    using n by (simp add: merged_def)
  moreover have "ends_with_lf ([NL] @ ins_at xs (length t))"
    using ins_at_end [OF assms(1)] ends_with_lf_append by (auto simp: ends_with_lf_def)
  ultimately show ?thesis using ends_with_lf_append by (metis append.assoc)
qed

lemma gone_end:
  assumes "\<forall>x \<in> set xs. item_ok t x" "t \<noteq> []" "gone None xs (length t - 1)"
  shows "list_ex (reaches (length t)) xs"
proof -
  obtain x e where x: "x \<in> set xs" "iend x = Some e" "length t - 1 < e"
    using assms(3) by (auto simp: gone_def clip_def split: option.splits)
  have "e \<le> length t" using assms(1) x(1,2) by (auto simp: item_ok_def iend_def split: item_kind.splits)
  then have "e = length t" using x(3) assms(2) by (cases t) auto
  then have "reaches (length t) x" using x(2) by (auto simp: reaches_def iend_def split: item_kind.splits)
  with x(1) show ?thesis by (auto simp: list_ex_iff)
qed

text \<open>An item left unchanged up to the text end keeps the final line break on its own, so no
  second attempt meets one.\<close>

lemma skip_end_valid:
  assumes "\<forall>x \<in> set rs. item_ok t x" "sorted (map it_key rs)" "ends_with_lf t"
    "rs = xs @ x # ys" "skips_item x ys" "iend x = Some (length t)"
  shows "ends_with_lf (merged None rs t)"
proof -
  let ?k = "it_key x" and ?n = "length t"
  obtain s where s: "it_kind x = ReplaceTo ?n s True"
    "list_all (\<lambda>l. it_kind l = AnchorHere) (takeWhile (\<lambda>l. it_key l < ?n) ys)"
    using assms(5,6) by (auto simp: skips_item_def iend_def)
  have x: "?k < ?n" "s = slice t ?k ?n"
    using assms(1,4) s(1) by (auto simp: item_ok_def)
  have sorted: "sorted (map it_key ys)" "\<forall>y \<in> set xs. it_key y \<le> ?k"
    using assms(2,4) by (auto simp: sorted_append)
  have ys: "\<forall>y \<in> set ys. it_key y < ?n \<longrightarrow> it_kind y = AnchorHere"
    using s(2) takeWhile_sorted [OF sorted(1)] by (simp only: list_all_iff) blast
  have insy: "ins_at ys i = []" if "i < ?n" for i
    by (rule ins_at_none) (use ys that in \<open>auto simp: itext_def\<close>)
  have insx: "ins_at xs i = []" if "?k < i" for i
    by (rule ins_at_none) (use sorted(2) that in fastforce)
  have g: "gone None rs i" if "?k \<le> i" "i < ?n" for i
    using that assms(4,6) by (simp add: clip_def)
  have pk: "part None rs t ?k = ins_at xs ?k @ s"
    using g [of ?k] x(1) insy [of ?k] s(1) assms(4) by (simp add: part_def itext_def)
  have mid: "concat (map (part None rs t) [Suc ?k..<?n]) = []"
    by (rule parts_gone) (use g insx insy assms(4) in auto)
  have pn: "part None rs t ?n = ins_at rs ?n" by (simp add: part_def)
  have "merged None rs t = concat (map (part None rs t) [0..<?k]) @ ins_at xs ?k @ s @ ins_at rs ?n"
    using concat_parts_split [of ?k "Suc ?n" "part None rs t"] x(1) pk mid pn
    by (simp add: merged_def upt_conv_Cons)
  moreover have "ends_with_lf s" using x assms(3) by (simp add: slice_def ends_with_lf_def)
  then have "ends_with_lf (s @ ins_at rs ?n)"
    using ins_at_end [OF assms(1)] ends_with_lf_append by auto
  ultimately show ?thesis using ends_with_lf_append by (metis append.assoc)
qed

text \<open>The text an edit leaves: as described, with every deletion stopping before the final line
  break when that text would not end with one.\<close>

definition edit_result :: "item list \<Rightarrow> ustring \<Rightarrow> ustring" where
  "edit_result xs t =
     (if ends_with_lf (merged None xs t) then merged None xs t
      else merged (Some (length t - 1)) xs t)"

lemma apply_drive_ok:
  assumes "eb_ok b"
  obtains st' text' cs placed where
    "apply_keeping_final_break st (eb_text b) drive b = Some (st', text', cs, placed)"
    "wf_cs cs" "inserts_cr_free cs" "len_before cs = len_chars (eb_text b)"
    "rope text' = edit_result (eb_items b) (rope (eb_text b))" "emit (ops cs) (rope (eb_text b)) = rope text'"
    "buffer_ok text'" "len_chars text' = len_after cs" "line_ending text' = line_ending (eb_text b)"
    "length placed = length (eb_items b)" "\<forall>p \<in> set placed. fst p \<le> snd p \<and> snd p \<le> len_after cs"
proof -
  let ?t = "rope (eb_text b)" and ?xs = "eb_items b"
  have ok: "buffer_ok (eb_text b)" "\<forall>x \<in> set ?xs. item_ok ?t x" using assms by (simp_all add: eb_ok_def)
  have t: "ends_with_lf ?t" "?t \<noteq> []" using ok(1) by (auto simp: ends_with_lf_def buffer_ok_def valid_rope_last)
  have final: "\<exists>st' text'. apply_cs cs st (eb_text b) = Some (Inr (st', text')) \<and>
      rope text' = emit (ops cs) ?t \<and> buffer_ok text' \<and> len_chars text' = len_after cs \<and>
      line_ending text' = line_ending (eb_text b)"
    if c: "wf_cs cs" "inserts_cr_free cs" "len_before cs = len_chars (eb_text b)"
      "ends_with_lf (emit (ops cs) ?t)" for cs
  proof -
    obtain st' text' where a: "apply_cs cs st (eb_text b) = Some (Inr (st', text'))"
      by (rule apply_cs_ok [OF c(1), of "eb_text b" st]) (use c ends_with_lf_valid in simp_all)
    with apply_cs_Some [OF c(1) a] c(2) ok(1) show ?thesis by blast
  qed
  obtain cs placed b' where d: "drive b None = Some ((cs, placed), b')" "wf_cs cs" "inserts_cr_free cs"
    "len_before cs = len_chars (eb_text b)" "emit (ops cs) ?t = merged None ?xs ?t"
    "length placed = length ?xs" "\<forall>p \<in> set placed. fst p \<le> snd p \<and> snd p \<le> len_after cs"
    "list_ex (reaches (len_chars (eb_text b))) ?xs \<longrightarrow> b' = b"
    by (rule drive_ok [OF assms, of None]) (auto simp: skips_fit_def clip_def)
  show thesis
  proof (cases "ends_with_lf (merged None ?xs ?t)")
    case True
    then obtain st' text' where a: "apply_cs cs st (eb_text b) = Some (Inr (st', text'))"
      "rope text' = emit (ops cs) ?t" "buffer_ok text'" "len_chars text' = len_after cs"
      "line_ending text' = line_ending (eb_text b)"
      using final [OF d(2-4)] d(5) by auto
    show thesis
      by (rule that [of st' text' cs placed])
         (use a d True in \<open>simp_all add: apply_keeping_final_break_def edit_result_def\<close>)
  next
    case False
    let ?c = "Some (length ?t - 1)"
    have fits: "skips_fit ?c (driven ?xs)"
    proof -
      have "clip ?c e = e" if "driven ?xs = ys @ x # zs" "skips_item x zs" "iend x = Some e" for ys x zs e
      proof (rule ccontr)
        assume ne: "clip ?c e \<noteq> e"
        have "x \<in> set ?xs" using that(1) driven_props(1) [of ?xs] by auto
        then have "e \<le> length ?t"
          using ok(2) that(3) by (auto simp: item_ok_def iend_def split: item_kind.splits)
        with ne have "e = length ?t" by (auto simp: clip_def min_def split: if_splits)
        then have "ends_with_lf (merged None (driven ?xs) ?t)"
          using skip_end_valid [OF _ driven_props(2) t(1) that(1,2)] ok(2) driven_props(1) [of ?xs] that(3)
          by simp
        with False show False by (simp add: merged_driven)
      qed
      then show ?thesis by (auto simp: skips_fit_def)
    qed
    obtain cs2 placed2 b2 where d2: "drive b ?c = Some ((cs2, placed2), b2)" "wf_cs cs2" "inserts_cr_free cs2"
      "len_before cs2 = len_chars (eb_text b)" "emit (ops cs2) ?t = merged ?c ?xs ?t"
      "length placed2 = length ?xs" "\<forall>p \<in> set placed2. fst p \<le> snd p \<and> snd p \<le> len_after cs2"
      by (rule drive_ok [OF assms fits]) blast
    have "\<not> gone ?c ?xs (length ?t - 1)" by (auto simp: gone_def clip_def split: option.splits)
    then have v: "ends_with_lf (merged ?c ?xs ?t)" by (rule merged_valid [OF ok(2) t(1)])
    then obtain st' text' where a: "apply_cs cs2 st (eb_text b) = Some (Inr (st', text'))"
      "rope text' = emit (ops cs2) ?t" "buffer_ok text'" "len_chars text' = len_after cs2"
      "line_ending text' = line_ending (eb_text b)"
      using final [OF d2(2-4)] d2(5) by auto
    have "gone None ?xs (length ?t - 1)" using merged_valid [OF ok(2) t(1)] False by blast
    then have "b' = b" using gone_end [OF ok(2) t(2)] d(8) by (simp add: len_chars_def)
    moreover have "\<not> is_identity cs"
    proof
      assume "is_identity cs"
      then have "emit (ops cs) ?t = ?t"
        using identity_emit d(2,4) by (simp add: is_identity_def wf_cs_def len_chars_def)
      with False d(5) t(1) show False by simp
    qed
    then have "apply_cs cs st (eb_text b) = Some (Inl TrailingNewlineMissing)"
      using False d(4,5) by (simp add: apply_cs_def applied_rope_eq [OF d(2)] ends_with_lf_valid)
    ultimately have "apply_keeping_final_break st (eb_text b) drive b = Some (st', text', cs2, placed2)"
      using d(1) d2(1) a(1) by (simp add: apply_keeping_final_break_def last_char_def len_chars_def)
    then show thesis
      by (rule that) (use a d2 False in \<open>simp_all add: edit_result_def\<close>)
  qed
qed

section \<open>Recording keeps the invariant\<close>

definition is_bound :: "segmentation \<Rightarrow> ustring \<Rightarrow> nat \<Rightarrow> bool" where
  "is_bound B t i = (i = length t \<or> is_start B t i)"

lemma last_char_start:
  assumes "seg_ok B" "buffer_ok text"
  shows "is_start B (rope text) (last_char text)" "last_char text < len_chars text"
proof -
  let ?t = "rope text"
  have t: "?t \<noteq> []" "last ?t = NL" "CR \<notin> set ?t"
    using assms(2) by (auto simp: buffer_ok_def valid_rope_last is_cr_free_def)
  have "B ?t (length ?t - 1)"
  proof (cases "length ?t - 1 = 0")
    case False
    have "?t ! (length ?t - 2) \<in> set ?t" using False by (intro nth_mem) linarith
    then have "?t ! (length ?t - 1 - 1) \<noteq> CR" using t(3) by (metis diff_diff_left one_add_one)
    with seg_okD(5) [OF assms(1)] False t show ?thesis by (auto simp: last_conv_nth)
  qed (use seg_okD(1) [OF assms(1)] in simp)
  then show "is_start B ?t (last_char text)" "last_char text < len_chars text"
    using t(1) by (simp_all add: is_start_def last_char_def len_chars_def)
qed

lemma eb_push_ok:
  assumes "seg_ok B" "buffer_ok (eb_text b)" "is_bound B (rope (eb_text b)) key"
    and "is_bound B (rope (eb_text b)) (case kind of DeleteTo e \<Rightarrow> e | ReplaceTo e _ _ \<Rightarrow> e | _ \<Rightarrow> key)"
  shows "eb_push B b key kind =
    Some (length (eb_items b), b\<lparr>eb_items := eb_items b @ [\<lparr>it_key = key, it_kind = kind\<rparr>]\<rparr>)"
proof -
  have pos: "0 < len_chars (eb_text b)" using assms(2) by simp
  have snap: "(if i = len_chars (eb_text b) then Some (len_chars (eb_text b)) else snap B (eb_text b) i) = Some i"
    "i \<le> len_chars (eb_text b)" if "is_bound B (rope (eb_text b)) i" for i
  proof -
    obtain j where "snap B (eb_text b) i = Some j" "is_start B (rope (eb_text b)) i \<Longrightarrow> j = i"
      by (rule snap_total [OF assms(1) pos, of i]) blast
    with that show "(if i = len_chars (eb_text b) then Some (len_chars (eb_text b)) else snap B (eb_text b) i) = Some i"
      by (auto simp: is_bound_def len_chars_def)
    from that show "i \<le> len_chars (eb_text b)" by (auto simp: is_bound_def is_start_def len_chars_def)
  qed
  define e where "e = (case kind of DeleteTo e \<Rightarrow> e | ReplaceTo e _ _ \<Rightarrow> e | InsertText _ \<Rightarrow> key | AnchorHere \<Rightarrow> key)"
  have "is_bound B (rope (eb_text b)) e" using assms(4) by (cases kind) (simp_all add: e_def)
  note se = snap [OF this] and sk = snap [OF assms(3)]
  show ?thesis
    unfolding eb_push_def Let_def e_def [symmetric] se(1) sk(1) using se(2) by simp
qed

lemma range_ok_bounds:
  assumes "seg_ok B" "range_ok B t r"
  shows "is_bound B t (cr_start r)" "is_bound B t (cr_end r)" "cr_start r < cr_end r" "cr_end r \<le> length t"
    "cr_start r < length t"
  using range_ok_end [OF assms] assms(2) by (auto simp: range_ok_def is_bound_def is_start_def)

lemma eb_ok_push:
  "eb_ok b \<Longrightarrow> item_ok (rope (eb_text b)) x \<Longrightarrow> eb_ok (b\<lparr>eb_items := eb_items b @ [x]\<rparr>)"
  by (simp add: eb_ok_def)

text \<open>The handle of the operation recorded at an index.\<close>

definition own_mark :: "nat \<Rightarrow> mark" where
  "own_mark i = \<lparr>mk_start = new_pos_at i False, mk_end = new_pos_at i True\<rparr>"

lemma eb_insert_ok:
  fixes str :: ustring
  assumes "seg_ok B" "eb_ok b" "is_bound B (rope (eb_text b)) at"
  defines "n \<equiv> len_chars (eb_text b)" and "s \<equiv> lf_text str"
  defines "x \<equiv> \<lparr>it_key = (if at < n then at else if ends_with_lf s then n else n - 1),
     it_kind = (if s = [] then AnchorHere else InsertText s)\<rparr>"
  shows "eb_insert B b at str = Some (own_mark (length (eb_items b)), b\<lparr>eb_items := eb_items b @ [x]\<rparr>)"
    "eb_ok (b\<lparr>eb_items := eb_items b @ [x]\<rparr>)"
proof -
  have ok: "buffer_ok (eb_text b)" using assms(2) by (simp add: eb_ok_def)
  have at: "at \<le> n" using assms(3) by (auto simp: is_bound_def is_start_def n_def len_chars_def)
  note lc = last_char_start [OF assms(1) ok]
  have key: "is_bound B (rope (eb_text b)) (it_key x)" "it_key x \<le> n"
    using assms(3) at lc by (auto simp: x_def is_bound_def n_def last_char_def len_chars_def)
  have "eb_push B b (it_key x) (it_kind x) = Some (length (eb_items b), b\<lparr>eb_items := eb_items b @ [x]\<rparr>)"
    using eb_push_ok [OF assms(1) ok key(1), of "it_kind x"] key(1) by (simp add: x_def)
  moreover have "eb_insert B b at str =
      do { (i, b) \<leftarrow> eb_push B b (it_key x) (it_kind x); Some (own_mark i, b) }"
    using at by (simp add: eb_insert_def Let_def x_def n_def s_def own_mark_def last_char_def)
  ultimately show "eb_insert B b at str = Some (own_mark (length (eb_items b)), b\<lparr>eb_items := eb_items b @ [x]\<rparr>)"
    by simp
  have "item_ok (rope (eb_text b)) x"
    using key(2) at lf_text_no_cr [of str] lc(2)
    by (auto simp: item_ok_def x_def n_def s_def len_chars_def)
  then show "eb_ok (b\<lparr>eb_items := eb_items b @ [x]\<rparr>)" by (rule eb_ok_push [OF assms(2)])
qed

lemma eb_range_ops_ok:
  fixes str :: ustring
  assumes "seg_ok B" "eb_ok b" "range_ok B (rope (eb_text b)) r"
  defines "k \<equiv> cr_start r" and "e \<equiv> cr_end r" and "s \<equiv> lf_text str" and "t \<equiv> rope (eb_text b)"
  shows "eb_delete B b r = Some (new_pos_at (length (eb_items b)) False,
       b\<lparr>eb_items := eb_items b @ [\<lparr>it_key = k, it_kind = DeleteTo e\<rparr>]\<rparr>)"
    "eb_ok (b\<lparr>eb_items := eb_items b @ [\<lparr>it_key = k, it_kind = DeleteTo e\<rparr>]\<rparr>)"
    "eb_replace B b r str = Some (own_mark (length (eb_items b)),
       b\<lparr>eb_items := eb_items b @ [\<lparr>it_key = k, it_kind = ReplaceTo e s (slice t k e = s)\<rparr>]\<rparr>)"
    "eb_ok (b\<lparr>eb_items := eb_items b @ [\<lparr>it_key = k, it_kind = ReplaceTo e s (slice t k e = s)\<rparr>]\<rparr>)"
    "eb_keep B b r = Some (\<lparr>mk_start = new_pos_at (length (eb_items b)) False,
         mk_end = new_pos_at (Suc (length (eb_items b))) False\<rparr>,
       b\<lparr>eb_items := eb_items b @ [\<lparr>it_key = k, it_kind = AnchorHere\<rparr>, \<lparr>it_key = e, it_kind = AnchorHere\<rparr>]\<rparr>)"
    "eb_ok (b\<lparr>eb_items := eb_items b @ [\<lparr>it_key = k, it_kind = AnchorHere\<rparr>, \<lparr>it_key = e, it_kind = AnchorHere\<rparr>]\<rparr>)"
proof -
  have ok: "buffer_ok (eb_text b)" using assms(2) by (simp add: eb_ok_def)
  note r = range_ok_bounds [OF assms(1,3), folded k_def e_def t_def]
  have t: "rope (eb_text b) = t" by (simp add: t_def)
  note push = eb_push_ok [OF assms(1) ok, unfolded t]
  show "eb_delete B b r = Some (new_pos_at (length (eb_items b)) False,
       b\<lparr>eb_items := eb_items b @ [\<lparr>it_key = k, it_kind = DeleteTo e\<rparr>]\<rparr>)"
    using push [of k "DeleteTo e"] r by (simp add: eb_delete_def k_def e_def)
  show "eb_ok (b\<lparr>eb_items := eb_items b @ [\<lparr>it_key = k, it_kind = DeleteTo e\<rparr>]\<rparr>)"
    by (rule eb_ok_push [OF assms(2)]) (use r t in \<open>simp add: item_ok_def\<close>)
  show "eb_replace B b r str = Some (own_mark (length (eb_items b)),
       b\<lparr>eb_items := eb_items b @ [\<lparr>it_key = k, it_kind = ReplaceTo e s (slice t k e = s)\<rparr>]\<rparr>)"
    using push [of k "ReplaceTo e s (slice t k e = s)"] r
    by (simp add: eb_replace_def Let_def k_def e_def s_def t_def slice_opt_def own_mark_def)
  show "eb_ok (b\<lparr>eb_items := eb_items b @ [\<lparr>it_key = k, it_kind = ReplaceTo e s (slice t k e = s)\<rparr>]\<rparr>)"
    by (rule eb_ok_push [OF assms(2)]) (use r t lf_text_no_cr [of str] in \<open>auto simp: item_ok_def s_def\<close>)
  let ?b = "b\<lparr>eb_items := eb_items b @ [\<lparr>it_key = k, it_kind = AnchorHere\<rparr>]\<rparr>"
  have ok1: "eb_ok ?b" by (rule eb_ok_push [OF assms(2)]) (use r t in \<open>simp add: item_ok_def\<close>)
  have "eb_push B ?b e AnchorHere = Some (length (eb_items ?b),
      ?b\<lparr>eb_items := eb_items ?b @ [\<lparr>it_key = e, it_kind = AnchorHere\<rparr>]\<rparr>)"
    by (rule eb_push_ok [OF assms(1)]) (use ok r t in simp_all)
  then show "eb_keep B b r = Some (\<lparr>mk_start = new_pos_at (length (eb_items b)) False,
         mk_end = new_pos_at (Suc (length (eb_items b))) False\<rparr>,
       b\<lparr>eb_items := eb_items b @ [\<lparr>it_key = k, it_kind = AnchorHere\<rparr>, \<lparr>it_key = e, it_kind = AnchorHere\<rparr>]\<rparr>)"
    using push [of k AnchorHere] r by (simp add: eb_keep_def k_def e_def)
  show "eb_ok (b\<lparr>eb_items := eb_items b @ [\<lparr>it_key = k, it_kind = AnchorHere\<rparr>, \<lparr>it_key = e, it_kind = AnchorHere\<rparr>]\<rparr>)"
    using eb_ok_push [OF ok1, of "\<lparr>it_key = e, it_kind = AnchorHere\<rparr>"] r t by (simp add: item_ok_def)
qed

lemma eb_at_ok:
  assumes "seg_ok B" "eb_ok b" "is_bound B (rope (eb_text b)) at"
  shows "eb_at B b at = Some (new_pos_at (length (eb_items b)) False,
       b\<lparr>eb_items := eb_items b @ [\<lparr>it_key = at, it_kind = AnchorHere\<rparr>]\<rparr>)"
    "eb_ok (b\<lparr>eb_items := eb_items b @ [\<lparr>it_key = at, it_kind = AnchorHere\<rparr>]\<rparr>)"
proof -
  have ok: "buffer_ok (eb_text b)" using assms(2) by (simp add: eb_ok_def)
  show "eb_at B b at = Some (new_pos_at (length (eb_items b)) False,
       b\<lparr>eb_items := eb_items b @ [\<lparr>it_key = at, it_kind = AnchorHere\<rparr>]\<rparr>)"
    using eb_push_ok [OF assms(1) ok assms(3), of AnchorHere] assms(3) by (simp add: eb_at_def)
  show "eb_ok (b\<lparr>eb_items := eb_items b @ [\<lparr>it_key = at, it_kind = AnchorHere\<rparr>]\<rparr>)"
    by (rule eb_ok_push [OF assms(2)]) (use assms(3) in \<open>auto simp: item_ok_def is_bound_def is_start_def\<close>)
qed

section \<open>Landings resolve\<close>

text \<open>A landing of positions the builder handed out: a mark is an insertion's or a replacement's own,
  and a line is one of the new text.\<close>

definition pos_ok :: "nat \<Rightarrow> new_pos \<Rightarrow> bool" where
  "pos_ok n p = (np_index p < n)"

definition landing_ok :: "nat \<Rightarrow> nat \<Rightarrow> landing \<Rightarrow> bool" where
  "landing_ok n lines l = (case l of
       CursorAt p \<Rightarrow> pos_ok n p
     | CursorEndingAt p \<Rightarrow> pos_ok n p
     | Covering m _ \<Rightarrow> \<exists>i < n. m = own_mark i
     | LineStartOf p \<Rightarrow> pos_ok n p
     | Kept _ _ \<Rightarrow> True
     | AtLines _ first final \<Rightarrow> le_line first < lines \<and> le_line final < lines)"

lemma place_ok:
  assumes "pos_ok n p" "length placed = n" "\<forall>q \<in> set placed. fst q \<le> snd q \<and> snd q \<le> len"
  obtains i where "place placed p = Some i" "i \<le> len"
proof -
  obtain a b where ab: "placed ! np_index p = (a, b)" by (cases "placed ! np_index p")
  have "np_index p < length placed" using assms(1,2) by (simp add: pos_ok_def)
  moreover from this have "(a, b) \<in> set placed" using ab nth_mem by metis
  then have "a \<le> b" "b \<le> len" using assms(3) by auto
  ultimately show thesis
    by (intro that [of "if np_after p then b else a"]) (use ab in \<open>simp_all add: place_def nth_opt_def\<close>)
qed

lemma sel_fits_simps:
  "sel_fits B text (sel_cursor i) = is_start B (rope text) i"
  "sel_fits B text (sel_covering r f) =
     (is_start B (rope text) (cr_start r) \<and> is_start B (rope text) (cr_last r))"
  "is_start B (rope text) a \<Longrightarrow> is_start B (rope text) b \<Longrightarrow> sel_fits B text (with_ends s a b)"
  by (auto simp: sel_fits_def sel_cursor_def sel_covering_def sel_new_def with_ends_def split: facing.splits)

lemma line_end_resolve_ok:
  assumes "seg_ok B" "buffer_ok text" "le_line e < content_line_count (rope text)"
  obtains i where "line_end_resolve B e text = Some i" "is_start B (rope text) i"
proof -
  have cr: "CR \<notin> set (rope text)" using assms(2) by (simp add: buffer_ok_def is_cr_free_def)
  have l: "le_line e < nl_count (rope text)" "le_line e \<le> last_content_line (rope text)"
    using assms(3) by (simp_all add: last_content_line_def)
  show thesis
  proof (cases "le_place e")
    case AtBreak
    show thesis
      by (rule that) (use AtBreak l line_break_content [OF l(1)] line_break_is_start [OF assms(1) l(1) cr] in
          \<open>simp_all add: line_end_resolve_def\<close>)
  next
    case (AtCol col)
    obtain x where x: "place_char_column B (rope text) (le_line e) col = Some x" "is_start B (rope text) x"
    proof (rule place_char_column_cases [OF assms(1) cr l(1)])
      fix y assume y: "is_start B (rope text) y"
        "\<And>col. y \<le> line_offset (rope text) (le_line e) + col \<Longrightarrow> place_char_column B (rope text) (le_line e) col = Some y"
        "\<And>col. line_offset (rope text) (le_line e) + col < y \<Longrightarrow> \<exists>c. is_cluster B (rope text) c \<and>
           place_char_column B (rope text) (le_line e) col = Some (cl_start c) \<and>
           cl_start c \<le> line_offset (rope text) (le_line e) + col \<and>
           line_offset (rope text) (le_line e) + col < cl_end c \<and>
           line_offset (rope text) (le_line e) \<le> cl_start c"
      show thesis
      proof (cases "y \<le> line_offset (rope text) (le_line e) + col")
        case True
        with y show thesis using that by blast
      next
        case False
        then obtain c where "is_cluster B (rope text) c"
          "place_char_column B (rope text) (le_line e) col = Some (cl_start c)"
          using y(3) [of col] by (auto simp: not_le)
        then show thesis using that is_cluster_start by blast
      qed
    qed
    then show thesis using AtCol l by (intro that [of x]) (simp_all add: line_end_resolve_def)
  qed
qed

lemma cursor_ending_ok:
  assumes "seg_ok B" "buffer_ok text" "i \<le> len_chars text"
  obtains j where "(do {
       starts_line \<leftarrow> (if i < len_chars text then do {
           line \<leftarrow> char_to_line text i;
           start \<leftarrow> line_start (rope text) line;
           Some (start = i) }
         else Some False);
       if starts_line then snap B text i
       else do { prior \<leftarrow> checked_sub i 1; snap B text prior } }) = Some j" "is_start B (rope text) j"
proof -
  have pos: "0 < len_chars text" using assms(2) by simp
  obtain x where x: "snap B text i = Some x" "is_start B (rope text) x" by (rule snap_total [OF assms(1) pos, of i]) blast
  obtain y where y: "snap B text (i - 1) = Some y" "is_start B (rope text) y"
    by (rule snap_total [OF assms(1) pos, of "i - 1"]) blast
  show thesis
  proof (cases "i < len_chars text")
    case True
    obtain l where l: "char_to_line text i = Some l" "l < nl_count (rope text)" "line_offset (rope text) l \<le> i"
      using char_to_line_total [OF assms(2), of i] True by auto
    have "i \<noteq> 0" if "line_offset (rope text) l \<noteq> i" using that l(3) by auto
    then show thesis
      using True l x y line_start_content [OF l(2)]
      by (intro that [of "if line_offset (rope text) l = i then x else y"]) (auto simp: checked_sub_def)
  next
    case False
    then show thesis using y assms(3) pos by (intro that [of y]) (simp_all add: checked_sub_def)
  qed
qed

lemma landing_resolve_ok:
  assumes "seg_ok B" "buffer_ok (tc_after ch)" "resolver_ok ch r" "length placed = n"
    and "\<forall>q \<in> set placed. fst q \<le> snd q \<and> snd q \<le> len_chars (tc_after ch)"
    and "landing_ok n (content_line_count (rope (tc_after ch))) l"
  obtains s r' where "landing_resolve B ch placed l r = Some (s, r')" "sel_fits B (tc_after ch) s" "resolver_ok ch r'"
proof -
  let ?text = "tc_after ch"
  have pos: "0 < len_chars ?text" using assms(2) by simp
  show thesis
  proof (cases l)
    case (CursorAt p)
    then obtain i where i: "place placed p = Some i" "i \<le> len_chars ?text"
      using place_ok [OF _ assms(4,5)] assms(6) by (auto simp: landing_ok_def)
    obtain x where x: "snap B ?text i = Some x" "is_start B (rope ?text) x" by (rule snap_total [OF assms(1) pos, of i]) blast
    show thesis
      by (rule that [of "sel_cursor x" r])
         (use CursorAt i x assms(3) in \<open>simp_all add: landing_resolve_def Let_def sel_fits_simps\<close>)
  next
    case (CursorEndingAt p)
    then obtain i where i: "place placed p = Some i" "i \<le> len_chars ?text"
      using place_ok [OF _ assms(4,5)] assms(6) by (auto simp: landing_ok_def)
    obtain j where j: "(do {
       starts_line \<leftarrow> (if i < len_chars ?text then do {
           line \<leftarrow> char_to_line ?text i;
           start \<leftarrow> line_start (rope ?text) line;
           Some (start = i) }
         else Some False);
       if starts_line then snap B ?text i
       else do { prior \<leftarrow> checked_sub i 1; snap B ?text prior } }) = Some j" "is_start B (rope ?text) j"
      by (rule cursor_ending_ok [OF assms(1,2) i(2)])
    have "landing_resolve B ch placed l r = map_option (\<lambda>at. (sel_cursor at, r)) (Some j)"
      unfolding j(1) [symmetric] using CursorEndingAt i(1)
      by (simp add: landing_resolve_def Let_def map_conv_bind_option comp_def)
    then show thesis using that [of "sel_cursor j" r] j(2) assms(3) by (simp add: sel_fits_simps)
  next
    case (Covering m f)
    then obtain i where i: "i < n" "m = own_mark i" using assms(6) by (auto simp: landing_ok_def)
    obtain a b where ab: "placed ! i = (a, b)" by (cases "placed ! i")
    then have "(a, b) \<in> set placed" using i(1) assms(4) nth_mem by metis
    then have le: "a \<le> b" using assms(5) by auto
    have pl: "place placed (mk_start m) = Some a" "place placed (mk_end m) = Some b"
      using i ab assms(4) by (simp_all add: own_mark_def new_pos_at_def place_def nth_opt_def)
    show thesis
    proof (cases "a < min b (length (rope ?text))")
      case True
      obtain c where c: "covering B (rope ?text) a b = Some c" "range_ok B (rope ?text) c"
        by (rule covering_Some [OF assms(1) True]) blast
      show thesis
        by (rule that [of "sel_covering c f" r])
           (use Covering pl le c assms(3) in
             \<open>simp_all add: landing_resolve_def Let_def sel_fits_simps range_ok_def\<close>)
    next
      case False
      then have "covering B (rope ?text) a b = None" by (auto simp: covering_def Let_def)
      moreover obtain x where x: "snap B ?text a = Some x" "is_start B (rope ?text) x"
        by (rule snap_total [OF assms(1) pos, of a]) blast
      ultimately show thesis
        by (intro that [of "sel_cursor x" r])
           (use Covering pl le assms(3) in \<open>simp_all add: landing_resolve_def Let_def sel_fits_simps\<close>)
    qed
  next
    case (LineStartOf p)
    then obtain i where i: "place placed p = Some i"
      using place_ok [OF _ assms(4,5)] assms(6) by (auto simp: landing_ok_def)
    obtain k where k: "char_to_line ?text i = Some k" "k < nl_count (rope ?text)"
      using char_to_line_total [OF assms(2), of i] by auto
    show thesis
      by (rule that [of "sel_cursor (line_offset (rope ?text) k)" r])
         (use LineStartOf i k line_start_content [OF k(2)] line_start_is_start [OF assms(1) k(2)] assms(3) in
           \<open>simp_all add: landing_resolve_def Let_def sel_fits_simps\<close>)
  next
    case (Kept s a)
    obtain r' where r': "carry B ch r s a =
        Some (with_ends s (carried B ch a (sel_start s)) (carried B ch a (sel_last s)), r')" "resolver_ok ch r'"
      by (rule carry_eq [OF assms(1) pos assms(3)])
    show thesis
      by (rule that [of "with_ends s (carried B ch a (sel_start s)) (carried B ch a (sel_last s))" r'])
         (use Kept r' carried_props(2) [OF assms(1) pos] in
           \<open>simp_all add: landing_resolve_def Let_def sel_fits_simps\<close>)
  next
    case (AtLines s e1 e2)
    then have lines: "le_line e1 < content_line_count (rope ?text)" "le_line e2 < content_line_count (rope ?text)"
      using assms(6) by (simp_all add: landing_ok_def)
    obtain x where x: "line_end_resolve B e1 ?text = Some x" "is_start B (rope ?text) x"
      by (rule line_end_resolve_ok [OF assms(1,2) lines(1)])
    obtain y where y: "line_end_resolve B e2 ?text = Some y" "is_start B (rope ?text) y"
      by (rule line_end_resolve_ok [OF assms(1,2) lines(2)])
    show thesis
      by (rule that [of "with_ends s x y" r])
         (use AtLines x y assms(3) in \<open>simp_all add: landing_resolve_def Let_def sel_fits_simps\<close>)
  qed
qed

lemma landings_resolve_ok:
  assumes "seg_ok B" "buffer_ok (tc_after ch)" "resolver_ok ch r" "length placed = n"
    and "\<forall>q \<in> set placed. fst q \<le> snd q \<and> snd q \<le> len_chars (tc_after ch)"
    and "\<forall>l \<in> set ls. landing_ok n (content_line_count (rope (tc_after ch))) l"
  shows "\<exists>ss. landings_resolve B ch placed ls r = Some ss \<and> length ss = length ls \<and>
    (\<forall>s \<in> set ss. sel_fits B (tc_after ch) s)"
  using assms(3,6)
proof (induction ls arbitrary: r)
  case (Cons l ls)
  have l: "landing_ok n (content_line_count (rope (tc_after ch))) l" using Cons.prems(2) by simp
  obtain s r' where s: "landing_resolve B ch placed l r = Some (s, r')" "sel_fits B (tc_after ch) s" "resolver_ok ch r'"
    by (rule landing_resolve_ok [OF assms(1,2) Cons.prems(1) assms(4,5) l])
  obtain ss where "landings_resolve B ch placed ls r' = Some ss" "length ss = length ls"
    "\<forall>s \<in> set ss. sel_fits B (tc_after ch) s" using Cons.IH [OF s(3)] Cons.prems(2) by auto
  with s show ?case by auto
qed simp

section \<open>Properties\<close>

text \<open>Recording an operation inside the text never panics: an insertion goes where it is asked
  for, except that text without a final line break asked for at the text's end goes before the final
  line break; and each operation appends its items and keeps every recorded operation inside the
  text.\<close>

theorem recording_keeps_ok:
  assumes "seg_ok B" "eb_ok b" "is_bound B (rope (eb_text b)) at" "range_ok B (rope (eb_text b)) r"
  defines "n \<equiv> length (rope (eb_text b))" and "its \<equiv> eb_items b"
  shows "(\<exists>m b'. eb_insert B b at str = Some (m, b') \<and> eb_ok b' \<and> eb_text b' = eb_text b \<and>
       eb_items b' = its @ [\<lparr>it_key = (if at < n then at else if ends_with_lf (lf_text str) then n else n - 1),
         it_kind = (if lf_text str = [] then AnchorHere else InsertText (lf_text str))\<rparr>]) \<and>
     (\<exists>p b'. eb_delete B b r = Some (p, b') \<and> eb_ok b' \<and> eb_text b' = eb_text b \<and>
       eb_items b' = its @ [del_item (cr_start r) (cr_end r)]) \<and>
     (\<exists>m b'. eb_replace B b r str = Some (m, b') \<and> eb_ok b' \<and> eb_text b' = eb_text b \<and>
       (\<exists>u. eb_items b' = its @ [\<lparr>it_key = cr_start r, it_kind = ReplaceTo (cr_end r) (lf_text str) u\<rparr>])) \<and>
     (\<exists>m b'. eb_keep B b r = Some (m, b') \<and> eb_ok b' \<and> eb_text b' = eb_text b \<and>
       map it_key (eb_items b') = map it_key its @ [cr_start r, cr_end r]) \<and>
     (\<exists>p b'. eb_at B b at = Some (p, b') \<and> eb_ok b' \<and> eb_text b' = eb_text b)"
proof -
  note i = eb_insert_ok [OF assms(1-3), of str, unfolded len_chars_def, folded n_def its_def]
  note r = eb_range_ops_ok [OF assms(1,2,4), folded its_def]
  note a = eb_at_ok [OF assms(1-3)]
  show ?thesis
    using i r(1,2) r(3,4) [of str] r(5,6) a by (simp add: del_item_def)
qed

text \<open>Finishing: the landings resolve against the text made, and the selections fit it.\<close>

lemma eb_finish_ok:
  assumes "seg_ok B" "eb_ok b" "ls_items ls \<noteq> []" "ls_primary ls < length (ls_items ls)"
    and "\<forall>l \<in> set (ls_items ls). landing_ok (length (eb_items b))
       (content_line_count (edit_result (eb_items b) (rope (eb_text b)))) l"
  shows "\<exists>st' e. eb_finish B st b ls = Some (st', e) \<and> edited_ok B (eb_text b) e \<and>
     rope (es_text (ed_state e)) = edit_result (eb_items b) (rope (eb_text b)) \<and>
     line_ending (es_text (ed_state e)) = line_ending (eb_text b)"
proof -
  obtain st' text' cs placed where a:
    "apply_keeping_final_break st (eb_text b) drive b = Some (st', text', cs, placed)"
    "wf_cs cs" "inserts_cr_free cs" "len_before cs = len_chars (eb_text b)"
    "rope text' = edit_result (eb_items b) (rope (eb_text b))" "emit (ops cs) (rope (eb_text b)) = rope text'"
    "buffer_ok text'" "len_chars text' = len_after cs" "line_ending text' = line_ending (eb_text b)"
    "length placed = length (eb_items b)" "\<forall>p \<in> set placed. fst p \<le> snd p \<and> snd p \<le> len_after cs"
    by (rule apply_drive_ok [OF assms(2)]) blast
  let ?ch = "\<lparr>tc_before = eb_text b, tc_after = text', tc_changes = cs\<rparr>"
  have ch: "text_change_new (eb_text b) text' cs = Some ?ch" using a(4,8) by (simp add: text_change_new_def)
  obtain ss where ss: "landings_resolve B ?ch placed (ls_items ls) (resolver_new ?ch) = Some ss"
    "length ss = length (ls_items ls)" "\<forall>s \<in> set ss. sel_fits B text' s"
    using landings_resolve_ok [OF assms(1), of ?ch "resolver_new ?ch" placed "length (eb_items b)" "ls_items ls"]
      resolver_new_ok a(5,7,8,10,11) assms(5) by auto
  have ne: "ss \<noteq> []" "ls_primary ls < length ss" using ss(2) assms(3,4) by auto
  obtain S where S: "from_parts ss (ls_primary ls) (version text') = Some S" "set_ok S"
    "sel_ends (sels S) \<subseteq> sel_ends ss" "set_version S = version text'"
    by (rule from_parts_ok [OF ne, of "version text'"]) blast
  have pos: "0 < len_chars text'" using a(7) by simp
  have "\<forall>i \<in> sel_ends ss. is_start B (rope text') i"
    using ss(3) unfolding sel_fits_def sel_ends_anchor_head by blast
  then have "positions_fit B text' (sels S)"
    using S(2,3) by (auto simp: positions_fit_ends set_ok_def)
  then have "assert_fits B text' S = Some ()" using assert_fits_iff [OF assms(1) pos] S(4) by simp
  note fs = from_set_ok [OF assms(1) a(7) S(2) this]
  show ?thesis
    using a ch ss(1) S(1) fs by (auto simp: eb_finish_def edited_ok_def)
qed


text \<open>A text of ten letters, its first five replaced by three others, a range after them deleted,
  and part of that range kept as a mark.\<close>

definition demo_letters :: buffer_text where
  "demo_letters = demo_ab\<lparr>rope := [97, 98, 99, 100, 101, 102, 103, 104, 105, 106, NL]\<rparr>"

definition demo_build ::
  "segmentation \<Rightarrow> edit_builder \<Rightarrow> (landings \<times> edit_builder) option"
where
  "demo_build B b = do {
     (_, b) \<leftarrow> eb_replace B b \<lparr>cr_start = 0, cr_last = 4, cr_end = 5\<rparr> [120, 121, 122];
     (kept, b) \<leftarrow> eb_keep B b \<lparr>cr_start = 5, cr_last = 6, cr_end = 7\<rparr>;
     (_, b) \<leftarrow> eb_delete B b \<lparr>cr_start = 5, cr_last = 9, cr_end = 10\<rparr>;
     results \<leftarrow> landings_new [Covering kept Forward] 0;
     Some (results, b) }"

definition demo_letters_state :: edit_state where
  "demo_letters_state = \<lparr>es_text = demo_letters,
     es_sels = \<lparr>sels = [\<lparr>anchor = 0, head = 0, sticky = None\<rparr>], primary = 0, set_version = version demo_ab\<rparr>\<rparr>"

definition demo_built :: edit_builder where
  "demo_built = \<lparr>eb_text = demo_letters, eb_items =
     [\<lparr>it_key = 0, it_kind = ReplaceTo 5 [120, 121, 122] False\<rparr>,
      \<lparr>it_key = 5, it_kind = AnchorHere\<rparr>, \<lparr>it_key = 7, it_kind = AnchorHere\<rparr>,
      \<lparr>it_key = 5, it_kind = DeleteTo 10\<rparr>]\<rparr>"


text \<open>Witnesses: the first char of the demonstration text deleted.\<close>

definition demo_delete :: edit_builder where
  "demo_delete = \<lparr>eb_text = demo_ab, eb_items = [\<lparr>it_key = 0, it_kind = DeleteTo 1\<rparr>]\<rparr>"

lemma demo_delete_ok: "eb_ok demo_delete"
  using demo_cs_wf(3) by (simp add: eb_ok_def demo_delete_def item_ok_def demo_ab_def)

lemma demo_range_ok: "range_ok demo_seg (rope demo_ab) \<lparr>cr_start = 0, cr_last = 1, cr_end = 2\<rparr>"
proof -
  have "next_boundary demo_seg [97, 98, NL] 1 = 2"
    by (rule next_boundary_eqI) (auto simp: demo_seg_def)
  then show ?thesis by (simp add: range_ok_def is_start_def demo_ab_def demo_seg_def)
qed

theorem recording_keeps_ok_witness:
  "\<exists>p b'. eb_delete demo_seg demo_delete \<lparr>cr_start = 0, cr_last = 1, cr_end = 2\<rparr> = Some (p, b') \<and>
     eb_ok b' \<and> length (eb_items b') = 2"
proof -
  have t: "eb_text demo_delete = demo_ab" by (simp add: demo_delete_def)
  have "is_bound demo_seg (rope (eb_text demo_delete)) 0"
    by (simp add: is_bound_def is_start_def t demo_ab_def demo_seg_def)
  from recording_keeps_ok [OF demo_seg_ok demo_delete_ok this, unfolded t, OF demo_range_ok, of "[]"]
  show ?thesis by (fastforce simp: demo_delete_def)
qed


end
