(* ===== verification/Encoding.thy ===== *)
theory Encoding imports Rope begin

text \<open>
  Bytes and code units: the UTF-8 and UTF-16 offsets of \<open>ropey\<close>, the byte functions of
  \<open>hume-rope/src/lines.rs\<close> and the wire positions of \<open>position_encoding.rs\<close>, which count
  columns in the code units a language server negotiated.
\<close>

section \<open>Code units of a char sequence\<close>

text \<open>The UTF-8 form of a scalar value.\<close>

definition utf8_char :: "uchar \<Rightarrow> nat list" where
  "utf8_char c =
     (if c < 0x80 then [c]
      else if c < 0x800 then [0xC0 + c div 64, 0x80 + c mod 64]
      else if c < 0x10000 then [0xE0 + c div 4096, 0x80 + c div 64 mod 64, 0x80 + c mod 64]
      else [0xF0 + c div 262144, 0x80 + c div 4096 mod 64, 0x80 + c div 64 mod 64, 0x80 + c mod 64])"

definition utf8 :: "ustring \<Rightarrow> nat list" where
  "utf8 t = concat (map utf8_char t)"

definition utf8_width :: "uchar \<Rightarrow> nat" where
  "utf8_width c = length (utf8_char c)"

definition utf16_width :: "uchar \<Rightarrow> nat" where
  "utf16_width c = (if c < 0x10000 then 1 else 2)"

text \<open>How many units a sequence takes, and the char a unit belongs to.\<close>

definition units :: "(uchar \<Rightarrow> nat) \<Rightarrow> ustring \<Rightarrow> nat" where
  "units w t = sum_list (map w t)"

fun char_of_unit :: "(uchar \<Rightarrow> nat) \<Rightarrow> ustring \<Rightarrow> nat \<Rightarrow> nat" where
  "char_of_unit w [] u = 0"
| "char_of_unit w (c # t) u = (if u < w c then 0 else Suc (char_of_unit w t (u - w c)))"

text \<open>The operations of \<open>ropey\<close>, with their panics.\<close>

definition len_bytes :: "ustring \<Rightarrow> nat" where
  "len_bytes t = units utf8_width t"

definition len_utf16_cu :: "ustring \<Rightarrow> nat" where
  "len_utf16_cu t = units utf16_width t"

definition char_to_byte :: "ustring \<Rightarrow> nat \<Rightarrow> nat option" where
  "char_to_byte t i = (if i \<le> length t then Some (units utf8_width (take i t)) else None)"

definition byte_to_char :: "ustring \<Rightarrow> nat \<Rightarrow> nat option" where
  "byte_to_char t b = (if b \<le> len_bytes t then Some (char_of_unit utf8_width t b) else None)"

definition char_to_utf16_cu :: "ustring \<Rightarrow> nat \<Rightarrow> nat option" where
  "char_to_utf16_cu t i = (if i \<le> length t then Some (units utf16_width (take i t)) else None)"

definition utf16_cu_to_char :: "ustring \<Rightarrow> nat \<Rightarrow> nat option" where
  "utf16_cu_to_char t u = (if u \<le> len_utf16_cu t then Some (char_of_unit utf16_width t u) else None)"

definition line_to_byte :: "ustring \<Rightarrow> nat \<Rightarrow> nat option" where
  "line_to_byte t l = do { c \<leftarrow> rope_line_to_char t l; char_to_byte t c }"

section \<open>Byte functions of \<open>lines.rs\<close>\<close>

definition next_line_start_byte :: "ustring \<Rightarrow> nat \<Rightarrow> nat option" where
  "next_line_start_byte rope line =
     (let next = line + 1 in
      if next < ropey_line_count rope then line_to_byte rope next else Some (len_bytes rope))"

definition char_to_line_byte :: "ustring \<Rightarrow> nat \<Rightarrow> (nat \<times> nat) option" where
  "char_to_line_byte rope char_pos = do {
     line \<leftarrow> rope_char_to_line rope char_pos;
     line_start_byte \<leftarrow> line_to_byte rope line;
     b \<leftarrow> char_to_byte rope char_pos;
     Some (line, b - line_start_byte) }"

text \<open>\<open>rfind\<close> on a string gives the byte its last LF is at; the LF itself is one byte.\<close>

definition saturating_add :: "nat \<Rightarrow> nat \<Rightarrow> nat" where
  "saturating_add a b = min usize_max (a + b)"

definition advance_byte_point :: "nat \<Rightarrow> nat \<Rightarrow> ustring \<Rightarrow> nat \<times> nat" where
  "advance_byte_point row byte_col inserted =
     (if NL \<notin> set inserted then (row, saturating_add byte_col (len_bytes inserted))
      else (row + nl_count inserted, len_bytes (rev (takeWhile (\<lambda>c. c \<noteq> NL) (rev inserted)))))"

definition line_segment :: "ustring \<Rightarrow> nat \<Rightarrow> nat \<Rightarrow> nat \<Rightarrow> (nat \<times> nat \<times> nat) option option" where
  "line_segment rope r_start r_end line = do {
     line_newline \<leftarrow> line_break rope line;
     line_start \<leftarrow> rope_line_to_char rope line;
     let seg_start = max r_start line_start;
     let seg_end = min r_end line_newline;
     if seg_start \<ge> seg_end then Some None
     else do {
       line_start_byte \<leftarrow> line_to_byte rope line;
       byte_start \<leftarrow> char_to_byte rope seg_start;
       byte_start \<leftarrow> checked_sub byte_start line_start_byte;
       byte_end \<leftarrow> char_to_byte rope seg_end;
       byte_end \<leftarrow> checked_sub byte_end line_start_byte;
       Some (Some (line, byte_start, byte_end)) } }"

definition line_segments :: "ustring \<Rightarrow> nat \<Rightarrow> nat \<Rightarrow> (nat \<times> nat \<times> nat) list option" where
  "line_segments rope r_start r_end = do {
     last_char \<leftarrow> checked_sub r_end 1;
     start_line \<leftarrow> rope_char_to_line rope r_start;
     end_line \<leftarrow> rope_char_to_line rope last_char;
     segs \<leftarrow> those (map (line_segment rope r_start r_end) [start_line..<end_line + 1]);
     Some (List.map_filter id segs) }"

section \<open>Wire positions\<close>

datatype position_encoding = Utf8 | Utf16 | Utf32

record wire_pos =
  wp_line :: nat
  wp_character :: nat

definition char_to_wire :: "ustring \<Rightarrow> nat \<Rightarrow> position_encoding \<Rightarrow> wire_pos option" where
  "char_to_wire text char_idx enc = do {
     let char_idx = min char_idx (length text);
     line \<leftarrow> char_to_ropey_line text char_idx;
     character \<leftarrow> (case enc of
         Utf8 \<Rightarrow> do {
           b \<leftarrow> char_to_byte text char_idx;
           l \<leftarrow> line_to_byte text line;
           checked_sub b l }
       | Utf16 \<Rightarrow> do {
           line_start \<leftarrow> line_start_char text line;
           b \<leftarrow> char_to_utf16_cu text char_idx;
           l \<leftarrow> char_to_utf16_cu text line_start;
           checked_sub b l }
       | Utf32 \<Rightarrow> do {
           line_start \<leftarrow> line_start_char text line;
           checked_sub char_idx line_start });
     Some \<lparr>wp_line = line, wp_character = character\<rparr> }"

definition char_range_to_wire_range ::
  "ustring \<Rightarrow> nat \<times> nat \<Rightarrow> position_encoding \<Rightarrow> (wire_pos \<times> wire_pos) option"
where
  "char_range_to_wire_range text r enc = do {
     s \<leftarrow> char_to_wire text (fst r) enc;
     e \<leftarrow> char_to_wire text (snd r) enc;
     Some (s, e) }"

definition wire_offset_to_char_index :: "ustring \<Rightarrow> nat \<Rightarrow> position_encoding \<Rightarrow> nat option" where
  "wire_offset_to_char_index text offset enc = (case enc of
       Utf8 \<Rightarrow> byte_to_char text (min offset (len_bytes text))
     | Utf16 \<Rightarrow> utf16_cu_to_char text (min offset (len_utf16_cu text))
     | Utf32 \<Rightarrow> Some (min offset (length text)))"

definition line_char_col :: "ustring \<Rightarrow> nat \<Rightarrow> nat \<Rightarrow> position_encoding \<Rightarrow> nat option" where
  "line_char_col text line character enc = do {
     line_start \<leftarrow> line_start_char text line;
     terminator \<leftarrow> line_terminator_start text line;
     content \<leftarrow> slice_opt text line_start terminator;
     wire_offset_to_char_index content character enc }"

definition wire_to_line_char_col :: "ustring \<Rightarrow> wire_pos \<Rightarrow> position_encoding \<Rightarrow> (nat \<times> nat) option" where
  "wire_to_line_char_col text pos enc = do {
     let line = ropey_line_clamped text (wp_line pos);
     col \<leftarrow> line_char_col text line (wp_character pos) enc;
     Some (line, col) }"

definition checked_wire_to_line_char_col ::
  "ustring \<Rightarrow> wire_pos \<Rightarrow> position_encoding \<Rightarrow> (nat \<times> nat) option option"
where
  "checked_wire_to_line_char_col text pos enc =
     (case content_line_checked text (wp_line pos) of
        None \<Rightarrow> Some None
      | Some line \<Rightarrow> do {
          col \<leftarrow> line_char_col text line (wp_character pos) enc;
          Some (Some (line, col)) })"

definition line_col_to_char :: "ustring \<Rightarrow> nat \<Rightarrow> nat \<Rightarrow> nat option" where
  "line_col_to_char text line char_col = do { s \<leftarrow> line_start_char text line; Some (s + char_col) }"

definition wire_to_char :: "ustring \<Rightarrow> wire_pos \<Rightarrow> position_encoding \<Rightarrow> nat option" where
  "wire_to_char text pos enc = do {
     (line, char_col) \<leftarrow> wire_to_line_char_col text pos enc;
     line_col_to_char text line char_col }"

definition checked_wire_to_char :: "ustring \<Rightarrow> wire_pos \<Rightarrow> position_encoding \<Rightarrow> nat option option" where
  "checked_wire_to_char text pos enc = do {
     p \<leftarrow> checked_wire_to_line_char_col text pos enc;
     case p of
       None \<Rightarrow> Some None
     | Some (line, char_col) \<Rightarrow> do { c \<leftarrow> line_col_to_char text line char_col; Some (Some c) } }"

definition wire_range_to_char_range ::
  "ustring \<Rightarrow> wire_pos \<times> wire_pos \<Rightarrow> position_encoding \<Rightarrow> (nat \<times> nat) option"
where
  "wire_range_to_char_range text r enc = do {
     s \<leftarrow> wire_to_char text (fst r) enc;
     e \<leftarrow> wire_to_char text (snd r) enc;
     Some (s, e) }"

definition checked_wire_range_to_char_range ::
  "ustring \<Rightarrow> wire_pos \<times> wire_pos \<Rightarrow> position_encoding \<Rightarrow> (nat \<times> nat) option option"
where
  "checked_wire_range_to_char_range text r enc =
     (let last_line = last_ropey_line text in
      if wp_line (fst r) > last_line \<or> wp_line (snd r) > last_line then Some None
      else map_option Some (wire_range_to_char_range text r enc))"

definition wire_offsets_to_byte_range ::
  "ustring \<Rightarrow> nat \<Rightarrow> nat \<Rightarrow> position_encoding \<Rightarrow> (nat \<times> nat) option"
where
  "wire_offsets_to_byte_range text start end_offset enc = do {
     s \<leftarrow> wire_offset_to_char_index text start enc;
     start_byte \<leftarrow> char_to_byte text s;
     e \<leftarrow> wire_offset_to_char_index text end_offset enc;
     end_byte \<leftarrow> char_to_byte text e;
     Some (start_byte, max end_byte start_byte) }"

section \<open>Units and chars\<close>

lemma utf8_width_pos [simp]: "0 < utf8_width c" "utf16_width c > 0"
  by (simp_all add: utf8_width_def utf8_char_def utf16_width_def)

lemma length_utf8 [simp]: "length (utf8 t) = len_bytes t"
  by (induction t) (simp_all add: utf8_def len_bytes_def units_def utf8_width_def)

lemma units_simps [simp]:
  "units w [] = 0" "units w (c # t) = w c + units w t" "units w (s @ t) = units w s + units w t"
  by (simp_all add: units_def)

lemma units_take_le: "units w (take i t) \<le> units w t"
  by (metis append_take_drop_id le_add1 units_simps(3))

lemma units_take_mono: "i \<le> j \<Longrightarrow> units w (take i t) \<le> units w (take j t)"
  by (metis min.absorb1 take_take units_take_le)

lemma units_slice: "a \<le> b \<Longrightarrow> units w (take b t) = units w (take a t) + units w (slice t a b)"
proof -
  assume "a \<le> b"
  then have "take b t = take a t @ slice t a b"
    unfolding slice_def by (metis le_add_diff_inverse take_add)
  then show ?thesis by simp
qed

text \<open>The char of a unit is the last one that starts at or before it.\<close>

lemma char_of_unit_bounds:
  assumes "\<And>c. 0 < w c" "u \<le> units w t"
  shows "char_of_unit w t u \<le> length t" "units w (take (char_of_unit w t u) t) \<le> u"
    "\<And>i. char_of_unit w t u < i \<Longrightarrow> i \<le> length t \<Longrightarrow> u < units w (take i t)"
proof -
  have "char_of_unit w t u \<le> length t \<and> units w (take (char_of_unit w t u) t) \<le> u \<and>
    (\<forall>i. char_of_unit w t u < i \<longrightarrow> i \<le> length t \<longrightarrow> u < units w (take i t))"
    using assms(2)
  proof (induction t arbitrary: u)
    case (Cons c t)
    show ?case
    proof (cases "u < w c")
      case True
      have "u < units w (take i (c # t))" if "0 < i" for i using that True by (cases i) simp_all
      then show ?thesis using True by simp
    next
      case False
      then have "u - w c \<le> units w t" using Cons.prems by simp
      note ih = Cons.IH [OF this]
      have "u < units w (take i (c # t))" if "Suc (char_of_unit w t (u - w c)) < i" "i \<le> length (c # t)" for i
      proof (cases i)
        case (Suc j)
        then have "u - w c < units w (take j t)" using ih that by simp
        then show ?thesis using Suc False by simp
      qed (use that in simp)
      then show ?thesis using ih False by auto
    qed
  qed simp
  then show "char_of_unit w t u \<le> length t" "units w (take (char_of_unit w t u) t) \<le> u"
    "\<And>i. char_of_unit w t u < i \<Longrightarrow> i \<le> length t \<Longrightarrow> u < units w (take i t)" by blast+
qed

lemma units_strict: "(\<And>c. 0 < w c) \<Longrightarrow> i < j \<Longrightarrow> j \<le> length t \<Longrightarrow> units w (take i t) < units w (take j t)"
proof -
  assume w: "\<And>c. 0 < w c" and ij: "i < j" "j \<le> length t"
  have "take j t = take i t @ slice t i j" unfolding slice_def using ij
    by (metis le_add_diff_inverse less_imp_le take_add)
  moreover have "0 < units w (slice t i j)"
    using ij w by (cases "slice t i j") (auto simp: slice_def add_pos_nonneg)
  ultimately show ?thesis by simp
qed

lemma char_of_unit_start:
  assumes "\<And>c. 0 < w c" "i \<le> length t"
  shows "char_of_unit w t (units w (take i t)) = i"
proof -
  let ?k = "char_of_unit w t (units w (take i t))"
  note b = char_of_unit_bounds [OF assms(1) units_take_le [of w i t]]
  show ?thesis
  proof (rule antisym)
    show "?k \<le> i" using b(2) units_strict [OF assms(1), of i ?k t] b(1) by (meson leD leI)
    show "i \<le> ?k" using b(3) [of i] assms(2) by (meson leI less_irrefl)
  qed
qed

text \<open>The unit widths of the three wire encodings.\<close>

fun enc_width :: "position_encoding \<Rightarrow> uchar \<Rightarrow> nat" where
  "enc_width Utf8 c = utf8_width c"
| "enc_width Utf16 c = utf16_width c"
| "enc_width Utf32 c = 1"

lemma enc_width_pos [simp]: "0 < enc_width enc c"
  by (cases enc) simp_all

lemma units_one [simp]: "units (\<lambda>_. Suc 0) t = length t"
  by (induction t) simp_all

lemma char_of_unit_one: "u \<le> length t \<Longrightarrow> char_of_unit (\<lambda>_. Suc 0) t u = u"
  using char_of_unit_start [of "\<lambda>_. Suc 0" u t] by simp

lemma enc_width_eqs: "enc_width Utf8 = utf8_width" "enc_width Utf16 = utf16_width" "enc_width Utf32 = (\<lambda>_. Suc 0)"
  by (simp_all add: fun_eq_iff)

lemma wire_offset_eq:
  "wire_offset_to_char_index t u enc = Some (char_of_unit (enc_width enc) t (min u (units (enc_width enc) t)))"
  by (cases enc) (simp_all add: wire_offset_to_char_index_def byte_to_char_def utf16_cu_to_char_def
      len_bytes_def len_utf16_cu_def char_of_unit_one enc_width_eqs)

lemma line_ends:
  assumes "l \<le> nl_count t"
  shows "line_terminator_start t l = Some (if l < nl_count t then line_offset t (Suc l) - 1 else length t)"
    "line_offset t l \<le> (if l < nl_count t then line_offset t (Suc l) - 1 else length t)"
    "i \<le> length t \<Longrightarrow> nl_count (take i t) = l \<longleftrightarrow>
       line_offset t l \<le> i \<and> i \<le> (if l < nl_count t then line_offset t (Suc l) - 1 else length t)"
proof -
  have pos: "0 < line_offset t (Suc l)" if "l < nl_count t" using line_offset_prev_nl [of "Suc l" t] that by simp
  show "line_terminator_start t l = Some (if l < nl_count t then line_offset t (Suc l) - 1 else length t)"
    using assms pos by (cases "l < nl_count t") (simp_all add: line_terminator_start_def next_line_start_def
        Let_def line_count_defs rope_line_to_char_def checked_sub_def Suc_leI)
  show "line_offset t l \<le> (if l < nl_count t then line_offset t (Suc l) - 1 else length t)"
    using line_lf(1) [of l t] by simp
  show "nl_count (take i t) = l \<longleftrightarrow>
       line_offset t l \<le> i \<and> i \<le> (if l < nl_count t then line_offset t (Suc l) - 1 else length t)"
    if i: "i \<le> length t"
  proof (cases "l < nl_count t")
    case True
    then show ?thesis
      using line_offset_le_iff [OF assms i] line_offset_le_iff [of "Suc l" t i] i pos by auto
  next
    case False
    then have "nl_count (take i t) \<le> l" using assms count_list_take_le [of i t NL] by simp
    then show ?thesis using line_offset_le_iff [OF assms i] i False by auto
  qed
qed

lemma char_to_wire_eq:
  assumes "i \<le> length t"
  shows "char_to_wire t i enc = Some \<lparr>wp_line = nl_count (take i t),
    wp_character = units (enc_width enc) (slice t (line_offset t (nl_count (take i t))) i)\<rparr>"
proof -
  let ?l = "nl_count (take i t)"
  have l: "?l \<le> nl_count t" by (rule count_list_take_le)
  have s: "line_offset t ?l \<le> i" using line_ends(3) [OF l assms] by simp
  have "length (slice t (line_offset t ?l) i) = i - line_offset t ?l" using assms by simp
  with s l assms units_slice [OF s, of utf8_width t] units_slice [OF s, of utf16_width t]
  show ?thesis
    by (cases enc) (simp_all add: char_to_wire_def char_to_ropey_line_def rope_char_to_line_def line_to_byte_def
        line_start_char_def rope_line_to_char_def rope_len_lines_def char_to_byte_def char_to_utf16_cu_def
        checked_sub_def enc_width_eqs)
qed

lemma line_char_col_eq:
  assumes "l \<le> nl_count t"
  shows "line_char_col t l u enc = Some (char_of_unit (enc_width enc)
    (slice t (line_offset t l) (if l < nl_count t then line_offset t (Suc l) - 1 else length t))
    (min u (units (enc_width enc)
      (slice t (line_offset t l) (if l < nl_count t then line_offset t (Suc l) - 1 else length t)))))"
proof -
  have "line_offset t (Suc l) - 1 \<le> length t" using line_offset_le [of t "Suc l"] by linarith
  then show ?thesis
    using assms line_ends(1,2) [OF assms]
    by (auto simp: line_char_col_def line_start_char_def rope_line_to_char_def rope_len_lines_def slice_opt_def
        wire_offset_eq)
qed

text \<open>Where a wire position lands: on its line, clamped, the last char not past the column asked.\<close>

lemma wire_to_char_ok:
  assumes "l = min (wp_line pos) (nl_count t)"
  shows "\<exists>i. wire_to_char t pos enc = Some i \<and> i \<le> length t \<and> nl_count (take i t) = l \<and>
     units (enc_width enc) (slice t (line_offset t l) i) \<le> wp_character pos \<and>
     (\<forall>j. i < j \<and> j \<le> length t \<and> nl_count (take j t) = l \<longrightarrow>
        wp_character pos < units (enc_width enc) (slice t (line_offset t l) j))"
proof -
  let ?w = "enc_width enc" and ?s = "line_offset t l"
  define e where "e = (if l < nl_count t then line_offset t (Suc l) - 1 else length t)"
  have l: "l \<le> nl_count t" using assms by simp
  have "line_offset t (Suc l) - 1 \<le> length t" using line_offset_le [of t "Suc l"] by linarith
  then have e: "?s \<le> e" "e \<le> length t" unfolding e_def using line_ends(2) [OF l] by simp_all
  let ?c = "slice t ?s e" and ?u = "min (wp_character pos) (units (enc_width enc) (slice t (line_offset t l) e))"
  define k where "k = char_of_unit ?w ?c ?u"
  have "?u \<le> units ?w ?c" by simp
  note b = char_of_unit_bounds [OF enc_width_pos [of enc] this, folded k_def]
  have len: "length ?c = e - ?s" using e by simp
  have part: "take m ?c = slice t ?s (?s + m)" if "m \<le> e - ?s" for m using that by (simp add: slice_def min_absorb1)
  have k: "k \<le> e - ?s" using b(1) len by simp
  have "line_char_col t l (wp_character pos) enc = Some k"
    unfolding k_def e_def by (rule line_char_col_eq [OF l])
  moreover have "ropey_line_clamped t (wp_line pos) = l" using assms by (simp add: ropey_line_clamped_def)
  ultimately have "wire_to_char t pos enc = Some (?s + k)"
    using l by (simp add: wire_to_char_def wire_to_line_char_col_def Let_def line_col_to_char_def
        line_start_char_def rope_line_to_char_def rope_len_lines_def)
  moreover have "?s + k \<le> length t" using k e by linarith
  moreover from this have "nl_count (take (?s + k) t) = l"
    using line_ends(3) [OF l, of "?s + k"] k e by (auto simp: e_def)
  moreover have "units ?w (slice t ?s (?s + k)) \<le> wp_character pos"
    using b(2) part [OF k] by simp
  moreover have "wp_character pos < units ?w (slice t ?s j)"
    if j: "?s + k < j" "j \<le> length t" "nl_count (take j t) = l" for j
  proof -
    have je: "j \<le> e" "?s \<le> j" using line_ends(3) [OF l j(2)] j(3) by (simp_all add: e_def)
    have jk: "k < j - ?s" "j - ?s \<le> length ?c" "j - ?s \<le> e - ?s" using j(1) je len by auto
    have "?u < units ?w (slice t ?s j)"
      using b(3) [OF jk(1,2)] part [OF jk(3)] je by simp
    moreover have "units ?w (slice t ?s j) \<le> units ?w ?c"
      using units_take_le [of ?w "j - ?s" ?c] part [OF jk(3)] je by simp
    ultimately show ?thesis by (simp split: if_splits)
  qed
  ultimately show ?thesis by blast
qed

section \<open>Properties\<close>

lemma columns_inj:
  assumes "i \<le> length t" "j \<le> length t" "nl_count (take i t) = l" "nl_count (take j t) = l" "i < j"
  shows "units (enc_width enc) (slice t (line_offset t l) i) < units (enc_width enc) (slice t (line_offset t l) j)"
proof -
  have l: "l \<le> nl_count t" using assms(3) count_list_take_le [of i t NL] by simp
  have s: "line_offset t l \<le> i" using line_ends(3) [OF l assms(1)] assms(3) by simp
  have "units (enc_width enc) (take i t) < units (enc_width enc) (take j t)"
    by (rule units_strict) (use assms in simp_all)
  then show ?thesis using units_slice [OF s, of "enc_width enc" t] units_slice [of "line_offset t l" j "enc_width enc" t] s assms(5)
    by simp
qed

lemma wire_offset_ok: "\<exists>a. wire_offset_to_char_index t u enc = Some a \<and> a \<le> length t"
  unfolding wire_offset_eq
  by (intro exI conjI, rule refl, rule char_of_unit_bounds(1) [OF enc_width_pos]) simp


text \<open>Any wire position a server sends is read without a panic: it lands on the line it names,
  clamped to the last, at the last char whose column does not pass the one asked, so never inside a
  char and never past the line's end; the checked form refuses exactly a line that is not a content
  line; and a pair of offsets into a string gives an ordered byte range at char boundaries.\<close>

theorem wire_positions_land:
  "(\<exists>i. wire_to_char t pos enc = Some i \<and> i \<le> length t \<and>
     (\<exists>p. char_to_wire t i enc = Some p \<and> wp_line p = min (wp_line pos) (nl_count t) \<and>
        wp_character p \<le> wp_character pos \<and>
        (\<forall>j q. i < j \<and> j \<le> length t \<and> char_to_wire t j enc = Some q \<and> wp_line q = wp_line p \<longrightarrow>
           wp_character pos < wp_character q)) \<and>
     checked_wire_to_char t pos enc = Some (if wp_line pos < nl_count t then Some i else None)) \<and>
   (\<exists>a b. wire_offsets_to_byte_range t u v enc = Some (units utf8_width (take a t), units utf8_width (take b t)) \<and>
     a \<le> b \<and> b \<le> length t)"
proof -
  let ?l = "min (wp_line pos) (nl_count t)"
  from wire_to_char_ok [of ?l pos t enc] obtain i where
    i: "wire_to_char t pos enc = Some i" "i \<le> length t" "nl_count (take i t) = ?l"
      "units (enc_width enc) (slice t (line_offset t ?l) i) \<le> wp_character pos"
      "\<And>j. i < j \<Longrightarrow> j \<le> length t \<Longrightarrow> nl_count (take j t) = ?l \<Longrightarrow>
         wp_character pos < units (enc_width enc) (slice t (line_offset t ?l) j)" by blast
  have far: "wp_character pos < wp_character q"
    if "i < j" "j \<le> length t" "char_to_wire t j enc = Some q" "wp_line q = ?l" for j q
    using that i(5) [OF that(1,2)] char_to_wire_eq [OF that(2), of enc] by auto
  have "checked_wire_to_char t pos enc =
      Some (if wp_line pos < nl_count t then Some i else None)"
    using i(1)
    by (cases "line_char_col t ?l (wp_character pos) enc"; cases "line_start_char t ?l")
      (auto simp: checked_wire_to_char_def checked_wire_to_line_char_col_def wire_to_char_def
        wire_to_line_char_col_def ropey_line_clamped_def content_line_checked_def line_col_to_char_def Let_def min_def
        split: if_splits)
  then have A: "\<exists>i. wire_to_char t pos enc = Some i \<and> i \<le> length t \<and>
     (\<exists>p. char_to_wire t i enc = Some p \<and> wp_line p = ?l \<and>
        wp_character p \<le> wp_character pos \<and>
        (\<forall>j q. i < j \<and> j \<le> length t \<and> char_to_wire t j enc = Some q \<and> wp_line q = wp_line p \<longrightarrow>
           wp_character pos < wp_character q)) \<and>
     checked_wire_to_char t pos enc = Some (if wp_line pos < nl_count t then Some i else None)"
    using i(1-4) char_to_wire_eq [OF i(2), of enc] far by (intro exI [of _ i]) auto
  obtain a b where ab: "wire_offset_to_char_index t u enc = Some a" "a \<le> length t"
    "wire_offset_to_char_index t v enc = Some b" "b \<le> length t"
    using wire_offset_ok [of t u enc] wire_offset_ok [of t v enc] by blast
  have "max (units utf8_width (take b t)) (units utf8_width (take a t)) = units utf8_width (take (max a b) t)"
  proof (cases "a \<le> b")
    case True
    then show ?thesis using units_take_mono [OF True] by (simp add: max_absorb1 max_absorb2)
  next
    case False
    then have le: "b \<le> a" by simp
    then show ?thesis using units_take_mono [OF le] by (simp add: max_absorb1 max_absorb2)
  qed
  then have "wire_offsets_to_byte_range t u v enc = Some (units utf8_width (take a t), units utf8_width (take (max a b) t))"
    using ab by (simp add: wire_offsets_to_byte_range_def char_to_byte_def)
  moreover have "a \<le> max a b" "max a b \<le> length t" using ab by simp_all
  ultimately have B: "\<exists>a b. wire_offsets_to_byte_range t u v enc =
      Some (units utf8_width (take a t), units utf8_width (take b t)) \<and> a \<le> b \<and> b \<le> length t" by blast
  from A B show ?thesis by blast
qed

text \<open>A position on the empty line after an accented text's last line break.\<close>

theorem wire_positions_land_witness:
  "checked_wire_to_char [97, 10, 233, 10] \<lparr>wp_line = 2, wp_character = 0\<rparr> Utf8 = Some None \<and>
   (\<exists>i. wire_to_char [97, 10, 233, 10] \<lparr>wp_line = 2, wp_character = 0\<rparr> Utf8 = Some i \<and> i \<le> 4)"
proof -
  from conjunct1 [OF wire_positions_land [of "[97, 10, 233, 10]" "\<lparr>wp_line = 2, wp_character = 0\<rparr>" Utf8 0 0]]
  obtain i where "wire_to_char [97, 10, 233, 10] \<lparr>wp_line = 2, wp_character = 0\<rparr> Utf8 = Some i"
    "i \<le> length [97, 10, 233, 10::nat]"
    "checked_wire_to_char [97, 10, 233, 10] \<lparr>wp_line = 2, wp_character = 0\<rparr> Utf8 =
      Some (if 2 < nl_count [97, 10, 233, 10] then Some i else None)" unfolding wire_pos.select_convs by blast
  then show ?thesis by simp
qed

end
