(* ===== verification/SharedLines.thy ===== *)
theory SharedLines imports Encoding begin

text \<open>
  Splitting a text into line tokens and finding the lines two texts share at their ends: the part of
  \<open>hume-rope/src/lines.rs\<close> a line diff starts from. Both walk the chunks a rope holds its text in, so
  a text is a list of chunks here; nothing a caller sees depends on where they are cut.
\<close>

section \<open>Line tokens\<close>

text \<open>The position after the first LF of a string.\<close>

definition find_lf :: "ustring \<Rightarrow> nat option" where
  "find_lf s = (if NL \<in> set s then Some (length (takeWhile (\<lambda>c. c \<noteq> NL) s)) else None)"

lemma find_lf_Some: "find_lf s = Some i \<Longrightarrow> i < length s \<and> s ! i = NL \<and> NL \<notin> set (take i s)"
proof -
  assume a: "find_lf s = Some i"
  then have i: "NL \<in> set s" "i = length (takeWhile (\<lambda>c. c \<noteq> NL) s)" by (auto simp: find_lf_def split: if_splits)
  have "i < length s" using i by (metis (full_types) length_takeWhile_le less_le takeWhile_eq_all_conv takeWhile_eq_take take_all)
  moreover from this have "s ! i = NL" using nth_length_takeWhile [of "\<lambda>c. c \<noteq> NL" s] i by auto
  moreover have "take i s = takeWhile (\<lambda>c. c \<noteq> NL) s" using i(2) takeWhile_eq_take by metis
  moreover have "NL \<notin> set (takeWhile (\<lambda>c. c \<noteq> NL) s)" by (auto dest: set_takeWhileD)
  ultimately show ?thesis by simp
qed

text \<open>\<open>line_token_strs\<close>: the tokens out of what is left of the current chunk, the chunks after it and
  the part of the current line that came before. The iterator ends with the last line's token.\<close>

function line_tokens_loop :: "ustring \<Rightarrow> ustring list \<Rightarrow> ustring \<Rightarrow> ustring list" where
  "line_tokens_loop chunk chunks straddling =
     (case find_lf chunk of
        Some e \<Rightarrow> (straddling @ take (e + 1) chunk) # line_tokens_loop (drop (e + 1) chunk) chunks []
      | None \<Rightarrow>
          (case chunks of
             [] \<Rightarrow> [straddling @ chunk]
           | c # chunks \<Rightarrow> line_tokens_loop c chunks (straddling @ chunk)))"
  by pat_completeness auto
termination
  by (relation "measures [\<lambda>(c, cs, s). length cs, \<lambda>(c, cs, s). length c]") (auto dest: find_lf_Some)

declare line_tokens_loop.simps [simp del]

definition line_token_strs :: "ustring list \<Rightarrow> ustring list" where
  "line_token_strs chunks = line_tokens_loop [] chunks []"

definition strip_line_break :: "ustring \<Rightarrow> ustring" where
  "strip_line_break line = (if line \<noteq> [] \<and> last line = NL then butlast line else line)"

definition line_token_content :: "ustring \<Rightarrow> ustring" where
  "line_token_content token = strip_line_break token"

section \<open>Shared ends\<close>

datatype edge = EdgeStart | EdgeEnd

fun split_edge :: "edge \<Rightarrow> 'a list \<Rightarrow> nat \<Rightarrow> 'a list \<times> 'a list" where
  "split_edge EdgeStart chunk n = (take n chunk, drop n chunk)"
| "split_edge EdgeEnd chunk n = (drop (length chunk - n) chunk, take (length chunk - n) chunk)"

fun equal_pairs :: "edge \<Rightarrow> 'a list \<Rightarrow> 'a list \<Rightarrow> nat" where
  "equal_pairs EdgeStart a b = length (takeWhile (\<lambda>(x, y). x = y) (zip a b))"
| "equal_pairs EdgeEnd a b = length (takeWhile (\<lambda>(x, y). x = y) (rev (zip a b)))"

function shared_loop ::
  "edge \<Rightarrow> 'a list \<Rightarrow> 'a list \<Rightarrow> 'a list list \<Rightarrow> 'a list list \<Rightarrow> nat \<Rightarrow> nat \<Rightarrow> nat"
where
  "shared_loop edge a b old new limit shared =
     (if shared < limit then
        (if a = [] then
           (case old of [] \<Rightarrow> shared | chunk # old \<Rightarrow> shared_loop edge chunk b old new limit shared)
         else if b = [] then
           (case new of [] \<Rightarrow> shared | chunk # new \<Rightarrow> shared_loop edge a chunk old new limit shared)
         else
           (let n = min (min (length a) (length b)) (limit - shared);
                (a_near, a_rest) = split_edge edge a n;
                (b_near, b_rest) = split_edge edge b n
            in if a_near \<noteq> b_near then shared + equal_pairs edge a_near b_near
               else shared_loop edge a_rest b_rest old new limit (shared + n)))
      else shared)"
  by pat_completeness auto
termination
  by (relation "measures [\<lambda>(e, a, b, old, new, limit, shared). limit - shared,
      \<lambda>(e, a, b, old, new, limit, shared). length old + length new]")
     (auto intro!: diff_less_mono2)

declare shared_loop.simps [simp del]

definition shared_len :: "edge \<Rightarrow> 'a list list \<Rightarrow> 'a list list \<Rightarrow> nat \<Rightarrow> nat" where
  "shared_len edge old new limit = shared_loop edge [] [] old new limit 0"

record shared_line_ends =
  first_middle_line :: nat
  old_middle :: "nat \<times> nat"
  new_middle :: "nat \<times> nat"

text \<open>Byte lookups of \<open>ropey\<close>. A byte slice panics unless its ends are at char boundaries.\<close>

definition byte_to_line :: "ustring \<Rightarrow> nat \<Rightarrow> nat option" where
  "byte_to_line t b = (if b \<le> len_bytes t then Some (count_list (take b (utf8 t)) 10) else None)"

definition is_char_boundary :: "ustring \<Rightarrow> nat \<Rightarrow> bool" where
  "is_char_boundary t b = (b \<le> len_bytes t \<and> units utf8_width (take (char_of_unit utf8_width t b) t) = b)"

definition bytes_from :: "ustring \<Rightarrow> nat \<Rightarrow> nat list option" where
  "bytes_from t b = (if is_char_boundary t b then Some (drop b (utf8 t)) else None)"

definition shared_line_ends_of :: "ustring list \<Rightarrow> ustring list \<Rightarrow> shared_line_ends option" where
  "shared_line_ends_of old_chunks new_chunks = do {
     let old = concat old_chunks;
     let new = concat new_chunks;
     let old_len = len_bytes old;
     let new_len = len_bytes new;
     let shortest = min old_len new_len;
     let head = shared_len EdgeStart (map utf8 old_chunks) (map utf8 new_chunks) shortest;
     first_line \<leftarrow> byte_to_line new head;
     start \<leftarrow> line_to_byte new first_line;
     limit \<leftarrow> checked_sub shortest start;
     let tail = shared_len EdgeEnd (map utf8 (rev old_chunks)) (map utf8 (rev new_chunks)) limit;
     from_tail \<leftarrow> checked_sub new_len tail;
     bytes \<leftarrow> bytes_from new from_tail;
     whole_tail \<leftarrow> (case find_lf bytes of
         None \<Rightarrow> Some 0
       | Some at \<Rightarrow> do { n \<leftarrow> checked_sub tail at; checked_sub n 1 });
     start_char \<leftarrow> byte_to_char new start;
     b \<leftarrow> checked_sub new_len whole_tail;
     new_end \<leftarrow> byte_to_char new b;
     tail_chars \<leftarrow> checked_sub (length new) new_end;
     old_end \<leftarrow> checked_sub (length old) tail_chars;
     Some \<lparr>first_middle_line = first_line, old_middle = (start_char, old_end),
           new_middle = (start_char, new_end)\<rparr> }"

section \<open>The tokens\<close>

text \<open>The reference: the lines of a text, each with its break, and what follows the last break.\<close>

fun tokens :: "ustring \<Rightarrow> ustring list" where
  "tokens [] = [[]]"
| "tokens (c # t) = (if c = NL then [c] # tokens t
     else (case tokens t of [] \<Rightarrow> [[c]] | x # xs \<Rightarrow> (c # x) # xs))"

lemma tokens_ne [simp]: "tokens t \<noteq> []"
  by (induction t) (auto split: list.splits)

lemma tokens_plain: "NL \<notin> set s \<Longrightarrow> tokens (s @ t) = (s @ hd (tokens t)) # tl (tokens t)"
  by (induction s) (auto split: list.splits)

lemma tokens_line: "NL \<notin> set s \<Longrightarrow> tokens (s @ NL # t) = (s @ [NL]) # tokens t"
  by (simp add: tokens_plain)

lemma concat_tokens [simp]: "concat (tokens t) = t"
proof (induction t)
  case (Cons c t)
  then show ?case by (cases "tokens t") auto
qed simp

lemma length_tokens: "length (tokens t) = Suc (nl_count t)"
proof (induction t)
  case (Cons c t)
  then show ?case by (cases "tokens t") auto
qed simp

lemma line_tokens_loop_eq:
  "NL \<notin> set straddling \<Longrightarrow>
     line_tokens_loop chunk chunks straddling = tokens (straddling @ chunk @ concat chunks)"
proof (induction chunk chunks straddling rule: line_tokens_loop.induct)
  case (1 chunk chunks straddling)
  show ?case
  proof (cases "find_lf chunk")
    case (Some e)
    note e = find_lf_Some [OF Some]
    have c: "chunk = take e chunk @ NL # drop (e + 1) chunk"
      using e id_take_nth_drop [of e chunk] by simp
    have "straddling @ chunk @ concat chunks =
        (straddling @ take e chunk) @ NL # drop (e + 1) chunk @ concat chunks"
      by (subst c) simp
    moreover have "NL \<notin> set (straddling @ take e chunk)" using e "1.prems" by simp
    ultimately have "tokens (straddling @ chunk @ concat chunks) =
        (straddling @ take e chunk @ [NL]) # tokens (drop (e + 1) chunk @ concat chunks)"
      using tokens_line by (metis append_assoc)
    moreover have "take (e + 1) chunk = take e chunk @ [NL]"
      using take_Suc_conv_app_nth [of e chunk] e by simp
    ultimately show ?thesis using "1.IH"(2) [OF Some] Some by (simp add: line_tokens_loop.simps [of chunk])
  next
    case None
    then have n: "NL \<notin> set (straddling @ chunk)" using "1.prems" by (auto simp: find_lf_def split: if_splits)
    show ?thesis
    proof (cases chunks)
      case Nil
      then show ?thesis using None n tokens_plain [OF n, of "[]"] by (simp add: line_tokens_loop.simps [of chunk])
    next
      case (Cons c rest)
      then show ?thesis using None n "1.IH"(1) [OF None Cons] by (simp add: line_tokens_loop.simps [of chunk])
    qed
  qed
qed

lemma line_token_strs_eq: "line_token_strs chunks = tokens (concat chunks)"
  using line_tokens_loop_eq [of "[]" "[]" chunks] by (simp add: line_token_strs_def)

section \<open>What two byte sequences share\<close>

fun prefix_len :: "'a list \<Rightarrow> 'a list \<Rightarrow> nat" where
  "prefix_len (x # xs) (y # ys) = (if x = y then Suc (prefix_len xs ys) else 0)"
| "prefix_len xs ys = 0"

lemma prefix_len_le [simp]: "prefix_len xs ys \<le> length xs" "prefix_len xs ys \<le> length ys"
  by (induction xs ys rule: prefix_len.induct) auto

lemma take_prefix_len: "n \<le> prefix_len xs ys \<Longrightarrow> take n xs = take n ys"
proof (induction xs ys arbitrary: n rule: prefix_len.induct)
  case (1 x xs y ys)
  then show ?case by (cases n) (auto split: if_splits)
qed simp_all

lemma prefix_len_append: "length xs = length ys \<Longrightarrow>
    prefix_len (xs @ xs') (ys @ ys') = (if xs = ys then length xs + prefix_len xs' ys' else prefix_len xs ys)"
  by (induction xs ys rule: list_induct2) auto

lemma prefix_len_zip: "prefix_len xs ys = length (takeWhile (\<lambda>(x, y). x = y) (zip xs ys))"
  by (induction xs ys rule: prefix_len.induct) auto

fun oriented :: "edge \<Rightarrow> 'a list \<Rightarrow> 'a list" where
  "oriented EdgeStart xs = xs"
| "oriented EdgeEnd xs = rev xs"

lemma oriented_simps [simp]: "length (oriented e xs) = length xs" "oriented e xs = oriented e ys \<longleftrightarrow> xs = ys"
  "oriented e [] = []"
  by (cases e; simp)+

lemma split_edge_ok:
  assumes "split_edge e xs n = (x, y)" "n \<le> length xs"
  shows "oriented e xs = oriented e x @ oriented e y" "length x = n"
  using assms by (cases e; auto simp: rev_append [symmetric] simp del: rev_append)+

lemma equal_pairs_eq: "length x = length y \<Longrightarrow> equal_pairs e x y = prefix_len (oriented e x) (oriented e y)"
  by (cases e) (simp_all add: prefix_len_zip zip_rev)

lemma prefix_len_same: "prefix_len (xs @ xs') (xs @ ys') = length xs + prefix_len xs' ys'"
  by (induction xs) auto

lemma prefix_len_diff:
  "length xs = length ys \<Longrightarrow> xs \<noteq> ys \<Longrightarrow> prefix_len (xs @ xs') (ys @ ys') = prefix_len xs ys \<and> prefix_len xs ys < length xs"
  by (induction xs ys rule: list_induct2) auto

lemma shared_loop_eq:
  "shared \<le> limit \<Longrightarrow> shared_loop e a b old new limit shared = shared + min (limit - shared)
     (prefix_len (concat (map (oriented e) (a # old))) (concat (map (oriented e) (b # new))))"
proof (induction e a b old new limit shared rule: shared_loop.induct)
  case (1 e a b old new limit shared)
  note simps = shared_loop.simps [of e a b old new limit shared]
  show ?case
  proof (cases "shared < limit \<and> a \<noteq> [] \<and> b \<noteq> []")
    case False
    consider "\<not> shared < limit" | "shared < limit" "a = []" | "shared < limit" "a \<noteq> []" "b = []" using False by blast
    then show ?thesis
    proof cases
      case 1
      then show ?thesis using "1.prems" by (subst simps) simp
    next
      case 2
      then have "shared_loop e a b old new limit shared =
          (case old of [] \<Rightarrow> shared | chunk # old \<Rightarrow> shared_loop e chunk b old new limit shared)" by (subst simps) simp
      then show ?thesis using 2 "1.IH"(1) "1.prems" by (cases old) simp_all
    next
      case 3
      then have "shared_loop e a b old new limit shared =
          (case new of [] \<Rightarrow> shared | chunk # new \<Rightarrow> shared_loop e a chunk old new limit shared)" by (subst simps) simp
      then show ?thesis using 3 "1.IH"(2) "1.prems" by (cases new) simp_all
    qed
  next
    case True
    define n where "n = min (min (length a) (length b)) (limit - shared)"
    obtain an ar bn br where s: "split_edge e a n = (an, ar)" "split_edge e b n = (bn, br)"
      by (cases "split_edge e a n"; cases "split_edge e b n") blast
    have n: "n \<le> length a" "n \<le> length b" "n \<le> limit - shared" by (simp_all add: n_def)
    note a = split_edge_ok [OF s(1) n(1)] and b = split_edge_ok [OF s(2) n(2)]
    note len = a(2) b(2) n(3)
    have le: "shared + n \<le> limit" using n(3) True by linarith
    have step: "shared_loop e a b old new limit shared =
        (if an \<noteq> bn then shared + equal_pairs e an bn else shared_loop e ar br old new limit (shared + n))"
      using True s by (subst simps) (simp add: n_def [symmetric])
    show ?thesis
    proof (cases "an = bn")
      case eq: True
      let ?P = "prefix_len (concat (map (oriented e) (ar # old))) (concat (map (oriented e) (br # new)))"
      have "shared_loop e ar br old new limit (shared + n) = shared + n + min (limit - (shared + n)) ?P"
        by (rule "1.IH"(3) [OF _ _ _ n_def s(1) [symmetric] refl s(2) [symmetric] refl _ le]) (use True eq in simp_all)
      moreover have "prefix_len (concat (map (oriented e) (a # old))) (concat (map (oriented e) (b # new))) = n + ?P"
        using a b eq prefix_len_same [of "oriented e bn"] by simp
      moreover have "n + min (limit - (shared + n)) P = min (limit - shared) (n + P)" for P using n(3) by (auto simp: min_def)
      ultimately show ?thesis using step eq by (simp only: add.assoc simp_thms if_False)
    next
      case False
      have "prefix_len (concat (map (oriented e) (a # old))) (concat (map (oriented e) (b # new))) =
          prefix_len (oriented e an) (oriented e bn)"
        "prefix_len (oriented e an) (oriented e bn) < n"
        using a(1) b(1) len False prefix_len_diff [of "oriented e an" "oriented e bn"] by simp_all
      moreover have "shared_loop e a b old new limit shared = shared + prefix_len (oriented e an) (oriented e bn)"
        using step False len equal_pairs_eq [of an bn e] by simp
      ultimately show ?thesis using len by simp
    qed
  qed
qed

lemma concat_map_oriented: "concat (map (oriented EdgeEnd) (rev xss)) = rev (concat xss)"
  "map (oriented EdgeStart) xss = xss"
  by (induction xss) simp_all

lemma shared_len_eq:
  "shared_len EdgeStart old new limit = min limit (prefix_len (concat old) (concat new))"
  "shared_len EdgeEnd (rev old) (rev new) limit = min limit (prefix_len (rev (concat old)) (rev (concat new)))"
  by (simp_all add: shared_len_def shared_loop_eq concat_map_oriented)

section \<open>UTF-8 boundaries\<close>

lemma utf8_simps [simp]: "utf8 [] = []" "utf8 (c # t) = utf8_char c @ utf8 t" "utf8 (s @ t) = utf8 s @ utf8 t"
  by (simp_all add: utf8_def)

lemma utf8_concat: "utf8 (concat ts) = concat (map utf8 ts)"
  by (induction ts) simp_all

lemma utf8_char_ne [simp]: "utf8_char c \<noteq> []"
  by (simp add: utf8_char_def)

lemma base64_digits:
  "c = 64 * (c div 64) + c mod 64" "c div 64 = 64 * (c div 4096) + c div 64 mod 64"
  "c div 4096 = 64 * (c div 262144) + c div 4096 mod 64" for c :: nat
  using div_mult2_eq [of c 64 64] div_mult2_eq [of c 4096 64] mult_div_mod_eq [of 64 c]
    mult_div_mod_eq [of 64 "c div 64"] mult_div_mod_eq [of 64 "c div 4096"] by simp_all

lemma utf8_lead:
  "hd (utf8_char c) < 0xC0 \<longleftrightarrow> c < 0x80" "hd (utf8_char c) < 0xE0 \<longleftrightarrow> c < 0x800"
  "hd (utf8_char c) < 0xF0 \<longleftrightarrow> c < 0x10000"
proof -
  have "c div 64 < 32" if "c < 0x800" using that by (simp add: less_mult_imp_div_less)
  moreover have "c div 4096 < 16" if "c < 0x10000" using that by (simp add: less_mult_imp_div_less)
  ultimately show "hd (utf8_char c) < 0xC0 \<longleftrightarrow> c < 0x80" "hd (utf8_char c) < 0xE0 \<longleftrightarrow> c < 0x800"
    "hd (utf8_char c) < 0xF0 \<longleftrightarrow> c < 0x10000" by (auto simp: utf8_char_def)
qed

lemma utf8_char_inj:
  assumes "utf8_char c @ xs = utf8_char d @ ys"
  shows "c = d \<and> xs = ys"
proof -
  have "hd (utf8_char c) = hd (utf8_char d)" using assms by (metis hd_append2 utf8_char_ne)
  then have cls: "c < 0x80 \<longleftrightarrow> d < 0x80" "c < 0x800 \<longleftrightarrow> d < 0x800" "c < 0x10000 \<longleftrightarrow> d < 0x10000"
    using utf8_lead [of c] utf8_lead [of d] by metis+
  note dc = base64_digits [of c] and dd = base64_digits [of d]
  consider "c < 0x80" | "\<not> c < 0x80" "c < 0x800" | "\<not> c < 0x800" "c < 0x10000" | "\<not> c < 0x10000" by linarith
  then show ?thesis
  proof cases
    case 1
    then show ?thesis using assms cls by (simp add: utf8_char_def)
  next
    case 2
    then have "c div 64 = d div 64" "c mod 64 = d mod 64" "xs = ys" using assms cls by (simp_all add: utf8_char_def)
    then show ?thesis using dc(1) dd(1) by simp
  next
    case 3
    then have "c div 4096 = d div 4096" "c div 64 mod 64 = d div 64 mod 64" "c mod 64 = d mod 64" "xs = ys"
      using assms cls by (simp_all add: utf8_char_def)
    then show ?thesis using dc(1,2) dd(1,2) by simp
  next
    case 4
    then have "c div 262144 = d div 262144" "c div 4096 mod 64 = d div 4096 mod 64"
      "c div 64 mod 64 = d div 64 mod 64" "c mod 64 = d mod 64" "xs = ys"
      using assms cls by (simp_all add: utf8_char_def)
    then have "c div 4096 = d div 4096" using dc(3) dd(3) by linarith
    then have "c div 64 = d div 64" using 4 dc(2) dd(2) \<open>c div 64 mod 64 = d div 64 mod 64\<close> by linarith
    then show ?thesis using \<open>c mod 64 = d mod 64\<close> \<open>xs = ys\<close> dc(1) dd(1) by linarith
  qed
qed

lemma utf8_inj: "utf8 s = utf8 t \<Longrightarrow> s = t"
proof (induction s arbitrary: t)
  case Nil
  then show ?case by (cases t) simp_all
next
  case (Cons c s)
  then obtain d t' where t: "t = d # t'" by (cases t) simp_all
  then have "c = d \<and> utf8 s = utf8 t'" using Cons.prems utf8_char_inj [of c "utf8 s" d "utf8 t'"] by simp
  then show ?case using Cons.IH t by simp
qed

lemma utf8_char_lf: "10 \<in> set (utf8_char c) \<longleftrightarrow> c = 10" "c \<noteq> 10 \<Longrightarrow> count_list (utf8_char c) 10 = 0"
  "utf8_char 10 = [10]"
  by (auto simp: utf8_char_def)

lemma count_utf8: "count_list (utf8 t) 10 = nl_count t"
proof (induction t)
  case (Cons c t)
  then show ?case using utf8_char_lf(2) [of c] utf8_char_lf(3) by (cases "c = 10") simp_all
qed simp

lemma take_units: "take (units utf8_width (take i t)) (utf8 t) = utf8 (take i t)"
proof -
  have "utf8 t = utf8 (take i t) @ utf8 (drop i t)" by (metis append_take_drop_id utf8_simps(3))
  then show ?thesis by (simp add: len_bytes_def [symmetric])
qed

text \<open>A cut after an LF byte is between two chars.\<close>

lemma lf_byte_boundary:
  assumes "p < len_bytes t" "utf8 t ! p = 10"
  shows "\<exists>i < length t. units utf8_width (take i t) = p \<and> units utf8_width (take (Suc i) t) = Suc p \<and> t ! i = 10"
  using assms
proof (induction t arbitrary: p)
  case (Cons c t)
  show ?case
  proof (cases "p < length (utf8_char c)")
    case True
    then have "10 \<in> set (utf8_char c)" using Cons.prems(2) by (metis nth_append nth_mem utf8_simps(2))
    then have "c = 10" by (simp add: utf8_char_lf)
    then have "p = 0" using True by (simp add: utf8_char_lf)
    then show ?thesis using \<open>c = 10\<close> by (intro exI [of _ 0]) (simp add: utf8_width_def utf8_char_lf)
  next
    case False
    let ?q = "p - utf8_width c"
    have w: "length (utf8_char c) = utf8_width c" by (simp add: utf8_width_def)
    have "?q < len_bytes t" "utf8 t ! ?q = 10"
      using Cons.prems False w by (simp_all add: len_bytes_def nth_append)
    from Cons.IH [OF this] obtain i where "i < length t" "units utf8_width (take i t) = ?q"
      "units utf8_width (take (Suc i) t) = Suc ?q" "t ! i = 10" by blast
    then show ?thesis using False w by (intro exI [of _ "Suc i"]) auto
  qed
qed (simp add: len_bytes_def)

lemma utf8_split: "utf8 t = utf8 (take i t) @ utf8 (drop i t)"
  by (metis append_take_drop_id utf8_simps(3))

lemma drop_units: "drop (units utf8_width (take i t)) (utf8 t) = utf8 (drop i t)"
  using utf8_split [of t i] by (simp add: len_bytes_def [symmetric])

lemma len_bytes_take: "units utf8_width (take i t) = len_bytes (take i t)"
  by (simp add: len_bytes_def)

lemma units_le_iff: "i \<le> length t \<Longrightarrow> j \<le> length t \<Longrightarrow>
    units utf8_width (take i t) \<le> units utf8_width (take j t) \<longleftrightarrow> i \<le> j"
  using units_strict [of utf8_width j i t] units_take_mono [of i j utf8_width t] by (metis leD leI utf8_width_pos(1))

lemma prefix_chars:
  assumes "take (len_bytes u) (utf8 s) = utf8 u" "u = [] \<or> last u = NL"
  shows "take (length u) s = u"
proof (cases "u = []")
  case False
  let ?p = "len_bytes u"
  have pos: "0 < ?p" using False by (cases u) (simp_all add: len_bytes_def)
  have le: "?p \<le> len_bytes s" using arg_cong [OF assms(1), of length] by simp
  have "utf8 u ! (?p - 1) = 10"
  proof -
    have "u = butlast u @ [NL]" using False assms(2) by (metis append_butlast_last_id)
    then have "utf8 u = utf8 (butlast u) @ [10]" by (metis append.right_neutral utf8_char_lf(3) utf8_simps(1-3))
    then show ?thesis by (metis diff_Suc_1 length_append_singleton length_utf8 nth_append_length)
  qed
  then have "utf8 s ! (?p - 1) = 10" using assms(1) pos by (metis diff_less nth_take zero_less_one)
  moreover have "?p - 1 < len_bytes s" using le pos by simp
  ultimately obtain i where i: "i < length s" "units utf8_width (take (Suc i) s) = Suc (?p - 1)"
    using lf_byte_boundary by blast
  then have "utf8 (take (Suc i) s) = utf8 u" using take_units [of "Suc i" s] assms(1) pos by simp
  then have "take (Suc i) s = u" by (rule utf8_inj)
  then show ?thesis using i(1) by auto
qed simp

lemma suffix_chars:
  assumes "drop q (utf8 s) = utf8 v" "q \<le> len_bytes s" "v = [] \<and> q = len_bytes s \<or> 0 < q \<and> utf8 s ! (q - 1) = 10"
  shows "length v \<le> length s" "drop (length s - length v) s = v"
    "v \<noteq> [] \<or> q < len_bytes s \<Longrightarrow> length v < length s \<and> s ! (length s - length v - 1) = NL"
    "units utf8_width (take (length s - length v) s) = q"
proof -
  have "length v \<le> length s \<and> drop (length s - length v) s = v \<and>
    (v \<noteq> [] \<or> q < len_bytes s \<longrightarrow> length v < length s \<and> s ! (length s - length v - 1) = NL) \<and>
    units utf8_width (take (length s - length v) s) = q"
  proof (cases "v = [] \<and> q = len_bytes s")
    case True
    then show ?thesis by (simp add: len_bytes_def)
  next
    case False
    then have q: "0 < q" "utf8 s ! (q - 1) = 10" using assms(3) by auto
    then obtain i where i: "i < length s" "units utf8_width (take (Suc i) s) = Suc (q - 1)" "s ! i = 10"
    proof -
      have "q - 1 < len_bytes s" using assms(2) q(1) by simp
      from lf_byte_boundary [OF this q(2)] show ?thesis using that by blast
    qed
    then have "utf8 (drop (Suc i) s) = utf8 v" using drop_units [of "Suc i" s] assms(1) q by simp
    then have v: "drop (Suc i) s = v" by (rule utf8_inj)
    then have "length s - length v = Suc i" using i(1) by auto
    then show ?thesis using i v q by auto
  qed
  then show "length v \<le> length s" "drop (length s - length v) s = v"
    "v \<noteq> [] \<or> q < len_bytes s \<Longrightarrow> length v < length s \<and> s ! (length s - length v - 1) = NL"
    "units utf8_width (take (length s - length v) s) = q" by simp_all
qed

lemma byte_line_start:
  assumes "h \<le> len_bytes t" "m = count_list (take h (utf8 t)) 10"
  shows "m \<le> nl_count t" "units utf8_width (take (line_offset t m) t) \<le> h"
proof -
  show m: "m \<le> nl_count t" using assms(2) count_list_take_le [of h "utf8 t" 10] count_utf8 [of t] by simp
  show "units utf8_width (take (line_offset t m) t) \<le> h"
  proof (cases "m = 0")
    case False
    define s where "s = line_offset t m"
    have s: "0 < s" "t ! (s - 1) = NL" "s \<le> length t" "nl_count (take s t) = m"
      using line_offset_prev_nl [of m t] m False nl_count_before_line [OF m] by (simp_all add: s_def)
    have sp: "take s t = take (s - 1) t @ [NL]"
      using take_Suc_conv_app_nth [of "s - 1" t] s by simp
    then have cnt: "nl_count (take (s - 1) t) = m - 1" "units utf8_width (take s t) = Suc (units utf8_width (take (s - 1) t))"
      using s(4) by (simp_all add: utf8_width_def utf8_char_lf)
    show ?thesis
    proof (rule ccontr)
      assume "\<not> units utf8_width (take (line_offset t m) t) \<le> h"
      then have "h \<le> units utf8_width (take (s - 1) t)" using cnt(2) by (simp add: s_def)
      then have "m \<le> count_list (take (units utf8_width (take (s - 1) t)) (utf8 t)) 10"
        using assms(2) count_list_take_mono by simp
      also have "\<dots> = m - 1" using cnt(1) by (simp add: take_units count_utf8)
      finally show False using False by simp
    qed
  qed simp
qed

definition ends_ok :: "ustring \<Rightarrow> ustring \<Rightarrow> shared_line_ends \<Rightarrow> bool" where
  "ends_ok old new e \<longleftrightarrow> (\<exists>m a oe ne. e = \<lparr>first_middle_line = m, old_middle = (a, oe), new_middle = (a, ne)\<rparr> \<and>
     a \<le> oe \<and> oe \<le> length old \<and> a \<le> ne \<and> ne \<le> length new \<and>
     take a old = take a new \<and> drop oe old = drop ne new \<and>
     m \<le> nl_count old \<and> m \<le> nl_count new \<and> a = line_offset old m \<and> a = line_offset new m \<and>
     (oe = length old \<or> 0 < oe \<and> old ! (oe - 1) = NL) \<and> (ne = length new \<or> 0 < ne \<and> new ! (ne - 1) = NL))"

text \<open>The bytes of the shared tail, which need not begin at a char.\<close>

definition tail_bytes :: "ustring \<Rightarrow> ustring \<Rightarrow> nat" where
  "tail_bytes old new =
     (let m = count_list (take (prefix_len (utf8 old) (utf8 new)) (utf8 new)) 10
      in min (min (len_bytes old) (len_bytes new) - units utf8_width (take (line_offset new m) new))
           (prefix_len (rev (utf8 old)) (rev (utf8 new))))"

lemma line_offset_eqI: "i \<le> length t \<Longrightarrow> nl_count (take i t) = m \<Longrightarrow> i = 0 \<or> t ! (i - 1) = NL \<Longrightarrow> line_offset t m = i"
proof -
  assume i: "i \<le> length t" "nl_count (take i t) = m" "i = 0 \<or> t ! (i - 1) = NL"
  have m: "m \<le> nl_count t" using i(2) count_list_take_le [of i t NL] by simp
  have le: "line_offset t m \<le> i" using line_offset_le_iff [OF m i(1)] i(2) by simp
  show ?thesis
  proof (rule ccontr)
    assume "line_offset t m \<noteq> i"
    then have lt: "line_offset t m \<le> i - 1" "0 < i" using le by simp_all
    then have "m \<le> nl_count (take (i - 1) t)" using line_offset_le_iff [OF m, of "i - 1"] i(1) by simp
    moreover have "take i t = take (i - 1) t @ [NL]"
      using take_Suc_conv_app_nth [of "i - 1" t] lt(2) i by auto
    ultimately show False using i(2) by simp
  qed
qed

lemma prefix_len_rev_drop:
  assumes "k \<le> prefix_len (rev xs) (rev ys)"
  shows "drop (length xs - k) xs = drop (length ys - k) ys" "k \<le> length xs" "k \<le> length ys"
proof -
  have "take k (rev xs) = take k (rev ys)" using assms by (rule take_prefix_len)
  then show "drop (length xs - k) xs = drop (length ys - k) ys"
    by (simp add: take_rev)
  show "k \<le> length xs" "k \<le> length ys"
    using assms prefix_len_le [of "rev xs" "rev ys"] by (simp_all del: prefix_len_le)
qed

lemma char_boundary:
  "is_char_boundary t b \<longleftrightarrow> (\<exists>i \<le> length t. units utf8_width (take i t) = b)"
proof
  assume "is_char_boundary t b"
  then show "\<exists>i \<le> length t. units utf8_width (take i t) = b"
    using char_of_unit_bounds(1) [of utf8_width b t] by (auto simp: is_char_boundary_def len_bytes_def)
next
  assume "\<exists>i \<le> length t. units utf8_width (take i t) = b"
  then obtain i where "i \<le> length t" "units utf8_width (take i t) = b" by blast
  then show "is_char_boundary t b"
    using char_of_unit_start [of utf8_width i t] units_take_le [of utf8_width i t]
    by (simp add: is_char_boundary_def len_bytes_def)
qed

lemma shared_line_ends_ok:
  fixes old_chunks new_chunks :: "ustring list"
  defines "old \<equiv> concat old_chunks" and "new \<equiv> concat new_chunks"
  shows "\<not> is_char_boundary new (len_bytes new - tail_bytes old new) \<Longrightarrow>
      shared_line_ends_of old_chunks new_chunks = None"
    "is_char_boundary new (len_bytes new - tail_bytes old new) \<Longrightarrow>
      \<exists>e. shared_line_ends_of old_chunks new_chunks = Some e \<and> ends_ok old new e"
proof -
  let ?w = utf8_width
  define h where "h = prefix_len (utf8 old) (utf8 new)"
  have h: "h \<le> len_bytes old" "h \<le> len_bytes new"
    using prefix_len_le [of "utf8 old" "utf8 new"] by (simp_all add: h_def del: prefix_len_le)
  have head: "shared_len EdgeStart (map utf8 old_chunks) (map utf8 new_chunks) (min (len_bytes old) (len_bytes new)) = h"
    using h by (simp add: shared_len_eq utf8_concat [symmetric] old_def [symmetric] new_def [symmetric] h_def [symmetric])
  define m where "m = count_list (take h (utf8 new)) 10"
  note ls = byte_line_start [OF h(2) m_def]
  define a where "a = line_offset new m"
  have a: "a \<le> length new" "units ?w (take a new) \<le> h" using ls(2) by (simp_all add: a_def)
  define sb where "sb = units ?w (take a new)"
  define limit where "limit = min (len_bytes old) (len_bytes new) - sb"
  have sb: "sb \<le> min (len_bytes old) (len_bytes new)" using a(2) h by (simp add: sb_def)
  define tl where "tl = tail_bytes old new"
  have tl_eq: "tl = min limit (prefix_len (rev (utf8 old)) (rev (utf8 new)))"
    by (simp add: tl_def tail_bytes_def Let_def limit_def sb_def a_def m_def h_def)
  have tail: "shared_len EdgeEnd (map utf8 (rev old_chunks)) (map utf8 (rev new_chunks)) limit = tl"
    using shared_len_eq(2) [of "map utf8 old_chunks" "map utf8 new_chunks" limit]
    by (simp add: rev_map [symmetric] utf8_concat [symmetric] old_def [symmetric] new_def [symmetric] tl_eq)
  have tl: "tl \<le> len_bytes new" "tl \<le> len_bytes old" "sb + tl \<le> len_bytes new" "sb + tl \<le> len_bytes old"
    using sb by (auto simp: tl_eq limit_def)
  have same: "drop (len_bytes old - k) (utf8 old) = drop (len_bytes new - k) (utf8 new)" if "k \<le> tl" for k
    using prefix_len_rev_drop(1) [of k "utf8 old" "utf8 new"] that by (simp add: tl_eq)
  define rest where "rest bytes = do {
     whole_tail \<leftarrow> (case find_lf bytes of
         None \<Rightarrow> Some 0
       | Some at \<Rightarrow> do { n \<leftarrow> checked_sub tl at; checked_sub n 1 });
     start_char \<leftarrow> byte_to_char new sb;
     b \<leftarrow> checked_sub (len_bytes new) whole_tail;
     new_end \<leftarrow> byte_to_char new b;
     tail_chars \<leftarrow> checked_sub (length new) new_end;
     old_end \<leftarrow> checked_sub (length old) tail_chars;
     Some \<lparr>first_middle_line = m, old_middle = (start_char, old_end),
           new_middle = (start_char, new_end)\<rparr> }" for bytes
  have "line_to_byte new m = Some sb"
    using ls(1) by (simp add: line_to_byte_def rope_line_to_char_def rope_len_lines_def char_to_byte_def sb_def a_def)
  then have run: "shared_line_ends_of old_chunks new_chunks = bytes_from new (len_bytes new - tl) \<bind> rest"
  proof -
    have "byte_to_line new h = Some m" using h(2) by (simp add: byte_to_line_def m_def)
    moreover have "checked_sub (min (len_bytes old) (len_bytes new)) sb = Some limit"
      using sb by (simp add: checked_sub_def limit_def)
    moreover have "checked_sub (len_bytes new) tl = Some (len_bytes new - tl)" using tl(1) by (simp add: checked_sub_def)
    ultimately show ?thesis
      using \<open>line_to_byte new m = Some sb\<close>
      unfolding shared_line_ends_of_def Let_def old_def [symmetric] new_def [symmetric] head
      by (simp only: bind.bind_lunit tail rest_def [abs_def])
  qed
  show "shared_line_ends_of old_chunks new_chunks = None" if "\<not> is_char_boundary new (len_bytes new - tail_bytes old new)"
    using that run by (simp add: bytes_from_def tl_def)
  assume bd: "is_char_boundary new (len_bytes new - tail_bytes old new)"
  have start: "byte_to_char new sb = Some a"
    using char_of_unit_start [of ?w a new] a sb by (simp add: byte_to_char_def sb_def)
  have au: "utf8 (take a new) = take sb (utf8 new)" by (simp add: sb_def take_units)
  have "take sb (utf8 old) = take sb (utf8 new)"
    using take_prefix_len [of sb "utf8 old" "utf8 new"] a(2) by (simp add: h_def sb_def)
  then have "take (len_bytes (take a new)) (utf8 old) = utf8 (take a new)"
    using au by (simp add: sb_def len_bytes_take)
  moreover have anl: "a = 0 \<or> new ! (a - 1) = NL" "nl_count (take a new) = m"
    using line_offset_prev_nl [of m new] ls(1) nl_count_before_line [OF ls(1)] by (cases m; auto simp: a_def)+
  have "last (take a new) = new ! (a - 1)" if "0 < a"
    using take_Suc_conv_app_nth [of "a - 1" new] that a(1) by simp
  then have "take a new = [] \<or> last (take a new) = NL" using anl(1) by auto
  ultimately have pre: "take a old = take a new" using prefix_chars [of "take a new" old] a(1) by (simp add: min_absorb2)
  have alen: "a \<le> length old" using arg_cong [OF pre, of length] a(1) by simp
  have olda: "line_offset old m = a"
  proof (rule line_offset_eqI [OF alen])
    show "nl_count (take a old) = m" using pre anl(2) by simp
    show "a = 0 \<or> old ! (a - 1) = NL" using anl(1) pre by (metis diff_less gr0I nth_take zero_less_one)
  qed
  have mold: "m \<le> nl_count old" using pre anl(2) count_list_take_le [of a old NL] by simp
  text \<open>The whole lines of the tail.\<close>
  obtain i where i: "i \<le> length new" "units ?w (take i new) = len_bytes new - tl"
    using bd char_boundary by (auto simp: tl_def)
  have bytes: "bytes_from new (len_bytes new - tl) = Some (utf8 (drop i new))"
    using bd i by (simp add: bytes_from_def tl_def [symmetric] drop_units [symmetric])
  have len_tail: "len_bytes (drop i new) = tl"
    using i(2) tl(1) units_def by (metis (no_types) append_take_drop_id add_diff_cancel_left' diff_diff_cancel len_bytes_def units_simps(3))
  obtain v wt where wt: "(case find_lf (utf8 (drop i new)) of None \<Rightarrow> Some 0
       | Some at \<Rightarrow> do { n \<leftarrow> checked_sub tl at; checked_sub n 1 }) = Some wt" "wt \<le> tl"
    "drop (len_bytes new - wt) (utf8 new) = utf8 v" "v = [] \<and> wt = 0 \<or> wt < tl \<and> utf8 new ! (len_bytes new - wt - 1) = 10"
  proof (cases "find_lf (utf8 (drop i new))")
    case None
    then show ?thesis using that [of 0 "[]"] by simp
  next
    case (Some at)
    have p: "at < tl" "utf8 (drop i new) ! at = 10" using find_lf_Some [OF Some] len_tail by simp_all
    then obtain j where j: "j < length (drop i new)" "units ?w (take (Suc j) (drop i new)) = Suc at"
      using lf_byte_boundary [of at "drop i new"] len_tail by auto
    have "utf8 new ! (len_bytes new - tl + at) = 10"
      using p(2) drop_units [of i new] nth_drop [of "len_bytes new - tl" "utf8 new" at] tl(1) unfolding i(2) by simp
    moreover have "len_bytes new - tl + at = len_bytes new - (tl - at - 1) - 1" using p(1) tl(1) by simp
    moreover have "units ?w (take (i + Suc j) new) = len_bytes new - (tl - at - 1)"
      using i(2) j(2) p(1) tl(1) by (simp only: take_add units_simps)
    then have "drop (len_bytes new - (tl - at - 1)) (utf8 new) = utf8 (drop (i + Suc j) new)"
      using drop_units [of "i + Suc j" new] by simp
    ultimately show ?thesis
      by (intro that [of "tl - at - 1" "drop (i + Suc j) new"]) (use Some p in \<open>simp_all add: checked_sub_def\<close>)
  qed
  have wtn: "wt \<le> len_bytes new" "wt \<le> len_bytes old" using wt(2) tl by simp_all
  have prev: "v = [] \<and> len_bytes new - wt = len_bytes new \<or> 0 < len_bytes new - wt \<and> utf8 new ! (len_bytes new - wt - 1) = 10"
    using wt(4) tl by auto
  note sn = suffix_chars [OF wt(3) _ prev]
  have oldv: "drop (len_bytes old - wt) (utf8 old) = utf8 v" using same [OF wt(2)] wt(3) by simp
  have prevo: "v = [] \<and> len_bytes old - wt = len_bytes old \<or> 0 < len_bytes old - wt \<and> utf8 old ! (len_bytes old - wt - 1) = 10"
  proof (cases "v = [] \<and> wt = 0")
    case False
    then have w: "wt < tl" "utf8 new ! (len_bytes new - wt - 1) = 10" using wt(4) by auto
    have "drop (len_bytes old - Suc wt) (utf8 old) ! 0 = drop (len_bytes new - Suc wt) (utf8 new) ! 0"
      using same [of "Suc wt"] w(1) by simp
    then have "utf8 old ! (len_bytes old - Suc wt) = utf8 new ! (len_bytes new - Suc wt)"
      using w(1) tl by (simp add: nth_drop)
    then show ?thesis using w tl by simp
  qed simp
  note so = suffix_chars [OF oldv _ prevo]
  define ne oe where "ne = length new - length v" and "oe = length old - length v"
  have "byte_to_char new (len_bytes new - wt) = Some ne"
    using char_of_unit_start [of ?w ne new] sn(4) by (simp add: byte_to_char_def ne_def)
  moreover have vlen: "length v \<le> length new" "length v \<le> length old" using sn(1) so(1) by simp_all
  ultimately have "rest (utf8 (drop i new)) =
      Some \<lparr>first_middle_line = m, old_middle = (a, oe), new_middle = (a, ne)\<rparr>"
    using wt(1) wtn start by (simp add: rest_def checked_sub_def ne_def oe_def)
  then have res: "shared_line_ends_of old_chunks new_chunks =
      Some \<lparr>first_middle_line = m, old_middle = (a, oe), new_middle = (a, ne)\<rparr>" using run bytes by simp
  have "sb \<le> len_bytes new - wt" "sb \<le> len_bytes old - wt" using wt(2) tl by simp_all
  then have "units ?w (take a new) \<le> units ?w (take ne new)" "units ?w (take a old) \<le> units ?w (take oe old)"
    using sn(4) so(4) pre by (simp_all add: ne_def oe_def sb_def)
  then have ord: "a \<le> ne" "a \<le> oe" using units_le_iff a(1) alen by (simp_all add: ne_def oe_def)
  have "oe = length old \<or> 0 < oe \<and> old ! (oe - 1) = NL" using so(3) by (cases "v = []") (auto simp: oe_def)
  moreover have "ne = length new \<or> 0 < ne \<and> new ! (ne - 1) = NL" using sn(3) by (cases "v = []") (auto simp: ne_def)
  moreover have "drop oe old = drop ne new" using so(2) sn(2) by (simp add: oe_def ne_def)
  ultimately show "\<exists>e. shared_line_ends_of old_chunks new_chunks = Some e \<and> ends_ok old new e"
    using res ord pre ls(1) mold olda unfolding ends_ok_def
    by (intro exI [of _ "\<lparr>first_middle_line = m, old_middle = (a, oe), new_middle = (a, ne)\<rparr>"])
      (auto simp: oe_def ne_def a_def)
qed

end
