(* ===== verification/LineDiff.thy ===== *)
theory LineDiff imports SharedLines Builder begin

text \<open>
  Line diffs of whole texts: \<open>hume-editing/src/diff.rs\<close>, \<open>line_diff.rs\<close> and
  \<open>changeset/diff_cs.rs\<close>. The diff algorithms of \<open>imara-diff\<close> are a parameter, a function from an
  algorithm and two token lists to change hunks; \<open>diff_ok\<close> states what its documentation promises,
  that the tokens outside the hunks are pairwise equal. How ropey cuts a text into chunks is a
  parameter too.
\<close>

section \<open>\<open>diff.rs\<close>: lines\<close>

datatype algorithm = Histogram | Myers

type_synonym span = "nat \<times> nat"

type_synonym 'a differ = "algorithm \<Rightarrow> 'a list \<Rightarrow> 'a list \<Rightarrow> (span \<times> span) list"

datatype line_hunk_kind = LineEqual | LineDelete | LineInsert | LineReplace

record line_hunk =
  lh_old :: span
  lh_new :: span
  lh_kind :: line_hunk_kind

definition HISTOGRAM_WORK_LIMIT :: nat where
  "HISTOGRAM_WORK_LIMIT = 16000000"

definition histogram_fits :: "nat \<Rightarrow> nat \<Rightarrow> nat \<Rightarrow> bool" where
  "histogram_fits lines hunks limit = (min usize_max (lines * hunks) \<le> limit)"

fun partition_loop :: "(span \<times> span) list \<Rightarrow> nat \<Rightarrow> nat \<Rightarrow> line_hunk list \<Rightarrow> line_hunk list \<times> nat \<times> nat" where
  "partition_loop [] old_at new_at hunks = (hunks, old_at, new_at)"
| "partition_loop ((old, new) # rs) old_at new_at hunks =
     (let hunks = (if fst old > old_at
        then hunks @ [\<lparr>lh_old = (old_at, fst old), lh_new = (new_at, fst new), lh_kind = LineEqual\<rparr>]
        else hunks);
          kind = (if fst old \<ge> snd old then LineInsert else if fst new \<ge> snd new then LineDelete
            else LineReplace)
      in partition_loop rs (snd old) (snd new) (hunks @ [\<lparr>lh_old = old, lh_new = new, lh_kind = kind\<rparr>]))"

definition partition_hunks :: "(span \<times> span) list \<Rightarrow> nat \<Rightarrow> nat \<Rightarrow> line_hunk list" where
  "partition_hunks diff old_len new_len =
     (let (hunks, old_at, new_at) = partition_loop diff 0 0 [] in
      if old_at < old_len
      then hunks @ [\<lparr>lh_old = (old_at, old_len), lh_new = (new_at, new_len), lh_kind = LineEqual\<rparr>]
      else hunks)"

definition diff_lines_within :: "'a differ \<Rightarrow> 'a list \<Rightarrow> 'a list \<Rightarrow> nat \<Rightarrow> line_hunk list" where
  "diff_lines_within D old new limit =
     (let lines = length old + length new;
          most_hunks = min (length old) (length new) + 1;
          myers = (if \<not> histogram_fits lines most_hunks limit then Some (D Myers old new) else None);
          diff = (case myers of
              Some m \<Rightarrow> if \<not> histogram_fits lines (length m) limit then m else D Histogram old new
            | None \<Rightarrow> D Histogram old new)
      in partition_hunks diff (length old) (length new))"

definition diff_lines :: "'a differ \<Rightarrow> 'a list \<Rightarrow> 'a list \<Rightarrow> line_hunk list" where
  "diff_lines D old new = diff_lines_within D old new HISTOGRAM_WORK_LIMIT"

section \<open>\<open>line_diff.rs\<close>\<close>

type_synonym chunking = "ustring \<Rightarrow> ustring list"

record text_line_diff =
  tl_ends :: shared_line_ends
  tl_old :: "ustring list"
  tl_new :: "ustring list"
  tl_hunks :: "line_hunk list"

definition text_line_diff_of ::
  "chunking \<Rightarrow> ustring differ \<Rightarrow> ustring \<Rightarrow> ustring \<Rightarrow> text_line_diff option"
where
  "text_line_diff_of C D old new = do {
     ends \<leftarrow> shared_line_ends_of (C old) (C new);
     old_mid \<leftarrow> slice_opt old (fst (old_middle ends)) (snd (old_middle ends));
     let old_tokens = line_token_strs (C old_mid);
     new_mid \<leftarrow> slice_opt new (fst (new_middle ends)) (snd (new_middle ends));
     let new_tokens = line_token_strs (C new_mid);
     let hunks = diff_lines D old_tokens new_tokens;
     Some \<lparr>tl_ends = ends, tl_old = old_tokens, tl_new = new_tokens, tl_hunks = hunks\<rparr> }"

fun offsets_from :: "nat \<Rightarrow> ustring list \<Rightarrow> nat list" where
  "offsets_from acc [] = [acc]"
| "offsets_from acc (token # ts) = acc # offsets_from (acc + length token) ts"

definition token_offsets :: "ustring list \<Rightarrow> span \<Rightarrow> nat list option" where
  "token_offsets ts middle = do {
     let offsets = offsets_from (fst middle) ts;
     ensure (last offsets = snd middle);
     Some offsets }"

section \<open>\<open>changeset/diff_cs.rs\<close>\<close>

definition hunk_span :: "nat list \<Rightarrow> span \<Rightarrow> nat option" where
  "hunk_span offsets r = do {
     e \<leftarrow> nth_opt offsets (snd r);
     s \<leftarrow> nth_opt offsets (fst r);
     chars_since e s }"

definition hunk_slice :: "ustring \<Rightarrow> nat list \<Rightarrow> span \<Rightarrow> ustring option" where
  "hunk_slice text offsets r = do {
     s \<leftarrow> nth_opt offsets (fst r);
     e \<leftarrow> nth_opt offsets (snd r);
     slice_opt text s e }"

definition build_hunk :: "ustring \<Rightarrow> nat list \<Rightarrow> nat list \<Rightarrow> line_hunk \<Rightarrow> builder \<Rightarrow> builder option" where
  "build_hunk new old_offsets new_offsets hunk fwd =
     (case lh_kind hunk of
        LineEqual \<Rightarrow> do {
          o_span \<leftarrow> hunk_span old_offsets (lh_old hunk);
          n_span \<leftarrow> hunk_span new_offsets (lh_new hunk);
          ensure (o_span = n_span);
          builder_retain fwd o_span }
      | LineDelete \<Rightarrow> do {
          o_span \<leftarrow> hunk_span old_offsets (lh_old hunk);
          builder_delete fwd o_span }
      | LineInsert \<Rightarrow> do {
          s \<leftarrow> hunk_slice new new_offsets (lh_new hunk);
          Some (builder_insert fwd s) }
      | LineReplace \<Rightarrow> do {
          o_span \<leftarrow> hunk_span old_offsets (lh_old hunk);
          fwd \<leftarrow> builder_delete fwd o_span;
          s \<leftarrow> hunk_slice new new_offsets (lh_new hunk);
          Some (builder_insert fwd s) })"

fun build_loop :: "ustring \<Rightarrow> nat list \<Rightarrow> nat list \<Rightarrow> line_hunk list \<Rightarrow> builder \<Rightarrow> builder option" where
  "build_loop new old_offsets new_offsets [] fwd = Some fwd"
| "build_loop new old_offsets new_offsets (hunk # hunks) fwd = do {
     fwd \<leftarrow> build_hunk new old_offsets new_offsets hunk fwd;
     build_loop new old_offsets new_offsets hunks fwd }"

definition build_changeset ::
  "buffer_text \<Rightarrow> buffer_text \<Rightarrow> line_hunk list \<Rightarrow> nat list \<Rightarrow> nat list \<Rightarrow> changeset option"
where
  "build_changeset old new hunks old_offsets new_offsets = do {
     let fwd = builder_new (len_chars old);
     first \<leftarrow> nth_opt old_offsets 0;
     fwd \<leftarrow> retain_to fwd first;
     fwd \<leftarrow> build_loop (rope new) old_offsets new_offsets hunks fwd;
     builder_finish fwd }"

definition changeset_from_line_diff ::
  "chunking \<Rightarrow> ustring differ \<Rightarrow> buffer_text \<Rightarrow> buffer_text \<Rightarrow> changeset option"
where
  "changeset_from_line_diff C D old new = do {
     diff \<leftarrow> text_line_diff_of C D (rope old) (rope new);
     old_offsets \<leftarrow> token_offsets (tl_old diff) (old_middle (tl_ends diff));
     new_offsets \<leftarrow> token_offsets (tl_new diff) (new_middle (tl_ends diff));
     build_changeset old new (tl_hunks diff) old_offsets new_offsets }"

section \<open>What is asked of the diff and of the chunks\<close>

text \<open>Change hunks in order, the tokens between them and after the last pairwise equal.\<close>

fun valid_hunks :: "'a list \<Rightarrow> 'a list \<Rightarrow> nat \<Rightarrow> nat \<Rightarrow> (span \<times> span) list \<Rightarrow> bool" where
  "valid_hunks x y i j [] = (drop i x = drop j y)"
| "valid_hunks x y i j (((b, b'), (a, a')) # hs) \<longleftrightarrow>
     i \<le> b \<and> b \<le> b' \<and> b' \<le> length x \<and> j \<le> a \<and> a \<le> a' \<and> a' \<le> length y \<and>
     slice x i b = slice y j a \<and> valid_hunks x y b' a' hs"

definition diff_ok :: "'a differ \<Rightarrow> bool" where
  "diff_ok D = (\<forall>algorithm x y. valid_hunks x y 0 0 (D algorithm x y))"

definition chunks_ok :: "chunking \<Rightarrow> bool" where
  "chunks_ok C = (\<forall>t. concat (C t) = t)"

section \<open>The changeset of a line diff\<close>

lemma nth_offsets_from: "i \<le> length ts \<Longrightarrow> offsets_from a ts ! i = a + length (concat (take i ts))"
  by (induction a ts arbitrary: i rule: offsets_from.induct) (auto simp: nth_Cons' take_Cons')

lemma length_offsets_from [simp]: "length (offsets_from a ts) = Suc (length ts)"
  by (induction a ts rule: offsets_from.induct) auto

lemma token_offsets_ok:
  assumes "concat ts = slice t a b" "a \<le> b" "b \<le> length t"
  shows "token_offsets ts (a, b) = Some (offsets_from a ts)"
proof -
  have "last (offsets_from a ts) = offsets_from a ts ! length ts"
    by (metis diff_Suc_1 last_conv_nth length_0_conv length_offsets_from nat.distinct(1))
  also have "\<dots> = b" using assms by (simp add: nth_offsets_from)
  finally show ?thesis by (simp add: token_offsets_def)
qed

text \<open>The hunks of a partition, walked from the old and new token reached so far.\<close>

fun covers :: "'a list \<Rightarrow> 'a list \<Rightarrow> nat \<Rightarrow> nat \<Rightarrow> line_hunk list \<Rightarrow> bool" where
  "covers x y i j [] = (i = length x \<and> j = length y)"
| "covers x y i j (h # hs) \<longleftrightarrow> fst (lh_old h) = i \<and> fst (lh_new h) = j \<and>
     i \<le> snd (lh_old h) \<and> snd (lh_old h) \<le> length x \<and> j \<le> snd (lh_new h) \<and> snd (lh_new h) \<le> length y \<and>
     (case lh_kind h of
        LineEqual \<Rightarrow> slice x i (snd (lh_old h)) = slice y j (snd (lh_new h))
      | LineDelete \<Rightarrow> snd (lh_new h) = j
      | LineInsert \<Rightarrow> snd (lh_old h) = i
      | LineReplace \<Rightarrow> True) \<and>
     covers x y (snd (lh_old h)) (snd (lh_new h)) hs"

definition partition_rest :: "nat \<Rightarrow> nat \<Rightarrow> nat \<Rightarrow> nat \<Rightarrow> line_hunk list" where
  "partition_rest i j m n = (if i < m then [\<lparr>lh_old = (i, m), lh_new = (j, n), lh_kind = LineEqual\<rparr>] else [])"

lemma covers_rest:
  assumes "drop i x = drop j y" "i \<le> length x" "j \<le> length y"
  shows "covers x y i j (partition_rest i j (length x) (length y))"
proof (cases "i < length x")
  case True
  then show ?thesis using assms arg_cong [OF assms(1), of length] slice_all [of i x] slice_all [of j y]
    by (simp add: partition_rest_def)
next
  case False
  then show ?thesis using assms arg_cong [OF assms(1), of length] by (simp add: partition_rest_def)
qed

lemma slice_lengths: "slice x i b = slice y j a \<Longrightarrow> b \<le> length x \<Longrightarrow> a \<le> length y \<Longrightarrow> b - i = a - j"
proof -
  assume a: "slice x i b = slice y j a" "b \<le> length x" "a \<le> length y"
  have "length (slice x i b) = b - i" "length (slice y j a) = a - j" using a(2,3) by auto
  then show ?thesis using a(1) by simp
qed

lemma partition_loop_covers:
  assumes "valid_hunks x y i j rs" "i \<le> length x" "j \<le> length y"
    and "partition_loop rs i j hunks = (hs, i', j')"
  shows "\<exists>more. hs = hunks @ more \<and> covers x y i j (more @ partition_rest i' j' (length x) (length y))"
  using assms
proof (induction rs arbitrary: i j hunks)
  case Nil
  then show ?case using covers_rest by auto
next
  case (Cons r rs)
  obtain old new where r: "r = (old, new)" by (cases r)
  obtain b b' a a' where on: "old = (b, b')" "new = (a, a')" by (cases old; cases new) auto
  have v: "i \<le> b" "b \<le> b'" "b' \<le> length x" "j \<le> a" "a \<le> a'" "a' \<le> length y" "slice x i b = slice y j a"
    "valid_hunks x y b' a' rs" using Cons.prems(1) r on by simp_all
  define eq where "eq = (if i < b then [\<lparr>lh_old = (i, b), lh_new = (j, a), lh_kind = LineEqual\<rparr>] else [])"
  define hk where "hk = \<lparr>lh_old = old, lh_new = new, lh_kind = (if fst old \<ge> snd old then LineInsert
     else if fst new \<ge> snd new then LineDelete else LineReplace)\<rparr>"
  have run: "partition_loop rs (snd old) (snd new) ((hunks @ eq) @ [hk]) = (hs, i', j')"
    using Cons.prems(4) r on by (simp add: Let_def eq_def hk_def split: if_splits)
  have "\<exists>more. hs = ((hunks @ eq) @ [hk]) @ more \<and>
      covers x y (snd old) (snd new) (more @ partition_rest i' j' (length x) (length y))"
    by (rule Cons.IH [OF _ _ _ run]) (use v on in \<open>simp_all add: eq_def hk_def\<close>)
  then obtain more where m: "hs = ((hunks @ eq) @ [hk]) @ more"
    "covers x y b' a' (more @ partition_rest i' j' (length x) (length y))" using on by auto
  have hkc: "covers x y b a (hk # more @ partition_rest i' j' (length x) (length y))"
    using v on m(2) by (simp add: hk_def)
  have "covers x y i j (eq @ hk # more @ partition_rest i' j' (length x) (length y))"
  proof (cases "i < b")
    case True
    then show ?thesis using hkc v by (simp add: eq_def)
  next
    case False
    then have "i = b" "a = j" using v slice_lengths [OF v(7)] by auto
    then show ?thesis using hkc by (simp add: eq_def)
  qed
  then show ?case using m(1) by (intro exI [of _ "eq @ hk # more"]) simp
qed

lemma diff_lines_covers:
  assumes "diff_ok D"
  shows "covers x y 0 0 (diff_lines D x y)"
proof -
  have "covers x y 0 0 (partition_hunks d (length x) (length y))" if d: "valid_hunks x y 0 0 d" for d
  proof -
    obtain hs i j where r: "partition_loop d 0 0 [] = (hs, i, j)" by (cases "partition_loop d 0 0 []")
    from partition_loop_covers [OF d _ _ r] have "covers x y 0 0 (hs @ partition_rest i j (length x) (length y))" by simp
    then show ?thesis using r by (auto simp: partition_hunks_def partition_rest_def split: if_splits)
  qed
  moreover have "valid_hunks x y 0 0 (D a x y)" for a using assms by (simp add: diff_ok_def)
  ultimately show ?thesis by (simp add: diff_lines_def diff_lines_within_def Let_def split: option.split)
qed

text \<open>Where tokens lie in their text.\<close>

definition tokens_at :: "ustring list \<Rightarrow> ustring \<Rightarrow> nat \<Rightarrow> nat \<Rightarrow> bool" where
  "tokens_at x t a b \<longleftrightarrow> concat x = slice t a b \<and> a \<le> b \<and> b \<le> length t"

lemma take_concat_take: "i \<le> length x \<Longrightarrow> take (length (concat (take i x))) (concat x) = concat (take i x)"
  by (metis append_eq_conv_conj append_take_drop_id concat_append)

lemma token_bounds:
  assumes "tokens_at x t a b" "i \<le> j" "j \<le> length x"
  shows "offsets_from a x ! i \<le> offsets_from a x ! j" "offsets_from a x ! j \<le> b"
    "slice t (offsets_from a x ! i) (offsets_from a x ! j) = concat (slice x i j)"
    "offsets_from a x ! j - offsets_from a x ! i = length (concat (slice x i j))"
proof -
  have s: "take j x = take i x @ slice x i j" using assms(2,3) unfolding slice_def
    by (metis le_add_diff_inverse take_add)
  have o: "offsets_from a x ! i = a + length (concat (take i x))"
    "offsets_from a x ! j = a + length (concat (take i x)) + length (concat (slice x i j))"
    using assms(2,3) s by (simp_all add: nth_offsets_from)
  show "offsets_from a x ! i \<le> offsets_from a x ! j"
    "offsets_from a x ! j - offsets_from a x ! i = length (concat (slice x i j))" using o by simp_all
  have c: "concat x = concat (take i x) @ concat (slice x i j) @ concat (drop j x)"
    using s by (metis append.assoc append_take_drop_id concat_append)
  have t: "slice t a b = concat (take i x) @ concat (slice x i j) @ concat (drop j x)"
    using assms(1) c by (simp add: tokens_at_def)
  have "b - a = length (concat (take i x)) + length (concat (slice x i j)) + length (concat (drop j x))"
    using arg_cong [OF t, of length] assms(1) by (simp add: tokens_at_def min_absorb1 diff_le_mono)
  moreover have ab: "a \<le> b" using assms(1) by (simp add: tokens_at_def)
  ultimately show "offsets_from a x ! j \<le> b" using o(2) by linarith
  have "drop a t = take (b - a) (drop a t) @ drop (b - a) (drop a t)" by (rule append_take_drop_id [symmetric])
  also have "drop (b - a) (drop a t) = drop b t" using ab by simp
  finally have "drop a t = concat (take i x) @ concat (slice x i j) @ concat (drop j x) @ drop b t"
    using t by (simp add: slice_def)
  moreover have "drop (offsets_from a x ! i) t = drop (length (concat (take i x))) (drop a t)"
    using o(1) by (simp add: add.commute)
  ultimately have "drop (offsets_from a x ! i) t = concat (slice x i j) @ concat (drop j x) @ drop b t" by simp
  then show "slice t (offsets_from a x ! i) (offsets_from a x ! j) = concat (slice x i j)"
    using o by (simp add: slice_def)
qed

lemma hunk_span_ok:
  assumes "tokens_at x t a b" "fst r \<le> snd r" "snd r \<le> length x"
  shows "hunk_span (offsets_from a x) r = Some (length (concat (slice x (fst r) (snd r))))"
  using token_bounds [OF assms] assms(2,3) by (simp add: hunk_span_def nth_opt_def chars_since_def)

lemma hunk_slice_ok:
  assumes "tokens_at x t a b" "fst r \<le> snd r" "snd r \<le> length x"
  shows "hunk_slice t (offsets_from a x) r = Some (concat (slice x (fst r) (snd r)))"
proof -
  have "offsets_from a x ! snd r \<le> length t" using token_bounds(2) [OF assms] assms(1) by (simp add: tokens_at_def)
  then show ?thesis
    using token_bounds [OF assms] assms(2,3) by (simp add: hunk_slice_def nth_opt_def slice_opt_def)
qed

lemma take_slice: "a \<le> b \<Longrightarrow> take b t = take a t @ slice t a b"
  unfolding slice_def by (metis le_add_diff_inverse take_add)

lemma build_loop_ok:
  assumes "tokens_at x t a oe" "tokens_at y u a' ne" "CR \<notin> set u"
    and "covers x y i j hunks" "i \<le> length x" "j \<le> length y"
    and "builder_ok b" "bd_old b = offsets_from a x ! i" "doc_len b = length t"
    and "built b t = take (offsets_from a' y ! j) u"
  shows "\<exists>b'. build_loop u (offsets_from a x) (offsets_from a' y) hunks b = Some b' \<and> builder_ok b' \<and>
    bd_old b' = offsets_from a x ! length x \<and> doc_len b' = length t \<and>
    built b' t = take (offsets_from a' y ! length y) u"
  using assms(4-)
proof (induction hunks arbitrary: i j b)
  case Nil
  then show ?case by simp
next
  case (Cons h hunks)
  obtain i' j' where hr: "lh_old h = (i, i')" "lh_new h = (j, j')"
    using Cons.prems(1) by (cases "lh_old h"; cases "lh_new h") auto
  have c: "i \<le> i'" "i' \<le> length x" "j \<le> j'" "j' \<le> length y" "covers x y i' j' hunks"
    using Cons.prems(1) hr by simp_all
  note X = token_bounds [OF assms(1) c(1,2)] and Y = token_bounds [OF assms(2) c(3,4)]
  have span: "hunk_span (offsets_from a x) (lh_old h) = Some (length (concat (slice x i i')))"
    "hunk_span (offsets_from a' y) (lh_new h) = Some (length (concat (slice y j j')))"
    "hunk_slice u (offsets_from a' y) (lh_new h) = Some (concat (slice y j j'))"
    using hunk_span_ok [OF assms(1), of "lh_old h"] hunk_span_ok [OF assms(2), of "lh_new h"]
      hunk_slice_ok [OF assms(2), of "lh_new h"] c hr by simp_all
  have oi: "offsets_from a x ! i + length (concat (slice x i i')) = offsets_from a x ! i'" using X(1,4) by simp
  have le: "bd_old b + length (concat (slice x i i')) \<le> doc_len b"
    using Cons.prems(5,6) oi X(2) assms(1) by (simp add: tokens_at_def)
  have tu: "take (offsets_from a' y ! j) u @ concat (slice y j j') = take (offsets_from a' y ! j') u"
    using take_slice [OF Y(1), of u] Y(3) by simp
  have lf: "lf_text (concat (slice y j j')) = concat (slice y j j')"
    using lf_text_id [of "concat (slice y j j')"] Y(3) assms(3) set_slice_subset [of u] by (metis subsetD)
  obtain br where br: "builder_retain b (length (concat (slice x i i'))) = Some br"
    using builder_steps_total(1) [of b "length (concat (slice x i i'))"] le by auto
  obtain bd where bd: "builder_delete b (length (concat (slice x i i'))) = Some bd"
    using builder_steps_total(2) [of b "length (concat (slice x i i'))"] le by auto
  note r = builder_retain_Some [OF br Cons.prems(4), of t] and d = builder_delete_Some [OF bd Cons.prems(4), of t]
  have "\<exists>b1. build_hunk u (offsets_from a x) (offsets_from a' y) h b = Some b1 \<and> builder_ok b1 \<and>
      bd_old b1 = offsets_from a x ! i' \<and> doc_len b1 = length t \<and> built b1 t = take (offsets_from a' y ! j') u"
  proof (cases "lh_kind h")
    case LineEqual
    then have same: "slice x i i' = slice y j j'" using Cons.prems(1) hr by simp
    have "slice t (bd_old b) (bd_old b + length (concat (slice x i i'))) = concat (slice y j j')"
      using X(3) same oi Cons.prems(5) by simp
    then show ?thesis using LineEqual span same br r oi tu Cons.prems(5-7)
      by (simp add: build_hunk_def)
  next
    case LineDelete
    then have "j' = j" using Cons.prems(1) hr by simp
    then show ?thesis using LineDelete span bd d oi Cons.prems(5-7) by (simp add: build_hunk_def)
  next
    case LineInsert
    then have "i' = i" using Cons.prems(1) hr by simp
    then show ?thesis
      using LineInsert span builder_insert_ok [OF Cons.prems(4), of "concat (slice y j j')" t] lf tu Cons.prems(5-7)
      by (simp add: build_hunk_def)
  next
    case LineReplace
    have bo: "builder_ok bd" using d by simp
    show ?thesis
      using LineReplace span bd d builder_insert_ok [OF bo, of "concat (slice y j j')" t] lf tu oi Cons.prems(5-7)
      by (simp add: build_hunk_def)
  qed
  then obtain b1 where b1: "build_hunk u (offsets_from a x) (offsets_from a' y) h b = Some b1" "builder_ok b1"
    "bd_old b1 = offsets_from a x ! i'" "doc_len b1 = length t" "built b1 t = take (offsets_from a' y ! j') u" by blast
  from Cons.IH [OF c(5,2,4) b1(2-5)] b1(1) show ?case by simp
qed

lemma text_line_diff_ok:
  assumes "chunks_ok C" "diff_ok D" "is_char_boundary new (len_bytes new - tail_bytes old new)"
  obtains m a oe ne x y hs where
    "text_line_diff_of C D old new = Some \<lparr>tl_ends = \<lparr>first_middle_line = m, old_middle = (a, oe), new_middle = (a, ne)\<rparr>,
       tl_old = x, tl_new = y, tl_hunks = hs\<rparr>"
    "ends_ok old new \<lparr>first_middle_line = m, old_middle = (a, oe), new_middle = (a, ne)\<rparr>"
    "tokens_at x old a oe" "tokens_at y new a ne" "covers x y 0 0 hs"
    "x = tokens (slice old a oe)" "y = tokens (slice new a ne)" "hs = diff_lines D x y"
proof -
  have C: "concat (C t) = t" for t using assms(1) by (simp add: chunks_ok_def)
  obtain e where e: "shared_line_ends_of (C old) (C new) = Some e" "ends_ok old new e"
    using shared_line_ends_ok(2) [of "C new" "C old"] assms(3) by (auto simp: C)
  then obtain m a oe ne where r: "e = \<lparr>first_middle_line = m, old_middle = (a, oe), new_middle = (a, ne)\<rparr>"
    "a \<le> oe" "oe \<le> length old" "a \<le> ne" "ne \<le> length new" by (auto simp: ends_ok_def)
  let ?x = "tokens (slice old a oe)" and ?y = "tokens (slice new a ne)"
  show ?thesis
    by (rule that [of m a oe ne ?x ?y "diff_lines D ?x ?y"])
      (use e r diff_lines_covers [OF assms(2), of ?x ?y] in
        \<open>simp_all add: text_line_diff_of_def Let_def slice_opt_def line_token_strs_eq C tokens_at_def\<close>)
qed

lemma units_ascii: "\<forall>c \<in> set t. c < 0x80 \<Longrightarrow> units utf8_width (take i t) = min i (length t)"
proof (induction t arbitrary: i)
  case (Cons c t)
  then have "utf8_width c = 1" by (simp add: utf8_width_def utf8_char_def)
  then show ?case using Cons by (cases i) simp_all
qed simp

section \<open>Properties\<close>

text \<open>C21: The changeset of a line diff, for any diff algorithm that reports equal lines truthfully and
  however the texts are cut into chunks: it makes the new text out of the old one, and computing it
  panics exactly when the bytes the two texts end with do not begin at a char of the new one, which
  cannot happen on an ASCII text.\<close>

theorem line_diff_applies:
  assumes "chunks_ok C" "diff_ok D" "is_cr_free (rope new)"
  shows "(changeset_from_line_diff C D old new = None \<longleftrightarrow>
       \<not> is_char_boundary (rope new) (len_bytes (rope new) - tail_bytes (rope old) (rope new))) \<and>
     (\<forall>cs. changeset_from_line_diff C D old new = Some cs \<longrightarrow>
        wf_cs cs \<and> inserts_cr_free cs \<and> len_before cs = len_chars old \<and>
        emit (ops cs) (rope old) = rope new) \<and>
     ((\<forall>c \<in> set (rope new). c < 0x80) \<longrightarrow> changeset_from_line_diff C D old new \<noteq> None)"
proof -
  let ?b = "is_char_boundary (rope new) (len_bytes (rope new) - tail_bytes (rope old) (rope new))"
  have none: "changeset_from_line_diff C D old new = None" if "\<not> ?b"
    using that shared_line_ends_ok(1) [of "C (rope new)" "C (rope old)"] assms(1)
    by (simp add: changeset_from_line_diff_def text_line_diff_of_def chunks_ok_def)
  have some: "\<exists>cs. changeset_from_line_diff C D old new = Some cs \<and> wf_cs cs \<and> inserts_cr_free cs \<and>
      len_before cs = len_chars old \<and> emit (ops cs) (rope old) = rope new" if bd: ?b
  proof -
    obtain m a oe ne x y hs where d:
      "text_line_diff_of C D (rope old) (rope new) = Some \<lparr>tl_ends = \<lparr>first_middle_line = m,
         old_middle = (a, oe), new_middle = (a, ne)\<rparr>, tl_old = x, tl_new = y, tl_hunks = hs\<rparr>"
      "ends_ok (rope old) (rope new) \<lparr>first_middle_line = m, old_middle = (a, oe), new_middle = (a, ne)\<rparr>"
      "tokens_at x (rope old) a oe" "tokens_at y (rope new) a ne" "covers x y 0 0 hs"
      by (rule text_line_diff_ok [OF assms(1,2) bd]) blast
    have e: "a \<le> oe" "oe \<le> length (rope old)" "a \<le> ne" "ne \<le> length (rope new)"
      "take a (rope old) = take a (rope new)" "drop oe (rope old) = drop ne (rope new)"
      using d(2) by (auto simp: ends_ok_def)
    have offs: "token_offsets x (a, oe) = Some (offsets_from a x)" "token_offsets y (a, ne) = Some (offsets_from a y)"
      using token_offsets_ok d(3,4) by (auto simp: tokens_at_def)
    have first: "offsets_from a x ! 0 = a" "offsets_from a y ! 0 = a" using nth_offsets_from [of 0] by simp_all
    have oo: "nth_opt (offsets_from a x) 0 = Some a"
      using first(1) by (simp add: nth_opt_def del: length_greater_0_conv)
    have ends: "offsets_from a x ! length x = oe" "offsets_from a y ! length y = ne"
      using d(3,4) e by (simp_all add: nth_offsets_from tokens_at_def)
    have bn: "builder_ok (builder_new (len_chars old))" "bd_old (builder_new (len_chars old)) = 0"
      "doc_len (builder_new (len_chars old)) = length (rope old)"
      by (simp_all add: builder_new_ok) (simp_all add: builder_new_def len_chars_def)
    obtain b0 where b0: "retain_to (builder_new (len_chars old)) a = Some b0"
      using builder_steps_total(3) [of "builder_new (len_chars old)" a] bn e by auto
    note r = retain_to_Some [OF b0 bn(1), of "rope old"]
    have built0: "built b0 (rope old) = take (offsets_from a y ! 0) (rope new)"
      using r bn(2) e(5) first(2) builder_new_ok(2) [of "len_chars old" "rope old"] by (simp add: slice_def)
    have "CR \<notin> set (rope new)" using assms(3) by (simp add: is_cr_free_def)
    then obtain b1 where b1: "build_loop (rope new) (offsets_from a x) (offsets_from a y) hs b0 = Some b1"
      "builder_ok b1" "bd_old b1 = oe" "doc_len b1 = length (rope old)" "built b1 (rope old) = take ne (rope new)"
      using build_loop_ok [OF d(3,4) _ d(5), of b0] r bn(3) first built0 ends by auto
    obtain cs where cs: "builder_finish b1 = Some cs" "wf_cs cs" "inserts_cr_free cs" "len_before cs = doc_len b1"
      "emit (ops cs) (rope old) = built b1 (rope old) @ drop (bd_old b1) (rope old)"
      using builder_finish_ok [OF b1(2)] b1(4) by metis
    have "emit (ops cs) (rope old) = rope new" using cs(5) b1(3,5) e(6) by simp
    moreover have "changeset_from_line_diff C D old new = Some cs"
      using d(1) offs b0 b1(1) cs(1) oo by (simp add: changeset_from_line_diff_def build_changeset_def)
    ultimately show ?thesis using cs b1(4) by (simp add: len_chars_def)
  qed
  have "?b" if ascii: "\<forall>c \<in> set (rope new). c < 0x80"
  proof -
    have w: "units utf8_width (take i (rope new)) = i" if "i \<le> length (rope new)" for i
      using units_ascii [OF ascii, of i] that by simp
    have "len_bytes (rope new) = length (rope new)" using w [of "length (rope new)"] by (simp add: len_bytes_def)
    then show ?thesis using w [of "length (rope new) - tail_bytes (rope old) (rope new)"]
      by (auto simp: char_boundary intro!: exI [of _ "length (rope new) - tail_bytes (rope old) (rope new)"])
  qed
  then show ?thesis using none some by (metis option.distinct(1) option.inject)
qed

text \<open>Two one-line texts: an e with acute accent, C3 A9 in UTF-8, and an i with tilde, C4 A9.\<close>

definition demo_acute :: buffer_text where
  "demo_acute = demo_ab\<lparr>rope := [233, 10]\<rparr>"

definition demo_tilde :: buffer_text where
  "demo_tilde = demo_ab\<lparr>rope := [297, 10]\<rparr>"


definition demo_differ :: "'a differ" where
  "demo_differ algorithm x y = [((0, length x), (0, length y))]"

definition demo_chunking :: chunking where
  "demo_chunking t = [t]"

lemma demo_diff_ok: "diff_ok demo_differ" "chunks_ok demo_chunking"
  by (simp_all add: diff_ok_def demo_differ_def chunks_ok_def demo_chunking_def slice_def)

theorem line_diff_applies_witness:
  "\<exists>cs. changeset_from_line_diff demo_chunking demo_differ demo_acute demo_ab = Some cs \<and>
     emit (ops cs) [233, 10] = rope demo_ab"
proof -
  have "is_cr_free (rope demo_ab)" "\<forall>c \<in> set (rope demo_ab). c < 0x80"
    by (simp_all add: is_cr_free_def demo_ab_def)
  with line_diff_applies [OF demo_diff_ok(2,1), of demo_ab demo_acute] show ?thesis
    by (auto simp: demo_acute_def)
qed


end
