(* ===== verification/History.thy ===== *)
theory History imports Edited begin

text \<open>
  The undo tree: \<open>hume-editing/src/history.rs\<close> and \<open>history/children.rs\<close>. The hash map of
  revisions is an association list with distinct keys; the code never depends on its order. A
  \<open>SystemTime\<close> and a \<open>Duration\<close> are integers and natural numbers of clock ticks, and the
  identifiers and counters, which grow by one per edit, are natural numbers.
\<close>

section \<open>Children\<close>

type_synonym revision_id = nat

record children =
  ch_ids :: "revision_id list"
  ch_redo :: "revision_id option"

definition children_default :: children where
  "children_default = \<lparr>ch_ids = [], ch_redo = None\<rparr>"

definition children_push :: "children \<Rightarrow> revision_id \<Rightarrow> children" where
  "children_push c rid = \<lparr>ch_ids = ch_ids c @ [rid], ch_redo = Some rid\<rparr>"

definition children_remove :: "children \<Rightarrow> revision_id \<Rightarrow> children" where
  "children_remove c rid =
     (let ids = filter (\<lambda>i. i \<noteq> rid) (ch_ids c) in
      \<lparr>ch_ids = ids,
       ch_redo = (if ch_redo c = Some rid then (if ids = [] then None else Some (last ids))
                  else ch_redo c)\<rparr>)"

definition children_set_redo :: "children \<Rightarrow> revision_id \<Rightarrow> children option" where
  "children_set_redo c child = do {
     ensure (child \<in> set (ch_ids c));
     Some (c\<lparr>ch_redo := Some child\<rparr>) }"

section \<open>Revisions\<close>

type_synonym pane_id = nat

datatype owner = Nobody | OwnedBy pane_id | Restored

record link =
  lk_parent :: revision_id
  lk_inverse :: transaction
  lk_forward :: transaction

record revision =
  rv_link :: "link option"
  rv_owner :: owner
  rv_children :: children
  rv_time :: int

record history =
  revisions :: "(revision_id \<times> revision) list"
  current :: revision_id
  next_id :: nat
  undo_levels :: nat
  change_seq :: nat
  claimed_by :: "pane_id option"

definition ROOT :: revision_id where "ROOT = 0"

definition rev_at :: "history \<Rightarrow> revision_id \<Rightarrow> revision option" where
  "rev_at h rid = map_of (revisions h) rid"

definition put_rev :: "history \<Rightarrow> revision_id \<Rightarrow> revision \<Rightarrow> history" where
  "put_rev h rid r = h\<lparr>revisions := AList.update rid r (revisions h)\<rparr>"

definition rev_checked :: "history \<Rightarrow> nat \<Rightarrow> revision_id option" where
  "rev_checked h n = (if rev_at h n \<noteq> None then Some n else None)"

definition rev_parent :: "revision \<Rightarrow> revision_id option" where
  "rev_parent r = map_option lk_parent (rv_link r)"

definition history_new :: "int \<Rightarrow> history" where
  "history_new now =
     \<lparr>revisions = [(ROOT, \<lparr>rv_link = None, rv_owner = Nobody, rv_children = children_default,
         rv_time = now\<rparr>)],
      current = ROOT, next_id = 1, undo_levels = 0, change_seq = 0, claimed_by = None\<rparr>"

definition history_len :: "history \<Rightarrow> nat" where
  "history_len h = length (revisions h)"

definition history_reset :: "history \<Rightarrow> int \<Rightarrow> history" where
  "history_reset h now =
     (history_new now)\<lparr>undo_levels := undo_levels h,
       change_seq := change_seq h + (if history_len h > 1 then 1 else 0)\<rparr>"

definition set_current :: "history \<Rightarrow> revision_id \<Rightarrow> history" where
  "set_current h rid = h\<lparr>current := rid, change_seq := change_seq h + 1\<rparr>"

section \<open>Recording and trimming\<close>

text \<open>\<open>root_child_on_current_path\<close>: no result stands for the unreachable root and for a loop
  in the parents.\<close>

partial_function (option) root_child :: "(revision_id \<times> revision) list \<Rightarrow> revision_id \<Rightarrow> revision_id option" where
  [code]: "root_child revs rid =
     Option.bind (map_of revs rid) (\<lambda>r.
       Option.bind (rev_parent r) (\<lambda>parent.
         if parent = ROOT then Some rid else root_child revs parent))"

lemma delete_shorter: "map_of m k = Some v \<Longrightarrow> length (AList.delete k m) < length m"
proof (induction m)
  case (Cons p m)
  have "length (AList.delete k m) \<le> length m" by (rule length_delete_le)
  with Cons show ?case by (cases p) auto
qed simp

text \<open>The stack of \<open>remove_subtree\<close>, its top the last element.\<close>

function remove_stack :: "(revision_id \<times> revision) list \<Rightarrow> revision_id list \<Rightarrow> (revision_id \<times> revision) list" where
  "remove_stack revs stack =
     (if stack = [] then revs
      else (let next = last stack; rest = butlast stack in
        case map_of revs next of
          None \<Rightarrow> remove_stack revs rest
        | Some r \<Rightarrow> remove_stack (AList.delete next revs) (rest @ ch_ids (rv_children r))))"
  by pat_completeness auto

termination
  by (relation "measures [\<lambda>(revs, stack). length revs, \<lambda>(revs, stack). length stack]")
     (auto simp: delete_shorter)

declare remove_stack.simps [simp del]

text \<open>Taking a revision off its parent's children.\<close>

definition detach :: "history \<Rightarrow> revision_id \<Rightarrow> history option" where
  "detach h rid = do {
     r \<leftarrow> rev_at h rid;
     case rev_parent r of
       None \<Rightarrow> Some h
     | Some parent \<Rightarrow> do {
         p \<leftarrow> rev_at h parent;
         Some (put_rev h parent (p\<lparr>rv_children := children_remove (rv_children p) rid\<rparr>)) } }"

definition remove_subtree :: "history \<Rightarrow> revision_id \<Rightarrow> history option" where
  "remove_subtree h rid = do {
     h \<leftarrow> detach h rid;
     Some (h\<lparr>revisions := remove_stack (revisions h) [rid]\<rparr>) }"

text \<open>The loop that hangs a promoted revision's children on the root.\<close>

fun adopt_loop :: "revision_id list \<Rightarrow> history \<Rightarrow> history option" where
  "adopt_loop [] h = Some h"
| "adopt_loop (child # ids) h = do {
     r \<leftarrow> rev_at h child;
     l \<leftarrow> rv_link r;
     adopt_loop ids (put_rev h child (r\<lparr>rv_link := Some (l\<lparr>lk_parent := ROOT\<rparr>)\<rparr>)) }"

definition promote :: "history \<Rightarrow> revision_id \<Rightarrow> history option" where
  "promote h c_id = do {
     c \<leftarrow> rev_at h c_id;
     let h = h\<lparr>revisions := AList.delete c_id (revisions h)\<rparr>;
     h \<leftarrow> adopt_loop (ch_ids (rv_children c)) h;
     root \<leftarrow> rev_at h ROOT;
     Some (put_rev h ROOT (root\<lparr>rv_children := rv_children c, rv_time := rv_time c\<rparr>)) }"

definition enforce_step :: "history \<Rightarrow> (history \<times> revision_id option) option" where
  "enforce_step h = do {
     root \<leftarrow> rev_at h ROOT;
     let ids = ch_ids (rv_children root);
     if length ids > 1 then do {
       protected \<leftarrow> root_child (revisions h) (current h);
       victim \<leftarrow> find (\<lambda>c. c \<noteq> protected) ids;
       h \<leftarrow> remove_subtree h victim;
       Some (h, None) }
     else do {
       c_id \<leftarrow> next_item ids;
       h \<leftarrow> promote h c_id;
       Some (h, Some c_id) } }"

lemma length_put_rev:
  "rev_at h rid = Some r \<Longrightarrow> length (revisions (put_rev h rid r')) = length (revisions h)"
  by (simp add: put_rev_def rev_at_def length_update_key set_keys domI)

lemma remove_stack_length: "length (remove_stack revs stack) \<le> length revs"
proof (induction revs stack rule: remove_stack.induct)
  case (1 revs stack)
  show ?case
  proof (cases "stack = []")
    case False
    then show ?thesis
      using 1 by (simp add: remove_stack.simps [of revs stack] Let_def split: option.splits)
        (meson delete_shorter le_trans less_imp_le)
  qed (simp add: remove_stack.simps)
qed

lemma adopt_loop_length: "adopt_loop ids h = Some h' \<Longrightarrow> length (revisions h') = length (revisions h)"
  by (induction ids arbitrary: h) (auto simp: bind_eq_Some_conv length_put_rev)

lemma detach_length:
  "detach h rid = Some h1 \<Longrightarrow> length (revisions h1) = length (revisions h) \<and> map_of (revisions h1) rid \<noteq> None"
  by (auto simp: detach_def bind_eq_Some_conv rev_at_def put_rev_def length_update_key
      set_keys domI split: option.splits)

lemma enforce_step_shrinks:
  assumes "enforce_step h = Some (h', p)"
  shows "length (revisions h') < length (revisions h)"
proof -
  obtain root where root: "rev_at h ROOT = Some root"
    using assms by (auto simp: enforce_step_def bind_eq_Some_conv)
  let ?ids = "ch_ids (rv_children root)"
  show ?thesis
  proof (cases "length ?ids > 1")
    case True
    then obtain victim where "remove_subtree h victim = Some h'"
      using assms root by (auto simp: enforce_step_def bind_eq_Some_conv Let_def)
    then obtain h1 where h1: "detach h victim = Some h1"
      "h' = h1\<lparr>revisions := remove_stack (revisions h1) [victim]\<rparr>"
      by (auto simp: remove_subtree_def bind_eq_Some_conv)
    note r = detach_length [OF h1(1)]
    from r obtain rv where rv: "map_of (revisions h1) victim = Some rv" by blast
    have "length (remove_stack (revisions h1) [victim]) < length (revisions h1)"
      using remove_stack_length [of "AList.delete victim (revisions h1)" "ch_ids (rv_children rv)"]
        delete_shorter [OF rv] rv
      by (simp add: remove_stack.simps [of "revisions h1" "[victim]"])
    with r h1(2) show ?thesis by simp
  next
    case False
    then obtain c_id c h2 where c: "rev_at h c_id = Some c"
      "adopt_loop (ch_ids (rv_children c)) (h\<lparr>revisions := AList.delete c_id (revisions h)\<rparr>) = Some h2"
      "length (revisions h') = length (revisions h2)"
      using assms root
      by (auto simp: enforce_step_def bind_eq_Some_conv Let_def promote_def length_put_rev)
    then show ?thesis
      using adopt_loop_length [OF c(2)] delete_shorter [of "revisions h" c_id c]
      by (simp add: rev_at_def)
  qed
qed

function enforce_loop :: "history \<Rightarrow> revision_id option \<Rightarrow> (history \<times> revision_id option) option" where
  "enforce_loop h last_promoted =
     (if length (revisions h) - 1 > undo_levels h then
        (case enforce_step h of
           None \<Rightarrow> None
         | Some (h', promoted) \<Rightarrow>
             enforce_loop h' (case promoted of None \<Rightarrow> last_promoted | Some _ \<Rightarrow> promoted))
      else Some (h, last_promoted))"
  by pat_completeness auto
termination
  by (relation "measure (\<lambda>(h, p). length (revisions h))") (auto simp: enforce_step_shrinks)

declare enforce_loop.simps [simp del]

definition enforce_undo_levels :: "history \<Rightarrow> (history \<times> revision_id option) option" where
  "enforce_undo_levels h =
     (if undo_levels h = 0 then Some (h, None) else enforce_loop h None)"

definition record_edit :: "history \<Rightarrow> pane_id option \<Rightarrow> changeset \<Rightarrow> buffer_text \<Rightarrow>
    selection_set \<Rightarrow> selection_set \<Rightarrow> int \<Rightarrow> (history \<times> revision_id option) option" where
  "record_edit h owner forward_cs pre_edit_text pre_edit_sels post_edit_sels now = do {
     inverse_cs \<leftarrow> invert_cs forward_cs pre_edit_text;
     let new_id = next_id h;
     let parent_id = current h;
     let h = h\<lparr>next_id := new_id + 1\<rparr>;
     let revision =
       \<lparr>rv_link = Some \<lparr>lk_parent = parent_id,
          lk_inverse = \<lparr>tx_changes = inverse_cs, tx_selection = pre_edit_sels\<rparr>,
          lk_forward = \<lparr>tx_changes = forward_cs, tx_selection = post_edit_sels\<rparr>\<rparr>,
        rv_owner = (case owner of None \<Rightarrow> Nobody | Some pane \<Rightarrow> OwnedBy pane),
        rv_children = children_default, rv_time = now\<rparr>;
     let h = put_rev h new_id revision;
     p \<leftarrow> rev_at h parent_id;
     let h = put_rev h parent_id (p\<lparr>rv_children := children_push (rv_children p) new_id\<rparr>);
     enforce_undo_levels (set_current h new_id) }"

section \<open>Stepping\<close>

definition undo :: "history \<Rightarrow> (transaction option \<times> history) option" where
  "undo h = do {
     rev \<leftarrow> rev_at h (current h);
     case rv_link rev of
       None \<Rightarrow> Some (None, h)
     | Some l \<Rightarrow> Some (Some (lk_inverse l), set_current h (lk_parent l)) }"

definition rev_link :: "history \<Rightarrow> revision_id \<Rightarrow> link option" where
  "rev_link h rid = do { r \<leftarrow> rev_at h rid; rv_link r }"

definition redo :: "history \<Rightarrow> (transaction option \<times> history) option" where
  "redo h = do {
     rev \<leftarrow> rev_at h (current h);
     case ch_redo (rv_children rev) of
       None \<Rightarrow> Some (None, h)
     | Some child \<Rightarrow> do {
         let h = set_current h child;
         l \<leftarrow> rev_link h child;
         Some (Some (lk_forward l), h) } }"

fun undo_n :: "nat \<Rightarrow> history \<Rightarrow> (transaction list \<times> history) option" where
  "undo_n 0 h = Some ([], h)"
| "undo_n (Suc count) h = do {
     (txn, h) \<leftarrow> undo h;
     case txn of
       None \<Rightarrow> Some ([], h)
     | Some t \<Rightarrow> do { (ts, h) \<leftarrow> undo_n count h; Some (t # ts, h) } }"

fun redo_n :: "nat \<Rightarrow> history \<Rightarrow> (transaction list \<times> history) option" where
  "redo_n 0 h = Some ([], h)"
| "redo_n (Suc count) h = do {
     (txn, h) \<leftarrow> redo h;
     case txn of
       None \<Rightarrow> Some ([], h)
     | Some t \<Rightarrow> do { (ts, h) \<leftarrow> redo_n count h; Some (t # ts, h) } }"

definition can_undo :: "history \<Rightarrow> bool option" where
  "can_undo h = do { r \<leftarrow> rev_at h (current h); Some (rv_link r \<noteq> None) }"

definition can_redo :: "history \<Rightarrow> bool option" where
  "can_redo h = do { r \<leftarrow> rev_at h (current h); Some (ch_redo (rv_children r) \<noteq> None) }"

definition rev_age :: "history \<Rightarrow> revision_id \<Rightarrow> int \<Rightarrow> nat option" where
  "rev_age h rid now = do { r \<leftarrow> rev_at h rid; Some (nat (now - rv_time r)) }"

text \<open>The step counts for a point in time; \<open>Inl\<close> is the count of a walk that ran out.\<close>

partial_function (option) undo_steps_loop ::
  "history \<Rightarrow> nat \<Rightarrow> int \<Rightarrow> nat \<Rightarrow> revision_id \<Rightarrow> (nat + nat) option"
where
  [code]: "undo_steps_loop h age now steps rid =
     Option.bind (rev_age h rid now) (\<lambda>a.
       if a < age then
         Option.bind (rev_at h rid) (\<lambda>r.
           case rev_parent r of
             None \<Rightarrow> Some (Inl steps)
           | Some parent \<Rightarrow> undo_steps_loop h age now (steps + 1) parent)
       else Some (Inr steps))"

definition undo_steps_older_than :: "history \<Rightarrow> nat \<Rightarrow> int \<Rightarrow> (nat + nat) option" where
  "undo_steps_older_than h age now = undo_steps_loop h age now 0 (current h)"

definition redo_child :: "history \<Rightarrow> revision_id \<Rightarrow> revision_id option option" where
  "redo_child h rid = do { r \<leftarrow> rev_at h rid; Some (ch_redo (rv_children r)) }"

partial_function (option) redo_steps_loop ::
  "history \<Rightarrow> nat \<Rightarrow> int \<Rightarrow> nat \<Rightarrow> revision_id \<Rightarrow> (nat + nat) option"
where
  [code]: "redo_steps_loop h age now steps rid =
     Option.bind (redo_child h rid) (\<lambda>c.
       case c of
         None \<Rightarrow> Some (Inr steps)
       | Some child \<Rightarrow>
           Option.bind (rev_age h child now) (\<lambda>child_age.
             if child_age < age then Some (Inr steps)
             else Option.bind (redo_child h child) (\<lambda>next.
               if next = None \<and> child_age > age then Some (Inl (steps + 1))
               else redo_steps_loop h age now (steps + 1) child)))"

definition redo_steps_newer_than :: "history \<Rightarrow> nat \<Rightarrow> int \<Rightarrow> (nat + nat) option" where
  "redo_steps_newer_than h age now = redo_steps_loop h age now 0 (current h)"

record revision_node =
  nd_id :: revision_id
  nd_parent :: "revision_id option"
  nd_age :: nat

definition history_nodes :: "history \<Rightarrow> int \<Rightarrow> revision_node list" where
  "history_nodes h now = sort_key nd_id
     (map (\<lambda>(rid, r). \<lparr>nd_id = rid, nd_parent = rev_parent r, nd_age = nat (now - rv_time r)\<rparr>) (revisions h))"

definition history_parent :: "history \<Rightarrow> revision_id \<Rightarrow> revision_id option" where
  "history_parent h rid = do { r \<leftarrow> rev_at h rid; rev_parent r }"

section \<open>Walking between revisions\<close>

partial_function (option) path_loop ::
  "history \<Rightarrow> revision_id \<Rightarrow> revision_id \<Rightarrow> revision_id list \<Rightarrow> revision_id list \<Rightarrow>
   (revision_id list \<times> revision_id list) option"
where
  [code]: "path_loop h from to up down =
     (if from = to then Some (up, rev down)
      else if from > to then
        Option.bind (rev_link h from) (\<lambda>l. path_loop h (lk_parent l) to (up @ [from]) down)
      else
        Option.bind (rev_link h to) (\<lambda>l. path_loop h from (lk_parent l) up (down @ [to])))"

definition path :: "history \<Rightarrow> revision_id \<Rightarrow> (revision_id list \<times> revision_id list) option option" where
  "path h target =
     (if rev_at h target = None then Some None
      else map_option Some (path_loop h (current h) target [] []))"

definition steps :: "history \<Rightarrow> revision_id list \<Rightarrow> revision_id list \<Rightarrow> transaction list option" where
  "steps h up_path down_path = do {
     us \<leftarrow> those (map (\<lambda>rid. map_option lk_inverse (rev_link h rid)) up_path);
     ds \<leftarrow> those (map (\<lambda>rid. map_option lk_forward (rev_link h rid)) down_path);
     Some (us @ ds) }"

datatype revision_path = Unknown | Here | Changes changeset

definition changes_to :: "history \<Rightarrow> revision_id \<Rightarrow> revision_path option" where
  "changes_to h target = do {
     p \<leftarrow> path h target;
     case p of
       None \<Rightarrow> Some Unknown
     | Some (up_path, down_path) \<Rightarrow> do {
         txns \<leftarrow> steps h up_path down_path;
         cs \<leftarrow> compose_all (map tx_changes txns);
         Some (case cs of Some cs \<Rightarrow> Changes cs | None \<Rightarrow> Here) } }"

fun set_redo_loop :: "revision_id list \<Rightarrow> history \<Rightarrow> history option" where
  "set_redo_loop [] h = Some h"
| "set_redo_loop (rid # ids) h = do {
     l \<leftarrow> rev_link h rid;
     p \<leftarrow> rev_at h (lk_parent l);
     c \<leftarrow> children_set_redo (rv_children p) rid;
     set_redo_loop ids (put_rev h (lk_parent l) (p\<lparr>rv_children := c\<rparr>)) }"

definition goto_revision :: "history \<Rightarrow> revision_id \<Rightarrow> (transaction list option \<times> history) option" where
  "goto_revision h target = do {
     p \<leftarrow> path h target;
     case p of
       None \<Rightarrow> Some (None, h)
     | Some (up_path, down_path) \<Rightarrow>
         if target = current h then Some (Some [], h)
         else do {
           txns \<leftarrow> steps h up_path down_path;
           h \<leftarrow> set_redo_loop down_path h;
           Some (Some txns, set_current h target) } }"

section \<open>Selections of past revisions\<close>

datatype side = BeforeEdit | AfterEdit

record selection_point =
  sp_revision :: revision_id
  sp_side :: side

definition claim_restored :: "history \<Rightarrow> pane_id \<Rightarrow> history" where
  "claim_restored h pane =
     h\<lparr>claimed_by := (case claimed_by h of None \<Rightarrow> Some pane | Some p \<Rightarrow> Some p)\<rparr>"

definition owner_of :: "history \<Rightarrow> revision \<Rightarrow> owner" where
  "owner_of h r = (case (rv_owner r, claimed_by h) of
     (Restored, Some pane) \<Rightarrow> OwnedBy pane | (owner, _) \<Rightarrow> owner)"

definition points_of :: "revision_id \<times> link \<Rightarrow> selection_point list" where
  "points_of il = map (\<lambda>(side, _). \<lparr>sp_revision = fst il, sp_side = side\<rparr>)
     (filter (\<lambda>(_, sels). \<not> is_single_cursor sels)
        [(AfterEdit, tx_selection (lk_forward (snd il))), (BeforeEdit, tx_selection (lk_inverse (snd il)))])"

definition selection_points :: "history \<Rightarrow> pane_id \<Rightarrow> selection_point list" where
  "selection_points h pane =
     concat (map points_of (rev (sort_key fst
       (List.map_filter (\<lambda>(rid, r). map_option (Pair rid) (rv_link r))
          (filter (\<lambda>(_, r). owner_of h r = OwnedBy pane) (revisions h))))))"

definition selection_at ::
  "segmentation \<Rightarrow> store \<Rightarrow> history \<Rightarrow> selection_point \<Rightarrow> buffer_text \<Rightarrow> selection_set option option"
where
  "selection_at B st h point now_text =
     (case rev_link h (sp_revision point) of
        None \<Rightarrow> Some None
      | Some l \<Rightarrow> do {
          let (text_of, saved) = (case sp_side point of
              BeforeEdit \<Rightarrow> (lk_parent l, tx_selection (lk_inverse l))
            | AfterEdit \<Rightarrow> (sp_revision point, tx_selection (lk_forward l)));
          p \<leftarrow> changes_to h text_of;
          to_saved \<leftarrow> (case p of Changes cs \<Rightarrow> Some cs
             | Here \<Rightarrow> Some (identity_cs (len_chars now_text)) | Unknown \<Rightarrow> None);
          undone \<leftarrow> invert_cs to_saved now_text;
          r \<leftarrow> apply_as to_saved st now_text (set_version saved);
          (case r of
             Inl e \<Rightarrow> None
           | Inr (_, saved_text) \<Rightarrow> do {
               ch \<leftarrow> text_change_new saved_text now_text undone;
               (_, sels) \<leftarrow> translate B saved ch;
               Some (Some sels) }) })"

end
