(* ===== verification/HistoryTree.thy ===== *)
theory HistoryTree imports History begin

text \<open>
  The undo tree's invariant: the revisions form a tree under the root whose parents are older than
  their children, each children list holds exactly the revisions that name its owner as parent, and
  redo follows the path to the current revision. Recording, trimming, undoing, redoing and jumping
  keep it, and never panic on it.
\<close>

section \<open>The invariant\<close>

text \<open>A children list holds each child once and redo names one of them, unless there is none.\<close>

definition children_ok :: "children \<Rightarrow> revision_id set \<Rightarrow> bool" where
  "children_ok c A = (distinct (ch_ids c) \<and> set (ch_ids c) = A \<and>
     (case ch_redo c of None \<Rightarrow> ch_ids c = [] | Some j \<Rightarrow> j \<in> set (ch_ids c)))"

lemma children_default_ok: "children_ok children_default {}"
  by (simp add: children_ok_def children_default_def)

lemma children_push_ok: "children_ok c A \<Longrightarrow> i \<notin> A \<Longrightarrow> children_ok (children_push c i) (insert i A)"
  by (auto simp: children_ok_def children_push_def)

lemma children_remove_ok:
  assumes "children_ok c A"
  shows "children_ok (children_remove c i) (A - {i})"
proof -
  let ?ids = "filter (\<lambda>j. j \<noteq> i) (ch_ids c)"
  have s: "set ?ids = A - {i}" "distinct ?ids" using assms by (auto simp: children_ok_def)
  have "?ids \<noteq> [] \<Longrightarrow> last ?ids \<in> A - {i}" using s(1) last_in_set by metis
  moreover have "ch_redo c = Some j \<Longrightarrow> j \<in> A" "ch_redo c = None \<Longrightarrow> ?ids = []" for j
    using assms by (auto simp: children_ok_def)
  ultimately show ?thesis using s by (auto simp: children_ok_def children_remove_def Let_def split: option.splits)
qed

lemma children_set_redo_ok:
  assumes "children_ok c A" "i \<in> A"
  shows "children_set_redo c i = Some (c\<lparr>ch_redo := Some i\<rparr>)" "children_ok (c\<lparr>ch_redo := Some i\<rparr>) A"
  using assms by (auto simp: children_ok_def children_set_redo_def)

definition kids_ok :: "history \<Rightarrow> revision_id \<Rightarrow> children \<Rightarrow> bool" where
  "kids_ok h i c = children_ok c {j. history_parent h j = Some i}"

text \<open>The revisions from the current one up to the root.\<close>

inductive on_path :: "history \<Rightarrow> revision_id \<Rightarrow> bool" for h where
  here: "on_path h (current h)"
| up: "on_path h i \<Longrightarrow> history_parent h i = Some p \<Longrightarrow> on_path h p"

definition tree_ok :: "history \<Rightarrow> bool" where
  "tree_ok h \<longleftrightarrow>
     distinct (keys (revisions h)) \<and>
     (\<exists>r. rev_at h ROOT = Some r \<and> rv_link r = None) \<and>
     (\<forall>i. rev_at h i \<noteq> None \<longrightarrow> i < next_id h \<and> (i \<noteq> ROOT \<longrightarrow>
        (\<exists>p. history_parent h i = Some p \<and> p < i \<and> rev_at h p \<noteq> None))) \<and>
     (\<forall>i r. rev_at h i = Some r \<longrightarrow> kids_ok h i (rv_children r)) \<and>
     rev_at h (current h) \<noteq> None"

definition redo_follows :: "history \<Rightarrow> bool" where
  "redo_follows h = (\<forall>i p. on_path h i \<and> history_parent h i = Some p \<longrightarrow> redo_child h p = Some (Some i))"

definition hist_ok :: "history \<Rightarrow> bool" where
  "hist_ok h = (tree_ok h \<and> redo_follows h)"

lemma rev_at_simps [simp]:
  "rev_at (put_rev h i r) j = (if j = i then Some r else rev_at h j)"
  "rev_at (set_current h i) j = rev_at h j"
  "rev_at (h\<lparr>next_id := n\<rparr>) j = rev_at h j"
  "current (put_rev h i r) = current h" "next_id (put_rev h i r) = next_id h"
  "undo_levels (put_rev h i r) = undo_levels h"
  "current (set_current h i) = i" "next_id (set_current h i) = next_id h"
  "undo_levels (set_current h i) = undo_levels h" "revisions (set_current h i) = revisions h"
  by (simp_all add: rev_at_def put_rev_def set_current_def)

lemma history_parent_link: "history_parent h i = Some p \<longleftrightarrow> (\<exists>l. rev_link h i = Some l \<and> lk_parent l = p)"
  by (auto simp: history_parent_def rev_link_def rev_parent_def bind_eq_Some_conv)

lemma history_parent_at:
  "history_parent h i = Some p \<longleftrightarrow> (\<exists>r. rev_at h i = Some r \<and> rev_parent r = Some p)"
  by (auto simp: history_parent_def bind_eq_Some_conv)

lemma history_parent_put [simp]:
  "history_parent (put_rev h i r) j = (if j = i then rev_parent r else history_parent h j)"
  "history_parent (set_current h i) j = history_parent h j"
  "history_parent (h\<lparr>next_id := n\<rparr>) j = history_parent h j"
  by (simp_all add: history_parent_def)

lemma tree_okD:
  assumes "tree_ok h"
  shows "distinct (keys (revisions h))" "rev_at h ROOT \<noteq> None" "history_parent h ROOT = None"
    "rev_at h i \<noteq> None \<Longrightarrow> i < next_id h"
    "history_parent h i = Some p \<Longrightarrow> p < i \<and> rev_at h p \<noteq> None \<and> rev_at h i \<noteq> None \<and> i \<noteq> ROOT"
    "rev_at h i \<noteq> None \<Longrightarrow> i \<noteq> ROOT \<Longrightarrow> history_parent h i \<noteq> None"
    "rev_at h i = Some r \<Longrightarrow> kids_ok h i (rv_children r)"
    "rev_at h (current h) \<noteq> None"
proof -
  obtain r0 where r0: "rev_at h ROOT = Some r0" "rv_link r0 = None"
    using assms by (auto simp: tree_ok_def)
  then show root: "rev_at h ROOT \<noteq> None" "history_parent h ROOT = None"
    by (simp_all add: history_parent_def rev_parent_def)
  show "distinct (keys (revisions h))" "rev_at h i \<noteq> None \<Longrightarrow> i < next_id h"
    "rev_at h i \<noteq> None \<Longrightarrow> i \<noteq> ROOT \<Longrightarrow> history_parent h i \<noteq> None"
    "rev_at h i = Some r \<Longrightarrow> kids_ok h i (rv_children r)" "rev_at h (current h) \<noteq> None"
    using assms unfolding tree_ok_def by blast+
  show "p < i \<and> rev_at h p \<noteq> None \<and> rev_at h i \<noteq> None \<and> i \<noteq> ROOT" if p: "history_parent h i = Some p"
  proof -
    have "i \<noteq> ROOT" using p root(2) by auto
    moreover have "rev_at h i \<noteq> None" using p by (auto simp: history_parent_at)
    ultimately have i: "rev_at h i \<noteq> None" "i \<noteq> ROOT" by simp_all
    then obtain q where "history_parent h i = Some q" "q < i" "rev_at h q \<noteq> None"
      using assms unfolding tree_ok_def by blast
    with p i show ?thesis by simp
  qed
qed

lemma on_path_in:
  assumes "tree_ok h" "on_path h i"
  shows "rev_at h i \<noteq> None"
  using assms(2) by induction (use tree_okD(5,8) [OF assms(1)] in blast)+

lemma on_path_le:
  assumes "tree_ok h" "on_path h i"
  shows "i \<le> current h"
  using assms(2)
proof induction
  case (up i p)
  then show ?case using tree_okD(5) [OF assms(1) up(2)] by simp
qed simp

section \<open>A new history\<close>

lemma history_new_ok: "hist_ok (history_new now)"
proof -
  let ?h = "history_new now"
  have r: "rev_at ?h i = (if i = ROOT then Some \<lparr>rv_link = None, rv_owner = Nobody,
      rv_children = children_default, rv_time = now\<rparr> else None)" for i
    by (simp add: history_new_def rev_at_def)
  have p: "history_parent ?h i = None" for i
    by (simp add: history_parent_def r rev_parent_def)
  have "tree_ok ?h"
    unfolding tree_ok_def by (auto simp: r p kids_ok_def children_default_ok) (simp_all add: history_new_def ROOT_def)
  then show ?thesis by (simp add: hist_ok_def redo_follows_def p)
qed

section \<open>Recording\<close>

text \<open>The tree with the new revision, before trimming.\<close>

definition grown :: "history \<Rightarrow> revision \<Rightarrow> history" where
  "grown h r =
     (let h1 = put_rev (h\<lparr>next_id := next_id h + 1\<rparr>) (next_id h) r;
          p = the (rev_at h1 (current h))
      in set_current (put_rev h1 (current h) (p\<lparr>rv_children := children_push (rv_children p) (next_id h)\<rparr>)) (next_id h))"

lemma grown_ok:
  assumes "hist_ok h" "rv_children r = children_default" "rev_parent r = Some (current h)"
  shows "hist_ok (grown h r)" "current (grown h r) = next_id h" "undo_levels (grown h r) = undo_levels h"
    "redo_child (grown h r) (next_id h) = Some None" "current (grown h r) \<noteq> ROOT"
    "\<And>i. rev_link (grown h r) i = (if i = next_id h then rv_link r else rev_link h i)"
    "\<And>i. rev_at (grown h r) i \<noteq> None \<longleftrightarrow> i = next_id h \<or> rev_at h i \<noteq> None"
proof -
  have ok: "tree_ok h" "redo_follows h" using assms(1) by (simp_all add: hist_ok_def)
  note D = tree_okD [OF ok(1)]
  let ?n = "next_id h" and ?c = "current h" and ?g = "grown h r"
  obtain rc where rc: "rev_at h ?c = Some rc" using D(8) by blast
  have c: "?c < ?n" using D(4) [of ?c] rc by simp
  have n0: "?n \<noteq> ROOT" using D(4) [of ROOT] D(2) by (auto simp: ROOT_def)
  have fresh: "rev_at h ?n = None" using D(4) [of ?n] by (cases "rev_at h ?n") auto
  let ?p = "rc\<lparr>rv_children := children_push (rv_children rc) ?n\<rparr>"
  have g: "?g = set_current (put_rev (put_rev (h\<lparr>next_id := ?n + 1\<rparr>) ?n r) ?c ?p) ?n"
    using rc c by (simp add: grown_def Let_def)
  have at: "rev_at ?g i = (if i = ?n then Some r else if i = ?c then Some ?p else rev_at h i)" for i
    using c by (simp add: g)
  have par: "history_parent ?g i = (if i = ?n then Some ?c else history_parent h i)" for i
    using c rc assms(3) by (auto simp: g history_parent_def rev_parent_def)
  have cur: "current ?g = ?n" "next_id ?g = ?n + 1" by (simp_all add: g)
  show "current ?g = next_id h" "undo_levels ?g = undo_levels h" "current ?g \<noteq> ROOT"
    using n0 by (simp_all add: g)
  show "redo_child ?g ?n = Some None" by (simp add: redo_child_def at assms(2) children_default_def)
  show "rev_link ?g i = (if i = ?n then rv_link r else rev_link h i)" for i
    using c rc by (auto simp: rev_link_def at)
  show "rev_at ?g i \<noteq> None \<longleftrightarrow> i = ?n \<or> rev_at h i \<noteq> None" for i using rc by (auto simp: at)
  have kids: "kids_ok ?g i (rv_children q)" if q: "rev_at ?g i = Some q" for i q
  proof -
    have nn: "history_parent h j \<noteq> Some ?n" for j using D(5) [of j ?n] fresh by auto
    consider "i = ?n" | "i = ?c" | "i \<noteq> ?n" "i \<noteq> ?c" by blast
    then show ?thesis
    proof cases
      case 1
      then have "rv_children q = children_default" using q assms(2) by (simp add: at)
      moreover have "{j. history_parent ?g j = Some i} = {}" using 1 par nn c by auto
      ultimately show ?thesis by (simp add: kids_ok_def children_default_ok)
    next
      case 2
      then have kc: "kids_ok h ?c (rv_children rc)" "q = ?p" using D(7) [OF rc] q c by (simp_all add: at)
      have "?n \<notin> {j. history_parent h j = Some ?c}" using D(5) [of ?n ?c] fresh by auto
      moreover have "{j. history_parent ?g j = Some i} = insert ?n {j. history_parent h j = Some ?c}"
        using 2 par by auto
      ultimately show ?thesis using 2 kc children_push_ok [of "rv_children rc"] by (simp add: kids_ok_def)
    next
      case 3
      then have "kids_ok h i (rv_children q)" using D(7) [of i q] q by (simp add: at)
      moreover have "{j. history_parent ?g j = Some i} = {j. history_parent h j = Some i}"
        using 3 par fresh D(5) [of ?n] by auto
      ultimately show ?thesis by (simp add: kids_ok_def)
    qed
  qed
  have dist: "distinct (keys (revisions ?g))" using D(1) by (simp add: g put_rev_def)
  have root: "\<exists>r. rev_at ?g ROOT = Some r \<and> rv_link r = None"
  proof -
    obtain r0 where "rev_at h ROOT = Some r0" "rv_link r0 = None"
      using ok(1) by (auto simp: tree_ok_def)
    then show ?thesis using n0 rc by (auto simp: at)
  qed
  have links: "i < next_id ?g \<and> (i \<noteq> ROOT \<longrightarrow> (\<exists>p. history_parent ?g i = Some p \<and> p < i \<and> rev_at ?g p \<noteq> None))"
    if i: "rev_at ?g i \<noteq> None" for i
  proof (cases "i = ?n")
    case True
    then show ?thesis using c cur rc by (simp add: par at)
  next
    case False
    then have "rev_at h i \<noteq> None" using i rc by (auto simp: at split: if_splits)
    then have "i < ?n" "i \<noteq> ROOT \<longrightarrow> (\<exists>p. history_parent h i = Some p \<and> p < i \<and> rev_at h p \<noteq> None)"
      using ok(1) unfolding tree_ok_def by blast+
    moreover have "rev_at ?g p \<noteq> None" if "rev_at h p \<noteq> None" for p using that rc by (auto simp: at)
    ultimately show ?thesis using False cur by (simp add: par) blast
  qed
  have tree: "tree_ok ?g"
    unfolding tree_ok_def using dist root links kids cur by (auto simp: at)
  have path: "i = ?n \<or> on_path h i" if "on_path ?g i" for i
    using that
  proof induction
    case here
    then show ?case using cur by simp
  next
    case (up i p)
    then show ?case using par on_path.here [of h] on_path.up [of h i p] by (auto split: if_splits)
  qed
  have "redo_child ?g p = Some (Some i)" if i: "on_path ?g i" "history_parent ?g i = Some p" for i p
  proof (cases "i = ?n")
    case True
    then have "p = ?c" using i(2) par by simp
    with True c show ?thesis by (simp add: redo_child_def at children_push_def)
  next
    case False
    then have hi: "on_path h i" "history_parent h i = Some p" using path [OF i(1)] i(2) par by auto
    then have "redo_child h p = Some (Some i)" using ok(2) by (auto simp: redo_follows_def)
    moreover have "p \<noteq> ?c"
    proof
      assume "p = ?c"
      then show False using on_path_le [OF ok(1) hi(1)] D(5) [OF hi(2)] by simp
    qed
    moreover have "p \<noteq> ?n" using D(5) [OF hi(2)] fresh by auto
    ultimately show ?thesis by (simp add: redo_child_def at)
  qed
  with tree show "hist_ok ?g" by (auto simp: hist_ok_def redo_follows_def)
qed

section \<open>Removing a subtree\<close>

lemma map_of_delete_key: "map_of (AList.delete k m) j = (if j = k then None else map_of m j)"
  by (simp add: delete_conv')

text \<open>What the stack removes: its own revisions and, with a revision, its children; nothing else.\<close>

definition removal :: "(revision_id \<times> revision) list \<Rightarrow> revision_id list \<Rightarrow> (revision_id \<times> revision) list \<Rightarrow> bool" where
  "removal revs stack out \<longleftrightarrow>
     (\<forall>i r. map_of out i = Some r \<longrightarrow> map_of revs i = Some r) \<and>
     (\<forall>i \<in> set stack. map_of out i = None) \<and>
     (\<forall>p rp i. map_of revs p = Some rp \<longrightarrow> map_of out p = None \<longrightarrow>
        i \<in> set (ch_ids (rv_children rp)) \<longrightarrow> map_of out i = None) \<and>
     (\<forall>i. map_of revs i \<noteq> None \<longrightarrow> map_of out i = None \<longrightarrow>
        i \<in> set stack \<or> (\<exists>p rp. map_of revs p = Some rp \<and> map_of out p = None \<and>
          i \<in> set (ch_ids (rv_children rp)))) \<and>
     (distinct (keys revs) \<longrightarrow> distinct (keys out))"

lemma removalD:
  assumes "removal revs stack out"
  shows "map_of out i = Some r \<Longrightarrow> map_of revs i = Some r"
    "i \<in> set stack \<Longrightarrow> map_of out i = None"
    "map_of revs p = Some rp \<Longrightarrow> map_of out p = None \<Longrightarrow> i \<in> set (ch_ids (rv_children rp)) \<Longrightarrow> map_of out i = None"
    "map_of revs i \<noteq> None \<Longrightarrow> map_of out i = None \<Longrightarrow>
       i \<in> set stack \<or> (\<exists>p rp. map_of revs p = Some rp \<and> map_of out p = None \<and> i \<in> set (ch_ids (rv_children rp)))"
    "distinct (keys revs) \<Longrightarrow> distinct (keys out)"
  using assms unfolding removal_def by blast+

lemma removal_pop:
  assumes "map_of revs n = Some r" "removal (AList.delete n revs) (rest @ ch_ids (rv_children r)) out"
  shows "removal revs (rest @ [n]) out"
proof -
  note R = removalD [OF assms(2)]
  have n: "map_of out n = None"
    using R(1) [of n] by (cases "map_of out n") (auto simp: map_of_delete_key)
  have "map_of out i = None"
    if "map_of revs p = Some rp" "map_of out p = None" "i \<in> set (ch_ids (rv_children rp))" for p rp i
    using that assms(1) R(2) [of i] R(3) [of p rp i] by (cases "p = n") (auto simp: map_of_delete_key)
  moreover have "i \<in> set (rest @ [n]) \<or> (\<exists>p rp. map_of revs p = Some rp \<and> map_of out p = None \<and>
      i \<in> set (ch_ids (rv_children rp)))" if i: "map_of revs i \<noteq> None" "map_of out i = None" for i
  proof (cases "i = n")
    case False
    then consider "i \<in> set rest" | "i \<in> set (ch_ids (rv_children r))"
      | p rp where "map_of (AList.delete n revs) p = Some rp" "map_of out p = None" "i \<in> set (ch_ids (rv_children rp))"
      using R(4) [of i] i by (auto simp: map_of_delete_key)
    then show ?thesis
    proof cases
      case 2
      with assms(1) n show ?thesis by blast
    next
      case 3
      then have "map_of revs p = Some rp" by (simp add: map_of_delete_key split: if_splits)
      with 3 show ?thesis by blast
    qed simp
  qed simp
  moreover have "map_of revs i = Some q" if "map_of out i = Some q" for i q
    using R(1) [OF that] by (simp add: map_of_delete_key split: if_splits)
  moreover have "\<forall>i \<in> set (rest @ [n]). map_of out i = None" using n R(2) by simp
  moreover have "distinct (keys revs) \<longrightarrow> distinct (keys out)" using R(5) by (simp add: distinct_delete)
  ultimately show ?thesis unfolding removal_def by blast
qed

lemma remove_stack_removal: "removal revs stack (remove_stack revs stack)"
proof (induction revs stack rule: remove_stack.induct)
  case (1 revs stack)
  consider (empty) "stack = []" | (gone) "stack \<noteq> []" "map_of revs (last stack) = None"
    | (found) rn where "stack \<noteq> []" "map_of revs (last stack) = Some rn"
    by (cases "map_of revs (last stack)") blast+
  then show ?case
  proof cases
    case empty
    then show ?thesis by (auto simp: remove_stack.simps removal_def)
  next
    case gone
    let ?out = "remove_stack revs (butlast stack)"
    have e: "remove_stack revs stack = ?out"
      using gone by (simp add: remove_stack.simps [of revs stack] Let_def)
    have st: "set stack = insert (last stack) (set (butlast stack))"
      using gone(1) by (metis append_butlast_last_id rotate1.simps(2) set_rotate1 list.simps(15))
    note R = removalD [OF "1.IH"(1) [OF gone(1) refl refl gone(2)]]
    have "map_of ?out (last stack) = None"
      using R(1) [of "last stack"] gone(2) by (cases "map_of ?out (last stack)") auto
    then have "\<forall>i \<in> set stack. map_of ?out i = None" using R(2) by (simp add: st)
    with R st show ?thesis unfolding removal_def e by blast
  next
    case found
    have e: "remove_stack revs stack =
        remove_stack (AList.delete (last stack) revs) (butlast stack @ ch_ids (rv_children rn))"
      using found by (simp add: remove_stack.simps [of revs stack] Let_def)
    show ?thesis
      using removal_pop [OF found(2) "1.IH"(2) [OF found(1) refl refl found(2)]] found(1) by (simp add: e)
  qed
qed

text \<open>The revisions under the root that lie on the current path.\<close>

lemma on_path_root_child:
  assumes "redo_follows h" "on_path h i" "history_parent h i = Some ROOT" "on_path h j"
    "history_parent h j = Some ROOT"
  shows "i = j"
proof -
  have "redo_child h ROOT = Some (Some i)" "redo_child h ROOT = Some (Some j)"
    using assms unfolding redo_follows_def by blast+
  then show ?thesis by simp
qed

lemma root_child_ok:
  assumes "tree_ok h" "on_path h i" "i \<noteq> ROOT"
  shows "\<exists>k. root_child (revisions h) i = Some k \<and> on_path h k \<and> history_parent h k = Some ROOT"
  using assms(2,3)
proof (induction i rule: less_induct)
  case (less i)
  have "rev_at h i \<noteq> None" using on_path_in [OF assms(1)] less by blast
  then obtain p where p: "history_parent h i = Some p"
    using tree_okD(6) [OF assms(1)] less.prems(2) by blast
  then obtain r where r: "map_of (revisions h) i = Some r" "rev_parent r = Some p"
    by (auto simp: history_parent_at rev_at_def)
  show ?case
  proof (cases "p = ROOT")
    case True
    then show ?thesis using r p less.prems by (auto simp: root_child.simps [of _ i])
  next
    case False
    have "on_path h p" "p < i" using on_path.up [OF less.prems(1) p] tree_okD(5) [OF assms(1) p] by simp_all
    from less.IH [OF this(2,1) False] show ?thesis using r False by (simp add: root_child.simps [of _ i])
  qed
qed

lemma on_path_root: "tree_ok h \<Longrightarrow> on_path h i \<Longrightarrow> on_path h ROOT"
proof (induction i rule: less_induct)
  case (less i)
  show ?case
  proof (cases "i = ROOT")
    case False
    then obtain p where p: "history_parent h i = Some p"
      using on_path_in [OF less.prems] tree_okD(6) [OF less.prems(1)] by blast
    show ?thesis
      using less.IH [of p] on_path.up [OF less.prems(2) p] tree_okD(5) [OF less.prems(1) p] less.prems(1) by blast
  qed (use less in simp)
qed

text \<open>A discarded branch leaves the tree as it was, less the branch.\<close>

lemma remove_subtree_ok:
  assumes "hist_ok h" "history_parent h victim = Some ROOT" "\<not> on_path h victim"
    "current h \<noteq> ROOT"
  obtains h' where "remove_subtree h victim = Some h'" "hist_ok h'" "current h' = current h"
    "next_id h' = next_id h" "undo_levels h' = undo_levels h"
    "redo_child h' (current h') = redo_child h (current h)"
    "\<And>i l. rev_link h' i = Some l \<Longrightarrow> rev_link h i = Some l"
proof -
  have ok: "tree_ok h" "redo_follows h" using assms(1) by (simp_all add: hist_ok_def)
  note D = tree_okD [OF ok(1)]
  obtain rr where rr: "rev_at h ROOT = Some rr" using D(2) by blast
  let ?rr = "rr\<lparr>rv_children := children_remove (rv_children rr) victim\<rparr>"
  define h1 where "h1 = put_rev h ROOT ?rr"
  define h' where "h' = h1\<lparr>revisions := remove_stack (revisions h1) [victim]\<rparr>"
  obtain rv where rv: "rev_at h victim = Some rv" "rev_parent rv = Some ROOT"
    using assms(2) by (auto simp: history_parent_at)
  have rem: "remove_subtree h victim = Some h'"
    using rv rr by (simp add: remove_subtree_def detach_def h'_def h1_def)
  have at1: "rev_at h1 i = (if i = ROOT then Some ?rr else rev_at h i)" for i by (simp add: h1_def)
  have par1: "history_parent h1 i = history_parent h i" for i
    using rr by (simp add: h1_def history_parent_def rev_parent_def)
  note R = removalD [OF remove_stack_removal [of "revisions h1" "[victim]"]]
  have f: "map_of (revisions h1) = rev_at h1" "map_of (remove_stack (revisions h1) [victim]) = rev_at h'"
    by (simp_all add: fun_eq_iff rev_at_def h'_def)
  note R = R [unfolded f]
  have vr: "victim \<noteq> ROOT" using D(5) [OF assms(2)] by simp
  have sub: "i \<in> set (ch_ids (rv_children r)) \<Longrightarrow> history_parent h i = Some p" if "rev_at h1 p = Some r" for i p r
    using that D(7) [of p] D(7) [OF rr] by (auto simp: at1 kids_ok_def children_ok_def children_remove_def Let_def split: if_splits)
  have gone: "i = victim \<or> (\<exists>p. history_parent h i = Some p \<and> rev_at h p \<noteq> None \<and> rev_at h' p = None)"
    if i: "rev_at h i \<noteq> None" "rev_at h' i = None" for i
  proof -
    have "rev_at h1 i \<noteq> None" using i(1) by (simp add: at1)
    from R(4) [OF this i(2)] sub D(5) show ?thesis by fastforce
  qed
  have root: "rev_at h' ROOT = Some ?rr"
    using gone [of ROOT] D(2,3) vr R(1) [of ROOT] by (cases "rev_at h' ROOT") (auto simp: at1)
  have keep: "rev_at h' i \<noteq> None" if "on_path h i" for i
    using that
  proof (induction i rule: less_induct)
    case (less i)
    show ?case
    proof
      assume n: "rev_at h' i = None"
      from gone [OF on_path_in [OF ok(1) less.prems] n] less.prems assms(3) obtain p where
        p: "history_parent h i = Some p" "rev_at h' p = None" by blast
      then show False using less.IH [of p] D(5) [OF p(1)] on_path.up [OF less.prems p(1)] by blast
    qed
  qed
  have at': "rev_at h' i = Some r \<Longrightarrow> rev_at h i = Some r" if "i \<noteq> ROOT" for i r
    using R(1) [of i r] that by (simp add: at1)
  have par': "history_parent h' i = (if rev_at h' i = None then None else history_parent h i)" for i
    using R(1) [of i] root rr by (cases "rev_at h' i") (auto simp: history_parent_def at1 rev_parent_def split: if_splits)
  have up: "rev_at h' p \<noteq> None" if "history_parent h' i = Some p" for i p
  proof
    assume n: "rev_at h' p = None"
    have i: "history_parent h i = Some p" "rev_at h' i \<noteq> None" using that par' by (auto split: if_splits)
    have "p \<noteq> ROOT" using n root by auto
    then obtain r where r: "rev_at h1 p = Some r" "rev_at h p = Some r" using D(5) [OF i(1)] by (auto simp: at1)
    then have "i \<in> set (ch_ids (rv_children r))" using D(7) [OF r(2)] i(1) by (simp add: kids_ok_def children_ok_def)
    from R(3) [OF r(1) n this] i(2) show False by simp
  qed
  have kids: "kids_ok h' i (rv_children r)" if r: "rev_at h' i = Some r" for i r
  proof (cases "i = ROOT")
    case True
    have "history_parent h' j = Some ROOT \<longleftrightarrow> history_parent h j = Some ROOT \<and> j \<noteq> victim" for j
    proof
      assume "history_parent h' j = Some ROOT"
      then show "history_parent h j = Some ROOT \<and> j \<noteq> victim" using par' [of j] R(2) [of victim] by (auto split: if_splits)
    next
      assume j: "history_parent h j = Some ROOT \<and> j \<noteq> victim"
      then have "rev_at h j \<noteq> None" using D(5) by blast
      from gone [OF this] j root have "rev_at h' j \<noteq> None" by auto
      then show "history_parent h' j = Some ROOT" using par' j by simp
    qed
    moreover have "r = ?rr" using r root True by simp
    ultimately have "{j. history_parent h' j = Some i} = {j. history_parent h j = Some ROOT} - {victim}"
      "r = ?rr" using True by auto
    then show ?thesis using D(7) [OF rr] children_remove_ok [of "rv_children rr" _ victim]
      by (simp add: kids_ok_def)
  next
    case False
    have "history_parent h' j = Some i \<longleftrightarrow> history_parent h j = Some i" for j
    proof
      assume j: "history_parent h j = Some i"
      then have "rev_at h j \<noteq> None" "j \<noteq> victim" using D(5) assms(2) False by auto
      with gone [of j] j r have "rev_at h' j \<noteq> None" by auto
      then show "history_parent h' j = Some i" using par' j by simp
    qed (use par' in \<open>auto split: if_splits\<close>)
    then show ?thesis using D(7) [OF at' [OF False r]] by (simp add: kids_ok_def)
  qed
  have cur: "current h' = current h" "next_id h' = next_id h" "undo_levels h' = undo_levels h"
    by (simp_all add: h'_def h1_def)
  have rl: "rv_link ?rr = None" using ok(1) rr by (auto simp: tree_ok_def)
  have links: "i < next_id h' \<and> (i \<noteq> ROOT \<longrightarrow> (\<exists>p. history_parent h' i = Some p \<and> p < i \<and> rev_at h' p \<noteq> None))"
    if i: "rev_at h' i \<noteq> None" for i
  proof (cases "i = ROOT")
    case True
    then show ?thesis using D(4) [OF D(2)] cur by simp
  next
    case False
    then have hi: "rev_at h i \<noteq> None" using at' i by blast
    obtain p where p: "history_parent h i = Some p" using D(6) [OF hi False] by blast
    then have "history_parent h' i = Some p" using par' i by simp
    then show ?thesis using up D(4) [OF hi] D(5) [OF p] cur by simp
  qed
  have "distinct (keys (revisions h'))"
    using R(5) D(1) by (simp add: h'_def h1_def put_rev_def)
  then have tree: "tree_ok h'"
    unfolding tree_ok_def using root rl links kids cur(1) keep [OF on_path.here] by auto
  have path: "on_path h i" if "on_path h' i" for i
    using that
  proof induction
    case here
    then show ?case using cur on_path.here [of h] by simp
  next
    case (up i p)
    then show ?case using par' [of i] on_path.up [of h i p] by (auto split: if_splits)
  qed
  have rc: "redo_child h' i = redo_child h i" if i: "on_path h i" for i
  proof (cases "i = ROOT")
    case True
    have "ch_redo (rv_children rr) \<noteq> Some victim"
    proof
      assume v: "ch_redo (rv_children rr) = Some victim"
      obtain k where k: "on_path h k" "history_parent h k = Some ROOT"
        using root_child_ok [OF ok(1) on_path.here assms(4)] by blast
      then have "redo_child h ROOT = Some (Some k)" using ok(2) by (auto simp: redo_follows_def)
      then show False using v rr k assms(3) by (simp add: redo_child_def)
    qed
    then show ?thesis using True root rr by (simp add: redo_child_def children_remove_def Let_def)
  next
    case False
    then show ?thesis using keep [OF i] at' [OF False] by (auto simp: redo_child_def)
  qed
  have "redo_follows h'"
    using ok(2) path rc par' on_path.up unfolding redo_follows_def by (metis option.distinct(1))
  with tree have "hist_ok h'" by (simp add: hist_ok_def)
  moreover have "rev_link h' i = Some l \<Longrightarrow> rev_link h i = Some l" for i l
    using at' [of i] root rl by (cases "i = ROOT") (auto simp: rev_link_def bind_eq_Some_conv)
  ultimately show ?thesis using that [of h'] rem cur rc [OF on_path.here] by simp
qed

section \<open>Promoting a revision into the root\<close>

definition under_root :: "revision \<Rightarrow> revision" where
  "under_root r = r\<lparr>rv_link := map_option (\<lambda>l. l\<lparr>lk_parent := ROOT\<rparr>) (rv_link r)\<rparr>"

lemma adopt_loop_ok:
  assumes "\<And>i. i \<in> set ids \<Longrightarrow> rev_link h i \<noteq> None" "distinct ids"
  shows "\<exists>h'. adopt_loop ids h = Some h' \<and>
    (\<forall>i. rev_at h' i = (if i \<in> set ids then map_option under_root (rev_at h i) else rev_at h i)) \<and>
    current h' = current h \<and> next_id h' = next_id h \<and> undo_levels h' = undo_levels h \<and>
    keys (revisions h') = keys (revisions h)"
  using assms
proof (induction ids arbitrary: h)
  case (Cons c ids)
  obtain r l where r: "rev_at h c = Some r" "rv_link r = Some l"
    using Cons.prems(1) [of c] by (auto simp: rev_link_def bind_eq_Some_conv)
  let ?h = "put_rev h c (under_root r)"
  have c: "c \<notin> set ids" "distinct ids" using Cons.prems(2) by auto
  have ne: "rev_link ?h i \<noteq> None" if "i \<in> set ids" for i
    using that Cons.prems(1) [of i] c by (auto simp: rev_link_def)
  from Cons.IH [OF ne c(2)] obtain h' where h': "adopt_loop ids ?h = Some h'"
    "\<And>i. rev_at h' i = (if i \<in> set ids then map_option under_root (rev_at ?h i) else rev_at ?h i)"
    "current h' = current ?h" "next_id h' = next_id ?h" "undo_levels h' = undo_levels ?h"
    "keys (revisions h') = keys (revisions ?h)" by blast
  have "c \<in> set (keys (revisions h))" using r(1) by (simp add: rev_at_def set_keys domI)
  then have "keys (revisions ?h) = keys (revisions h)"
    using update_keys [of c "under_root r" "revisions h"] by (simp add: put_rev_def keys_def)
  moreover have "adopt_loop (c # ids) h = Some h'" using r h'(1) by (simp add: under_root_def)
  ultimately show ?case using r c h'(2-) by auto
qed simp

lemma history_parent_map: "history_parent h i = map_option lk_parent (rev_link h i)"
  by (cases "rev_at h i") (simp_all add: history_parent_def rev_link_def rev_parent_def)

lemma rev_at_deleted [simp]:
  "rev_at (h\<lparr>revisions := AList.delete c (revisions h)\<rparr>) i = (if i = c then None else rev_at h i)"
  by (simp add: rev_at_def map_of_delete_key)

text \<open>The promoted revision's children hang on the root, which takes its place.\<close>

lemma promote_ok:
  assumes "hist_ok h" "{j. history_parent h j = Some ROOT} = {c}" "current h \<noteq> c" "current h \<noteq> ROOT"
  obtains h' where "promote h c = Some h'" "hist_ok h'" "current h' = current h"
    "next_id h' = next_id h" "undo_levels h' = undo_levels h"
    "redo_child h' (current h') = redo_child h (current h)"
    "\<And>i. rev_link h' i = (if i = c then None else map_option
       (\<lambda>l. if lk_parent l = c then l\<lparr>lk_parent := ROOT\<rparr> else l) (rev_link h i))"
proof -
  have ok: "tree_ok h" "redo_follows h" using assms(1) by (simp_all add: hist_ok_def)
  note D = tree_okD [OF ok(1)]
  have cp: "history_parent h c = Some ROOT" using assms(2) by blast
  note c = D(5) [OF cp]
  obtain rc where rc: "rev_at h c = Some rc" using c by blast
  obtain rr where rr: "rev_at h ROOT = Some rr" "rv_link rr = None" using ok(1) by (auto simp: tree_ok_def)
  let ?ids = "ch_ids (rv_children rc)"
  have ids: "set ?ids = {j. history_parent h j = Some c}" "distinct ?ids"
    using D(7) [OF rc] by (simp_all add: kids_ok_def children_ok_def)
  let ?d = "h\<lparr>revisions := AList.delete c (revisions h)\<rparr>"
  have nl: "rev_link ?d i \<noteq> None" if "i \<in> set ?ids" for i
  proof -
    have p: "history_parent h i = Some c" using that ids by simp
    then have "i \<noteq> c" using D(5) [OF p] by auto
    then show ?thesis using p by (auto simp: rev_link_def history_parent_link)
  qed
  obtain h2 where h2: "adopt_loop ?ids ?d = Some h2"
    "\<And>i. rev_at h2 i = (if i \<in> set ?ids then map_option under_root (rev_at ?d i) else rev_at ?d i)"
    "current h2 = current ?d" "next_id h2 = next_id ?d" "undo_levels h2 = undo_levels ?d"
    "keys (revisions h2) = keys (revisions ?d)"
    using adopt_loop_ok [OF nl ids(2)] by blast
  have root_ids: "ROOT \<notin> set ?ids" using ids D(3) by simp
  have "rev_at h2 ROOT = Some rr" using h2(2) [of ROOT] rr root_ids c by auto
  moreover define h' where "h' = put_rev h2 ROOT (rr\<lparr>rv_children := rv_children rc, rv_time := rv_time rc\<rparr>)"
  ultimately have pr: "promote h c = Some h'" using rc h2(1) by (simp add: promote_def Let_def)
  have at: "rev_at h' i = (if i = ROOT then Some (rr\<lparr>rv_children := rv_children rc, rv_time := rv_time rc\<rparr>)
      else if i = c then None else if i \<in> set ?ids then map_option under_root (rev_at h i) else rev_at h i)" for i
    by (simp add: h'_def h2(2))
  have link: "rev_link h' i = (if i = c then None else map_option
       (\<lambda>l. if lk_parent l = c then l\<lparr>lk_parent := ROOT\<rparr> else l) (rev_link h i))" for i
  proof -
    have "i \<in> set ?ids \<longleftrightarrow> (\<exists>l. rev_link h i = Some l \<and> lk_parent l = c)"
      using ids(1) by (simp add: history_parent_link)
    then show ?thesis using rr
      by (cases "rev_at h i"; cases "rev_link h i") (auto simp: rev_link_def at under_root_def)
  qed
  have par: "history_parent h' i = (if i = c then None else if history_parent h i = Some c then Some ROOT
      else history_parent h i)" for i
    using link [of i] by (cases "rev_link h i") (auto simp: history_parent_map)
  have cur: "current h' = current h" "next_id h' = next_id h" "undo_levels h' = undo_levels h"
    using h2 by (simp_all add: h'_def)
  have here: "rev_at h' i \<noteq> None \<longleftrightarrow> rev_at h i \<noteq> None \<and> i \<noteq> c" for i using rr c by (auto simp: at)
  have kids: "kids_ok h' i (rv_children r)" if r: "rev_at h' i = Some r" for i r
  proof (cases "i = ROOT")
    case True
    have "{j. history_parent h' j = Some ROOT} = {j. history_parent h j = Some c}"
      using assms(2) c D(5) [of c c] by (auto simp: par split: if_splits)
    then show ?thesis using D(7) [OF rc] r True by (auto simp: kids_ok_def at)
  next
    case False
    then have "i \<noteq> c" using r here [of i] by auto
    then have "{j. history_parent h' j = Some i} = {j. history_parent h j = Some i}"
      using False cp by (auto simp: par split: if_splits)
    moreover obtain r0 where "rev_at h i = Some r0" "rv_children r = rv_children r0"
      using r False \<open>i \<noteq> c\<close> by (auto simp: at under_root_def split: if_splits)
    ultimately show ?thesis using D(7) [of i r0] by (simp add: kids_ok_def)
  qed
  have links: "i < next_id h' \<and> (i \<noteq> ROOT \<longrightarrow> (\<exists>p. history_parent h' i = Some p \<and> p < i \<and> rev_at h' p \<noteq> None))"
    if i: "rev_at h' i \<noteq> None" for i
  proof (cases "i = ROOT")
    case True
    then show ?thesis using D(4) [OF D(2)] cur by simp
  next
    case False
    have hi: "rev_at h i \<noteq> None" "i \<noteq> c" using i here by simp_all
    obtain p where p: "history_parent h i = Some p" using D(6) [OF hi(1) False] by blast
    have "ROOT < i" using False by (simp add: ROOT_def)
    then show ?thesis using par [of i] p hi D(4) [OF hi(1)] D(5) [OF p] here cur rr c
      by (cases "p = c") auto
  qed
  have "distinct (keys (revisions h'))"
    using D(1) h2(6) by (simp add: h'_def put_rev_def distinct_delete)
  then have tree: "tree_ok h'"
    unfolding tree_ok_def using links kids cur(1) rr here [of "current h"] D(8) assms(3) by (simp add: at)
  have path: "on_path h i \<and> i \<noteq> c" if "on_path h' i" for i
    using that
  proof induction
    case here
    then show ?case using cur assms(3) on_path.here [of h] by simp
  next
    case (up i p)
    show ?case
    proof (cases "history_parent h i = Some c")
      case True
      then have "p = ROOT" using up par [of i] by simp
      then show ?thesis using on_path_root [OF ok(1) on_path.here] c by simp
    next
      case False
      then show ?thesis using up par [of i] on_path.up [of h i p] by auto
    qed
  qed
  have rd: "redo_child h' i = (if i = ROOT then redo_child h c else redo_child h i)" if "i \<noteq> c" for i
    using that rc c by (cases "rev_at h i") (auto simp: redo_child_def at under_root_def)
  have "redo_child h' p = Some (Some i)" if i: "on_path h' i" "history_parent h' i = Some p" for i p
  proof (cases "history_parent h i = Some c")
    case True
    then show ?thesis using i path [OF i(1)] par [of i] rd [of ROOT] c ok(2) by (auto simp: redo_follows_def)
  next
    case False
    have j: "i \<noteq> c" "history_parent h i = Some p" using i False path [OF i(1)] par [of i] by auto
    then have "p \<noteq> ROOT" using assms(2) by auto
    moreover have "p \<noteq> c" using j(2) False by auto
    ultimately show ?thesis using rd [of p] j path [OF i(1)] ok(2) by (simp add: redo_follows_def)
  qed
  then have "hist_ok h'" using tree by (simp add: hist_ok_def redo_follows_def)
  then show ?thesis using that [of h'] pr cur link rd assms(3,4) by simp
qed

section \<open>The texts of the revisions\<close>

text \<open>A transaction that leads from one text to another, where its selections fit; a link carries
  one in each direction, and a tree's texts are read off an assignment its links agree with.\<close>

definition tx_makes :: "segmentation \<Rightarrow> transaction \<Rightarrow> ustring \<Rightarrow> ustring \<Rightarrow> bool" where
  "tx_makes B tx t t' \<longleftrightarrow>
     wf_cs (tx_changes tx) \<and> inserts_cr_free (tx_changes tx) \<and> set_ok (tx_selection tx) \<and>
     len_before (tx_changes tx) = length t \<and> emit (ops (tx_changes tx)) t = t' \<and>
     (\<exists>s. state_ok B s \<and> rope (es_text s) = t' \<and> es_sels s = tx_selection tx)"

definition texts_ok :: "segmentation \<Rightarrow> history \<Rightarrow> (revision_id \<Rightarrow> ustring) \<Rightarrow> bool" where
  "texts_ok B h T = (\<forall>i l. rev_link h i = Some l \<longrightarrow>
     tx_makes B (lk_inverse l) (T i) (T (lk_parent l)) \<and> tx_makes B (lk_forward l) (T (lk_parent l)) (T i))"

definition promoted_texts :: "(revision_id \<Rightarrow> ustring) \<Rightarrow> revision_id option \<Rightarrow> revision_id \<Rightarrow> ustring" where
  "promoted_texts T p = (case p of None \<Rightarrow> T | Some c \<Rightarrow> T(ROOT := T c))"

lemma texts_ok_fewer:
  assumes "texts_ok B h T" "\<And>i l. rev_link h' i = Some l \<Longrightarrow> rev_link h i = Some l"
  shows "texts_ok B h' T"
  using assms unfolding texts_ok_def by blast

section \<open>Trimming\<close>

definition trimmable :: "history \<Rightarrow> bool" where
  "trimmable h \<longleftrightarrow> hist_ok h \<and> current h \<noteq> ROOT \<and> redo_child h (current h) = Some None"

lemma two_revisions:
  assumes "tree_ok h" "{j. history_parent h j = Some ROOT} = {c}" "redo_child h c = Some None"
  shows "length (revisions h) \<le> 2"
proof -
  note D = tree_okD [OF assms(1)]
  obtain rc where rc: "rev_at h c = Some rc" "ch_redo (rv_children rc) = None"
    using assms(3) by (auto simp: redo_child_def bind_eq_Some_conv)
  have leaf: "history_parent h j \<noteq> Some c" for j
    using D(7) [OF rc(1)] rc(2) by (auto simp: kids_ok_def children_ok_def)
  have "i \<in> {ROOT, c}" if "rev_at h i \<noteq> None" for i
    using that
  proof (induction i rule: less_induct)
    case (less i)
    show ?case
    proof (cases "i = ROOT")
      case False
      then obtain p where p: "history_parent h i = Some p" using D(6) [OF less.prems] by blast
      from less.IH [of p] D(5) [OF p] leaf [of i] p have "p = ROOT" by auto
      then show ?thesis using p assms(2) by auto
    qed simp
  qed
  then have "set (keys (revisions h)) \<subseteq> {ROOT, c}" by (auto simp: set_keys rev_at_def)
  then have "card (set (keys (revisions h))) \<le> card {ROOT, c}" by (intro card_mono) simp_all
  also have "\<dots> \<le> 2" by (simp add: card_insert_if)
  finally show ?thesis using distinct_card [OF D(1)] by (simp add: keys_def)
qed

lemma find_other:
  assumes "length xs > 1" "distinct xs"
  obtains v where "find (\<lambda>c. c \<noteq> k) xs = Some v" "v \<in> set xs" "v \<noteq> k"
proof -
  have "\<not> set xs \<subseteq> {k}"
    using card_mono [of "{k}" "set xs"] distinct_card [OF assms(2)] assms(1) by auto
  then obtain v where "find (\<lambda>c. c \<noteq> k) xs = Some v"
    by (cases "find (\<lambda>c. c \<noteq> k) xs") (auto simp: find_None_iff)
  moreover from this have "v \<in> set xs" "v \<noteq> k" by (auto simp: find_Some_iff)
  ultimately show ?thesis using that by blast
qed

lemma enforce_step_ok:
  assumes "trimmable h" "length (revisions h) - 1 > undo_levels h" "undo_levels h \<noteq> 0"
  obtains h' p where "enforce_step h = Some (h', p)" "trimmable h'" "current h' = current h"
    "next_id h' = next_id h" "undo_levels h' = undo_levels h"
    "\<And>i. rev_link h' i \<noteq> None \<Longrightarrow> rev_link h i \<noteq> None"
    "p \<noteq> Some ROOT" "p \<noteq> Some (current h)" "\<And>T. texts_ok B h T \<Longrightarrow> texts_ok B h' (promoted_texts T p)"
proof -
  have t: "hist_ok h" "tree_ok h" "redo_follows h" "current h \<noteq> ROOT" "redo_child h (current h) = Some None"
    using assms(1) by (simp_all add: trimmable_def hist_ok_def)
  note D = tree_okD [OF t(2)]
  obtain rr where rr: "rev_at h ROOT = Some rr" using D(2) by blast
  let ?ids = "ch_ids (rv_children rr)"
  have ids: "set ?ids = {j. history_parent h j = Some ROOT}" "distinct ?ids"
    using D(7) [OF rr] by (simp_all add: kids_ok_def children_ok_def)
  obtain k where k: "root_child (revisions h) (current h) = Some k" "on_path h k" "history_parent h k = Some ROOT"
    using root_child_ok [OF t(2) on_path.here t(4)] by blast
  show ?thesis
  proof (cases "length ?ids > 1")
    case True
    obtain v where v: "find (\<lambda>c. c \<noteq> k) ?ids = Some v" "v \<in> set ?ids" "v \<noteq> k"
      by (rule find_other [OF True ids(2)])
    have vp: "history_parent h v = Some ROOT" "\<not> on_path h v"
      using v(2,3) ids(1) on_path_root_child [OF t(3) k(2,3), of v] by auto
    obtain h' where h': "remove_subtree h v = Some h'" "hist_ok h'" "current h' = current h"
      "next_id h' = next_id h" "undo_levels h' = undo_levels h"
      "redo_child h' (current h') = redo_child h (current h)"
      "\<And>i l. rev_link h' i = Some l \<Longrightarrow> rev_link h i = Some l"
      by (rule remove_subtree_ok [OF t(1) vp t(4)]) blast
    have "enforce_step h = Some (h', None)"
      using rr True k(1) v(1) h'(1) by (simp add: enforce_step_def Let_def)
    moreover have "trimmable h'" using h' t by (simp add: trimmable_def)
    moreover have "rev_link h' i \<noteq> None \<Longrightarrow> rev_link h i \<noteq> None" for i using h'(7) [of i] by auto
    moreover have "texts_ok B h T \<Longrightarrow> texts_ok B h' (promoted_texts T None)" for T
      using texts_ok_fewer [OF _ h'(7)] by (simp add: promoted_texts_def)
    ultimately show ?thesis using that [of h' None] h'(3-5) by blast
  next
    case False
    have "k \<in> set ?ids" using ids(1) k(3) by simp
    then have one: "?ids = [k]" using False by (cases ?ids) auto
    then have kk: "{j. history_parent h j = Some ROOT} = {k}" using ids(1) by simp
    have "current h \<noteq> k"
    proof
      assume "current h = k"
      then have "length (revisions h) \<le> 2" using two_revisions [OF t(2) kk] t(5) by simp
      then show False using assms(2,3) by simp
    qed
    then obtain h' where h': "promote h k = Some h'" "hist_ok h'" "current h' = current h"
      "next_id h' = next_id h" "undo_levels h' = undo_levels h"
      "redo_child h' (current h') = redo_child h (current h)"
      "\<And>i. rev_link h' i = (if i = k then None else map_option
         (\<lambda>l. if lk_parent l = k then l\<lparr>lk_parent := ROOT\<rparr> else l) (rev_link h i))"
      by (rule_tac promote_ok [OF t(1) kk _ t(4)]) blast+
    have "enforce_step h = Some (h', Some k)"
      using rr one h'(1) by (simp add: enforce_step_def Let_def)
    moreover have "trimmable h'" using h' t by (simp add: trimmable_def)
    moreover have "rev_link h' i \<noteq> None \<Longrightarrow> rev_link h i \<noteq> None" for i using h'(7) [of i] by (auto split: if_splits)
    moreover have "texts_ok B h' (promoted_texts T (Some k))" if T: "texts_ok B h T" for T
      unfolding texts_ok_def
    proof (intro allI impI)
      fix i l' assume l': "rev_link h' i = Some l'"
      then obtain l where l: "rev_link h i = Some l" "i \<noteq> k"
        "l' = (if lk_parent l = k then l\<lparr>lk_parent := ROOT\<rparr> else l)"
        using h'(7) [of i] by (cases "i = k"; cases "rev_link h i") (simp_all split del: if_split)
      have pi: "history_parent h i = Some (lk_parent l)" using l(1) by (simp add: history_parent_map)
      have "i \<in> {j. history_parent h j = Some ROOT} \<longleftrightarrow> i = k" by (simp add: kk)
      then have "lk_parent l \<noteq> ROOT" using l(2) pi by auto
      moreover have "i \<noteq> ROOT" using D(5) [OF pi] by simp
      ultimately show "tx_makes B (lk_inverse l') (promoted_texts T (Some k) i) (promoted_texts T (Some k) (lk_parent l')) \<and>
          tx_makes B (lk_forward l') (promoted_texts T (Some k) (lk_parent l')) (promoted_texts T (Some k) i)"
        using T l unfolding texts_ok_def by (auto simp: promoted_texts_def)
    qed
    moreover have "k \<noteq> ROOT" using D(5) [OF k(3)] by simp
    moreover note \<open>current h \<noteq> k\<close>
    ultimately show ?thesis using that [of h' "Some k"] h'(3-5) by blast
  qed
qed

lemma enforce_loop_ok:
  assumes "trimmable h" "undo_levels h \<noteq> 0" "q \<noteq> Some ROOT" "q \<noteq> Some (current h)"
  shows "\<exists>h' p. enforce_loop h q = Some (h', p) \<and> trimmable h' \<and> current h' = current h \<and>
    next_id h' = next_id h \<and> undo_levels h' = undo_levels h \<and> length (revisions h') - 1 \<le> undo_levels h \<and>
    (\<forall>i. rev_link h' i \<noteq> None \<longrightarrow> rev_link h i \<noteq> None) \<and> p \<noteq> Some ROOT \<and> p \<noteq> Some (current h) \<and>
    (\<forall>T. texts_ok B h (promoted_texts T q) \<longrightarrow> texts_ok B h' (promoted_texts T p))"
  using assms
proof (induction h q rule: enforce_loop.induct)
  case (1 h q)
  show ?case
  proof (cases "length (revisions h) - 1 > undo_levels h")
    case False
    then show ?thesis using 1 by (simp add: enforce_loop.simps [of h q])
  next
    case True
    obtain h1 p1 where s: "enforce_step h = Some (h1, p1)" "trimmable h1" "current h1 = current h"
      "next_id h1 = next_id h" "undo_levels h1 = undo_levels h"
      "\<And>i. rev_link h1 i \<noteq> None \<Longrightarrow> rev_link h i \<noteq> None"
      "p1 \<noteq> Some ROOT" "p1 \<noteq> Some (current h)" "\<And>T. texts_ok B h T \<Longrightarrow> texts_ok B h1 (promoted_texts T p1)"
      by (rule enforce_step_ok [OF "1.prems"(1) True "1.prems"(2), where B = B]) blast
    let ?q = "case p1 of None \<Rightarrow> q | Some _ \<Rightarrow> p1"
    have q: "?q \<noteq> Some ROOT" "?q \<noteq> Some (current h1)"
      using s(3,7,8) "1.prems"(3,4) by (cases p1; simp)+
    have T: "texts_ok B h1 (promoted_texts T ?q)" if "texts_ok B h (promoted_texts T q)" for T
      using s(9) [OF that] s(7) "1.prems"(3) by (auto simp: promoted_texts_def split: option.splits)
    have "enforce_loop h q = enforce_loop h1 ?q"
      using True s(1) by (simp add: enforce_loop.simps [of h q])
    moreover have u: "undo_levels h1 \<noteq> 0" using s(5) "1.prems"(2) by simp
    from "1.IH" [OF True s(1) refl s(2) u q] show ?thesis
      unfolding calculation using s(3-6) T by (auto; blast)
  qed
qed

section \<open>Recording an edit\<close>

lemma promoted_texts_None: "promoted_texts T None = T"
  by (simp add: promoted_texts_def)

lemma invert_makes:
  assumes "wf_cs cs" "inserts_cr_free cs" "buffer_ok text" "len_before cs = len_chars text"
  obtains icv where "invert_cs cs text = Some icv" "wf_cs icv" "inserts_cr_free icv"
    "len_before icv = length (emit (ops cs) (rope text))" "len_after icv = len_chars text"
    "emit (ops icv) (emit (ops cs) (rope text)) = rope text"
proof -
  let ?icv = "\<lparr>ops = inv_ops (ops cs) (rope text), len_before = len_after cs, len_after = len_before cs\<rparr>"
  have c: "consumed (ops cs) = length (rope text)"
    using assms(1,4) by (simp add: wf_cs_def len_chars_def)
  have free: "CR \<notin> set s" if "Insert s \<in> set (inv_ops os t)" "CR \<notin> set t" for s os t
    using that
    by (induction os t rule: inv_ops.induct) (auto dest: in_set_takeD in_set_dropD)
  show ?thesis
  proof (rule that [of ?icv])
    show "invert_cs cs text = Some ?icv" using invert_cs_eq assms(1,4) by simp
    show "wf_cs ?icv" using wf_cs_inv_ops [OF assms(1), of "rope text"] assms(4) by (simp add: len_chars_def)
    show "inserts_cr_free ?icv"
      using free assms(3) by (auto simp: inserts_cr_free_def buffer_ok_def is_cr_free_def)
    show "len_before ?icv = length (emit (ops cs) (rope text))"
      using emit_len [OF assms(1), of "rope text"] assms(4) by (simp add: len_chars_def)
    show "emit (ops ?icv) (emit (ops cs) (rope text)) = rope text"
      using emit_inv_ops [of "ops cs" "rope text"] c by simp
  qed (use assms(4) in simp)
qed

lemma edited_makes:
  assumes "state_ok B s" "edited_ok B (es_text s) e"
  obtains icv where "invert_cs (ed_changes e) (es_text s) = Some icv"
    "tx_makes B \<lparr>tx_changes = icv, tx_selection = es_sels s\<rparr> (rope (es_text (ed_state e))) (rope (es_text s))"
    "tx_makes B \<lparr>tx_changes = ed_changes e, tx_selection = es_sels (ed_state e)\<rparr>
       (rope (es_text s)) (rope (es_text (ed_state e)))"
proof -
  have e: "wf_cs (ed_changes e)" "inserts_cr_free (ed_changes e)" "len_before (ed_changes e) = len_chars (es_text s)"
    "rope (es_text (ed_state e)) = emit (ops (ed_changes e)) (rope (es_text s))" "state_ok B (ed_state e)"
    using assms(2) by (simp_all add: edited_ok_def)
  have b: "buffer_ok (es_text s)" "set_ok (es_sels s)" "set_ok (es_sels (ed_state e))"
    using assms(1) e(5) by (simp_all add: state_ok_def)
  obtain icv where icv: "invert_cs (ed_changes e) (es_text s) = Some icv" "wf_cs icv" "inserts_cr_free icv"
    "len_before icv = length (rope (es_text (ed_state e)))"
    "emit (ops icv) (rope (es_text (ed_state e))) = rope (es_text s)"
    by (rule invert_makes [OF e(1,2) b(1) e(3)]) (simp add: e(4))
  have st: "\<exists>s'. state_ok B s' \<and> rope (es_text s') = rope (es_text x) \<and> es_sels s' = es_sels x"
    if "state_ok B x" for x using that by blast
  show ?thesis
    by (rule that [OF icv(1)])
      (use e icv(2-) b st [OF assms(1)] st [OF e(5)] in \<open>simp_all add: tx_makes_def len_chars_def\<close>)
qed

lemma record_edit_grown:
  assumes "rev_at h (current h) \<noteq> None" "invert_cs cs text = Some icv"
  shows "record_edit h owner cs text pre post now = enforce_undo_levels (grown h
    \<lparr>rv_link = Some \<lparr>lk_parent = current h, lk_inverse = \<lparr>tx_changes = icv, tx_selection = pre\<rparr>,
       lk_forward = \<lparr>tx_changes = cs, tx_selection = post\<rparr>\<rparr>,
     rv_owner = (case owner of None \<Rightarrow> Nobody | Some pane \<Rightarrow> OwnedBy pane),
     rv_children = children_default, rv_time = now\<rparr>)"
  using assms by (auto simp: record_edit_def grown_def Let_def)

lemma texts_ok_grown:
  assumes "hist_ok h" "texts_ok B h T" "rv_children r = children_default" "rev_parent r = Some (current h)"
    and "\<And>l. rv_link r = Some l \<Longrightarrow>
      tx_makes B (lk_inverse l) t (T (current h)) \<and> tx_makes B (lk_forward l) (T (current h)) t"
  shows "texts_ok B (grown h r) (T(next_id h := t))"
proof -
  note D = tree_okD [OF conjunct1 [OF assms(1) [unfolded hist_ok_def]]]
  have c: "current h \<noteq> next_id h" using D(4) [OF D(8)] by simp
  have "tx_makes B (lk_inverse l) ((T(next_id h := t)) i) ((T(next_id h := t)) (lk_parent l)) \<and>
      tx_makes B (lk_forward l) ((T(next_id h := t)) (lk_parent l)) ((T(next_id h := t)) i)"
    if l: "rev_link (grown h r) i = Some l" for i l
  proof (cases "i = next_id h")
    case True
    then have "rv_link r = Some l" using l grown_ok(6) [OF assms(1,3,4)] by simp
    moreover from this have "lk_parent l = current h" using assms(4) by (simp add: rev_parent_def)
    ultimately show ?thesis using assms(5) True c by simp
  next
    case False
    then have h: "rev_link h i = Some l" using l grown_ok(6) [OF assms(1,3,4)] by simp
    then have "history_parent h i = Some (lk_parent l)" by (simp add: history_parent_map)
    from D(5) [OF this] D(4) [of "lk_parent l"] have "lk_parent l \<noteq> next_id h" by auto
    then show ?thesis using False h assms(2) by (simp add: texts_ok_def)
  qed
  then show ?thesis by (simp add: texts_ok_def)
qed

lemma record_edit_ok:
  assumes "hist_ok h" "texts_ok B h T" "state_ok B s" "T (current h) = rope (es_text s)"
    and "edited_ok B (es_text s) e"
  obtains h' p where
    "record_edit h owner (ed_changes e) (es_text s) (es_sels s) (es_sels (ed_state e)) now = Some (h', p)"
    "hist_ok h'" "current h' = next_id h" "current h' \<noteq> ROOT" "undo_levels h' = undo_levels h"
    "undo_levels h \<noteq> 0 \<Longrightarrow> length (revisions h') - 1 \<le> undo_levels h"
    "texts_ok B h' (promoted_texts (T(next_id h := rope (es_text (ed_state e)))) p)"
    "p \<noteq> Some ROOT" "p \<noteq> Some (next_id h)"
    "\<And>i. rev_link h' i \<noteq> None \<Longrightarrow> i = next_id h \<or> rev_link h i \<noteq> None"
proof -
  note D = tree_okD [OF conjunct1 [OF assms(1) [unfolded hist_ok_def]]]
  obtain icv where icv: "invert_cs (ed_changes e) (es_text s) = Some icv"
    "tx_makes B \<lparr>tx_changes = icv, tx_selection = es_sels s\<rparr> (rope (es_text (ed_state e))) (rope (es_text s))"
    "tx_makes B \<lparr>tx_changes = ed_changes e, tx_selection = es_sels (ed_state e)\<rparr>
       (rope (es_text s)) (rope (es_text (ed_state e)))"
    by (rule edited_makes [OF assms(3,5)])
  define r where "r = \<lparr>rv_link = Some \<lparr>lk_parent = current h,
       lk_inverse = \<lparr>tx_changes = icv, tx_selection = es_sels s\<rparr>,
       lk_forward = \<lparr>tx_changes = ed_changes e, tx_selection = es_sels (ed_state e)\<rparr>\<rparr>,
     rv_owner = (case owner of None \<Rightarrow> Nobody | Some pane \<Rightarrow> OwnedBy pane),
     rv_children = children_default, rv_time = now\<rparr>"
  have rec: "record_edit h owner (ed_changes e) (es_text s) (es_sels s) (es_sels (ed_state e)) now =
      enforce_undo_levels (grown h r)"
    using record_edit_grown [OF D(8) icv(1)] by (simp add: r_def)
  have r: "rv_children r = children_default" "rev_parent r = Some (current h)"
    by (simp_all add: r_def rev_parent_def)
  note g = grown_ok [OF assms(1) r]
  have tg: "texts_ok B (grown h r) (T(next_id h := rope (es_text (ed_state e))))"
    by (rule texts_ok_grown [OF assms(1,2) r]) (use icv(2,3) assms(4) in \<open>simp_all add: r_def\<close>)
  have link: "i = next_id h \<or> rev_link h i \<noteq> None" if "rev_link (grown h r) i \<noteq> None" for i
    using that g(6) [of i] by (simp split: if_splits)
  show ?thesis
  proof (cases "undo_levels h = 0")
    case True
    then show ?thesis
      using that [of "grown h r" None] rec g tg link by (simp add: enforce_undo_levels_def promoted_texts_def)
  next
    case False
    have t: "trimmable (grown h r)" using g by (simp add: trimmable_def)
    have "undo_levels (grown h r) \<noteq> 0" using False g(3) by simp
    from enforce_loop_ok [where B = B and q = None, OF t this] obtain h' p where
      l: "enforce_loop (grown h r) None = Some (h', p)" "trimmable h'" "current h' = current (grown h r)"
        "undo_levels h' = undo_levels (grown h r)" "length (revisions h') - 1 \<le> undo_levels (grown h r)"
        "\<And>i. rev_link h' i \<noteq> None \<Longrightarrow> rev_link (grown h r) i \<noteq> None"
        "p \<noteq> Some ROOT" "p \<noteq> Some (current (grown h r))"
        "\<And>T. texts_ok B (grown h r) T \<Longrightarrow> texts_ok B h' (promoted_texts T p)"
      by (auto simp: promoted_texts_None)
    then show ?thesis
      using that [of h' p] rec g(2,3) tg link False
      by (simp add: enforce_undo_levels_def trimmable_def)
  qed
qed

section \<open>Walking\<close>

lemma on_path_same:
  assumes "on_path h i" "current g = current h" "\<And>j. history_parent g j = history_parent h j"
  shows "on_path g i"
  using assms(1)
proof induction
  case here
  show ?case using on_path.here [of g] assms(2) by simp
next
  case (up i p)
  then show ?case using on_path.up [of g i p] assms(3) by simp
qed

lemma hist_ok_same:
  assumes "hist_ok h" "revisions g = revisions h" "current g = current h" "next_id g = next_id h"
  shows "hist_ok g"
proof -
  have at: "rev_at g = rev_at h" using assms(2) by (simp add: fun_eq_iff rev_at_def)
  then have par: "history_parent g = history_parent h" by (simp add: fun_eq_iff history_parent_def)
  have "on_path g i \<Longrightarrow> on_path h i" for i using on_path_same [of g i h] assms(3) par by simp
  then show ?thesis
    using assms at par by (auto simp: hist_ok_def tree_ok_def redo_follows_def kids_ok_def redo_child_def)
qed

lemma hist_ok_at_seq:
  "hist_ok (set_current (set_current h i) j) \<longleftrightarrow> hist_ok (set_current h j)"
  using hist_ok_same [of "set_current h j" "set_current (set_current h i) j"]
    hist_ok_same [of "set_current (set_current h i) j" "set_current h j"]
  by (auto simp: set_current_def)

lemma hist_ok_here: "hist_ok h \<Longrightarrow> hist_ok (set_current h (current h))"
  using hist_ok_same [of h "set_current h (current h)"] by (simp add: set_current_def)

lemma tree_ok_at: "tree_ok h \<Longrightarrow> rev_at h i \<noteq> None \<Longrightarrow> tree_ok (set_current h i)"
  by (simp add: tree_ok_def kids_ok_def)

text \<open>Stepping up to an ancestor.\<close>

lemma hist_ok_up:
  assumes "hist_ok h" "on_path h i"
  shows "hist_ok (set_current h i)"
proof -
  have sub: "on_path h j" if "on_path (set_current h i) j" for j
    using that
  proof induction
    case here
    then show ?case using assms(2) by simp
  next
    case (up j p)
    then show ?case using on_path.up [of h j p] by simp
  qed
  have "tree_ok h" "redo_follows h" using assms(1) by (simp_all add: hist_ok_def)
  then show ?thesis
    using tree_ok_at on_path_in [of h i] assms(2) sub
    by (auto simp: hist_ok_def redo_follows_def redo_child_def)
qed

text \<open>Stepping down to a child, which redo then names.\<close>

lemma hist_ok_down:
  assumes "hist_ok (set_current h a)" "history_parent h x = Some a" "rev_at h a = Some r"
  shows "children_set_redo (rv_children r) x = Some ((rv_children r)\<lparr>ch_redo := Some x\<rparr>)"
    "hist_ok (set_current (put_rev h a (r\<lparr>rv_children := (rv_children r)\<lparr>ch_redo := Some x\<rparr>\<rparr>)) x)"
proof -
  let ?s = "set_current h a" and ?r = "r\<lparr>rv_children := (rv_children r)\<lparr>ch_redo := Some x\<rparr>\<rparr>"
  let ?g = "set_current (put_rev h a ?r) x"
  have ok: "tree_ok ?s" "redo_follows ?s" using assms(1) by (simp_all add: hist_ok_def)
  note D = tree_okD [OF ok(1), simplified]
  have k: "children_ok (rv_children r) {j. history_parent h j = Some a}"
    using D(7) [of a r] assms(3) by (simp add: kids_ok_def)
  note c = children_set_redo_ok [OF k, of x]
  show "children_set_redo (rv_children r) x = Some ((rv_children r)\<lparr>ch_redo := Some x\<rparr>)"
    using c(1) assms(2) by simp
  have at: "rev_at ?g i = (if i = a then Some ?r else rev_at h i)" for i by simp
  have par: "history_parent ?g i = history_parent h i" for i
    using assms(3) by (auto simp: history_parent_def rev_parent_def)
  have kids: "kids_ok ?g i (rv_children q)" if "rev_at ?g i = Some q" for i q
    using that c(2) assms(2) D(7) [of i q] par by (auto simp: kids_ok_def split: if_splits)
  have x: "rev_at h x \<noteq> None" using D(5) [of x a] assms(2) by simp
  have "\<exists>q. rev_at ?g ROOT = Some q \<and> rv_link q = None"
    using ok(1) assms(3) by (auto simp: tree_ok_def)
  moreover have "distinct (keys (revisions ?g))" using D(1) by (simp add: put_rev_def)
  moreover have "i < next_id ?g \<and> (i \<noteq> ROOT \<longrightarrow> (\<exists>p. history_parent ?g i = Some p \<and> p < i \<and> rev_at ?g p \<noteq> None))"
    if i: "rev_at ?g i \<noteq> None" for i
  proof -
    have hi: "rev_at h i \<noteq> None" using i assms(3) by (auto split: if_splits)
    then show ?thesis using D(4-6) [of i] par [of i] by fastforce
  qed
  ultimately have tree: "tree_ok ?g" unfolding tree_ok_def using kids x by simp
  have path: "i = x \<or> on_path ?s i" if "on_path ?g i" for i
    using that
  proof induction
    case (up i p)
    then show ?case using par [of i] assms(2) on_path.here [of ?s] on_path.up [of ?s i p] by auto
  qed simp
  have "redo_child ?g p = Some (Some i)" if i: "on_path ?g i" "history_parent ?g i = Some p" for i p
  proof (cases "i = x")
    case True
    then have "p = a" using i(2) par assms(2) by simp
    then show ?thesis using True by (simp add: redo_child_def)
  next
    case False
    then have j: "on_path ?s i" "history_parent h i = Some p" using path [OF i(1)] i(2) par by auto
    have "i \<le> a" using on_path_le [OF ok(1) j(1)] by simp
    then have "p \<noteq> a" using D(5) [OF j(2)] by simp
    moreover have "redo_child ?s p = Some (Some i)" using j ok(2) by (auto simp: redo_follows_def)
    ultimately show ?thesis by (simp add: redo_child_def)
  qed
  then show "hist_ok ?g" using tree by (simp add: hist_ok_def redo_follows_def)
qed

lemma put_rev_same: "rev_at h i = Some r \<Longrightarrow> revisions (put_rev h i r) = revisions h"
  by (simp add: put_rev_def rev_at_def update_triv)

lemma redo_child_parent:
  assumes "tree_ok h" "redo_child h i = Some (Some c)"
  shows "history_parent h c = Some i"
proof -
  obtain r where r: "rev_at h i = Some r" "ch_redo (rv_children r) = Some c"
    using assms(2) by (auto simp: redo_child_def bind_eq_Some_conv)
  then show ?thesis using tree_okD(7) [OF assms(1) r(1)] by (auto simp: kids_ok_def children_ok_def)
qed

lemma hist_ok_redo:
  assumes "hist_ok h" "redo_child h (current h) = Some (Some c)"
  shows "history_parent h c = Some (current h)" "hist_ok (set_current h c)"
proof -
  have t: "tree_ok h" using assms(1) by (simp add: hist_ok_def)
  show p: "history_parent h c = Some (current h)" by (rule redo_child_parent [OF t assms(2)])
  obtain r where r: "rev_at h (current h) = Some r" "ch_redo (rv_children r) = Some c"
    using assms(2) by (auto simp: redo_child_def bind_eq_Some_conv)
  then have "r\<lparr>rv_children := (rv_children r)\<lparr>ch_redo := Some c\<rparr>\<rparr> = r" by simp
  with hist_ok_down(2) [OF hist_ok_here [OF assms(1)] p r(1)]
  have "hist_ok (set_current (put_rev h (current h) r) c)" by simp
  then show "hist_ok (set_current h c)"
    using hist_ok_same [of "set_current (put_rev h (current h) r) c" "set_current h c"] put_rev_same [OF r(1)]
    by (simp add: set_current_def)
qed

lemma undo_cases:
  assumes "hist_ok h"
  obtains (root) "current h = ROOT" "undo h = Some (None, h)"
  | (step) l where "rev_link h (current h) = Some l" "undo h = Some (Some (lk_inverse l), set_current h (lk_parent l))"
      "hist_ok (set_current h (lk_parent l))" "history_parent h (current h) = Some (lk_parent l)"
proof -
  have t: "tree_ok h" using assms by (simp add: hist_ok_def)
  obtain r where r: "rev_at h (current h) = Some r" using tree_okD(8) [OF t] by blast
  show ?thesis
  proof (cases "rv_link r")
    case None
    then have "history_parent h (current h) = None" using r by (simp add: history_parent_def rev_parent_def)
    then have "current h = ROOT" using tree_okD(6) [OF t] r by fastforce
    then show ?thesis using root r None by (simp add: undo_def)
  next
    case (Some l)
    then have p: "history_parent h (current h) = Some (lk_parent l)"
      using r by (simp add: history_parent_def rev_parent_def)
    show ?thesis
      by (rule step) (use r Some p hist_ok_up [OF assms] on_path.up [OF on_path.here p] in
        \<open>simp_all add: undo_def rev_link_def\<close>)
  qed
qed

lemma redo_cases:
  assumes "hist_ok h"
  obtains (leaf) "redo_child h (current h) = Some None" "redo h = Some (None, h)"
  | (step) c l where "redo_child h (current h) = Some (Some c)" "rev_link h c = Some l" "lk_parent l = current h"
      "redo h = Some (Some (lk_forward l), set_current h c)" "hist_ok (set_current h c)"
proof -
  have t: "tree_ok h" using assms by (simp add: hist_ok_def)
  obtain r where r: "rev_at h (current h) = Some r" using tree_okD(8) [OF t] by blast
  show ?thesis
  proof (cases "ch_redo (rv_children r)")
    case None
    then show ?thesis using leaf r by (simp add: redo_def redo_child_def)
  next
    case (Some c)
    then have rc: "redo_child h (current h) = Some (Some c)" using r by (simp add: redo_child_def)
    note c = hist_ok_redo [OF assms rc]
    obtain l where l: "rev_link h c = Some l" "lk_parent l = current h"
      using c(1) by (auto simp: history_parent_map)
    have "rev_link (set_current h c) c = Some l" using l(1) by (simp add: rev_link_def)
    then show ?thesis using step [OF rc l _ c(2)] r Some by (simp add: redo_def)
  qed
qed

end
