(* ===== verification/HistoryWalk.thy ===== *)
theory HistoryWalk imports HistoryTree begin

text \<open>
  Walks in the undo tree: the transactions that lead from one revision to another and what they make
  of the text. The root theory's history properties are proved here.
\<close>

section \<open>Transactions along a walk\<close>

fun txns_make :: "segmentation \<Rightarrow> transaction list \<Rightarrow> ustring \<Rightarrow> ustring \<Rightarrow> bool" where
  "txns_make B [] t t' = (t = t')"
| "txns_make B (tx # txns) t t' = (\<exists>m. tx_makes B tx t m \<and> txns_make B txns m t')"

lemma txns_make_append:
  "txns_make B (xs @ ys) t t' \<longleftrightarrow> (\<exists>m. txns_make B xs t m \<and> txns_make B ys m t')"
  by (induction xs arbitrary: t) auto

text \<open>A walk up the tree, and the same revisions walked down.\<close>

fun climbs :: "history \<Rightarrow> revision_id \<Rightarrow> revision_id list \<Rightarrow> revision_id \<Rightarrow> bool" where
  "climbs h i [] a = (i = a)"
| "climbs h i (x # xs) a = (x = i \<and> (\<exists>p. history_parent h i = Some p \<and> climbs h p xs a))"

lemma climbs_snoc: "climbs h i (xs @ [x]) a \<longleftrightarrow> climbs h i xs x \<and> history_parent h x = Some a"
  by (induction xs arbitrary: i) auto

lemma climbs_on_path: "climbs h i xs a \<Longrightarrow> on_path h i \<Longrightarrow> on_path h a"
  by (induction xs arbitrary: i) (auto intro: on_path.up)

lemma climbs_links: "climbs h i xs a \<Longrightarrow> x \<in> set xs \<Longrightarrow> rev_link h x \<noteq> None"
  by (induction xs arbitrary: i) (auto simp: history_parent_map)

lemma climbs_txns:
  assumes "texts_ok B h T" "climbs h i xs a"
  shows "txns_make B (map (\<lambda>x. lk_inverse (the (rev_link h x))) xs) (T i) (T a) \<and>
    txns_make B (map (\<lambda>x. lk_forward (the (rev_link h x))) (rev xs)) (T a) (T i)"
  using assms(2)
proof (induction xs arbitrary: i)
  case (Cons x xs)
  obtain p l where p: "x = i" "history_parent h i = Some p" "climbs h p xs a" "rev_link h i = Some l" "lk_parent l = p"
    using Cons.prems by (auto simp: history_parent_map)
  have m: "tx_makes B (lk_inverse l) (T i) (T p)" "tx_makes B (lk_forward l) (T p) (T i)"
    using assms(1) p(4,5) by (auto simp: texts_ok_def)
  show ?case using Cons.IH [OF p(3)] m p by (auto simp: txns_make_append)
qed simp

lemma those_map_Some: "(\<And>x. x \<in> set xs \<Longrightarrow> f x = Some (g x)) \<Longrightarrow> those (map f xs) = Some (map g xs)"
  by (induction xs) auto

lemma steps_eq:
  assumes "\<And>x. x \<in> set us \<union> set ds \<Longrightarrow> rev_link h x \<noteq> None"
  shows "steps h us ds = Some (map (\<lambda>x. lk_inverse (the (rev_link h x))) us @
    map (\<lambda>x. lk_forward (the (rev_link h x))) ds)"
proof -
  have "those (map (\<lambda>x. map_option f (rev_link h x)) xs) = Some (map (\<lambda>x. f (the (rev_link h x))) xs)"
    if "set xs \<subseteq> set us \<union> set ds" for f :: "link \<Rightarrow> transaction" and xs
    by (rule those_map_Some) (use that assms in fastforce)
  then show ?thesis by (simp add: steps_def)
qed

lemma path_loop_ok:
  assumes "tree_ok h" "rev_at h from \<noteq> None" "rev_at h to \<noteq> None"
  shows "\<exists>us vs a. path_loop h from to up down = Some (up @ us, rev (down @ vs)) \<and>
     climbs h from us a \<and> climbs h to vs a"
  using assms(2,3)
proof (induction "from + to" arbitrary: "from" to up down rule: less_induct)
  case less
  note D = tree_okD [OF assms(1)]
  consider "from = to" | "from > to" | "from < to" by linarith
  then show ?case
  proof cases
    case 1
    then show ?thesis
      by (intro exI [of _ "[]"] exI [of _ to]) (simp add: path_loop.simps [of h to to])
  next
    case 2
    then have "from \<noteq> ROOT" by (simp add: ROOT_def)
    then obtain p where p: "history_parent h from = Some p" using D(6) less.prems(1) by blast
    then obtain l where l: "rev_link h from = Some l" "lk_parent l = p" by (auto simp: history_parent_map)
    obtain us vs a where "path_loop h p to (up @ [from]) down = Some ((up @ [from]) @ us, rev (down @ vs))"
      "climbs h p us a" "climbs h to vs a"
      using less.hyps [of p to "up @ [from]" down] less.prems D(5) [OF p] by auto
    then show ?thesis using 2 l p
      by (intro exI [of _ "from # us"] exI [of _ vs] exI [of _ a]) (simp add: path_loop.simps [of h "from" to])
  next
    case 3
    then have "to \<noteq> ROOT" by (simp add: ROOT_def)
    then obtain p where p: "history_parent h to = Some p" using D(6) less.prems(2) by blast
    then obtain l where l: "rev_link h to = Some l" "lk_parent l = p" by (auto simp: history_parent_map)
    obtain us vs a where "path_loop h from p up (down @ [to]) = Some (up @ us, rev ((down @ [to]) @ vs))"
      "climbs h from us a" "climbs h p vs a"
      using less.hyps [of "from" p up "down @ [to]"] less.prems D(5) [OF p] by auto
    then show ?thesis using 3 l p
      by (intro exI [of _ us] exI [of _ "to # vs"] exI [of _ a]) (simp add: path_loop.simps [of h "from" to])
  qed
qed

lemma path_ok:
  assumes "tree_ok h"
  obtains (unknown) "rev_at h target = None" "path h target = Some None"
  | (known) us vs a where "rev_at h target \<noteq> None" "path h target = Some (Some (us, rev vs))"
      "climbs h (current h) us a" "climbs h target vs a" "us = [] \<Longrightarrow> vs = [] \<Longrightarrow> target = current h"
      "target = current h \<Longrightarrow> us = [] \<and> vs = []"
proof (cases "rev_at h target")
  case None
  then show ?thesis using unknown by (simp add: path_def)
next
  case (Some r)
  obtain us vs a where p: "path_loop h (current h) target [] [] = Some (us, rev vs)"
    "climbs h (current h) us a" "climbs h target vs a"
    using path_loop_ok [OF assms tree_okD(8) [OF assms], of target "[]" "[]"] Some by auto
  have "path_loop h target target [] [] = Some ([], [])" by (simp add: path_loop.simps [of h target target])
  then have same: "us = [] \<and> vs = []" if "target = current h" using p(1) that [symmetric] by simp
  have there: "target = current h" if "us = []" "vs = []" using p(2,3) that by simp
  have "path h target = Some (Some (us, rev vs))" using p(1) Some by (simp add: path_def)
  moreover have "rev_at h target \<noteq> None" using Some by simp
  ultimately show ?thesis using known [of us vs a] p(2,3) there same by blast
qed

lemma rev_link_set_redo [simp]:
  "rev_at h i = Some r \<Longrightarrow> rev_link (put_rev h i (r\<lparr>rv_children := c\<rparr>)) j = rev_link h j"
  by (simp add: rev_link_def)

lemma set_redo_loop_ok:
  assumes "hist_ok (set_current h a)" "climbs h t (rev ds) a"
  shows "\<exists>h'. set_redo_loop ds h = Some h' \<and> hist_ok (set_current h' t) \<and>
    (\<forall>i. rev_link h' i = rev_link h i) \<and> current h' = current h"
  using assms
proof (induction ds arbitrary: h a)
  case (Cons x ds)
  have c: "climbs h t (rev ds) x" "history_parent h x = Some a"
    using Cons.prems(2) by (simp_all add: climbs_snoc)
  then obtain l where l: "rev_link h x = Some l" "lk_parent l = a" by (auto simp: history_parent_map)
  have "tree_ok (set_current h a)" using Cons.prems(1) by (simp add: hist_ok_def)
  from tree_okD(8) [OF this] obtain r where r: "rev_at h a = Some r" by auto
  let ?h = "put_rev h a (r\<lparr>rv_children := (rv_children r)\<lparr>ch_redo := Some x\<rparr>\<rparr>)"
  note d = hist_ok_down [OF Cons.prems(1) c(2) r]
  have par: "history_parent ?h = history_parent h" using r by (simp add: fun_eq_iff history_parent_map)
  have "climbs ?h i xs b = climbs h i xs b" for i xs b
    by (induction xs arbitrary: i) (simp_all add: par)
  with c(1) have "climbs ?h t (rev ds) x" by simp
  from Cons.IH [OF d(2) this] obtain h' where h': "set_redo_loop ds ?h = Some h'"
    "hist_ok (set_current h' t)" "\<forall>i. rev_link h' i = rev_link ?h i" "current h' = current ?h" by blast
  have "set_redo_loop (x # ds) h = Some h'" using l r d(1) h'(1) by simp
  moreover have "\<forall>i. rev_link h' i = rev_link h i" using h'(3) r by simp
  ultimately show ?case using h'(2,4) by auto
qed simp

lemma goto_cases:
  assumes "hist_ok h"
  obtains (unknown) "rev_at h target = None" "goto_revision h target = Some (None, h)" "changes_to h target = Some Unknown"
  | (here) "target = current h" "goto_revision h target = Some (Some [], h)" "changes_to h target = Some Here"
  | (walk) txns h' where "rev_at h target \<noteq> None" "target \<noteq> current h" "txns \<noteq> []"
      "goto_revision h target = Some (Some txns, h')" "hist_ok h'" "current h' = target"
      "\<And>i. rev_link h' i = rev_link h i"
      "changes_to h target = map_option (\<lambda>cs. case cs of Some cs \<Rightarrow> Changes cs | None \<Rightarrow> Here) (compose_all (map tx_changes txns))"
      "\<And>T B. texts_ok B h T \<Longrightarrow> txns_make B txns (T (current h)) (T target)"
proof -
  have t: "tree_ok h" using assms by (simp add: hist_ok_def)
  show ?thesis
  proof (cases rule: path_ok [OF t, of target])
    case 1
    then show ?thesis using unknown by (simp add: goto_revision_def changes_to_def)
  next
    case (2 us vs a)
    let ?txns = "map (\<lambda>x. lk_inverse (the (rev_link h x))) us @ map (\<lambda>x. lk_forward (the (rev_link h x))) (rev vs)"
    have st: "steps h us (rev vs) = Some ?txns"
      by (rule steps_eq) (use climbs_links 2(3,4) in auto)
    show ?thesis
    proof (cases "target = current h")
      case True
      then have "us = []" "vs = []" using 2(6) by simp_all
      then show ?thesis using here True 2(2)
        by (simp add: goto_revision_def changes_to_def steps_def compose_all.simps)
    next
      case False
      have "climbs h target (rev (rev vs)) a" using 2(4) by simp
      from set_redo_loop_ok [OF hist_ok_up [OF assms climbs_on_path [OF 2(3) on_path.here]] this]
      obtain h' where h': "set_redo_loop (rev vs) h = Some h'" "hist_ok (set_current h' target)"
        "\<And>i. rev_link h' i = rev_link h i" "current h' = current h" by blast
      have ne: "?txns \<noteq> []" using False 2(5) by auto
      have "rev_link (set_current h' target) i = rev_link h i" for i
        using h'(3) [of i] by (simp add: rev_link_def)
      moreover have "txns_make B ?txns (T (current h)) (T target)" if "texts_ok B h T" for B T
        using climbs_txns [OF that] 2(3,4) by (auto simp: txns_make_append)
      moreover have "goto_revision h target = Some (Some ?txns, set_current h' target)"
        using False 2(2) st h'(1) by (simp add: goto_revision_def)
      moreover have "changes_to h target =
          map_option (\<lambda>cs. case cs of Some cs \<Rightarrow> Changes cs | None \<Rightarrow> Here) (compose_all (map tx_changes ?txns))"
        using 2(2) st by (cases "compose_all (map tx_changes ?txns)") (simp_all add: changes_to_def)
      ultimately show ?thesis
        using walk [of ?txns "set_current h' target"] 2(1) False ne h'(2) by simp
    qed
  qed
qed

section \<open>Applying the transactions of a walk\<close>

lemma tx_makes_applies:
  assumes "seg_ok B" "state_ok B s" "tx_makes B tx (rope (es_text s)) t"
  obtains st' s' where "tx_apply B st tx (es_text s) = Some (Inr (st', s', tx_changes tx))"
    "state_ok B s'" "rope (es_text s') = t" "es_sels s' = tx_selection tx"
proof -
  obtain g where g: "state_ok B g" "rope (es_text g) = t" "es_sels g = tx_selection tx"
    using assms(3) by (auto simp: tx_makes_def)
  have m: "wf_cs (tx_changes tx)" "inserts_cr_free (tx_changes tx)" "set_ok (tx_selection tx)"
    "len_chars (es_text s) = len_before (tx_changes tx)" "t = emit (ops (tx_changes tx)) (rope (es_text s))"
    using assms(3) by (auto simp: tx_makes_def len_chars_def)
  have b: "buffer_ok (es_text s)" using assms(2) by (simp add: state_ok_def)
  show ?thesis
    by (rule tx_apply_ok [OF assms(1) m(1-3) b m(4) g(1) _ g(3), of st]) (use m(5) g that in auto)
qed

lemma run_txns_made:
  assumes "seg_ok B" "state_ok B s" "txns_make B txns (rope (es_text s)) t"
  shows "\<exists>st' s'. run_txns B st txns s = Some (st', s') \<and> state_ok B s' \<and> rope (es_text s') = t"
  using assms
proof (induction txns arbitrary: st s)
  case (Cons tx txns)
  obtain m where m: "tx_makes B tx (rope (es_text s)) m" "txns_make B txns m t" using Cons.prems(3) by auto
  obtain st' s' where a: "tx_apply B st tx (es_text s) = Some (Inr (st', s', tx_changes tx))"
    "state_ok B s'" "rope (es_text s') = m"
    by (rule tx_makes_applies [OF Cons.prems(1,2) m(1)]) blast
  with Cons.IH [OF Cons.prems(1) a(2), of st'] m(2) show ?case by auto
qed simp

lemma txns_make_props:
  assumes "txns_make B txns t t'"
  shows "txns_ok txns" "linked (map tx_changes txns)"
    "txns \<noteq> [] \<Longrightarrow> len_before (tx_changes (hd txns)) = length t" "run_all (map tx_changes txns) t = t'"
proof -
  have "txns_ok txns \<and> linked (map tx_changes txns) \<and>
    (txns \<noteq> [] \<longrightarrow> len_before (tx_changes (hd txns)) = length t) \<and> run_all (map tx_changes txns) t = t'"
    using assms
  proof (induction txns arbitrary: t)
    case (Cons tx txns)
    then obtain m where m: "tx_makes B tx t m" "txns_make B txns m t'" by auto
    note ih = Cons.IH [OF m(2)]
    have "len_after (tx_changes tx) = length m"
      using m(1) emit_len [of "tx_changes tx" t] by (auto simp: tx_makes_def)
    then have "linked (map tx_changes (tx # txns))" using ih by (cases txns) auto
    then show ?case using ih m(1) by (auto simp: txns_ok_def tx_makes_def)
  qed (simp add: txns_ok_def)
  then show "txns_ok txns" "linked (map tx_changes txns)"
    "txns \<noteq> [] \<Longrightarrow> len_before (tx_changes (hd txns)) = length t" "run_all (map tx_changes txns) t = t'"
    by simp_all
qed

text \<open>The net of a walk.\<close>

lemma changes_to_made:
  assumes "hist_ok h" "texts_ok B h T" "rev_at h target \<noteq> None"
  obtains (here) "target = current h" "changes_to h target = Some Here"
  | (walk) cs where "target \<noteq> current h" "changes_to h target = Some (Changes cs)" "wf_cs cs" "inserts_cr_free cs"
      "len_before cs = length (T (current h))" "emit (ops cs) (T (current h)) = T target"
proof (cases rule: goto_cases [OF assms(1), of target])
  case 1
  with assms(3) show ?thesis by simp
next
  case 2
  with here show ?thesis by simp
next
  case (3 txns h')
  note p = txns_make_props [OF 3(9) [OF assms(2)]]
  have ne: "map tx_changes txns \<noteq> []" "\<forall>cs \<in> set (map tx_changes txns). wf_cs cs \<and> inserts_cr_free cs"
    using 3(3) p(1) by (auto simp: txns_ok_def)
  from compose_all_correct [OF p(2) ne(2,1)] obtain c where
    c: "compose_all (map tx_changes txns) = Some (Some c)" "wf_cs c" "inserts_cr_free c"
      "same_effect (map tx_changes txns) [c]" by blast
  have "len_before c = length (T (current h))" "emit (ops c) (T (current h)) = T target"
    using c(4) p(3,4) 3(3) by (simp_all add: same_effect_def hd_map)
  then show ?thesis using walk 3(2,8) c(1-3) by simp
qed

section \<open>Counting undo steps\<close>

lemma undo_n_climbs:
  assumes "hist_ok h" "climbs h (current h) xs a"
  shows "\<exists>h'. undo_n (length xs) h = Some (map (\<lambda>x. lk_inverse (the (rev_link h x))) xs, h') \<and>
    hist_ok h' \<and> current h' = a \<and> revisions h' = revisions h"
  using assms
proof (induction xs arbitrary: h)
  case (Cons x xs)
  then obtain p where p: "x = current h" "history_parent h x = Some p" "climbs h p xs a" by auto
  obtain l where l: "rev_link h x = Some l" "lk_parent l = p" using p(2) by (auto simp: history_parent_map)
  have par: "history_parent g = history_parent h" if "revisions g = revisions h" for g
    using that by (simp add: fun_eq_iff history_parent_def rev_at_def)
  show ?case
  proof (cases rule: undo_cases [OF Cons.prems(1)])
    case 1
    have "tree_ok h" using Cons.prems(1) by (simp add: hist_ok_def)
    then show ?thesis using 1 p tree_okD(3) by simp
  next
    case (2 l')
    let ?h = "set_current h p"
    have "l' = l" using 2(1) l(1) p(1) by simp
    have "climbs ?h i ys b = climbs h i ys b" for i ys b by (induction ys arbitrary: i) simp_all
    then have "climbs ?h (current ?h) xs a" using p(3) by simp
    from Cons.IH [OF _ this] 2(3) \<open>l' = l\<close> l(2) obtain h' where
      "undo_n (length xs) ?h = Some (map (\<lambda>x. lk_inverse (the (rev_link ?h x))) xs, h')"
      "hist_ok h'" "current h' = a" "revisions h' = revisions ?h" by auto
    then show ?thesis using 2(2) l p(1) \<open>l' = l\<close> by (simp add: rev_link_def)
  qed
qed simp

lemma climbs_root:
  assumes "tree_ok h" "rev_at h i \<noteq> None"
  obtains xs where "climbs h i xs ROOT" "length xs \<le> i"
  using assms(2)
proof (induction i arbitrary: thesis rule: less_induct)
  case (less i)
  show ?case
  proof (cases "i = ROOT")
    case True
    then show ?thesis using less.prems(1) [of "[]"] by simp
  next
    case False
    then obtain p where p: "history_parent h i = Some p"
      using tree_okD(6) [OF assms(1)] less.prems(2) by blast
    have "p < i" "rev_at h p \<noteq> None" using tree_okD(5) [OF assms(1) p] by simp_all
    from less.IH [OF this(1) _ this(2)] obtain xs where "climbs h p xs ROOT" "length xs \<le> p" by blast
    then show ?thesis using less.prems(1) [of "i # xs"] p \<open>p < i\<close> by simp
  qed
qed

lemma undo_n_beyond:
  assumes "hist_ok h" "climbs h (current h) xs ROOT"
  shows "\<exists>h'. undo_n (length xs + k) h = Some (map (\<lambda>x. lk_inverse (the (rev_link h x))) xs, h') \<and>
    hist_ok h' \<and> current h' = ROOT \<and> revisions h' = revisions h"
proof -
  obtain h' where h': "undo_n (length xs) h = Some (map (\<lambda>x. lk_inverse (the (rev_link h x))) xs, h')"
    "hist_ok h'" "current h' = ROOT" "revisions h' = revisions h"
    using undo_n_climbs [OF assms] by blast
  have "undo_n n h = Some (ts, g) \<Longrightarrow> length ts = n \<Longrightarrow> current g = ROOT \<Longrightarrow> hist_ok g \<Longrightarrow>
      undo_n (n + k) h = Some (ts, g)" for n ts g
  proof (induction n arbitrary: h ts)
    case 0
    then have "hist_ok h" "current h = ROOT" "ts = []" "g = h" by simp_all
    moreover have "undo h = Some (None, h)"
      using undo_cases [OF \<open>hist_ok h\<close>] \<open>current h = ROOT\<close> tree_okD(3) [of h] \<open>hist_ok h\<close>
      by (metis hist_ok_def option.distinct(1))
    ultimately show ?case by (cases k) simp_all
  next
    case (Suc n)
    then obtain txn h1 where u: "undo h = Some (txn, h1)" by (auto simp: bind_eq_Some_conv)
    show ?case
    proof (cases txn)
      case None
      then show ?thesis using u Suc.prems by simp
    next
      case (Some t)
      then obtain ts1 where "undo_n n h1 = Some (ts1, g)" "ts = t # ts1"
        using u Suc.prems(1) by (auto simp: bind_eq_Some_conv)
      then show ?thesis using Suc.IH [of h1 ts1] Suc.prems(2-) u Some by simp
    qed
  qed
  from this [OF h'(1) _ h'(3,2)] h' show ?thesis by auto
qed

lemma undo_steps_loop_ok:
  assumes "tree_ok h" "rev_at h i \<noteq> None"
  shows "\<exists>xs a. climbs h i xs a \<and> (\<forall>x \<in> set xs. \<exists>t. rev_age h x now = Some t \<and> t < age) \<and>
    (\<exists>t. rev_age h a now = Some t \<and>
      (t \<ge> age \<and> undo_steps_loop h age now k i = Some (Inr (k + length xs)) \<or>
       t < age \<and> a = ROOT \<and> undo_steps_loop h age now k i = Some (Inl (k + length xs))))"
  using assms(2)
proof (induction i arbitrary: k rule: less_induct)
  case (less i)
  obtain r where r: "rev_at h i = Some r" using less.prems by blast
  then have a: "rev_age h i now = Some (nat (now - rv_time r))" by (simp add: rev_age_def)
  note simps = undo_steps_loop.simps [of h age now k i]
  consider "nat (now - rv_time r) \<ge> age" | "nat (now - rv_time r) < age" "rev_parent r = None"
    | p where "nat (now - rv_time r) < age" "rev_parent r = Some p" by (cases "rev_parent r") force+
  then show ?case
  proof cases
    case 1
    then show ?thesis using a by (intro exI [of _ "[]"] exI [of _ i]) (simp add: simps)
  next
    case 2
    have "undo_steps_loop h age now k i = Some (Inl k)" using 2 a r by (simp add: simps)
    moreover have "i = ROOT" using tree_okD(6) [OF assms(1) less.prems] r 2(2) by (auto simp: history_parent_def)
    ultimately show ?thesis using 2 a by (intro exI [of _ "[]"] exI [of _ i]) simp
  next
    case (3 p)
    then have p: "history_parent h i = Some p" using r by (simp add: history_parent_def)
    have "p < i" "rev_at h p \<noteq> None" using tree_okD(5) [OF assms(1) p] by simp_all
    from less.IH [OF this, of "k + 1"] obtain xs b t where
      "climbs h p xs b" "\<forall>x \<in> set xs. \<exists>t. rev_age h x now = Some t \<and> t < age" "rev_age h b now = Some t"
      "t \<ge> age \<and> undo_steps_loop h age now (k + 1) p = Some (Inr (k + 1 + length xs)) \<or>
       t < age \<and> b = ROOT \<and> undo_steps_loop h age now (k + 1) p = Some (Inl (k + 1 + length xs))" by blast
    then show ?thesis using 3 a r p
      by (intro exI [of _ "i # xs"] exI [of _ b]) (auto simp add: simps)
  qed
qed

section \<open>Counting redo steps\<close>

fun redo_chain :: "history \<Rightarrow> revision_id \<Rightarrow> revision_id list \<Rightarrow> revision_id \<Rightarrow> bool" where
  "redo_chain h i [] a = (i = a)"
| "redo_chain h i (x # xs) a = (redo_child h i = Some (Some x) \<and> redo_chain h x xs a)"

lemma redo_n_chain:
  assumes "hist_ok h" "redo_chain h (current h) xs a"
  shows "\<exists>h'. redo_n (length xs) h = Some (map (\<lambda>x. lk_forward (the (rev_link h x))) xs, h') \<and>
    hist_ok h' \<and> current h' = a \<and> revisions h' = revisions h"
  using assms
proof (induction xs arbitrary: h)
  case (Cons x xs)
  then have x: "redo_child h (current h) = Some (Some x)" "redo_chain h x xs a" by simp_all
  show ?case
  proof (cases rule: redo_cases [OF Cons.prems(1)])
    case 1
    then show ?thesis using x by simp
  next
    case (2 c l)
    let ?h = "set_current h x"
    have c: "c = x" using 2(1) x(1) by simp
    have "redo_chain ?h i ys b = redo_chain h i ys b" for i ys b
      by (induction ys arbitrary: i) (simp_all add: redo_child_def)
    then have "redo_chain ?h (current ?h) xs a" using x(2) by simp
    from Cons.IH [OF _ this] 2(5) c obtain h' where
      "redo_n (length xs) ?h = Some (map (\<lambda>x. lk_forward (the (rev_link ?h x))) xs, h')"
      "hist_ok h'" "current h' = a" "revisions h' = revisions ?h" by auto
    then show ?thesis using 2(2,4) c by (simp add: rev_link_def)
  qed
qed simp

lemma redo_steps_loop_ok:
  assumes "tree_ok h" "rev_at h i \<noteq> None"
  shows "\<exists>xs a. redo_chain h i xs a \<and> (\<forall>x \<in> set xs. \<exists>t. rev_age h x now = Some t \<and> t \<ge> age) \<and>
    (redo_steps_loop h age now k i = Some (Inr (k + length xs)) \<and>
       (redo_child h a = Some None \<and> (xs = [] \<or> rev_age h a now = Some age) \<or>
        (\<exists>c t. redo_child h a = Some (Some c) \<and> rev_age h c now = Some t \<and> t < age)) \<or>
     redo_steps_loop h age now k i = Some (Inl (k + length xs)) \<and> xs \<noteq> [] \<and> redo_child h a = Some None \<and>
       (\<exists>t. rev_age h a now = Some t \<and> t > age))"
  using assms(2)
proof (induction "next_id h - i" arbitrary: i k rule: less_induct)
  case less
  note D = tree_okD [OF assms(1)]
  note simps = redo_steps_loop.simps [of h age now k i]
  obtain rc where "redo_child h i = Some rc" using less.prems by (auto simp: redo_child_def)
  then consider "redo_child h i = Some None" | c where "redo_child h i = Some (Some c)" by (cases rc) auto
  then show ?case
  proof cases
    case 1
    then show ?thesis by (intro exI [of _ "[]"] exI [of _ i]) (simp add: simps)
  next
    case (2 c)
    have c: "i < c" "rev_at h c \<noteq> None" "c < next_id h"
      using D(5) [OF redo_child_parent [OF assms(1) 2]] D(4) [of c] by simp_all
    then obtain r where r: "rev_at h c = Some r" by blast
    then obtain t where t: "rev_age h c now = Some t" by (simp add: rev_age_def)
    obtain nx where nx: "redo_child h c = Some nx" using r by (simp add: redo_child_def)
    consider (younger) "t < age" | (over) "nx = None" "t > age" | (onward) "t \<ge> age" "nx \<noteq> None \<or> t \<le> age" by linarith
    then show ?thesis
    proof cases
      case younger
      then show ?thesis using 2 t by (intro exI [of _ "[]"] exI [of _ i]) (simp add: simps)
    next
      case over
      then show ?thesis using 2 t nx by (intro exI [of _ "[c]"] exI [of _ c]) (simp add: simps)
    next
      case onward
      have s: "redo_steps_loop h age now k i = redo_steps_loop h age now (k + 1) c"
        using 2 t nx onward by (auto simp add: simps)
      have "next_id h - c < next_id h - i" using c by simp
      from less.hyps [OF this c(2), of "k + 1"] obtain xs a where
        x: "redo_chain h c xs a" "\<forall>x \<in> set xs. \<exists>t. rev_age h x now = Some t \<and> t \<ge> age"
        "redo_steps_loop h age now (k + 1) c = Some (Inr (k + 1 + length xs)) \<and>
           (redo_child h a = Some None \<and> (xs = [] \<or> rev_age h a now = Some age) \<or>
            (\<exists>c t. redo_child h a = Some (Some c) \<and> rev_age h c now = Some t \<and> t < age)) \<or>
         redo_steps_loop h age now (k + 1) c = Some (Inl (k + 1 + length xs)) \<and> xs \<noteq> [] \<and>
           redo_child h a = Some None \<and> (\<exists>t. rev_age h a now = Some t \<and> t > age)" by blast
      have "xs = [] \<Longrightarrow> redo_child h a = Some None \<Longrightarrow> rev_age h a now = Some age"
        using x(1) onward nx t by auto
      then show ?thesis using x 2 t onward s
        by (intro exI [of _ "c # xs"] exI [of _ a]) auto
    qed
  qed
qed

end
