(* ===== verification/HistorySession.thy ===== *)
theory HistorySession imports HistoryWalk begin

text \<open>
  A buffer's history and text evolving together: the sessions that start from a fresh history and
  record edits, undo, redo and jump, each transaction applied to the text. The properties of the
  history are here.
\<close>

definition set_undo_levels :: "history \<Rightarrow> nat \<Rightarrow> history" where
  "set_undo_levels h levels = h\<lparr>undo_levels := levels\<rparr>"

inductive session :: "segmentation \<Rightarrow> history \<Rightarrow> edit_state \<Rightarrow> bool" for B where
  fresh: "state_ok B s \<Longrightarrow> session B (history_new now) s"
| cap: "session B h s \<Longrightarrow> session B (set_undo_levels h levels) s"
| edit: "session B h s \<Longrightarrow> edited_ok B (es_text s) e \<Longrightarrow>
    record_edit h owner (ed_changes e) (es_text s) (es_sels s) (es_sels (ed_state e)) now = Some (h', promoted) \<Longrightarrow>
    session B h' (ed_state e)"
| undone: "session B h s \<Longrightarrow> undo h = Some (Some tx, h') \<Longrightarrow>
    tx_apply B st tx (es_text s) = Some (Inr (st', s', cs)) \<Longrightarrow> session B h' s'"
| redone: "session B h s \<Longrightarrow> redo h = Some (Some tx, h') \<Longrightarrow>
    tx_apply B st tx (es_text s) = Some (Inr (st', s', cs)) \<Longrightarrow> session B h' s'"
| jumped: "session B h s \<Longrightarrow> goto_revision h target = Some (Some txns, h') \<Longrightarrow>
    run_txns B st txns s = Some (st', s') \<Longrightarrow> session B h' s'"

definition session_inv :: "segmentation \<Rightarrow> history \<Rightarrow> edit_state \<Rightarrow> (revision_id \<Rightarrow> ustring) \<Rightarrow> bool" where
  "session_inv B h s T \<longleftrightarrow> hist_ok h \<and> texts_ok B h T \<and> state_ok B s \<and> T (current h) = rope (es_text s)"

lemma rev_link_set_current [simp]: "rev_link (set_current h i) = rev_link h"
  by (simp add: fun_eq_iff rev_link_def)

lemma texts_ok_links: "(\<And>i. rev_link g i = rev_link h i) \<Longrightarrow> texts_ok B g T = texts_ok B h T"
  by (simp add: texts_ok_def)

lemma fresh_inv:
  assumes "state_ok B s"
  shows "session_inv B (history_new now) s (\<lambda>_. rope (es_text s))"
  using assms history_new_ok
  by (simp add: session_inv_def texts_ok_def rev_link_def rev_at_def history_new_def)

lemma undo_inv:
  assumes "seg_ok B" "session_inv B h s T" "undo h = Some (Some tx, h')"
  obtains st' s' where "tx_apply B st tx (es_text s) = Some (Inr (st', s', tx_changes tx))"
    "session_inv B h' s' T" "history_parent h (current h) = Some (current h')" "revisions h' = revisions h"
    "es_sels s' = tx_selection tx"
proof -
  have ok: "hist_ok h" using assms(2) by (simp add: session_inv_def)
  show ?thesis
  proof (cases rule: undo_cases [OF ok])
    case 1
    then show ?thesis using assms(3) by simp
  next
    case (2 l)
    have l: "tx = lk_inverse l" "h' = set_current h (lk_parent l)" using 2(2) assms(3) by simp_all
    have "tx_makes B tx (rope (es_text s)) (T (lk_parent l))"
      using assms(2) 2(1) l(1) unfolding session_inv_def texts_ok_def by metis
    then obtain st' s' where "tx_apply B st tx (es_text s) = Some (Inr (st', s', tx_changes tx))"
      "state_ok B s'" "rope (es_text s') = T (lk_parent l)" "es_sels s' = tx_selection tx"
      by (rule_tac tx_makes_applies [OF assms(1), of s tx _ st]) (use assms(2) in \<open>auto simp: session_inv_def\<close>)
    then show ?thesis using that [of st' s'] assms(2) 2 l by (simp add: session_inv_def texts_ok_def)
  qed
qed

lemma redo_inv:
  assumes "seg_ok B" "session_inv B h s T" "redo h = Some (Some tx, h')"
  obtains st' s' where "tx_apply B st tx (es_text s) = Some (Inr (st', s', tx_changes tx))"
    "session_inv B h' s' T" "history_parent h (current h') = Some (current h)" "revisions h' = revisions h"
    "es_sels s' = tx_selection tx"
proof -
  have ok: "hist_ok h" using assms(2) by (simp add: session_inv_def)
  show ?thesis
  proof (cases rule: redo_cases [OF ok])
    case 1
    then show ?thesis using assms(3) by simp
  next
    case (2 c l)
    have l: "tx = lk_forward l" "h' = set_current h c" using 2(4) assms(3) by simp_all
    have "tx_makes B tx (rope (es_text s)) (T c)"
      using assms(2) 2(2,3) l(1) unfolding session_inv_def texts_ok_def by metis
    then obtain st' s' where "tx_apply B st tx (es_text s) = Some (Inr (st', s', tx_changes tx))"
      "state_ok B s'" "rope (es_text s') = T c" "es_sels s' = tx_selection tx"
      by (rule_tac tx_makes_applies [OF assms(1), of s tx _ st]) (use assms(2) in \<open>auto simp: session_inv_def\<close>)
    then show ?thesis using that [of st' s'] assms(2) 2 l
      by (simp add: session_inv_def texts_ok_def history_parent_map)
  qed
qed

lemma goto_inv:
  assumes "seg_ok B" "session_inv B h s T" "goto_revision h target = Some (Some txns, h')"
  obtains st' s' where "run_txns B st txns s = Some (st', s')" "session_inv B h' s' T" "current h' = target"
    "\<And>i. rev_link h' i = rev_link h i" "rev_at h target \<noteq> None"
proof -
  have ok: "hist_ok h" using assms(2) by (simp add: session_inv_def)
  show ?thesis
  proof (cases rule: goto_cases [OF ok, of target])
    case 1
    then show ?thesis using assms(3) by simp
  next
    case 2
    have "tree_ok h" using ok by (simp add: hist_ok_def)
    from tree_okD(8) [OF this] show ?thesis
      using that [of st s] 2 assms(2,3) by simp
  next
    case (3 txns0 h0)
    then have e: "txns0 = txns" "h0 = h'" using assms(3) by simp_all
    have T: "texts_ok B h T" using assms(2) by (simp add: session_inv_def)
    have "txns_make B txns (rope (es_text s)) (T target)"
      using 3(9) [OF T] assms(2) e by (simp add: session_inv_def)
    then obtain st' s' where s': "run_txns B st txns s = Some (st', s')" "state_ok B s'" "rope (es_text s') = T target"
      using run_txns_made [OF assms(1), of s txns "T target" st] assms(2) by (auto simp: session_inv_def)
    have "texts_ok B h' T" using texts_ok_links [OF 3(7)] T e by simp
    then show ?thesis using that [of st' s'] s' 3 e by (simp add: session_inv_def)
  qed
qed

lemma record_inv:
  assumes "session_inv B h s T" "edited_ok B (es_text s) e"
  obtains h' p T' where
    "record_edit h owner (ed_changes e) (es_text s) (es_sels s) (es_sels (ed_state e)) now = Some (h', p)"
    "session_inv B h' (ed_state e) T'" "current h' = next_id h"
    "undo_levels h \<noteq> 0 \<Longrightarrow> length (revisions h') - 1 \<le> undo_levels h"
    "T' = promoted_texts (T(next_id h := rope (es_text (ed_state e)))) p"
    "\<And>i. rev_link h' i \<noteq> None \<Longrightarrow> i = next_id h \<or> rev_link h i \<noteq> None"
    "p \<noteq> Some ROOT" "p \<noteq> Some (next_id h)"
proof -
  obtain h' p where r:
    "record_edit h owner (ed_changes e) (es_text s) (es_sels s) (es_sels (ed_state e)) now = Some (h', p)"
    "hist_ok h'" "current h' = next_id h" "current h' \<noteq> ROOT"
    "undo_levels h \<noteq> 0 \<Longrightarrow> length (revisions h') - 1 \<le> undo_levels h"
    "texts_ok B h' (promoted_texts (T(next_id h := rope (es_text (ed_state e)))) p)"
    "p \<noteq> Some ROOT" "p \<noteq> Some (next_id h)"
    "\<And>i. rev_link h' i \<noteq> None \<Longrightarrow> i = next_id h \<or> rev_link h i \<noteq> None"
    by (rule record_edit_ok [of h B T s e owner now]) (use assms in \<open>simp_all add: session_inv_def\<close>)
  moreover have "session_inv B h' (ed_state e) (promoted_texts (T(next_id h := rope (es_text (ed_state e)))) p)"
    using r assms(2) by (auto simp: session_inv_def edited_ok_def promoted_texts_def split: option.splits)
  ultimately show ?thesis using that by blast
qed

lemma session_invariant:
  assumes "seg_ok B" "session B h s"
  shows "\<exists>T. session_inv B h s T"
  using assms(2)
proof induction
  case (fresh s now)
  then show ?case using fresh_inv by blast
next
  case (cap h s levels)
  then show ?case using hist_ok_same [of h "set_undo_levels h levels"]
    by (auto simp: session_inv_def set_undo_levels_def texts_ok_def rev_link_def rev_at_def)
next
  case (edit h s e owner now h' promoted)
  then obtain T where "session_inv B h s T" by blast
  from record_inv [OF this edit(2), of owner now] edit(3) show ?case by (metis Pair_inject option.inject)
next
  case (undone h s tx h' st st' s' cs)
  then obtain T where "session_inv B h s T" by blast
  from undo_inv [OF assms(1) this undone(2), of st] undone(3) show ?case
    by (metis Pair_inject option.inject sum.inject(2))
next
  case (redone h s tx h' st st' s' cs)
  then obtain T where "session_inv B h s T" by blast
  from redo_inv [OF assms(1) this redone(2), of st] redone(3) show ?case
    by (metis Pair_inject option.inject sum.inject(2))
next
  case (jumped h s target txns h' st st' s')
  then obtain T where "session_inv B h s T" by blast
  from goto_inv [OF assms(1) this jumped(2), of st] jumped(3) show ?case
    by (metis Pair_inject option.inject)
qed

section \<open>Properties\<close>


text \<open>C6: Recording an edit keeps the tree well formed, moves to a new revision with the edit's text,
  keeps at most \<open>undo-levels\<close> revisions besides the root, invents no other revision, and keeps every
  survivor's text; a promoted revision's text is the root's.\<close>

theorem recording_keeps_tree:
  assumes "session_inv B h s T" "edited_ok B (es_text s) e"
  shows "\<exists>h' p T'. record_edit h owner (ed_changes e) (es_text s) (es_sels s) (es_sels (ed_state e)) now = Some (h', p) \<and>
     session_inv B h' (ed_state e) T' \<and> current h' = next_id h \<and>
     (undo_levels h \<noteq> 0 \<longrightarrow> history_len h' - 1 \<le> undo_levels h) \<and>
     (\<forall>i. rev_link h' i \<noteq> None \<longrightarrow> i = next_id h \<or> rev_link h i \<noteq> None \<and> T' i = T i) \<and>
     T' ROOT = (case p of None \<Rightarrow> T ROOT | Some c \<Rightarrow> T c) \<and> p \<noteq> Some ROOT \<and> p \<noteq> Some (next_id h)"
proof -
  obtain h' p T' where r:
    "record_edit h owner (ed_changes e) (es_text s) (es_sels s) (es_sels (ed_state e)) now = Some (h', p)"
    "session_inv B h' (ed_state e) T'" "current h' = next_id h"
    "undo_levels h \<noteq> 0 \<Longrightarrow> length (revisions h') - 1 \<le> undo_levels h"
    "T' = promoted_texts (T(next_id h := rope (es_text (ed_state e)))) p"
    "\<And>i. rev_link h' i \<noteq> None \<Longrightarrow> i = next_id h \<or> rev_link h i \<noteq> None"
    "p \<noteq> Some ROOT" "p \<noteq> Some (next_id h)"
    by (rule record_inv [OF assms, of owner now]) blast
  have t: "tree_ok h" "tree_ok h'" using assms(1) r(2) by (simp_all add: session_inv_def hist_ok_def)
  have "next_id h \<noteq> ROOT" using tree_okD(4) [OF t(1), of ROOT] tree_okD(2) [OF t(1)] by auto
  then have "T' ROOT = (case p of None \<Rightarrow> T ROOT | Some c \<Rightarrow> T c)"
    using r(5,8) by (auto simp: promoted_texts_def split: option.splits)
  moreover have "T' i = T i" if "rev_link h' i \<noteq> None" "i \<noteq> next_id h" for i
  proof -
    have "i \<noteq> ROOT" using that(1) tree_okD(3) [OF t(2)] by (auto simp: history_parent_map)
    then show ?thesis using that(2) r(5) by (auto simp: promoted_texts_def split: option.splits)
  qed
  ultimately show ?thesis using r by (auto simp: history_len_def intro!: exI [of _ h'] exI [of _ T'])
qed



text \<open>C18: Undoing often enough always reaches the root, whatever was done before: as many undos as the
  current revision's number suffice, and further ones change nothing.\<close>

theorem undo_reaches_root:
  assumes "seg_ok B" "session B h s"
  shows "\<exists>ts h'. undo_n (current h + k) h = Some (ts, h') \<and> current h' = ROOT \<and> can_undo h' = Some False \<and>
     revisions h' = revisions h \<and> length ts \<le> current h"
proof -
  obtain T where T: "session_inv B h s T" using session_invariant [OF assms] by blast
  then have ok: "hist_ok h" "tree_ok h" by (simp_all add: session_inv_def hist_ok_def)
  obtain xs where xs: "climbs h (current h) xs ROOT" "length xs \<le> current h"
    by (rule climbs_root [OF ok(2) tree_okD(8) [OF ok(2)]])
  obtain h' where "undo_n (length xs + (current h + k - length xs)) h =
      Some (map (\<lambda>x. lk_inverse (the (rev_link h x))) xs, h')"
    "hist_ok h'" "current h' = ROOT" "revisions h' = revisions h"
    using undo_n_beyond [OF ok(1) xs(1), of "current h + k - length xs"] by blast
  moreover from this have "can_undo h' = Some False"
    using ok(2) by (auto simp: can_undo_def rev_at_def tree_ok_def)
  ultimately show ?thesis using xs(2) by simp
qed

text \<open>The step counts for a point in time are exact: the undos counted for \<open>:earlier\<close> reach the
  first revision up the tree that is old enough, or the root when none is; the redos counted for
  \<open>:later\<close> go along revisions old enough and stop before the first too young, or at a leaf.\<close>

theorem time_steps_exact:
  assumes "seg_ok B" "session B h s"
  shows "(\<exists>xs a t h'. climbs h (current h) xs a \<and> rev_age h a now = Some t \<and>
       (\<forall>x \<in> set xs. \<exists>u. rev_age h x now = Some u \<and> u < age) \<and>
       undo_n (length xs) h = Some (map (\<lambda>x. lk_inverse (the (rev_link h x))) xs, h') \<and> current h' = a \<and>
       undo_steps_older_than h age now = Some (if t < age then Inl (length xs) else Inr (length xs)) \<and>
       (t < age \<longrightarrow> a = ROOT)) \<and>
     (\<exists>xs a h'. redo_chain h (current h) xs a \<and>
       (\<forall>x \<in> set xs. \<exists>u. rev_age h x now = Some u \<and> age \<le> u) \<and>
       redo_n (length xs) h = Some (map (\<lambda>x. lk_forward (the (rev_link h x))) xs, h') \<and> current h' = a \<and>
       (redo_steps_newer_than h age now = Some (Inr (length xs)) \<and>
          (redo_child h a = Some None \<and> (xs = [] \<or> rev_age h a now = Some age) \<or>
           (\<exists>c u. redo_child h a = Some (Some c) \<and> rev_age h c now = Some u \<and> u < age)) \<or>
        redo_steps_newer_than h age now = Some (Inl (length xs)) \<and> xs \<noteq> [] \<and>
          redo_child h a = Some None \<and> (\<exists>u. rev_age h a now = Some u \<and> age < u)))"
proof -
  obtain T where "session_inv B h s T" using session_invariant [OF assms] by blast
  then have ok: "hist_ok h" "tree_ok h" by (simp_all add: session_inv_def hist_ok_def)
  note cur = tree_okD(8) [OF ok(2)]
  obtain xs a t where up: "climbs h (current h) xs a" "\<forall>x \<in> set xs. \<exists>u. rev_age h x now = Some u \<and> u < age"
    "rev_age h a now = Some t" "t \<ge> age \<and> undo_steps_loop h age now 0 (current h) = Some (Inr (0 + length xs)) \<or>
       t < age \<and> a = ROOT \<and> undo_steps_loop h age now 0 (current h) = Some (Inl (0 + length xs))"
    using undo_steps_loop_ok [OF ok(2) cur, of now age 0] by blast
  obtain ys b where down: "redo_chain h (current h) ys b" "\<forall>x \<in> set ys. \<exists>u. rev_age h x now = Some u \<and> age \<le> u"
    "redo_steps_loop h age now 0 (current h) = Some (Inr (0 + length ys)) \<and>
       (redo_child h b = Some None \<and> (ys = [] \<or> rev_age h b now = Some age) \<or>
        (\<exists>c u. redo_child h b = Some (Some c) \<and> rev_age h c now = Some u \<and> u < age)) \<or>
     redo_steps_loop h age now 0 (current h) = Some (Inl (0 + length ys)) \<and> ys \<noteq> [] \<and>
       redo_child h b = Some None \<and> (\<exists>u. rev_age h b now = Some u \<and> age < u)"
    using redo_steps_loop_ok [OF ok(2) cur, of now age 0] by blast
  obtain h1 h2 where "undo_n (length xs) h = Some (map (\<lambda>x. lk_inverse (the (rev_link h x))) xs, h1)" "current h1 = a"
    "redo_n (length ys) h = Some (map (\<lambda>x. lk_forward (the (rev_link h x))) ys, h2)" "current h2 = b"
    using undo_n_climbs [OF ok(1) up(1)] redo_n_chain [OF ok(1) down(1)] by blast
  note n = this
  have "undo_steps_older_than h age now = Some (if t < age then Inl (length xs) else Inr (length xs))"
    "t < age \<longrightarrow> a = ROOT" using up(4) by (auto simp: undo_steps_older_than_def)
  with up n have A: "\<exists>xs a t h'. climbs h (current h) xs a \<and> rev_age h a now = Some t \<and>
       (\<forall>x \<in> set xs. \<exists>u. rev_age h x now = Some u \<and> u < age) \<and>
       undo_n (length xs) h = Some (map (\<lambda>x. lk_inverse (the (rev_link h x))) xs, h') \<and> current h' = a \<and>
       undo_steps_older_than h age now = Some (if t < age then Inl (length xs) else Inr (length xs)) \<and>
       (t < age \<longrightarrow> a = ROOT)" by blast
  show ?thesis
    by (rule conjI [OF A], intro exI [of _ ys] exI [of _ b] exI [of _ h2], unfold redo_steps_newer_than_def)
      (use down n in simp)
qed


text \<open>Witnesses: a session of one edit.\<close>

lemma demo_session:
  "session demo_seg (history_new 0) demo_state"
  "session_inv demo_seg (history_new 0) demo_state (\<lambda>_. rope demo_ab)"
  "edited_ok demo_seg (es_text demo_state) (edited_unchanged demo_state)"
  using session.fresh [OF demo_set_fits(3), of 0] fresh_inv [OF demo_set_fits(3), of 0] demo_chain(1) by simp_all

lemma demo_recorded:
  "\<exists>h T. session demo_seg h demo_state \<and> session_inv demo_seg h demo_state T \<and> current h = 1 \<and>
     (\<exists>tx h'. undo h = Some (Some tx, h'))"
proof -
  obtain h p T where r: "record_edit (history_new 0) None (ed_changes (edited_unchanged demo_state)) (es_text demo_state)
      (es_sels demo_state) (es_sels (ed_state (edited_unchanged demo_state))) 0 = Some (h, p)"
    "session_inv demo_seg h (ed_state (edited_unchanged demo_state)) T" "current h = next_id (history_new 0)"
    by (rule record_inv [OF demo_session(2,3), of None 0]) blast
  have c: "current h = 1" "hist_ok h" using r(2,3) by (simp_all add: history_new_def session_inv_def)
  have "session demo_seg h demo_state" using session.edit [OF demo_session(1,3) r(1)] demo_chain(2) by simp
  moreover have "\<exists>tx h'. undo h = Some (Some tx, h')"
    by (cases rule: undo_cases [OF c(2)]) (use c(1) in \<open>auto simp: ROOT_def\<close>)
  ultimately show ?thesis using r(2) c(1) demo_chain(2) by auto
qed


theorem recording_keeps_tree_witness:
  "\<exists>h' p. record_edit (history_new 0) None (identity_cs 3) demo_ab demo_set demo_set 0 = Some (h', p) \<and> current h' = 1"
proof -
  have "ed_changes (edited_unchanged demo_state) = identity_cs 3" "next_id (history_new 0) = 1"
    "es_sels (ed_state (edited_unchanged demo_state)) = demo_set"
    by (simp_all add: edited_unchanged_def demo_ab_def len_chars_def history_new_def numeral_3_eq_3)
  with recording_keeps_tree [OF demo_session(2,3), of None 0] show ?thesis
    unfolding demo_state_simps by metis
qed



theorem undo_reaches_root_witness:
  "\<exists>h ts h'. current h = 1 \<and> undo_n 5 h = Some (ts, h') \<and> current h' = ROOT"
proof -
  obtain h where h: "session demo_seg h demo_state" "current h = 1" using demo_recorded by blast
  from undo_reaches_root [OF demo_seg_ok h(1), of 4] h(2) show ?thesis by auto
qed

theorem time_steps_exact_witness:
  "\<exists>t. rev_age (history_new 0) ROOT 3 = Some t \<and> t < 7 \<and>
     undo_steps_older_than (history_new 0) 7 3 = Some (Inl 0)"
proof -
  have age: "rev_age (history_new 0) ROOT 3 = Some 3" "current (history_new 0) = ROOT"
    "history_parent (history_new 0) ROOT = None"
    by (simp_all add: rev_age_def rev_at_def history_new_def history_parent_def rev_parent_def)
  obtain xs a t where x: "climbs (history_new 0) ROOT xs a" "rev_age (history_new 0) a 3 = Some t"
    "undo_steps_older_than (history_new 0) 7 3 = Some (if t < 7 then Inl (length xs) else Inr (length xs))"
    using time_steps_exact [OF demo_seg_ok demo_session(1), of 3 7] age(2) by metis
  then have "xs = []" "a = ROOT" using age(3) by (cases xs; auto)+
  with x age(1) show ?thesis by simp
qed


end
