(* ===== verification/Persist.thy ===== *)
theory Persist imports HistorySession begin

text \<open>
  A history as plain data, \<open>hume-editing/src/history/persist.rs\<close>: the snapshot of an undo tree and
  its restoration on the text of its current revision. The hash maps are association lists in the
  order of the snapshot; an iteration over one only decides which of several bad revisions an error
  names. A \<open>SystemTime\<close> counts ticks from the Unix epoch, and \<open>max_time\<close> is the last one the
  platform can represent. Ids are \<open>usize\<close>, so the next one is a checked addition.
\<close>

section \<open>Snapshots\<close>

record link_snapshot =
  ls_parent :: nat
  ls_change :: "operation list"
  ls_before :: sels_snapshot
  ls_after :: sels_snapshot

record revision_snapshot =
  rs_id :: nat
  rs_link :: "link_snapshot option"
  rs_since :: nat
  rs_owned :: bool
  rs_redo :: "nat option"

record history_snapshot =
  hs_current :: nat
  hs_revisions :: "revision_snapshot list"

datatype restore_error = Duplicate nat | NoRoot | BadParent nat | NoCurrent | BadRedo nat
  | BadTimestamp nat | BadChange nat | BadSelections nat

text \<open>The owner of the newest revision a pane made.\<close>

definition newest_owner :: "history \<Rightarrow> owner option" where
  "newest_owner h =
     (let made = sort_key fst (filter (\<lambda>(_, owner). owner \<noteq> Nobody)
            (map (\<lambda>(rid, r). (rid, owner_of h r)) (revisions h)))
      in if made = [] then None else Some (snd (last made)))"

definition link_snapshot_of :: "revision_id set \<Rightarrow> revision_id \<Rightarrow> link \<Rightarrow> link_snapshot" where
  "link_snapshot_of spine rid l =
     \<lparr>ls_parent = lk_parent l,
      ls_change = ops (tx_changes (if rid \<in> spine then lk_inverse l else lk_forward l)),
      ls_before = snapshot_of (tx_selection (lk_inverse l)),
      ls_after = snapshot_of (tx_selection (lk_forward l))\<rparr>"

definition revision_snapshot_of ::
  "history \<Rightarrow> revision_id set \<Rightarrow> owner option \<Rightarrow> revision_id \<Rightarrow> revision \<Rightarrow> revision_snapshot"
where
  "revision_snapshot_of h spine kept rid r =
     \<lparr>rs_id = rid, rs_link = map_option (link_snapshot_of spine rid) (rv_link r),
      rs_since = nat (rv_time r), rs_owned = (Some (owner_of h r) = kept),
      rs_redo = ch_redo (rv_children r)\<rparr>"

definition history_snapshot_of :: "history \<Rightarrow> history_snapshot option" where
  "history_snapshot_of h = do {
     p \<leftarrow> path h ROOT;
     (spine, _) \<leftarrow> p;
     let kept = newest_owner h;
     Some \<lparr>hs_current = current h,
       hs_revisions = sort_key rs_id
         (map (\<lambda>(rid, r). revision_snapshot_of h (set spine) kept rid r) (revisions h))\<rparr> }"

section \<open>The indexed snapshot\<close>

record snapshot_tree =
  tr_current :: nat
  tr_revisions :: "(nat \<times> revision_snapshot) list"
  tr_children :: "(nat \<times> nat list) list"
  tr_spine :: "nat set"

fun index_revisions ::
  "revision_snapshot list \<Rightarrow> (nat \<times> revision_snapshot) list \<Rightarrow>
   restore_error + (nat \<times> revision_snapshot) list"
where
  "index_revisions [] revs = Inr revs"
| "index_revisions (r # rs) revs =
     (if map_of revs (rs_id r) \<noteq> None then Inl (Duplicate (rs_id r))
      else index_revisions rs (revs @ [(rs_id r, r)]))"

fun index_children ::
  "(nat \<times> revision_snapshot) list \<Rightarrow> (nat \<times> revision_snapshot) list \<Rightarrow> (nat \<times> nat list) list \<Rightarrow>
   restore_error + (nat \<times> nat list) list"
where
  "index_children revs [] children = Inr children"
| "index_children revs ((rid, r) # rs) children =
     (case rs_link r of
        None \<Rightarrow> if rid = 0 then index_children revs rs children else Inl (BadParent rid)
      | Some l \<Rightarrow>
          if ls_parent l \<ge> rid \<or> map_of revs (ls_parent l) = None then Inl (BadParent rid)
          else index_children revs rs (AList.update (ls_parent l)
            ((case map_of children (ls_parent l) of None \<Rightarrow> [] | Some ids \<Rightarrow> ids) @ [rid]) children))"

text \<open>The current revision and its ancestors, from the current one up.\<close>

partial_function (option) ancestors :: "(nat \<times> revision_snapshot) list \<Rightarrow> nat \<Rightarrow> nat list option" where
  [code]: "ancestors revs rid =
     Option.bind (map_of revs rid) (\<lambda>r.
       case rs_link r of
         None \<Rightarrow> Some [rid]
       | Some l \<Rightarrow> Option.bind (ancestors revs (ls_parent l)) (\<lambda>up. Some (rid # up)))"

definition kids_of :: "(nat \<times> nat list) list \<Rightarrow> nat \<Rightarrow> nat list" where
  "kids_of children rid = (case map_of children rid of None \<Rightarrow> [] | Some ids \<Rightarrow> ids)"

definition redo_sound :: "nat set \<Rightarrow> nat list \<Rightarrow> nat option \<Rightarrow> bool" where
  "redo_sound spine kids redo_id = (case redo_id of
     None \<Rightarrow> kids = []
   | Some r \<Rightarrow> r \<in> set kids \<and> list_all (\<lambda>kid. kid \<notin> spine \<or> kid = r) kids)"

definition epoch_plus :: "nat \<Rightarrow> nat \<Rightarrow> int option" where
  "epoch_plus max_time since = (if since \<le> max_time then Some (int since) else None)"

fun check_revisions ::
  "nat \<Rightarrow> (nat \<times> nat list) list \<Rightarrow> nat set \<Rightarrow> (nat \<times> revision_snapshot) list \<Rightarrow> restore_error option"
where
  "check_revisions max_time children spine [] = None"
| "check_revisions max_time children spine ((rid, r) # rs) =
     (if \<not> redo_sound spine (kids_of children rid) (rs_redo r) then Some (BadRedo rid)
      else if epoch_plus max_time (rs_since r) = None then Some (BadTimestamp rid)
      else check_revisions max_time children spine rs)"

definition index_snapshot :: "nat \<Rightarrow> history_snapshot \<Rightarrow> (restore_error + snapshot_tree) option" where
  "index_snapshot max_time sn =
     (case index_revisions (hs_revisions sn) [] of
        Inl e \<Rightarrow> Some (Inl e)
      | Inr revs \<Rightarrow>
          if (case map_of revs 0 of None \<Rightarrow> True | Some root \<Rightarrow> rs_link root \<noteq> None) then Some (Inl NoRoot)
          else (case index_children revs revs [] of
              Inl e \<Rightarrow> Some (Inl e)
            | Inr children \<Rightarrow>
                let children = map (\<lambda>(rid, ids). (rid, sort ids)) children in
                if map_of revs (hs_current sn) = None then Some (Inl NoCurrent)
                else do {
                  up \<leftarrow> ancestors revs (hs_current sn);
                  let spine = set (filter (\<lambda>rid. rid \<noteq> 0) up);
                  Some (case check_revisions max_time children spine revs of
                      Some e \<Rightarrow> Inl e
                    | None \<Rightarrow> Inr \<lparr>tr_current = hs_current sn, tr_revisions = revs,
                        tr_children = children, tr_spine = spine\<rparr>) }))"

section \<open>Rebuilding the links\<close>

text \<open>\<open>link\<close>: the stored change of a revision is taken out of the tree, once.\<close>

definition take_link :: "snapshot_tree \<Rightarrow> nat \<Rightarrow> (link_snapshot \<times> snapshot_tree) option" where
  "take_link t rid = do {
     r \<leftarrow> map_of (tr_revisions t) rid;
     l \<leftarrow> rs_link r;
     Some (l, t\<lparr>tr_revisions := AList.update rid (r\<lparr>rs_link := None\<rparr>) (tr_revisions t)\<rparr>) }"

definition relink ::
  "segmentation \<Rightarrow> store \<Rightarrow> bool \<Rightarrow> nat \<Rightarrow> buffer_text \<Rightarrow> link_snapshot \<Rightarrow>
   (restore_error + store \<times> buffer_text \<times> link) option"
where
  "relink B st up rid here stored =
     (case from_ops (ls_change stored) (len_chars here) of
       None \<Rightarrow> Some (Inl (BadChange rid))
     | Some changes \<Rightarrow>
         if is_identity changes then Some (Inl (BadChange rid))
         else do {
           r \<leftarrow> apply_cs changes st here;
           case r of
             Inl e \<Rightarrow> Some (Inl (BadChange rid))
           | Inr (st, there) \<Rightarrow> do {
               opposite \<leftarrow> invert_cs changes here;
               let (parent_text, own_text) = (if up then (there, here) else (here, there));
               before \<leftarrow> snapshot_on B (ls_before stored) parent_text;
               case before of
                 None \<Rightarrow> Some (Inl (BadSelections rid))
               | Some before_sels \<Rightarrow> do {
                   after \<leftarrow> snapshot_on B (ls_after stored) own_text;
                   case after of
                     None \<Rightarrow> Some (Inl (BadSelections rid))
                   | Some after_sels \<Rightarrow>
                       (let (inverse, forward) =
                          (if up then (changes, opposite) else (opposite, changes))
                        in Some (Inr (st, there,
                          \<lparr>lk_parent = ls_parent stored,
                           lk_inverse = \<lparr>tx_changes = inverse, tx_selection = before_sels\<rparr>,
                           lk_forward = \<lparr>tx_changes = forward, tx_selection = after_sels\<rparr>\<rparr>))) } } })"

definition rebuild_link ::
  "segmentation \<Rightarrow> store \<Rightarrow> snapshot_tree \<Rightarrow> nat \<Rightarrow> buffer_text \<Rightarrow>
   (restore_error + store \<times> snapshot_tree \<times> buffer_text \<times> link) option"
where
  "rebuild_link B st t rid here = do {
     (stored, t) \<leftarrow> take_link t rid;
     r \<leftarrow> relink B st (rid \<in> tr_spine t) rid here stored;
     Some (case r of Inl e \<Rightarrow> Inl e | Inr (st, there, l) \<Rightarrow> Inr (st, t, there, l)) }"

text \<open>The walk out from the current revision: its state, the revisions below the one at hand, and
  the loop over the stack, the top its last element.\<close>

record walk =
  wk_store :: store
  wk_tree :: snapshot_tree
  wk_links :: "(revision_id \<times> link) list"
  wk_stack :: "(nat \<times> buffer_text) list"

fun rebuild_kids :: "segmentation \<Rightarrow> nat list \<Rightarrow> buffer_text \<Rightarrow> walk \<Rightarrow> (restore_error + walk) option" where
  "rebuild_kids B [] here w = Some (Inr w)"
| "rebuild_kids B (kid # kids) here w = do {
     r \<leftarrow> rebuild_link B (wk_store w) (wk_tree w) kid here;
     case r of
       Inl e \<Rightarrow> Some (Inl e)
     | Inr (st, t, kid_text, l) \<Rightarrow>
         rebuild_kids B kids here
           \<lparr>wk_store = st, wk_tree = t, wk_links = AList.update kid l (wk_links w),
            wk_stack = wk_stack w @ [(kid, kid_text)]\<rparr> }"

definition rebuild_step :: "segmentation \<Rightarrow> walk \<Rightarrow> nat \<Rightarrow> buffer_text \<Rightarrow> (restore_error + walk) option" where
  "rebuild_step B w rid here = do {
     r \<leftarrow> (if rid \<in> tr_spine (wk_tree w) then do {
             r \<leftarrow> rebuild_link B (wk_store w) (wk_tree w) rid here;
             Some (case r of
                 Inl e \<Rightarrow> Inl e
               | Inr (st, t, parent_text, l) \<Rightarrow>
                   Inr \<lparr>wk_store = st, wk_tree = t, wk_links = AList.update rid l (wk_links w),
                     wk_stack = wk_stack w @ [(lk_parent l, parent_text)]\<rparr>) }
           else Some (Inr w));
     case r of
       Inl e \<Rightarrow> Some (Inl e)
     | Inr w \<Rightarrow>
         rebuild_kids B (filter (\<lambda>kid. kid \<notin> tr_spine (wk_tree w)) (kids_of (tr_children (wk_tree w)) rid))
           here w }"

text \<open>A step that may panic or fail, and what follows it.\<close>

lemma bind_sum_Inr:
  "(m \<bind> case_sum (\<lambda>e. Some (Inl e)) f) = Some (Inr y) \<longleftrightarrow> (\<exists>x. m = Some (Inr x) \<and> f x = Some (Inr y))"
  by (cases m) (auto split: sum.splits)

text \<open>Each step uses up as many stored links as it pushes revisions, so the walk ends.\<close>

definition pending :: "snapshot_tree \<Rightarrow> nat" where
  "pending t = length (filter (\<lambda>(_, r). rs_link r \<noteq> None) (tr_revisions t))"

lemma pending_update:
  "map_of m k = Some r \<Longrightarrow> rs_link r = Some l \<Longrightarrow> rs_link r' = None \<Longrightarrow>
   length (filter (\<lambda>(_, r). rs_link r \<noteq> None) m) =
     Suc (length (filter (\<lambda>(_, r). rs_link r \<noteq> None) (AList.update k r' m)))"
  by (induction m) (auto split: if_splits)

lemma take_link_pending: "take_link t rid = Some (l, t') \<Longrightarrow> pending t = Suc (pending t')"
proof -
  assume "take_link t rid = Some (l, t')"
  then obtain r where r: "map_of (tr_revisions t) rid = Some r" "rs_link r = Some l"
    and t': "t' = t\<lparr>tr_revisions := AList.update rid (r\<lparr>rs_link := None\<rparr>) (tr_revisions t)\<rparr>"
    by (auto simp: take_link_def bind_eq_Some_conv)
  have "rs_link (r\<lparr>rs_link := None\<rparr>) = None" by simp
  note less = pending_update [OF r this]
  have "tr_revisions t' = AList.update rid (r\<lparr>rs_link := None\<rparr>) (tr_revisions t)" by (simp add: t')
  with less show ?thesis unfolding pending_def by metis
qed

lemma rebuild_link_Inr:
  "rebuild_link B st t rid here = Some (Inr (st', t', there, l)) \<longleftrightarrow>
   (\<exists>stored. take_link t rid = Some (stored, t') \<and>
      relink B st (rid \<in> tr_spine t') rid here stored = Some (Inr (st', there, l)))"
proof (cases "take_link t rid")
  case (Some p)
  obtain stored t1 where p: "p = (stored, t1)" by (cases p)
  show ?thesis
    by (cases "relink B st (rid \<in> tr_spine t1) rid here stored")
      (auto simp: rebuild_link_def Some p split: sum.splits)
qed (simp add: rebuild_link_def)

lemma rebuild_link_pending:
  "rebuild_link B st t rid here = Some (Inr (st', t', there, l)) \<Longrightarrow> pending t = Suc (pending t')"
  by (auto simp: rebuild_link_Inr take_link_pending)

definition walk_size :: "walk \<Rightarrow> nat" where
  "walk_size w = 2 * pending (wk_tree w) + length (wk_stack w)"

lemma rebuild_kids_size: "rebuild_kids B kids here w = Some (Inr w') \<Longrightarrow> walk_size w' \<le> walk_size w"
proof (induction kids arbitrary: w)
  case (Cons kid kids)
  obtain st t kid_text l where r: "rebuild_link B (wk_store w) (wk_tree w) kid here = Some (Inr (st, t, kid_text, l))"
    and w': "rebuild_kids B kids here \<lparr>wk_store = st, wk_tree = t, wk_links = AList.update kid l (wk_links w),
      wk_stack = wk_stack w @ [(kid, kid_text)]\<rparr> = Some (Inr w')"
    using Cons.prems by (auto simp: bind_sum_Inr)
  from Cons.IH [OF w'] rebuild_link_pending [OF r] show ?case by (simp add: walk_size_def)
qed simp

lemma rebuild_step_size: "rebuild_step B w rid here = Some (Inr w') \<Longrightarrow> walk_size w' \<le> walk_size w"
proof -
  assume "rebuild_step B w rid here = Some (Inr w')"
  then obtain w1 where "walk_size w1 \<le> walk_size w"
    and w': "rebuild_kids B (filter (\<lambda>kid. kid \<notin> tr_spine (wk_tree w1)) (kids_of (tr_children (wk_tree w1)) rid))
      here w1 = Some (Inr w')"
  proof (cases "rid \<in> tr_spine (wk_tree w)")
    case True
    then obtain st t there l where "rebuild_link B (wk_store w) (wk_tree w) rid here = Some (Inr (st, t, there, l))"
      "rebuild_kids B (filter (\<lambda>kid. kid \<notin> tr_spine t) (kids_of (tr_children t) rid)) here
         \<lparr>wk_store = st, wk_tree = t, wk_links = AList.update rid l (wk_links w),
           wk_stack = wk_stack w @ [(lk_parent l, there)]\<rparr> = Some (Inr w')"
      using \<open>rebuild_step B w rid here = Some (Inr w')\<close>
      by (auto simp: rebuild_step_def bind_sum_Inr bind_eq_Some_conv split: sum.splits)
    then show thesis using rebuild_link_pending
      by (intro that [of "\<lparr>wk_store = st, wk_tree = t, wk_links = AList.update rid l (wk_links w),
           wk_stack = wk_stack w @ [(lk_parent l, there)]\<rparr>"]) (simp_all add: walk_size_def)
  next
    case False
    with \<open>rebuild_step B w rid here = Some (Inr w')\<close> show thesis
      by (intro that [of w]) (simp_all add: rebuild_step_def)
  qed
  with rebuild_kids_size [OF w'] show ?thesis by simp
qed

function rebuild_loop :: "segmentation \<Rightarrow> walk \<Rightarrow> (restore_error + walk) option" where
  "rebuild_loop B w =
     (if wk_stack w = [] then Some (Inr w)
      else (let (rid, here) = last (wk_stack w) in
        case rebuild_step B (w\<lparr>wk_stack := butlast (wk_stack w)\<rparr>) rid here of
          None \<Rightarrow> None
        | Some (Inl e) \<Rightarrow> Some (Inl e)
        | Some (Inr w') \<Rightarrow> rebuild_loop B w'))"
  by pat_completeness auto

termination
proof (relation "measure (\<lambda>(B, w). walk_size w)", goal_cases)
  case (2 B w p rid here r w')
  have "length (butlast (wk_stack w)) < length (wk_stack w)" using 2(1) by simp
  then have "walk_size (w\<lparr>wk_stack := butlast (wk_stack w)\<rparr>) < walk_size w" by (simp add: walk_size_def)
  with rebuild_step_size 2 show ?case by fastforce
qed simp

declare rebuild_loop.simps [simp del]

definition restored_revision ::
  "nat \<Rightarrow> snapshot_tree \<Rightarrow> (revision_id \<times> link) list \<Rightarrow> nat \<Rightarrow> revision_snapshot \<Rightarrow> revision option"
where
  "restored_revision max_time t links rid sn = do {
     let children = foldl children_push children_default (kids_of (tr_children t) rid);
     children \<leftarrow> (case rs_redo sn of None \<Rightarrow> Some children | Some child \<Rightarrow> children_set_redo children child);
     time \<leftarrow> epoch_plus max_time (rs_since sn);
     Some \<lparr>rv_link = map_of links rid, rv_owner = (if rs_owned sn then Restored else Nobody),
       rv_children = children, rv_time = time\<rparr> }"

fun restored_revisions ::
  "nat \<Rightarrow> snapshot_tree \<Rightarrow> (revision_id \<times> link) list \<Rightarrow> (nat \<times> revision_snapshot) list \<Rightarrow>
   (revision_id \<times> revision) list option"
where
  "restored_revisions max_time t links [] = Some []"
| "restored_revisions max_time t links ((rid, sn) # rs) = do {
     r \<leftarrow> restored_revision max_time t links rid sn;
     rest \<leftarrow> restored_revisions max_time t links rs;
     Some ((rid, r) # rest) }"

definition rebuild ::
  "segmentation \<Rightarrow> nat \<Rightarrow> store \<Rightarrow> snapshot_tree \<Rightarrow> buffer_text \<Rightarrow>
   (restore_error + store \<times> (revision_id \<times> revision) list) option"
where
  "rebuild B max_time st t text = do {
     r \<leftarrow> rebuild_loop B \<lparr>wk_store = st, wk_tree = t, wk_links = [], wk_stack = [(tr_current t, text)]\<rparr>;
     case r of
       Inl e \<Rightarrow> Some (Inl e)
     | Inr w \<Rightarrow> do {
         revs \<leftarrow> restored_revisions max_time (wk_tree w) (wk_links w) (tr_revisions (wk_tree w));
         Some (Inr (wk_store w, revs)) } }"

definition restore ::
  "segmentation \<Rightarrow> nat \<Rightarrow> store \<Rightarrow> history \<Rightarrow> history_snapshot \<Rightarrow> buffer_text \<Rightarrow>
   (restore_error + store \<times> history) option"
where
  "restore B max_time st h sn text = do {
     r \<leftarrow> index_snapshot max_time sn;
     case r of
       Inl e \<Rightarrow> Some (Inl e)
     | Inr t \<Rightarrow> do {
         next \<leftarrow> (if keys (tr_revisions t) = [] then Some 1
           else checked_add (Max (set (keys (tr_revisions t)))) 1);
         r \<leftarrow> rebuild B max_time st t text;
         Some (case r of
             Inl e \<Rightarrow> Inl e
           | Inr (st, revs) \<Rightarrow> Inr (st, \<lparr>revisions = revs, current = tr_current t, next_id = next,
               undo_levels = undo_levels h, change_seq = change_seq h + 1, claimed_by = claimed_by h\<rparr>)) } }"

section \<open>Sound snapshots\<close>

definition snap_parent :: "(nat \<times> revision_snapshot) list \<Rightarrow> nat \<Rightarrow> nat option" where
  "snap_parent revs i = Option.bind (map_of revs i) (\<lambda>r. map_option ls_parent (rs_link r))"

definition spine_of :: "(nat \<times> revision_snapshot) list \<Rightarrow> nat \<Rightarrow> nat set" where
  "spine_of revs i = {j. j \<noteq> 0 \<and> (i, j) \<in> {(j, p). snap_parent revs j = Some p}\<^sup>*}"

definition parents_sound :: "(nat \<times> revision_snapshot) list \<Rightarrow> bool" where
  "parents_sound revs \<longleftrightarrow> (\<exists>r. map_of revs 0 = Some r \<and> rs_link r = None) \<and>
     (\<forall>i. map_of revs i \<noteq> None \<and> i \<noteq> 0 \<longrightarrow>
        (\<exists>p. snap_parent revs i = Some p \<and> p < i \<and> map_of revs p \<noteq> None))"

definition redos_sound :: "nat \<Rightarrow> (nat \<times> revision_snapshot) list \<Rightarrow> nat \<Rightarrow> bool" where
  "redos_sound max_time revs now \<longleftrightarrow> (\<forall>i r. map_of revs i = Some r \<longrightarrow> rs_since r \<le> max_time \<and>
     (case rs_redo r of
        None \<Rightarrow> \<forall>j. snap_parent revs j \<noteq> Some i
      | Some c \<Rightarrow> snap_parent revs c = Some i \<and>
          (\<forall>j. snap_parent revs j = Some i \<and> j \<in> spine_of revs now \<longrightarrow> j = c)))"

definition snapshot_sound :: "nat \<Rightarrow> (nat \<times> revision_snapshot) list \<Rightarrow> nat \<Rightarrow> bool" where
  "snapshot_sound max_time revs now \<longleftrightarrow> distinct (keys revs) \<and> parents_sound revs \<and>
     map_of revs now \<noteq> None \<and> redos_sound max_time revs now"

definition tree_of :: "(nat \<times> revision_snapshot) list \<Rightarrow> nat \<Rightarrow> snapshot_tree \<Rightarrow> bool" where
  "tree_of revs now t \<longleftrightarrow> tr_current t = now \<and> tr_revisions t = revs \<and> tr_spine t = spine_of revs now \<and>
     (\<forall>p. sorted (kids_of (tr_children t) p) \<and> distinct (kids_of (tr_children t) p) \<and>
        set (kids_of (tr_children t) p) = {i. snap_parent revs i = Some p})"

lemma index_revisions_eq:
  "distinct (keys revs) \<Longrightarrow>
   (case index_revisions rs revs of
      Inl e \<Rightarrow> \<not> distinct (keys revs @ map rs_id rs)
    | Inr revs' \<Rightarrow> revs' = revs @ map (\<lambda>r. (rs_id r, r)) rs \<and> distinct (keys revs @ map rs_id rs))"
proof (induction rs arbitrary: revs)
  case (Cons r rs)
  show ?case
  proof (cases "rs_id r \<in> set (keys revs)")
    case True
    then have "map_of revs (rs_id r) \<noteq> None" by (auto simp: map_of_eq_None_iff keys_def)
    with True show ?thesis by auto
  next
    case False
    then have "map_of revs (rs_id r) = None" by (auto simp: map_of_eq_None_iff keys_def)
    moreover have "distinct (keys (revs @ [(rs_id r, r)]))" using Cons.prems False by (simp add: keys_def)
    ultimately show ?thesis using Cons.IH [of "revs @ [(rs_id r, r)]"]
      by (auto simp: keys_def split: sum.splits)
  qed
qed simp

definition parent_is :: "nat \<Rightarrow> nat \<times> revision_snapshot \<Rightarrow> bool" where
  "parent_is p = (\<lambda>(i, r). map_option ls_parent (rs_link r) = Some p)"

lemma kids_of_update: "kids_of (AList.update q ids ch) p = (if p = q then ids else kids_of ch p)"
  by (simp add: kids_of_def update_conv')

lemma index_children_eq:
  "case index_children revs rs ch of
     Inl e \<Rightarrow> \<not> (\<forall>(i, r) \<in> set rs. case rs_link r of None \<Rightarrow> i = 0
         | Some l \<Rightarrow> ls_parent l < i \<and> map_of revs (ls_parent l) \<noteq> None)
   | Inr ch' \<Rightarrow> (\<forall>p. kids_of ch' p = kids_of ch p @ map fst (filter (parent_is p) rs)) \<and>
       (\<forall>(i, r) \<in> set rs. case rs_link r of None \<Rightarrow> i = 0
         | Some l \<Rightarrow> ls_parent l < i \<and> map_of revs (ls_parent l) \<noteq> None)"
proof (induction revs rs ch rule: index_children.induct)
  case (2 revs rid r rs children)
  show ?case
  proof (cases "rs_link r")
    case None
    with 2(1) show ?thesis by (cases "rid = 0") (auto simp: parent_is_def split: sum.splits)
  next
    case (Some l)
    show ?thesis
    proof (cases "ls_parent l \<ge> rid \<or> map_of revs (ls_parent l) = None")
      case True
      with Some show ?thesis by (auto simp: not_le)
    next
      case False
      with Some 2(2) [OF Some] show ?thesis
        by (auto simp: parent_is_def kids_of_update not_le kids_of_def [symmetric] split: sum.splits if_splits)
    qed
  qed
qed simp

lemma ancestors_eq:
  assumes "parents_sound revs" "map_of revs i \<noteq> None"
  shows "\<exists>up. ancestors revs i = Some up \<and> set up = {j. (i, j) \<in> {(j, p). snap_parent revs j = Some p}\<^sup>*}"
  using assms(2)
proof (induction i rule: less_induct)
  case (less i)
  let ?R = "{(j, p). snap_parent revs j = Some p}"
  obtain r where r: "map_of revs i = Some r" using less.prems by blast
  show ?case
  proof (cases "rs_link r")
    case None
    then have "snap_parent revs i = None" using r by (simp add: snap_parent_def)
    then have "{j. (i, j) \<in> ?R\<^sup>*} = {i}" by (auto elim: converse_rtranclE)
    with None r show ?thesis by (simp add: ancestors.simps [of revs i])
  next
    case (Some l)
    then have p: "snap_parent revs i = Some (ls_parent l)" using r by (simp add: snap_parent_def)
    have "i \<noteq> 0" using assms(1) r Some by (auto simp: parents_sound_def)
    then have "ls_parent l < i" "map_of revs (ls_parent l) \<noteq> None"
      using assms(1) p less.prems unfolding parents_sound_def by auto
    from less.IH [OF this] obtain up where up: "ancestors revs (ls_parent l) = Some up"
      "set up = {j. (ls_parent l, j) \<in> ?R\<^sup>*}" by blast
    have "{j. (i, j) \<in> ?R\<^sup>*} = insert i {j. (ls_parent l, j) \<in> ?R\<^sup>*}"
      using p by (auto elim: converse_rtranclE intro: converse_rtrancl_into_rtrancl)
    with up r Some show ?thesis by (simp add: ancestors.simps [of revs i])
  qed
qed

lemma check_revisions_eq:
  "check_revisions max_time ch sp rs = None \<longleftrightarrow>
   (\<forall>(i, r) \<in> set rs. redo_sound sp (kids_of ch i) (rs_redo r) \<and> rs_since r \<le> max_time)"
proof (induction rs)
  case (Cons x rs)
  obtain i r where x: "x = (i, r)" by (cases x)
  show ?case using Cons
    by (cases "redo_sound sp (kids_of ch i) (rs_redo r)"; cases "rs_since r \<le> max_time")
      (simp_all add: x epoch_plus_def)
qed simp

fun shape_error :: "restore_error \<Rightarrow> bool" where
  "shape_error (BadChange i) = False"
| "shape_error (BadSelections i) = False"
| "shape_error e = True"

lemma index_errors:
  "index_revisions rs revs = Inl e \<Longrightarrow> shape_error e"
  "index_children all rs1 ch = Inl e' \<Longrightarrow> shape_error e'"
  "check_revisions max_time kids sp rs' = Some e'' \<Longrightarrow> shape_error e''"
proof -
  show "index_revisions rs revs = Inl e \<Longrightarrow> shape_error e"
    by (induction rs arbitrary: revs) (auto split: if_splits)
  show "index_children all rs1 ch = Inl e' \<Longrightarrow> shape_error e'"
    by (induction all rs1 ch rule: index_children.induct) (auto split: if_splits option.splits)
  show "check_revisions max_time kids sp rs' = Some e'' \<Longrightarrow> shape_error e''"
    by (induction rs') (auto split: if_splits)
qed

lemma snap_parent_in:
  "distinct (keys revs) \<Longrightarrow> snap_parent revs i = Some p \<longleftrightarrow> (\<exists>r l. (i, r) \<in> set revs \<and> rs_link r = Some l \<and> ls_parent l = p)"
  by (auto simp: snap_parent_def bind_eq_Some_conv keys_def)

lemma parents_sound_iff:
  assumes "distinct (keys revs)" "map_of revs 0 = Some root" "rs_link root = None"
  shows "parents_sound revs \<longleftrightarrow> (\<forall>(i, r) \<in> set revs. case rs_link r of None \<Rightarrow> i = 0
     | Some l \<Rightarrow> ls_parent l < i \<and> map_of revs (ls_parent l) \<noteq> None)" (is "_ \<longleftrightarrow> ?all")
proof
  assume s: "parents_sound revs"
  show ?all
  proof clarify
    fix i r assume ir: "(i, r) \<in> set revs"
    then have m: "map_of revs i = Some r" using assms(1) by (simp add: keys_def)
    show "case rs_link r of None \<Rightarrow> i = 0 | Some l \<Rightarrow> ls_parent l < i \<and> map_of revs (ls_parent l) \<noteq> None"
    proof (cases "i = 0")
      case True
      with m assms(2,3) show ?thesis by simp
    next
      case False
      with s m obtain p where "snap_parent revs i = Some p" "p < i" "map_of revs p \<noteq> None"
        unfolding parents_sound_def by blast
      with m show ?thesis by (auto simp: snap_parent_def)
    qed
  qed
next
  assume a: ?all
  have "\<exists>p. snap_parent revs i = Some p \<and> p < i \<and> map_of revs p \<noteq> None"
    if i: "map_of revs i \<noteq> None" "i \<noteq> 0" for i
  proof -
    obtain r where m: "map_of revs i = Some r" using i(1) by blast
    with a have "case rs_link r of None \<Rightarrow> i = 0 | Some l \<Rightarrow> ls_parent l < i \<and> map_of revs (ls_parent l) \<noteq> None"
      by (auto dest: map_of_SomeD)
    with i(2) m show ?thesis by (auto simp: snap_parent_def split: option.splits)
  qed
  with assms(2,3) show "parents_sound revs" by (auto simp: parents_sound_def)
qed

lemma kids_of_sorted: "kids_of (map (\<lambda>(i, ids). (i, sort ids)) ch) p = sort (kids_of ch p)"
  by (simp add: kids_of_def map_of_map split: option.splits)

lemma redo_sound_iff:
  "set kids = {j. snap_parent revs j = Some i} \<Longrightarrow>
   redo_sound sp kids redo_id \<longleftrightarrow> (case redo_id of
        None \<Rightarrow> \<forall>j. snap_parent revs j \<noteq> Some i
      | Some c \<Rightarrow> snap_parent revs c = Some i \<and> (\<forall>j. snap_parent revs j = Some i \<and> j \<in> sp \<longrightarrow> j = c))"
  by (auto simp: redo_sound_def list_all_iff split: option.splits)

lemma index_snapshot_eq:
  fixes sn defines "revs \<equiv> map (\<lambda>r. (rs_id r, r)) (hs_revisions sn)"
  shows "\<exists>r. index_snapshot max_time sn = Some r \<and>
    (case r of Inl e \<Rightarrow> \<not> snapshot_sound max_time revs (hs_current sn) \<and> shape_error e
     | Inr t \<Rightarrow> snapshot_sound max_time revs (hs_current sn) \<and> tree_of revs (hs_current sn) t)"
proof (cases "index_revisions (hs_revisions sn) []")
  case (Inl e)
  then have "\<not> distinct (keys revs)"
    using index_revisions_eq [of "[]" "hs_revisions sn"] by (simp add: revs_def keys_def comp_def)
  with Inl index_errors(1) show ?thesis by (auto simp: index_snapshot_def snapshot_sound_def)
next
  case (Inr revs')
  then have d: "revs' = revs" "distinct (keys revs)"
    using index_revisions_eq [of "[]" "hs_revisions sn"] by (simp_all add: revs_def keys_def comp_def)
  show ?thesis
  proof (cases "\<exists>root. map_of revs 0 = Some root \<and> rs_link root = None")
    case False
    then have "\<not> parents_sound revs" by (auto simp: parents_sound_def)
    with False Inr d(1) show ?thesis by (auto simp: index_snapshot_def snapshot_sound_def split: option.splits)
  next
    case True
    then obtain root where root: "map_of revs 0 = Some root" "rs_link root = None" by blast
    note ps = parents_sound_iff [OF d(2) root]
    show ?thesis
    proof (cases "index_children revs revs []")
      case c: (Inl e)
      then have "\<not> parents_sound revs" using index_children_eq [of revs revs "[]"] ps by simp
      with c Inr d(1) root index_errors(2) show ?thesis by (auto simp: index_snapshot_def snapshot_sound_def)
    next
      case c: (Inr ch)
      then have p: "parents_sound revs" and ch: "\<And>p. kids_of ch p = map fst (filter (parent_is p) revs)"
        using index_children_eq [of revs revs "[]"] ps by (simp_all add: kids_of_def)
      show ?thesis
      proof (cases "map_of revs (hs_current sn)")
        case None
        with c Inr d(1) root show ?thesis by (simp add: index_snapshot_def snapshot_sound_def)
      next
        case (Some now)
        let ?ch = "map (\<lambda>(i, ids). (i, sort ids)) ch"
        obtain up where up: "ancestors revs (hs_current sn) = Some up"
          "set up = {j. (hs_current sn, j) \<in> {(j, p). snap_parent revs j = Some p}\<^sup>*}"
          using ancestors_eq [OF p, of "hs_current sn"] Some by auto
        then have sp: "set (filter (\<lambda>j. j \<noteq> 0) up) = spine_of revs (hs_current sn)" by (auto simp: spine_of_def)
        have kids: "set (kids_of ?ch p) = {i. snap_parent revs i = Some p}" "distinct (kids_of ?ch p)"
            "sorted (kids_of ?ch p)" for p
          using d(2) by (force simp: kids_of_sorted ch snap_parent_in [OF d(2)] parent_is_def keys_def
              intro!: distinct_map_filter)+
        have "check_revisions max_time ?ch (spine_of revs (hs_current sn)) revs = None \<longleftrightarrow>
            redos_sound max_time revs (hs_current sn)"
          unfolding check_revisions_eq redos_sound_def redo_sound_iff [OF kids(1)]
          using d(2) by (auto simp: keys_def dest: map_of_SomeD)
        with c Inr d root Some up(1) sp p kids index_errors(3) [of max_time ?ch "spine_of revs (hs_current sn)" revs]
        show ?thesis
          by (cases "check_revisions max_time ?ch (spine_of revs (hs_current sn)) revs")
            (auto simp: index_snapshot_def snapshot_sound_def tree_of_def Let_def)
      qed
    qed
  qed
qed

section \<open>One rebuilt link\<close>

definition link_fits :: "segmentation \<Rightarrow> bool \<Rightarrow> ustring \<Rightarrow> link_snapshot \<Rightarrow> bool" where
  "link_fits B up here sl \<longleftrightarrow>
     (let there = emit (ls_change sl) here;
          (parent_text, own_text) = (if up then (there, here) else (here, there))
      in (\<exists>cs. from_ops (ls_change sl) (length here) = Some cs \<and> \<not> is_identity cs) \<and>
         is_valid_buffer_rope there \<and>
         snap_fits B (ls_before sl) parent_text \<and> snap_fits B (ls_after sl) own_text)"

definition selects :: "sels_snapshot \<Rightarrow> selection_set \<Rightarrow> bool" where
  "selects sn S \<longleftrightarrow> (sels_apart (snap_selections sn) \<longrightarrow>
     sels S = snap_selections sn \<and> primary S = snap_primary sn)"

lemma tx_makes_intro:
  assumes "wf_cs cs" "inserts_cr_free cs" "len_before cs = length t" "emit (ops cs) t = rope text"
    "buffer_ok text" "set_ok S" "set_version S = version text" "positions_fit B text (sels S)"
  shows "tx_makes B \<lparr>tx_changes = cs, tx_selection = S\<rparr> t (rope text)"
  using assms by (auto simp: tx_makes_def state_ok_def intro!: exI [of _ "\<lparr>es_text = text, es_sels = S\<rparr>"])

definition relinked ::
  "segmentation \<Rightarrow> bool \<Rightarrow> ustring \<Rightarrow> ustring \<Rightarrow> link_snapshot \<Rightarrow> link \<Rightarrow> bool"
where
  "relinked B up here there sl l \<longleftrightarrow>
     (let (parent_text, own_text) = (if up then (there, here) else (here, there)) in
      lk_parent l = ls_parent sl \<and>
      ops (tx_changes (if up then lk_inverse l else lk_forward l)) = ls_change sl \<and>
      tx_makes B (lk_inverse l) own_text parent_text \<and> tx_makes B (lk_forward l) parent_text own_text \<and>
      selects (ls_before sl) (tx_selection (lk_inverse l)) \<and>
      selects (ls_after sl) (tx_selection (lk_forward l)))"

lemma relink_cases:
  assumes "seg_ok B" "buffer_ok here"
  obtains e where "relink B st up rid here sl = Some (Inl e)" "\<not> shape_error e" "\<not> link_fits B up (rope here) sl"
    | st' there l where "relink B st up rid here sl = Some (Inr (st', there, l))" "link_fits B up (rope here) sl"
        "buffer_ok there" "rope there = emit (ls_change sl) (rope here)"
        "relinked B up (rope here) (rope there) sl l"
proof (cases "\<exists>cs. from_ops (ls_change sl) (length (rope here)) = Some cs \<and> \<not> is_identity cs")
  case False
  then have "relink B st up rid here sl = Some (Inl (BadChange rid))"
    by (auto simp: relink_def len_chars_def split: option.splits)
  then show thesis using that(1) False by (auto simp: link_fits_def Let_def split: prod.splits)
next
  case True
  then obtain cs where cs: "from_ops (ls_change sl) (length (rope here)) = Some cs" "\<not> is_identity cs" by blast
  then have wf: "ops cs = ls_change sl" "len_before cs = len_chars here" "wf_cs cs" "inserts_cr_free cs"
    by (simp_all add: from_ops_Some len_chars_def)
  let ?there = "emit (ls_change sl) (rope here)"
  show thesis
  proof (cases "is_valid_buffer_rope ?there")
    case False
    then have "relink B st up rid here sl = Some (Inl (BadChange rid))"
      using cs wf by (simp add: relink_def len_chars_def apply_cs_def applied_rope_eq)
    then show thesis using that(1) False by (auto simp: link_fits_def Let_def split: prod.splits)
  next
    case valid: True
    obtain st' there where a: "apply_cs cs st here = Some (Inr (st', there))" "rope there = ?there"
      by (rule apply_cs_ok [OF wf(3), of here st]) (use wf valid in simp_all)
    have there: "buffer_ok there" using apply_cs_Some(5) [OF wf(3) a(1)] assms(2) wf(4) by simp
    obtain icv where icv: "invert_cs cs here = Some icv" "wf_cs icv" "inserts_cr_free icv"
      "len_before icv = length (rope there)" "emit (ops icv) (rope there) = rope here"
      by (rule invert_makes [OF wf(3,4) assms(2) wf(2)]) (simp add: wf(1) a(2))
    define pt where "pt = (if up then there else here)"
    define ot where "ot = (if up then here else there)"
    have pot: "buffer_ok pt" "buffer_ok ot" using there assms(2) by (simp_all add: pt_def ot_def)
    have unfold: "relink B st up rid here sl = do {
       before \<leftarrow> snapshot_on B (ls_before sl) pt;
       case before of None \<Rightarrow> Some (Inl (BadSelections rid))
       | Some before_sels \<Rightarrow> do {
         after \<leftarrow> snapshot_on B (ls_after sl) ot;
         case after of None \<Rightarrow> Some (Inl (BadSelections rid))
         | Some after_sels \<Rightarrow> Some (Inr (st', there,
             \<lparr>lk_parent = ls_parent sl,
              lk_inverse = \<lparr>tx_changes = (if up then cs else icv), tx_selection = before_sels\<rparr>,
              lk_forward = \<lparr>tx_changes = (if up then icv else cs), tx_selection = after_sels\<rparr>\<rparr>)) } }"
      using cs a(1) icv(1) by (simp add: relink_def len_chars_def pt_def ot_def)
    have fits: "link_fits B up (rope here) sl \<longleftrightarrow> snap_fits B (ls_before sl) (rope pt) \<and> snap_fits B (ls_after sl) (rope ot)"
      using cs valid a(2) by (auto simp: link_fits_def pt_def ot_def)
    show thesis
    proof (cases rule: snapshot_on_cases [OF assms(1) pot(1), of "ls_before sl"])
      case 1
      then show thesis using that(1) [of "BadSelections rid"] by (simp add: unfold fits)
    next
      case before: (2 S)
      show thesis
      proof (cases rule: snapshot_on_cases [OF assms(1) pot(2), of "ls_after sl"])
        case 1
        then show thesis using that(1) [of "BadSelections rid"] before by (simp add: unfold fits)
      next
        case after: (2 S')
        let ?l = "\<lparr>lk_parent = ls_parent sl,
              lk_inverse = \<lparr>tx_changes = (if up then cs else icv), tx_selection = S\<rparr>,
              lk_forward = \<lparr>tx_changes = (if up then icv else cs), tx_selection = S'\<rparr>\<rparr>"
        have "tx_makes B (lk_inverse ?l) (rope ot) (rope pt)"
          unfolding link.simps by (rule tx_makes_intro [OF _ _ _ _ pot(1) before(3,4,5)])
            (use wf icv a(2) in \<open>simp_all add: pt_def ot_def len_chars_def\<close>)
        moreover have "tx_makes B (lk_forward ?l) (rope pt) (rope ot)"
          unfolding link.simps by (rule tx_makes_intro [OF _ _ _ _ pot(2) after(3,4,5)])
            (use wf icv a(2) in \<open>simp_all add: pt_def ot_def len_chars_def\<close>)
        ultimately have "relinked B up (rope here) (rope there) sl ?l"
          using before(6) after(6) wf(1) by (auto simp: relinked_def selects_def pt_def ot_def)
        with there a(2) before(1,2) after(1,2) show thesis
          by (intro that(2) [of st' there ?l]) (simp_all add: unfold fits)
      qed
    qed
  qed
qed

end
