(* ===== verification/Restore.thy ===== *)
theory Restore imports Persist begin

text \<open>
  The restoration of a saved history, proved: the walk out from the current revision crosses each
  edge of a sound snapshot once, the tree it rebuilds is well formed, and a saved history restores.
\<close>

section \<open>The walk\<close>

definition edge_ends :: "snapshot_tree \<Rightarrow> nat \<Rightarrow> link_snapshot \<Rightarrow> nat \<times> nat" where
  "edge_ends t i sl = (if i \<in> tr_spine t then (i, ls_parent sl) else (ls_parent sl, i))"

definition stored_at :: "snapshot_tree \<Rightarrow> nat \<Rightarrow> link_snapshot \<Rightarrow> bool" where
  "stored_at t i sl \<longleftrightarrow> (\<exists>r. map_of (tr_revisions t) i = Some r \<and> rs_link r = Some sl)"

text \<open>Texts that the stored changes lead to from the current revision's.\<close>

definition told_texts :: "snapshot_tree \<Rightarrow> buffer_text \<Rightarrow> (nat \<Rightarrow> ustring) \<Rightarrow> bool" where
  "told_texts t text T0 \<longleftrightarrow> T0 (tr_current t) = rope text \<and>
     (\<forall>i sl. stored_at t i sl \<longrightarrow>
        T0 (snd (edge_ends t i sl)) = emit (ls_change sl) (T0 (fst (edge_ends t i sl))))"

definition misfit :: "segmentation \<Rightarrow> snapshot_tree \<Rightarrow> buffer_text \<Rightarrow> bool" where
  "misfit B t text \<longleftrightarrow> (\<forall>T0. told_texts t text T0 \<longrightarrow> (\<exists>i sl. stored_at t i sl \<and>
     \<not> link_fits B (i \<in> tr_spine t) (T0 (fst (edge_ends t i sl))) sl))"

definition walk_at :: "snapshot_tree \<Rightarrow> walk \<Rightarrow> nat set \<Rightarrow> bool" where
  "walk_at t w D \<longleftrightarrow> tr_current (wk_tree w) = tr_current t \<and> tr_children (wk_tree w) = tr_children t \<and>
     tr_spine (wk_tree w) = tr_spine t \<and> keys (tr_revisions (wk_tree w)) = keys (tr_revisions t) \<and>
     (\<forall>i. map_of (tr_revisions (wk_tree w)) i =
        map_option (\<lambda>r. if i \<in> D then r\<lparr>rs_link := None\<rparr> else r) (map_of (tr_revisions t) i)) \<and>
     dom (map_of (wk_links w)) = D"

definition known ::
  "segmentation \<Rightarrow> snapshot_tree \<Rightarrow> buffer_text \<Rightarrow> nat set \<Rightarrow> (nat \<Rightarrow> ustring) \<Rightarrow> walk \<Rightarrow> bool"
where
  "known B t text R T w \<longleftrightarrow> tr_current t \<in> R \<and> T (tr_current t) = rope text \<and>
     (\<forall>(i, x) \<in> set (wk_stack w). i \<in> R \<and> buffer_ok x \<and> rope x = T i) \<and>
     (\<forall>i l. map_of (wk_links w) i = Some l \<longrightarrow> (\<exists>sl. stored_at t i sl \<and> i \<in> R \<and> ls_parent sl \<in> R \<and>
        relinked B (i \<in> tr_spine t) (T (fst (edge_ends t i sl))) (T (snd (edge_ends t i sl))) sl l)) \<and>
     (\<forall>T0. told_texts t text T0 \<longrightarrow> (\<forall>i \<in> R. T0 i = T i))"

lemma known_link:
  "known B t text R T w \<Longrightarrow> map_of (wk_links w) i = Some l \<Longrightarrow> \<exists>sl. stored_at t i sl \<and> i \<in> R \<and> ls_parent sl \<in> R \<and>
    relinked B (i \<in> tr_spine t) (T (fst (edge_ends t i sl))) (T (snd (edge_ends t i sl))) sl l"
  by (simp add: known_def)

lemma take_link_at:
  assumes "walk_at t w D" "stored_at t i sl" "i \<notin> D"
  obtains t' where "take_link (wk_tree w) i = Some (sl, t')" "tr_spine t' = tr_spine t"
    "\<And>st k. walk_at t \<lparr>wk_store = st, wk_tree = t', wk_links = AList.update i l (wk_links w), wk_stack = k\<rparr> (insert i D)"
proof -
  obtain r where r: "map_of (tr_revisions t) i = Some r" "rs_link r = Some sl"
    using assms(2) by (auto simp: stored_at_def)
  then have m: "map_of (tr_revisions (wk_tree w)) i = Some r" using assms(1,3) by (simp add: walk_at_def)
  let ?t = "(wk_tree w)\<lparr>tr_revisions := AList.update i (r\<lparr>rs_link := None\<rparr>) (tr_revisions (wk_tree w))\<rparr>"
  have k: "i \<in> set (keys (tr_revisions (wk_tree w)))" using m by (auto simp: keys_def dest: map_of_SomeD intro: rev_image_eqI)
  have "take_link (wk_tree w) i = Some (sl, ?t)" using m r(2) by (simp add: take_link_def)
  then show thesis
    by (rule that) (use assms(1) k r in \<open>auto simp: walk_at_def keys_def update_keys update_conv' fun_eq_iff dom_def\<close>)
qed

lemma cross_edge:
  assumes "seg_ok B" "walk_at t w D" "known B t text R T w" "stored_at t i sl" "i \<notin> D"
    and "edge_ends t i sl = (y, x)" "y \<in> R" "buffer_ok here" "rope here = T y" "x \<notin> R"
  shows "(\<exists>e. rebuild_link B (wk_store w) (wk_tree w) i here = Some (Inl e) \<and> \<not> shape_error e \<and> misfit B t text) \<or>
    (\<exists>st' t' there l. rebuild_link B (wk_store w) (wk_tree w) i here = Some (Inr (st', t', there, l)) \<and>
       lk_parent l = ls_parent sl \<and>
       (let w' = \<lparr>wk_store = st', wk_tree = t', wk_links = AList.update i l (wk_links w),
                  wk_stack = wk_stack w @ [(x, there)]\<rparr>
        in walk_at t w' (insert i D) \<and> known B t text (insert x R) (T(x := rope there)) w'))"
proof -
  let ?up = "i \<in> tr_spine t"
  obtain t1 where t1: "take_link (wk_tree w) i = Some (sl, t1)" "tr_spine t1 = tr_spine t"
    by (rule take_link_at [OF assms(2,4,5)])
  have told: "\<forall>T0. told_texts t text T0 \<longrightarrow> (\<forall>i \<in> R. T0 i = T i)" using assms(3) by (simp add: known_def)
  show ?thesis
  proof (cases rule: relink_cases [OF assms(1,8), of "wk_store w" ?up i sl])
    case (1 e)
    have "rebuild_link B (wk_store w) (wk_tree w) i here = Some (Inl e)"
      using 1(1) t1 by (simp add: rebuild_link_def)
    moreover have "\<not> link_fits B ?up (T0 (fst (edge_ends t i sl))) sl" if "told_texts t text T0" for T0
    proof -
      have "T0 y = T y" using told that assms(7) by blast
      with 1(3) assms(6,9) show ?thesis by simp
    qed
    then have "misfit B t text" using assms(4) by (auto simp: misfit_def)
    ultimately show ?thesis using 1(2) by blast
  next
    case (2 st' there l)
    let ?w' = "\<lparr>wk_store = st', wk_tree = t1, wk_links = AList.update i l (wk_links w),
                  wk_stack = wk_stack w @ [(x, there)]\<rparr>"
    let ?T = "T(x := rope there)"
    have ends: "i \<in> insert x R" "ls_parent sl \<in> insert x R" "y \<noteq> x"
      using assms(6,7,10) by (auto simp: edge_ends_def split: if_splits)
    have "rebuild_link B (wk_store w) (wk_tree w) i here = Some (Inr (st', t1, there, l))"
      using 2(1) t1 by (simp add: rebuild_link_def)
    moreover have "lk_parent l = ls_parent sl" using 2(5) by (simp add: relinked_def split: prod.splits)
    moreover have "walk_at t ?w' (insert i D)"
      by (rule take_link_at [OF assms(2,4,5)]) (use t1 in simp)
    moreover have "known B t text (insert x R) ?T ?w'"
    proof -
      have "relinked B ?up (?T (fst (edge_ends t i sl))) (?T (snd (edge_ends t i sl))) sl l"
        using 2(5) assms(6,9) ends(3) by simp
      then have new: "\<exists>sl. stored_at t i sl \<and> i \<in> insert x R \<and> ls_parent sl \<in> insert x R \<and>
          relinked B ?up (?T (fst (edge_ends t i sl))) (?T (snd (edge_ends t i sl))) sl l"
        using assms(4) ends by blast
      have old: "\<exists>sl. stored_at t j sl \<and> j \<in> insert x R \<and> ls_parent sl \<in> insert x R \<and>
          relinked B (j \<in> tr_spine t) (?T (fst (edge_ends t j sl))) (?T (snd (edge_ends t j sl))) sl k"
        if jk: "map_of (wk_links w) j = Some k" for j k
      proof -
        obtain sl' where s: "stored_at t j sl'" "j \<in> R" "ls_parent sl' \<in> R"
          "relinked B (j \<in> tr_spine t) (T (fst (edge_ends t j sl'))) (T (snd (edge_ends t j sl'))) sl' k"
          using known_link [OF assms(3) jk] by blast
        then have "fst (edge_ends t j sl') \<noteq> x" "snd (edge_ends t j sl') \<noteq> x"
          using assms(10) by (auto simp: edge_ends_def)
        with s show ?thesis by auto
      qed
      have "T0 x = rope there" if "told_texts t text T0" for T0
      proof -
        have "T0 y = T y" using told that assms(7) by blast
        then show ?thesis using that assms(4,6,9) 2(4) unfolding told_texts_def by fastforce
      qed
      then have "\<forall>T0. told_texts t text T0 \<longrightarrow> (\<forall>i \<in> insert x R. T0 i = ?T i)" using told assms(10) by auto
      moreover have "\<forall>(j, z) \<in> set (wk_stack ?w'). j \<in> insert x R \<and> buffer_ok z \<and> rope z = ?T j"
        using assms(3,10) 2(3) by (auto simp: known_def)
      moreover have "tr_current t \<in> insert x R \<and> ?T (tr_current t) = rope text"
        using assms(3,10) by (auto simp: known_def)
      moreover have "\<exists>sl. stored_at t j sl \<and> j \<in> insert x R \<and> ls_parent sl \<in> insert x R \<and>
          relinked B (j \<in> tr_spine t) (?T (fst (edge_ends t j sl))) (?T (snd (edge_ends t j sl))) sl k"
        if "map_of (wk_links ?w') j = Some k" for j k
        using that new old [of j k] by (cases "j = i") (simp_all add: update_conv')
      ultimately show ?thesis unfolding known_def by blast
    qed
    ultimately show ?thesis unfolding Let_def by blast
  qed
qed

lemma cross_kids:
  assumes "seg_ok B" "walk_at t w D" "known B t text R T w" "rid \<in> R" "buffer_ok here" "rope here = T rid"
    and "distinct kids" "set kids \<inter> D = {}" "set kids \<inter> R = {}"
    and "\<forall>kid \<in> set kids. kid \<notin> tr_spine t \<and> (\<exists>sl. stored_at t kid sl \<and> ls_parent sl = rid)"
  shows "(\<exists>e. rebuild_kids B kids here w = Some (Inl e) \<and> \<not> shape_error e \<and> misfit B t text) \<or>
    (\<exists>w' T'. rebuild_kids B kids here w = Some (Inr w') \<and> walk_at t w' (D \<union> set kids) \<and>
       known B t text (R \<union> set kids) T' w' \<and> map fst (wk_stack w') = map fst (wk_stack w) @ kids)"
  using assms(2-)
proof (induction kids arbitrary: w D R T)
  case Nil
  then show ?case by auto
next
  case (Cons kid kids)
  obtain sl where sl: "kid \<notin> tr_spine t" "stored_at t kid sl" "ls_parent sl = rid" using Cons.prems(9) by auto
  then have ends: "edge_ends t kid sl = (rid, kid)" by (simp add: edge_ends_def)
  have fresh: "kid \<notin> D" "kid \<notin> R" using Cons.prems(7,8) by auto
  from cross_edge [OF assms(1) Cons.prems(1,2) sl(2) fresh(1) ends Cons.prems(3,4,5) fresh(2)]
  show ?case
  proof (elim disjE exE conjE)
    fix e assume "rebuild_link B (wk_store w) (wk_tree w) kid here = Some (Inl e)" "\<not> shape_error e" "misfit B t text"
    then show ?thesis by simp
  next
    fix st' t' there l
    let ?w = "\<lparr>wk_store = st', wk_tree = t', wk_links = AList.update kid l (wk_links w),
                  wk_stack = wk_stack w @ [(kid, there)]\<rparr>"
    assume r: "rebuild_link B (wk_store w) (wk_tree w) kid here = Some (Inr (st', t', there, l))"
      and "let w' = ?w in walk_at t w' (insert kid D) \<and> known B t text (insert kid R) (T(kid := rope there)) w'"
    then have w: "walk_at t ?w (insert kid D)" "known B t text (insert kid R) (T(kid := rope there)) ?w"
      by (simp_all add: Let_def)
    have "rid \<noteq> kid" using fresh(2) Cons.prems(3) by blast
    then have "rope here = (T(kid := rope there)) rid" using Cons.prems(5) by simp
    note ih = Cons.IH [OF w insertI2 [OF Cons.prems(3)] Cons.prems(4) this]
    have "insert kid D \<union> set kids = D \<union> set (kid # kids)" "insert kid R \<union> set kids = R \<union> set (kid # kids)" by auto
    with ih Cons.prems(6-) r show ?thesis by auto
  qed
qed

text \<open>The revisions expanded so far, those whose text is known then, and those whose link is.\<close>

definition below :: "snapshot_tree \<Rightarrow> nat set \<Rightarrow> nat set" where
  "below t P = {i. i \<notin> tr_spine t \<and> (\<exists>p \<in> P. snap_parent (tr_revisions t) i = Some p)}"

definition reached :: "snapshot_tree \<Rightarrow> nat set \<Rightarrow> nat set" where
  "reached t P = below t P \<union> {tr_current t} \<union>
     {p. \<exists>c \<in> tr_spine t \<inter> P. snap_parent (tr_revisions t) c = Some p}"

definition linked :: "snapshot_tree \<Rightarrow> nat set \<Rightarrow> nat set" where
  "linked t P = below t P \<union> (tr_spine t \<inter> P)"

definition walk_inv :: "segmentation \<Rightarrow> snapshot_tree \<Rightarrow> buffer_text \<Rightarrow> walk \<Rightarrow> nat set \<Rightarrow> bool" where
  "walk_inv B t text w P \<longleftrightarrow> distinct (map fst (wk_stack w)) \<and> set (map fst (wk_stack w)) \<inter> P = {} \<and>
     set (map fst (wk_stack w)) \<union> P = reached t P \<and> walk_at t w (linked t P) \<and>
     (\<exists>T. known B t text (reached t P) T w)"

definition tree_sound :: "nat \<Rightarrow> snapshot_tree \<Rightarrow> bool" where
  "tree_sound max_time t \<longleftrightarrow> snapshot_sound max_time (tr_revisions t) (tr_current t) \<and>
     tree_of (tr_revisions t) (tr_current t) t"

lemma stored_at_parent: "stored_at t i sl \<Longrightarrow> snap_parent (tr_revisions t) i = Some (ls_parent sl)"
  by (auto simp: stored_at_def snap_parent_def)

lemma parent_stored: "snap_parent (tr_revisions t) i = Some p \<Longrightarrow> \<exists>sl. stored_at t i sl \<and> ls_parent sl = p"
  by (auto simp: stored_at_def snap_parent_def bind_eq_Some_conv)

lemma tree_soundD:
  assumes "tree_sound max_time t"
  shows "snap_parent (tr_revisions t) 0 = None" "0 \<notin> tr_spine t"
    "snap_parent (tr_revisions t) i = Some p \<Longrightarrow> p < i \<and> map_of (tr_revisions t) p \<noteq> None \<and> map_of (tr_revisions t) i \<noteq> None"
    "map_of (tr_revisions t) i \<noteq> None \<Longrightarrow> i \<noteq> 0 \<Longrightarrow> snap_parent (tr_revisions t) i \<noteq> None"
    "tr_current t \<noteq> 0 \<Longrightarrow> tr_current t \<in> tr_spine t"
    "i \<in> tr_spine t \<Longrightarrow> snap_parent (tr_revisions t) i = Some p \<Longrightarrow> p \<noteq> 0 \<Longrightarrow> p \<in> tr_spine t"
    "i \<in> tr_spine t \<Longrightarrow> i \<le> tr_current t \<and> snap_parent (tr_revisions t) i \<noteq> None"
    "i \<in> tr_spine t \<Longrightarrow> j \<in> tr_spine t \<Longrightarrow> snap_parent (tr_revisions t) i = Some p \<Longrightarrow>
       snap_parent (tr_revisions t) j = Some p \<Longrightarrow> i = j"
    "distinct (kids_of (tr_children t) p)"
    "set (kids_of (tr_children t) p) = {i. snap_parent (tr_revisions t) i = Some p}"
    "map_of (tr_revisions t) (tr_current t) \<noteq> None"
proof -
  let ?par = "snap_parent (tr_revisions t)"
  have s: "parents_sound (tr_revisions t)" "redos_sound max_time (tr_revisions t) (tr_current t)"
      "tr_spine t = spine_of (tr_revisions t) (tr_current t)"
    using assms by (simp_all add: tree_sound_def snapshot_sound_def tree_of_def)
  show now: "map_of (tr_revisions t) (tr_current t) \<noteq> None"
    using assms by (simp add: tree_sound_def snapshot_sound_def)
  show zero: "?par 0 = None" using s(1) by (auto simp: parents_sound_def snap_parent_def)
  show "0 \<notin> tr_spine t" "tr_current t \<noteq> 0 \<Longrightarrow> tr_current t \<in> tr_spine t" using s(3) by (auto simp: spine_of_def)
  have par: "p < i \<and> map_of (tr_revisions t) p \<noteq> None \<and> map_of (tr_revisions t) i \<noteq> None" if "?par i = Some p" for i p
  proof -
    have "i \<noteq> 0" using that zero by (cases "i = 0") auto
    moreover have "map_of (tr_revisions t) i \<noteq> None" using that by (auto simp: snap_parent_def bind_eq_Some_conv)
    ultimately show ?thesis using s(1) that unfolding parents_sound_def by fastforce
  qed
  then show "?par i = Some p \<Longrightarrow> p < i \<and> map_of (tr_revisions t) p \<noteq> None \<and> map_of (tr_revisions t) i \<noteq> None" .
  have has: "?par i \<noteq> None" if "map_of (tr_revisions t) i \<noteq> None" "i \<noteq> 0" for i
    using s(1) that unfolding parents_sound_def by fastforce
  then show "map_of (tr_revisions t) i \<noteq> None \<Longrightarrow> i \<noteq> 0 \<Longrightarrow> ?par i \<noteq> None" .
  show "i \<in> tr_spine t \<Longrightarrow> ?par i = Some p \<Longrightarrow> p \<noteq> 0 \<Longrightarrow> p \<in> tr_spine t"
    using s(3) by (auto simp: spine_of_def intro: rtrancl_into_rtrancl)
  show "i \<le> tr_current t \<and> ?par i \<noteq> None" if "i \<in> tr_spine t"
  proof -
    have r: "(tr_current t, i) \<in> {(j, p). ?par j = Some p}\<^sup>*" "i \<noteq> 0" using that s(3) by (simp_all add: spine_of_def)
    from r(1) have "i \<le> tr_current t \<and> map_of (tr_revisions t) i \<noteq> None"
    proof induction
      case (step y z)
      then show ?case using par [of y z] by auto
    qed (use now in simp)
    with has r(2) show ?thesis by blast
  qed
  show "i = j" if ij: "i \<in> tr_spine t" "j \<in> tr_spine t" "?par i = Some p" "?par j = Some p"
  proof -
    obtain r where r: "map_of (tr_revisions t) p = Some r" using par [OF ij(3)] by blast
    then have "case rs_redo r of None \<Rightarrow> \<forall>j. ?par j \<noteq> Some p
      | Some c \<Rightarrow> ?par c = Some p \<and> (\<forall>j. ?par j = Some p \<and> j \<in> tr_spine t \<longrightarrow> j = c)"
      using s(2) unfolding redos_sound_def s(3) by simp
    with ij show ?thesis by (cases "rs_redo r") auto
  qed
  show "distinct (kids_of (tr_children t) p)" "set (kids_of (tr_children t) p) = {i. ?par i = Some p}"
    using assms by (simp_all add: tree_sound_def tree_of_def)
qed

lemma reached_insert:
  "reached t (insert i P) = reached t P \<union> {k. k \<notin> tr_spine t \<and> snap_parent (tr_revisions t) k = Some i} \<union>
     {p. i \<in> tr_spine t \<and> snap_parent (tr_revisions t) i = Some p}"
  by (auto simp: reached_def below_def)

lemma linked_insert:
  "linked t (insert i P) = linked t P \<union> {k. k \<notin> tr_spine t \<and> snap_parent (tr_revisions t) k = Some i} \<union> ({i} \<inter> tr_spine t)"
  by (auto simp: linked_def below_def)

text \<open>The parent of a spine revision, and the revisions below one off the spine, are new.\<close>

lemma parent_fresh:
  assumes "tree_sound max_time t" "i \<in> tr_spine t" "i \<notin> P" "snap_parent (tr_revisions t) i = Some p"
  shows "p \<notin> reached t P"
proof
  note s = tree_soundD [OF assms(1)]
  assume "p \<in> reached t P"
  then consider "p \<in> below t P" | "p = tr_current t" | c where "c \<in> tr_spine t" "c \<in> P" "snap_parent (tr_revisions t) c = Some p"
    by (auto simp: reached_def)
  then show False
  proof cases
    case 1
    then have "p \<notin> tr_spine t" "p \<noteq> 0" using s(1) by (auto simp: below_def intro!: gr0I)
    with s(6) [OF assms(2,4)] show False by simp
  next
    case 2
    with s(3) [OF assms(4)] s(7) [OF assms(2)] show False by simp
  next
    case 3
    with s(8) [OF assms(2) 3(1) assms(4)] assms(3) show False by simp
  qed
qed

lemma kid_fresh:
  assumes "tree_sound max_time t" "i \<notin> P" "k \<notin> tr_spine t" "snap_parent (tr_revisions t) k = Some i"
  shows "k \<notin> reached t P" "k \<notin> linked t P" "i \<in> tr_spine t \<Longrightarrow> snap_parent (tr_revisions t) i \<noteq> Some k"
proof -
  note s = tree_soundD [OF assms(1)]
  have k: "k \<noteq> 0" using s(1) assms(4) by (cases "k = 0") auto
  have b: "k \<notin> below t P" using assms(2,4) by (auto simp: below_def)
  then show "k \<notin> linked t P" using assms(3) by (simp add: linked_def)
  have "k \<noteq> tr_current t" using s(5) k assms(3) by auto
  with b k show "k \<notin> reached t P" using s(6) assms(3) by (auto simp: reached_def)
  show "snap_parent (tr_revisions t) i \<noteq> Some k" if "i \<in> tr_spine t" using s(6) [OF that] k assms(3) by auto
qed

lemma rebuild_step_ok:
  assumes "seg_ok B" "tree_sound max_time t" "walk_inv B t text w P" "wk_stack w = rest @ [(rid, here)]"
  shows "(\<exists>e. rebuild_step B (w\<lparr>wk_stack := rest\<rparr>) rid here = Some (Inl e) \<and> \<not> shape_error e \<and> misfit B t text) \<or>
    (\<exists>w'. rebuild_step B (w\<lparr>wk_stack := rest\<rparr>) rid here = Some (Inr w') \<and> walk_inv B t text w' (insert rid P))"
    (is "?fails \<or> ?done")
proof -
  note s = tree_soundD [OF assms(2)]
  let ?w = "w\<lparr>wk_stack := rest\<rparr>"
  let ?S = "map fst rest"
  let ?kids = "filter (\<lambda>kid. kid \<notin> tr_spine t) (kids_of (tr_children t) rid)"
  obtain T where T: "known B t text (reached t P) T w" using assms(3) by (auto simp: walk_inv_def)
  have inv: "distinct (?S @ [rid])" "rid \<notin> P" "set ?S \<inter> P = {}" "set ?S \<union> {rid} \<union> P = reached t P"
    "walk_at t w (linked t P)" using assms(3,4) by (auto simp: walk_inv_def)
  have here: "rid \<in> reached t P" "buffer_ok here" "rope here = T rid" using T assms(4) by (auto simp: known_def)
  have w: "walk_at t ?w (linked t P)" "known B t text (reached t P) T ?w"
    using inv(5) T assms(4) by (simp_all add: walk_at_def known_def)
  have kids: "set ?kids = {k. k \<notin> tr_spine t \<and> snap_parent (tr_revisions t) k = Some rid}" "distinct ?kids"
    using s(9,10) by auto
  let ?D = "linked t P \<union> ({rid} \<inter> tr_spine t)"
  let ?R = "reached t P \<union> {p. rid \<in> tr_spine t \<and> snap_parent (tr_revisions t) rid = Some p}"
  text \<open>First the edge up, if the revision is on the spine.\<close>
  have "?fails \<or> (\<exists>w2 T2 ps. rebuild_step B ?w rid here = rebuild_kids B ?kids here w2 \<and> walk_at t w2 ?D \<and>
      known B t text ?R T2 w2 \<and> T2 rid = T rid \<and> map fst (wk_stack w2) = ?S @ ps \<and> distinct ps \<and>
      set ps = {p. rid \<in> tr_spine t \<and> snap_parent (tr_revisions t) rid = Some p})"
  proof (cases "rid \<in> tr_spine t")
    case False
    have "rebuild_step B ?w rid here = rebuild_kids B ?kids here ?w"
      using w(1) False by (simp add: rebuild_step_def walk_at_def)
    with False w show ?thesis by (intro disjI2 exI [of _ ?w] exI [of _ T] exI [of _ "[]"]) simp
  next
    case True
    obtain p where p: "snap_parent (tr_revisions t) rid = Some p" using s(7) [OF True] by blast
    obtain sl where sl: "stored_at t rid sl" "ls_parent sl = p" using parent_stored [OF p] by blast
    have ends: "edge_ends t rid sl = (rid, p)" using True sl(2) by (simp add: edge_ends_def)
    have new: "rid \<notin> linked t P" using True inv(2) by (auto simp: linked_def below_def)
    have pf: "p \<notin> reached t P" by (rule parent_fresh [OF assms(2) True inv(2) p])
    have sp: "rid \<in> tr_spine (wk_tree w)" using True w(1) by (simp add: walk_at_def)
    from cross_edge [OF assms(1) w sl(1) new ends here(1,2,3) pf] show ?thesis
    proof (elim disjE exE conjE)
      fix e assume "rebuild_link B (wk_store ?w) (wk_tree ?w) rid here = Some (Inl e)" "\<not> shape_error e" "misfit B t text"
      then show ?thesis using sp by (simp add: rebuild_step_def)
    next
      fix st' t' there l
      let ?w2 = "\<lparr>wk_store = st', wk_tree = t', wk_links = AList.update rid l (wk_links ?w),
                  wk_stack = wk_stack ?w @ [(p, there)]\<rparr>"
      assume r: "rebuild_link B (wk_store ?w) (wk_tree ?w) rid here = Some (Inr (st', t', there, l))"
        "lk_parent l = ls_parent sl"
        and "let w' = ?w2 in walk_at t w' (insert rid (linked t P)) \<and>
          known B t text (insert p (reached t P)) (T(p := rope there)) w'"
      then have w2: "walk_at t ?w2 (insert rid (linked t P))"
        "known B t text (insert p (reached t P)) (T(p := rope there)) ?w2" by (simp_all add: Let_def)
      have "tr_spine t' = tr_spine t" "tr_children t' = tr_children t" using w2(1) by (simp_all add: walk_at_def)
      then have "rebuild_step B ?w rid here = rebuild_kids B ?kids here ?w2"
        using sp r sl(2) by (simp add: rebuild_step_def)
      moreover have "insert rid (linked t P) = ?D" "insert p (reached t P) = ?R" using True p by auto
      moreover have "(T(p := rope there)) rid = T rid" using pf here(1) by auto
      ultimately show ?thesis using w2 True p
        by (intro disjI2 exI [of _ ?w2] exI [of _ "T(p := rope there)"] exI [of _ "[p]"]) simp
    qed
  qed
  then show ?thesis
  proof (elim disjE exE conjE)
    fix w2 T2 ps
    assume r: "rebuild_step B ?w rid here = rebuild_kids B ?kids here w2"
      and w2: "walk_at t w2 ?D" "known B t text ?R T2 w2" "T2 rid = T rid" "map fst (wk_stack w2) = ?S @ ps"
      and ps: "distinct ps" "set ps = {p. rid \<in> tr_spine t \<and> snap_parent (tr_revisions t) rid = Some p}"
    note kf = kid_fresh [OF assms(2) inv(2)]
    have a: "rid \<in> ?R" "rope here = T2 rid" using here w2(3) by simp_all
    have f: "set ?kids \<inter> ?D = {}" "set ?kids \<inter> ?R = {}" using kf kids(1) by auto
    have st: "\<forall>kid \<in> set ?kids. kid \<notin> tr_spine t \<and> (\<exists>sl. stored_at t kid sl \<and> ls_parent sl = rid)"
    proof
      fix kid assume kid: "kid \<in> set ?kids"
      have "kid \<notin> tr_spine t" "snap_parent (tr_revisions t) kid = Some rid" using kid s(10) by auto
      with parent_stored show "kid \<notin> tr_spine t \<and> (\<exists>sl. stored_at t kid sl \<and> ls_parent sl = rid)" by blast
    qed
    from cross_kids [OF assms(1) w2(1,2) a(1) here(2) a(2) kids(2) f st] show ?thesis
    proof (elim disjE exE conjE)
      fix e assume "rebuild_kids B ?kids here w2 = Some (Inl e)" "\<not> shape_error e" "misfit B t text"
      then show ?thesis using r by simp
    next
      fix w' T'
      assume k: "rebuild_kids B ?kids here w2 = Some (Inr w')" "walk_at t w' (?D \<union> set ?kids)"
        "known B t text (?R \<union> set ?kids) T' w'" "map fst (wk_stack w') = map fst (wk_stack w2) @ ?kids"
      have D: "?D \<union> set ?kids = linked t (insert rid P)" and R: "?R \<union> set ?kids = reached t (insert rid P)"
        unfolding linked_insert reached_insert kids(1) by auto
      have pf: "set ps \<inter> reached t P = {}" using parent_fresh [OF assms(2) _ inv(2)] ps(2) by auto
      have S: "map fst (wk_stack w') = ?S @ ps @ ?kids" using k(4) w2(4) by simp
      have new: "set ps \<inter> (set ?S \<union> {rid} \<union> P) = {}" "set ?kids \<inter> (set ?S \<union> {rid} \<union> P) = {}" "set ps \<inter> set ?kids = {}"
        using pf f(2) inv(4) ps(2) by auto
      have "distinct (map fst (wk_stack w'))" using S inv(1) ps(1) kids(2) new by auto
      moreover have "set (map fst (wk_stack w')) \<inter> insert rid P = {}" using S inv(1,3) new by auto
      moreover have "set (map fst (wk_stack w')) \<union> insert rid P = reached t (insert rid P)"
        using S inv(4) R ps(2) by auto
      ultimately have "walk_inv B t text w' (insert rid P)"
        using k(2,3) unfolding D R walk_inv_def by blast
      with r k(1) show ?thesis by auto
    qed
  qed blast
qed

lemma rebuild_loop_ok:
  assumes "seg_ok B" "tree_sound max_time t" "walk_inv B t text w P"
  shows "(\<exists>e. rebuild_loop B w = Some (Inl e) \<and> \<not> shape_error e \<and> misfit B t text) \<or>
    (\<exists>w' P'. rebuild_loop B w = Some (Inr w') \<and> wk_stack w' = [] \<and> walk_inv B t text w' P')"
  using assms(1,3)
proof (induction B w arbitrary: P rule: rebuild_loop.induct)
  case (1 B w)
  show ?case
  proof (cases "wk_stack w = []")
    case True
    with 1(3) show ?thesis by (auto simp: rebuild_loop.simps [of B w])
  next
    case False
    obtain rid here where top: "last (wk_stack w) = (rid, here)" by fastforce
    let ?rest = "butlast (wk_stack w)"
    have "wk_stack w = ?rest @ [(rid, here)]" using False top append_butlast_last_id by metis
    from rebuild_step_ok [OF 1(2) assms(2) 1(3) this] show ?thesis
    proof (elim disjE exE conjE)
      fix e assume "rebuild_step B (w\<lparr>wk_stack := ?rest\<rparr>) rid here = Some (Inl e)" "\<not> shape_error e" "misfit B t text"
      then show ?thesis using False top by (simp add: rebuild_loop.simps [of B w])
    next
      fix w' assume r: "rebuild_step B (w\<lparr>wk_stack := ?rest\<rparr>) rid here = Some (Inr w')"
        and i: "walk_inv B t text w' (insert rid P)"
      have "rebuild_loop B w = rebuild_loop B w'" using False top r by (simp add: rebuild_loop.simps [of B w])
      moreover note 1(1) [OF False top [symmetric] refl r refl 1(2) i]
      ultimately show ?thesis by simp
    qed
  qed
qed

section \<open>The restored tree\<close>

lemma walk_complete:
  assumes "tree_sound max_time t" "reached t P = P"
  shows "map_of (tr_revisions t) i \<noteq> None \<Longrightarrow> i \<in> P" "linked t P = {i. map_of (tr_revisions t) i \<noteq> None \<and> i \<noteq> 0}"
proof -
  note s = tree_soundD [OF assms(1)]
  let ?par = "snap_parent (tr_revisions t)"
  let ?R = "{(j, p). ?par j = Some p}"
  have sp: "tr_spine t = {j. j \<noteq> 0 \<and> (tr_current t, j) \<in> ?R\<^sup>*}"
    using assms(1) by (simp add: tree_sound_def tree_of_def spine_of_def)
  have up: "j \<in> P" if "(tr_current t, j) \<in> ?R\<^sup>*" for j
    using that
  proof induction
    case base
    then show ?case using assms(2) by (auto simp: reached_def)
  next
    case (step y z)
    then have yz: "?par y = Some z" by simp
    then have "y \<noteq> 0" using s(1) by (cases "y = 0") auto
    then have "y \<in> tr_spine t" using step(1) sp by simp
    with yz step.IH have "z \<in> reached t P" by (auto simp: reached_def)
    with assms(2) show ?case by simp
  qed
  have root: "(i, 0) \<in> ?R\<^sup>*" if "map_of (tr_revisions t) i \<noteq> None" for i
    using that
  proof (induction i rule: less_induct)
    case (less i)
    show ?case
    proof (cases "i = 0")
      case False
      then obtain p where p: "?par i = Some p" using s(4) less.prems by blast
      with less.IH s(3) [OF p] have "(p, 0) \<in> ?R\<^sup>*" by blast
      with p show ?thesis by (simp add: converse_rtrancl_into_rtrancl)
    qed simp
  qed
  have all: "i \<in> P" if "map_of (tr_revisions t) i \<noteq> None" for i
    using that
  proof (induction i rule: less_induct)
    case (less i)
    consider "i = 0" | "i \<in> tr_spine t" | "i \<noteq> 0" "i \<notin> tr_spine t" by blast
    then show ?case
    proof cases
      case 1
      then show ?thesis using up root [OF s(11)] by blast
    next
      case 2
      then show ?thesis using up sp by blast
    next
      case 3
      then obtain p where p: "?par i = Some p" using s(4) less.prems by blast
      with less.IH s(3) [OF p] have "p \<in> P" by blast
      with p 3 have "i \<in> below t P" by (auto simp: below_def)
      with assms(2) show ?thesis by (auto simp: reached_def)
    qed
  qed
  then show "map_of (tr_revisions t) i \<noteq> None \<Longrightarrow> i \<in> P" .
  show "linked t P = {i. map_of (tr_revisions t) i \<noteq> None \<and> i \<noteq> 0}"
  proof (intro set_eqI iffI)
    fix i assume "i \<in> linked t P"
    then obtain p where "?par i = Some p" using s(7) by (auto simp: linked_def below_def)
    with s(1) s(3) [OF this] show "i \<in> {i. map_of (tr_revisions t) i \<noteq> None \<and> i \<noteq> 0}" by auto
  next
    fix i assume "i \<in> {i. map_of (tr_revisions t) i \<noteq> None \<and> i \<noteq> 0}"
    then have i: "map_of (tr_revisions t) i \<noteq> None" "i \<noteq> 0" by simp_all
    then obtain p where p: "?par i = Some p" using s(4) by blast
    show "i \<in> linked t P"
      using all [OF i(1)] all [of p] s(3) [OF p] p by (auto simp: linked_def below_def)
  qed
qed

lemma foldl_push: "foldl children_push c ids =
    \<lparr>ch_ids = ch_ids c @ ids, ch_redo = (if ids = [] then ch_redo c else Some (last ids))\<rparr>"
  by (induction ids arbitrary: c) (auto simp: children_push_def)

definition restored_as ::
  "snapshot_tree \<Rightarrow> (revision_id \<times> link) list \<Rightarrow> nat \<Rightarrow> revision_snapshot \<Rightarrow> revision"
where
  "restored_as t links i sn =
     \<lparr>rv_link = map_of links i, rv_owner = (if rs_owned sn then Restored else Nobody),
      rv_children = \<lparr>ch_ids = kids_of (tr_children t) i, ch_redo = rs_redo sn\<rparr>, rv_time = int (rs_since sn)\<rparr>"

lemma redo_cases_sound:
  assumes "tree_sound max_time t" "map_of (tr_revisions t) i = Some sn"
  shows "rs_since sn \<le> max_time" "case rs_redo sn of None \<Rightarrow> kids_of (tr_children t) i = []
      | Some c \<Rightarrow> c \<in> set (kids_of (tr_children t) i) \<and>
          (\<forall>j. snap_parent (tr_revisions t) j = Some i \<and> j \<in> tr_spine t \<longrightarrow> j = c)"
proof -
  note s = tree_soundD [OF assms(1)]
  have sp: "tr_spine t = spine_of (tr_revisions t) (tr_current t)" using assms(1) by (simp add: tree_sound_def tree_of_def)
  have "redos_sound max_time (tr_revisions t) (tr_current t)" using assms(1) by (simp add: tree_sound_def snapshot_sound_def)
  then have "rs_since sn \<le> max_time \<and> (case rs_redo sn of None \<Rightarrow> \<forall>j. snap_parent (tr_revisions t) j \<noteq> Some i
      | Some c \<Rightarrow> snap_parent (tr_revisions t) c = Some i \<and>
          (\<forall>j. snap_parent (tr_revisions t) j = Some i \<and> j \<in> tr_spine t \<longrightarrow> j = c))"
    using assms(2) unfolding redos_sound_def sp [symmetric] by simp
  moreover have "kids_of (tr_children t) i = [] \<longleftrightarrow> (\<forall>j. snap_parent (tr_revisions t) j \<noteq> Some i)"
    using s(10) [of i] by (metis (mono_tags) empty_set empty_Collect_eq set_empty)
  ultimately show "rs_since sn \<le> max_time" "case rs_redo sn of None \<Rightarrow> kids_of (tr_children t) i = []
      | Some c \<Rightarrow> c \<in> set (kids_of (tr_children t) i) \<and>
          (\<forall>j. snap_parent (tr_revisions t) j = Some i \<and> j \<in> tr_spine t \<longrightarrow> j = c)"
    using s(10) [of i] by (simp_all split: option.splits)
qed

lemma restored_revision_eq:
  assumes "tree_sound max_time t" "map_of (tr_revisions t) i = Some sn"
    and "tr_children t' = tr_children t" "rs_redo sn' = rs_redo sn" "rs_since sn' = rs_since sn" "rs_owned sn' = rs_owned sn"
  shows "restored_revision max_time t' links i sn' = Some (restored_as t links i sn)"
proof -
  note r = redo_cases_sound [OF assms(1,2)]
  show ?thesis
    using r(2) by (cases "rs_redo sn") (simp_all add: restored_revision_def assms(3-) foldl_push children_default_def
        children_set_redo_def epoch_plus_def r(1) restored_as_def)
qed

lemma restored_revisions_eq:
  "(\<And>i sn. (i, sn) \<in> set rs \<Longrightarrow> restored_revision max_time t links i sn = Some (f i sn)) \<Longrightarrow>
   restored_revisions max_time t links rs = Some (map (\<lambda>(i, sn). (i, f i sn)) rs)"
  by (induction rs) auto

lemma map_of_keyed: "map_of (map (\<lambda>(k, x). (k, f k x)) xs) i = map_option (f i) (map_of xs i)"
  by (induction xs) auto

lemma keys_keyed: "keys (map (\<lambda>(k, x). (k, f k x)) xs) = keys xs"
  by (induction xs) (auto simp: keys_def)

definition restored_history :: "history \<Rightarrow> snapshot_tree \<Rightarrow> (revision_id \<times> link) list \<Rightarrow> history" where
  "restored_history h t links =
     \<lparr>revisions = map (\<lambda>(i, sn). (i, restored_as t links i sn)) (tr_revisions t), current = tr_current t,
      next_id = Suc (Max (set (keys (tr_revisions t)))), undo_levels = undo_levels h,
      change_seq = change_seq h + 1, claimed_by = claimed_by h\<rparr>"

text \<open>The links of a finished walk.\<close>

definition links_ok :: "segmentation \<Rightarrow> snapshot_tree \<Rightarrow> (nat \<Rightarrow> ustring) \<Rightarrow> (revision_id \<times> link) list \<Rightarrow> bool" where
  "links_ok B t T links \<longleftrightarrow> dom (map_of links) = {i. map_of (tr_revisions t) i \<noteq> None \<and> i \<noteq> 0} \<and>
     (\<forall>i l. map_of links i = Some l \<longrightarrow> (\<exists>sl. stored_at t i sl \<and>
        relinked B (i \<in> tr_spine t) (T (fst (edge_ends t i sl))) (T (snd (edge_ends t i sl))) sl l))"

lemma links_okD:
  assumes "links_ok B t T links" "map_of links i = Some l"
  obtains sl where "stored_at t i sl" "lk_parent l = ls_parent sl" "snap_parent (tr_revisions t) i = Some (lk_parent l)"
    "tx_makes B (lk_inverse l) (T i) (T (lk_parent l))" "tx_makes B (lk_forward l) (T (lk_parent l)) (T i)"
    "selects (ls_before sl) (tx_selection (lk_inverse l))" "selects (ls_after sl) (tx_selection (lk_forward l))"
proof -
  obtain sl where "stored_at t i sl"
    "relinked B (i \<in> tr_spine t) (T (fst (edge_ends t i sl))) (T (snd (edge_ends t i sl))) sl l"
    using assms unfolding links_ok_def by blast
  with stored_at_parent show thesis
    by (intro that [of sl]) (auto simp: relinked_def edge_ends_def split: if_splits)
qed

lemma restored_history_ok:
  assumes "tree_sound max_time t" "links_ok B t T links"
  shows "hist_ok (restored_history h t links)" "texts_ok B (restored_history h t links) T"
    "history_parent (restored_history h t links) i = snap_parent (tr_revisions t) i"
    "rev_at (restored_history h t links) i = map_option (restored_as t links i) (map_of (tr_revisions t) i)"
proof -
  let ?h = "restored_history h t links"
  note s = tree_soundD [OF assms(1)]
  have at: "rev_at ?h i = map_option (restored_as t links i) (map_of (tr_revisions t) i)" for i
    by (simp add: rev_at_def restored_history_def map_of_keyed)
  show "rev_at ?h i = map_option (restored_as t links i) (map_of (tr_revisions t) i)" by (rule at)
  have lk: "rev_link ?h i = map_of links i" for i
  proof (cases "map_of (tr_revisions t) i")
    case None
    then have "i \<notin> dom (map_of links)" using assms(2) by (simp add: links_ok_def)
    with None show ?thesis by (simp add: rev_link_def at domIff)
  qed (simp add: rev_link_def at restored_as_def)
  have par: "history_parent ?h i = snap_parent (tr_revisions t) i" for i
  proof (cases "map_of links i")
    case None
    then have "i \<notin> dom (map_of links)" by (simp add: domIff)
    then have "map_of (tr_revisions t) i = None \<or> i = 0" using assms(2) by (auto simp: links_ok_def)
    then have "snap_parent (tr_revisions t) i = None" using s(1) by (auto simp: snap_parent_def)
    with None lk show ?thesis by (simp add: history_parent_map)
  next
    case (Some l)
    then show ?thesis by (rule links_okD [OF assms(2)]) (simp add: history_parent_map lk Some)
  qed
  then show "history_parent ?h i = snap_parent (tr_revisions t) i" .
  show "texts_ok B ?h T"
    unfolding texts_ok_def lk by (auto elim: links_okD [OF assms(2)])
  have spine: "i = 0 \<or> i \<in> tr_spine t" if "on_path ?h i" for i
    using that
  proof induction
    case here
    then show ?case using s(5) by (auto simp: restored_history_def)
  next
    case (up i p)
    then have "snap_parent (tr_revisions t) i = Some p" "i \<noteq> 0" using par s(1) by (cases "i = 0"; simp)+
    with up.IH s(6) show ?case by blast
  qed
  have snd: "snapshot_sound max_time (tr_revisions t) (tr_current t)" using assms(1) by (simp add: tree_sound_def)
  have kids: "kids_ok ?h i (rv_children r)" if r: "rev_at ?h i = Some r" for i r
  proof -
    obtain sn where sn: "map_of (tr_revisions t) i = Some sn" "r = restored_as t links i sn"
      using r at by auto
    note red = redo_cases_sound [OF assms(1) sn(1)]
    show ?thesis using s(9) [of i] s(10) [of i] red
      by (auto simp: kids_ok_def children_ok_def par sn(2) restored_as_def split: option.splits)
  qed
  have below_next: "i < next_id ?h" if "rev_at ?h i \<noteq> None" for i
  proof -
    have "i \<in> set (keys (tr_revisions t))" using that at by (auto simp: keys_def dest: map_of_SomeD intro: rev_image_eqI)
    then have "i \<le> Max (set (keys (tr_revisions t)))" by simp
    then show ?thesis by (simp add: restored_history_def)
  qed
  have up: "\<exists>p. history_parent ?h i = Some p \<and> p < i \<and> rev_at ?h p \<noteq> None" if "rev_at ?h i \<noteq> None" "i \<noteq> ROOT" for i
  proof -
    have "map_of (tr_revisions t) i \<noteq> None" "i \<noteq> 0" using that at by (simp_all add: ROOT_def)
    then obtain p where "snap_parent (tr_revisions t) i = Some p" using s(4) by blast
    with s(3) [OF this] show ?thesis by (auto simp: par at)
  qed
  have root: "\<exists>r. rev_at ?h ROOT = Some r \<and> rv_link r = None"
  proof -
    obtain r where "map_of (tr_revisions t) 0 = Some r" using snd by (auto simp: snapshot_sound_def parents_sound_def)
    moreover have "map_of links 0 = None" using assms(2) by (auto simp: links_ok_def)
    ultimately show ?thesis by (simp add: at ROOT_def restored_as_def)
  qed
  have "tree_ok ?h"
    using root kids below_next up snd s(11) at
    by (simp add: tree_ok_def snapshot_sound_def) (simp add: restored_history_def keys_keyed)
  moreover have "redo_follows ?h"
  proof -
    have "redo_child ?h p = Some (Some i)" if i: "on_path ?h i" "history_parent ?h i = Some p" for i p
    proof -
      have p: "snap_parent (tr_revisions t) i = Some p" using i(2) par by simp
      then have sp: "i \<in> tr_spine t" using spine [OF i(1)] s(1) by auto
      obtain sn where sn: "map_of (tr_revisions t) p = Some sn" using s(3) [OF p] by blast
      have "i \<in> set (kids_of (tr_children t) p)" using s(10) p by simp
      with redo_cases_sound [OF assms(1) sn] p sp have "rs_redo sn = Some i" by (auto split: option.splits)
      with sn at show ?thesis by (simp add: redo_child_def restored_as_def)
    qed
    then show ?thesis by (simp add: redo_follows_def)
  qed
  ultimately show "hist_ok ?h" by (simp add: hist_ok_def)
qed

lemma alist_by_keys: "distinct (keys xs) \<Longrightarrow> xs = map (\<lambda>k. (k, the (map_of xs k))) (keys xs)"
proof -
  assume "distinct (keys xs)"
  then have "(fst p, the (map_of xs (fst p))) = p" if "p \<in> set xs" for p
    using that by (cases p) (simp add: keys_def)
  then have "map (\<lambda>p. (fst p, the (map_of xs (fst p)))) xs = xs" by (simp add: map_idI)
  then show ?thesis by (simp add: keys_def comp_def)
qed

lemma alist_eqI:
  assumes "distinct (keys xs)" "keys xs = keys ys" "\<And>k. map_of xs k = map_of ys k"
  shows "xs = ys"
proof -
  have "xs = map (\<lambda>k. (k, the (map_of ys k))) (keys ys)"
    using alist_by_keys [OF assms(1)] assms(2,3) by simp
  also have "\<dots> = ys" using alist_by_keys [of ys] assms(1,2) by simp
  finally show ?thesis .
qed

lemma restored_revisions_walk:
  assumes "tree_sound max_time t" "walk_at t w D"
  shows "restored_revisions max_time (wk_tree w) links (tr_revisions (wk_tree w)) =
    Some (map (\<lambda>(i, sn). (i, restored_as t links i sn)) (tr_revisions t))"
proof -
  have d: "distinct (keys (tr_revisions t))" using assms(1) by (simp add: tree_sound_def snapshot_sound_def)
  have k: "keys (tr_revisions (wk_tree w)) = keys (tr_revisions t)" "tr_children (wk_tree w) = tr_children t"
    using assms(2) by (simp_all add: walk_at_def)
  have at: "map_of (tr_revisions (wk_tree w)) i =
      map_option (\<lambda>r. if i \<in> D then r\<lparr>rs_link := None\<rparr> else r) (map_of (tr_revisions t) i)" for i
    using assms(2) by (simp add: walk_at_def)
  have same: "restored_as t links i (r\<lparr>rs_link := None\<rparr>) = restored_as t links i r" for i r
    by (simp add: restored_as_def)
  have one: "restored_revision max_time (wk_tree w) links i sn = Some (restored_as t links i sn)"
    if m: "(i, sn) \<in> set (tr_revisions (wk_tree w))" for i sn
  proof -
    have "map_of (tr_revisions (wk_tree w)) i = Some sn" using m d k(1) by (simp add: keys_def)
    then obtain r where r: "map_of (tr_revisions t) i = Some r" "sn = r \<or> sn = r\<lparr>rs_link := None\<rparr>"
      using at [of i] by (auto split: if_splits)
    then have "restored_revision max_time (wk_tree w) links i sn = Some (restored_as t links i r)"
      by (intro restored_revision_eq [OF assms(1) r(1) k(2)]) auto
    then show ?thesis using r(2) same by auto
  qed
  have "map (\<lambda>(i, sn). (i, restored_as t links i sn)) (tr_revisions (wk_tree w)) =
      map (\<lambda>(i, sn). (i, restored_as t links i sn)) (tr_revisions t)"
  proof (rule alist_eqI)
    fix i
    show "map_of (map (\<lambda>(i, sn). (i, restored_as t links i sn)) (tr_revisions (wk_tree w))) i =
        map_of (map (\<lambda>(i, sn). (i, restored_as t links i sn)) (tr_revisions t)) i"
      using same by (cases "map_of (tr_revisions t) i") (simp_all add: map_of_keyed at)
  qed (use d k(1) in \<open>simp_all add: keys_keyed\<close>)
  moreover have "restored_revisions max_time (wk_tree w) links (tr_revisions (wk_tree w)) =
      Some (map (\<lambda>(i, sn). (i, restored_as t links i sn)) (tr_revisions (wk_tree w)))"
    by (rule restored_revisions_eq) (rule one)
  ultimately show ?thesis by simp
qed

lemma restore_cases:
  fixes sn defines "revs \<equiv> map (\<lambda>r. (rs_id r, r)) (hs_revisions sn)"
  assumes "seg_ok B" "buffer_ok text" "\<forall>r \<in> set (hs_revisions sn). rs_id r < usize_max"
  obtains e where "restore B max_time st h sn text = Some (Inl e)" "shape_error e"
      "\<not> snapshot_sound max_time revs (hs_current sn)"
    | e t where "restore B max_time st h sn text = Some (Inl e)" "\<not> shape_error e"
      "tree_sound max_time t" "tr_revisions t = revs" "tr_current t = hs_current sn" "misfit B t text"
    | st' t T links where "restore B max_time st h sn text = Some (Inr (st', restored_history h t links))"
      "tree_sound max_time t" "tr_revisions t = revs" "tr_current t = hs_current sn" "links_ok B t T links"
      "T (hs_current sn) = rope text"
      "\<And>T0 i. told_texts t text T0 \<Longrightarrow> map_of revs i \<noteq> None \<Longrightarrow> T0 i = T i"
proof -
  obtain r where r: "index_snapshot max_time sn = Some r"
    "case r of Inl e \<Rightarrow> \<not> snapshot_sound max_time revs (hs_current sn) \<and> shape_error e
     | Inr t \<Rightarrow> snapshot_sound max_time revs (hs_current sn) \<and> tree_of revs (hs_current sn) t"
    using index_snapshot_eq [of max_time sn] unfolding revs_def by blast
  show thesis
  proof (cases r)
    case (Inl e)
    with r that(1) show ?thesis by (simp add: restore_def)
  next
    case (Inr t)
    with r(2) have t: "tr_revisions t = revs" "tr_current t = hs_current sn" "tree_sound max_time t"
      by (simp_all add: tree_of_def tree_sound_def)
    have ne: "keys revs \<noteq> []" using t(3) by (auto simp: tree_sound_def snapshot_sound_def t keys_def)
    have "Max (set (keys revs)) \<in> set (keys revs)" using ne by simp
    moreover have "k < usize_max" if "k \<in> set (keys revs)" for k
      using that assms(4) by (auto simp: revs_def keys_def)
    ultimately have "Max (set (keys revs)) < usize_max" by blast
    then have nx: "checked_add (Max (set (keys revs))) 1 = Some (Suc (Max (set (keys revs))))"
      by (simp add: checked_add_def)
    let ?w = "\<lparr>wk_store = st, wk_tree = t, wk_links = [], wk_stack = [(tr_current t, text)]\<rparr>"
    have e: "reached t {} = {tr_current t}" "linked t {} = {}" by (simp_all add: reached_def linked_def below_def)
    have "known B t text (reached t {}) (\<lambda>_. rope text) ?w"
      using assms(3) by (simp add: known_def e told_texts_def)
    moreover have "walk_at t ?w (linked t {})" by (simp add: walk_at_def e option.map_ident)
    ultimately have "walk_inv B t text ?w {}" using e by (auto simp: walk_inv_def)
    from rebuild_loop_ok [OF assms(2) t(3) this] show thesis
    proof (elim disjE exE conjE)
      fix e assume "rebuild_loop B ?w = Some (Inl e)" "\<not> shape_error e" "misfit B t text"
      with r(1) Inr t ne nx that(2) [of e t] show thesis by (simp add: restore_def rebuild_def)
    next
      fix w' P assume w': "rebuild_loop B ?w = Some (Inr w')" "wk_stack w' = []" "walk_inv B t text w' P"
      then have p: "reached t P = P" "walk_at t w' (linked t P)" by (auto simp: walk_inv_def)
      obtain T where T: "known B t text P T w'" using w'(3) p(1) by (auto simp: walk_inv_def)
      note c = walk_complete [OF t(3) p(1)]
      have "links_ok B t T (wk_links w')"
        unfolding links_ok_def
      proof (intro conjI allI impI)
        show "dom (map_of (wk_links w')) = {i. map_of (tr_revisions t) i \<noteq> None \<and> i \<noteq> 0}"
          using p(2) c(2) by (simp add: walk_at_def)
      qed (use known_link [OF T] in blast)
      moreover have "T (hs_current sn) = rope text" using T t(2) by (simp add: known_def)
      moreover have "T0 i = T i" if "told_texts t text T0" "map_of revs i \<noteq> None" for T0 i
        using T that c(1) t(1) by (auto simp: known_def)
      moreover have "restore B max_time st h sn text = Some (Inr (wk_store w', restored_history h t (wk_links w')))"
        using r(1) Inr ne nx w'(1) restored_revisions_walk [OF t(3) p(2)]
        by (simp add: restore_def rebuild_def t restored_history_def)
      ultimately show thesis using that(3) t by blast
    qed
  qed
qed

section \<open>The snapshot of a history\<close>

lemma climbs_reach:
  "climbs h i xs a \<Longrightarrow> (i, j) \<in> {(j, p). history_parent h j = Some p}\<^sup>* \<longleftrightarrow>
     j \<in> set xs \<or> (a, j) \<in> {(j, p). history_parent h j = Some p}\<^sup>*"
proof (induction xs arbitrary: i)
  case (Cons x xs)
  then obtain p where p: "x = i" "history_parent h i = Some p" "climbs h p xs a" by auto
  have "(i, j) \<in> {(j, p). history_parent h j = Some p}\<^sup>* \<longleftrightarrow>
      j = i \<or> (p, j) \<in> {(j, p). history_parent h j = Some p}\<^sup>*"
    using p(2) by (auto elim: converse_rtranclE intro: converse_rtrancl_into_rtrancl)
  with Cons.IH [OF p(3)] p(1) show ?case by auto
qed simp

lemma path_to_root:
  assumes "tree_ok h"
  obtains us where "path h ROOT = Some (Some (us, []))"
    "set us = {j. j \<noteq> 0 \<and> (current h, j) \<in> {(j, p). history_parent h j = Some p}\<^sup>*}"
proof (cases rule: path_ok [OF assms, of ROOT])
  case 1
  then show thesis using tree_okD(2) [OF assms] by simp
next
  case (2 us vs a)
  have v: "vs = [] \<and> a = ROOT" using 2(4) tree_okD(3) [OF assms] by (cases vs) auto
  have "(ROOT, j) \<in> {(j, p). history_parent h j = Some p}\<^sup>* \<longleftrightarrow> j = ROOT" for j
    using tree_okD(3) [OF assms] by (auto elim: converse_rtranclE)
  moreover have "0 \<notin> set us" using climbs_links [OF 2(3), of 0] tree_okD(3) [OF assms]
    by (auto simp: history_parent_map ROOT_def)
  ultimately have "set us = {j. j \<noteq> 0 \<and> (current h, j) \<in> {(j, p). history_parent h j = Some p}\<^sup>*}"
    using climbs_reach [OF 2(3)] v unfolding ROOT_def by (intro set_eqI) (metis (mono_tags) mem_Collect_eq)
  then show thesis using that [of us] 2(2) v by simp
qed

lemma history_snapshot_revs:
  fixes h kept sp
  defines "revs \<equiv> map (\<lambda>r. (rs_id r, r)) (sort_key rs_id
       (map (\<lambda>(rid, r). revision_snapshot_of h sp kept rid r) (revisions h)))"
  assumes "distinct (keys (revisions h))"
  shows "distinct (keys revs)" "map_of revs i = map_option (revision_snapshot_of h sp kept i) (rev_at h i)"
proof -
  let ?xs = "map (\<lambda>(rid, r). (rid, revision_snapshot_of h sp kept rid r)) (revisions h)"
  have snap: "rs_id (revision_snapshot_of h sp kept rid r) = rid" for rid r by (simp add: revision_snapshot_of_def)
  have k: "keys revs = map rs_id (sort_key rs_id (map (\<lambda>(rid, r). revision_snapshot_of h sp kept rid r) (revisions h)))"
    by (simp add: revs_def keys_def comp_def)
  have ids: "map rs_id (map (\<lambda>(rid, r). revision_snapshot_of h sp kept rid r) (revisions h)) = keys (revisions h)"
    by (simp add: keys_def snap split_def comp_def)
  have "distinct (map rs_id (map (\<lambda>(rid, r). revision_snapshot_of h sp kept rid r) (revisions h)))"
    using assms(2) unfolding ids .
  then show d: "distinct (keys revs)" unfolding k by (simp only: distinct_map [of rs_id] distinct_sort set_sort)
  have "set revs = set ?xs" by (auto simp: revs_def snap intro!: rev_image_eqI)
  moreover have "distinct (map fst ?xs)" using assms(2) by (simp add: keys_def split_def comp_def)
  ultimately have "map_of revs = map_of ?xs"
    using d map_of_inject_set [of revs ?xs] by (simp add: keys_def)
  then show "map_of revs i = map_option (revision_snapshot_of h sp kept i) (rev_at h i)"
    by (simp add: map_of_keyed rev_at_def)
qed

text \<open>A history as it was saved: its links not identities, its times and sizes in range.\<close>

definition savable :: "nat \<Rightarrow> history \<Rightarrow> (revision_id \<Rightarrow> ustring) \<Rightarrow> bool" where
  "savable max_time h T \<longleftrightarrow>
     (\<forall>i r. rev_at h i = Some r \<longrightarrow> i < usize_max \<and> 0 \<le> rv_time r \<and> rv_time r \<le> int max_time \<and> length (T i) \<le> usize_max) \<and>
     (\<forall>i l. rev_link h i = Some l \<longrightarrow> \<not> is_identity (tx_changes (lk_inverse l)) \<and> \<not> is_identity (tx_changes (lk_forward l)))"

lemma tx_makes_from_ops:
  assumes "tx_makes B tx t t'" "length t \<le> usize_max" "length t' \<le> usize_max"
  shows "from_ops (ops (tx_changes tx)) (length t) = Some (tx_changes tx)" "is_valid_buffer_rope t'"
    "emit (ops (tx_changes tx)) t = t'"
proof -
  from assms(1) have m: "wf_cs (tx_changes tx)" "inserts_cr_free (tx_changes tx)" "len_before (tx_changes tx) = length t"
    "emit (ops (tx_changes tx)) t = t'" "\<exists>s. state_ok B s \<and> rope (es_text s) = t'" by (auto simp: tx_makes_def)
  have "len_after (tx_changes tx) = length t'" using emit_len [OF m(1), of t] m(3,4) by simp
  then show "from_ops (ops (tx_changes tx)) (length t) = Some (tx_changes tx)"
    using m assms(2,3) by (simp add: from_ops_Some)
  show "is_valid_buffer_rope t'" using m(5) by (auto simp: state_ok_def buffer_ok_def)
  show "emit (ops (tx_changes tx)) t = t'" by (rule m(4))
qed

lemma tx_makes_snap_fits: "tx_makes B tx t t' \<Longrightarrow> snap_fits B (snapshot_of (tx_selection tx)) t'"
  by (auto simp: tx_makes_def state_ok_def dest: snap_fits_of)

lemma link_saved_fits:
  assumes "tx_makes B (lk_inverse l) t p" "tx_makes B (lk_forward l) p t" "length t \<le> usize_max" "length p \<le> usize_max"
    "\<not> is_identity (tx_changes (lk_inverse l))" "\<not> is_identity (tx_changes (lk_forward l))"
  shows "link_fits B (i \<in> sp) (if i \<in> sp then t else p) (link_snapshot_of sp i l)"
    "emit (ls_change (link_snapshot_of sp i l)) (if i \<in> sp then t else p) = (if i \<in> sp then p else t)"
  using tx_makes_from_ops [OF assms(1,3,4)] tx_makes_from_ops [OF assms(2,4,3)] assms(5,6)
    tx_makes_snap_fits [OF assms(1)] tx_makes_snap_fits [OF assms(2)]
  by (auto simp: link_fits_def link_snapshot_of_def)

lemma saved_snapshot:
  assumes "hist_ok h" "texts_ok B h T" "savable max_time h T" "T (current h) = rope text"
  obtains sn revs where "history_snapshot_of h = Some sn" "revs = map (\<lambda>r. (rs_id r, r)) (hs_revisions sn)"
    "hs_current sn = current h" "snapshot_sound max_time revs (current h)"
    "\<And>i. snap_parent revs i = history_parent h i"
    "\<And>i. map_of revs i = map_option (revision_snapshot_of h (spine_of revs (current h)) (newest_owner h) i) (rev_at h i)"
    "\<And>t. tree_of revs (current h) t \<Longrightarrow> told_texts t text T \<and> \<not> misfit B t text"
proof -
  have tree: "tree_ok h" and red: "redo_follows h" using assms(1) by (simp_all add: hist_ok_def)
  note tk = tree_okD [OF tree]
  obtain us where us: "path h ROOT = Some (Some (us, []))"
    "set us = {j. j \<noteq> 0 \<and> (current h, j) \<in> {(j, p). history_parent h j = Some p}\<^sup>*}"
    by (rule path_to_root [OF tree])
  define sn where "sn = \<lparr>hs_current = current h, hs_revisions = sort_key rs_id
       (map (\<lambda>(rid, r). revision_snapshot_of h (set us) (newest_owner h) rid r) (revisions h))\<rparr>"
  define revs where "revs = map (\<lambda>r. (rs_id r, r)) (hs_revisions sn)"
  have d: "distinct (keys revs)" and at: "\<And>i. map_of revs i =
      map_option (revision_snapshot_of h (set us) (newest_owner h) i) (rev_at h i)"
    using history_snapshot_revs [OF tk(1), where sp = "set us" and kept = "newest_owner h"] by (simp_all add: revs_def sn_def)
  have par: "snap_parent revs i = history_parent h i" for i
    by (cases "rev_at h i") (auto simp: snap_parent_def at history_parent_def revision_snapshot_of_def
      rev_parent_def link_snapshot_of_def option.map_comp comp_def)
  have sp: "spine_of revs (current h) = set us" by (simp add: spine_of_def us(2) par)
  have path_on: "on_path h j" if "(current h, j) \<in> {(j, p). history_parent h j = Some p}\<^sup>*" for j
    using that by induction (auto intro: on_path.intros)
  show thesis
  proof (rule that [of sn revs])
    show "history_snapshot_of h = Some sn" by (simp add: history_snapshot_of_def us(1) sn_def)
    show "hs_current sn = current h" by (simp add: sn_def)
    show "map_of revs i = map_option (revision_snapshot_of h (spine_of revs (current h)) (newest_owner h) i) (rev_at h i)" for i
      unfolding sp by (rule at)
    have "parents_sound revs"
      using tree by (auto simp: parents_sound_def par at tree_ok_def ROOT_def revision_snapshot_of_def)
    moreover have "redos_sound max_time revs (current h)"
      unfolding redos_sound_def
    proof (intro allI impI)
      fix i sr assume sr: "map_of revs i = Some sr"
      then obtain r where r: "rev_at h i = Some r" "sr = revision_snapshot_of h (set us) (newest_owner h) i r"
        using at by auto
      have kids: "children_ok (rv_children r) {j. history_parent h j = Some i}" using tk(7) [OF r(1)] by (simp add: kids_ok_def)
      have "ch_redo (rv_children r) = Some j" if "history_parent h j = Some i" "j \<in> set us" for j
      proof -
        have "on_path h j" using that(2) us(2) path_on by simp
        with that(1) red have "redo_child h i = Some (Some j)" by (simp add: redo_follows_def)
        with r(1) show ?thesis by (simp add: redo_child_def)
      qed
      moreover have "nat (rv_time r) \<le> max_time" using assms(3) r(1) by (simp add: savable_def nat_le_iff)
      ultimately show "rs_since sr \<le> max_time \<and> (case rs_redo sr of
            None \<Rightarrow> \<forall>j. snap_parent revs j \<noteq> Some i
          | Some c \<Rightarrow> snap_parent revs c = Some i \<and> (\<forall>j. snap_parent revs j = Some i \<and> j \<in> spine_of revs (current h) \<longrightarrow> j = c))"
        using kids r by (auto simp: par sp revision_snapshot_of_def children_ok_def split: option.splits)
    qed
    ultimately show "snapshot_sound max_time revs (current h)"
      using d tk(8) by (simp add: snapshot_sound_def at)
    show "told_texts t text T \<and> \<not> misfit B t text" if "tree_of revs (current h) t" for t
    proof -
      have t: "tr_revisions t = revs" "tr_current t = current h" "tr_spine t = set us"
        using that sp by (simp_all add: tree_of_def)
      have stored: "\<exists>l. rev_link h i = Some l \<and> sl = link_snapshot_of (set us) i l" if "stored_at t i sl" for i sl
        using that by (auto simp: stored_at_def t at rev_link_def revision_snapshot_of_def)
      have fits: "link_fits B (i \<in> tr_spine t) (T (fst (edge_ends t i sl))) sl \<and>
          T (snd (edge_ends t i sl)) = emit (ls_change sl) (T (fst (edge_ends t i sl)))" if at_i: "stored_at t i sl" for i sl
      proof -
        obtain l where l: "rev_link h i = Some l" "sl = link_snapshot_of (set us) i l" using stored [OF at_i] by blast
        have p: "history_parent h i = Some (lk_parent l)" using l(1) by (simp add: history_parent_link)
        have makes: "tx_makes B (lk_inverse l) (T i) (T (lk_parent l))" "tx_makes B (lk_forward l) (T (lk_parent l)) (T i)"
          using assms(2) l(1) by (simp_all add: texts_ok_def)
        have len: "length (T i) \<le> usize_max" "length (T (lk_parent l)) \<le> usize_max"
          "\<not> is_identity (tx_changes (lk_inverse l))" "\<not> is_identity (tx_changes (lk_forward l))"
          using assms(3) l(1) tk(5) [OF p] by (auto simp: savable_def)
        show ?thesis using link_saved_fits [OF makes len, where i = i and sp = "set us"] l(2)
          by (auto simp: edge_ends_def t(3) link_snapshot_of_def)
      qed
      then show ?thesis using assms(4) by (auto simp: told_texts_def misfit_def t(2))
    qed
  qed (rule revs_def, rule par)
qed

section \<open>Properties\<close>



text \<open>C25: A snapshot whose newest id is the largest \<open>usize\<close> passes every check and then overflows the
  next id: restoring it panics, although every other malformed snapshot is refused with an error.\<close>

theorem restore_id_overflows:
  assumes "snapshot_sound max_time (map (\<lambda>r. (rs_id r, r)) (hs_revisions sn)) (hs_current sn)"
    and "Max (rs_id ` set (hs_revisions sn)) = usize_max"
  shows "restore B max_time st h sn text = None"
proof -
  let ?revs = "map (\<lambda>r. (rs_id r, r)) (hs_revisions sn)"
  obtain r where r: "index_snapshot max_time sn = Some r"
    "case r of Inl e \<Rightarrow> \<not> snapshot_sound max_time ?revs (hs_current sn) \<and> shape_error e
     | Inr t \<Rightarrow> snapshot_sound max_time ?revs (hs_current sn) \<and> tree_of ?revs (hs_current sn) t"
    using index_snapshot_eq [of max_time sn] by blast
  obtain t where t: "index_snapshot max_time sn = Some (Inr t)" "tr_revisions t = ?revs"
    using r assms(1) by (cases r) (simp_all add: tree_of_def)
  have "hs_revisions sn \<noteq> []" using assms(1) by (auto simp: snapshot_sound_def)
  moreover have "set (keys ?revs) = rs_id ` set (hs_revisions sn)" by (auto simp: keys_def)
  ultimately show ?thesis using t assms(2) by (simp add: restore_def checked_add_def keys_def)
qed

text \<open>Witnesses: a fresh history, and a tree whose only edit has the largest id.\<close>

definition demo_revision :: "nat \<Rightarrow> link_snapshot option \<Rightarrow> nat option \<Rightarrow> revision_snapshot" where
  "demo_revision i l redo_id = \<lparr>rs_id = i, rs_link = l, rs_since = 0, rs_owned = False, rs_redo = redo_id\<rparr>"

definition demo_link :: link_snapshot where
  "demo_link = \<lparr>ls_parent = 0, ls_change = [Retain 1, Insert [120], Retain 2],
     ls_before = \<lparr>snap_ranges = [(0, 0)], snap_primary = 0\<rparr>, ls_after = \<lparr>snap_ranges = [(1, 1)], snap_primary = 0\<rparr>\<rparr>"

definition demo_tree :: "nat \<Rightarrow> history_snapshot" where
  "demo_tree i = \<lparr>hs_current = 0, hs_revisions = [demo_revision 0 None (Some i), demo_revision i (Some demo_link) None]\<rparr>"

lemma demo_tree_sound:
  assumes "0 < i"
  shows "snapshot_sound 0 (map (\<lambda>r. (rs_id r, r)) (hs_revisions (demo_tree i))) (hs_current (demo_tree i))"
proof -
  let ?revs = "map (\<lambda>r. (rs_id r, r)) (hs_revisions (demo_tree i))"
  have p: "snap_parent ?revs j = (if j = i then Some 0 else None)" for j
    using assms by (simp add: snap_parent_def demo_tree_def demo_revision_def demo_link_def)
  have "distinct (keys ?revs)" using assms by (simp add: demo_tree_def demo_revision_def keys_def)
  moreover have "parents_sound ?revs"
    unfolding parents_sound_def p using assms by (simp add: demo_tree_def demo_revision_def)
  moreover have "redos_sound 0 ?revs (hs_current (demo_tree i))"
    unfolding redos_sound_def p using assms by (simp add: demo_tree_def demo_revision_def)
  ultimately show ?thesis by (simp add: snapshot_sound_def demo_tree_def demo_revision_def)
qed



theorem restore_id_overflows_witness:
  "restore demo_seg 0 demo_store (history_new 0) (demo_tree usize_max) demo_ab = None"
proof (rule restore_id_overflows)
  show "snapshot_sound 0 (map (\<lambda>r. (rs_id r, r)) (hs_revisions (demo_tree usize_max))) (hs_current (demo_tree usize_max))"
    by (rule demo_tree_sound) (simp add: usize_max_def)
qed (simp add: demo_tree_def demo_revision_def)

end
