(* ===== verification/CellGrid.thy ===== *)
theory CellGrid imports Rope "HOL-Library.Word" begin

text \<open>
  The cell grid a frame is drawn into: \<open>hume-grid\<close>'s \<open>style.rs\<close>, \<open>cell.rs\<close>, \<open>geometry.rs\<close> and
  \<open>grid.rs\<close>. Coordinates and sizes are \<open>u16\<close>, advances \<open>u8\<close>, as natural numbers with the
  saturation of the code written out. A bitflags value is the set of its flags; every bit of
  \<open>Modifiers\<close> has a name. Reading or writing a cell out of range panics.
\<close>

section \<open>Sixteen-bit coordinates\<close>

definition u16_max :: nat where
  "u16_max = 65535"

definition sat_add16 :: "nat \<Rightarrow> nat \<Rightarrow> nat" where
  "sat_add16 a b = min u16_max (a + b)"

definition sat_mul16 :: "nat \<Rightarrow> nat \<Rightarrow> nat" where
  "sat_mul16 a b = min u16_max (a * b)"

section \<open>Styles\<close>

datatype rgb = Rgb "8 word" "8 word" "8 word"

datatype underline_style = NoUnderline | Solid | Wavy | Dotted | Dashed | Double

datatype modifier = BOLD | ITALIC | STRIKETHROUGH | DIM | REVERSED | HIDDEN | SLOW_BLINK | RAPID_BLINK

record resolved_style =
  rs_fg :: "rgb option"
  rs_bg :: "rgb option"
  rs_underline :: underline_style
  rs_underline_color :: "rgb option"
  rs_modifiers :: "modifier set"

definition default_style :: resolved_style where
  "default_style = \<lparr>rs_fg = None, rs_bg = None, rs_underline = NoUnderline, rs_underline_color = None,
     rs_modifiers = {}\<rparr>"

definition or_else :: "'a option \<Rightarrow> 'a option \<Rightarrow> 'a option" where
  "or_else a b = (case a of None \<Rightarrow> b | Some x \<Rightarrow> Some x)"

definition layer :: "resolved_style \<Rightarrow> resolved_style \<Rightarrow> resolved_style" where
  "layer self over =
     \<lparr>rs_fg = or_else (rs_fg over) (rs_fg self), rs_bg = or_else (rs_bg over) (rs_bg self),
      rs_underline = (if rs_underline over \<noteq> NoUnderline then rs_underline over else rs_underline self),
      rs_underline_color = or_else (rs_underline_color over) (rs_underline_color self),
      rs_modifiers = rs_modifiers self \<union> rs_modifiers over\<rparr>"

definition style_over :: "resolved_style \<Rightarrow> resolved_style \<Rightarrow> resolved_style" where
  "style_over self beneath =
     self\<lparr>rs_fg := or_else (rs_fg self) (rs_fg beneath), rs_bg := or_else (rs_bg self) (rs_bg beneath),
       rs_underline_color := or_else (rs_underline_color self) (rs_underline_color beneath)\<rparr>"

definition normalized_style :: "resolved_style \<Rightarrow> resolved_style" where
  "normalized_style s =
     (let s = (if rs_underline s = NoUnderline then s\<lparr>rs_underline_color := None\<rparr> else s) in
      if REVERSED \<in> rs_modifiers s
      then (case (rs_fg s, rs_bg s) of
          (Some fg, Some bg) \<Rightarrow>
            s\<lparr>rs_fg := Some bg, rs_bg := Some fg, rs_modifiers := rs_modifiers s - {REVERSED}\<rparr>
        | _ \<Rightarrow> s)
      else s)"

lemma normalized_style_idem [simp]: "normalized_style (normalized_style s) = normalized_style s"
  by (cases s) (auto simp: normalized_style_def Let_def split: option.splits)

lemma normalized_default [simp]: "normalized_style default_style = default_style"
  by (simp add: normalized_style_def default_style_def)

section \<open>Cells\<close>

record cell =
  ce_text :: ustring
  ce_style :: resolved_style
  ce_advance :: nat

definition cell_glyph :: "ustring \<Rightarrow> nat \<Rightarrow> resolved_style \<Rightarrow> cell" where
  "cell_glyph text adv style = \<lparr>ce_text = text, ce_style = normalized_style style, ce_advance = max adv 1\<rparr>"

definition cell_blank :: "resolved_style \<Rightarrow> cell" where
  "cell_blank style = \<lparr>ce_text = [SPC], ce_style = normalized_style style, ce_advance = 1\<rparr>"

definition cell_continuation :: "resolved_style \<Rightarrow> cell" where
  "cell_continuation style = \<lparr>ce_text = [], ce_style = normalized_style style, ce_advance = 0\<rparr>"

definition is_continuation :: "cell \<Rightarrow> bool" where
  "is_continuation c = (ce_advance c = 0)"

definition cell_default :: cell where
  "cell_default = cell_blank default_style"

section \<open>Rectangles\<close>

record position =
  po_x :: nat
  po_y :: nat

record rect =
  re_x :: nat
  re_y :: nat
  re_width :: nat
  re_height :: nat

definition rect_right :: "rect \<Rightarrow> nat" where
  "rect_right r = sat_add16 (re_x r) (re_width r)"

definition rect_bottom :: "rect \<Rightarrow> nat" where
  "rect_bottom r = sat_add16 (re_y r) (re_height r)"

definition rect_area :: "rect \<Rightarrow> nat" where
  "rect_area r = re_width r * re_height r"

definition rect_contains :: "rect \<Rightarrow> position \<Rightarrow> bool" where
  "rect_contains r p = (po_x p \<ge> re_x r \<and> po_x p < rect_right r \<and> po_y p \<ge> re_y r \<and> po_y p < rect_bottom r)"

definition rect_inset :: "rect \<Rightarrow> nat \<Rightarrow> nat \<Rightarrow> rect" where
  "rect_inset r dx dy =
     \<lparr>re_x = sat_add16 (re_x r) dx, re_y = sat_add16 (re_y r) dy,
      re_width = re_width r - sat_mul16 dx 2, re_height = re_height r - sat_mul16 dy 2\<rparr>"

definition rect_centered :: "rect \<Rightarrow> nat \<Rightarrow> nat \<Rightarrow> rect" where
  "rect_centered r width height =
     (let width = min width (re_width r); height = min height (re_height r) in
      \<lparr>re_x = sat_add16 (re_x r) ((re_width r - width) div 2),
       re_y = sat_add16 (re_y r) ((re_height r - height) div 2),
       re_width = width, re_height = height\<rparr>)"

section \<open>The grid\<close>

record grid =
  gr_width :: nat
  gr_height :: nat
  gr_cells :: "cell list"

definition grid_new :: "nat \<Rightarrow> nat \<Rightarrow> grid" where
  "grid_new width height =
     \<lparr>gr_width = width, gr_height = height, gr_cells = replicate (width * height) cell_default\<rparr>"

definition grid_size :: "grid \<Rightarrow> nat \<times> nat" where
  "grid_size g = (gr_width g, gr_height g)"

definition grid_resize :: "grid \<Rightarrow> nat \<Rightarrow> nat \<Rightarrow> grid" where
  "grid_resize g width height =
     g\<lparr>gr_width := width, gr_height := height, gr_cells := replicate (width * height) cell_default\<rparr>"

definition grid_reset :: "grid \<Rightarrow> grid" where
  "grid_reset g = g\<lparr>gr_cells := replicate (length (gr_cells g)) cell_default\<rparr>"

definition grid_index :: "grid \<Rightarrow> nat \<Rightarrow> nat \<Rightarrow> nat" where
  "grid_index g x y = y * gr_width g + x"

definition grid_cell :: "grid \<Rightarrow> nat \<Rightarrow> nat \<Rightarrow> cell option option" where
  "grid_cell g x y =
     (if x < gr_width g \<and> y < gr_height g then map_option Some (nth_opt (gr_cells g) (grid_index g x y))
      else Some None)"

definition grid_row :: "grid \<Rightarrow> nat \<Rightarrow> cell list option" where
  "grid_row g y =
     (if y \<ge> gr_height g then Some []
      else (let start = grid_index g 0 y in slice_opt (gr_cells g) start (start + gr_width g)))"

text \<open>Writing the cells at given indices, and blanking one in the style it has.\<close>

definition put_cell :: "cell list \<Rightarrow> nat \<Rightarrow> cell \<Rightarrow> cell list option" where
  "put_cell cs i c = (if i < length cs then Some (cs[i := c]) else None)"

definition blank_at :: "cell list \<Rightarrow> nat \<Rightarrow> cell list option" where
  "blank_at cs i = do { c \<leftarrow> nth_opt cs i; put_cell cs i (cell_blank (ce_style c)) }"

text \<open>\<open>repair_edges\<close>: the search for the head left of a continuation, the loop that blanks the cells
  from it, and the loop that blanks the continuations after the span.\<close>

fun find_head :: "cell list \<Rightarrow> nat \<Rightarrow> nat \<Rightarrow> nat option" where
  "find_head cs row 0 = Some 0"
| "find_head cs row (Suc h) = do {
     c \<leftarrow> nth_opt cs (row + Suc h);
     if is_continuation c then find_head cs row h else Some (Suc h) }"

fun blank_loop :: "nat list \<Rightarrow> nat \<Rightarrow> cell list \<Rightarrow> cell list option" where
  "blank_loop [] row cs = Some cs"
| "blank_loop (cx # xs) row cs = do { cs \<leftarrow> blank_at cs (row + cx); blank_loop xs row cs }"

fun blank_tail :: "nat list \<Rightarrow> nat \<Rightarrow> cell list \<Rightarrow> cell list option" where
  "blank_tail [] row cs = Some cs"
| "blank_tail (cx # xs) row cs = do {
     c \<leftarrow> nth_opt cs (row + cx);
     if is_continuation c then do { cs \<leftarrow> blank_at cs (row + cx); blank_tail xs row cs }
     else Some cs }"

definition repair_edges :: "grid \<Rightarrow> nat \<Rightarrow> nat \<Rightarrow> nat \<Rightarrow> grid option" where
  "repair_edges g x y len = do {
     let row = grid_index g 0 y;
     c \<leftarrow> nth_opt (gr_cells g) (row + x);
     cs \<leftarrow> (if is_continuation c then do {
              h \<leftarrow> find_head (gr_cells g) row x;
              blank_loop [h..<x] row (gr_cells g) }
            else Some (gr_cells g));
     cs \<leftarrow> blank_tail [sat_add16 x len..<gr_width g] row cs;
     Some (g\<lparr>gr_cells := cs\<rparr>) }"

fun fill_loop :: "nat list \<Rightarrow> cell \<Rightarrow> cell list \<Rightarrow> cell list option" where
  "fill_loop [] c cs = Some cs"
| "fill_loop (i # is) c cs = do { cs \<leftarrow> put_cell cs i c; fill_loop is c cs }"

definition fill_span :: "grid \<Rightarrow> nat \<Rightarrow> nat \<Rightarrow> nat \<Rightarrow> cell \<Rightarrow> grid option" where
  "fill_span g y x_start x_end c = do {
     ensure (ce_advance c = 1);
     if y \<ge> gr_height g then Some g
     else do {
       let x_start = min x_start (gr_width g);
       let x_end = min x_end (gr_width g);
       if x_start \<ge> x_end then Some g
       else do {
         g \<leftarrow> repair_edges g x_start y (x_end - x_start);
         let row = grid_index g 0 y;
         cs \<leftarrow> fill_loop [row + x_start..<row + x_end] c (gr_cells g);
         Some (g\<lparr>gr_cells := cs\<rparr>) } } }"

definition set_glyph :: "grid \<Rightarrow> nat \<Rightarrow> nat \<Rightarrow> ustring \<Rightarrow> nat \<Rightarrow> resolved_style \<Rightarrow> grid option" where
  "set_glyph g x y text adv style =
     (if x \<ge> gr_width g \<or> y \<ge> gr_height g then Some g
      else (let adv = max adv 1 in
        if sat_add16 x adv > gr_width g then fill_span g y x (gr_width g) (cell_blank style)
        else do {
          g \<leftarrow> repair_edges g x y adv;
          let row = grid_index g 0 y;
          cs \<leftarrow> put_cell (gr_cells g) (row + x) (cell_glyph text adv style);
          cs \<leftarrow> fill_loop [row + x + 1..<row + x + adv] (cell_continuation style) cs;
          Some (g\<lparr>gr_cells := cs\<rparr>) }))"

section \<open>The write invariant\<close>

text \<open>A row of width \<open>w\<close>: every head is followed by the continuations of its glyph, which ends inside
  the row, and every continuation lies in a glyph.\<close>

definition row_ok :: "(nat \<Rightarrow> cell) \<Rightarrow> nat \<Rightarrow> bool" where
  "row_ok r w \<longleftrightarrow>
     (\<forall>h < w. ce_advance (r h) \<noteq> 0 \<longrightarrow> h + ce_advance (r h) \<le> w \<and>
        (\<forall>k. h < k \<and> k < h + ce_advance (r h) \<longrightarrow> r k = cell_continuation (ce_style (r h)))) \<and>
     (\<forall>i < w. ce_advance (r i) = 0 \<longrightarrow> (\<exists>h < i. i < h + ce_advance (r h)))"

definition gcell :: "grid \<Rightarrow> nat \<Rightarrow> nat \<Rightarrow> cell" where
  "gcell g y i = gr_cells g ! (y * gr_width g + i)"

definition grid_ok :: "grid \<Rightarrow> bool" where
  "grid_ok g \<longleftrightarrow> length (gr_cells g) = gr_width g * gr_height g \<and> gr_width g < u16_max \<and>
     (\<forall>y < gr_height g. row_ok (gcell g y) (gr_width g))"

text \<open>The cells of the glyphs a span meets, and the row with a span overwritten: what is left of a
  glyph that is cut turns blank in its own style.\<close>

definition touched :: "(nat \<Rightarrow> cell) \<Rightarrow> nat \<Rightarrow> nat \<Rightarrow> nat \<Rightarrow> bool" where
  "touched r x len i \<longleftrightarrow> (\<exists>h \<le> i. i < h + ce_advance (r h) \<and> h < x + len \<and> x < h + ce_advance (r h))"

definition overwritten :: "(nat \<Rightarrow> cell) \<Rightarrow> nat \<Rightarrow> nat \<Rightarrow> (nat \<Rightarrow> cell) \<Rightarrow> nat \<Rightarrow> cell" where
  "overwritten r x len new i =
     (if x \<le> i \<and> i < x + len then new i
      else if touched r x len i then cell_blank (ce_style (r i))
      else r i)"

definition span_ok :: "(nat \<Rightarrow> cell) \<Rightarrow> nat \<Rightarrow> nat \<Rightarrow> bool" where
  "span_ok new x len \<longleftrightarrow> (\<forall>i. x \<le> i \<and> i < x + len \<longrightarrow>
     (ce_advance (new i) \<noteq> 0 \<longrightarrow> i + ce_advance (new i) \<le> x + len \<and>
        (\<forall>k. i < k \<and> k < i + ce_advance (new i) \<longrightarrow> new k = cell_continuation (ce_style (new i)))) \<and>
     (ce_advance (new i) = 0 \<longrightarrow> (\<exists>h. x \<le> h \<and> h < i \<and> i < h + ce_advance (new h))))"

lemma cell_advances [simp]:
  "ce_advance (cell_blank s) = 1" "ce_advance (cell_continuation s) = 0" "ce_advance (cell_glyph t n s) = max n 1"
  by (simp_all add: cell_blank_def cell_continuation_def cell_glyph_def)

lemma row_okD:
  assumes "row_ok r w" "h < w" "ce_advance (r h) \<noteq> 0"
  shows "h + ce_advance (r h) \<le> w" "h < k \<Longrightarrow> k < h + ce_advance (r h) \<Longrightarrow> r k = cell_continuation (ce_style (r h))"
    "h < k \<Longrightarrow> k < h + ce_advance (r h) \<Longrightarrow> ce_advance (r k) = 0"
proof -
  have a: "h + ce_advance (r h) \<le> w \<and>
      (\<forall>k. h < k \<and> k < h + ce_advance (r h) \<longrightarrow> r k = cell_continuation (ce_style (r h)))"
    using assms(1) [unfolded row_ok_def, THEN conjunct1] assms(2,3) by blast
  then show "h + ce_advance (r h) \<le> w" by blast
  show k: "r k = cell_continuation (ce_style (r h))" if "h < k" "k < h + ce_advance (r h)" using a that by blast
  show "ce_advance (r k) = 0" if "h < k" "k < h + ce_advance (r h)" using k [OF that] by simp
qed

lemma span_okD:
  assumes "span_ok new x len" "x \<le> i" "i < x + len"
  shows "ce_advance (new i) \<noteq> 0 \<Longrightarrow> i + ce_advance (new i) \<le> x + len"
    "ce_advance (new i) \<noteq> 0 \<Longrightarrow> i < k \<Longrightarrow> k < i + ce_advance (new i) \<Longrightarrow> new k = cell_continuation (ce_style (new i))"
    "ce_advance (new i) = 0 \<Longrightarrow> \<exists>h. x \<le> h \<and> h < i \<and> i < h + ce_advance (new h)"
  using assms(1) [unfolded span_ok_def, rule_format, of i] assms(2,3) by blast+

text \<open>The glyph a cell belongs to is unique.\<close>

lemma glyph_unique:
  assumes "row_ok r w" "i < w" "h \<le> i" "i < h + ce_advance (r h)" "h' \<le> i" "i < h' + ce_advance (r h')"
  shows "h = h'"
proof (rule ccontr)
  assume "h \<noteq> h'"
  then consider "h < h'" | "h' < h" by linarith
  then show False
  proof cases
    case 1
    have "ce_advance (r h') = 0" by (rule row_okD(3) [OF assms(1), of h]) (use assms 1 in simp_all)
    with assms(5,6) show False by simp
  next
    case 2
    have "ce_advance (r h) = 0" by (rule row_okD(3) [OF assms(1), of h']) (use assms 2 in simp_all)
    with assms(3,4) show False by simp
  qed
qed

lemma overwritten_cases:
  "x \<le> i \<and> i < x + len \<Longrightarrow> overwritten r x len new i = new i"
  "\<not> (x \<le> i \<and> i < x + len) \<Longrightarrow> touched r x len i \<Longrightarrow> overwritten r x len new i = cell_blank (ce_style (r i))"
  "\<not> (x \<le> i \<and> i < x + len) \<Longrightarrow> \<not> touched r x len i \<Longrightarrow> overwritten r x len new i = r i"
  unfolding overwritten_def by (auto simp only: if_True if_False simp_thms)

lemma row_ok_overwritten:
  assumes "row_ok r w" "x + len \<le> w" "span_ok new x len"
  shows "row_ok (overwritten r x len new) w"
  unfolding row_ok_def
proof (intro conjI allI impI)
  let ?o = "overwritten r x len new"
  have kept: "i + ce_advance (r i) \<le> w \<and> (\<forall>k. i \<le> k \<and> k < i + ce_advance (r i) \<longrightarrow> ?o k = r k)"
    if "i < w" "\<not> (x \<le> i \<and> i < x + len)" "\<not> touched r x len i" "ce_advance (r i) \<noteq> 0" for i
  proof -
    have away: "\<not> (i < x + len \<and> x < i + ce_advance (r i))" using that by (auto simp: touched_def)
    have "?o k = r k" if k: "i \<le> k" "k < i + ce_advance (r i)" for k
    proof -
      have kw: "k < w" using row_okD(1) [OF assms(1) \<open>i < w\<close> \<open>ce_advance (r i) \<noteq> 0\<close>] k by simp
      have "\<not> touched r x len k"
        using glyph_unique [OF assms(1) kw k] away by (auto simp: touched_def)
      moreover have "\<not> (x \<le> k \<and> k < x + len)" using away that(2) k by linarith
      ultimately show ?thesis by (simp add: overwritten_cases(3))
    qed
    with row_okD(1) [OF assms(1) that(1,4)] show ?thesis by simp
  qed
  fix h assume h: "h < w"
  show "h + ce_advance (?o h) \<le> w" if a: "ce_advance (?o h) \<noteq> 0"
  proof (cases "x \<le> h \<and> h < x + len")
    case True
    then have "h + ce_advance (new h) \<le> x + len" using a True span_okD(1) [OF assms(3)] by (simp add: overwritten_cases(1))
    with True assms(2) show ?thesis by (simp add: overwritten_cases(1))
  next
    case False
    with a h kept [of h] show ?thesis
      by (cases "touched r x len h") (simp_all add: overwritten_cases(2) [OF False] overwritten_cases(3) [OF False])
  qed
  show "?o k = cell_continuation (ce_style (?o h))"
    if a: "ce_advance (?o h) \<noteq> 0" and k: "h < k \<and> k < h + ce_advance (?o h)" for k
  proof (cases "x \<le> h \<and> h < x + len")
    case True
    then have o: "?o h = new h" by (rule overwritten_cases(1))
    have b: "ce_advance (new h) \<noteq> 0" "h < k" "k < h + ce_advance (new h)" using a k unfolding o by simp_all
    have "k < x + len" using span_okD(1) [OF assms(3) _ _ b(1)] True b(3) by linarith
    moreover have "new k = cell_continuation (ce_style (new h))"
      using span_okD(2) [OF assms(3) _ _ b] True by blast
    moreover have "?o k = new k" by (rule overwritten_cases(1)) (use True k calculation(1) in simp)
    ultimately show ?thesis using o by simp
  next
    case False
    show ?thesis
    proof (cases "touched r x len h")
      case True
      have "?o h = cell_blank (ce_style (r h))" by (rule overwritten_cases(2) [OF False True])
      with k have False by auto
      then show ?thesis ..
    next
      case free: False
      have o: "?o h = r h" by (rule overwritten_cases(3) [OF False free])
      with kept [OF h False free] a k have "?o k = r k" by simp
      moreover have "r k = cell_continuation (ce_style (r h))"
        by (rule row_okD(2) [OF assms(1) h]) (use a k o in simp_all)
      ultimately show ?thesis using o by simp
    qed
  qed
  show "\<exists>g < h. h < g + ce_advance (?o g)" if a: "ce_advance (?o h) = 0"
  proof (cases "x \<le> h \<and> h < x + len")
    case True
    then have "?o h = new h" by (rule overwritten_cases(1))
    then obtain g where g: "x \<le> g" "g < h" "h < g + ce_advance (new g)"
      using True a span_okD(3) [OF assms(3), of h] by auto
    with True have "?o g = new g" by (intro overwritten_cases(1)) simp
    with g show ?thesis by auto
  next
    case False
    have free: "\<not> touched r x len h" using a overwritten_cases(2) [OF False] by (metis cell_advances(1) one_neq_zero)
    have same: "?o h = r h" by (rule overwritten_cases(3) [OF False free])
    have "ce_advance (r h) = 0" using a same by simp
    then obtain g where g: "g < h" "h < g + ce_advance (r g)"
      using assms(1) [unfolded row_ok_def, THEN conjunct2] h by blast
    have "\<not> (g < x + len \<and> x < g + ce_advance (r g))" using free g by (auto simp: touched_def)
    moreover have "\<not> touched r x len g"
    proof
      assume "touched r x len g"
      then obtain k where k: "k \<le> g" "g < k + ce_advance (r k)" "k < x + len" "x < k + ce_advance (r k)"
        by (auto simp: touched_def)
      have "k = g" by (rule glyph_unique [OF assms(1), of g]) (use k g h in simp_all)
      with k free g show False by (auto simp: touched_def)
    qed
    moreover have "\<not> (x \<le> g \<and> g < x + len)" using calculation(1) g by linarith
    ultimately have "?o g = r g" by (simp add: overwritten_cases(3))
    with g show ?thesis by auto
  qed
qed

section \<open>The writers\<close>

lemma find_head_eq:
  assumes "g \<le> x" "\<And>i. g < i \<Longrightarrow> i \<le> x \<Longrightarrow> is_continuation (cs ! (row + i))" "row + x < length cs"
    "g = 0 \<or> \<not> is_continuation (cs ! (row + g))"
  shows "find_head cs row x = Some g"
  using assms
proof (induction x)
  case (Suc x)
  show ?case
  proof (cases "g = Suc x")
    case True
    with Suc.prems show ?thesis by (simp add: nth_opt_def)
  next
    case False
    have "is_continuation (cs ! (row + Suc x))" by (rule Suc.prems(2)) (use False Suc.prems(1) in simp_all)
    with False Suc show ?thesis by (simp add: nth_opt_def)
  qed
qed simp

lemma blank_at_eq: "i < length cs \<Longrightarrow> blank_at cs i = Some (cs[i := cell_blank (ce_style (cs ! i))])"
  by (simp add: blank_at_def nth_opt_def put_cell_def)

lemma blank_loop_eq:
  assumes "distinct is" "\<forall>i \<in> set is. row + i < length cs"
  obtains cs' where "blank_loop is row cs = Some cs'" "length cs' = length cs"
    "\<And>j. cs' ! j = (if \<exists>i \<in> set is. j = row + i then cell_blank (ce_style (cs ! j)) else cs ! j)"
  using assms
proof (induction "is" arbitrary: cs thesis)
  case (Cons i xs)
  let ?cs = "cs[row + i := cell_blank (ce_style (cs ! (row + i)))]"
  have b: "blank_at cs (row + i) = Some ?cs" using Cons.prems(3) by (intro blank_at_eq) simp
  obtain cs' where cs': "blank_loop xs row ?cs = Some cs'" "length cs' = length ?cs"
    "\<And>j. cs' ! j = (if \<exists>i \<in> set xs. j = row + i then cell_blank (ce_style (?cs ! j)) else ?cs ! j)"
    by (rule Cons.IH [of ?cs]) (use Cons.prems(2,3) in auto)
  show ?case
  proof (rule Cons.prems(1))
    show "blank_loop (i # xs) row cs = Some cs'" using b cs'(1) by simp
    show "cs' ! j = (if \<exists>i \<in> set (i # xs). j = row + i then cell_blank (ce_style (cs ! j)) else cs ! j)" for j
      using cs'(3) [of j] Cons.prems(2,3) by (cases "j = row + i") auto
  qed (use cs'(2) in simp)
qed simp

lemma blank_tail_eq:
  assumes "a \<le> w" "row + w \<le> length cs"
  obtains hi cs' where "blank_tail [a..<w] row cs = Some cs'" "length cs' = length cs" "a \<le> hi" "hi \<le> w"
    "\<And>i. a \<le> i \<Longrightarrow> i < hi \<Longrightarrow> is_continuation (cs ! (row + i))" "hi < w \<Longrightarrow> \<not> is_continuation (cs ! (row + hi))"
    "\<And>j. cs' ! j = (if row + a \<le> j \<and> j < row + hi then cell_blank (ce_style (cs ! j)) else cs ! j)"
  using assms
proof (induction "w - a" arbitrary: a cs thesis)
  case 0
  have "a = w" using "0.hyps" "0.prems"(2) by linarith
  show ?case by (rule "0.prems"(1) [of cs w]) (auto simp: \<open>a = w\<close>)
next
  case (Suc n)
  have up: "[a..<w] = a # [Suc a..<w]" using Suc.hyps(2) by (simp add: upt_conv_Cons)
  have a: "row + a < length cs" using Suc.hyps(2) Suc.prems(3) by simp
  show ?case
  proof (cases "is_continuation (cs ! (row + a))")
    case False
    show ?thesis
      by (rule Suc.prems(1) [of cs a]) (use up a False Suc.prems(2) in \<open>auto simp: nth_opt_def\<close>)
  next
    case True
    let ?cs = "cs[row + a := cell_blank (ce_style (cs ! (row + a)))]"
    obtain hi cs' where h: "blank_tail [Suc a..<w] row ?cs = Some cs'" "length cs' = length ?cs" "Suc a \<le> hi" "hi \<le> w"
      "\<And>i. Suc a \<le> i \<Longrightarrow> i < hi \<Longrightarrow> is_continuation (?cs ! (row + i))" "hi < w \<Longrightarrow> \<not> is_continuation (?cs ! (row + hi))"
      "\<And>j. cs' ! j = (if row + Suc a \<le> j \<and> j < row + hi then cell_blank (ce_style (?cs ! j)) else ?cs ! j)"
      by (rule Suc.hyps(1) [of "Suc a" ?cs]) (use Suc.hyps(2) Suc.prems(2,3) in auto)
    show ?thesis
    proof (rule Suc.prems(1) [of cs' hi])
      show "blank_tail [a..<w] row cs = Some cs'"
        using up a True h(1) by (simp add: nth_opt_def blank_at_eq)
      show "is_continuation (cs ! (row + i))" if "a \<le> i" "i < hi" for i
        using that True h(5) [of i] by (cases "i = a") auto
      show "hi < w \<Longrightarrow> \<not> is_continuation (cs ! (row + hi))" using h(3,6) by simp
      show "cs' ! j = (if row + a \<le> j \<and> j < row + hi then cell_blank (ce_style (cs ! j)) else cs ! j)" for j
        using h(3) h(7) [of j] a by (cases "j = row + a") auto
    qed (use h in simp_all)
  qed
qed

lemma fill_loop_eq:
  "\<forall>i \<in> set is. i < length cs \<Longrightarrow>
   \<exists>cs'. fill_loop is c cs = Some cs' \<and> length cs' = length cs \<and> (\<forall>j. cs' ! j = (if j \<in> set is then c else cs ! j))"
proof (induction "is" arbitrary: cs)
  case (Cons i xs)
  then obtain cs' where "fill_loop xs c (cs[i := c]) = Some cs'" "length cs' = length cs"
    "\<forall>j. cs' ! j = (if j \<in> set xs then c else cs[i := c] ! j)"
    using Cons.IH [of "cs[i := c]"] by auto
  with Cons.prems show ?case by (auto simp: put_cell_def nth_list_update)
qed simp

lemma touched_left:
  assumes "row_ok r w" "i < x" "x < w" "0 < len"
  shows "touched r x len i \<longleftrightarrow> (\<exists>h \<le> i. x < h + ce_advance (r h))"
  using assms by (auto simp: touched_def)

lemma touched_right:
  assumes "row_ok r w" "x + len \<le> i" "i < w" "0 < len" "x + len \<le> hi" "hi \<le> w"
    "\<And>k. x + len \<le> k \<Longrightarrow> k < hi \<Longrightarrow> ce_advance (r k) = 0" "hi < w \<Longrightarrow> ce_advance (r hi) \<noteq> 0"
  shows "touched r x len i \<longleftrightarrow> i < hi"
proof
  assume "touched r x len i"
  then obtain h where h: "h \<le> i" "i < h + ce_advance (r h)" "h < x + len" by (auto simp: touched_def)
  show "i < hi"
  proof (rule ccontr)
    assume "\<not> i < hi"
    then have "hi < w" "h < hi" "hi < h + ce_advance (r h)" using h assms(2,3,5) by linarith+
    with row_okD(3) [OF assms(1), of h hi] h assms(2-6) assms(8) show False by simp
  qed
next
  assume i: "i < hi"
  then have "ce_advance (r i) = 0" using assms(2,7) by simp
  then obtain g where g: "g < i" "i < g + ce_advance (r g)"
    using assms(1) [unfolded row_ok_def, THEN conjunct2] assms(3) by blast
  have "g < x + len"
  proof (rule ccontr)
    assume "\<not> g < x + len"
    then have "ce_advance (r g) = 0" using assms(7) [of g] i g by simp
    with g show False by simp
  qed
  with g assms(2,4) show "touched r x len i" by (auto simp: touched_def intro!: exI [of _ g])
qed

lemma repair_edges_ok:
  assumes "row_ok (gcell g y) (gr_width g)" "length (gr_cells g) = gr_width g * gr_height g" "y < gr_height g"
    "gr_width g < u16_max" "0 < len" "x + len \<le> gr_width g"
  obtains cs where "repair_edges g x y len = Some (g\<lparr>gr_cells := cs\<rparr>)" "length cs = length (gr_cells g)"
    "\<And>i. i < gr_width g \<Longrightarrow> cs ! (y * gr_width g + i) =
       (if \<not> (x \<le> i \<and> i < x + len) \<and> touched (gcell g y) x len i then cell_blank (ce_style (gcell g y i)) else gcell g y i)"
    "\<And>j. \<not> (y * gr_width g \<le> j \<and> j < y * gr_width g + gr_width g) \<Longrightarrow> cs ! j = gr_cells g ! j"
proof -
  let ?w = "gr_width g"
  let ?r = "gcell g y"
  let ?row = "y * ?w"
  have fits: "?row + ?w \<le> length (gr_cells g)"
  proof -
    have "Suc y * ?w \<le> gr_height g * ?w" using assms(3) by (intro mult_le_mono1) simp
    then show ?thesis using assms(2) by (simp add: mult.commute)
  qed
  have x: "x < ?w" using assms(5,6) by simp
  have cell: "gr_cells g ! (?row + i) = ?r i" for i by (simp add: gcell_def)
  obtain lo cs1 where cs1: "(if is_continuation (?r x) then do { h \<leftarrow> find_head (gr_cells g) ?row x; blank_loop [h..<x] ?row (gr_cells g) }
      else Some (gr_cells g)) = Some cs1" "length cs1 = length (gr_cells g)"
      "\<And>j. cs1 ! j = (if ?row + lo \<le> j \<and> j < ?row + x then cell_blank (ce_style (gr_cells g ! j)) else gr_cells g ! j)"
      "lo \<le> x" "\<And>i. i < x \<Longrightarrow> touched ?r x len i \<longleftrightarrow> lo \<le> i"
  proof (cases "is_continuation (?r x)")
    case False
    have "\<not> touched ?r x len i" if ix: "i < x" for i
    proof
      assume "touched ?r x len i"
      then obtain h where h: "h \<le> i" "x < h + ce_advance (?r h)" using touched_left [OF assms(1) ix x assms(5)] by auto
      then have "ce_advance (?r x) = 0" by (intro row_okD(3) [OF assms(1), of h]) (use ix x in simp_all)
      with False show False by (simp add: is_continuation_def)
    qed
    with False show thesis by (intro that [of "gr_cells g" x]) auto
  next
    case True
    then obtain h where h: "h < x" "x < h + ce_advance (?r h)"
      using assms(1) [unfolded row_ok_def, THEN conjunct2] x by (auto simp: is_continuation_def)
    have cont: "is_continuation (?r i)" if "h < i" "i \<le> x" for i
      using row_okD(3) [OF assms(1), of h i] h that x by (simp add: is_continuation_def)
    have "find_head (gr_cells g) ?row x = Some h"
      by (rule find_head_eq) (use h cont x fits in \<open>auto simp: cell is_continuation_def\<close>)
    moreover obtain cs1 where "blank_loop [h..<x] ?row (gr_cells g) = Some cs1" "length cs1 = length (gr_cells g)"
      "\<And>j. cs1 ! j = (if \<exists>i \<in> set [h..<x]. j = ?row + i then cell_blank (ce_style (gr_cells g ! j)) else gr_cells g ! j)"
      by (rule blank_loop_eq [of "[h..<x]" ?row "gr_cells g"]) (use fits x in auto)
    moreover have "(\<exists>i \<in> set [h..<x]. j = ?row + i) \<longleftrightarrow> ?row + h \<le> j \<and> j < ?row + x" for j
      by (auto intro!: bexI [of _ "j - ?row"])
    moreover have "touched ?r x len i \<longleftrightarrow> h \<le> i" if i: "i < x" for i
    proof
      assume "touched ?r x len i"
      then obtain k where k: "k \<le> i" "x < k + ce_advance (?r k)" using touched_left [OF assms(1) i x assms(5)] by auto
      have "k = h" by (rule glyph_unique [OF assms(1) x]) (use k h i in simp_all)
      with k show "h \<le> i" by simp
    next
      assume "h \<le> i"
      with h touched_left [OF assms(1) i x assms(5)] show "touched ?r x len i" by blast
    qed
    ultimately show thesis using True h(1) by (intro that [of cs1 h]) simp_all
  qed
  have right: "is_continuation (cs1 ! (?row + i)) \<longleftrightarrow> ce_advance (?r i) = 0" if "x \<le> i" for i
    using cs1(3) [of "?row + i"] that by (simp add: cell is_continuation_def)
  obtain hi cs2 where cs2: "blank_tail [x + len..<?w] ?row cs1 = Some cs2" "length cs2 = length cs1" "x + len \<le> hi" "hi \<le> ?w"
    "\<And>i. x + len \<le> i \<Longrightarrow> i < hi \<Longrightarrow> is_continuation (cs1 ! (?row + i))" "hi < ?w \<Longrightarrow> \<not> is_continuation (cs1 ! (?row + hi))"
    "\<And>j. cs2 ! j = (if ?row + (x + len) \<le> j \<and> j < ?row + hi then cell_blank (ce_style (cs1 ! j)) else cs1 ! j)"
    by (rule blank_tail_eq [of "x + len" ?w ?row cs1]) (use assms(6) fits cs1(2) in auto)
  have tr: "touched ?r x len i \<longleftrightarrow> i < hi" if "x + len \<le> i" "i < ?w" for i
    by (rule touched_right [OF assms(1) that assms(5) cs2(3,4)]) (use cs2(3,5,6) right in auto)
  have sat: "sat_add16 x len = x + len" using assms(4,6) by (simp add: sat_add16_def)
  show thesis
  proof (rule that [of cs2])
    show "repair_edges g x y len = Some (g\<lparr>gr_cells := cs2\<rparr>)"
      using cs1(1) cs2(1) sat fits x
      by (cases "is_continuation (?r x)") (auto simp: repair_edges_def grid_index_def nth_opt_def cell bind_eq_Some_conv)
    show "cs2 ! (?row + i) = (if \<not> (x \<le> i \<and> i < x + len) \<and> touched ?r x len i then cell_blank (ce_style (?r i)) else ?r i)"
      if "i < ?w" for i
    proof -
      consider "i < x" | "x \<le> i" "i < x + len" | "x + len \<le> i" by linarith
      then show ?thesis
      proof cases
        case 1
        then show ?thesis using cs2(7) [of "?row + i"] cs1(3) [of "?row + i"] cs1(5) [OF 1] cs2(3) by (simp add: cell)
      next
        case 2
        then show ?thesis using cs2(7) [of "?row + i"] cs1(3) [of "?row + i"] by (simp add: cell)
      next
        case 3
        then show ?thesis using cs2(7) [of "?row + i"] cs1(3) [of "?row + i"] tr [OF 3 that] by (simp add: cell)
      qed
    qed
    show "cs2 ! j = gr_cells g ! j" if "\<not> (?row \<le> j \<and> j < ?row + ?w)" for j
      using that cs2(4) cs2(7) [of j] cs1(3) [of j] x by auto
  qed (use cs1(2) cs2(2) in simp)
qed

lemma other_row:
  assumes "y' \<noteq> y" "i < (w :: nat)"
  shows "\<not> (y * w \<le> y' * w + i \<and> y' * w + i < y * w + w)"
proof
  assume a: "y * w \<le> y' * w + i \<and> y' * w + i < y * w + w"
  have "(y' * w + i) div w = y'" using assms(2) by (simp add: div_mult_self3)
  moreover have "(y' * w + i) div w = y"
    using a assms(2) by (intro div_nat_eqI) (simp_all add: mult.commute)
  ultimately show False using assms(1) by simp
qed

text \<open>What a write leaves: the row overwritten, every other row as it was.\<close>

definition writes_row :: "grid \<Rightarrow> nat \<Rightarrow> nat \<Rightarrow> nat \<Rightarrow> (nat \<Rightarrow> cell) \<Rightarrow> grid \<Rightarrow> bool" where
  "writes_row g y x len new g' \<longleftrightarrow> grid_size g' = grid_size g \<and>
     (\<forall>y' < gr_height g. \<forall>i < gr_width g. gcell g' y' i =
        (if y' = y then overwritten (gcell g y) x len new i else gcell g y' i))"

lemma row_ok_cong:
  assumes "row_ok r w" "\<And>i. i < w \<Longrightarrow> r' i = r i"
  shows "row_ok r' w"
  unfolding row_ok_def
proof (intro conjI allI impI)
  fix h assume h: "h < w"
  show "h + ce_advance (r' h) \<le> w" if "ce_advance (r' h) \<noteq> 0"
    using row_okD(1) [OF assms(1) h] that assms(2) [OF h] by simp
  show "r' k = cell_continuation (ce_style (r' h))" if "ce_advance (r' h) \<noteq> 0" "h < k \<and> k < h + ce_advance (r' h)" for k
    using row_okD(1) [OF assms(1) h] row_okD(2) [OF assms(1) h, of k] that assms(2) [OF h] assms(2) [of k] by simp
  show "\<exists>g < h. h < g + ce_advance (r' g)" if "ce_advance (r' h) = 0"
  proof -
    have "ce_advance (r h) = 0" using that assms(2) [OF h] by simp
    then obtain g where "g < h" "h < g + ce_advance (r g)"
      using assms(1) [unfolded row_ok_def, THEN conjunct2] h by blast
    with assms(2) [of g] h show ?thesis by auto
  qed
qed

lemma grid_written:
  assumes "grid_ok g" "y < gr_height g" "x + len \<le> gr_width g" "span_ok new x len"
    "length cs = length (gr_cells g)"
    "\<And>i. i < gr_width g \<Longrightarrow> cs ! (y * gr_width g + i) = overwritten (gcell g y) x len new i"
    "\<And>j. \<not> (y * gr_width g \<le> j \<and> j < y * gr_width g + gr_width g) \<Longrightarrow> cs ! j = gr_cells g ! j"
  shows "grid_ok (g\<lparr>gr_cells := cs\<rparr>)" "writes_row g y x len new (g\<lparr>gr_cells := cs\<rparr>)"
proof -
  let ?g = "g\<lparr>gr_cells := cs\<rparr>"
  have c: "gcell ?g y' i = (if y' = y then overwritten (gcell g y) x len new i else gcell g y' i)"
    if "i < gr_width g" for y' i
    using assms(6) [OF that] assms(7) other_row [OF _ that, of y' y] by (auto simp: gcell_def)
  have "row_ok (gcell ?g y') (gr_width g)" if "y' < gr_height g" for y'
  proof (cases "y' = y")
    case True
    have "row_ok (overwritten (gcell g y) x len new) (gr_width g)"
      by (rule row_ok_overwritten) (use assms(1-4) in \<open>simp_all add: grid_ok_def\<close>)
    then show ?thesis by (rule row_ok_cong) (simp add: c True)
  next
    case False
    have "row_ok (gcell g y') (gr_width g)" using assms(1) that by (simp add: grid_ok_def)
    then show ?thesis by (rule row_ok_cong) (simp add: c False)
  qed
  then show "grid_ok ?g" using assms(1,5) by (simp add: grid_ok_def)
  show "writes_row g y x len new ?g" using c by (simp add: writes_row_def grid_size_def)
qed

lemma fill_span_ok:
  assumes "grid_ok g" "ce_advance c = 1"
  obtains g' where "fill_span g y x_start x_end c = Some g'" "grid_ok g'"
    "if y < gr_height g \<and> min x_start (gr_width g) < min x_end (gr_width g)
     then writes_row g y (min x_start (gr_width g)) (min x_end (gr_width g) - min x_start (gr_width g)) (\<lambda>_. c) g'
     else g' = g"
proof (cases "y < gr_height g \<and> min x_start (gr_width g) < min x_end (gr_width g)")
  case False
  then have "fill_span g y x_start x_end c = Some g" using assms(2) by (auto simp: fill_span_def Let_def not_less)
  then show thesis by (rule that [OF _ assms(1)]) (simp only: False if_False)
next
  case True
  define a where "a = min x_start (gr_width g)"
  define b where "b = min x_end (gr_width g)"
  have ab: "y < gr_height g" "a < b" "b \<le> gr_width g" using True by (auto simp: a_def b_def)
  obtain cs where cs: "repair_edges g a y (b - a) = Some (g\<lparr>gr_cells := cs\<rparr>)" "length cs = length (gr_cells g)"
    "\<And>i. i < gr_width g \<Longrightarrow> cs ! (y * gr_width g + i) =
       (if \<not> (a \<le> i \<and> i < a + (b - a)) \<and> touched (gcell g y) a (b - a) i then cell_blank (ce_style (gcell g y i)) else gcell g y i)"
    "\<And>j. \<not> (y * gr_width g \<le> j \<and> j < y * gr_width g + gr_width g) \<Longrightarrow> cs ! j = gr_cells g ! j"
    by (rule repair_edges_ok [of g y "b - a" a]) (use assms(1) ab in \<open>auto simp: grid_ok_def\<close>)
  have fits: "y * gr_width g + gr_width g \<le> length (gr_cells g)"
    using assms(1) ab(1) mult_le_mono1 [of "Suc y" "gr_height g" "gr_width g"] by (simp add: grid_ok_def mult.commute)
  obtain cs' where cs': "fill_loop [y * gr_width g + a..<y * gr_width g + b] c cs = Some cs'" "length cs' = length cs"
    "\<forall>j. cs' ! j = (if j \<in> set [y * gr_width g + a..<y * gr_width g + b] then c else cs ! j)"
    using fill_loop_eq [of "[y * gr_width g + a..<y * gr_width g + b]" cs c] fits ab cs(2) by auto
  have f: "fill_span g y x_start x_end c = Some (g\<lparr>gr_cells := cs'\<rparr>)"
    using ab cs(1) cs'(1) assms(2) by (simp add: fill_span_def a_def [symmetric] b_def [symmetric] grid_index_def)
  have "span_ok (\<lambda>_. c) a (b - a)" using assms(2) by (auto simp: span_ok_def)
  note w = grid_written [OF assms(1) ab(1) _ this, of cs']
  have "cs' ! (y * gr_width g + i) = overwritten (gcell g y) a (b - a) (\<lambda>_. c) i" if "i < gr_width g" for i
    using cs(3) [OF that] cs'(3) ab(2) by (auto simp: overwritten_def)
  moreover have "cs' ! j = gr_cells g ! j" if "\<not> (y * gr_width g \<le> j \<and> j < y * gr_width g + gr_width g)" for j
    using cs(4) [OF that] cs'(3) that ab(3) by auto
  ultimately have "grid_ok (g\<lparr>gr_cells := cs'\<rparr>)" "writes_row g y a (b - a) (\<lambda>_. c) (g\<lparr>gr_cells := cs'\<rparr>)"
    using w cs(2) cs'(2) ab(2,3) by simp_all
  then show thesis using that [OF f] True by (simp add: a_def b_def)
qed

definition glyph_cells :: "nat \<Rightarrow> ustring \<Rightarrow> nat \<Rightarrow> resolved_style \<Rightarrow> nat \<Rightarrow> cell" where
  "glyph_cells x text adv style i = (if i = x then cell_glyph text adv style else cell_continuation style)"

lemma glyph_cells_ok: "span_ok (glyph_cells x text adv style) x (max adv 1)"
  by (auto simp: span_ok_def glyph_cells_def cell_glyph_def cell_continuation_def)

lemma set_glyph_ok:
  assumes "grid_ok g"
  obtains g' where "set_glyph g x y text adv style = Some g'" "grid_ok g'"
    "if y < gr_height g \<and> x < gr_width g
     then (if x + max adv 1 \<le> gr_width g then writes_row g y x (max adv 1) (glyph_cells x text adv style) g'
           else writes_row g y x (gr_width g - x) (\<lambda>_. cell_blank style) g')
     else g' = g"
proof (cases "y < gr_height g \<and> x < gr_width g")
  case False
  then show thesis using that [of g] assms by (auto simp: set_glyph_def)
next
  case True
  define n where "n = max adv 1"
  show thesis
  proof (cases "x + n \<le> gr_width g")
    case False
    have "sat_add16 x n > gr_width g" using False assms by (simp add: sat_add16_def grid_ok_def)
    then have s: "set_glyph g x y text adv style = fill_span g y x (gr_width g) (cell_blank style)"
      using True by (simp add: set_glyph_def n_def)
    obtain g' where g': "fill_span g y x (gr_width g) (cell_blank style) = Some g'" "grid_ok g'"
      "writes_row g y x (gr_width g - x) (\<lambda>_. cell_blank style) g'"
      by (rule fill_span_ok [OF assms, of "cell_blank style" y x "gr_width g"]) (use True in \<open>auto simp: min_def\<close>)
    show thesis by (rule that [of g']) (use s g' True False in \<open>simp_all add: n_def\<close>)
  next
    case fits: True
    obtain cs where cs: "repair_edges g x y n = Some (g\<lparr>gr_cells := cs\<rparr>)" "length cs = length (gr_cells g)"
      "\<And>i. i < gr_width g \<Longrightarrow> cs ! (y * gr_width g + i) =
         (if \<not> (x \<le> i \<and> i < x + n) \<and> touched (gcell g y) x n i then cell_blank (ce_style (gcell g y i)) else gcell g y i)"
      "\<And>j. \<not> (y * gr_width g \<le> j \<and> j < y * gr_width g + gr_width g) \<Longrightarrow> cs ! j = gr_cells g ! j"
      by (rule repair_edges_ok [of g y n x]) (use assms True fits in \<open>auto simp: grid_ok_def n_def\<close>)
    have row: "y * gr_width g + gr_width g \<le> length (gr_cells g)"
      using assms True mult_le_mono1 [of "Suc y" "gr_height g" "gr_width g"] by (simp add: grid_ok_def mult.commute)
    let ?cs = "cs[y * gr_width g + x := cell_glyph text n style]"
    obtain cs' where cs': "fill_loop [y * gr_width g + x + 1..<y * gr_width g + x + n] (cell_continuation style) ?cs = Some cs'"
      "length cs' = length ?cs"
      "\<forall>j. cs' ! j = (if j \<in> set [y * gr_width g + x + 1..<y * gr_width g + x + n] then cell_continuation style else ?cs ! j)"
      using fill_loop_eq [of "[y * gr_width g + x + 1..<y * gr_width g + x + n]" ?cs "cell_continuation style"] row fits cs(2) by auto
    have np: "0 < n" by (simp add: n_def)
    have sat: "\<not> sat_add16 x n > gr_width g" using fits by (simp add: sat_add16_def)
    have n: "max adv (Suc 0) = n" by (simp add: n_def)
    have f: "set_glyph g x y text adv style = Some (g\<lparr>gr_cells := cs'\<rparr>)"
      using True sat cs(1,2) cs'(1) row fits np by (simp add: set_glyph_def Let_def n grid_index_def put_cell_def)
    have g: "cell_glyph text n style = cell_glyph text adv style" by (simp add: cell_glyph_def n_def)
    have at: "cs' ! (y * gr_width g + i) = overwritten (gcell g y) x n (glyph_cells x text adv style) i" if i: "i < gr_width g" for i
    proof -
      consider "i = x" | "x < i" "i < x + n" | "i < x \<or> x + n \<le> i" by linarith
      then show ?thesis
      proof cases
        case 1
        then show ?thesis using cs'(3) cs(2) row i np by (simp add: overwritten_def glyph_cells_def g)
      next
        case 2
        then show ?thesis using cs'(3) by (simp add: overwritten_def glyph_cells_def)
      next
        case 3
        then have "cs' ! (y * gr_width g + i) = cs ! (y * gr_width g + i)" using cs'(3) np by (auto simp: nth_list_update)
        with 3 cs(3) [OF i] show ?thesis by (auto simp: overwritten_def)
      qed
    qed
    have off: "cs' ! j = gr_cells g ! j" if j: "\<not> (y * gr_width g \<le> j \<and> j < y * gr_width g + gr_width g)" for j
      using cs(4) [OF j] cs'(3) j fits np by (auto simp: nth_list_update)
    have "span_ok (glyph_cells x text adv style) x n" using glyph_cells_ok by (simp add: n_def)
    note w = grid_written [OF assms _ fits this _ at off]
    have "grid_ok (g\<lparr>gr_cells := cs'\<rparr>)" "writes_row g y x n (glyph_cells x text adv style) (g\<lparr>gr_cells := cs'\<rparr>)"
      using w True cs(2) cs'(2) by simp_all
    then show thesis using that [OF f] True fits by (simp add: n)
  qed
qed

lemma blank_grid_ok:
  assumes "w < u16_max"
  shows "grid_ok (grid_new w h)" "grid_ok (grid_resize g w h)"
proof -
  have cell: "replicate (w * h) cell_default ! (y * w + i) = cell_default" if "y < h" "i < w" for y i
  proof -
    have "y * w + i < w * h"
      using that mult_le_mono1 [of "Suc y" h w] by (simp add: mult.commute)
    then show ?thesis by simp
  qed
  have "row_ok r w" if "\<And>i. i < w \<Longrightarrow> r i = cell_default" for r
    using that by (auto simp: row_ok_def cell_default_def)
  with cell assms show "grid_ok (grid_new w h)" "grid_ok (grid_resize g w h)"
    by (simp_all add: grid_ok_def grid_new_def grid_resize_def gcell_def)
qed

lemma grid_reset_eq: "grid_ok g \<Longrightarrow> grid_reset g = grid_resize g (gr_width g) (gr_height g)"
  by (cases g) (simp add: grid_reset_def grid_resize_def grid_ok_def)

text \<open>C26: Drawing never panics and keeps the write invariant of the grid, on which the diff relies: a
  glyph or a fill replaces exactly its columns, a glyph it cuts through turns blank in its own style,
  every other cell stays, and a glyph that does not fit its row is blanked, never split.\<close>

theorem grid_writes:
  assumes "grid_ok g" "ce_advance c = 1"
  shows "(\<exists>g'. set_glyph g x y text adv style = Some g' \<and> grid_ok g' \<and>
      (if y < gr_height g \<and> x < gr_width g
       then (if x + max adv 1 \<le> gr_width g then writes_row g y x (max adv 1) (glyph_cells x text adv style) g'
             else writes_row g y x (gr_width g - x) (\<lambda>_. cell_blank style) g')
       else g' = g)) \<and>
    (\<exists>g'. fill_span g y x_start x_end c = Some g' \<and> grid_ok g' \<and>
      (if y < gr_height g \<and> min x_start (gr_width g) < min x_end (gr_width g)
       then writes_row g y (min x_start (gr_width g)) (min x_end (gr_width g) - min x_start (gr_width g)) (\<lambda>_. c) g'
       else g' = g))"
proof (rule conjI, goal_cases)
  case 1
  show ?case by (rule set_glyph_ok [OF assms(1), of x y "text" adv style]) blast
next
  case 2
  show ?case by (rule fill_span_ok [OF assms, of y x_start x_end]) blast
qed

theorem grid_writes_witness:
  "\<exists>g'. set_glyph (grid_new 4 2) 1 1 [97] 2 default_style = Some g' \<and> grid_ok g' \<and>
     gcell g' 1 1 = cell_glyph [97] 2 default_style \<and> gcell g' 1 2 = cell_continuation default_style"
proof -
  have w: "(4 :: nat) < u16_max" by (simp add: u16_max_def)
  have "ce_advance cell_default = 1" by (simp add: cell_default_def)
  from grid_writes [OF blank_grid_ok(1) [OF w, of 2] this, of 1 1 "[97]" 2 default_style 0 0]
  obtain g' where g: "set_glyph (grid_new 4 2) 1 1 [97] 2 default_style = Some g'" "grid_ok g'"
    "writes_row (grid_new 4 2) 1 1 2 (glyph_cells 1 [97] 2 default_style) g'"
    by (auto simp: grid_new_def numeral_2_eq_2)
  have "gcell g' 1 i = overwritten (gcell (grid_new 4 2) 1) 1 2 (glyph_cells 1 [97] 2 default_style) i" if "i < 4" for i
    using g(3) that by (simp add: writes_row_def grid_new_def)
  from this [of 1] this [of 2] have "gcell g' 1 1 = cell_glyph [97] 2 default_style"
    "gcell g' 1 2 = cell_continuation default_style"
    by (simp_all add: overwritten_def glyph_cells_def)
  with g(1,2) show ?thesis by blast
qed

end
