(* ===== verification/GridDiff.thy ===== *)
theory GridDiff imports CellGrid begin

text \<open>
  The diff of two frames, \<open>hume-grid\<close>'s \<open>diff.rs\<close>: the iterator of the runs of cells to repaint, and
  the proof that repainting them turns the old frame into the new one.
\<close>

section \<open>The iterator\<close>

record row_run =
  rr_y :: nat
  rr_x :: nat
  rr_cells :: "cell list"

record diff_runs =
  dr_next :: grid
  dr_prev :: grid
  dr_max_gap :: nat
  dr_y :: nat
  dr_x :: nat

definition diff_new :: "grid \<Rightarrow> grid \<Rightarrow> nat \<Rightarrow> diff_runs option" where
  "diff_new next_grid prev max_gap = do {
     ensure (grid_size next_grid = grid_size prev);
     Some \<lparr>dr_next = next_grid, dr_prev = prev, dr_max_gap = max_gap, dr_y = 0, dr_x = 0\<rparr> }"

text \<open>The first changed column of a range.\<close>

fun find_changed :: "cell list \<Rightarrow> cell list \<Rightarrow> nat list \<Rightarrow> nat option option" where
  "find_changed a b [] = Some None"
| "find_changed a b (i # is) = do {
     c \<leftarrow> nth_opt a i;
     d \<leftarrow> nth_opt b i;
     if c \<noteq> d then Some (Some i) else find_changed a b is }"

lemma find_changed_eq:
  "\<forall>i \<in> set is. i < length a \<and> i < length b \<Longrightarrow> find_changed a b is = Some (find (\<lambda>i. a ! i \<noteq> b ! i) is)"
  by (induction "is") (auto simp: nth_opt_def)

lemma find_changed_in: "find_changed a b is = Some (Some i) \<Longrightarrow> i \<in> set is"
  by (induction "is") (auto simp: bind_eq_Some_conv split: if_splits)

text \<open>The loop that absorbs the next change while the gap before it is small.\<close>

definition absorb_limit :: "nat \<Rightarrow> nat \<Rightarrow> nat \<Rightarrow> nat" where
  "absorb_limit max_gap width e = min (sat_add16 (sat_add16 e max_gap) 1) width"

function absorb :: "cell list \<Rightarrow> cell list \<Rightarrow> nat \<Rightarrow> nat \<Rightarrow> nat \<Rightarrow> nat option" where
  "absorb a b max_gap width e =
     (case find_changed a b [e..<absorb_limit max_gap width e] of
        None \<Rightarrow> None
      | Some None \<Rightarrow> Some e
      | Some (Some k) \<Rightarrow> absorb a b max_gap width (k + 1))"
  by pat_completeness auto
termination
  by (relation "measure (\<lambda>(a, b, max_gap, width, e). width - e)")
     (auto dest!: find_changed_in simp: absorb_limit_def)

declare absorb.simps [simp del]

function next_run :: "diff_runs \<Rightarrow> (row_run option \<times> diff_runs) option" where
  "next_run d =
     (let (width, height) = grid_size (dr_next d) in
      if dr_y d < height then do {
        next_row \<leftarrow> grid_row (dr_next d) (dr_y d);
        prev_row \<leftarrow> grid_row (dr_prev d) (dr_y d);
        found \<leftarrow> find_changed next_row prev_row [dr_x d..<width];
        case found of
          None \<Rightarrow> next_run (d\<lparr>dr_y := dr_y d + 1, dr_x := 0\<rparr>)
        | Some start \<Rightarrow> do {
            e \<leftarrow> absorb next_row prev_row (dr_max_gap d) width (start + 1);
            first \<leftarrow> nth_opt next_row start;
            ensure (\<not> is_continuation first);
            cells \<leftarrow> slice_opt next_row start e;
            Some (Some \<lparr>rr_y = dr_y d, rr_x = start, rr_cells = cells\<rparr>, d\<lparr>dr_x := e\<rparr>) } }
      else Some (None, d))"
  by pat_completeness auto
termination
  by (relation "measure (\<lambda>d. gr_height (dr_next d) - dr_y d)") (auto simp: grid_size_def)

declare next_run.simps [simp del]

text \<open>Taking runs until there is none: each leaves fewer columns to scan.\<close>

lemma absorb_ge: "absorb a b max_gap width e = Some e' \<Longrightarrow> e \<le> e'"
proof (induction a b max_gap width e rule: absorb.induct)
  case (1 a b max_gap width e)
  consider "e' = e" | k where "find_changed a b [e..<absorb_limit max_gap width e] = Some (Some k)"
      "absorb a b max_gap width (k + 1) = Some e'"
    using 1(2) unfolding absorb.simps [of a b max_gap width e] by (auto split: option.splits)
  then show ?case
  proof cases
    case (2 k)
    from 1(1) [OF this(1) refl this(2)] find_changed_in [OF this(1)] show ?thesis by auto
  qed simp
qed

lemma next_run_progress:
  "next_run d = Some (Some r, d') \<Longrightarrow> dr_next d' = dr_next d \<and> dr_y d' < gr_height (dr_next d) \<and>
     (dr_y d < dr_y d' \<or> dr_y d' = dr_y d \<and> dr_x d < gr_width (dr_next d) \<and> dr_x d < dr_x d')"
proof (induction d rule: next_run.induct)
  case (1 d)
  let ?w = "gr_width (dr_next d)"
  note u = next_run.simps [of d]
  have y: "dr_y d < gr_height (dr_next d)"
    using 1(2) unfolding u by (simp add: grid_size_def split: if_splits)
  have ex: "\<exists>nr pr found. grid_row (dr_next d) (dr_y d) = Some nr \<and>
      grid_row (dr_prev d) (dr_y d) = Some pr \<and> find_changed nr pr [dr_x d..<?w] = Some found \<and>
      (case found of None \<Rightarrow> next_run (d\<lparr>dr_y := dr_y d + 1, dr_x := 0\<rparr>)
        | Some start \<Rightarrow> do {
            e \<leftarrow> absorb nr pr (dr_max_gap d) ?w (start + 1);
            first \<leftarrow> nth_opt nr start;
            ensure (\<not> is_continuation first);
            cells \<leftarrow> slice_opt nr start e;
            Some (Some \<lparr>rr_y = dr_y d, rr_x = start, rr_cells = cells\<rparr>, d\<lparr>dr_x := e\<rparr>) }) = Some (Some r, d')"
    using 1(2) y unfolding u
    by (simp only: grid_size_def Let_def prod.case if_True bind_eq_Some_conv) blast
  then obtain nr pr found where h: "grid_row (dr_next d) (dr_y d) = Some nr"
      "grid_row (dr_prev d) (dr_y d) = Some pr" "find_changed nr pr [dr_x d..<?w] = Some found"
      "(case found of None \<Rightarrow> next_run (d\<lparr>dr_y := dr_y d + 1, dr_x := 0\<rparr>)
        | Some start \<Rightarrow> do {
            e \<leftarrow> absorb nr pr (dr_max_gap d) ?w (start + 1);
            first \<leftarrow> nth_opt nr start;
            ensure (\<not> is_continuation first);
            cells \<leftarrow> slice_opt nr start e;
            Some (Some \<lparr>rr_y = dr_y d, rr_x = start, rr_cells = cells\<rparr>, d\<lparr>dr_x := e\<rparr>) }) = Some (Some r, d')"
    by blast
  show ?case
  proof (cases found)
    case None
    have "next_run (d\<lparr>dr_y := dr_y d + 1, dr_x := 0\<rparr>) = Some (Some r, d')" using h(4) None by simp
    from 1(1) [OF refl grid_size_def [symmetric] y h(1,2,3) None this] show ?thesis by auto
  next
    case (Some start)
    from find_changed_in [OF h(3) [unfolded Some]] have "dr_x d \<le> start" "start < ?w" by auto
    with h(4) Some y show ?thesis by (auto simp: bind_eq_Some_conv split: if_splits dest: absorb_ge)
  qed
qed

function all_runs :: "diff_runs \<Rightarrow> row_run list option" where
  "all_runs d =
     (case next_run d of
        None \<Rightarrow> None
      | Some (None, d') \<Rightarrow> Some []
      | Some (Some r, d') \<Rightarrow> map_option ((#) r) (all_runs d'))"
  by pat_completeness auto
termination
  by (relation "measures [\<lambda>d. gr_height (dr_next d) - dr_y d, \<lambda>d. gr_width (dr_next d) - dr_x d]")
     (auto dest!: sym [THEN next_run_progress] next_run_progress)

declare all_runs.simps [simp del]


section \<open>The runs of a diff\<close>

text \<open>The cells from one place of the scan up to another are the same in both grids, and a list of runs
  leaves out only such cells.\<close>

definition same_until :: "grid \<Rightarrow> grid \<Rightarrow> nat \<Rightarrow> nat \<Rightarrow> nat \<Rightarrow> nat \<Rightarrow> bool" where
  "same_until n p y x y' x' \<longleftrightarrow> (\<forall>j i. j < gr_height n \<and> i < gr_width n \<and> (y < j \<or> y = j \<and> x \<le> i) \<and>
     (j < y' \<or> j = y' \<and> i < x') \<longrightarrow> gcell n j i = gcell p j i)"

fun runs_from :: "grid \<Rightarrow> grid \<Rightarrow> nat \<Rightarrow> nat \<Rightarrow> row_run list \<Rightarrow> bool" where
  "runs_from n p y x [] = same_until n p y x (gr_height n) 0"
| "runs_from n p y x (r # rs) =
     (rr_y r < gr_height n \<and> (y < rr_y r \<or> y = rr_y r \<and> x \<le> rr_x r) \<and>
      rr_x r + length (rr_cells r) \<le> gr_width n \<and>
      (\<forall>k < length (rr_cells r). rr_cells r ! k = gcell n (rr_y r) (rr_x r + k)) \<and>
      (rr_x r = 0 \<or> rr_x r < gr_width n \<and> ce_advance (gcell n (rr_y r) (rr_x r)) \<noteq> 0) \<and>
      same_until n p y x (rr_y r) (rr_x r) \<and>
      runs_from n p (rr_y r) (rr_x r + length (rr_cells r)) rs)"

lemma nth_slice: "i < b - a \<Longrightarrow> b \<le> length t \<Longrightarrow> Prelude.slice t a b ! i = t ! (a + i)"
  by (simp add: Prelude.slice_def)

lemma grid_row_ok:
  assumes "grid_ok g" "y < gr_height g"
  shows "\<exists>r. grid_row g y = Some r \<and> length r = gr_width g \<and> (\<forall>i < gr_width g. r ! i = gcell g y i)"
proof -
  have "y * gr_width g + gr_width g \<le> gr_width g * gr_height g"
    using mult_le_mono1 [of "Suc y" "gr_height g" "gr_width g"] assms(2) by (simp add: mult.commute)
  with assms show ?thesis
    by (auto simp: grid_row_def grid_index_def slice_opt_def grid_ok_def gcell_def nth_slice Let_def)
qed

lemma absorb_limit_eq:
  "width < u16_max \<Longrightarrow> absorb_limit max_gap width e = min (e + max_gap + 1) width"
  by (simp add: absorb_limit_def sat_add16_def)

lemma absorb_spec:
  assumes "length a = width" "length b = width" "e \<le> width" "width < u16_max"
  shows "\<exists>e'. absorb a b max_gap width e = Some e' \<and> e \<le> e' \<and> e' \<le> width \<and>
    (\<forall>i. e' \<le> i \<and> i < e' + max_gap + 1 \<and> i < width \<longrightarrow> a ! i = b ! i)"
  using assms
proof (induction a b max_gap width e rule: absorb.induct)
  case (1 a b max_gap width e)
  let ?f = "find (\<lambda>i. a ! i \<noteq> b ! i) [e..<min (e + max_gap + 1) width]"
  have f: "find_changed a b [e..<absorb_limit max_gap width e] = Some ?f"
    using 1(2-) by (simp add: find_changed_eq absorb_limit_eq)
  note u = absorb.simps [of a b max_gap width e] f
  show ?case
  proof (cases ?f)
    case None
    then have "\<forall>i \<in> set [e..<min (e + max_gap + 1) width]. a ! i = b ! i" unfolding find_None_iff by blast
    then show ?thesis using 1(2-) None unfolding u by simp
  next
    case (Some k)
    then have "e \<le> k" "k < width" unfolding find_upt_Some by auto
    with 1(1) [OF f Some] 1(2-) obtain e' where "absorb a b max_gap width (k + 1) = Some e'" "k + 1 \<le> e'"
        "e' \<le> width" "\<forall>i. e' \<le> i \<and> i < e' + max_gap + 1 \<and> i < width \<longrightarrow> a ! i = b ! i" by auto
    with Some \<open>e \<le> k\<close> show ?thesis unfolding u by auto
  qed
qed


text \<open>Where a scan stands: at the start of a row, or after a run that the next change is not near to.
  There a changed cell that is found first is never a continuation, as long as no glyph is wider than
  the gap that is absorbed.\<close>

definition scan_at :: "grid \<Rightarrow> grid \<Rightarrow> nat \<Rightarrow> nat \<Rightarrow> nat \<Rightarrow> bool" where
  "scan_at n p max_gap y x \<longleftrightarrow> x = 0 \<or>
     (\<forall>i. x \<le> i \<and> i < x + max_gap + 1 \<and> i < gr_width n \<longrightarrow> gcell n y i = gcell p y i)"

definition advances_le :: "grid \<Rightarrow> nat \<Rightarrow> bool" where
  "advances_le g m \<longleftrightarrow> (\<forall>y < gr_height g. \<forall>i < gr_width g. ce_advance (gcell g y i) \<le> m)"

lemma first_change_is_head:
  assumes ok: "row_ok r w" "row_ok r' w" and adv: "\<forall>i < w. ce_advance (r i) \<le> m + 2"
    and st: "x = 0 \<or> (\<forall>i. x \<le> i \<and> i < x + m + 1 \<and> i < w \<longrightarrow> r i = r' i)"
    and s: "x \<le> s" "s < w" "r s \<noteq> r' s" "\<forall>i. x \<le> i \<and> i < s \<longrightarrow> r i = r' i"
  shows "ce_advance (r s) \<noteq> 0"
proof
  assume z: "ce_advance (r s) = 0"
  with ok(1) s(2) obtain h where h: "h < s" "s < h + ce_advance (r h)" unfolding row_ok_def by blast
  have "r h \<noteq> r' h"
  proof
    assume e: "r h = r' h"
    have "r s = cell_continuation (ce_style (r h))" by (rule row_okD(2) [OF ok(1)]) (use h s in auto)
    moreover have "r' s = cell_continuation (ce_style (r' h))"
      by (rule row_okD(2) [OF ok(2)]) (use h s e in auto)
    ultimately show False using s(3) e by simp
  qed
  with s(4) h(1) have "h < x" by (meson not_le_imp_less)
  with st have "\<forall>i. x \<le> i \<and> i < x + m + 1 \<and> i < w \<longrightarrow> r i = r' i" by auto
  with s have "x + m + 1 \<le> s" by (meson not_le_imp_less)
  moreover have "ce_advance (r h) \<le> m + 2" using adv h(1) s(2) by auto
  ultimately show False using h \<open>h < x\<close> by simp
qed

lemma same_until_row:
  assumes "\<forall>i. x \<le> i \<and> i < gr_width n \<longrightarrow> gcell n y i = gcell p y i" "same_until n p (y + 1) 0 y' x'"
  shows "same_until n p y x y' x'"
  unfolding same_until_def
proof (intro allI impI)
  fix j i
  assume a: "j < gr_height n \<and> i < gr_width n \<and> (y < j \<or> y = j \<and> x \<le> i) \<and> (j < y' \<or> j = y' \<and> i < x')"
  then consider "j = y" "x \<le> i" | "y + 1 < j \<or> y + 1 = j \<and> 0 \<le> i" by linarith
  then show "gcell n j i = gcell p j i"
    using a assms unfolding same_until_def by cases blast+
qed

lemma next_run_spec:
  assumes "grid_ok (dr_next d)" "grid_ok (dr_prev d)" "grid_size (dr_next d) = grid_size (dr_prev d)"
    "advances_le (dr_next d) (dr_max_gap d + 2)"
    "scan_at (dr_next d) (dr_prev d) (dr_max_gap d) (dr_y d) (dr_x d)"
  shows "\<exists>r d'. next_run d = Some (r, d') \<and>
     (r = None \<longrightarrow> same_until (dr_next d) (dr_prev d) (dr_y d) (dr_x d) (gr_height (dr_next d)) 0) \<and>
     (\<forall>q. r = Some q \<longrightarrow> d' = d\<lparr>dr_y := rr_y q, dr_x := rr_x q + length (rr_cells q)\<rparr> \<and>
         scan_at (dr_next d) (dr_prev d) (dr_max_gap d) (dr_y d') (dr_x d') \<and>
         (runs_from (dr_next d) (dr_prev d) (dr_y d') (dr_x d') rs \<longrightarrow>
          runs_from (dr_next d) (dr_prev d) (dr_y d) (dr_x d) (q # rs)))"
  using assms
proof (induction d rule: next_run.induct)
  case (1 d)
  let ?n = "dr_next d" and ?p = "dr_prev d" and ?w = "gr_width (dr_next d)" and ?h = "gr_height (dr_next d)"
    and ?y = "dr_y d" and ?x = "dr_x d"
  note prem = 1(2-)
  show ?case
  proof (cases "?y < ?h")
    case False
    then show ?thesis unfolding next_run.simps [of d] by (auto simp: grid_size_def same_until_def)
  next
    case y: True
    from grid_row_ok [OF prem(1) y] obtain nr where nr: "grid_row ?n ?y = Some nr" "length nr = ?w"
        "\<forall>i < ?w. nr ! i = gcell ?n ?y i" by blast
    have p: "gr_width ?p = ?w" "gr_height ?p = ?h" using prem(3) by (simp_all add: grid_size_def)
    from grid_row_ok [OF prem(2), of ?y] y p obtain pr where pr: "grid_row ?p ?y = Some pr" "length pr = ?w"
        "\<forall>i < ?w. pr ! i = gcell ?p ?y i" by auto
    let ?f = "find (\<lambda>i. nr ! i \<noteq> pr ! i) [?x..<?w]"
    have f: "find_changed nr pr [?x..<?w] = Some ?f" using nr(2) pr(2) by (simp add: find_changed_eq)
    note u = next_run.simps [of d]
    show ?thesis
    proof (cases ?f)
      case None
      then have "\<forall>i \<in> set [?x..<?w]. nr ! i = pr ! i" unfolding find_None_iff by blast
      then have eq: "\<forall>i. ?x \<le> i \<and> i < ?w \<longrightarrow> gcell ?n ?y i = gcell ?p ?y i" using nr(3) pr(3) by auto
      note same = same_until_row [OF eq]
      have step: "next_run d = next_run (d\<lparr>dr_y := ?y + 1, dr_x := 0\<rparr>)"
        unfolding u using y nr(1) pr(1) f None by (simp add: grid_size_def)
      note ih = 1(1) [OF refl grid_size_def [symmetric] y nr(1) pr(1) f None]
      have "scan_at ?n ?p (dr_max_gap d) (?y + 1) 0" by (simp add: scan_at_def)
      with ih prem obtain r d' where r: "next_run (d\<lparr>dr_y := ?y + 1, dr_x := 0\<rparr>) = Some (r, d')"
          "r = None \<Longrightarrow> same_until ?n ?p (?y + 1) 0 ?h 0"
          "\<And>q. r = Some q \<Longrightarrow> d' = d\<lparr>dr_y := rr_y q, dr_x := rr_x q + length (rr_cells q)\<rparr> \<and>
               scan_at ?n ?p (dr_max_gap d) (dr_y d') (dr_x d') \<and>
               (runs_from ?n ?p (dr_y d') (dr_x d') rs \<longrightarrow> runs_from ?n ?p (?y + 1) 0 (q # rs))"
        by (auto simp del: runs_from.simps)
      have "runs_from ?n ?p ?y ?x (q # rs)" if "runs_from ?n ?p (?y + 1) 0 (q # rs)" for q
        using that same [of "rr_y q" "rr_x q"] by auto
      with r same [of ?h 0] show ?thesis unfolding step
        by (cases r) (auto simp del: runs_from.simps)
    next
      case (Some s)
      then have s: "?x \<le> s" "s < ?w" "nr ! s \<noteq> pr ! s" "\<forall>i. ?x \<le> i \<and> i < s \<longrightarrow> nr ! i = pr ! i"
        unfolding find_upt_Some by auto
      then have s': "gcell ?n ?y s \<noteq> gcell ?p ?y s" "\<forall>i. ?x \<le> i \<and> i < s \<longrightarrow> gcell ?n ?y i = gcell ?p ?y i"
        using nr(3) pr(3) by auto
      have wm: "?w < u16_max" using prem(1) by (simp add: grid_ok_def)
      from absorb_spec [OF nr(2) pr(2) _ wm, of "s + 1" "dr_max_gap d"] s(2) obtain e where
        e: "absorb nr pr (dr_max_gap d) ?w (s + 1) = Some e" "s + 1 \<le> e" "e \<le> ?w"
          "\<forall>i. e \<le> i \<and> i < e + dr_max_gap d + 1 \<and> i < ?w \<longrightarrow> nr ! i = pr ! i" by auto
      have head: "ce_advance (gcell ?n ?y s) \<noteq> 0"
      proof (rule first_change_is_head [of "gcell ?n ?y" ?w "gcell ?p ?y" "dr_max_gap d" ?x s])
        show "row_ok (gcell ?n ?y) ?w" "row_ok (gcell ?p ?y) ?w" using prem(1,2) y p by (auto simp: grid_ok_def)
        show "\<forall>i < ?w. ce_advance (gcell ?n ?y i) \<le> dr_max_gap d + 2"
          using prem(4) y by (auto simp: advances_le_def)
        show "?x = 0 \<or> (\<forall>i. ?x \<le> i \<and> i < ?x + dr_max_gap d + 1 \<and> i < ?w \<longrightarrow> gcell ?n ?y i = gcell ?p ?y i)"
          using prem(5) by (simp add: scan_at_def)
      qed (use s s' in auto)
      let ?r = "\<lparr>rr_y = ?y, rr_x = s, rr_cells = Prelude.slice nr s e\<rparr>"
      have len: "length (Prelude.slice nr s e) = e - s" using e(3) nr(2) by simp
      have "next_run d = Some (Some ?r, d\<lparr>dr_x := e\<rparr>)"
        unfolding u using y nr pr(1) f Some e s head
        by (auto simp: grid_size_def nth_opt_def slice_opt_def is_continuation_def)
      moreover have "scan_at ?n ?p (dr_max_gap d) ?y e" using e(4) nr(3) pr(3) by (auto simp: scan_at_def)
      moreover have "runs_from ?n ?p ?y ?x (?r # rs)" if "runs_from ?n ?p ?y e rs"
        using that e y s head nr len s' by (auto simp: nth_slice same_until_def)
      ultimately show ?thesis using len e(2) by auto
    qed
  qed
qed

lemma all_runs_spec:
  assumes "grid_ok (dr_next d)" "grid_ok (dr_prev d)" "grid_size (dr_next d) = grid_size (dr_prev d)"
    "advances_le (dr_next d) (dr_max_gap d + 2)"
    "scan_at (dr_next d) (dr_prev d) (dr_max_gap d) (dr_y d) (dr_x d)"
  shows "\<exists>rs. all_runs d = Some rs \<and> runs_from (dr_next d) (dr_prev d) (dr_y d) (dr_x d) rs"
  using assms
proof (induction d rule: all_runs.induct)
  case (1 d)
  from next_run_spec [OF 1(2-)] obtain r d' where r: "next_run d = Some (r, d')" by blast
  show ?case
  proof (cases r)
    case None
    with next_run_spec [OF 1(2-)] r show ?thesis unfolding all_runs.simps [of d] by auto
  next
    case (Some q)
    have n: "d' = d\<lparr>dr_y := rr_y q, dr_x := rr_x q + length (rr_cells q)\<rparr>"
      "scan_at (dr_next d) (dr_prev d) (dr_max_gap d) (dr_y d') (dr_x d')"
      "runs_from (dr_next d) (dr_prev d) (dr_y d') (dr_x d') rs \<Longrightarrow>
         runs_from (dr_next d) (dr_prev d) (dr_y d) (dr_x d) (q # rs)" for rs
      using next_run_spec [OF 1(2-), of rs] next_run_spec [OF 1(2-), of "[]"] r Some by auto
    from 1(1) [OF r refl Some] 1(2-) n(1,2) obtain rs where
      "all_runs d' = Some rs" "runs_from (dr_next d) (dr_prev d) (dr_y d') (dr_x d') rs" by auto
    with n(3) r Some show ?thesis unfolding all_runs.simps [of d] by (auto simp del: runs_from.simps)
  qed
qed

end
