(* ===== verification/Screen.thy ===== *)
theory Screen imports GridDiff begin

text \<open>
  Presenting a frame, \<open>hume-platform\<close>'s \<open>screen.rs\<close>: the two grids of a double-buffered screen, the
  emitter of escape sequences, and a terminal that executes them. An escape sequence is kept as the
  value the code hands to the library that prints it; a bitflags value is the set of its flags.
\<close>

section \<open>The escape sequences\<close>

datatype color_spec = ColorReset | TrueColor "8 word" "8 word" "8 word"

datatype sgr_modifier = INTENSITY_NORMAL | INTENSITY_DIM | INTENSITY_BOLD
  | BLINK_NONE | BLINK_SLOW | BLINK_RAPID
  | SGR_ITALIC | NO_ITALIC | SGR_REVERSE | NO_REVERSE | INVISIBLE | NO_INVISIBLE
  | STRIKE_THROUGH | NO_STRIKE_THROUGH
  | UNDERLINE_NONE | UNDERLINE_SINGLE | UNDERLINE_CURLY | UNDERLINE_DOTTED | UNDERLINE_DASHED | UNDERLINE_DOUBLE

record sgr_attributes =
  sa_foreground :: "color_spec option"
  sa_background :: "color_spec option"
  sa_underline_color :: "color_spec option"
  sa_modifiers :: "sgr_modifier set"

datatype escape = ResetShowCursor | SetShowCursor | SgrReset | SgrAttributes sgr_attributes
  | CursorPosition nat nat | Printed ustring

section \<open>The emitter\<close>

definition MAX_REPRINT_GAP :: nat where
  "MAX_REPRINT_GAP = 4"

definition color_spec :: "rgb option \<Rightarrow> color_spec" where
  "color_spec color = (case color of None \<Rightarrow> ColorReset | Some (Rgb r g b) \<Rightarrow> TrueColor r g b)"

definition intensity_delta :: "modifier set \<Rightarrow> modifier set \<Rightarrow> sgr_modifier set" where
  "intensity_delta from wanted =
     (if from \<inter> {BOLD, DIM} \<noteq> wanted \<inter> {BOLD, DIM}
      then {INTENSITY_NORMAL} \<union> (if DIM \<in> wanted then {INTENSITY_DIM} else {}) \<union>
        (if BOLD \<in> wanted then {INTENSITY_BOLD} else {})
      else {})"

definition blink_delta :: "modifier set \<Rightarrow> modifier set \<Rightarrow> sgr_modifier set" where
  "blink_delta from wanted =
     (if from \<inter> {SLOW_BLINK, RAPID_BLINK} \<noteq> wanted \<inter> {SLOW_BLINK, RAPID_BLINK}
      then {BLINK_NONE} \<union> (if SLOW_BLINK \<in> wanted then {BLINK_SLOW} else {}) \<union>
        (if RAPID_BLINK \<in> wanted then {BLINK_RAPID} else {})
      else {})"

fun switch_delta :: "(modifier \<times> sgr_modifier \<times> sgr_modifier) list \<Rightarrow> modifier set \<Rightarrow> modifier set \<Rightarrow>
    sgr_modifier set" where
  "switch_delta [] from wanted = {}"
| "switch_delta ((flag, on, off) # rest) from wanted =
     (let now = (flag \<in> wanted) in
      (if (flag \<in> from) \<noteq> now then {if now then on else off} else {}) \<union> switch_delta rest from wanted)"

definition underline_flag :: "underline_style \<Rightarrow> sgr_modifier" where
  "underline_flag u = (case u of
      NoUnderline \<Rightarrow> UNDERLINE_NONE
    | Solid \<Rightarrow> UNDERLINE_SINGLE
    | Wavy \<Rightarrow> UNDERLINE_CURLY
    | Dotted \<Rightarrow> UNDERLINE_DOTTED
    | Dashed \<Rightarrow> UNDERLINE_DASHED
    | Double \<Rightarrow> UNDERLINE_DOUBLE)"

definition modifier_delta :: "resolved_style \<Rightarrow> resolved_style \<Rightarrow> sgr_modifier set" where
  "modifier_delta from wanted =
     intensity_delta (rs_modifiers from) (rs_modifiers wanted) \<union>
     blink_delta (rs_modifiers from) (rs_modifiers wanted) \<union>
     switch_delta
       [(ITALIC, SGR_ITALIC, NO_ITALIC), (REVERSED, SGR_REVERSE, NO_REVERSE),
        (HIDDEN, INVISIBLE, NO_INVISIBLE), (STRIKETHROUGH, STRIKE_THROUGH, NO_STRIKE_THROUGH)]
       (rs_modifiers from) (rs_modifiers wanted) \<union>
     (if rs_underline from \<noteq> rs_underline wanted then {underline_flag (rs_underline wanted)} else {})"

definition sgr_delta :: "resolved_style \<Rightarrow> resolved_style \<Rightarrow> sgr_attributes" where
  "sgr_delta from wanted =
     \<lparr>sa_foreground = (if rs_fg from \<noteq> rs_fg wanted then Some (color_spec (rs_fg wanted)) else None),
      sa_background = (if rs_bg from \<noteq> rs_bg wanted then Some (color_spec (rs_bg wanted)) else None),
      sa_underline_color = (if rs_underline_color from \<noteq> rs_underline_color wanted
         then Some (color_spec (rs_underline_color wanted)) else None),
      sa_modifiers = modifier_delta from wanted\<rparr>"

definition cursor_to :: "position \<Rightarrow> escape" where
  "cursor_to pos = CursorPosition (min (po_y pos) (u16_max - 1) + 1) (min (po_x pos) (u16_max - 1) + 1)"

record emitter =
  em_style :: resolved_style
  em_at :: "position option"
  em_out :: "escape list"

definition push :: "escape \<Rightarrow> emitter \<Rightarrow> emitter" where
  "push e st = st\<lparr>em_out := em_out st @ [e]\<rparr>"

fun emit_cells :: "nat \<Rightarrow> cell list \<Rightarrow> nat \<Rightarrow> emitter \<Rightarrow> emitter option" where
  "emit_cells y [] x st = Some st"
| "emit_cells y (c # cs) x st =
     (if is_continuation c then emit_cells y cs x st
      else do {
        let here = \<lparr>po_x = x, po_y = y\<rparr>;
        let st = (if em_at st \<noteq> Some here then push (cursor_to here) st else st);
        let want = ce_style c;
        let st = (if want \<noteq> em_style st
          then (push (SgrAttributes (sgr_delta (em_style st) want)) st)\<lparr>em_style := want\<rparr> else st);
        let st = push (Printed (ce_text c)) st;
        let x = x + ce_advance c;
        ensure (x \<le> u16_max);
        emit_cells y cs x (st\<lparr>em_at := Some \<lparr>po_x = x, po_y = y\<rparr>\<rparr>) })"

fun emit_loop :: "row_run list \<Rightarrow> emitter \<Rightarrow> emitter option" where
  "emit_loop [] st = Some st"
| "emit_loop (r # rs) st = do { st \<leftarrow> emit_cells (rr_y r) (rr_cells r) (rr_x r) st; emit_loop rs st }"

definition emit_runs :: "escape list \<Rightarrow> row_run list \<Rightarrow> escape list option" where
  "emit_runs out runs =
     map_option em_out (emit_loop runs \<lparr>em_style = default_style, em_at = None, em_out = out\<rparr>)"

fun full_runs :: "grid \<Rightarrow> nat list \<Rightarrow> row_run list option" where
  "full_runs g [] = Some []"
| "full_runs g (y # ys) = do {
     cells \<leftarrow> grid_row g y;
     rs \<leftarrow> full_runs g ys;
     Some (\<lparr>rr_y = y, rr_x = 0, rr_cells = cells\<rparr> # rs) }"

definition frame_escapes :: "escape list \<Rightarrow> grid \<Rightarrow> grid option \<Rightarrow> position option \<Rightarrow> escape list option" where
  "frame_escapes out next_grid prev cursor = do {
     let out = out @ [ResetShowCursor];
     out \<leftarrow> (case prev of
         Some prev \<Rightarrow> do {
           d \<leftarrow> diff_new next_grid prev MAX_REPRINT_GAP;
           rs \<leftarrow> all_runs d;
           emit_runs out rs }
       | None \<Rightarrow> do {
           let (_, height) = grid_size next_grid;
           rs \<leftarrow> full_runs next_grid [0..<height];
           emit_runs out rs });
     let out = out @ [SgrReset];
     Some (case cursor of None \<Rightarrow> out | Some pos \<Rightarrow> out @ [cursor_to pos, SetShowCursor]) }"

section \<open>The screen\<close>

record screen =
  sc_front :: grid
  sc_back :: grid
  sc_force_full :: bool
  sc_out :: "escape list"

definition screen_new :: screen where
  "screen_new = \<lparr>sc_front = grid_new 0 0, sc_back = grid_new 0 0, sc_force_full = True, sc_out = []\<rparr>"

definition resize_if_needed :: "grid \<Rightarrow> grid \<Rightarrow> bool \<Rightarrow> nat \<Rightarrow> nat \<Rightarrow> grid \<times> grid \<times> bool" where
  "resize_if_needed back front force_full width height =
     (if grid_size back \<noteq> (width, height)
      then (grid_resize back width height, grid_resize front width height, True)
      else (back, front, force_full))"

definition screen_frame :: "nat \<Rightarrow> nat \<Rightarrow> screen \<Rightarrow> screen" where
  "screen_frame width height s =
     (let (b, f, full) = resize_if_needed (sc_back s) (sc_front s) (sc_force_full s) width height in
      s\<lparr>sc_back := grid_reset b, sc_front := f, sc_force_full := full\<rparr>)"

definition invalidate :: "screen \<Rightarrow> screen" where
  "invalidate s = s\<lparr>sc_force_full := True\<rparr>"

text \<open>\<open>write_all\<close> of the terminal is a parameter: it may fail with an error of the system.\<close>

definition present :: "(escape list \<Rightarrow> 'e + unit) \<Rightarrow> position option \<Rightarrow> screen \<Rightarrow> (('e + unit) \<times> screen) option" where
  "present write_all cursor s = do {
     let prev = (if \<not> sc_force_full s then Some (sc_front s) else None);
     out \<leftarrow> frame_escapes [] (sc_back s) prev cursor;
     let s = s\<lparr>sc_out := out\<rparr>;
     Some (case write_all out of
       Inl e \<Rightarrow> (Inl e, s)
     | Inr _ \<Rightarrow> (Inr (), s\<lparr>sc_front := sc_back s, sc_back := sc_front s, sc_force_full := False\<rparr>)) }"

section \<open>A terminal\<close>

text \<open>What the sequences mean. A terminal holds cells as the grid does: the head of a glyph with the
  style it was printed in, and the columns it covers. Printing advances the cursor by the columns the
  terminal gives the text; a column past the last one is the pending wrap, where printing is left
  undefined. A glyph that is cut leaves some debris of one column at most in what remains of it; which,
  is the terminal's business.\<close>

record terminal =
  tm_width :: nat
  tm_height :: nat
  tm_cells :: "nat \<Rightarrow> nat \<Rightarrow> cell"
  tm_y :: nat
  tm_x :: nat
  tm_style :: resolved_style
  tm_visible :: bool

definition apply_color :: "color_spec option \<Rightarrow> rgb option \<Rightarrow> rgb option" where
  "apply_color c old = (case c of None \<Rightarrow> old | Some ColorReset \<Rightarrow> None | Some (TrueColor r g b) \<Rightarrow> Some (Rgb r g b))"

definition apply_flag :: "sgr_modifier set \<Rightarrow> sgr_modifier \<Rightarrow> sgr_modifier \<Rightarrow> modifier \<Rightarrow> modifier set \<Rightarrow> bool" where
  "apply_flag m on off flag old = (on \<in> m \<or> flag \<in> old \<and> off \<notin> m)"

definition apply_sgr :: "sgr_attributes \<Rightarrow> resolved_style \<Rightarrow> resolved_style" where
  "apply_sgr a s =
     (let m = sa_modifiers a; old = rs_modifiers s in
      \<lparr>rs_fg = apply_color (sa_foreground a) (rs_fg s), rs_bg = apply_color (sa_background a) (rs_bg s),
       rs_underline =
         (if UNDERLINE_NONE \<in> m then NoUnderline else if UNDERLINE_SINGLE \<in> m then Solid
          else if UNDERLINE_CURLY \<in> m then Wavy else if UNDERLINE_DOTTED \<in> m then Dotted
          else if UNDERLINE_DASHED \<in> m then Dashed else if UNDERLINE_DOUBLE \<in> m then Double
          else rs_underline s),
       rs_underline_color = apply_color (sa_underline_color a) (rs_underline_color s),
       rs_modifiers =
         {b. case b of
            BOLD \<Rightarrow> apply_flag m INTENSITY_BOLD INTENSITY_NORMAL BOLD old
          | DIM \<Rightarrow> apply_flag m INTENSITY_DIM INTENSITY_NORMAL DIM old
          | SLOW_BLINK \<Rightarrow> apply_flag m BLINK_SLOW BLINK_NONE SLOW_BLINK old
          | RAPID_BLINK \<Rightarrow> apply_flag m BLINK_RAPID BLINK_NONE RAPID_BLINK old
          | ITALIC \<Rightarrow> apply_flag m SGR_ITALIC NO_ITALIC ITALIC old
          | REVERSED \<Rightarrow> apply_flag m SGR_REVERSE NO_REVERSE REVERSED old
          | HIDDEN \<Rightarrow> apply_flag m INVISIBLE NO_INVISIBLE HIDDEN old
          | STRIKETHROUGH \<Rightarrow> apply_flag m STRIKE_THROUGH NO_STRIKE_THROUGH STRIKETHROUGH old}\<rparr>)"

definition printed :: "(cell \<Rightarrow> cell) \<Rightarrow> (nat \<Rightarrow> cell) \<Rightarrow> nat \<Rightarrow> nat \<Rightarrow> cell \<Rightarrow> nat \<Rightarrow> cell" where
  "printed debris r x n c i =
     (if i = x then c
      else if x < i \<and> i < x + n then cell_continuation (ce_style c)
      else if touched r x n i then debris (r i)
      else r i)"

fun term_step :: "(ustring \<Rightarrow> nat) \<Rightarrow> (cell \<Rightarrow> cell) \<Rightarrow> terminal \<Rightarrow> escape \<Rightarrow> terminal option" where
  "term_step tw debris t ResetShowCursor = Some (t\<lparr>tm_visible := False\<rparr>)"
| "term_step tw debris t SetShowCursor = Some (t\<lparr>tm_visible := True\<rparr>)"
| "term_step tw debris t SgrReset = Some (t\<lparr>tm_style := default_style\<rparr>)"
| "term_step tw debris t (SgrAttributes a) = Some (t\<lparr>tm_style := apply_sgr a (tm_style t)\<rparr>)"
| "term_step tw debris t (CursorPosition line col) =
     Some (t\<lparr>tm_y := min (line - 1) (tm_height t - 1), tm_x := min (col - 1) (tm_width t - 1)\<rparr>)"
| "term_step tw debris t (Printed s) =
     (let n = tw s; c = \<lparr>ce_text = s, ce_style = tm_style t, ce_advance = n\<rparr> in
      if n = 0 \<or> tm_x t + n > tm_width t then None
      else Some (t\<lparr>tm_cells := (tm_cells t)(tm_y t := printed debris (tm_cells t (tm_y t)) (tm_x t) n c),
                   tm_x := tm_x t + n\<rparr>))"

fun term_run :: "(ustring \<Rightarrow> nat) \<Rightarrow> (cell \<Rightarrow> cell) \<Rightarrow> terminal \<Rightarrow> escape list \<Rightarrow> terminal option" where
  "term_run tw debris t [] = Some t"
| "term_run tw debris t (e # es) = do { t \<leftarrow> term_step tw debris t e; term_run tw debris t es }"

lemma term_run_append [simp]:
  "term_run tw debris t (es @ es') = (term_run tw debris t es \<bind> (\<lambda>t. term_run tw debris t es'))"
  by (induction es arbitrary: t) (simp_all add: bind_assoc split: Option.bind_split)

text \<open>The SGR update takes the terminal from the old style to the new one.\<close>

lemma apply_color_delta:
  "apply_color (if a \<noteq> b then Some (color_spec b) else None) a = b"
  by (auto simp: apply_color_def color_spec_def split: option.splits rgb.splits)

lemma pair_inter_eq: "(a \<inter> {p, q} = b \<inter> {p, q}) = ((p \<in> a) = (p \<in> b) \<and> (q \<in> a) = (q \<in> b))"
  by blast

lemma delta_in:
  "(x \<in> intensity_delta a b) =
     (((BOLD \<in> a) \<noteq> (BOLD \<in> b) \<or> (DIM \<in> a) \<noteq> (DIM \<in> b)) \<and>
      (x = INTENSITY_NORMAL \<or> x = INTENSITY_DIM \<and> DIM \<in> b \<or> x = INTENSITY_BOLD \<and> BOLD \<in> b))"
  "(x \<in> blink_delta a b) =
     (((SLOW_BLINK \<in> a) \<noteq> (SLOW_BLINK \<in> b) \<or> (RAPID_BLINK \<in> a) \<noteq> (RAPID_BLINK \<in> b)) \<and>
      (x = BLINK_NONE \<or> x = BLINK_SLOW \<and> SLOW_BLINK \<in> b \<or> x = BLINK_RAPID \<and> RAPID_BLINK \<in> b))"
  "(x \<in> switch_delta ((flag, on, off) # rest) a b) =
     ((flag \<in> a) \<noteq> (flag \<in> b) \<and> x = (if flag \<in> b then on else off) \<or> x \<in> switch_delta rest a b)"
  "x \<notin> switch_delta [] a b"
  unfolding intensity_delta_def blink_delta_def switch_delta.simps pair_inter_eq Let_def
  by (simp_all only: Un_iff insert_iff empty_iff split: if_split) blast+

lemma modifier_in:
  "(x \<in> modifier_delta s t) =
     (x \<in> intensity_delta (rs_modifiers s) (rs_modifiers t) \<or> x \<in> blink_delta (rs_modifiers s) (rs_modifiers t) \<or>
      x \<in> switch_delta
        [(ITALIC, SGR_ITALIC, NO_ITALIC), (REVERSED, SGR_REVERSE, NO_REVERSE),
         (HIDDEN, INVISIBLE, NO_INVISIBLE), (STRIKETHROUGH, STRIKE_THROUGH, NO_STRIKE_THROUGH)]
        (rs_modifiers s) (rs_modifiers t) \<or>
      rs_underline s \<noteq> rs_underline t \<and> x = underline_flag (rs_underline t))"
  unfolding modifier_delta_def by simp

lemma apply_sgr_delta: "apply_sgr (sgr_delta s t) s = t"
proof -
  have n: "underline_flag u \<noteq> f"
    if "f \<notin> {UNDERLINE_NONE, UNDERLINE_SINGLE, UNDERLINE_CURLY, UNDERLINE_DOTTED, UNDERLINE_DASHED, UNDERLINE_DOUBLE}"
    for f u
    using that by (cases u) (auto simp: underline_flag_def)
  have u: "rs_underline (apply_sgr (sgr_delta s t) s) = rs_underline t"
    unfolding apply_sgr_def sgr_delta_def Let_def resolved_style.simps sgr_attributes.simps modifier_in delta_in
    by (cases "rs_underline t") (simp_all add: underline_flag_def)
  have m: "(b \<in> rs_modifiers (apply_sgr (sgr_delta s t) s)) = (b \<in> rs_modifiers t)" for b
    unfolding apply_sgr_def sgr_delta_def Let_def resolved_style.simps sgr_attributes.simps modifier_in delta_in
      apply_flag_def mem_Collect_eq
    by (cases b) (simp_all add: n [symmetric] n, blast+)
  have "rs_modifiers (apply_sgr (sgr_delta s t) s) = rs_modifiers t" using m by blast
  with u show ?thesis
    by (intro resolved_style.equality) (simp_all add: apply_sgr_def sgr_delta_def Let_def apply_color_delta)
qed

section \<open>What printing a row shows\<close>

text \<open>A column is owed when its glyph changed. Left of the cursor the terminal shows the new row; right of
  it, it does at every column that is not owed, and a column that is owed holds what the old row had
  or debris. Where every column is owed nothing need be known of the terminal.\<close>

definition owed :: "(nat \<Rightarrow> cell) \<Rightarrow> (nat \<Rightarrow> cell) \<Rightarrow> nat \<Rightarrow> bool" where
  "owed r q i \<longleftrightarrow> (\<exists>h \<le> i. i < h + ce_advance (r h) \<and> r h \<noteq> q h)"

definition stale_ok :: "(nat \<Rightarrow> cell) \<Rightarrow> (nat \<Rightarrow> cell) \<Rightarrow> nat \<Rightarrow> (nat \<Rightarrow> cell) \<Rightarrow> bool" where
  "stale_ok r q w T \<longleftrightarrow> (\<forall>i < w. owed r q i) \<or>
     row_ok q w \<and> (\<forall>i < w. T i = r i \<or> T i = q i \<or> ce_advance (T i) \<le> 1)"

definition row_shown :: "(nat \<Rightarrow> cell) \<Rightarrow> (nat \<Rightarrow> cell) \<Rightarrow> nat \<Rightarrow> nat \<Rightarrow> (nat \<Rightarrow> cell) \<Rightarrow> bool" where
  "row_shown r q w x T \<longleftrightarrow> (\<forall>i < w. T i = r i \<or> x \<le> i \<and> owed r q i) \<and> stale_ok r q w T"

text \<open>Every column belongs to a glyph.\<close>

lemma glyph_of:
  assumes "row_ok r w" "i < w"
  obtains h where "h \<le> i" "i < h + ce_advance (r h)"
proof (cases "ce_advance (r i) = 0")
  case True
  then obtain g where "g < i" "i < g + ce_advance (r g)"
    using assms(1) [unfolded row_ok_def, THEN conjunct2, rule_format, OF assms(2)] by blast
  then show thesis by (intro that [of g]) auto
qed (use that [of i] in auto)

text \<open>No column before \<open>x\<close> belongs to a glyph that goes on after it.\<close>

definition boundary :: "(nat \<Rightarrow> cell) \<Rightarrow> nat \<Rightarrow> bool" where
  "boundary r x \<longleftrightarrow> (\<forall>h < x. h + ce_advance (r h) \<le> x)"

lemma boundaryD: "boundary r x \<Longrightarrow> h < x \<Longrightarrow> h + ce_advance (r h) \<le> x"
  by (simp add: boundary_def)

lemma boundary_head:
  assumes "row_ok r w" "x < w" "ce_advance (r x) \<noteq> 0"
  shows "boundary r x"
  unfolding boundary_def
proof (intro allI impI)
  fix h assume "h < x"
  show "h + ce_advance (r h) \<le> x"
  proof (rule ccontr)
    assume a: "\<not> h + ce_advance (r h) \<le> x"
    have "ce_advance (r x) = 0" by (rule row_okD(3) [OF assms(1), of h]) (use a \<open>h < x\<close> assms(2) in auto)
    with assms(3) show False by simp
  qed
qed

lemma boundary_next:
  assumes "row_ok r w" "x < w" "ce_advance (r x) \<noteq> 0"
  shows "boundary r (x + ce_advance (r x))"
  unfolding boundary_def
proof (intro allI impI)
  fix h assume h: "h < x + ce_advance (r x)"
  consider "h < x" | "h = x" | "x < h" by linarith
  then show "h + ce_advance (r h) \<le> x + ce_advance (r x)"
  proof cases
    case 1
    then show ?thesis using boundaryD [OF boundary_head [OF assms] 1] by simp
  next
    case 3
    have "ce_advance (r h) = 0" by (rule row_okD(3) [OF assms(1,2)]) (use 3 h assms(3) in auto)
    with h show ?thesis by simp
  qed simp
qed

text \<open>Columns between the cursor and the next changed head are not owed.\<close>

lemma not_owed_between:
  assumes "row_ok r w" "boundary r x" "\<forall>i. x \<le> i \<and> i < x' \<longrightarrow> r i = q i" "x \<le> i" "i < x'" "i < w"
  shows "\<not> owed r q i"
proof
  assume "owed r q i"
  then obtain h where h: "h \<le> i" "i < h + ce_advance (r h)" "r h \<noteq> q h" by (auto simp: owed_def)
  then have "x \<le> h" using boundaryD [OF assms(2), of h] assms(4) by linarith
  with h assms(3,5) show False by auto
qed

lemma row_shown_skip:
  assumes "row_shown r q w x T" "row_ok r w" "boundary r x" "\<forall>i. x \<le> i \<and> i < x' \<and> i < w \<longrightarrow> r i = q i"
  shows "row_shown r q w x' T"
proof -
  have "T i = r i \<or> x' \<le> i \<and> owed r q i" if "i < w" for i
  proof (cases "x' \<le> i \<or> i < x")
    case True
    then show ?thesis using assms(1) that by (auto simp: row_shown_def)
  next
    case False
    have "\<not> owed r q i"
      by (rule not_owed_between [OF assms(2,3), of "min x' w"]) (use assms(4) False that in auto)
    with assms(1) that show ?thesis by (auto simp: row_shown_def)
  qed
  with assms(1) show ?thesis by (simp add: row_shown_def)
qed

text \<open>Debris falls on owed columns only.\<close>

lemma touched_owed:
  assumes "row_ok r w" "row_shown r q w x T" "x < w" "ce_advance (r x) \<noteq> 0"
    "touched T x (ce_advance (r x)) i" "\<not> (x \<le> i \<and> i < x + ce_advance (r x))" "i < w"
  shows "x < i \<and> owed r q i"
proof -
  let ?a = "ce_advance (r x)"
  from assms(5) obtain h where h: "h \<le> i" "i < h + ce_advance (T h)" "h < x + ?a" "x < h + ce_advance (T h)"
    by (auto simp: touched_def)
  have hx: "x \<le> h"
  proof (rule ccontr)
    assume "\<not> x \<le> h"
    then have "T h = r h" using assms(2) [unfolded row_shown_def, THEN conjunct1, rule_format, of h] assms(3) by auto
    with boundaryD [OF boundary_head [OF assms(1,3,4)], of h] h(4) \<open>\<not> x \<le> h\<close> show False by simp
  qed
  then have xi: "x + ?a \<le> i" "h < i" using h(1,3) assms(6) by linarith+
  have "owed r q i"
  proof (rule ccontr)
    assume no: "\<not> owed r q i"
    have hw: "h < w" using xi assms(7) by simp
    have "\<not> (\<forall>i < w. owed r q i)" using no assms(7) by blast
    with assms(2) have "stale_ok r q w T \<and> \<not> (\<forall>i < w. owed r q i)" by (simp add: row_shown_def)
    then have st: "row_ok q w" "T h = r h \<or> T h = q h \<or> ce_advance (T h) \<le> 1"
      using hw by (auto simp: stale_ok_def)
    have "T h \<noteq> r h"
    proof
      assume "T h = r h"
      moreover have "h + ce_advance (r h) \<le> x + ?a"
        using boundary_next [OF assms(1,3,4)] h(3) by (simp add: boundary_def)
      ultimately show False using h(2) xi(1) by simp
    qed
    with st h(2) xi(2) have q: "T h = q h" by auto
    have cont: "q k = cell_continuation (ce_style (q h))" if "h < k" "k \<le> i" for k
      by (rule row_okD(2) [OF st(1) hw]) (use q h(2) that in auto)
    obtain g where g: "g \<le> i" "i < g + ce_advance (r g)" using glyph_of [OF assms(1,7)] by blast
    have "x + ?a \<le> g"
      using boundaryD [OF boundary_next [OF assms(1,3,4)], of g] g xi(1) by linarith
    then have "q g = cell_continuation (ce_style (q h))" using cont g(1) h(3) by simp
    moreover have "r g = q g" using no g by (auto simp: owed_def)
    ultimately show False using g by simp
  qed
  with xi show ?thesis using assms(4) by simp
qed

lemma row_shown_printed:
  assumes "row_ok r w" "row_shown r q w x T" "x < w" "ce_advance (r x) \<noteq> 0" "\<And>c. ce_advance (debris c) \<le> 1"
  shows "row_shown r q w (x + ce_advance (r x)) (printed debris T x (ce_advance (r x)) (r x))"
proof -
  let ?a = "ce_advance (r x)" and ?T = "printed debris T x (ce_advance (r x)) (r x)"
  have new: "?T i = r i" if "x \<le> i" "i < x + ?a" for i
    using that row_okD(2) [OF assms(1,3,4), of i] by (auto simp: printed_def)
  have old: "?T i = T i \<or> x < i \<and> owed r q i \<and> ce_advance (?T i) \<le> 1" if "\<not> (x \<le> i \<and> i < x + ?a)" "i < w" for i
    using touched_owed [OF assms(1-4) _ that] that assms(4,5) by (auto simp: printed_def)
  have "?T i = r i \<or> x + ?a \<le> i \<and> owed r q i" if "i < w" for i
  proof (cases "x \<le> i \<and> i < x + ?a")
    case False
    have "T i = r i \<or> x \<le> i \<and> owed r q i" using assms(2) that by (simp add: row_shown_def)
    with old [OF False that] False show ?thesis by auto
  qed (use new in simp)
  moreover have "stale_ok r q w ?T"
  proof (cases "\<forall>i < w. owed r q i")
    case False
    then have st: "row_ok q w" "\<forall>i < w. T i = r i \<or> T i = q i \<or> ce_advance (T i) \<le> 1"
      using assms(2) by (auto simp: row_shown_def stale_ok_def)
    have "?T i = r i \<or> ?T i = q i \<or> ce_advance (?T i) \<le> 1" if "i < w" for i
    proof (cases "x \<le> i \<and> i < x + ?a")
      case False
      with old [OF False that] st(2) that show ?thesis by auto
    qed (use new in simp)
    with st(1) show ?thesis by (simp add: stale_ok_def)
  qed (simp add: stale_ok_def)
  ultimately show ?thesis by (simp add: row_shown_def)
qed


section \<open>What the emitter shows\<close>

text \<open>The rows the terminal has been given, the row the cursor is in, and the rows to come.\<close>

definition shown :: "grid \<Rightarrow> grid \<Rightarrow> nat \<Rightarrow> nat \<Rightarrow> terminal \<Rightarrow> bool" where
  "shown n p y x t \<longleftrightarrow> tm_width t = gr_width n \<and> tm_height t = gr_height n \<and>
     (\<forall>j < gr_height n. row_shown (gcell n j) (gcell p j) (gr_width n)
        (if j < y then gr_width n else if j = y then x else 0) (tm_cells t j))"

definition shows_grid :: "terminal \<Rightarrow> grid \<Rightarrow> bool" where
  "shows_grid t g \<longleftrightarrow> tm_width t = gr_width g \<and> tm_height t = gr_height g \<and>
     (\<forall>j < gr_height g. \<forall>i < gr_width g. tm_cells t j i = gcell g j i)"

definition measured :: "(ustring \<Rightarrow> nat) \<Rightarrow> grid \<Rightarrow> bool" where
  "measured tw g \<longleftrightarrow> (\<forall>y < gr_height g. \<forall>i < gr_width g. ce_advance (gcell g y i) \<noteq> 0 \<longrightarrow>
     tw (ce_text (gcell g y i)) = ce_advance (gcell g y i))"

text \<open>The emitter and the terminal that has executed what was emitted.\<close>

definition in_step :: "(ustring \<Rightarrow> nat) \<Rightarrow> (cell \<Rightarrow> cell) \<Rightarrow> terminal \<Rightarrow> emitter \<Rightarrow> terminal \<Rightarrow> bool" where
  "in_step tw debris t0 st t \<longleftrightarrow> term_run tw debris t0 (em_out st) = Some t \<and> tm_style t = em_style st \<and> \<not> tm_visible t \<and>
     (\<forall>pos. em_at st = Some pos \<longrightarrow> tm_y t = po_y pos \<and> tm_x t = po_x pos)"

lemma shown_skip:
  assumes "shown n p y x t" "grid_ok n" "boundary (gcell n y) x" "same_until n p y x y' x'"
    "y < y' \<or> y = y' \<and> x \<le> x'"
  shows "shown n p y' x' t"
  unfolding shown_def
proof (intro conjI allI impI)
  show "tm_width t = gr_width n" "tm_height t = gr_height n" using assms(1) by (simp_all add: shown_def)
  fix j assume j: "j < gr_height n"
  let ?w = "gr_width n"
  let ?old = "if j < y then ?w else if j = y then x else 0" and ?new = "if j < y' then ?w else if j = y' then x' else 0"
  have ok: "row_ok (gcell n j) ?w" using assms(2) j by (simp add: grid_ok_def)
  have old: "row_shown (gcell n j) (gcell p j) ?w ?old (tm_cells t j)" using assms(1) j by (simp add: shown_def)
  consider "j < y" | "y \<le> j" "j \<le> y'" | "y' < j" by linarith
  then show "row_shown (gcell n j) (gcell p j) ?w ?new (tm_cells t j)"
  proof cases
    case 1
    then show ?thesis using old assms(5) by auto
  next
    case 2
    show ?thesis
    proof (rule row_shown_skip [OF old ok])
      show "boundary (gcell n j) ?old" using 2 assms(3) by (auto simp: boundary_def)
      show "\<forall>i. ?old \<le> i \<and> i < ?new \<and> i < ?w \<longrightarrow> gcell n j i = gcell p j i"
        using 2 assms(4) j by (auto simp: same_until_def split: if_splits)
    qed
  next
    case 3
    then show ?thesis using old assms(5) by auto
  qed
qed

lemma shown_end:
  assumes "shown n p (gr_height n) 0 t"
  shows "shows_grid t n"
  using assms by (auto simp: shown_def shows_grid_def row_shown_def)

text \<open>One head of the row: the sequences pushed for it move the cursor, set the style and print it.\<close>

lemma emit_head:
  assumes "grid_ok n" "gr_height n \<le> u16_max" "measured tw n" "\<And>c. ce_advance (debris c) \<le> 1"
    "y < gr_height n" "x < gr_width n" "ce_advance (gcell n y x) \<noteq> 0"
    "in_step tw debris t0 st t" "shown n p y x t"
  defines "c \<equiv> gcell n y x"
  obtains st' t' where "in_step tw debris t0 st' t'" "shown n p y (x + ce_advance c) t'"
    "emit_cells y (c # cs) x st = emit_cells y cs (x + ce_advance c) st'"
proof -
  define s1 where "s1 = (if em_at st \<noteq> Some \<lparr>po_x = x, po_y = y\<rparr> then push (cursor_to \<lparr>po_x = x, po_y = y\<rparr>) st else st)"
  define s2 where "s2 = (if ce_style c \<noteq> em_style s1
    then (push (SgrAttributes (sgr_delta (em_style s1) (ce_style c))) s1)\<lparr>em_style := ce_style c\<rparr> else s1)"
  define s3 where "s3 = (push (Printed (ce_text c)) s2)\<lparr>em_at := Some \<lparr>po_x = x + ce_advance c, po_y = y\<rparr>\<rparr>"
  have w: "tm_width t = gr_width n" "tm_height t = gr_height n" using assms(9) by (simp_all add: shown_def)
  have xm: "x < u16_max - 1" "y \<le> u16_max - 1" using assms(1,2,5,6) by (auto simp: grid_ok_def)
  obtain t1 where t1: "term_run tw debris t0 (em_out s1) = Some t1" "tm_y t1 = y" "tm_x t1 = x"
      "tm_cells t1 = tm_cells t" "tm_style t1 = em_style s1" "tm_width t1 = tm_width t" "tm_height t1 = tm_height t" "\<not> tm_visible t1"
  proof (cases "em_at st = Some \<lparr>po_x = x, po_y = y\<rparr>")
    case True
    with assms(8) show thesis by (intro that [of t]) (auto simp: in_step_def s1_def)
  next
    case False
    with assms(5,6,8) w xm show thesis
      by (intro that [of "t\<lparr>tm_y := y, tm_x := x\<rparr>"]) (auto simp: in_step_def s1_def push_def cursor_to_def)
  qed
  obtain t2 where t2: "term_run tw debris t0 (em_out s2) = Some t2" "tm_y t2 = y" "tm_x t2 = x"
      "tm_cells t2 = tm_cells t" "tm_style t2 = ce_style c" "tm_width t2 = tm_width t" "tm_height t2 = tm_height t" "\<not> tm_visible t2"
      "em_style s2 = ce_style c"
  proof (cases "ce_style c = em_style s1")
    case True
    with t1 show thesis by (intro that [of t1]) (auto simp: s2_def)
  next
    case False
    with t1 show thesis
      by (intro that [of "t1\<lparr>tm_style := ce_style c\<rparr>"]) (auto simp: s2_def push_def apply_sgr_delta)
  qed
  have ok: "row_ok (gcell n y) (gr_width n)" using assms(1,5) by (simp add: grid_ok_def)
  have tw: "tw (ce_text c) = ce_advance c" using assms(3,5-7) by (simp add: measured_def c_def)
  have fits: "x + ce_advance c \<le> gr_width n" using row_okD(1) [OF ok assms(6,7)] by (simp add: c_def)
  let ?row = "printed debris (tm_cells t y) x (ce_advance c) c"
  let ?t = "t2\<lparr>tm_cells := (tm_cells t)(y := ?row), tm_x := x + ce_advance c\<rparr>"
  have cell: "\<lparr>ce_text = ce_text c, ce_style = ce_style c, ce_advance = ce_advance c\<rparr> = c" by simp
  have "term_step tw debris t2 (Printed (ce_text c)) = Some ?t"
    unfolding term_step.simps Let_def t2(2-7) tw cell using fits w assms(7) by (simp add: c_def [symmetric])
  then have "in_step tw debris t0 s3 ?t"
    using t2 by (simp add: in_step_def s3_def push_def del: term_step.simps)
  moreover have "row_shown (gcell n y) (gcell p y) (gr_width n) (x + ce_advance c) ?row"
    unfolding c_def
    by (rule row_shown_printed [OF ok _ assms(6,7,4)]) (use assms(5,9) in \<open>auto simp: shown_def\<close>)
  then have "shown n p y (x + ce_advance c) ?t" using assms(9) t2(6,7) by (auto simp: shown_def)
  moreover have "emit_cells y (c # cs) x st = emit_cells y cs (x + ce_advance c) s3"
    using fits assms(1,7)
    by (simp add: Let_def s1_def s2_def s3_def is_continuation_def c_def [symmetric] grid_ok_def)
  ultimately show thesis by (rule that)
qed

text \<open>The cells of a run from the head the cursor stands at.\<close>

lemma emit_cells_shown:
  assumes "grid_ok n" "gr_height n \<le> u16_max" "measured tw n" "\<And>c. ce_advance (debris c) \<le> 1" "y < gr_height n"
    "in_step tw debris t0 st t" "shown n p y x t" "boundary (gcell n y) x"
    "i \<le> x \<and> x \<le> gr_width n" "\<forall>k. i \<le> k \<and> k < x \<longrightarrow> ce_advance (gcell n y k) = 0"
    "i + length cs \<le> gr_width n" "\<forall>k < length cs. cs ! k = gcell n y (i + k)"
  shows "\<exists>st' t' x'. emit_cells y cs x st = Some st' \<and> in_step tw debris t0 st' t' \<and> shown n p y x' t' \<and>
    boundary (gcell n y) x' \<and> i + length cs \<le> x' \<and> x' \<le> gr_width n \<and> (\<forall>k. i + length cs \<le> k \<and> k < x' \<longrightarrow> ce_advance (gcell n y k) = 0)"
  using assms(6-)
proof (induction cs arbitrary: i x st t)
  case Nil
  then show ?case by auto
next
  case (Cons c cs)
  have c: "c = gcell n y i" "\<forall>k < length cs. cs ! k = gcell n y (i + 1 + k)" "i + 1 + length cs \<le> gr_width n"
    using Cons.prems(6,7) by (auto simp: nth_Cons' split: if_splits)
  have ok: "row_ok (gcell n y) (gr_width n)" using assms(1,5) by (simp add: grid_ok_def)
  have iw: "i < gr_width n" using c(3) by simp
  show ?case
  proof (cases "ce_advance c = 0")
    case True
    then obtain h where "h < i" "i < h + ce_advance (gcell n y h)" using ok iw c(1) unfolding row_ok_def by blast
    then have "i < x" using boundaryD [OF Cons.prems(3), of h] Cons.prems(4) by linarith
    then show ?thesis
      using Cons.IH [OF Cons.prems(1-3), of "i + 1"] Cons.prems(4,5) c(2,3) True by (simp add: is_continuation_def)
  next
    case False
    have xi: "x = i"
    proof (rule ccontr)
      assume "x \<noteq> i"
      with Cons.prems(4,5) have "ce_advance (gcell n y i) = 0" by simp
      with False c(1) show False by simp
    qed
    obtain st' t' where e: "in_step tw debris t0 st' t'" "shown n p y (x + ce_advance c) t'"
      "emit_cells y (c # cs) x st = emit_cells y cs (x + ce_advance c) st'"
      using emit_head [OF assms(1-3) assms(4,5) iw _ Cons.prems(1), of p cs] Cons.prems(2) False c(1) xi by auto
    have h: "ce_advance (gcell n y i) \<noteq> 0" using False c(1) by simp
    have "boundary (gcell n y) (x + ce_advance c)" using boundary_next [OF ok iw h] xi c(1) by simp
    moreover have "\<forall>k. i + 1 \<le> k \<and> k < x + ce_advance c \<longrightarrow> ce_advance (gcell n y k) = 0"
      using row_okD(3) [OF ok iw h] xi c(1) by auto
    moreover have "x + ce_advance c \<le> gr_width n" using row_okD(1) [OF ok iw h] xi c(1) by simp
    ultimately show ?thesis
      using Cons.IH [OF e(1,2), of "i + 1"] e(3) False c(2,3) xi by force
  qed
qed


lemma emit_loop_shown:
  assumes "grid_ok n" "gr_height n \<le> u16_max" "measured tw n" "\<And>c. ce_advance (debris c) \<le> 1"
    "runs_from n p y e rs" "in_step tw debris t0 st t" "shown n p y x t" "boundary (gcell n y) x"
    "e \<le> x \<and> x \<le> gr_width n" "\<forall>k. e \<le> k \<and> k < x \<longrightarrow> ce_advance (gcell n y k) = 0"
    "y < gr_height n \<or> y = gr_height n \<and> x = 0"
  shows "\<exists>st' t'. emit_loop rs st = Some st' \<and> in_step tw debris t0 st' t' \<and> shows_grid t' n"
  using assms(5-)
proof (induction rs arbitrary: y e x st t)
  case Nil
  have "same_until n p y x (gr_height n) 0" using Nil.prems(1,5) by (auto simp: same_until_def)
  then have "shown n p (gr_height n) 0 t"
    by (rule shown_skip [OF Nil.prems(3) assms(1) Nil.prems(4)]) (use Nil.prems(7) in auto)
  with Nil.prems(2) show ?case using shown_end by auto
next
  case (Cons r rs)
  let ?y = "rr_y r" and ?x = "rr_x r" and ?len = "length (rr_cells r)"
  have r: "?y < gr_height n" "y < ?y \<or> y = ?y \<and> e \<le> ?x" "?x + ?len \<le> gr_width n"
    "\<forall>k < ?len. rr_cells r ! k = gcell n ?y (?x + k)"
    "?x = 0 \<or> ?x < gr_width n \<and> ce_advance (gcell n ?y ?x) \<noteq> 0"
    "same_until n p y e ?y ?x" "runs_from n p ?y (?x + ?len) rs"
    using Cons.prems(1) by auto
  have ok: "row_ok (gcell n ?y) (gr_width n)" using assms(1) r(1) by (simp add: grid_ok_def)
  have le: "y < ?y \<or> y = ?y \<and> x \<le> ?x"
  proof (rule ccontr)
    assume "\<not> ?thesis"
    with r(2) have a: "y = ?y" "e \<le> ?x" "?x < x" by auto
    then have z: "ce_advance (gcell n ?y ?x) = 0" using Cons.prems(6) by simp
    with r(5) have "?x = 0" by simp
    with a(3) Cons.prems(5) z ok [unfolded row_ok_def, THEN conjunct2, rule_format, of 0] show False by simp
  qed
  have "same_until n p y x ?y ?x" using r(6) Cons.prems(5) by (auto simp: same_until_def)
  then have s: "shown n p ?y ?x t" by (rule shown_skip [OF Cons.prems(3) assms(1) Cons.prems(4) _ le])
  have b: "boundary (gcell n ?y) ?x"
    using r(5) boundary_head [OF ok, of ?x] by (auto simp: boundary_def)
  have "\<exists>st' t' x'. emit_cells ?y (rr_cells r) ?x st = Some st' \<and> in_step tw debris t0 st' t' \<and> shown n p ?y x' t' \<and>
      boundary (gcell n ?y) x' \<and> ?x + ?len \<le> x' \<and> x' \<le> gr_width n \<and>
      (\<forall>k. ?x + ?len \<le> k \<and> k < x' \<longrightarrow> ce_advance (gcell n ?y k) = 0)"
    by (rule emit_cells_shown [OF assms(1-3) assms(4) r(1) Cons.prems(2) s b]) (use r(3,4) in auto)
  then obtain st' t' x' where e: "emit_cells ?y (rr_cells r) ?x st = Some st'" "in_step tw debris t0 st' t'"
      "shown n p ?y x' t'" "boundary (gcell n ?y) x'" "?x + ?len \<le> x' \<and> x' \<le> gr_width n"
      "\<forall>k. ?x + ?len \<le> k \<and> k < x' \<longrightarrow> ce_advance (gcell n ?y k) = 0" by blast
  with Cons.IH [OF r(7) e(2-6)] r(1) show ?case by auto
qed

text \<open>One frame, from the diff with the frame on screen or in full.\<close>

lemma full_runs_eq:
  assumes "grid_ok n" "\<forall>y \<in> set ys. y < gr_height n"
  shows "\<exists>rs. full_runs n ys = Some rs \<and> map rr_y rs = ys \<and> (\<forall>r \<in> set rs. rr_x r = 0 \<and>
    length (rr_cells r) = gr_width n \<and> (\<forall>k < gr_width n. rr_cells r ! k = gcell n (rr_y r) k))"
  using assms(2)
proof (induction ys)
  case (Cons y ys)
  moreover obtain cells where "grid_row n y = Some cells" "length cells = gr_width n"
      "\<forall>i < gr_width n. cells ! i = gcell n y i"
    using grid_row_ok [OF assms(1), of y] Cons.prems by auto
  ultimately show ?case by auto
qed simp

definition other_grid :: "grid \<Rightarrow> grid" where
  "other_grid g = g\<lparr>gr_cells := map (\<lambda>c. c\<lparr>ce_advance := ce_advance c + 1\<rparr>) (gr_cells g)\<rparr>"

lemma other_grid_differs:
  assumes "grid_ok n" "y < gr_height n" "i < gr_width n"
  shows "gcell n y i \<noteq> gcell (other_grid n) y i" "owed (gcell n y) (gcell (other_grid n) y) i"
proof -
  have d: "gcell n y i \<noteq> gcell (other_grid n) y i" if i: "i < gr_width n" for i
  proof -
    have "y * gr_width n + i < length (gr_cells n)"
      using assms(1,2) i mult_le_mono1 [of "Suc y" "gr_height n" "gr_width n"]
      by (simp add: grid_ok_def mult.commute)
    then show ?thesis by (cases "gr_cells n ! (y * gr_width n + i)") (simp add: gcell_def other_grid_def)
  qed
  then show "gcell n y i \<noteq> gcell (other_grid n) y i" using assms(3) by blast
  have ok: "row_ok (gcell n y) (gr_width n)" using assms(1,2) by (simp add: grid_ok_def)
  obtain h where "h \<le> i" "i < h + ce_advance (gcell n y h)" using glyph_of [OF ok assms(3)] by blast
  moreover from this have "h < gr_width n" using assms(3) by simp
  ultimately show "owed (gcell n y) (gcell (other_grid n) y) i" using d unfolding owed_def by blast
qed

lemma full_runs_from:
  assumes "grid_ok n" "full_runs n [y..<gr_height n] = Some rs" "y \<le> gr_height n"
  shows "runs_from n (other_grid n) y 0 rs"
proof -
  have e: "runs_from n p y e rs"
    if "\<forall>r \<in> set rs. rr_x r = 0 \<and> length (rr_cells r) = gr_width n \<and>
          (\<forall>k < gr_width n. rr_cells r ! k = gcell n (rr_y r) k)"
       "map rr_y rs = [b..<gr_height n]" "b = y \<and> e = 0 \<and> b < gr_height n \<or> b = y + 1 \<and> e = gr_width n"
    for rs b e y p
    using that
  proof (induction rs arbitrary: b e y)
    case Nil
    then have "gr_height n \<le> b" using Nil.prems(2) [symmetric] by (auto simp: upt_eq_Nil_conv)
    with Nil show ?case by (auto simp: same_until_def)
  next
    case (Cons r rs)
    have b: "rr_y r = b" "b < gr_height n" "map rr_y rs = [b + 1..<gr_height n]"
      using Cons.prems(2) [symmetric] by (auto simp: upt_eq_Cons_conv)
    have "runs_from n p b (gr_width n) rs" by (rule Cons.IH [of "b + 1"]) (use Cons.prems b in auto)
    with Cons.prems b show ?case by (auto simp: same_until_def)
  qed
  from full_runs_eq [OF assms(1), of "[y..<gr_height n]"] assms(2)
  have "map rr_y rs = [y..<gr_height n]" "\<forall>r \<in> set rs. rr_x r = 0 \<and> length (rr_cells r) = gr_width n \<and>
      (\<forall>k < gr_width n. rr_cells r ! k = gcell n (rr_y r) k)" by auto
  with e [of rs y y 0] assms(3) show ?thesis
    by (cases "y = gr_height n") (auto simp: same_until_def)
qed


lemma not_owed_eq:
  assumes "row_ok r w" "row_ok q w" "i < w" "\<not> owed r q i"
  shows "r i = q i"
proof -
  obtain h where h: "h \<le> i" "i < h + ce_advance (r h)" using glyph_of [OF assms(1,3)] by blast
  with assms(4) have e: "r h = q h" by (auto simp: owed_def)
  show ?thesis
  proof (cases "h = i")
    case False
    have "r i = cell_continuation (ce_style (r h))"
      by (rule row_okD(2) [OF assms(1)]) (use h False assms(3) in auto)
    moreover have "q i = cell_continuation (ce_style (q h))"
      by (rule row_okD(2) [OF assms(2)]) (use h False assms(3) e in auto)
    ultimately show ?thesis using e by simp
  qed (use e in simp)
qed

lemma shown_from_prev:
  assumes "grid_ok n" "grid_ok p" "grid_size n = grid_size p" "shows_grid t p"
  shows "shown n p 0 0 t"
proof -
  have s: "gr_width p = gr_width n" "gr_height p = gr_height n" using assms(3) by (simp_all add: grid_size_def)
  have "row_shown (gcell n j) (gcell p j) (gr_width n) 0 (tm_cells t j)" if j: "j < gr_height n" for j
  proof -
    have "row_ok (gcell n j) (gr_width n)" and q: "row_ok (gcell p j) (gr_width n)"
      using assms(1,2) j s by (auto simp: grid_ok_def)
    moreover have "tm_cells t j i = gcell p j i" if "i < gr_width n" for i
      using assms(4) j s that by (simp add: shows_grid_def)
    ultimately show ?thesis using not_owed_eq [of "gcell n j" "gr_width n" "gcell p j"]
      by (auto simp: row_shown_def stale_ok_def)
  qed
  with assms(4) s show ?thesis by (simp add: shown_def shows_grid_def)
qed

lemma shown_from_nothing:
  assumes "grid_ok n" "tm_width t = gr_width n" "tm_height t = gr_height n"
  shows "shown n (other_grid n) 0 0 t"
  using assms other_grid_differs(2) [OF assms(1)] by (simp add: shown_def row_shown_def stale_ok_def)

definition cursor_left :: "position option \<Rightarrow> terminal \<Rightarrow> bool" where
  "cursor_left cursor t \<longleftrightarrow> tm_visible t = (cursor \<noteq> None) \<and>
     (\<forall>pos. cursor = Some pos \<longrightarrow> tm_y t = min (po_y pos) (tm_height t - 1) \<and> tm_x t = min (po_x pos) (tm_width t - 1))"

lemma frame_shown:
  assumes "grid_ok n" "gr_height n \<le> u16_max" "measured tw n" "\<And>c. ce_advance (debris c) \<le> 1"
    "tm_width t = gr_width n" "tm_height t = gr_height n" "tm_style t = default_style"
    "\<And>p. prev = Some p \<Longrightarrow> grid_ok p \<and> grid_size n = grid_size p \<and> advances_le n (MAX_REPRINT_GAP + 2) \<and> shows_grid t p"
  shows "\<exists>es t'. frame_escapes [] n prev cursor = Some es \<and> term_run tw debris t es = Some t' \<and>
    shows_grid t' n \<and> tm_style t' = default_style \<and> cursor_left cursor t'"
proof -
  let ?t = "t\<lparr>tm_visible := False\<rparr>"
  let ?em = "\<lparr>em_style = default_style, em_at = None, em_out = [ResetShowCursor]\<rparr>"
  have i: "in_step tw debris t ?em ?t" using assms(7) by (simp add: in_step_def)
  have loop: "\<exists>st' t'. emit_loop rs ?em = Some st' \<and> in_step tw debris t st' t' \<and> shows_grid t' n"
    if "runs_from n p 0 0 rs" "shown n p 0 0 ?t" for p rs
    by (rule emit_loop_shown [OF assms(1-3) assms(4) that(1) i that(2)]) (auto simp: boundary_def)
  obtain out t' where out: "(case prev of
         Some prev \<Rightarrow> do { d \<leftarrow> diff_new n prev MAX_REPRINT_GAP; rs \<leftarrow> all_runs d; emit_runs [ResetShowCursor] rs }
       | None \<Rightarrow> do {
           let (_, height) = grid_size n;
           rs \<leftarrow> full_runs n [0..<height];
           emit_runs [ResetShowCursor] rs }) = Some out"
      "term_run tw debris t out = Some t'" "shows_grid t' n" "\<not> tm_visible t'"
  proof (cases prev)
    case None
    from full_runs_eq [OF assms(1), of "[0..<gr_height n]"] obtain rs where
      rs: "full_runs n [0..<gr_height n] = Some rs" by auto
    from loop [OF full_runs_from [OF assms(1) rs] shown_from_nothing [OF assms(1)]] assms(5,6)
    obtain st' t' where "emit_loop rs ?em = Some st'" "in_step tw debris t st' t'" "shows_grid t' n" by auto
    with rs None show thesis by (intro that [of "em_out st'" t']) (auto simp: emit_runs_def grid_size_def in_step_def)
  next
    case (Some p)
    with assms(8) have p: "grid_ok p" "grid_size n = grid_size p" "advances_le n (MAX_REPRINT_GAP + 2)" "shows_grid t p"
      by auto
    let ?d = "\<lparr>dr_next = n, dr_prev = p, dr_max_gap = MAX_REPRINT_GAP, dr_y = 0, dr_x = 0\<rparr>"
    from all_runs_spec [of ?d] assms(1) p obtain rs where
      rs: "all_runs ?d = Some rs" "runs_from n p 0 0 rs" by (auto simp: scan_at_def)
    have "shows_grid ?t p" using p(4) by (simp add: shows_grid_def)
    from loop [OF rs(2) shown_from_prev [OF assms(1) p(1,2) this]]
    obtain st' t' where "emit_loop rs ?em = Some st'" "in_step tw debris t st' t'" "shows_grid t' n" by auto
    with rs(1) p(2) Some show thesis
      by (intro that [of "em_out st'" t']) (auto simp: emit_runs_def diff_new_def in_step_def)
  qed
  let ?r = "t'\<lparr>tm_style := default_style\<rparr>"
  have size: "tm_height t' \<le> u16_max" "tm_width t' \<le> u16_max"
    using out(3) assms(1,2) by (auto simp: shows_grid_def grid_ok_def)
  show ?thesis
  proof (cases cursor)
    case None
    then show ?thesis using out
      by (intro exI [of _ "out @ [SgrReset]"] exI [of _ ?r])
         (auto simp: frame_escapes_def shows_grid_def cursor_left_def)
  next
    case (Some pos)
    let ?c = "?r\<lparr>tm_y := min (po_y pos) (tm_height t' - 1), tm_x := min (po_x pos) (tm_width t' - 1), tm_visible := True\<rparr>"
    have "min (min (po_y pos) (u16_max - 1)) (tm_height t' - 1) = min (po_y pos) (tm_height t' - 1)"
      "min (min (po_x pos) (u16_max - 1)) (tm_width t' - 1) = min (po_x pos) (tm_width t' - 1)"
      using size by linarith+
    then show ?thesis using out Some
      by (intro exI [of _ "out @ [SgrReset, cursor_to pos, SetShowCursor]"] exI [of _ ?c])
         (auto simp: frame_escapes_def shows_grid_def cursor_left_def cursor_to_def)
  qed
qed

section \<open>Frames drawn and presented\<close>

text \<open>The drawing of a frame: glyphs whose columns are what the terminal gives their text, and fills of
  one column. A glyph is no wider than the gap a diff absorbs, plus two.\<close>

inductive draws :: "(ustring \<Rightarrow> nat) \<Rightarrow> grid \<Rightarrow> grid \<Rightarrow> bool" for tw :: "ustring \<Rightarrow> nat" and g :: grid where
  draws_nothing: "draws tw g g"
| draws_glyph: "draws tw g g' \<Longrightarrow> tw t = max adv 1 \<Longrightarrow> max adv 1 \<le> MAX_REPRINT_GAP + 2 \<Longrightarrow>
    set_glyph g' x y t adv style = Some g'' \<Longrightarrow> draws tw g g''"
| draws_span: "draws tw g g' \<Longrightarrow> ce_advance c = 1 \<Longrightarrow> tw (ce_text c) = 1 \<Longrightarrow>
    fill_span g' y a b c = Some g'' \<Longrightarrow> draws tw g g''"

definition cell_good :: "(ustring \<Rightarrow> nat) \<Rightarrow> cell \<Rightarrow> bool" where
  "cell_good tw c \<longleftrightarrow> (ce_advance c \<noteq> 0 \<longrightarrow> tw (ce_text c) = ce_advance c) \<and> ce_advance c \<le> MAX_REPRINT_GAP + 2"

definition good_grid :: "(ustring \<Rightarrow> nat) \<Rightarrow> grid \<Rightarrow> bool" where
  "good_grid tw g \<longleftrightarrow> grid_ok g \<and> gr_height g \<le> u16_max \<and>
     (\<forall>y < gr_height g. \<forall>i < gr_width g. cell_good tw (gcell g y i))"

lemma good_gridD:
  "good_grid tw g \<Longrightarrow> grid_ok g" "good_grid tw g \<Longrightarrow> gr_height g \<le> u16_max"
  "good_grid tw g \<Longrightarrow> measured tw g" "good_grid tw g \<Longrightarrow> advances_le g (MAX_REPRINT_GAP + 2)"
  by (simp_all add: good_grid_def cell_good_def measured_def advances_le_def)

lemma cell_good_simps [simp]:
  "tw [SPC] = 1 \<Longrightarrow> cell_good tw (cell_blank s)" "cell_good tw (cell_continuation s)"
  "tw t = max adv 1 \<Longrightarrow> max adv 1 \<le> MAX_REPRINT_GAP + 2 \<Longrightarrow> cell_good tw (cell_glyph t adv s)"
  by (simp_all add: cell_good_def cell_blank_def cell_continuation_def cell_glyph_def MAX_REPRINT_GAP_def)

lemma good_written:
  assumes "good_grid tw g" "grid_ok g'" "writes_row g y x len new g'" "tw [SPC] = 1"
    "\<And>i. x \<le> i \<Longrightarrow> i < x + len \<Longrightarrow> cell_good tw (new i)"
  shows "good_grid tw g' \<and> grid_size g' = grid_size g"
  using assms by (auto simp: good_grid_def writes_row_def grid_size_def overwritten_def)

lemma draws_good:
  assumes "draws tw g g'" "good_grid tw g" "tw [SPC] = 1"
  shows "good_grid tw g' \<and> grid_size g' = grid_size g"
  using assms(1)
proof (induction rule: draws.induct)
  case draws_nothing
  show ?case using assms(2) by simp
next
  case (draws_glyph g' t adv x y style g'')
  then have g: "good_grid tw g'" "grid_size g' = grid_size g" by auto
  obtain h where h: "set_glyph g' x y t adv style = Some h" "grid_ok h"
    "if y < gr_height g' \<and> x < gr_width g'
     then (if x + max adv 1 \<le> gr_width g' then writes_row g' y x (max adv 1) (glyph_cells x t adv style) h
           else writes_row g' y x (gr_width g' - x) (\<lambda>_. cell_blank style) h)
     else h = g'"
    by (rule set_glyph_ok [OF good_gridD(1) [OF g(1)]])
  then have "h = g''" using draws_glyph.hyps(4) by simp
  consider "h = g'" | "writes_row g' y x (max adv 1) (glyph_cells x t adv style) h"
    | "writes_row g' y x (gr_width g' - x) (\<lambda>_. cell_blank style) h"
    using h(3) by presburger
  then show ?case
  proof cases
    case 2
    show ?thesis
      using good_written [OF g(1) h(2) 2 assms(3)] draws_glyph.hyps(2,3) \<open>h = g''\<close> g(2)
      by (simp add: glyph_cells_def)
  next
    case 3
    show ?thesis using good_written [OF g(1) h(2) 3 assms(3)] \<open>h = g''\<close> g(2) assms(3) by simp
  qed (use g \<open>h = g''\<close> in simp)
next
  case (draws_span g' c y a b g'')
  then have g: "good_grid tw g'" "grid_size g' = grid_size g" by auto
  obtain h where h: "fill_span g' y a b c = Some h" "grid_ok h"
    "if y < gr_height g' \<and> min a (gr_width g') < min b (gr_width g')
     then writes_row g' y (min a (gr_width g')) (min b (gr_width g') - min a (gr_width g')) (\<lambda>_. c) h
     else h = g'"
    by (rule fill_span_ok [OF good_gridD(1) [OF g(1)] draws_span.hyps(2)])
  then have "h = g''" using draws_span.hyps(4) by simp
  have "cell_good tw c" using draws_span.hyps(2,3) by (simp add: cell_good_def)
  with g h(3) good_written [OF g(1) h(2) _ assms(3)] \<open>h = g''\<close> show ?case by (auto split: if_splits)
qed

lemma good_resize:
  assumes "w < u16_max" "h \<le> u16_max" "tw [SPC] = 1"
  shows "good_grid tw (grid_resize g w h)" "good_grid tw (grid_new w h)"
proof -
  have "gcell (grid_resize g w h) y i = cell_default" if "y < h" "i < w" for y i g
  proof -
    have "y * w + i < w * h" using that mult_le_mono1 [of "Suc y" h w] by (simp add: mult.commute)
    then show ?thesis by (simp add: gcell_def grid_resize_def)
  qed
  then have "good_grid tw (grid_resize g w h)" for g
    using assms blank_grid_ok(2) [OF assms(1)] by (simp add: good_grid_def grid_resize_def cell_default_def)
  moreover have "grid_new w h = grid_resize (grid_new w h) w h" by (simp add: grid_new_def grid_resize_def)
  ultimately show "good_grid tw (grid_resize g w h)" "good_grid tw (grid_new w h)" by (simp, metis)
qed

text \<open>A screen at work, beside the terminal it presents on. Something else may write over the terminal if
  the screen is invalidated after, and the terminal may be given a size other than the screen's, with
  any content. A frame composed for another size than the terminal has leaves the terminal in any
  state of that size.\<close>

inductive session :: "(ustring \<Rightarrow> nat) \<Rightarrow> (cell \<Rightarrow> cell) \<Rightarrow> screen \<Rightarrow> terminal \<Rightarrow> bool"
  for tw :: "ustring \<Rightarrow> nat" and debris :: "cell \<Rightarrow> cell" where
  session_start: "tm_style t = default_style \<Longrightarrow> session tw debris screen_new t"
| session_frame: "session tw debris s t \<Longrightarrow> w < u16_max \<Longrightarrow> h \<le> u16_max \<Longrightarrow>
    draws tw (sc_back (screen_frame w h s)) g \<Longrightarrow> session tw debris ((screen_frame w h s)\<lparr>sc_back := g\<rparr>) t"
| session_invalidate: "session tw debris s t \<Longrightarrow> tm_style t' = default_style \<Longrightarrow> session tw debris (invalidate s) t'"
| session_resize: "session tw debris s t \<Longrightarrow> (tm_width t', tm_height t') \<noteq> grid_size (sc_back s) \<Longrightarrow>
    tm_style t' = default_style \<Longrightarrow> session tw debris s t'"
| session_present: "session tw debris s t \<Longrightarrow> (tm_width t, tm_height t) = grid_size (sc_back s) \<Longrightarrow>
    present (\<lambda>_. Inr () :: unit + unit) cursor s = Some (Inr (), s') \<Longrightarrow>
    term_run tw debris t (sc_out s') = Some t' \<Longrightarrow> session tw debris s' t'"
| session_clipped: "session tw debris s t \<Longrightarrow> (tm_width t, tm_height t) \<noteq> grid_size (sc_back s) \<Longrightarrow>
    present (\<lambda>_. Inr () :: unit + unit) cursor s = Some (Inr (), s') \<Longrightarrow>
    tm_width t' = tm_width t \<Longrightarrow> tm_height t' = tm_height t \<Longrightarrow> tm_style t' = default_style \<Longrightarrow> session tw debris s' t'"

definition screen_ok :: "(ustring \<Rightarrow> nat) \<Rightarrow> screen \<Rightarrow> terminal \<Rightarrow> bool" where
  "screen_ok tw s t \<longleftrightarrow> good_grid tw (sc_front s) \<and> good_grid tw (sc_back s) \<and>
     grid_size (sc_front s) = grid_size (sc_back s) \<and> tm_style t = default_style \<and>
     (sc_force_full s \<or> (tm_width t, tm_height t) \<noteq> grid_size (sc_back s) \<or> shows_grid t (sc_front s))"

lemma screen_frame_ok:
  assumes "screen_ok tw s t" "w < u16_max" "h \<le> u16_max" "tw [SPC] = 1"
  shows "screen_ok tw (screen_frame w h s) t"
proof -
  have r: "good_grid tw (grid_reset g) \<and> grid_size (grid_reset g) = grid_size g" if "good_grid tw g" for g
  proof -
    have "grid_reset g = grid_resize g (gr_width g) (gr_height g)"
      using grid_reset_eq good_gridD(1) [OF that] by blast
    moreover have "gr_width g < u16_max" using good_gridD(1) [OF that] by (simp add: grid_ok_def)
    ultimately show ?thesis
      using good_resize(1) [of "gr_width g" "gr_height g" tw g] good_gridD(2) [OF that] assms(4)
      by (simp add: grid_size_def grid_resize_def)
  qed
  have n: "good_grid tw (grid_resize g w h) \<and> grid_size (grid_resize g w h) = (w, h)" for g
    using good_resize(1) [OF assms(2,3), of tw] assms(4) by (simp add: grid_size_def grid_resize_def)
  show ?thesis
    using assms(1) r n by (auto simp: screen_ok_def screen_frame_def resize_if_needed_def Let_def)
qed

lemma present_ok:
  assumes "screen_ok tw s t" "(tm_width t, tm_height t) = grid_size (sc_back s)" "\<And>c. ce_advance (debris c) \<le> 1"
  shows "\<exists>es t'. frame_escapes [] (sc_back s) (if \<not> sc_force_full s then Some (sc_front s) else None) cursor = Some es \<and>
    term_run tw debris t es = Some t' \<and> shows_grid t' (sc_back s) \<and> tm_style t' = default_style \<and> cursor_left cursor t'"
proof (rule frame_shown)
  show "grid_ok (sc_back s)" "gr_height (sc_back s) \<le> u16_max" "measured tw (sc_back s)"
    using assms(1) good_gridD by (auto simp: screen_ok_def)
  show "ce_advance (debris c) \<le> 1" for c by (rule assms(3))
  show "tm_width t = gr_width (sc_back s)" "tm_height t = gr_height (sc_back s)" "tm_style t = default_style"
    using assms(1,2) by (auto simp: grid_size_def screen_ok_def)
  show "grid_ok p \<and> grid_size (sc_back s) = grid_size p \<and> advances_le (sc_back s) (MAX_REPRINT_GAP + 2) \<and> shows_grid t p"
    if "(if \<not> sc_force_full s then Some (sc_front s) else None) = Some p" for p
    using that assms(1,2) good_gridD [of tw] by (auto simp: screen_ok_def split: if_splits)
qed

lemma session_ok:
  assumes "session tw debris s t" "tw [SPC] = 1" "\<And>c. ce_advance (debris c) \<le> 1"
  shows "screen_ok tw s t"
  using assms(1)
proof (induction rule: session.induct)
  case (session_start t)
  have "good_grid tw (grid_new 0 0)" by (rule good_resize(2)) (use assms(2) in \<open>simp_all add: u16_max_def\<close>)
  with session_start show ?case by (simp add: screen_ok_def screen_new_def)
next
  case (session_frame s t w h g)
  have "screen_ok tw (screen_frame w h s) t"
    by (rule screen_frame_ok [OF session_frame.IH session_frame.hyps(2,3) assms(2)])
  with draws_good [OF session_frame.hyps(4) _ assms(2)] show ?case by (auto simp: screen_ok_def)
next
  case (session_invalidate s t t')
  then show ?case by (simp add: screen_ok_def invalidate_def)
next
  case (session_resize s t t')
  then show ?case by (auto simp: screen_ok_def)
next
  case (session_present s t cursor s' t')
  obtain es u where "frame_escapes [] (sc_back s) (if \<not> sc_force_full s then Some (sc_front s) else None) cursor = Some es"
    "term_run tw debris t es = Some u" "shows_grid u (sc_back s)" "tm_style u = default_style"
    using present_ok [OF session_present.IH session_present.hyps(2), of debris cursor] assms(3) by blast
  with session_present.hyps session_present.IH show ?case by (auto simp: present_def screen_ok_def Let_def)
next
  case (session_clipped s t cursor s' t')
  then show ?case by (auto simp: present_def screen_ok_def Let_def bind_eq_Some_conv)
qed


section \<open>The properties\<close>




end
