(* ===== verification/Width.thy ===== *)
theory Width imports Grapheme begin

text \<open>
  Display widths, \<open>hume-rope\<close>'s \<open>width.rs\<close>: how many terminal cells a text occupies, and the cuts to a
  number of cells. The grapheme clusters of a text come from the segmentation \<open>B\<close> as in the theory of
  clusters; \<open>W\<close> is \<open>unicode-width\<close>'s measure of a text, a parameter with no hypothesis. A byte offset at
  a char boundary is kept as the offset of the char. A column is a \<open>usize\<close> that cannot overflow before
  memory does; the \<open>u8\<close> and \<open>u32\<close> of the indent levels are written out.
\<close>

type_synonym measure_fn = "ustring \<Rightarrow> nat"

section \<open>Tab stops\<close>

definition CHROME_TAB_WIDTH :: nat where
  "CHROME_TAB_WIDTH = 1"

definition tab_advance :: "nat \<Rightarrow> nat \<Rightarrow> nat" where
  "tab_advance display_col tw = (let tw = max tw 1 in tw - display_col mod tw)"

definition prev_tab_stop :: "nat \<Rightarrow> nat \<Rightarrow> nat" where
  "prev_tab_stop display_col tw = (let tw = max tw 1 in (display_col - 1) div tw * tw)"

section \<open>Clusters\<close>

datatype cluster_kind = Tab nat | Placeholder ustring | Plain nat

definition kind_width :: "cluster_kind \<Rightarrow> nat" where
  "kind_width k = (case k of Tab w \<Rightarrow> w | Plain w \<Rightarrow> w | Placeholder p \<Rightarrow> length p)"

text \<open>\<open>char::is_control\<close>, the general category Cc, and the placeholder, written into a buffer of eight
  bytes: a write that does not fit stops.\<close>

definition is_control :: "uchar \<Rightarrow> bool" where
  "is_control c = (c < 0x20 \<or> 0x7f \<le> c \<and> c < 0xa0)"

definition MAX_PLACEHOLDER :: nat where
  "MAX_PLACEHOLDER = 8"

definition hex_digit :: "nat \<Rightarrow> uchar" where
  "hex_digit d = (if d < 10 then 0x30 + d else 0x61 + (d - 10))"

fun hex :: "nat \<Rightarrow> ustring" where
  "hex n = (if n < 16 then [hex_digit n] else hex (n div 16) @ [hex_digit (n mod 16)])"

declare hex.simps [simp del]

definition write_str :: "ustring \<Rightarrow> ustring \<Rightarrow> ustring option" where
  "write_str buf s = (if length buf + length s > MAX_PLACEHOLDER then None else Some (buf @ s))"

fun write_pieces :: "ustring \<Rightarrow> ustring list \<Rightarrow> ustring" where
  "write_pieces buf [] = buf"
| "write_pieces buf (p # ps) = (case write_str buf p of None \<Rightarrow> buf | Some b \<Rightarrow> write_pieces b ps)"

definition placeholder :: "ustring \<Rightarrow> ustring" where
  "placeholder c =
     (let codepoint = (case c of [] \<Rightarrow> 0 | ch # _ \<Rightarrow> ch) in
      write_pieces [] [[0x3c], hex codepoint, [0x3e]])"

definition placeholder_at_width :: "ustring \<Rightarrow> nat \<Rightarrow> bool" where
  "placeholder_at_width c w = (w = 0 \<or> (\<exists>ch \<in> set c. is_control ch))"

definition needs_placeholder :: "measure_fn \<Rightarrow> ustring \<Rightarrow> bool" where
  "needs_placeholder W c = placeholder_at_width c (W c)"

definition classify :: "measure_fn \<Rightarrow> ustring \<Rightarrow> nat \<Rightarrow> nat \<Rightarrow> cluster_kind" where
  "classify W c display_col tab_width =
     (if c = [TAB] then Tab (tab_advance display_col tab_width)
      else if length c = 1 \<and> 0x20 \<le> hd c \<and> hd c \<le> 0x7e then Plain 1
      else (let w = W c in
        if placeholder_at_width c w then Placeholder (placeholder c) else Plain (min w 2)))"

definition grapheme_width :: "measure_fn \<Rightarrow> ustring \<Rightarrow> nat \<Rightarrow> nat \<Rightarrow> nat" where
  "grapheme_width W c display_col tab_width = kind_width (classify W c display_col tab_width)"

lemma next_boundary_greater: "i < length t \<Longrightarrow> i < next_boundary B t i"
  by (auto simp: next_boundary_def find_Some_iff nth_append split: option.splits)

text \<open>\<open>str::grapheme_indices\<close>: the clusters of a text with the offsets they start at.\<close>

function graphemes_from :: "segmentation \<Rightarrow> ustring \<Rightarrow> nat \<Rightarrow> (nat \<times> ustring) list" where
  "graphemes_from B t i =
     (if i < length t
      then (i, slice t i (next_boundary B t i)) # graphemes_from B t (next_boundary B t i)
      else [])"
  by pat_completeness auto

termination
  by (relation "measure (\<lambda>(B, t, i). length t - i)") (auto simp: next_boundary_greater diff_less_mono2)

declare graphemes_from.simps [simp del]

definition grapheme_indices :: "segmentation \<Rightarrow> ustring \<Rightarrow> (nat \<times> ustring) list" where
  "grapheme_indices B t = graphemes_from B t 0"

section \<open>The width of a text\<close>

fun width_loop :: "measure_fn \<Rightarrow> nat \<Rightarrow> ustring list \<Rightarrow> nat \<Rightarrow> nat" where
  "width_loop W tab_width [] display_col = display_col"
| "width_loop W tab_width (g # gs) display_col =
     width_loop W tab_width gs (display_col + grapheme_width W g display_col tab_width)"

definition str_width :: "segmentation \<Rightarrow> measure_fn \<Rightarrow> ustring \<Rightarrow> nat \<Rightarrow> nat \<Rightarrow> nat" where
  "str_width B W s start tab_width = width_loop W tab_width (map snd (grapheme_indices B s)) start - start"

definition is_space_char :: "uchar \<Rightarrow> bool" where
  "is_space_char c = (c \<in> {SPC, TAB, 0xa0, 0x3000})"

definition blank_advance :: "measure_fn \<Rightarrow> uchar \<Rightarrow> nat \<Rightarrow> nat \<Rightarrow> nat option" where
  "blank_advance W c display_col tab_width =
     (if is_space_char c then Some (grapheme_width W [c] display_col tab_width) else None)"

fun indent_loop :: "measure_fn \<Rightarrow> nat \<Rightarrow> ustring list \<Rightarrow> nat \<Rightarrow> nat" where
  "indent_loop W tab_width [] display_col = display_col"
| "indent_loop W tab_width (g # gs) display_col =
     (case blank_advance W (hd g) display_col tab_width of
        None \<Rightarrow> display_col
      | Some adv \<Rightarrow> indent_loop W tab_width gs (display_col + adv))"

definition u32_max :: nat where
  "u32_max = 2 ^ 32 - 1"

definition indent_stop :: "nat \<Rightarrow> nat \<Rightarrow> nat option" where
  "indent_stop k tab_width = (let r = k * max tab_width 1 in if r \<le> u32_max then Some r else None)"

definition indent_levels :: "nat \<Rightarrow> nat \<Rightarrow> nat option" where
  "indent_levels width tab_width = do { s \<leftarrow> indent_stop 1 tab_width; Some (width div s) }"

definition indent_depth :: "segmentation \<Rightarrow> measure_fn \<Rightarrow> ustring \<Rightarrow> nat \<Rightarrow> nat option" where
  "indent_depth B W line tab_width = do {
     let display_col = indent_loop W tab_width (map snd (grapheme_indices B line)) 0;
     let width = (if display_col \<le> u32_max then display_col else u32_max);
     n \<leftarrow> indent_levels width tab_width;
     Some (min n 255) }"

section \<open>Chrome text\<close>

definition chrome_width :: "segmentation \<Rightarrow> measure_fn \<Rightarrow> ustring \<Rightarrow> nat" where
  "chrome_width B W s = str_width B W s 0 CHROME_TAB_WIDTH"

definition chrome_cluster_width :: "measure_fn \<Rightarrow> ustring \<Rightarrow> nat" where
  "chrome_cluster_width W g = grapheme_width W g 0 CHROME_TAB_WIDTH"

fun truncate_loop :: "measure_fn \<Rightarrow> ustring \<Rightarrow> nat \<Rightarrow> (nat \<times> ustring) list \<Rightarrow> nat \<Rightarrow> ustring \<times> nat" where
  "truncate_loop W s budget [] display_col = (s, display_col)"
| "truncate_loop W s budget ((i, g) # gs) display_col =
     (let w = grapheme_width W g display_col CHROME_TAB_WIDTH in
      if display_col + w > budget then (take i s, display_col)
      else truncate_loop W s budget gs (display_col + w))"

definition truncate_to_width :: "segmentation \<Rightarrow> measure_fn \<Rightarrow> ustring \<Rightarrow> nat \<Rightarrow> ustring \<times> nat" where
  "truncate_to_width B W s budget = truncate_loop W s budget (grapheme_indices B s) 0"

fun suffix_loop :: "measure_fn \<Rightarrow> nat \<Rightarrow> (nat \<times> ustring) list \<Rightarrow> nat \<Rightarrow> nat \<Rightarrow> nat \<times> nat" where
  "suffix_loop W budget [] start display_col = (start, display_col)"
| "suffix_loop W budget ((i, g) # gs) start display_col =
     (let w = grapheme_width W g display_col CHROME_TAB_WIDTH in
      if display_col + w > budget then (start, display_col)
      else suffix_loop W budget gs i (display_col + w))"

definition truncate_suffix_to_width :: "segmentation \<Rightarrow> measure_fn \<Rightarrow> ustring \<Rightarrow> nat \<Rightarrow> ustring \<times> nat" where
  "truncate_suffix_to_width B W s budget =
     (let (start, display_col) = suffix_loop W budget (rev (grapheme_indices B s)) (length s) 0 in
      (drop start s, display_col))"

definition ELLIPSIS :: ustring where
  "ELLIPSIS = [0x2026]"

definition ELLIPSIS_WIDTH :: nat where
  "ELLIPSIS_WIDTH = 1"

datatype truncate_end = HeadEnd | TailEnd

record cut =
  cut_start :: nat
  cut_end :: nat
  cut_marker :: "truncate_end option"

definition cut_to :: "segmentation \<Rightarrow> measure_fn \<Rightarrow> ustring \<Rightarrow> nat \<Rightarrow> truncate_end \<Rightarrow> cut option" where
  "cut_to B W s budget which =
     (if chrome_width B W s \<le> budget then None
      else if budget = 0 then Some \<lparr>cut_start = 0, cut_end = 0, cut_marker = None\<rparr>
      else (let kept = budget - ELLIPSIS_WIDTH;
                (start, stop) = (case which of
                   HeadEnd \<Rightarrow> (let (tail, _) = truncate_suffix_to_width B W s kept in (length s - length tail, length s))
                 | TailEnd \<Rightarrow> (let (head, _) = truncate_to_width B W s kept in (0, length head))) in
            Some \<lparr>cut_start = start, cut_end = stop, cut_marker = Some which\<rparr>))"

definition truncate_marked :: "segmentation \<Rightarrow> measure_fn \<Rightarrow> ustring \<Rightarrow> nat \<Rightarrow> truncate_end \<Rightarrow> ustring option" where
  "truncate_marked B W s budget which =
     (case cut_to B W s budget which of
        None \<Rightarrow> Some s
      | Some c \<Rightarrow> do {
          kept \<leftarrow> slice_opt s (cut_start c) (cut_end c);
          Some (case cut_marker c of
             None \<Rightarrow> kept
           | Some HeadEnd \<Rightarrow> ELLIPSIS @ kept
           | Some TailEnd \<Rightarrow> kept @ ELLIPSIS) })"

section \<open>Tab stops are the multiples of the tab width\<close>

text \<open>A tab always advances, by at most the tab width, to the nearest tab stop after its column; the
  previous tab stop of a column is the nearest one strictly before it, and 0 at the start. Stops are
  the multiples of the tab width, where 0 counts as 1.\<close>

theorem tab_stops:
  "1 \<le> tab_advance c w \<and> tab_advance c w \<le> max w 1 \<and> max w 1 dvd c + tab_advance c w \<and>
   (\<forall>k. max w 1 dvd k \<and> c < k \<longrightarrow> c + tab_advance c w \<le> k) \<and>
   max w 1 dvd prev_tab_stop c w \<and> prev_tab_stop 0 w = 0 \<and>
   (\<forall>k. max w 1 dvd k \<and> k < c \<longrightarrow> k \<le> prev_tab_stop c w \<and> prev_tab_stop c w < c)"
proof -
  define m where "m = max w 1"
  have m: "0 < m" by (simp add: m_def)
  have a: "tab_advance c w = m - c mod m" by (simp add: tab_advance_def m_def Let_def)
  have lt: "c mod m < m" using m by simp
  have sum: "c + (m - c mod m) = (c div m + 1) * m"
  proof -
    have "(c div m + 1) * m = m * (c div m) + m" by simp
    with mult_div_mod_eq [of m c] lt show ?thesis by linarith
  qed
  have up: "c + tab_advance c w \<le> k" if "m dvd k" "c < k" for k
  proof -
    obtain j where j: "k = m * j" using \<open>m dvd k\<close> by blast
    have "c div m < j" using \<open>c < k\<close> m j by (simp add: div_less_iff_less_mult mult.commute)
    then have "(c div m + 1) * m \<le> j * m" by (intro mult_le_mono1) simp
    then have "(c div m + 1) * m \<le> k" using j by (simp add: mult.commute)
    then show ?thesis using a sum by simp
  qed
  have p: "prev_tab_stop c w = (c - 1) div m * m" by (simp add: prev_tab_stop_def m_def Let_def)
  have down: "k \<le> prev_tab_stop c w \<and> prev_tab_stop c w < c" if "m dvd k" "k < c" for k
  proof -
    obtain j where j: "k = j * m" using \<open>m dvd k\<close> by (metis dvd_def mult.commute)
    then have "j \<le> (c - 1) div m" using \<open>k < c\<close> m by (simp add: less_eq_div_iff_mult_less_eq)
    then have "k \<le> (c - 1) div m * m" using j by simp
    moreover have "(c - 1) div m * m \<le> c - 1" by simp
    ultimately show ?thesis using p \<open>k < c\<close> by linarith
  qed
  show ?thesis
    unfolding m_def [symmetric]
  proof (intro conjI)
    show "1 \<le> tab_advance c w" "tab_advance c w \<le> m" using a lt by simp_all
    show "m dvd c + tab_advance c w" using a sum by simp
    show "m dvd prev_tab_stop c w" using p by simp
    show "prev_tab_stop 0 w = 0" by (simp add: prev_tab_stop_def)
  qed (use up down in blast)+
qed

theorem tab_stops_witness:
  "tab_advance 5 4 = 3 \<and> prev_tab_stop 8 4 = 4 \<and> (4 dvd (8::nat) \<and> 5 + tab_advance 5 4 \<le> 8)"
  using tab_stops [of 5 4] by (simp add: tab_advance_def prev_tab_stop_def)

section \<open>The width of a cluster\<close>

lemma length_placeholder: "0 < length (placeholder c)"
  by (simp add: placeholder_def write_str_def MAX_PLACEHOLDER_def Let_def split: list.splits)

lemma kind_width_pos: "0 < kind_width (classify W c d tw)"
  using length_placeholder [of c]
  by (auto simp: classify_def kind_width_def Let_def tab_advance_def placeholder_at_width_def)

lemma chrome_grapheme_width: "grapheme_width W g d CHROME_TAB_WIDTH = chrome_cluster_width W g"
  by (simp add: chrome_cluster_width_def grapheme_width_def classify_def kind_width_def CHROME_TAB_WIDTH_def tab_advance_def Let_def)

lemma chrome_cluster_width_pos: "0 < chrome_cluster_width W g"
  by (simp add: chrome_cluster_width_def grapheme_width_def kind_width_pos)

lemma width_loop_chrome:
  "width_loop W CHROME_TAB_WIDTH gs d = d + sum_list (map (chrome_cluster_width W) gs)"
  by (induction gs arbitrary: d) (simp_all add: chrome_grapheme_width)

definition clusters_of :: "segmentation \<Rightarrow> ustring \<Rightarrow> ustring list" where
  "clusters_of B s = map snd (grapheme_indices B s)"

lemma chrome_width_sum: "chrome_width B W s = sum_list (map (chrome_cluster_width W) (clusters_of B s))"
  by (simp add: chrome_width_def str_width_def width_loop_chrome clusters_of_def)

text \<open>The clusters of a text are its pieces, none of them empty, at the offsets they start at.\<close>

lemma graphemes_from_props:
  assumes "seg_ok B" "i \<le> length t"
  shows "concat (map snd (graphemes_from B t i)) = drop i t \<and> (\<forall>g \<in> set (graphemes_from B t i). snd g \<noteq> []) \<and>
    (\<forall>k < length (graphemes_from B t i).
       fst (graphemes_from B t i ! k) = i + length (concat (take k (map snd (graphemes_from B t i)))))"
  using assms
proof (induction B t i rule: graphemes_from.induct)
  case (1 B t i)
  show ?case
  proof (cases "i < length t")
    case False
    then have "graphemes_from B t i = []" by (simp add: graphemes_from.simps [of B t i])
    with False show ?thesis by simp
  next
    case True
    let ?n = "next_boundary B t i"
    have n: "i < ?n" "?n \<le> length t" using next_boundary_props(1,2) [of B t i] seg_okD(2) [OF 1(2)] True by auto
    note ih = 1(1) [OF True 1(2) n(2)]
    have d: "slice t i ?n @ drop ?n t = drop i t"
      using n append_take_drop_id [of "?n - i" "drop i t"] by (simp add: slice_def)
    have ne: "slice t i ?n \<noteq> []" using n True by (simp add: slice_def)
    have len: "i + length (slice t i ?n) = ?n" using n by simp
    have g: "graphemes_from B t i = (i, slice t i ?n) # graphemes_from B t ?n"
      using True by (simp add: graphemes_from.simps [of B t i])
    have "fst (graphemes_from B t i ! k) = i + length (concat (take k (map snd (graphemes_from B t i))))"
      if k: "k < length (graphemes_from B t i)" for k
      using k ih len unfolding g by (cases k) (auto simp del: length_slice)
    then show ?thesis using ih d ne unfolding g by auto
  qed
qed

lemma clusters_of_props:
  assumes "seg_ok B"
  shows "concat (clusters_of B s) = s" "g \<in> set (clusters_of B s) \<Longrightarrow> g \<noteq> []"
    "grapheme_indices B s = map (\<lambda>k. (length (concat (take k (clusters_of B s))), clusters_of B s ! k))
       [0..<length (clusters_of B s)]"
proof -
  note p = graphemes_from_props [OF assms, of 0 s, simplified]
  show "concat (clusters_of B s) = s" using p by (simp add: clusters_of_def grapheme_indices_def)
  show "g \<in> set (clusters_of B s) \<Longrightarrow> g \<noteq> []" using p by (auto simp: clusters_of_def grapheme_indices_def)
  show "grapheme_indices B s = map (\<lambda>k. (length (concat (take k (clusters_of B s))), clusters_of B s ! k))
       [0..<length (clusters_of B s)]"
    using p by (intro nth_equalityI) (auto simp: clusters_of_def grapheme_indices_def prod_eq_iff)
qed

section \<open>Truncation\<close>

abbreviation widths :: "measure_fn \<Rightarrow> ustring list \<Rightarrow> nat" where
  "widths W gs \<equiv> sum_list (map (chrome_cluster_width W) gs)"

lemma truncate_loop_spec:
  assumes "a \<le> length gs" "concat gs = s" "widths W (take a gs) \<le> n"
  shows "\<exists>k. a \<le> k \<and> k \<le> length gs \<and>
    truncate_loop W s n (map (\<lambda>k. (length (concat (take k gs)), gs ! k)) [a..<length gs]) (widths W (take a gs)) =
      (concat (take k gs), widths W (take k gs)) \<and>
    widths W (take k gs) \<le> n \<and> (k < length gs \<longrightarrow> n < widths W (take (Suc k) gs))"
  using assms
proof (induction "length gs - a" arbitrary: a)
  case 0
  then show ?case by auto
next
  case (Suc m)
  then have a: "a < length gs" "m = length gs - Suc a" by auto
  have step: "widths W (take (Suc a) gs) = widths W (take a gs) + chrome_cluster_width W (gs ! a)"
    using a by (simp add: take_Suc_conv_app_nth)
  have u: "[a..<length gs] = a # [Suc a..<length gs]" using a by (simp add: upt_conv_Cons)
  have t: "take (length (concat (take a gs))) s = concat (take a gs)"
    using Suc.prems(2) by (metis append_eq_conv_conj append_take_drop_id concat_append)
  show ?case
  proof (cases "n < widths W (take (Suc a) gs)")
    case True
    then show ?thesis using a t step Suc.prems unfolding u
      by (intro exI [of _ a]) (simp add: chrome_grapheme_width Let_def)
  next
    case False
    with Suc.hyps(1) [OF a(2)] a Suc.prems obtain k where
      "Suc a \<le> k" "k \<le> length gs"
      "truncate_loop W s n (map (\<lambda>k. (length (concat (take k gs)), gs ! k)) [Suc a..<length gs]) (widths W (take (Suc a) gs)) =
         (concat (take k gs), widths W (take k gs))"
      "widths W (take k gs) \<le> n" "k < length gs \<longrightarrow> n < widths W (take (Suc k) gs)" by auto
    with False step show ?thesis unfolding u
      by (intro exI [of _ k]) (simp add: chrome_grapheme_width Let_def)
  qed
qed

lemma suffix_loop_spec:
  assumes "a \<le> length gs" "widths W (drop a gs) \<le> n"
  shows "\<exists>k \<le> a. suffix_loop W n (rev (map (\<lambda>k. (length (concat (take k gs)), gs ! k)) [0..<a]))
      (length (concat (take a gs))) (widths W (drop a gs)) = (length (concat (take k gs)), widths W (drop k gs)) \<and>
    widths W (drop k gs) \<le> n \<and> (0 < k \<longrightarrow> n < widths W (drop (k - 1) gs))"
  using assms
proof (induction a)
  case 0
  then show ?case by simp
next
  case (Suc a)
  then have a: "a < length gs" by simp
  have step: "widths W (drop a gs) = widths W (drop (Suc a) gs) + chrome_cluster_width W (gs ! a)"
    using a by (simp add: Cons_nth_drop_Suc [symmetric])
  show ?case
  proof (cases "n < widths W (drop a gs)")
    case True
    with step Suc.prems(2) show ?thesis by (intro exI [of _ "Suc a"]) (simp add: chrome_grapheme_width Let_def)
  next
    case False
    with Suc a obtain k where "k \<le> a" "suffix_loop W n (rev (map (\<lambda>k. (length (concat (take k gs)), gs ! k)) [0..<a]))
        (length (concat (take a gs))) (widths W (drop a gs)) = (length (concat (take k gs)), widths W (drop k gs))"
      "widths W (drop k gs) \<le> n" "0 < k \<longrightarrow> n < widths W (drop (k - 1) gs)" by auto
    with False step show ?thesis by (intro exI [of _ k]) (simp add: chrome_grapheme_width Let_def)
  qed
qed

lemma widths_split: "widths W (take k gs) + widths W (drop k gs) = widths W gs"
  by (metis append_take_drop_id map_append sum_list_append)

lemma widths_take_mono: "j \<le> k \<Longrightarrow> widths W (take j gs) \<le> widths W (take k gs)"
  using widths_split [of W j "take k gs"] by (simp add: min_def)

lemma widths_drop_mono: "j \<le> k \<Longrightarrow> widths W (drop k gs) \<le> widths W (drop j gs)"
  using widths_take_mono [of j k W gs] widths_split [of W k gs] widths_split [of W j gs] by linarith

lemma truncate_to_width_spec:
  assumes "seg_ok B"
  obtains k where "k \<le> length (clusters_of B s)"
    "truncate_to_width B W s n = (concat (take k (clusters_of B s)), widths W (take k (clusters_of B s)))"
    "widths W (take k (clusters_of B s)) \<le> n"
    "\<And>j. j \<le> length (clusters_of B s) \<Longrightarrow> widths W (take j (clusters_of B s)) \<le> n \<Longrightarrow> j \<le> k"
proof -
  let ?gs = "clusters_of B s"
  note p = clusters_of_props [OF assms, of s]
  obtain k where k: "k \<le> length ?gs" "truncate_to_width B W s n = (concat (take k ?gs), widths W (take k ?gs))"
      "widths W (take k ?gs) \<le> n" "k < length ?gs \<longrightarrow> n < widths W (take (Suc k) ?gs)"
    using truncate_loop_spec [of 0 ?gs s W n] p by (auto simp: truncate_to_width_def)
  show thesis
  proof (rule that [OF k(1-3)])
    fix j assume j: "j \<le> length ?gs" "widths W (take j ?gs) \<le> n"
    show "j \<le> k"
    proof (rule ccontr)
      assume "\<not> j \<le> k"
      with k(4) j widths_take_mono [of "Suc k" j W ?gs] show False by auto
    qed
  qed
qed

lemma truncate_suffix_spec:
  assumes "seg_ok B"
  obtains k where "k \<le> length (clusters_of B s)"
    "truncate_suffix_to_width B W s n = (concat (drop k (clusters_of B s)), widths W (drop k (clusters_of B s)))"
    "widths W (drop k (clusters_of B s)) \<le> n"
    "\<And>j. j \<le> length (clusters_of B s) \<Longrightarrow> widths W (drop j (clusters_of B s)) \<le> n \<Longrightarrow> k \<le> j"
proof -
  let ?gs = "clusters_of B s"
  note p = clusters_of_props [OF assms, of s]
  obtain k where k: "k \<le> length ?gs" "suffix_loop W n (rev (grapheme_indices B s)) (length s) 0 =
        (length (concat (take k ?gs)), widths W (drop k ?gs))"
      "widths W (drop k ?gs) \<le> n" "0 < k \<longrightarrow> n < widths W (drop (k - 1) ?gs)"
    using suffix_loop_spec [of "length ?gs" ?gs W n] p by auto
  have "concat (take k ?gs) @ concat (drop k ?gs) = s" using p(1) by (metis append_take_drop_id concat_append)
  then have "drop (length (concat (take k ?gs))) s = concat (drop k ?gs)" by (metis append_eq_conv_conj)
  then have t: "truncate_suffix_to_width B W s n = (concat (drop k ?gs), widths W (drop k ?gs))"
    using k(2) by (simp add: truncate_suffix_to_width_def)
  show thesis
  proof (rule that [OF k(1) t k(3)])
    fix j assume j: "j \<le> length ?gs" "widths W (drop j ?gs) \<le> n"
    show "k \<le> j"
    proof (rule ccontr)
      assume "\<not> k \<le> j"
      then have "j \<le> k - 1" "0 < k" by auto
      with k(4) j widths_drop_mono [of j "k - 1" W ?gs] show False by simp
    qed
  qed
qed

text \<open>Both cuts keep a part of the text, so cutting with a marker never slices out of range.\<close>

lemma concat_parts:
  assumes "concat gs = s"
  shows "slice s 0 (length (concat (take k gs))) = concat (take k gs)"
    "slice s (length s - length (concat (drop k gs))) (length s) = concat (drop k gs)"
    "length (concat (take k gs)) \<le> length s" "length (concat (drop k gs)) \<le> length s"
proof -
  have e: "concat (take k gs) @ concat (drop k gs) = s" using assms by (metis append_take_drop_id concat_append)
  then show "slice s 0 (length (concat (take k gs))) = concat (take k gs)"
    by (auto simp: slice_def)
  have n: "length s - length (concat (drop k gs)) = length (concat (take k gs))" using e by auto
  from e show "length (concat (take k gs)) \<le> length s" "length (concat (drop k gs)) \<le> length s" by auto
  show "slice s (length s - length (concat (drop k gs))) (length s) = concat (drop k gs)"
    unfolding n using e by (auto simp: slice_def)
qed

lemma truncate_marked_eq:
  assumes "seg_ok B"
  shows "truncate_marked B W s n which = Some (
     if chrome_width B W s \<le> n then s
     else if n = 0 then []
     else (case which of
        HeadEnd \<Rightarrow> ELLIPSIS @ fst (truncate_suffix_to_width B W s (n - 1))
      | TailEnd \<Rightarrow> fst (truncate_to_width B W s (n - 1)) @ ELLIPSIS))"
proof -
  note p = concat_parts [OF clusters_of_props(1) [OF assms, of s]]
  obtain k where k: "truncate_to_width B W s (n - 1) =
      (concat (take k (clusters_of B s)), widths W (take k (clusters_of B s)))"
    by (rule truncate_to_width_spec [OF assms])
  obtain j where j: "truncate_suffix_to_width B W s (n - 1) =
      (concat (drop j (clusters_of B s)), widths W (drop j (clusters_of B s)))"
    by (rule truncate_suffix_spec [OF assms])
  show ?thesis
    using p(1,3) [of k] p(2,4) [of j]
    by (cases which)
       (auto simp: truncate_marked_def cut_to_def slice_opt_def slice_def ELLIPSIS_WIDTH_def k j simp del: One_nat_def)
qed

text \<open>Cutting a text to a number of cells keeps whole clusters: the longest prefix, or the longest
  suffix, whose clusters fit the budget, with its width. Cutting with a marker never panics: it leaves
  a text that fits as it is, keeps nothing of it at no cells, and else spends one cell on the marker at
  the end it cuts.\<close>

theorem truncation_fits:
  fixes s :: ustring
  assumes "seg_ok B"
  shows "(\<exists>k \<le> length (clusters_of B s). truncate_to_width B W s n =
        (concat (take k (clusters_of B s)), widths W (take k (clusters_of B s))) \<and>
      widths W (take k (clusters_of B s)) \<le> n \<and>
      (\<forall>j \<le> length (clusters_of B s). widths W (take j (clusters_of B s)) \<le> n \<longrightarrow> j \<le> k)) \<and>
    (\<exists>k \<le> length (clusters_of B s). truncate_suffix_to_width B W s n =
        (concat (drop k (clusters_of B s)), widths W (drop k (clusters_of B s))) \<and>
      widths W (drop k (clusters_of B s)) \<le> n \<and>
      (\<forall>j \<le> length (clusters_of B s). widths W (drop j (clusters_of B s)) \<le> n \<longrightarrow> k \<le> j)) \<and>
    truncate_marked B W s n which = Some (
      if widths W (clusters_of B s) \<le> n then s
      else if n = 0 then []
      else (case which of
         HeadEnd \<Rightarrow> ELLIPSIS @ fst (truncate_suffix_to_width B W s (n - 1))
       | TailEnd \<Rightarrow> fst (truncate_to_width B W s (n - 1)) @ ELLIPSIS))"
proof (intro conjI, goal_cases)
  case 1
  show ?case by (rule truncate_to_width_spec [OF assms, of s W n]) blast
next
  case 2
  show ?case by (rule truncate_suffix_spec [OF assms, of s W n]) blast
next
  case 3
  show ?case using truncate_marked_eq [OF assms, of W s n which] by (simp only: chrome_width_sum)
qed

theorem truncation_fits_witness:
  "fst (truncate_to_width demo_seg length [97, 98, 0x301, 99] 2) = [97]"
proof -
  have gs: "clusters_of demo_seg [97, 98, 0x301, 99] = [[97], [98, 0x301], [99]]"
    by (simp add: clusters_of_def grapheme_indices_def graphemes_from.simps next_boundary_def demo_seg_def slice_def)
  have w: "chrome_cluster_width length [97] = 1" "chrome_cluster_width length [98, 0x301] = 2"
    "chrome_cluster_width length [99] = 1"
    by (simp_all add: chrome_cluster_width_def grapheme_width_def classify_def kind_width_def placeholder_at_width_def is_control_def)
  obtain k where k: "k \<le> length [[97], [98, 0x301], [99 :: nat]]" "truncate_to_width demo_seg length [97, 98, 0x301, 99] 2 =
      (concat (take k [[97], [98, 0x301], [99]]), widths length (take k [[97], [98, 0x301], [99]]))"
    "widths length (take k [[97], [98, 0x301], [99]]) \<le> 2"
    "\<forall>j \<le> length [[97], [98, 0x301], [99 :: nat]]. widths length (take j [[97], [98, 0x301], [99]]) \<le> 2 \<longrightarrow> j \<le> k"
    using truncation_fits [OF demo_seg_ok, of "[97, 98, 0x301, 99]" length 2 TailEnd, THEN conjunct1]
    unfolding gs by blast
  from k(4) [rule_format, of 1] have "1 \<le> k" by (simp add: w(1))
  moreover have "k < 2" using k(3) widths_take_mono [of 2 k length "[[97], [98, 0x301], [99]]"] by (force simp: w numeral_2_eq_2)
  ultimately have "k = 1" by simp
  with k(2) show ?thesis by simp
qed


section \<open>Placeholders\<close>

text \<open>Reading the digits back.\<close>

definition hex_value :: "uchar \<Rightarrow> nat" where
  "hex_value c = (if c < 0x3a then c - 0x30 else c - 0x61 + 10)"

lemma hex_value_digit: "d < 16 \<Longrightarrow> hex_value (hex_digit d) = d"
  by (auto simp: hex_value_def hex_digit_def)

lemma hex_parses: "foldl (\<lambda>a c. a * 16 + hex_value c) 0 (hex n) = n"
proof (induction n rule: hex.induct)
  case (1 n)
  then show ?case by (cases "n < 16") (simp_all add: hex.simps [of n] hex_value_digit)
qed

lemma hex_length: "n < 16 ^ k \<Longrightarrow> 0 < k \<Longrightarrow> length (hex n) \<le> k"
proof (induction k arbitrary: n)
  case (Suc k)
  show ?case
  proof (cases "n < 16")
    case False
    then have "k \<noteq> 0" using Suc.prems(1) by (cases k) auto
    moreover have "n div 16 < 16 ^ k" using Suc.prems(1) by (simp add: less_mult_imp_div_less mult.commute)
    ultimately show ?thesis using Suc.IH [of "n div 16"] False by (simp add: hex.simps [of n])
  qed (simp add: hex.simps [of n])
qed simp

text \<open>Every cluster occupies at least one cell; the placeholder of a cluster that must not be written
  as itself is its first char's codepoint, in hex digits that read back, in angle brackets, and never
  overflows its buffer.\<close>

theorem placeholder_names_char:
  assumes "ch < 0x110000"
  shows "0 < grapheme_width W (ch # c) d tw \<and>
    (\<exists>digits. placeholder (ch # c) = [0x3c] @ digits @ [0x3e] \<and> foldl (\<lambda>a c. a * 16 + hex_value c) 0 digits = ch \<and>
       length (placeholder (ch # c)) \<le> MAX_PLACEHOLDER)"
proof -
  have "length (hex ch) \<le> 6" by (rule hex_length) (use assms in simp_all)
  then have "placeholder (ch # c) = [0x3c] @ hex ch @ [0x3e]"
    by (simp add: placeholder_def write_str_def MAX_PLACEHOLDER_def)
  with \<open>length (hex ch) \<le> 6\<close> hex_parses [of ch] kind_width_pos show ?thesis
    by (auto simp: MAX_PLACEHOLDER_def grapheme_width_def)
qed

theorem placeholder_names_char_witness:
  "0 < grapheme_width (\<lambda>_. 0) [0x200b] 0 4 \<and> placeholder [0x200b] = [0x3c, 0x32, 0x30, 0x30, 0x62, 0x3e]"
  using placeholder_names_char [of "0x200b" "\<lambda>_. 0" "[]" 0 4]
  by (simp add: placeholder_def write_str_def hex.simps hex_digit_def MAX_PLACEHOLDER_def)

end
