(* ===== verification/Canvas.thy ===== *)
theory Canvas imports Screen Width begin

text \<open>
  The drawing surface of a frame, \<open>hume-grid\<close>'s \<open>canvas.rs\<close>, over the grid and the display widths.
  The blend of a color toward another is in floating point, so it is a parameter \<open>lerp\<close>, of which
  nothing is assumed.
\<close>

section \<open>The canvas\<close>

record 'f canvas =
  cv_grid :: grid
  cv_dim :: "(rgb \<times> 'f) option"
  cv_invisible_style :: resolved_style

type_synonym 'f blend = "rgb \<Rightarrow> rgb \<Rightarrow> 'f \<Rightarrow> rgb"

definition clamp_rect_to_grid :: "nat \<times> nat \<Rightarrow> rect \<Rightarrow> nat \<times> nat \<times> nat \<times> nat" where
  "clamp_rect_to_grid dims r =
     (let (width, height) = dims in
      (re_x r, re_y r, min (rect_right r) width, min (rect_bottom r) height))"

definition blend_style :: "'f blend \<Rightarrow> resolved_style \<Rightarrow> (rgb \<times> 'f) option \<Rightarrow> resolved_style" where
  "blend_style lerp style dim =
     (case dim of
        None \<Rightarrow> style
      | Some (target, factor) \<Rightarrow>
          style\<lparr>rs_fg := map_option (\<lambda>c. lerp c target factor) (rs_fg style),
            rs_bg := map_option (\<lambda>c. lerp c target factor) (rs_bg style)\<rparr>)"

definition over_painted :: "'f canvas \<Rightarrow> nat \<Rightarrow> nat \<Rightarrow> resolved_style \<Rightarrow> resolved_style option" where
  "over_painted cv x y style = do {
     c \<leftarrow> grid_cell (cv_grid cv) x y;
     Some (case c of None \<Rightarrow> style | Some c \<Rightarrow> style_over style (ce_style c)) }"

definition write_cell :: "'f blend \<Rightarrow> 'f canvas \<Rightarrow> nat \<Rightarrow> nat \<Rightarrow> ustring \<Rightarrow> nat \<Rightarrow> resolved_style \<Rightarrow> nat \<Rightarrow>
    'f canvas option" where
  "write_cell lerp cv x y t adv style right_edge =
     (if sat_add16 x adv > right_edge then Some cv
      else do {
        style \<leftarrow> over_painted cv x y (blend_style lerp style (cv_dim cv));
        g \<leftarrow> set_glyph (cv_grid cv) x y t adv style;
        Some (cv\<lparr>cv_grid := g\<rparr>) })"

text \<open>The chars of a placeholder, one cell each, from \<open>cx + i\<close>.\<close>

fun write_chars :: "'f blend \<Rightarrow> ustring \<Rightarrow> nat \<Rightarrow> nat \<Rightarrow> nat \<Rightarrow> resolved_style \<Rightarrow> nat \<Rightarrow> 'f canvas \<Rightarrow> 'f canvas option" where
  "write_chars lerp [] i cx y style right_edge cv = Some cv"
| "write_chars lerp (ch # chs) i cx y style right_edge cv = do {
     ensure (cx + i \<le> u16_max);
     cv \<leftarrow> write_cell lerp cv (cx + i) y [ch] 1 style right_edge;
     write_chars lerp chs (i + 1) cx y style right_edge cv }"

fun text_run_loop :: "measure_fn \<Rightarrow> 'f blend \<Rightarrow> ustring list \<Rightarrow> nat \<Rightarrow> nat \<Rightarrow> nat \<Rightarrow> resolved_style \<Rightarrow> nat \<Rightarrow>
    'f canvas \<Rightarrow> ('f canvas \<times> nat) option" where
  "text_run_loop W lerp [] x cx y style right_edge cv = Some (cv, cx)"
| "text_run_loop W lerp (c # cs) x cx y style right_edge cv = do {
     col \<leftarrow> checked_sub cx x;
     let classified = classify W c col CHROME_TAB_WIDTH;
     let width = kind_width classified mod 65536;
     if sat_add16 cx width > right_edge then Some (cv, cx)
     else do {
       cv \<leftarrow> (case classified of
           Tab _ \<Rightarrow> write_cell lerp cv cx y [SPC] 1 style right_edge
         | Placeholder p \<Rightarrow>
             write_chars lerp p 0 cx y (style_over (cv_invisible_style cv) style) right_edge cv
         | Plain _ \<Rightarrow> write_cell lerp cv cx y c (width mod 256) style right_edge);
       ensure (cx + width \<le> u16_max);
       text_run_loop W lerp cs x (cx + width) y style right_edge cv } }"

definition write_text_run :: "segmentation \<Rightarrow> measure_fn \<Rightarrow> 'f blend \<Rightarrow> 'f canvas \<Rightarrow> nat \<Rightarrow> nat \<Rightarrow> ustring \<Rightarrow>
    resolved_style \<Rightarrow> nat \<Rightarrow> ('f canvas \<times> nat) option" where
  "write_text_run B W lerp cv x y t style right_edge =
     text_run_loop W lerp (map snd (grapheme_indices B t)) x x y style right_edge cv"

text \<open>\<open>fill_glyph_run\<close>, whose loop advances one column at a time to \<open>end\<close>.\<close>

fun glyph_run_loop :: "'f blend \<Rightarrow> nat list \<Rightarrow> nat \<Rightarrow> ustring \<Rightarrow> resolved_style \<Rightarrow> nat \<Rightarrow> 'f canvas \<Rightarrow> 'f canvas option" where
  "glyph_run_loop lerp [] y glyph style right_edge cv = Some cv"
| "glyph_run_loop lerp (cx # cxs) y glyph style right_edge cv = do {
     cv \<leftarrow> write_cell lerp cv cx y glyph 1 style right_edge;
     glyph_run_loop lerp cxs y glyph style right_edge cv }"

definition fill_glyph_run :: "measure_fn \<Rightarrow> 'f blend \<Rightarrow> 'f canvas \<Rightarrow> nat \<Rightarrow> nat \<Rightarrow> ustring \<Rightarrow> nat \<Rightarrow> resolved_style \<Rightarrow> nat \<Rightarrow>
    ('f canvas \<times> nat) option" where
  "fill_glyph_run W lerp cv x y glyph count style right_edge = do {
     ensure (chrome_cluster_width W glyph = 1);
     let stop = min (sat_add16 x count) right_edge;
     cv \<leftarrow> glyph_run_loop lerp [x..<stop] y glyph style right_edge cv;
     Some (cv, max x stop) }"

fun fill_rows :: "nat list \<Rightarrow> nat \<Rightarrow> nat \<Rightarrow> resolved_style \<Rightarrow> grid \<Rightarrow> grid option" where
  "fill_rows [] x0 x1 style g = Some g"
| "fill_rows (y # ys) x0 x1 style g = do {
     g \<leftarrow> fill_span g y x0 x1 (cell_blank style);
     fill_rows ys x0 x1 style g }"

definition fill_rect_bg :: "'f blend \<Rightarrow> 'f canvas \<Rightarrow> rect \<Rightarrow> resolved_style \<Rightarrow> 'f canvas option" where
  "fill_rect_bg lerp cv r style =
     (let (x0, y0, x1, y1) = clamp_rect_to_grid (grid_size (cv_grid cv)) r in
      if x0 \<ge> x1 then Some cv
      else do {
        g \<leftarrow> fill_rows [y0..<y1] x0 x1 (blend_style lerp style (cv_dim cv)) (cv_grid cv);
        Some (cv\<lparr>cv_grid := g\<rparr>) })"

definition fill_row_bg :: "'f blend \<Rightarrow> 'f canvas \<Rightarrow> nat \<Rightarrow> nat \<Rightarrow> nat \<Rightarrow> rgb option \<Rightarrow> 'f canvas option" where
  "fill_row_bg lerp cv x_start x_end y bg =
     fill_rect_bg lerp cv \<lparr>re_x = x_start, re_y = y, re_width = x_end - x_start, re_height = 1\<rparr>
       (default_style\<lparr>rs_bg := bg\<rparr>)"

section \<open>Drawing agrees with measuring\<close>

text \<open>The terminal and the width model agree: a cluster drawn as itself takes on the terminal the cells
  it measures, and a printable ASCII char takes one.\<close>

definition agrees :: "(ustring \<Rightarrow> nat) \<Rightarrow> measure_fn \<Rightarrow> bool" where
  "agrees tw W \<longleftrightarrow> (\<forall>c. 0x20 \<le> c \<and> c \<le> 0x7e \<longrightarrow> tw [c] = 1) \<and>
     (\<forall>c d n w. classify W c d n = Plain w \<longrightarrow> tw c = w)"

lemma draws_trans: "draws tw g' g'' \<Longrightarrow> draws tw g g' \<Longrightarrow> draws tw g g''"
  by (induction rule: draws.induct) (auto intro: draws.intros)

lemma grid_cell_ok: "grid_ok g \<Longrightarrow> \<exists>c. grid_cell g x y = Some c"
proof -
  assume g: "grid_ok g"
  have "y * gr_width g + x < length (gr_cells g)" if "x < gr_width g" "y < gr_height g"
    using that g mult_le_mono1 [of "Suc y" "gr_height g" "gr_width g"] by (simp add: grid_ok_def mult.commute)
  then show ?thesis by (auto simp: grid_cell_def grid_index_def nth_opt_def)
qed

lemma draws_grid_ok:
  assumes "draws tw g g'" "grid_ok g"
  shows "grid_ok g'"
  using assms(1)
proof (induction rule: draws.induct)
  case draws_nothing
  show ?case by (rule assms(2))
next
  case (draws_glyph g' t adv x y style g'')
  then show ?case using set_glyph_ok [OF draws_glyph.IH, of x y t adv style] by (metis option.inject)
next
  case (draws_span g' c y a b g'')
  then show ?case using fill_span_ok [OF draws_span.IH, of c y a b] by (metis option.inject)
qed

lemma write_cell_draws:
  assumes "grid_ok (cv_grid cv)" "tw t = max adv 1" "max adv 1 \<le> MAX_REPRINT_GAP + 2"
  obtains g where "write_cell lerp cv x y t adv style right_edge = Some (cv\<lparr>cv_grid := g\<rparr>)"
    "draws tw (cv_grid cv) g" "grid_ok g"
proof (cases "sat_add16 x adv > right_edge")
  case True
  then show thesis using that [of "cv_grid cv"] draws_nothing assms(1) by (simp add: write_cell_def)
next
  case False
  obtain c where c: "grid_cell (cv_grid cv) x y = Some c" using grid_cell_ok [OF assms(1)] by blast
  then obtain st where st: "over_painted cv x y (blend_style lerp style (cv_dim cv)) = Some st"
    by (simp add: over_painted_def)
  obtain g where g: "set_glyph (cv_grid cv) x y t adv st = Some g" "grid_ok g"
    using set_glyph_ok [OF assms(1), of x y t adv st] by metis
  have "draws tw (cv_grid cv) g" by (rule draws_glyph) (rule draws_nothing assms(2,3) g(1))+
  then show thesis by (intro that [of g]) (use False st g in \<open>simp_all add: write_cell_def\<close>)
qed


lemma write_chars_draws:
  assumes "grid_ok (cv_grid cv)" "\<forall>ch \<in> set chs. tw [ch] = 1" "cx + i + length chs \<le> u16_max"
  shows "\<exists>g. write_chars lerp chs i cx y style right_edge cv = Some (cv\<lparr>cv_grid := g\<rparr>) \<and>
    draws tw (cv_grid cv) g \<and> grid_ok g"
  using assms
proof (induction chs arbitrary: i cv)
  case Nil
  then show ?case using draws_nothing by (intro exI [of _ "cv_grid cv"]) auto
next
  case (Cons ch chs)
  obtain g where g: "write_cell lerp cv (cx + i) y [ch] 1 style right_edge = Some (cv\<lparr>cv_grid := g\<rparr>)"
      "draws tw (cv_grid cv) g" "grid_ok g"
    by (rule write_cell_draws [OF Cons.prems(1), of tw "[ch]" 1]) (use Cons.prems(2) in \<open>simp_all add: MAX_REPRINT_GAP_def\<close>)
  from Cons.IH [of "cv\<lparr>cv_grid := g\<rparr>" "i + 1"] g(3) Cons.prems(2,3) obtain g' where
    "write_chars lerp chs (i + 1) cx y style right_edge (cv\<lparr>cv_grid := g\<rparr>) = Some (cv\<lparr>cv_grid := g'\<rparr>)"
    "draws tw g g'" "grid_ok g'" by auto
  with g Cons.prems(3) show ?case using draws_trans by auto
qed

lemma hex_printable: "c \<in> set (hex n) \<Longrightarrow> 0x20 \<le> c \<and> c \<le> 0x7e"
proof (induction n rule: hex.induct)
  case (1 n)
  have d: "0x20 \<le> hex_digit d \<and> hex_digit d \<le> 0x7e" if "d < 16" for d using that by (simp add: hex_digit_def)
  from 1 d [of n] d [of "n mod 16"] show ?case by (cases "n < 16") (auto simp: hex.simps [of n])
qed

lemma placeholder_printable:
  assumes "g \<noteq> []" "hd g < 0x110000"
  shows "length (placeholder g) \<le> 8" "ch \<in> set (placeholder g) \<Longrightarrow> 0x20 \<le> ch \<and> ch \<le> 0x7e"
proof -
  have "length (hex (hd g)) \<le> 6" by (rule hex_length) (use assms(2) in simp_all)
  then have e: "placeholder g = [0x3c] @ hex (hd g) @ [0x3e]"
    using assms(1) by (cases g) (simp_all add: placeholder_def write_str_def MAX_PLACEHOLDER_def)
  show "length (placeholder g) \<le> 8" using \<open>length (hex (hd g)) \<le> 6\<close> e by simp
  show "ch \<in> set (placeholder g) \<Longrightarrow> 0x20 \<le> ch \<and> ch \<le> 0x7e" unfolding e by (auto dest: hex_printable)
qed

text \<open>One cluster of a run, in whichever way it is drawn.\<close>

lemma cluster_draws:
  assumes "grid_ok (cv_grid cv)" "agrees tw W" "g \<noteq> []" "hd g < 0x110000"
    "cx + kind_width (classify W g d CHROME_TAB_WIDTH) \<le> u16_max"
  shows "kind_width (classify W g d CHROME_TAB_WIDTH) \<le> 8 \<and>
    (\<exists>gr. (case classify W g d CHROME_TAB_WIDTH of
           Tab _ \<Rightarrow> write_cell lerp cv cx y [SPC] 1 style right_edge
         | Placeholder p \<Rightarrow> write_chars lerp p 0 cx y (style_over (cv_invisible_style cv) style) right_edge cv
         | Plain _ \<Rightarrow> write_cell lerp cv cx y g (kind_width (classify W g d CHROME_TAB_WIDTH) mod 256) style right_edge) =
        Some (cv\<lparr>cv_grid := gr\<rparr>) \<and> draws tw (cv_grid cv) gr \<and> grid_ok gr)"
proof (cases "classify W g d CHROME_TAB_WIDTH")
  case (Tab w)
  then have "w = 1" by (auto simp: classify_def tab_advance_def CHROME_TAB_WIDTH_def Let_def split: if_splits)
  obtain gr where "write_cell lerp cv cx y [SPC] 1 style right_edge = Some (cv\<lparr>cv_grid := gr\<rparr>)"
      "draws tw (cv_grid cv) gr" "grid_ok gr"
    by (rule write_cell_draws [OF assms(1), of tw "[SPC]" 1]) (use assms(2) in \<open>simp_all add: agrees_def MAX_REPRINT_GAP_def\<close>)
  with Tab \<open>w = 1\<close> show ?thesis by (auto simp: kind_width_def)
next
  case (Placeholder p)
  then have p: "p = placeholder g" by (auto simp: classify_def Let_def split: if_splits)
  have "\<exists>gr. write_chars lerp p 0 cx y (style_over (cv_invisible_style cv) style) right_edge cv = Some (cv\<lparr>cv_grid := gr\<rparr>) \<and>
      draws tw (cv_grid cv) gr \<and> grid_ok gr"
    by (rule write_chars_draws [OF assms(1)])
       (use assms(2,5) placeholder_printable(2) [OF assms(3,4)] Placeholder p in \<open>auto simp: agrees_def kind_width_def\<close>)
  with Placeholder placeholder_printable(1) [OF assms(3,4)] p show ?thesis by (simp add: kind_width_def)
next
  case (Plain w)
  then have w: "w = 1 \<or> w = 2" by (auto simp: classify_def Let_def placeholder_at_width_def min_def split: if_splits)
  have "tw g = w" using assms(2) Plain unfolding agrees_def by blast
  obtain gr where "write_cell lerp cv cx y g w style right_edge = Some (cv\<lparr>cv_grid := gr\<rparr>)"
      "draws tw (cv_grid cv) gr" "grid_ok gr"
    by (rule write_cell_draws [OF assms(1), of tw g w]) (use w \<open>tw g = w\<close> in \<open>auto simp: MAX_REPRINT_GAP_def\<close>)
  with Plain w show ?thesis by (auto simp: kind_width_def)
qed

lemma text_run_loop_draws:
  assumes "grid_ok (cv_grid cv)" "agrees tw W" "\<forall>g \<in> set (map snd igs). g \<noteq> [] \<and> hd g < 0x110000"
    "x + d \<le> right_edge" "right_edge < u16_max"
  shows "\<exists>gr. text_run_loop W lerp (map snd igs) x (x + d) y style right_edge cv =
      Some (cv\<lparr>cv_grid := gr\<rparr>, x + snd (truncate_loop W s (right_edge - x) igs d)) \<and>
    draws tw (cv_grid cv) gr \<and> grid_ok gr"
  using assms
proof (induction igs arbitrary: d cv)
  case Nil
  then show ?case using draws_nothing by (intro exI [of _ "cv_grid cv"]) auto
next
  case (Cons ig igs)
  obtain i g where ig: "ig = (i, g)" by (cases ig)
  let ?w = "kind_width (classify W g d CHROME_TAB_WIDTH)"
  have col: "checked_sub (x + d) x = Some d" by (simp add: checked_sub_def)
  have w8: "?w \<le> 8"
  proof -
    have "length (placeholder g) \<le> 8" using placeholder_printable(1) [of g] Cons.prems(3) ig by simp
    then show ?thesis by (auto simp: classify_def kind_width_def Let_def tab_advance_def CHROME_TAB_WIDTH_def min_def)
  qed
  have m: "?w mod 65536 = ?w" using w8 by simp
  have over: "(sat_add16 (x + d) ?w > right_edge) = (d + ?w > right_edge - x)"
    using Cons.prems(4,5) by (auto simp: sat_add16_def)
  show ?case
  proof (cases "d + ?w > right_edge - x")
    case True
    then show ?thesis using col m over Cons.prems(1) draws_nothing
      by (intro exI [of _ "cv_grid cv"]) (simp add: ig grapheme_width_def Let_def)
  next
    case False
    then have fits: "x + d + ?w \<le> right_edge" using Cons.prems(4) by simp
    have "x + d + ?w \<le> u16_max" using fits Cons.prems(5) by simp
    from cluster_draws [OF Cons.prems(1,2) _ _ this, of lerp y style right_edge] Cons.prems(3) ig obtain gr where
      gr: "(case classify W g d CHROME_TAB_WIDTH of
           Tab _ \<Rightarrow> write_cell lerp cv (x + d) y [SPC] 1 style right_edge
         | Placeholder p \<Rightarrow> write_chars lerp p 0 (x + d) y (style_over (cv_invisible_style cv) style) right_edge cv
         | Plain _ \<Rightarrow> write_cell lerp cv (x + d) y g (?w mod 256) style right_edge) = Some (cv\<lparr>cv_grid := gr\<rparr>)"
      "draws tw (cv_grid cv) gr" "grid_ok gr" by auto
    from Cons.IH [of "cv\<lparr>cv_grid := gr\<rparr>" "d + ?w"] gr(3) Cons.prems fits obtain gr' where
      "text_run_loop W lerp (map snd igs) x (x + (d + ?w)) y style right_edge (cv\<lparr>cv_grid := gr\<rparr>) =
        Some (cv\<lparr>cv_grid := gr'\<rparr>, x + snd (truncate_loop W s (right_edge - x) igs (d + ?w)))"
      "draws tw gr gr'" "grid_ok gr'" by (auto simp: add.assoc)
    then show ?thesis using col m over False gr draws_trans \<open>x + d + ?w \<le> u16_max\<close>
      unfolding ig list.map snd_conv text_run_loop.simps Let_def col Option.bind.bind_lunit unfolding m
      by (intro exI [of _ gr']) (simp add: grapheme_width_def Let_def add.assoc)
  qed
qed


lemma glyph_run_draws:
  assumes "grid_ok (cv_grid cv)" "tw glyph = 1"
  shows "\<exists>g. glyph_run_loop lerp cxs y glyph style right_edge cv = Some (cv\<lparr>cv_grid := g\<rparr>) \<and>
    draws tw (cv_grid cv) g \<and> grid_ok g"
  using assms(1)
proof (induction cxs arbitrary: cv)
  case Nil
  then show ?case using draws_nothing by (intro exI [of _ "cv_grid cv"]) auto
next
  case (Cons cx cxs)
  obtain g where g: "write_cell lerp cv cx y glyph 1 style right_edge = Some (cv\<lparr>cv_grid := g\<rparr>)"
      "draws tw (cv_grid cv) g" "grid_ok g"
    by (rule write_cell_draws [OF Cons.prems, of tw glyph 1]) (use assms(2) in \<open>simp_all add: MAX_REPRINT_GAP_def\<close>)
  from Cons.IH [of "cv\<lparr>cv_grid := g\<rparr>"] g(3) obtain g' where
    "glyph_run_loop lerp cxs y glyph style right_edge (cv\<lparr>cv_grid := g\<rparr>) = Some (cv\<lparr>cv_grid := g'\<rparr>)"
    "draws tw g g'" "grid_ok g'" by auto
  with g show ?case using draws_trans by auto
qed

lemma fill_rows_draws:
  assumes "grid_ok g" "tw [SPC] = 1"
  shows "\<exists>g'. fill_rows ys x0 x1 style g = Some g' \<and> draws tw g g' \<and> grid_ok g'"
  using assms(1)
proof (induction ys arbitrary: g)
  case Nil
  then show ?case using draws_nothing by auto
next
  case (Cons y ys)
  obtain g' where g': "fill_span g y x0 x1 (cell_blank style) = Some g'" "grid_ok g'"
    by (rule fill_span_ok [OF Cons.prems, of "cell_blank style" y x0 x1]) simp
  have "tw (ce_text (cell_blank style)) = 1" using assms(2) by (simp add: cell_blank_def)
  have "draws tw g g'" by (rule draws_span) (rule draws_nothing cell_advances(1) \<open>tw (ce_text (cell_blank style)) = 1\<close> g'(1))+
  with Cons.IH [OF g'(2)] g' show ?case using draws_trans by auto
qed

text \<open>C29: Writing a run of text never panics and draws what measuring it promised: it returns the column
  that cutting the text to the cells before the right edge gives, for any text, tabs, control chars and
  zero-width clusters included, and what it changes of the grid is a drawing the terminal can show.\<close>

theorem text_run_as_measured:
  assumes "seg_ok B" "grid_ok (cv_grid cv)" "agrees tw W" "\<forall>ch \<in> set t. ch < 0x110000"
    "x \<le> right_edge" "right_edge < u16_max"
  shows "\<exists>g. write_text_run B W lerp cv x y t style right_edge =
      Some (cv\<lparr>cv_grid := g\<rparr>, x + snd (truncate_to_width B W t (right_edge - x))) \<and>
    draws tw (cv_grid cv) g \<and> grid_ok g"
proof -
  have "\<forall>g \<in> set (map snd (grapheme_indices B t)). g \<noteq> [] \<and> hd g < 0x110000"
  proof
    fix g assume g: "g \<in> set (map snd (grapheme_indices B t))"
    then have g': "g \<in> set (clusters_of B t)" by (simp add: clusters_of_def)
    have ne: "g \<noteq> []" by (rule clusters_of_props(2) [OF assms(1) g'])
    then have "hd g \<in> set (concat (clusters_of B t))" using g' hd_in_set [OF ne] by (auto intro: bexI [of _ g])
    then show "g \<noteq> [] \<and> hd g < 0x110000" using ne assms(4) clusters_of_props(1) [OF assms(1), of t] by simp
  qed
  from text_run_loop_draws [OF assms(2,3) this, of x 0 right_edge lerp y style t] assms(5,6)
  show ?thesis by (simp add: write_text_run_def truncate_to_width_def)
qed

theorem text_run_as_measured_witness:
  "\<exists>cv'. write_text_run demo_seg (\<lambda>c. if c = [0x4e00] then 2 else 1) (\<lambda>c _ (_ :: unit). c)
      \<lparr>cv_grid = grid_new 4 1, cv_dim = None, cv_invisible_style = default_style\<rparr> 0 0 [97, 0x4e00, 98, 98] default_style 3 =
     Some (cv', 3)"
proof -
  let ?W = "\<lambda>c :: ustring. if c = [0x4e00] then 2 else (1 :: nat)"
  let ?tw = "\<lambda>c. case classify ?W c 0 1 of Plain w \<Rightarrow> w | _ \<Rightarrow> (0 :: nat)"
  let ?cv = "\<lparr>cv_grid = grid_new 4 1, cv_dim = None, cv_invisible_style = default_style\<rparr> :: unit canvas"
  let ?t = "[97, 0x4e00, 98, 98] :: ustring"
  have plain: "classify ?W c 0 1 = Plain w" if "classify ?W c d n = Plain w" for c d n w
    using that by (auto simp: classify_def Let_def split: if_splits)
  have "?tw c = w" if "classify ?W c d n = Plain w" for c d n w using plain [OF that] by simp
  moreover have "?tw [c] = 1" if "0x20 \<le> c" "c \<le> 0x7e" for c using that by (simp add: classify_def)
  ultimately have ag: "agrees ?tw ?W" unfolding agrees_def by blast
  have ok: "grid_ok (cv_grid ?cv)" using blank_grid_ok(1) [of 4 1] by (simp add: u16_max_def)
  have gs: "grapheme_indices demo_seg ?t = [(0, [97]), (1, [0x4e00]), (2, [98]), (3, [98])]"
    by (simp add: grapheme_indices_def graphemes_from.simps next_boundary_def demo_seg_def Prelude.slice_def)
  have k: "grapheme_width ?W [97] d CHROME_TAB_WIDTH = 1" "grapheme_width ?W [98] d CHROME_TAB_WIDTH = 1"
    "grapheme_width ?W [0x4e00] d CHROME_TAB_WIDTH = 2" for d
    by (simp_all add: grapheme_width_def classify_def kind_width_def placeholder_at_width_def is_control_def)
  have t: "truncate_to_width demo_seg ?W ?t 3 = ([97, 0x4e00], 3)"
    unfolding truncate_to_width_def gs by (simp add: k)
  have c: "\<forall>ch \<in> set ?t. ch < 0x110000" "(0 :: nat) \<le> 3" "3 < u16_max" by (simp_all add: u16_max_def)
  obtain g where "write_text_run demo_seg ?W (\<lambda>c _ (_ :: unit). c) ?cv 0 0 ?t default_style 3 =
      Some (?cv\<lparr>cv_grid := g\<rparr>, 0 + snd (truncate_to_width demo_seg ?W ?t (3 - 0)))"
    using text_run_as_measured [OF demo_seg_ok ok ag c] by blast
  then show ?thesis unfolding diff_zero t snd_conv add_0 by blast
qed

text \<open>Filling a run of glyphs, a rectangle or a row span never panics, stays on the canvas whatever
  rectangle it is given, and is a drawing the terminal can show.\<close>

theorem fills_draw:
  assumes "grid_ok (cv_grid cv)" "agrees tw W" "tw glyph = 1" "chrome_cluster_width W glyph = 1"
  shows "(\<exists>g. fill_rect_bg lerp cv r style = Some (cv\<lparr>cv_grid := g\<rparr>) \<and> draws tw (cv_grid cv) g \<and> grid_ok g) \<and>
    (\<exists>g. fill_row_bg lerp cv x_start x_end y bg = Some (cv\<lparr>cv_grid := g\<rparr>) \<and> draws tw (cv_grid cv) g \<and> grid_ok g) \<and>
    (\<exists>g. fill_glyph_run W lerp cv x y glyph count style right_edge =
        Some (cv\<lparr>cv_grid := g\<rparr>, max x (min (sat_add16 x count) right_edge)) \<and> draws tw (cv_grid cv) g \<and> grid_ok g)"
proof -
  have sp: "tw [SPC] = 1" using assms(2) by (simp add: agrees_def)
  have rect: "\<exists>g. fill_rect_bg lerp cv r style = Some (cv\<lparr>cv_grid := g\<rparr>) \<and> draws tw (cv_grid cv) g \<and> grid_ok g" for r style
  proof (cases "re_x r < min (rect_right r) (gr_width (cv_grid cv))")
    case True
    obtain g where "fill_rows [re_y r..<min (rect_bottom r) (gr_height (cv_grid cv))] (re_x r)
        (min (rect_right r) (gr_width (cv_grid cv))) (blend_style lerp style (cv_dim cv)) (cv_grid cv) = Some g"
      "draws tw (cv_grid cv) g" "grid_ok g"
      using fill_rows_draws [where tw = tw, OF assms(1)] sp by blast
    with True show ?thesis by (auto simp: fill_rect_bg_def clamp_rect_to_grid_def grid_size_def Let_def)
  next
    case False
    then show ?thesis using draws_nothing assms(1)
      by (intro exI [of _ "cv_grid cv"]) (auto simp: fill_rect_bg_def clamp_rect_to_grid_def grid_size_def Let_def)
  qed
  moreover have "\<exists>g. fill_glyph_run W lerp cv x y glyph count style right_edge =
      Some (cv\<lparr>cv_grid := g\<rparr>, max x (min (sat_add16 x count) right_edge)) \<and> draws tw (cv_grid cv) g \<and> grid_ok g"
    using glyph_run_draws [OF assms(1), of tw glyph lerp "[x..<min (sat_add16 x count) right_edge]" y style right_edge]
      assms(3,4) by (auto simp: fill_glyph_run_def Let_def)
  ultimately show ?thesis unfolding fill_row_bg_def by blast
qed

theorem fills_draw_witness:
  "\<exists>cv'. fill_glyph_run length (\<lambda>c _ (_ :: unit). c)
      \<lparr>cv_grid = grid_new 4 1, cv_dim = None, cv_invisible_style = default_style\<rparr> 1 0 [0x2500] 9 default_style 3 = Some (cv', 3)"
proof -
  let ?tw = "\<lambda>c. case classify length c 0 1 of Plain w \<Rightarrow> w | _ \<Rightarrow> (0 :: nat)"
  let ?cv = "\<lparr>cv_grid = grid_new 4 1, cv_dim = None, cv_invisible_style = default_style\<rparr> :: unit canvas"
  have plain: "classify length c 0 1 = Plain w" if "classify length c d n = Plain w" for c d n w
    using that by (auto simp: classify_def Let_def split: if_splits)
  have "?tw c = w" if "classify length c d n = Plain w" for c d n w using plain [OF that] by simp
  moreover have "?tw [c] = 1" if "0x20 \<le> c" "c \<le> 0x7e" for c using that by (simp add: classify_def)
  ultimately have ag: "agrees ?tw length" unfolding agrees_def by blast
  have ok: "grid_ok (cv_grid ?cv)" using blank_grid_ok(1) [of 4 1] by (simp add: u16_max_def)
  have k: "classify length [0x2500] 0 1 = Plain 1"
    by (simp add: classify_def placeholder_at_width_def is_control_def)
  then have w: "?tw [0x2500] = 1" "chrome_cluster_width length [0x2500] = 1"
    by (simp_all add: chrome_cluster_width_def grapheme_width_def kind_width_def CHROME_TAB_WIDTH_def)
  have m: "max 1 (min (sat_add16 1 9) 3) = 3" by (simp add: sat_add16_def u16_max_def)
  obtain g where "fill_glyph_run length (\<lambda>c _ (_ :: unit). c) ?cv 1 0 [0x2500] 9 default_style 3 =
      Some (?cv\<lparr>cv_grid := g\<rparr>, max 1 (min (sat_add16 1 9) 3))"
    using fills_draw [OF ok ag w] by blast
  then show ?thesis unfolding m by blast
qed

end
