(* ===== verification/Origin.thy ===== *)
theory Origin imports Prelude begin

text \<open>
  Ranking the writes to a configuration slot, \<open>hume-core\<close>'s \<open>origin.rs\<close>. A slot remembers whose code
  set it. A tie policy is a type there with one constant, what a second write from the same origin
  does; here it is that constant.
\<close>

section \<open>Origins\<close>

datatype config_origin = Bundled | Plugin | User

definition LOWEST_FIRST :: "config_origin list" where
  "LOWEST_FIRST = [Bundled, Plugin, User]"

definition level :: "config_origin \<Rightarrow> nat" where
  "level by = (case by of Bundled \<Rightarrow> 0 | Plugin \<Rightarrow> 1 | User \<Rightarrow> 2)"

lemma level_inject [simp]: "(level a = level b) = (a = b)"
  by (auto simp: level_def split: config_origin.splits)

text \<open>The origins, lowest first, are a linear order.\<close>

instantiation config_origin :: linorder
begin

definition less_eq_config_origin :: "config_origin \<Rightarrow> config_origin \<Rightarrow> bool" where
  "a \<le> b \<longleftrightarrow> level a \<le> level b"

definition less_config_origin :: "config_origin \<Rightarrow> config_origin \<Rightarrow> bool" where
  "a < b \<longleftrightarrow> level a < level b"

instance
  by standard (auto simp: less_eq_config_origin_def less_config_origin_def dest: le_antisym)

end

lemma lowest_first_sorted: "sorted LOWEST_FIRST \<and> set LOWEST_FIRST = UNIV \<and> map level LOWEST_FIRST = [0..<3]"
  using config_origin.exhaust by (auto simp: LOWEST_FIRST_def less_eq_config_origin_def level_def upt_rec)

section \<open>A ranked slot\<close>

datatype write_outcome = Applied | Ignored | Shadowed

definition is_applied :: "write_outcome \<Rightarrow> bool" where
  "is_applied out = (out = Applied)"

definition FirstWins :: write_outcome where
  "FirstWins = Ignored"

definition LaterWins :: write_outcome where
  "LaterWins = Applied"

type_synonym 'a ranked = "('a \<times> config_origin) option"

record 'a written =
  wr_outcome :: write_outcome
  wr_displaced :: "'a option"

definition ranked_rank :: "write_outcome \<Rightarrow> 'a ranked \<Rightarrow> config_origin \<Rightarrow> write_outcome" where
  "ranked_rank tie slot by =
     (case slot of
        None \<Rightarrow> Applied
      | Some (_, held) \<Rightarrow>
          if level held < level by then Applied
          else if level held > level by then Shadowed
          else tie)"

definition ranked_take :: "'a ranked \<Rightarrow> 'a option \<times> 'a ranked" where
  "ranked_take slot = (map_option fst slot, None)"

definition ranked_write :: "write_outcome \<Rightarrow> 'a ranked \<Rightarrow> 'a \<Rightarrow> config_origin \<Rightarrow> 'a written \<times> 'a ranked" where
  "ranked_write tie slot v by =
     (let out = ranked_rank tie slot by in
      case out of
        Applied \<Rightarrow> (\<lparr>wr_outcome = out, wr_displaced = map_option fst slot\<rparr>, Some (v, by))
      | _ \<Rightarrow> (\<lparr>wr_outcome = out, wr_displaced = None\<rparr>, slot))"

definition ranked_clear :: "write_outcome \<Rightarrow> 'a ranked \<Rightarrow> config_origin \<Rightarrow> 'a written \<times> 'a ranked" where
  "ranked_clear tie slot by =
     (let out = ranked_rank tie slot by in
      case out of
        Applied \<Rightarrow> (let (v, slot) = ranked_take slot in (\<lparr>wr_outcome = out, wr_displaced = v\<rparr>, slot))
      | _ \<Rightarrow> (\<lparr>wr_outcome = out, wr_displaced = None\<rparr>, slot))"

definition ranked_get :: "'a ranked \<Rightarrow> 'a option" where
  "ranked_get slot = map_option fst slot"

definition ranked_by :: "'a ranked \<Rightarrow> config_origin option" where
  "ranked_by slot = map_option snd slot"

definition as_claim :: "'a ranked \<Rightarrow> unit ranked" where
  "as_claim slot = map_option (\<lambda>by. ((), by)) (ranked_by slot)"

definition claim :: "write_outcome \<Rightarrow> unit ranked \<Rightarrow> config_origin \<Rightarrow> write_outcome \<times> unit ranked" where
  "claim tie slot by = (let (w, slot) = ranked_write tie slot () by in (wr_outcome w, slot))"

section \<open>One value per origin\<close>

type_synonym 'a by_origin = "'a list"

definition by_origin_get :: "'a by_origin \<Rightarrow> config_origin \<Rightarrow> 'a option" where
  "by_origin_get xs by = nth_opt xs (level by)"

definition by_origin_set :: "'a by_origin \<Rightarrow> config_origin \<Rightarrow> 'a \<Rightarrow> 'a by_origin option" where
  "by_origin_set xs by v = (if level by < length xs then Some (xs[level by := v]) else None)"

definition by_origin_iter :: "'a by_origin \<Rightarrow> (config_origin \<times> 'a) list option" where
  "by_origin_iter xs = those (map (\<lambda>by. map_option (Pair by) (by_origin_get xs by)) (rev LOWEST_FIRST))"

definition by_origin_above :: "'a by_origin \<Rightarrow> config_origin \<Rightarrow> 'a list option" where
  "by_origin_above xs by = map_option (\<lambda>ps. map snd (takeWhile (\<lambda>p. fst p \<noteq> by) ps)) (by_origin_iter xs)"

section \<open>What a slot holds after a sequence of writes\<close>

fun write_all_ranked :: "write_outcome \<Rightarrow> ('a \<times> config_origin) list \<Rightarrow> 'a ranked \<Rightarrow> 'a ranked" where
  "write_all_ranked tie [] slot = slot"
| "write_all_ranked tie ((v, by) # ws) slot = write_all_ranked tie ws (snd (ranked_write tie slot v by))"

text \<open>The interface of a tie policy: a second write from one origin is applied or ignored, never shadowed;
  the writes of the highest origin are then those that count.\<close>

locale tie_policy =
  fixes tie :: write_outcome
    and pick :: "('a \<times> config_origin) list \<Rightarrow> 'a \<times> config_origin"
  assumes not_shadowed: "tie \<noteq> Shadowed"
    and pick_single: "pick [w] = w"
    and pick_snoc: "ws \<noteq> [] \<Longrightarrow> pick (ws @ [w]) = (if tie = Applied then w else pick ws)"
begin

definition top :: "('a \<times> config_origin) list \<Rightarrow> config_origin" where
  "top ws = Max (snd ` set ws)"

definition winners :: "('a \<times> config_origin) list \<Rightarrow> ('a \<times> config_origin) list" where
  "winners ws = filter (\<lambda>w. snd w = top ws) ws"

lemma winners_ne: "ws \<noteq> [] \<Longrightarrow> winners ws \<noteq> []"
proof -
  assume "ws \<noteq> []"
  then have "top ws \<in> snd ` set ws" unfolding top_def by (intro Max_in) auto
  then show "winners ws \<noteq> []" by (auto simp: winners_def filter_empty_conv intro: rev_bexI)
qed

lemma top_snoc: "ws \<noteq> [] \<Longrightarrow> top (ws @ [w]) = max (top ws) (snd w)"
  by (simp add: top_def max.commute)

lemma winners_snoc:
  assumes "ws \<noteq> []"
  shows "winners (ws @ [w]) =
    (if top ws < snd w then [w] else if snd w < top ws then winners ws else winners ws @ [w])"
proof -
  have le: "snd v \<le> top ws" if "v \<in> set ws" for v using that by (simp add: top_def)
  have "filter (\<lambda>v. snd v = snd w) ws = []" if "top ws < snd w" using le that by (force simp: filter_empty_conv)
  then show ?thesis using assms by (auto simp: winners_def top_snoc max_def)
qed

lemma pick_in: "ws \<noteq> [] \<Longrightarrow> pick ws \<in> set ws"
proof (induction ws rule: rev_induct)
  case (snoc w ws)
  then show ?case using pick_single [of w] pick_snoc [of ws w] by (cases "ws = []") auto
qed simp

lemma pick_winners_by: "ws \<noteq> [] \<Longrightarrow> snd (pick (winners ws)) = top ws"
  using pick_in [OF winners_ne] by (fastforce simp: winners_def)

lemma write_step:
  assumes "ws \<noteq> []"
  shows "snd (ranked_write tie (Some (pick (winners ws))) (fst w) (snd w)) = Some (pick (winners (ws @ [w])))"
proof -
  obtain v b where p: "pick (winners ws) = (v, b)" "b = top ws"
    using pick_winners_by [OF assms] by (cases "pick (winners ws)") auto
  show ?thesis
    using p not_shadowed winners_snoc [OF assms, of w] pick_single [of w] pick_snoc [OF winners_ne [OF assms], of w]
    by (cases tie) (auto simp: ranked_write_def ranked_rank_def less_config_origin_def Let_def)
qed

lemma write_all_append: "write_all_ranked tie (ws @ ws') slot = write_all_ranked tie ws' (write_all_ranked tie ws slot)"
  by (induction ws arbitrary: slot) auto

lemma slot_holds_winner: "ws \<noteq> [] \<Longrightarrow> write_all_ranked tie ws None = Some (pick (winners ws))"
proof (induction ws rule: rev_induct)
  case (snoc w ws)
  obtain v b where w: "w = (v, b)" by (cases w)
  show ?case
  proof (cases "ws = []")
    case True
    then show ?thesis using pick_single [of w]
      by (simp add: w ranked_write_def ranked_rank_def Let_def winners_def top_def)
  next
    case False
    with snoc.IH write_step [OF False, of w] show ?thesis by (simp add: write_all_append w)
  qed
qed simp

end

interpretation first_wins: tie_policy FirstWins hd
  by unfold_locales (auto simp: FirstWins_def)

interpretation later_wins: tie_policy LaterWins last
  by unfold_locales (auto simp: LaterWins_def)

text \<open>Whatever order the writes to a slot arrive in, it ends up with a write of the highest origin that
  wrote: the first of them under the first-wins policy, the last under the later-wins one. A write that
  does not apply changes nothing and displaces nothing; one that applies hands back what was held.\<close>

theorem slot_keeps_strongest:
  assumes "ws \<noteq> []"
  defines "best \<equiv> filter (\<lambda>w. snd w = Max (snd ` set ws)) ws"
  shows "write_all_ranked FirstWins ws None = Some (hd best) \<and>
    write_all_ranked LaterWins ws None = Some (last best) \<and>
    (let (w, slot') = ranked_write tie slot v by in
     (if wr_outcome w = Applied then slot' = Some (v, by) \<and> wr_displaced w = ranked_get slot
      else slot' = slot \<and> wr_displaced w = None))"
  using first_wins.slot_holds_winner [OF assms(1)] later_wins.slot_holds_winner [OF assms(1)]
  by (auto simp: best_def first_wins.winners_def first_wins.top_def later_wins.winners_def later_wins.top_def
      ranked_write_def ranked_get_def Let_def split: write_outcome.splits)

theorem slot_keeps_strongest_witness:
  "write_all_ranked LaterWins [(1 :: nat, User), (2, Plugin), (3, User), (4, Bundled)] None = Some (3, User)"
proof -
  have m: "Max (snd ` set [(1 :: nat, User), (2, Plugin), (3, User), (4, Bundled)]) = User"
    by (rule Max_eqI) (auto simp: less_eq_config_origin_def level_def)
  show ?thesis
    using slot_keeps_strongest [of "[(1 :: nat, User), (2, Plugin), (3, User), (4, Bundled)]", THEN conjunct2, THEN conjunct1]
    unfolding m by simp
qed

end
