(* ===== verification/IntervalSweep.thy ===== *)
theory IntervalSweep imports Prelude begin

text \<open>
  Flattening overlapping spans, \<open>hume-engine\<close>'s \<open>interval_sweep.rs\<close>: a sweep over the starts and ends of
  the spans that keeps the active ones on a stack. Positions and ranks are any linear orders. The sort
  of the events is unstable, so it is a parameter: any permutation in the order of the comparison.
  A position of a slice that is partitioned is found by counting the prefix.
\<close>

section \<open>The sweep\<close>

datatype tie_break = FirstPushed | LastPushed

type_synonym ('p, 'r, 's) span = "'p \<times> 'p \<times> 'r \<times> 's"
type_synonym ('p, 'r, 's) event = "'p \<times> bool \<times> nat \<times> 'r \<times> 's"
type_synonym ('r, 's) entry = "'r \<times> nat \<times> 's"
type_synonym ('p, 's) segment = "'p \<times> 'p \<times> 's"

definition seq_of :: "tie_break \<Rightarrow> nat \<Rightarrow> nat" where
  "seq_of tie index = (case tie of
      LastPushed \<Rightarrow> index mod 2 ^ 32
    | FirstPushed \<Rightarrow> (2 ^ 32 - 1) - index mod 2 ^ 32)"

fun push_events :: "tie_break \<Rightarrow> nat \<Rightarrow> ('p, 'r, 's) span list \<Rightarrow> ('p, 'r, 's) event list" where
  "push_events tie index [] = []"
| "push_events tie index ((start, stop, rank, scope) # raw) =
     (start, False, seq_of tie index, rank, scope) # (stop, True, seq_of tie index, rank, scope) #
     push_events tie (index + 1) raw"

text \<open>The comparison of the sort: by position, an end before a start.\<close>

definition event_le :: "('p :: linorder, 'r, 's) event \<Rightarrow> ('p, 'r, 's) event \<Rightarrow> bool" where
  "event_le a b = (fst a < fst b \<or> fst a = fst b \<and> (fst (snd b) \<longrightarrow> fst (snd a)))"

definition entry_less :: "'r :: linorder \<Rightarrow> nat \<Rightarrow> 'r \<Rightarrow> nat \<Rightarrow> bool" where
  "entry_less r s rank seq = (r < rank \<or> r = rank \<and> s < seq)"

definition stack_insert :: "'r :: linorder \<Rightarrow> nat \<Rightarrow> 's \<Rightarrow> ('r, 's) entry list \<Rightarrow> ('r, 's) entry list" where
  "stack_insert rank seq scope stack =
     (let at = length (takeWhile (\<lambda>(r, s, _). entry_less r s rank seq) stack) in
      take at stack @ (rank, seq, scope) # drop at stack)"

fun stack_remove :: "'r \<Rightarrow> nat \<Rightarrow> ('r, 's) entry list \<Rightarrow> ('r, 's) entry list option" where
  "stack_remove rank seq [] = None"
| "stack_remove rank seq ((r, s, scope) # stack) =
     (if r = rank \<and> s = seq then Some stack else map_option ((#) (r, s, scope)) (stack_remove rank seq stack))"

fun sweep :: "('p :: linorder, 'r :: linorder, 's) event list \<Rightarrow> 'p \<Rightarrow> ('r, 's) entry list \<Rightarrow> ('p, 's) segment list \<Rightarrow>
    ('p, 's) segment list option" where
  "sweep [] pos stack out = Some out"
| "sweep ((event_pos, is_end, seq, rank, scope) # events) pos stack out = do {
     let out = (if stack \<noteq> [] \<and> pos < event_pos then out @ [(pos, event_pos, snd (snd (last stack)))] else out);
     stack \<leftarrow> (if is_end then stack_remove rank seq stack else Some (stack_insert rank seq scope stack));
     sweep events event_pos stack out }"

fun dedup :: "('p, 's) segment list \<Rightarrow> ('p, 's) segment list" where
  "dedup ((a, b, s) # (a', b', s') # out) =
     (if s' = s \<and> b = a' then dedup ((a, b', s) # out) else (a, b, s) # dedup ((a', b', s') # out))"
| "dedup out = out"

definition flatten_overlapping_spans :: "(('p :: linorder, 'r :: linorder, 's) event list \<Rightarrow> ('p, 'r, 's) event list) \<Rightarrow>
    'p \<Rightarrow> ('p, 'r, 's) span list \<Rightarrow> ('p, 's) segment list \<Rightarrow> tie_break \<Rightarrow> ('p, 's) segment list option" where
  "flatten_overlapping_spans sorter origin raw out tie =
     (if raw = [] then Some out
      else map_option dedup (sweep (sorter (push_events tie 0 raw)) origin [] out))"

section \<open>What it should give\<close>

definition sorts :: "(('p :: linorder, 'r, 's) event list \<Rightarrow> ('p, 'r, 's) event list) \<Rightarrow> bool" where
  "sorts sorter \<longleftrightarrow> (\<forall>es. distinct es \<longrightarrow> distinct (sorter es) \<and> set (sorter es) = set es \<and> sorted_wrt event_le (sorter es))"

definition span_covers :: "('p :: linorder, 'r, 's) span \<Rightarrow> 'p \<Rightarrow> bool" where
  "span_covers sp q = (fst sp \<le> q \<and> q < fst (snd sp))"

definition span_rank :: "('p, 'r, 's) span \<Rightarrow> 'r" where
  "span_rank sp = fst (snd (snd sp))"

definition span_scope :: "('p, 'r, 's) span \<Rightarrow> 's" where
  "span_scope sp = snd (snd (snd sp))"

text \<open>The span that wins a position: of those that cover it, the one of the highest rank, and among these
  the one pushed first or last.\<close>

definition beats :: "tie_break \<Rightarrow> ('p, 'r :: linorder, 's) span list \<Rightarrow> nat \<Rightarrow> nat \<Rightarrow> bool" where
  "beats tie raw i j \<longleftrightarrow> span_rank (raw ! j) < span_rank (raw ! i) \<or>
     span_rank (raw ! j) = span_rank (raw ! i) \<and> (case tie of LastPushed \<Rightarrow> j < i | FirstPushed \<Rightarrow> i < j)"

definition wins :: "tie_break \<Rightarrow> ('p :: linorder, 'r :: linorder, 's) span list \<Rightarrow> 'p \<Rightarrow> nat \<Rightarrow> bool" where
  "wins tie raw q i \<longleftrightarrow> i < length raw \<and> span_covers (raw ! i) q \<and>
     (\<forall>j < length raw. span_covers (raw ! j) q \<longrightarrow> j = i \<or> beats tie raw i j)"

definition shows_at :: "('p :: linorder, 's) segment list \<Rightarrow> 'p \<Rightarrow> 's \<Rightarrow> bool" where
  "shows_at out q s \<longleftrightarrow> (\<exists>a b. (a, b, s) \<in> set out \<and> a \<le> q \<and> q < b)"

definition segments_apart :: "('p :: linorder, 's) segment list \<Rightarrow> bool" where
  "segments_apart out \<longleftrightarrow> sorted_wrt (\<lambda>x y. fst (snd x) \<le> fst y) out \<and> (\<forall>(a, b, s) \<in> set out. a < b)"

fun merged :: "('p, 's) segment list \<Rightarrow> bool" where
  "merged ((a, b, s) # (a', b', s') # out) = (\<not> (s' = s \<and> b = a') \<and> merged ((a', b', s') # out))"
| "merged out = True"

section \<open>The events\<close>

definition start_event :: "tie_break \<Rightarrow> ('p, 'r, 's) span list \<Rightarrow> nat \<Rightarrow> ('p, 'r, 's) event" where
  "start_event tie raw i = (fst (raw ! i), False, seq_of tie i, span_rank (raw ! i), span_scope (raw ! i))"

definition end_event :: "tie_break \<Rightarrow> ('p, 'r, 's) span list \<Rightarrow> nat \<Rightarrow> ('p, 'r, 's) event" where
  "end_event tie raw i = (fst (snd (raw ! i)), True, seq_of tie i, span_rank (raw ! i), span_scope (raw ! i))"

definition entry_of :: "tie_break \<Rightarrow> ('p, 'r, 's) span list \<Rightarrow> nat \<Rightarrow> ('r, 's) entry" where
  "entry_of tie raw i = (span_rank (raw ! i), seq_of tie i, span_scope (raw ! i))"

lemmas event_defs = start_event_def end_event_def entry_of_def

lemma seq_of_inject: "i < 2 ^ 32 \<Longrightarrow> j < 2 ^ 32 \<Longrightarrow> seq_of tie i = seq_of tie j \<Longrightarrow> i = j"
  by (cases tie) (auto simp: seq_of_def)

lemma seq_of_less:
  "i < 2 ^ 32 \<Longrightarrow> j < 2 ^ 32 \<Longrightarrow> (seq_of tie j < seq_of tie i) = (case tie of LastPushed \<Rightarrow> j < i | FirstPushed \<Rightarrow> i < j)"
  by (cases tie) (auto simp: seq_of_def)

lemma push_events_eq:
  "push_events tie k raw =
     concat (map (\<lambda>i. [(fst (raw ! i), False, seq_of tie (k + i), span_rank (raw ! i), span_scope (raw ! i)),
                      (fst (snd (raw ! i)), True, seq_of tie (k + i), span_rank (raw ! i), span_scope (raw ! i))])
              [0..<length raw])"
proof (induction tie k raw rule: push_events.induct)
  case (2 tie k a b r s raw)
  have "[0..<length ((a, b, r, s) # raw)] = 0 # map Suc [0..<length raw]"
    by (simp add: upt_conv_Cons map_Suc_upt del: upt_Suc)
  then show ?case using 2 by (simp add: span_rank_def span_scope_def comp_def del: upt_Suc)
qed simp

lemma set_push_events:
  "set (push_events tie 0 raw) = start_event tie raw ` {..<length raw} \<union> end_event tie raw ` {..<length raw}"
  unfolding push_events_eq by (auto simp: event_defs)

lemma distinct_push_events:
  assumes "k + length raw \<le> 2 ^ 32"
  shows "distinct (push_events tie k raw)"
  using assms
proof (induction tie k raw rule: push_events.induct)
  case (2 tie k a b r s raw)
  have "(p, e, seq_of tie k, r', s') \<notin> set (push_events tie (k + 1) raw)" for p e r' s'
  proof
    assume "(p, e, seq_of tie k, r', s') \<in> set (push_events tie (k + 1) raw)"
    then obtain i where i: "i < length raw" "seq_of tie k = seq_of tie (k + 1 + i)"
      unfolding push_events_eq by auto
    have "k + 1 + i < 2 ^ 32" using i(1) 2(2) by simp
    with seq_of_inject [of k "k + 1 + i" tie] i show False by simp
  qed
  with 2 show ?case by auto
qed simp

section \<open>The sweep keeps the active spans in order\<close>

definition stack_sorted :: "('r :: linorder, 's) entry list \<Rightarrow> bool" where
  "stack_sorted stack = sorted_wrt (\<lambda>x y. entry_less (fst x) (fst (snd x)) (fst y) (fst (snd y))) stack"

lemma entry_less_trans: "entry_less a b c d \<Longrightarrow> entry_less c d e f \<Longrightarrow> entry_less a b e f"
  by (auto simp: entry_less_def)

lemma entry_less_total: "entry_less a b c d \<or> entry_less c d a b \<or> a = c \<and> b = d"
  by (auto simp: entry_less_def)

lemma stack_insert_set: "set (stack_insert rank seq scope stack) = insert (rank, seq, scope) (set stack)"
  unfolding stack_insert_def Let_def
  by (metis (no_types) Un_insert_right append_take_drop_id list.simps(15) set_append)

lemma stack_insert_sorted:
  assumes "stack_sorted stack" "\<forall>x \<in> set stack. fst (snd x) \<noteq> seq"
  shows "stack_sorted (stack_insert rank seq scope stack)"
proof -
  let ?P = "\<lambda>(r, s, _). entry_less r s rank seq"
  have t: "take (length (takeWhile ?P stack)) stack = takeWhile ?P stack"
    "drop (length (takeWhile ?P stack)) stack = dropWhile ?P stack"
    by (simp_all add: takeWhile_eq_take [symmetric] dropWhile_eq_drop [symmetric])
  have s: "stack_sorted (takeWhile ?P stack @ dropWhile ?P stack)" using assms(1) by simp
  have "entry_less rank seq (fst x) (fst (snd x))" if x: "x \<in> set (dropWhile ?P stack)" for x
  proof -
    obtain h rest where d: "dropWhile ?P stack = h # rest" using x by (cases "dropWhile ?P stack") auto
    then have nh: "\<not> ?P h" by (metis hd_dropWhile list.discI list.sel(1))
    have "h \<in> set stack" using d by (metis list.set_intros(1) set_dropWhileD)
    with nh assms(2) have hl: "entry_less rank seq (fst h) (fst (snd h))"
      using entry_less_total [of "fst h" "fst (snd h)" rank seq] by (auto split: prod.splits)
    show ?thesis
    proof (cases "x = h")
      case False
      with x d have "x \<in> set rest" by simp
      with s d have "entry_less (fst h) (fst (snd h)) (fst x) (fst (snd x))"
        by (simp add: stack_sorted_def sorted_wrt_append)
      with hl show ?thesis by (rule entry_less_trans)
    qed (use hl in simp)
  qed
  moreover have "entry_less (fst x) (fst (snd x)) rank seq" if "x \<in> set (takeWhile ?P stack)" for x
    using set_takeWhileD [OF that] by (auto split: prod.splits)
  ultimately show ?thesis
    using s [unfolded stack_sorted_def sorted_wrt_append]
    unfolding stack_insert_def Let_def t by (simp add: stack_sorted_def sorted_wrt_append)
qed

lemma stack_remove_some:
  assumes "x \<in> set stack" "\<forall>y \<in> set stack. fst (snd y) = fst (snd x) \<longrightarrow> y = x" "distinct stack" "stack_sorted stack"
  shows "\<exists>st. stack_remove (fst x) (fst (snd x)) stack = Some st \<and> set st = set stack - {x} \<and> stack_sorted st \<and> distinct st"
  using assms
proof (induction stack)
  case (Cons y stack)
  obtain r s scope where y: "y = (r, s, scope)" by (cases y)
  show ?case
  proof (cases "y = x")
    case True
    with Cons.prems y show ?thesis by (auto simp: stack_sorted_def)
  next
    case False
    then have "\<not> (r = fst x \<and> s = fst (snd x))" using Cons.prems(2) y by force
    moreover from False Cons obtain st where
      "stack_remove (fst x) (fst (snd x)) stack = Some st" "set st = set stack - {x}" "stack_sorted st" "distinct st"
      by (auto simp: stack_sorted_def)
    ultimately show ?thesis using Cons.prems(3,4) False y by (auto simp: stack_sorted_def)
  qed
qed simp

lemma stack_sorted_distinct: "stack_sorted stack \<Longrightarrow> distinct stack"
  unfolding stack_sorted_def by (induction stack) (auto simp: entry_less_def)

lemma last_is_max:
  assumes "stack_sorted stack" "x \<in> set stack"
  shows "x = last stack \<or> entry_less (fst x) (fst (snd x)) (fst (last stack)) (fst (snd (last stack)))"
  using assms
proof (induction stack rule: rev_induct)
  case (snoc y stack)
  then show ?case by (auto simp: stack_sorted_def sorted_wrt_append)
qed simp


text \<open>Between events the stack holds the active spans, whose start is behind and whose end is ahead.\<close>

definition active :: "tie_break \<Rightarrow> ('p, 'r, 's) span list \<Rightarrow> ('p, 'r, 's) event set \<Rightarrow> nat set" where
  "active tie raw E = {i. i < length raw \<and> start_event tie raw i \<in> E \<and> end_event tie raw i \<notin> E}"

definition swept :: "tie_break \<Rightarrow> ('p :: linorder, 'r :: linorder, 's) span list \<Rightarrow> ('p, 'r, 's) event list \<Rightarrow> 'p \<Rightarrow>
    ('r, 's) entry list \<Rightarrow> ('p, 's) segment list \<Rightarrow> bool" where
  "swept tie raw pre pos stack out \<longleftrightarrow>
     stack_sorted stack \<and> set stack = entry_of tie raw ` active tie raw (set pre) \<and>
     (if pre = [] then out = [] else pos = fst (last pre)) \<and> segments_apart out \<and>
     (\<forall>(a, b, s) \<in> set out. b \<le> pos) \<and>
     (pre \<noteq> [] \<longrightarrow> (\<forall>q < pos. \<forall>s. shows_at out q s \<longleftrightarrow> (\<exists>i. wins tie raw q i \<and> span_scope (raw ! i) = s)))"

definition spans_ok :: "('p :: linorder, 'r, 's) span list \<Rightarrow> bool" where
  "spans_ok raw \<longleftrightarrow> length raw \<le> 2 ^ 32 \<and> (\<forall>sp \<in> set raw. fst sp < fst (snd sp))"

lemma spans_okD: "spans_ok raw \<Longrightarrow> i < length raw \<Longrightarrow> fst (raw ! i) < fst (snd (raw ! i)) \<and> i < 2 ^ 32"
  by (auto simp: spans_ok_def)

lemma entry_of_inject:
  "spans_ok raw \<Longrightarrow> i < length raw \<Longrightarrow> j < length raw \<Longrightarrow> seq_of tie i = seq_of tie j \<Longrightarrow> i = j"
  using spans_okD seq_of_inject by blast

lemma event_inject:
  assumes "spans_ok raw" "i < length raw" "j < length raw"
  shows "(start_event tie raw i = start_event tie raw j) = (i = j)" "(end_event tie raw i = end_event tie raw j) = (i = j)"
    "(entry_of tie raw i = entry_of tie raw j) = (i = j)"
  using entry_of_inject [OF assms, of tie] by (auto simp: event_defs)

lemma start_not_end [simp]: "start_event tie raw i \<noteq> end_event tie raw j" "end_event tie raw j \<noteq> start_event tie raw i"
  by (simp_all add: event_defs)

text \<open>A sorted list of all events, split at one of them.\<close>

definition events_split :: "tie_break \<Rightarrow> ('p :: linorder, 'r :: linorder, 's) span list \<Rightarrow> ('p, 'r, 's) event list \<Rightarrow>
    ('p, 'r, 's) event list \<Rightarrow> bool" where
  "events_split tie raw pre rest \<longleftrightarrow> spans_ok raw \<and> distinct (pre @ rest) \<and> sorted_wrt event_le (pre @ rest) \<and>
     set (pre @ rest) = start_event tie raw ` {..<length raw} \<union> end_event tie raw ` {..<length raw}"

lemma events_split_le:
  assumes "events_split tie raw pre rest" "x \<in> set pre" "y \<in> set rest"
  shows "event_le x y"
  using assms by (auto simp: events_split_def sorted_wrt_append)

lemma events_last: "sorted_wrt event_le es \<Longrightarrow> x \<in> set es \<Longrightarrow> x = last es \<or> event_le x (last es)"
  by (induction es rule: rev_induct) (auto simp: sorted_wrt_append)

lemma covered_active:
  assumes sp: "events_split tie raw pre (e # rest)" and q: "\<forall>x \<in> set pre. fst x \<le> q" "q < fst e" and i: "i < length raw"
  shows "span_covers (raw ! i) q = (i \<in> active tie raw (set pre))"
proof -
  have mem: "start_event tie raw i \<in> set pre \<union> set (e # rest)" "end_event tie raw i \<in> set pre \<union> set (e # rest)"
    using sp i by (auto simp: events_split_def)
  have later: "fst e \<le> fst x" if "x \<in> set (e # rest)" for x
    using sp that by (auto simp: events_split_def sorted_wrt_append event_le_def)
  have "fst (raw ! i) \<le> q \<longleftrightarrow> start_event tie raw i \<in> set pre"
    using mem(1) later q by (fastforce simp: start_event_def)
  moreover have "q < fst (snd (raw ! i)) \<longleftrightarrow> end_event tie raw i \<notin> set pre"
    using mem(2) later q by (fastforce simp: end_event_def)
  ultimately show ?thesis using i by (auto simp: span_covers_def active_def)
qed

lemma beats_eq:
  assumes "spans_ok raw" "i < length raw" "j < length raw"
  shows "beats tie raw i j = entry_less (span_rank (raw ! j)) (seq_of tie j) (span_rank (raw ! i)) (seq_of tie i)"
proof -
  have "i < 2 ^ 32" "j < 2 ^ 32" using spans_okD [OF assms(1)] assms(2,3) by blast+
  from seq_of_less [OF this, of tie] show ?thesis unfolding beats_def entry_less_def by blast
qed

lemma wins_top:
  assumes ok: "spans_ok raw" and st: "stack_sorted stack" "set stack = entry_of tie raw ` A" "A \<subseteq> {..<length raw}"
    and cov: "\<And>i. i < length raw \<Longrightarrow> span_covers (raw ! i) q = (i \<in> A)"
  shows "(\<exists>i. wins tie raw q i \<and> span_scope (raw ! i) = s) \<longleftrightarrow> stack \<noteq> [] \<and> s = snd (snd (last stack))"
proof
  assume "\<exists>i. wins tie raw q i \<and> span_scope (raw ! i) = s"
  then obtain i where i: "wins tie raw q i" "span_scope (raw ! i) = s" by blast
  then have "i \<in> A" "i < length raw" using cov by (auto simp: wins_def)
  then have in_st: "entry_of tie raw i \<in> set stack" using st(2) by blast
  then have "stack \<noteq> []" by auto
  then obtain j where j: "j \<in> A" "last stack = entry_of tie raw j" using st(2) by (metis imageE last_in_set)
  then have jl: "j < length raw" using st(3) by blast
  then have "j = i \<or> beats tie raw i j" using i(1) j(1) cov by (auto simp: wins_def)
  moreover have "\<not> beats tie raw i j"
  proof
    assume b: "beats tie raw i j"
    then have "entry_less (span_rank (raw ! j)) (seq_of tie j) (span_rank (raw ! i)) (seq_of tie i)"
      using beats_eq [OF ok \<open>i < length raw\<close> jl] by blast
    moreover from last_is_max [OF st(1) in_st] have "entry_of tie raw i = entry_of tie raw j \<or>
        entry_less (span_rank (raw ! i)) (seq_of tie i) (span_rank (raw ! j)) (seq_of tie j)"
      unfolding j(2) by (simp add: entry_of_def)
    ultimately show False by (auto simp: entry_of_def entry_less_def)
  qed
  ultimately show "stack \<noteq> [] \<and> s = snd (snd (last stack))" using \<open>stack \<noteq> []\<close> j(2) i(2) by (auto simp: entry_of_def)
next
  assume a: "stack \<noteq> [] \<and> s = snd (snd (last stack))"
  then obtain i where i: "i \<in> A" "last stack = entry_of tie raw i" using st(2) by (metis imageE last_in_set)
  then have il: "i < length raw" using st(3) by blast
  have "j = i \<or> beats tie raw i j" if j: "j < length raw" "span_covers (raw ! j) q" for j
  proof -
    have "entry_of tie raw j \<in> set stack" using j cov st(2) by blast
    from last_is_max [OF st(1) this] i(2) event_inject(3) [OF ok j(1) il, of tie]
    show ?thesis unfolding beats_eq [OF ok il j(1)] by (auto simp: entry_of_def)
  qed
  then have "wins tie raw q i" using il i(1) cov by (auto simp: wins_def)
  with a i(2) show "\<exists>i. wins tie raw q i \<and> span_scope (raw ! i) = s" by (auto simp: entry_of_def)
qed


text \<open>One event of the sweep.\<close>

lemma shows_at_snoc: "shows_at (out @ [(a, b, s')]) q s = (shows_at out q s \<or> s = s' \<and> a \<le> q \<and> q < b)"
  by (auto simp: shows_at_def)

lemma swept_gap:
  assumes sp: "events_split tie raw pre (e # rest)" and sw: "swept tie raw pre pos stack out"
  defines "out' \<equiv> (if stack \<noteq> [] \<and> pos < fst e then out @ [(pos, fst e, snd (snd (last stack)))] else out)"
  shows "segments_apart out'" "\<forall>(a, b, s) \<in> set out'. b \<le> fst e"
    "\<forall>q < fst e. \<forall>s. shows_at out' q s \<longleftrightarrow> (\<exists>i. wins tie raw q i \<and> span_scope (raw ! i) = s)"
proof -
  have ok: "spans_ok raw" using sp by (simp add: events_split_def)
  have st: "stack_sorted stack" "set stack = entry_of tie raw ` active tie raw (set pre)" "segments_apart out"
    "\<forall>(a, b, s) \<in> set out. b \<le> pos"
    using sw by (auto simp: swept_def)
  have sub: "active tie raw (set pre) \<subseteq> {..<length raw}" by (auto simp: active_def)
  have ne: "stack \<noteq> [] \<Longrightarrow> pre \<noteq> []" using st(2) by (auto simp: active_def)
  have le: "pos \<le> fst e" if "pre \<noteq> []"
    using events_split_le [OF sp, of "last pre" e] sw that by (auto simp: swept_def event_le_def)
  have before: "fst x \<le> pos" if "x \<in> set pre" for x
  proof -
    have "pre \<noteq> []" using that by auto
    have "sorted_wrt event_le pre" using sp by (simp add: events_split_def sorted_wrt_append)
    then have "x = last pre \<or> event_le x (last pre)" using that by (rule events_last)
    then show ?thesis using sw \<open>pre \<noteq> []\<close> by (auto simp: swept_def event_le_def)
  qed
  show apart: "segments_apart out'"
    using st(3,4) by (auto simp: out'_def segments_apart_def sorted_wrt_append)
  show ends: "\<forall>(a, b, s) \<in> set out'. b \<le> fst e"
    using st(4) le sw by (auto simp: out'_def swept_def split: if_splits)
  show "\<forall>q < fst e. \<forall>s. shows_at out' q s \<longleftrightarrow> (\<exists>i. wins tie raw q i \<and> span_scope (raw ! i) = s)"
  proof (intro allI impI)
    fix q s assume q: "q < fst e"
    show "shows_at out' q s \<longleftrightarrow> (\<exists>i. wins tie raw q i \<and> span_scope (raw ! i) = s)"
    proof (cases "pre \<noteq> [] \<and> q < pos")
      case True
      then have "shows_at out' q s = shows_at out q s" by (auto simp: out'_def shows_at_def)
      with True sw show ?thesis by (auto simp: swept_def)
    next
      case False
      then have pq: "\<forall>x \<in> set pre. fst x \<le> q" using before by (cases "pre = []") fastforce+
      have old: "\<not> shows_at out q s" using st(4) False sw by (auto simp: shows_at_def swept_def)
      note cov = covered_active [OF sp pq q]
      have "shows_at out' q s \<longleftrightarrow> stack \<noteq> [] \<and> s = snd (snd (last stack))"
        using old q False ne le by (auto simp: out'_def shows_at_snoc)
      also have "\<dots> \<longleftrightarrow> (\<exists>i. wins tie raw q i \<and> span_scope (raw ! i) = s)"
        by (rule wins_top [OF ok st(1,2) sub cov, symmetric])
      finally show ?thesis .
    qed
  qed
qed

lemma active_start:
  assumes sp: "events_split tie raw pre (start_event tie raw i # rest)" and i: "i < length raw"
  shows "active tie raw (set (pre @ [start_event tie raw i])) = insert i (active tie raw (set pre))"
    "i \<notin> active tie raw (set pre)"
proof -
  have ok: "spans_ok raw" using sp by (simp add: events_split_def)
  have "start_event tie raw i \<notin> set pre" using sp by (auto simp: events_split_def)
  moreover have "end_event tie raw i \<notin> set pre"
    using events_split_le [OF sp, of "end_event tie raw i" "start_event tie raw i"] spans_okD [OF ok i]
    by (auto simp: event_le_def event_defs)
  ultimately show "active tie raw (set (pre @ [start_event tie raw i])) = insert i (active tie raw (set pre))"
    "i \<notin> active tie raw (set pre)"
    using event_inject(1) [OF ok _ i, of _ tie] i by (auto simp: active_def)
qed

lemma active_end:
  assumes sp: "events_split tie raw pre (end_event tie raw i # rest)" and i: "i < length raw"
  shows "active tie raw (set (pre @ [end_event tie raw i])) = active tie raw (set pre) - {i}"
    "i \<in> active tie raw (set pre)"
proof -
  have ok: "spans_ok raw" using sp by (simp add: events_split_def)
  have "end_event tie raw i \<notin> set pre" using sp by (auto simp: events_split_def)
  moreover have "start_event tie raw i \<notin> set (end_event tie raw i # rest)"
    using sp spans_okD [OF ok i] by (auto simp: events_split_def sorted_wrt_append event_le_def event_defs)
  moreover have "start_event tie raw i \<in> set (pre @ end_event tie raw i # rest)"
    using sp i unfolding events_split_def by blast
  ultimately have "start_event tie raw i \<in> set pre" by auto
  with \<open>end_event tie raw i \<notin> set pre\<close> show "active tie raw (set (pre @ [end_event tie raw i])) = active tie raw (set pre) - {i}"
    "i \<in> active tie raw (set pre)"
    using event_inject(2) [OF ok _ i, of _ tie] i by (auto simp: active_def)
qed


lemma sweep_swept:
  assumes "events_split tie raw pre rest" "swept tie raw pre pos stack out"
  shows "\<exists>pos' out'. sweep rest pos stack out = Some out' \<and> swept tie raw (pre @ rest) pos' [] out'"
  using assms
proof (induction rest arbitrary: pre pos stack out)
  case Nil
  have "active tie raw (set pre) = {}" using Nil.prems(1) by (auto simp: events_split_def active_def)
  then have "stack = []" using Nil.prems(2) by (auto simp: swept_def)
  with Nil.prems(2) show ?case by auto
next
  case (Cons e rest)
  have ok: "spans_ok raw" using Cons.prems(1) by (simp add: events_split_def)
  have st: "stack_sorted stack" "set stack = entry_of tie raw ` active tie raw (set pre)"
    using Cons.prems(2) by (auto simp: swept_def)
  have sub: "i < length raw" if "i \<in> active tie raw (set pre)" for i using that by (simp add: active_def)
  let ?out = "if stack \<noteq> [] \<and> pos < fst e then out @ [(pos, fst e, snd (snd (last stack)))] else out"
  note gap = swept_gap [OF Cons.prems]
  have seq_other: "fst (snd y) \<noteq> seq_of tie i"
    if "y \<in> set stack" "i < length raw" "y \<noteq> entry_of tie raw i" for y i
  proof
    assume eq: "fst (snd y) = seq_of tie i"
    from that(1) st(2) obtain j where "j \<in> active tie raw (set pre)" "y = entry_of tie raw j" by blast
    with eq that(2,3) entry_of_inject [OF ok, of j i tie] sub show False by (auto simp: entry_of_def)
  qed
  have "e \<in> start_event tie raw ` {..<length raw} \<union> end_event tie raw ` {..<length raw}"
    using Cons.prems(1) by (auto simp: events_split_def)
  then obtain i stack' where i: "i < length raw" "e = start_event tie raw i \<or> e = end_event tie raw i"
    and s': "(if fst (snd e) then stack_remove (span_rank (raw ! i)) (seq_of tie i) stack
              else Some (stack_insert (span_rank (raw ! i)) (seq_of tie i) (span_scope (raw ! i)) stack)) = Some stack'"
      "stack_sorted stack'" "set stack' = entry_of tie raw ` active tie raw (set (pre @ [e]))"
  proof (elim UnE imageE)
    fix i assume e: "e = start_event tie raw i" "i \<in> {..<length raw}"
    then have i: "i < length raw" by simp
    note a = active_start [OF Cons.prems(1) [unfolded e(1)] i]
    have "entry_of tie raw i \<notin> set stack"
    proof
      assume "entry_of tie raw i \<in> set stack"
      then obtain j where "j \<in> active tie raw (set pre)" "entry_of tie raw i = entry_of tie raw j" using st(2) by blast
      with a(2) event_inject(3) [OF ok i sub, of j tie] show False by auto
    qed
    then have "\<forall>x \<in> set stack. fst (snd x) \<noteq> seq_of tie i" using seq_other i by blast
    then have "stack_sorted (stack_insert (span_rank (raw ! i)) (seq_of tie i) (span_scope (raw ! i)) stack)"
      by (rule stack_insert_sorted [OF st(1)])
    moreover have "set (stack_insert (span_rank (raw ! i)) (seq_of tie i) (span_scope (raw ! i)) stack) =
        entry_of tie raw ` active tie raw (set (pre @ [e]))"
      unfolding stack_insert_set e(1) a(1) image_insert st(2) by (simp add: entry_of_def)
    ultimately show thesis using e i by (intro that [of i]) (auto simp: start_event_def)
  next
    fix i assume e: "e = end_event tie raw i" "i \<in> {..<length raw}"
    then have i: "i < length raw" by simp
    note a = active_end [OF Cons.prems(1) [unfolded e(1)] i]
    have "entry_of tie raw i \<in> set stack" using st(2) a(2) by blast
    moreover have "\<forall>y \<in> set stack. fst (snd y) = fst (snd (entry_of tie raw i)) \<longrightarrow> y = entry_of tie raw i"
      using seq_other i by (auto simp: entry_of_def)
    ultimately obtain stack' where r: "stack_remove (fst (entry_of tie raw i)) (fst (snd (entry_of tie raw i))) stack = Some stack'"
      "set stack' = set stack - {entry_of tie raw i}" "stack_sorted stack'"
      using stack_remove_some stack_sorted_distinct [OF st(1)] st(1) by blast
    have "set stack' = entry_of tie raw ` active tie raw (set (pre @ [e]))"
    proof -
      have "inj_on (entry_of tie raw) {..<length raw}" using event_inject(3) [OF ok] by (auto simp: inj_on_def)
      from inj_on_image_set_diff [OF this, of "active tie raw (set pre)" "{i}"] i sub
      have "entry_of tie raw ` active tie raw (set pre) - {entry_of tie raw i} =
          entry_of tie raw ` (active tie raw (set pre) - {i})" by auto
      then show ?thesis unfolding r(2) st(2) e(1) a(1) .
    qed
    then show thesis using r e i by (intro that [of i]) (auto simp: end_event_def entry_of_def)
  qed
  have split: "events_split tie raw (pre @ [e]) rest" using Cons.prems(1) by (simp add: events_split_def)
  have "swept tie raw (pre @ [e]) (fst e) stack' ?out"
    unfolding swept_def using s'(2,3) gap by simp
  from Cons.IH [OF split this] obtain pos' out' where
    "sweep rest (fst e) stack' ?out = Some out'" "swept tie raw (pre @ e # rest) pos' [] out'" by auto
  moreover have "e = (fst e, fst (snd e), seq_of tie i, span_rank (raw ! i), span_scope (raw ! i))"
    using i(2) by (auto simp: event_defs)
  then have "sweep (e # rest) pos stack out = sweep rest (fst e) stack' ?out"
    using s'(1) by (cases e) (simp split del: if_split cong: if_cong)
  ultimately show ?case by auto
qed

text \<open>Merging what touches.\<close>

lemma dedup_shows: "segments_apart out \<Longrightarrow> shows_at (dedup out) q s = shows_at out q s"
proof (induction out rule: dedup.induct)
  case (1 a b s1 a' b' s2 out)
  then have ab: "a < b" "b \<le> a'" "a' < b'" by (auto simp: segments_apart_def)
  show ?case
  proof (cases "s2 = s1 \<and> b = a'")
    case True
    have "segments_apart ((a, b', s1) # out)" using 1(3) True by (auto simp: segments_apart_def)
    with 1(1) True have "shows_at (dedup ((a, b, s1) # (a', b', s2) # out)) q s = shows_at ((a, b', s1) # out) q s" by simp
    moreover have "a \<le> q \<and> q < b' \<longleftrightarrow> a \<le> q \<and> q < b \<or> a' \<le> q \<and> q < b'" using True ab by auto
    ultimately show ?thesis using True by (auto simp: shows_at_def)
  next
    case False
    have "segments_apart ((a', b', s2) # out)" using 1(3) by (auto simp: segments_apart_def)
    with 1(2) False have "shows_at (dedup ((a', b', s2) # out)) q s = shows_at ((a', b', s2) # out) q s" by simp
    with False show ?thesis by (auto simp: shows_at_def)
  qed
qed auto

lemma dedup_apart: "segments_apart out \<Longrightarrow> segments_apart (dedup out) \<and> merged (dedup out) \<and>
    (\<forall>x xs. out = x # xs \<longrightarrow> (\<exists>b ys. dedup out = (fst x, b, snd (snd x)) # ys)) \<and>
    (\<forall>x \<in> set (dedup out). \<exists>y \<in> set out. fst x = fst y)"
proof (induction out rule: dedup.induct)
  case (1 a b s1 a' b' s2 out)
  then have ab: "a < b" "b \<le> a'" "a' < b'" by (auto simp: segments_apart_def)
  show ?case
  proof (cases "s2 = s1 \<and> b = a'")
    case True
    have "segments_apart ((a, b', s1) # out)" using 1(3) True by (auto simp: segments_apart_def)
    with 1(1) True show ?thesis by auto
  next
    case False
    have "segments_apart ((a', b', s2) # out)" using 1(3) by (auto simp: segments_apart_def)
    with 1(2) False obtain c ys where ih: "segments_apart (dedup ((a', b', s2) # out))" "merged (dedup ((a', b', s2) # out))"
      "dedup ((a', b', s2) # out) = (a', c, s2) # ys"
      "\<forall>x \<in> set (dedup ((a', b', s2) # out)). \<exists>y \<in> set ((a', b', s2) # out). fst x = fst y" by force
    have le: "b \<le> fst y" if "y \<in> set ((a', b', s2) # out)" for y
      using that 1(3) by (auto simp: segments_apart_def)
    have "\<forall>x \<in> set (dedup ((a', b', s2) # out)). b \<le> fst x" using ih(4) le by fastforce
    then show ?thesis using False ih ab by (auto simp: segments_apart_def)
  qed
qed (auto simp: segments_apart_def)

text \<open>C30: Flattening a list of non-empty spans never panics and gives segments in order, apart and none
  empty, of which no two that touch have one scope; a position is shown in a scope exactly when the
  span that wins it (of those covering it the highest rank, among these the first or last pushed) has
  that scope. The result does not depend on how the unstable sort orders equal events.\<close>

theorem flattening_shows_winners:
  assumes "sorts sorter" "length raw \<le> 2 ^ 32" "\<forall>(a, b, _) \<in> set raw. a < b"
  shows "\<exists>out. flatten_overlapping_spans sorter origin raw [] tie = Some out \<and> segments_apart out \<and> merged out \<and>
    (\<forall>q s. shows_at out q s \<longleftrightarrow> (\<exists>i. wins tie raw q i \<and> span_scope (raw ! i) = s))"
proof (cases "raw = []")
  case True
  then show ?thesis by (auto simp: flatten_overlapping_spans_def segments_apart_def shows_at_def wins_def)
next
  case False
  let ?E = "sorter (push_events tie 0 raw)"
  have ok: "spans_ok raw" using assms(2,3) by (auto simp: spans_ok_def)
  have "distinct (push_events tie 0 raw)" using distinct_push_events [of 0 raw tie] assms(2) by simp
  then have E: "distinct ?E" "set ?E = set (push_events tie 0 raw)" "sorted_wrt event_le ?E"
    using assms(1) by (auto simp: sorts_def)
  have sp: "events_split tie raw [] ?E" using ok E by (simp add: events_split_def set_push_events)
  have "swept tie raw [] origin [] []"
    by (simp add: swept_def stack_sorted_def active_def segments_apart_def)
  from sweep_swept [OF sp this] obtain pos out where
    out: "sweep ?E origin [] [] = Some out" "swept tie raw ?E pos [] out" by auto
  have "start_event tie raw 0 \<in> set ?E" using E(2) False by (simp add: set_push_events)
  then have ne: "?E \<noteq> []" by auto
  have past: "\<not> (\<exists>i. wins tie raw q i)" "\<not> shows_at out q s" if "\<not> q < pos" for q s
  proof -
    have "fst x \<le> q" if "x \<in> set ?E" for x
    proof -
      have "x = last ?E \<or> event_le x (last ?E)" by (rule events_last [OF E(3) that])
      then show ?thesis using out(2) ne \<open>\<not> q < pos\<close> by (auto simp: swept_def event_le_def)
    qed
    then have "fst (snd (raw ! i)) \<le> q" if "i < length raw" for i
    proof -
      have "end_event tie raw i \<in> set ?E" using E(2) that by (simp add: set_push_events)
      from \<open>\<And>x. x \<in> set ?E \<Longrightarrow> fst x \<le> q\<close> [OF this] show ?thesis by (simp add: end_event_def)
    qed
    then show "\<not> (\<exists>i. wins tie raw q i)" by (force simp: wins_def span_covers_def)
    show "\<not> shows_at out q s" using out(2) \<open>\<not> q < pos\<close> by (force simp: swept_def shows_at_def)
  qed
  have all: "shows_at out q s \<longleftrightarrow> (\<exists>i. wins tie raw q i \<and> span_scope (raw ! i) = s)" for q s
    using out(2) ne past(1) [of q] past(2) [of q s] by (cases "q < pos") (auto simp: swept_def)
  have ap: "segments_apart out" using out(2) by (simp add: swept_def)
  show ?thesis
    using out(1) False all dedup_shows [OF ap] dedup_apart [OF ap] by (simp add: flatten_overlapping_spans_def)
qed


text \<open>A stable sort is one of the sorts the theorem allows.\<close>

definition stable_sort :: "(nat, 'r, 's) event list \<Rightarrow> (nat, 'r, 's) event list" where
  "stable_sort es = sort_key (\<lambda>e. 2 * fst e + (if fst (snd e) then 0 else 1)) es"

lemma stable_sort_sorts: "sorts (stable_sort :: (nat, 'r, 's) event list \<Rightarrow> _)"
proof -
  have "sorted_wrt event_le (stable_sort es)" for es :: "(nat, 'r, 's) event list"
  proof -
    have "sorted (map (\<lambda>e. 2 * fst e + (if fst (snd e) then 0 else 1)) (stable_sort es))"
      by (simp add: stable_sort_def)
    then have "sorted_wrt (\<lambda>x y. 2 * fst x + (if fst (snd x) then 0 else 1) \<le> 2 * fst y + (if fst (snd y) then 0 else (1 :: nat)))
        (stable_sort es)" unfolding sorted_map .
    then show ?thesis by (rule sorted_wrt_mono_rel [rotated]) (auto simp: event_le_def split: if_splits)
  qed
  then show ?thesis by (simp add: sorts_def stable_sort_def)
qed

theorem flattening_shows_winners_witness:
  "\<exists>out. flatten_overlapping_spans stable_sort 0 [(0, 5, 1, ''a''), (3, 8, 2 :: nat, ''b'')] [] LastPushed = Some out \<and>
     shows_at out 4 ''b''"
proof -
  let ?raw = "[(0, 5, 1, ''a''), (3, 8, 2 :: nat, ''b'')] :: (nat, nat, string) span list"
  obtain out where out: "flatten_overlapping_spans stable_sort 0 ?raw [] LastPushed = Some out"
    "\<forall>q s. shows_at out q s \<longleftrightarrow> (\<exists>i. wins LastPushed ?raw q i \<and> span_scope (?raw ! i) = s)"
    using flattening_shows_winners [OF stable_sort_sorts, of ?raw 0 LastPushed] by auto
  have "j = 1 \<or> beats LastPushed ?raw 1 j" if "j < 2" for j
    using that by (cases "j = 0") (auto simp: beats_def span_rank_def)
  then have "wins LastPushed ?raw 4 1"
    by (simp add: wins_def span_covers_def numeral_2_eq_2)
  moreover have "span_scope (?raw ! 1) = ''b''" by (simp add: span_scope_def)
  ultimately have "shows_at out 4 ''b''" using out(2) by blast
  with out(1) show ?thesis by blast
qed

end
