(* ===== verification/View.thy ===== *)
theory View imports EditState begin

text \<open>
  A selection read against its text, \<open>hume-editing/src/selection/view.rs\<close>: what it covers, its lines
  and what it covers of each. A view is the pair of a text and a selection that fits it.
\<close>

record line_span =
  ln_line :: nat
  ln_content :: "cluster_range option"
  ln_has_break :: bool

definition covered :: "segmentation \<Rightarrow> buffer_text \<Rightarrow> selection \<Rightarrow> cluster_range option" where
  "covered B text sel = do { r \<leftarrow> range_through B (rope text) (sel_start sel) (sel_last sel); r }"

definition ends_on_break :: "buffer_text \<Rightarrow> selection \<Rightarrow> bool" where
  "ends_on_break text sel = (char_at text (sel_last sel) = Some NL)"

definition view_content :: "segmentation \<Rightarrow> buffer_text \<Rightarrow> selection \<Rightarrow> cluster_range option option" where
  "view_content B text sel =
     (if ends_on_break text sel then range_between B (rope text) (sel_start sel) (sel_last sel)
      else map_option Some (covered B text sel))"

definition append_point :: "segmentation \<Rightarrow> buffer_text \<Rightarrow> selection \<Rightarrow> nat option" where
  "append_point B text sel =
     (if ends_on_break text sel then Some (sel_last sel)
      else do { n \<leftarrow> next_cluster B (rope text) (sel_last sel); n })"

definition view_lines :: "buffer_text \<Rightarrow> selection \<Rightarrow> (nat \<times> nat) option" where
  "view_lines text sel = do {
     a \<leftarrow> char_to_line text (sel_start sel);
     b \<leftarrow> char_to_line text (sel_last sel);
     Some (a, b) }"

definition line_span_of :: "segmentation \<Rightarrow> buffer_text \<Rightarrow> cluster_range \<Rightarrow> nat \<Rightarrow> line_span option" where
  "line_span_of B text cov line = do {
     start \<leftarrow> line_start (rope text) line;
     line_break \<leftarrow> line_break (rope text) line;
     content \<leftarrow> range_between B (rope text) (max (cr_start cov) start) (min (cr_end cov) line_break);
     Some \<lparr>ln_line = line, ln_content = content,
           ln_has_break = (cr_start cov \<le> line_break \<and> line_break \<le> cr_last cov)\<rparr> }"

definition line_spans :: "segmentation \<Rightarrow> buffer_text \<Rightarrow> selection \<Rightarrow> line_span list option" where
  "line_spans B text sel = do {
     cov \<leftarrow> covered B text sel;
     (a, b) \<leftarrow> view_lines text sel;
     those (map (line_span_of B text cov) [a..<Suc b]) }"

definition head_line :: "buffer_text \<Rightarrow> selection \<Rightarrow> nat option" where
  "head_line text sel = char_to_line text (head sel)"

definition starts_line :: "buffer_text \<Rightarrow> selection \<Rightarrow> bool option" where
  "starts_line text sel = do {
     l \<leftarrow> char_to_line text (sel_start sel);
     s \<leftarrow> line_start (rope text) l;
     Some (sel_start sel = s) }"

definition is_linewise :: "buffer_text \<Rightarrow> selection \<Rightarrow> bool option" where
  "is_linewise text sel = (if ends_on_break text sel then starts_line text sel else Some False)"

definition linewise_classification :: "buffer_text \<Rightarrow> selection \<Rightarrow> bool option option" where
  "linewise_classification text sel = do {
     linewise \<leftarrow> is_linewise text sel;
     Some (if linewise \<and> is_cursor sel then None else Some linewise) }"

definition view_slice :: "segmentation \<Rightarrow> buffer_text \<Rightarrow> selection \<Rightarrow> ustring option" where
  "view_slice B text sel = do { r \<leftarrow> covered B text sel; slice_opt (rope text) (cr_start r) (cr_end r) }"

definition view_clusters :: "segmentation \<Rightarrow> buffer_text \<Rightarrow> selection \<Rightarrow> cluster list option" where
  "view_clusters B text sel = do {
     r \<leftarrow> covered B text sel;
     Some (takeWhile (\<lambda>c. cl_end c \<le> cr_end r) (graphemes_at B (rope text) (sel_start sel))) }"

definition view_union :: "segmentation \<Rightarrow> buffer_text \<Rightarrow> selection \<Rightarrow> cluster_range \<Rightarrow> facing \<Rightarrow> selection option" where
  "view_union B text sel r facing = do {
     cov \<leftarrow> covered B text sel;
     Some (sel_covering (range_hull cov r) facing) }"

section \<open>What a view reads\<close>

definition fits_text :: "segmentation \<Rightarrow> buffer_text \<Rightarrow> selection \<Rightarrow> bool" where
  "fits_text B text sel = (is_start B (rope text) (sel_start sel) \<and> is_start B (rope text) (sel_last sel))"

lemma covered_ok:
  assumes "seg_ok B" "fits_text B text sel"
  obtains r where "covered B text sel = Some r" "range_ok B (rope text) r"
    "cr_start r = sel_start sel" "cr_last r = sel_last sel" "cr_end r = next_boundary B (rope text) (sel_last sel)"
proof -
  let ?r = "\<lparr>cr_start = sel_start sel, cr_last = sel_last sel, cr_end = next_boundary B (rope text) (sel_last sel)\<rparr>"
  have "covered B text sel = Some ?r" using assms(2)
    by (simp add: covered_def range_through_def fits_text_def cluster_end_start)
  moreover have "range_ok B (rope text) ?r" using assms(2) by (simp add: range_ok_def fits_text_def)
  ultimately show thesis using that [of ?r] by simp
qed

text \<open>The text a line span stands for.\<close>

definition span_text :: "ustring \<Rightarrow> line_span \<Rightarrow> ustring" where
  "span_text t ln = (case ln_content ln of None \<Rightarrow> [] | Some r \<Rightarrow> slice t (cr_start r) (cr_end r)) @
     (if ln_has_break ln then [NL] else [])"

lemma slice_join: "a \<le> b \<Longrightarrow> b \<le> c \<Longrightarrow> slice t a b @ slice t b c = slice t a c"
  using take_add [of "b - a" "c - b" "drop a t"] by (simp add: slice_def)

lemma range_between_ok:
  assumes B: "seg_ok B" and s: "is_start B t start" and e: "B t end" "end \<le> length t"
  shows "\<exists>r. range_between B t start end = Some r \<and>
    (case r of None \<Rightarrow> end \<le> start
     | Some r \<Rightarrow> start < end \<and> range_ok B t r \<and> cr_start r = start \<and> cr_end r = end)"
proof (cases "end \<le> start")
  case True
  then show ?thesis by (simp add: range_between_def)
next
  case False
  then have lt: "start < end" "0 < end" by auto
  note p = prev_boundary_props [of B t "end", OF seg_okD(1) [OF B] lt(2)]
  have "start \<le> prev_boundary B t end"
    using p(3) [OF _ lt(1)] s unfolding is_start_def by (meson not_le)
  then show ?thesis using lt p(1) e s next_of_prev [OF B e(1) lt(2) e(2)] prev_boundary_start [OF B lt(2) e(2)]
    by (simp add: range_between_def prev_cluster_def prev_grapheme_boundary_def range_ok_def)
qed

lemma no_break_inside:
  assumes "l < nl_count t"
  shows "NL \<notin> set (slice t (line_offset t l) (line_offset t (Suc l) - 1))"
proof -
  let ?S = "line_offset t l" and ?K = "line_offset t (Suc l) - 1"
  note f = line_lf [OF assms]
  have "take ?K t = take ?S t @ slice t ?S ?K"
    using f(1) slice_join [of 0 ?S ?K t] by (simp add: slice_def)
  then have "nl_count (slice t ?S ?K) = 0"
    using f(4) nl_count_before_line [of l t] assms by (simp add: count_list_append)
  then show ?thesis by (simp add: count_list_0_iff)
qed

lemma slice_subset: "a \<le> a' \<Longrightarrow> b' \<le> b \<Longrightarrow> set (slice t a' b') \<subseteq> set (slice t a b)"
proof (cases "a' \<le> b'")
  case True
  assume "a \<le> a'" "b' \<le> b"
  then have "slice t a b = slice t a a' @ slice t a' b' @ slice t b' b"
    using slice_join [of a a' b' t] slice_join [of a b' b t] True by (metis append_assoc order_trans)
  then show ?thesis by auto
qed (simp add: slice_def)

lemma line_span_piece:
  assumes B: "seg_ok B" and ok: "buffer_ok text" and r: "range_ok B (rope text) cov"
    and l: "l < nl_count (rope text)" "cr_start cov < line_offset (rope text) (Suc l)"
      "line_offset (rope text) l \<le> cr_last cov"
  shows "\<exists>ln. line_span_of B text cov l = Some ln \<and> ln_line ln = l \<and>
    span_text (rope text) ln =
       slice (rope text) (max (cr_start cov) (line_offset (rope text) l)) (min (cr_end cov) (line_offset (rope text) (Suc l))) \<and>
    (\<forall>r. ln_content ln = Some r \<longrightarrow>
       range_ok B (rope text) r \<and> NL \<notin> set (slice (rope text) (cr_start r) (cr_end r)))"
proof -
  define t S N K a e where "t = rope text" and "S = line_offset t l" and "N = line_offset t (Suc l)"
    and "K = N - 1" and "a = max (cr_start cov) S" and "e = min (cr_end cov) K"
  note d = t_def S_def N_def K_def a_def e_def
  have l': "l < nl_count t" using l(1) by (simp add: d)
  note f = line_facts [OF l', folded S_def N_def, folded K_def]
  have cr: "CR \<notin> set t" using ok by (simp add: buffer_ok_def is_cr_free_def d)
  have r': "range_ok B t cov" using r by (simp add: d)
  have K: "is_start B t K" using line_break_is_start [OF B l' cr] by (simp add: d)
  have S: "is_start B t S" using line_start_is_start [OF B l'] by (simp add: d)
  note ce = range_ok_end [OF B r']
  have a: "is_start B t a" using r' S by (simp add: range_ok_def max_def a_def)
  have b: "B t e" "e \<le> length t" using ce K by (auto simp: is_start_def min_def e_def)
  have "cr_last cov < length t" using r' by (simp add: range_ok_def is_start_def)
  note nb = next_boundary_props [of B t "cr_last cov", OF seg_okD(2) [OF B] this]
  have brk: "K < cr_end cov \<longleftrightarrow> K \<le> cr_last cov"
  proof (cases "K \<le> cr_last cov")
    case False
    then show ?thesis using nb(4) [of K] K r' unfolding range_ok_def is_start_def by (metis not_le)
  qed (use ce(1) in simp)
  have cs: "cr_start cov \<le> K" using l(2) f(6) by (simp add: d)
  have aK: "a \<le> K" using cs f(3) by (simp add: a_def)
  obtain c where c: "range_between B t a e = Some c"
    "case c of None \<Rightarrow> e \<le> a | Some r \<Rightarrow> a < e \<and> range_ok B t r \<and> cr_start r = a \<and> cr_end r = e"
    using range_between_ok [OF B a b] by blast
  let ?ln = "\<lparr>ln_line = l, ln_content = c, ln_has_break = (cr_start cov \<le> K \<and> K \<le> cr_last cov)\<rparr>"
  have ln: "line_span_of B text cov l = Some ?ln"
    using f(1,2) c(1) by (simp add: line_span_of_def a_def e_def t_def)
  have ct: "(case c of None \<Rightarrow> [] | Some r \<Rightarrow> slice t (cr_start r) (cr_end r)) = slice t a e"
    using c(2) by (auto simp: slice_def split: option.splits)
  have "span_text t ?ln = slice t a e @ (if K \<le> cr_last cov then [NL] else [])"
    using cs by (simp add: span_text_def ct)
  also have "\<dots> = slice t a (min (cr_end cov) N)"
  proof (cases "K \<le> cr_last cov")
    case True
    then have "e = K" "min (cr_end cov) N = N" using brk f(6) by (auto simp: e_def)
    moreover have "slice t K N = [NL]"
      using f(4,5,6) by (simp add: slice_def) (metis Cons_nth_drop_Suc diff_add_inverse2 diff_Suc_1 plus_1_eq_Suc take0 take_Suc_Cons One_nat_def Suc_diff_le le_refl diff_self_eq_0)
    ultimately show ?thesis using slice_join [of a K N t] aK f(6) True by simp
  next
    case False
    then show ?thesis using brk f(6) by (auto simp: e_def min_def)
  qed
  finally have st: "span_text t ?ln = slice t a (min (cr_end cov) N)" .
  have "NL \<notin> set (slice t a e)"
    using slice_subset [of S a e K t] no_break_inside [OF l'] by (auto simp: a_def e_def d)
  then have "\<forall>r. ln_content ?ln = Some r \<longrightarrow> range_ok B t r \<and> NL \<notin> set (slice t (cr_start r) (cr_end r))"
    using c(2) by auto
  with ln st show ?thesis by (auto simp: d)
qed

text \<open>The pieces of neighbouring lines join.\<close>

lemma pieces_join:
  assumes "\<forall>l. a \<le> l \<and> l < b \<longrightarrow> off l \<le> off (Suc l)" "a \<le> b" "cs < off (Suc a)" "b > a \<longrightarrow> off (b - 1) \<le> ce"
  shows "concat (map (\<lambda>l. slice t (max cs (off l)) (min ce (off (Suc l)))) [a..<b]) =
    (if a = b then [] else slice t (max cs (off a)) (min ce (off b)))"
  using assms
proof (induction "b - a" arbitrary: b)
  case (Suc n)
  then obtain c where b: "b = Suc c" "a \<le> c" by (cases b) auto
  have mono: "i \<le> j \<Longrightarrow> a \<le> i \<Longrightarrow> j \<le> b \<Longrightarrow> off i \<le> off j" for i j
  proof (induction j)
    case (Suc j)
    then show ?case using Suc.prems \<open>\<forall>l. a \<le> l \<and> l < b \<longrightarrow> off l \<le> off (Suc l)\<close>
      by (cases "i = Suc j") (auto intro: order_trans)
  qed simp
  show ?case
  proof (cases "a = c")
    case True
    then show ?thesis using b by simp
  next
    case False
    then have c: "a < c" using b by simp
    have o: "off (Suc a) \<le> off c" "off a \<le> off (Suc a)" "off c \<le> off b" "off c \<le> ce" "off (c - 1) \<le> off c"
      using mono [of "Suc a" c] mono [of a "Suc a"] mono [of c b] mono [of "c - 1" c] Suc.prems b c by auto
    have IH: "concat (map (\<lambda>l. slice t (max cs (off l)) (min ce (off (Suc l)))) [a..<c]) =
      slice t (max cs (off a)) (min ce (off c))"
    proof -
      have "n = c - a" using Suc.hyps(2) b c by simp
      moreover have "off (c - 1) \<le> ce" using o(4,5) by linarith
      ultimately show ?thesis using Suc.hyps(1) [of c] Suc.prems(1,3) b c o(4) by (simp add: min_absorb2)
    qed
    have m: "max cs (off c) = off c" "min ce (off c) = off c" using Suc.prems(3) o by linarith+
    have "slice t (max cs (off a)) (off c) @ slice t (off c) (min ce (off b)) = slice t (max cs (off a)) (min ce (off b))"
      by (rule slice_join) (use o Suc.prems(3) in auto)
    then show ?thesis using IH b c m by simp
  qed
qed simp

text \<open>What the lines of a selection are.\<close>

lemma view_lines_ok:
  assumes ok: "buffer_ok text" and fit: "fits_text B text sel"
  obtains a b where "view_lines text sel = Some (a, b)" "a \<le> b" "b < nl_count (rope text)"
    "line_offset (rope text) a \<le> sel_start sel" "sel_start sel < line_offset (rope text) (Suc a)"
    "line_offset (rope text) b \<le> sel_last sel" "sel_last sel < line_offset (rope text) (Suc b)"
proof -
  have i: "sel_start sel < len_chars text" "sel_last sel < len_chars text"
    using fit by (auto simp: fits_text_def is_start_def len_chars_def)
  obtain a where a: "char_to_line text (sel_start sel) = Some a" "a < nl_count (rope text)"
    "line_offset (rope text) a \<le> sel_start sel" "sel_start sel < line_offset (rope text) (Suc a)"
    using char_to_line_total [OF ok, of "sel_start sel"] i by auto
  obtain b where b: "char_to_line text (sel_last sel) = Some b" "b < nl_count (rope text)"
    "line_offset (rope text) b \<le> sel_last sel" "sel_last sel < line_offset (rope text) (Suc b)"
    using char_to_line_total [OF ok, of "sel_last sel"] i by auto
  have "a \<le> b"
  proof (rule ccontr)
    assume "\<not> a \<le> b"
    then have "line_offset (rope text) (Suc b) \<le> line_offset (rope text) a"
      by (intro line_offset_mono) (use a(2) in auto)
    then show False using a(3) b(4) sel_start_le_last [of sel] by linarith
  qed
  with a b that show thesis by (simp add: view_lines_def)
qed

lemma those_map_all2: "\<forall>x \<in> set xs. \<exists>y. f x = Some y \<and> P x y \<Longrightarrow>
  \<exists>ys. those (map f xs) = Some ys \<and> list_all2 P xs ys"
  by (induction xs) fastforce+

lemma last_line_break:
  assumes B: "seg_ok B" and cr: "CR \<notin> set t" and b: "b < nl_count t"
    and i: "line_offset t b \<le> i" "i < line_offset t (Suc b)" "is_start B t i"
  shows "next_boundary B t i \<le> line_offset t (Suc b)"
    "(t ! i = NL) = (next_boundary B t i = line_offset t (Suc b))"
proof -
  let ?K = "line_offset t (Suc b) - 1"
  note f = line_facts [OF b]
  have iK: "i \<le> ?K" using i(2) by linarith
  have nK: "next_boundary B t ?K = line_offset t (Suc b)" by (rule line_break_next [OF B b])
  show "next_boundary B t i \<le> line_offset t (Suc b)"
    using next_boundary_mono [OF B iK f(4)] nK by simp
  have "i = ?K" if "t ! i = NL"
  proof (rule ccontr)
    assume "i \<noteq> ?K"
    then have "t ! i \<in> set (slice t (line_offset t b) ?K)"
      unfolding set_conv_nth slice_def using i(1) iK f(4)
      by (auto intro!: exI [of _ "i - line_offset t b"])
    with no_break_inside [OF b] that show False by simp
  qed
  moreover have "i = ?K" if "next_boundary B t i = line_offset t (Suc b)"
    using prev_of_next [OF B i(3)] prev_of_next [OF B line_break_is_start [OF B b cr]] nK that by simp
  ultimately show "(t ! i = NL) = (next_boundary B t i = line_offset t (Suc b))" using f(5) nK by metis
qed

text \<open>The line spans of a selection are one for each line from its first to its last, in order. What
  they cover, content and breaks in turn, is exactly the covered text; each content is a whole run of
  clusters without a line break. The selection is linewise exactly when it covers its lines whole.\<close>

theorem line_spans_cover:
  assumes B: "seg_ok B" and ok: "buffer_ok text" and fit: "fits_text B text sel"
  shows "\<exists>a b spans covered_text. view_lines text sel = Some (a, b) \<and> line_spans B text sel = Some spans \<and>
    view_slice B text sel = Some covered_text \<and> covered_text \<noteq> [] \<and>
    map ln_line spans = [a..<Suc b] \<and> concat (map (span_text (rope text)) spans) = covered_text \<and>
    (\<forall>ln \<in> set spans. \<forall>r. ln_content ln = Some r \<longrightarrow>
       range_ok B (rope text) r \<and> NL \<notin> set (slice (rope text) (cr_start r) (cr_end r))) \<and>
    is_linewise text sel = Some (covered_text = slice (rope text) (line_offset (rope text) a) (line_offset (rope text) (Suc b)))"
proof -
  define t where "t = rope text"
  obtain a b where ab: "view_lines text sel = Some (a, b)" "a \<le> b" "b < nl_count t"
    "line_offset t a \<le> sel_start sel" "sel_start sel < line_offset t (Suc a)"
    "line_offset t b \<le> sel_last sel" "sel_last sel < line_offset t (Suc b)"
    unfolding t_def by (rule view_lines_ok [OF ok fit])
  obtain cov where cov: "covered B text sel = Some cov" "range_ok B t cov" "cr_start cov = sel_start sel"
    "cr_last cov = sel_last sel" "cr_end cov = next_boundary B t (sel_last sel)"
    unfolding t_def by (rule covered_ok [OF B fit])
  have cr: "CR \<notin> set t" using ok by (simp add: buffer_ok_def is_cr_free_def t_def)
  have st: "is_start B t (sel_last sel)" using fit by (simp add: fits_text_def t_def)
  note e = range_ok_end [OF B cov(2)] and lb = last_line_break [OF B cr ab(3,6,7) st, folded cov(5)]
  let ?cs = "cr_start cov" and ?ce = "cr_end cov"
  let ?P = "\<lambda>l ln. ln_line ln = l \<and>
    span_text t ln = slice t (max ?cs (line_offset t l)) (min ?ce (line_offset t (Suc l))) \<and>
    (\<forall>r. ln_content ln = Some r \<longrightarrow> range_ok B t r \<and> NL \<notin> set (slice t (cr_start r) (cr_end r)))"
  have mono: "line_offset t i \<le> line_offset t j" if "i \<le> j" "j \<le> Suc b" for i j
    by (rule line_offset_mono) (use that ab(3) in auto)
  have "\<forall>l \<in> set [a..<Suc b]. \<exists>ln. line_span_of B text cov l = Some ln \<and> ?P l ln"
  proof
    fix l assume "l \<in> set [a..<Suc b]"
    then have l: "l < nl_count t" "?cs < line_offset t (Suc l)" "line_offset t l \<le> cr_last cov"
      using ab mono [of "Suc a" "Suc l"] mono [of l b] cov(3,4) by auto
    show "\<exists>ln. line_span_of B text cov l = Some ln \<and> ?P l ln"
      using line_span_piece [OF B ok cov(2) [unfolded t_def] l [unfolded t_def], folded t_def] by simp
  qed
  from those_map_all2 [OF this] obtain spans where sp: "those (map (line_span_of B text cov) [a..<Suc b]) = Some spans"
    "list_all2 ?P [a..<Suc b] spans" by (elim exE conjE)
  have "concat (map (span_text t) spans) =
      concat (map (\<lambda>l. slice t (max ?cs (line_offset t l)) (min ?ce (line_offset t (Suc l)))) [a..<Suc b])"
    using sp(2) by (intro arg_cong [of _ _ concat] nth_equalityI) (auto simp: list_all2_conv_all_nth)
  also have "\<dots> = slice t (max ?cs (line_offset t a)) (min ?ce (line_offset t (Suc b)))"
    using pieces_join [of a "Suc b" "line_offset t" ?cs ?ce t] ab cov(3,4) e(1) mono by auto
  also have "\<dots> = slice t ?cs ?ce" using ab(4) lb(1) cov(3) by (simp add: max_absorb1 min_absorb1)
  finally have whole: "concat (map (span_text t) spans) = slice t ?cs ?ce" .
  have lines: "map ln_line spans = [a..<Suc b]"
  proof -
    have "list_all2 (\<lambda>l ln. ln_line ln = l) [a..<Suc b] spans" by (rule list_all2_mono [OF sp(2)]) simp
    then show ?thesis by (induction rule: list_all2_induct) auto
  qed
  have vs: "view_slice B text sel = Some (slice t ?cs ?ce)" "slice t ?cs ?ce \<noteq> []"
    using cov e by (auto simp: view_slice_def slice_opt_def t_def slice_def)
  have nth: "sel_last sel < length t" using st by (simp add: is_start_def)
  have S: "line_start t a = Some (line_offset t a)" using line_facts(1) [of a t] ab(2,3) by simp
  have "is_linewise text sel = Some (t ! sel_last sel = NL \<and> sel_start sel = line_offset t a)"
    using ab(1) S nth by (auto simp: is_linewise_def ends_on_break_def starts_line_def char_at_def len_chars_def
        view_lines_def t_def [symmetric] bind_eq_Some_conv)
  moreover have "(t ! sel_last sel = NL \<and> sel_start sel = line_offset t a) =
      (slice t ?cs ?ce = slice t (line_offset t a) (line_offset t (Suc b)))"
  proof
    assume eq: "slice t ?cs ?ce = slice t (line_offset t a) (line_offset t (Suc b))"
    from arg_cong [OF this, of length] have "?ce - ?cs = line_offset t (Suc b) - line_offset t a"
      using e line_offset_le [of t "Suc b"] by simp
    then show "t ! sel_last sel = NL \<and> sel_start sel = line_offset t a"
      using lb ab(4) cov(3) e(4) by linarith
  qed (use lb(2) cov(3) in simp)
  ultimately have lw: "is_linewise text sel =
    Some (slice t ?cs ?ce = slice t (line_offset t a) (line_offset t (Suc b)))" by simp
  have inside: "\<forall>ln \<in> set spans. \<forall>r. ln_content ln = Some r \<longrightarrow>
      range_ok B t r \<and> NL \<notin> set (slice t (cr_start r) (cr_end r))"
  proof
    fix ln assume "ln \<in> set spans"
    then obtain i where i: "i < length spans" "spans ! i = ln" by (meson in_set_conv_nth)
    then have "?P ([a..<Suc b] ! i) ln" using list_all2_nthD2 [OF sp(2) i(1)] by simp
    then show "\<forall>r. ln_content ln = Some r \<longrightarrow>
        range_ok B t r \<and> NL \<notin> set (slice t (cr_start r) (cr_end r))" by blast
  qed
  have "line_spans B text sel = Some spans" using sp(1) cov(1) ab(1) by (simp add: line_spans_def)
  with ab(1) vs whole lines lw inside show ?thesis unfolding t_def by blast
qed

theorem line_spans_cover_witness:
  "\<exists>a b spans. view_lines demo_text (sel_new 0 1) = Some (a, b) \<and>
     line_spans demo_seg demo_text (sel_new 0 1) = Some spans \<and> map ln_line spans = [a..<Suc b]"
proof -
  have "fits_text demo_seg demo_text (sel_new 0 1)"
    by (simp add: fits_text_def is_start_def demo_seg_def demo_text_def sel_new_def sel_start_def sel_last_def)
  moreover have "buffer_ok demo_text"
    by (simp add: buffer_ok_def is_valid_buffer_rope_def is_cr_free_def demo_text_def ends_with_newline_def)
  ultimately show ?thesis using line_spans_cover [OF demo_seg_ok, of demo_text "sel_new 0 1"] by blast
qed

end
