(* ===== verification/Pair.thy ===== *)
theory Pair imports View begin

text \<open>
  Paired delimiters, \<open>hume-ops/src/pair.rs\<close>, with the char cursor of \<open>hume-rope/src/cursor.rs\<close> its scans
  walk: the bracket pair around a position, the tightest of the three kinds, the match of a bracket
  and the quote pair on a line.
\<close>

section \<open>The char cur\<close>

text \<open>A cursor is the offset it sits at; both steps yield the offset of the char they cross.\<close>

definition chars_at :: "buffer_text \<Rightarrow> nat \<Rightarrow> nat option" where
  "chars_at text pos = (if pos \<le> len_chars text then Some pos else None)"

definition cursor_next :: "buffer_text \<Rightarrow> nat \<Rightarrow> ((nat \<times> uchar) \<times> nat) option" where
  "cursor_next text pos = map_option (\<lambda>ch. ((pos, ch), pos + 1)) (nth_opt (rope text) pos)"

definition cursor_prev :: "buffer_text \<Rightarrow> nat \<Rightarrow> ((nat \<times> uchar) \<times> nat) option" where
  "cursor_prev text pos =
     (if pos = 0 then None else map_option (\<lambda>ch. ((pos - 1, ch), pos - 1)) (nth_opt (rope text) (pos - 1)))"

text \<open>What iterating a cursor from an offset yields.\<close>

definition chars_from :: "buffer_text \<Rightarrow> nat \<Rightarrow> (nat \<times> uchar) list option" where
  "chars_from text pos = do {
     p \<leftarrow> chars_at text pos;
     Some (zip [p..<len_chars text] (drop p (rope text))) }"

section \<open>Delimiters\<close>

definition delimited :: "segmentation \<Rightarrow> buffer_text \<Rightarrow> nat \<Rightarrow> nat \<Rightarrow> cluster_range option" where
  "delimited B text open close = do {
     a \<leftarrow> snap_to_cluster B (rope text) open;
     b \<leftarrow> snap_to_cluster B (rope text) close;
     r \<leftarrow> range_through B (rope text) (cl_start a) (cl_start b);
     r }"

definition delimiter_at :: "segmentation \<Rightarrow> buffer_text \<Rightarrow> nat \<Rightarrow> (uchar \<Rightarrow> bool) \<Rightarrow> (nat \<times> uchar) option option" where
  "delimiter_at B text pos is_delimiter = do {
     e \<leftarrow> cluster_end B (rope text) pos;
     len \<leftarrow> checked_sub e pos;
     chars \<leftarrow> chars_from text pos;
     Some (find (\<lambda>(_, ch). is_delimiter ch) (take len chars)) }"

definition BRACKET_PAIRS :: "(uchar \<times> uchar) list" where
  "BRACKET_PAIRS = [(40, 41), (91, 93), (123, 125)]"

text \<open>The loop of the leftward scan from a cursor, and of the rightward one over the chars it yields.\<close>

fun left_loop :: "buffer_text \<Rightarrow> uchar \<Rightarrow> uchar \<Rightarrow> nat \<Rightarrow> nat \<Rightarrow> nat \<Rightarrow> nat option" where
  "left_loop text open close bound_start 0 depth = None"
| "left_loop text open close bound_start (Suc i) depth =
     (let ch = rope text ! i in
      if i < bound_start then None
      else if ch = close then left_loop text open close bound_start i (depth + 1)
      else if ch = open then
        (if depth = 0 then Some i else left_loop text open close bound_start i (depth - 1))
      else left_loop text open close bound_start i depth)"

definition scan_left_for_open :: "buffer_text \<Rightarrow> nat \<Rightarrow> uchar \<Rightarrow> uchar \<Rightarrow> nat \<times> nat \<Rightarrow> nat option option" where
  "scan_left_for_open text pos open close bound = do {
     cur \<leftarrow> chars_at text pos;
     Some (left_loop text open close (fst bound) cur 0) }"

fun right_loop :: "uchar \<Rightarrow> uchar \<Rightarrow> nat \<Rightarrow> (nat \<times> uchar) list \<Rightarrow> nat \<Rightarrow> nat option" where
  "right_loop open close bound_end [] depth = None"
| "right_loop open close bound_end ((i, ch) # chars) depth =
     (if bound_end \<le> i then None
      else if ch = open then right_loop open close bound_end chars (depth + 1)
      else if ch = close then
        (if depth = 0 then Some i else right_loop open close bound_end chars (depth - 1))
      else right_loop open close bound_end chars depth)"

definition scan_right_for_close :: "buffer_text \<Rightarrow> nat \<Rightarrow> uchar \<Rightarrow> uchar \<Rightarrow> nat \<times> nat \<Rightarrow> nat option option" where
  "scan_right_for_close text pos open close bound = do {
     chars \<leftarrow> chars_from text pos;
     Some (right_loop open close (snd bound) chars 0) }"

definition bracket_pair_chars :: "buffer_text \<Rightarrow> nat \<Rightarrow> uchar \<Rightarrow> uchar \<Rightarrow> nat \<times> nat \<Rightarrow> (nat \<times> nat) option option" where
  "bracket_pair_chars text pos open close bound =
     (case char_at text pos of
        None \<Rightarrow> Some None
      | Some ch \<Rightarrow>
          if ch = open then do {
            c \<leftarrow> scan_right_for_close text (pos + 1) open close bound;
            Some (map_option (Pair pos) c) }
          else if ch = close then do {
            p \<leftarrow> scan_left_for_open text pos open close bound;
            Some (map_option (\<lambda>p. (p, pos)) p) }
          else do {
            p \<leftarrow> scan_left_for_open text pos open close bound;
            case p of
              None \<Rightarrow> Some None
            | Some p \<Rightarrow> do {
                c \<leftarrow> scan_right_for_close text pos open close bound;
                Some (map_option (Pair p) c) } })"

definition find_bracket_pair :: "segmentation \<Rightarrow> buffer_text \<Rightarrow> nat \<Rightarrow> uchar \<Rightarrow> uchar \<Rightarrow> cluster_range option option" where
  "find_bracket_pair B text pos open close = do {
     d \<leftarrow> delimiter_at B text pos (\<lambda>ch. ch = open \<or> ch = close);
     let at = (case d of None \<Rightarrow> pos | Some (at, _) \<Rightarrow> at);
     p \<leftarrow> bracket_pair_chars text at open close (0, len_chars text);
     case p of None \<Rightarrow> Some None | Some (a, b) \<Rightarrow> map_option Some (delimited B text a b) }"

text \<open>The table of the roles of the ASCII bytes, filled pair by pair.\<close>

fun fill_roles :: "(uchar \<times> uchar) list \<Rightarrow> nat \<Rightarrow> (nat \<times> bool) option list \<Rightarrow> (nat \<times> bool) option list" where
  "fill_roles [] k table = table"
| "fill_roles ((open, close) # ps) k table =
     fill_roles ps (k + 1) (table[open := Some (k, True), close := Some (k, False)])"

definition BRACKET_ROLE_TABLE :: "(nat \<times> bool) option list" where
  "BRACKET_ROLE_TABLE = fill_roles BRACKET_PAIRS 0 (replicate 128 None)"

definition bracket_role :: "uchar \<Rightarrow> (nat \<times> bool) option" where
  "bracket_role ch = (if length BRACKET_ROLE_TABLE \<le> ch then None else BRACKET_ROLE_TABLE ! ch)"

definition step_bracket :: "nat \<times> uchar \<Rightarrow> bool \<Rightarrow> nat list \<Rightarrow> nat option list \<Rightarrow>
    (nat option \<times> nat list \<times> nat option list) option" where
  "step_bracket hit seek_open depths slots =
     (case bracket_role (snd hit) of
        None \<Rightarrow> Some (None, depths, slots)
      | Some (k, is_open) \<Rightarrow> do {
          slot \<leftarrow> nth_opt slots k;
          depth \<leftarrow> nth_opt depths k;
          if slot \<noteq> None then Some (None, depths, slots)
          else if is_open \<noteq> seek_open then Some (None, depths[k := depth + 1], slots)
          else if depth > 0 then Some (None, depths[k := depth - 1], slots)
          else Some (Some k, depths, slots[k := Some (fst hit)]) })"

record tightest =
  tg_opens :: "nat option list"
  tg_closes :: "nat option list"
  tg_depths_left :: "nat list"
  tg_depths_right :: "nat list"
  tg_opens_missing :: nat
  tg_right_pending :: nat
  tg_best_span :: "nat option"
  tg_left_cursor :: nat
  tg_right_cursor :: nat
  tg_dl :: nat
  tg_dr :: nat
  tg_left_exhausted :: bool
  tg_right_exhausted :: bool

definition within_bound :: "nat option \<Rightarrow> nat \<Rightarrow> bool" where
  "within_bound best d = (case best of None \<Rightarrow> True | Some s \<Rightarrow> d < s)"

definition better :: "nat option \<Rightarrow> nat \<Rightarrow> nat option" where
  "better best span = Some (case best of None \<Rightarrow> span | Some s \<Rightarrow> min s span)"

text \<open>One char of each direction of the interleaved scan.\<close>

definition open_found :: "nat \<Rightarrow> (nat \<times> bool) option \<Rightarrow> nat \<Rightarrow> nat \<Rightarrow> tightest \<Rightarrow> tightest option" where
  "open_found pos role k open_pos st = do {
     missing \<leftarrow> checked_sub (tg_opens_missing st) 1;
     let st = st\<lparr>tg_opens_missing := missing\<rparr>;
     close \<leftarrow> nth_opt (tg_closes st) k;
     if role = Some (k, False) then do {
       span \<leftarrow> checked_sub pos open_pos;
       Some (st\<lparr>tg_closes := (tg_closes st)[k := Some pos], tg_best_span := better (tg_best_span st) span\<rparr>) }
     else (case close of
       Some close_pos \<Rightarrow> do {
         span \<leftarrow> checked_sub close_pos open_pos;
         Some (st\<lparr>tg_best_span := better (tg_best_span st) span\<rparr>) }
     | None \<Rightarrow> Some (st\<lparr>tg_right_pending := tg_right_pending st + 1\<rparr>)) }"

definition left_turn :: "buffer_text \<Rightarrow> nat \<Rightarrow> (nat \<times> bool) option \<Rightarrow> tightest \<Rightarrow> tightest option" where
  "left_turn text pos role st =
     (case cursor_prev text (tg_left_cursor st) of
        None \<Rightarrow> Some (st\<lparr>tg_left_exhausted := True\<rparr>)
      | Some (hit, cur) \<Rightarrow> do {
          (found, depths, opens) \<leftarrow> step_bracket hit True (tg_depths_left st) (tg_opens st);
          let st = st\<lparr>tg_left_cursor := cur, tg_dl := tg_dl st + 1, tg_depths_left := depths, tg_opens := opens\<rparr>;
          case found of None \<Rightarrow> Some st | Some k \<Rightarrow> open_found pos role k (fst hit) st })"

definition close_found :: "nat \<Rightarrow> nat \<Rightarrow> tightest \<Rightarrow> tightest option" where
  "close_found k close_pos st = do {
     open \<leftarrow> nth_opt (tg_opens st) k;
     case open of
       None \<Rightarrow> Some st
     | Some open_pos \<Rightarrow> do {
         pending \<leftarrow> checked_sub (tg_right_pending st) 1;
         span \<leftarrow> checked_sub close_pos open_pos;
         Some (st\<lparr>tg_right_pending := pending, tg_best_span := better (tg_best_span st) span\<rparr>) } }"

definition right_turn :: "buffer_text \<Rightarrow> tightest \<Rightarrow> tightest option" where
  "right_turn text st =
     (case cursor_next text (tg_right_cursor st) of
        None \<Rightarrow> Some (st\<lparr>tg_right_exhausted := True\<rparr>)
      | Some (hit, cur) \<Rightarrow> do {
          (found, depths, closes) \<leftarrow> step_bracket hit False (tg_depths_right st) (tg_closes st);
          let st = st\<lparr>tg_right_cursor := cur, tg_dr := tg_dr st + 1, tg_depths_right := depths, tg_closes := closes\<rparr>;
          case found of None \<Rightarrow> Some st | Some k \<Rightarrow> close_found k (fst hit) st })"

definition left_live :: "tightest \<Rightarrow> bool" where
  "left_live st = (\<not> tg_left_exhausted st \<and> tg_opens_missing st > 0 \<and> within_bound (tg_best_span st) (tg_dl st))"

definition right_live :: "tightest \<Rightarrow> bool" where
  "right_live st = (\<not> tg_right_exhausted st \<and> tg_right_pending st > 0 \<and> within_bound (tg_best_span st) (tg_dr st))"

definition tightest_turn :: "buffer_text \<Rightarrow> nat \<Rightarrow> (nat \<times> bool) option \<Rightarrow> tightest \<Rightarrow> tightest option" where
  "tightest_turn text pos role st =
     (let right = right_live st in do {
      st \<leftarrow> (if left_live st then left_turn text pos role st else Some st);
      if right then right_turn text st else Some st })"

definition chars_left :: "buffer_text \<Rightarrow> tightest \<Rightarrow> nat" where
  "chars_left text st = tg_left_cursor st + (len_chars text - tg_right_cursor st) +
     (if tg_left_exhausted st then 0 else 1) + (if tg_right_exhausted st then 0 else 1)"

lemma left_turn_scans:
  assumes "left_turn text pos role st = Some st'" "\<not> tg_left_exhausted st"
  shows "chars_left text st' < chars_left text st \<and> tg_right_exhausted st' = tg_right_exhausted st"
proof (cases "cursor_prev text (tg_left_cursor st)")
  case None
  with assms show ?thesis by (auto simp: left_turn_def chars_left_def)
next
  case (Some hc)
  obtain hit cur where hc: "hc = (hit, cur)" by (cases hc)
  have "cur < tg_left_cursor st" using Some hc by (auto simp: cursor_prev_def split: if_splits)
  moreover have "tg_left_cursor st' = cur \<and> tg_right_cursor st' = tg_right_cursor st \<and>
    tg_left_exhausted st' = tg_left_exhausted st \<and> tg_right_exhausted st' = tg_right_exhausted st"
    using assms(1) Some hc
    by (simp add: left_turn_def open_found_def Let_def split: Option.bind_splits option.splits if_splits prod.splits) auto
  ultimately show ?thesis by (simp add: chars_left_def)
qed

lemma right_turn_scans:
  assumes "right_turn text st = Some st'" "\<not> tg_right_exhausted st"
  shows "chars_left text st' < chars_left text st"
proof (cases "cursor_next text (tg_right_cursor st)")
  case None
  with assms show ?thesis by (auto simp: right_turn_def chars_left_def)
next
  case (Some hc)
  obtain hit cur where hc: "hc = (hit, cur)" by (cases hc)
  have "cur = Suc (tg_right_cursor st)" "tg_right_cursor st < len_chars text"
    using Some hc by (auto simp: cursor_next_def nth_opt_def len_chars_def split: if_splits)
  moreover have "tg_right_cursor st' = cur \<and> tg_left_cursor st' = tg_left_cursor st \<and>
    tg_left_exhausted st' = tg_left_exhausted st \<and> tg_right_exhausted st' = tg_right_exhausted st"
    using assms(1) Some hc
    by (simp add: right_turn_def close_found_def Let_def split: Option.bind_splits option.splits if_splits prod.splits) auto
  ultimately show ?thesis by (simp add: chars_left_def)
qed

lemma tightest_turn_scans:
  assumes "tightest_turn text pos role st = Some st'" "left_live st \<or> right_live st"
  shows "chars_left text st' < chars_left text st"
proof -
  obtain s where s: "(if left_live st then left_turn text pos role st else Some st) = Some s"
    "(if right_live st then right_turn text s else Some s) = Some st'"
    using assms(1) by (auto simp: tightest_turn_def Let_def bind_eq_Some_conv split: if_splits)
  have "\<not> tg_left_exhausted st" if "left_live st" using that by (simp add: left_live_def)
  moreover have "\<not> tg_right_exhausted st" if "right_live st" using that by (simp add: right_live_def)
  ultimately show ?thesis
    using s assms(2) left_turn_scans [of "text" pos role st s] right_turn_scans [of "text" s st']
    by (auto split: if_splits)
qed

function tightest_loop :: "buffer_text \<Rightarrow> nat \<Rightarrow> (nat \<times> bool) option \<Rightarrow> tightest \<Rightarrow> tightest option" where
  "tightest_loop text pos role st =
     (if \<not> left_live st \<and> \<not> right_live st then Some st
      else (case tightest_turn text pos role st of
          None \<Rightarrow> None
        | Some st' \<Rightarrow> tightest_loop text pos role st'))"
  by pat_completeness auto

termination
  by (relation "measure (\<lambda>(text, pos, role, st). chars_left text st)") (use tightest_turn_scans in auto)

declare tightest_loop.simps [simp del]

fun min_by_key :: "('a \<Rightarrow> nat) \<Rightarrow> 'a list \<Rightarrow> 'a option" where
  "min_by_key f [] = None"
| "min_by_key f (x # xs) = Some (fold (\<lambda>y best. if f y < f best then y else best) xs x)"

definition tightest_start :: "nat \<Rightarrow> (nat \<times> bool) option \<Rightarrow> tightest" where
  "tightest_start pos role =
     (let n = length BRACKET_PAIRS;
          opens = replicate n None;
          (opens, missing, pending) =
            (case role of Some (k, True) \<Rightarrow> (opens[k := Some pos], n - 1, 1) | _ \<Rightarrow> (opens, n, 0))
      in \<lparr>tg_opens = opens, tg_closes = replicate n None,
          tg_depths_left = replicate n 0, tg_depths_right = replicate n 0,
          tg_opens_missing = missing, tg_right_pending = pending, tg_best_span = None,
          tg_left_cursor = pos, tg_right_cursor = pos + 1, tg_dl = 0, tg_dr = 0,
          tg_left_exhausted = False, tg_right_exhausted = False\<rparr>)"

definition tightest_at :: "buffer_text \<Rightarrow> nat \<Rightarrow> uchar \<Rightarrow> (nat \<times> nat) option option" where
  "tightest_at text pos ch = do {
     let role = bracket_role ch;
     _ \<leftarrow> chars_at text pos;
     _ \<leftarrow> chars_at text (pos + 1);
     st \<leftarrow> tightest_loop text pos role (tightest_start pos role);
     let found = List.map_filter (\<lambda>(a, b). Option.bind a (\<lambda>a. map_option (Pair a) b))
                   (zip (tg_opens st) (tg_closes st));
     spans \<leftarrow> those (map (\<lambda>(a, b). checked_sub b a) found);
     Some (map_option snd (min_by_key fst (zip spans found))) }"

definition find_tightest_bracket_pair :: "segmentation \<Rightarrow> buffer_text \<Rightarrow> nat \<Rightarrow> cluster_range option option" where
  "find_tightest_bracket_pair B text pos = do {
     d \<leftarrow> delimiter_at B text pos (\<lambda>ch. bracket_role ch \<noteq> None);
     case (case d of Some d \<Rightarrow> Some d | None \<Rightarrow> map_option (Pair pos) (char_at text pos)) of
       None \<Rightarrow> Some None
     | Some (pos, ch) \<Rightarrow> do {
         p \<leftarrow> tightest_at text pos ch;
         case p of None \<Rightarrow> Some None | Some (a, b) \<Rightarrow> map_option Some (delimited B text a b) } }"

text \<open>\<open>nearest_bracket\<close>: the scan goes from the head's end of the span inward.\<close>

definition classify_bracket :: "nat \<times> uchar \<Rightarrow> (nat \<times> uchar \<times> uchar) option" where
  "classify_bracket hit = do {
     (k, _) \<leftarrow> bracket_role (snd hit);
     (o', c) \<leftarrow> nth_opt BRACKET_PAIRS k;
     Some (fst hit, o', c) }"

fun find_map :: "('a \<Rightarrow> 'b option) \<Rightarrow> 'a list \<Rightarrow> 'b option" where
  "find_map f [] = None"
| "find_map f (x # xs) = (case f x of Some y \<Rightarrow> Some y | None \<Rightarrow> find_map f xs)"

fun nearest_back :: "buffer_text \<Rightarrow> nat \<Rightarrow> nat \<Rightarrow> (nat \<times> uchar \<times> uchar) option" where
  "nearest_back text start 0 = None"
| "nearest_back text start (Suc i) =
     (if i < start then None
      else (case classify_bracket (i, rope text ! i) of Some y \<Rightarrow> Some y | None \<Rightarrow> nearest_back text start i))"

definition nearest_bracket :: "segmentation \<Rightarrow> buffer_text \<Rightarrow> selection \<Rightarrow> (nat \<times> uchar \<times> uchar) option option" where
  "nearest_bracket B text sel = do {
     (a, b) \<leftarrow> view_lines text sel;
     span \<leftarrow> (if a = b then covered B text sel else range_of B (rope text) (head sel));
     if head sel = cr_start span then do {
       chars \<leftarrow> chars_from text (cr_start span);
       len \<leftarrow> checked_sub (cr_end span) (cr_start span);
       Some (find_map classify_bracket (take len chars)) }
     else do {
       cur \<leftarrow> chars_at text (cr_end span);
       Some (nearest_back text (cr_start span) cur) } }"

definition matching_bracket :: "segmentation \<Rightarrow> buffer_text \<Rightarrow> selection \<Rightarrow> nat \<times> nat \<Rightarrow> nat option option" where
  "matching_bracket B text sel bound = do {
     n \<leftarrow> nearest_bracket B text sel;
     case n of
       None \<Rightarrow> Some None
     | Some (bracket_pos, open, close) \<Rightarrow> do {
         p \<leftarrow> bracket_pair_chars text bracket_pos open close bound;
         case p of
           None \<Rightarrow> Some None
         | Some (open_pos, close_pos) \<Rightarrow> do {
             let partner = (if bracket_pos = open_pos then close_pos else open_pos);
             c \<leftarrow> snap_to_cluster B (rope text) partner;
             Some (Some (cl_start c)) } } }"

section \<open>Quotes\<close>

fun quote_loop :: "uchar \<Rightarrow> nat \<Rightarrow> (nat \<times> uchar) list \<Rightarrow> nat option \<Rightarrow> (nat \<times> nat) option" where
  "quote_loop quote pos [] open = None"
| "quote_loop quote pos ((i, ch) # chars) open =
     (if ch = quote then
        (case open of
           None \<Rightarrow> quote_loop quote pos chars (Some i)
         | Some open_pos \<Rightarrow>
             if open_pos \<le> pos \<and> pos \<le> i then Some (open_pos, i) else quote_loop quote pos chars None)
      else quote_loop quote pos chars open)"

definition find_quote_pair :: "segmentation \<Rightarrow> buffer_text \<Rightarrow> nat \<Rightarrow> uchar \<Rightarrow> cluster_range option option" where
  "find_quote_pair B text pos quote = do {
     d \<leftarrow> delimiter_at B text pos (\<lambda>ch. ch = quote);
     let pos = (case d of None \<Rightarrow> pos | Some (at, _) \<Rightarrow> at);
     l \<leftarrow> char_to_line text pos;
     line \<leftarrow> line_range (rope text) l;
     chars \<leftarrow> chars_from text (cr_start line);
     len \<leftarrow> checked_sub (cr_end line) (cr_start line);
     case quote_loop quote pos (take len chars) None of
       None \<Rightarrow> Some None
     | Some (a, b) \<Rightarrow> map_option Some (delimited B text a b) }"

section \<open>One kind of bracket\<close>

lemma bracket_role_eq: "bracket_role ch =
  (if ch = 40 then Some (0, True) else if ch = 41 then Some (0, False)
   else if ch = 91 then Some (1, True) else if ch = 93 then Some (1, False)
   else if ch = 123 then Some (2, True) else if ch = 125 then Some (2, False) else None)"
  by (auto simp: bracket_role_def BRACKET_ROLE_TABLE_def BRACKET_PAIRS_def nth_list_update)

definition open_of :: "nat \<Rightarrow> uchar" where
  "open_of k = fst (BRACKET_PAIRS ! k)"

definition close_of :: "nat \<Rightarrow> uchar" where
  "close_of k = snd (BRACKET_PAIRS ! k)"

lemma kind_cases: "k < 3 \<Longrightarrow> (k = 0 \<Longrightarrow> P) \<Longrightarrow> (k = 1 \<Longrightarrow> P) \<Longrightarrow> (k = 2 \<Longrightarrow> P) \<Longrightarrow> P" for k :: nat
  by arith

lemma bracket_role_of:
  "k < 3 \<Longrightarrow> bracket_role ch = Some (k, True) \<longleftrightarrow> ch = open_of k"
  "k < 3 \<Longrightarrow> bracket_role ch = Some (k, False) \<longleftrightarrow> ch = close_of k"
  "k < 3 \<Longrightarrow> open_of k \<noteq> close_of k"
  by (erule kind_cases; simp add: bracket_role_eq open_of_def close_of_def BRACKET_PAIRS_def)+

lemma bracket_role_kind: "bracket_role ch = Some (k, b) \<Longrightarrow> k < 3"
  by (auto simp: bracket_role_eq split: if_splits)

text \<open>What a char does to the counter and the slot of one kind.\<close>

definition track_step :: "nat \<Rightarrow> bool \<Rightarrow> nat \<times> nat option \<Rightarrow> nat \<times> uchar \<Rightarrow> nat \<times> nat option" where
  "track_step k side st hit =
     (if snd st \<noteq> None then st
      else case bracket_role (snd hit) of
        None \<Rightarrow> st
      | Some (j, is_open) \<Rightarrow>
          if j \<noteq> k then st
          else if is_open \<noteq> side then (fst st + 1, None)
          else if fst st > 0 then (fst st - 1, None) else (fst st, Some (fst hit)))"

lemma track_step_role: "bracket_role ch = Some (k, b) \<Longrightarrow> track_step k side (d, None) (i, ch) =
    (if b \<noteq> side then (d + 1, None) else if d > 0 then (d - 1, None) else (d, Some i))"
  by (simp add: track_step_def)

lemma track_step_other:
  assumes "k < 3" "ch \<noteq> open_of k" "ch \<noteq> close_of k"
  shows "track_step k side st (i, ch) = st"
proof -
  have "bracket_role ch \<noteq> Some (k, b)" for b using bracket_role_of(1,2) [OF assms(1), of ch] assms(2,3) by (cases b) auto
  then show ?thesis by (auto simp: track_step_def split: option.splits)
qed

definition track :: "nat \<Rightarrow> bool \<Rightarrow> (nat \<times> uchar) list \<Rightarrow> nat \<times> nat option" where
  "track k side hits = foldl (track_step k side) (0, None) hits"

lemma track_snoc: "track k side (hits @ [hit]) = track_step k side (track k side hits) hit"
  by (simp add: track_def)

lemma track_stuck: "snd st \<noteq> None \<Longrightarrow> foldl (track_step k side) st hits = st"
  by (induction hits) (auto simp: track_step_def)

lemma track_found_in: "snd (foldl (track_step k side) st hits) = Some i \<Longrightarrow> snd st = None \<Longrightarrow> i \<in> fst ` set hits"
proof (induction hits arbitrary: st)
  case (Cons h hits)
  show ?case
  proof (cases "snd (track_step k side st h)")
    case None
    with Cons show ?thesis by simp
  next
    case (Some j)
    then have "i = j" using Cons.prems(1) track_stuck [of "track_step k side st h" k side hits] by simp
    moreover have "j = fst h" using Some Cons.prems(2)
      by (auto simp: track_step_def split: option.splits if_splits prod.splits)
    ultimately show ?thesis by simp
  qed
qed simp

lemma track_append_found: "snd (track k side hits) = Some i \<Longrightarrow> snd (track k side (hits @ rest)) = Some i"
  by (simp add: track_def track_stuck)

lemma track_append_more: "snd (track k side hits) = None \<Longrightarrow> snd (track k side (hits @ rest)) = Some i \<Longrightarrow> i \<in> fst ` set rest"
  using track_found_in [of k side "track k side hits" rest i] by (simp add: track_def)

definition left_hits :: "buffer_text \<Rightarrow> nat \<Rightarrow> (nat \<times> uchar) list" where
  "left_hits text pos = map (\<lambda>i. (i, rope text ! i)) (rev [0..<pos])"

definition right_hits :: "buffer_text \<Rightarrow> nat \<Rightarrow> (nat \<times> uchar) list" where
  "right_hits text pos = map (\<lambda>i. (i, rope text ! i)) [pos..<len_chars text]"

lemma left_hits_Suc [simp]: "left_hits text (Suc i) = (i, rope text ! i) # left_hits text i" "left_hits text 0 = []"
  by (simp_all add: left_hits_def)

lemma right_hits_rec: "right_hits text i = (if i < len_chars text then (i, rope text ! i) # right_hits text (Suc i) else [])"
  by (auto simp: right_hits_def upt_rec)

lemma chars_from_eq: "pos \<le> len_chars text \<Longrightarrow> chars_from text pos = Some (right_hits text pos)"
  by (auto simp: chars_from_def chars_at_def right_hits_def len_chars_def intro!: nth_equalityI)

lemma left_loop_track:
  assumes "k < 3"
  shows "left_loop text (open_of k) (close_of k) 0 i d = snd (foldl (track_step k True) (d, None) (left_hits text i))"
proof (induction i arbitrary: d)
  case (Suc i)
  let ?ch = "rope text ! i"
  consider "?ch = open_of k" "?ch \<noteq> close_of k" | "?ch = close_of k" "?ch \<noteq> open_of k"
    | "?ch \<noteq> open_of k" "?ch \<noteq> close_of k" using bracket_role_of(3) [OF assms] by metis
  then show ?case
  proof cases
    case 1
    then have "bracket_role ?ch = Some (k, True)" using bracket_role_of(1) [OF assms] by simp
    with 1 Suc.IH track_stuck [of "(0, Some i)" k True "left_hits text i"] show ?thesis by (simp add: track_step_role)
  next
    case 2
    then have "bracket_role ?ch = Some (k, False)" using bracket_role_of(2) [OF assms] by simp
    with 2 Suc.IH show ?thesis by (simp add: track_step_role)
  next
    case 3
    with Suc.IH show ?thesis by (simp add: track_step_other [OF assms])
  qed
qed simp

lemma right_loop_track:
  assumes "k < 3" "\<forall>h \<in> set hits. fst h < e"
  shows "right_loop (open_of k) (close_of k) e hits d = snd (foldl (track_step k False) (d, None) hits)"
  using assms(2)
proof (induction hits arbitrary: d)
  case (Cons h hits)
  obtain i ch where h: "h = (i, ch)" by (cases h)
  consider "ch = open_of k" "ch \<noteq> close_of k" | "ch = close_of k" "ch \<noteq> open_of k"
    | "ch \<noteq> open_of k" "ch \<noteq> close_of k" using bracket_role_of(3) [OF assms(1)] by metis
  then show ?case
  proof cases
    case 1
    then have "bracket_role ch = Some (k, True)" using bracket_role_of(1) [OF assms(1)] by simp
    with 1 h Cons show ?thesis by (simp add: track_step_role)
  next
    case 2
    then have "bracket_role ch = Some (k, False)" using bracket_role_of(2) [OF assms(1)] by simp
    with 2 h Cons track_stuck [of "(0, Some i)" k False hits] show ?thesis by (simp add: track_step_role)
  next
    case 3
    with h Cons show ?thesis by (simp add: track_step_other [OF assms(1)])
  qed
qed simp

text \<open>The two ends of the pair of one kind around a position.\<close>

definition full_open :: "buffer_text \<Rightarrow> nat \<Rightarrow> nat \<Rightarrow> nat option" where
  "full_open text pos k = (if rope text ! pos = open_of k then Some pos else snd (track k True (left_hits text pos)))"

definition full_close :: "buffer_text \<Rightarrow> nat \<Rightarrow> nat \<Rightarrow> nat option" where
  "full_close text pos k = (if rope text ! pos = close_of k then Some pos else snd (track k False (right_hits text (pos + 1))))"

lemma right_hits_le: "\<forall>h \<in> set (right_hits text i). fst h < len_chars text"
  by (auto simp: right_hits_def)

lemma bracket_pair_chars_eq:
  assumes k: "k < 3" and pos: "pos < len_chars text"
  shows "bracket_pair_chars text pos (open_of k) (close_of k) (0, len_chars text) =
    Some (case full_open text pos k of None \<Rightarrow> None | Some p \<Rightarrow> map_option (Pair p) (full_close text pos k))"
proof -
  have at: "char_at text pos = Some (rope text ! pos)" using pos by (simp add: char_at_def)
  have left: "scan_left_for_open text pos (open_of k) (close_of k) (0, len_chars text) =
      Some (snd (track k True (left_hits text pos)))"
    using pos by (simp add: scan_left_for_open_def chars_at_def left_loop_track [OF k] track_def)
  have right: "scan_right_for_close text i (open_of k) (close_of k) (0, len_chars text) =
      Some (snd (track k False (right_hits text i)))" if "i \<le> len_chars text" for i
    using that by (simp add: scan_right_for_close_def chars_from_eq right_loop_track [OF k right_hits_le] track_def)
  have skip: "track k False (right_hits text pos) = track k False (right_hits text (Suc pos))"
    if "rope text ! pos \<noteq> open_of k" "rope text ! pos \<noteq> close_of k"
    using that pos by (simp add: track_def right_hits_rec [of "text" pos] track_step_other [OF k])
  show ?thesis
    using bracket_role_of(3) [OF k] pos
    by (auto simp: bracket_pair_chars_def at left right full_open_def full_close_def skip split: option.splits)
qed

section \<open>The interleaved scan\<close>

definition found_open :: "buffer_text \<Rightarrow> nat \<Rightarrow> nat \<Rightarrow> nat \<Rightarrow> nat option" where
  "found_open text pos n k = (if rope text ! pos = open_of k then Some pos
     else snd (track k True (take n (left_hits text pos))))"

definition found_close :: "buffer_text \<Rightarrow> nat \<Rightarrow> nat \<Rightarrow> nat option \<Rightarrow> nat \<Rightarrow> nat option" where
  "found_close text pos n opened k = (if rope text ! pos = close_of k \<and> opened \<noteq> None then Some pos
     else snd (track k False (take n (right_hits text (pos + 1)))))"

definition span_at :: "nat option list \<Rightarrow> nat option list \<Rightarrow> nat \<Rightarrow> nat option" where
  "span_at opens closes k = (case opens ! k of None \<Rightarrow> None | Some a \<Rightarrow> map_option (\<lambda>b. b - a) (closes ! k))"

definition best_of :: "nat option \<Rightarrow> (nat \<Rightarrow> nat option) \<Rightarrow> bool" where
  "best_of best sp = (case best of None \<Rightarrow> \<forall>k < 3. sp k = None
     | Some s \<Rightarrow> (\<exists>k < 3. sp k = Some s) \<and> (\<forall>k < 3. \<forall>s'. sp k = Some s' \<longrightarrow> s \<le> s'))"

lemma best_of_better:
  assumes "best_of best sp" "k < 3" "\<forall>j < 3. j \<noteq> k \<longrightarrow> sp' j = sp j" "sp k = None" "sp' k = Some s"
  shows "best_of (better best s) sp'"
proof (cases best)
  case None
  then show ?thesis using assms by (auto simp: best_of_def better_def)
next
  case (Some b)
  then obtain j where j: "j < 3" "sp j = Some b" "\<forall>k < 3. \<forall>s'. sp k = Some s' \<longrightarrow> b \<le> s'"
    using assms(1) by (auto simp: best_of_def)
  have "j \<noteq> k" using j(2) assms(4) by auto
  then have j': "sp' j = Some b" using assms(3) j by simp
  have "\<exists>i < 3. sp' i = Some (min b s)"
    using j(1) j' assms(2,5) by (cases "b \<le> s") (auto simp: min_def)
  moreover have "min b s \<le> s'" if "i < 3" "sp' i = Some s'" for i s'
    using that assms(3,5) j(3) by (cases "i = k") fastforce+
  ultimately show ?thesis by (simp add: best_of_def better_def Some)
qed

lemma best_of_cong: "best_of best sp \<Longrightarrow> \<forall>j < 3. sp' j = sp j \<Longrightarrow> best_of best sp'"
  by (auto simp: best_of_def split: option.splits)

lemma step_bracket_ok:
  assumes "length slots = 3" "length depths = 3"
  obtains found depths' slots' where "step_bracket hit side depths slots = Some (found, depths', slots')"
    "length slots' = 3" "length depths' = 3"
    "\<forall>k < 3. slots ! k = None \<longrightarrow> (depths' ! k, slots' ! k) = track_step k side (depths ! k, None) hit"
    "\<forall>k < 3. slots ! k \<noteq> None \<longrightarrow> slots' ! k = slots ! k"
    "case found of None \<Rightarrow> slots' = slots
     | Some k \<Rightarrow> k < 3 \<and> slots ! k = None \<and> slots' = slots[k := Some (fst hit)]"
proof (cases "bracket_role (snd hit)")
  case None
  then show thesis using assms by (intro that [of None depths slots]) (auto simp: step_bracket_def track_step_def)
next
  case (Some r)
  then obtain k b where r: "bracket_role (snd hit) = Some (k, b)" by (cases r) auto
  have k: "k < 3" by (rule bracket_role_kind [OF r])
  have st: "step_bracket hit side depths slots =
    (if slots ! k \<noteq> None then Some (None, depths, slots)
     else if b \<noteq> side then Some (None, depths[k := depths ! k + 1], slots)
     else if depths ! k > 0 then Some (None, depths[k := depths ! k - 1], slots)
     else Some (Some k, depths, slots[k := Some (fst hit)]))"
    using r k assms by (simp add: step_bracket_def nth_opt_def)
  consider "slots ! k \<noteq> None" | "slots ! k = None" "b \<noteq> side" | "slots ! k = None" "b = side" "depths ! k > 0"
    | "slots ! k = None" "b = side" "depths ! k = 0" by blast
  then show thesis
  proof cases
    case 1
    then show ?thesis using assms r st by (intro that [of None depths slots]) (auto simp: track_step_def)
  next
    case 2
    then show ?thesis using assms r st k
      by (intro that [of None "depths[k := depths ! k + 1]" slots]) (auto simp: track_step_def nth_list_update)
  next
    case 3
    then show ?thesis using assms r st k
      by (intro that [of None "depths[k := depths ! k - 1]" slots]) (auto simp: track_step_def nth_list_update)
  next
    case 4
    then show ?thesis using assms r st k
      by (intro that [of "Some k" depths "slots[k := Some (fst hit)]"]) (auto simp: track_step_def nth_list_update)
  qed
qed

definition unresolved :: "nat option list \<Rightarrow> nat set" where
  "unresolved xs = {k. k < 3 \<and> xs ! k = None}"

definition pending :: "nat option list \<Rightarrow> nat option list \<Rightarrow> nat set" where
  "pending opens closes = {k. k < 3 \<and> opens ! k \<noteq> None \<and> closes ! k = None}"

lemma finite_kinds [simp]: "finite (unresolved xs)" "finite (pending xs ys)"
  by (simp_all add: unresolved_def pending_def)

lemma unresolved_update: "length xs = 3 \<Longrightarrow> k < 3 \<Longrightarrow> unresolved (xs[k := Some i]) = unresolved xs - {k}"
  by (auto simp: unresolved_def nth_list_update split: if_splits)

definition tightest_inv :: "buffer_text \<Rightarrow> nat \<Rightarrow> tightest \<Rightarrow> bool" where
  "tightest_inv text pos st = (
     tg_dl st \<le> pos \<and> tg_dr st \<le> length (right_hits text (pos + 1)) \<and>
     tg_left_cursor st = pos - tg_dl st \<and> tg_right_cursor st = pos + 1 + tg_dr st \<and>
     length (tg_opens st) = 3 \<and> length (tg_closes st) = 3 \<and>
     length (tg_depths_left st) = 3 \<and> length (tg_depths_right st) = 3 \<and>
     (\<forall>k < 3. tg_opens st ! k = found_open text pos (tg_dl st) k) \<and>
     (\<forall>k < 3. tg_closes st ! k = found_close text pos (tg_dr st) (tg_opens st ! k) k) \<and>
     (\<forall>k < 3. tg_opens st ! k = None \<longrightarrow>
        tg_depths_left st ! k = fst (track k True (take (tg_dl st) (left_hits text pos)))) \<and>
     (\<forall>k < 3. tg_closes st ! k = None \<longrightarrow>
        tg_depths_right st ! k = fst (track k False (take (tg_dr st) (right_hits text (pos + 1))))) \<and>
     tg_opens_missing st = card (unresolved (tg_opens st)) \<and>
     tg_right_pending st = card (pending (tg_opens st) (tg_closes st)) \<and>
     best_of (tg_best_span st) (span_at (tg_opens st) (tg_closes st)) \<and>
     (tg_left_exhausted st \<longrightarrow> tg_dl st = pos) \<and>
     (tg_right_exhausted st \<longrightarrow> tg_dr st = length (right_hits text (pos + 1))))"

lemma found_bounds:
  "found_open text pos n k = Some a \<Longrightarrow> a \<le> pos"
  "found_close text pos n opened k = Some b \<Longrightarrow> pos \<le> b"
proof -
  assume "found_open text pos n k = Some a"
  moreover have "a < pos" if "snd (track k True (take n (left_hits text pos))) = Some a"
    using track_found_in [of k True "(0, None)" "take n (left_hits text pos)" a] that
    by (auto simp: track_def left_hits_def dest!: in_set_takeD)
  ultimately show "a \<le> pos" by (auto simp: found_open_def split: if_splits)
next
  assume "found_close text pos n opened k = Some b"
  moreover have "pos < b" if "snd (track k False (take n (right_hits text (pos + 1)))) = Some b"
    using track_found_in [of k False "(0, None)" "take n (right_hits text (pos + 1))" b] that
    by (auto simp: track_def right_hits_def dest!: in_set_takeD)
  ultimately show "pos \<le> b" by (auto simp: found_close_def split: if_splits)
qed

lemma take_hits:
  "n < pos \<Longrightarrow> take (Suc n) (left_hits text pos) = take n (left_hits text pos) @ [(pos - Suc n, rope text ! (pos - Suc n))]"
  "n < length (right_hits text i) \<Longrightarrow> take (Suc n) (right_hits text i) = take n (right_hits text i) @ [(i + n, rope text ! (i + n))]"
  by (simp_all add: take_Suc_conv_app_nth left_hits_def right_hits_def rev_nth)

lemma found_mono:
  "found_open text pos n k = Some a \<Longrightarrow> n < pos \<Longrightarrow> found_open text pos (Suc n) k = Some a"
  "found_close text pos n opened k = Some a \<Longrightarrow> n < length (right_hits text (pos + 1)) \<Longrightarrow>
    found_close text pos (Suc n) opened k = Some a"
  by (auto simp: found_open_def found_close_def take_hits track_append_found split: if_splits)

lemma left_turn_ok:
  assumes inv: "tightest_inv text pos st" and live: "\<not> tg_left_exhausted st"
    and pos: "pos < len_chars text" and role: "role = bracket_role (rope text ! pos)"
  shows "\<exists>st'. left_turn text pos role st = Some st' \<and> tightest_inv text pos st' \<and>
    tg_right_exhausted st' = tg_right_exhausted st"
proof (cases "tg_dl st = pos")
  case True
  then show ?thesis using inv by (simp add: left_turn_def cursor_prev_def tightest_inv_def)
next
  case False
  note i = inv [unfolded tightest_inv_def]
  define n where "n = tg_dl st"
  define at where "at = pos - Suc n"
  have n: "n < pos" using i False by (simp add: n_def)
  let ?hit = "(at, rope text ! at)"
  have prev: "cursor_prev text (tg_left_cursor st) = Some (?hit, at)"
    using i n pos by (simp add: cursor_prev_def nth_opt_def n_def [symmetric] at_def len_chars_def)
  have len: "length (tg_opens st) = 3" "length (tg_depths_left st) = 3" using i by auto
  obtain found depths opens where s: "step_bracket ?hit True (tg_depths_left st) (tg_opens st) = Some (found, depths, opens)"
    "length opens = 3" "length depths = 3"
    "\<forall>k < 3. tg_opens st ! k = None \<longrightarrow> (depths ! k, opens ! k) = track_step k True (tg_depths_left st ! k, None) ?hit"
    "\<forall>k < 3. tg_opens st ! k \<noteq> None \<longrightarrow> opens ! k = tg_opens st ! k"
    "case found of None \<Rightarrow> opens = tg_opens st
     | Some k \<Rightarrow> k < 3 \<and> tg_opens st ! k = None \<and> opens = (tg_opens st)[k := Some at]"
    by (rule step_bracket_ok [OF len, of ?hit True, unfolded fst_conv])
  let ?st = "st\<lparr>tg_left_cursor := at, tg_dl := Suc n, tg_depths_left := depths, tg_opens := opens\<rparr>"
  have L: "take (Suc n) (left_hits text pos) = take n (left_hits text pos) @ [?hit]"
    using take_hits(1) [OF n, of "text"] by (simp add: at_def)
  have opened: "opens ! k = found_open text pos (Suc n) k \<and>
      (opens ! k = None \<longrightarrow> depths ! k = fst (track k True (take (Suc n) (left_hits text pos))))" if k: "k < 3" for k
  proof (cases "tg_opens st ! k")
    case None
    then have o': "rope text ! pos \<noteq> open_of k" "snd (track k True (take n (left_hits text pos))) = None"
      using i k by (auto simp: found_open_def n_def split: if_splits)
    moreover have "fst (track k True (take n (left_hits text pos))) = tg_depths_left st ! k"
      using i k None by (simp add: n_def)
    ultimately have "track k True (take n (left_hits text pos)) = (tg_depths_left st ! k, None)" by (simp add: prod_eq_iff)
    then have "track k True (take (Suc n) (left_hits text pos)) = (depths ! k, opens ! k)"
      using s(4) k None by (simp add: L track_snoc)
    then show ?thesis using o' by (simp add: found_open_def)
  next
    case (Some a)
    then have "found_open text pos n k = Some a" using i k by (simp add: n_def)
    with Some s(5) k n show ?thesis by (simp add: found_mono)
  qed
  have turn: "left_turn text pos role st =
      (case found of None \<Rightarrow> Some ?st | Some k \<Rightarrow> open_found pos role k at ?st)"
    using s(1) by (simp add: left_turn_def prev n_def Let_def split: option.split)
  show ?thesis
  proof (cases found)
    case None
    then have "tightest_inv text pos ?st" using i n opened s(2,3,6) live
      by (simp add: tightest_inv_def at_def)
    then show ?thesis using turn None by simp
  next
    case (Some k)
    then have k: "k < 3" "tg_opens st ! k = None" "opens = (tg_opens st)[k := Some at]" using s(6) by auto
    have miss: "card (unresolved (tg_opens st)) = Suc (card (unresolved opens))"
    proof -
      have "k \<in> unresolved (tg_opens st)" using k by (simp add: unresolved_def)
      moreover have "unresolved opens = unresolved (tg_opens st) - {k}" using k(1,3) len(1) by (simp add: unresolved_update)
      ultimately show ?thesis by (metis card_Suc_Diff1 finite_kinds(1))
    qed
    let ?m = "?st\<lparr>tg_opens_missing := card (unresolved opens)\<rparr>"
    have ok': "tightest_inv text pos st'" if st': "tg_left_cursor st' = at" "tg_right_cursor st' = tg_right_cursor st"
        "tg_dl st' = Suc n" "tg_dr st' = tg_dr st" "tg_depths_left st' = depths" "tg_depths_right st' = tg_depths_right st"
        "tg_opens st' = opens" "tg_opens_missing st' = card (unresolved opens)"
        "tg_left_exhausted st' = tg_left_exhausted st" "tg_right_exhausted st' = tg_right_exhausted st"
        "length (tg_closes st') = 3" "\<forall>j < 3. j \<noteq> k \<longrightarrow> tg_closes st' ! j = tg_closes st ! j"
        "tg_closes st' ! k = found_close text pos (tg_dr st) (Some at) k"
        "tg_closes st' ! k = None \<longrightarrow> tg_closes st ! k = None"
        "tg_right_pending st' = card (pending opens (tg_closes st'))"
        "best_of (tg_best_span st') (span_at opens (tg_closes st'))" for st' :: tightest
    proof -
      have c: "tg_closes st' ! j = found_close text pos (tg_dr st) (opens ! j) j \<and>
          (tg_closes st' ! j = None \<longrightarrow> tg_closes st ! j = None)" if "j < 3" for j
        using that i k st'(12,13,14) by (cases "j = k") (auto simp: nth_list_update)
      show ?thesis using i n opened s(2,3) st' live c by (simp add: tightest_inv_def at_def)
    qed
    have sp: "span_at (tg_opens st) (tg_closes st) k = None" using k by (simp add: span_at_def)
    have sp': "\<forall>j < 3. j \<noteq> k \<longrightarrow> span_at opens cs j = span_at (tg_opens st) (tg_closes st) j"
      if "\<forall>j < 3. j \<noteq> k \<longrightarrow> cs ! j = tg_closes st ! j" for cs
      using that k by (auto simp: span_at_def split: option.split)
    have k_open: "cs ! k = Some b \<Longrightarrow> span_at opens cs k = Some (b - at)" for cs b
      using k(1,3) len(1) by (simp add: span_at_def)
    have best: "best_of (tg_best_span st) (span_at (tg_opens st) (tg_closes st))" using i by simp
    show ?thesis
    proof (cases "role = Some (k, False)")
      case True
      then have cl: "rope text ! pos = close_of k" using bracket_role_of(2) [OF k(1)] role by simp
      let ?r = "?m\<lparr>tg_closes := (tg_closes st)[k := Some pos], tg_best_span := better (tg_best_span st) (pos - at)\<rparr>"
      have "left_turn text pos role st = Some ?r"
        using turn Some True i miss k by (simp add: open_found_def checked_sub_def nth_opt_def at_def)
      moreover have "tightest_inv text pos ?r"
      proof (rule ok')
        have "pending opens ((tg_closes st)[k := Some pos]) = pending (tg_opens st) (tg_closes st)"
          using k i by (auto simp: pending_def nth_list_update split: if_splits)
        then show "tg_right_pending ?r = card (pending opens (tg_closes ?r))" using i by simp
        show "best_of (tg_best_span ?r) (span_at opens (tg_closes ?r))"
          using best_of_better [OF best k(1) sp' sp, of "(tg_closes st)[k := Some pos]" "pos - at"] k(1) i
            k_open [of "(tg_closes st)[k := Some pos]" pos] by simp
      qed (use i k cl in \<open>auto simp: found_close_def\<close>)
      ultimately show ?thesis by simp
    next
      case False
      then have cl: "rope text ! pos \<noteq> close_of k" using bracket_role_of(2) [OF k(1)] role by simp
      have ck: "tg_closes st ! k = found_close text pos (tg_dr st) (Some at) k"
        using i k cl by (simp add: found_close_def)
      show ?thesis
      proof (cases "tg_closes st ! k")
        case None
        let ?r = "?m\<lparr>tg_right_pending := tg_right_pending st + 1\<rparr>"
        have "left_turn text pos role st = Some ?r"
          using turn Some False i miss k None by (simp add: open_found_def checked_sub_def nth_opt_def)
        moreover have "tightest_inv text pos ?r"
        proof (rule ok')
          have "pending opens (tg_closes st) = insert k (pending (tg_opens st) (tg_closes st))"
            using k i None by (auto simp: pending_def nth_list_update split: if_splits)
          moreover have "k \<notin> pending (tg_opens st) (tg_closes st)" using k by (simp add: pending_def)
          ultimately show "tg_right_pending ?r = card (pending opens (tg_closes ?r))" using i by simp
          have "\<forall>j < 3. span_at opens (tg_closes st) j = span_at (tg_opens st) (tg_closes st) j"
            using sp' [of "tg_closes st"] sp None by (metis k(3) map_option_is_None option.case_eq_if span_at_def)
          then show "best_of (tg_best_span ?r) (span_at opens (tg_closes ?r))" using best_of_cong [OF best] by simp
        qed (use i k cl ck in auto)
        ultimately show ?thesis by simp
      next
        case (Some c)
        have "at \<le> c" using found_bounds(2) ck Some n by (metis at_def diff_le_self order_trans)
        let ?r = "?m\<lparr>tg_best_span := better (tg_best_span st) (c - at)\<rparr>"
        have "left_turn text pos role st = Some ?r"
          using turn \<open>found = Some k\<close> False i miss k Some \<open>at \<le> c\<close> by (simp add: open_found_def checked_sub_def nth_opt_def)
        moreover have "tightest_inv text pos ?r"
        proof (rule ok')
          have "pending opens (tg_closes st) = pending (tg_opens st) (tg_closes st)"
            using k i Some by (auto simp: pending_def nth_list_update split: if_splits)
          then show "tg_right_pending ?r = card (pending opens (tg_closes ?r))" using i by simp
          show "best_of (tg_best_span ?r) (span_at opens (tg_closes ?r))"
            using best_of_better [OF best k(1) sp' sp, of "tg_closes st" "c - at"] k_open [OF Some] by simp
        qed (use i k cl ck in auto)
        ultimately show ?thesis by simp
      qed
    qed
  qed
qed

lemma right_turn_ok:
  assumes inv: "tightest_inv text pos st" and live: "\<not> tg_right_exhausted st" and pos: "pos < len_chars text"
  shows "\<exists>st'. right_turn text st = Some st' \<and> tightest_inv text pos st'"
proof (cases "tg_dr st = length (right_hits text (pos + 1))")
  case True
  then have "cursor_next text (tg_right_cursor st) = None"
    using inv pos by (auto simp: cursor_next_def tightest_inv_def nth_opt_def right_hits_def len_chars_def)
  then show ?thesis using inv True by (simp add: right_turn_def tightest_inv_def)
next
  case False
  note i = inv [unfolded tightest_inv_def]
  define n where "n = tg_dr st"
  define at where "at = pos + 1 + n"
  have n: "n < length (right_hits text (pos + 1))" using i False by (simp add: n_def)
  let ?hit = "(at, rope text ! at)"
  have "at < len_chars text" using n by (simp add: right_hits_def at_def)
  then have nxt: "cursor_next text (tg_right_cursor st) = Some (?hit, at + 1)"
    using i by (simp add: cursor_next_def nth_opt_def n_def [symmetric] at_def len_chars_def)
  have len: "length (tg_closes st) = 3" "length (tg_depths_right st) = 3" "length (tg_opens st) = 3" using i by auto
  obtain found depths closes where s: "step_bracket ?hit False (tg_depths_right st) (tg_closes st) = Some (found, depths, closes)"
    "length closes = 3" "length depths = 3"
    "\<forall>k < 3. tg_closes st ! k = None \<longrightarrow> (depths ! k, closes ! k) = track_step k False (tg_depths_right st ! k, None) ?hit"
    "\<forall>k < 3. tg_closes st ! k \<noteq> None \<longrightarrow> closes ! k = tg_closes st ! k"
    "case found of None \<Rightarrow> closes = tg_closes st
     | Some k \<Rightarrow> k < 3 \<and> tg_closes st ! k = None \<and> closes = (tg_closes st)[k := Some at]"
    by (rule step_bracket_ok [OF len(1,2), of ?hit False, unfolded fst_conv])
  let ?st = "st\<lparr>tg_right_cursor := at + 1, tg_dr := Suc n, tg_depths_right := depths, tg_closes := closes\<rparr>"
  have R: "take (Suc n) (right_hits text (pos + 1)) = take n (right_hits text (pos + 1)) @ [?hit]"
    using take_hits(2) [OF n] by (simp add: at_def)
  have closed: "closes ! k = found_close text pos (Suc n) (tg_opens st ! k) k \<and>
      (closes ! k = None \<longrightarrow> depths ! k = fst (track k False (take (Suc n) (right_hits text (pos + 1)))))" if k: "k < 3" for k
  proof (cases "tg_closes st ! k")
    case None
    then have o': "\<not> (rope text ! pos = close_of k \<and> tg_opens st ! k \<noteq> None)"
        "snd (track k False (take n (right_hits text (pos + 1)))) = None"
      using i k by (auto simp: found_close_def n_def split: if_splits)
    moreover have "fst (track k False (take n (right_hits text (pos + 1)))) = tg_depths_right st ! k"
      using i k None by (simp add: n_def)
    ultimately have "track k False (take n (right_hits text (pos + 1))) = (tg_depths_right st ! k, None)"
      by (simp add: prod_eq_iff)
    then have "track k False (take (Suc n) (right_hits text (pos + 1))) = (depths ! k, closes ! k)"
      unfolding R track_snoc using s(4) k None by simp
    then show ?thesis using o' by (auto simp: found_close_def)
  next
    case (Some a)
    then have "found_close text pos n (tg_opens st ! k) k = Some a" using i k by (simp add: n_def)
    with Some s(5) k n show ?thesis by (simp add: found_mono)
  qed
  have turn: "right_turn text st = (case found of None \<Rightarrow> Some ?st | Some k \<Rightarrow> close_found k at ?st)"
    using s(1) by (simp add: right_turn_def nxt n_def Let_def split: option.split)
  have ok': "tightest_inv text pos (?st\<lparr>tg_right_pending := p, tg_best_span := b\<rparr>)"
    if "p = card (pending (tg_opens st) closes)" "best_of b (span_at (tg_opens st) closes)" for p b
    using i n closed s(2,3) live that by (simp add: tightest_inv_def at_def)
  have ok0: "tightest_inv text pos ?st"
    if "tg_right_pending st = card (pending (tg_opens st) closes)" "best_of (tg_best_span st) (span_at (tg_opens st) closes)"
    using i n closed s(2,3) live that by (simp add: tightest_inv_def at_def)
  have best: "best_of (tg_best_span st) (span_at (tg_opens st) (tg_closes st))" using i by simp
  have pend: "tg_right_pending st = card (pending (tg_opens st) (tg_closes st))" using i by simp
  show ?thesis
  proof (cases found)
    case None
    then show ?thesis using turn ok0 pend best s(6) by simp
  next
    case (Some k)
    then have k: "k < 3" "tg_closes st ! k = None" "closes = (tg_closes st)[k := Some at]" using s(6) by auto
    have others: "\<forall>j < 3. j \<noteq> k \<longrightarrow> span_at (tg_opens st) closes j = span_at (tg_opens st) (tg_closes st) j"
      using k by (auto simp: span_at_def split: option.split)
    show ?thesis
    proof (cases "tg_opens st ! k")
      case None
      have "pending (tg_opens st) closes = pending (tg_opens st) (tg_closes st)"
        using k None len by (auto simp: pending_def nth_list_update split: if_splits)
      moreover have "\<forall>j < 3. span_at (tg_opens st) closes j = span_at (tg_opens st) (tg_closes st) j"
      proof (intro allI impI)
        fix j :: nat assume "j < 3"
        then show "span_at (tg_opens st) closes j = span_at (tg_opens st) (tg_closes st) j"
          using others None by (cases "j = k") (simp_all add: span_at_def)
      qed
      ultimately have "tightest_inv text pos ?st"
        using ok0 pend best_of_cong [OF best] by simp
      then show ?thesis using turn Some None k(1) len by (simp add: close_found_def nth_opt_def)
    next
      case (Some a)
      have "found_open text pos (tg_dl st) k = Some a" using i k(1) Some by simp
      from found_bounds(1) [OF this] have a: "a \<le> at" by (simp add: at_def)
      have "k \<in> pending (tg_opens st) (tg_closes st)" using k Some by (simp add: pending_def)
      moreover have "pending (tg_opens st) closes = pending (tg_opens st) (tg_closes st) - {k}"
        using k len by (auto simp: pending_def nth_list_update split: if_splits)
      ultimately have p: "tg_right_pending st = Suc (card (pending (tg_opens st) closes))"
        using pend by (metis card_Suc_Diff1 finite_kinds(2))
      have "span_at (tg_opens st) closes k = Some (at - a)" "span_at (tg_opens st) (tg_closes st) k = None"
        using k Some len by (simp_all add: span_at_def)
      from best_of_better [OF best k(1) others this(2,1)]
      have "tightest_inv text pos (?st\<lparr>tg_right_pending := card (pending (tg_opens st) closes),
          tg_best_span := better (tg_best_span st) (at - a)\<rparr>)" by (rule ok' [OF refl])
      then show ?thesis using turn \<open>found = Some k\<close> Some k(1) len p a
        by (simp add: close_found_def nth_opt_def checked_sub_def)
    qed
  qed
qed

lemma tightest_loop_ok:
  assumes "tightest_inv text pos st" "pos < len_chars text" "role = bracket_role (rope text ! pos)"
  shows "\<exists>st'. tightest_loop text pos role st = Some st' \<and> tightest_inv text pos st' \<and>
    \<not> left_live st' \<and> \<not> right_live st'"
  using assms
proof (induction "text" pos role st rule: tightest_loop.induct)
  case (1 "text" pos role st)
  show ?case
  proof (cases "\<not> left_live st \<and> \<not> right_live st")
    case True
    then show ?thesis using "1.prems"(1) by (simp add: tightest_loop.simps)
  next
    case False
    have "\<exists>s. (if left_live st then left_turn text pos role st else Some st) = Some s \<and> tightest_inv text pos s \<and>
        tg_right_exhausted s = tg_right_exhausted st"
      using left_turn_ok [OF "1.prems"(1) _ "1.prems"(2,3)] "1.prems"(1) by (auto simp: left_live_def)
    then obtain s where s: "(if left_live st then left_turn text pos role st else Some st) = Some s"
      "tightest_inv text pos s" "tg_right_exhausted s = tg_right_exhausted st" by blast
    have "\<exists>s'. (if right_live st then right_turn text s else Some s) = Some s' \<and> tightest_inv text pos s'"
      using right_turn_ok [OF s(2) _ "1.prems"(2)] s(2,3) by (auto simp: right_live_def)
    then obtain s' where s': "(if right_live st then right_turn text s else Some s) = Some s'"
      "tightest_inv text pos s'" by blast
    have turn: "tightest_turn text pos role st = Some s'"
      using s(1) s'(1) by (simp add: tightest_turn_def)
    have "\<exists>st'. tightest_loop text pos role s' = Some st' \<and> tightest_inv text pos st' \<and>
        \<not> left_live st' \<and> \<not> right_live st'"
      by (rule "1.IH" [OF False turn s'(2) "1.prems"(2,3)])
    moreover have "tightest_loop text pos role st = tightest_loop text pos role s'"
      using False turn by (subst tightest_loop.simps) auto
    ultimately show ?thesis by simp
  qed
qed

lemma tightest_start_inv:
  assumes "pos < len_chars text"
  shows "tightest_inv text pos (tightest_start pos (bracket_role (rope text ! pos)))"
proof -
  have t0: "track k b [] = (0, None)" for k b by (simp add: track_def)
  have 3: "{k :: nat. k < 3} = {0, 1, 2}" by auto
  show ?thesis
  proof (cases "\<exists>k. bracket_role (rope text ! pos) = Some (k, True)")
    case True
    then obtain k where r: "bracket_role (rope text ! pos) = Some (k, True)" by blast
    have k: "k < 3" by (rule bracket_role_kind [OF r])
    have o': "rope text ! pos = open_of j \<longleftrightarrow> j = k" if "j < 3" for j
      using bracket_role_of(1) [OF that, of "rope text ! pos"] r by auto
    have c': "rope text ! pos \<noteq> close_of j" if "j < 3" for j
      using bracket_role_of(2) [OF that, of "rope text ! pos"] r by auto
    have u: "unresolved ((replicate 3 None)[k := Some pos]) = {j. j < 3} - {k}"
      by (auto simp: unresolved_def nth_list_update)
    have p: "pending ((replicate 3 None)[k := Some pos]) (replicate 3 None) = {k}"
      using k by (auto simp: pending_def nth_list_update)
    have "card ({j. j < 3} - {k}) = 2" using k by (simp add: card_Diff_singleton)
    then show ?thesis using k
      by (auto simp: tightest_start_def r BRACKET_PAIRS_def tightest_inv_def found_open_def found_close_def o' c' t0
          nth_list_update best_of_def span_at_def numeral_3_eq_3 [symmetric] u [simplified] p [simplified]
          simp flip: numeral_eq_Suc split: option.split)
  next
    case False
    have o': "rope text ! pos \<noteq> open_of j" if "j < 3" for j
      using bracket_role_of(1) [OF that, of "rope text ! pos"] False by auto
    have u: "unresolved (replicate 3 None) = {j. j < 3}" "pending (replicate 3 None) (replicate 3 None) = {}"
      by (auto simp: unresolved_def pending_def)
    have st: "tightest_start pos (bracket_role (rope text ! pos)) = tightest_start pos None"
      using False by (cases "bracket_role (rope text ! pos)") (auto simp: tightest_start_def Let_def split: bool.split)
    show ?thesis unfolding st
      by (simp add: tightest_start_def BRACKET_PAIRS_def tightest_inv_def found_open_def found_close_def o' t0
          best_of_def span_at_def numeral_3_eq_3 [symmetric] u [simplified] flip: numeral_eq_Suc)
  qed
qed

section \<open>The first of the smallest\<close>

lemma min_by_key_find:
  "fold (\<lambda>y best. if f y < f best then y else best) xs x = y \<longleftrightarrow>
     find (\<lambda>y. f y = Min (f ` set (x # xs))) (x # xs) = Some y" for f :: "'a \<Rightarrow> nat"
proof (induction xs arbitrary: x)
  case (Cons z zs)
  show ?case
  proof (cases "f z < f x")
    case True
    moreover have "Min (f ` set (x # z # zs)) = min (f x) (Min (f ` set (z # zs)))"
      using Min_insert [of "f ` set (z # zs)" "f x"] by simp
    moreover have "Min (f ` set (z # zs)) \<le> f z" by simp
    ultimately have "Min (f ` set (x # z # zs)) = Min (f ` set (z # zs))" "Min (f ` set (z # zs)) \<noteq> f x" by linarith+
    then show ?thesis using Cons.IH [of z] True by (simp del: set_simps)
  next
    case False
    have le: "Min (f ` set (x # zs)) \<le> f x" by simp
    have "insert (f z) (f ` set (x # zs)) = f ` set (x # z # zs)" by auto
    then have "Min (f ` set (x # z # zs)) = min (f z) (Min (f ` set (x # zs)))"
      using Min_insert [of "f ` set (x # zs)" "f z"] by simp
    then have m: "Min (f ` set (x # z # zs)) = Min (f ` set (x # zs))" using False le by linarith
    show ?thesis using Cons.IH [of x] False m le by (auto simp del: set_simps)
  qed
qed auto

lemma min_by_key_eq: "min_by_key f xs = find (\<lambda>y. f y = Min (f ` set xs)) xs"
proof (cases xs)
  case (Cons x ys)
  then show ?thesis using min_by_key_find [of f ys x] by (metis min_by_key.simps(2))
qed simp

lemma find_map_filter_eq:
  "\<forall>k \<in> set ks. q k = p k \<or> q k = None \<and> (\<forall>x. p k = Some x \<longrightarrow> \<not> P x) \<Longrightarrow>
    find P (List.map_filter q ks) = find P (List.map_filter p ks)"
  by (induction ks) (auto simp: map_filter_simps split: option.splits)

lemma set_map_filter_eq: "set (List.map_filter q ks) = {x. \<exists>k \<in> set ks. q k = Some x}"
  by (auto simp: List.map_filter_def) force

lemma min_by_key_cut:
  assumes c: "\<forall>k \<in> set ks. q k = p k \<or> q k = None \<and>
    (\<forall>x. p k = Some x \<longrightarrow> (\<exists>j \<in> set ks. \<exists>y. q j = Some y \<and> f y < f x))"
  shows "min_by_key f (List.map_filter q ks) = min_by_key f (List.map_filter p ks)"
proof -
  let ?Q = "f ` set (List.map_filter q ks)" and ?P = "f ` set (List.map_filter p ks)"
  have sub: "?Q \<subseteq> ?P" using c by (fastforce simp: set_map_filter_eq)
  have below: "\<exists>b \<in> ?Q. b \<le> a" if "a \<in> ?P" for a
  proof -
    from that obtain x where "a = f x" "x \<in> set (List.map_filter p ks)" by (rule imageE)
    then obtain k where k: "k \<in> set ks" "p k = Some x" "a = f x" by (auto simp: set_map_filter_eq)
    show ?thesis
    proof (cases "q k = p k")
      case True
      then show ?thesis using k by (force simp: set_map_filter_eq)
    next
      case False
      then obtain j y where "j \<in> set ks" "q j = Some y" "f y < f x" using c k by blast
      then show ?thesis using k(3) by (force simp: set_map_filter_eq)
    qed
  qed
  have m: "Min ?Q = Min ?P"
  proof (cases "?P = {}")
    case False
    then obtain a where "a \<in> ?P" by (meson ex_in_conv)
    from below [OF this] have ne: "?Q \<noteq> {}" by (metis empty_iff)
    have "Min ?P \<in> ?P" by (rule Min_in [OF _ False]) simp
    from below [OF this] obtain b where b: "b \<in> ?Q" "b \<le> Min ?P" by (rule bexE)
    have "Min ?Q \<le> b" by (rule Min_le [OF _ b(1)]) simp
    then have "Min ?Q \<le> Min ?P" using b(2) by simp
    moreover have "Min ?P \<le> Min ?Q" using Min_antimono [OF sub ne] by simp
    ultimately show ?thesis by simp
  qed (use sub in simp)
  show ?thesis unfolding min_by_key_eq m
  proof (rule find_map_filter_eq, intro ballI)
    fix k assume k: "k \<in> set ks"
    have "f x \<noteq> Min ?P" if x: "q k \<noteq> p k" "p k = Some x" for x
    proof -
      obtain j y where "j \<in> set ks" "q j = Some y" "f y < f x" using c k x by blast
      moreover from this have "f y \<in> ?P" using sub by (force simp: set_map_filter_eq)
      then have "Min ?P \<le> f y" by (intro Min_le) simp
      ultimately show ?thesis by simp
    qed
    with c k show "q k = p k \<or> q k = None \<and> (\<forall>x. p k = Some x \<longrightarrow> \<not> f x = Min ?P)" by blast
  qed
qed

lemma min_by_key_map: "min_by_key fst (map (\<lambda>x. (f x, x)) xs) = map_option (\<lambda>x. (f x, x)) (min_by_key f xs)"
proof (cases xs)
  case (Cons x ys)
  have "fold (\<lambda>y best. if fst y < fst best then y else best) (map (\<lambda>x. (f x, x)) ys) (f x, x) =
    (let b = fold (\<lambda>y best. if f y < f best then y else best) ys x in (f b, b))" for x
    by (induction ys arbitrary: x) (simp_all add: Let_def)
  then show ?thesis using Cons by (simp add: Let_def)
qed simp

section \<open>The tightest pair\<close>

definition full_pair :: "buffer_text \<Rightarrow> nat \<Rightarrow> nat \<Rightarrow> (nat \<times> nat) option" where
  "full_pair text pos k = (case full_open text pos k of None \<Rightarrow> None | Some p \<Rightarrow> map_option (Pair p) (full_close text pos k))"

lemma found_full:
  "found_open text pos n k = Some a \<Longrightarrow> full_open text pos k = Some a"
  "found_close text pos n (Some a') k = Some b \<Longrightarrow> full_close text pos k = Some b"
  by (auto simp: found_open_def full_open_def found_close_def full_close_def split: if_splits)
    (metis append_take_drop_id track_append_found)+

lemma full_beyond:
  "found_open text pos n k = None \<Longrightarrow> full_open text pos k = Some a \<Longrightarrow> a + n < pos"
  "found_close text pos n opened k = None \<Longrightarrow> rope text ! pos \<noteq> close_of k \<Longrightarrow>
     full_close text pos k = Some b \<Longrightarrow> pos + n < b"
proof -
  assume "found_open text pos n k = None" "full_open text pos k = Some a"
  then have "a \<in> fst ` set (drop n (left_hits text pos))"
    using track_append_more [of k True "take n (left_hits text pos)" "drop n (left_hits text pos)" a]
    by (auto simp: found_open_def full_open_def split: if_splits)
  then show "a + n < pos" by (auto simp: left_hits_def drop_map rev_nth in_set_conv_nth)
next
  assume "found_close text pos n opened k = None" "rope text ! pos \<noteq> close_of k" "full_close text pos k = Some b"
  then have "b \<in> fst ` set (drop n (right_hits text (pos + 1)))"
    using track_append_more [of k False "take n (right_hits text (pos + 1))" "drop n (right_hits text (pos + 1))" b]
    by (auto simp: found_close_def full_close_def split: if_splits)
  then show "pos + n < b" by (auto simp: right_hits_def drop_map in_set_conv_nth)
qed

lemma full_bounds:
  "full_open text pos k = Some a \<Longrightarrow> a \<le> pos"
  "full_close text pos k = Some b \<Longrightarrow> pos \<le> b"
  using found_bounds(1) [of "text" pos pos k a] found_bounds(2) [of "text" pos "length (right_hits text (pos + 1))" "Some 0" k b]
  by (simp_all add: found_open_def full_open_def found_close_def full_close_def left_hits_def split: if_splits)

lemma tightest_exit:
  assumes inv: "tightest_inv text pos st" and stop: "\<not> left_live st" "\<not> right_live st" and k: "k < 3"
  defines "q \<equiv> \<lambda>k. Option.bind (tg_opens st ! k) (\<lambda>a. map_option (Pair a) (tg_closes st ! k))"
  shows "q k = full_pair text pos k \<or> q k = None \<and>
    (\<forall>x. full_pair text pos k = Some x \<longrightarrow> (\<exists>j < 3. \<exists>y. q j = Some y \<and> snd y - fst y < snd x - fst x))"
proof -
  note i = inv [unfolded tightest_inv_def]
  have o': "tg_opens st ! k = found_open text pos (tg_dl st) k"
    "tg_closes st ! k = found_close text pos (tg_dr st) (tg_opens st ! k) k" using i k by auto
  have best: "\<exists>j < 3. \<exists>y. q j = Some y \<and> snd y - fst y = s" if "tg_best_span st = Some s" for s
  proof -
    have "best_of (Some s) (span_at (tg_opens st) (tg_closes st))" using i that by simp
    then obtain j where "j < 3" "span_at (tg_opens st) (tg_closes st) j = Some s" by (auto simp: best_of_def)
    then show ?thesis by (intro exI [of _ j]) (auto simp: q_def span_at_def split: option.splits)
  qed
  show ?thesis
  proof (cases "tg_opens st ! k")
    case None
    then have "k \<in> unresolved (tg_opens st)" using k by (simp add: unresolved_def)
    then have "tg_opens_missing st > 0" using i by (metis card_gt_0_iff empty_iff finite_kinds(1))
    then consider "tg_left_exhausted st" | s where "tg_best_span st = Some s" "s \<le> tg_dl st"
      using stop(1) by (auto simp: left_live_def within_bound_def split: option.splits)
    then show ?thesis
    proof cases
      case 1
      then have "full_open text pos k = None"
        using i o' None by (auto simp: found_open_def full_open_def left_hits_def split: if_splits)
      then show ?thesis using None by (simp add: q_def full_pair_def)
    next
      case 2
      obtain j y where j: "j < 3" "q j = Some y" "snd y - fst y = s" using best [OF 2(1)] by blast
      have "s < snd x - fst x" if x: "full_pair text pos k = Some x" for x
        using x full_beyond(1) [of "text" pos "tg_dl st" k "fst x"] full_bounds(2) [of "text" pos k "snd x"] o' None 2(2)
        by (auto simp: full_pair_def split: option.splits)
      moreover have "q k = None" using None by (simp add: q_def)
      ultimately show ?thesis using j by blast
    qed
  next
    case (Some a)
    have fo: "full_open text pos k = Some a" using found_full(1) [of "text" pos "tg_dl st" k a] o'(1) Some by simp
    show ?thesis
    proof (cases "tg_closes st ! k")
      case None
      then have nc: "found_close text pos (tg_dr st) (Some a) k = None" using o'(2) Some by simp
      then have cl: "rope text ! pos \<noteq> close_of k" by (auto simp: found_close_def)
      have "k \<in> pending (tg_opens st) (tg_closes st)" using k None Some by (simp add: pending_def)
      then have "tg_right_pending st > 0" using i by (metis card_gt_0_iff empty_iff finite_kinds(2))
      then consider "tg_right_exhausted st" | s where "tg_best_span st = Some s" "s \<le> tg_dr st"
        using stop(2) by (auto simp: right_live_def within_bound_def split: option.splits)
      then show ?thesis
      proof cases
        case 1
        then have "full_close text pos k = None"
          using i nc cl by (auto simp: found_close_def full_close_def split: if_splits)
        then show ?thesis using None Some by (simp add: q_def full_pair_def fo)
      next
        case 2
        obtain j y where j: "j < 3" "q j = Some y" "snd y - fst y = s" using best [OF 2(1)] by blast
        have "s < snd x - fst x" if x: "full_pair text pos k = Some x" for x
          using x full_beyond(2) [of "text" pos "tg_dr st" "Some a" k "snd x"] full_bounds(1) [of "text" pos k "fst x"] nc cl 2(2)
          by (auto simp: full_pair_def split: option.splits)
        moreover have "q k = None" using None Some by (simp add: q_def)
        ultimately show ?thesis using j by blast
      qed
    next
      case (Some b)
      have "found_close text pos (tg_dr st) (Some a) k = Some b" using o'(2) Some \<open>tg_opens st ! k = Some a\<close> by simp
      from found_full(2) [OF this] show ?thesis
        using Some \<open>tg_opens st ! k = Some a\<close> by (simp add: q_def full_pair_def fo)
    qed
  qed
qed

lemma tightest_at_eq:
  assumes pos: "pos < len_chars text"
  shows "tightest_at text pos (rope text ! pos) =
    Some (min_by_key (\<lambda>(a, b). b - a) (List.map_filter (full_pair text pos) [0..<3]))"
proof -
  let ?role = "bracket_role (rope text ! pos)"
  obtain st where st: "tightest_loop text pos ?role (tightest_start pos ?role) = Some st"
    "tightest_inv text pos st" "\<not> left_live st" "\<not> right_live st"
    using tightest_loop_ok [OF tightest_start_inv [OF pos] pos refl] by blast
  define q where "q k = Option.bind (tg_opens st ! k) (\<lambda>a. map_option (Pair a) (tg_closes st ! k))" for k
  let ?found = "List.map_filter (\<lambda>(a, b). Option.bind a (\<lambda>a. map_option (Pair a) b)) (zip (tg_opens st) (tg_closes st))"
  note i = st(2) [unfolded tightest_inv_def]
  have "zip (tg_opens st) (tg_closes st) = map (\<lambda>k. (tg_opens st ! k, tg_closes st ! k)) [0..<3]"
    using i by (intro nth_equalityI) auto
  then have found: "?found = List.map_filter q [0..<3]"
    by (simp add: List.map_filter_def filter_map o_def q_def)
  have le: "fst x \<le> snd x" if x: "x \<in> set ?found" for x
  proof -
    obtain k where "k < 3" "q k = Some x" using x by (auto simp: found set_map_filter_eq)
    then show ?thesis using i found_bounds by (fastforce simp: q_def bind_eq_Some_conv)
  qed
  have "those (map (\<lambda>(a, b). checked_sub b a) xs) = Some (map (\<lambda>(a, b). b - a) xs)"
    if "\<forall>x \<in> set xs. fst x \<le> snd x" for xs :: "(nat \<times> nat) list"
    using that by (induction xs) (auto simp: checked_sub_def)
  then have spans: "those (map (\<lambda>(a, b). checked_sub b a) ?found) = Some (map (\<lambda>(a, b). b - a) ?found)"
    using le by blast
  have z: "zip (map f xs) xs = map (\<lambda>x. (f x, x)) xs" for f :: "nat \<times> nat \<Rightarrow> nat" and xs
    by (induction xs) auto
  have "min_by_key (\<lambda>(a, b). b - a) (List.map_filter q [0..<3]) =
      min_by_key (\<lambda>(a, b). b - a) (List.map_filter (full_pair text pos) [0..<3])"
  proof (rule min_by_key_cut, intro ballI)
    fix k :: nat assume "k \<in> set [0..<3]"
    then have "k < 3" by simp
    from tightest_exit [OF st(2,3,4) this, folded q_def]
    show "q k = full_pair text pos k \<or> q k = None \<and> (\<forall>x. full_pair text pos k = Some x \<longrightarrow>
        (\<exists>j \<in> set [0..<3]. \<exists>y. q j = Some y \<and> (case y of (a, b) \<Rightarrow> b - a) < (case x of (a, b) \<Rightarrow> b - a)))"
      unfolding case_prod_beta set_upt Bex_def atLeastLessThan_iff by auto
  qed
  then show ?thesis using pos st(1)
    by (simp add: tightest_at_def chars_at_def Let_def spans [unfolded found] z min_by_key_map option.map_comp o_def found option.map_ident)
qed

text \<open>The pairs a scan with one counter per direction finds, kind by kind.\<close>

lemma those_pairs:
  assumes "pos < len_chars text"
  shows "those (map (\<lambda>(open, close). bracket_pair_chars text pos open close (0, len_chars text)) BRACKET_PAIRS) =
    Some (map (full_pair text pos) [0..<3])"
proof -
  have pairs: "BRACKET_PAIRS = map (\<lambda>k. (open_of k, close_of k)) [0..<3]"
    by (simp add: BRACKET_PAIRS_def open_of_def close_of_def upt_rec numeral_3_eq_3)
  have kinds: "those (map (\<lambda>k. bracket_pair_chars text pos (open_of k) (close_of k) (0, len_chars text)) ks) =
      Some (map (full_pair text pos) ks)" if "\<forall>k \<in> set ks. k < 3" for ks
    using that assms by (induction ks) (auto simp: bracket_pair_chars_eq full_pair_def)
  show ?thesis unfolding pairs using kinds [of "[0..<3]"] by (simp add: o_def del: upt_rec_numeral)
qed

lemma clusters_in_order:
  assumes "is_cluster B t c" "is_cluster B t d" "cl_start c \<le> a" "b < cl_end d" "a \<le> b"
  shows "cl_start c \<le> cl_start d"
proof (rule ccontr)
  assume "\<not> ?thesis"
  then have "cl_start d < cl_start c" "cl_start c < cl_end d" using assms by auto
  then show False using assms(1,2) by (auto simp: is_cluster_def)
qed

lemma delimited_ok:
  assumes B: "seg_ok B" and ab: "a \<le> b" "b < len_chars text"
  obtains r c d where "delimited B text a b = Some r" "range_ok B (rope text) r"
    "is_cluster B (rope text) c" "cl_start c \<le> a" "a < cl_end c" "cr_start r = cl_start c"
    "is_cluster B (rope text) d" "cl_start d \<le> b" "b < cl_end d" "cr_last r = cl_start d"
proof -
  let ?t = "rope text"
  have t: "?t \<noteq> []" "min a (length ?t - 1) = a" "min b (length ?t - 1) = b" using ab by (auto simp: len_chars_def)
  obtain c where c: "snap_to_cluster B ?t a = Some c" "is_cluster B ?t c" "cl_start c \<le> a" "a < cl_end c"
    using snap_to_cluster_Some [OF B t(1), of a] t by metis
  obtain d where d: "snap_to_cluster B ?t b = Some d" "is_cluster B ?t d" "cl_start d \<le> b" "b < cl_end d"
    using snap_to_cluster_Some [OF B t(1), of b] t by metis
  have le: "cl_start c \<le> cl_start d" by (rule clusters_in_order [OF c(2) d(2) c(3) d(4) ab(1)])
  let ?r = "\<lparr>cr_start = cl_start c, cr_last = cl_start d, cr_end = next_boundary B ?t (cl_start d)\<rparr>"
  have "delimited B text a b = Some ?r"
    using c(1) d(1) le is_cluster_start [OF d(2)] by (simp add: delimited_def range_through_def cluster_end_start)
  moreover have "range_ok B ?t ?r"
    using le is_cluster_start [OF c(2)] is_cluster_start [OF d(2)] by (simp add: range_ok_def)
  ultimately show thesis using that [of ?r c d] c d by simp
qed

lemma delimiter_at_eq:
  assumes B: "seg_ok B" and pos: "is_start B (rope text) pos"
  shows "\<exists>d. delimiter_at B text pos P = Some d \<and>
    (case d of None \<Rightarrow> \<forall>i. pos \<le> i \<and> i < next_boundary B (rope text) pos \<longrightarrow> \<not> P (rope text ! i)
     | Some (i, ch) \<Rightarrow> pos \<le> i \<and> i < next_boundary B (rope text) pos \<and> ch = rope text ! i \<and> P ch \<and>
         (\<forall>j. pos \<le> j \<and> j < i \<longrightarrow> \<not> P (rope text ! j)))"
proof -
  let ?nb = "next_boundary B (rope text) pos" and ?f = "\<lambda>i. (i, rope text ! i)"
  have "pos < length (rope text)" using pos by (simp add: is_start_def)
  note nb = next_boundary_props [of B "rope text" pos, OF seg_okD(2) [OF B] this]
  have t: "take (?nb - pos) (right_hits text pos) = map ?f [pos..<?nb]"
    using nb(1,2) by (simp add: right_hits_def take_map len_chars_def)
  have "find (\<lambda>(_, ch). P ch) (map ?f xs) = map_option ?f (find (\<lambda>i. P (rope text ! i)) xs)" for xs
    by (induction xs) auto
  then have "delimiter_at B text pos P = Some (map_option ?f (find (\<lambda>i. P (rope text ! i)) [pos..<?nb]))"
    using pos nb(1) by (simp add: delimiter_at_def cluster_end_start checked_sub_def chars_from_eq t is_start_def len_chars_def)
  then show ?thesis
    by (cases "find (\<lambda>i. P (rope text ! i)) [pos..<?nb]") (auto simp: find_None_iff find_upt_Some)
qed

text \<open>C31: The tightest bracket pair around a cluster, found by two interleaved scans that stop early, is the
  first smallest among the pairs of the three kinds that scanning the whole text for each kind finds,
  at the first bracket of the cluster or at its start; it covers the cluster, and nothing panics.\<close>

theorem tightest_pair_found:
  assumes B: "seg_ok B" and pos: "is_start B (rope text) pos"
  shows "\<exists>at pairs. pos \<le> at \<and> at < next_boundary B (rope text) pos \<and>
    (\<forall>i. pos \<le> i \<and> i < at \<longrightarrow> bracket_role (rope text ! i) = None) \<and>
    (bracket_role (rope text ! at) = None \<longrightarrow> at = pos) \<and>
    those (map (\<lambda>(open, close). bracket_pair_chars text at open close (0, len_chars text)) BRACKET_PAIRS) = Some pairs \<and>
    (case min_by_key (\<lambda>(a, b). b - a) (List.map_filter id pairs) of
       None \<Rightarrow> find_tightest_bracket_pair B text pos = Some None
     | Some (a, b) \<Rightarrow> \<exists>r. find_tightest_bracket_pair B text pos = Some (Some r) \<and> delimited B text a b = Some r \<and>
         range_ok B (rope text) r \<and> cr_start r \<le> pos \<and> pos \<le> cr_last r)"
proof -
  let ?t = "rope text" and ?nb = "next_boundary B (rope text) pos"
  have len: "pos < len_chars text" using pos by (simp add: is_start_def len_chars_def)
  note nb = next_boundary_props [of B ?t pos, OF seg_okD(2) [OF B] len [unfolded len_chars_def]]
  obtain d where d: "delimiter_at B text pos (\<lambda>ch. bracket_role ch \<noteq> None) = Some d"
    "case d of None \<Rightarrow> \<forall>i. pos \<le> i \<and> i < ?nb \<longrightarrow> bracket_role (?t ! i) = None
     | Some (i, ch) \<Rightarrow> pos \<le> i \<and> i < ?nb \<and> ch = ?t ! i \<and> bracket_role ch \<noteq> None \<and>
         (\<forall>j. pos \<le> j \<and> j < i \<longrightarrow> bracket_role (?t ! j) = None)"
    using delimiter_at_eq [OF B pos, of "\<lambda>ch. bracket_role ch \<noteq> None", unfolded not_not] by blast
  obtain at where at: "pos \<le> at" "at < ?nb" "\<forall>i. pos \<le> i \<and> i < at \<longrightarrow> bracket_role (?t ! i) = None"
    "bracket_role (?t ! at) = None \<longrightarrow> at = pos"
    "(case d of Some d \<Rightarrow> Some d | None \<Rightarrow> map_option (Pair pos) (char_at text pos)) = Some (at, ?t ! at)"
  proof (cases d)
    case None
    then show thesis using that [of pos] d(2) nb(1) len by (simp add: char_at_def)
  next
    case (Some x)
    then show thesis using that [of "fst x"] d(2) by (cases x) auto
  qed
  have alen: "at < len_chars text" using at(2) nb(2) by (simp add: len_chars_def)
  let ?pairs = "map (full_pair text at) [0..<3]" and ?key = "\<lambda>(a, b). b - a :: nat"
  have mf: "List.map_filter id ?pairs = List.map_filter (full_pair text at) [0..<3]"
    by (simp add: List.map_filter_def filter_map o_def)
  have find: "find_tightest_bracket_pair B text pos =
      (case min_by_key ?key (List.map_filter id ?pairs) of None \<Rightarrow> Some None
       | Some (a, b) \<Rightarrow> map_option Some (delimited B text a b))"
    using d(1) at(5) tightest_at_eq [OF alen] by (simp add: find_tightest_bracket_pair_def mf)
  show ?thesis
  proof (intro exI conjI)
    show "pos \<le> at" "at < ?nb" "\<forall>i. pos \<le> i \<and> i < at \<longrightarrow> bracket_role (?t ! i) = None"
      "bracket_role (?t ! at) = None \<longrightarrow> at = pos" by (fact at)+
    show "those (map (\<lambda>(open, close). bracket_pair_chars text at open close (0, len_chars text)) BRACKET_PAIRS) = Some ?pairs"
      by (rule those_pairs [OF alen])
    show "case min_by_key ?key (List.map_filter id ?pairs) of
       None \<Rightarrow> find_tightest_bracket_pair B text pos = Some None
     | Some (a, b) \<Rightarrow> \<exists>r. find_tightest_bracket_pair B text pos = Some (Some r) \<and> delimited B text a b = Some r \<and>
         range_ok B ?t r \<and> cr_start r \<le> pos \<and> pos \<le> cr_last r"
    proof (cases "min_by_key ?key (List.map_filter id ?pairs)")
      case (Some x)
      obtain a b where x: "x = (a, b)" by (cases x)
      have "x \<in> set (List.map_filter (full_pair text at) [0..<3])"
        using Some unfolding mf min_by_key_eq find_Some_iff by auto
      then obtain k where k: "full_pair text at k = Some (a, b)" unfolding set_map_filter_eq x by blast
      then have fp: "full_open text at k = Some a" "full_close text at k = Some b"
        by (auto simp: full_pair_def split: option.splits)
      have ab: "a \<le> at" "at \<le> b" using full_bounds fp by metis+
      have b: "b < len_chars text"
      proof -
        have "b \<in> set (map fst (right_hits text (at + 1)))" if "?t ! at \<noteq> close_of k"
          using track_found_in [of k False "(0, None)" "right_hits text (at + 1)" b] fp(2) that
          by (simp add: full_close_def track_def)
        then show ?thesis using alen fp(2) by (auto simp: full_close_def right_hits_def split: if_splits)
      qed
      obtain r c e where r: "delimited B text a b = Some r" "range_ok B ?t r"
        "is_cluster B ?t c" "cl_start c \<le> a" "a < cl_end c" "cr_start r = cl_start c"
        "is_cluster B ?t e" "cl_start e \<le> b" "b < cl_end e" "cr_last r = cl_start e"
        by (rule delimited_ok [OF B order_trans [OF ab] b])
      let ?p = "\<lparr>cl_start = pos, cl_end = ?nb, cl_first = ?t ! pos\<rparr>"
      have p: "is_cluster B ?t ?p" using pos nb by (simp add: is_cluster_def is_start_def)
      have "cl_start c \<le> pos" using clusters_in_order [OF r(3) p r(4), of at] at ab by simp
      moreover have "pos \<le> cl_start e" using clusters_in_order [OF p r(7), of at b] at r(9) ab by simp
      ultimately show ?thesis using find Some x r by simp
    qed (use find in simp)
  qed
qed

theorem tightest_pair_found_witness:
  "\<exists>r. find_tightest_bracket_pair demo_seg
     \<lparr>rope = [123, 40, 97, 41, 32, 125, NL], line_ending = Lf, version = \<lparr>lineage = 0, version_id = 0\<rparr>,
      generation = 0, generations = 0\<rparr> 2 = Some (Some r) \<and> cr_start r \<le> 2 \<and> 2 \<le> cr_last r"
proof -
  let ?x = "\<lparr>rope = [123, 40, 97, 41, 32, 125, NL], line_ending = Lf, version = \<lparr>lineage = 0, version_id = 0\<rparr>,
      generation = 0, generations = 0\<rparr>"
  have pos: "is_start demo_seg (rope ?x) 2" by (simp add: is_start_def demo_seg_def)
  have "next_boundary demo_seg (rope ?x) 2 = 3"
    by (rule next_boundary_eqI) (auto simp: demo_seg_def)
  with tightest_pair_found [OF demo_seg_ok pos] obtain at pairs where at: "2 \<le> at" "at < 3"
    and p: "those (map (\<lambda>(open, close). bracket_pair_chars ?x at open close (0, len_chars ?x)) BRACKET_PAIRS) = Some pairs"
      "case min_by_key (\<lambda>(a, b). b - a) (List.map_filter id pairs) of
         None \<Rightarrow> find_tightest_bracket_pair demo_seg ?x 2 = Some None
       | Some (a, b) \<Rightarrow> \<exists>r. find_tightest_bracket_pair demo_seg ?x 2 = Some (Some r) \<and> delimited demo_seg ?x a b = Some r \<and>
           range_ok demo_seg (rope ?x) r \<and> cr_start r \<le> 2 \<and> 2 \<le> cr_last r" by auto
  have "at = 2" using at by simp
  moreover have "those (map (\<lambda>(open, close). bracket_pair_chars ?x 2 open close (0, len_chars ?x)) BRACKET_PAIRS) =
      Some [Some (1, 3), None, Some (0, 5)]" by code_simp
  ultimately have "pairs = [Some (1, 3), None, Some (0, 5)]" using p(1) by simp
  with p(2) show ?thesis by (auto simp: map_filter_simps)
qed

section \<open>A bracket and its match\<close>

lemma slice_Cons: "i < j \<Longrightarrow> i < length t \<Longrightarrow> slice t i j = t ! i # slice t (Suc i) j"
  by (simp add: slice_def Cons_nth_drop_Suc [symmetric] take_Cons')

lemma slice_snoc: "i \<le> j \<Longrightarrow> j < length t \<Longrightarrow> slice t i (Suc j) = slice t i j @ [t ! j]"
  by (simp add: slice_def Suc_diff_le take_Suc_conv_app_nth)

lemma slice_self [simp]: "slice t i i = []"
  by (simp add: slice_def)

text \<open>A scan that counts: where it stops, and that it never comes up earlier.\<close>

lemma right_loop_Some:
  assumes "open \<noteq> close" "i \<le> len_chars text"
  shows "right_loop open close (len_chars text) (right_hits text i) d = Some b \<longleftrightarrow>
    i \<le> b \<and> b < len_chars text \<and> rope text ! b = close \<and>
    count_list (slice (rope text) i b) close = count_list (slice (rope text) i b) open + d \<and>
    (\<forall>j. i \<le> j \<and> j \<le> b \<longrightarrow> count_list (slice (rope text) i j) close \<le> count_list (slice (rope text) i j) open + d)"
  using assms(2)
proof (induction "len_chars text - i" arbitrary: i d)
  case 0
  then show ?case by (simp add: right_hits_rec)
next
  case (Suc n)
  let ?t = "rope text" and ?n = "len_chars text"
  have i: "i < ?n" "n = ?n - Suc i" using Suc.hyps(2) by auto
  then have il: "i < length ?t" by (simp add: len_chars_def)
  have sl: "slice ?t i j = ?t ! i # slice ?t (Suc i) j" if "i < j" for j using slice_Cons [OF that il] .
  define good where "good = (\<lambda>i d b. i \<le> b \<and> b < ?n \<and> ?t ! b = close \<and>
    count_list (slice ?t i b) close = count_list (slice ?t i b) open + d \<and>
    (\<forall>j. i \<le> j \<and> j \<le> b \<longrightarrow> count_list (slice ?t i j) close \<le> count_list (slice ?t i j) open + d))"
  have IH: "right_loop open close ?n (right_hits text (Suc i)) d = Some b \<longleftrightarrow> good (Suc i) d b" for d
    unfolding good_def by (rule Suc.hyps(1) [OF i(2)]) (use i in simp)
  have ex: "(\<forall>j. i \<le> j \<and> j \<le> b \<longrightarrow> Q j) = (Q i \<and> (\<forall>j. Suc i \<le> j \<and> j \<le> b \<longrightarrow> Q j))" if "i \<le> b" for Q
    using that by (metis Suc_leI Suc_leD le_neq_implies_less order_refl)
  have at: "good i d i = (?t ! i = close \<and> d = 0)" for d using i by (auto simp: good_def)
  have later: "good i d b = (good (Suc i) (d + 1) b)" if "?t ! i = open" "i < b" for d
    using that assms(1) by (auto simp: good_def ex sl Suc_le_eq)
  have later': "good i d b = (0 < d \<and> good (Suc i) (d - 1) b)" if "?t ! i = close" "i < b" for d
  proof (cases d)
    case 0
    have "\<not> good i 0 b"
    proof
      assume "good i 0 b"
      then have "count_list (slice ?t i (Suc i)) close \<le> count_list (slice ?t i (Suc i)) open"
        using that(2) by (auto simp: good_def)
      then show False using that assms(1) sl [of "Suc i"] by simp
    qed
    with 0 show ?thesis by simp
  next
    case (Suc e)
    then show ?thesis using that assms(1) by (auto simp: good_def ex sl Suc_le_eq)
  qed
  have later'': "good i d b = good (Suc i) d b" if "?t ! i \<noteq> open" "?t ! i \<noteq> close" "i < b" for d
    using that by (auto simp: good_def ex sl Suc_le_eq)
  have out: "\<not> good i d b" if "b < i" for d i using that by (simp add: good_def)
  have "right_loop open close ?n (right_hits text i) d = Some b \<longleftrightarrow> good i d b"
  proof (cases "?t ! i = open")
    case True
    then show ?thesis using i assms(1) later [OF True] at out IH
      by (cases b i rule: linorder_cases) (simp_all add: right_hits_rec [of "text" i] out)
  next
    case no: False
    show ?thesis
    proof (cases "?t ! i = close")
      case True
      then show ?thesis using i no later' [OF True, of d] at out IH
        by (cases b i rule: linorder_cases) (auto simp: right_hits_rec [of "text" i] out)
    next
      case False
      then show ?thesis using i no later'' [OF no False] at out IH
        by (cases b i rule: linorder_cases) (simp_all add: right_hits_rec [of "text" i] out)
    qed
  qed
  then show ?case by (simp add: good_def)
qed

lemma left_loop_Some:
  assumes "open \<noteq> close" "i \<le> len_chars text"
  shows "left_loop text open close 0 i d = Some a \<longleftrightarrow>
    a < i \<and> rope text ! a = open \<and>
    count_list (slice (rope text) (Suc a) i) open = count_list (slice (rope text) (Suc a) i) close + d \<and>
    (\<forall>j. Suc a \<le> j \<and> j \<le> i \<longrightarrow> count_list (slice (rope text) j i) open \<le> count_list (slice (rope text) j i) close + d)"
  using assms(2)
proof (induction i arbitrary: d)
  case (Suc i)
  let ?t = "rope text"
  have il: "i < length ?t" using Suc.prems by (simp add: len_chars_def)
  have sl: "slice ?t j (Suc i) = slice ?t j i @ [?t ! i]" if "j \<le> i" for j using slice_snoc [OF that il] .
  define good where "good = (\<lambda>i d. a < i \<and> ?t ! a = open \<and>
    count_list (slice ?t (Suc a) i) open = count_list (slice ?t (Suc a) i) close + d \<and>
    (\<forall>j. Suc a \<le> j \<and> j \<le> i \<longrightarrow> count_list (slice ?t j i) open \<le> count_list (slice ?t j i) close + d))"
  have IH: "left_loop text open close 0 i d = Some a \<longleftrightarrow> good i d" for d
    unfolding good_def by (rule Suc.IH) (use Suc.prems in simp)
  have ex: "(\<forall>j. Suc a \<le> j \<and> j \<le> Suc i \<longrightarrow> Q j) = (Q (Suc i) \<and> (\<forall>j. Suc a \<le> j \<and> j \<le> i \<longrightarrow> Q j))" if "a \<le> i" for Q
    using that by (metis Suc_le_mono le_Suc_eq order_refl)
  have at: "good (Suc i) d = (?t ! i = open \<and> d = 0)" if "a = i" for d using that by (auto simp: good_def)
  have later: "good (Suc i) d = good i (d + 1)" if "?t ! i = close" "a < i" for d
    using that assms(1) by (auto simp: good_def ex sl)
  have later': "good (Suc i) d = (0 < d \<and> good i (d - 1))" if "?t ! i = open" "a < i" for d
  proof (cases d)
    case 0
    have "\<not> good (Suc i) 0"
    proof
      assume "good (Suc i) 0"
      then have "count_list (slice ?t i (Suc i)) open \<le> count_list (slice ?t i (Suc i)) close"
        using that(2) by (auto simp: good_def)
      then show False using that assms(1) sl [of i] by simp
    qed
    with 0 show ?thesis by simp
  next
    case (Suc e)
    then show ?thesis using that assms(1) by (auto simp: good_def ex sl)
  qed
  have later'': "good (Suc i) d = good i d" if "?t ! i \<noteq> open" "?t ! i \<noteq> close" "a < i" for d
    using that by (auto simp: good_def ex sl)
  have out: "\<not> good i d" if "i \<le> a" for d i using that by (simp add: good_def)
  have "left_loop text open close 0 (Suc i) d = Some a \<longleftrightarrow> good (Suc i) d"
  proof (cases "?t ! i = close")
    case True
    then show ?thesis using assms(1) later [OF True] at out IH
      by (cases a i rule: linorder_cases) (simp_all add: out)
  next
    case no: False
    show ?thesis
    proof (cases "?t ! i = open")
      case True
      then show ?thesis using no later' [OF True, of d] at out IH
        by (cases a i rule: linorder_cases) (auto simp: out)
    next
      case False
      then show ?thesis using no later'' [OF False no] at out IH
        by (cases a i rule: linorder_cases) (simp_all add: out)
    qed
  qed
  then show ?case by (simp add: good_def)
qed simp

text \<open>A pair: an open and a close with the same number of both between them, and never more closes
  than opens up to any point between.\<close>

definition matched :: "ustring \<Rightarrow> uchar \<Rightarrow> uchar \<Rightarrow> nat \<Rightarrow> nat \<Rightarrow> bool" where
  "matched t open close a b \<longleftrightarrow> a < b \<and> b < length t \<and> t ! a = open \<and> t ! b = close \<and>
     count_list (slice t (Suc a) b) close = count_list (slice t (Suc a) b) open \<and>
     (\<forall>j. a < j \<and> j \<le> b \<longrightarrow> count_list (slice t (Suc a) j) close \<le> count_list (slice t (Suc a) j) open)"

lemma slice_split: "a \<le> j \<Longrightarrow> j \<le> b \<Longrightarrow> count_list (slice t a b) c = count_list (slice t a j) c + count_list (slice t j b) c"
  using slice_join [of a j b t] by (metis count_list_append)

lemma matched_left:
  "matched t open close a b \<longleftrightarrow> a < b \<and> b < length t \<and> t ! a = open \<and> t ! b = close \<and>
     count_list (slice t (Suc a) b) open = count_list (slice t (Suc a) b) close \<and>
     (\<forall>j. Suc a \<le> j \<and> j \<le> b \<longrightarrow> count_list (slice t j b) open \<le> count_list (slice t j b) close)"
proof -
  have "(count_list (slice t (Suc a) j) close \<le> count_list (slice t (Suc a) j) open) =
      (count_list (slice t j b) open \<le> count_list (slice t j b) close)"
    if "Suc a \<le> j" "j \<le> b" "count_list (slice t (Suc a) b) close = count_list (slice t (Suc a) b) open" for j
    using slice_split [OF that(1,2), of t close] slice_split [OF that(1,2), of t "open"] that(3) by linarith
  then show ?thesis unfolding matched_def Suc_le_eq by (metis (no_types, lifting))
qed

lemma bracket_pair_facts:
  assumes "open \<noteq> close"
  shows "(char_at text a = Some open \<and> bracket_pair_chars text a open close (0, len_chars text) = Some (Some (a, b)))
      = matched (rope text) open close a b"
    "(char_at text b = Some close \<and> bracket_pair_chars text b open close (0, len_chars text) = Some (Some (a, b)))
      = matched (rope text) open close a b"
    "char_at text p = Some open \<Longrightarrow> bracket_pair_chars text p open close (0, len_chars text) = Some (Some (a, b)) \<Longrightarrow> a = p"
    "char_at text p = Some close \<Longrightarrow> bracket_pair_chars text p open close (0, len_chars text) = Some (Some (a, b)) \<Longrightarrow> b = p"
proof -
  have at: "char_at text i = Some c \<longleftrightarrow> i < len_chars text \<and> rope text ! i = c" for i c
    by (auto simp: char_at_def)
  have right: "scan_right_for_close text i open close (0, len_chars text) =
      Some (right_loop open close (len_chars text) (right_hits text i) 0)" if "i \<le> len_chars text" for i
    using that by (simp add: scan_right_for_close_def chars_from_eq)
  have left: "scan_left_for_open text i open close (0, len_chars text) = Some (left_loop text open close 0 i 0)"
    if "i \<le> len_chars text" for i using that by (simp add: scan_left_for_open_def chars_at_def)
  have from_open: "bracket_pair_chars text i open close (0, len_chars text) =
      Some (map_option (Pair i) (right_loop open close (len_chars text) (right_hits text (Suc i)) 0))"
    if "char_at text i = Some open" for i
    unfolding bracket_pair_chars_def that using right [of "Suc i"] that [unfolded at] by simp
  have from_close: "bracket_pair_chars text i open close (0, len_chars text) =
      Some (map_option (\<lambda>p. (p, i)) (left_loop text open close 0 i 0))"
    if "char_at text i = Some close" for i
    unfolding bracket_pair_chars_def that using left [of i] that [unfolded at] assms by simp
  show "(char_at text a = Some open \<and> bracket_pair_chars text a open close (0, len_chars text) = Some (Some (a, b)))
      = matched (rope text) open close a b"
  proof (cases "char_at text a = Some open")
    case True
    then have "Suc a \<le> len_chars text" by (simp add: at)
    from right_loop_Some [OF assms this, of 0 b] True show ?thesis
      unfolding from_open [OF True] by (auto simp: at matched_def len_chars_def Suc_le_eq)
  qed (auto simp: at matched_def len_chars_def)
  show "(char_at text b = Some close \<and> bracket_pair_chars text b open close (0, len_chars text) = Some (Some (a, b)))
      = matched (rope text) open close a b"
  proof (cases "char_at text b = Some close")
    case True
    then have "b \<le> len_chars text" by (simp add: at)
    from left_loop_Some [OF assms this, of 0 a] True show ?thesis
      unfolding from_close [OF True] by (auto simp: at matched_left len_chars_def Suc_le_eq)
  qed (auto simp: at matched_def len_chars_def)
  show "char_at text p = Some open \<Longrightarrow> bracket_pair_chars text p open close (0, len_chars text) = Some (Some (a, b)) \<Longrightarrow> a = p"
    by (auto simp: from_open)
  show "char_at text p = Some close \<Longrightarrow> bracket_pair_chars text p open close (0, len_chars text) = Some (Some (a, b)) \<Longrightarrow> b = p"
    by (auto simp: from_close)
qed

text \<open>C32: A bracket and its match find each other: from an open, the pair found is the one that starts
  there and whose inside is balanced, from a close the one that ends there, for any two delimiters.\<close>

theorem brackets_match_mutually:
  assumes "open \<noteq> close"
  shows "(char_at text a = Some open \<and> bracket_pair_chars text a open close (0, len_chars text) = Some (Some (a, b)))
      = matched (rope text) open close a b \<and>
    (char_at text b = Some close \<and> bracket_pair_chars text b open close (0, len_chars text) = Some (Some (a, b)))
      = matched (rope text) open close a b \<and>
    (bracket_pair_chars text p open close (0, len_chars text) = Some (Some (a, b)) \<longrightarrow>
      (char_at text p = Some open \<longrightarrow> a = p) \<and> (char_at text p = Some close \<longrightarrow> b = p))"
  using bracket_pair_facts(1,2) [OF assms, of "text"] bracket_pair_facts(3,4) [OF assms, of "text" p a b]
  by (intro conjI impI) simp_all

theorem brackets_match_mutually_witness:
  "bracket_pair_chars \<lparr>rope = [40, 97, 41, NL], line_ending = Lf, version = \<lparr>lineage = 0, version_id = 0\<rparr>,
      generation = 0, generations = 0\<rparr> 2 40 41 (0, 4) = Some (Some (0, 2))"
proof -
  let ?x = "\<lparr>rope = [40, 97, 41, NL], line_ending = Lf, version = \<lparr>lineage = 0, version_id = 0\<rparr>,
      generation = 0, generations = 0\<rparr>"
  have ne: "(40 :: nat) \<noteq> 41" by simp
  have "bracket_pair_chars ?x 0 40 41 (0, 4) = Some (Some (0, 2)) \<and> len_chars ?x = 4 \<and> char_at ?x 0 = Some 40"
    by code_simp
  then show ?thesis using brackets_match_mutually [OF ne, of ?x 0 2] by auto
qed

end
