(* ===== verification/Layout.thy ===== *)
theory Layout imports CellGrid begin

text \<open>
  The partition of the screen, \<open>hume-engine\<close>'s \<open>pipeline/layout.rs\<close> and \<open>pipeline/geometry.rs\<close>: the tree
  of splits of a tab, the rectangles and seams it cuts an area into, and the rows the chrome takes.

  Ratios are 32-bit floats, whose type is a parameter; of their arithmetic the model uses two
  operations, given by the record \<open>float_ops\<close>: the quotient of two counts, and
  \<open>(usable as f32 * ratio) as u16\<close>. Nothing is assumed of either: the results hold for any.
\<close>

type_synonym pane_id = nat

datatype direction = Horizontal | Vertical
datatype rotation = RotForward | RotBackward
datatype cycle = CycleNext | CyclePrev
datatype side = SideLeft | SideRight | SideUp | SideDown

record 'f float_ops =
  fo_ratio :: "nat \<Rightarrow> nat \<Rightarrow> 'f"
  fo_half :: 'f
  fo_scale :: "nat \<Rightarrow> 'f \<Rightarrow> nat"

definition cycle_step :: "cycle \<Rightarrow> nat \<Rightarrow> nat \<Rightarrow> nat option" where
  "cycle_step c idx len = do {
     ensure (idx < len);
     Some (case c of CycleNext \<Rightarrow> (idx + 1) mod len | CyclePrev \<Rightarrow> (idx + len - 1) mod len) }"

record seam =
  sm_rect :: rect
  sm_direction :: direction

datatype 'f layout_tree =
    Leaf pane_id
  | Split direction 'f "'f layout_tree" "'f layout_tree"

section \<open>Splitting an area\<close>

definition add_u16 :: "nat \<Rightarrow> nat \<Rightarrow> nat option" where
  "add_u16 a b = (if a + b \<le> u16_max then Some (a + b) else None)"

definition split_rect :: "'f float_ops \<Rightarrow> rect \<Rightarrow> bool \<Rightarrow> 'f \<Rightarrow> bool \<Rightarrow> (rect \<times> rect \<times> rect) option" where
  "split_rect fo area vertical ratio reserve_seam =
     (let seam_reserve = (if reserve_seam then 1 else 0) in
      if vertical then do {
        let usable = re_height area - seam_reserve;
        let h1 = min (fo_scale fo usable ratio) usable;
        let seam_h = min (re_height area - h1) seam_reserve;
        y1 \<leftarrow> add_u16 (re_y area) h1;
        y2 \<leftarrow> add_u16 y1 seam_h;
        h \<leftarrow> add_u16 h1 seam_h;
        Some (area\<lparr>re_height := h1\<rparr>, area\<lparr>re_y := y1, re_height := seam_h\<rparr>,
              area\<lparr>re_y := y2, re_height := re_height area - h\<rparr>) }
      else do {
        let usable = re_width area - seam_reserve;
        let w1 = min (fo_scale fo usable ratio) usable;
        let seam_w = min (re_width area - w1) seam_reserve;
        x1 \<leftarrow> add_u16 (re_x area) w1;
        x2 \<leftarrow> add_u16 x1 seam_w;
        w \<leftarrow> add_u16 w1 seam_w;
        Some (area\<lparr>re_width := w1\<rparr>, area\<lparr>re_x := x1, re_width := seam_w\<rparr>,
              area\<lparr>re_x := x2, re_width := re_width area - w\<rparr>) })"

section \<open>The tree\<close>

fun collect_rects_into :: "'f float_ops \<Rightarrow> 'f layout_tree \<Rightarrow> rect \<Rightarrow> bool \<Rightarrow> (pane_id \<times> rect) list \<Rightarrow>
    (pane_id \<times> rect) list option" where
  "collect_rects_into fo (Leaf p) area reserve_seam out = Some (out @ [(p, area)])"
| "collect_rects_into fo (Split direction ratio a b) area reserve_seam out = do {
     (r1, _, r2) \<leftarrow> split_rect fo area (direction = Vertical) ratio reserve_seam;
     out \<leftarrow> collect_rects_into fo a r1 reserve_seam out;
     collect_rects_into fo b r2 reserve_seam out }"

fun find_rect :: "'f float_ops \<Rightarrow> 'f layout_tree \<Rightarrow> pane_id \<Rightarrow> rect \<Rightarrow> bool \<Rightarrow> rect option option" where
  "find_rect fo (Leaf p) pid area reserve_seam = Some (if p = pid then Some area else None)"
| "find_rect fo (Split direction ratio a b) pid area reserve_seam = do {
     (r1, _, r2) \<leftarrow> split_rect fo area (direction = Vertical) ratio reserve_seam;
     r \<leftarrow> find_rect fo a pid r1 reserve_seam;
     case r of Some r \<Rightarrow> Some (Some r) | None \<Rightarrow> find_rect fo b pid r2 reserve_seam }"

fun collect_seams_into :: "'f float_ops \<Rightarrow> 'f layout_tree \<Rightarrow> rect \<Rightarrow> seam list \<Rightarrow> seam list option" where
  "collect_seams_into fo (Leaf p) area out = Some out"
| "collect_seams_into fo (Split direction ratio a b) area out = do {
     (r1, seam, r2) \<leftarrow> split_rect fo area (direction = Vertical) ratio True;
     let out = (if re_width seam > 0 \<and> re_height seam > 0
                then out @ [\<lparr>sm_rect = seam, sm_direction = direction\<rparr>] else out);
     out \<leftarrow> collect_seams_into fo a r1 out;
     collect_seams_into fo b r2 out }"

fun insert_split :: "'f float_ops \<Rightarrow> 'f layout_tree \<Rightarrow> pane_id \<Rightarrow> pane_id \<Rightarrow> direction \<Rightarrow> bool \<times> 'f layout_tree" where
  "insert_split fo (Leaf p) target new_pane direction =
     (if p = target then (True, Split direction (fo_half fo) (Leaf target) (Leaf new_pane)) else (False, Leaf p))"
| "insert_split fo (Split d ratio a b) target new_pane direction =
     (case insert_split fo a target new_pane direction of
        (True, a') \<Rightarrow> (True, Split d ratio a' b)
      | (False, a') \<Rightarrow>
          (case insert_split fo b target new_pane direction of (hit, b') \<Rightarrow> (hit, Split d ratio a' b')))"

fun contains_leaf :: "'f layout_tree \<Rightarrow> pane_id \<Rightarrow> bool" where
  "contains_leaf (Leaf p) target = (p = target)"
| "contains_leaf (Split d ratio a b) target = (contains_leaf a target \<or> contains_leaf b target)"

fun collect_detached :: "'f layout_tree \<Rightarrow> pane_id list \<Rightarrow> pane_id list" where
  "collect_detached (Leaf p) out = out @ [p]"
| "collect_detached (Split d ratio a b) out = collect_detached b (collect_detached a out)"

definition into_detached :: "'f layout_tree \<Rightarrow> pane_id list" where
  "into_detached t = collect_detached t []"

fun first_leaf :: "'f layout_tree \<Rightarrow> pane_id" where
  "first_leaf (Leaf p) = p"
| "first_leaf (Split d ratio a b) = first_leaf a"

fun collect_leaves :: "'f layout_tree \<Rightarrow> pane_id list \<Rightarrow> pane_id list" where
  "collect_leaves (Leaf p) out = out @ [p]"
| "collect_leaves (Split d ratio a b) out = collect_leaves b (collect_leaves a out)"

definition leaves :: "'f layout_tree \<Rightarrow> pane_id list" where
  "leaves t = collect_leaves t []"

fun shares_along :: "'f layout_tree \<Rightarrow> direction \<Rightarrow> nat" where
  "shares_along (Leaf p) direction = 1"
| "shares_along (Split d ratio a b) direction =
     (if d = direction then shares_along a direction + shares_along b direction else 1)"

fun equalize :: "'f float_ops \<Rightarrow> 'f layout_tree \<Rightarrow> 'f layout_tree" where
  "equalize fo (Leaf p) = Leaf p"
| "equalize fo (Split d ratio a b) =
     (let a = equalize fo a;
          b = equalize fo b;
          shares0 = shares_along a d;
          shares1 = shares_along b d
      in Split d (fo_ratio fo shares0 (shares0 + shares1)) a b)"

text \<open>The run of same-direction splits below a node: its members in order, and the tree with others in
  their places; what is left over of the list goes to the next place.\<close>

fun collect_run_members :: "direction \<Rightarrow> 'f layout_tree \<Rightarrow> 'f layout_tree list" where
  "collect_run_members direction (Leaf p) = [Leaf p]"
| "collect_run_members direction (Split d ratio a b) =
     (if d = direction then collect_run_members direction a @ collect_run_members direction b
      else [Split d ratio a b])"

fun put_run_members :: "direction \<Rightarrow> 'f layout_tree \<Rightarrow> 'f layout_tree list \<Rightarrow> 'f layout_tree \<times> 'f layout_tree list" where
  "put_run_members direction (Leaf p) ms = (hd ms, tl ms)"
| "put_run_members direction (Split d ratio a b) ms =
     (if d = direction
      then (let (a', ms) = put_run_members direction a ms; (b', ms) = put_run_members direction b ms
            in (Split d ratio a' b', ms))
      else (hd ms, tl ms))"

definition rotate_right :: "nat \<Rightarrow> 'a list \<Rightarrow> 'a list" where
  "rotate_right k xs = drop (length xs - k) xs @ take (length xs - k) xs"

definition rotate_left :: "nat \<Rightarrow> 'a list \<Rightarrow> 'a list" where
  "rotate_left k xs = drop k xs @ take k xs"

lemma run_members_size: "m \<in> set (collect_run_members d t) \<Longrightarrow> size m \<le> size t"
  by (induction d t rule: collect_run_members.induct) (auto split: if_splits)

lemma run_members_smaller: "m \<in> set (collect_run_members d (Split d ratio a b)) \<Longrightarrow> size m < size (Split d ratio a b)"
  using run_members_size [of m d a] run_members_size [of m d b] by auto

text \<open>\<open>rotate_run\<close>, and its \<open>any\<close> over the members: those after the hit are left as they are.\<close>

function rotate_run :: "'f layout_tree \<Rightarrow> pane_id \<Rightarrow> rotation \<Rightarrow> nat \<Rightarrow> bool \<times> 'f layout_tree"
  and rotate_any :: "'f layout_tree list \<Rightarrow> pane_id \<Rightarrow> rotation \<Rightarrow> nat \<Rightarrow> bool \<times> 'f layout_tree list" where
  "rotate_run (Leaf p) target rot steps = (False, Leaf p)"
| "rotate_run (Split d ratio a b) target rot steps =
     (let t = Split d ratio a b; members = collect_run_members d t in
      if Leaf target \<in> set members
      then (let shift = steps mod length members;
                trees = (case rot of RotForward \<Rightarrow> rotate_right shift members | RotBackward \<Rightarrow> rotate_left shift members)
            in (True, fst (put_run_members d t trees)))
      else (case rotate_any members target rot steps of (hit, members) \<Rightarrow> (hit, fst (put_run_members d t members))))"
| "rotate_any [] target rot steps = (False, [])"
| "rotate_any (m # ms) target rot steps =
     (case rotate_run m target rot steps of
        (True, m) \<Rightarrow> (True, m # ms)
      | (False, m) \<Rightarrow> (case rotate_any ms target rot steps of (hit, ms) \<Rightarrow> (hit, m # ms)))"
  by pat_completeness auto

termination
proof (relation "measures [
    \<lambda>c. case c of Inl (t, _) \<Rightarrow> size t | Inr (ms, _) \<Rightarrow> foldr max (map size ms) 0,
    \<lambda>c. case c of Inl _ \<Rightarrow> 0 | Inr (ms, _) \<Rightarrow> length ms + 1]", goal_cases)
  case (2 d ratio a b target rot steps x xa)
  have below: "foldr max (map size ms) 0 < n" if "0 < n" "\<forall>m \<in> set ms. size m < n" for ms :: "'a layout_tree list" and n
    using that(2) by (induction ms) (use that(1) in auto)
  have "foldr max (map size xa) 0 < size (Split d ratio a b)"
    using 2 run_members_smaller by (intro below) auto
  then show ?case by simp
qed (auto simp: max_def less_le)

section \<open>A tab's layout and its focused pane\<close>

record 'f focused_layout =
  fl_tree :: "'f layout_tree"
  fl_focus :: pane_id

definition focused_layout_new :: "pane_id \<Rightarrow> 'f focused_layout" where
  "focused_layout_new pane = \<lparr>fl_tree = Leaf pane, fl_focus = pane\<rparr>"

text \<open>The pane id a \<open>SlotMap\<close> never hands out is \<open>0\<close>, the \<open>default\<close> of a \<open>PaneId\<close>.\<close>

definition default_pane :: pane_id where
  "default_pane = 0"

definition placeholder_layout :: "'f focused_layout" where
  "placeholder_layout = \<lparr>fl_tree = Leaf default_pane, fl_focus = default_pane\<rparr>"

definition layout_into_detached :: "'f focused_layout \<Rightarrow> pane_id list" where
  "layout_into_detached l = into_detached (fl_tree l)"

definition layout_focus :: "'f focused_layout \<Rightarrow> pane_id \<Rightarrow> 'f focused_layout option" where
  "layout_focus l pid = do {
     ensure (contains_leaf (fl_tree l) pid);
     Some (l\<lparr>fl_focus := pid\<rparr>) }"

definition focused_rect :: "'f float_ops \<Rightarrow> 'f focused_layout \<Rightarrow> rect \<Rightarrow> bool \<Rightarrow> rect option" where
  "focused_rect fo l area reserve_seam = do {
     r \<leftarrow> find_rect fo (fl_tree l) (fl_focus l) area reserve_seam;
     r }"

definition pane_cycled_from_focused :: "'f focused_layout \<Rightarrow> cycle \<Rightarrow> pane_id option option" where
  "pane_cycled_from_focused l c = do {
     let ls = leaves (fl_tree l);
     idx \<leftarrow> position_of (\<lambda>p. p = fl_focus l) ls;
     if length ls > 1 then do { i \<leftarrow> cycle_step c idx (length ls); p \<leftarrow> nth_opt ls i; Some (Some p) }
     else Some None }"

text \<open>The score of a candidate: the gap in the high 16 bits, the distance of the centers in the low ones.
  The sums of a coordinate and half a size are unchecked 16-bit additions.\<close>

definition abs_diff :: "nat \<Rightarrow> nat \<Rightarrow> nat" where
  "abs_diff a b = (if a < b then b - a else a - b)"

definition neighbor_score :: "side \<Rightarrow> rect \<Rightarrow> nat \<Rightarrow> nat \<Rightarrow> rect \<Rightarrow> nat option option" where
  "neighbor_score side cur cur_cx cur_cy r =
     (let overlaps_v = (re_y r < rect_bottom cur \<and> re_y cur < rect_bottom r);
          overlaps_h = (re_x r < rect_right cur \<and> re_x cur < rect_right r);
          across_v = (\<lambda>gap. do { cy \<leftarrow> add_u16 (re_y r) (re_height r div 2);
                               Some (Some (gap * 2 ^ 16 + abs_diff cur_cy cy)) });
          across_h = (\<lambda>gap. do { cx \<leftarrow> add_u16 (re_x r) (re_width r div 2);
                               Some (Some (gap * 2 ^ 16 + abs_diff cur_cx cx)) })
      in if side = SideLeft \<and> overlaps_v \<and> rect_right r \<le> re_x cur then across_v (re_x cur - rect_right r)
         else if side = SideRight \<and> overlaps_v \<and> rect_right cur \<le> re_x r then across_v (re_x r - rect_right cur)
         else if side = SideUp \<and> overlaps_h \<and> rect_bottom r \<le> re_y cur then across_h (re_y cur - rect_bottom r)
         else if side = SideDown \<and> overlaps_h \<and> rect_bottom cur \<le> re_y r then across_h (re_y r - rect_bottom cur)
         else Some None)"

fun first_least :: "(nat \<times> 'a) list \<Rightarrow> 'a option" where
  "first_least [] = None"
| "first_least (x # xs) = Some (snd (fold (\<lambda>y best. if fst y < fst best then y else best) xs x))"

fun scored :: "(rect \<Rightarrow> nat option option) \<Rightarrow> (pane_id \<times> rect) list \<Rightarrow> (nat \<times> pane_id) list option" where
  "scored f [] = Some []"
| "scored f ((p, r) # rs) = do {
     s \<leftarrow> f r;
     rest \<leftarrow> scored f rs;
     Some (case s of None \<Rightarrow> rest | Some s \<Rightarrow> (s, p) # rest) }"

definition focused_neighbor :: "'f float_ops \<Rightarrow> 'f focused_layout \<Rightarrow> rect \<Rightarrow> bool \<Rightarrow> side \<Rightarrow> pane_id option option" where
  "focused_neighbor fo l area reserve_seam side = do {
     rects \<leftarrow> collect_rects_into fo (fl_tree l) area reserve_seam [];
     c \<leftarrow> find (\<lambda>(p, _). p = fl_focus l) rects;
     let cur = snd c;
     cur_cx \<leftarrow> add_u16 (re_x cur) (re_width cur div 2);
     cur_cy \<leftarrow> add_u16 (re_y cur) (re_height cur div 2);
     candidates \<leftarrow> scored (neighbor_score side cur cur_cx cur_cy) (filter (\<lambda>(p, _). p \<noteq> fl_focus l) rects);
     Some (first_least candidates) }"

definition predicted_split_rect :: "'f float_ops \<Rightarrow> 'f focused_layout \<Rightarrow> rect \<Rightarrow> bool \<Rightarrow> direction \<Rightarrow> rect option" where
  "predicted_split_rect fo l area reserve_seam direction = do {
     let (inserted, probe) = insert_split fo (fl_tree l) (fl_focus l) default_pane direction;
     ensure inserted;
     r \<leftarrow> find_rect fo (equalize fo probe) (fl_focus l) area reserve_seam;
     r }"

definition split_focused :: "'f float_ops \<Rightarrow> 'f focused_layout \<Rightarrow> pane_id \<Rightarrow> direction \<Rightarrow> 'f focused_layout option" where
  "split_focused fo l pane direction = do {
     let (inserted, t) = insert_split fo (fl_tree l) (fl_focus l) pane direction;
     ensure inserted;
     Some (l\<lparr>fl_tree := equalize fo t\<rparr>) }"

datatype single_pane = SinglePane

definition refuse_single_pane :: "'f focused_layout \<Rightarrow> single_pane + unit" where
  "refuse_single_pane l = (case fl_tree l of Leaf _ \<Rightarrow> Inl SinglePane | Split _ _ _ _ \<Rightarrow> Inr ())"

definition rotate_focused :: "'f focused_layout \<Rightarrow> rotation \<Rightarrow> nat \<Rightarrow> (single_pane + 'f focused_layout) option" where
  "rotate_focused l rot steps =
     (case refuse_single_pane l of
        Inl e \<Rightarrow> Some (Inl e)
      | Inr _ \<Rightarrow> do {
          let (rotated, t) = rotate_run (fl_tree l) (fl_focus l) rot steps;
          ensure rotated;
          Some (Inr (l\<lparr>fl_tree := t\<rparr>)) })"

text \<open>\<open>prune_leaf\<close>: the survivor, when the target was below a split, and the tree left.\<close>

fun prune_leaf :: "'f layout_tree \<Rightarrow> pane_id \<Rightarrow> pane_id option \<times> 'f layout_tree" where
  "prune_leaf (Leaf p) target = (None, Leaf p)"
| "prune_leaf (Split d ratio a b) target =
     (let hit0 = (a = Leaf target); hit1 = (b = Leaf target) in
      if hit0 \<or> hit1
      then (let sibling = (if hit0 then b else a) in (Some (first_leaf sibling), sibling))
      else (case prune_leaf a target of
              (Some survivor, a') \<Rightarrow> (Some survivor, Split d ratio a' b)
            | (None, a') \<Rightarrow>
                (case prune_leaf b target of (survivor, b') \<Rightarrow> (survivor, Split d ratio a' b'))))"

definition close_focused :: "'f float_ops \<Rightarrow> 'f focused_layout \<Rightarrow> (single_pane + pane_id \<times> 'f focused_layout) option" where
  "close_focused fo l =
     (case refuse_single_pane l of
        Inl e \<Rightarrow> Some (Inl e)
      | Inr _ \<Rightarrow> do {
          let (survivor, t) = prune_leaf (fl_tree l) (fl_focus l);
          survivor \<leftarrow> survivor;
          Some (Inr (fl_focus l, l\<lparr>fl_tree := equalize fo t, fl_focus := survivor\<rparr>)) })"

section \<open>The cells of the parts\<close>

definition rect_cells :: "rect \<Rightarrow> (nat \<times> nat) set" where
  "rect_cells r = {re_x r..<re_x r + re_width r} \<times> {re_y r..<re_y r + re_height r}"

definition rect16 :: "rect \<Rightarrow> bool" where
  "rect16 r = (re_x r + re_width r \<le> u16_max \<and> re_y r + re_height r \<le> u16_max)"

lemma rect_cells_contains: "rect16 r \<Longrightarrow> (x, y) \<in> rect_cells r \<longleftrightarrow> rect_contains r \<lparr>po_x = x, po_y = y\<rparr>"
  by (auto simp: rect_cells_def rect16_def rect_contains_def rect_right_def rect_bottom_def sat_add16_def)

lemma split_rect_ok:
  assumes "rect16 area"
  obtains r1 s r2 where "split_rect fo area v ratio reserve_seam = Some (r1, s, r2)"
    "rect16 r1" "rect16 r2" "rect_cells area = rect_cells r1 \<union> rect_cells s \<union> rect_cells r2"
    "rect_cells r1 \<inter> rect_cells s = {}" "rect_cells r1 \<inter> rect_cells r2 = {}" "rect_cells s \<inter> rect_cells r2 = {}"
    "\<not> reserve_seam \<longrightarrow> rect_cells s = {}"
proof (cases v)
  case True
  define k where "k = (if reserve_seam then 1 else 0 :: nat)"
  define h1 where "h1 = min (fo_scale fo (re_height area - k) ratio) (re_height area - k)"
  define sh where "sh = min (re_height area - h1) k"
  have "h1 \<le> re_height area" "sh \<le> re_height area - h1" by (simp_all add: h1_def sh_def min_le_iff_disj)
  then have le: "h1 + sh \<le> re_height area" by simp
  have b: "re_x area + re_width area \<le> u16_max" "re_y area + re_height area \<le> u16_max" using assms by (auto simp: rect16_def)
  let ?r1 = "area\<lparr>re_height := h1\<rparr>" and ?s = "area\<lparr>re_y := re_y area + h1, re_height := sh\<rparr>"
    and ?r2 = "area\<lparr>re_y := re_y area + h1 + sh, re_height := re_height area - (h1 + sh)\<rparr>"
  have "split_rect fo area v ratio reserve_seam = Some (?r1, ?s, ?r2)"
    using True le b by (auto simp: split_rect_def Let_def add_u16_def k_def [symmetric] h1_def [symmetric] sh_def [symmetric])
  moreover have "sh = 0" if "\<not> reserve_seam" using that by (simp add: sh_def k_def)
  ultimately show thesis using le b
    by (intro that [of ?r1 ?s ?r2]) (auto simp: rect16_def rect_cells_def)
next
  case False
  define k where "k = (if reserve_seam then 1 else 0 :: nat)"
  define w1 where "w1 = min (fo_scale fo (re_width area - k) ratio) (re_width area - k)"
  define sw where "sw = min (re_width area - w1) k"
  have "w1 \<le> re_width area" "sw \<le> re_width area - w1" by (simp_all add: w1_def sw_def min_le_iff_disj)
  then have le: "w1 + sw \<le> re_width area" by simp
  have b: "re_x area + re_width area \<le> u16_max" "re_y area + re_height area \<le> u16_max" using assms by (auto simp: rect16_def)
  let ?r1 = "area\<lparr>re_width := w1\<rparr>" and ?s = "area\<lparr>re_x := re_x area + w1, re_width := sw\<rparr>"
    and ?r2 = "area\<lparr>re_x := re_x area + w1 + sw, re_width := re_width area - (w1 + sw)\<rparr>"
  have "split_rect fo area v ratio reserve_seam = Some (?r1, ?s, ?r2)"
    using False le b by (auto simp: split_rect_def Let_def add_u16_def k_def [symmetric] w1_def [symmetric] sw_def [symmetric])
  moreover have "sw = 0" if "\<not> reserve_seam" using that by (simp add: sw_def k_def)
  ultimately show thesis using le b
    by (intro that [of ?r1 ?s ?r2]) (auto simp: rect16_def rect_cells_def)
qed

definition tiles :: "rect list \<Rightarrow> rect \<Rightarrow> bool" where
  "tiles rs area \<longleftrightarrow> (\<Union>r \<in> set rs. rect_cells r) = rect_cells area \<and>
     sorted_wrt (\<lambda>r s. rect_cells r \<inter> rect_cells s = {}) rs"

lemma collect_leaves_append: "collect_leaves t out = out @ collect_leaves t []"
  by (induction t arbitrary: out) (simp, metis append_assoc collect_leaves.simps(2))

lemma leaves_simps [simp]: "leaves (Leaf p) = [p]" "leaves (Split d ratio a b) = leaves a @ leaves b"
  by (simp_all add: leaves_def) (metis collect_leaves_append)

lemma leaves_nonempty [simp]: "leaves t \<noteq> []"
  by (induction t) auto

lemma collect_detached_eq: "collect_detached t out = out @ leaves t"
  by (induction t arbitrary: out) auto

lemma into_detached_eq: "into_detached t = leaves t"
  by (simp add: into_detached_def collect_detached_eq)

lemma contains_leaf_iff: "contains_leaf t p \<longleftrightarrow> p \<in> set (leaves t)"
  by (induction t) auto

lemma tiles_join:
  assumes "tiles as r1" "tiles bs r2" "rect_cells area = rect_cells r1 \<union> rect_cells s \<union> rect_cells r2"
    "rect_cells r1 \<inter> rect_cells s = {}" "rect_cells r1 \<inter> rect_cells r2 = {}" "rect_cells s \<inter> rect_cells r2 = {}"
    "as = ra @ sa" "bs = rb @ sb" "(\<Union>r \<in> set ss. rect_cells r) = rect_cells s" "length ss \<le> 1"
  shows "tiles (ra @ rb @ ss @ sa @ sb) area"
proof -
  have s1: "sorted_wrt (\<lambda>r s. rect_cells r \<inter> rect_cells s = {}) ss" using assms(10) by (cases ss) auto
  have cells: "(\<Union>r \<in> set ra. rect_cells r) \<union> (\<Union>r \<in> set sa. rect_cells r) = rect_cells r1"
    "(\<Union>r \<in> set rb. rect_cells r) \<union> (\<Union>r \<in> set sb. rect_cells r) = rect_cells r2"
    using assms(1,2,7,8) by (auto simp: tiles_def)
  have u: "x \<in> set ra \<union> set sa \<Longrightarrow> rect_cells x \<subseteq> rect_cells r1" "x \<in> set rb \<union> set sb \<Longrightarrow> rect_cells x \<subseteq> rect_cells r2"
    "x \<in> set ss \<Longrightarrow> rect_cells x \<subseteq> rect_cells s" for x
    unfolding cells [symmetric] assms(9) [symmetric] by auto
  have "(\<Union>r \<in> set (ra @ rb @ ss @ sa @ sb). rect_cells r) = rect_cells area"
    unfolding assms(3) cells [symmetric] assms(9) [symmetric] by auto
  moreover have "sorted_wrt (\<lambda>r s. rect_cells r \<inter> rect_cells s = {}) (ra @ rb @ ss @ sa @ sb)"
  proof -
    define D where "D = (\<lambda>r s. rect_cells r \<inter> rect_cells s = {})"
    have p: "sorted_wrt D (ra @ sa)" "sorted_wrt D (rb @ sb)" "sorted_wrt D ss"
      using assms(1,2,7,8) s1 by (simp_all add: tiles_def D_def)
    have sub: "rect_cells x \<inter> rect_cells y = {}" if "rect_cells x \<subseteq> A" "rect_cells y \<subseteq> B" "A \<inter> B = {}" for x y A B
      using that by blast
    have ab: "D x y \<and> D y x" if "x \<in> set ra \<union> set sa" "y \<in> set rb \<union> set sb" for x y
      using sub [OF u(1) [OF that(1)] u(2) [OF that(2)] assms(5)] by (simp add: D_def Int_commute)
    have as: "D x y \<and> D y x" if "x \<in> set ra \<union> set sa" "y \<in> set ss" for x y
      using sub [OF u(1) [OF that(1)] u(3) [OF that(2)] assms(4)] by (simp add: D_def Int_commute)
    have bs: "D x y \<and> D y x" if "x \<in> set rb \<union> set sb" "y \<in> set ss" for x y
      using sub [OF u(2) [OF that(1)] u(3) [OF that(2)]] assms(6) by (simp add: D_def Int_commute)
    have "sorted_wrt D (ra @ rb @ ss @ sa @ sb)"
      using p ab as bs unfolding sorted_wrt_append set_append Un_iff by blast
    then show ?thesis by (simp add: D_def)
  qed
  ultimately show ?thesis by (simp add: tiles_def)
qed

lemma collect_rects_ok:
  assumes "rect16 area"
  shows "\<exists>rects seams. (\<forall>out. collect_rects_into fo t area reserve_seam out = Some (out @ rects)) \<and> map fst rects = leaves t \<and>
    (\<forall>pid. find_rect fo t pid area reserve_seam = Some (map_of rects pid)) \<and>
    (if reserve_seam then \<forall>out. collect_seams_into fo t area out = Some (out @ seams) else seams = []) \<and>
    tiles (map snd rects @ map sm_rect seams) area \<and> (\<forall>r \<in> set rects. rect16 (snd r))"
  using assms
proof (induction t arbitrary: area)
  case (Leaf p)
  then show ?case by (intro exI [of _ "[(p, area)]"] exI [of _ "[]"]) (simp add: tiles_def)
next
  case (Split d ratio a b)
  obtain r1 s r2 where s: "split_rect fo area (d = Vertical) ratio reserve_seam = Some (r1, s, r2)"
    "rect16 r1" "rect16 r2" "rect_cells area = rect_cells r1 \<union> rect_cells s \<union> rect_cells r2"
    "rect_cells r1 \<inter> rect_cells s = {}" "rect_cells r1 \<inter> rect_cells r2 = {}" "rect_cells s \<inter> rect_cells r2 = {}"
    "\<not> reserve_seam \<longrightarrow> rect_cells s = {}"
    by (rule split_rect_ok [OF Split.prems, of fo "d = Vertical" ratio reserve_seam])
  let ?sm = "if re_width s > 0 \<and> re_height s > 0 \<and> reserve_seam then [\<lparr>sm_rect = s, sm_direction = d\<rparr>] else []"
  have sm: "(\<Union>r \<in> set (map sm_rect ?sm). rect_cells r) = rect_cells s" "length (map sm_rect ?sm) \<le> 1"
    using s(8) by (auto simp: rect_cells_def)
  obtain ra sa where a: "\<And>out. collect_rects_into fo a r1 reserve_seam out = Some (out @ ra)" "map fst ra = leaves a"
    "\<And>pid. find_rect fo a pid r1 reserve_seam = Some (map_of ra pid)"
    "if reserve_seam then \<forall>out. collect_seams_into fo a r1 out = Some (out @ sa) else sa = []"
    "tiles (map snd ra @ map sm_rect sa) r1" "\<forall>r \<in> set ra. rect16 (snd r)" using Split.IH(1) [OF s(2)] by blast
  obtain rb sb where b: "\<And>out. collect_rects_into fo b r2 reserve_seam out = Some (out @ rb)" "map fst rb = leaves b"
    "\<And>pid. find_rect fo b pid r2 reserve_seam = Some (map_of rb pid)"
    "if reserve_seam then \<forall>out. collect_seams_into fo b r2 out = Some (out @ sb) else sb = []"
    "tiles (map snd rb @ map sm_rect sb) r2" "\<forall>r \<in> set rb. rect16 (snd r)" using Split.IH(2) [OF s(3)] by blast
  have "tiles (map snd (ra @ rb) @ map sm_rect (?sm @ sa @ sb)) area"
    using tiles_join [OF a(5) b(5) s(4-7) refl refl sm] by simp
  moreover have "if reserve_seam then \<forall>out. collect_seams_into fo (Split d ratio a b) area out = Some (out @ ?sm @ sa @ sb)
      else ?sm @ sa @ sb = []"
    using a(4) b(4) s(1) by (auto split: if_splits)
  moreover have "find_rect fo (Split d ratio a b) pid area reserve_seam = Some (map_of (ra @ rb) pid)" for pid
    using a(3) b(3) s(1) by (auto simp: map_add_def split: option.split)
  moreover have "collect_rects_into fo (Split d ratio a b) area reserve_seam out = Some (out @ ra @ rb)" for out
    using a(1) b(1) s(1) by simp
  moreover have "\<forall>r \<in> set (ra @ rb). rect16 (snd r)" using a(6) b(6) by auto
  ultimately show ?case using a(2) b(2) by (intro exI [of _ "ra @ rb"] exI [of _ "?sm @ sa @ sb"]) simp
qed

section \<open>The screen's parts (\<open>geometry.rs\<close>)\<close>

record chrome_rows =
  cw_tabbar :: nat
  cw_bands :: "nat list"

record screen_layout =
  sl_terminal :: rect
  sl_rows :: chrome_rows
  sl_reserve_seam :: bool

definition statusline_area :: "screen_layout \<Rightarrow> rect option" where
  "statusline_area l = do {
     let area = sl_terminal l;
     let height = min (re_height area) 1;
     y \<leftarrow> checked_sub (rect_bottom area) height;
     Some (area\<lparr>re_y := y, re_height := height\<rparr>) }"

definition tabbar_area :: "screen_layout \<Rightarrow> rect option" where
  "tabbar_area l = do {
     let area = sl_terminal l;
     s \<leftarrow> statusline_area l;
     above \<leftarrow> checked_sub (re_y s) (re_y area);
     Some (area\<lparr>re_height := min (cw_tabbar (sl_rows l)) above\<rparr>) }"

definition area_above_statusline :: "screen_layout \<Rightarrow> rect option" where
  "area_above_statusline l = do {
     t \<leftarrow> tabbar_area l;
     s \<leftarrow> statusline_area l;
     height \<leftarrow> checked_sub (re_y s) (rect_bottom t);
     Some ((sl_terminal l)\<lparr>re_y := rect_bottom t, re_height := height\<rparr>) }"

fun sum_u16 :: "nat \<Rightarrow> nat list \<Rightarrow> nat option" where
  "sum_u16 acc [] = Some acc"
| "sum_u16 acc (x # xs) = do { acc \<leftarrow> add_u16 acc x; sum_u16 acc xs }"

definition pane_area :: "screen_layout \<Rightarrow> rect option" where
  "pane_area l = do {
     above \<leftarrow> area_above_statusline l;
     bands_height \<leftarrow> sum_u16 0 (cw_bands (sl_rows l));
     Some (if bands_height < re_height above then above\<lparr>re_height := re_height above - bands_height\<rparr>
           else (sl_terminal l)\<lparr>re_height := 0\<rparr>) }"

record pane_size =
  pz_width :: nat
  pz_height :: nat

definition pane_size_of :: "rect \<Rightarrow> pane_size" where
  "pane_size_of r = \<lparr>pz_width = re_width r, pz_height = re_height r\<rparr>"

definition pane_size_in :: "'f float_ops \<Rightarrow> screen_layout \<Rightarrow> 'f focused_layout \<Rightarrow> pane_id \<Rightarrow> pane_size option option" where
  "pane_size_in fo l layout pid = do {
     area \<leftarrow> pane_area l;
     r \<leftarrow> find_rect fo (fl_tree layout) pid area (sl_reserve_seam l);
     Some (map_option pane_size_of r) }"

definition screen_focused_rect :: "'f float_ops \<Rightarrow> screen_layout \<Rightarrow> 'f focused_layout \<Rightarrow> rect option" where
  "screen_focused_rect fo l layout = do { area \<leftarrow> pane_area l; focused_rect fo layout area (sl_reserve_seam l) }"

definition focused_split_rect :: "'f float_ops \<Rightarrow> screen_layout \<Rightarrow> 'f focused_layout \<Rightarrow> direction \<Rightarrow> rect option" where
  "focused_split_rect fo l layout direction = do {
     area \<leftarrow> pane_area l;
     predicted_split_rect fo layout area (sl_reserve_seam l) direction }"

definition screen_focused_neighbor :: "'f float_ops \<Rightarrow> screen_layout \<Rightarrow> 'f focused_layout \<Rightarrow> side \<Rightarrow> pane_id option option" where
  "screen_focused_neighbor fo l layout side = do {
     area \<leftarrow> pane_area l;
     focused_neighbor fo layout area (sl_reserve_seam l) side }"

text \<open>The layout the last frame drew, and the pane drawn at a position.\<close>

record drawn_layout =
  dl_tabbar :: rect
  dl_panes :: "(pane_id \<times> rect) list"

definition drawn_begin :: "drawn_layout \<Rightarrow> screen_layout \<Rightarrow> drawn_layout option" where
  "drawn_begin d l = do { t \<leftarrow> tabbar_area l; Some (d\<lparr>dl_tabbar := t, dl_panes := []\<rparr>) }"

definition record_pane :: "drawn_layout \<Rightarrow> pane_id \<Rightarrow> rect \<Rightarrow> drawn_layout" where
  "record_pane d p r = d\<lparr>dl_panes := dl_panes d @ [(p, r)]\<rparr>"

record pane_hit =
  ph_pane :: pane_id
  ph_x :: nat
  ph_y :: nat
  ph_size :: pane_size

definition pane_at :: "drawn_layout \<Rightarrow> position \<Rightarrow> pane_hit option option" where
  "pane_at d pos =
     (case find (\<lambda>(_, r). rect_contains r pos) (dl_panes d) of
        None \<Rightarrow> Some None
      | Some (p, r) \<Rightarrow> do {
          x \<leftarrow> checked_sub (po_x pos) (re_x r);
          y \<leftarrow> checked_sub (po_y pos) (re_y r);
          Some (Some \<lparr>ph_pane = p, ph_x = x, ph_y = y, ph_size = pane_size_of r\<rparr>) })"

record view_geometry =
  vg_height :: nat
  vg_margin :: nat
  vg_target :: nat

definition pane_geometry :: "pane_size \<Rightarrow> nat \<Rightarrow> view_geometry option" where
  "pane_geometry ps scroll_margin =
     (if pz_height ps = 0 then None
      else (let height = pz_height ps;
                margin = min scroll_margin ((height - 1) div 2);
                target = height - margin - 1
            in Some \<lparr>vg_height = height, vg_margin = margin, vg_target = target\<rparr>))"

definition content_width_of :: "pane_size \<Rightarrow> nat \<Rightarrow> nat" where
  "content_width_of ps gutter_width = (let w = pz_width ps - gutter_width in if w = 0 then 1 else w)"

text \<open>The tab bar, the panes with the bands below them, and the status line are stacked in the terminal.\<close>

lemma pane_area_ok:
  assumes "rect16 (sl_terminal l)" "sum_list (cw_bands (sl_rows l)) \<le> u16_max"
  obtains t above s p where "tabbar_area l = Some t" "area_above_statusline l = Some above" "statusline_area l = Some s"
    "pane_area l = Some p" "tiles [t, above, s] (sl_terminal l)" "rect16 p" "rect_cells p \<subseteq> rect_cells above"
    "sum_list (cw_bands (sl_rows l)) < re_height above \<Longrightarrow>
       re_height p + sum_list (cw_bands (sl_rows l)) = re_height above \<and> re_y p = re_y above"
proof -
  define A where "A = sl_terminal l"
  define k where "k = min (re_height A) 1"
  define h where "h = min (cw_tabbar (sl_rows l)) (re_height A - k)"
  have b: "re_x A + re_width A \<le> u16_max" "re_y A + re_height A \<le> u16_max" using assms(1) by (auto simp: A_def rect16_def)
  have "h \<le> re_height A - k" "k \<le> re_height A" by (simp_all add: h_def k_def)
  then have hk: "h + k \<le> re_height A" by simp
  let ?s = "A\<lparr>re_y := re_y A + re_height A - k, re_height := k\<rparr>" and ?t = "A\<lparr>re_height := h\<rparr>"
    and ?a = "A\<lparr>re_y := re_y A + h, re_height := re_height A - k - h\<rparr>"
  have s: "statusline_area l = Some ?s"
    unfolding statusline_area_def A_def [symmetric] Let_def k_def [symmetric]
    using b hk by (simp add: rect_bottom_def sat_add16_def checked_sub_def)
  have t: "tabbar_area l = Some ?t"
    using b hk s by (simp add: tabbar_area_def A_def [symmetric] checked_sub_def Let_def h_def)
  have bt: "rect_bottom ?t = re_y A + h" using b hk by (simp add: rect_bottom_def sat_add16_def)
  have a: "area_above_statusline l = Some ?a"
    using b hk s t bt by (simp add: area_above_statusline_def A_def [symmetric] checked_sub_def)
  have sum: "sum_u16 acc xs = Some (acc + sum_list xs)" if "acc + sum_list xs \<le> u16_max" for acc xs
    using that by (induction xs arbitrary: acc) (auto simp: add_u16_def)
  let ?B = "sum_list (cw_bands (sl_rows l))"
  let ?p = "if ?B < re_height A - k - h then ?a\<lparr>re_height := re_height A - k - h - ?B\<rparr> else A\<lparr>re_height := 0\<rparr>"
  have p: "pane_area l = Some ?p"
    using a sum [of 0] assms(2) by (simp add: pane_area_def A_def [symmetric])
  show thesis
  proof (rule that [OF t a s p])
    show "tiles [?t, ?a, ?s] (sl_terminal l)"
      using hk unfolding A_def [symmetric] by (auto simp: tiles_def rect_cells_def)
    show "rect16 ?p" using b hk by (auto simp: rect16_def)
    show "rect_cells ?p \<subseteq> rect_cells ?a" by (auto simp: rect_cells_def)
  qed auto
qed

lemma sorted_wrt_same:
  "sorted_wrt (\<lambda>x y. f x \<inter> f y = {}) xs \<Longrightarrow> i < length xs \<Longrightarrow> j < length xs \<Longrightarrow> c \<in> f (xs ! i) \<Longrightarrow> c \<in> f (xs ! j) \<Longrightarrow> i = j"
  by (cases i j rule: linorder_cases) (auto simp: sorted_wrt_iff_nth_less)

lemma pane_at_ok:
  assumes tiled: "tiles (map snd rects @ more_rects) area" and ok: "\<forall>r \<in> set rects. rect16 (snd r)"
    and at: "(p, r) \<in> set rects" "rect_contains r pos"
  shows "pane_at \<lparr>dl_tabbar = tabbar, dl_panes = rects\<rparr> pos =
    Some (Some \<lparr>ph_pane = p, ph_x = po_x pos - re_x r, ph_y = po_y pos - re_y r, ph_size = pane_size_of r\<rparr>)"
proof -
  let ?P = "\<lambda>(_, r). rect_contains r pos"
  obtain j where j: "j < length rects" "rects ! j = (p, r)" using at(1) by (auto simp: in_set_conv_nth)
  obtain x where x: "find ?P rects = Some x"
    using at by (cases "find ?P rects") (auto simp: find_None_iff)
  then obtain i where i: "i < length rects" "rects ! i = x" "?P x" by (auto simp: find_Some_iff)
  have cell: "(po_x pos, po_y pos) \<in> rect_cells (snd (rects ! k))" if "k < length rects" "?P (rects ! k)" for k
    using that ok rect_cells_contains [of "snd (rects ! k)" "po_x pos" "po_y pos"]
    by (auto simp: case_prod_beta rect_contains_def)
  have "sorted_wrt (\<lambda>x y. rect_cells x \<inter> rect_cells y = {}) (map snd rects)"
    using tiled by (simp add: tiles_def sorted_wrt_append)
  then have "i = j"
    using cell [of i] cell [of j] i j at(2)
    by (intro sorted_wrt_same [of rect_cells "map snd rects" i j "(po_x pos, po_y pos)"]) auto
  then have "x = (p, r)" using i j by simp
  moreover have "re_x r \<le> po_x pos" "re_y r \<le> po_y pos" using at(2) by (simp_all add: rect_contains_def)
  ultimately show ?thesis using x by (simp add: pane_at_def checked_sub_def)
qed

text \<open>C33: However a tab was split, its panes and the seams between them tile the area they are given: every
  cell belongs to exactly one of them, and to a pane alone when no seam is reserved. There is one
  rectangle per leaf, in order; the search for one pane finds the same one; and a click on any cell of
  a drawn pane hits that pane, at its own coordinates. No 16-bit sum overflows.\<close>

theorem panes_tile:
  assumes "rect16 area"
  shows "\<exists>rects seams bare. collect_rects_into fo t area True [] = Some rects \<and>
    collect_seams_into fo t area [] = Some seams \<and> collect_rects_into fo t area False [] = Some bare \<and>
    map fst rects = leaves t \<and> map fst bare = leaves t \<and>
    tiles (map snd rects @ map sm_rect seams) area \<and> tiles (map snd bare) area \<and>
    (\<forall>pid. find_rect fo t pid area True = Some (map_of rects pid)) \<and>
    (\<forall>p r pos tabbar. (p, r) \<in> set rects \<and> rect_contains r pos \<longrightarrow>
       pane_at \<lparr>dl_tabbar = tabbar, dl_panes = rects\<rparr> pos =
         Some (Some \<lparr>ph_pane = p, ph_x = po_x pos - re_x r, ph_y = po_y pos - re_y r, ph_size = pane_size_of r\<rparr>))"
proof -
  obtain rects seams where r: "\<forall>out. collect_rects_into fo t area True out = Some (out @ rects)" "map fst rects = leaves t"
    "\<forall>pid. find_rect fo t pid area True = Some (map_of rects pid)"
    "\<forall>out. collect_seams_into fo t area out = Some (out @ seams)"
    "tiles (map snd rects @ map sm_rect seams) area" "\<forall>r \<in> set rects. rect16 (snd r)"
    using collect_rects_ok [OF assms, of fo t True] by auto
  obtain bare where b: "\<forall>out. collect_rects_into fo t area False out = Some (out @ bare)" "map fst bare = leaves t"
    "tiles (map snd bare) area"
    using collect_rects_ok [OF assms, of fo t False] by auto
  show ?thesis
    by (rule exI [of _ rects], rule exI [of _ seams], rule exI [of _ bare])
      (use r b pane_at_ok [OF r(5,6)] in simp)
qed

definition exact_ratio :: "(nat \<times> nat) float_ops" where
  "exact_ratio = \<lparr>fo_ratio = Pair, fo_half = (1, 2), fo_scale = (\<lambda>usable (a, b). usable * a div b)\<rparr>"

theorem panes_tile_witness:
  "\<exists>rects. collect_rects_into exact_ratio (Split Horizontal (1, 2) (Leaf 1) (Leaf 2)) \<lparr>re_x = 0, re_y = 0, re_width = 9, re_height = 4\<rparr> True [] =
     Some rects \<and> map fst rects = [1, 2]"
proof -
  have "rect16 \<lparr>re_x = 0, re_y = 0, re_width = 9, re_height = 4\<rparr>" by (simp add: rect16_def u16_max_def)
  from panes_tile [OF this, of exact_ratio "Split Horizontal (1, 2) (Leaf 1) (Leaf 2)"] show ?thesis by auto
qed

end
