(* ===== verification/Panes.thy ===== *)
theory Panes imports Layout "HOL-Library.Multiset" begin

text \<open>
  The panes of a view, \<open>hume-engine\<close>'s \<open>pipeline/pane_pool.rs\<close> and the layout operations of
  \<open>pipeline/mod.rs\<close>: which panes exist, which layouts name them, and the tokens that pass a pane from
  the pool to a layout and back. Over the operations on a layout's tree of \<open>Layout\<close>.
\<close>

section \<open>What the operations do to the leaves\<close>

lemma insert_split_ok:
  "insert_split fo t target new_pane d = (hit, t') \<Longrightarrow>
    hit = contains_leaf t target \<and> (\<not> hit \<longrightarrow> t' = t) \<and>
    (hit \<longrightarrow> (\<exists>xs ys. leaves t = xs @ target # ys \<and> leaves t' = xs @ target # new_pane # ys))"
proof (induction t arbitrary: hit t')
  case (Leaf p)
  then show ?case by (cases "p = target") (auto intro: exI [of _ "[]"])
next
  case (Split d' ratio a b)
  obtain ha a' where a: "insert_split fo a target new_pane d = (ha, a')" by fastforce
  obtain hb b' where b: "insert_split fo b target new_pane d = (hb, b')" by fastforce
  show ?case
  proof (cases ha)
    case True
    then have r: "hit" "t' = Split d' ratio a' b" using Split.prems a by auto
    obtain xs ys where "leaves a = xs @ target # ys" "leaves a' = xs @ target # new_pane # ys"
      using Split.IH(1) [OF a] True by blast
    then show ?thesis using r Split.IH(1) [OF a] True
      by (intro conjI impI exI [of _ xs] exI [of _ "ys @ leaves b"]) auto
  next
    case False
    then have r: "hit = hb" "t' = Split d' ratio a' b'" using Split.prems a b by auto
    note ia = Split.IH(1) [OF a] and ib = Split.IH(2) [OF b]
    show ?thesis
    proof (cases hb)
      case True
      then obtain xs ys where "leaves b = xs @ target # ys" "leaves b' = xs @ target # new_pane # ys" using ib by blast
      then show ?thesis using r ia ib False True
        by (intro conjI impI exI [of _ "leaves a @ xs"] exI [of _ ys]) auto
    qed (use r ia ib False in auto)
  qed
qed

lemma equalize_leaves [simp]: "leaves (equalize fo t) = leaves t"
  by (induction t) (auto simp: Let_def)

lemma first_leaf_eq: "first_leaf t = hd (leaves t)"
  by (induction t) auto

lemma first_leaf_in: "first_leaf t \<in> set (leaves t)"
  by (simp add: first_leaf_eq)

lemma prune_leaf_None: "fst (prune_leaf t target) = None \<Longrightarrow> snd (prune_leaf t target) = t \<and> (t = Leaf target \<or> target \<notin> set (leaves t))"
proof (induction t)
  case (Split d ratio a b)
  show ?case
  proof (cases "a = Leaf target \<or> b = Leaf target")
    case False
    obtain sa a' where a: "prune_leaf a target = (sa, a')" by fastforce
    obtain sb b' where b: "prune_leaf b target = (sb, b')" by fastforce
    from Split.prems False a b have "sa = None" "sb = None" by (auto simp: Let_def split: option.splits)
    then show ?thesis using Split.IH a b False by (auto simp: Let_def)
  qed (use Split.prems in \<open>auto simp: Let_def split: if_splits\<close>)
qed auto

lemma prune_leaf_Some:
  "prune_leaf t target = (Some survivor, t') \<Longrightarrow>
    (\<exists>xs ys. leaves t = xs @ target # ys \<and> leaves t' = xs @ ys) \<and> survivor \<in> set (leaves t')"
proof (induction t arbitrary: t')
  case (Split d ratio a b)
  show ?case
  proof (cases "a = Leaf target \<or> b = Leaf target")
    case True
    show ?thesis
    proof (cases "a = Leaf target")
      case True
      then show ?thesis using Split.prems first_leaf_in by (auto simp: Let_def intro: exI [of _ "[]"])
    next
      case False
      then show ?thesis using True Split.prems first_leaf_in by (fastforce simp: Let_def)
    qed
  next
    case False
    obtain sa a' where a: "prune_leaf a target = (sa, a')" by fastforce
    obtain sb b' where b: "prune_leaf b target = (sb, b')" by fastforce
    show ?thesis
    proof (cases sa)
      case None
      then have r: "sb = Some survivor" "t' = Split d ratio a' b'" using Split.prems False a b by (auto simp: Let_def)
      obtain xs ys where "leaves b = xs @ target # ys" "leaves b' = xs @ ys" "survivor \<in> set (leaves b')"
        using Split.IH(2) b r(1) by blast
      moreover have "a' = a" using prune_leaf_None [of a target] a None by simp
      ultimately show ?thesis using r
        by (intro conjI exI [of _ "leaves a @ xs"] exI [of _ ys]) auto
    next
      case (Some s)
      then have r: "s = survivor" "t' = Split d ratio a' b" using Split.prems False a b by (auto simp: Let_def)
      obtain xs ys where "leaves a = xs @ target # ys" "leaves a' = xs @ ys" "survivor \<in> set (leaves a')"
        using Split.IH(1) a Some r(1) by blast
      then show ?thesis using r by (intro conjI exI [of _ xs] exI [of _ "ys @ leaves b"]) auto
    qed
  qed
qed simp

section \<open>Rotating a run\<close>

definition no_split :: "direction \<Rightarrow> 'f layout_tree \<Rightarrow> bool" where
  "no_split d t = (case t of Leaf _ \<Rightarrow> True | Split d' _ _ _ \<Rightarrow> d' \<noteq> d)"

lemma run_members_no_split: "m \<in> set (collect_run_members d t) \<Longrightarrow> no_split d m"
  by (induction d t rule: collect_run_members.induct) (auto simp: no_split_def split: if_splits)

lemma run_members_self: "no_split d t \<Longrightarrow> collect_run_members d t = [t]"
  by (cases t) (auto simp: no_split_def)

lemma put_run_length:
  "length (collect_run_members d t) \<le> length ms \<Longrightarrow>
    snd (put_run_members d t ms) = drop (length (collect_run_members d t)) ms"
proof (induction d t ms rule: put_run_members.induct)
  case (2 direction d ratio a b ms)
  show ?case
  proof (cases "d = direction")
    case True
    let ?na = "length (collect_run_members direction a)"
    have la: "?na \<le> length ms" "length (collect_run_members direction b) \<le> length (drop ?na ms)" using 2(3) True by auto
    have sa: "snd (put_run_members direction a ms) = drop ?na ms" using 2(1) [OF True la(1)] .
    have "snd (put_run_members direction b (drop ?na ms)) =
        drop (length (collect_run_members direction b)) (drop ?na ms)"
      using 2(2) [OF True, of "put_run_members direction a ms" "fst (put_run_members direction a ms)" "drop ?na ms"]
        sa la(2) by (metis prod.collapse)
    then show ?thesis using True sa by (simp add: Let_def case_prod_beta ac_simps)
  qed (simp add: drop_Suc)
qed (simp add: drop_Suc)

text \<open>Putting members in place and reading them back, the members read and put back, and the leaves.\<close>

lemma collect_put_run:
  "length (collect_run_members d t) \<le> length ms \<Longrightarrow> \<forall>m \<in> set ms. no_split d m \<Longrightarrow>
    collect_run_members d (fst (put_run_members d t ms)) = take (length (collect_run_members d t)) ms"
proof (induction d t ms rule: put_run_members.induct)
  case (1 direction p ms)
  then show ?case by (cases ms) (auto simp: run_members_self)
next
  case (2 direction d ratio a b ms)
  show ?case
  proof (cases "d = direction")
    case True
    let ?na = "length (collect_run_members direction a)" and ?nb = "length (collect_run_members direction b)"
    have la: "?na \<le> length ms" "?nb \<le> length (drop ?na ms)" using 2(3) True by auto
    have sa: "snd (put_run_members direction a ms) = drop ?na ms" by (rule put_run_length [OF la(1)])
    have "collect_run_members direction (fst (put_run_members direction a ms)) = take ?na ms"
      using 2(1) [OF True la(1) 2(4)] .
    moreover have "collect_run_members direction (fst (put_run_members direction b (drop ?na ms))) = take ?nb (drop ?na ms)"
      using 2(2) [OF True, of "put_run_members direction a ms" "fst (put_run_members direction a ms)" "drop ?na ms"]
        sa la(2) 2(4) by (metis in_set_dropD prod.collapse)
    ultimately show ?thesis using True sa by (simp add: Let_def case_prod_beta take_add)
  next
    case False
    then show ?thesis using 2(3,4) by (cases ms) (auto simp: run_members_self)
  qed
qed

lemma put_collect_run: "put_run_members d t (collect_run_members d t @ ms) = (t, ms)"
  by (induction d t arbitrary: ms rule: collect_run_members.induct) auto

text \<open>Putting members replaces those that were put before: what remains of a tree is its shape.\<close>

lemma put_put_run:
  "length (collect_run_members d t) \<le> length ms \<Longrightarrow> \<forall>m \<in> set ms. no_split d m \<Longrightarrow>
    put_run_members d (fst (put_run_members d t ms)) ns = put_run_members d t ns"
proof (induction d t ms arbitrary: ns rule: put_run_members.induct)
  case (1 direction p ms)
  then obtain m where "hd ms = m" "no_split direction m" by (cases ms) auto
  then show ?case by (cases m) (auto simp: no_split_def)
next
  case (2 direction d ratio a b ms)
  show ?case
  proof (cases "d = direction")
    case True
    let ?na = "length (collect_run_members direction a)"
    have la: "?na \<le> length ms" "length (collect_run_members direction b) \<le> length (drop ?na ms)" using 2(3) True by auto
    have sa: "snd (put_run_members direction a ms) = drop ?na ms" by (rule put_run_length [OF la(1)])
    have "put_run_members direction (fst (put_run_members direction a ms)) ns = put_run_members direction a ns" for ns
      using 2(1) [OF True la(1) 2(4)] .
    moreover have "put_run_members direction (fst (put_run_members direction b (drop ?na ms))) ns =
        put_run_members direction b ns" for ns
      using 2(2) [OF True, of "put_run_members direction a ms" "fst (put_run_members direction a ms)" "drop ?na ms"]
        sa la(2) 2(4) by (metis in_set_dropD prod.collapse)
    ultimately show ?thesis using True sa by (simp add: Let_def case_prod_beta)
  next
    case False
    then obtain m where "hd ms = m" "no_split direction m" using 2(3,4) by (cases ms) auto
    then show ?thesis using False by (cases m) (auto simp: no_split_def)
  qed
qed

lemma leaves_run: "concat (map leaves (collect_run_members d t)) = leaves t"
  by (induction d t rule: collect_run_members.induct) auto

lemma put_run_leaves:
  assumes "length ms = length (collect_run_members d t)" "\<forall>m \<in> set ms. no_split d m"
  shows "leaves (fst (put_run_members d t ms)) = concat (map leaves ms)"
  using collect_put_run [of d t ms] assms leaves_run [of d "fst (put_run_members d t ms)"] by simp

lemma put_run_split:
  "put_run_members d (Split d ratio a b) ms = (t', ms') \<Longrightarrow> \<exists>a' b'. t' = Split d ratio a' b'"
  by (auto simp: Let_def split: prod.splits)

lemma rotate_lists [simp]:
  "length (rotate_right k xs) = length xs" "length (rotate_left k xs) = length xs"
  "mset (rotate_right k xs) = mset xs" "mset (rotate_left k xs) = mset xs"
  "set (rotate_right k xs) = set xs" "set (rotate_left k xs) = set xs"
proof -
  show m: "mset (rotate_right k xs) = mset xs" "mset (rotate_left k xs) = mset xs"
    unfolding rotate_right_def rotate_left_def mset_append
    by (metis add.commute append_take_drop_id mset_append)+
  show "length (rotate_right k xs) = length xs" "length (rotate_left k xs) = length xs"
    using m mset_eq_length by blast+
  show "set (rotate_right k xs) = set xs" "set (rotate_left k xs) = set xs"
    using m mset_eq_setD by blast+
qed

lemma rotate_left_right: "k \<le> length xs \<Longrightarrow> rotate_left k (rotate_right k xs) = xs"
  and rotate_right_left: "k \<le> length xs \<Longrightarrow> rotate_right k (rotate_left k xs) = xs"
  by (simp_all add: rotate_right_def rotate_left_def)

definition opposite :: "rotation \<Rightarrow> rotation" where
  "opposite r = (case r of RotForward \<Rightarrow> RotBackward | RotBackward \<Rightarrow> RotForward)"

definition rotated :: "rotation \<Rightarrow> nat \<Rightarrow> 'a list \<Rightarrow> 'a list" where
  "rotated r k xs = (case r of RotForward \<Rightarrow> rotate_right k xs | RotBackward \<Rightarrow> rotate_left k xs)"

lemma rotated_lists [simp]:
  "length (rotated r k xs) = length xs" "mset (rotated r k xs) = mset xs" "set (rotated r k xs) = set xs"
  by (cases r; simp add: rotated_def)+

lemma rotated_back: "k \<le> length xs \<Longrightarrow> rotated (opposite r) k (rotated r k xs) = xs"
  by (cases r) (simp_all add: rotated_def opposite_def rotate_left_right rotate_right_left)

definition is_split :: "'f layout_tree \<Rightarrow> bool" where
  "is_split t = (case t of Leaf _ \<Rightarrow> False | Split _ _ _ _ \<Rightarrow> True)"

lemma run_members_pos: "collect_run_members d t \<noteq> []"
  by (induction d t rule: collect_run_members.induct) auto

lemma rotate_run_Split:
  "rotate_run (Split d ratio a b) target r n =
     (let t = Split d ratio a b; ms = collect_run_members d t in
      if Leaf target \<in> set ms then (True, fst (put_run_members d t (rotated r (n mod length ms) ms)))
      else (case rotate_any ms target r n of (hit, ms) \<Rightarrow> (hit, fst (put_run_members d t ms))))"
  unfolding rotate_run.simps rotated_def Let_def by (rule refl)

definition member_kept :: "'f layout_tree \<Rightarrow> 'f layout_tree \<Rightarrow> bool" where
  "member_kept t t' \<longleftrightarrow> mset (leaves t') = mset (leaves t) \<and> is_split t' = is_split t \<and>
     (\<forall>d. no_split d t' = no_split d t) \<and> (is_split t \<or> t' = t)"

lemma member_kept_refl [simp]: "member_kept t t"
  by (simp add: member_kept_def)

lemma mset_leaves_list: "mset (concat (map leaves xs)) = sum_list (map (mset \<circ> leaves) xs)"
  by (simp add: mset_concat)

lemma kept_list:
  assumes "list_all2 member_kept ms ms'"
  shows "length ms' = length ms" "mset (concat (map leaves ms')) = mset (concat (map leaves ms))"
    "(\<forall>m \<in> set ms. no_split d m) \<Longrightarrow> (\<forall>m \<in> set ms'. no_split d m)"
    "Leaf p \<in> set ms' \<longleftrightarrow> Leaf p \<in> set ms"
  using assms by (induction rule: list_all2_induct) (auto simp: member_kept_def is_split_def split: layout_tree.splits)

lemma put_kept:
  assumes "length ms = length (collect_run_members d (Split d ratio a b))" "\<forall>m \<in> set ms. no_split d m"
    "mset (concat (map leaves ms)) = mset (leaves (Split d ratio a b))"
  shows "member_kept (Split d ratio a b) (fst (put_run_members d (Split d ratio a b) ms))"
proof -
  obtain a' b' where "fst (put_run_members d (Split d ratio a b) ms) = Split d ratio a' b'"
    using put_run_split by (metis prod.collapse)
  moreover have "mset (leaves (fst (put_run_members d (Split d ratio a b) ms))) = mset (leaves (Split d ratio a b))"
    using put_run_leaves [OF assms(1,2)] assms(3) by simp
  ultimately show ?thesis by (auto simp: member_kept_def is_split_def no_split_def)
qed

lemma mset_concat_rotated: "mset (concat (map leaves (rotated r k ms))) = mset (concat (map leaves ms))"
  unfolding mset_concat map_map by (metis mset_map rotated_lists(2) sum_mset_sum_list)

lemma leaves_run_members: "concat (map leaves (collect_run_members d t)) = leaves t" by (rule leaves_run)

lemma rotate_run_kept:
  fixes t :: "'f layout_tree" and ms :: "'f layout_tree list"
  shows "rotate_run t target r n = (hit, t') \<Longrightarrow>
     member_kept t t' \<and> (hit \<longleftrightarrow> is_split t \<and> target \<in> set (leaves t)) \<and> (\<not> hit \<longrightarrow> t' = t)"
  "rotate_any ms target r n = (hit, ms') \<Longrightarrow>
     list_all2 member_kept ms ms' \<and> (hit \<longleftrightarrow> (\<exists>m \<in> set ms. is_split m \<and> target \<in> set (leaves m))) \<and> (\<not> hit \<longrightarrow> ms' = ms)"
proof (induction t target r n and ms target r n arbitrary: hit t' and hit ms' rule: rotate_run_rotate_any.induct)
  case (1 p target r n)
  then show ?case by (auto simp: is_split_def)
next
  case (2 d ratio a b target r n)
  let ?t = "Split d ratio a b"
  define ms where "ms = collect_run_members d ?t"
  have nos: "\<forall>m \<in> set ms. no_split d m" using run_members_no_split unfolding ms_def by blast
  have lv: "concat (map leaves ms) = leaves ?t" unfolding ms_def by (rule leaves_run)
  show ?case
  proof (cases "Leaf target \<in> set ms")
    case True
    then have h: "hit" "t' = fst (put_run_members d ?t (rotated r (n mod length ms) ms))"
      using 2(2) unfolding rotate_run_Split ms_def [symmetric] Let_def by auto
    have "member_kept ?t t'" unfolding h(2)
      by (rule put_kept) (use nos lv mset_concat_rotated [of r "n mod length ms" ms] in \<open>auto simp: ms_def\<close>)
    moreover have "target \<in> set (leaves ?t)" unfolding lv [symmetric] using True by force
    ultimately show ?thesis using h(1) by (simp add: is_split_def)
  next
    case False
    obtain h ms' where any: "rotate_any ms target r n = (h, ms')" by fastforce
    then have h: "hit = h" "t' = fst (put_run_members d ?t ms')"
      using 2(2) False unfolding rotate_run_Split ms_def [symmetric] Let_def by auto
    have ih: "list_all2 member_kept ms ms'" "h \<longleftrightarrow> (\<exists>m \<in> set ms. is_split m \<and> target \<in> set (leaves m))" "\<not> h \<longrightarrow> ms' = ms"
      using 2(1) [OF refl ms_def False any] by auto
    note k = kept_list [OF ih(1)]
    have "member_kept ?t t'" unfolding h(2)
      by (rule put_kept) (use nos lv k in \<open>auto simp: ms_def\<close>)
    moreover have "(\<exists>m \<in> set ms. is_split m \<and> target \<in> set (leaves m)) \<longleftrightarrow> target \<in> set (leaves ?t)"
    proof -
      have "is_split m" if "m \<in> set ms" "target \<in> set (leaves m)" for m
        using False by (cases m; insert that) (auto simp: is_split_def)
      then show ?thesis unfolding lv [symmetric] by auto
    qed
    moreover have "t' = ?t" if "\<not> hit"
      using that h ih(3) put_collect_run [of d ?t "[]"] by (simp add: ms_def)
    ultimately show ?thesis using h(1) ih(2) by (simp add: is_split_def)
  qed
next
  case (3 target r n)
  then show ?case by simp
next
  case (4 m ms target r n)
  obtain h m' where m: "rotate_run m target r n = (h, m')" by fastforce
  note k = 4(1) [OF m]
  show ?case
  proof (cases h)
    case True
    then show ?thesis using 4(3) m k by (auto simp: list_all2_refl)
  next
    case False
    obtain h2 ms2 where any: "rotate_any ms target r n = (h2, ms2)" by fastforce
    from 4(2) [OF m [symmetric] _ any] False have "list_all2 member_kept ms ms2 \<and>
       (h2 \<longleftrightarrow> (\<exists>m \<in> set ms. is_split m \<and> target \<in> set (leaves m))) \<and> (\<not> h2 \<longrightarrow> ms2 = ms)" by simp
    then show ?thesis using 4(3) m any False k by auto
  qed
qed


text \<open>Rotating back: the members are found again where they were put.\<close>

lemma rotate_any_back:
  assumes "rotate_any ms target r n = (True, ms')" "\<And>m m'. m \<in> set ms \<Longrightarrow> rotate_run m target r n = (True, m') \<Longrightarrow>
    rotate_run m' target (opposite r) n = (True, m)"
  shows "rotate_any ms' target (opposite r) n = (True, ms)"
  using assms
proof (induction ms arbitrary: ms')
  case (Cons m ms)
  obtain h m' where m: "rotate_run m target r n = (h, m')" by fastforce
  show ?case
  proof (cases h)
    case True
    then show ?thesis using Cons.prems(1) Cons.prems(2) [of m m'] m by auto
  next
    case False
    obtain h2 ms2 where any: "rotate_any ms target r n = (h2, ms2)" by fastforce
    have "\<not> (is_split m \<and> target \<in> set (leaves m))" "m' = m" using rotate_run_kept(1) [OF m] False by auto
    then have "rotate_run m target (opposite r) n = (False, m)"
      using rotate_run_kept(1) [of m target "opposite r" n] by (metis prod.collapse)
    moreover have "rotate_any ms2 target (opposite r) n = (True, ms)"
      using Cons.IH [of ms2] Cons.prems any m False by auto
    ultimately show ?thesis using Cons.prems(1) any m False \<open>m' = m\<close> by auto
  qed
qed simp

lemma rotate_run_back:
  "rotate_run t target r n = (True, t') \<Longrightarrow> rotate_run t' target (opposite r) n = (True, t)"
proof (induction "size t" arbitrary: t t' rule: less_induct)
  case less
  show ?case
  proof (cases t)
    case (Leaf p)
    then show ?thesis using less.prems by simp
  next
    case (Split d ratio a b)
    let ?t = "Split d ratio a b"
    define ms where "ms = collect_run_members d ?t"
    have nos: "\<forall>m \<in> set ms. no_split d m" using run_members_no_split unfolding ms_def by blast
    have main: "rotate_run t' target (opposite r) n = (True, t)"
      if ns: "length ns = length ms" "\<forall>m \<in> set ns. no_split d m" "t' = fst (put_run_members d ?t ns)"
        "Leaf target \<in> set ns \<longleftrightarrow> Leaf target \<in> set ms"
        "Leaf target \<in> set ns \<Longrightarrow> rotated (opposite r) (n mod length ms) ns = ms"
        "Leaf target \<notin> set ns \<Longrightarrow> rotate_any ns target (opposite r) n = (True, ms)" for ns
    proof -
      obtain a' b' where t': "t' = Split d ratio a' b'" using put_run_split ns(3) by (metis prod.collapse)
      have bk: "collect_run_members d (Split d ratio a' b') = ns"
        using collect_put_run [of d ?t ns] ns(1,2,3) t' by (simp only: ms_def take_all order_refl)
      have "put_run_members d (Split d ratio a' b') ms = put_run_members d ?t ms"
        using put_put_run [of d ?t ns ms] ns(1,2,3) t' by (simp only: ms_def order_refl)
      also have "\<dots> = (?t, [])" using put_collect_run [of d ?t "[]"] by (simp add: ms_def)
      finally show ?thesis using ns(1,4,5,6) unfolding t' rotate_run_Split Let_def bk by (auto simp: Split)
    qed
    show ?thesis
    proof (cases "Leaf target \<in> set ms")
      case True
      then have "t' = fst (put_run_members d ?t (rotated r (n mod length ms) ms))"
        using less.prems unfolding Split rotate_run_Split ms_def [symmetric] Let_def by auto
      moreover have "length ms > 0" using run_members_pos unfolding ms_def by blast
      ultimately show ?thesis using True nos
        by (intro main [of "rotated r (n mod length ms) ms"]) (auto intro!: rotated_back intro: less_imp_le)
    next
      case False
      obtain h ns where any: "rotate_any ms target r n = (h, ns)" by fastforce
      then have h: "h" "t' = fst (put_run_members d ?t ns)"
        using less.prems False unfolding Split rotate_run_Split ms_def [symmetric] Let_def by auto
      have kept: "list_all2 member_kept ms ns" using rotate_run_kept(2) [OF any] by simp
      have "rotate_any ns target (opposite r) n = (True, ms)"
      proof (rule rotate_any_back [where r = r])
        show "rotate_any ms target r n = (True, ns)" using any h(1) by simp
        show "rotate_run m' target (opposite r) n = (True, m)" if "m \<in> set ms" "rotate_run m target r n = (True, m')" for m m'
          using less.hyps [of m m'] that run_members_smaller [of m d ratio a b] by (simp add: ms_def Split)
      qed
      then show ?thesis using kept_list [OF kept] nos h(2) False by (intro main [of ns]) auto
    qed
  qed
qed


text \<open>C34: Rotating a row or column of panes is undone by rotating it the other way by the same count, at any
  depth of the layout and for any count, the one larger than the row included: the very same tree
  comes back, with its focus. Either rotation keeps exactly the panes there were, and neither panics.\<close>

theorem rotation_undone:
  assumes "rotate_focused l rot n = Some (Inr l')"
  shows "rotate_focused l' (opposite rot) n = Some (Inr l) \<and> fl_focus l' = fl_focus l \<and>
    mset (leaves (fl_tree l')) = mset (leaves (fl_tree l))"
proof -
  obtain hit t where t: "rotate_run (fl_tree l) (fl_focus l) rot n = (hit, t)" by fastforce
  from assms t have h: "refuse_single_pane l = Inr ()" hit "l' = l\<lparr>fl_tree := t\<rparr>"
    by (auto simp: rotate_focused_def split: sum.splits if_splits)
  have k: "member_kept (fl_tree l) t" using rotate_run_kept(1) [OF t] by simp
  have "rotate_run t (fl_focus l) (opposite rot) n = (True, fl_tree l)" by (rule rotate_run_back) (use t h(2) in simp)
  moreover have "refuse_single_pane l' = Inr ()"
    using k h(1,3) by (auto simp: refuse_single_pane_def member_kept_def is_split_def split: layout_tree.splits)
  ultimately show ?thesis using h(3) k by (simp add: rotate_focused_def member_kept_def)
qed

theorem rotation_undone_witness:
  "\<exists>l. rotate_focused l RotBackward 4 =
     Some (Inr \<lparr>fl_tree = Split Horizontal (1 :: nat) (Leaf 1) (Split Horizontal 2 (Leaf 2) (Leaf 3)), fl_focus = 2\<rparr>)"
proof -
  define l where "l = \<lparr>fl_tree = Split Horizontal (1 :: nat) (Leaf 1) (Split Horizontal 2 (Leaf 2) (Leaf 3)), fl_focus = 2\<rparr>"
  obtain l' where "rotate_focused l RotForward 4 = Some (Inr l')"
    by (simp add: l_def rotate_focused_def refuse_single_pane_def rotate_right_def Let_def)
  from rotation_undone [OF this] show ?thesis by (auto simp: l_def opposite_def)
qed

end
