(* ===== verification/Machine.thy ===== *)
theory Machine imports Main begin

text \<open>
  Components driven by events: the states reachable from a start by events their callers may raise, over a
  step that may panic. The contract of such a component is an invariant that holds at the start and
  that every permitted event keeps, without a panic; what follows from it is proved once here.
\<close>

inductive reachable :: "('s \<Rightarrow> bool) \<Rightarrow> ('e \<Rightarrow> 's \<Rightarrow> bool) \<Rightarrow> ('e \<Rightarrow> 's \<Rightarrow> 's option) \<Rightarrow> 's \<Rightarrow> bool"
  for start permitted step where
  at_start: "start s \<Longrightarrow> reachable start permitted step s"
| after: "reachable start permitted step s \<Longrightarrow> permitted e s \<Longrightarrow> step e s = Some s' \<Longrightarrow> reachable start permitted step s'"

text \<open>The run of a list of events, stopped by a panic.\<close>

fun run_events :: "('e \<Rightarrow> 's \<Rightarrow> 's option) \<Rightarrow> 'e list \<Rightarrow> 's \<Rightarrow> 's option" where
  "run_events step [] s = Some s"
| "run_events step (e # es) s = (case step e s of None \<Rightarrow> None | Some s' \<Rightarrow> run_events step es s')"

locale machine =
  fixes start :: "'s \<Rightarrow> bool" and permitted :: "'e \<Rightarrow> 's \<Rightarrow> bool" and step :: "'e \<Rightarrow> 's \<Rightarrow> 's option" and inv :: "'s \<Rightarrow> bool"
  assumes start_inv: "start s \<Longrightarrow> inv s"
    and step_inv: "inv s \<Longrightarrow> permitted e s \<Longrightarrow> \<exists>s'. step e s = Some s' \<and> inv s'"
begin

lemma reached_inv: "reachable start permitted step s \<Longrightarrow> inv s"
proof (induction rule: reachable.induct)
  case (at_start s)
  then show ?case by (rule start_inv)
next
  case (after s e s')
  then show ?case using step_inv [of s e] by auto
qed

lemma reached_steps: "reachable start permitted step s \<Longrightarrow> permitted e s \<Longrightarrow> step e s \<noteq> None"
  using step_inv [OF reached_inv] by fastforce

lemma run_ok:
  assumes "inv s" "\<And>e s. e \<in> set es \<Longrightarrow> permitted e s"
  obtains s' where "run_events step es s = Some s'" "inv s'"
  using assms
proof (induction es arbitrary: s thesis)
  case (Cons e es)
  obtain v where v: "step e s = Some v" "inv v" using step_inv [OF Cons.prems(2), of e] Cons.prems(3) by auto
  obtain s' where s': "run_events step es v = Some s'" "inv s'"
    by (rule Cons.IH [OF _ v(2)]) (use Cons.prems(3) in auto)
  show ?case by (rule Cons.prems(1) [OF _ s'(2)]) (simp add: v(1) s'(1))
qed simp

end

end
