(* ===== verification/Windows.thy ===== *)
theory Windows imports Panes Machine begin

text \<open>
  Which buffers, panes and tabs are open: \<open>hume-engine\<close>'s pane pool and active layout
  (\<open>pipeline/pane_pool.rs\<close>, \<open>pipeline/mod.rs\<close>) with \<open>hume-editor\<close>'s buffer store (\<open>buffer/store.rs\<close>,
  \<open>buffer/lifecycle.rs\<close>), tab store (\<open>tab/store.rs\<close>, \<open>tab/mod.rs\<close>), pane entries (\<open>pane_state.rs\<close>),
  focus moves (\<open>focus.rs\<close>) and the pane and tab commands (\<open>commands/pane.rs\<close>, \<open>commands/tab.rs\<close>,
  \<open>commands/jump.rs\<close>).

  Keys of a \<open>SlotMap\<close> are handed out by the package: an operation that inserts one takes the new
  key as an argument, and the sessions below ask that it is not a live one. A pane of the pool
  carries the buffer it shows, a pane's entry the buffers it has state for. What a buffer answers
  about itself (unsaved changes, a busy hold) and the pipe runs in flight are arguments.
\<close>

type_synonym buffer_id = nat
type_synonym tab_id = nat

section \<open>The stores\<close>

record buffer_store =
  bs_buffers :: "buffer_id list"
  bs_order :: "buffer_id list"
  bs_mru :: "buffer_id list"

record 'f tab_store =
  ts_order :: "tab_id list"
  ts_current :: tab_id
  ts_ids :: "tab_id list"
  ts_stash :: "(tab_id \<times> 'f focused_layout) list"

record 'f windows =
  wi_layout :: "'f focused_layout"
  wi_panes :: "(pane_id \<times> buffer_id) list"
  wi_slots :: "buffer_id list"
  wi_store :: buffer_store
  wi_tabs :: "'f tab_store"
  wi_entries :: "(pane_id \<times> buffer_id list) list"

text \<open>\<open>BufferStore\<close>.\<close>

definition buffer_store_new :: buffer_store where
  "buffer_store_new = \<lparr>bs_buffers = [], bs_order = [], bs_mru = []\<rparr>"

definition store_open :: "buffer_id \<Rightarrow> buffer_store \<Rightarrow> buffer_store" where
  "store_open i st = st\<lparr>bs_buffers := List.insert i (bs_buffers st), bs_order := bs_order st @ [i],
     bs_mru := i # bs_mru st\<rparr>"

definition store_close :: "buffer_id \<Rightarrow> buffer_store \<Rightarrow> buffer_store" where
  "store_close i st = st\<lparr>bs_buffers := removeAll i (bs_buffers st),
     bs_order := filter (\<lambda>x. x \<noteq> i) (bs_order st), bs_mru := filter (\<lambda>x. x \<noteq> i) (bs_mru st)\<rparr>"

definition touch_mru :: "buffer_id \<Rightarrow> buffer_store \<Rightarrow> buffer_store" where
  "touch_mru i st = st\<lparr>bs_mru := filter (\<lambda>x. x \<noteq> i) (bs_mru st) @ [i]\<rparr>"

definition mru_excluding :: "buffer_id \<Rightarrow> buffer_store \<Rightarrow> buffer_id option" where
  "mru_excluding i st = find (\<lambda>x. x \<noteq> i) (rev (bs_mru st))"

definition second_most_recent :: "buffer_store \<Rightarrow> buffer_id option" where
  "second_most_recent st = nth_opt (rev (bs_mru st)) 1"

definition store_step :: "buffer_store \<Rightarrow> buffer_id \<Rightarrow> cycle \<Rightarrow> buffer_id option" where
  "store_step st current c = do {
     pos \<leftarrow> position_of (\<lambda>x. x = current) (bs_order st);
     i \<leftarrow> cycle_step c pos (length (bs_order st));
     nth_opt (bs_order st) i }"

text \<open>\<open>TabStore\<close>.\<close>

definition tab_store_new :: "tab_id \<Rightarrow> 'f tab_store" where
  "tab_store_new i = \<lparr>ts_order = [i], ts_current = i, ts_ids = [i], ts_stash = []\<rparr>"

definition current_pos :: "'f tab_store \<Rightarrow> nat option" where
  "current_pos ts = position_of (\<lambda>t. t = ts_current ts) (ts_order ts)"

fun tab_layouts_in :: "'f tab_store \<Rightarrow> 'f focused_layout \<Rightarrow> tab_id list \<Rightarrow> (tab_id \<times> 'f focused_layout) list option" where
  "tab_layouts_in ts live [] = Some []"
| "tab_layouts_in ts live (i # is) = do {
     layout \<leftarrow> (if i = ts_current ts then Some live else map_of (ts_stash ts) i);
     rest \<leftarrow> tab_layouts_in ts live is;
     Some ((i, layout) # rest) }"

definition tab_layouts :: "'f tab_store \<Rightarrow> 'f focused_layout \<Rightarrow> (tab_id \<times> 'f focused_layout) list option" where
  "tab_layouts ts live = tab_layouts_in ts live (ts_order ts)"

definition focused_panes :: "'f tab_store \<Rightarrow> 'f focused_layout \<Rightarrow> (tab_id \<times> pane_id) list option" where
  "focused_panes ts live = map_option (map (\<lambda>(i, layout). (i, fl_focus layout))) (tab_layouts ts live)"

definition take_layout :: "tab_id \<Rightarrow> 'f tab_store \<Rightarrow> ('f focused_layout \<times> 'f tab_store) option" where
  "take_layout i ts = do {
     l \<leftarrow> map_of (ts_stash ts) i;
     Some (l, ts\<lparr>ts_stash := AList.delete i (ts_stash ts)\<rparr>) }"

definition stash_current :: "'f focused_layout \<Rightarrow> 'f tab_store \<Rightarrow> 'f tab_store option" where
  "stash_current outgoing ts = do {
     ensure (map_of (ts_stash ts) (ts_current ts) = None);
     Some (ts\<lparr>ts_stash := AList.update (ts_current ts) outgoing (ts_stash ts)\<rparr>) }"

definition store_switch :: "'f focused_layout \<Rightarrow> tab_id \<Rightarrow> 'f tab_store \<Rightarrow> 'f tab_store option" where
  "store_switch outgoing target ts = do {
     ts \<leftarrow> stash_current outgoing ts;
     Some (ts\<lparr>ts_current := target\<rparr>) }"

definition open_after_current :: "tab_id \<Rightarrow> 'f focused_layout \<Rightarrow> 'f tab_store \<Rightarrow> 'f tab_store option" where
  "open_after_current new_tab outgoing ts = do {
     pos \<leftarrow> current_pos ts;
     let pos = pos + 1;
     ts \<leftarrow> stash_current outgoing ts;
     ensure (pos \<le> length (ts_order ts));
     Some (ts\<lparr>ts_ids := List.insert new_tab (ts_ids ts),
              ts_order := take pos (ts_order ts) @ [new_tab] @ drop pos (ts_order ts), ts_current := new_tab\<rparr>) }"

datatype single_tab = SingleTab

definition refuse_close :: "'f tab_store \<Rightarrow> single_tab + unit" where
  "refuse_close ts = (if length (ts_order ts) = 1 then Inl SingleTab else Inr ())"

definition adjacent_tab :: "'f tab_store \<Rightarrow> (single_tab + tab_id) option" where
  "adjacent_tab ts =
     (case refuse_close ts of
        Inl e \<Rightarrow> Some (Inl e)
      | Inr _ \<Rightarrow> do {
          pos \<leftarrow> current_pos ts;
          neighbor \<leftarrow> (if pos + 1 < length (ts_order ts) then Some (pos + 1) else checked_sub pos 1);
          t \<leftarrow> nth_opt (ts_order ts) neighbor;
          Some (Inr t) })"

definition close_current :: "tab_id \<Rightarrow> 'f tab_store \<Rightarrow> 'f tab_store" where
  "close_current survivor ts =
     (let closed = ts_current ts in
      ts\<lparr>ts_order := filter (\<lambda>t. t \<noteq> closed) (ts_order ts), ts_ids := removeAll closed (ts_ids ts),
         ts_current := survivor\<rparr>)"

definition tab_step :: "'f tab_store \<Rightarrow> cycle \<Rightarrow> tab_id option" where
  "tab_step ts c = do {
     pos \<leftarrow> current_pos ts;
     i \<leftarrow> cycle_step c pos (length (ts_order ts));
     nth_opt (ts_order ts) i }"

section \<open>The engine's view\<close>

definition active_pane_ids :: "'f windows \<Rightarrow> pane_id list" where
  "active_pane_ids w = leaves (fl_tree (wi_layout w))"

definition focused_pane :: "'f windows \<Rightarrow> pane_id" where
  "focused_pane w = fl_focus (wi_layout w)"

definition insert_pane :: "pane_id \<Rightarrow> buffer_id \<Rightarrow> 'f windows \<Rightarrow> 'f windows" where
  "insert_pane p b w = w\<lparr>wi_panes := AList.update p b (wi_panes w)\<rparr>"

definition remove_pane :: "pane_id \<Rightarrow> 'f windows \<Rightarrow> 'f windows" where
  "remove_pane p w = w\<lparr>wi_panes := AList.delete p (wi_panes w)\<rparr>"

text \<open>\<open>begin_frame\<close> rewinds the line store of every active pane, which it finds by index.\<close>

definition begin_frame :: "'f windows \<Rightarrow> unit option" where
  "begin_frame w = ensure (\<forall>p \<in> set (active_pane_ids w). map_of (wi_panes w) p \<noteq> None)"

definition replace_layout :: "'f focused_layout \<Rightarrow> 'f windows \<Rightarrow> ('f focused_layout \<times> 'f windows) option" where
  "replace_layout layout w = do {
     let outgoing = wi_layout w;
     let w = w\<lparr>wi_layout := layout\<rparr>;
     begin_frame w;
     Some (outgoing, w) }"

definition show_buffer :: "pane_id \<Rightarrow> buffer_id \<Rightarrow> 'f windows \<Rightarrow> 'f windows option" where
  "show_buffer p target w = do {
     ensure (map_of (wi_panes w) p \<noteq> None);
     Some (w\<lparr>wi_panes := AList.update p target (wi_panes w)\<rparr>) }"

definition view_focus :: "pane_id \<Rightarrow> 'f windows \<Rightarrow> 'f windows option" where
  "view_focus p w = do { l \<leftarrow> layout_focus (wi_layout w) p; Some (w\<lparr>wi_layout := l\<rparr>) }"

definition view_split_focused :: "'f float_ops \<Rightarrow> pane_id \<Rightarrow> direction \<Rightarrow> 'f windows \<Rightarrow> 'f windows option" where
  "view_split_focused fo p d w = do { l \<leftarrow> split_focused fo (wi_layout w) p d; Some (w\<lparr>wi_layout := l\<rparr>) }"

definition view_close_focused :: "'f float_ops \<Rightarrow> 'f windows \<Rightarrow> (single_pane + pane_id \<times> 'f windows) option" where
  "view_close_focused fo w = do {
     r \<leftarrow> close_focused fo (wi_layout w);
     Some (case r of Inl e \<Rightarrow> Inl e | Inr (p, l) \<Rightarrow> Inr (p, w\<lparr>wi_layout := l\<rparr>)) }"

definition view_rotate_focused :: "rotation \<Rightarrow> nat \<Rightarrow> 'f windows \<Rightarrow> (single_pane + 'f windows) option" where
  "view_rotate_focused rot steps w = do {
     r \<leftarrow> rotate_focused (wi_layout w) rot steps;
     Some (case r of Inl e \<Rightarrow> Inl e | Inr l \<Rightarrow> Inr (w\<lparr>wi_layout := l\<rparr>)) }"

section \<open>Pane entries and focus moves\<close>

definition open_entry :: "pane_id \<Rightarrow> buffer_id \<Rightarrow> 'f windows \<Rightarrow> 'f windows option" where
  "open_entry p b w = do {
     let w = insert_pane p b w;
     ensure (map_of (wi_entries w) p = None);
     Some (w\<lparr>wi_entries := AList.update p [b] (wi_entries w)\<rparr>) }"

definition remove_entry :: "pane_id \<Rightarrow> 'f windows \<Rightarrow> 'f windows" where
  "remove_entry p w = w\<lparr>wi_entries := AList.delete p (wi_entries w)\<rparr>"

definition ensure_state :: "pane_id \<Rightarrow> buffer_id \<Rightarrow> 'f windows \<Rightarrow> 'f windows option" where
  "ensure_state p b w = do {
     ensure (map_of (wi_panes w) p \<noteq> None);
     bs \<leftarrow> map_of (wi_entries w) p;
     if b \<in> set bs then Some w
     else do {
       ensure (b \<in> set (bs_buffers (wi_store w)));
       Some (w\<lparr>wi_entries := AList.update p (b # bs) (wi_entries w)\<rparr>) } }"

definition touch :: "buffer_id \<Rightarrow> 'f windows \<Rightarrow> 'f windows" where
  "touch b w = w\<lparr>wi_store := touch_mru b (wi_store w)\<rparr>"

definition touch_focused_mru :: "'f windows \<Rightarrow> 'f windows option" where
  "touch_focused_mru w = do { b \<leftarrow> map_of (wi_panes w) (focused_pane w); Some (touch b w) }"

definition switch_pane_to_buffer :: "pane_id \<Rightarrow> buffer_id \<Rightarrow> 'f windows \<Rightarrow> 'f windows option" where
  "switch_pane_to_buffer p target w = do {
     shown \<leftarrow> map_of (wi_panes w) p;
     let is_focused_switch = (p = focused_pane w \<and> shown \<noteq> target);
     ensure (target \<in> set (bs_buffers (wi_store w)));
     w \<leftarrow> show_buffer p target w;
     ensure_state p target (if is_focused_switch then touch target w else w) }"

definition focus_pane :: "pane_id \<Rightarrow> 'f windows \<Rightarrow> 'f windows option" where
  "focus_pane p w = do { w \<leftarrow> view_focus p w; touch_focused_mru w }"

definition focus_close_focused :: "'f float_ops \<Rightarrow> 'f windows \<Rightarrow> (single_pane + pane_id \<times> 'f windows) option" where
  "focus_close_focused fo w = do {
     r \<leftarrow> view_close_focused fo w;
     case r of
       Inl e \<Rightarrow> Some (Inl e)
     | Inr (detached, w) \<Rightarrow> do { w \<leftarrow> touch_focused_mru w; Some (Inr (detached, w)) } }"

definition install_layout :: "'f focused_layout \<Rightarrow> 'f windows \<Rightarrow> ('f focused_layout \<times> 'f windows) option" where
  "install_layout layout w = do {
     (outgoing, w) \<leftarrow> replace_layout layout w;
     w \<leftarrow> touch_focused_mru w;
     Some (outgoing, w) }"

section \<open>Tabs\<close>

definition enter_tab :: "tab_id \<Rightarrow> 'f windows \<Rightarrow> ('f focused_layout \<times> 'f windows) option" where
  "enter_tab target w = do {
     (incoming, ts) \<leftarrow> take_layout target (wi_tabs w);
     install_layout incoming (w\<lparr>wi_tabs := ts\<rparr>) }"

definition switch_to_tab :: "tab_id \<Rightarrow> 'f windows \<Rightarrow> 'f windows option" where
  "switch_to_tab target w =
     (if target = ts_current (wi_tabs w) then Some w
      else do {
        (outgoing, w) \<leftarrow> enter_tab target w;
        ts \<leftarrow> store_switch outgoing target (wi_tabs w);
        Some (w\<lparr>wi_tabs := ts\<rparr>) })"

definition open_tab :: "tab_id \<Rightarrow> 'f focused_layout \<Rightarrow> 'f windows \<Rightarrow> 'f windows option" where
  "open_tab new_tab layout w = do {
     (outgoing, w) \<leftarrow> install_layout layout w;
     ts \<leftarrow> open_after_current new_tab outgoing (wi_tabs w);
     Some (w\<lparr>wi_tabs := ts\<rparr>) }"

definition tab_close :: "'f windows \<Rightarrow> (single_tab + pane_id list \<times> 'f windows) option" where
  "tab_close w = do {
     r \<leftarrow> adjacent_tab (wi_tabs w);
     case r of
       Inl e \<Rightarrow> Some (Inl e)
     | Inr survivor \<Rightarrow> do {
         (closing, w) \<leftarrow> enter_tab survivor w;
         Some (Inr (layout_into_detached closing, w\<lparr>wi_tabs := close_current survivor (wi_tabs w)\<rparr>)) } }"

section \<open>The pane and tab commands\<close>

definition open_pane :: "pane_id \<Rightarrow> buffer_id \<Rightarrow> 'f windows \<Rightarrow> 'f windows option" where
  "open_pane p b w = do {
     ensure (b \<in> set (bs_buffers (wi_store w)));
     open_entry p b w }"

definition open_pane_in_layout :: "'f float_ops \<Rightarrow> pane_id \<Rightarrow> buffer_id \<Rightarrow> direction \<Rightarrow> 'f windows \<Rightarrow> 'f windows option" where
  "open_pane_in_layout fo p b d w = do { w \<leftarrow> open_pane p b w; view_split_focused fo p d w }"

definition open_pane_as_new_tab :: "pane_id \<Rightarrow> tab_id \<Rightarrow> buffer_id \<Rightarrow> 'f windows \<Rightarrow> 'f windows option" where
  "open_pane_as_new_tab p new_tab b w = do {
     w \<leftarrow> open_pane p b w;
     open_tab new_tab (focused_layout_new p) w }"

text \<open>The pipe runs in flight, oldest first: the pane that started each, and its buffer.\<close>

type_synonym pipe_runs = "(pane_id \<times> buffer_id) list"

definition launched_from :: "pipe_runs \<Rightarrow> pane_id list \<Rightarrow> buffer_id option" where
  "launched_from runs panes = map_option snd (find (\<lambda>r. fst r \<in> set panes) runs)"

definition drop_pane_state :: "pipe_runs \<Rightarrow> pane_id \<Rightarrow> 'f windows \<Rightarrow> 'f windows option" where
  "drop_pane_state runs p w = do {
     ensure (launched_from runs [p] = None);
     Some (remove_entry p (remove_pane p w)) }"

fun drop_pane_states :: "pipe_runs \<Rightarrow> pane_id list \<Rightarrow> 'f windows \<Rightarrow> 'f windows option" where
  "drop_pane_states runs [] w = Some w"
| "drop_pane_states runs (p # ps) w = do { w \<leftarrow> drop_pane_state runs p w; drop_pane_states runs ps w }"

datatype close_refused = CloseLast | ClosePipeRunning buffer_id

definition check_no_pipe_from :: "pipe_runs \<Rightarrow> pane_id list \<Rightarrow> close_refused + unit" where
  "check_no_pipe_from runs panes = (case launched_from runs panes of Some b \<Rightarrow> Inl (ClosePipeRunning b) | None \<Rightarrow> Inr ())"

definition close_focused_pane :: "'f float_ops \<Rightarrow> pipe_runs \<Rightarrow> 'f windows \<Rightarrow> (close_refused + 'f windows) option" where
  "close_focused_pane fo runs w =
     (case refuse_single_pane (wi_layout w) of
        Inl _ \<Rightarrow> Some (Inl CloseLast)
      | Inr _ \<Rightarrow>
          (case check_no_pipe_from runs [focused_pane w] of
             Inl e \<Rightarrow> Some (Inl e)
           | Inr _ \<Rightarrow> do {
               r \<leftarrow> focus_close_focused fo w;
               case r of
                 Inl _ \<Rightarrow> None
               | Inr (detached, w) \<Rightarrow> do { w \<leftarrow> drop_pane_state runs detached w; Some (Inr w) } }))"

definition close_tab :: "pipe_runs \<Rightarrow> 'f windows \<Rightarrow> (close_refused + 'f windows) option" where
  "close_tab runs w =
     (case refuse_close (wi_tabs w) of
        Inl _ \<Rightarrow> Some (Inl CloseLast)
      | Inr _ \<Rightarrow>
          (case check_no_pipe_from runs (active_pane_ids w) of
             Inl e \<Rightarrow> Some (Inl e)
           | Inr _ \<Rightarrow> do {
               r \<leftarrow> tab_close w;
               case r of
                 Inl _ \<Rightarrow> None
               | Inr (detached, w) \<Rightarrow> do { w \<leftarrow> drop_pane_states runs detached w; Some (Inr w) } }))"

definition goto_tab_in_order :: "cycle \<Rightarrow> 'f windows \<Rightarrow> 'f windows option" where
  "goto_tab_in_order c w = do { target \<leftarrow> tab_step (wi_tabs w) c; switch_to_tab target w }"

definition focus_cycled :: "cycle \<Rightarrow> 'f windows \<Rightarrow> 'f windows option" where
  "focus_cycled c w = do {
     r \<leftarrow> pane_cycled_from_focused (wi_layout w) c;
     case r of None \<Rightarrow> Some w | Some p \<Rightarrow> focus_pane p w }"

definition focus_toward :: "'f float_ops \<Rightarrow> screen_layout \<Rightarrow> side \<Rightarrow> 'f windows \<Rightarrow> 'f windows option" where
  "focus_toward fo screen side w = do {
     neighbor \<leftarrow> screen_focused_neighbor fo screen (wi_layout w) side;
     case neighbor of None \<Rightarrow> Some w | Some p \<Rightarrow> focus_pane p w }"

definition min_pane_height :: nat where "min_pane_height = 3"
definition min_pane_width :: nat where "min_pane_width = 10"

definition fits_split :: "'f float_ops \<Rightarrow> screen_layout \<Rightarrow> direction \<Rightarrow> 'f windows \<Rightarrow> bool option" where
  "fits_split fo screen d w = do {
     r \<leftarrow> focused_split_rect fo screen (wi_layout w) d;
     Some (case d of Vertical \<Rightarrow> re_height r \<ge> min_pane_height | Horizontal \<Rightarrow> re_width r \<ge> min_pane_width) }"

text \<open>\<open>split_pane_onto\<close>, but for what a split of the same buffer copies from the pane it splits.\<close>

datatype split_refused = SplitTooSmall

definition split_pane_onto :: "'f float_ops \<Rightarrow> screen_layout \<Rightarrow> pane_id \<Rightarrow> buffer_id \<Rightarrow> direction \<Rightarrow> 'f windows \<Rightarrow>
    (split_refused + 'f windows) option" where
  "split_pane_onto fo screen new_pane b d w = do {
     fits \<leftarrow> fits_split fo screen d w;
     if \<not> fits then Some (Inl SplitTooSmall)
     else do {
       w \<leftarrow> open_pane_in_layout fo new_pane b d w;
       w \<leftarrow> focus_pane new_pane w;
       Some (Inr w) } }"

section \<open>Buffers\<close>

definition open_and_notify :: "buffer_id \<Rightarrow> 'f windows \<Rightarrow> 'f windows" where
  "open_and_notify b w = w\<lparr>wi_slots := List.insert b (wi_slots w), wi_store := store_open b (wi_store w)\<rparr>"

definition open_scratch_on :: "buffer_id \<Rightarrow> pane_id \<Rightarrow> 'f windows \<Rightarrow> 'f windows option" where
  "open_scratch_on b p w = switch_pane_to_buffer p b (open_and_notify b w)"

definition enter_buffer :: "pane_id \<Rightarrow> buffer_id \<Rightarrow> 'f windows \<Rightarrow> 'f windows option" where
  "enter_buffer p target w = do {
     shown \<leftarrow> map_of (wi_panes w) p;
     if shown \<noteq> target then switch_pane_to_buffer p target w else Some w }"

fun redirect_panes :: "pane_id list \<Rightarrow> buffer_id \<Rightarrow> 'f windows \<Rightarrow> 'f windows option" where
  "redirect_panes [] target w = Some w"
| "redirect_panes (p # ps) target w = do { w \<leftarrow> switch_pane_to_buffer p target w; redirect_panes ps target w }"

text \<open>Of what \<open>forget_closed_buffer\<close> drops, the panes' state for the buffer.\<close>

definition forget_closed_buffer :: "buffer_id \<Rightarrow> 'f windows \<Rightarrow> 'f windows" where
  "forget_closed_buffer b w = w\<lparr>wi_entries := map (\<lambda>(p, bs). (p, removeAll b bs)) (wi_entries w)\<rparr>"

text \<open>\<open>close_buffer\<close>: \<open>scratch\<close> is the key of the buffer opened when \<open>b\<close> was the only one.\<close>

definition close_buffer :: "(buffer_id \<Rightarrow> bool) \<Rightarrow> buffer_id \<Rightarrow> buffer_id \<Rightarrow> 'f windows \<Rightarrow> 'f windows option" where
  "close_buffer busy scratch b w = do {
     ensure (b \<in> set (bs_buffers (wi_store w)));
     ensure (\<not> busy b);
     let (next_buffer, w) = (case mru_excluding b (wi_store w) of
        Some n \<Rightarrow> (n, w) | None \<Rightarrow> (scratch, open_and_notify scratch w));
     w \<leftarrow> redirect_panes (map fst (filter (\<lambda>(p, shown). shown = b) (wi_panes w))) next_buffer w;
     let w = w\<lparr>wi_store := store_close b (wi_store w), wi_slots := removeAll b (wi_slots w)\<rparr>;
     Some (forget_closed_buffer b w) }"

datatype close_buffer_refused = BufferUnsaved buffer_id | BufferPipeRunning buffer_id

definition close_buffer_and_notify :: "(buffer_id \<Rightarrow> bool) \<Rightarrow> (buffer_id \<Rightarrow> bool) \<Rightarrow> buffer_id \<Rightarrow> buffer_id \<Rightarrow> 'f windows \<Rightarrow>
    (close_buffer_refused + 'f windows) option" where
  "close_buffer_and_notify unsaved busy scratch b w =
     do {
       ensure (b \<in> set (bs_buffers (wi_store w)));
       if unsaved b then Some (Inl (BufferUnsaved b))
       else if busy b then Some (Inl (BufferPipeRunning b))
       else do { w \<leftarrow> close_buffer busy scratch b w; Some (Inr w) } }"

datatype no_alternate = NoAlternate

definition goto_alternate_buffer :: "pane_id \<Rightarrow> 'f windows \<Rightarrow> (no_alternate + 'f windows) option" where
  "goto_alternate_buffer p w =
     (case second_most_recent (wi_store w) of
        Some target \<Rightarrow> do {
          b \<leftarrow> map_of (wi_panes w) p;
          w \<leftarrow> switch_pane_to_buffer p target (touch b w);
          Some (Inr (touch target w)) }
      | None \<Rightarrow> Some (Inl NoAlternate))"

definition goto_buffer_in_order :: "pane_id \<Rightarrow> cycle \<Rightarrow> 'f windows \<Rightarrow> 'f windows option" where
  "goto_buffer_in_order p c w = do {
     b \<leftarrow> map_of (wi_panes w) p;
     target \<leftarrow> store_step (wi_store w) b c;
     switch_pane_to_buffer p target w }"

text \<open>\<open>bootstrap\<close>: the first buffer, the pane showing it, and the tab.\<close>

definition bootstrap :: "buffer_id \<Rightarrow> pane_id \<Rightarrow> tab_id \<Rightarrow> 'f windows option" where
  "bootstrap b p t = do {
     let w = \<lparr>wi_layout = placeholder_layout, wi_panes = [], wi_slots = [b], wi_store = store_open b buffer_store_new,
              wi_tabs = tab_store_new t, wi_entries = []\<rparr>;
     w \<leftarrow> open_pane p b w;
     (_, w) \<leftarrow> replace_layout (focused_layout_new p) w;
     Some w }"


section \<open>What holds between the operations\<close>

text \<open>The tabs' layouts, the live one and the stashed ones, and the panes they reach.\<close>

definition all_layouts :: "'f windows \<Rightarrow> 'f focused_layout multiset" where
  "all_layouts w = add_mset (wi_layout w) (mset (map snd (ts_stash (wi_tabs w))))"

definition leaf_bag :: "'f focused_layout multiset \<Rightarrow> pane_id multiset" where
  "leaf_bag ls = (\<Sum>l \<in># ls. mset (leaves (fl_tree l)))"

definition focus_in :: "'f focused_layout \<Rightarrow> bool" where
  "focus_in l \<longleftrightarrow> fl_focus l \<in> set (leaves (fl_tree l))"

definition tabs_ok :: "'f tab_store \<Rightarrow> bool" where
  "tabs_ok ts \<longleftrightarrow> distinct (ts_order ts) \<and> ts_current ts \<in> set (ts_order ts) \<and> distinct (keys (ts_stash ts)) \<and>
     set (keys (ts_stash ts)) = set (ts_order ts) - {ts_current ts} \<and> set (ts_ids ts) = set (ts_order ts)"

definition store_ok :: "buffer_id list \<Rightarrow> buffer_store \<Rightarrow> bool" where
  "store_ok slots st \<longleftrightarrow> distinct (bs_order st) \<and> distinct (bs_mru st) \<and> set (bs_order st) = set (bs_buffers st) \<and>
     set (bs_mru st) = set (bs_buffers st) \<and> set slots = set (bs_buffers st)"

text \<open>\<open>extra\<close>: the panes of the pool that no layout names, those with a token on its way.\<close>

definition pool_ok :: "'f focused_layout multiset \<Rightarrow> (pane_id \<times> buffer_id) list \<Rightarrow> pane_id multiset \<Rightarrow> bool" where
  "pool_ok ls panes extra \<longleftrightarrow> leaf_bag ls + extra = mset (keys panes) \<and> distinct (keys panes) \<and>
     default_pane \<notin> set (keys panes) \<and> (\<forall>l \<in># ls. focus_in l)"

definition shown_ok :: "(pane_id \<times> buffer_id) list \<Rightarrow> (pane_id \<times> buffer_id list) list \<Rightarrow> buffer_id set \<Rightarrow> bool" where
  "shown_ok panes entries buffers \<longleftrightarrow> distinct (keys entries) \<and> set (keys entries) = set (keys panes) \<and>
     (\<forall>p b. map_of panes p = Some b \<longrightarrow> b \<in> buffers \<and> (\<exists>bs. map_of entries p = Some bs \<and> b \<in> set bs)) \<and>
     (\<forall>p bs. map_of entries p = Some bs \<longrightarrow> set bs \<subseteq> buffers)"

definition windows_with :: "pane_id multiset \<Rightarrow> 'f windows \<Rightarrow> bool" where
  "windows_with extra w \<longleftrightarrow> tabs_ok (wi_tabs w) \<and> store_ok (wi_slots w) (wi_store w) \<and>
     pool_ok (all_layouts w) (wi_panes w) extra \<and> shown_ok (wi_panes w) (wi_entries w) (set (bs_buffers (wi_store w)))"

abbreviation windows_ok :: "'f windows \<Rightarrow> bool" where
  "windows_ok \<equiv> windows_with {#}"

text \<open>The buffer on screen is the most recently viewed one.\<close>

definition screen_recent :: "'f windows \<Rightarrow> bool" where
  "screen_recent w \<longleftrightarrow> bs_mru (wi_store w) \<noteq> [] \<and> map_of (wi_panes w) (focused_pane w) = Some (last (bs_mru (wi_store w)))"

lemma position_of_in: "x \<in> set xs \<Longrightarrow> \<exists>i. position_of (\<lambda>y. y = x) xs = Some i \<and> i < length xs \<and> xs ! i = x"
  by (induction xs) auto

lemma nth_opt_in: "nth_opt xs i = Some x \<Longrightarrow> x \<in> set xs"
  by (auto simp: nth_opt_def split: if_splits)

lemma update_absent: "k \<notin> set (keys m) \<Longrightarrow> AList.update k v m = m @ [(k, v)]"
  by (induction m) (auto simp: keys_def)

lemma keys_update: "keys (AList.update k v m) = (if k \<in> set (keys m) then keys m else keys m @ [k])"
  by (simp add: keys_def update_keys)

lemma keys_delete: "keys (AList.delete k m) = removeAll k (keys m)"
  by (simp add: keys_def delete_keys)

lemma mset_delete_key:
  "distinct (keys m) \<Longrightarrow> map_of m k = Some v \<Longrightarrow> mset m = add_mset (k, v) (mset (AList.delete k m))"
  by (induction m) (auto simp: set_keys domI domIff delete_key_absent)

lemma mset_removeAll_distinct: "distinct xs \<Longrightarrow> x \<in> set xs \<Longrightarrow> add_mset x (mset (removeAll x xs)) = mset xs"
  by (induction xs) (auto simp: removeAll_id)

lemma leaf_bag_simps [simp]: "leaf_bag {#} = {#}" "leaf_bag (add_mset l ls) = mset (leaves (fl_tree l)) + leaf_bag ls"
  by (simp_all add: leaf_bag_def)

lemma leaf_bag_in: "l \<in># ls \<Longrightarrow> p \<in> set (leaves (fl_tree l)) \<Longrightarrow> p \<in># leaf_bag ls"
  by (auto simp: leaf_bag_def)

lemma pool_leaf:
  assumes "pool_ok ls panes extra" "l \<in># ls" "p \<in> set (leaves (fl_tree l))"
  shows "p \<in> set (keys panes)" "map_of panes p \<noteq> None"
proof -
  have "p \<in># leaf_bag ls + extra" using leaf_bag_in [OF assms(2,3)] by simp
  then show "p \<in> set (keys panes)" using assms(1) unfolding pool_ok_def by (metis set_mset_mset)
  then show "map_of panes p \<noteq> None" by (auto simp: set_keys)
qed

lemma layout_in_all [simp]: "wi_layout w \<in># all_layouts w"
  by (simp add: all_layouts_def)

lemma active_in_pool:
  "windows_with extra w \<Longrightarrow> p \<in> set (active_pane_ids w) \<Longrightarrow> \<exists>b. map_of (wi_panes w) p = Some b \<and> b \<in> set (bs_buffers (wi_store w))"
  using pool_leaf(2) [of "all_layouts w" "wi_panes w" extra "wi_layout w" p]
  by (auto simp: windows_with_def active_pane_ids_def shown_ok_def)

lemma focused_active: "windows_with extra w \<Longrightarrow> focused_pane w \<in> set (active_pane_ids w)"
  by (simp add: windows_with_def pool_ok_def all_layouts_def focus_in_def focused_pane_def active_pane_ids_def)

lemma begin_frame_ok: "windows_with extra w \<Longrightarrow> begin_frame w = Some ()"
  using active_in_pool [of extra w] by (auto simp: begin_frame_def)

lemma store_ok_touch: "store_ok slots st \<Longrightarrow> b \<in> set (bs_buffers st) \<Longrightarrow> store_ok slots (touch_mru b st)"
  by (auto simp: store_ok_def touch_mru_def)

lemma touch_simps [simp]:
  "wi_layout (touch b w) = wi_layout w" "wi_panes (touch b w) = wi_panes w" "wi_tabs (touch b w) = wi_tabs w"
  "wi_entries (touch b w) = wi_entries w" "wi_slots (touch b w) = wi_slots w"
  "bs_buffers (wi_store (touch b w)) = bs_buffers (wi_store w)" "bs_order (wi_store (touch b w)) = bs_order (wi_store w)"
  "bs_mru (wi_store (touch b w)) = filter (\<lambda>x. x \<noteq> b) (bs_mru (wi_store w)) @ [b]"
  "focused_pane (touch b w) = focused_pane w" "all_layouts (touch b w) = all_layouts w"
  by (simp_all add: touch_def touch_mru_def focused_pane_def all_layouts_def)

lemma touch_ok: "windows_with extra w \<Longrightarrow> b \<in> set (bs_buffers (wi_store w)) \<Longrightarrow> windows_with extra (touch b w)"
  using store_ok_touch [of "wi_slots w" "wi_store w" b] by (simp add: windows_with_def) (simp add: touch_def)

lemma shown_entry:
  "windows_with extra w \<Longrightarrow> map_of (wi_panes w) p = Some b \<Longrightarrow> \<exists>bs. map_of (wi_entries w) p = Some bs \<and> b \<in> set bs"
  unfolding windows_with_def shown_ok_def by metis

lemma touch_focused_ok:
  assumes "windows_with extra w"
  obtains b where "touch_focused_mru w = Some (touch b w)" "windows_with extra (touch b w)" "screen_recent (touch b w)"
proof -
  obtain b where "map_of (wi_panes w) (focused_pane w) = Some b" "b \<in> set (bs_buffers (wi_store w))"
    using active_in_pool [OF assms focused_active [OF assms]] by auto
  then show thesis using touch_ok [OF assms] by (intro that [of b]) (auto simp: touch_focused_mru_def screen_recent_def)
qed

text \<open>A pane is made to show another buffer.\<close>

lemma switch_ok:
  assumes ok: "windows_with extra w" and p: "p \<in> set (keys (wi_panes w))" and t: "target \<in> set (bs_buffers (wi_store w))"
  obtains w' where "switch_pane_to_buffer p target w = Some w'" "windows_with extra w'"
    "wi_panes w' = AList.update p target (wi_panes w)" "wi_layout w' = wi_layout w" "wi_tabs w' = wi_tabs w"
    "bs_buffers (wi_store w') = bs_buffers (wi_store w)" "screen_recent w \<longrightarrow> screen_recent w'"
proof -
  obtain shown where sh: "map_of (wi_panes w) p = Some shown" using p by (auto simp: set_keys)
  define sw where "sw \<longleftrightarrow> p = focused_pane w \<and> shown \<noteq> target"
  define v where "v = w\<lparr>wi_panes := AList.update p target (wi_panes w)\<rparr>"
  define u where "u = (if sw then touch target v else v)"
  obtain bs where bs: "map_of (wi_entries w) p = Some bs" using shown_entry [OF ok sh] by auto
  define w' where "w' = (if target \<in> set bs then u else u\<lparr>wi_entries := AList.update p (target # bs) (wi_entries u)\<rparr>)"
  have u: "wi_panes u = AList.update p target (wi_panes w)" "wi_layout u = wi_layout w" "wi_tabs u = wi_tabs w"
    "wi_entries u = wi_entries w" "wi_slots u = wi_slots w" "bs_buffers (wi_store u) = bs_buffers (wi_store w)"
    "wi_store u = (if sw then touch_mru target (wi_store w) else wi_store w)"
    by (simp_all add: u_def v_def touch_def touch_mru_def)
  have keys: "keys (wi_panes u) = keys (wi_panes w)" using p by (simp add: u keys_update)
  have r: "switch_pane_to_buffer p target w = Some w'"
    using sh t bs u(4,6) keys p
    by (simp add: switch_pane_to_buffer_def show_buffer_def ensure_state_def Let_def sw_def [symmetric] v_def [symmetric]
        u_def [symmetric] w'_def) (simp add: u)
  have w': "wi_panes w' = wi_panes u" "wi_layout w' = wi_layout u" "wi_tabs w' = wi_tabs u" "wi_slots w' = wi_slots u"
    "wi_store w' = wi_store u" "wi_entries w' = (if target \<in> set bs then wi_entries w else AList.update p (target # bs) (wi_entries w))"
    by (simp_all add: w'_def u)
  have all: "all_layouts w' = all_layouts w" by (simp add: all_layouts_def w' u)
  have pool: "pool_ok (all_layouts w') (wi_panes w') extra"
    using ok keys by (simp add: windows_with_def pool_ok_def all w')
  have store: "store_ok (wi_slots w') (wi_store w')"
    using ok t store_ok_touch by (auto simp: windows_with_def w' u)
  have pk: "p \<in> set (keys (wi_entries w))" using bs by (auto simp: set_keys)
  have shown: "shown_ok (wi_panes w') (wi_entries w') (set (bs_buffers (wi_store w')))"
  proof -
    have so: "shown_ok (wi_panes w) (wi_entries w) (set (bs_buffers (wi_store w)))" using ok by (simp add: windows_with_def)
    have "set (keys (wi_entries w')) = set (keys (wi_panes w'))" "distinct (keys (wi_entries w'))"
      using so pk keys by (auto simp: shown_ok_def w' keys_update)
    moreover have "b \<in> set (bs_buffers (wi_store w)) \<and> (\<exists>bs. map_of (wi_entries w') q = Some bs \<and> b \<in> set bs)"
      if "map_of (wi_panes w') q = Some b" for q b
      using that so bs t by (cases "q = p") (auto simp: shown_ok_def w' u)
    moreover have "set ds \<subseteq> set (bs_buffers (wi_store w))" if "map_of (wi_entries w') q = Some ds" for q ds
    proof -
      have "set cs \<subseteq> set (bs_buffers (wi_store w))" if "map_of (wi_entries w) q = Some cs" for q cs
        using that so unfolding shown_ok_def by blast
      from this [OF bs] this [of q ds] show ?thesis using that t by (cases "q = p") (auto simp: w' split: if_splits)
    qed
    moreover have "bs_buffers (wi_store w') = bs_buffers (wi_store w)" by (simp only: w'(5) u(6))
    ultimately show ?thesis unfolding shown_ok_def by simp
  qed
  have recent: "screen_recent w \<longrightarrow> screen_recent w'"
    using sh by (auto simp: screen_recent_def focused_pane_def w' u sw_def touch_mru_def)
  have "tabs_ok (wi_tabs w')" using ok by (simp add: windows_with_def w'(3) u(3))
  then have "windows_with extra w'" unfolding windows_with_def using pool store shown by blast
  then show thesis by (rule that [OF r _ _ _ _ _ recent]) (simp_all only: w' u(1-3,6))
qed


section \<open>Every operation keeps it\<close>

lemma redirect_ok:
  assumes "windows_with extra w" "set ps \<subseteq> set (keys (wi_panes w))" "target \<in> set (bs_buffers (wi_store w))"
  obtains w' where "redirect_panes ps target w = Some w'" "windows_with extra w'"
    "map_of (wi_panes w') = (\<lambda>q. if q \<in> set ps then Some target else map_of (wi_panes w) q)"
    "wi_layout w' = wi_layout w" "wi_tabs w' = wi_tabs w" "bs_buffers (wi_store w') = bs_buffers (wi_store w)"
    "screen_recent w \<longrightarrow> screen_recent w'"
  using assms
proof (induction ps arbitrary: w thesis)
  case Nil
  show ?case by (rule Nil(1) [of w]) (use Nil in auto)
next
  case (Cons p ps)
  have p: "p \<in> set (keys (wi_panes w))" using Cons.prems(3) by simp
  obtain v where v: "switch_pane_to_buffer p target w = Some v" "windows_with extra v"
    "wi_panes v = AList.update p target (wi_panes w)" "wi_layout v = wi_layout w" "wi_tabs v = wi_tabs w"
    "bs_buffers (wi_store v) = bs_buffers (wi_store w)" "screen_recent w \<longrightarrow> screen_recent v"
    by (rule switch_ok [OF Cons.prems(2) p Cons.prems(4)])
  have sub: "set ps \<subseteq> set (keys (wi_panes v))" using Cons.prems(3) p by (simp add: v(3) keys_update)
  have tb: "target \<in> set (bs_buffers (wi_store v))" using Cons.prems(4) by (simp add: v(6))
  obtain w' where w': "redirect_panes ps target v = Some w'" "windows_with extra w'"
    "map_of (wi_panes w') = (\<lambda>q. if q \<in> set ps then Some target else map_of (wi_panes v) q)"
    "wi_layout w' = wi_layout v" "wi_tabs w' = wi_tabs v" "bs_buffers (wi_store w') = bs_buffers (wi_store v)"
    "screen_recent v \<longrightarrow> screen_recent w'"
    by (rule Cons.IH [OF _ v(2) sub tb])
  show ?case
    by (rule Cons.prems(1) [OF _ w'(2) _ _ _ _ _]) (use v w' in \<open>auto simp: fun_eq_iff\<close>)
qed

lemma open_and_notify_simps [simp]:
  "wi_layout (open_and_notify b w) = wi_layout w" "wi_panes (open_and_notify b w) = wi_panes w"
  "wi_tabs (open_and_notify b w) = wi_tabs w" "wi_entries (open_and_notify b w) = wi_entries w"
  "all_layouts (open_and_notify b w) = all_layouts w" "focused_pane (open_and_notify b w) = focused_pane w"
  "set (bs_buffers (wi_store (open_and_notify b w))) = insert b (set (bs_buffers (wi_store w)))"
  "bs_mru (wi_store (open_and_notify b w)) = b # bs_mru (wi_store w)"
  by (simp_all add: open_and_notify_def store_open_def all_layouts_def focused_pane_def)

lemma find_SomeD: "find P xs = Some x \<Longrightarrow> x \<in> set xs \<and> P x"
  by (induction xs) (auto split: if_splits)

lemma open_and_notify_ok:
  assumes "windows_with extra w" "b \<notin> set (bs_buffers (wi_store w))"
  shows "windows_with extra (open_and_notify b w)" "screen_recent w \<Longrightarrow> screen_recent (open_and_notify b w)"
proof -
  have "store_ok (wi_slots (open_and_notify b w)) (wi_store (open_and_notify b w))"
    using assms by (auto simp: windows_with_def store_ok_def open_and_notify_def store_open_def)
  moreover have "shown_ok (wi_panes w) (wi_entries w) (insert b (set (bs_buffers (wi_store w))))"
    using assms(1) unfolding windows_with_def shown_ok_def by blast
  ultimately show "windows_with extra (open_and_notify b w)"
    using assms(1) by (simp add: windows_with_def)
  show "screen_recent (open_and_notify b w)" if "screen_recent w" using that by (simp add: screen_recent_def)
qed

lemma map_of_forget: "map_of (map (\<lambda>(p, bs). (p, removeAll b bs)) m) p = map_option (removeAll b) (map_of m p)"
  by (induction m) auto

lemma last_filter_kept: "xs \<noteq> [] \<Longrightarrow> last xs \<noteq> b \<Longrightarrow> last (filter (\<lambda>x. x \<noteq> b) xs) = last xs \<and> filter (\<lambda>x. x \<noteq> b) xs \<noteq> []"
  by (induction xs rule: rev_induct) auto

lemma close_store_ok:
  assumes ok: "windows_with extra w" and unshown: "\<And>p. map_of (wi_panes w) p \<noteq> Some b"
  defines "w' \<equiv> forget_closed_buffer b (w\<lparr>wi_store := store_close b (wi_store w), wi_slots := removeAll b (wi_slots w)\<rparr>)"
  shows "windows_with extra w'" "screen_recent w \<longrightarrow> screen_recent w'"
proof -
  have w': "wi_panes w' = wi_panes w" "wi_tabs w' = wi_tabs w" "wi_layout w' = wi_layout w" "wi_slots w' = removeAll b (wi_slots w)"
    "wi_store w' = store_close b (wi_store w)" "wi_entries w' = map (\<lambda>(p, bs). (p, removeAll b bs)) (wi_entries w)"
    "all_layouts w' = all_layouts w"
    by (simp_all add: w'_def forget_closed_buffer_def all_layouts_def)
  have so: "shown_ok (wi_panes w) (wi_entries w) (set (bs_buffers (wi_store w)))" using ok by (simp add: windows_with_def)
  have keys: "keys (wi_entries w') = keys (wi_entries w)" by (simp add: w' keys_def case_prod_beta comp_def)
  have buffers: "set (bs_buffers (wi_store w')) = set (bs_buffers (wi_store w)) - {b}" by (simp add: w' store_close_def)
  have "c \<in> set (bs_buffers (wi_store w)) - {b} \<and> (\<exists>bs. map_of (wi_entries w') p = Some bs \<and> c \<in> set bs)"
    if m: "map_of (wi_panes w) p = Some c" for p c
  proof -
    have "c \<noteq> b" using unshown m by metis
    moreover obtain bs where "map_of (wi_entries w) p = Some bs" "c \<in> set bs" using shown_entry [OF ok m] by auto
    moreover have "c \<in> set (bs_buffers (wi_store w))" using so m unfolding shown_ok_def by blast
    ultimately show ?thesis by (simp add: w' map_of_forget)
  qed
  moreover have "set ds \<subseteq> set (bs_buffers (wi_store w)) - {b}" if m: "map_of (wi_entries w') p = Some ds" for p ds
  proof -
    obtain bs where bs: "map_of (wi_entries w) p = Some bs" "ds = removeAll b bs"
      using m by (auto simp: w' map_of_forget)
    have "set bs \<subseteq> set (bs_buffers (wi_store w))" using so bs(1) unfolding shown_ok_def by blast
    then show ?thesis by (auto simp: bs(2))
  qed
  ultimately have "shown_ok (wi_panes w') (wi_entries w') (set (bs_buffers (wi_store w')))"
    using so unfolding shown_ok_def keys buffers by (simp add: w'(1))
  moreover have "store_ok (wi_slots w') (wi_store w')"
    using ok by (auto simp: windows_with_def store_ok_def w' store_close_def)
  ultimately show "windows_with extra w'" using ok by (simp add: windows_with_def w')
  show "screen_recent w \<longrightarrow> screen_recent w'"
  proof
    assume sr: "screen_recent w"
    have "last (bs_mru (wi_store w)) \<noteq> b" using sr unshown unfolding screen_recent_def by metis
    then show "screen_recent w'" using sr last_filter_kept [of "bs_mru (wi_store w)" b]
      by (simp add: screen_recent_def focused_pane_def w' store_close_def)
  qed
qed

lemma close_buffer_ok:
  assumes ok: "windows_with extra w" and b: "b \<in> set (bs_buffers (wi_store w))"
    and new: "scratch \<notin> set (bs_buffers (wi_store w))" and free: "\<not> busy b"
  obtains w' where "close_buffer busy scratch b w = Some w'" "windows_with extra w'" "b \<notin> set (bs_buffers (wi_store w'))"
    "screen_recent w \<longrightarrow> screen_recent w'"
proof -
  have mru: "set (bs_mru (wi_store w)) = set (bs_buffers (wi_store w))" using ok by (simp add: windows_with_def store_ok_def)
  define nv where "nv = (case mru_excluding b (wi_store w) of Some n \<Rightarrow> (n, w) | None \<Rightarrow> (scratch, open_and_notify scratch w))"
  define n where "n = fst nv"
  define v where "v = snd nv"
  have nv: "windows_with extra v" "n \<in> set (bs_buffers (wi_store v))" "n \<noteq> b" "wi_panes v = wi_panes w"
    "screen_recent w \<longrightarrow> screen_recent v"
  proof -
    show "windows_with extra v" "screen_recent w \<longrightarrow> screen_recent v"
      using ok open_and_notify_ok [OF ok new] by (auto simp: v_def nv_def split: option.split)
    have found: "m \<in> set (bs_buffers (wi_store w)) \<and> m \<noteq> b" if "mru_excluding b (wi_store w) = Some m" for m
      using find_SomeD [OF that [unfolded mru_excluding_def]] mru by auto
    show "n \<in> set (bs_buffers (wi_store v))" "n \<noteq> b" "wi_panes v = wi_panes w"
      using b new found by (auto simp: n_def v_def nv_def split: option.split)
  qed
  define ps where "ps = map fst (filter (\<lambda>(p, shown). shown = b) (wi_panes v))"
  have d: "distinct (keys (wi_panes w))" using ok by (simp add: windows_with_def pool_ok_def)
  have ps: "p \<in> set ps \<longleftrightarrow> map_of (wi_panes w) p = Some b" for p
    using d by (force simp: ps_def keys_def nv(4))
  have sub: "set ps \<subseteq> set (keys (wi_panes v))" by (auto simp: ps_def keys_def nv(4))
  obtain u where u: "redirect_panes ps n v = Some u" "windows_with extra u"
    "map_of (wi_panes u) = (\<lambda>q. if q \<in> set ps then Some n else map_of (wi_panes v) q)"
    "wi_layout u = wi_layout v" "wi_tabs u = wi_tabs v" "bs_buffers (wi_store u) = bs_buffers (wi_store v)"
    "screen_recent v \<longrightarrow> screen_recent u"
    by (rule redirect_ok [OF nv(1) sub nv(2)])
  have unshown: "map_of (wi_panes u) p \<noteq> Some b" for p using nv(3,4) ps by (auto simp: u(3))
  note c = close_store_ok [OF u(2) unshown]
  show thesis
  proof (rule that [OF _ c(1)])
    show "close_buffer busy scratch b w =
        Some (forget_closed_buffer b (u\<lparr>wi_store := store_close b (wi_store u), wi_slots := removeAll b (wi_slots u)\<rparr>))"
      using b free u(1) unfolding close_buffer_def nv_def [symmetric] ps_def n_def v_def
      by (simp add: case_prod_beta Let_def)
  qed (use c(2) u(7) nv(5) in \<open>simp_all add: forget_closed_buffer_def store_close_def\<close>)
qed


text \<open>Layouts move between the view and the tab store, or change.\<close>

lemma relayout_ok:
  assumes "windows_with extra w" "tabs_ok ts" "\<forall>l \<in># all_layouts (w\<lparr>wi_layout := l, wi_tabs := ts\<rparr>). focus_in l"
    "leaf_bag (all_layouts (w\<lparr>wi_layout := l, wi_tabs := ts\<rparr>)) + extra' = leaf_bag (all_layouts w) + extra"
  shows "windows_with extra' (w\<lparr>wi_layout := l, wi_tabs := ts\<rparr>)"
  using assms by (simp add: windows_with_def pool_ok_def)

lemma focus_in_all: "windows_with extra w \<Longrightarrow> l \<in># all_layouts w \<Longrightarrow> focus_in l"
  by (simp add: windows_with_def pool_ok_def)

lemma relayout_live_ok:
  assumes "windows_with extra w" "focus_in l"
    "mset (leaves (fl_tree l)) + extra' = mset (leaves (fl_tree (wi_layout w))) + extra"
  shows "windows_with extra' (w\<lparr>wi_layout := l\<rparr>)"
proof -
  have "windows_with extra' (w\<lparr>wi_layout := l, wi_tabs := wi_tabs w\<rparr>)"
  proof (rule relayout_ok [OF assms(1)])
    show "tabs_ok (wi_tabs w)" using assms(1) by (simp add: windows_with_def)
    show "\<forall>l \<in># all_layouts (w\<lparr>wi_layout := l, wi_tabs := wi_tabs w\<rparr>). focus_in l"
      using focus_in_all [OF assms(1)] assms(2) by (auto simp: all_layouts_def)
    show "leaf_bag (all_layouts (w\<lparr>wi_layout := l, wi_tabs := wi_tabs w\<rparr>)) + extra' = leaf_bag (all_layouts w) + extra"
      using assms(3) by (simp add: all_layouts_def)
  qed
  then show ?thesis by simp
qed

lemma install_ok:
  assumes "focus_in l" "\<And>p. p \<in> set (leaves (fl_tree l)) \<Longrightarrow> map_of (wi_panes w) p \<noteq> None"
  obtains b where "install_layout l w = Some (wi_layout w, touch b (w\<lparr>wi_layout := l\<rparr>))"
    "map_of (wi_panes w) (fl_focus l) = Some b"
proof -
  obtain b where b: "map_of (wi_panes w) (fl_focus l) = Some b" using assms by (auto simp: focus_in_def)
  have "install_layout l w = Some (wi_layout w, touch b (w\<lparr>wi_layout := l\<rparr>))"
    using assms b by (simp add: install_layout_def replace_layout_def begin_frame_def active_pane_ids_def
        touch_focused_mru_def focused_pane_def Let_def)
  then show thesis using b that by blast
qed

lemma stash_taken:
  assumes "windows_with extra w" "map_of (ts_stash (wi_tabs w)) t = Some l"
  shows "all_layouts w = add_mset (wi_layout w) (add_mset l (mset (map snd (AList.delete t (ts_stash (wi_tabs w))))))"
proof -
  have "distinct (keys (ts_stash (wi_tabs w)))" using assms(1) by (simp add: windows_with_def tabs_ok_def)
  from mset_delete_key [OF this assms(2)]
  have "mset (map snd (ts_stash (wi_tabs w))) = add_mset l (mset (map snd (AList.delete t (ts_stash (wi_tabs w)))))"
    unfolding mset_map by simp
  then show ?thesis unfolding all_layouts_def by simp
qed

lemma enter_tab_ok:
  assumes ok: "windows_with extra w" and t: "t \<in> set (ts_order (wi_tabs w))" "t \<noteq> ts_current (wi_tabs w)"
  obtains l b where "map_of (ts_stash (wi_tabs w)) t = Some l" "map_of (wi_panes w) (fl_focus l) = Some b"
    "b \<in> set (bs_buffers (wi_store w))"
    "enter_tab t w = Some (wi_layout w,
       touch b (w\<lparr>wi_layout := l, wi_tabs := (wi_tabs w)\<lparr>ts_stash := AList.delete t (ts_stash (wi_tabs w))\<rparr>\<rparr>))"
proof -
  have "t \<in> set (keys (ts_stash (wi_tabs w)))" using ok t by (simp add: windows_with_def tabs_ok_def)
  then obtain l where l: "map_of (ts_stash (wi_tabs w)) t = Some l" by (auto simp: set_keys)
  have l_in: "l \<in># all_layouts w" by (simp add: stash_taken [OF ok l])
  have pool: "pool_ok (all_layouts w) (wi_panes w) extra" using ok by (simp add: windows_with_def)
  let ?w = "w\<lparr>wi_tabs := (wi_tabs w)\<lparr>ts_stash := AList.delete t (ts_stash (wi_tabs w))\<rparr>\<rparr>"
  obtain b where b: "install_layout l ?w = Some (wi_layout ?w, touch b (?w\<lparr>wi_layout := l\<rparr>))"
    "map_of (wi_panes ?w) (fl_focus l) = Some b"
    by (rule install_ok [OF focus_in_all [OF ok l_in], of ?w]) (use pool_leaf(2) [OF pool l_in] in auto)
  have "b \<in> set (bs_buffers (wi_store w))" using ok b(2) by (simp add: windows_with_def shown_ok_def)
  then show thesis using l b by (intro that [of l b]) (simp_all add: enter_tab_def take_layout_def)
qed

lemma touched_tabs:
  "(touch b w)\<lparr>wi_tabs := ts\<rparr> = touch b (w\<lparr>wi_tabs := ts\<rparr>)"
  by (simp add: touch_def)

lemma recent_touch: "map_of (wi_panes w) (focused_pane w) = Some b \<Longrightarrow> screen_recent (touch b w)"
  by (simp add: screen_recent_def)

lemma switch_to_tab_ok:
  assumes ok: "windows_with extra w" and t: "t \<in> set (ts_order (wi_tabs w))"
  obtains w' where "switch_to_tab t w = Some w'" "windows_with extra w'" "screen_recent w \<longrightarrow> screen_recent w'"
proof (cases "t = ts_current (wi_tabs w)")
  case True
  then show thesis using ok that [of w] by (simp add: switch_to_tab_def)
next
  case False
  obtain l b where e: "map_of (ts_stash (wi_tabs w)) t = Some l" "map_of (wi_panes w) (fl_focus l) = Some b"
    "b \<in> set (bs_buffers (wi_store w))"
    "enter_tab t w = Some (wi_layout w,
       touch b (w\<lparr>wi_layout := l, wi_tabs := (wi_tabs w)\<lparr>ts_stash := AList.delete t (ts_stash (wi_tabs w))\<rparr>\<rparr>))"
    by (rule enter_tab_ok [OF ok t False])
  define ts where "ts = wi_tabs w"
  define st where "st = AList.delete t (ts_stash ts)"
  define ts' where "ts' = ts\<lparr>ts_stash := AList.update (ts_current ts) (wi_layout w) st, ts_current := t\<rparr>"
  have tok: "tabs_ok ts" using ok by (simp add: windows_with_def ts_def)
  have cur: "ts_current ts \<notin> set (keys st)" using tok by (simp add: tabs_ok_def st_def keys_delete)
  have "map_of st (ts_current ts) = None" using cur by (simp add: set_keys domIff)
  then have r: "switch_to_tab t w = Some (touch b (w\<lparr>wi_layout := l, wi_tabs := ts'\<rparr>))"
    using e(4) False unfolding switch_to_tab_def store_switch_def stash_current_def ts_def ts'_def st_def
    by (simp add: touched_tabs)
  have "windows_with extra (w\<lparr>wi_layout := l, wi_tabs := ts'\<rparr>)"
  proof (rule relayout_ok [OF ok])
    show "tabs_ok ts'"
      using tok cur t False by (auto simp: tabs_ok_def ts'_def st_def ts_def keys_delete keys_update distinct_removeAll)
    have all: "all_layouts (w\<lparr>wi_layout := l, wi_tabs := ts'\<rparr>) = all_layouts w"
      unfolding stash_taken [OF ok e(1)] using update_absent [OF cur, of "wi_layout w"]
      by (simp add: all_layouts_def ts'_def st_def ts_def)
    show "\<forall>l \<in># all_layouts (w\<lparr>wi_layout := l, wi_tabs := ts'\<rparr>). focus_in l"
      "leaf_bag (all_layouts (w\<lparr>wi_layout := l, wi_tabs := ts'\<rparr>)) + extra = leaf_bag (all_layouts w) + extra"
      unfolding all using focus_in_all [OF ok] by auto
  qed
  then show thesis using e(2,3) by (intro that [OF r]) (auto intro!: touch_ok recent_touch simp: focused_pane_def)
qed

lemma tab_step_in:
  assumes "tabs_ok ts"
  obtains t where "tab_step ts c = Some t" "t \<in> set (ts_order ts)"
proof -
  obtain i where i: "current_pos ts = Some i" "i < length (ts_order ts)"
    using assms position_of_in unfolding tabs_ok_def current_pos_def by metis
  define n where "n = length (ts_order ts)"
  have "0 < n" using i(2) unfolding n_def by linarith
  then obtain j where j: "cycle_step c i (length (ts_order ts)) = Some j" "j < length (ts_order ts)"
    using i(2) unfolding n_def [symmetric] by (cases c) (auto simp: cycle_step_def)
  then show thesis using i that [of "ts_order ts ! j"] by (simp add: tab_step_def nth_opt_def)
qed

lemma goto_tab_ok:
  assumes "windows_with extra w"
  obtains w' where "goto_tab_in_order c w = Some w'" "windows_with extra w'" "screen_recent w \<longrightarrow> screen_recent w'"
proof -
  have "tabs_ok (wi_tabs w)" using assms by (simp add: windows_with_def)
  then obtain t where t: "tab_step (wi_tabs w) c = Some t" "t \<in> set (ts_order (wi_tabs w))" by (rule tab_step_in)
  obtain w' where "switch_to_tab t w = Some w'" "windows_with extra w'" "screen_recent w \<longrightarrow> screen_recent w'"
    by (rule switch_to_tab_ok [OF assms t(2)])
  then show thesis using t by (intro that) (simp_all add: goto_tab_in_order_def)
qed


text \<open>Panes are opened, spliced into a layout, detached and dropped.\<close>

lemma open_pane_ok:
  assumes ok: "windows_with extra w" and p: "p \<notin> set (keys (wi_panes w))" "p \<noteq> default_pane"
    and b: "b \<in> set (bs_buffers (wi_store w))"
  obtains w' where "open_pane p b w = Some w'" "windows_with (add_mset p extra) w'"
    "wi_panes w' = wi_panes w @ [(p, b)]" "wi_layout w' = wi_layout w" "wi_tabs w' = wi_tabs w" "wi_store w' = wi_store w"
proof -
  have so: "shown_ok (wi_panes w) (wi_entries w) (set (bs_buffers (wi_store w)))" using ok by (simp add: windows_with_def)
  have pe: "p \<notin> set (keys (wi_entries w))" using so p(1) by (simp add: shown_ok_def)
  define w' where "w' = w\<lparr>wi_panes := wi_panes w @ [(p, b)], wi_entries := wi_entries w @ [(p, [b])]\<rparr>"
  have "map_of (wi_entries w) p = None" using pe by (simp add: set_keys domIff)
  then have r: "open_pane p b w = Some w'"
    using b by (simp add: open_pane_def open_entry_def insert_pane_def Let_def update_absent [OF p(1)] update_absent [OF pe] w'_def)
  have k: "keys (wi_panes w') = keys (wi_panes w) @ [p]" "keys (wi_entries w') = keys (wi_entries w) @ [p]"
    by (simp_all add: w'_def keys_def)
  have "pool_ok (all_layouts w') (wi_panes w') (add_mset p extra)"
    using ok p unfolding windows_with_def pool_ok_def k by (simp add: all_layouts_def w'_def)
  moreover have "shown_ok (wi_panes w') (wi_entries w') (set (bs_buffers (wi_store w')))"
  proof -
    have "c \<in> set (bs_buffers (wi_store w)) \<and> (\<exists>bs. map_of (wi_entries w') q = Some bs \<and> c \<in> set bs)"
      if "map_of (wi_panes w') q = Some c" for q c
    proof (cases "q = p")
      case True
      have "map_of (wi_panes w) p = None" using p(1) by (simp add: set_keys domIff)
      then show ?thesis using that True b \<open>map_of (wi_entries w) p = None\<close> by (auto simp: w'_def map_add_def)
    next
      case False
      then have "map_of (wi_panes w) q = Some c" using that by (simp add: w'_def map_add_def split: option.splits)
      then have "c \<in> set (bs_buffers (wi_store w))" "\<exists>bs. map_of (wi_entries w) q = Some bs \<and> c \<in> set bs"
        using so unfolding shown_ok_def by metis+
      then show ?thesis by (auto simp: w'_def map_add_def)
    qed
    moreover have "set ds \<subseteq> set (bs_buffers (wi_store w))" if "map_of (wi_entries w') q = Some ds" for q ds
    proof (cases "map_of (wi_entries w) q")
      case None
      then show ?thesis using that b by (auto simp: w'_def map_add_def split: if_splits)
    next
      case (Some bs)
      have "set bs \<subseteq> set (bs_buffers (wi_store w))" using so Some unfolding shown_ok_def by metis
      then show ?thesis using that Some pe by (auto simp: w'_def map_add_def set_keys split: if_splits)
    qed
    ultimately show ?thesis using so p(1) pe unfolding shown_ok_def k by (simp add: w'_def)
  qed
  ultimately have "windows_with (add_mset p extra) w'" using ok by (simp add: windows_with_def w'_def)
  then show thesis by (rule that [OF r]) (simp_all add: w'_def)
qed

lemma split_focused_ok:
  assumes "focus_in l"
  obtains l' where "split_focused fo l p d = Some l'" "mset (leaves (fl_tree l')) = add_mset p (mset (leaves (fl_tree l)))"
    "fl_focus l' = fl_focus l" "focus_in l'" "p \<in> set (leaves (fl_tree l'))"
proof -
  obtain hit t where t: "insert_split fo (fl_tree l) (fl_focus l) p d = (hit, t)" by fastforce
  note i = insert_split_ok [OF t]
  have h: "hit" using i assms by (simp add: contains_leaf_iff focus_in_def)
  then obtain xs ys where "leaves (fl_tree l) = xs @ fl_focus l # ys" "leaves t = xs @ fl_focus l # p # ys" using i by blast
  then show thesis using t h
    by (intro that [of "l\<lparr>fl_tree := equalize fo t\<rparr>"]) (simp_all add: split_focused_def focus_in_def)
qed

lemma view_split_ok:
  assumes ok: "windows_with (add_mset p extra) w"
  obtains w' where "view_split_focused fo p d w = Some w'" "windows_with extra w'" "wi_panes w' = wi_panes w"
    "focused_pane w' = focused_pane w" "wi_store w' = wi_store w" "p \<in> set (active_pane_ids w')"
proof -
  obtain l where l: "split_focused fo (wi_layout w) p d = Some l"
    "mset (leaves (fl_tree l)) = add_mset p (mset (leaves (fl_tree (wi_layout w))))"
    "fl_focus l = fl_focus (wi_layout w)" "focus_in l" "p \<in> set (leaves (fl_tree l))"
    by (rule split_focused_ok [OF focus_in_all [OF ok layout_in_all]])
  have "windows_with extra (w\<lparr>wi_layout := l\<rparr>)" by (rule relayout_live_ok [OF ok l(4)]) (simp add: l(2))
  then show thesis using l
    by (intro that [of "w\<lparr>wi_layout := l\<rparr>"]) (simp_all add: view_split_focused_def focused_pane_def active_pane_ids_def)
qed

lemma open_in_layout_ok:
  assumes ok: "windows_with extra w" and p: "p \<notin> set (keys (wi_panes w))" "p \<noteq> default_pane"
    and b: "b \<in> set (bs_buffers (wi_store w))"
  obtains w' where "open_pane_in_layout fo p b d w = Some w'" "windows_with extra w'" "p \<in> set (active_pane_ids w')"
    "screen_recent w \<longrightarrow> screen_recent w'"
proof -
  obtain v where v: "open_pane p b w = Some v" "windows_with (add_mset p extra) v"
    "wi_panes v = wi_panes w @ [(p, b)]" "wi_layout v = wi_layout w" "wi_tabs v = wi_tabs w" "wi_store v = wi_store w"
    by (rule open_pane_ok [OF ok p b])
  obtain w' where w': "view_split_focused fo p d v = Some w'" "windows_with extra w'" "wi_panes w' = wi_panes v"
    "focused_pane w' = focused_pane v" "wi_store w' = wi_store v" "p \<in> set (active_pane_ids w')"
    by (rule view_split_ok [OF v(2)])
  have "screen_recent w \<longrightarrow> screen_recent w'"
    by (auto simp: screen_recent_def w' v map_add_def focused_pane_def split: option.split)
      (use w'(4) v(4) in \<open>simp add: focused_pane_def\<close>)+
  then show thesis using v(1) w'(1,2,6) by (intro that [of w']) (simp_all add: open_pane_in_layout_def)
qed

lemma open_new_tab_ok:
  assumes ok: "windows_with extra w" and p: "p \<notin> set (keys (wi_panes w))" "p \<noteq> default_pane"
    and b: "b \<in> set (bs_buffers (wi_store w))" and t: "t \<notin> set (ts_order (wi_tabs w))"
  obtains w' where "open_pane_as_new_tab p t b w = Some w'" "windows_with extra w'" "screen_recent w'"
proof -
  obtain v where v: "open_pane p b w = Some v" "windows_with (add_mset p extra) v"
    "wi_panes v = wi_panes w @ [(p, b)]" "wi_layout v = wi_layout w" "wi_tabs v = wi_tabs w" "wi_store v = wi_store w"
    by (rule open_pane_ok [OF ok p b])
  define l :: "'a focused_layout" where "l = focused_layout_new p"
  have l: "fl_tree l = Leaf p" "fl_focus l = p" "focus_in l" by (simp_all add: l_def focused_layout_new_def focus_in_def)
  obtain c where i: "install_layout l v = Some (wi_layout v, touch c (v\<lparr>wi_layout := l\<rparr>))"
    "map_of (wi_panes v) (fl_focus l) = Some c"
    by (rule install_ok [OF l(3), of v]) (auto simp: l v(3) map_add_def split: option.split)
  have cb: "c \<in> set (bs_buffers (wi_store v))" using v(2) i(2) by (simp add: windows_with_def shown_ok_def)
  define ts where "ts = wi_tabs v"
  have tok: "tabs_ok ts" using v(2) by (simp add: windows_with_def ts_def)
  have tn: "t \<notin> set (ts_order ts)" using t by (simp add: ts_def v(5))
  obtain pos where pos: "current_pos ts = Some pos" "pos < length (ts_order ts)"
    using tok position_of_in unfolding tabs_ok_def current_pos_def by metis
  have cur: "ts_current ts \<notin> set (keys (ts_stash ts))" using tok by (simp add: tabs_ok_def)
  define ts' where "ts' = ts\<lparr>ts_stash := ts_stash ts @ [(ts_current ts, wi_layout v)], ts_ids := List.insert t (ts_ids ts),
    ts_order := take (pos + 1) (ts_order ts) @ [t] @ drop (pos + 1) (ts_order ts), ts_current := t\<rparr>"
  have "map_of (ts_stash ts) (ts_current ts) = None" using cur by (simp add: set_keys domIff)
  then have "open_after_current t (wi_layout v) ts = Some ts'"
    using pos by (simp add: open_after_current_def stash_current_def Let_def update_absent [OF cur] ts'_def)
  then have r: "open_pane_as_new_tab p t b w = Some (touch c (v\<lparr>wi_layout := l, wi_tabs := ts'\<rparr>))"
    using v(1) i(1) by (simp add: open_pane_as_new_tab_def open_tab_def l_def [symmetric] ts_def touched_tabs)
  have "windows_with extra (v\<lparr>wi_layout := l, wi_tabs := ts'\<rparr>)"
  proof (rule relayout_ok [OF v(2)])
    have perm: "mset (ts_order ts') = add_mset t (mset (ts_order ts))"
      unfolding ts'_def by simp (metis append_take_drop_id mset_append)
    have o: "set (ts_order ts') = insert t (set (ts_order ts))" "distinct (ts_order ts')"
      using mset_eq_setD [OF perm [folded mset.simps(2)]] perm tn tok
        mset_eq_imp_distinct_iff [OF perm [folded mset.simps(2)]] by (simp_all add: tabs_ok_def)
    have k: "keys (ts_stash ts') = keys (ts_stash ts) @ [ts_current ts]" by (simp add: ts'_def keys_def)
    show "tabs_ok ts'" unfolding tabs_ok_def o(1) k using o(2) tok tn
      by (auto simp: tabs_ok_def ts'_def simp del: mset_append)
    have all: "all_layouts (v\<lparr>wi_layout := l, wi_tabs := ts'\<rparr>) = add_mset l (all_layouts v)"
      by (simp add: all_layouts_def ts'_def ts_def)
    show "\<forall>l \<in># all_layouts (v\<lparr>wi_layout := l, wi_tabs := ts'\<rparr>). focus_in l"
      unfolding all using focus_in_all [OF v(2)] l by auto
    show "leaf_bag (all_layouts (v\<lparr>wi_layout := l, wi_tabs := ts'\<rparr>)) + extra = leaf_bag (all_layouts v) + add_mset p extra"
      unfolding all by (simp add: l)
  qed
  then show thesis using i(2) cb by (intro that [OF r]) (auto intro!: touch_ok recent_touch simp: focused_pane_def)
qed


lemma launched_single:
  "launched_from runs ps = None \<longleftrightarrow> (\<forall>p \<in> set ps. launched_from runs [p] = None)"
  by (auto simp: launched_from_def find_None_iff)

lemma drop_pane_ok:
  assumes ok: "windows_with (add_mset p extra) w" and run: "launched_from runs [p] = None"
  obtains w' where "drop_pane_state runs p w = Some w'" "windows_with extra w'" "screen_recent w \<longrightarrow> screen_recent w'"
proof -
  define w' where "w' = remove_entry p (remove_pane p w)"
  have r: "drop_pane_state runs p w = Some w'" using run by (simp add: drop_pane_state_def w'_def)
  have w': "wi_panes w' = AList.delete p (wi_panes w)" "wi_entries w' = AList.delete p (wi_entries w)"
    "wi_layout w' = wi_layout w" "wi_tabs w' = wi_tabs w" "wi_store w' = wi_store w" "wi_slots w' = wi_slots w"
    "all_layouts w' = all_layouts w"
    by (simp_all add: w'_def remove_entry_def remove_pane_def all_layouts_def)
  have bag: "leaf_bag (all_layouts w) + add_mset p extra = mset (keys (wi_panes w))" and d: "distinct (keys (wi_panes w))"
    and so: "shown_ok (wi_panes w) (wi_entries w) (set (bs_buffers (wi_store w)))"
    using ok by (simp_all add: windows_with_def pool_ok_def)
  have pin: "p \<in> set (keys (wi_panes w))" using bag by (metis set_mset_mset union_iff union_single_eq_member)
  have bag': "leaf_bag (all_layouts w) + extra = mset (keys (wi_panes w'))"
    using bag mset_removeAll_distinct [OF d pin] unfolding w' keys_delete
    by (metis add_mset_add_single add_right_cancel union_mset_add_mset_right)
  then have "pool_ok (all_layouts w') (wi_panes w') extra"
    using ok d unfolding windows_with_def pool_ok_def w'(7) by (simp add: w'(1) keys_delete distinct_removeAll)
  moreover have "shown_ok (wi_panes w') (wi_entries w') (set (bs_buffers (wi_store w')))"
  proof -
    have "c \<in> set (bs_buffers (wi_store w)) \<and> (\<exists>bs. map_of (wi_entries w') q = Some bs \<and> c \<in> set bs)"
      if "map_of (wi_panes w') q = Some c" for q c
    proof -
      have q: "q \<noteq> p" "map_of (wi_panes w) q = Some c" using that by (auto simp: w' split: if_splits)
      then have "c \<in> set (bs_buffers (wi_store w))" "\<exists>bs. map_of (wi_entries w) q = Some bs \<and> c \<in> set bs"
        using so unfolding shown_ok_def by metis+
      then show ?thesis using q by (simp add: w')
    qed
    moreover have "set ds \<subseteq> set (bs_buffers (wi_store w))" if "map_of (wi_entries w') q = Some ds" for q ds
    proof -
      have "map_of (wi_entries w) q = Some ds" using that by (auto simp: w' split: if_splits)
      then show ?thesis using so unfolding shown_ok_def by metis
    qed
    ultimately show ?thesis using so unfolding shown_ok_def by (simp add: w' keys_delete distinct_removeAll)
  qed
  ultimately have ok': "windows_with extra w'" using ok by (simp add: windows_with_def w')
  have "focused_pane w \<noteq> p"
  proof
    assume "focused_pane w = p"
    then have "p \<in> set (keys (wi_panes w'))"
      using active_in_pool [OF ok' focused_active [OF ok']] by (auto simp: focused_pane_def w'(3) set_keys)
    then show False by (simp add: w' keys_delete)
  qed
  then have "screen_recent w \<longrightarrow> screen_recent w'" by (simp add: screen_recent_def w' focused_pane_def)
  then show thesis using that r ok' by blast
qed

lemma drop_panes_ok:
  assumes "windows_with (mset ps + extra) w" "launched_from runs ps = None"
  obtains w' where "drop_pane_states runs ps w = Some w'" "windows_with extra w'" "screen_recent w \<longrightarrow> screen_recent w'"
  using assms
proof (induction ps arbitrary: w thesis)
  case Nil
  then show ?case by simp
next
  case (Cons p ps)
  have runs: "launched_from runs [p] = None" "launched_from runs ps = None"
    using Cons.prems(3) unfolding launched_single [of runs "p # ps"] launched_single [of runs ps] by auto
  have "windows_with (add_mset p (mset ps + extra)) w" using Cons.prems(2) by simp
  then obtain v where v: "drop_pane_state runs p w = Some v" "windows_with (mset ps + extra) v" "screen_recent w \<longrightarrow> screen_recent v"
    by (rule drop_pane_ok [OF _ runs(1)])
  obtain w' where "drop_pane_states runs ps v = Some w'" "windows_with extra w'" "screen_recent v \<longrightarrow> screen_recent w'"
    by (rule Cons.IH [OF _ v(2) runs(2)])
  then show ?case using v by (intro Cons.prems(1) [of w']) auto
qed

lemma close_focused_ok:
  assumes "focus_in l" "refuse_single_pane l = Inr ()"
  obtains l' where "close_focused fo l = Some (Inr (fl_focus l, l'))" "focus_in l'"
    "mset (leaves (fl_tree l)) = add_mset (fl_focus l) (mset (leaves (fl_tree l')))"
proof -
  obtain s t where t: "prune_leaf (fl_tree l) (fl_focus l) = (s, t)" by fastforce
  have "s \<noteq> None"
  proof
    assume "s = None"
    then have "fl_tree l = Leaf (fl_focus l) \<or> fl_focus l \<notin> set (leaves (fl_tree l))"
      using prune_leaf_None [of "fl_tree l" "fl_focus l"] t by simp
    then show False using assms by (auto simp: focus_in_def refuse_single_pane_def)
  qed
  then obtain survivor where s: "s = Some survivor" by auto
  obtain xs ys where "leaves (fl_tree l) = xs @ fl_focus l # ys" "leaves t = xs @ ys" "survivor \<in> set (leaves t)"
    using prune_leaf_Some [of "fl_tree l" "fl_focus l" survivor t] t s by blast
  then show thesis using t s assms(2)
    by (intro that [of "l\<lparr>fl_tree := equalize fo t, fl_focus := survivor\<rparr>"]) (simp_all add: close_focused_def focus_in_def)
qed

text \<open>An operation that may refuse ran: what it leaves is in order, and the screen's buffer the recent one.\<close>

definition done_ok :: "'f windows \<Rightarrow> ('e + 'f windows) option \<Rightarrow> bool" where
  "done_ok w r \<longleftrightarrow> (\<exists>e. r = Some (Inl e)) \<or>
     (\<exists>w'. r = Some (Inr w') \<and> windows_ok w' \<and> (screen_recent w \<longrightarrow> screen_recent w'))"

lemma close_pane_ok:
  assumes ok: "windows_ok w"
  shows "done_ok w (close_focused_pane fo runs w)"
proof (cases "refuse_single_pane (wi_layout w) = Inr () \<and> launched_from runs [focused_pane w] = None")
  case True
  obtain l where l: "close_focused fo (wi_layout w) = Some (Inr (fl_focus (wi_layout w), l))" "focus_in l"
    "mset (leaves (fl_tree (wi_layout w))) = add_mset (fl_focus (wi_layout w)) (mset (leaves (fl_tree l)))"
    by (rule close_focused_ok [OF focus_in_all [OF ok layout_in_all]]) (use True in simp)
  have v: "windows_with {#focused_pane w#} (w\<lparr>wi_layout := l\<rparr>)"
    by (rule relayout_live_ok [OF ok l(2)]) (simp add: l(3) focused_pane_def)
  obtain b where b: "touch_focused_mru (w\<lparr>wi_layout := l\<rparr>) = Some (touch b (w\<lparr>wi_layout := l\<rparr>))"
    "windows_with {#focused_pane w#} (touch b (w\<lparr>wi_layout := l\<rparr>))" "screen_recent (touch b (w\<lparr>wi_layout := l\<rparr>))"
    by (rule touch_focused_ok [OF v])
  obtain w' where w': "drop_pane_state runs (focused_pane w) (touch b (w\<lparr>wi_layout := l\<rparr>)) = Some w'" "windows_ok w'"
    "screen_recent (touch b (w\<lparr>wi_layout := l\<rparr>)) \<longrightarrow> screen_recent w'"
    by (rule drop_pane_ok [OF b(2), of runs]) (use True in simp_all)
  have "close_focused_pane fo runs w = Some (Inr w')"
    using True l(1) b(1) w'(1)
    by (simp add: close_focused_pane_def check_no_pipe_from_def focus_close_focused_def view_close_focused_def focused_pane_def)
  then show ?thesis using w' b(3) by (simp add: done_ok_def)
next
  case False
  then show ?thesis
    by (auto simp: close_focused_pane_def check_no_pipe_from_def done_ok_def split: sum.split option.split)
qed

lemma adjacent_ok:
  assumes tok: "tabs_ok ts" and n: "length (ts_order ts) \<noteq> 1"
  obtains t where "adjacent_tab ts = Some (Inr t)" "t \<in> set (ts_order ts)" "t \<noteq> ts_current ts"
proof -
  define n where "n = length (ts_order ts)"
  obtain pos where pos: "current_pos ts = Some pos" "pos < n" "ts_order ts ! pos = ts_current ts"
    using tok position_of_in unfolding tabs_ok_def current_pos_def n_def by metis
  have n1: "n \<noteq> 1" using n by (simp add: n_def)
  define i where "i = (if pos + 1 < n then pos + 1 else pos - 1)"
  have i: "i < n" "i \<noteq> pos" using pos(2) n1 by (auto simp: i_def)
  have some: "(if pos + 1 < n then Some (pos + 1) else checked_sub pos 1) = Some i"
    using pos(2) n1 by (auto simp: i_def checked_sub_def)
  have "adjacent_tab ts = Some (Inr (ts_order ts ! i))"
    using pos(1) n1 i(1) some unfolding adjacent_tab_def refuse_close_def n_def [symmetric]
    by (simp add: nth_opt_def n_def [symmetric])
  moreover have "ts_order ts ! i \<noteq> ts_current ts"
    using tok i pos(2,3) unfolding tabs_ok_def n_def by (metis nth_eq_iff_index_eq)
  ultimately show thesis using i(1) by (intro that [of "ts_order ts ! i"]) (simp_all add: n_def)
qed

lemma close_tab_ok:
  assumes ok: "windows_ok w"
  shows "done_ok w (close_tab runs w)"
proof (cases "length (ts_order (wi_tabs w)) \<noteq> 1 \<and> launched_from runs (active_pane_ids w) = None")
  case True
  have tok: "tabs_ok (wi_tabs w)" using ok by (simp add: windows_with_def)
  obtain t where t: "adjacent_tab (wi_tabs w) = Some (Inr t)" "t \<in> set (ts_order (wi_tabs w))" "t \<noteq> ts_current (wi_tabs w)"
    by (rule adjacent_ok [OF tok]) (use True in simp)
  obtain l b where e: "map_of (ts_stash (wi_tabs w)) t = Some l" "map_of (wi_panes w) (fl_focus l) = Some b"
    "b \<in> set (bs_buffers (wi_store w))"
    "enter_tab t w = Some (wi_layout w,
       touch b (w\<lparr>wi_layout := l, wi_tabs := (wi_tabs w)\<lparr>ts_stash := AList.delete t (ts_stash (wi_tabs w))\<rparr>\<rparr>))"
    by (rule enter_tab_ok [OF ok t(2,3)])
  define ts where "ts = wi_tabs w"
  define ts' where "ts' = close_current t (ts\<lparr>ts_stash := AList.delete t (ts_stash ts)\<rparr>)"
  define v where "v = touch b (w\<lparr>wi_layout := l, wi_tabs := ts'\<rparr>)"
  have r: "tab_close w = Some (Inr (leaves (fl_tree (wi_layout w)), v))"
    using t(1) e(4) by (simp add: tab_close_def touched_tabs v_def ts'_def ts_def layout_into_detached_def into_detached_eq)
  have "windows_with (mset (leaves (fl_tree (wi_layout w))) + {#}) (w\<lparr>wi_layout := l, wi_tabs := ts'\<rparr>)"
  proof (rule relayout_ok [OF ok])
    show "tabs_ok ts'" using tok t(2,3)
      by (auto simp: tabs_ok_def ts'_def ts_def close_current_def keys_delete distinct_removeAll Let_def)
    have all: "all_layouts w = add_mset (wi_layout w) (all_layouts (w\<lparr>wi_layout := l, wi_tabs := ts'\<rparr>))"
      unfolding stash_taken [OF ok e(1)] by (simp add: all_layouts_def ts'_def close_current_def ts_def Let_def)
    show "\<forall>l \<in># all_layouts (w\<lparr>wi_layout := l, wi_tabs := ts'\<rparr>). focus_in l"
      using focus_in_all [OF ok] unfolding all by auto
    show "leaf_bag (all_layouts (w\<lparr>wi_layout := l, wi_tabs := ts'\<rparr>)) + (mset (leaves (fl_tree (wi_layout w))) + {#}) =
        leaf_bag (all_layouts w) + {#}" unfolding all by simp
  qed
  then have v: "windows_with (mset (leaves (fl_tree (wi_layout w))) + {#}) v" "screen_recent v"
    using e(2,3) unfolding v_def by (auto intro!: touch_ok recent_touch simp: focused_pane_def)
  obtain w' where w': "drop_pane_states runs (leaves (fl_tree (wi_layout w))) v = Some w'" "windows_ok w'"
    "screen_recent v \<longrightarrow> screen_recent w'"
    by (rule drop_panes_ok [OF v(1), of runs]) (use True in \<open>simp add: active_pane_ids_def\<close>)
  have "close_tab runs w = Some (Inr w')"
    using True r w'(1) by (simp add: close_tab_def refuse_close_def check_no_pipe_from_def)
  then show ?thesis using w' v(2) by (simp add: done_ok_def)
next
  case False
  then show ?thesis
    by (auto simp: close_tab_def refuse_close_def check_no_pipe_from_def done_ok_def split: sum.split option.split)
qed


text \<open>The other moves of the focus.\<close>

lemma focus_pane_ok:
  assumes ok: "windows_with extra w" and p: "p \<in> set (active_pane_ids w)"
  obtains w' where "focus_pane p w = Some w'" "windows_with extra w'" "screen_recent w'"
proof -
  define l where "l = (wi_layout w)\<lparr>fl_focus := p\<rparr>"
  have "windows_with extra (w\<lparr>wi_layout := l\<rparr>)"
    by (rule relayout_live_ok [OF ok]) (use p in \<open>simp_all add: focus_in_def l_def active_pane_ids_def\<close>)
  then obtain b where "touch_focused_mru (w\<lparr>wi_layout := l\<rparr>) = Some (touch b (w\<lparr>wi_layout := l\<rparr>))"
    "windows_with extra (touch b (w\<lparr>wi_layout := l\<rparr>))" "screen_recent (touch b (w\<lparr>wi_layout := l\<rparr>))"
    by (rule touch_focused_ok)
  then show thesis using p
    by (intro that) (simp_all add: focus_pane_def view_focus_def layout_focus_def contains_leaf_iff active_pane_ids_def l_def)
qed

lemma cycle_step_ok: "i < n \<Longrightarrow> \<exists>j. cycle_step c i n = Some j \<and> j < n"
  by (cases c) (auto simp: cycle_step_def)

lemma cycled_ok:
  assumes "focus_in l"
  shows "pane_cycled_from_focused l c = Some None \<or> (\<exists>p \<in> set (leaves (fl_tree l)). pane_cycled_from_focused l c = Some (Some p))"
proof -
  obtain i where i: "position_of (\<lambda>p. p = fl_focus l) (leaves (fl_tree l)) = Some i" "i < length (leaves (fl_tree l))"
    using position_of_in assms unfolding focus_in_def by metis
  obtain j where "cycle_step c i (length (leaves (fl_tree l))) = Some j" "j < length (leaves (fl_tree l))"
    using cycle_step_ok [OF i(2)] by blast
  then show ?thesis using i by (auto simp: pane_cycled_from_focused_def nth_opt_def Let_def)
qed

lemma focus_cycled_ok:
  assumes ok: "windows_with extra w"
  obtains w' where "focus_cycled c w = Some w'" "windows_with extra w'" "screen_recent w \<longrightarrow> screen_recent w'"
proof (cases "pane_cycled_from_focused (wi_layout w) c = Some None")
  case True
  then show thesis using ok by (intro that [of w]) (simp_all add: focus_cycled_def)
next
  case False
  then obtain p where p: "p \<in> set (active_pane_ids w)" "pane_cycled_from_focused (wi_layout w) c = Some (Some p)"
    using cycled_ok [OF focus_in_all [OF ok layout_in_all]] by (auto simp: active_pane_ids_def)
  obtain w' where "focus_pane p w = Some w'" "windows_with extra w'" "screen_recent w'" by (rule focus_pane_ok [OF ok p(1)])
  then show thesis using p by (intro that [of w']) (simp_all add: focus_cycled_def)
qed

text \<open>A screen no wider nor taller than its coordinates reach.\<close>

definition screen_fits :: "screen_layout \<Rightarrow> bool" where
  "screen_fits s \<longleftrightarrow> rect16 (sl_terminal s) \<and> sum_list (cw_bands (sl_rows s)) \<le> u16_max"

lemma center_ok: "rect16 r \<Longrightarrow> add_u16 (re_x r) (re_width r div 2) \<noteq> None \<and> add_u16 (re_y r) (re_height r div 2) \<noteq> None"
  by (auto simp: rect16_def add_u16_def)

lemma score_ok:
  assumes "rect16 r"
  shows "neighbor_score side cur cx cy r \<noteq> None"
proof -
  obtain a b where "add_u16 (re_x r) (re_width r div 2) = Some a" "add_u16 (re_y r) (re_height r div 2) = Some b"
    using center_ok [OF assms] by auto
  then show ?thesis by (simp add: neighbor_score_def Let_def)
qed

lemma scored_ok:
  "(\<And>p r. (p, r) \<in> set rs \<Longrightarrow> f r \<noteq> None) \<Longrightarrow> \<exists>cs. scored f rs = Some cs \<and> snd ` set cs \<subseteq> fst ` set rs"
proof (induction rs)
  case (Cons x rs)
  obtain p r where x: "x = (p, r)" by fastforce
  obtain cs where cs: "scored f rs = Some cs" "snd ` set cs \<subseteq> fst ` set rs" using Cons by (meson list.set_intros(2))
  obtain s where "f r = Some s" using Cons.prems x by (metis list.set_intros(1) option.exhaust)
  then show ?case using cs x by (auto split: option.split)
qed simp

lemma first_least_in: "first_least cs = Some p \<Longrightarrow> p \<in> snd ` set cs"
proof (cases cs)
  case (Cons x xs)
  have "fold (\<lambda>y best. if fst y < fst best then y else best) ys b \<in> insert b (set ys)" for ys b
  proof (induction ys arbitrary: b)
    case (Cons y ys)
    have "fold (\<lambda>y best. if fst y < fst best then y else best) (y # ys) b \<in>
        insert (if fst y < fst b then y else b) (set ys)"
      using Cons.IH [of "if fst y < fst b then y else b"] by (simp only: fold.simps(2) comp_apply)
    then show ?case by (cases "fst y < fst b") (simp_all, blast)
  qed simp
  from this [of xs x] show "first_least cs = Some p \<Longrightarrow> p \<in> snd ` set cs" using Cons by auto
qed simp

lemma neighbor_ok:
  assumes f: "focus_in l" and area: "rect16 area"
  shows "focused_neighbor fo l area seam side = Some None \<or>
    (\<exists>p \<in> set (leaves (fl_tree l)). focused_neighbor fo l area seam side = Some (Some p))"
proof -
  obtain rects where r: "collect_rects_into fo (fl_tree l) area seam [] = Some rects" "map fst rects = leaves (fl_tree l)"
    "\<forall>r \<in> set rects. rect16 (snd r)"
    using collect_rects_ok [OF area, of fo "fl_tree l" seam] by auto
  have "fl_focus l \<in> fst ` set rects" using f by (simp add: focus_in_def r(2) [symmetric])
  then obtain c where c: "find (\<lambda>(p, _). p = fl_focus l) rects = Some c"
    by (cases "find (\<lambda>(p, _). p = fl_focus l) rects") (force simp: find_None_iff)+
  then have "rect16 (snd c)" using r(3) by (auto dest: find_SomeD)
  then obtain cx cy where cc: "add_u16 (re_x (snd c)) (re_width (snd c) div 2) = Some cx"
    "add_u16 (re_y (snd c)) (re_height (snd c) div 2) = Some cy" using center_ok by blast
  have "\<exists>cs. scored (neighbor_score side (snd c) cx cy) (filter (\<lambda>(p, _). p \<noteq> fl_focus l) rects) = Some cs \<and>
      snd ` set cs \<subseteq> fst ` set (filter (\<lambda>(p, _). p \<noteq> fl_focus l) rects)"
    by (rule scored_ok) (use r(3) score_ok in force)
  then obtain cs where cs: "scored (neighbor_score side (snd c) cx cy) (filter (\<lambda>(p, _). p \<noteq> fl_focus l) rects) = Some cs"
    "snd ` set cs \<subseteq> fst ` set (filter (\<lambda>(p, _). p \<noteq> fl_focus l) rects)" by (elim exE conjE)
  have "fst ` set (filter (\<lambda>(p, _). p \<noteq> fl_focus l) rects) \<subseteq> fst ` set rects" by (intro image_mono) simp
  then have sub: "snd ` set cs \<subseteq> fst ` set rects" using cs(2) by (rule subset_trans [rotated])
  have "focused_neighbor fo l area seam side = Some (first_least cs)"
    using r(1) c cc cs(1) by (simp add: focused_neighbor_def Let_def)
  moreover have "fst ` set rects = set (leaves (fl_tree l))" by (metis r(2) set_map)
  ultimately show ?thesis using first_least_in [of cs] sub by (cases "first_least cs") auto
qed

lemma focus_toward_ok:
  assumes ok: "windows_with extra w" and s: "screen_fits s"
  obtains w' where "focus_toward fo s side w = Some w'" "windows_with extra w'" "screen_recent w \<longrightarrow> screen_recent w'"
proof -
  obtain area where a: "pane_area s = Some area" "rect16 area"
    using s pane_area_ok unfolding screen_fits_def by metis
  note n = neighbor_ok [OF focus_in_all [OF ok layout_in_all] a(2), of fo "sl_reserve_seam s" side]
  show thesis
  proof (cases "focused_neighbor fo (wi_layout w) area (sl_reserve_seam s) side = Some None")
    case True
    then show thesis using ok a by (intro that [of w]) (simp_all add: focus_toward_def screen_focused_neighbor_def)
  next
    case False
    then obtain p where p: "p \<in> set (active_pane_ids w)"
      "focused_neighbor fo (wi_layout w) area (sl_reserve_seam s) side = Some (Some p)"
      using n by (auto simp: active_pane_ids_def)
    obtain w' where "focus_pane p w = Some w'" "windows_with extra w'" "screen_recent w'" by (rule focus_pane_ok [OF ok p(1)])
    then show thesis using p a by (intro that [of w']) (simp_all add: focus_toward_def screen_focused_neighbor_def)
  qed
qed

lemma fits_split_ok:
  assumes ok: "windows_with extra w" and s: "screen_fits s"
  shows "fits_split fo s d w \<noteq> None"
proof -
  obtain area where a: "pane_area s = Some area" "rect16 area"
    using s pane_area_ok unfolding screen_fits_def by metis
  let ?l = "wi_layout w"
  have f: "focus_in ?l" by (rule focus_in_all [OF ok layout_in_all])
  obtain hit t where t: "insert_split fo (fl_tree ?l) (fl_focus ?l) default_pane d = (hit, t)" by fastforce
  note i = insert_split_ok [OF t]
  have h: "hit" "fl_focus ?l \<in> set (leaves (equalize fo t))" using i f by (auto simp: contains_leaf_iff focus_in_def)
  obtain rects where r: "map fst rects = leaves (equalize fo t)"
    "\<forall>pid. find_rect fo (equalize fo t) pid area (sl_reserve_seam s) = Some (map_of rects pid)"
    using collect_rects_ok [OF a(2), of fo "equalize fo t" "sl_reserve_seam s"] by auto
  have "map_of rects (fl_focus ?l) \<noteq> None" using h(2) unfolding r(1) [symmetric] by (simp add: map_of_eq_None_iff)
  then obtain x where "map_of rects (fl_focus ?l) = Some x" by auto
  then show ?thesis using a t h(1) r(2)
    by (simp add: fits_split_def focused_split_rect_def predicted_split_rect_def)
qed

lemma split_onto_ok:
  assumes ok: "windows_ok w" and s: "screen_fits s" and p: "p \<notin> set (keys (wi_panes w))" "p \<noteq> default_pane"
    and b: "b \<in> set (bs_buffers (wi_store w))"
  shows "done_ok w (split_pane_onto fo s p b d w)"
proof -
  obtain fits where f: "fits_split fo s d w = Some fits" using fits_split_ok [OF ok s] by blast
  obtain v where v: "open_pane_in_layout fo p b d w = Some v" "windows_ok v" "p \<in> set (active_pane_ids v)"
    "screen_recent w \<longrightarrow> screen_recent v"
    by (rule open_in_layout_ok [OF ok p b])
  obtain w' where "focus_pane p v = Some w'" "windows_ok w'" "screen_recent w'" by (rule focus_pane_ok [OF v(2,3)])
  then show ?thesis using f v(1) by (simp add: split_pane_onto_def done_ok_def)
qed

lemma rotate_ok:
  assumes ok: "windows_ok w"
  shows "done_ok w (view_rotate_focused rot n w)"
proof (cases "refuse_single_pane (wi_layout w)")
  case (Inl e)
  then show ?thesis by (simp add: view_rotate_focused_def rotate_focused_def done_ok_def)
next
  case (Inr u)
  have f: "focus_in (wi_layout w)" by (rule focus_in_all [OF ok layout_in_all])
  obtain hit t where t: "rotate_run (fl_tree (wi_layout w)) (fl_focus (wi_layout w)) rot n = (hit, t)" by fastforce
  note k = rotate_run_kept(1) [OF t]
  have h: hit "mset (leaves t) = mset (leaves (fl_tree (wi_layout w)))"
    using k f Inr by (auto simp: focus_in_def refuse_single_pane_def is_split_def member_kept_def split: layout_tree.splits)
  define l where "l = (wi_layout w)\<lparr>fl_tree := t\<rparr>"
  have "windows_ok (w\<lparr>wi_layout := l\<rparr>)"
    by (rule relayout_live_ok [OF ok])
      (use f h(2) mset_eq_setD [OF h(2)] in \<open>simp_all add: focus_in_def l_def\<close>)
  moreover have "view_rotate_focused rot n w = Some (Inr (w\<lparr>wi_layout := l\<rparr>))"
    using Inr t h(1) by (simp add: view_rotate_focused_def rotate_focused_def l_def)
  ultimately show ?thesis by (simp add: done_ok_def screen_recent_def focused_pane_def l_def)
qed


lemma pane_shows:
  "windows_with extra w \<Longrightarrow> p \<in> set (keys (wi_panes w)) \<Longrightarrow> \<exists>b. map_of (wi_panes w) p = Some b \<and> b \<in> set (bs_buffers (wi_store w))"
  unfolding windows_with_def shown_ok_def by (metis domD set_keys)

lemma alternate_ok:
  assumes ok: "windows_ok w" and p: "p \<in> set (keys (wi_panes w))"
  shows "(\<exists>e. goto_alternate_buffer p w = Some (Inl e)) \<or>
    (\<exists>w'. goto_alternate_buffer p w = Some (Inr w') \<and> windows_ok w' \<and> (p = focused_pane w \<longrightarrow> screen_recent w'))"
proof (cases "second_most_recent (wi_store w)")
  case None
  then show ?thesis by (simp add: goto_alternate_buffer_def)
next
  case (Some target)
  have "target \<in> set (bs_mru (wi_store w))" using Some by (auto simp: second_most_recent_def dest: nth_opt_in)
  then have t: "target \<in> set (bs_buffers (wi_store w))" using ok by (simp add: windows_with_def store_ok_def)
  obtain b where b: "map_of (wi_panes w) p = Some b" "b \<in> set (bs_buffers (wi_store w))" using pane_shows [OF ok p] by blast
  have u: "windows_ok (touch b w)" by (rule touch_ok [OF ok b(2)])
  obtain v where v: "switch_pane_to_buffer p target (touch b w) = Some v" "windows_ok v"
    "wi_panes v = AList.update p target (wi_panes (touch b w))" "wi_layout v = wi_layout (touch b w)"
    "wi_tabs v = wi_tabs (touch b w)" "bs_buffers (wi_store v) = bs_buffers (wi_store (touch b w))"
    "screen_recent (touch b w) \<longrightarrow> screen_recent v"
    by (rule switch_ok [OF u, of p target]) (use p t in simp_all)
  have "windows_ok (touch target v)" by (rule touch_ok [OF v(2)]) (use t v(6) in simp)
  moreover have "screen_recent (touch target v)" if "p = focused_pane w"
    by (rule recent_touch) (use that v(3,4) in \<open>simp add: focused_pane_def\<close>)
  ultimately show ?thesis using Some b(1) v(1) by (simp add: goto_alternate_buffer_def)
qed

lemma cycle_buffer_ok:
  assumes ok: "windows_ok w" and p: "p \<in> set (keys (wi_panes w))"
  obtains w' where "goto_buffer_in_order p c w = Some w'" "windows_ok w'" "screen_recent w \<longrightarrow> screen_recent w'"
proof -
  obtain b where b: "map_of (wi_panes w) p = Some b" "b \<in> set (bs_buffers (wi_store w))" using pane_shows [OF ok p] by blast
  have o: "set (bs_order (wi_store w)) = set (bs_buffers (wi_store w))" using ok by (simp add: windows_with_def store_ok_def)
  obtain i where i: "position_of (\<lambda>x. x = b) (bs_order (wi_store w)) = Some i" "i < length (bs_order (wi_store w))"
    using position_of_in [of b "bs_order (wi_store w)"] b(2) o by auto
  obtain j where j: "cycle_step c i (length (bs_order (wi_store w))) = Some j" "j < length (bs_order (wi_store w))"
    using cycle_step_ok [OF i(2)] by blast
  define t where "t = bs_order (wi_store w) ! j"
  have t: "store_step (wi_store w) b c = Some t" "t \<in> set (bs_buffers (wi_store w))"
    using i(1) j o nth_mem [OF j(2)] by (simp_all add: store_step_def nth_opt_def t_def)
  obtain w' where "switch_pane_to_buffer p t w = Some w'" "windows_ok w'"
    "wi_panes w' = AList.update p t (wi_panes w)" "wi_layout w' = wi_layout w" "wi_tabs w' = wi_tabs w"
    "bs_buffers (wi_store w') = bs_buffers (wi_store w)" "screen_recent w \<longrightarrow> screen_recent w'"
    by (rule switch_ok [OF ok p t(2)])
  then show thesis using b t by (intro that [of w']) (simp_all add: goto_buffer_in_order_def)
qed

lemma bootstrap_ok:
  assumes "p \<noteq> default_pane"
  obtains w where "bootstrap b p t = Some w" "windows_ok w" "screen_recent w"
proof -
  define w :: "'a windows" where "w = \<lparr>wi_layout = focused_layout_new p, wi_panes = [(p, b)], wi_slots = [b],
    wi_store = store_open b buffer_store_new, wi_tabs = tab_store_new t, wi_entries = [(p, [b])]\<rparr>"
  have "bootstrap b p t = Some w"
    by (simp add: bootstrap_def open_pane_def open_entry_def insert_pane_def replace_layout_def begin_frame_def
        active_pane_ids_def focused_layout_new_def Let_def w_def store_open_def buffer_store_new_def)
  moreover have "windows_ok w"
    using assms by (simp add: windows_with_def w_def tabs_ok_def tab_store_new_def store_ok_def store_open_def
        buffer_store_new_def pool_ok_def all_layouts_def focused_layout_new_def focus_in_def shown_ok_def keys_def)
  moreover have "screen_recent w"
    by (simp add: screen_recent_def w_def store_open_def buffer_store_new_def focused_pane_def focused_layout_new_def)
  ultimately show thesis by (rule that)
qed

section \<open>Sessions\<close>

datatype win_event =
    OpenBuffer buffer_id
  | OpenScratchOn buffer_id pane_id
  | EnterBuffer pane_id buffer_id
  | CloseBuffer "buffer_id \<Rightarrow> bool" "buffer_id \<Rightarrow> bool" buffer_id buffer_id
  | AlternateBuffer pane_id
  | CycleBuffer pane_id cycle
  | SplitPane screen_layout pane_id buffer_id direction
  | NewTab pane_id tab_id buffer_id
  | ClosePane pipe_runs
  | CloseTab pipe_runs
  | SwitchTab tab_id
  | CycleTab cycle
  | FocusPane pane_id
  | FocusCycled cycle
  | FocusToward screen_layout side
  | RotatePane rotation nat

definition kept_or :: "'f windows \<Rightarrow> 'e + 'f windows \<Rightarrow> 'f windows" where
  "kept_or w r = (case r of Inl _ \<Rightarrow> w | Inr w' \<Rightarrow> w')"

text \<open>An event of a session: a refusal leaves everything as it was.\<close>

fun handle :: "'f float_ops \<Rightarrow> win_event \<Rightarrow> 'f windows \<Rightarrow> 'f windows option" where
  "handle fo (OpenBuffer b) w = Some (open_and_notify b w)"
| "handle fo (OpenScratchOn b p) w = open_scratch_on b p w"
| "handle fo (EnterBuffer p b) w = enter_buffer p b w"
| "handle fo (CloseBuffer unsaved busy scratch b) w = map_option (kept_or w) (close_buffer_and_notify unsaved busy scratch b w)"
| "handle fo (AlternateBuffer p) w = map_option (kept_or w) (goto_alternate_buffer p w)"
| "handle fo (CycleBuffer p c) w = goto_buffer_in_order p c w"
| "handle fo (SplitPane s p b d) w = map_option (kept_or w) (split_pane_onto fo s p b d w)"
| "handle fo (NewTab p t b) w = open_pane_as_new_tab p t b w"
| "handle fo (ClosePane runs) w = map_option (kept_or w) (close_focused_pane fo runs w)"
| "handle fo (CloseTab runs) w = map_option (kept_or w) (close_tab runs w)"
| "handle fo (SwitchTab t) w = switch_to_tab t w"
| "handle fo (CycleTab c) w = goto_tab_in_order c w"
| "handle fo (FocusPane p) w = focus_pane p w"
| "handle fo (FocusCycled c) w = focus_cycled c w"
| "handle fo (FocusToward s side) w = focus_toward fo s side w"
| "handle fo (RotatePane rot n) w = map_option (kept_or w) (view_rotate_focused rot n w)"

text \<open>What a caller owes: keys that were just handed out are no live ones, other keys are live, a pane
  to focus is one of the active tab, and a screen fits its coordinates.\<close>

fun enabled :: "win_event \<Rightarrow> 'f windows \<Rightarrow> bool" where
  "enabled (OpenBuffer b) w = (b \<notin> set (bs_buffers (wi_store w)))"
| "enabled (OpenScratchOn b p) w = (b \<notin> set (bs_buffers (wi_store w)) \<and> p \<in> set (keys (wi_panes w)))"
| "enabled (EnterBuffer p b) w = (p \<in> set (keys (wi_panes w)) \<and> b \<in> set (bs_buffers (wi_store w)))"
| "enabled (CloseBuffer unsaved busy scratch b) w =
     (b \<in> set (bs_buffers (wi_store w)) \<and> scratch \<notin> set (bs_buffers (wi_store w)))"
| "enabled (AlternateBuffer p) w = (p \<in> set (keys (wi_panes w)))"
| "enabled (CycleBuffer p c) w = (p \<in> set (keys (wi_panes w)))"
| "enabled (SplitPane s p b d) w =
     (screen_fits s \<and> p \<notin> set (keys (wi_panes w)) \<and> p \<noteq> default_pane \<and> b \<in> set (bs_buffers (wi_store w)))"
| "enabled (NewTab p t b) w = (p \<notin> set (keys (wi_panes w)) \<and> p \<noteq> default_pane \<and> b \<in> set (bs_buffers (wi_store w)) \<and>
     t \<notin> set (ts_order (wi_tabs w)))"
| "enabled (SwitchTab t) w = (t \<in> set (ts_order (wi_tabs w)))"
| "enabled (FocusPane p) w = (p \<in> set (active_pane_ids w))"
| "enabled (FocusToward s side) w = screen_fits s"
| "enabled _ w = True"

text \<open>The states an editor reaches from its start.\<close>

definition bootstrapped :: "'f windows \<Rightarrow> bool" where
  "bootstrapped w \<longleftrightarrow> (\<exists>b p t. p \<noteq> default_pane \<and> bootstrap b p t = Some w)"

abbreviation win_session :: "'f float_ops \<Rightarrow> 'f windows \<Rightarrow> bool" where
  "win_session fo \<equiv> reachable bootstrapped enabled (handle fo)"

lemma done_kept:
  assumes "windows_ok w" "done_ok w r"
  shows "\<exists>w'. map_option (kept_or w) r = Some w' \<and> windows_ok w' \<and> (screen_recent w \<longrightarrow> screen_recent w')"
  using assms by (auto simp: done_ok_def kept_or_def)

lemma handle_ok:
  assumes ok: "windows_ok w" and en: "enabled e w"
  shows "\<exists>w'. handle fo e w = Some w' \<and> windows_ok w' \<and>
    (screen_recent w \<and> (\<forall>p. e = AlternateBuffer p \<longrightarrow> p = focused_pane w) \<longrightarrow> screen_recent w')"
proof (cases e)
  case (OpenBuffer b)
  then show ?thesis using open_and_notify_ok [OF ok] en by simp
next
  case (OpenScratchOn b p)
  let ?v = "open_and_notify b w"
  have b: "b \<notin> set (bs_buffers (wi_store w))" and p: "p \<in> set (keys (wi_panes w))" using en OpenScratchOn by simp_all
  note v = open_and_notify_ok [OF ok b]
  obtain w' where "switch_pane_to_buffer p b ?v = Some w'" "windows_ok w'" "wi_panes w' = AList.update p b (wi_panes ?v)"
    "wi_layout w' = wi_layout ?v" "wi_tabs w' = wi_tabs ?v" "bs_buffers (wi_store w') = bs_buffers (wi_store ?v)"
    "screen_recent ?v \<longrightarrow> screen_recent w'"
    by (rule switch_ok [OF v(1), of p b]) (use p in simp_all)
  then show ?thesis using OpenScratchOn v(2) by (simp add: open_scratch_on_def)
next
  case (EnterBuffer p b)
  have p: "p \<in> set (keys (wi_panes w))" and b: "b \<in> set (bs_buffers (wi_store w))" using en EnterBuffer by simp_all
  obtain shown where "map_of (wi_panes w) p = Some shown" using pane_shows [OF ok p] by blast
  moreover obtain w' where "switch_pane_to_buffer p b w = Some w'" "windows_ok w'" "wi_panes w' = AList.update p b (wi_panes w)"
    "wi_layout w' = wi_layout w" "wi_tabs w' = wi_tabs w" "bs_buffers (wi_store w') = bs_buffers (wi_store w)"
    "screen_recent w \<longrightarrow> screen_recent w'"
    by (rule switch_ok [OF ok p b])
  ultimately show ?thesis using EnterBuffer ok by (simp add: enter_buffer_def)
next
  case (CloseBuffer unsaved busy scratch b)
  have b: "b \<in> set (bs_buffers (wi_store w))" "scratch \<notin> set (bs_buffers (wi_store w))" using en CloseBuffer by simp_all
  have "done_ok w (close_buffer_and_notify unsaved busy scratch b w)"
  proof (cases "unsaved b \<or> busy b")
    case False
    then obtain w' where "close_buffer busy scratch b w = Some w'" "windows_ok w'" "b \<notin> set (bs_buffers (wi_store w'))"
      "screen_recent w \<longrightarrow> screen_recent w'" using close_buffer_ok [OF ok b, of busy] by metis
    then show ?thesis using False b by (simp add: close_buffer_and_notify_def done_ok_def)
  qed (use b in \<open>auto simp: close_buffer_and_notify_def done_ok_def\<close>)
  then show ?thesis using CloseBuffer done_kept [OF ok] by auto
next
  case (AlternateBuffer p)
  then show ?thesis using alternate_ok [OF ok, of p] en ok by (auto simp: kept_or_def)
next
  case (CycleBuffer p c)
  then show ?thesis using cycle_buffer_ok [OF ok, of p c] en by simp metis
next
  case (SplitPane s p b d)
  then show ?thesis using split_onto_ok [OF ok, of s p b fo d] en done_kept [OF ok] by auto
next
  case (NewTab p t b)
  then show ?thesis using open_new_tab_ok [OF ok, of p b t] en by simp metis
next
  case (ClosePane runs)
  then show ?thesis using done_kept [OF ok close_pane_ok [OF ok, of fo runs]] by simp
next
  case (CloseTab runs)
  then show ?thesis using done_kept [OF ok close_tab_ok [OF ok, of runs]] by simp
next
  case (SwitchTab t)
  then show ?thesis using switch_to_tab_ok [OF ok, of t] en by simp metis
next
  case (CycleTab c)
  then show ?thesis using goto_tab_ok [OF ok, of c] by simp metis
next
  case (FocusPane p)
  then show ?thesis using focus_pane_ok [OF ok, of p] en by simp metis
next
  case (FocusCycled c)
  then show ?thesis using focus_cycled_ok [OF ok, of c] by simp metis
next
  case (FocusToward s side)
  then show ?thesis using focus_toward_ok [OF ok, of s fo side] en by simp metis
next
  case (RotatePane rot n)
  then show ?thesis using done_kept [OF ok rotate_ok [OF ok, of rot n]] by simp
qed

interpretation windows: machine bootstrapped enabled "handle fo" windows_ok for fo :: "'f float_ops"
proof
  show "windows_ok w" if "bootstrapped w" for w :: "'f windows"
    using that bootstrap_ok unfolding bootstrapped_def by (metis option.inject)
  show "\<exists>w'. handle fo e w = Some w' \<and> windows_ok w'" if "windows_ok w" "enabled e w" for w e
    using handle_ok [OF that, of fo] by blast
qed

lemma tab_layouts_ok:
  assumes "tabs_ok (wi_tabs w)"
  obtains ls where "tab_layouts (wi_tabs w) (wi_layout w) = Some ls" "map fst ls = ts_order (wi_tabs w)"
    "mset (map snd ls) = all_layouts w"
proof -
  define ts where "ts = wi_tabs w"
  define g where "g = (\<lambda>i. if i = ts_current ts then wi_layout w else the (map_of (ts_stash ts) i))"
  have ok: "distinct (ts_order ts)" "ts_current ts \<in> set (ts_order ts)" "distinct (keys (ts_stash ts))"
    "set (keys (ts_stash ts)) = set (ts_order ts) - {ts_current ts}" using assms by (simp_all add: tabs_ok_def ts_def)
  have "tab_layouts_in ts (wi_layout w) is = Some (map (\<lambda>i. (i, g i)) is)" if "set is \<subseteq> set (ts_order ts)" for "is"
    using that
  proof (induction "is")
    case (Cons i "is")
    have "i = ts_current ts \<or> i \<in> set (keys (ts_stash ts))" using Cons.prems ok(4) by auto
    then show ?case using Cons by (auto simp: g_def set_keys)
  qed simp
  from this [of "ts_order ts"] have ls: "tab_layouts ts (wi_layout w) = Some (map (\<lambda>i. (i, g i)) (ts_order ts))"
    by (simp add: tab_layouts_def)
  have "mset (ts_order ts) = add_mset (ts_current ts) (mset (keys (ts_stash ts)))"
    using ok by (intro multiset_eqI) (metis (no_types, lifting) Diff_iff Diff_insert_absorb distinct.simps(2) insertI1
        insert_Diff list.simps(15) mset.simps(2) set_eq_iff_mset_eq_distinct)
  then have "mset (map g (ts_order ts)) = add_mset (wi_layout w) (mset (map g (keys (ts_stash ts))))"
    unfolding mset_map by (simp add: g_def)
  moreover have "map g (keys (ts_stash ts)) = map snd (ts_stash ts)"
  proof -
    have "g (fst x) = snd x" if "x \<in> set (ts_stash ts)" for x
    proof -
      have "fst x \<in> set (keys (ts_stash ts))" using that by (simp add: keys_def)
      then have "fst x \<noteq> ts_current ts" using ok(4) by auto
      moreover have "map_of (ts_stash ts) (fst x) = Some (snd x)"
        by (rule map_of_is_SomeI) (use that ok(3) in \<open>simp_all add: keys_def\<close>)
      ultimately show ?thesis by (simp add: g_def)
    qed
    then show ?thesis by (simp add: keys_def)
  qed
  ultimately have "mset (map g (ts_order ts)) = all_layouts w" by (simp only: all_layouts_def ts_def)
  moreover have "map snd (map (\<lambda>i. (i, g i)) (ts_order ts)) = map g (ts_order ts)"
    "map fst (map (\<lambda>i. (i, g i)) (ts_order ts)) = ts_order ts" by (simp_all add: comp_def)
  ultimately show thesis using ls unfolding ts_def by (intro that [of "map (\<lambda>i. (i, g i)) (ts_order ts)"]) (simp_all only: ts_def)
qed


section \<open>Properties\<close>

text \<open>C4: In every session the panes of the tabs, in order, are pairwise distinct and exactly the panes of
  the pool and those with an entry: no pane leaks and no leaf dangles, whatever was split, closed,
  rotated, switched or refused. Every tab's focus is one of its panes, every pane shows an open buffer
  for which it has state, and no event a caller may raise next panics.\<close>

theorem panes_never_leak:
  assumes "win_session fo w"
  shows "\<exists>ls. tab_layouts (wi_tabs w) (wi_layout w) = Some ls \<and> map fst ls = ts_order (wi_tabs w) \<and>
    distinct (concat (map (\<lambda>(t, l). leaves (fl_tree l)) ls)) \<and>
    set (concat (map (\<lambda>(t, l). leaves (fl_tree l)) ls)) = set (keys (wi_panes w)) \<and>
    set (keys (wi_entries w)) = set (keys (wi_panes w)) \<and>
    (\<forall>(t, l) \<in> set ls. fl_focus l \<in> set (leaves (fl_tree l))) \<and>
    (\<forall>p b. map_of (wi_panes w) p = Some b \<longrightarrow>
       b \<in> set (bs_buffers (wi_store w)) \<and> (\<exists>bs. map_of (wi_entries w) p = Some bs \<and> b \<in> set bs)) \<and>
    (\<forall>e. enabled e w \<longrightarrow> handle fo e w \<noteq> None)"
proof -
  have ok: "windows_ok w" by (rule windows.reached_inv [OF assms])
  have tok: "tabs_ok (wi_tabs w)" using ok by (simp add: windows_with_def)
  obtain ls where ls: "tab_layouts (wi_tabs w) (wi_layout w) = Some ls" "map fst ls = ts_order (wi_tabs w)"
    "mset (map snd ls) = all_layouts w" by (rule tab_layouts_ok [OF tok])
  let ?leaves = "concat (map (\<lambda>(t, l). leaves (fl_tree l)) ls)"
  have "mset ?leaves = leaf_bag (mset (map snd ls))" by (induction ls) auto
  also have "\<dots> = mset (keys (wi_panes w))" using ok unfolding ls(3) by (simp add: windows_with_def pool_ok_def)
  finally have bag: "mset ?leaves = mset (keys (wi_panes w))" .
  have "distinct ?leaves" using ok mset_eq_imp_distinct_iff [OF bag] by (simp add: windows_with_def pool_ok_def)
  moreover have "fl_focus l \<in> set (leaves (fl_tree l))" if "(t, l) \<in> set ls" for t l
  proof -
    have "l \<in># mset (map snd ls)" using that by force
    then have "l \<in># all_layouts w" by (simp only: ls(3))
    then show ?thesis using focus_in_all [OF ok] by (simp add: focus_in_def)
  qed
  moreover have "b \<in> set (bs_buffers (wi_store w)) \<and> (\<exists>bs. map_of (wi_entries w) p = Some bs \<and> b \<in> set bs)"
    if "map_of (wi_panes w) p = Some b" for p b
    using ok that unfolding windows_with_def shown_ok_def by metis
  moreover have "set (keys (wi_entries w)) = set (keys (wi_panes w))" using ok by (simp add: windows_with_def shown_ok_def)
  moreover have "handle fo e w \<noteq> None" if "enabled e w" for e by (rule windows.reached_steps [OF assms that])
  ultimately show ?thesis using ls(1,2) mset_eq_setD [OF bag] by (intro exI [of _ ls]) auto
qed

theorem panes_never_leak_witness:
  "\<exists>ls. tab_layouts (wi_tabs (the (bootstrap 7 1 1))) (wi_layout (the (bootstrap 7 1 1))) = Some ls \<and>
    set (concat (map (\<lambda>(t, l :: (nat \<times> nat) focused_layout). leaves (fl_tree l)) ls)) = {1}"
proof -
  define w :: "(nat \<times> nat) windows" where "w = the (bootstrap 7 1 1)"
  obtain v :: "(nat \<times> nat) windows" where v: "bootstrap 7 1 1 = Some v" by (rule bootstrap_ok [of 1 7 1]) (simp_all add: default_pane_def)
  have "win_session exact_ratio w"
    by (rule reachable.at_start) (unfold bootstrapped_def, rule exI [of _ 7], rule exI [of _ 1], rule exI [of _ 1],
      use v in \<open>simp add: default_pane_def w_def\<close>)
  from panes_never_leak [OF this] have "\<exists>ls. tab_layouts (wi_tabs w) (wi_layout w) = Some ls \<and>
      set (concat (map (\<lambda>(t, l). leaves (fl_tree l)) ls)) = set (keys (wi_panes w))" by blast
  moreover have "set (keys (wi_panes w)) = {1}"
    by (simp add: w_def bootstrap_def open_pane_def open_entry_def insert_pane_def replace_layout_def begin_frame_def
        active_pane_ids_def focused_layout_new_def Let_def store_open_def buffer_store_new_def keys_def)
  ultimately show ?thesis unfolding w_def by simp
qed


text \<open>The buffer the focused pane shows is the most recently viewed one after every event, refused or
  not: whether the focus moved, its pane or tab closed, its buffer was switched or closed. The one way to
  lose this is a move to the alternate buffer on a pane that is not focused.\<close>

theorem screen_shows_recent:
  assumes "win_session fo w" "enabled e w" "\<And>p. e = AlternateBuffer p \<Longrightarrow> p = focused_pane w"
    "bs_mru (wi_store w) \<noteq> []" "map_of (wi_panes w) (focused_pane w) = Some (last (bs_mru (wi_store w)))"
  shows "\<exists>w'. handle fo e w = Some w' \<and> bs_mru (wi_store w') \<noteq> [] \<and>
    map_of (wi_panes w') (focused_pane w') = Some (last (bs_mru (wi_store w')))"
  using handle_ok [OF windows.reached_inv [OF assms(1)] assms(2), of fo] assms(3,4,5) unfolding screen_recent_def by blast

theorem screen_shows_recent_witness:
  "\<exists>w'. handle exact_ratio (OpenScratchOn 8 1) (the (bootstrap 7 1 1)) = Some w' \<and>
    map_of (wi_panes w') (focused_pane w') = Some (last (bs_mru (wi_store w')))"
proof -
  define w :: "(nat \<times> nat) windows" where "w = the (bootstrap 7 1 1)"
  obtain v :: "(nat \<times> nat) windows" where v: "bootstrap 7 1 1 = Some v" "screen_recent v"
    by (rule bootstrap_ok [of 1 7 1]) (simp_all add: default_pane_def)
  have s: "win_session exact_ratio w"
    by (rule reachable.at_start) (unfold bootstrapped_def, rule exI [of _ 7], rule exI [of _ 1], rule exI [of _ 1],
      use v in \<open>simp add: default_pane_def w_def\<close>)
  have "keys (wi_panes w) = [1]" "bs_buffers (wi_store w) = [7]"
    by (simp_all add: w_def bootstrap_def open_pane_def open_entry_def insert_pane_def replace_layout_def begin_frame_def
        active_pane_ids_def focused_layout_new_def Let_def store_open_def buffer_store_new_def keys_def)
  then have en: "enabled (OpenScratchOn 8 1) w" by simp
  have r: "bs_mru (wi_store w) \<noteq> []" "map_of (wi_panes w) (focused_pane w) = Some (last (bs_mru (wi_store w)))"
    using v by (simp_all add: w_def screen_recent_def)
  show ?thesis using screen_shows_recent [OF s en _ r] unfolding w_def [symmetric] by auto
qed

end
