(* ===== verification/Codec.thy ===== *)
theory Codec imports Encoding begin

text \<open>
  The framing of a language server's messages, \<open>hume-lsp\<close>'s \<open>codec.rs\<close>: a header that names the length of
  the body, a blank line, and the body.

  Bytes are numbers. A reader is a \<open>BufRead\<close>, whose two methods \<open>fill_buf\<close> and \<open>consume\<close> are arguments; their
  contract is a locale. The JSON library is a parameter: \<open>to_vec\<close> and \<open>from_slice\<close> on messages whose
  parameters and results are values of a type of its own with a \<open>null\<close>. A loop that reads ends only if
  its reader does, so the loops are partial functions: a result of theirs is a proof that they end.
\<close>

type_synonym byte = nat
type_synonym bytes = "byte list"

section \<open>Messages\<close>

datatype request_id = IdInt int | IdStr ustring

record 'v response_error =
  rp_code :: int
  rp_message :: ustring
  rp_data :: "'v option"

datatype 'v message =
    Request request_id ustring 'v
  | Response request_id "'v response_error + 'v"
  | Notification ustring 'v

datatype io_error = UnexpectedEof | InvalidData | Interrupted | OtherIo nat

datatype 'j codec_error = CodecIo io_error | CodecEof | MissingLength | BadHeader ustring | CodecJson 'j | Ambiguous

record 'v raw_message =
  rm_id :: "request_id option"
  rm_method :: "ustring option"
  rm_params :: "'v option"
  rm_result :: "'v option"
  rm_error :: "'v response_error option"

definition max_content_length :: nat where "max_content_length = 256 * 1024 * 1024"
definition max_header_line_len :: nat where "max_header_line_len = 64 * 1024"

definition classify_raw :: "'v \<Rightarrow> 'v raw_message \<Rightarrow> 'j codec_error + 'v message" where
  "classify_raw null raw =
     (case (rm_id raw, rm_method raw, rm_result raw, rm_error raw) of
        (Some i, Some m, None, None) \<Rightarrow> Inr (Request i m (case rm_params raw of Some p \<Rightarrow> p | None \<Rightarrow> null))
      | (None, Some m, None, None) \<Rightarrow> Inr (Notification m (case rm_params raw of Some p \<Rightarrow> p | None \<Rightarrow> null))
      | (Some i, None, Some r, None) \<Rightarrow> Inr (Response i (Inr r))
      | (Some i, None, None, Some e) \<Rightarrow> Inr (Response i (Inl e))
      | _ \<Rightarrow> Inl Ambiguous)"

fun raw_of :: "'v message \<Rightarrow> 'v raw_message" where
  "raw_of (Request i m p) = \<lparr>rm_id = Some i, rm_method = Some m, rm_params = Some p, rm_result = None, rm_error = None\<rparr>"
| "raw_of (Notification m p) = \<lparr>rm_id = None, rm_method = Some m, rm_params = Some p, rm_result = None, rm_error = None\<rparr>"
| "raw_of (Response i (Inr v)) = \<lparr>rm_id = Some i, rm_method = None, rm_params = None, rm_result = Some v, rm_error = None\<rparr>"
| "raw_of (Response i (Inl e)) = \<lparr>rm_id = Some i, rm_method = None, rm_params = None, rm_result = None, rm_error = Some e\<rparr>"

section \<open>Strings of a header\<close>

definition ascii :: "string \<Rightarrow> ustring" where
  "ascii s = map of_char s"

text \<open>\<open>String::from_utf8_lossy\<close>: the char at the front, or U+FFFD for the bytes that cannot begin one.\<close>

definition byte_at :: "bytes \<Rightarrow> nat \<Rightarrow> byte" where
  "byte_at bs i = (case nth_opt bs i of Some b \<Rightarrow> b | None \<Rightarrow> 0)"

definition continues :: "byte \<Rightarrow> bool" where
  "continues b \<longleftrightarrow> 0x80 \<le> b \<and> b \<le> 0xBF"

definition lossy_step :: "bytes \<Rightarrow> uchar \<times> nat" where
  "lossy_step bs =
     (let b = byte_at bs 0; b1 = byte_at bs 1; b2 = byte_at bs 2; b3 = byte_at bs 3 in
      if b < 0x80 then (b, 1)
      else if 0xC2 \<le> b \<and> b \<le> 0xDF then
        (if continues b1 then ((b - 0xC0) * 64 + (b1 - 0x80), 2) else (0xFFFD, 1))
      else if 0xE0 \<le> b \<and> b \<le> 0xEF then
        (if continues b1 \<and> (b = 0xE0 \<longrightarrow> 0xA0 \<le> b1) \<and> (b = 0xED \<longrightarrow> b1 \<le> 0x9F) then
           (if continues b2 then ((b - 0xE0) * 4096 + (b1 - 0x80) * 64 + (b2 - 0x80), 3) else (0xFFFD, 2))
         else (0xFFFD, 1))
      else if 0xF0 \<le> b \<and> b \<le> 0xF4 then
        (if continues b1 \<and> (b = 0xF0 \<longrightarrow> 0x90 \<le> b1) \<and> (b = 0xF4 \<longrightarrow> b1 \<le> 0x8F) then
           (if continues b2 then
              (if continues b3
               then ((b - 0xF0) * 262144 + (b1 - 0x80) * 4096 + (b2 - 0x80) * 64 + (b3 - 0x80), 4)
               else (0xFFFD, 3))
            else (0xFFFD, 2))
         else (0xFFFD, 1))
      else (0xFFFD, 1))"

lemma lossy_step_pos: "0 < snd (lossy_step bs)"
  by (simp add: lossy_step_def Let_def)

function from_utf8_lossy :: "bytes \<Rightarrow> ustring" where
  "from_utf8_lossy bs =
     (if bs = [] then [] else fst (lossy_step bs) # from_utf8_lossy (drop (snd (lossy_step bs)) bs))"
  by pat_completeness auto

termination
  by (relation "measure length") (use lossy_step_pos in auto)

text \<open>\<open>str::trim\<close>, \<open>trim_end_matches\<close> on the two line-ending chars, \<open>split_once\<close>,
  \<open>eq_ignore_ascii_case\<close>.\<close>

definition trim_end_where :: "(uchar \<Rightarrow> bool) \<Rightarrow> ustring \<Rightarrow> ustring" where
  "trim_end_where P s = rev (dropWhile P (rev s))"

definition trim :: "ustring \<Rightarrow> ustring" where
  "trim s = trim_end_where is_whitespace (dropWhile is_whitespace s)"

definition split_once :: "uchar \<Rightarrow> ustring \<Rightarrow> (ustring \<times> ustring) option" where
  "split_once c s = (case position_of (\<lambda>x. x = c) s of None \<Rightarrow> None | Some i \<Rightarrow> Some (take i s, drop (i + 1) s))"

definition lower_ascii :: "uchar \<Rightarrow> uchar" where
  "lower_ascii c = (if 65 \<le> c \<and> c \<le> 90 then c + 32 else c)"

definition eq_ignore_ascii_case :: "ustring \<Rightarrow> ustring \<Rightarrow> bool" where
  "eq_ignore_ascii_case a b \<longleftrightarrow> map lower_ascii a = map lower_ascii b"

text \<open>\<open>parse::<usize>\<close> and the decimal digits that \<open>write!\<close> prints.\<close>

fun parse_digits :: "nat \<Rightarrow> ustring \<Rightarrow> nat option" where
  "parse_digits acc [] = Some acc"
| "parse_digits acc (c # cs) =
     (if 48 \<le> c \<and> c \<le> 57 \<and> acc * 10 + (c - 48) \<le> usize_max then parse_digits (acc * 10 + (c - 48)) cs else None)"

definition parse_usize :: "ustring \<Rightarrow> nat option" where
  "parse_usize s = (case s of [] \<Rightarrow> None | c # cs \<Rightarrow> if c = 43 \<and> cs \<noteq> [] then parse_digits 0 cs else parse_digits 0 s)"

fun digits :: "nat \<Rightarrow> ustring" where
  "digits n = (if n < 10 then [48 + n] else digits (n div 10) @ [48 + n mod 10])"

section \<open>Reading\<close>

text \<open>The methods of a \<open>BufRead\<close>. Filling may fail, and moves the reader on either way.\<close>

record 'r buf_reader =
  br_fill :: "'r \<Rightarrow> (io_error + bytes) \<times> 'r"
  br_consume :: "nat \<Rightarrow> 'r \<Rightarrow> 'r"

partial_function (option) read_bounded_line ::
  "'r buf_reader \<Rightarrow> nat \<Rightarrow> bytes \<Rightarrow> 'r \<Rightarrow> ((io_error + bytes option) \<times> 'r) option" where
  "read_bounded_line R max_len buf r =
     (case br_fill R r of
        (Inl e, r) \<Rightarrow> Some (Inl e, r)
      | (Inr available, r) \<Rightarrow>
          if available = [] then Some (Inr (if buf = [] then None else Some buf), r)
          else (case position_of (\<lambda>b. b = 10) available of
              Some pos \<Rightarrow> Some (Inr (Some (buf @ take (pos + 1) available)), br_consume R (pos + 1) r)
            | None \<Rightarrow>
                (let buf = buf @ available; r = br_consume R (length available) r in
                 if length buf > max_len then Some (Inl InvalidData, r)
                 else read_bounded_line R max_len buf r)))"

text \<open>\<open>Read::read_exact\<close>, which asks again when interrupted.\<close>

partial_function (option) read_exact ::
  "'r buf_reader \<Rightarrow> nat \<Rightarrow> bytes \<Rightarrow> 'r \<Rightarrow> ((io_error + bytes) \<times> 'r) option" where
  "read_exact R len buf r =
     (if len = 0 then Some (Inr buf, r)
      else (case br_fill R r of
          (Inl e, r) \<Rightarrow> if e = Interrupted then read_exact R len buf r else Some (Inl e, r)
        | (Inr available, r) \<Rightarrow>
            if available = [] then Some (Inl UnexpectedEof, r)
            else (let n = min len (length available) in
                  read_exact R (len - n) (buf @ take n available) (br_consume R n r))))"

text \<open>A header line: blank, or a name and a value of which \<open>Content-Length\<close> sets the length.\<close>

definition header_line :: "bytes \<Rightarrow> nat option \<Rightarrow> 'j codec_error + nat option option" where
  "header_line line content_length =
     (let trimmed = trim_end_where (\<lambda>c. c = CR \<or> c = NL) (from_utf8_lossy line) in
      if trimmed = [] then Inr None
      else (case split_once 58 trimmed of
          None \<Rightarrow> Inl (BadHeader trimmed)
        | Some (name, val) \<Rightarrow>
            if eq_ignore_ascii_case name (ascii ''Content-Length'')
            then (case parse_usize (trim val) of
                None \<Rightarrow> Inl (BadHeader trimmed)
              | Some len \<Rightarrow> if len > max_content_length then Inl (BadHeader trimmed) else Inr (Some (Some len)))
            else Inr (Some content_length)))"

partial_function (option) read_headers ::
  "'r buf_reader \<Rightarrow> nat option \<Rightarrow> bool \<Rightarrow> 'r \<Rightarrow> (('j codec_error + nat option) \<times> 'r) option" where
  "read_headers R content_length first_line r =
     (case read_bounded_line R max_header_line_len [] r of
        None \<Rightarrow> None
      | Some (line, r) \<Rightarrow>
          (case line of
             Inl e \<Rightarrow> Some (Inl (CodecIo e), r)
           | Inr None \<Rightarrow> Some (Inl (if first_line then CodecEof else CodecIo UnexpectedEof), r)
           | Inr (Some line) \<Rightarrow>
               (case header_line line content_length of
                  Inl e \<Rightarrow> Some (Inl e, r)
                | Inr None \<Rightarrow> Some (Inr content_length, r)
                | Inr (Some content_length) \<Rightarrow> read_headers R content_length False r)))"

definition read_message :: "'r buf_reader \<Rightarrow> 'v \<Rightarrow> (bytes \<Rightarrow> 'j + 'v raw_message) \<Rightarrow> 'r \<Rightarrow>
    (('j codec_error + 'v message) \<times> 'r) option" where
  "read_message R null from_slice r =
     (case read_headers R None True r of
        None \<Rightarrow> None
      | Some (Inl e, r) \<Rightarrow> Some (Inl e, r)
      | Some (Inr None, r) \<Rightarrow> Some (Inl MissingLength, r)
      | Some (Inr (Some len), r) \<Rightarrow>
          (case read_exact R len [] r of
             None \<Rightarrow> None
           | Some (Inl e, r) \<Rightarrow> Some (Inl (CodecIo e), r)
           | Some (Inr body, r) \<Rightarrow>
               Some (case from_slice body of Inl e \<Rightarrow> Inl (CodecJson e) | Inr raw \<Rightarrow> classify_raw null raw, r)))"

section \<open>Writing\<close>

text \<open>\<open>write_message\<close> over a writer's \<open>write_all\<close> and \<open>flush\<close>.\<close>

definition frame_header :: "nat \<Rightarrow> bytes" where
  "frame_header len = ascii ''Content-Length: '' @ digits len @ [13, 10, 13, 10]"

definition write_message :: "(bytes \<Rightarrow> 'w \<Rightarrow> (io_error + unit) \<times> 'w) \<Rightarrow> ('w \<Rightarrow> (io_error + unit) \<times> 'w) \<Rightarrow>
    ('v raw_message \<Rightarrow> 'j + bytes) \<Rightarrow> 'v message \<Rightarrow> 'w \<Rightarrow> (io_error + unit) \<times> 'w" where
  "write_message write_all flush to_vec msg w =
     (case to_vec (raw_of msg) of
        Inl _ \<Rightarrow> (Inl InvalidData, w)
      | Inr body \<Rightarrow>
          (case write_all (frame_header (length body)) w of
             (Inl e, w) \<Rightarrow> (Inl e, w)
           | (Inr _, w) \<Rightarrow>
               (case write_all body w of
                  (Inl e, w) \<Rightarrow> (Inl e, w)
                | (Inr _, w) \<Rightarrow> flush w)))"

definition next_id :: "int \<Rightarrow> (request_id \<times> int) option" where
  "next_id last_id = (if last_id + 1 < 2 ^ 63 then Some (IdInt (last_id + 1), last_id + 1) else None)"


section \<open>The contract of a reader\<close>

text \<open>What \<open>fill_buf\<close> and \<open>consume\<close> promise of a stream with \<open>rest r\<close> still to come and no error in it: filling
  shows bytes at the front, none only at the end, and consuming moves past what was shown.\<close>

locale buf_read =
  fixes R :: "'r buf_reader" and sound :: "'r \<Rightarrow> bool" and rest :: "'r \<Rightarrow> bytes"
  assumes fill: "sound r \<Longrightarrow> \<exists>b r'. br_fill R r = (Inr b, r') \<and> (b = [] \<longleftrightarrow> rest r = []) \<and> sound r' \<and> rest r' = rest r \<and>
    take (length b) (rest r) = b \<and>
    (\<forall>n \<le> length b. sound (br_consume R n r') \<and> rest (br_consume R n r') = drop n (rest r))"
begin

lemma fill_cases:
  assumes "sound r"
  obtains b r' zs where "br_fill R r = (Inr b, r')" "b = [] \<longleftrightarrow> rest r = []" "sound r'" "rest r' = rest r" "rest r = b @ zs"
    "\<And>n. n \<le> length b \<Longrightarrow> sound (br_consume R n r') \<and> rest (br_consume R n r') = drop n (rest r)"
proof -
  obtain b r' where b: "br_fill R r = (Inr b, r')" "b = [] \<longleftrightarrow> rest r = []" "sound r'" "rest r' = rest r"
    "take (length b) (rest r) = b"
    "\<forall>n \<le> length b. sound (br_consume R n r') \<and> rest (br_consume R n r') = drop n (rest r)" using fill [OF assms] by blast
  show thesis by (rule that [OF b(1-4), of "drop (length b) (rest r)"]) (use b(5,6) append_take_drop_id [of "length b" "rest r"] in simp_all)
qed

lemma line_ok:
  assumes "sound r" "position_of (\<lambda>b. b = 10) (rest r) = Some i" "length buf + i \<le> max_len"
  obtains r' where "read_bounded_line R max_len buf r = Some (Inr (Some (buf @ take (i + 1) (rest r))), r')"
    "sound r'" "rest r' = drop (i + 1) (rest r)"
  using assms
proof (induction "length (rest r)" arbitrary: r buf i thesis rule: less_induct)
  case less
  obtain b v zs where b: "br_fill R r = (Inr b, v)" "b = [] \<longleftrightarrow> rest r = []" "sound v" "rest v = rest r" "rest r = b @ zs"
    "\<And>n. n \<le> length b \<Longrightarrow> sound (br_consume R n v) \<and> rest (br_consume R n v) = drop n (rest r)"
    by (rule fill_cases [OF less.prems(2)]) blast
  have ne: "b \<noteq> []" using b(2) less.prems(3) by auto
  show ?case
  proof (cases "position_of (\<lambda>b. b = 10) b")
    case (Some j)
    then have j: "j = i" "j < length b" using less.prems(3) position_of_Some [OF Some] by (simp_all add: b(5) position_of_append)
    have "read_bounded_line R max_len buf r = Some (Inr (Some (buf @ take (j + 1) b)), br_consume R (j + 1) v)"
      by (subst read_bounded_line.simps) (simp add: b(1) ne Some)
    moreover have "take (j + 1) b = take (i + 1) (rest r)" using j by (simp add: b(5))
    ultimately show ?thesis using b(6) [of "j + 1"] j by (intro less.prems(1)) auto
  next
    case None
    then obtain k where k: "position_of (\<lambda>b. b = 10) zs = Some k" "i = length b + k"
      using less.prems(3) by (auto simp: b(5) position_of_append split: option.splits)
    have c: "sound (br_consume R (length b) v)" "rest (br_consume R (length b) v) = zs" using b(6) [of "length b"] by (simp_all add: b(5))
    have step: "read_bounded_line R max_len buf r = read_bounded_line R max_len (buf @ b) (br_consume R (length b) v)"
      using less.prems(4) k(2) by (subst read_bounded_line.simps) (simp add: b(1) ne None Let_def)
    obtain r' where r': "read_bounded_line R max_len (buf @ b) (br_consume R (length b) v) =
        Some (Inr (Some ((buf @ b) @ take (k + 1) (rest (br_consume R (length b) v)))), r')"
      "sound r'" "rest r' = drop (k + 1) (rest (br_consume R (length b) v))"
      by (rule less.hyps [of "br_consume R (length b) v" "buf @ b" k])
        (use less.prems(4) ne k c in \<open>simp_all add: b(5)\<close>)
    show ?thesis by (rule less.prems(1) [of r']) (use r' step c k(2) in \<open>simp_all add: b(5)\<close>)
  qed
qed

lemma line_at_end:
  assumes "sound r" "10 \<notin> set (rest r)" "length buf + length (rest r) \<le> max_len"
  obtains r' where "read_bounded_line R max_len buf r = Some (Inr (if buf @ rest r = [] then None else Some (buf @ rest r)), r')"
    "sound r'" "rest r' = []"
  using assms
proof (induction "length (rest r)" arbitrary: r buf thesis rule: less_induct)
  case less
  obtain b v zs where b: "br_fill R r = (Inr b, v)" "b = [] \<longleftrightarrow> rest r = []" "sound v" "rest v = rest r" "rest r = b @ zs"
    "\<And>n. n \<le> length b \<Longrightarrow> sound (br_consume R n v) \<and> rest (br_consume R n v) = drop n (rest r)"
    by (rule fill_cases [OF less.prems(2)]) blast
  show ?case
  proof (cases "b = []")
    case True
    then have "read_bounded_line R max_len buf r = Some (Inr (if buf = [] then None else Some buf), v)"
      by (subst read_bounded_line.simps) (simp add: b(1))
    then show ?thesis using True b(2-4) by (intro less.prems(1) [of v]) simp_all
  next
    case False
    have none: "position_of (\<lambda>b. b = 10) b = None" using less.prems(3) by (auto simp: b(5) position_of_None)
    have c: "sound (br_consume R (length b) v)" "rest (br_consume R (length b) v) = zs" using b(6) [of "length b"] by (simp_all add: b(5))
    have step: "read_bounded_line R max_len buf r = read_bounded_line R max_len (buf @ b) (br_consume R (length b) v)"
      using less.prems(4) by (subst read_bounded_line.simps) (simp add: b(1,5) False none Let_def)
    obtain r' where r': "read_bounded_line R max_len (buf @ b) (br_consume R (length b) v) =
        Some (Inr (if (buf @ b) @ zs = [] then None else Some ((buf @ b) @ zs)), r')" "sound r'" "rest r' = []"
      by (rule less.hyps [of "br_consume R (length b) v" "buf @ b", unfolded c(2)])
        (use less.prems(3,4) False c in \<open>simp_all add: b(5)\<close>)
    show ?thesis by (rule less.prems(1) [of r']) (use r' step in \<open>simp_all add: b(5)\<close>)
  qed
qed

lemma exact_ok:
  assumes "sound r"
  obtains r' where "read_exact R len buf r =
      Some (if len \<le> length (rest r) then Inr (buf @ take len (rest r)) else Inl UnexpectedEof, r')"
    "len \<le> length (rest r) \<longrightarrow> sound r' \<and> rest r' = drop len (rest r)"
  using assms
proof (induction len arbitrary: r buf thesis rule: less_induct)
  case (less len)
  show ?case
  proof (cases "len = 0")
    case True
    then show ?thesis using less.prems by (intro less.prems(1) [of r]) (simp_all add: read_exact.simps [of R 0])
  next
    case False
    obtain b v zs where b: "br_fill R r = (Inr b, v)" "b = [] \<longleftrightarrow> rest r = []" "sound v" "rest v = rest r" "rest r = b @ zs"
      "\<And>n. n \<le> length b \<Longrightarrow> sound (br_consume R n v) \<and> rest (br_consume R n v) = drop n (rest r)"
      by (rule fill_cases [OF less.prems(2)]) blast
    show ?thesis
    proof (cases "b = []")
      case True
      then have "read_exact R len buf r = Some (Inl UnexpectedEof, v)" using False
        by (subst read_exact.simps) (simp add: b(1))
      then show ?thesis using True b(2) False by (intro less.prems(1) [of v]) simp_all
    next
      case ne: False
      define n where "n = min len (length b)"
      have n: "n \<le> length b" "n \<le> len" "0 < n" using False ne by (simp_all add: n_def)
      have c: "sound (br_consume R n v)" "rest (br_consume R n v) = drop n (rest r)" using b(6) [OF n(1)] by simp_all
      have step: "read_exact R len buf r = read_exact R (len - n) (buf @ take n b) (br_consume R n v)"
        using False ne by (subst read_exact.simps) (simp add: b(1) Let_def n_def)
      obtain r' where r': "read_exact R (len - n) (buf @ take n b) (br_consume R n v) =
          Some (if len - n \<le> length (rest (br_consume R n v)) then Inr ((buf @ take n b) @ take (len - n) (rest (br_consume R n v)))
            else Inl UnexpectedEof, r')"
        "len - n \<le> length (rest (br_consume R n v)) \<longrightarrow> sound r' \<and> rest r' = drop (len - n) (rest (br_consume R n v))"
        by (rule less.IH [of "len - n" "buf @ take n b" "br_consume R n v"]) (use n False c in simp_all)
      have le: "len - n \<le> length (drop n (rest r)) \<longleftrightarrow> len \<le> length (rest r)" using n by (auto simp: b(5))
      have "take n b @ take (len - n) (drop n (rest r)) = take len (rest r)"
      proof -
        have "take n b = take n (rest r)" using n(1) by (simp add: b(5))
        then show ?thesis using take_add [of n "len - n" "rest r"] n(2) by simp
      qed
      then show ?thesis using r' step n(2) unfolding c(2) le by (intro less.prems(1) [of r']) auto
    qed
  qed
qed

end


section \<open>Header lines\<close>

declare digits.simps [simp del] from_utf8_lossy.simps [simp del]

lemma lossy_ascii: "\<forall>c \<in> set bs. c < 128 \<Longrightarrow> from_utf8_lossy bs = bs"
proof (induction bs)
  case (Cons b bs)
  then have "lossy_step (b # bs) = (b, 1)" by (simp add: lossy_step_def byte_at_def nth_opt_def)
  then show ?case using Cons by (subst from_utf8_lossy.simps) simp
qed (simp add: from_utf8_lossy.simps)

lemma digits_props: "digits n \<noteq> [] \<and> (\<forall>c \<in> set (digits n). 48 \<le> c \<and> c \<le> 57)"
proof (induction n rule: digits.induct)
  case (1 n)
  show ?case
  proof (cases "n < 10")
    case False
    have "n mod 10 < 10" by simp
    then have "48 + n mod 10 \<le> 57" by linarith
    then show ?thesis using 1 [OF False] False by (subst (1 2) digits.simps) auto
  qed (subst (1 2) digits.simps, simp)
qed

lemma parse_digits_append:
  "parse_digits acc (xs @ ys) = (case parse_digits acc xs of None \<Rightarrow> None | Some a \<Rightarrow> parse_digits a ys)"
  by (induction acc xs rule: parse_digits.induct) auto

lemma parse_digits_of: "n \<le> usize_max \<Longrightarrow> parse_digits 0 (digits n) = Some n"
proof (induction n rule: digits.induct)
  case (1 n)
  show ?case
  proof (cases "n < 10")
    case True
    then show ?thesis using 1 by (subst digits.simps) (simp add: usize_max_def)
  next
    case False
    have "n div 10 \<le> usize_max" using 1(2) div_le_dividend le_trans by blast
    then have ih: "parse_digits 0 (digits (n div 10)) = Some (n div 10)" using 1(1) [OF False] by simp
    have m: "n mod 10 < 10" "n div 10 * 10 + n mod 10 = n" by simp_all
    define k where "k = n mod 10"
    have k: "48 + k \<le> 57" "n div 10 * 10 + (48 + k - 48) = n" using m by (simp_all add: k_def)
    have "digits n = digits (n div 10) @ [48 + k]" using False by (subst digits.simps) (simp add: k_def)
    then show ?thesis using ih k 1(2) by (simp add: parse_digits_append)
  qed
qed

lemma parse_usize_of: "n \<le> usize_max \<Longrightarrow> parse_usize (digits n) = Some n"
  using digits_props [of n] parse_digits_of [of n] by (cases "digits n") (auto simp: parse_usize_def)

lemma trim_end_keep: "xs = [] \<or> \<not> P (last xs) \<Longrightarrow> trim_end_where P xs = xs"
  unfolding trim_end_where_def by (cases xs rule: rev_cases) simp_all

lemma trim_end_drop: "\<forall>y \<in> set ys. P y \<Longrightarrow> trim_end_where P (xs @ ys) = trim_end_where P xs"
  unfolding trim_end_where_def by (induction ys rule: rev_induct) auto

lemma trim_spaced: "(xs = [] \<or> \<not> is_whitespace (hd xs) \<and> \<not> is_whitespace (last xs)) \<Longrightarrow> trim (32 # xs) = xs"
proof -
  assume a: "xs = [] \<or> \<not> is_whitespace (hd xs) \<and> \<not> is_whitespace (last xs)"
  have "is_whitespace 32" by (simp add: is_whitespace_def)
  moreover have "dropWhile is_whitespace xs = xs" using a by (cases xs) auto
  ultimately show ?thesis using a trim_end_keep [of xs is_whitespace] by (auto simp: trim_def)
qed

definition content_length_name :: ustring where
  "content_length_name = ascii ''Content-Length''"

lemma content_length_name_eq: "content_length_name = [67, 111, 110, 116, 101, 110, 116, 45, 76, 101, 110, 103, 116, 104]"
  by (simp add: content_length_name_def ascii_def)

lemma length_line_eq: "ascii ''Content-Length: '' = content_length_name @ [58, 32]"
  by (simp add: content_length_name_def ascii_def)

text \<open>The line that names the length, and the blank one.\<close>

definition length_line :: "nat \<Rightarrow> bytes" where
  "length_line n = content_length_name @ [58, 32] @ digits n @ [13, 10]"

lemma frame_header_eq: "frame_header n = length_line n @ [13, 10]"
  by (simp add: frame_header_def length_line_eq length_line_def)

lemma length_line_ascii: "\<forall>c \<in> set (length_line n). c < 128"
  using digits_props [of n] by (fastforce simp: length_line_def content_length_name_eq)

lemma header_length_line:
  assumes "n \<le> max_content_length"
  shows "header_line (length_line n) cl = Inr (Some (Some n))"
proof -
  let ?t = "content_length_name @ [58, 32] @ digits n"
  have d: "digits n \<noteq> []" "\<forall>c \<in> set (digits n). 48 \<le> c \<and> c \<le> 57" using digits_props [of n] by simp_all
  have l: "last (digits n) \<in> set (digits n)" and h: "hd (digits n) \<in> set (digits n)" using d(1) by simp_all
  have nw: "\<not> is_whitespace c" "c \<noteq> CR" "c \<noteq> NL" if "c \<in> set (digits n)" for c
    using d(2) that by (auto simp: is_whitespace_def)
  have "length_line n = ?t @ [13, 10]" by (simp add: length_line_def)
  then have trimmed: "trim_end_where (\<lambda>c. c = CR \<or> c = NL) (from_utf8_lossy (length_line n)) = ?t"
    using nw [OF l] d(1) trim_end_drop [of "[13, 10]" "\<lambda>c. c = CR \<or> c = NL" ?t] trim_end_keep [of ?t "\<lambda>c. c = CR \<or> c = NL"]
    unfolding lossy_ascii [OF length_line_ascii] by simp
  have "n \<le> usize_max" using assms by (simp add: max_content_length_def usize_max_def)
  then have "parse_usize (trim (32 # digits n)) = Some n"
    using trim_spaced [of "digits n"] nw [OF l] nw [OF h] parse_usize_of by simp
  moreover have "split_once 58 ?t = Some (content_length_name, 32 # digits n)"
    by (simp add: split_once_def content_length_name_eq)
  moreover have "?t \<noteq> []" by simp
  ultimately show ?thesis using assms trimmed
    by (simp add: header_line_def Let_def eq_ignore_ascii_case_def content_length_name_def [symmetric])
qed

lemma header_blank_line: "header_line [13, 10] cl = Inr None" "header_line [13] cl = Inr None"
  by (simp_all add: header_line_def lossy_ascii trim_end_where_def)

lemma length_line_lf: "position_of (\<lambda>b. b = 10) (length_line n @ tail) = Some (length (length_line n) - 1)"
proof -
  let ?t = "content_length_name @ [58, 32] @ digits n @ [13]"
  have "\<forall>c \<in> set ?t. c \<noteq> 10" using digits_props [of n] by (auto simp: content_length_name_eq)
  then have "position_of (\<lambda>b. b = 10) ?t = None" by (simp add: position_of_None)
  then have "position_of (\<lambda>b. b = 10) (?t @ [10] @ tail) = Some (length ?t)" unfolding position_of_append by simp
  moreover have "length_line n @ tail = ?t @ [10] @ tail" by (simp add: length_line_def)
  ultimately show ?thesis by (simp add: length_line_def)
qed

lemma digits_length: "length (digits n) \<le> n + 1"
proof (induction n rule: digits.induct)
  case (1 n)
  show ?case
  proof (cases "n < 10")
    case False
    then show ?thesis using 1 [OF False] by (subst digits.simps) simp
  qed (subst digits.simps, simp)
qed

lemma digits_short: "n < 10 ^ k \<Longrightarrow> 0 < k \<Longrightarrow> length (digits n) \<le> k"
proof (induction k arbitrary: n)
  case (Suc k)
  show ?case
  proof (cases "n < 10")
    case True
    then show ?thesis by (subst digits.simps) simp
  next
    case False
    then have "k \<noteq> 0" using Suc.prems by (cases k) auto
    have "n div 10 < 10 ^ k" using Suc.prems(1) by (simp add: less_mult_imp_div_less mult.commute)
    then show ?thesis using Suc.IH [of "n div 10"] \<open>k \<noteq> 0\<close> False by (subst digits.simps) simp
  qed
qed simp

lemma length_line_short: "n \<le> max_content_length \<Longrightarrow> length (length_line n) \<le> 28"
  using digits_short [of n 10] by (simp add: max_content_length_def length_line_def content_length_name_eq)

context buf_read
begin

lemma headers_ok:
  assumes r: "sound r" "rest r = frame_header n @ tail" and n: "n \<le> max_content_length"
  obtains r' where "read_headers R cl first_line r = Some (Inr (Some n), r')" "sound r'" "rest r' = tail"
proof -
  let ?k = "length (length_line n) - 1"
  have len: "0 < length (length_line n)" by (simp add: length_line_def)
  have lf: "position_of (\<lambda>b. b = 10) (rest r) = Some ?k"
    unfolding r(2) frame_header_eq using length_line_lf [of n "[13, 10] @ tail"] by simp
  have short: "length ([] :: bytes) + ?k \<le> max_header_line_len"
    using length_line_short [OF n] by (simp add: max_header_line_len_def)
  obtain u where u: "read_bounded_line R max_header_line_len [] r = Some (Inr (Some ([] @ take (?k + 1) (rest r))), u)"
    "sound u" "rest u = drop (?k + 1) (rest r)" by (rule line_ok [OF r(1) lf short])
  have l: "take (?k + 1) (rest r) = length_line n" "rest u = [13, 10] @ tail"
    using len by (simp_all add: u(3) r(2) frame_header_eq)
  have short2: "length ([] :: bytes) + 1 \<le> max_header_line_len" by (simp add: max_header_line_len_def)
  have lf2: "position_of (\<lambda>b. b = 10) (rest u) = Some 1" by (simp add: l(2))
  obtain v where v: "read_bounded_line R max_header_line_len [] u = Some (Inr (Some ([] @ take (1 + 1) (rest u))), v)"
    "sound v" "rest v = drop (1 + 1) (rest u)" by (rule line_ok [OF u(2) lf2 short2])
  have "read_headers R (Some n) False u = Some (Inr (Some n), v)"
    using v(1) by (subst read_headers.simps) (simp add: l(2) header_blank_line)
  then have "read_headers R cl first_line r = Some (Inr (Some n), v)"
    using u(1) [unfolded l(1) append_Nil] by (subst read_headers.simps) (simp add: header_length_line [OF n])
  then show thesis using that v(2,3) by (simp add: l(2))
qed

lemma message_ok:
  fixes from_slice :: "bytes \<Rightarrow> 'j + 'v raw_message"
  assumes r: "sound r" "rest r = frame_header (length body) @ body @ tail" and n: "length body \<le> max_content_length"
  obtains r' where "read_message R null from_slice r =
      Some (case from_slice body of Inl e \<Rightarrow> Inl (CodecJson e) | Inr raw \<Rightarrow> classify_raw null raw, r')" "sound r'" "rest r' = tail"
proof -
  obtain u where u: "read_headers R None True r = Some (Inr (Some (length body)) :: 'j codec_error + nat option, u)" "sound u" "rest u = body @ tail"
    by (rule headers_ok [OF r n])
  obtain v where v: "read_exact R (length body) [] u =
      Some (if length body \<le> length (rest u) then Inr ([] @ take (length body) (rest u)) else Inl UnexpectedEof, v)"
    "length body \<le> length (rest u) \<longrightarrow> sound v \<and> rest v = drop (length body) (rest u)" by (rule exact_ok [OF u(2)])
  show thesis using u(1,3) v by (intro that [of v]) (simp_all add: read_message_def)
qed

lemma message_at_end:
  fixes from_slice :: "bytes \<Rightarrow> 'j + 'v raw_message"
  assumes "sound r" "rest r = []"
  shows "\<exists>r'. read_message R null from_slice r = Some (Inl CodecEof, r')"
proof -
  obtain v where "read_bounded_line R max_header_line_len [] r = Some (Inr (if [] @ rest r = [] then None else Some ([] @ rest r)), v)"
    "sound v" "rest v = []"
    by (rule line_at_end [OF assms(1), of "[]" max_header_line_len]) (use assms(2) in \<open>simp_all add: max_header_line_len_def\<close>)
  then have "read_bounded_line R max_header_line_len [] r = Some (Inr None, v)" using assms(2) by simp
  then have "read_headers R None True r = Some (Inl CodecEof :: 'j codec_error + nat option, v)" by (subst read_headers.simps) simp
  then show ?thesis by (simp add: read_message_def)
qed

end


section \<open>Frames cut short\<close>

lemma header_line_not_eof: "header_line line cl \<noteq> Inl CodecEof"
  by (simp add: header_line_def Let_def split: option.splits)

lemma trim_end_cons: "\<not> P c \<Longrightarrow> trim_end_where P (c # xs) = c # trim_end_where P xs"
proof -
  assume c: "\<not> P c"
  have "dropWhile P (ys @ [c]) = dropWhile P ys @ [c]" for ys using c by (induction ys) auto
  then show ?thesis by (simp add: trim_end_where_def)
qed

lemma header_prefix_not_blank:
  assumes "p @ q = length_line n" "p \<noteq> []"
  shows "header_line p cl \<noteq> Inr None"
proof -
  have "set p \<subseteq> set (length_line n)" by (simp add: assms(1) [symmetric])
  then have a: "from_utf8_lossy p = p" using length_line_ascii [of n] by (intro lossy_ascii) auto
  have "hd p = hd (length_line n)" using assms by (metis hd_append2)
  then have "hd p = 67" by (simp add: length_line_def content_length_name_eq)
  then obtain xs where "p = 67 # xs" using assms(2) by (cases p) auto
  then have "trim_end_where (\<lambda>c. c = CR \<or> c = NL) (from_utf8_lossy p) \<noteq> []" using a by (simp add: trim_end_cons)
  then show ?thesis by (simp add: header_line_def Let_def split: option.split)
qed

lemma header_prefix_bad:
  assumes "p @ q = length_line n" "p \<noteq> []" "58 \<notin> set p"
  shows "header_line p cl = Inl (BadHeader p)"
proof -
  have sub: "set p \<subseteq> set (length_line n)" by (simp add: assms(1) [symmetric])
  then have a: "from_utf8_lossy p = p" using length_line_ascii [of n] by (intro lossy_ascii) auto
  have "p @ q = content_length_name @ 58 # 32 # digits n @ [13, 10]" using assms(1) by (simp add: length_line_def)
  then obtain us where us: "p = content_length_name @ us \<and> us @ q = 58 # 32 # digits n @ [13, 10] \<or>
      p @ us = content_length_name" unfolding append_eq_append_conv2 by auto
  have "set p \<subseteq> set content_length_name"
  proof (cases "p @ us = content_length_name")
    case True
    then show ?thesis by (metis set_append sup_ge1)
  next
    case False
    then have "us = []" using us assms(3) by (cases us) auto
    then show ?thesis using us by auto
  qed
  then have nb: "c \<noteq> CR \<and> c \<noteq> NL" if "c \<in> set p" for c using that by (auto simp: content_length_name_eq)
  then have "trim_end_where (\<lambda>c. c = CR \<or> c = NL) p = p" using assms(2) by (intro trim_end_keep) auto
  moreover have "split_once 58 p = None" using assms(3) by (auto simp: split_once_def position_of_None split: option.split)
  ultimately show ?thesis using a assms(2) by (simp add: header_line_def Let_def)
qed

lemma length_line_last: "length_line n = butlast (length_line n) @ [10]" "10 \<notin> set (butlast (length_line n))"
proof -
  let ?t = "content_length_name @ [58, 32] @ digits n @ [13]"
  have e: "length_line n = ?t @ [10]" by (simp add: length_line_def)
  have b: "butlast (length_line n) = ?t" unfolding e butlast_append by simp
  show "length_line n = butlast (length_line n) @ [10]" unfolding b by (rule e)
  show "10 \<notin> set (butlast (length_line n))" unfolding b using digits_props [of n] by (auto simp: content_length_name_eq)
qed

context buf_read
begin

lemma headers_at_end:
  assumes "sound r" "rest r = []"
  shows "\<exists>r'. read_headers R cl False r = Some (Inl (CodecIo UnexpectedEof), r')"
proof -
  obtain v where v: "read_bounded_line R max_header_line_len [] r = Some (Inr (if [] @ rest r = [] then None else Some ([] @ rest r)), v)"
    "sound v" "rest v = []"
    by (rule line_at_end [OF assms(1), of "[]" max_header_line_len]) (use assms(2) in \<open>simp_all add: max_header_line_len_def\<close>)
  then show ?thesis using assms(2) by (subst read_headers.simps) simp
qed

text \<open>Headers cut inside the first line, after it, and inside the blank line.\<close>

lemma headers_cut_line:
  fixes from_slice :: "bytes \<Rightarrow> 'j + 'v raw_message"
  assumes r: "sound r" "rest r = p" and p: "p @ q = length_line n" "p \<noteq> []" "q \<noteq> []" and n: "n \<le> max_content_length"
  shows "\<exists>e r'. read_message R null from_slice r = Some (Inl e, r') \<and> e \<noteq> CodecEof \<and> (58 \<notin> set p \<longrightarrow> e = BadHeader p)"
proof -
  have "p @ butlast q = butlast (length_line n)" using p(1,3) by (metis butlast_append)
  then have nolf: "10 \<notin> set (rest r)" using length_line_last(2) [of n] r(2) by (metis Un_iff set_append)
  have "length p \<le> length (length_line n)" by (simp add: p(1) [symmetric])
  then have len: "length ([] :: bytes) + length (rest r) \<le> max_header_line_len"
    using length_line_short [OF n] r(2) by (simp add: max_header_line_len_def)
  obtain v where v: "read_bounded_line R max_header_line_len [] r = Some (Inr (if [] @ rest r = [] then None else Some ([] @ rest r)), v)"
    "sound v" "rest v = []" by (rule line_at_end [OF r(1) nolf len])
  have line: "read_bounded_line R max_header_line_len [] r = Some (Inr (Some p), v)" using v(1) r(2) p(2) by simp
  define h :: "'j codec_error + nat option option" where "h = header_line p None"
  show ?thesis
  proof (cases h)
    case (Inl e)
    then have "e \<noteq> CodecEof" using header_line_not_eof unfolding h_def by metis
    moreover have "e = BadHeader p" if "58 \<notin> set p"
      using header_prefix_bad [OF p(1,2) that, of None, where 'a = 'j] Inl by (simp add: h_def)
    moreover have "read_headers R None True r = Some (Inl e, v)"
      using line Inl by (subst read_headers.simps) (simp add: h_def)
    ultimately show ?thesis by (simp add: read_message_def)
  next
    case (Inr o')
    then obtain cl where cl: "o' = Some cl" using header_prefix_not_blank [OF p(1,2), of None, where 'a = 'j] by (cases o') (simp_all add: h_def)
    obtain u where "read_headers R cl False v = Some (Inl (CodecIo UnexpectedEof :: 'j codec_error), u)"
      using headers_at_end [OF v(2,3)] by blast
    then have "read_headers R None True r = Some (Inl (CodecIo UnexpectedEof :: 'j codec_error), u)"
      using line Inr cl by (subst read_headers.simps) (simp add: h_def)
    moreover have "58 \<in> set p" using header_prefix_bad [OF p(1,2), of None, where 'a = 'j] Inr by (auto simp: h_def)
    ultimately show ?thesis by (simp add: read_message_def)
  qed
qed

lemma first_line_read:
  assumes r: "sound r" "rest r = length_line n @ tail" and n: "n \<le> max_content_length"
  obtains u where "read_headers R None True r = read_headers R (Some n) False u" "sound u" "rest u = tail"
proof -
  let ?k = "length (length_line n) - 1"
  have len: "0 < length (length_line n)" by (simp add: length_line_def)
  have lf: "position_of (\<lambda>b. b = 10) (rest r) = Some ?k" unfolding r(2) by (rule length_line_lf)
  have short: "length ([] :: bytes) + ?k \<le> max_header_line_len"
    using length_line_short [OF n] by (simp add: max_header_line_len_def)
  obtain u where u: "read_bounded_line R max_header_line_len [] r = Some (Inr (Some ([] @ take (?k + 1) (rest r))), u)"
    "sound u" "rest u = drop (?k + 1) (rest r)" by (rule line_ok [OF r(1) lf short])
  have l: "take (?k + 1) (rest r) = length_line n" "rest u = tail" using len by (simp_all add: u(3) r(2))
  have "read_headers R None True r = read_headers R (Some n) False u"
    using u(1) [unfolded l(1) append_Nil] by (subst (1) read_headers.simps) (simp add: header_length_line [OF n])
  then show thesis using that u(2) l(2) by blast
qed

lemma cut_frame:
  fixes from_slice :: "bytes \<Rightarrow> 'j + 'v raw_message"
  assumes r: "sound r" "rest r = p" and p: "p @ q = frame_header (length body) @ body" "p \<noteq> []" "q \<noteq> []"
    and n: "length body \<le> max_content_length" "body \<noteq> []"
  shows "\<exists>e r'. read_message R null from_slice r = Some (Inl e, r') \<and> e \<noteq> CodecEof \<and> (58 \<notin> set p \<longrightarrow> e = BadHeader p)"
proof -
  define n where "n = length body"
  have n': "n \<le> max_content_length" "n \<noteq> 0" using n by (simp_all add: n_def)
  have f: "p @ q = length_line n @ 13 # 10 # body" using p(1) by (simp add: frame_header_eq n_def)
  show ?thesis
  proof (cases "length p < length (length_line n)")
    case True
    then have "p @ take (length (length_line n) - length p) q = length_line n"
      using arg_cong [OF f, of "take (length (length_line n))"] by simp
    moreover have "take (length (length_line n) - length p) q \<noteq> []" using True p(3) by simp
    ultimately show ?thesis by (rule headers_cut_line [OF r _ p(2) _ n'(1)])
  next
    case False
    then have pre: "take (length (length_line n)) p = length_line n"
      using arg_cong [OF f, of "take (length (length_line n))"] by simp
    define t where "t = drop (length (length_line n)) p"
    have pt: "p = length_line n @ t" using append_take_drop_id [of "length (length_line n)" p] pre by (simp add: t_def)
    have t: "t @ q = 13 # 10 # body" using f by (simp add: pt)
    have colon: "58 \<in> set p" by (simp add: pt length_line_def)
    obtain u where u: "read_headers R None True r = (read_headers R (Some n) False u :: (('j codec_error + nat option) \<times> 'r) option)"
      "sound u" "rest u = t" by (rule first_line_read [OF r(1) _ n'(1), of t]) (simp_all add: r(2) pt)
    consider "t = []" | "t = [13]" | s where "t = 13 # 10 # s" "s @ q = body"
      using t by (cases t; cases "tl t") auto
    then show ?thesis
    proof cases
      case 1
      obtain v where "read_headers R (Some n) False u = Some (Inl (CodecIo UnexpectedEof :: 'j codec_error), v)"
        using headers_at_end [OF u(2)] u(3) 1 by blast
      then show ?thesis using u(1) colon by (simp add: read_message_def)
    next
      case 2
      obtain v where v: "read_bounded_line R max_header_line_len [] u =
          Some (Inr (if [] @ rest u = [] then None else Some ([] @ rest u)), v)" "sound v" "rest v = []"
        by (rule line_at_end [OF u(2), of "[]" max_header_line_len]) (use u(3) 2 in \<open>simp_all add: max_header_line_len_def\<close>)
      have h: "read_headers R (Some n) False u = Some (Inr (Some n) :: 'j codec_error + nat option, v)"
        using v(1) u(3) 2 by (subst read_headers.simps) (simp add: header_blank_line)
      obtain x where "read_exact R n [] v =
          Some (if n \<le> length (rest v) then Inr ([] @ take n (rest v)) else Inl UnexpectedEof, x)" by (rule exact_ok [OF v(2)]) blast
      then show ?thesis using h u(1) v(3) n'(2) colon by (simp add: read_message_def)
    next
      case 3
      have lf: "position_of (\<lambda>b. b = 10) (rest u) = Some 1" by (simp add: u(3) 3)
      have short: "length ([] :: bytes) + 1 \<le> max_header_line_len" by (simp add: max_header_line_len_def)
      obtain v where v: "read_bounded_line R max_header_line_len [] u = Some (Inr (Some ([] @ take (1 + 1) (rest u))), v)"
        "sound v" "rest v = drop (1 + 1) (rest u)" by (rule line_ok [OF u(2) lf short])
      have h: "read_headers R (Some n) False u = Some (Inr (Some n) :: 'j codec_error + nat option, v)"
        using v(1) by (subst read_headers.simps) (simp add: u(3) 3 header_blank_line)
      have "length s < n" using 3(2) p(3) by (auto simp: n_def 3(2) [symmetric])
      moreover obtain x where "read_exact R n [] v =
          Some (if n \<le> length (rest v) then Inr ([] @ take n (rest v)) else Inl UnexpectedEof, x)" by (rule exact_ok [OF v(2)]) blast
      ultimately show ?thesis using h u(1) v(3) u(3) 3(1) colon by (simp add: read_message_def)
    qed
  qed
qed

end


section \<open>The reader thread\<close>

text \<open>A buffered reader over a source that yields chunks: \<open>BufReader\<close> on the server's output. A read that
  yields no bytes is the end; a failed one may be followed by others.\<close>

record chunked =
  ck_buf :: bytes
  ck_reads :: "(io_error + bytes) list"

definition chunked_fill :: "chunked \<Rightarrow> (io_error + bytes) \<times> chunked" where
  "chunked_fill r =
     (if ck_buf r \<noteq> [] then (Inr (ck_buf r), r)
      else (case ck_reads r of
          [] \<Rightarrow> (Inr [], r)
        | Inl e # rs \<Rightarrow> (Inl e, r\<lparr>ck_reads := rs\<rparr>)
        | Inr b # rs \<Rightarrow> (Inr b, r\<lparr>ck_buf := b, ck_reads := rs\<rparr>)))"

definition chunked_reader :: "chunked buf_reader" where
  "chunked_reader = \<lparr>br_fill = chunked_fill, br_consume = (\<lambda>n r. r\<lparr>ck_buf := drop n (ck_buf r)\<rparr>)\<rparr>"

definition chunked_new :: "bytes list \<Rightarrow> chunked" where
  "chunked_new chunks = \<lparr>ck_buf = [], ck_reads = map Inr chunks\<rparr>"

definition chunked_sound :: "chunked \<Rightarrow> bool" where
  "chunked_sound r \<longleftrightarrow> (\<forall>x \<in> set (ck_reads r). \<exists>b. x = Inr b \<and> b \<noteq> [])"

definition chunked_rest :: "chunked \<Rightarrow> bytes" where
  "chunked_rest r = ck_buf r @ concat (map (\<lambda>x. case x of Inl e \<Rightarrow> [] | Inr b \<Rightarrow> b) (ck_reads r))"

interpretation chunked: buf_read chunked_reader chunked_sound chunked_rest
proof
  fix r assume s: "chunked_sound r"
  show "\<exists>b r'. br_fill chunked_reader r = (Inr b, r') \<and> (b = [] \<longleftrightarrow> chunked_rest r = []) \<and> chunked_sound r' \<and>
      chunked_rest r' = chunked_rest r \<and> take (length b) (chunked_rest r) = b \<and>
      (\<forall>n \<le> length b. chunked_sound (br_consume chunked_reader n r') \<and>
         chunked_rest (br_consume chunked_reader n r') = drop n (chunked_rest r))"
  proof (cases "ck_buf r = [] \<and> ck_reads r \<noteq> []")
    case True
    then obtain x rs where x: "ck_reads r = x # rs" by (cases "ck_reads r") auto
    with s obtain b where b: "x = Inr b" "b \<noteq> []" by (auto simp: chunked_sound_def)
    then show ?thesis using True s x by (auto simp: chunked_reader_def chunked_fill_def chunked_rest_def chunked_sound_def)
  next
    case False
    then show ?thesis using s
      by (cases "ck_reads r") (auto simp: chunked_reader_def chunked_fill_def chunked_rest_def chunked_sound_def)
  qed
qed

lemma chunked_new_ok: "[] \<notin> set chunks \<Longrightarrow> chunked_sound (chunked_new chunks) \<and> chunked_rest (chunked_new chunks) = concat chunks"
  by (auto simp: chunked_sound_def chunked_new_def chunked_rest_def comp_def)

datatype ('v, 'j) inbound_event = InboundMessage "'v message" | InboundStderr ustring | InboundEof "'j codec_error option"

text \<open>\<open>reader_loop\<close>, over the channel's \<open>send\<close>, which fails once the receiver is gone.\<close>

partial_function (option) reader_loop ::
  "'r buf_reader \<Rightarrow> 'v \<Rightarrow> (bytes \<Rightarrow> 'j + 'v raw_message) \<Rightarrow> (('v, 'j) inbound_event \<Rightarrow> 'c \<Rightarrow> 'c option) \<Rightarrow> 'c \<Rightarrow> 'r \<Rightarrow> 'c option" where
  "reader_loop R null from_slice send c r =
     (case read_message R null from_slice r of
        None \<Rightarrow> None
      | Some (Inr msg, r) \<Rightarrow>
          (case send (InboundMessage msg) c of None \<Rightarrow> Some c | Some c \<Rightarrow> reader_loop R null from_slice send c r)
      | Some (Inl e, r) \<Rightarrow>
          Some (case send (InboundEof (if e = CodecEof then None else Some e)) c of None \<Rightarrow> c | Some c \<Rightarrow> c))"

text \<open>Messages written one after the other, as the writer thread does until one fails.\<close>

fun write_messages :: "(bytes \<Rightarrow> 'w \<Rightarrow> (io_error + unit) \<times> 'w) \<Rightarrow> ('w \<Rightarrow> (io_error + unit) \<times> 'w) \<Rightarrow>
    ('v raw_message \<Rightarrow> 'j + bytes) \<Rightarrow> 'v message list \<Rightarrow> 'w \<Rightarrow> (io_error + unit) \<times> 'w" where
  "write_messages write_all flush to_vec [] w = (Inr (), w)"
| "write_messages write_all flush to_vec (m # ms) w =
     (case write_message write_all flush to_vec m w of
        (Inl e, w) \<Rightarrow> (Inl e, w)
      | (Inr _, w) \<Rightarrow> write_messages write_all flush to_vec ms w)"

section \<open>What the JSON library gives back\<close>

text \<open>An optional field that holds \<open>null\<close> is read as absent, but for \<open>result\<close> and \<open>error\<close>, which
  \<open>deserialize_present\<close> keeps.\<close>

definition drop_null :: "'v \<Rightarrow> 'v option \<Rightarrow> 'v option" where
  "drop_null null p = (if p = Some null then None else p)"

definition json_seen :: "'v \<Rightarrow> 'v raw_message \<Rightarrow> 'v raw_message" where
  "json_seen null raw = raw\<lparr>rm_params := drop_null null (rm_params raw),
     rm_error := map_option (\<lambda>e. e\<lparr>rp_data := drop_null null (rp_data e)\<rparr>) (rm_error raw)\<rparr>"

text \<open>What the code relies on: what was serialized parses to the same fields, and is not empty.\<close>

definition json_ok :: "'v \<Rightarrow> ('v raw_message \<Rightarrow> 'j + bytes) \<Rightarrow> (bytes \<Rightarrow> 'j + 'v raw_message) \<Rightarrow> bool" where
  "json_ok null to_vec from_slice \<longleftrightarrow>
     (\<forall>raw b. to_vec raw = Inr b \<longrightarrow> b \<noteq> [] \<and> from_slice b = Inr (json_seen null raw))"

fun seen :: "'v \<Rightarrow> 'v message \<Rightarrow> 'v message" where
  "seen null (Response i (Inl e)) = Response i (Inl (e\<lparr>rp_data := drop_null null (rp_data e)\<rparr>))"
| "seen null m = m"

lemma classify_seen: "classify_raw null (json_seen null (raw_of m)) = Inr (seen null m)"
  by (induction m rule: raw_of.induct) (auto simp: classify_raw_def json_seen_def drop_null_def)

definition plain_write :: "bytes \<Rightarrow> bytes \<Rightarrow> (io_error + unit) \<times> bytes" where
  "plain_write b w = (Inr (), w @ b)"

definition plain_flush :: "bytes \<Rightarrow> (io_error + unit) \<times> bytes" where
  "plain_flush w = (Inr (), w)"

lemma write_message_plain:
  "write_message plain_write plain_flush to_vec m w =
     (case to_vec (raw_of m) of Inl _ \<Rightarrow> (Inl InvalidData, w)
      | Inr body \<Rightarrow> (Inr (), w @ frame_header (length body) @ body))"
  by (simp add: write_message_def plain_write_def plain_flush_def split: sum.split)

lemma write_messages_plain:
  "write_messages plain_write plain_flush to_vec (m # ms) w = (Inr (), out) \<Longrightarrow>
     \<exists>body. to_vec (raw_of m) = Inr body \<and>
       write_messages plain_write plain_flush to_vec ms (w @ frame_header (length body) @ body) = (Inr (), out)"
  by (auto simp: write_message_plain split: sum.splits)

lemma write_messages_extends:
  "write_messages plain_write plain_flush to_vec ms w = (Inr (), out) \<Longrightarrow>
     write_messages plain_write plain_flush to_vec ms v = (Inr (), v @ drop (length w) out) \<and> take (length w) out = w"
proof (induction ms arbitrary: w v)
  case (Cons m ms)
  obtain body where b: "to_vec (raw_of m) = Inr body"
    "write_messages plain_write plain_flush to_vec ms (w @ frame_header (length body) @ body) = (Inr (), out)"
    using write_messages_plain [OF Cons.prems] by blast
  let ?f = "frame_header (length body) @ body"
  note ih = Cons.IH [OF b(2), of "v @ ?f"]
  have "take (length w + length ?f) out = w @ ?f" using ih by simp
  then have "drop (length w) (take (length w + length ?f) out) = ?f" "take (length w) out = w"
    by (simp_all add: take_take [symmetric] min_def) (metis append_eq_conv_conj length_append take_take min.absorb1 le_add1)+
  then have "drop (length w) out = ?f @ drop (length w + length ?f) out" "take (length w) out = w"
    by (metis append_take_drop_id drop_drop drop_take add_diff_cancel_left' add.commute)+
  then show ?case using ih b(1) by (simp add: write_message_plain)
qed simp

lemma reader_loop_reads:
  fixes from_slice :: "bytes \<Rightarrow> 'j + 'v raw_message"
  assumes json: "json_ok null to_vec from_slice"
    and small: "\<And>m b. m \<in> set ms \<Longrightarrow> to_vec (raw_of m) = Inr b \<Longrightarrow> length b \<le> max_content_length"
    and written: "write_messages plain_write plain_flush to_vec ms [] = (Inr (), sent)"
    and r: "chunked_sound r" "chunked_rest r = sent"
  shows "reader_loop chunked_reader null from_slice (\<lambda>e c. Some (c @ [e])) c r =
    Some (c @ map (\<lambda>m. InboundMessage (seen null m)) ms @ [InboundEof None])"
  using small written r
proof (induction ms arbitrary: sent c r)
  case Nil
  obtain r' where "read_message chunked_reader null from_slice r = Some (Inl CodecEof, r')"
    using chunked.message_at_end [of r null from_slice] Nil by auto
  then show ?case by (subst reader_loop.simps) simp
next
  case (Cons m ms)
  obtain body where b: "to_vec (raw_of m) = Inr body"
    "write_messages plain_write plain_flush to_vec ms ([] @ frame_header (length body) @ body) = (Inr (), sent)"
    using write_messages_plain [OF Cons.prems(2)] by blast
  let ?f = "frame_header (length body) @ body"
  note ext = write_messages_extends [OF b(2), of "[]"]
  have "sent = ?f @ drop (length ?f) sent" using ext append_take_drop_id [of "length ?f" sent] by simp
  then have rest: "chunked_rest r = frame_header (length body) @ body @ drop (length ?f) sent" using Cons.prems(4) by simp
  have len: "length body \<le> max_content_length" by (rule Cons.prems(1) [OF _ b(1)]) simp
  obtain u where u: "read_message chunked_reader null from_slice r =
      Some (case from_slice body of Inl e \<Rightarrow> Inl (CodecJson e) | Inr raw \<Rightarrow> classify_raw null raw, u)"
    "chunked_sound u" "chunked_rest u = drop (length ?f) sent" by (rule chunked.message_ok [OF Cons.prems(3) rest len])
  have "from_slice body = Inr (json_seen null (raw_of m))" using json b(1) by (simp add: json_ok_def)
  then have "read_message chunked_reader null from_slice r = Some (Inr (seen null m), u)" using u(1) by (simp add: classify_seen)
  moreover have "reader_loop chunked_reader null from_slice (\<lambda>e c. Some (c @ [e])) (c @ [InboundMessage (seen null m)]) u =
      Some ((c @ [InboundMessage (seen null m)]) @ map (\<lambda>m. InboundMessage (seen null m)) ms @ [InboundEof None])"
    by (rule Cons.IH [OF _ _ u(2,3)]) (use Cons.prems(1) ext in auto)
  ultimately show ?case by (subst reader_loop.simps) simp
qed


section \<open>Properties\<close>

text \<open>C35: Any list of messages, written one after the other and read back from chunks of any sizes, comes out
  as those messages in order and then a clean end: no frame is lost, split or read into the next,
  wherever the chunks break headers and bodies. Only the \<open>null\<close> in an error's data is read as none.\<close>

theorem frames_roundtrip:
  fixes from_slice :: "bytes \<Rightarrow> 'j + 'v raw_message"
  assumes "json_ok null to_vec from_slice"
    and "\<And>m b. m \<in> set ms \<Longrightarrow> to_vec (raw_of m) = Inr b \<Longrightarrow> length b \<le> max_content_length"
    and "write_messages plain_write plain_flush to_vec ms [] = (Inr (), concat chunks)"
    and "[] \<notin> set chunks"
  shows "reader_loop chunked_reader null from_slice (\<lambda>e c. Some (c @ [e])) [] (chunked_new chunks) =
    Some (map (\<lambda>m. InboundMessage (seen null m)) ms @ [InboundEof None])"
  using reader_loop_reads [where r = "chunked_new chunks" and c = "[]", OF assms(1-3)] chunked_new_ok [OF assms(4)] by simp

text \<open>A library for messages whose values are all \<open>null\<close>, which can write one of them.\<close>

definition ping :: "unit message" where
  "ping = Notification [112] ()"

definition ping_to_vec :: "unit raw_message \<Rightarrow> nat + bytes" where
  "ping_to_vec raw = (if raw = raw_of ping then Inr [123, 125] else Inl 0)"

definition ping_from_slice :: "bytes \<Rightarrow> nat + unit raw_message" where
  "ping_from_slice b = (if b = [123, 125] then Inr (json_seen () (raw_of ping)) else Inl 1)"

lemma ping_ok: "json_ok () ping_to_vec ping_from_slice"
  by (simp add: json_ok_def ping_to_vec_def ping_from_slice_def)

lemma ping_length: "ping_to_vec raw = Inr b \<Longrightarrow> b = [123, 125]"
  by (simp add: ping_to_vec_def split: if_splits)

theorem frames_roundtrip_witness:
  "reader_loop chunked_reader () ping_from_slice (\<lambda>e c. Some (c @ [e])) []
     (chunked_new (map (\<lambda>b. [b]) (frame_header 2 @ [123, 125] @ frame_header 2 @ [123, 125]))) =
   Some [InboundMessage ping, InboundMessage ping, InboundEof None]"
proof -
  have w: "write_messages plain_write plain_flush ping_to_vec [ping, ping] [] =
      (Inr (), concat (map (\<lambda>b. [b]) (frame_header 2 @ [123, 125] @ frame_header 2 @ [123, 125])))"
    by (simp add: write_message_plain ping_to_vec_def numeral_2_eq_2)
  have small: "length b \<le> max_content_length" if "m \<in> set [ping, ping]" "ping_to_vec (raw_of m) = Inr b" for m b
    using ping_length [OF that(2)] by (simp add: max_content_length_def)
  have ne: "[] \<notin> set (map (\<lambda>b. [b]) (frame_header 2 @ [123, 125] @ frame_header 2 @ [123, 125]))" by auto
  show ?thesis using frames_roundtrip [OF ping_ok small w ne] by (simp add: ping_def)
qed

text \<open>C36: A stream that ends inside a frame is never taken for a message nor for a clean end, wherever it is cut
  and however it was chunked; one that ends before the colon of the header is reported as a bad header.\<close>

theorem cut_frame_fails:
  fixes from_slice :: "bytes \<Rightarrow> 'j + 'v raw_message"
  assumes "json_ok null to_vec from_slice" "to_vec (raw_of m) = Inr body" "length body \<le> max_content_length"
    and "frame_header (length body) @ body = concat chunks @ missing" "missing \<noteq> []" "chunks \<noteq> []" "[] \<notin> set chunks"
  shows "\<exists>e r'. read_message chunked_reader null from_slice (chunked_new chunks) = Some (Inl e, r') \<and> e \<noteq> CodecEof \<and>
    (58 \<notin> set (concat chunks) \<longrightarrow> e = BadHeader (concat chunks))"
proof (rule chunked.cut_frame)
  show "chunked_sound (chunked_new chunks)" "chunked_rest (chunked_new chunks) = concat chunks"
    using chunked_new_ok [OF assms(7)] by simp_all
  show "concat chunks @ missing = frame_header (length body) @ body" using assms(4) by simp
  show "concat chunks \<noteq> []" using assms(6,7) by (cases chunks) auto
  show "body \<noteq> []" using assms(1,2) by (simp add: json_ok_def)
qed (use assms in auto)

theorem cut_frame_fails_witness:
  "\<exists>r'. read_message chunked_reader () ping_from_slice (chunked_new [[67, 111], [110]]) =
     Some (Inl (BadHeader [67, 111, 110]), r')"
proof -
  have t: "ping_to_vec (raw_of ping) = Inr [123, 125]" by (simp add: ping_to_vec_def)
  obtain missing where m: "frame_header (length [123, 125 :: nat]) @ [123, 125] = concat [[67, 111], [110]] @ missing" "missing \<noteq> []"
    by (simp add: frame_header_eq length_line_def content_length_name_eq)
  have l: "length [123, 125 :: nat] \<le> max_content_length" by (simp add: max_content_length_def)
  from cut_frame_fails [OF ping_ok t l m] show ?thesis by auto
qed

end
