(* ===== verification/Register.thy ===== *)
theory Register imports Text Machine begin

text \<open>
  The registers a yank fills and a paste reads, \<open>hume-ops/src/register.rs\<close>: pieces of text with the
  shape they paste in, how several values are placed at several selections, the named registers with
  the record of what the system clipboard was given, and the kill ring. A key event of a recorded
  macro is a type parameter. The kill ring's contract is the locale \<open>machine\<close>.
\<close>

section \<open>Names\<close>

definition KILL_RING_REGISTER :: uchar where "KILL_RING_REGISTER = 107"
definition BLACK_HOLE_REGISTER :: uchar where "BLACK_HOLE_REGISTER = 98"
definition SEARCH_REGISTER :: uchar where "SEARCH_REGISTER = 115"
definition MACRO_REGISTER :: uchar where "MACRO_REGISTER = 113"
definition CLIPBOARD_REGISTER :: uchar where "CLIPBOARD_REGISTER = 99"

definition MACRO_REGISTERS :: "uchar list" where
  "MACRO_REGISTERS = [MACRO_REGISTER, 48, 49, 50, 51, 52, 53, 54, 55, 56, 57]"

definition is_valid_macro_register :: "uchar \<Rightarrow> bool" where
  "is_valid_macro_register ch \<longleftrightarrow> ch \<in> set MACRO_REGISTERS"

definition is_valid_register_name :: "uchar \<Rightarrow> bool" where
  "is_valid_register_name ch \<longleftrightarrow> 48 \<le> ch \<and> ch \<le> 57 \<or> ch = KILL_RING_REGISTER \<or>
     ch = CLIPBOARD_REGISTER \<or> ch = BLACK_HOLE_REGISTER"

section \<open>Pieces and their placement\<close>

datatype shape = Charwise | Linewise

record piece =
  pc_text :: ustring
  pc_shape :: shape

definition piece_new :: "ustring \<Rightarrow> shape \<Rightarrow> piece" where
  "piece_new text sh = \<lparr>pc_text = normalize_line_endings text, pc_shape = sh\<rparr>"

definition piece_is_linewise :: "piece \<Rightarrow> bool" where
  "piece_is_linewise p \<longleftrightarrow> pc_shape p = Linewise"

definition piece_from :: "ustring \<Rightarrow> piece" where
  "piece_from text =
     (let piece = piece_new text Charwise
      in if ends_with_lf (pc_text piece) then piece\<lparr>pc_shape := Linewise\<rparr> else piece)"

datatype 'a placement = Each "'a list" | Joined 'a

definition placement_new :: "'a list \<Rightarrow> nat \<Rightarrow> ('a list \<Rightarrow> 'a) \<Rightarrow> 'a placement" where
  "placement_new values selections join =
     (if length values = selections then Each values
      else case values of [one] \<Rightarrow> Joined one | _ \<Rightarrow> Joined (join values))"

definition placement_get :: "'a placement \<Rightarrow> nat \<Rightarrow> 'a option" where
  "placement_get p i = (case p of Each values \<Rightarrow> nth_opt values i | Joined value \<Rightarrow> Some value)"

section \<open>Registers\<close>

datatype 'k register_content = TextContent "piece list" | MacroContent "'k list"

record 'k register =
  rg_content :: "'k register_content"

definition as_pieces :: "'k register \<Rightarrow> piece list option" where
  "as_pieces r = (case rg_content r of TextContent v \<Rightarrow> Some v | MacroContent _ \<Rightarrow> None)"

definition as_macro :: "'k register \<Rightarrow> 'k list option" where
  "as_macro r = (case rg_content r of MacroContent ks \<Rightarrow> Some ks | TextContent _ \<Rightarrow> None)"

record 'k register_set =
  rs_registers :: "(uchar \<times> 'k register) list"
  rs_clipboard_blob :: "ustring option"

definition registers_new :: "'k register_set" where
  "registers_new = \<lparr>rs_registers = [], rs_clipboard_blob = None\<rparr>"

definition register_read :: "'k register_set \<Rightarrow> uchar \<Rightarrow> 'k register option" where
  "register_read s name = (if name = BLACK_HOLE_REGISTER then None else map_of (rs_registers s) name)"

definition register_write :: "'k register_set \<Rightarrow> uchar \<Rightarrow> 'k register_content \<Rightarrow> 'k register_set" where
  "register_write s name content =
     (if name = BLACK_HOLE_REGISTER then s
      else s\<lparr>rs_registers := AList.update name \<lparr>rg_content = content\<rparr> (rs_registers s)\<rparr>)"

text \<open>\<open>write_text\<close> converts its values into pieces: pieces are themselves, strings go by \<open>piece_from\<close>.\<close>

definition write_text :: "('v \<Rightarrow> piece) \<Rightarrow> 'k register_set \<Rightarrow> uchar \<Rightarrow> 'v list \<Rightarrow> 'k register_set" where
  "write_text into s name values = register_write s name (TextContent (map into values))"

definition write_macro :: "'k register_set \<Rightarrow> uchar \<Rightarrow> 'k list \<Rightarrow> 'k register_set" where
  "write_macro s name ks = register_write s name (MacroContent ks)"

text \<open>The loop that flattens pieces: the piece before, the pieces left, the text so far.\<close>

fun blob_loop :: "piece option \<Rightarrow> piece list \<Rightarrow> ustring \<Rightarrow> ustring" where
  "blob_loop prior [] blob = blob"
| "blob_loop prior (v # vs) blob =
     (let blob = (case prior of Some p \<Rightarrow> if ends_with_lf (pc_text p) then blob else blob @ [NL] | None \<Rightarrow> blob)
      in blob_loop (Some v) vs (blob @ pc_text v))"

definition write_clipboard :: "'k register_set \<Rightarrow> piece list \<Rightarrow> ustring \<times> 'k register_set" where
  "write_clipboard s values =
     (let blob = blob_loop None values [];
          s = write_text (\<lambda>p. p) s CLIPBOARD_REGISTER values
      in (blob, s\<lparr>rs_clipboard_blob := Some blob\<rparr>))"

definition search_register :: "'k register_set \<Rightarrow> ustring option" where
  "search_register s = do {
     r \<leftarrow> register_read s SEARCH_REGISTER;
     v \<leftarrow> as_pieces r;
     p \<leftarrow> next_item v;
     Some (pc_text p) }"

definition set_search_register :: "'k register_set \<Rightarrow> ustring \<Rightarrow> 'k register_set" where
  "set_search_register s pattern = write_text piece_from s SEARCH_REGISTER [pattern]"

section \<open>The kill ring\<close>

record kill_ring =
  kr_entries :: "piece list list"
  kr_cycle :: "nat option"

definition KILL_RING_DEPTH :: nat where "KILL_RING_DEPTH = 10"

definition ring_new :: kill_ring where
  "ring_new = \<lparr>kr_entries = [], kr_cycle = None\<rparr>"

definition entry_is_whitespace :: "piece list \<Rightarrow> bool" where
  "entry_is_whitespace entry \<longleftrightarrow> (\<forall>p \<in> set entry. \<forall>c \<in> set (pc_text p). is_whitespace c)"

definition ring_push :: "('v \<Rightarrow> piece) \<Rightarrow> kill_ring \<Rightarrow> 'v list \<Rightarrow> kill_ring" where
  "ring_push into r values =
     (let values = map into values; pos = position_of (\<lambda>entry. entry = values) (kr_entries r)
      in if pos = Some 0 then r
         else let entries = (case pos of Some p \<Rightarrow> take p (kr_entries r) @ drop (p + 1) (kr_entries r)
                             | None \<Rightarrow> kr_entries r);
                  head_is_ws = (case next_item entries of Some h \<Rightarrow> entry_is_whitespace h | None \<Rightarrow> False)
              in if head_is_ws then r\<lparr>kr_entries := entries[0 := values]\<rparr>
                 else let entries = values # entries
                      in r\<lparr>kr_entries := (if KILL_RING_DEPTH < length entries then butlast entries else entries)\<rparr>)"

definition ring_head :: "kill_ring \<Rightarrow> piece list option" where
  "ring_head r = next_item (kr_entries r)"

definition ring_slot :: "kill_ring \<Rightarrow> nat \<Rightarrow> piece list option" where
  "ring_slot r n = nth_opt (kr_entries r) n"

definition seed_cycle_at :: "kill_ring \<Rightarrow> nat \<Rightarrow> kill_ring" where
  "seed_cycle_at r slot = r\<lparr>kr_cycle := Some slot\<rparr>"

definition seed_cycle_outside :: "kill_ring \<Rightarrow> piece list \<Rightarrow> kill_ring" where
  "seed_cycle_outside r pasted = r\<lparr>kr_cycle := (if ring_head r = Some pasted then Some 0 else None)\<rparr>"

definition cycle_older :: "kill_ring \<Rightarrow> piece list option \<times> kill_ring" where
  "cycle_older r =
     (let older = (case kr_cycle r of None \<Rightarrow> 0 | Some n \<Rightarrow> n + 1)
      in if length (kr_entries r) \<le> older then (None, r)
         else (nth_opt (kr_entries r) older, r\<lparr>kr_cycle := Some older\<rparr>))"

definition cycle_newer :: "kill_ring \<Rightarrow> piece list option \<times> kill_ring" where
  "cycle_newer r =
     (case kr_cycle r of
        None \<Rightarrow> (None, r)
      | Some n \<Rightarrow> if n = 0 then (None, r)
          else (nth_opt (kr_entries r) (n - 1), r\<lparr>kr_cycle := Some (n - 1)\<rparr>))"

text \<open>What the editor does to its ring.\<close>

datatype ring_event = Push "piece list" | SeedAt nat | SeedOutside "piece list" | Older | Newer

fun ring_step :: "ring_event \<Rightarrow> kill_ring \<Rightarrow> kill_ring option" where
  "ring_step (Push values) r = Some (ring_push (\<lambda>p. p) r values)"
| "ring_step (SeedAt n) r = Some (seed_cycle_at r n)"
| "ring_step (SeedOutside pasted) r = Some (seed_cycle_outside r pasted)"
| "ring_step Older r = Some (snd (cycle_older r))"
| "ring_step Newer r = Some (snd (cycle_newer r))"


section \<open>The ring is a list of the latest pushes\<close>

definition ring_ok :: "kill_ring \<Rightarrow> bool" where
  "ring_ok r \<longleftrightarrow> distinct (kr_entries r) \<and> length (kr_entries r) \<le> KILL_RING_DEPTH \<and>
     (\<forall>e \<in> set (tl (kr_entries r)). \<not> entry_is_whitespace e)"

text \<open>The entries a push leaves, without positions.\<close>

definition pushed :: "piece list \<Rightarrow> piece list list \<Rightarrow> piece list list" where
  "pushed v es =
     (if es \<noteq> [] \<and> hd es = v then es
      else let es = removeAll v es
           in if es \<noteq> [] \<and> entry_is_whitespace (hd es) then v # tl es else take KILL_RING_DEPTH (v # es))"

lemma depth_Cons: "take KILL_RING_DEPTH (v # es) = v # take 9 es"
  by (simp add: KILL_RING_DEPTH_def)

lemma cut_at_position: "position_of (\<lambda>e. e = v) xs = Some p \<Longrightarrow> take p xs @ drop (p + 1) xs = remove1 v xs"
  by (induction xs arbitrary: p) (auto split: if_splits)

lemma position_of_hd: "position_of P xs = Some 0 \<longleftrightarrow> xs \<noteq> [] \<and> P (hd xs)"
  by (cases xs) auto

lemma ring_push_eq:
  assumes "ring_ok r"
  shows "ring_push f r values = r\<lparr>kr_entries := pushed (map f values) (kr_entries r)\<rparr>"
proof (cases "kr_entries r \<noteq> [] \<and> hd (kr_entries r) = map f values")
  case True
  then show ?thesis by (simp add: ring_push_def pushed_def position_of_hd)
next
  case False
  let ?v = "map f values" and ?es = "kr_entries r"
  define es where "es = (case position_of (\<lambda>e. e = ?v) ?es of Some p \<Rightarrow> take p ?es @ drop (p + 1) ?es | None \<Rightarrow> ?es)"
  have d: "distinct ?es" "length ?es \<le> KILL_RING_DEPTH" using assms by (simp_all add: ring_ok_def)
  have es: "es = removeAll ?v ?es"
  proof (cases "position_of (\<lambda>e. e = ?v) ?es")
    case None
    then have "?v \<notin> set ?es" by (auto simp: position_of_None)
    with None show ?thesis unfolding es_def by (simp add: removeAll_id)
  next
    case (Some p)
    then show ?thesis using cut_at_position [OF Some] d(1) unfolding es_def by (simp add: distinct_remove1_removeAll)
  qed
  have len: "length es \<le> KILL_RING_DEPTH" unfolding es by (rule le_trans [OF length_removeAll_less_eq d(2)])
  have "(if KILL_RING_DEPTH < length (?v # es) then butlast (?v # es) else ?v # es) = take KILL_RING_DEPTH (?v # es)"
    using len by (cases "length es = KILL_RING_DEPTH") (auto simp: butlast_conv_take)
  moreover have hd: "(case next_item es of Some h \<Rightarrow> entry_is_whitespace h | None \<Rightarrow> False) \<longleftrightarrow> es \<noteq> [] \<and> entry_is_whitespace (hd es)"
    by (simp add: next_item_eq)
  moreover have "es[0 := ?v] = ?v # tl es" if "es \<noteq> []" using that by (cases es) auto
  ultimately show ?thesis
    using False
    unfolding ring_push_def pushed_def Let_def position_of_hd es_def [symmetric] es [symmetric] hd if_not_P [OF False] by simp
qed

lemma pushed_props:
  fixes es :: "piece list list"
  assumes "distinct es" "length es \<le> KILL_RING_DEPTH" "\<forall>e \<in> set (tl es). \<not> entry_is_whitespace e"
  shows "distinct (pushed v es)" "length (pushed v es) \<le> KILL_RING_DEPTH"
    "\<forall>e \<in> set (tl (pushed v es)). \<not> entry_is_whitespace e" "pushed v es \<noteq> [] \<and> hd (pushed v es) = v"
    "set (pushed v es) \<subseteq> insert v (set es)"
proof -
  let ?rs = "removeAll v es"
  have d: "distinct ?rs" "length ?rs \<le> KILL_RING_DEPTH" "v \<notin> set ?rs"
    using assms(1) le_trans [OF length_removeAll_less_eq assms(2)] by (simp_all add: distinct_removeAll)
  have dt: "distinct (take n ?rs)" "v \<notin> set (take n ?rs)" "set (take n ?rs) \<subseteq> set ?rs" for n
    using d by (auto dest: in_set_takeD)
  have tls: "set (tl zs) \<subseteq> set zs" for zs :: "piece list list" by (cases zs) auto
  have tl: "set (tl ?rs) \<subseteq> set (tl es)"
    using tls [of "removeAll v (tl es)"] by (cases es) auto
  have rest: "\<not> entry_is_whitespace e" if "e \<in> set ?rs" "?rs = [] \<or> \<not> entry_is_whitespace (hd ?rs)" for e
    using that tl assms(3) by (cases ?rs) auto
  show "distinct (pushed v es)"
    using assms(1) d(1) d(3) dt [of 9] by (cases ?rs) (auto simp: pushed_def Let_def depth_Cons)
  show "length (pushed v es) \<le> KILL_RING_DEPTH" using assms(2) d(2) by (cases ?rs) (auto simp: pushed_def Let_def depth_Cons KILL_RING_DEPTH_def)
  show "\<forall>e \<in> set (tl (pushed v es)). \<not> entry_is_whitespace e"
    using assms(3) tl rest dt(3) [of 9] by (cases ?rs) (auto simp: pushed_def Let_def depth_Cons)
  show "pushed v es \<noteq> [] \<and> hd (pushed v es) = v" by (auto simp: pushed_def Let_def depth_Cons)
  show "set (pushed v es) \<subseteq> insert v (set es)"
    using dt(3) [of 9] tls [of ?rs] set_removeAll [of v es] by (cases ?rs) (auto simp: pushed_def Let_def depth_Cons dest: list.set_sel(2) in_set_takeD)
qed

text \<open>Between pushes of text that is not blank the ring forgets only what is older than its depth.\<close>

lemma remdups_snoc: "remdups (xs @ [x]) = removeAll x (remdups xs) @ [x]"
  by (induction xs) auto

lemma take_removeAll:
  assumes "distinct xs"
  shows "take n (x # removeAll x (take n xs)) = take n (x # removeAll x xs)"
  using assms
proof (induction xs arbitrary: n)
  case (Cons y ys)
  show ?case
  proof (cases n)
    case (Suc m)
    have sub: "set (take m ys) \<subseteq> set ys" by (rule set_take_subset)
    show ?thesis
    proof (cases "x = y")
      case True
      have "x \<notin> set ys" using True Cons.prems by simp
      moreover have "x \<notin> set (take m ys)" using calculation sub by blast
      ultimately show ?thesis using True Suc by (simp add: removeAll_id)
    next
      case False
      then show ?thesis using Cons.IH [of m] Cons.prems Suc by (cases m) simp_all
    qed
  qed simp
qed simp

lemma pushed_recent:
  assumes "\<not> entry_is_whitespace v" "\<forall>e \<in> set ps. \<not> entry_is_whitespace e"
    and "es = take KILL_RING_DEPTH (rev (remdups ps))"
  shows "pushed v es = take KILL_RING_DEPTH (rev (remdups (ps @ [v])))"
proof -
  let ?L = "rev (remdups ps)"
  have L: "rev (remdups (ps @ [v])) = v # removeAll v ?L"
    by (simp add: remdups_snoc rev_filter removeAll_filter_not_eq)
  have nw: "\<not> entry_is_whitespace e" if "e \<in> set (removeAll v es)" for e
    using that assms(2,3) by (auto dest: in_set_takeD)
  have step: "take KILL_RING_DEPTH (v # removeAll v es) = take KILL_RING_DEPTH (rev (remdups (ps @ [v])))"
    unfolding L assms(3) by (rule take_removeAll) simp
  show ?thesis
  proof (cases "es \<noteq> [] \<and> hd es = v")
    case True
    then obtain l where l: "?L = v # l" unfolding assms(3) by (cases ?L) (auto simp: KILL_RING_DEPTH_def)
    then have "v \<notin> set l" using distinct_rev distinct_remdups by (metis distinct.simps(2))
    then have "removeAll v ?L = l" using l by (simp add: removeAll_id)
    then show ?thesis using True L l unfolding assms(3) by (simp add: pushed_def)
  next
    case False
    have "\<not> (removeAll v es \<noteq> [] \<and> entry_is_whitespace (hd (removeAll v es)))" using nw hd_in_set by blast
    then show ?thesis using False step unfolding pushed_def Let_def by (simp only: if_False)
  qed
qed

lemma ring_push_ok:
  assumes "ring_ok r"
  shows "ring_ok (ring_push f r values)"
proof -
  have ok: "distinct (kr_entries r)" "length (kr_entries r) \<le> KILL_RING_DEPTH"
    "\<forall>e \<in> set (tl (kr_entries r)). \<not> entry_is_whitespace e" using assms by (simp_all add: ring_ok_def)
  show ?thesis
    unfolding ring_push_eq [OF assms] ring_ok_def using pushed_props(1-3) [OF ok, of "map f values"] by simp
qed

text \<open>Seeding and cycling move only the cycle position.\<close>

lemma cycling_entries:
  "kr_entries (seed_cycle_at r n) = kr_entries r" "kr_entries (seed_cycle_outside r p) = kr_entries r"
  "kr_entries (snd (cycle_older r)) = kr_entries r" "kr_entries (snd (cycle_newer r)) = kr_entries r"
  by (auto simp: seed_cycle_at_def seed_cycle_outside_def cycle_older_def cycle_newer_def Let_def split: option.splits)

interpretation ring: machine "\<lambda>r. r = ring_new" "\<lambda>e r. True" ring_step ring_ok
proof unfold_locales
  show "ring_ok r" if "r = ring_new" for r using that by (simp add: ring_ok_def ring_new_def)
  show "\<exists>r'. ring_step e r = Some r' \<and> ring_ok r'" if "ring_ok r" for r e
    using that ring_push_ok [OF that] by (cases e) (auto simp: ring_ok_def cycling_entries)
qed

fun pushes :: "ring_event list \<Rightarrow> piece list list" where
  "pushes [] = []"
| "pushes (Push v # es) = v # pushes es"
| "pushes (_ # es) = pushes es"

text \<open>What a run leaves, from the pushes \<open>qs\<close> made before it.\<close>

lemma run_recent:
  assumes "ring_ok r" "run_events ring_step es r = Some r'"
    and "set (kr_entries r) \<subseteq> set qs" "qs \<noteq> [] \<Longrightarrow> ring_head r = Some (last qs)"
    and "(\<forall>q \<in> set qs. \<not> entry_is_whitespace q) \<longrightarrow> kr_entries r = take KILL_RING_DEPTH (rev (remdups qs))"
  shows "set (kr_entries r') \<subseteq> set (qs @ pushes es)"
    "qs @ pushes es \<noteq> [] \<Longrightarrow> ring_head r' = Some (last (qs @ pushes es))"
    "(\<forall>q \<in> set (qs @ pushes es). \<not> entry_is_whitespace q) \<longrightarrow>
       kr_entries r' = take KILL_RING_DEPTH (rev (remdups (qs @ pushes es)))"
proof -
  have "set (kr_entries r') \<subseteq> set (qs @ pushes es) \<and>
      (qs @ pushes es \<noteq> [] \<longrightarrow> ring_head r' = Some (last (qs @ pushes es))) \<and>
      ((\<forall>q \<in> set (qs @ pushes es). \<not> entry_is_whitespace q) \<longrightarrow>
         kr_entries r' = take KILL_RING_DEPTH (rev (remdups (qs @ pushes es))))"
    using assms
  proof (induction es arbitrary: r qs)
    case (Cons e es)
    obtain s where s: "ring_step e r = Some s" "run_events ring_step es s = Some r'"
      using Cons.prems(2) by (auto split: option.splits)
    show ?case
    proof (cases "\<exists>v. e = Push v")
      case True
      then obtain v where v: "e = Push v" by blast
      have sv: "kr_entries s = pushed v (kr_entries r)"
        using s(1) v ring_push_eq [OF Cons.prems(1), of "\<lambda>p. p" v] by auto
      have ok: "distinct (kr_entries r)" "length (kr_entries r) \<le> KILL_RING_DEPTH"
        "\<forall>e \<in> set (tl (kr_entries r)). \<not> entry_is_whitespace e" using Cons.prems(1) by (simp_all add: ring_ok_def)
      note p = pushed_props [OF ok, of v]
      have sok: "ring_ok s" using ring_push_ok [OF Cons.prems(1), of "\<lambda>p. p" v] s(1) v by simp
      have "set (kr_entries r') \<subseteq> set ((qs @ [v]) @ pushes es) \<and>
          ((qs @ [v]) @ pushes es \<noteq> [] \<longrightarrow> ring_head r' = Some (last ((qs @ [v]) @ pushes es))) \<and>
          ((\<forall>q \<in> set ((qs @ [v]) @ pushes es). \<not> entry_is_whitespace q) \<longrightarrow>
             kr_entries r' = take KILL_RING_DEPTH (rev (remdups ((qs @ [v]) @ pushes es))))"
      proof (rule Cons.IH [OF sok s(2)])
        show "set (kr_entries s) \<subseteq> set (qs @ [v])" using p(5) Cons.prems(3) unfolding sv by auto
        show "ring_head s = Some (last (qs @ [v]))" using p(4) by (simp add: ring_head_def next_item_eq sv)
        show "(\<forall>q \<in> set (qs @ [v]). \<not> entry_is_whitespace q) \<longrightarrow>
            kr_entries s = take KILL_RING_DEPTH (rev (remdups (qs @ [v])))"
          using pushed_recent [of v qs "kr_entries r"] Cons.prems(5) by (auto simp: sv)
      qed
      then show ?thesis using v by simp
    next
      case False
      then have "kr_entries s = kr_entries r" "pushes (e # es) = pushes es"
        using s(1) by (cases e; auto simp: cycling_entries)+
      moreover from this(1) have "ring_ok s" "ring_head s = ring_head r"
        using Cons.prems(1) by (simp_all add: ring_ok_def ring_head_def)
      ultimately show ?thesis using Cons.IH [of s qs] s(2) Cons.prems by simp
    qed
  qed simp
  then show "set (kr_entries r') \<subseteq> set (qs @ pushes es)"
    "qs @ pushes es \<noteq> [] \<Longrightarrow> ring_head r' = Some (last (qs @ pushes es))"
    "(\<forall>q \<in> set (qs @ pushes es). \<not> entry_is_whitespace q) \<longrightarrow>
       kr_entries r' = take KILL_RING_DEPTH (rev (remdups (qs @ pushes es)))" by auto
qed

section \<open>Properties\<close>

text \<open>C37: However pushes, pastes and cycling are interleaved on a fresh kill ring, no step fails and the
  ring holds at most ten entries, no two equal and none that was not pushed, the latest push at its
  head and no blank entry behind it. When nothing blank was pushed, the ring is the list of the ten
  latest different pushes, newest first.\<close>

theorem ring_keeps_recent:
  "\<exists>r. run_events ring_step es ring_new = Some r \<and> distinct (kr_entries r) \<and>
     length (kr_entries r) \<le> KILL_RING_DEPTH \<and> set (kr_entries r) \<subseteq> set (pushes es) \<and>
     (pushes es = [] \<or> ring_head r = Some (last (pushes es))) \<and>
     (\<forall>e. e \<in> set (tl (kr_entries r)) \<longrightarrow> \<not> entry_is_whitespace e) \<and>
     ((\<forall>q \<in> set (pushes es). \<not> entry_is_whitespace q) \<longrightarrow>
        kr_entries r = take KILL_RING_DEPTH (rev (remdups (pushes es))))"
proof -
  have new: "ring_ok ring_new" by (rule ring.start_inv) simp
  obtain r where r: "run_events ring_step es ring_new = Some r" "ring_ok r" by (rule ring.run_ok [OF new]) simp
  have start: "set (kr_entries ring_new) \<subseteq> set []" "[] \<noteq> [] \<Longrightarrow> ring_head ring_new = Some (last [])"
    "(\<forall>q \<in> set []. \<not> entry_is_whitespace q) \<longrightarrow> kr_entries ring_new = take KILL_RING_DEPTH (rev (remdups []))"
    by (simp_all add: ring_new_def)
  from run_recent [OF new r(1) start] r show ?thesis unfolding ring_ok_def by (intro exI [of _ r]) auto
qed

text \<open>Witness: a word, a blank, another word over the blank, and the first word again.\<close>

definition demo_piece :: "uchar \<Rightarrow> piece list" where
  "demo_piece c = [\<lparr>pc_text = [c], pc_shape = Charwise\<rparr>]"

theorem ring_keeps_recent_witness:
  "\<exists>r. run_events ring_step (map Push [demo_piece 97, demo_piece 32, demo_piece 98, demo_piece 97]) ring_new = Some r \<and>
     ring_head r = Some (demo_piece 97) \<and> length (kr_entries r) \<le> 10 \<and> kr_entries r = [demo_piece 97, demo_piece 98]"
proof -
  let ?es = "map Push [demo_piece 97, demo_piece 32, demo_piece 98, demo_piece 97]"
  let ?r = "\<lparr>kr_entries = [demo_piece 97, demo_piece 98], kr_cycle = None\<rparr>"
  have run: "run_events ring_step ?es ring_new = Some ?r"
    by (simp add: ring_new_def ring_push_def demo_piece_def next_item_eq entry_is_whitespace_def is_whitespace_def
        KILL_RING_DEPTH_def)
  obtain r where r: "run_events ring_step ?es ring_new = Some r" "length (kr_entries r) \<le> KILL_RING_DEPTH"
    "pushes ?es = [] \<or> ring_head r = Some (last (pushes ?es))" using ring_keeps_recent [of ?es] by (elim exE conjE)
  have eq: "r = ?r" using r(1) unfolding run by (rule option.inject [THEN iffD1, symmetric])
  have "length (kr_entries ?r) \<le> 10" using r(2) unfolding eq KILL_RING_DEPTH_def .
  moreover have "ring_head ?r = Some (demo_piece 97)" using r(3) unfolding eq by simp
  ultimately show ?thesis using run by (intro exI [of _ ?r] conjI) simp_all
qed

end
