(* ===== verification/Commands.thy ===== *)
theory Commands imports EditBuilder View Register begin

text \<open>
  Editing commands of \<open>hume-ops/src\<close>: deleting and yanking selections (\<open>edit/delete.rs\<close>), inserting and
  line breaks (\<open>edit/insert.rs\<close>), pasting (\<open>edit/paste.rs\<close>), replacing (\<open>edit/replace.rs\<close>), surrounding
  (\<open>surround.rs\<close>), paired insertion (\<open>auto_pairs.rs\<close>) and the commands on the set of selections
  (\<open>selection_cmd/mod.rs\<close>). A command is a step for one selection, run over all of them by
  \<open>apply_edit\<close>; what a step promises is the locale \<open>edit_command\<close>, from which it follows once that the
  whole edit never panics and what text it leaves.
\<close>

section \<open>One edit, selection by selection\<close>

text \<open>The closure of \<open>apply_edit\<close> may keep state of its own between selections (what was yanked so far, the
  breaks not yet used): the first argument of a step.\<close>

type_synonym 'a command_step = "'a \<Rightarrow> edit_builder \<Rightarrow> selection_view \<Rightarrow> ('a \<times> landing \<times> edit_builder) option"

fun record_each ::
  "'a command_step \<Rightarrow> 'a \<Rightarrow> edit_builder \<Rightarrow> selection_view list \<Rightarrow> ('a \<times> landing list \<times> edit_builder) option"
where
  "record_each f a b [] = Some (a, [], b)"
| "record_each f a b (v # vs) = do {
     (a, l, b) \<leftarrow> f a b v;
     (a, ls, b) \<leftarrow> record_each f a b vs;
     Some (a, l # ls, b) }"

definition apply_edit ::
  "segmentation \<Rightarrow> store \<Rightarrow> edit_state \<Rightarrow> 'a command_step \<Rightarrow> 'a \<Rightarrow> (store \<times> edited \<times> 'a) option"
where
  "apply_edit B st state f a = do {
     let p = primary (es_sels state);
     ensure (p < length (sels (es_sels state)));
     (a, ls, b) \<leftarrow> record_each f a (eb_new (es_text state)) (state_views state);
     results \<leftarrow> landings_new ls p;
     (st, e) \<leftarrow> eb_finish B st b results;
     Some (st, e, a) }"

text \<open>A step that keeps nothing, and an edit of such steps.\<close>

definition plain :: "(edit_builder \<Rightarrow> selection_view \<Rightarrow> (landing \<times> edit_builder) option) \<Rightarrow> unit command_step" where
  "plain f a b v = do { (l, b) \<leftarrow> f b v; Some (a, l, b) }"

definition apply_plain ::
  "segmentation \<Rightarrow> store \<Rightarrow> edit_state \<Rightarrow>
   (edit_builder \<Rightarrow> selection_view \<Rightarrow> (landing \<times> edit_builder) option) \<Rightarrow> (store \<times> edited) option"
where
  "apply_plain B st state f = do { (st, e, _) \<leftarrow> apply_edit B st state (plain f) (); Some (st, e) }"

section \<open>Deleting and yanking\<close>

record removal =
  rl_edited :: edited
  rl_yanked :: "piece list"

record removed =
  rm_text :: "ustring option"
  rm_linewise :: bool
  rm_cursor :: landing

definition removal_of ::
  "segmentation \<Rightarrow> buffer_text \<Rightarrow> selection \<Rightarrow> cluster_range \<Rightarrow> bool \<Rightarrow> ustring option option"
where
  "removal_of B text sel cov linewise = do {
     let start = cr_start cov;
     let end = min (cr_end cov) (last_char text);
     if linewise then do {
       (first, _) \<leftarrow> view_lines text sel;
       if start \<noteq> end \<or> first \<noteq> 0 then map_option Some (view_slice B text sel) else Some None }
     else if start \<noteq> end then map_option Some (slice_opt (rope text) start end)
     else Some None }"

definition remove_sel :: "segmentation \<Rightarrow> edit_builder \<Rightarrow> selection_view \<Rightarrow> (removed \<times> edit_builder) option" where
  "remove_sel B b v = do {
     cov \<leftarrow> covered B (sv_text v) (sv_sel v);
     linewise \<leftarrow> is_linewise (sv_text v) (sv_sel v);
     (at, b) \<leftarrow> eb_delete B b cov;
     let cursor_at = (if linewise then LineStartOf at else CursorAt at);
     text \<leftarrow> removal_of B (sv_text v) (sv_sel v) cov linewise;
     Some (\<lparr>rm_text = text, rm_linewise = linewise, rm_cursor = cursor_at\<rparr>, b) }"

definition remove_content :: "segmentation \<Rightarrow> edit_builder \<Rightarrow> selection_view \<Rightarrow> (removed \<times> edit_builder) option" where
  "remove_content B b v = do {
     content \<leftarrow> view_content B (sv_text v) (sv_sel v);
     case content of
       Some content \<Rightarrow> do {
         text \<leftarrow> slice_opt (rope (eb_text b)) (cr_start content) (cr_end content);
         (at, b) \<leftarrow> eb_delete B b content;
         Some (\<lparr>rm_text = Some text, rm_linewise = False, rm_cursor = CursorAt at\<rparr>, b) }
     | None \<Rightarrow> Some (\<lparr>rm_text = None, rm_linewise = False,
                    rm_cursor = landing_kept_with (sv_sel v) After\<rparr>, b) }"

definition text_piece :: "ustring option \<Rightarrow> shape \<Rightarrow> piece" where
  "text_piece t sh = piece_new (case t of Some s \<Rightarrow> s | None \<Rightarrow> []) sh"

definition removed_piece :: "ustring option \<Rightarrow> bool \<Rightarrow> piece" where
  "removed_piece t linewise = text_piece t (if t \<noteq> None \<and> linewise then Linewise else Charwise)"

definition remove_step ::
  "(edit_builder \<Rightarrow> selection_view \<Rightarrow> (removed \<times> edit_builder) option) \<Rightarrow>
   (ustring option \<Rightarrow> bool \<Rightarrow> 'a \<Rightarrow> 'a) \<Rightarrow> 'a command_step"
where
  "remove_step remove on_removed a b v = do {
     (r, b) \<leftarrow> remove b v;
     Some (on_removed (rm_text r) (rm_linewise r) a, rm_cursor r, b) }"

definition remove_each ::
  "segmentation \<Rightarrow> store \<Rightarrow> edit_state \<Rightarrow> (edit_builder \<Rightarrow> selection_view \<Rightarrow> (removed \<times> edit_builder) option) \<Rightarrow>
   (ustring option \<Rightarrow> bool \<Rightarrow> 'a \<Rightarrow> 'a) \<Rightarrow> 'a \<Rightarrow> (store \<times> edited \<times> 'a) option"
where
  "remove_each B st state remove on_removed a = apply_edit B st state (remove_step remove on_removed) a"

definition delete_selection :: "segmentation \<Rightarrow> store \<Rightarrow> edit_state \<Rightarrow> (store \<times> removal) option" where
  "delete_selection B st state = do {
     (st, e, yanked) \<leftarrow> remove_each B st state (remove_sel B) (\<lambda>t l ys. ys @ [removed_piece t l]) [];
     Some (st, \<lparr>rl_edited = e, rl_yanked = yanked\<rparr>) }"

definition delete_char_forward :: "segmentation \<Rightarrow> store \<Rightarrow> edit_state \<Rightarrow> (store \<times> edited) option" where
  "delete_char_forward B st state = do {
     (st, e, _) \<leftarrow> remove_each B st state (remove_sel B) (\<lambda>_ _ u. u) ();
     Some (st, e) }"

definition delete_selection_content :: "segmentation \<Rightarrow> store \<Rightarrow> edit_state \<Rightarrow> (store \<times> removal) option" where
  "delete_selection_content B st state = do {
     (st, e, yanked) \<leftarrow> remove_each B st state (remove_content B) (\<lambda>t _ ys. ys @ [text_piece t Charwise]) [];
     Some (st, \<lparr>rl_edited = e, rl_yanked = yanked\<rparr>) }"

definition back_step ::
  "segmentation \<Rightarrow> (selection_view \<Rightarrow> cluster_range option option) \<Rightarrow>
   edit_builder \<Rightarrow> selection_view \<Rightarrow> (landing \<times> edit_builder) option"
where
  "back_step B rng_of b v =
     (if \<not> is_cursor (sv_sel v) then do { (r, b) \<leftarrow> remove_sel B b v; Some (rm_cursor r, b) }
      else do {
        r \<leftarrow> rng_of v;
        case r of
          Some r \<Rightarrow> do { (at, b) \<leftarrow> eb_delete B b r; Some (CursorAt at, b) }
        | None \<Rightarrow> Some (landing_kept_with (sv_sel v) After, b) })"

definition delete_back_to ::
  "segmentation \<Rightarrow> store \<Rightarrow> edit_state \<Rightarrow> (selection_view \<Rightarrow> cluster_range option option) \<Rightarrow> (store \<times> edited) option"
where
  "delete_back_to B st state rng_of = apply_plain B st state (back_step B rng_of)"

text \<open>The cluster before the head, as the first of \<open>clusters_before\<close>.\<close>

definition cluster_before :: "segmentation \<Rightarrow> selection_view \<Rightarrow> cluster_range option option" where
  "cluster_before B v = do {
     p \<leftarrow> prev_cluster B (rope (sv_text v)) (head (sv_sel v));
     Some (case p of None \<Rightarrow> None | Some p \<Rightarrow> Some \<lparr>cr_start = p, cr_last = p, cr_end = head (sv_sel v)\<rparr>) }"

definition delete_char_backward :: "segmentation \<Rightarrow> store \<Rightarrow> edit_state \<Rightarrow> (store \<times> edited) option" where
  "delete_char_backward B st state = delete_back_to B st state (cluster_before B)"

definition yank_selections :: "segmentation \<Rightarrow> edit_state \<Rightarrow> piece list option" where
  "yank_selections B state = those (map (\<lambda>v. do {
     cov \<leftarrow> covered B (sv_text v) (sv_sel v);
     linewise \<leftarrow> is_linewise (sv_text v) (sv_sel v);
     t \<leftarrow> removal_of B (sv_text v) (sv_sel v) cov linewise;
     Some (removed_piece t linewise) }) (state_views state))"

section \<open>Inserting\<close>

definition insert_step ::
  "segmentation \<Rightarrow> (nat \<Rightarrow> ustring option) \<Rightarrow> edit_builder \<Rightarrow> selection_view \<Rightarrow> (landing \<times> edit_builder) option"
where
  "insert_step B text_of b v = do {
     inserted \<leftarrow> text_of (sv_index v);
     (mark, b) \<leftarrow> (if is_cursor (sv_sel v) then eb_insert B b (sel_start (sv_sel v)) inserted
       else do { cov \<leftarrow> covered B (sv_text v) (sv_sel v); eb_replace B b cov inserted });
     Some (CursorAt (mk_end mark), b) }"

definition insert_with ::
  "segmentation \<Rightarrow> store \<Rightarrow> edit_state \<Rightarrow> (nat \<Rightarrow> ustring option) \<Rightarrow> (store \<times> edited) option"
where
  "insert_with B st state text_of = apply_plain B st state (insert_step B text_of)"

definition insert_str :: "segmentation \<Rightarrow> store \<Rightarrow> edit_state \<Rightarrow> ustring \<Rightarrow> (store \<times> edited) option" where
  "insert_str B st state inserted = insert_with B st state (\<lambda>_. Some inserted)"

definition insert_char :: "segmentation \<Rightarrow> store \<Rightarrow> edit_state \<Rightarrow> uchar \<Rightarrow> (store \<times> edited) option" where
  "insert_char B st state ch = insert_str B st state [ch]"

definition insert_values :: "segmentation \<Rightarrow> store \<Rightarrow> edit_state \<Rightarrow> ustring list \<Rightarrow> (store \<times> edited) option" where
  "insert_values B st state values =
     (if values = [] then Some (st, edited_unchanged state)
      else let p = placement_new values (length (state_views state)) concat
           in insert_with B st state (placement_get p))"

text \<open>The line breaks a plan asks for; how they are indented is decided when it is made.\<close>

record planned_break =
  pb_removed :: "cluster_range option"
  pb_at :: nat
  pb_lead :: ustring
  pb_tail :: ustring

record line_break_plan =
  lp_version :: text_version
  lp_breaks :: "planned_break list"

definition break_step :: "segmentation \<Rightarrow> planned_break list command_step" where
  "break_step B breaks b v = do {
     planned \<leftarrow> next_item breaks;
     b \<leftarrow> (case pb_removed planned of
            Some r \<Rightarrow> do { (_, b) \<leftarrow> eb_delete B b r; Some b }
          | None \<Rightarrow> Some b);
     (mark, b) \<leftarrow> eb_insert B b (pb_at planned) (pb_lead planned);
     b \<leftarrow> (if pb_tail planned \<noteq> [] then do { (_, b) \<leftarrow> eb_insert B b (pb_at planned) (pb_tail planned); Some b }
          else Some b);
     Some (tl breaks, CursorAt (mk_end mark), b) }"

definition apply_line_break_plan ::
  "segmentation \<Rightarrow> store \<Rightarrow> edit_state \<Rightarrow> line_break_plan \<Rightarrow> (store \<times> edited) option"
where
  "apply_line_break_plan B st state plan = do {
     ensure (version (es_text state) = lp_version plan);
     ensure (length (state_views state) = length (lp_breaks plan));
     (st, e, _) \<leftarrow> apply_edit B st state (break_step B) (lp_breaks plan);
     Some (st, e) }"

section \<open>Pasting\<close>

text \<open>For each selection, whether the text right before it is a linewise paste over the selection that
  touches it.\<close>

fun follows_pasted ::
  "segmentation \<Rightarrow> piece placement \<Rightarrow> selection_view option \<Rightarrow> selection_view list \<Rightarrow> bool list option"
where
  "follows_pasted B placement prior [] = Some []"
| "follows_pasted B placement prior (v # vs) = do {
     follows \<leftarrow> (case prior of
         None \<Rightarrow> Some False
       | Some p \<Rightarrow>
           if is_cursor (sv_sel p) then Some False
           else do {
             i \<leftarrow> checked_sub (sv_index v) 1;
             piece \<leftarrow> placement_get placement i;
             if \<not> piece_is_linewise piece then Some False
             else do { cov \<leftarrow> covered B (sv_text p) (sv_sel p); Some (cr_end cov = sel_start (sv_sel v)) } });
     rest \<leftarrow> follows_pasted B placement (Some v) vs;
     Some (follows # rest) }"

definition paste_step ::
  "segmentation \<Rightarrow> piece placement \<Rightarrow> bool list \<Rightarrow> bool \<Rightarrow> edit_builder \<Rightarrow> selection_view \<Rightarrow>
   (landing \<times> edit_builder) option"
where
  "paste_step B placement follows at_front b v = do {
     piece \<leftarrow> placement_get placement (sv_index v);
     let content = pc_text piece;
     let text = eb_text b;
     let sel = sv_sel v;
     if is_cursor sel then
       (if piece_is_linewise piece then do {
          line \<leftarrow> head_line (sv_text v) sel;
          insert_at \<leftarrow> (if at_front then line_start (rope text) line
                       else do { r \<leftarrow> line_range (rope text) line; Some (cr_end r) });
          (mark, b) \<leftarrow> eb_insert B b insert_at content;
          Some (Covering mark Forward, b) }
        else if content = [] then Some (landing_kept_with sel After, b)
        else do {
          insert_at \<leftarrow> (if at_front then Some (sel_start sel) else append_point B (sv_text v) sel);
          (mark, b) \<leftarrow> eb_insert B b insert_at content;
          Some (Covering mark Forward, b) })
     else if piece_is_linewise piece then do {
       cov \<leftarrow> covered B (sv_text v) sel;
       (_, last_line) \<leftarrow> view_lines (sv_text v) sel;
       break_at \<leftarrow> line_break (rope text) last_line;
       rng \<leftarrow> (if cr_end cov = break_at
               then do { r \<leftarrow> range_through B (rope text) (cr_start cov) break_at; r }
               else Some cov);
       starts \<leftarrow> starts_line (sv_text v) sel;
       b \<leftarrow> (if starts then Some b
            else do {
              follows \<leftarrow> nth_opt follows (sv_index v);
              if follows then Some b
              else do { (_, b) \<leftarrow> eb_insert B b (sel_start sel) [NL]; Some b } });
       (mark, b) \<leftarrow> eb_replace B b rng content;
       Some (Covering mark Forward, b) }
     else do {
       cov \<leftarrow> covered B (sv_text v) sel;
       (mark, b) \<leftarrow> eb_replace B b cov content;
       Some (Covering mark Forward, b) } }"

definition join_pieces :: "piece list \<Rightarrow> piece" where
  "join_pieces values =
     piece_new (concat (map pc_text values)) (if values = [] then Charwise else pc_shape (last values))"

definition paste_impl ::
  "segmentation \<Rightarrow> store \<Rightarrow> edit_state \<Rightarrow> piece list \<Rightarrow> bool \<Rightarrow> (store \<times> edited) option"
where
  "paste_impl B st state values at_front =
     (if values = [] then Some (st, edited_unchanged state)
      else do {
        let placement = placement_new values (length (state_views state)) join_pieces;
        follows \<leftarrow> follows_pasted B placement None (state_views state);
        apply_plain B st state (paste_step B placement follows at_front) })"

definition paste_after :: "segmentation \<Rightarrow> store \<Rightarrow> edit_state \<Rightarrow> piece list \<Rightarrow> (store \<times> edited) option" where
  "paste_after B st state values = paste_impl B st state values False"

definition paste_before :: "segmentation \<Rightarrow> store \<Rightarrow> edit_state \<Rightarrow> piece list \<Rightarrow> (store \<times> edited) option" where
  "paste_before B st state values = paste_impl B st state values True"

section \<open>Replacing\<close>

definition replace_step ::
  "segmentation \<Rightarrow> ustring list \<Rightarrow> edit_builder \<Rightarrow> selection_view \<Rightarrow> (landing \<times> edit_builder) option"
where
  "replace_step B values b v = do {
     cov \<leftarrow> covered B (sv_text v) (sv_sel v);
     value \<leftarrow> nth_opt values (sv_index v);
     (mark, b) \<leftarrow> eb_replace B b cov value;
     Some (Covering mark (sel_facing (sv_sel v)), b) }"

definition replace_each_selection :: "segmentation \<Rightarrow> store \<Rightarrow> edit_state \<Rightarrow> ustring list \<Rightarrow> (store \<times> edited) option" where
  "replace_each_selection B st state values = do {
     ensure (length values = length (state_views state));
     apply_plain B st state (replace_step B values) }"

definition as_isize :: "nat \<Rightarrow> int" where
  "as_isize n = (if n < 2 ^ 63 then int n else int n - 2 ^ 64)"

definition span_step ::
  "segmentation \<Rightarrow> (buffer_text \<Rightarrow> nat \<Rightarrow> nat \<Rightarrow> nat) \<Rightarrow> nat \<Rightarrow> ustring \<Rightarrow> edit_builder \<Rightarrow> selection_view \<Rightarrow>
   (landing \<times> edit_builder) option"
where
  "span_step B start_of forward replacement b v = do {
     let text = eb_text b;
     let head_at = head (sv_sel v);
     till \<leftarrow> checked_add_signed head_at (as_isize forward);
     (mark, b) \<leftarrow> (case covering B (rope text) (start_of text (sv_index v) head_at) till of
         Some span \<Rightarrow> eb_replace B b span replacement
       | None \<Rightarrow> eb_insert B b head_at replacement);
     Some (CursorAt (mk_end mark), b) }"

definition replace_span_around_cursors ::
  "segmentation \<Rightarrow> store \<Rightarrow> edit_state \<Rightarrow> (buffer_text \<Rightarrow> nat \<Rightarrow> nat \<Rightarrow> nat) \<Rightarrow> nat \<Rightarrow> ustring \<Rightarrow> (store \<times> edited) option"
where
  "replace_span_around_cursors B st state start_of forward replacement =
     apply_plain B st state (span_step B start_of forward replacement)"

definition replace_around_cursors ::
  "segmentation \<Rightarrow> store \<Rightarrow> edit_state \<Rightarrow> nat \<Rightarrow> nat \<Rightarrow> ustring \<Rightarrow> (store \<times> edited) option"
where
  "replace_around_cursors B st state back forward replacement =
     replace_span_around_cursors B st state (\<lambda>_ _ head_at. head_at - back) forward replacement"

text \<open>What a pipe's output is cut to.\<close>

definition fit_pipe_output :: "bool \<Rightarrow> ustring \<Rightarrow> ustring" where
  "fit_pipe_output input_ends_line out =
     (if input_ends_line then out
      else let cut = (if drop (length out - 2) out = [CR, NL] then 2
                      else if out \<noteq> [] \<and> last out \<in> {NL, CR} then 1 else 0)
           in take (length out - cut) out)"

section \<open>Surrounding and paired insertion\<close>

definition PAIRS :: "(uchar \<times> uchar) list" where
  "PAIRS = [(40, 41), (91, 93), (123, 125), (60, 62), (34, 34), (39, 39), (96, 96)]"

definition pair_for_char :: "uchar \<Rightarrow> (uchar \<times> uchar) option" where
  "pair_for_char ch = find (\<lambda>(op, cl). op = ch \<or> cl = ch) PAIRS"

definition is_pair_char :: "uchar \<Rightarrow> bool" where
  "is_pair_char ch \<longleftrightarrow> pair_for_char ch \<noteq> None"

definition is_opening :: "uchar \<Rightarrow> bool" where
  "is_opening ch \<longleftrightarrow> list_ex (\<lambda>(op, cl). op \<noteq> cl \<and> op = ch) PAIRS"

definition is_closing :: "uchar \<Rightarrow> bool" where
  "is_closing ch \<longleftrightarrow> list_ex (\<lambda>(op, cl). op \<noteq> cl \<and> cl = ch) PAIRS"

definition is_symmetric :: "uchar \<Rightarrow> bool" where
  "is_symmetric ch \<longleftrightarrow> list_ex (\<lambda>(op, cl). op = cl \<and> op = ch) PAIRS"

definition smart_replace_char :: "uchar \<Rightarrow> uchar \<Rightarrow> nat \<Rightarrow> uchar" where
  "smart_replace_char replacement current sel_index =
     (case pair_for_char replacement of
        None \<Rightarrow> replacement
      | Some (op, cl) \<Rightarrow>
          if is_opening current then op
          else if is_closing current then cl
          else if is_symmetric current then (if sel_index mod 2 = 0 then op else cl)
          else replacement)"

definition wrap_step ::
  "segmentation \<Rightarrow> uchar \<Rightarrow> uchar \<Rightarrow> edit_builder \<Rightarrow> selection_view \<Rightarrow> (landing \<times> edit_builder) option"
where
  "wrap_step B op cl b v = do {
     content \<leftarrow> view_content B (sv_text v) (sv_sel v);
     case content of
       None \<Rightarrow> Some (landing_kept_with (sv_sel v) After, b)
     | Some content \<Rightarrow> do {
         (_, b) \<leftarrow> eb_insert B b (cr_start content) [op];
         (closer, b) \<leftarrow> eb_insert B b (cr_end content) [cl];
         Some (CursorAt (mk_start closer), b) } }"

definition wrap_each_selection :: "segmentation \<Rightarrow> store \<Rightarrow> edit_state \<Rightarrow> uchar \<Rightarrow> uchar \<Rightarrow> (store \<times> edited) option" where
  "wrap_each_selection B st state op cl = apply_plain B st state (wrap_step B op cl)"

record auto_pair =
  ap_open :: uchar
  ap_close :: uchar

definition pair_close_step ::
  "segmentation \<Rightarrow> uchar \<Rightarrow> uchar \<Rightarrow> edit_builder \<Rightarrow> selection_view \<Rightarrow> (landing \<times> edit_builder) option"
where
  "pair_close_step B op cl b v = do {
     (_, b) \<leftarrow> eb_insert B b (sel_start (sv_sel v)) [op];
     (closer, b) \<leftarrow> eb_insert B b (sel_start (sv_sel v)) [cl];
     Some (CursorAt (mk_start closer), b) }"

definition insert_pair_close :: "segmentation \<Rightarrow> store \<Rightarrow> edit_state \<Rightarrow> uchar \<Rightarrow> uchar \<Rightarrow> (store \<times> edited) option" where
  "insert_pair_close B st state op cl = apply_plain B st state (pair_close_step B op cl)"

definition delete_pair_step ::
  "segmentation \<Rightarrow> edit_builder \<Rightarrow> selection_view \<Rightarrow> (landing \<times> edit_builder) option"
where
  "delete_pair_step B b v = do {
     ensure (is_cursor (sv_sel v));
     let head_at = head (sv_sel v);
     let text = eb_text b;
     after \<leftarrow> cluster_end B (rope text) head_at;
     prior \<leftarrow> prev_cluster B (rope text) head_at;
     rng \<leftarrow> (case prior of None \<Rightarrow> Some None | Some p \<Rightarrow> range_between B (rope text) p after);
     case rng of
       None \<Rightarrow> Some (landing_kept_with (sv_sel v) After, b)
     | Some r \<Rightarrow> do { (at, b) \<leftarrow> eb_delete B b r; Some (CursorAt at, b) } }"

definition delete_pair :: "segmentation \<Rightarrow> store \<Rightarrow> edit_state \<Rightarrow> (store \<times> edited) option" where
  "delete_pair B st state = apply_plain B st state (delete_pair_step B)"

definition pair_around :: "segmentation \<Rightarrow> buffer_text \<Rightarrow> nat \<Rightarrow> auto_pair list \<Rightarrow> auto_pair option option" where
  "pair_around B text head_at pairs = do {
     prior \<leftarrow> prev_cluster B (rope text) head_at;
     Some (do {
       p \<leftarrow> prior;
       before_char \<leftarrow> char_at text p;
       at_char \<leftarrow> char_at text head_at;
       find (\<lambda>q. ap_open q = before_char \<and> ap_close q = at_char) pairs }) }"

section \<open>Commands on the set of selections\<close>

definition collapse_to_head :: "segmentation \<Rightarrow> edit_state \<Rightarrow> edit_state option" where
  "collapse_to_head B state = state_map B state (\<lambda>v. Some (to_head (sv_sel v)))"

definition collapse_to_anchor :: "segmentation \<Rightarrow> edit_state \<Rightarrow> edit_state option" where
  "collapse_to_anchor B state = state_map B state (\<lambda>v. Some (to_anchor (sv_sel v)))"

definition flip_selections :: "segmentation \<Rightarrow> edit_state \<Rightarrow> edit_state option" where
  "flip_selections B state = state_map B state (\<lambda>v. Some (sel_flip (sv_sel v)))"

definition select_all :: "segmentation \<Rightarrow> edit_state \<Rightarrow> edit_state option" where
  "select_all B state = do {
     first \<leftarrow> first_cluster (rope (es_text state));
     final \<leftarrow> last_cluster B (rope (es_text state));
     final \<leftarrow> final;
     with_selections B state [sel_new first final] 0 }"

fun remove_primary :: "segmentation \<Rightarrow> nat \<Rightarrow> edit_state \<Rightarrow> edit_state option" where
  "remove_primary B 0 state = Some state"
| "remove_primary B (Suc n) state =
     (if length (sels (es_sels state)) \<le> 1 then Some state
      else do {
        state \<leftarrow> state_remove B state (primary (es_sels state));
        remove_primary B n state })"


section \<open>What a step promises\<close>

definition add_items :: "edit_builder \<Rightarrow> item list \<Rightarrow> edit_builder" where
  "add_items b its = b\<lparr>eb_items := eb_items b @ its\<rparr>"

lemma add_items_simps [simp]:
  "eb_text (add_items b its) = eb_text b" "eb_items (add_items b its) = eb_items b @ its"
  "add_items (add_items b xs) ys = add_items b (xs @ ys)" "add_items b [] = b"
  by (simp_all add: add_items_def)

text \<open>What a function of the step's state and the selection gives at each selection in turn.\<close>

fun through :: "('a \<Rightarrow> 'v \<Rightarrow> 'a) \<Rightarrow> ('a \<Rightarrow> 'v \<Rightarrow> 'b) \<Rightarrow> 'a \<Rightarrow> 'v list \<Rightarrow> 'b list" where
  "through later f a [] = []"
| "through later f a (v # vs) = f a v # through later f (later a v) vs"

lemma through_const: "through later (\<lambda>_. f) a vs = map f vs"
  by (induction vs arbitrary: a) auto

lemma length_through [simp]: "length (through later f a vs) = length vs"
  by (induction vs arbitrary: a) auto

definition view_fits :: "segmentation \<Rightarrow> buffer_text \<Rightarrow> selection_view \<Rightarrow> bool" where
  "view_fits B text v \<longleftrightarrow> sv_text v = text \<and> buffer_ok text \<and> sel_fits B text (sv_sel v)"

lemma view_fitsD:
  assumes "view_fits B text v"
  shows "sv_text v = text" "buffer_ok text" "fits_text B text (sv_sel v)" "is_start B (rope text) (head (sv_sel v))"
    "is_start B (rope text) (sel_start (sv_sel v))" "is_start B (rope text) (sel_last (sv_sel v))"
  using assms by (auto simp: view_fits_def sel_fits_def fits_text_def sel_start_def sel_last_def min_def max_def)

lemma landing_ok_mono:
  assumes "landing_ok n 0 l" "n \<le> m"
  shows "landing_ok m k l"
proof (cases l)
  case (Covering mark f)
  with assms show ?thesis by (auto simp: landing_ok_def intro: less_le_trans)
qed (use assms in \<open>auto simp: landing_ok_def pos_ok_def\<close>)

lemma state_views_fit: "state_ok B state \<Longrightarrow> v \<in> set (state_views state) \<Longrightarrow> view_fits B (es_text state) v"
  using state_okD [of B state] state_views_props(1) [of v state] by (simp add: view_fits_def)

text \<open>A step records known items, hands its state on and lands on positions it was given.\<close>

locale edit_command =
  fixes step :: "segmentation \<Rightarrow> 'a command_step"
    and items :: "segmentation \<Rightarrow> 'a \<Rightarrow> selection_view \<Rightarrow> item list"
    and later :: "segmentation \<Rightarrow> 'a \<Rightarrow> selection_view \<Rightarrow> 'a"
    and suits :: "segmentation \<Rightarrow> 'a \<Rightarrow> selection_view \<Rightarrow> bool"
  assumes records: "seg_ok B \<Longrightarrow> eb_ok b \<Longrightarrow> view_fits B (eb_text b) v \<Longrightarrow> suits B a v \<Longrightarrow>
    \<exists>l. step B a b v = Some (later B a v, l, add_items b (items B a v)) \<and>
      eb_ok (add_items b (items B a v)) \<and> landing_ok (length (eb_items b) + length (items B a v)) 0 l"
begin

lemma record_each_ok:
  assumes "seg_ok B" "eb_ok b" "\<forall>v \<in> set vs. view_fits B (eb_text b) v" "list_all id (through (later B) (suits B) a vs)"
  defines "its \<equiv> concat (through (later B) (items B) a vs)"
  shows "\<exists>ls. record_each (step B) a b vs = Some (foldl (later B) a vs, ls, add_items b its) \<and>
    eb_ok (add_items b its) \<and> length ls = length vs \<and>
    (\<forall>l \<in> set ls. landing_ok (length (eb_items b) + length its) 0 l)"
  using assms(2-4) unfolding its_def
proof (induction vs arbitrary: a b)
  case (Cons v vs)
  let ?b = "add_items b (items B a v)"
  obtain l where l: "step B a b v = Some (later B a v, l, ?b)" "eb_ok ?b"
    "landing_ok (length (eb_items b) + length (items B a v)) 0 l"
    using records [OF assms(1) Cons.prems(1), of v a] Cons.prems by auto
  obtain ls where ls: "record_each (step B) (later B a v) ?b vs =
      Some (foldl (later B) (later B a v) vs, ls, add_items ?b (concat (through (later B) (items B) (later B a v) vs)))"
    "eb_ok (add_items ?b (concat (through (later B) (items B) (later B a v) vs)))" "length ls = length vs"
    "\<forall>l \<in> set ls. landing_ok (length (eb_items ?b) + length (concat (through (later B) (items B) (later B a v) vs))) 0 l"
    using Cons.IH [of ?b "later B a v"] l(2) Cons.prems by auto
  show ?case using l ls by (auto intro: landing_ok_mono)
qed simp

text \<open>So the edit is made, whatever the state: its text is the one the recorded items describe.\<close>

lemma edit_ok:
  assumes "seg_ok B" "state_ok B state" "list_all id (through (later B) (suits B) a (state_views state))"
  obtains st' e where "apply_edit B st state (step B) a = Some (st', e, foldl (later B) a (state_views state))"
    "edited_ok B (es_text state) e"
    "rope (es_text (ed_state e)) =
       edit_result (concat (through (later B) (items B) a (state_views state))) (rope (es_text state))"
    "line_ending (es_text (ed_state e)) = line_ending (es_text state)"
proof -
  let ?b = "eb_new (es_text state)" and ?its = "concat (through (later B) (items B) a (state_views state))"
  note ok = state_okD [OF assms(2)]
  have b: "eb_ok ?b" "eb_text ?b = es_text state" "eb_items ?b = []" using ok(1) by (simp_all add: eb_ok_def eb_new_def)
  obtain ls where ls: "record_each (step B) a ?b (state_views state) =
      Some (foldl (later B) a (state_views state), ls, add_items ?b ?its)" "eb_ok (add_items ?b ?its)"
    "length ls = length (state_views state)" "\<forall>l \<in> set ls. landing_ok (length ?its) 0 l"
    using record_each_ok [OF assms(1) b(1), of "state_views state" a] assms(3) state_views_fit [OF assms(2)] b by auto
  let ?p = "primary (es_sels state)"
  have len: "length ls = length (sels (es_sels state))" using ls(3) state_views_props(2) by simp
  then have ne: "ls \<noteq> []" "?p < length ls" using ok(2,4) by auto
  have lo: "\<forall>l \<in> set ls. landing_ok (length (eb_items (add_items ?b ?its)))
      (content_line_count (edit_result (eb_items (add_items ?b ?its)) (rope (eb_text (add_items ?b ?its))))) l"
    using ls(4) b(3) landing_ok_mono by auto
  obtain st' e where e: "eb_finish B st (add_items ?b ?its) \<lparr>ls_items = ls, ls_primary = ?p\<rparr> = Some (st', e)"
    "edited_ok B (es_text state) e" "rope (es_text (ed_state e)) = edit_result ?its (rope (es_text state))"
    "line_ending (es_text (ed_state e)) = line_ending (es_text state)"
    using eb_finish_ok [OF assms(1) ls(2), of "\<lparr>ls_items = ls, ls_primary = ?p\<rparr>" st] ne lo b(2,3) by auto
  show thesis
    by (rule that [OF _ e(2-4)]) (use ok(4) ls(1) ne e(1) in \<open>simp add: apply_edit_def landings_new_def\<close>)
qed

end

section \<open>What the steps record\<close>

lemma recording:
  assumes "seg_ok B" "eb_ok b"
  shows "range_ok B (rope (eb_text b)) r \<Longrightarrow>
      eb_delete B b r = Some (new_pos_at (length (eb_items b)) False, add_items b [del_item (cr_start r) (cr_end r)]) \<and>
      eb_ok (add_items b [del_item (cr_start r) (cr_end r)])"
    "range_ok B (rope (eb_text b)) r \<Longrightarrow>
      eb_replace B b r s = Some (own_mark (length (eb_items b)), add_items b
        [\<lparr>it_key = cr_start r, it_kind = ReplaceTo (cr_end r) (lf_text s) (slice (rope (eb_text b)) (cr_start r) (cr_end r) = lf_text s)\<rparr>]) \<and>
      eb_ok (add_items b
        [\<lparr>it_key = cr_start r, it_kind = ReplaceTo (cr_end r) (lf_text s) (slice (rope (eb_text b)) (cr_start r) (cr_end r) = lf_text s)\<rparr>])"
  using eb_range_ops_ok(1,2) [OF assms] eb_range_ops_ok(3,4) [OF assms, where str = s] by (simp_all add: add_items_def del_item_def)

text \<open>The item of an insertion, and of a replacement.\<close>

definition put_item :: "ustring \<Rightarrow> nat \<Rightarrow> ustring \<Rightarrow> item" where
  "put_item t at s = \<lparr>it_key = (if at < length t then at else if ends_with_lf (lf_text s) then length t else length t - 1),
     it_kind = (if lf_text s = [] then AnchorHere else InsertText (lf_text s))\<rparr>"

definition swap_item :: "ustring \<Rightarrow> cluster_range \<Rightarrow> ustring \<Rightarrow> item" where
  "swap_item t r s = \<lparr>it_key = cr_start r, it_kind = ReplaceTo (cr_end r) (lf_text s) (slice t (cr_start r) (cr_end r) = lf_text s)\<rparr>"

lemma recording_insert:
  assumes "seg_ok B" "eb_ok b" "is_bound B (rope (eb_text b)) at"
  shows "eb_insert B b at s = Some (own_mark (length (eb_items b)), add_items b [put_item (rope (eb_text b)) at s]) \<and>
    eb_ok (add_items b [put_item (rope (eb_text b)) at s])"
  using eb_insert_ok [OF assms, of s] unfolding add_items_def put_item_def len_chars_def by (intro conjI)

lemma recording_replace:
  assumes "seg_ok B" "eb_ok b" "range_ok B (rope (eb_text b)) r"
  shows "eb_replace B b r s = Some (own_mark (length (eb_items b)), add_items b [swap_item (rope (eb_text b)) r s]) \<and>
    eb_ok (add_items b [swap_item (rope (eb_text b)) r s])"
  using recording(2) [OF assms, where s = s] by (simp add: swap_item_def)

lemma landings_at_own [simp]:
  "landing_ok n k (CursorAt (mk_end (own_mark i))) = (i < n)" "landing_ok n k (CursorAt (mk_start (own_mark i))) = (i < n)"
  "landing_ok n k (CursorAt (new_pos_at i a)) = (i < n)" "landing_ok n k (LineStartOf (new_pos_at i a)) = (i < n)"
  "i < n \<Longrightarrow> landing_ok n k (Covering (own_mark i) f)" "landing_ok n k (landing_kept_with s c)"
  by (auto simp: landing_ok_def pos_ok_def new_pos_at_def own_mark_def landing_kept_with_def)

text \<open>The range a selection covers, and what is read of it.\<close>

definition cov_range :: "segmentation \<Rightarrow> selection_view \<Rightarrow> cluster_range" where
  "cov_range B v = \<lparr>cr_start = sel_start (sv_sel v), cr_last = sel_last (sv_sel v),
     cr_end = next_boundary B (rope (sv_text v)) (sel_last (sv_sel v))\<rparr>"

lemma view_covered:
  assumes "seg_ok B" "view_fits B text v"
  shows "covered B (sv_text v) (sv_sel v) = Some (cov_range B v)" "range_ok B (rope text) (cov_range B v)"
    "cr_start (cov_range B v) = sel_start (sv_sel v)"
proof -
  note f = view_fitsD [OF assms(2)]
  obtain r where r: "covered B text (sv_sel v) = Some r" "range_ok B (rope text) r"
    "cr_start r = sel_start (sv_sel v)" "cr_last r = sel_last (sv_sel v)"
    "cr_end r = next_boundary B (rope text) (sel_last (sv_sel v))" by (rule covered_ok [OF assms(1) f(3)])
  then have "r = cov_range B v" using f(1) by (simp add: cov_range_def)
  with r f(1) show "covered B (sv_text v) (sv_sel v) = Some (cov_range B v)" "range_ok B (rope text) (cov_range B v)"
    "cr_start (cov_range B v) = sel_start (sv_sel v)" by simp_all
qed


text \<open>A step without a state of its own.\<close>

locale plain_command =
  fixes f :: "segmentation \<Rightarrow> edit_builder \<Rightarrow> selection_view \<Rightarrow> (landing \<times> edit_builder) option"
    and items :: "segmentation \<Rightarrow> selection_view \<Rightarrow> item list"
    and suits :: "segmentation \<Rightarrow> selection_view \<Rightarrow> bool"
  assumes plain_records: "seg_ok B \<Longrightarrow> eb_ok b \<Longrightarrow> view_fits B (eb_text b) v \<Longrightarrow> suits B v \<Longrightarrow>
    \<exists>l. f B b v = Some (l, add_items b (items B v)) \<and> eb_ok (add_items b (items B v)) \<and>
      landing_ok (length (eb_items b) + length (items B v)) 0 l"

sublocale plain_command \<subseteq> edit_command "\<lambda>B. plain (f B)" "\<lambda>B _. items B" "\<lambda>B a v. a" "\<lambda>B _. suits B"
  by unfold_locales (use plain_records in \<open>fastforce simp: plain_def\<close>)

context plain_command
begin

lemma plain_edit_ok:
  assumes "seg_ok B" "state_ok B state" "\<forall>v \<in> set (state_views state). suits B v"
  shows "\<exists>st' e. apply_plain B st state (f B) = Some (st', e) \<and> edited_ok B (es_text state) e \<and>
    rope (es_text (ed_state e)) = edit_result (concat (map (items B) (state_views state))) (rope (es_text state))"
proof -
  have "list_all id (through (\<lambda>a v. a) (\<lambda>_. suits B) () (state_views state))"
    using assms(3) by (simp add: through_const list_all_iff)
  then obtain st' e u where "apply_edit B st state (plain (f B)) () = Some (st', e, u)" "edited_ok B (es_text state) e"
    "rope (es_text (ed_state e)) = edit_result (concat (map (items B) (state_views state))) (rope (es_text state))"
    by (rule edit_ok [OF assms(1,2)]) (simp add: through_const)
  then show ?thesis by (simp add: apply_plain_def)
qed

end

section \<open>Deleting commands\<close>

lemma view_linewise:
  assumes "view_fits B text v"
  shows "\<exists>a. view_lines (sv_text v) (sv_sel v) = Some a"
    "is_linewise (sv_text v) (sv_sel v) = Some (the (is_linewise (sv_text v) (sv_sel v)))"
    "starts_line (sv_text v) (sv_sel v) = Some (the (starts_line (sv_text v) (sv_sel v)))"
proof -
  note f = view_fitsD [OF assms]
  obtain a b where ab: "view_lines text (sv_sel v) = Some (a, b)" "a \<le> b" "b < nl_count (rope text)"
    "line_offset (rope text) a \<le> sel_start (sv_sel v)" "sel_start (sv_sel v) < line_offset (rope text) (Suc a)"
    "line_offset (rope text) b \<le> sel_last (sv_sel v)" "sel_last (sv_sel v) < line_offset (rope text) (Suc b)"
    by (rule view_lines_ok [OF f(2,3)])
  then have "starts_line text (sv_sel v) \<noteq> None"
    using line_facts(1) [of a "rope text"] by (auto simp: starts_line_def view_lines_def bind_eq_Some_conv)
  then show "\<exists>a. view_lines (sv_text v) (sv_sel v) = Some a"
    "is_linewise (sv_text v) (sv_sel v) = Some (the (is_linewise (sv_text v) (sv_sel v)))"
    "starts_line (sv_text v) (sv_sel v) = Some (the (starts_line (sv_text v) (sv_sel v)))"
    using ab(1) f(1) by (auto simp: is_linewise_def)
qed

definition taken_text_of :: "segmentation \<Rightarrow> selection_view \<Rightarrow> ustring option" where
  "taken_text_of B v =
     the (removal_of B (sv_text v) (sv_sel v) (cov_range B v) (the (is_linewise (sv_text v) (sv_sel v))))"

lemma view_slice_Some:
  assumes "seg_ok B" "view_fits B text v"
  shows "view_slice B text (sv_sel v) = Some (slice (rope text) (cr_start (cov_range B v)) (cr_end (cov_range B v)))"
    "cr_start (cov_range B v) \<le> last_char text"
proof -
  note c = view_covered [OF assms] and f = view_fitsD [OF assms(2)]
  note b = range_ok_bounds [OF assms(1) c(2)]
  show "view_slice B text (sv_sel v) = Some (slice (rope text) (cr_start (cov_range B v)) (cr_end (cov_range B v)))"
    using c(1) b f(1) by (simp add: view_slice_def slice_opt_def)
  show "cr_start (cov_range B v) \<le> last_char text" using b(5) by (simp add: last_char_def len_chars_def)
qed

lemma removal_total:
  assumes "seg_ok B" "view_fits B text v"
  shows "removal_of B (sv_text v) (sv_sel v) (cov_range B v) (the (is_linewise (sv_text v) (sv_sel v))) = Some (taken_text_of B v)"
proof -
  note f = view_fitsD [OF assms(2)] and s = view_slice_Some [OF assms] and l = view_linewise(1) [OF assms(2)]
  have "slice_opt (rope text) (cr_start (cov_range B v)) (min (cr_end (cov_range B v)) (last_char text)) \<noteq> None"
    using s(2) range_ok_bounds(3) [OF assms(1) view_covered(2) [OF assms]]
    by (auto simp: slice_opt_def last_char_def len_chars_def)
  then show ?thesis
    using l s(1) f(1) unfolding taken_text_of_def by (auto simp: removal_of_def Let_def)
qed

lemma remove_sel_ok:
  assumes "seg_ok B" "eb_ok b" "view_fits B (eb_text b) v"
  shows "\<exists>r. remove_sel B b v = Some (r, add_items b [del_item (cr_start (cov_range B v)) (cr_end (cov_range B v))]) \<and>
    rm_text r = taken_text_of B v \<and> rm_linewise r = the (is_linewise (sv_text v) (sv_sel v)) \<and>
    eb_ok (add_items b [del_item (cr_start (cov_range B v)) (cr_end (cov_range B v))]) \<and>
    landing_ok (Suc (length (eb_items b))) 0 (rm_cursor r) \<and>
    rm_cursor r = (if rm_linewise r then LineStartOf else CursorAt) (new_pos_at (length (eb_items b)) False)"
proof -
  note c = view_covered [OF assms(1,3)] and l = view_linewise(2) [OF assms(3)] and t = removal_total [OF assms(1,3)]
  have d: "eb_delete B b (cov_range B v) = Some (new_pos_at (length (eb_items b)) False,
      add_items b [del_item (cr_start (cov_range B v)) (cr_end (cov_range B v))])"
    "eb_ok (add_items b [del_item (cr_start (cov_range B v)) (cr_end (cov_range B v))])"
    using recording(1) [OF assms(1,2) c(2)] by simp_all
  obtain lw where lw: "is_linewise (sv_text v) (sv_sel v) = Some lw" "the (is_linewise (sv_text v) (sv_sel v)) = lw"
    using l by (cases "is_linewise (sv_text v) (sv_sel v)") auto
  show ?thesis
    unfolding remove_sel_def lw(2) c(1) lw(1) using d t lw(2) by (simp add: Let_def)
qed

interpretation remove: edit_command "\<lambda>B. remove_step (remove_sel B) g"
  "\<lambda>B a v. [del_item (cr_start (cov_range B v)) (cr_end (cov_range B v))]"
  "\<lambda>B a v. g (taken_text_of B v) (the (is_linewise (sv_text v) (sv_sel v))) a" "\<lambda>B a v. True" for g
  by unfold_locales (use remove_sel_ok in \<open>fastforce simp: remove_step_def\<close>)

text \<open>What \<open>c\<close> takes of a selection.\<close>

lemma view_content_ok:
  assumes "seg_ok B" "view_fits B text v"
  obtains c where "view_content B (sv_text v) (sv_sel v) = Some c"
    "\<And>r. c = Some r \<Longrightarrow> range_ok B (rope text) r \<and> cr_start r = sel_start (sv_sel v) \<and> cr_end r \<le> length (rope text)"
proof -
  note f = view_fitsD [OF assms(2)] and c = view_covered [OF assms]
  note b = range_ok_bounds [OF assms(1) c(2)]
  have e: "B (rope text) (sel_last (sv_sel v))" "sel_last (sv_sel v) \<le> length (rope text)"
    using f(6) by (auto simp: is_start_def)
  obtain r where r: "range_between B (rope text) (sel_start (sv_sel v)) (sel_last (sv_sel v)) = Some r"
    "case r of None \<Rightarrow> sel_last (sv_sel v) \<le> sel_start (sv_sel v)
     | Some r \<Rightarrow> sel_start (sv_sel v) < sel_last (sv_sel v) \<and> range_ok B (rope text) r \<and>
         cr_start r = sel_start (sv_sel v) \<and> cr_end r = sel_last (sv_sel v)"
    using range_between_ok [OF assms(1) f(5) e] by blast
  show thesis
  proof (cases "ends_on_break text (sv_sel v)")
    case True
    show thesis by (rule that [of r]) (use True r e(2) f(1) in \<open>auto simp: view_content_def\<close>)
  next
    case False
    show thesis by (rule that [of "Some (cov_range B v)"]) (use False c b f(1) in \<open>auto simp: view_content_def\<close>)
  qed
qed

definition content_of :: "segmentation \<Rightarrow> selection_view \<Rightarrow> cluster_range option" where
  "content_of B v = the (view_content B (sv_text v) (sv_sel v))"

definition content_text :: "segmentation \<Rightarrow> selection_view \<Rightarrow> ustring option" where
  "content_text B v = map_option (\<lambda>r. slice (rope (sv_text v)) (cr_start r) (cr_end r)) (content_of B v)"

definition del_range :: "cluster_range option \<Rightarrow> item list" where
  "del_range r = (case r of None \<Rightarrow> [] | Some r \<Rightarrow> [del_item (cr_start r) (cr_end r)])"

lemma remove_content_ok:
  assumes "seg_ok B" "eb_ok b" "view_fits B (eb_text b) v"
  shows "\<exists>l. remove_content B b v = Some (\<lparr>rm_text = content_text B v, rm_linewise = False, rm_cursor = l\<rparr>,
      add_items b (del_range (content_of B v))) \<and> eb_ok (add_items b (del_range (content_of B v))) \<and>
    landing_ok (length (eb_items b) + length (del_range (content_of B v))) 0 l"
proof -
  note f = view_fitsD [OF assms(3)]
  obtain c where c: "view_content B (sv_text v) (sv_sel v) = Some c"
    "\<And>r. c = Some r \<Longrightarrow> range_ok B (rope (eb_text b)) r \<and> cr_start r = sel_start (sv_sel v) \<and> cr_end r \<le> length (rope (eb_text b))"
    by (rule view_content_ok [OF assms(1,3)]) blast
  have co: "content_of B v = c" using c(1) by (simp add: content_of_def)
  show ?thesis
  proof (cases c)
    case None
    with c(1) co assms(2) show ?thesis by (simp add: remove_content_def content_text_def del_range_def)
  next
    case (Some r)
    have r: "range_ok B (rope (eb_text b)) r" using c(2) Some by simp
    note b = range_ok_bounds [OF assms(1) r] and d = recording(1) [OF assms(1,2) r]
    show ?thesis
      using c(1) co Some b d f(1) by (simp add: remove_content_def content_text_def del_range_def slice_opt_def)
  qed
qed

interpretation remove_content: edit_command "\<lambda>B. remove_step (remove_content B) g" "\<lambda>B a v. del_range (content_of B v)"
  "\<lambda>B a v. g (content_text B v) False a" "\<lambda>B a v. True" for g
  by unfold_locales (use remove_content_ok in \<open>fastforce simp: remove_step_def\<close>)

lemma cluster_before_ok:
  assumes "seg_ok B" "view_fits B text v"
  obtains c where "cluster_before B v = Some c" "\<And>r. c = Some r \<Longrightarrow> range_ok B (rope text) r"
proof -
  note f = view_fitsD [OF assms(2)]
  let ?h = "head (sv_sel v)"
  have h: "B (rope text) ?h" "?h < length (rope text)" using f(4) by (auto simp: is_start_def)
  show thesis
  proof (cases "?h = 0")
    case True
    show thesis by (rule that [of None]) (use True f(1) in \<open>simp_all add: cluster_before_def prev_cluster_def\<close>)
  next
    case False
    then have pos: "0 < ?h" by simp
    let ?p = "prev_boundary B (rope text) ?h"
    have p: "is_start B (rope text) ?p" "next_boundary B (rope text) ?p = ?h"
      using prev_boundary_start [OF assms(1) pos] next_of_prev [OF assms(1) h(1) pos] h(2) by auto
    show thesis
      by (rule that [of "Some \<lparr>cr_start = ?p, cr_last = ?p, cr_end = ?h\<rparr>"])
         (use False p h f(1) in \<open>auto simp: cluster_before_def prev_cluster_def prev_grapheme_boundary_def range_ok_def\<close>)
  qed
qed

definition back_items :: "segmentation \<Rightarrow> selection_view \<Rightarrow> item list" where
  "back_items B v = (if is_cursor (sv_sel v) then del_range (the (cluster_before B v))
     else [del_item (cr_start (cov_range B v)) (cr_end (cov_range B v))])"

interpretation backspace: plain_command "\<lambda>B. back_step B (cluster_before B)" back_items "\<lambda>B v. True"
proof unfold_locales
  fix B b v assume a: "seg_ok B" "eb_ok b" "view_fits B (eb_text b) v"
  obtain c where c: "cluster_before B v = Some c" "\<And>r. c = Some r \<Longrightarrow> range_ok B (rope (eb_text b)) r"
    by (rule cluster_before_ok [OF a(1,3)]) blast
  obtain r where r: "remove_sel B b v = Some (r, add_items b [del_item (cr_start (cov_range B v)) (cr_end (cov_range B v))])"
    "eb_ok (add_items b [del_item (cr_start (cov_range B v)) (cr_end (cov_range B v))])"
    "landing_ok (Suc (length (eb_items b))) 0 (rm_cursor r)" using remove_sel_ok [OF a] by blast
  show "\<exists>l. back_step B (cluster_before B) b v = Some (l, add_items b (back_items B v)) \<and>
      eb_ok (add_items b (back_items B v)) \<and> landing_ok (length (eb_items b) + length (back_items B v)) 0 l"
  proof (cases "is_cursor (sv_sel v)")
    case False
    with r show ?thesis by (simp add: back_step_def back_items_def)
  next
    case cursor_at: True
    show ?thesis
    proof (cases c)
      case None
      with cursor_at c(1) a(2) show ?thesis by (simp add: back_step_def back_items_def del_range_def)
    next
      case (Some x)
      with cursor_at c(1) recording(1) [OF a(1,2) c(2) [OF Some]] show ?thesis
        by (simp add: back_step_def back_items_def del_range_def)
    qed
  qed
qed


section \<open>Inserting and replacing commands\<close>

lemma start_bound: "is_start B t i \<Longrightarrow> is_bound B t i"
  by (simp add: is_bound_def)

lemmas recording_ops = recording(1) recording_insert recording_replace

definition insert_items :: "(nat \<Rightarrow> ustring option) \<Rightarrow> segmentation \<Rightarrow> selection_view \<Rightarrow> item list" where
  "insert_items text_of B v = (let s = the (text_of (sv_index v)) in
     if is_cursor (sv_sel v) then [put_item (rope (sv_text v)) (sel_start (sv_sel v)) s]
     else [swap_item (rope (sv_text v)) (cov_range B v) s])"

interpretation insert: plain_command "\<lambda>B. insert_step B text_of" "insert_items text_of"
  "\<lambda>B v. text_of (sv_index v) \<noteq> None" for text_of
proof unfold_locales
  fix B b v assume a: "seg_ok B" "eb_ok b" "view_fits B (eb_text b) v" "text_of (sv_index v) \<noteq> None"
  note f = view_fitsD [OF a(3)] and c = view_covered [OF a(1,3)]
  obtain s where s: "text_of (sv_index v) = Some s" using a(4) by blast
  note i = recording_insert [OF a(1,2) start_bound [OF f(5)], of s] and r = recording_replace [OF a(1,2) c(2), of s]
  show "\<exists>l. insert_step B text_of b v = Some (l, add_items b (insert_items text_of B v)) \<and>
      eb_ok (add_items b (insert_items text_of B v)) \<and> landing_ok (length (eb_items b) + length (insert_items text_of B v)) 0 l"
    using i r s c(1) f(1) by (cases "is_cursor (sv_sel v)") (simp_all add: insert_step_def insert_items_def)
qed

definition break_items :: "segmentation \<Rightarrow> planned_break list \<Rightarrow> selection_view \<Rightarrow> item list" where
  "break_items B breaks v = (let p = hd breaks; t = rope (sv_text v) in
     del_range (pb_removed p) @ [put_item t (pb_at p) (pb_lead p)] @
     (if pb_tail p = [] then [] else [put_item t (pb_at p) (pb_tail p)]))"

definition break_suits :: "segmentation \<Rightarrow> planned_break list \<Rightarrow> selection_view \<Rightarrow> bool" where
  "break_suits B breaks v \<longleftrightarrow> breaks \<noteq> [] \<and> is_start B (rope (sv_text v)) (pb_at (hd breaks)) \<and>
     (\<forall>r. pb_removed (hd breaks) = Some r \<longrightarrow> range_ok B (rope (sv_text v)) r)"

interpretation line_break: edit_command break_step break_items "\<lambda>B breaks v. tl breaks" break_suits
proof unfold_locales
  fix B b v breaks assume a: "seg_ok B" "eb_ok b" "view_fits B (eb_text b) v" "break_suits B breaks v"
  note f = view_fitsD [OF a(3)]
  obtain p ps where p: "breaks = p # ps" using a(4) by (cases breaks) (auto simp: break_suits_def)
  have at: "is_bound B (rope (eb_text b)) (pb_at p)" using a(4) f(1) p by (simp add: break_suits_def start_bound)
  let ?t = "rope (eb_text b)"
  define b1 where "b1 = add_items b (del_range (pb_removed p))"
  have b1: "(case pb_removed p of Some r \<Rightarrow> do { (_, b) \<leftarrow> eb_delete B b r; Some b } | None \<Rightarrow> Some b) = Some b1"
    "eb_ok b1" "eb_text b1 = eb_text b"
    using a(2,4) f(1) p recording(1) [OF a(1,2)]
    by (auto simp: b1_def del_range_def break_suits_def split: option.splits)
  define b2 where "b2 = add_items b1 [put_item ?t (pb_at p) (pb_lead p)]"
  have b2: "eb_insert B b1 (pb_at p) (pb_lead p) = Some (own_mark (length (eb_items b1)), b2)" "eb_ok b2" "eb_text b2 = eb_text b"
    using recording_insert [OF a(1) b1(2), of "pb_at p" "pb_lead p"] at by (simp_all add: b1(3) b2_def)
  define b3 where "b3 = add_items b2 (if pb_tail p = [] then [] else [put_item ?t (pb_at p) (pb_tail p)])"
  have b3: "(if pb_tail p \<noteq> [] then do { (_, b) \<leftarrow> eb_insert B b2 (pb_at p) (pb_tail p); Some b } else Some b2) = Some b3" "eb_ok b3"
    using recording_insert [OF a(1) b2(2), of "pb_at p" "pb_tail p"] at b2(2) by (simp_all add: b2(3) b3_def)
  have its: "b3 = add_items b (break_items B breaks v)"
    by (simp add: b3_def b2_def b1_def break_items_def p Let_def f(1))
  have "break_step B breaks b v = Some (ps, CursorAt (mk_end (own_mark (length (eb_items b1)))), b3)"
    unfolding break_step_def p next_item.simps using b1(1) b2(1) b3(1) by (simp only: Option.bind.simps prod.case list.sel)
  moreover have "length (eb_items b1) < length (eb_items b) + length (break_items B breaks v)"
    by (simp add: b1_def break_items_def p Let_def)
  ultimately show "\<exists>l. break_step B breaks b v = Some (tl breaks, l, add_items b (break_items B breaks v)) \<and>
      eb_ok (add_items b (break_items B breaks v)) \<and> landing_ok (length (eb_items b) + length (break_items B breaks v)) 0 l"
    using b3(2) its p by simp
qed

definition replace_items :: "ustring list \<Rightarrow> segmentation \<Rightarrow> selection_view \<Rightarrow> item list" where
  "replace_items vals B v = [swap_item (rope (sv_text v)) (cov_range B v) (vals ! sv_index v)]"

interpretation replace: plain_command "\<lambda>B. replace_step B vals" "replace_items vals"
  "\<lambda>B v. sv_index v < length vals" for vals
proof unfold_locales
  fix B b v assume a: "seg_ok B" "eb_ok b" "view_fits B (eb_text b) v" "sv_index v < length vals"
  note f = view_fitsD [OF a(3)] and c = view_covered [OF a(1,3)]
  show "\<exists>l. replace_step B vals b v = Some (l, add_items b (replace_items vals B v)) \<and>
      eb_ok (add_items b (replace_items vals B v)) \<and> landing_ok (length (eb_items b) + length (replace_items vals B v)) 0 l"
    using recording_replace [OF a(1,2) c(2), of "vals ! sv_index v"] a(4) c(1) f(1)
    by (simp add: replace_step_def replace_items_def nth_opt_def)
qed

definition span_items ::
  "(buffer_text \<Rightarrow> nat \<Rightarrow> nat \<Rightarrow> nat) \<Rightarrow> nat \<Rightarrow> ustring \<Rightarrow> segmentation \<Rightarrow> selection_view \<Rightarrow> item list"
where
  "span_items start_of forward s B v = (let t = rope (sv_text v); h = head (sv_sel v) in
     case covering B t (start_of (sv_text v) (sv_index v) h) (h + forward) of
       Some r \<Rightarrow> [swap_item t r s] | None \<Rightarrow> [put_item t h s])"

interpretation span: plain_command "\<lambda>B. span_step B start_of forward s" "span_items start_of forward s"
  "\<lambda>B v. forward < 2 ^ 63" for start_of forward s
proof unfold_locales
  fix B b v assume a: "seg_ok B" "eb_ok b" "view_fits B (eb_text b) v" "forward < (2::nat) ^ 63"
  note f = view_fitsD [OF a(3)]
  let ?t = "rope (eb_text b)" and ?h = "head (sv_sel v)"
  let ?s = "start_of (eb_text b) (sv_index v) ?h"
  have till: "checked_add_signed ?h (as_isize forward) = Some (?h + forward)"
    using a(4) by (simp add: checked_add_signed_Some as_isize_def)
  show "\<exists>l. span_step B start_of forward s b v = Some (l, add_items b (span_items start_of forward s B v)) \<and>
      eb_ok (add_items b (span_items start_of forward s B v)) \<and>
      landing_ok (length (eb_items b) + length (span_items start_of forward s B v)) 0 l"
  proof (cases "?s < min (?h + forward) (length ?t)")
    case True
    obtain r where r: "covering B ?t ?s (?h + forward) = Some r" "range_ok B ?t r" by (rule covering_Some [OF a(1) True]) blast
    show ?thesis using recording_replace [OF a(1,2) r(2), of s] till r(1) f(1)
      by (simp add: span_step_def span_items_def Let_def)
  next
    case False
    then have "covering B ?t ?s (?h + forward) = None" by (auto simp: covering_def Let_def)
    then show ?thesis using recording_insert [OF a(1,2) start_bound [OF f(4)], of s] till f(1)
      by (simp add: span_step_def span_items_def Let_def)
  qed
qed

definition wrap_items :: "uchar \<Rightarrow> uchar \<Rightarrow> segmentation \<Rightarrow> selection_view \<Rightarrow> item list" where
  "wrap_items op cl B v = (case content_of B v of None \<Rightarrow> []
     | Some r \<Rightarrow> [put_item (rope (sv_text v)) (cr_start r) [op], put_item (rope (sv_text v)) (cr_end r) [cl]])"

lemma two_inserts:
  fixes s u :: ustring
  assumes "seg_ok B" "eb_ok b" "is_bound B (rope (eb_text b)) i" "is_bound B (rope (eb_text b)) j"
  defines "b2 \<equiv> add_items b [put_item (rope (eb_text b)) i s, put_item (rope (eb_text b)) j u]"
  shows "do { (_, b) \<leftarrow> eb_insert B b i s; eb_insert B b j u } = Some (own_mark (Suc (length (eb_items b))), b2)" "eb_ok b2"
  using recording_insert [OF assms(1-3), of s]
    recording_insert [OF assms(1), of "add_items b [put_item (rope (eb_text b)) i s]" j u] assms(4)
  by (simp_all add: b2_def)

interpretation wrap: plain_command "\<lambda>B. wrap_step B op cl" "wrap_items op cl" "\<lambda>B v. True" for op cl
proof unfold_locales
  fix B b v assume a: "seg_ok B" "eb_ok b" "view_fits B (eb_text b) v"
  note f = view_fitsD [OF a(3)]
  obtain c where c: "view_content B (sv_text v) (sv_sel v) = Some c"
    "\<And>r. c = Some r \<Longrightarrow> range_ok B (rope (eb_text b)) r" by (rule view_content_ok [OF a(1,3)]) blast
  then have co: "content_of B v = c" by (simp add: content_of_def)
  show "\<exists>l. wrap_step B op cl b v = Some (l, add_items b (wrap_items op cl B v)) \<and>
      eb_ok (add_items b (wrap_items op cl B v)) \<and> landing_ok (length (eb_items b) + length (wrap_items op cl B v)) 0 l"
  proof (cases c)
    case None
    then show ?thesis using c(1) co a(2) by (simp add: wrap_step_def wrap_items_def)
  next
    case (Some r)
    note rb = range_ok_bounds [OF a(1) c(2) [OF Some]]
    show ?thesis using two_inserts [OF a(1,2) rb(1,2), of "[op]" "[cl]"] c(1) co Some f(1)
      by (auto simp: wrap_step_def wrap_items_def bind_eq_Some_conv)
  qed
qed

definition pair_items :: "uchar \<Rightarrow> uchar \<Rightarrow> segmentation \<Rightarrow> selection_view \<Rightarrow> item list" where
  "pair_items op cl B v = (let t = rope (sv_text v); i = sel_start (sv_sel v) in [put_item t i [op], put_item t i [cl]])"

interpretation pair_close: plain_command "\<lambda>B. pair_close_step B op cl" "pair_items op cl" "\<lambda>B v. True" for op cl
proof unfold_locales
  fix B b v assume a: "seg_ok B" "eb_ok b" "view_fits B (eb_text b) v"
  note f = view_fitsD [OF a(3)]
  show "\<exists>l. pair_close_step B op cl b v = Some (l, add_items b (pair_items op cl B v)) \<and>
      eb_ok (add_items b (pair_items op cl B v)) \<and> landing_ok (length (eb_items b) + length (pair_items op cl B v)) 0 l"
    using two_inserts [OF a(1,2) start_bound [OF f(5)] start_bound [OF f(5)], of "[op]" "[cl]"] f(1)
    by (auto simp: pair_close_step_def pair_items_def Let_def bind_eq_Some_conv)
qed

text \<open>The pair around a cursor: from the cluster before it to the end of its own.\<close>

definition around_cursor :: "segmentation \<Rightarrow> selection_view \<Rightarrow> cluster_range option" where
  "around_cursor B v = (let t = rope (sv_text v); h = head (sv_sel v) in
     if h = 0 then None
     else Some \<lparr>cr_start = prev_boundary B t h, cr_last = h, cr_end = next_boundary B t h\<rparr>)"

interpretation delete_pair: plain_command delete_pair_step "\<lambda>B v. del_range (around_cursor B v)" "\<lambda>B v. is_cursor (sv_sel v)"
proof unfold_locales
  fix B b v assume a: "seg_ok B" "eb_ok b" "view_fits B (eb_text b) v" "is_cursor (sv_sel v)"
  note f = view_fitsD [OF a(3)]
  let ?t = "rope (eb_text b)" and ?h = "head (sv_sel v)"
  have h: "?h < length ?t" "B ?t ?h" using f(4) by (auto simp: is_start_def)
  note nb = next_boundary_props [of B ?t ?h, OF seg_okD(2) [OF a(1)] h(1)]
  have ce: "cluster_end B ?t ?h = Some (next_boundary B ?t ?h)" by (rule cluster_end_start [OF f(4)])
  show "\<exists>l. delete_pair_step B b v = Some (l, add_items b (del_range (around_cursor B v))) \<and>
      eb_ok (add_items b (del_range (around_cursor B v))) \<and>
      landing_ok (length (eb_items b) + length (del_range (around_cursor B v))) 0 l"
  proof (cases "?h = 0")
    case True
    then show ?thesis using a(2,4) ce f(1)
      by (simp add: delete_pair_step_def prev_cluster_def around_cursor_def del_range_def Let_def)
  next
    case False
    then have pos: "0 < ?h" by simp
    let ?p = "prev_boundary B ?t ?h"
    let ?r = "\<lparr>cr_start = ?p, cr_last = ?h, cr_end = next_boundary B ?t ?h\<rparr>"
    have p: "is_start B ?t ?p" using prev_boundary_start [OF a(1) pos] h(1) by simp
    have ph: "?p < ?h" by (rule prev_boundary_props(1) [of B ?t, OF seg_okD(1) [OF a(1)] pos])
    have rok: "range_ok B ?t ?r" using p f(4) ph by (simp add: range_ok_def)
    have "range_between B ?t ?p (next_boundary B ?t ?h) = Some (Some ?r)"
      using ph nb(1,2) prev_of_next [OF a(1) f(4)]
      by (simp add: range_between_def prev_cluster_def prev_grapheme_boundary_def)
    then show ?thesis using recording(1) [OF a(1,2) rok] False a(4) ce f(1) h
      by (simp add: delete_pair_step_def prev_cluster_def prev_grapheme_boundary_def around_cursor_def del_range_def Let_def)
  qed
qed


section \<open>Pasting\<close>

text \<open>Where a paste beside a cursor goes, and the range a linewise paste over a selection replaces.\<close>

definition paste_line_at :: "bool \<Rightarrow> selection_view \<Rightarrow> nat" where
  "paste_line_at at_front v = (let t = rope (sv_text v); l = the (head_line (sv_text v) (sv_sel v)) in
     if at_front then line_offset t l else line_offset t (Suc l))"

definition paste_char_at :: "segmentation \<Rightarrow> bool \<Rightarrow> selection_view \<Rightarrow> nat" where
  "paste_char_at B at_front v =
     (if at_front then sel_start (sv_sel v) else the (append_point B (sv_text v) (sv_sel v)))"

definition last_break :: "selection_view \<Rightarrow> nat" where
  "last_break v = line_offset (rope (sv_text v)) (Suc (snd (the (view_lines (sv_text v) (sv_sel v))))) - 1"

definition paste_range :: "segmentation \<Rightarrow> selection_view \<Rightarrow> cluster_range" where
  "paste_range B v = (let r = cov_range B v in
     if cr_end r = last_break v
     then \<lparr>cr_start = cr_start r, cr_last = cr_end r, cr_end = Suc (cr_end r)\<rparr> else r)"

definition paste_items ::
  "piece placement \<Rightarrow> bool list \<Rightarrow> bool \<Rightarrow> segmentation \<Rightarrow> selection_view \<Rightarrow> item list"
where
  "paste_items placement follows at_front B v =
     (let piece = the (placement_get placement (sv_index v)); s = pc_text piece; t = rope (sv_text v) in
      if is_cursor (sv_sel v) then
        (if piece_is_linewise piece then [put_item t (paste_line_at at_front v) s]
         else if s = [] then [] else [put_item t (paste_char_at B at_front v) s])
      else if piece_is_linewise piece then
        (if the (starts_line (sv_text v) (sv_sel v)) \<or> follows ! sv_index v then []
         else [put_item t (sel_start (sv_sel v)) [NL]]) @ [swap_item t (paste_range B v) s]
      else [swap_item t (cov_range B v) s])"

definition paste_suits :: "piece placement \<Rightarrow> bool list \<Rightarrow> selection_view \<Rightarrow> bool" where
  "paste_suits placement follows v \<longleftrightarrow> placement_get placement (sv_index v) \<noteq> None \<and> sv_index v < length follows"

lemma line_points:
  assumes "seg_ok B" "view_fits B text v"
  obtains l where "head_line (sv_text v) (sv_sel v) = Some l" "l < nl_count (rope text)"
    "line_start (rope text) l = Some (line_offset (rope text) l)"
    "\<exists>r. line_range (rope text) l = Some r \<and> cr_end r = line_offset (rope text) (Suc l)"
    "is_bound B (rope text) (line_offset (rope text) l)" "is_bound B (rope text) (line_offset (rope text) (Suc l))"
proof -
  note f = view_fitsD [OF assms(2)]
  have cr: "CR \<notin> set (rope text)" using f(2) by (simp add: buffer_ok_def is_cr_free_def)
  obtain l where l: "char_to_line text (head (sv_sel v)) = Some l" "l < nl_count (rope text)"
    using char_to_line_total [OF f(2), of "head (sv_sel v)"] by auto
  obtain r where r: "lines_range (rope text) l l = Some r" "range_ok B (rope text) r"
    "cr_start r = line_offset (rope text) (min l l)" "cr_end r = line_offset (rope text) (Suc (max l l))"
    by (rule lines_range_ok [OF assms(1) cr l(2) l(2)])
  note b = range_ok_bounds [OF assms(1) r(2)]
  show thesis
    by (rule that [OF _ l(2) line_facts(1) [OF l(2)]]) (use l r b f(1) in \<open>simp_all add: head_line_def line_range_def\<close>)
qed

lemma append_point_ok:
  assumes "seg_ok B" "view_fits B text v"
  obtains i where "append_point B (sv_text v) (sv_sel v) = Some i" "is_bound B (rope text) i"
proof -
  note f = view_fitsD [OF assms(2)]
  let ?l = "sel_last (sv_sel v)"
  have l: "?l < length (rope text)" using f(6) by (simp add: is_start_def)
  show thesis
  proof (cases "ends_on_break text (sv_sel v)")
    case True
    show thesis by (rule that [of ?l]) (use True f(1,6) in \<open>simp_all add: append_point_def start_bound\<close>)
  next
    case False
    note nb = next_boundary_props [of B "rope text" ?l, OF seg_okD(2) [OF assms(1)] l]
    note lc = last_char_start [OF assms(1) f(2)]
    have "rope text ! last_char text = NL"
      using f(2) by (auto simp: buffer_ok_def valid_rope_last last_char_def len_chars_def last_conv_nth)
    then have "?l \<noteq> last_char text" using False l by (auto simp: ends_on_break_def char_at_def len_chars_def)
    then have "?l < last_char text" using l by (simp add: last_char_def len_chars_def)
    then have "next_boundary B (rope text) ?l \<le> last_char text"
      using nb(4) [of "last_char text"] lc(1) unfolding is_start_def by (meson not_le)
    then have "is_start B (rope text) (next_boundary B (rope text) ?l)"
      using nb(3) lc(2) by (simp add: is_start_def len_chars_def)
    then show thesis
      by (intro that [of "next_boundary B (rope text) ?l"])
         (use False f(1,6) in \<open>simp_all add: append_point_def next_cluster_def cluster_end_start start_bound is_start_def\<close>)
  qed
qed

lemma paste_range_ok:
  assumes "seg_ok B" "view_fits B text v"
  obtains a b where "view_lines (sv_text v) (sv_sel v) = Some (a, b)" "line_break (rope text) b = Some (last_break v)"
    "(if cr_end (cov_range B v) = last_break v
      then do { r \<leftarrow> range_through B (rope text) (cr_start (cov_range B v)) (last_break v); r }
      else Some (cov_range B v)) = Some (paste_range B v)"
    "range_ok B (rope text) (paste_range B v)"
proof -
  note f = view_fitsD [OF assms(2)] and c = view_covered [OF assms]
  have cr: "CR \<notin> set (rope text)" using f(2) by (simp add: buffer_ok_def is_cr_free_def)
  obtain a b where ab: "view_lines text (sv_sel v) = Some (a, b)" "b < nl_count (rope text)"
    by (rule view_lines_ok [OF f(2,3)])
  let ?t = "rope text" and ?k = "line_offset (rope text) (Suc b) - 1"
  have k: "last_break v = ?k" using ab(1) f(1) by (simp add: last_break_def)
  note lf = line_facts [OF ab(2)] and rb = range_ok_bounds [OF assms(1) c(2)]
  have ks: "is_start B ?t ?k" by (rule line_break_is_start [OF assms(1) ab(2) cr])
  have nk: "next_boundary B ?t ?k = Suc ?k" using line_break_next [OF assms(1) ab(2)] lf(6) by simp
  show thesis
    by (rule that [of a b])
       (use ab f(1) lf(2) k ks nk rb c(2) cluster_end_start [OF ks] in
         \<open>auto simp: paste_range_def Let_def range_through_def range_ok_def\<close>)
qed

interpretation paste: plain_command "\<lambda>B. paste_step B placement follows at_front" "paste_items placement follows at_front"
  "\<lambda>B. paste_suits placement follows" for placement follows at_front
proof unfold_locales
  fix B b v assume a: "seg_ok B" "eb_ok b" "view_fits B (eb_text b) v" "paste_suits placement follows v"
  note f = view_fitsD [OF a(3)] and c = view_covered [OF a(1,3)]
  obtain piece where p: "placement_get placement (sv_index v) = Some piece" using a(4) by (auto simp: paste_suits_def)
  have i: "sv_index v < length follows" using a(4) by (simp add: paste_suits_def)
  obtain l where l: "head_line (sv_text v) (sv_sel v) = Some l"
    "line_start (rope (eb_text b)) l = Some (line_offset (rope (eb_text b)) l)"
    "\<exists>r. line_range (rope (eb_text b)) l = Some r \<and> cr_end r = line_offset (rope (eb_text b)) (Suc l)"
    "is_bound B (rope (eb_text b)) (line_offset (rope (eb_text b)) l)"
    "is_bound B (rope (eb_text b)) (line_offset (rope (eb_text b)) (Suc l))"
    by (rule line_points [OF a(1,3)]) blast
  obtain q where q: "append_point B (sv_text v) (sv_sel v) = Some q" "is_bound B (rope (eb_text b)) q"
    by (rule append_point_ok [OF a(1,3)])
  obtain x y where xy: "view_lines (sv_text v) (sv_sel v) = Some (x, y)" "line_break (rope (eb_text b)) y = Some (last_break v)"
    "(if cr_end (cov_range B v) = last_break v
      then do { r \<leftarrow> range_through B (rope (eb_text b)) (cr_start (cov_range B v)) (last_break v); r }
      else Some (cov_range B v)) = Some (paste_range B v)"
    "range_ok B (rope (eb_text b)) (paste_range B v)" by (rule paste_range_ok [OF a(1,3)])
  obtain sl where sl: "starts_line (sv_text v) (sv_sel v) = Some sl" using view_linewise(3) [OF a(3)] by blast
  let ?s = "pc_text piece" and ?its = "paste_items placement follows at_front B v"
  have ins: "eb_insert B b j ?s = Some (own_mark (length (eb_items b)), add_items b [put_item (rope (eb_text b)) j ?s])"
    "eb_ok (add_items b [put_item (rope (eb_text b)) j ?s])" if "is_bound B (rope (eb_text b)) j" for j
    using recording_insert [OF a(1,2) that, of ?s] by simp_all
  have "\<exists>l. paste_step B placement follows at_front b v = Some (l, add_items b ?its) \<and>
      eb_ok (add_items b ?its) \<and> landing_ok (length (eb_items b) + length ?its) 0 l"
  proof (cases "is_cursor (sv_sel v)")
    case cur: True
    show ?thesis
    proof (cases "piece_is_linewise piece")
      case True
      define at where "at = (if at_front then line_offset (rope (eb_text b)) l else line_offset (rope (eb_text b)) (Suc l))"
      have at: "is_bound B (rope (eb_text b)) at" using l(4,5) by (simp add: at_def)
      have pt: "(if at_front then line_start (rope (eb_text b)) l
          else do { r \<leftarrow> line_range (rope (eb_text b)) l; Some (cr_end r) }) = Some at"
        using l(2,3) by (auto simp: at_def)
      have its: "?its = [put_item (rope (eb_text b)) at ?s]"
        using cur True p f(1) l(1) by (simp add: paste_items_def paste_line_at_def at_def Let_def)
      show ?thesis using ins [OF at] unfolding its paste_step_def by (simp add: p cur True l(1) pt)
    next
      case False
      show ?thesis
      proof (cases "?s = []")
        case True
        with cur False p a(2) show ?thesis by (simp add: paste_step_def paste_items_def Let_def)
      next
        case ne: False
        define at where "at = (if at_front then sel_start (sv_sel v) else q)"
        have at: "is_bound B (rope (eb_text b)) at" using q(2) start_bound [OF f(5)] by (simp add: at_def)
        have pt: "(if at_front then Some (sel_start (sv_sel v)) else append_point B (sv_text v) (sv_sel v)) = Some at"
          using q(1) by (simp add: at_def)
        have its: "?its = [put_item (rope (eb_text b)) at ?s]"
          using cur False ne p f(1) q(1) by (simp add: paste_items_def paste_char_at_def at_def Let_def)
        show ?thesis using ins [OF at] unfolding its paste_step_def by (simp add: p cur False ne pt)
      qed
    qed
  next
    case cur: False
    show ?thesis
    proof (cases "piece_is_linewise piece")
      case True
      define nl where "nl = (if sl \<or> follows ! sv_index v then [] else [put_item (rope (eb_text b)) (sel_start (sv_sel v)) [NL]])"
      have s1: "(if sl then Some b
          else do {
            follows \<leftarrow> nth_opt follows (sv_index v);
            if follows then Some b
            else do { (_, b) \<leftarrow> eb_insert B b (sel_start (sv_sel v)) [NL]; Some b } }) = Some (add_items b nl)"
        "eb_ok (add_items b nl)"
        using recording_insert [OF a(1,2) start_bound [OF f(5)], of "[NL]"] i a(2) by (simp_all add: nl_def nth_opt_def)
      have s2: "eb_replace B (add_items b nl) (paste_range B v) ?s =
          Some (own_mark (length (eb_items (add_items b nl))), add_items b (nl @ [swap_item (rope (eb_text b)) (paste_range B v) ?s]))"
        "eb_ok (add_items b (nl @ [swap_item (rope (eb_text b)) (paste_range B v) ?s]))"
        using recording_replace [OF a(1) s1(2), of "paste_range B v" ?s] xy(4) by simp_all
      have its: "?its = nl @ [swap_item (rope (eb_text b)) (paste_range B v) ?s]"
        using cur True p f(1) sl by (simp add: paste_items_def nl_def Let_def)
      show ?thesis using s2 unfolding its paste_step_def Let_def by (simp add: p cur True c(1) xy(1,2,3) sl s1(1))
    next
      case False
      have its: "?its = [swap_item (rope (eb_text b)) (cov_range B v) ?s]"
        using cur False p f(1) by (simp add: paste_items_def Let_def)
      show ?thesis using recording_replace [OF a(1,2) c(2), of ?s] unfolding its paste_step_def
        by (simp add: p cur False c(1) Let_def)
    qed
  qed
  then show "\<exists>l. paste_step B placement follows at_front b v = Some (l, add_items b ?its) \<and>
      eb_ok (add_items b ?its) \<and> landing_ok (length (eb_items b) + length ?its) 0 l" .
qed

lemma follows_pasted_ok:
  assumes "seg_ok B" "\<forall>v \<in> set vs. view_fits B text v \<and> placement_get placement (sv_index v) \<noteq> None"
    and "\<forall>p. prior = Some p \<longrightarrow> view_fits B text p \<and> placement_get placement (sv_index p) \<noteq> None \<and>
      (vs \<noteq> [] \<longrightarrow> sv_index (hd vs) = Suc (sv_index p))"
    and "\<forall>i. Suc i < length vs \<longrightarrow> sv_index (vs ! Suc i) = Suc (sv_index (vs ! i))"
  shows "\<exists>fs. follows_pasted B placement prior vs = Some fs \<and> length fs = length vs"
  using assms(2-4)
proof (induction vs arbitrary: prior)
  case (Cons v vs)
  have h: "vs \<noteq> [] \<longrightarrow> sv_index (hd vs) = Suc (sv_index v)" using Cons.prems(3) by (cases vs) (auto dest: spec [of _ 0])
  obtain fs where fs: "follows_pasted B placement (Some v) vs = Some fs" "length fs = length vs"
    using Cons.IH [of "Some v"] Cons.prems h by fastforce
  have "\<exists>x. (case prior of None \<Rightarrow> Some False
       | Some p \<Rightarrow>
           if is_cursor (sv_sel p) then Some False
           else do {
             i \<leftarrow> checked_sub (sv_index v) 1;
             piece \<leftarrow> placement_get placement i;
             if \<not> piece_is_linewise piece then Some False
             else do { cov \<leftarrow> covered B (sv_text p) (sv_sel p); Some (cr_end cov = sel_start (sv_sel v)) } }) = Some x"
  proof (cases prior)
    case (Some p)
    then have "view_fits B text p" "placement_get placement (sv_index p) \<noteq> None" "sv_index v = Suc (sv_index p)"
      using Cons.prems(2) by auto
    then show ?thesis using Some view_covered(1) [OF assms(1)] by (auto simp: checked_sub_def)
  qed auto
  with fs show ?case by auto
qed simp


section \<open>The text deletions leave\<close>

text \<open>A text without the chars in some gaps, each from its first position up to its second.\<close>

definition outside :: "(nat \<times> nat) list \<Rightarrow> ustring \<Rightarrow> ustring" where
  "outside gaps t = map ((!) t) (filter (\<lambda>i. \<forall>g \<in> set gaps. i < fst g \<or> snd g \<le> i) [0..<length t])"

definition cut_out :: "(nat \<times> nat) list \<Rightarrow> ustring \<Rightarrow> ustring" where
  "cut_out gaps t =
     (if ends_with_lf (outside gaps t) then outside gaps t
      else outside (map (\<lambda>g. (fst g, min (snd g) (length t - 1))) gaps) t)"

definition del_gap :: "nat \<times> nat \<Rightarrow> item" where
  "del_gap g = del_item (fst g) (snd g)"

lemma gone_del: "gone c (map del_gap gaps) i \<longleftrightarrow> (\<exists>g \<in> set gaps. fst g \<le> i \<and> i < clip c (snd g))"
  by (auto simp: gone_def del_gap_def del_item_def iend_def)

lemma concat_if: "concat (map (\<lambda>i. if P i then [f i] else []) xs) = map f (filter P xs)"
  by (induction xs) auto

lemma merged_del: "merged c (map del_gap gaps) t = outside (map (\<lambda>g. (fst g, clip c (snd g))) gaps) t"
proof -
  have "part c (map del_gap gaps) t = (\<lambda>i. if i < length t \<and> (\<forall>g \<in> set gaps. i < fst g \<or> clip c (snd g) \<le> i) then [t ! i] else [])"
    by (rule ext) (auto simp: part_def ins_at_none del_gap_def del_item_def itext_def gone_del not_le)
  then have "merged c (map del_gap gaps) t =
      map ((!) t) (filter (\<lambda>i. i < length t \<and> (\<forall>g \<in> set gaps. i < fst g \<or> clip c (snd g) \<le> i)) [0..<Suc (length t)])"
    unfolding merged_def by (simp only: concat_if)
  also have "filter (\<lambda>i. i < length t \<and> (\<forall>g \<in> set gaps. i < fst g \<or> clip c (snd g) \<le> i)) [0..<Suc (length t)] =
      filter (\<lambda>i. \<forall>g \<in> set gaps. i < fst g \<or> clip c (snd g) \<le> i) [0..<length t]"
    by (auto intro: filter_cong)
  finally show ?thesis by (simp add: outside_def)
qed

lemma edit_result_del: "edit_result (map del_gap gaps) t = cut_out gaps t"
  by (simp add: edit_result_def merged_del cut_out_def clip_def)

section \<open>What a deletion yanks\<close>

definition yank_of :: "segmentation \<Rightarrow> selection_view \<Rightarrow> piece" where
  "yank_of B v = (let t = rope (sv_text v); r = cov_range B v in
     if the (is_linewise (sv_text v) (sv_sel v)) \<and> t \<noteq> [NL]
     then \<lparr>pc_text = slice t (cr_start r) (cr_end r), pc_shape = Linewise\<rparr>
     else \<lparr>pc_text = slice t (cr_start r) (min (cr_end r) (length t - 1)), pc_shape = Charwise\<rparr>)"

lemma slice_nil [simp]: "slice t a a = []"
  by (simp add: slice_def)

lemma lf_text_slice: "CR \<notin> set t \<Longrightarrow> lf_text (slice t a b) = slice t a b"
  using set_slice_subset [of t a b] by (intro lf_text_id) blast

lemma yank_of_eq:
  assumes "seg_ok B" "view_fits B text v"
  shows "removed_piece (taken_text_of B v) (the (is_linewise (sv_text v) (sv_sel v))) = yank_of B v"
proof -
  note f = view_fitsD [OF assms(2)] and c = view_covered [OF assms] and s = view_slice_Some [OF assms]
  note rb = range_ok_bounds [OF assms(1) c(2)]
  let ?t = "rope text" and ?a = "cr_start (cov_range B v)" and ?e = "cr_end (cov_range B v)"
  have cr: "CR \<notin> set ?t" using f(2) by (simp add: buffer_ok_def is_cr_free_def)
  have nl: "?t \<noteq> []" "last ?t = NL" using f(2) by (auto simp: buffer_ok_def valid_rope_last)
  obtain a b where ab: "view_lines text (sv_sel v) = Some (a, b)" "a \<le> b" "b < nl_count ?t"
    "line_offset ?t a \<le> sel_start (sv_sel v)" "sel_start (sv_sel v) < line_offset ?t (Suc a)"
    by (rule view_lines_ok [OF f(2,3)])
  obtain lw where lw: "is_linewise text (sv_sel v) = Some lw" using view_linewise(2) [OF assms(2)] f(1) by auto
  have tk: "taken_text_of B v = the (removal_of B text (sv_sel v) (cov_range B v) lw)"
    using lw f(1) by (simp add: taken_text_of_def)
  have le: "?a \<le> min ?e (length ?t - 1)" "min ?e (length ?t - 1) \<le> length ?t" using rb by auto
  show ?thesis
  proof (cases lw)
    case True
    have "?t = [NL]" if "?a = min ?e (length ?t - 1)" "a = 0"
    proof -
      have "?a = length ?t - 1" using that(1) rb(3) by linarith
      moreover have "?a = line_offset ?t a"
      proof -
        have "starts_line text (sv_sel v) = Some True" using lw True by (auto simp: is_linewise_def split: if_splits)
        then show ?thesis using ab(1) line_facts(1) [of a ?t] ab(2,3) c(3)
          by (auto simp: starts_line_def view_lines_def bind_eq_Some_conv)
      qed
      ultimately have "length ?t - 1 = 0" using that(2) by simp
      then show ?thesis using nl by (cases ?t) auto
    qed
    moreover have "?a = min ?e (length ?t - 1) \<and> a = 0" if "?t = [NL]" using that rb ab(2,3) by auto
    ultimately have iff: "?a = min ?e (length ?t - 1) \<and> a = 0 \<longleftrightarrow> ?t = [NL]" by blast
    show ?thesis
      using True lw f(1) ab(1) s(1) iff lf_text_slice [OF cr]
      by (auto simp: tk removal_of_def yank_of_def removed_piece_def text_piece_def piece_new_def Let_def
          last_char_def len_chars_def)
  next
    case False
    then show ?thesis
      using lw f(1) le lf_text_slice [OF cr]
      by (auto simp: tk removal_of_def yank_of_def removed_piece_def text_piece_def piece_new_def Let_def
          last_char_def len_chars_def slice_opt_def)
  qed
qed

lemma foldl_snoc: "foldl (\<lambda>a v. a @ [h v]) a vs = a @ map h vs"
  by (induction vs arbitrary: a) auto

lemma yank_selections_eq:
  assumes "seg_ok B" "state_ok B state"
  shows "yank_selections B state = Some (map (yank_of B) (state_views state))"
proof -
  have "do { cov \<leftarrow> covered B (sv_text v) (sv_sel v);
      linewise \<leftarrow> is_linewise (sv_text v) (sv_sel v);
      t \<leftarrow> removal_of B (sv_text v) (sv_sel v) cov linewise;
      Some (removed_piece t linewise) } = Some (yank_of B v)" if "v \<in> set (state_views state)" for v
  proof -
    have v: "view_fits B (es_text state) v" by (rule state_views_fit [OF assms(2) that])
    obtain lw where lw: "is_linewise (sv_text v) (sv_sel v) = Some lw" using view_linewise(2) [OF v] by blast
    show ?thesis using view_covered(1) [OF assms(1) v] removal_total [OF assms(1) v] yank_of_eq [OF assms(1) v] lw by simp
  qed
  then show ?thesis unfolding yank_selections_def by (simp add: those_Some)
qed

definition gap_of :: "segmentation \<Rightarrow> selection_view \<Rightarrow> nat \<times> nat" where
  "gap_of B v = (cr_start (cov_range B v), cr_end (cov_range B v))"

lemma delete_selection_ok:
  assumes "seg_ok B" "state_ok B state"
  obtains st' e where
    "delete_selection B st state = Some (st', \<lparr>rl_edited = e, rl_yanked = map (yank_of B) (state_views state)\<rparr>)"
    "edited_ok B (es_text state) e"
    "rope (es_text (ed_state e)) = cut_out (map (gap_of B) (state_views state)) (rope (es_text state))"
proof -
  let ?g = "\<lambda>t l ys. ys @ [removed_piece t l]"
  have "list_all id (through (\<lambda>a v. ?g (taken_text_of B v) (the (is_linewise (sv_text v) (sv_sel v))) a) (\<lambda>a v. True) [] (state_views state))"
    by (simp add: through_const list_all_iff)
  from remove.edit_ok [OF assms, where st = st and g = ?g, OF this] obtain st' e where e:
    "apply_edit B st state (remove_step (remove_sel B) ?g) [] =
       Some (st', e, foldl (\<lambda>a v. ?g (taken_text_of B v) (the (is_linewise (sv_text v) (sv_sel v))) a) [] (state_views state))"
    "edited_ok B (es_text state) e"
    "rope (es_text (ed_state e)) = edit_result (concat (map (\<lambda>v. [del_item (cr_start (cov_range B v)) (cr_end (cov_range B v))])
       (state_views state))) (rope (es_text state))"
    unfolding through_const by blast
  have items: "concat (map (\<lambda>v. [del_item (cr_start (cov_range B v)) (cr_end (cov_range B v))]) vs) =
      map del_gap (map (gap_of B) vs)" for vs
    by (induction vs) (simp_all add: del_gap_def gap_of_def)
  have ys: "foldl (\<lambda>a v. ?g (taken_text_of B v) (the (is_linewise (sv_text v) (sv_sel v))) a) [] (state_views state) =
      map (yank_of B) (state_views state)"
    unfolding foldl_snoc using yank_of_eq [OF assms(1) state_views_fit [OF assms(2)]] by simp
  show thesis
    by (rule that [OF _ e(2) e(3) [unfolded items edit_result_del]])
       (use e(1) in \<open>simp add: delete_selection_def remove_each_def ys\<close>)
qed


section \<open>A deletion pasted back\<close>

text \<open>The place of a lone deletion is its start, whatever the ceiling.\<close>

lemma drive_lone:
  assumes "eb_items b = [del_item a e]" "drive b c = Some ((cs, placed), b')"
  shows "placed = [(a, a)]" "eb_items b' = [del_item a e]" "eb_text b' = eb_text b"
proof -
  have o: "drive_order [x] = [0]" for x by (simp add: drive_order_def)
  have l: "leave_unchanged (del_item a e) i js = None" for i js by (simp add: leave_unchanged_def del_item_def)
  show "placed = [(a, a)]" "eb_items b' = [del_item a e]" "eb_text b' = eb_text b"
    using assms(2) l
    by (auto simp: assms(1) drive_def o drive_step_def Let_def nth_opt_def del_item_def drive_remove_def drive_insert_def
        builder_new_def retain_to_def delete_to_def builder_retain_def builder_delete_def chars_since_def
        bind_eq_Some_conv split: if_splits option.splits)
qed


lemma not_Inl: "\<forall>x. y \<noteq> Inl x \<Longrightarrow> \<exists>a b. y = Inr (a, b)"
  by (cases y) auto

lemma finish_lone:
  assumes "eb_items b = [del_item a e]" "eb_finish B st b \<lparr>ls_items = [l], ls_primary = 0\<rparr> = Some (st', ed)"
    and "l \<in> {CursorAt (new_pos_at 0 False), LineStartOf (new_pos_at 0 False)}"
  obtains p where "sels (es_sels (ed_state ed)) = [sel_cursor p]" "primary (es_sels (ed_state ed)) = 0"
    "l = CursorAt (new_pos_at 0 False) \<Longrightarrow> snap B (es_text (ed_state ed)) a = Some p"
    "l = LineStartOf (new_pos_at 0 False) \<Longrightarrow>
       (do { k \<leftarrow> char_to_line (es_text (ed_state ed)) a; line_start (rope (es_text (ed_state ed))) k }) = Some p"
proof -
  obtain nt cs placed change ss S state where f:
    "apply_keeping_final_break st (eb_text b) drive b = Some (st', nt, cs, placed)"
    "text_change_new (eb_text b) nt cs = Some change"
    "landings_resolve B change placed [l] (resolver_new change) = Some ss"
    "from_parts ss 0 (version nt) = Some S" "from_set B nt S = Some state" "ed_state ed = state"
    using assms(2) by (auto simp: eb_finish_def bind_eq_Some_conv)
  have placed: "placed = [(a, a)]"
  proof -
    obtain cs1 o1 b1 r1 where d: "drive b None = Some ((cs1, o1), b1)" "apply_cs cs1 st (eb_text b) = Some r1"
      using f(1) by (auto simp: apply_keeping_final_break_def bind_eq_Some_conv)
    note d1 = drive_lone [OF assms(1) d(1)]
    show ?thesis
    proof (cases r1)
      case (Inr x)
      then show ?thesis using f(1) d d1(1) by (cases x) (simp add: apply_keeping_final_break_def)
    next
      case (Inl x)
      then obtain cs2 b2 where "drive b1 (Some (last_char (eb_text b))) = Some ((cs2, placed), b2)"
        using f(1) d by (cases x) (auto simp: apply_keeping_final_break_def bind_eq_Some_conv split: sum.splits dest!: not_Inl)
      then show ?thesis by (rule drive_lone(1) [OF d1(2)])
    qed
  qed
  have tx: "es_text state = nt" "es_sels state = S" using f(5) by (auto simp: from_set_def bind_eq_Some_conv)
  have ch: "tc_after change = nt" using f(2) by (auto simp: text_change_new_def split: if_splits)
  have pl: "place placed (new_pos_at 0 False) = Some a" by (simp add: placed place_def new_pos_at_def nth_opt_def)
  obtain p where p: "ss = [sel_cursor p]"
    "l = CursorAt (new_pos_at 0 False) \<Longrightarrow> snap B nt a = Some p"
    "l = LineStartOf (new_pos_at 0 False) \<Longrightarrow> (do { k \<leftarrow> char_to_line nt a; line_start (rope nt) k }) = Some p"
    using f(3) assms(3) by (auto simp: landing_resolve_def Let_def pl ch bind_eq_Some_conv split: if_splits)
  have ne: "ss \<noteq> []" "0 < length ss" using p(1) by simp_all
  obtain S' where "from_parts ss 0 (version nt) = Some S'" "sels_apart ss \<Longrightarrow> sels S' = ss \<and> primary S' = 0"
    by (rule from_parts_ok [OF ne]) blast
  then have S: "sels S = [sel_cursor p]" "primary S = 0" using f(4) p(1) by simp_all
  show thesis by (rule that [of p]) (use S p(2,3) f(6) tx in simp_all)
qed

text \<open>A position that follows a line break starts its line.\<close>

lemma line_of_start:
  assumes "l < nl_count t" "line_offset t l \<le> a" "a < line_offset t (Suc l)" "a = 0 \<or> t ! (a - 1) = NL"
  shows "line_offset t l = a"
proof (rule ccontr)
  assume ne: "line_offset t l \<noteq> a"
  then have lt: "line_offset t l < a" using assms(2) by simp
  let ?S = "line_offset t l" and ?K = "line_offset t (Suc l) - 1"
  have i: "?S \<le> a - 1" "a - 1 < ?K" using lt assms(3) by linarith+
  have len: "?K < length t" by (rule line_facts(4) [OF assms(1)])
  have "slice t ?S ?K ! (a - 1 - ?S) = t ! (a - 1)" using i len le_add_diff_inverse [OF i(1)] by (simp add: slice_def del: le_add_diff_inverse)
  moreover have "a - 1 - ?S < length (slice t ?S ?K)" using i len by simp
  ultimately have "t ! (a - 1) \<in> set (slice t ?S ?K)" by (metis nth_mem)
  with no_break_inside [OF assms(1)] assms(4) lt show False by auto
qed

lemma take_map_nth: "a \<le> length t \<Longrightarrow> map ((!) t) [0..<a] = take a t"
  by (intro nth_equalityI) auto

lemma drop_map_nth: "map ((!) t) [e..<length t] = drop e t"
  by (intro nth_equalityI) auto

lemma outside_one:
  assumes "a \<le> e" "e \<le> length t"
  shows "outside [(a, e)] t = take a t @ drop e t"
proof -
  have "[0..<length t] = [0..<a] @ [a..<e] @ [e..<length t]"
    using assms upt_add_eq_append [of 0 a "length t - a"] upt_add_eq_append [of a e "length t - e"] by simp
  then have "filter (\<lambda>i. i < a \<or> e \<le> i) [0..<length t] = [0..<a] @ [e..<length t]"
    using assms by (auto simp: filter_empty_conv intro!: filter_True)
  then show ?thesis
    using assms by (simp add: outside_def take_map_nth drop_map_nth)
qed


text \<open>The text one insertion leaves.\<close>

lemma edit_result_put:
  assumes "a < length t" "ends_with_lf t" "CR \<notin> set s"
  shows "edit_result [put_item t a s] t = take a t @ s @ drop a t" "edit_result [] t = t"
proof -
  have x: "ins_at [put_item t a s] i = (if i = a then s else [])" "\<not> gone c [put_item t a s] i" for c i
    using assms(1,3) by (auto simp: put_item_def itext_def iend_def lf_text_id)
  have pa: "part c [put_item t a s] t a = s @ [t ! a]" for c using assms(1) x by (simp add: part_def)
  have pe: "part c [put_item t a s] t (length t) = []" for c using assms(1) x by (simp add: part_def)
  have "concat (map (part None [put_item t a s] t) [0..<length t]) =
      concat (map (part None [put_item t a s] t) [0..<a]) @ (s @ [t ! a]) @
      concat (map (part None [put_item t a s] t) [Suc a..<length t])"
    using assms(1) concat_parts_split [of a "length t" "part None [put_item t a s] t"] by (simp add: upt_conv_Cons pa)
  also have "\<dots> = slice t 0 a @ (s @ [t ! a]) @ slice t (Suc a) (length t)"
    using parts_kept [of a t 0 "[put_item t a s]" None] parts_kept [of "length t" t "Suc a" "[put_item t a s]" None] assms(1) x
    by simp
  also have "\<dots> = take a t @ s @ drop a t" using assms(1) by (simp add: slice_def Cons_nth_drop_Suc)
  finally have m: "merged None [put_item t a s] t = take a t @ s @ drop a t" using pe by (simp add: merged_def)
  have "ends_with_lf (drop a t)" using assms(1,2) by (simp add: ends_with_lf_def)
  then have "ends_with_lf (take a t @ s @ drop a t)" by (intro ends_with_lf_append)
  then show "edit_result [put_item t a s] t = take a t @ s @ drop a t" using m by (simp add: edit_result_def)
  have "concat (map (part None [] t) [0..<length t]) = t"
    using parts_kept [of "length t" t 0 "[]" None] by (simp add: slice_def)
  then show "edit_result [] t = t" using assms(2) by (simp add: edit_result_def merged_def part_def)
qed

definition only_view :: "edit_state \<Rightarrow> selection \<Rightarrow> selection_view" where
  "only_view state s = \<lparr>sv_text = es_text state, sv_sel = s, sv_index = 0, sv_primary = True\<rparr>"

lemma one_view:
  assumes "state_ok B state" "sels (es_sels state) = [s]"
  shows "primary (es_sels state) = 0" "state_views state = [only_view state s]" "view_fits B (es_text state) (only_view state s)"
proof -
  show p: "primary (es_sels state) = 0" using state_okD(4) [OF assms(1)] assms(2) by simp
  show v: "state_views state = [only_view state s]" using p assms(2) by (simp add: state_views_def only_view_def)
  show "view_fits B (es_text state) (only_view state s)" using state_views_fit [OF assms(1)] v by simp
qed

lemma delete_one:
  assumes "seg_ok B" "state_ok B state" "sels (es_sels state) = [s]"
  defines "v \<equiv> only_view state s"
  defines "lw \<equiv> the (is_linewise (sv_text v) (sv_sel v))" and "a \<equiv> cr_start (cov_range B v)"
  obtains st' e p where "delete_selection B st state = Some (st', \<lparr>rl_edited = e, rl_yanked = [yank_of B v]\<rparr>)"
    "edited_ok B (es_text state) e"
    "rope (es_text (ed_state e)) = cut_out [gap_of B v] (rope (es_text state))"
    "sels (es_sels (ed_state e)) = [sel_cursor p]"
    "\<not> lw \<Longrightarrow> snap B (es_text (ed_state e)) a = Some p"
    "lw \<Longrightarrow> (do { k \<leftarrow> char_to_line (es_text (ed_state e)) a; line_start (rope (es_text (ed_state e))) k }) = Some p"
proof -
  note one = one_view [OF assms(2,3), folded v_def]
  obtain st' e where d: "delete_selection B st state = Some (st', \<lparr>rl_edited = e, rl_yanked = map (yank_of B) (state_views state)\<rparr>)"
    "edited_ok B (es_text state) e" "rope (es_text (ed_state e)) = cut_out (map (gap_of B) (state_views state)) (rope (es_text state))"
    by (rule delete_selection_ok [OF assms(1,2)])
  let ?b = "eb_new (es_text state)" and ?its = "[del_item (cr_start (cov_range B v)) (cr_end (cov_range B v))]"
  have b: "eb_ok ?b" "eb_text ?b = es_text state" "eb_items ?b = []"
    using state_okD(1) [OF assms(2)] by (simp_all add: eb_ok_def eb_new_def)
  obtain r where r: "remove_sel B ?b v = Some (r, add_items ?b ?its)" "rm_linewise r = lw"
    "rm_cursor r = (if lw then LineStartOf else CursorAt) (new_pos_at 0 False)"
    using remove_sel_ok [OF assms(1) b(1), of v] one(3) b(2,3) by (auto simp: lw_def)
  have its: "eb_items (add_items ?b ?its) = [del_item a (cr_end (cov_range B v))]" using b(3) by (simp add: a_def)
  have f: "eb_finish B st (add_items ?b ?its) \<lparr>ls_items = [rm_cursor r], ls_primary = 0\<rparr> = Some (st', e)"
    using d(1) one(1,2) r(1) assms(3)
    by (auto simp: delete_selection_def remove_each_def apply_edit_def remove_step_def landings_new_def bind_eq_Some_conv)
  have l: "rm_cursor r \<in> {CursorAt (new_pos_at 0 False), LineStartOf (new_pos_at 0 False)}" using r(3) by simp
  obtain p where p: "sels (es_sels (ed_state e)) = [sel_cursor p]"
    "rm_cursor r = CursorAt (new_pos_at 0 False) \<Longrightarrow> snap B (es_text (ed_state e)) a = Some p"
    "rm_cursor r = LineStartOf (new_pos_at 0 False) \<Longrightarrow>
       (do { k \<leftarrow> char_to_line (es_text (ed_state e)) a; line_start (rope (es_text (ed_state e))) k }) = Some p"
    by (rule finish_lone [OF its f l]) blast
  show thesis
  proof (rule that [OF _ d(2) _ p(1)])
    show "delete_selection B st state = Some (st', \<lparr>rl_edited = e, rl_yanked = [yank_of B v]\<rparr>)" using d(1) one(2) by simp
    show "rope (es_text (ed_state e)) = cut_out [gap_of B v] (rope (es_text state))" using d(3) one(2) by simp
    show "snap B (es_text (ed_state e)) a = Some p" if "\<not> lw" using p(2) r(3) that by simp
    show "(do { k \<leftarrow> char_to_line (es_text (ed_state e)) a; line_start (rope (es_text (ed_state e))) k }) = Some p" if "lw"
      using p(3) r(3) that by simp
  qed
qed

lemma cut_out_one:
  assumes "a < e" "e \<le> length t" "ends_with_lf t" "e = length t \<Longrightarrow> \<not> (a > 0 \<and> t ! (a - 1) = NL)"
  shows "cut_out [(a, e)] t = take a t @ drop (min e (length t - 1)) t"
proof (cases "e = length t")
  case True
  have "last (take a t) = t ! (a - 1)" if "a > 0" using that assms(1,2) by (subst last_conv_nth) auto
  then have "\<not> ends_with_lf (outside [(a, e)] t)"
    using assms(1,2,4) True outside_one [of a e t] by (auto simp: ends_with_lf_def)
  moreover have "outside [(a, length t - 1)] t = take a t @ drop (length t - 1) t"
    using assms(1,2) by (intro outside_one) auto
  ultimately show ?thesis using True by (simp add: cut_out_def)
next
  case False
  then have "ends_with_lf (drop e t)" using assms(2,3) by (simp add: ends_with_lf_def)
  then have "ends_with_lf (outside [(a, e)] t)" using outside_one [of a e t] assms(1,2) ends_with_lf_append by simp
  then show ?thesis using outside_one [of a e t] assms(1,2) False by (simp add: cut_out_def)
qed


section \<open>Properties\<close>

definition edit_fits :: "segmentation \<Rightarrow> edit_state \<Rightarrow> (store \<times> edited) option \<Rightarrow> bool" where
  "edit_fits B state r \<longleftrightarrow> (\<exists>st' e. r = Some (st', e) \<and> edited_ok B (es_text state) e)"

definition plan_fits :: "segmentation \<Rightarrow> edit_state \<Rightarrow> line_break_plan \<Rightarrow> bool" where
  "plan_fits B state plan \<longleftrightarrow> lp_version plan = version (es_text state) \<and>
     length (lp_breaks plan) = length (sels (es_sels state)) \<and>
     (\<forall>p \<in> set (lp_breaks plan). is_start B (rope (es_text state)) (pb_at p) \<and>
        (\<forall>r. pb_removed p = Some r \<longrightarrow> range_ok B (rope (es_text state)) r))"

lemma breaks_suit:
  assumes "length breaks = length vs" "\<forall>v \<in> set vs. sv_text v = text"
    and "\<forall>p \<in> set breaks. is_start B (rope text) (pb_at p) \<and> (\<forall>r. pb_removed p = Some r \<longrightarrow> range_ok B (rope text) r)"
  shows "list_all id (through (\<lambda>breaks v. tl breaks) (break_suits B) breaks vs)"
  using assms
proof (induction vs arbitrary: breaks)
  case (Cons v vs)
  then obtain p ps where p: "breaks = p # ps" by (cases breaks) auto
  have "list_all id (through (\<lambda>breaks v. tl breaks) (break_suits B) ps vs)"
    by (rule Cons.IH) (use Cons.prems p in simp_all)
  moreover have "break_suits B breaks v" using Cons.prems p by (simp add: break_suits_def)
  ultimately show ?case by (simp add: p id_def)
qed simp

lemma placement_total: "i < n \<Longrightarrow> placement_get (placement_new xs n join) i \<noteq> None"
  by (auto simp: placement_get_def placement_new_def nth_opt_def split: list.splits)

lemma view_index: "i < length (state_views state) \<Longrightarrow> sv_index (state_views state ! i) = i"
  by (simp add: state_views_def)

lemma view_index_less: "v \<in> set (state_views state) \<Longrightarrow> sv_index v < length (state_views state)"
  by (auto simp: state_views_def)

lemma paste_ok:
  assumes "seg_ok B" "state_ok B state" "xs \<noteq> []"
  defines "placement \<equiv> placement_new xs (length (state_views state)) join_pieces"
  obtains fs st' e where "follows_pasted B placement None (state_views state) = Some fs"
    "length fs = length (state_views state)"
    "paste_impl B st state xs at_front = Some (st', e)" "edited_ok B (es_text state) e"
    "rope (es_text (ed_state e)) =
       edit_result (concat (map (paste_items placement fs at_front B) (state_views state))) (rope (es_text state))"
proof -
  have v: "view_fits B (es_text state) v \<and> placement_get placement (sv_index v) \<noteq> None" if "v \<in> set (state_views state)" for v
    using state_views_fit [OF assms(2) that] placement_total [OF view_index_less [OF that]] by (simp add: placement_def)
  obtain fs where fs: "follows_pasted B placement None (state_views state) = Some fs" "length fs = length (state_views state)"
    using follows_pasted_ok [OF assms(1), of "state_views state" "es_text state" placement None] v view_index by fastforce
  have "\<forall>v \<in> set (state_views state). paste_suits placement fs v"
    using v view_index_less by (auto simp: paste_suits_def fs(2))
  then obtain st' e where "apply_plain B st state (paste_step B placement fs at_front) = Some (st', e)"
    "edited_ok B (es_text state) e"
    "rope (es_text (ed_state e)) =
       edit_result (concat (map (paste_items placement fs at_front B) (state_views state))) (rope (es_text state))"
    using paste.plain_edit_ok [OF assms(1,2), of placement fs st at_front] by blast
  with fs show thesis
    by (intro that) (use assms(3) in \<open>simp_all add: paste_impl_def placement_def\<close>)
qed

lemma paste_fits:
  assumes "seg_ok B" "state_ok B state"
  shows "edit_fits B state (paste_impl B st state xs at_front)"
proof (cases "xs = []")
  case True
  then show ?thesis using edited_unchanged_ok [OF assms(2)] by (simp add: edit_fits_def paste_impl_def)
next
  case False
  show ?thesis by (rule paste_ok [OF assms False, of st at_front]) (simp add: edit_fits_def)
qed

lemma insert_fits:
  assumes "seg_ok B" "state_ok B state" "\<And>i. i < length (state_views state) \<Longrightarrow> text_of i \<noteq> None"
  shows "edit_fits B state (insert_with B st state text_of)"
  using insert.plain_edit_ok [OF assms(1,2), of text_of st] assms(3) view_index_less
  by (auto simp: edit_fits_def insert_with_def)

text \<open>C38: Deleting the selections (\<open>d\<close>) never panics on a fitting state. The text loses exactly what the
  selections cover, the final line break excepted when nothing else ends it; the register gets, for each
  selection, its whole text as lines when it covers whole lines and otherwise its text short of the final
  line break; and a yank alone gives the register the very same.\<close>

theorem delete_takes_covered:
  assumes "seg_ok B" "state_ok B state"
  shows "\<exists>st' e. delete_selection B st state =
       Some (st', \<lparr>rl_edited = e, rl_yanked = map (yank_of B) (state_views state)\<rparr>) \<and>
     yank_selections B state = Some (map (yank_of B) (state_views state)) \<and> edited_ok B (es_text state) e \<and>
     rope (es_text (ed_state e)) = cut_out (map (gap_of B) (state_views state)) (rope (es_text state))"
  by (rule delete_selection_ok [OF assms, of st]) (simp add: yank_selections_eq [OF assms])

text \<open>C39: Every editing command takes a fitting state to a fitting state of the edited text, without a
  panic: deletions forward, backward and of the content, insertions of one text or of one per selection,
  line breaks by a plan made for the text, pastes of any pieces on either side, replacements of each
  selection and around each cursor, wrapping in delimiters, and inserting and deleting pairs.\<close>

theorem commands_fit:
  assumes "seg_ok B" "state_ok B state"
  shows "edit_fits B state (delete_char_forward B st state) \<and> edit_fits B state (delete_char_backward B st state) \<and>
     (\<exists>st' r. delete_selection_content B st state = Some (st', r) \<and> edited_ok B (es_text state) (rl_edited r)) \<and>
     edit_fits B state (insert_str B st state s) \<and> edit_fits B state (insert_values B st state xs) \<and>
     (plan_fits B state plan \<longrightarrow> edit_fits B state (apply_line_break_plan B st state plan)) \<and>
     edit_fits B state (paste_after B st state ps) \<and> edit_fits B state (paste_before B st state ps) \<and>
     (length xs = length (sels (es_sels state)) \<longrightarrow> edit_fits B state (replace_each_selection B st state xs)) \<and>
     (forward < 2 ^ 63 \<longrightarrow> edit_fits B state (replace_around_cursors B st state backward forward s)) \<and>
     edit_fits B state (wrap_each_selection B st state op cl) \<and> edit_fits B state (insert_pair_close B st state op cl) \<and>
     ((\<forall>s \<in> set (sels (es_sels state)). is_cursor s) \<longrightarrow> edit_fits B state (delete_pair B st state))"
proof (intro conjI impI)
  note len = state_views_props(2) [of state]
  have t: "list_all id (through l (\<lambda>a v. True) a vs)" for l and a :: 'x and vs :: "selection_view list"
    by (simp add: through_const list_all_iff)
  show "edit_fits B state (delete_char_forward B st state)"
    by (rule remove.edit_ok [OF assms t, where st = st and g = "\<lambda>_ _ u. u" and a = "()"])
       (simp add: edit_fits_def delete_char_forward_def remove_each_def)
  show "edit_fits B state (delete_char_backward B st state)"
    using backspace.plain_edit_ok [OF assms, of st] by (auto simp: edit_fits_def delete_char_backward_def delete_back_to_def)
  show "\<exists>st' r. delete_selection_content B st state = Some (st', r) \<and> edited_ok B (es_text state) (rl_edited r)"
    by (rule remove_content.edit_ok [OF assms t, where st = st and g = "\<lambda>t _ ys. ys @ [text_piece t Charwise]" and a = "[]"])
       (simp add: delete_selection_content_def remove_each_def)
  show "edit_fits B state (insert_str B st state s)" unfolding insert_str_def by (rule insert_fits [OF assms]) simp
  show "edit_fits B state (insert_values B st state xs)"
  proof (cases "xs = []")
    case True
    then show ?thesis using edited_unchanged_ok [OF assms(2)] by (simp add: insert_values_def edit_fits_def)
  next
    case False
    have "edit_fits B state (insert_with B st state (placement_get (placement_new xs (length (state_views state)) concat)))"
      by (rule insert_fits [OF assms placement_total])
    with False show ?thesis by (simp add: insert_values_def)
  qed
  show "edit_fits B state (apply_line_break_plan B st state plan)" if "plan_fits B state plan"
  proof -
    have "list_all id (through (\<lambda>breaks v. tl breaks) (break_suits B) (lp_breaks plan) (state_views state))"
      using that state_views_props(1) [of _ state] by (intro breaks_suit [of _ _ "es_text state"]) (auto simp: plan_fits_def len)
    then show ?thesis
      by (rule line_break.edit_ok [OF assms, of "lp_breaks plan" st])
         (use that len in \<open>simp add: edit_fits_def apply_line_break_plan_def plan_fits_def\<close>)
  qed
  show "edit_fits B state (paste_after B st state ps)" unfolding paste_after_def by (rule paste_fits [OF assms])
  show "edit_fits B state (paste_before B st state ps)" unfolding paste_before_def by (rule paste_fits [OF assms])
  show "edit_fits B state (replace_each_selection B st state xs)" if "length xs = length (sels (es_sels state))"
    using replace.plain_edit_ok [OF assms, of xs st] view_index_less [of _ state] that len
    by (auto simp: edit_fits_def replace_each_selection_def)
  show "edit_fits B state (replace_around_cursors B st state backward forward s)" if "forward < 2 ^ 63"
    using span.plain_edit_ok [OF assms, of forward st "\<lambda>_ _ head_at. head_at - backward" s] that
    by (auto simp: edit_fits_def replace_around_cursors_def replace_span_around_cursors_def)
  show "edit_fits B state (wrap_each_selection B st state op cl)"
    using wrap.plain_edit_ok [OF assms, of st op cl] by (auto simp: edit_fits_def wrap_each_selection_def)
  show "edit_fits B state (insert_pair_close B st state op cl)"
    using pair_close.plain_edit_ok [OF assms, of st op cl] by (auto simp: edit_fits_def insert_pair_close_def)
  show "edit_fits B state (delete_pair B st state)" if "\<forall>s \<in> set (sels (es_sels state)). is_cursor s"
    using delete_pair.plain_edit_ok [OF assms, of st] that state_views_props(1) [of _ state]
    by (auto simp: edit_fits_def delete_pair_def)
qed


lemma sel_cursor_simps [simp]:
  "is_cursor (sel_cursor i)" "sel_start (sel_cursor i) = i" "sel_last (sel_cursor i) = i" "head (sel_cursor i) = i"
  by (simp_all add: sel_cursor_def sel_new_def is_cursor_def sel_start_def sel_last_def)

text \<open>A selection that runs to the end without starting its line leaves text before it on that line.\<close>

lemma tail_in_line:
  assumes "seg_ok B" "view_fits B text v" "cr_end (cov_range B v) = length (rope text)"
    and "is_linewise (sv_text v) (sv_sel v) = Some False" "0 < sel_start (sv_sel v)"
  shows "rope text ! (sel_start (sv_sel v) - 1) \<noteq> NL"
proof
  assume nl: "rope text ! (sel_start (sv_sel v) - 1) = NL"
  note f = view_fitsD [OF assms(2)] and lc = last_char_start [OF assms(1) f(2)]
  let ?t = "rope text" and ?l = "sel_last (sv_sel v)"
  have l: "?l < length ?t" using f(6) by (simp add: is_start_def)
  note nb = next_boundary_props [of B ?t ?l, OF seg_okD(2) [OF assms(1)] l]
  have e: "next_boundary B ?t ?l = length ?t" using assms(3) f(1) by (simp add: cov_range_def)
  have "?l = length ?t - 1"
  proof (rule ccontr)
    assume "?l \<noteq> length ?t - 1"
    then have "?l < last_char text" "last_char text < next_boundary B ?t ?l"
      using l e by (simp_all add: last_char_def len_chars_def)
    with nb(4) lc(1) show False by (auto simp: is_start_def)
  qed
  moreover have "?t ! (length ?t - 1) = NL" using f(2) by (auto simp: buffer_ok_def valid_rope_last last_conv_nth)
  ultimately have brk: "ends_on_break text (sv_sel v)" using l by (simp add: ends_on_break_def char_at_def len_chars_def)
  obtain a b where ab: "view_lines text (sv_sel v) = Some (a, b)" "a \<le> b" "b < nl_count ?t"
    "line_offset ?t a \<le> sel_start (sv_sel v)" "sel_start (sv_sel v) < line_offset ?t (Suc a)"
    by (rule view_lines_ok [OF f(2,3)])
  have a: "a < nl_count ?t" using ab(2,3) by simp
  have "line_offset ?t a = sel_start (sv_sel v)" by (rule line_of_start [OF a ab(4,5)]) (use nl in simp)
  then have "starts_line text (sv_sel v) = Some True"
    using ab(1) line_facts(1) [OF a] by (auto simp: starts_line_def view_lines_def bind_eq_Some_conv)
  then show False using assms(4) brk f(1) by (simp add: is_linewise_def)
qed

lemma linewise_start:
  assumes "view_fits B text v" "is_linewise (sv_text v) (sv_sel v) = Some True"
  shows "sel_start (sv_sel v) = 0 \<or> rope text ! (sel_start (sv_sel v) - 1) = NL"
proof -
  note f = view_fitsD [OF assms(1)]
  obtain a b where ab: "view_lines text (sv_sel v) = Some (a, b)" "a \<le> b" "b < nl_count (rope text)"
    by (rule view_lines_ok [OF f(2,3)])
  have a: "a < nl_count (rope text)" using ab(2,3) by simp
  have "starts_line text (sv_sel v) = Some True" using assms(2) f(1) by (auto simp: is_linewise_def split: if_splits)
  then have s: "sel_start (sv_sel v) = line_offset (rope text) a"
    using ab(1) line_facts(1) [OF a] by (auto simp: starts_line_def view_lines_def bind_eq_Some_conv)
  show ?thesis
  proof (cases "a = 0")
    case False
    then show ?thesis using line_offset_prev_nl [of a "rope text"] a s by simp
  qed (simp add: s)
qed



text \<open>Witnesses: the demonstration text \<open>ab\<close> with cursors on its first char and its line break, and
  with one selection on its first char.\<close>

theorem delete_takes_covered_witness:
  "\<exists>st' e. delete_selection demo_seg demo_store demo_state =
       Some (st', \<lparr>rl_edited = e, rl_yanked = map (yank_of demo_seg) (state_views demo_state)\<rparr>) \<and>
     rope (es_text (ed_state e)) = [98, NL]"
proof -
  have n: "next_boundary demo_seg [97, 98, NL] 0 = 1" "next_boundary demo_seg [97, 98, NL] 2 = 3"
    by (rule next_boundary_eqI; auto simp: demo_seg_def)+
  have "map (gap_of demo_seg) (state_views demo_state) = [(0, 1), (2, 3)]"
    by (simp add: state_views_def demo_state_def demo_set_def gap_of_def cov_range_def demo_ab_def n
        sel_start_def sel_last_def upt_conv_Cons)
  moreover have "cut_out [(0, 1), (2, 3)] (rope (es_text demo_state)) = [98, NL]"
    by (simp add: demo_state_def demo_ab_def cut_out_def outside_def ends_with_lf_def upt_conv_Cons)
  ultimately show ?thesis
    using delete_takes_covered [OF demo_seg_ok demo_set_fits(3), of demo_store] by auto
qed

theorem commands_fit_witness:
  "edit_fits demo_seg demo_state (insert_str demo_seg demo_store demo_state [120]) \<and>
   edit_fits demo_seg demo_state (delete_pair demo_seg demo_store demo_state) \<and>
   edit_fits demo_seg demo_state (replace_each_selection demo_seg demo_store demo_state [[120], [121]])"
proof -
  have "\<forall>s \<in> set (sels (es_sels demo_state)). is_cursor s" "length [[120], [121::uchar]] = length (sels (es_sels demo_state))"
    by (simp_all add: demo_state_def demo_set_def is_cursor_def)
  then show ?thesis
    using commands_fit [OF demo_seg_ok demo_set_fits(3), of demo_store "[120]" "[[120], [121]]"] by blast
qed

definition demo_single :: edit_state where
  "demo_single = \<lparr>es_text = demo_ab,
     es_sels = \<lparr>sels = [\<lparr>anchor = 0, head = 0, sticky = None\<rparr>], primary = 0, set_version = version demo_ab\<rparr>\<rparr>"


end
